(* ===== verification/Prelude.thy ===== *)
theory Prelude
  imports Main "HOL-Library.Word"
begin

text \<open>
  Shared vocabulary of the development: the machine types of the Rust sources, the outcome
  type of a Rust function that may return \<^verbatim>\<open>Err\<close> or panic, and the list lemmas about
  splicing (\<open>take\<close>/\<open>drop\<close>) that every text-editing component needs.
\<close>

section \<open>Machine types\<close>

type_synonym byte = "8 word"
type_synonym u64 = "64 word"

text \<open>
  A \<^verbatim>\<open>Position\<close> (\<^verbatim>\<open>u64\<close> byte offset) and a \<^verbatim>\<open>usize\<close> length are natural numbers here: every
  arithmetic operation on them in the modelled code is guarded by a comparison with the length
  of a value held in memory, so no modelled sum can reach \<open>2 ^ 64\<close>. Counters that the sources
  advance with \<^verbatim>\<open>wrapping_add\<close> keep their width.
\<close>

type_synonym position = nat

section \<open>Outcomes of Rust functions\<close>

text \<open>
  \<open>None\<close> is a panic (an out-of-range slice, \<^verbatim>\<open>unreachable!\<close>, \<^verbatim>\<open>expect\<close>), \<open>Some (Inl e)\<close> is
  \<^verbatim>\<open>Err(e)\<close> and \<open>Some (Inr v)\<close> is \<^verbatim>\<open>Ok(v)\<close>.
\<close>

type_synonym ('e, 'a) outcome = "('e + 'a) option"

abbreviation Ok :: "'a \<Rightarrow> ('e, 'a) outcome" where
  "Ok v \<equiv> Some (Inr v)"

abbreviation Err :: "'e \<Rightarrow> ('e, 'a) outcome" where
  "Err e \<equiv> Some (Inl e)"

abbreviation Panic :: "('e, 'a) outcome" where
  "Panic \<equiv> None"

text \<open>Rust's \<^verbatim>\<open>?\<close> operator.\<close>

definition try_bind :: "('e, 'a) outcome \<Rightarrow> ('a \<Rightarrow> ('e, 'b) outcome) \<Rightarrow> ('e, 'b) outcome" where
  "try_bind m k = (case m of None \<Rightarrow> None | Some (Inl e) \<Rightarrow> Some (Inl e) | Some (Inr v) \<Rightarrow> k v)"

lemma try_bind_simps [simp]:
  "try_bind (Ok v) k = k v"
  "try_bind (Err e) k = Err e"
  "try_bind Panic k = Panic"
  by (simp_all add: try_bind_def)

lemma try_bind_Ok_iff:
  "try_bind m k = Ok b \<longleftrightarrow> (\<exists>a. m = Ok a \<and> k a = Ok b)"
  by (auto simp: try_bind_def split: option.splits sum.splits)

section \<open>Splicing lists\<close>

text \<open>
  \<open>splice_list s e ys xs\<close> replaces the half-open range \<open>[s, e)\<close> of \<open>xs\<close> by \<open>ys\<close>: the
  meaning of every edit of a byte sequence.
\<close>

named_theorems splice_simps \<open>facts about \<open>splice_list\<close> used by the component proofs\<close>

definition splice_list :: "nat \<Rightarrow> nat \<Rightarrow> 'a list \<Rightarrow> 'a list \<Rightarrow> 'a list" where
  "splice_list s e ys xs = take s xs @ ys @ drop e xs"

lemma length_splice_list [splice_simps]:
  "s \<le> e \<Longrightarrow> e \<le> length xs \<Longrightarrow> length (splice_list s e ys xs) = length xs - (e - s) + length ys"
  by (simp add: splice_list_def)

lemma splice_list_noop [splice_simps]: "splice_list s s [] xs = xs"
  by (simp add: splice_list_def)

lemma splice_list_whole [splice_simps]: "splice_list 0 (length xs) ys xs = ys"
  by (simp add: splice_list_def)

text \<open>The inverse of a splice puts the removed segment back.\<close>

lemma splice_list_inverse [splice_simps]:
  assumes "s \<le> e" and "e \<le> length xs"
  shows "splice_list s (s + length ys) (take (e - s) (drop s xs)) (splice_list s e ys xs) = xs"
proof -
  have "take s xs @ take (e - s) (drop s xs) @ drop e xs = xs"
    by (metis append_take_drop_id assms(1) drop_drop le_add_diff_inverse2)
  with assms show ?thesis
    by (simp add: splice_list_def)
qed

text \<open>A deletion followed by an insertion at its start is one splice.\<close>

lemma splice_list_fuse [splice_simps]:
  "s \<le> e \<Longrightarrow> e \<le> length xs \<Longrightarrow> splice_list s s ys (splice_list s e [] xs) = splice_list s e ys xs"
  by (simp add: splice_list_def)

lemma splice_list_append_left:
  "e \<le> length xs \<Longrightarrow> s \<le> e \<Longrightarrow> splice_list s e ys (xs @ zs) = splice_list s e ys xs @ zs"
  by (simp add: splice_list_def)

lemma splice_list_append_right:
  "length xs \<le> s \<Longrightarrow> s \<le> e \<Longrightarrow>
   splice_list s e ys (xs @ zs) = xs @ splice_list (s - length xs) (e - length xs) ys zs"
  by (simp add: splice_list_def)

section \<open>List segments\<close>

definition segment :: "nat \<Rightarrow> nat \<Rightarrow> 'a list \<Rightarrow> 'a list" where
  "segment s e xs = take (e - s) (drop s xs)"

lemma length_segment [simp]: "e \<le> length xs \<Longrightarrow> length (segment s e xs) = e - s"
  by (simp add: segment_def)

lemma segment_append:
  "segment s e (xs @ ys) =
     segment s (min e (length xs)) xs @ segment (s - length xs) (e - length xs) ys"
  by (cases "s \<le> length xs") (auto simp: segment_def min_def)

lemma segment_empty [simp]: "e \<le> s \<Longrightarrow> segment s e xs = []"
  by (simp add: segment_def)

lemma segment_eq_Nil: "segment s e xs = [] \<longleftrightarrow> e \<le> s \<or> length xs \<le> s"
  by (auto simp: segment_def)

lemma segment_all [simp]: "segment 0 (length xs) xs = xs"
  by (simp add: segment_def)

lemma segment_split:
  assumes "s \<le> m" and "m \<le> e"
  shows "segment s m xs @ segment m e xs = segment s e xs"
proof -
  have "take ((m - s) + (e - m)) (drop s xs) = take (m - s) (drop s xs) @ take (e - m) (drop (m - s) (drop s xs))"
    by (rule take_add)
  with assms show ?thesis
    by (simp add: segment_def)
qed

lemma splice_list_segment:
  "s \<le> e \<Longrightarrow> e \<le> length xs \<Longrightarrow>
   splice_list s e ys xs = segment 0 s xs @ ys @ segment e (length xs) xs"
  by (simp add: splice_list_def segment_def)

section \<open>Partial maps over lists\<close>

lemma set_map_filter_iff: "x \<in> set (List.map_filter g xs) \<longleftrightarrow> (\<exists>y \<in> set xs. g y = Some x)"
  by (auto simp: List.map_filter_def image_iff)

end
