(* ===== verification/Text_Store.thy ===== *)
theory Text_Store
  imports Prelude
begin

text \<open>
  The contract between the byte rope and the buffers that edit it: a store with a length, three
  edit operations that return the edited store inside a description, and the byte list it stands
  for. The client lemmas (no panic, inverse edits, fused edits) are proved once here.
\<close>

locale text_store =
  fixes inv :: "'r \<Rightarrow> bool"
    and abs :: "'r \<Rightarrow> 'b list"
    and len :: "'r \<Rightarrow> nat"
    and ins :: "'r \<Rightarrow> nat \<Rightarrow> 'b list \<Rightarrow> ('e, 'd) outcome"
    and del :: "'r \<Rightarrow> nat \<Rightarrow> nat \<Rightarrow> ('e, 'd) outcome"
    and repl :: "'r \<Rightarrow> nat \<Rightarrow> nat \<Rightarrow> 'b list \<Rightarrow> ('e, 'd) outcome"
    and res :: "'d \<Rightarrow> 'r"
  assumes len_abs: "inv r \<Longrightarrow> len r = length (abs r)"
    and ins_ok: "inv r \<Longrightarrow> pos \<le> len r \<Longrightarrow>
      \<exists>d. ins r pos bs = Ok d \<and> inv (res d) \<and> abs (res d) = splice_list pos pos bs (abs r)"
    and ins_err: "len r < pos \<Longrightarrow> \<exists>e. ins r pos bs = Err e"
    and del_ok: "inv r \<Longrightarrow> a \<le> b \<Longrightarrow> b \<le> len r \<Longrightarrow>
      \<exists>d. del r a b = Ok d \<and> inv (res d) \<and> abs (res d) = splice_list a b [] (abs r)"
    and del_err: "b < a \<or> len r < b \<Longrightarrow> \<exists>e. del r a b = Err e"
    and repl_ok: "inv r \<Longrightarrow> a \<le> b \<Longrightarrow> b \<le> len r \<Longrightarrow>
      \<exists>d. repl r a b bs = Ok d \<and> inv (res d) \<and> abs (res d) = splice_list a b bs (abs r)"
    and repl_err: "b < a \<or> len r < b \<Longrightarrow> \<exists>e. repl r a b bs = Err e"
begin

lemma ins_no_panic: "inv r \<Longrightarrow> ins r pos bs \<noteq> Panic"
  using ins_ok [of r pos bs] ins_err [of r pos bs] by (cases "pos \<le> len r") auto

lemma del_no_panic: "inv r \<Longrightarrow> del r a b \<noteq> Panic"
  using del_ok [of r a b] del_err [of b a r] by (cases "a \<le> b \<and> b \<le> len r") (auto simp: not_le)

lemma repl_no_panic: "inv r \<Longrightarrow> repl r a b bs \<noteq> Panic"
  using repl_ok [of r a b bs] repl_err [of b a r bs] by (cases "a \<le> b \<and> b \<le> len r") (auto simp: not_le)

lemma ins_OkD:
  assumes "inv r" and "ins r pos bs = Ok d"
  shows "pos \<le> len r \<and> inv (res d) \<and> abs (res d) = splice_list pos pos bs (abs r)"
  using assms ins_ok [of r pos bs] ins_err [of r pos bs] by (cases "pos \<le> len r") auto

lemma del_OkD:
  assumes "inv r" and "del r a b = Ok d"
  shows "a \<le> b \<and> b \<le> len r \<and> inv (res d) \<and> abs (res d) = splice_list a b [] (abs r)"
  using assms del_ok [of r a b] del_err [of b a r] by (cases "a \<le> b \<and> b \<le> len r") (auto simp: not_le)

lemma repl_OkD:
  assumes "inv r" and "repl r a b bs = Ok d"
  shows "a \<le> b \<and> b \<le> len r \<and> inv (res d) \<and> abs (res d) = splice_list a b bs (abs r)"
  using assms repl_ok [of r a b bs] repl_err [of b a r bs] by (cases "a \<le> b \<and> b \<le> len r") (auto simp: not_le)

text \<open>Replacing back the removed segment is the inverse of a replacement.\<close>

lemma repl_inverse:
  assumes "inv r" and "repl r a b bs = Ok d"
  shows "\<exists>d'. repl (res d) a (a + length bs) (segment a b (abs r)) = Ok d' \<and>
              inv (res d') \<and> abs (res d') = abs r"
proof -
  have d: "a \<le> b" "b \<le> len r" "inv (res d)" "abs (res d) = splice_list a b bs (abs r)"
    using repl_OkD [OF assms] by auto
  then have "a + length bs \<le> len (res d)"
    using assms(1) by (simp add: len_abs length_splice_list)
  then obtain d' where "repl (res d) a (a + length bs) (segment a b (abs r)) = Ok d'" "inv (res d')"
    "abs (res d') = splice_list a (a + length bs) (segment a b (abs r)) (abs (res d))"
    using repl_ok [OF d(3), of a "a + length bs" "segment a b (abs r)"] by auto
  moreover have "splice_list a (a + length bs) (segment a b (abs r)) (abs (res d)) = abs r"
    using d assms(1) splice_list_inverse [of a b "abs r" bs] by (simp add: len_abs segment_def)
  ultimately show ?thesis by auto
qed

lemma ins_inverse:
  assumes "inv r" and "ins r pos bs = Ok d"
  shows "\<exists>d'. del (res d) pos (pos + length bs) = Ok d' \<and> inv (res d') \<and> abs (res d') = abs r"
proof -
  have d: "pos \<le> len r" "inv (res d)" "abs (res d) = splice_list pos pos bs (abs r)"
    using ins_OkD [OF assms] by auto
  then have "pos + length bs \<le> len (res d)"
    using assms(1) by (simp add: len_abs length_splice_list)
  then obtain d' where "del (res d) pos (pos + length bs) = Ok d'" "inv (res d')"
    "abs (res d') = splice_list pos (pos + length bs) [] (abs (res d))"
    using del_ok [OF d(2), of pos "pos + length bs"] by auto
  moreover have "splice_list pos (pos + length bs) [] (abs (res d)) = abs r"
    using d assms(1) splice_list_inverse [of pos pos "abs r" bs] by (simp add: len_abs)
  ultimately show ?thesis by auto
qed

text \<open>Every byte outside the replaced range is found again, at its old or its shifted position.\<close>

lemma repl_keeps_outside:
  assumes "inv r" and "repl r a b bs = Ok d" and "i < len r" and "i < a \<or> b \<le> i"
  shows "abs (res d) ! (if i < a then i else i - (b - a) + length bs) = abs r ! i"
  using repl_OkD [OF assms(1,2)] assms(1,3,4)
  by (auto simp: len_abs splice_list_def nth_append)

end

end
