(* ===== verification/Rope.thy ===== *)
theory Rope
  imports Text_Store
begin

text \<open>
  The persistent byte rope of \<^verbatim>\<open>src/src/rope.rs\<close>: a B-tree of immutable byte chunks with cached
  subtree lengths. The first part translates the Rust operations (a panic is \<open>None\<close>, that of a failed
  debug assertion included), the second
  states the tree invariant and proves every operation against the byte list it represents.
  \<^verbatim>\<open>Arc\<close> sharing is invisible to a pure function and is not represented.
\<close>

section \<open>Constants and data\<close>

definition MAX_LEAF_BYTES :: nat where
  "MAX_LEAF_BYTES = 1024"

definition MAX_CHILDREN :: nat where
  "MAX_CHILDREN = 8"

datatype rnode = Leaf "byte list" | Internal "rnode list" nat

record rope =
  root :: rnode

record brange =
  range_start :: position
  range_end :: position

record crdt_op =
  peer_id :: u64
  op_bytes :: "byte list"

record edit =
  new_rope :: rope
  edit_range :: brange
  inserted_len :: nat
  edit_crdt_op :: "crdt_op option"

datatype rope_error = OutOfBounds position nat

definition range_new :: "position \<Rightarrow> position \<Rightarrow> brange" where
  "range_new s e = \<lparr>range_start = s, range_end = e\<rparr>"

definition range_len :: "brange \<Rightarrow> nat" where
  "range_len r = range_end r - range_start r"

definition range_is_empty :: "brange \<Rightarrow> bool" where
  "range_is_empty r \<longleftrightarrow> range_start r = range_end r"

section \<open>Nodes\<close>

fun node_len :: "rnode \<Rightarrow> nat" where
  "node_len (Leaf b) = length b"
| "node_len (Internal children len) = len"

definition make_internal :: "rnode list \<Rightarrow> rnode" where
  "make_internal children = Internal children (sum_list (map node_len children))"

definition empty_leaf :: rnode where
  "empty_leaf = Leaf []"

definition leaf_from :: "byte list \<Rightarrow> rnode" where
  "leaf_from bs = Leaf bs"

text \<open>\<^verbatim>\<open>children[0].depth()\<close>: a childless internal node, which panics in the source, counts as 1.\<close>

fun node_depth :: "rnode \<Rightarrow> nat" where
  "node_depth (Leaf _) = 0"
| "node_depth (Internal [] _) = 1"
| "node_depth (Internal (c # cs) _) = 1 + node_depth c"

datatype node_out = One rnode | Two rnode rnode

section \<open>Insertion\<close>

definition splice_internal :: "rnode list \<Rightarrow> nat \<Rightarrow> node_out \<Rightarrow> node_out" where
  "splice_internal children idx result =
     (let new_children =
        (case result of
           One n \<Rightarrow> take idx children @ [n] @ drop (Suc idx) children
         | Two a b \<Rightarrow> take idx children @ [a, b] @ drop (Suc idx) children)
      in if length new_children \<le> MAX_CHILDREN then One (make_internal new_children)
         else (let mid = length new_children div 2
               in Two (make_internal (take mid new_children))
                      (make_internal (drop mid new_children))))"

text \<open>
  \<open>insert_children\<close> is the \<^verbatim>\<open>for (i, child)\<close> loop of \<^verbatim>\<open>insert_small\<close>: the children still to be
  visited, all the children, the loop index and the running offset. The \<^verbatim>\<open>unreachable!\<close> after the
  loop is \<open>None\<close>.
\<close>

fun insert_small :: "rnode \<Rightarrow> position \<Rightarrow> byte list \<Rightarrow> node_out option"
  and insert_children ::
    "rnode list \<Rightarrow> rnode list \<Rightarrow> nat \<Rightarrow> nat \<Rightarrow> position \<Rightarrow> byte list \<Rightarrow> node_out option" where
  "insert_small (Leaf chunk) pos bs =
     (if MAX_LEAF_BYTES < length bs \<or> length chunk < pos then None
      else (let buf = take pos chunk @ bs @ drop pos chunk; total = length chunk + length bs
            in if total \<le> MAX_LEAF_BYTES then Some (One (leaf_from buf))
               else (let mid = total div 2
                     in Some (Two (leaf_from (take mid buf)) (leaf_from (drop mid buf))))))"
| "insert_small (Internal children len) pos bs =
     (if MAX_LEAF_BYTES < length bs \<or> len < pos then None else insert_children children children 0 0 pos bs)"
| "insert_children [] children i offset pos bs = None"
| "insert_children (child # rest) children i offset pos bs =
     (if pos \<le> offset + node_len child
      then map_option (splice_internal children i) (insert_small child (pos - offset) bs)
      else insert_children rest children (Suc i) (offset + node_len child) pos bs)"

text \<open>\<^verbatim>\<open>bytes.chunks(n)\<close> of the standard library.\<close>

fun chunks_of :: "nat \<Rightarrow> 'a list \<Rightarrow> 'a list list" where
  "chunks_of n xs =
     (if n = 0 \<or> xs = [] then [] else take n xs # chunks_of n (drop n xs))"

declare chunks_of.simps [simp del]

definition grow_root :: "node_out \<Rightarrow> rnode" where
  "grow_root out = (case out of One n \<Rightarrow> n | Two a b \<Rightarrow> make_internal [a, b])"

fun insert_loop :: "rnode \<Rightarrow> position \<Rightarrow> byte list list \<Rightarrow> rnode option" where
  "insert_loop rt at [] = Some rt"
| "insert_loop rt at (c # cs) =
     (case insert_small rt at c of
        None \<Rightarrow> None
      | Some out \<Rightarrow> insert_loop (grow_root out) (at + length c) cs)"

definition rope_new :: rope where
  "rope_new = \<lparr>root = empty_leaf\<rparr>"

definition rope_len :: "rope \<Rightarrow> nat" where
  "rope_len r = node_len (root r)"

definition rope_is_empty :: "rope \<Rightarrow> bool" where
  "rope_is_empty r \<longleftrightarrow> rope_len r = 0"

definition rope_snapshot :: "rope \<Rightarrow> rope" where
  "rope_snapshot r = r"

definition rope_insert :: "rope \<Rightarrow> position \<Rightarrow> byte list \<Rightarrow> (rope_error, edit) outcome" where
  "rope_insert r pos bs =
     (if rope_len r < pos then Err (OutOfBounds pos (rope_len r))
      else if bs = [] then
        Ok \<lparr>new_rope = r, edit_range = range_new pos pos, inserted_len = 0, edit_crdt_op = None\<rparr>
      else (case insert_loop (root r) pos (chunks_of MAX_LEAF_BYTES bs) of
              None \<Rightarrow> Panic
            | Some rt \<Rightarrow> Ok \<lparr>new_rope = \<lparr>root = rt\<rparr>, edit_range = range_new pos pos,
                            inserted_len = length bs, edit_crdt_op = None\<rparr>))"

section \<open>Deletion\<close>

text \<open>\<open>delete_children\<close> is the loop of \<^verbatim>\<open>delete_in\<close> that builds \<^verbatim>\<open>new_children\<close>.\<close>

fun delete_in :: "rnode \<Rightarrow> position \<Rightarrow> position \<Rightarrow> rnode option"
  and delete_children :: "rnode list \<Rightarrow> nat \<Rightarrow> position \<Rightarrow> position \<Rightarrow> rnode list option" where
  "delete_in (Leaf chunk) s e =
     (if s < e \<and> e \<le> length chunk \<and> \<not> (s = 0 \<and> e = length chunk)
      then Some (leaf_from (take s chunk @ drop e chunk)) else None)"
| "delete_in (Internal children len) s e =
     (if s < e \<and> e \<le> len \<and> \<not> (s = 0 \<and> e = len)
      then (case delete_children children 0 s e of
              None \<Rightarrow> None
            | Some new_children \<Rightarrow> if new_children = [] then None else Some (make_internal new_children))
      else None)"
| "delete_children [] offset s e = Some []"
| "delete_children (child # rest) offset s e =
     (let child_len = node_len child; child_end = offset + child_len
      in if e \<le> offset \<or> child_end \<le> s then
           map_option (\<lambda>cs. child # cs) (delete_children rest child_end s e)
         else if s \<le> offset \<and> child_end \<le> e then delete_children rest child_end s e
         else (case delete_in child (s - offset) (min (e - offset) child_len) of
                 None \<Rightarrow> None
               | Some c \<Rightarrow> map_option (\<lambda>cs. c # cs) (delete_children rest child_end s e)))"

fun collapse_root :: "rnode \<Rightarrow> rnode" where
  "collapse_root (Internal [only] len) = collapse_root only"
| "collapse_root n = n"

definition rope_delete :: "rope \<Rightarrow> position \<Rightarrow> position \<Rightarrow> (rope_error, edit) outcome" where
  "rope_delete r s e =
     (if e < s then Err (OutOfBounds s (rope_len r))
      else if rope_len r < e then Err (OutOfBounds e (rope_len r))
      else if s = e then
        Ok \<lparr>new_rope = r, edit_range = range_new s e, inserted_len = 0, edit_crdt_op = None\<rparr>
      else (case (if s = 0 \<and> e = rope_len r then Some empty_leaf
                  else map_option collapse_root (delete_in (root r) s e)) of
              None \<Rightarrow> Panic
            | Some rt \<Rightarrow> Ok \<lparr>new_rope = \<lparr>root = rt\<rparr>, edit_range = range_new s e,
                            inserted_len = 0, edit_crdt_op = None\<rparr>))"

definition rope_replace :: "rope \<Rightarrow> position \<Rightarrow> position \<Rightarrow> byte list \<Rightarrow> (rope_error, edit) outcome" where
  "rope_replace r s e bs =
     try_bind (rope_delete r s e) (\<lambda>after_delete.
     try_bind (rope_insert (new_rope after_delete) s bs) (\<lambda>after_insert.
       Ok \<lparr>new_rope = new_rope after_insert, edit_range = range_new s e,
           inserted_len = length bs, edit_crdt_op = None\<rparr>))"

section \<open>Reading\<close>

fun byte_at_in :: "rnode \<Rightarrow> position \<Rightarrow> byte option"
  and byte_at_children :: "rnode list \<Rightarrow> nat \<Rightarrow> position \<Rightarrow> byte option" where
  "byte_at_in (Leaf chunk) pos = (if pos < length chunk then Some (chunk ! pos) else None)"
| "byte_at_in (Internal children len) pos = byte_at_children children 0 pos"
| "byte_at_children [] offset pos = None"
| "byte_at_children (child # rest) offset pos =
     (if pos < offset + node_len child then byte_at_in child (pos - offset)
      else byte_at_children rest (offset + node_len child) pos)"

text \<open>The outer \<open>option\<close> is the panic, the inner one the \<^verbatim>\<open>Option<u8>\<close> of the source.\<close>

definition rope_byte_at :: "rope \<Rightarrow> position \<Rightarrow> byte option option" where
  "rope_byte_at r pos =
     (if rope_len r \<le> pos then Some None else map_option Some (byte_at_in (root r) pos))"

text \<open>
  \<^verbatim>\<open>slice_in\<close> fills the caller's buffer \<open>out\<close>; the result is the buffer afterwards.
  \<^verbatim>\<open>copy_from_slice\<close> panics unless the lengths agree, and so does a sub-slice past the end.
\<close>

function slice_in :: "rnode \<Rightarrow> position \<Rightarrow> position \<Rightarrow> nat \<Rightarrow> byte list \<Rightarrow> byte list option"
  and slice_children ::
    "rnode list \<Rightarrow> position \<Rightarrow> position \<Rightarrow> nat \<Rightarrow> nat \<Rightarrow> byte list \<Rightarrow> byte list option" where
  "slice_in (Leaf chunk) s e node_offset out =
     (if node_offset \<le> s \<and> s \<le> e \<and> e - node_offset \<le> length chunk \<and> length out = e - s
      then Some (segment (s - node_offset) (e - node_offset) chunk) else None)"
| "slice_in (Internal children len) s e node_offset out =
     slice_children children s e node_offset 0 out"
| "slice_children [] s e offset written out = Some out"
| "slice_children (child # rest) s e offset written out =
     (let child_end = offset + node_len child
      in if e \<le> offset then Some out
         else if s < child_end \<and> max s offset < min e child_end then
           (let take_start = max s offset; take_end = min e child_end; tk = take_end - take_start
            in if length out < written + tk then None
               else (case slice_in child take_start take_end offset (take tk (drop written out)) of
                       None \<Rightarrow> None
                     | Some part \<Rightarrow>
                         slice_children rest s e child_end (written + tk)
                           (take written out @ part @ drop (written + tk) out)))
         else slice_children rest s e child_end written out)"
  by pat_completeness auto
termination
  by (relation "measure (\<lambda>x. case x of Inl a \<Rightarrow> size (fst a) | Inr b \<Rightarrow> size_list size (fst b))") simp_all

definition rope_slice :: "rope \<Rightarrow> position \<Rightarrow> position \<Rightarrow> byte list \<Rightarrow> byte list option" where
  "rope_slice r s e out =
     (if s \<le> e \<and> e \<le> rope_len r \<and> length out = e - s
      then (if out = [] then Some out else slice_in (root r) s e 0 out) else None)"

fun collect_leaves :: "rnode \<Rightarrow> position \<Rightarrow> position \<Rightarrow> nat \<Rightarrow> byte list list"
  and collect_children :: "rnode list \<Rightarrow> position \<Rightarrow> position \<Rightarrow> nat \<Rightarrow> byte list list" where
  "collect_leaves (Leaf chunk) s e node_offset =
     (if e \<le> node_offset \<or> node_offset + length chunk \<le> s then []
      else (let local_start = s - node_offset; local_end = min (e - node_offset) (length chunk)
            in if local_start < local_end then [segment local_start local_end chunk] else []))"
| "collect_leaves (Internal children len) s e node_offset = collect_children children s e node_offset"
| "collect_children [] s e offset = []"
| "collect_children (child # rest) s e offset =
     (let child_end = offset + node_len child
      in if e \<le> offset then []
         else (if s < child_end then collect_leaves child s e offset else []) @
              collect_children rest s e child_end)"

definition rope_chunks :: "rope \<Rightarrow> position \<Rightarrow> position \<Rightarrow> byte list list" where
  "rope_chunks r s e = (if s < e then collect_leaves (root r) s e 0 else [])"

section \<open>Bulk construction\<close>

definition group_take :: "nat \<Rightarrow> nat" where
  "group_take remaining =
     (if MAX_CHILDREN < remaining \<and> remaining - MAX_CHILDREN = 1 then MAX_CHILDREN - 1
      else min remaining MAX_CHILDREN)"

lemma group_take_pos [simp]: "0 < n \<Longrightarrow> 0 < group_take n"
  by (simp add: group_take_def MAX_CHILDREN_def)

lemma group_take_ge2: "1 < n \<Longrightarrow> 2 \<le> group_take n"
  by (auto simp: group_take_def MAX_CHILDREN_def)

text \<open>One pass of the outer \<^verbatim>\<open>while\<close>: the inner loop that packs \<^verbatim>\<open>current\<close> into \<^verbatim>\<open>next\<close>.\<close>

function pack_level :: "rnode list \<Rightarrow> rnode list" where
  "pack_level current =
     (if current = [] then []
      else make_internal (take (group_take (length current)) current) #
           pack_level (drop (group_take (length current)) current))"
  by pat_completeness auto
termination
  by (relation "measure length") auto

declare pack_level.simps [simp del]

lemma pack_level_Nil [simp]: "pack_level [] = []"
  by (simp add: pack_level.simps)

lemma pack_level_single [simp]: "pack_level [n] = [make_internal [n]]"
  by (simp add: pack_level.simps [of "[n]"] group_take_def MAX_CHILDREN_def)

lemma length_pack_level: "length (pack_level ns) \<le> (length ns + 1) div 2"
proof (induction ns rule: pack_level.induct)
  case (1 ns)
  show ?case
  proof (cases "length ns \<le> 1")
    case True
    then consider "ns = []" | n where "ns = [n]"
      by (cases ns) auto
    then show ?thesis
      by cases simp_all
  next
    case False
    then have "2 \<le> group_take (length ns)" and "ns \<noteq> []"
      by (auto intro: group_take_ge2)
    let ?rest = "drop (group_take (length ns)) ns"
    have "length ?rest + 2 \<le> length ns"
      using False \<open>2 \<le> group_take (length ns)\<close> by auto
    then have "Suc ((length ?rest + 1) div 2) \<le> (length ns + 1) div 2"
      by linarith
    moreover have "length (pack_level ?rest) \<le> (length ?rest + 1) div 2"
      using 1 \<open>ns \<noteq> []\<close> by blast
    ultimately show ?thesis
      using \<open>ns \<noteq> []\<close> by (subst pack_level.simps) (simp del: length_drop)
  qed
qed

lemma length_pack_level_less: "1 < length ns \<Longrightarrow> length (pack_level ns) < length ns"
  using length_pack_level [of ns] by linarith

function build_levels :: "rnode list \<Rightarrow> rnode" where
  "build_levels current =
     (if 1 < length current then build_levels (pack_level current)
      else (case current of [] \<Rightarrow> empty_leaf | n # _ \<Rightarrow> n))"
  by pat_completeness auto
termination
  by (relation "measure length") (auto simp: length_pack_level_less)

declare build_levels.simps [simp del]

definition build_balanced_from_nodes :: "rnode list \<Rightarrow> rnode" where
  "build_balanced_from_nodes nodes =
     (case nodes of [] \<Rightarrow> empty_leaf | [n] \<Rightarrow> n | _ \<Rightarrow> build_levels nodes)"

definition rope_from_bytes :: "byte list \<Rightarrow> rope" where
  "rope_from_bytes bs =
     (if bs = [] then rope_new
      else \<lparr>root = build_balanced_from_nodes (map Leaf (chunks_of MAX_LEAF_BYTES bs))\<rparr>)"

section \<open>The byte sequence a rope represents, and the tree invariant\<close>

fun content :: "rnode \<Rightarrow> byte list" where
  "content (Leaf b) = b"
| "content (Internal children len) = concat (map content children)"

text \<open>
  \<open>wf_node d n\<close>: every leaf of \<open>n\<close> is at depth \<open>d\<close> and holds between one and \<open>MAX_LEAF_BYTES\<close>
  bytes, every internal node has between one and \<open>MAX_CHILDREN\<close> children and caches their length.
\<close>

fun wf_node :: "nat \<Rightarrow> rnode \<Rightarrow> bool" where
  "wf_node 0 (Leaf b) \<longleftrightarrow> b \<noteq> [] \<and> length b \<le> MAX_LEAF_BYTES"
| "wf_node (Suc d) (Internal cs len) \<longleftrightarrow>
     cs \<noteq> [] \<and> length cs \<le> MAX_CHILDREN \<and> len = sum_list (map node_len cs) \<and> (\<forall>c \<in> set cs. wf_node d c)"
| "wf_node _ _ \<longleftrightarrow> False"

definition rope_inv :: "rope \<Rightarrow> bool" where
  "rope_inv r \<longleftrightarrow> root r = Leaf [] \<or> wf_node (node_depth (root r)) (root r)"

definition contents :: "rope \<Rightarrow> byte list" where
  "contents r = content (root r)"

abbreviation concats :: "rnode list \<Rightarrow> byte list" where
  "concats cs \<equiv> concat (map content cs)"

lemma wf_node_Leaf [simp]: "wf_node d (Leaf b) \<longleftrightarrow> d = 0 \<and> b \<noteq> [] \<and> length b \<le> MAX_LEAF_BYTES"
  by (cases d) auto

lemma wf_node_Internal:
  "wf_node d (Internal cs len) \<longleftrightarrow>
     (\<exists>d'. d = Suc d' \<and> cs \<noteq> [] \<and> length cs \<le> MAX_CHILDREN \<and>
        len = sum_list (map node_len cs) \<and> (\<forall>c \<in> set cs. wf_node d' c))"
  by (cases d) auto

lemma wf_node_len: "wf_node d n \<Longrightarrow> node_len n = length (content n)"
proof (induction d n rule: wf_node.induct)
  case (2 d cs len)
  then have "map node_len cs = map (\<lambda>c. length (content c)) cs"
    by simp
  with 2 show ?case
    by (simp add: length_concat comp_def)
qed auto

lemma wf_nodes_len:
  "\<forall>c \<in> set cs. wf_node d c \<Longrightarrow> sum_list (map node_len cs) = length (concats cs)"
  by (induction cs) (auto simp: wf_node_len)

lemma wf_node_nonempty: "wf_node d n \<Longrightarrow> content n \<noteq> []"
proof (induction d n rule: wf_node.induct)
  case (2 d cs len)
  then obtain c cs' where "cs = c # cs'"
    by (cases cs) auto
  with 2 show ?case by auto
qed auto

lemma wf_node_depth: "wf_node d n \<Longrightarrow> node_depth n = d"
proof (induction d n rule: wf_node.induct)
  case (2 d cs len)
  then obtain c cs' where "cs = c # cs'"
    by (cases cs) auto
  with 2 show ?case by auto
qed auto

lemma rope_inv_iff: "rope_inv r \<longleftrightarrow> root r = Leaf [] \<or> (\<exists>d. wf_node d (root r))"
  using wf_node_depth by (auto simp: rope_inv_def)

lemma rope_len_contents: "rope_inv r \<Longrightarrow> rope_len r = length (contents r)"
  by (auto simp: rope_inv_iff rope_len_def contents_def wf_node_len)

lemma wf_make_internal:
  "cs \<noteq> [] \<Longrightarrow> length cs \<le> MAX_CHILDREN \<Longrightarrow> \<forall>c \<in> set cs. wf_node d c \<Longrightarrow>
   wf_node (Suc d) (make_internal cs)"
  by (simp add: make_internal_def)

lemma content_make_internal [simp]: "content (make_internal cs) = concats cs"
  by (simp add: make_internal_def)

lemma rope_inv_new [simp]: "rope_inv rope_new" and contents_new [simp]: "contents rope_new = []"
  by (simp_all add: rope_inv_def contents_def rope_new_def empty_leaf_def)

section \<open>Insertion is a splice\<close>

fun out_content :: "node_out \<Rightarrow> byte list" where
  "out_content (One n) = content n"
| "out_content (Two a b) = content a @ content b"

fun wf_out :: "nat \<Rightarrow> node_out \<Rightarrow> bool" where
  "wf_out d (One n) \<longleftrightarrow> wf_node d n"
| "wf_out d (Two a b) \<longleftrightarrow> wf_node d a \<and> wf_node d b"

lemma content_grow_root [simp]: "content (grow_root out) = out_content out"
  by (cases out) (simp_all add: grow_root_def)

lemma wf_grow_root: "wf_out d out \<Longrightarrow> \<exists>d'. wf_node d' (grow_root out)"
proof (cases out)
  case (Two a b)
  assume "wf_out d out"
  with Two have "wf_node (Suc d) (make_internal [a, b])"
    by (intro wf_make_internal) (auto simp: MAX_CHILDREN_def)
  with Two show ?thesis by (auto simp: grow_root_def)
qed (auto simp: grow_root_def)

text \<open>A list of one to nine well-formed children becomes one node, or two of at most eight.\<close>

lemma pack_children:
  assumes ne: "cs \<noteq> []" and len: "length cs \<le> Suc MAX_CHILDREN" and wf: "\<forall>c \<in> set cs. wf_node d c"
  defines "out \<equiv> if length cs \<le> MAX_CHILDREN then One (make_internal cs)
     else Two (make_internal (take (length cs div 2) cs)) (make_internal (drop (length cs div 2) cs))"
  shows "wf_out (Suc d) out \<and> out_content out = concats cs"
proof (cases "length cs \<le> MAX_CHILDREN")
  case True
  with ne wf show ?thesis by (simp add: out_def wf_make_internal)
next
  case False
  with len have l: "length cs = 9" by (simp add: MAX_CHILDREN_def)
  let ?a = "take 4 cs" and ?b = "drop 4 cs"
  have "wf_node (Suc d) (make_internal ?a)"
    using l wf by (intro wf_make_internal) (auto simp: MAX_CHILDREN_def dest: in_set_takeD)
  moreover have "wf_node (Suc d) (make_internal ?b)"
    using l wf by (intro wf_make_internal) (auto simp: MAX_CHILDREN_def dest: in_set_dropD)
  moreover have "concats ?a @ concats ?b = concats cs"
    by (metis append_take_drop_id concat_append map_append)
  ultimately show ?thesis
    using l by (simp add: out_def MAX_CHILDREN_def)
qed

lemma splice_internal_correct:
  assumes wf: "\<forall>c \<in> set (pre @ c # post). wf_node d c" and len: "length (pre @ c # post) \<le> MAX_CHILDREN"
    and out: "wf_out d out"
  shows "wf_out (Suc d) (splice_internal (pre @ c # post) (length pre) out) \<and>
         out_content (splice_internal (pre @ c # post) (length pre) out) =
           concats pre @ out_content out @ concats post"
proof (cases out)
  case (One n)
  with assms show ?thesis
    using pack_children [of "pre @ n # post" d]
    by (auto simp: splice_internal_def Let_def)
next
  case (Two a b)
  with assms show ?thesis
    using pack_children [of "pre @ a # b # post" d]
    by (auto simp: splice_internal_def Let_def)
qed

lemma insert_leaf_correct:
  assumes "length chunk \<le> MAX_LEAF_BYTES" and "pos \<le> length chunk"
    and "bs \<noteq> []" and "length bs \<le> MAX_LEAF_BYTES"
  shows "\<exists>out. insert_small (Leaf chunk) pos bs = Some out \<and> wf_out 0 out \<and>
           out_content out = splice_list pos pos bs chunk"
proof -
  let ?buf = "take pos chunk @ bs @ drop pos chunk"
  have len: "length ?buf = length chunk + length bs" using assms by simp
  show ?thesis
  proof (cases "length chunk + length bs \<le> MAX_LEAF_BYTES")
    case True
    with assms len show ?thesis
      by (simp add: Let_def leaf_from_def splice_list_def)
  next
    case False
    let ?m = "(length chunk + length bs) div 2"
    have "1 \<le> ?m" and "?m \<le> MAX_LEAF_BYTES" and "length ?buf - ?m \<le> MAX_LEAF_BYTES" and "?m < length ?buf"
      using False assms len by (auto simp: MAX_LEAF_BYTES_def)
    then have "wf_node 0 (Leaf (take ?m ?buf))" and "wf_node 0 (Leaf (drop ?m ?buf))"
      by (auto simp del: take_append drop_append)
    moreover have "insert_small (Leaf chunk) pos bs = Some (Two (Leaf (take ?m ?buf)) (Leaf (drop ?m ?buf)))"
      using False assms by (simp add: Let_def leaf_from_def del: take_append drop_append)
    ultimately show ?thesis
      by (simp add: splice_list_def del: take_append drop_append)
  qed
qed

lemma splice_point_append_left:
  "pos \<le> length xs \<Longrightarrow> splice_list pos pos bs (xs @ zs) = splice_list pos pos bs xs @ zs"
  by (simp add: splice_list_append_left)

lemma splice_point_append_right:
  "length xs \<le> pos \<Longrightarrow> splice_list pos pos bs (xs @ zs) = xs @ splice_list (pos - length xs) (pos - length xs) bs zs"
  by (simp add: splice_list_append_right)

lemma insert_small_correct:
  "wf_node d n \<Longrightarrow> pos \<le> node_len n \<Longrightarrow> bs \<noteq> [] \<Longrightarrow> length bs \<le> MAX_LEAF_BYTES \<Longrightarrow>
     \<exists>out. insert_small n pos bs = Some out \<and> wf_out d out \<and>
           out_content out = splice_list pos pos bs (content n)"
  "\<forall>c \<in> set children. wf_node d c \<Longrightarrow> children = pre @ rest \<Longrightarrow> rest \<noteq> [] \<Longrightarrow> i = length pre \<Longrightarrow>
     length children \<le> MAX_CHILDREN \<Longrightarrow> offset = length (concats pre) \<Longrightarrow> offset \<le> pos \<Longrightarrow>
     pos \<le> length (concats children) \<Longrightarrow> bs \<noteq> [] \<Longrightarrow> length bs \<le> MAX_LEAF_BYTES \<Longrightarrow>
     \<exists>out. insert_children rest children i offset pos bs = Some out \<and> wf_out (Suc d) out \<and>
           out_content out = splice_list pos pos bs (concats children)"
proof (induction n pos bs and rest children i offset pos bs arbitrary: d and d pre
    rule: insert_small_insert_children.induct)
  case (1 chunk pos bs)
  then show ?case using insert_leaf_correct [of chunk pos bs] by simp
next
  case (2 children len pos bs)
  then obtain d' where d: "d = Suc d'" and wf: "\<forall>c \<in> set children. wf_node d' c"
    and "children \<noteq> []" "length children \<le> MAX_CHILDREN" "len = sum_list (map node_len children)"
    by (auto simp: wf_node_Internal)
  with 2 show ?case
    using "2.IH" [of d' "[]"] by (simp add: wf_nodes_len [OF wf] not_less)
next
  case (3 children i offset pos bs)
  then show ?case by simp
next
  case (4 child rest children i offset pos bs)
  have wc: "wf_node d child" and lc: "node_len child = length (content child)"
    using "4.prems" by (auto intro: wf_node_len)
  show ?case
  proof (cases "pos \<le> offset + node_len child")
    case True
    then obtain out where out: "insert_small child (pos - offset) bs = Some out" "wf_out d out"
      "out_content out = splice_list (pos - offset) (pos - offset) bs (content child)"
      using "4.IH"(1) wc "4.prems" by (metis le_diff_conv add.commute)
    let ?o = "splice_internal (pre @ child # rest) (length pre) out"
    have "wf_out (Suc d) ?o \<and> out_content ?o = concats pre @ out_content out @ concats rest"
      using "4.prems" out by (intro splice_internal_correct) auto
    moreover have "splice_list pos pos bs (concats (pre @ child # rest)) =
        concats pre @ splice_list (pos - offset) (pos - offset) bs (content child) @ concats rest"
      using "4.prems" True lc by (simp add: splice_point_append_right splice_point_append_left)
    ultimately show ?thesis
      using True out "4.prems" by simp
  next
    case False
    then have "rest \<noteq> []"
      using "4.prems" lc by auto
    then have "\<exists>out. insert_children rest children (Suc i) (offset + node_len child) pos bs = Some out \<and>
        wf_out (Suc d) out \<and> out_content out = splice_list pos pos bs (concats children)"
      using False "4.prems" lc by (intro "4.IH"(2) [of d "pre @ [child]"]) auto
    with False show ?thesis by simp
  qed
qed

lemma insert_root_correct:
  assumes "rope_inv r" and "pos \<le> rope_len r" and "bs \<noteq> []" and "length bs \<le> MAX_LEAF_BYTES"
  shows "\<exists>out d. insert_small (root r) pos bs = Some out \<and> wf_out d out \<and>
           out_content out = splice_list pos pos bs (contents r)"
proof (cases "root r = Leaf []")
  case True
  then show ?thesis
    using assms insert_leaf_correct [of "[]" pos bs] by (auto simp: rope_len_def contents_def)
next
  case False
  with assms obtain d where "wf_node d (root r)" by (auto simp: rope_inv_iff)
  with assms show ?thesis
    using insert_small_correct(1) [of d "root r" pos bs] by (auto simp: rope_len_def contents_def)
qed

lemma splice_list_two_points:
  "pos \<le> length xs \<Longrightarrow>
   splice_list (pos + length as) (pos + length as) bs (splice_list pos pos as xs) = splice_list pos pos (as @ bs) xs"
  by (simp add: splice_list_def)

lemma insert_loop_correct:
  assumes "rope_inv r" and "pos \<le> rope_len r" and "\<forall>c \<in> set cs. c \<noteq> [] \<and> length c \<le> MAX_LEAF_BYTES"
  shows "\<exists>rt. insert_loop (root r) pos cs = Some rt \<and> rope_inv \<lparr>root = rt\<rparr> \<and>
           content rt = splice_list pos pos (concat cs) (contents r)"
  using assms
proof (induction cs arbitrary: r pos)
  case Nil
  then show ?case by (simp add: contents_def rope_inv_def splice_list_noop)
next
  case (Cons c cs)
  then obtain out d where out: "insert_small (root r) pos c = Some out" "wf_out d out"
    "out_content out = splice_list pos pos c (contents r)"
    using insert_root_correct [of r pos c] by auto
  let ?r = "\<lparr>root = grow_root out\<rparr> :: rope"
  have inv: "rope_inv ?r"
    using wf_grow_root [OF out(2)] by (simp add: rope_inv_iff)
  have con: "contents ?r = splice_list pos pos c (contents r)"
    using out by (simp add: contents_def)
  have len: "pos \<le> length (contents r)"
    using Cons.prems rope_len_contents by simp
  then have "pos + length c \<le> rope_len ?r"
    using inv con by (simp add: rope_len_contents length_splice_list)
  then obtain rt where "insert_loop (root ?r) (pos + length c) cs = Some rt" "rope_inv \<lparr>root = rt\<rparr>"
    "content rt = splice_list (pos + length c) (pos + length c) (concat cs) (contents ?r)"
    using Cons.IH [OF inv] Cons.prems by auto
  with out con len show ?case
    by (simp add: splice_list_two_points)
qed

lemma chunks_of_Nil [simp]: "chunks_of n [] = []"
  by (simp add: chunks_of.simps)

lemma concat_chunks_of: "0 < n \<Longrightarrow> concat (chunks_of n xs) = xs"
  by (induction n xs rule: chunks_of.induct) (subst chunks_of.simps, auto)

lemma chunks_of_bounds: "c \<in> set (chunks_of n xs) \<Longrightarrow> c \<noteq> [] \<and> length c \<le> n"
proof (induction n xs rule: chunks_of.induct)
  case (1 n xs)
  then show ?case
    by (subst (asm) chunks_of.simps) (auto split: if_splits)
qed

lemma rope_insert_correct:
  assumes "rope_inv r" and "pos \<le> rope_len r"
  shows "\<exists>ed. rope_insert r pos bs = Ok ed \<and> rope_inv (new_rope ed) \<and>
           contents (new_rope ed) = splice_list pos pos bs (contents r) \<and>
           edit_range ed = range_new pos pos \<and> inserted_len ed = length bs \<and> edit_crdt_op ed = None"
proof (cases "bs = []")
  case True
  with assms show ?thesis by (simp add: rope_insert_def splice_list_noop)
next
  case False
  let ?cs = "chunks_of MAX_LEAF_BYTES bs"
  have "\<forall>c \<in> set ?cs. c \<noteq> [] \<and> length c \<le> MAX_LEAF_BYTES"
    using chunks_of_bounds by blast
  moreover have "concat ?cs = bs"
    by (simp add: concat_chunks_of MAX_LEAF_BYTES_def)
  ultimately show ?thesis
    using assms False insert_loop_correct [of r pos ?cs]
    by (auto simp: rope_insert_def contents_def)
qed

section \<open>Deletion is a splice\<close>

lemma splice_cut_append:
  "s \<le> e \<Longrightarrow> splice_list s e [] (xs @ zs) =
     splice_list (min s (length xs)) (min e (length xs)) [] xs @
     splice_list (s - length xs) (e - length xs) [] zs"
  by (cases "s \<le> length xs"; cases "e \<le> length xs") (auto simp: splice_list_def min_def)

lemma splice_cut_outside: "e = 0 \<or> length xs \<le> s \<Longrightarrow> s \<le> e \<Longrightarrow> splice_list s e [] xs = xs"
  by (auto simp: splice_list_def)

lemma splice_cut_all: "length xs \<le> e \<Longrightarrow> splice_list 0 e [] xs = []"
  by (simp add: splice_list_def)

lemma delete_in_correct:
  "wf_node d n \<Longrightarrow> s < e \<Longrightarrow> e \<le> node_len n \<Longrightarrow> \<not> (s = 0 \<and> e = node_len n) \<Longrightarrow>
     \<exists>n'. delete_in n s e = Some n' \<and> wf_node d n' \<and> content n' = splice_list s e [] (content n)"
  "\<forall>c \<in> set rest. wf_node d c \<Longrightarrow> s < e \<Longrightarrow>
     \<exists>cs. delete_children rest offset s e = Some cs \<and> (\<forall>c \<in> set cs. wf_node d c) \<and>
          length cs \<le> length rest \<and>
          concats cs = splice_list (s - offset) (e - offset) [] (concats rest)"
proof (induction n s e and rest offset s e arbitrary: d and d rule: delete_in_delete_children.induct)
  case (1 chunk s e)
  then have "take s chunk @ drop e chunk \<noteq> []" by auto
  with 1 show ?case by (auto simp: leaf_from_def splice_list_def MAX_LEAF_BYTES_def)
next
  case (2 children len s e)
  then obtain d' where d: "d = Suc d'" and wf: "\<forall>c \<in> set children. wf_node d' c"
    and b: "length children \<le> MAX_CHILDREN" and len: "len = length (concats children)"
    by (auto simp: wf_node_Internal wf_nodes_len)
  obtain cs where cs: "delete_children children 0 s e = Some cs" "\<forall>c \<in> set cs. wf_node d' c"
    "length cs \<le> length children" "concats cs = splice_list s e [] (concats children)"
    using "2.IH" [OF _ wf] "2.prems" by auto
  have "length (concats cs) = length (concats children) - (e - s)"
    using cs "2.prems" len by (simp add: length_splice_list)
  then have "0 < length (concats cs)"
    using "2.prems" len by (auto simp del: length_concat)
  then have "cs \<noteq> []" by auto
  with cs b d "2.prems" show ?case by (simp add: wf_make_internal)
next
  case (3 offset s e)
  then show ?case by (simp add: splice_list_def)
next
  case (4 child rest offset s e)
  define l where "l = node_len child"
  have wc: "wf_node d child" and lc: "length (content child) = l" and ln: "node_len child = l"
    using "4.prems" by (auto simp: l_def wf_node_len)
  have cut: "splice_list (s - offset) (e - offset) [] (concats (child # rest)) =
      splice_list (min (s - offset) l) (min (e - offset) l) [] (content child) @
      splice_list (s - (offset + l)) (e - (offset + l)) [] (concats rest)"
    using "4.prems" lc by (simp add: splice_cut_append diff_diff_eq)
  consider (outside) "e \<le> offset \<or> offset + l \<le> s"
    | (consumed) "\<not> (e \<le> offset \<or> offset + l \<le> s)" "s \<le> offset \<and> offset + l \<le> e"
    | (partial) "\<not> (e \<le> offset \<or> offset + l \<le> s)" "\<not> (s \<le> offset \<and> offset + l \<le> e)"
    by blast
  then show ?case
  proof cases
    case outside
    then obtain cs where "delete_children rest (offset + l) s e = Some cs" "\<forall>c \<in> set cs. wf_node d c"
      "length cs \<le> length rest" "concats cs = splice_list (s - (offset + l)) (e - (offset + l)) [] (concats rest)"
      using "4.IH"(1) [OF refl refl] "4.prems" ln by force
    moreover have "splice_list (min (s - offset) l) (min (e - offset) l) [] (content child) = content child"
      using outside "4.prems" lc by (intro splice_cut_outside) auto
    ultimately show ?thesis
      using outside cut wc ln by simp
  next
    case consumed
    then obtain cs where "delete_children rest (offset + l) s e = Some cs" "\<forall>c \<in> set cs. wf_node d c"
      "length cs \<le> length rest" "concats cs = splice_list (s - (offset + l)) (e - (offset + l)) [] (concats rest)"
      using "4.IH"(2) [OF refl refl] "4.prems" ln by force
    moreover have "splice_list (min (s - offset) l) (min (e - offset) l) [] (content child) = []"
      using consumed lc by (auto simp: splice_list_def)
    ultimately show ?thesis
      using consumed cut wc ln by simp
  next
    case partial
    let ?s = "s - offset" and ?e = "min (e - offset) l"
    have "\<exists>n'. delete_in child ?s ?e = Some n' \<and> wf_node d n' \<and> content n' = splice_list ?s ?e [] (content child)"
      using partial wc ln "4.prems"
      by (intro "4.IH"(3) [OF refl refl, unfolded ln]) (auto simp: min_def)
    then obtain n' where n': "delete_in child ?s ?e = Some n'" "wf_node d n'"
      "content n' = splice_list ?s ?e [] (content child)" by blast
    then obtain cs where "delete_children rest (offset + l) s e = Some cs" "\<forall>c \<in> set cs. wf_node d c"
      "length cs \<le> length rest" "concats cs = splice_list (s - (offset + l)) (e - (offset + l)) [] (concats rest)"
      using "4.IH"(4) [OF refl refl] partial "4.prems" ln by force
    moreover have "min ?s l = ?s" using partial by linarith
    ultimately show ?thesis
      using partial n' cut ln by (auto simp: Let_def)
  qed
qed

lemma content_collapse_root [simp]: "content (collapse_root n) = content n"
  by (induction n rule: collapse_root.induct) auto

lemma wf_collapse_root: "wf_node d n \<Longrightarrow> \<exists>d'. wf_node d' (collapse_root n)"
  by (induction n arbitrary: d rule: collapse_root.induct) (auto simp: wf_node_Internal)

lemma rope_delete_correct:
  assumes inv: "rope_inv r" and "s \<le> e" and "e \<le> rope_len r"
  shows "\<exists>ed. rope_delete r s e = Ok ed \<and> rope_inv (new_rope ed) \<and>
           contents (new_rope ed) = splice_list s e [] (contents r) \<and>
           edit_range ed = range_new s e \<and> inserted_len ed = 0 \<and> edit_crdt_op ed = None"
proof -
  consider (empty) "s = e" | (whole) "s \<noteq> e" "s = 0 \<and> e = rope_len r"
    | (part) "s < e" "\<not> (s = 0 \<and> e = rope_len r)"
    using assms by linarith
  then show ?thesis
  proof cases
    case empty
    with assms show ?thesis by (simp add: rope_delete_def splice_list_noop)
  next
    case whole
    with assms rope_inv_new show ?thesis
      by (simp add: rope_delete_def rope_len_contents splice_list_whole)
         (simp add: rope_inv_def contents_def empty_leaf_def)
  next
    case part
    with assms obtain d where "wf_node d (root r)"
      by (auto simp: rope_inv_iff rope_len_def)
    then obtain n' where n': "delete_in (root r) s e = Some n'" "wf_node d n'"
      "content n' = splice_list s e [] (contents r)"
      using delete_in_correct(1) part assms by (force simp: rope_len_def contents_def)
    then have "rope_inv \<lparr>root = collapse_root n'\<rparr>"
      using wf_collapse_root by (simp add: rope_inv_iff)
    with n' part assms show ?thesis
      by (auto simp: rope_delete_def contents_def)
  qed
qed

lemma rope_replace_correct:
  assumes "rope_inv r" and "s \<le> e" and "e \<le> rope_len r"
  shows "\<exists>ed. rope_replace r s e bs = Ok ed \<and> rope_inv (new_rope ed) \<and>
           contents (new_rope ed) = splice_list s e bs (contents r) \<and>
           edit_range ed = range_new s e \<and> inserted_len ed = length bs \<and> edit_crdt_op ed = None"
proof -
  obtain d where d: "rope_delete r s e = Ok d" "rope_inv (new_rope d)"
    "contents (new_rope d) = splice_list s e [] (contents r)"
    using rope_delete_correct [OF assms] by blast
  then have "s \<le> rope_len (new_rope d)"
    using assms by (simp add: rope_len_contents length_splice_list)
  with d(2) obtain i where i: "rope_insert (new_rope d) s bs = Ok i" "rope_inv (new_rope i)"
    "contents (new_rope i) = splice_list s s bs (contents (new_rope d))"
    using rope_insert_correct by blast
  with d assms show ?thesis
    by (simp add: rope_replace_def rope_len_contents splice_list_fuse)
qed

lemma rope_errors:
  "rope_len r < pos \<Longrightarrow> rope_insert r pos bs = Err (OutOfBounds pos (rope_len r))"
  "e < s \<Longrightarrow> rope_delete r s e = Err (OutOfBounds s (rope_len r))"
  "s \<le> e \<Longrightarrow> rope_len r < e \<Longrightarrow> rope_delete r s e = Err (OutOfBounds e (rope_len r))"
  "e < s \<Longrightarrow> rope_replace r s e bs = Err (OutOfBounds s (rope_len r))"
  "s \<le> e \<Longrightarrow> rope_len r < e \<Longrightarrow> rope_replace r s e bs = Err (OutOfBounds e (rope_len r))"
  by (simp_all add: rope_insert_def rope_delete_def rope_replace_def)

section \<open>Reads agree with the byte sequence\<close>

lemma byte_at_in_correct:
  "wf_node d n \<Longrightarrow> pos < node_len n \<Longrightarrow> byte_at_in n pos = Some (content n ! pos)"
  "\<forall>c \<in> set rest. wf_node d c \<Longrightarrow> offset \<le> pos \<Longrightarrow> pos < offset + length (concats rest) \<Longrightarrow>
     byte_at_children rest offset pos = Some (concats rest ! (pos - offset))"
proof (induction n pos and rest offset pos arbitrary: d and d rule: byte_at_in_byte_at_children.induct)
  case (2 children len pos)
  then obtain d' where wf: "\<forall>c \<in> set children. wf_node d' c"
    and "len = length (concats children)"
    by (auto simp: wf_node_Internal wf_nodes_len)
  with 2 show ?case by auto
next
  case (4 child rest offset pos)
  have lc: "node_len child = length (content child)"
    using "4.prems" by (auto intro: wf_node_len)
  show ?case
  proof (cases "pos < offset + node_len child")
    case True
    with "4.IH"(1) [of d] "4.prems" lc show ?thesis
      by (auto simp: nth_append)
  next
    case False
    with "4.IH"(2) [of d] "4.prems" lc show ?thesis
      by (auto simp: nth_append diff_diff_eq)
  qed
qed auto

lemma rope_byte_at_correct:
  "rope_inv r \<Longrightarrow>
   rope_byte_at r pos = Some (if pos < length (contents r) then Some (contents r ! pos) else None)"
  by (auto simp: rope_byte_at_def rope_len_contents [symmetric] not_less rope_inv_iff)
     (auto simp: rope_len_def contents_def byte_at_in_correct)

lemma segment_cut_append:
  "segment s e (xs @ zs) = segment s (min e (length xs)) xs @ segment (s - length xs) (e - length xs) zs"
  by (rule segment_append)

lemma segment_clip: "segment s (min e (length xs)) xs = segment s e xs"
  by (simp add: segment_def min_def)

lemma collect_leaves_correct:
  "wf_node d n \<Longrightarrow> s < e \<Longrightarrow>
     concat (collect_leaves n s e offset) = segment (s - offset) (e - offset) (content n)"
  "\<forall>c \<in> set rest. wf_node d c \<Longrightarrow> s < e \<Longrightarrow>
     concat (collect_children rest s e offset) = segment (s - offset) (e - offset) (concats rest)"
proof (induction n s e offset and rest s e offset arbitrary: d and d rule: collect_leaves_collect_children.induct)
  case (1 chunk s e offset)
  then have "0 < length chunk" by simp
  show ?case
  proof (cases "e \<le> offset \<or> offset + length chunk \<le> s")
    case True
    then show ?thesis by (auto simp: segment_def)
  next
    case False
    with \<open>0 < length chunk\<close> \<open>s < e\<close> have "s - offset < min (e - offset) (length chunk)"
      by linarith
    with False show ?thesis by (simp add: Let_def segment_clip del: min_less_iff_conj)
  qed
next
  case (2 children len s e offset)
  then show ?case by (auto simp: wf_node_Internal)
next
  case (3 s e offset)
  then show ?case by (simp add: segment_def)
next
  case (4 child rest s e offset)
  have lc: "node_len child = length (content child)" and wc: "wf_node d child"
    using "4.prems" by (auto intro: wf_node_len)
  have split: "segment (s - offset) (e - offset) (concats (child # rest)) =
      segment (s - offset) (e - offset) (content child) @
      segment (s - (offset + node_len child)) (e - (offset + node_len child)) (concats rest)"
    by (simp add: segment_append segment_clip lc diff_diff_eq)
  show ?case
  proof (cases "e \<le> offset")
    case True
    then show ?thesis by (simp add: segment_def)
  next
    case False
    have rest: "concat (collect_children rest s e (offset + node_len child)) =
        segment (s - (offset + node_len child)) (e - (offset + node_len child)) (concats rest)"
      using "4.IH"(2) [OF refl False, of d] "4.prems" by simp
    show ?thesis
    proof (cases "s < offset + node_len child")
      case True
      then have "concat (collect_leaves child s e offset) = segment (s - offset) (e - offset) (content child)"
        using "4.IH"(1) [OF refl False True, of d] wc "4.prems" by simp
      with True False rest split show ?thesis by (simp add: Let_def)
    next
      case ge: False
      then have "segment (s - offset) (e - offset) (content child) = []"
        using lc by (simp add: segment_def)
      with ge False rest split show ?thesis by (simp add: Let_def)
    qed
  qed
qed

lemma collect_leaves_nonempty:
  "c \<in> set (collect_leaves n s e offset) \<Longrightarrow> c \<noteq> []"
  "c \<in> set (collect_children rest s e offset) \<Longrightarrow> c \<noteq> []"
proof (induction n s e offset and rest s e offset rule: collect_leaves_collect_children.induct)
  case (1 chunk s e offset)
  let ?e = "min (e - offset) (length chunk)"
  from 1 have "s - offset < ?e" and "c = segment (s - offset) ?e chunk"
    by (auto simp: Let_def simp del: min_less_iff_conj split: if_splits)
  then show ?case by (auto simp: segment_eq_Nil)
qed (auto simp: Let_def split: if_splits)

lemma rope_chunks_correct:
  assumes "rope_inv r"
  shows "concat (rope_chunks r s e) = segment s e (contents r)"
    and "c \<in> set (rope_chunks r s e) \<Longrightarrow> c \<noteq> []"
proof -
  show "concat (rope_chunks r s e) = segment s e (contents r)"
  proof (cases "root r = Leaf []")
    case True
    then show ?thesis by (simp add: rope_chunks_def contents_def segment_def)
  next
    case False
    with assms show ?thesis
      using collect_leaves_correct(1) [of _ "root r" s e 0]
      by (auto simp: rope_chunks_def contents_def rope_inv_iff)
  qed
  show "c \<in> set (rope_chunks r s e) \<Longrightarrow> c \<noteq> []"
    by (auto simp: rope_chunks_def dest: collect_leaves_nonempty(1) split: if_splits)
qed

text \<open>
  The loop of \<^verbatim>\<open>slice_in\<close>: with \<open>written\<close> bytes of \<open>out\<close> done and exactly the rest of the range to
  come, it completes \<open>out\<close> with the segment of the remaining children.
\<close>

lemma remaining_after_child:
  fixes s e off l :: nat
  assumes "s < off + l" and "max s off < min e (off + l)"
  shows "e - max s off = (min e (off + l) - max s off) + (e - max s (off + l))"
proof (cases "e \<le> off + l")
  case True
  with assms show ?thesis by simp
next
  case False
  with assms have "max s (off + l) = off + l" and "min e (off + l) = off + l" by simp_all
  with False assms show ?thesis by simp
qed

lemma slice_in_correct:
  "wf_node d n \<Longrightarrow> offset \<le> s \<Longrightarrow> s < e \<Longrightarrow> e \<le> offset + node_len n \<Longrightarrow> length out = e - s \<Longrightarrow>
     slice_in n s e offset out = Some (segment (s - offset) (e - offset) (content n))"
  "\<forall>c \<in> set rest. wf_node d c \<Longrightarrow> s < e \<Longrightarrow> e \<le> offset + length (concats rest) \<Longrightarrow>
     length out = written + (e - max s offset) \<Longrightarrow>
     slice_children rest s e offset written out =
       Some (take written out @ segment (s - offset) (e - offset) (concats rest))"
proof (induction n s e offset out and rest s e offset written out arbitrary: d and d
    rule: slice_in_slice_children.induct)
  case (1 chunk s e offset out)
  then show ?case by auto
next
  case (2 children len s e offset out)
  then obtain d' where "\<forall>c \<in> set children. wf_node d' c" and "len = length (concats children)"
    by (auto simp: wf_node_Internal wf_nodes_len)
  with 2 show ?case by (auto simp: max_def)
next
  case (3 s e offset written out)
  then show ?case by simp
next
  case (4 child rest s e offset written out)
  define l where "l = node_len child"
  have lc: "length (content child) = l" and wc: "wf_node d child" and ln: "node_len child = l"
    using "4.prems" by (auto simp: l_def wf_node_len)
  have split: "segment (s - offset) (e - offset) (concats (child # rest)) =
      segment (s - offset) (e - offset) (content child) @
      segment (s - (offset + l)) (e - (offset + l)) (concats rest)"
    by (simp add: segment_append segment_clip lc [symmetric] diff_diff_eq)
  consider (stop) "e \<le> offset"
    | (hit) "\<not> e \<le> offset" "s < offset + l \<and> max s offset < min e (offset + l)"
    | (skip) "\<not> e \<le> offset" "\<not> (s < offset + l \<and> max s offset < min e (offset + l))"
    by blast
  then show ?case
  proof cases
    case stop
    with "4.prems" show ?thesis by simp
  next
    case skip
    have "0 < l"
      using wf_node_nonempty [OF wc] lc by auto
    with skip \<open>s < e\<close> have "offset + l \<le> s"
      by (auto simp: max_def min_def split: if_splits)
    then have "segment (s - offset) (e - offset) (content child) = []" and "max s (offset + l) = max s offset"
      using lc by (auto simp: segment_eq_Nil)
    moreover have "slice_children rest s e (offset + l) written out =
        Some (take written out @ segment (s - (offset + l)) (e - (offset + l)) (concats rest))"
      using "4.IH"(3) [OF refl skip(1), unfolded ln, of d] skip(2) "4.prems" lc calculation(2) by simp
    ultimately show ?thesis
      using skip(1) \<open>offset + l \<le> s\<close> split ln by (simp add: Let_def)
  next
    case hit
    let ?ts = "max s offset" and ?te = "min e (offset + l)"
    let ?tk = "?te - ?ts"
    have total: "length out = written + ?tk + (e - max s (offset + l))"
      by (simp only: "4.prems"(4) remaining_after_child [OF conjunct1 [OF hit(2)] conjunct2 [OF hit(2)]] add.assoc)
    then have len: "written + ?tk \<le> length out"
      by (simp only: le_add1)
    note cond = hit(1) hit(2) [unfolded l_def]
    have fits: "\<not> length out < written + (min e (offset + node_len child) - max s offset)"
      using len by (simp add: l_def)
    have "slice_in child ?ts ?te offset (take ?tk (drop written out)) =
        Some (segment (?ts - offset) (?te - offset) (content child))"
      unfolding l_def
      by (rule "4.IH"(1) [OF refl cond refl refl refl fits wc])
         (use cond fits in \<open>simp_all\<close>)
    moreover have "segment (?ts - offset) (?te - offset) (content child) =
        segment (s - offset) (e - offset) (content child)" (is "_ = ?part")
    proof -
      have "?ts - offset = s - offset" by linarith
      moreover have "?te - offset = min (e - offset) (length (content child))"
        unfolding lc by linarith
      ultimately show ?thesis by (simp only: segment_clip)
    qed
    ultimately have one: "slice_in child ?ts ?te offset (take ?tk (drop written out)) = Some ?part"
      by (simp only:)
    have lp: "length ?part = ?tk"
      using lc hit(1) by (simp add: segment_def)
    let ?out = "take written out @ ?part @ drop (written + ?tk) out"
    have "length ?out = length out"
      using lp len by simp
    with total have rem: "length ?out = written + ?tk + (e - max s (offset + l))"
      by (simp only:)
    have bnd: "e \<le> offset + l + length (concats rest)"
      using "4.prems"(3) lc by simp
    have "slice_children rest s e (offset + l) (written + ?tk) ?out =
        Some (take (written + ?tk) ?out @ segment (s - (offset + l)) (e - (offset + l)) (concats rest))"
      unfolding l_def
      by (rule "4.IH"(2) [OF refl cond refl refl refl fits one [unfolded l_def] _ \<open>s < e\<close>
            bnd [unfolded l_def] rem [unfolded l_def], of d]) (use "4.prems"(1) in simp)
    moreover have "take (written + ?tk) ?out = take written out @ ?part"
      using lp len by simp
    ultimately have "slice_children rest s e (offset + l) (written + ?tk) ?out =
        Some (take written out @ segment (s - offset) (e - offset) (concats (child # rest)))"
      using split by simp
    then show ?thesis
      using hit fits [unfolded ln] one by (simp only: slice_children.simps Let_def ln if_True if_False
          option.case simp_thms)
  qed
qed

lemma rope_slice_correct:
  assumes "rope_inv r" and "s \<le> e" and "e \<le> rope_len r" and "length out = e - s"
  shows "rope_slice r s e out = Some (segment s e (contents r))"
proof (cases "out = []")
  case True
  with assms show ?thesis by (simp add: rope_slice_def)
next
  case False
  then have "0 < length out" by simp
  with assms(4) have "s < e" by linarith
  with assms obtain d where "wf_node d (root r)"
    by (auto simp: rope_inv_iff rope_len_def)
  with assms False \<open>s < e\<close> show ?thesis
    by (simp add: rope_slice_def slice_in_correct(1) rope_len_def contents_def)
qed

section \<open>Bulk construction\<close>

lemma group_take_le: "group_take n \<le> MAX_CHILDREN"
  by (simp add: group_take_def MAX_CHILDREN_def)

lemma pack_level_correct:
  "\<forall>n \<in> set ns. wf_node d n \<Longrightarrow>
   (\<forall>n \<in> set (pack_level ns). wf_node (Suc d) n) \<and> concats (pack_level ns) = concats ns"
proof (induction ns rule: pack_level.induct)
  case (1 ns)
  show ?case
  proof (cases "ns = []")
    case True
    then show ?thesis by simp
  next
    case False
    let ?k = "group_take (length ns)"
    have "wf_node (Suc d) (make_internal (take ?k ns))"
      using False 1 group_take_le [of "length ns"]
      by (intro wf_make_internal) (auto dest: in_set_takeD)
    moreover have "(\<forall>n \<in> set (pack_level (drop ?k ns)). wf_node (Suc d) n) \<and>
        concats (pack_level (drop ?k ns)) = concats (drop ?k ns)"
      using 1 False by (auto dest: in_set_dropD)
    moreover have "concats (take ?k ns) @ concats (drop ?k ns) = concats ns"
      by (metis append_take_drop_id concat_append map_append)
    ultimately show ?thesis
      using False by (simp add: pack_level.simps [of ns])
  qed
qed

lemma pack_level_nonempty: "ns \<noteq> [] \<Longrightarrow> pack_level ns \<noteq> []"
  by (simp add: pack_level.simps [of ns])

lemma build_levels_correct:
  "ns \<noteq> [] \<Longrightarrow> \<forall>n \<in> set ns. wf_node d n \<Longrightarrow>
   (\<exists>d'. wf_node d' (build_levels ns)) \<and> content (build_levels ns) = concats ns"
proof (induction ns arbitrary: d rule: build_levels.induct)
  case (1 ns)
  show ?case
  proof (cases "1 < length ns")
    case True
    with 1 pack_level_correct [of ns d] pack_level_nonempty [of ns] show ?thesis
      by (subst (1 2) build_levels.simps) auto
  next
    case False
    with \<open>ns \<noteq> []\<close> obtain n where "ns = [n]"
      by (cases ns) auto
    with 1 show ?thesis
      by (auto simp: build_levels.simps [of "[n]"])
  qed
qed

lemma rope_from_bytes_correct:
  "rope_inv (rope_from_bytes bs) \<and> contents (rope_from_bytes bs) = bs"
proof (cases "bs = []")
  case True
  then show ?thesis by (simp add: rope_from_bytes_def)
next
  case False
  let ?ns = "map Leaf (chunks_of MAX_LEAF_BYTES bs)"
  have con: "concats ?ns = bs"
    by (simp add: comp_def concat_chunks_of MAX_LEAF_BYTES_def)
  then have ne: "?ns \<noteq> []"
    using False by auto
  have wf: "\<forall>n \<in> set ?ns. wf_node 0 n"
    by (auto dest: chunks_of_bounds)
  have "(\<exists>d. wf_node d (build_balanced_from_nodes ?ns)) \<and> content (build_balanced_from_nodes ?ns) = bs"
    using build_levels_correct [OF ne wf] con ne wf
    by (auto simp: build_balanced_from_nodes_def split: list.splits)
  with False show ?thesis
    by (simp add: rope_from_bytes_def rope_inv_iff contents_def)
qed

section \<open>The rope is a text store\<close>

interpretation rp: text_store rope_inv contents rope_len rope_insert rope_delete rope_replace new_rope
proof
  fix r pos bs
  show "rope_inv r \<Longrightarrow> rope_len r = length (contents r)"
    by (rule rope_len_contents)
  show "rope_inv r \<Longrightarrow> pos \<le> rope_len r \<Longrightarrow> \<exists>d. rope_insert r pos bs = Ok d \<and> rope_inv (new_rope d) \<and>
      contents (new_rope d) = splice_list pos pos bs (contents r)"
    using rope_insert_correct by blast
  show "rope_len r < pos \<Longrightarrow> \<exists>e. rope_insert r pos bs = Err e"
    by (auto simp: rope_errors)
next
  fix r a b bs
  show "rope_inv r \<Longrightarrow> a \<le> b \<Longrightarrow> b \<le> rope_len r \<Longrightarrow> \<exists>d. rope_delete r a b = Ok d \<and> rope_inv (new_rope d) \<and>
      contents (new_rope d) = splice_list a b [] (contents r)"
    using rope_delete_correct by blast
  show "b < a \<or> rope_len r < b \<Longrightarrow> \<exists>e. rope_delete r a b = Err e"
    using rope_errors(2,3) by (meson not_le)
  show "rope_inv r \<Longrightarrow> a \<le> b \<Longrightarrow> b \<le> rope_len r \<Longrightarrow> \<exists>d. rope_replace r a b bs = Ok d \<and> rope_inv (new_rope d) \<and>
      contents (new_rope d) = splice_list a b bs (contents r)"
    using rope_replace_correct by blast
  show "b < a \<or> rope_len r < b \<Longrightarrow> \<exists>e. rope_replace r a b bs = Err e"
    using rope_errors(4,5) by (meson not_le)
qed

end
