(* ===== verification/Buffer.thy ===== *)
theory Buffer
  imports Rope
begin

text \<open>
  The editable buffer of \<^verbatim>\<open>src/src/buffer.rs\<close> in its rope-only (v0.1) mode: the rope, the undo and
  redo stacks, the marks and the attached views. The mode backed by the \<^verbatim>\<open>loro\<close> CRDT library
  (\<^verbatim>\<open>crdt: Some(_)\<close>) is not modelled: here \<^verbatim>\<open>crdt\<close> is \<^verbatim>\<open>None\<close>, so the undo source is ignored, as in
  the source. Views are trait objects of an open set; they are elements of a type variable \<open>'v\<close> and
  their two callbacks are the parameter \<open>view_ops\<close> of the operations that broadcast. A step returns
  \<open>None\<close> for a panic and otherwise the new buffer with the \<^verbatim>\<open>Result\<close>.
\<close>

section \<open>Data\<close>

datatype mark_gravity = GravityLeft | GravityRight

record mark =
  mark_position :: position
  gravity :: mark_gravity

datatype edit_op = OpInsert position "byte list" | OpDelete brange | OpReplace brange "byte list"

datatype undo_source = Frontend nat | Daemon

record edit_description =
  pre_range :: brange
  desc_inserted :: nat

record undo_entry =
  entry_rope :: rope
  entry_edit :: edit_description
  entry_typed :: bool

datatype buffer_name_origin = Explicit | PathDerived

record file_meta =
  mtime :: int
  file_size :: nat

record 'v buffer =
  buf_id :: nat
  buf_rope :: rope
  buf_name :: string
  name_origin :: buffer_name_origin
  named_directory :: "string option"
  major_mode :: "string option"
  is_modified :: bool
  read_only :: bool
  revision :: u64
  buf_views :: "(nat \<times> 'v) list"
  next_view_id :: nat
  marks :: "(nat \<times> mark) list"
  next_mark_id :: nat
  undo_stack :: "undo_entry list"
  redo_stack :: "undo_entry list"
  typed_floor :: "nat option"
  file_path :: "string option"
  buf_file_meta :: "file_meta option"
  editing_in_progress :: bool

datatype buffer_error =
    RopeFailed rope_error
  | ReadOnly nat string
  | NothingToUndo
  | NothingToRedo
  | Intercepted string
  | ConcurrentEdit nat string
  | CrdtRejected string

record intercept_context =
  ctx_buf_id :: nat
  ctx_buf_len :: nat
  ctx_buf_name :: string
  ctx_revision :: u64

record 'v view_ops =
  intercept_edit :: "'v \<Rightarrow> intercept_context \<Rightarrow> edit_op \<Rightarrow> 'v \<times> (buffer_error + edit_op)"
  on_edit :: "'v \<Rightarrow> 'v buffer \<Rightarrow> edit \<Rightarrow> 'v \<times> buffer_error option"

type_synonym 'v step = "('v buffer \<times> (buffer_error + edit)) option"

definition UNDO_HISTORY_LIMIT :: nat where
  "UNDO_HISTORY_LIMIT = 10000"

section \<open>Construction, names and flags\<close>

definition buffer_from_rope :: "nat \<Rightarrow> string \<Rightarrow> rope \<Rightarrow> 'v buffer" where
  "buffer_from_rope i name r =
     \<lparr>buf_id = i, buf_rope = r, buf_name = name, name_origin = Explicit, named_directory = None,
      major_mode = None, is_modified = False, read_only = False, revision = 0, buf_views = [],
      next_view_id = 0, marks = [], next_mark_id = 0, undo_stack = [], redo_stack = [],
      typed_floor = None, file_path = None, buf_file_meta = None, editing_in_progress = False\<rparr>"

definition buffer_new :: "nat \<Rightarrow> string \<Rightarrow> 'v buffer" where
  "buffer_new i name = buffer_from_rope i name rope_new"

definition buffer_from_bytes :: "nat \<Rightarrow> string \<Rightarrow> byte list \<Rightarrow> 'v buffer" where
  "buffer_from_bytes i name bs = buffer_from_rope i name (rope_from_bytes bs)"

definition set_file_path :: "string option \<Rightarrow> 'v buffer \<Rightarrow> 'v buffer" where
  "set_file_path p b = b\<lparr>file_path := p\<rparr>"

definition set_file_meta :: "file_meta option \<Rightarrow> 'v buffer \<Rightarrow> 'v buffer" where
  "set_file_meta m b = b\<lparr>buf_file_meta := m\<rparr>"

definition set_name :: "string \<Rightarrow> 'v buffer \<Rightarrow> 'v buffer" where
  "set_name name b = b\<lparr>buf_name := name, name_origin := Explicit\<rparr>"

definition name_from_path :: "'v buffer \<Rightarrow> 'v buffer" where
  "name_from_path b = b\<lparr>name_origin := PathDerived\<rparr>"

definition name_from_directory :: "string \<Rightarrow> 'v buffer \<Rightarrow> 'v buffer" where
  "name_from_directory dir b = b\<lparr>named_directory := Some dir, name_origin := PathDerived\<rparr>"

definition set_derived_name :: "string \<Rightarrow> 'v buffer \<Rightarrow> 'v buffer" where
  "set_derived_name name b = b\<lparr>buf_name := name\<rparr>"

definition name_path :: "'v buffer \<Rightarrow> (string \<times> bool) option" where
  "name_path b =
     (if name_origin b \<noteq> PathDerived then None
      else (case named_directory b of
              Some dir \<Rightarrow> Some (dir, True)
            | None \<Rightarrow> map_option (\<lambda>p. (p, False)) (file_path b)))"

definition set_major_mode :: "string option \<Rightarrow> 'v buffer \<Rightarrow> 'v buffer" where
  "set_major_mode m b = b\<lparr>major_mode := m\<rparr>"

definition mark_clean :: "'v buffer \<Rightarrow> 'v buffer" where
  "mark_clean b = b\<lparr>is_modified := False\<rparr>"

definition set_read_only :: "bool \<Rightarrow> 'v buffer \<Rightarrow> 'v buffer" where
  "set_read_only ro b = b\<lparr>read_only := ro\<rparr>"

definition clear_history :: "'v buffer \<Rightarrow> 'v buffer" where
  "clear_history b = b\<lparr>undo_stack := [], redo_stack := []\<rparr>"

definition ensure_writable :: "'v buffer \<Rightarrow> buffer_error option" where
  "ensure_writable b = (if read_only b then Some (ReadOnly (buf_id b) (buf_name b)) else None)"

definition buffer_len :: "'v buffer \<Rightarrow> nat" where
  "buffer_len b = rope_len (buf_rope b)"

definition snapshot_rope :: "'v buffer \<Rightarrow> rope" where
  "snapshot_rope b = rope_snapshot (buf_rope b)"

definition undo_depth :: "'v buffer \<Rightarrow> nat option" where
  "undo_depth b = Some (length (undo_stack b))"

section \<open>Views\<close>

definition attach_view :: "'v \<Rightarrow> 'v buffer \<Rightarrow> 'v buffer \<times> nat" where
  "attach_view v b =
     (b\<lparr>next_view_id := Suc (next_view_id b), buf_views := buf_views b @ [(next_view_id b, v)]\<rparr>,
      next_view_id b)"

text \<open>\<^verbatim>\<open>iter().position\<close>, then \<^verbatim>\<open>Vec::remove\<close>, on an association list.\<close>

fun remove_first :: "'k \<Rightarrow> ('k \<times> 'a) list \<Rightarrow> ('a \<times> ('k \<times> 'a) list) option" where
  "remove_first k [] = None"
| "remove_first k ((k', x) # xs) =
     (if k' = k then Some (x, xs) else map_option (\<lambda>(y, ys). (y, (k', x) # ys)) (remove_first k xs))"

definition detach_view :: "nat \<Rightarrow> 'v buffer \<Rightarrow> 'v buffer \<times> 'v option" where
  "detach_view i b =
     (case remove_first i (buf_views b) of
        None \<Rightarrow> (b, None)
      | Some (v, vs) \<Rightarrow> (b\<lparr>buf_views := vs\<rparr>, Some v))"

definition take_views :: "'v buffer \<Rightarrow> 'v buffer \<times> (nat \<times> 'v) list" where
  "take_views b = (b\<lparr>buf_views := []\<rparr>, buf_views b)"

definition restore_views :: "(nat \<times> 'v) list \<Rightarrow> 'v buffer \<Rightarrow> 'v buffer" where
  "restore_views original b = b\<lparr>buf_views := original @ buf_views b\<rparr>"

section \<open>Marks\<close>

definition create_mark :: "position \<Rightarrow> mark_gravity \<Rightarrow> 'v buffer \<Rightarrow> 'v buffer \<times> (buffer_error + nat)" where
  "create_mark pos g b =
     (if buffer_len b < pos then (b, Inl (RopeFailed (OutOfBounds pos (buffer_len b))))
      else (b\<lparr>next_mark_id := Suc (next_mark_id b),
              marks := marks b @ [(next_mark_id b, \<lparr>mark_position = pos, gravity = g\<rparr>)]\<rparr>,
            Inr (next_mark_id b)))"

definition mark_pos :: "nat \<Rightarrow> 'v buffer \<Rightarrow> position option" where
  "mark_pos i b = map_option mark_position (map_of (marks b) i)"

fun update_first :: "'k \<Rightarrow> ('a \<Rightarrow> 'a) \<Rightarrow> ('k \<times> 'a) list \<Rightarrow> ('k \<times> 'a) list option" where
  "update_first k f [] = None"
| "update_first k f ((k', x) # xs) =
     (if k' = k then Some ((k', f x) # xs) else map_option (\<lambda>ys. (k', x) # ys) (update_first k f xs))"

definition set_mark :: "nat \<Rightarrow> position \<Rightarrow> 'v buffer \<Rightarrow> 'v buffer \<times> (buffer_error + bool)" where
  "set_mark i pos b =
     (if buffer_len b < pos then (b, Inl (RopeFailed (OutOfBounds pos (buffer_len b))))
      else (case update_first i (\<lambda>m. m\<lparr>mark_position := pos\<rparr>) (marks b) of
              None \<Rightarrow> (b, Inr False)
            | Some ms \<Rightarrow> (b\<lparr>marks := ms\<rparr>, Inr True)))"

definition remove_mark :: "nat \<Rightarrow> 'v buffer \<Rightarrow> 'v buffer \<times> bool" where
  "remove_mark i b =
     (case remove_first i (marks b) of
        None \<Rightarrow> (b, False)
      | Some (_, ms) \<Rightarrow> (b\<lparr>marks := ms\<rparr>, True))"

definition adjust_mark :: "brange \<Rightarrow> nat \<Rightarrow> mark \<Rightarrow> mark" where
  "adjust_mark rng inserted m =
     (let start = range_start rng; end_pos = range_end rng; old_len = range_len rng;
          new_end = start + inserted; pos = mark_position m
      in m\<lparr>mark_position :=
            (if pos < start then pos
             else if end_pos < pos then pos - old_len + inserted
             else if pos = start then
               (if old_len = 0 \<and> gravity m = GravityRight then new_end
                else if old_len = 0 then start
                else (case gravity m of GravityLeft \<Rightarrow> start | GravityRight \<Rightarrow> new_end))
             else (case gravity m of GravityLeft \<Rightarrow> start | GravityRight \<Rightarrow> new_end))\<rparr>)"

definition adjust_marks_for_edit :: "brange \<Rightarrow> nat \<Rightarrow> 'v buffer \<Rightarrow> 'v buffer" where
  "adjust_marks_for_edit rng inserted b =
     b\<lparr>marks := map (\<lambda>(i, m). (i, adjust_mark rng inserted m)) (marks b)\<rparr>"

section \<open>Forward edits\<close>

definition begin_edit :: "'v buffer \<Rightarrow> 'v buffer \<times> (buffer_error + unit)" where
  "begin_edit b =
     (case ensure_writable b of
        Some e \<Rightarrow> (b, Inl e)
      | None \<Rightarrow>
          if editing_in_progress b then (b, Inl (ConcurrentEdit (buf_id b) (buf_name b)))
          else (b\<lparr>editing_in_progress := True\<rparr>, Inr ()))"

definition end_edit :: "'v buffer \<Rightarrow> 'v buffer" where
  "end_edit b = b\<lparr>editing_in_progress := False\<rparr>"

definition context_snapshot :: "'v buffer \<Rightarrow> intercept_context" where
  "context_snapshot b =
     \<lparr>ctx_buf_id = buf_id b, ctx_buf_len = buffer_len b, ctx_buf_name = buf_name b,
      ctx_revision = revision b\<rparr>"

text \<open>The intercept loop: each view may rewrite the operation; the first error stops it.\<close>

fun run_intercepts ::
    "'v view_ops \<Rightarrow> intercept_context \<Rightarrow> (nat \<times> 'v) list \<Rightarrow> edit_op \<Rightarrow>
     (nat \<times> 'v) list \<times> (buffer_error + edit_op)" where
  "run_intercepts ops ctx [] op = ([], Inr op)"
| "run_intercepts ops ctx ((i, v) # vs) op =
     (case intercept_edit ops v ctx op of
        (v', Inl e) \<Rightarrow> ((i, v') # vs, Inl e)
      | (v', Inr op') \<Rightarrow>
          (case run_intercepts ops ctx vs op' of (vs', r) \<Rightarrow> ((i, v') # vs', r)))"

text \<open>The \<^verbatim>\<open>on_edit\<close> loop: the first error stops it, views already told keep their new state.\<close>

fun broadcast ::
    "'v view_ops \<Rightarrow> 'v buffer \<Rightarrow> edit \<Rightarrow> (nat \<times> 'v) list \<Rightarrow> (nat \<times> 'v) list \<times> buffer_error option" where
  "broadcast ops b ed [] = ([], None)"
| "broadcast ops b ed ((i, v) # vs) =
     (case on_edit ops v b ed of
        (v', Some e) \<Rightarrow> ((i, v') # vs, Some e)
      | (v', None) \<Rightarrow> (case broadcast ops b ed vs of (vs', r) \<Rightarrow> ((i, v') # vs', r)))"

definition rope_apply :: "rope \<Rightarrow> edit_op \<Rightarrow> (rope_error, edit) outcome" where
  "rope_apply r op =
     (case op of
        OpInsert pos bs \<Rightarrow> rope_insert r pos bs
      | OpDelete rng \<Rightarrow> rope_delete r (range_start rng) (range_end rng)
      | OpReplace rng bs \<Rightarrow> rope_replace r (range_start rng) (range_end rng) bs)"

definition push_undo :: "undo_entry \<Rightarrow> undo_entry list \<Rightarrow> undo_entry list" where
  "push_undo entry stack =
     (if UNDO_HISTORY_LIMIT \<le> length stack then tl stack else stack) @ [entry]"

text \<open>Stage 3 of \<^verbatim>\<open>run_rope_edit_and_broadcast\<close>: swap the rope, move the marks, push the history.\<close>

definition commit_edit :: "edit \<Rightarrow> 'v buffer \<Rightarrow> 'v buffer" where
  "commit_edit ed b =
     (let old_rope = buf_rope b;
          b1 = adjust_marks_for_edit (edit_range ed) (inserted_len ed) (b\<lparr>buf_rope := new_rope ed\<rparr>)
      in b1\<lparr>undo_stack := push_undo
               \<lparr>entry_rope = old_rope,
                entry_edit = \<lparr>pre_range = edit_range ed, desc_inserted = inserted_len ed\<rparr>,
                entry_typed = False\<rparr> (undo_stack b),
            redo_stack := [], is_modified := True, revision := revision b + 1\<rparr>)"

definition run_rope_edit_and_broadcast ::
    "'v view_ops \<Rightarrow> (nat \<times> 'v) list \<Rightarrow> edit_op \<Rightarrow> undo_source \<Rightarrow> 'v buffer \<Rightarrow>
     ('v buffer \<times> (nat \<times> 'v) list \<times> (buffer_error + edit)) option" where
  "run_rope_edit_and_broadcast ops vs op source b =
     (case rope_apply (buf_rope b) op of
        None \<Rightarrow> None
      | Some (Inl e) \<Rightarrow> Some (b, vs, Inl (RopeFailed e))
      | Some (Inr ed) \<Rightarrow>
          (let b' = (if range_is_empty (edit_range ed) \<and> inserted_len ed = 0 then b
                     else commit_edit ed b)
           in case broadcast ops b' ed vs of
                (vs', None) \<Rightarrow> Some (b', vs', Inr ed)
              | (vs', Some e) \<Rightarrow> Some (b', vs', Inl e)))"

definition apply_edit_inner ::
    "'v view_ops \<Rightarrow> (nat \<times> 'v) list \<Rightarrow> edit_op \<Rightarrow> undo_source \<Rightarrow> 'v buffer \<Rightarrow>
     ('v buffer \<times> (nat \<times> 'v) list \<times> (buffer_error + edit)) option" where
  "apply_edit_inner ops vs op source b =
     (case run_intercepts ops (context_snapshot b) vs op of
        (vs', Inl e) \<Rightarrow> Some (b, vs', Inl e)
      | (vs', Inr op') \<Rightarrow> run_rope_edit_and_broadcast ops vs' op' source b)"

definition apply_edit_as :: "'v view_ops \<Rightarrow> undo_source \<Rightarrow> edit_op \<Rightarrow> 'v buffer \<Rightarrow> 'v step" where
  "apply_edit_as ops source op b =
     (case ensure_writable b of
        Some e \<Rightarrow> Some (b, Inl e)
      | None \<Rightarrow>
          if editing_in_progress b then Some (b, Inl (ConcurrentEdit (buf_id b) (buf_name b)))
          else map_option (\<lambda>(b', vs', r). (b'\<lparr>buf_views := vs'\<rparr>, r))
                 (apply_edit_inner ops (buf_views b) op source (b\<lparr>buf_views := []\<rparr>)))"

definition apply_edit :: "'v view_ops \<Rightarrow> edit_op \<Rightarrow> 'v buffer \<Rightarrow> 'v step" where
  "apply_edit ops op b = apply_edit_as ops Daemon op b"

definition apply_edit_skip_intercepts_as ::
    "'v view_ops \<Rightarrow> undo_source \<Rightarrow> edit_op \<Rightarrow> 'v buffer \<Rightarrow> 'v step" where
  "apply_edit_skip_intercepts_as ops source op b =
     (case ensure_writable b of
        Some e \<Rightarrow> Some (b, Inl e)
      | None \<Rightarrow> map_option (\<lambda>(b', vs', r). (b'\<lparr>buf_views := vs'\<rparr>, r))
                 (run_rope_edit_and_broadcast ops (buf_views b) op source (b\<lparr>buf_views := []\<rparr>)))"

definition apply_edit_skip_intercepts :: "'v view_ops \<Rightarrow> edit_op \<Rightarrow> 'v buffer \<Rightarrow> 'v step" where
  "apply_edit_skip_intercepts ops op b = apply_edit_skip_intercepts_as ops Daemon op b"

definition set_generated_contents :: "'v view_ops \<Rightarrow> byte list \<Rightarrow> 'v buffer \<Rightarrow> 'v step" where
  "set_generated_contents ops bs b =
     map_option (\<lambda>(b', r).
         ((clear_history b')\<lparr>read_only := True,
            is_modified := (case r of Inr _ \<Rightarrow> False | Inl _ \<Rightarrow> is_modified b')\<rparr>, r))
       (apply_edit_skip_intercepts ops (OpReplace (range_new 0 (buffer_len b)) bs) (b\<lparr>read_only := False\<rparr>))"

section \<open>Undo and redo\<close>

definition broadcast_on_edit :: "'v view_ops \<Rightarrow> edit \<Rightarrow> 'v buffer \<Rightarrow> 'v buffer \<times> buffer_error option" where
  "broadcast_on_edit ops ed b =
     (case broadcast ops (b\<lparr>buf_views := []\<rparr>) ed (buf_views b) of (vs, r) \<Rightarrow> (b\<lparr>buf_views := vs\<rparr>, r))"

definition finish_history_step :: "'v view_ops \<Rightarrow> edit \<Rightarrow> 'v buffer \<Rightarrow> 'v step" where
  "finish_history_step ops ed b =
     (case broadcast_on_edit ops ed b of
        (b', None) \<Rightarrow> Some (b', Inr ed)
      | (b', Some e) \<Rightarrow> Some (b', Inl e))"

text \<open>The edit that leads back to an entry's rope, in the coordinates of the current one.\<close>

definition inverse_range :: "undo_entry \<Rightarrow> brange" where
  "inverse_range entry =
     range_new (range_start (pre_range (entry_edit entry)))
       (range_start (pre_range (entry_edit entry)) + desc_inserted (entry_edit entry))"

definition inverse_edit :: "undo_entry \<Rightarrow> edit" where
  "inverse_edit entry =
     \<lparr>new_rope = entry_rope entry, edit_range = inverse_range entry,
      inserted_len = range_len (pre_range (entry_edit entry)), edit_crdt_op = None\<rparr>"

definition inverse_entry :: "undo_entry \<Rightarrow> rope \<Rightarrow> undo_entry" where
  "inverse_entry entry cur =
     \<lparr>entry_rope = cur,
      entry_edit = \<lparr>pre_range = inverse_range entry,
                    desc_inserted = range_len (pre_range (entry_edit entry))\<rparr>,
      entry_typed = False\<rparr>"

definition undo_v01 :: "'v view_ops \<Rightarrow> 'v buffer \<Rightarrow> 'v step" where
  "undo_v01 ops b =
     (if undo_stack b = [] then Some (b, Inl NothingToUndo)
      else (let entry = last (undo_stack b);
                b1 = adjust_marks_for_edit (inverse_range entry) (range_len (pre_range (entry_edit entry)))
                       (b\<lparr>undo_stack := butlast (undo_stack b), buf_rope := entry_rope entry\<rparr>);
                b2 = b1\<lparr>redo_stack := redo_stack b @ [inverse_entry entry (buf_rope b)],
                        is_modified := (butlast (undo_stack b) \<noteq> []), revision := revision b + 1\<rparr>
            in finish_history_step ops (inverse_edit entry) b2))"

definition redo_v01 :: "'v view_ops \<Rightarrow> 'v buffer \<Rightarrow> 'v step" where
  "redo_v01 ops b =
     (if redo_stack b = [] then Some (b, Inl NothingToRedo)
      else (let entry = last (redo_stack b);
                b1 = adjust_marks_for_edit (inverse_range entry) (range_len (pre_range (entry_edit entry)))
                       (b\<lparr>redo_stack := butlast (redo_stack b), buf_rope := entry_rope entry\<rparr>);
                b2 = b1\<lparr>undo_stack := undo_stack b @ [inverse_entry entry (buf_rope b)],
                        is_modified := True, revision := revision b + 1\<rparr>
            in finish_history_step ops (inverse_edit entry) b2))"

definition undo_for :: "'v view_ops \<Rightarrow> undo_source \<Rightarrow> 'v buffer \<Rightarrow> 'v step" where
  "undo_for ops source b =
     (case ensure_writable b of Some e \<Rightarrow> Some (b, Inl e) | None \<Rightarrow> undo_v01 ops b)"

definition redo_for :: "'v view_ops \<Rightarrow> undo_source \<Rightarrow> 'v buffer \<Rightarrow> 'v step" where
  "redo_for ops source b =
     (case ensure_writable b of Some e \<Rightarrow> Some (b, Inl e) | None \<Rightarrow> redo_v01 ops b)"

definition undo :: "'v view_ops \<Rightarrow> 'v buffer \<Rightarrow> 'v step" where
  "undo ops b = undo_for ops Daemon b"

definition redo :: "'v view_ops \<Rightarrow> 'v buffer \<Rightarrow> 'v step" where
  "redo ops b = redo_for ops Daemon b"

section \<open>The covering edit between two ropes\<close>

fun first_mismatch :: "'a list \<Rightarrow> 'a list \<Rightarrow> nat option" where
  "first_mismatch (x # xs) (y # ys) =
     (if x \<noteq> y then Some 0 else map_option Suc (first_mismatch xs ys))"
| "first_mismatch _ _ = None"

lemma chunk_step_decreases:
  fixes m p n bound top :: nat
  assumes "n = min (min 4096 top) (m - p)" and "p < m" and "m \<le> top" and "m \<le> bound"
  shows "bound - (p + n) < bound - p"
proof -
  have "0 < n" using assms by auto
  with assms(2,4) show ?thesis by linarith
qed

text \<open>
  The prefix loop of \<^verbatim>\<open>derive_replacement_edit\<close>: \<open>n\<close> bytes of both ropes are copied into zeroed
  buffers and compared.
\<close>

function prefix_loop :: "rope \<Rightarrow> rope \<Rightarrow> nat \<Rightarrow> nat option" where
  "prefix_loop old_r new_r prefix =
     (let max_prefix = min (rope_len old_r) (rope_len new_r);
          n = min (min 4096 max_prefix) (max_prefix - prefix)
      in if prefix < max_prefix then
           (case rope_slice old_r prefix (prefix + n) (replicate n 0) of
              None \<Rightarrow> None
            | Some a \<Rightarrow>
                (case rope_slice new_r prefix (prefix + n) (replicate n 0) of
                   None \<Rightarrow> None
                 | Some b \<Rightarrow>
                     (case first_mismatch a b of
                        Some off \<Rightarrow> Some (prefix + off)
                      | None \<Rightarrow> prefix_loop old_r new_r (prefix + n))))
         else Some prefix)"
  by pat_completeness (elim Pair_inject, hypsubst, rule refl)
termination
proof (relation "measure (\<lambda>(a, b, p). min (rope_len a) (rope_len b) - p)", goal_cases)
  case (2 old_r new_r prefix max_prefix n)
  then show ?case
    unfolding in_measure prod.case by (intro chunk_step_decreases [of n max_prefix max_prefix]) (simp_all only: order.refl)
qed simp

function suffix_loop :: "rope \<Rightarrow> rope \<Rightarrow> nat \<Rightarrow> nat \<Rightarrow> nat option" where
  "suffix_loop old_r new_r prefix suffix =
     (let old_len = rope_len old_r; new_len = rope_len new_r;
          max_suffix = min (old_len - prefix) (new_len - prefix);
          n = min (min 4096 (min old_len new_len)) (max_suffix - suffix)
      in if suffix < max_suffix then
           (case rope_slice old_r (old_len - suffix - n) (old_len - suffix) (replicate n 0) of
              None \<Rightarrow> None
            | Some a \<Rightarrow>
                (case rope_slice new_r (new_len - suffix - n) (new_len - suffix) (replicate n 0) of
                   None \<Rightarrow> None
                 | Some b \<Rightarrow>
                     (case first_mismatch (rev a) (rev b) of
                        Some off \<Rightarrow> Some (suffix + off)
                      | None \<Rightarrow> suffix_loop old_r new_r prefix (suffix + n))))
         else Some suffix)"
  by pat_completeness (elim Pair_inject, hypsubst, rule refl)
termination
proof (relation "measure (\<lambda>(a, b, p, s). min (rope_len a) (rope_len b) - s)", goal_cases)
  case (2 old_r new_r prefix suffix old_len new_len max_suffix n)
  have "max_suffix \<le> min old_len new_len"
    unfolding 2(3) by (rule min.mono) simp_all
  with 2 show ?case
    unfolding in_measure prod.case
    by (intro chunk_step_decreases [of n "min old_len new_len" max_suffix]) (simp_all only:)
qed simp

declare prefix_loop.simps [simp del] suffix_loop.simps [simp del]

definition derive_replacement_edit :: "rope \<Rightarrow> rope \<Rightarrow> (brange \<times> nat) option" where
  "derive_replacement_edit old_r new_r =
     (let old_len = rope_len old_r; new_len = rope_len new_r
      in if old_len = 0 \<and> new_len = 0 then Some (range_new 0 0, 0)
         else (case prefix_loop old_r new_r 0 of
                 None \<Rightarrow> None
               | Some prefix \<Rightarrow>
                   (case suffix_loop old_r new_r prefix 0 of
                      None \<Rightarrow> None
                    | Some suffix \<Rightarrow>
                        Some (range_new prefix (old_len - suffix), new_len - prefix - suffix))))"

section \<open>Typed runs\<close>

definition arbiter_typed_begin :: "undo_source \<Rightarrow> nat \<Rightarrow> nat \<Rightarrow> 'v buffer \<Rightarrow> 'v buffer" where
  "arbiter_typed_begin source run limit b = b\<lparr>typed_floor := Some (length (undo_stack b))\<rparr>"

definition covering_entry :: "undo_entry \<Rightarrow> rope \<Rightarrow> bool \<Rightarrow> undo_entry option" where
  "covering_entry oldest cur typed =
     map_option (\<lambda>(rng, n). \<lparr>entry_rope = entry_rope oldest,
                             entry_edit = \<lparr>pre_range = rng, desc_inserted = n\<rparr>, entry_typed = typed\<rparr>)
       (derive_replacement_edit (entry_rope oldest) cur)"

definition collapse_typed_command :: "'v buffer \<Rightarrow> 'v buffer option" where
  "collapse_typed_command b =
     (case typed_floor b of
        None \<Rightarrow> Some b
      | Some floor \<Rightarrow>
          (let b1 = b\<lparr>typed_floor := None\<rparr>
           in if length (undo_stack b) \<le> floor + 1 then Some b1
              else map_option (\<lambda>e. b1\<lparr>undo_stack := take floor (undo_stack b) @ [e]\<rparr>)
                     (covering_entry (undo_stack b ! floor) (buf_rope b) False)))"

definition command_collapse :: "'v buffer \<Rightarrow> 'v buffer option" where
  "command_collapse b = collapse_typed_command b"

definition note_typed_edit :: "bool \<Rightarrow> 'v buffer \<Rightarrow> ('v buffer \<times> bool) option" where
  "note_typed_edit merge b =
     (case collapse_typed_command b of
        None \<Rightarrow> None
      | Some b1 \<Rightarrow>
          (let n = length (undo_stack b1)
           in if n = 0 then Some (b1, False)
              else (let top = last (undo_stack b1);
                        b2 = b1\<lparr>undo_stack := butlast (undo_stack b1) @ [top\<lparr>entry_typed := True\<rparr>]\<rparr>
                    in if \<not> merge \<or> n < 2 then Some (b2, False)
                       else if \<not> entry_typed (undo_stack b2 ! (n - 2)) then Some (b2, False)
                       else map_option
                              (\<lambda>e. (b2\<lparr>undo_stack := take (n - 2) (undo_stack b2) @ [e]\<rparr>, True))
                              (covering_entry (undo_stack b2 ! (n - 2)) (buf_rope b2)
                                 (entry_typed (undo_stack b2 ! (n - 2)))))))"

end
