(* ===== verification/Buffer_History.thy ===== *)
theory Buffer_History
  imports Buffer
begin

text \<open>
  The invariant of a buffer and the lemmas that every operation of \<open>Buffer\<close> keeps it: each history
  entry describes the edit between its rope and the next one, the two stacks together stay within
  the history limit, and every mark points into the text.
\<close>

section \<open>Edit descriptions\<close>

text \<open>\<open>describes old new d\<close>: splicing the described bytes of \<open>new\<close> into \<open>old\<close> gives \<open>new\<close>.\<close>

definition describes :: "rope \<Rightarrow> rope \<Rightarrow> brange \<Rightarrow> nat \<Rightarrow> bool" where
  "describes old new rng n \<longleftrightarrow>
     range_start rng \<le> range_end rng \<and> range_end rng \<le> length (contents old) \<and>
     range_start rng + n \<le> length (contents new) \<and>
     contents new = splice_list (range_start rng) (range_end rng)
       (segment (range_start rng) (range_start rng + n) (contents new)) (contents old)"

lemma describes_length:
  assumes "describes old new rng n"
  shows "length (contents new) = length (contents old) - (range_end rng - range_start rng) + n"
proof -
  let ?s = "range_start rng" and ?e = "range_end rng"
  let ?bs = "segment ?s (?s + n) (contents new)"
  have a: "?s \<le> ?e" "?e \<le> length (contents old)" and "?s + n \<le> length (contents new)"
    and eq: "contents new = splice_list ?s ?e ?bs (contents old)"
    using assms by (simp_all add: describes_def)
  then have "length ?bs = n" by simp
  moreover have "length (contents new) = length (splice_list ?s ?e ?bs (contents old))"
    using eq by (rule arg_cong)
  ultimately show ?thesis
    unfolding length_splice_list [OF a] by simp
qed

lemma describes_splice:
  assumes "s \<le> e" and "e \<le> length (contents old)" and "contents new = splice_list s e bs (contents old)"
  shows "describes old new (range_new s e) (length bs)"
proof -
  have "segment s (s + length bs) (contents new) = bs"
    using assms by (simp add: splice_list_def segment_def)
  with assms show ?thesis
    by (simp add: describes_def range_new_def length_splice_list)
qed

lemma describes_inverse:
  assumes "describes old new rng n"
  shows "describes new old (range_new (range_start rng) (range_start rng + n)) (range_len rng)"
proof -
  let ?s = "range_start rng" and ?e = "range_end rng"
  let ?bs = "segment ?s (?s + n) (contents new)"
  have a: "?s \<le> ?e" "?e \<le> length (contents old)" "?s + n \<le> length (contents new)"
    "contents new = splice_list ?s ?e ?bs (contents old)"
    using assms by (simp_all add: describes_def)
  have "length ?bs = n" using a by simp
  then have "splice_list ?s (?s + n) (segment ?s ?e (contents old)) (contents new) = contents old"
    using splice_list_inverse [of ?s ?e "contents old" ?bs] a by (simp add: segment_def)
  with a show ?thesis
    by (simp add: describes_def range_new_def range_len_def)
qed

lemma rope_apply_describes:
  assumes "rope_inv r" and "rope_apply r op = Ok ed"
  shows "rope_inv (new_rope ed) \<and> describes r (new_rope ed) (edit_range ed) (inserted_len ed)"
proof (cases op)
  case (OpInsert pos bs)
  then have i: "rope_insert r pos bs = Ok ed" using assms by (simp add: rope_apply_def)
  then have "pos \<le> rope_len r" using rp.ins_OkD [OF assms(1)] by blast
  with i show ?thesis
    using rope_insert_correct [OF assms(1), of pos bs] describes_splice [of pos pos r "new_rope ed" bs] assms(1)
    by (auto simp: rope_len_contents)
next
  case (OpDelete rng)
  then have d: "rope_delete r (range_start rng) (range_end rng) = Ok ed"
    using assms by (simp add: rope_apply_def)
  then have "range_start rng \<le> range_end rng" "range_end rng \<le> rope_len r"
    using rp.del_OkD [OF assms(1)] by blast+
  with d show ?thesis
    using rope_delete_correct [OF assms(1), of "range_start rng" "range_end rng"]
      describes_splice [of "range_start rng" "range_end rng" r "new_rope ed" "[]"] assms(1)
    by (auto simp: rope_len_contents)
next
  case (OpReplace rng bs)
  then have d: "rope_replace r (range_start rng) (range_end rng) bs = Ok ed"
    using assms by (simp add: rope_apply_def)
  then have "range_start rng \<le> range_end rng" "range_end rng \<le> rope_len r"
    using rp.repl_OkD [OF assms(1)] by blast+
  with d show ?thesis
    using rope_replace_correct [OF assms(1), of "range_start rng" "range_end rng" bs]
      describes_splice [of "range_start rng" "range_end rng" r "new_rope ed" bs] assms(1)
    by (auto simp: rope_len_contents)
qed

lemma rope_apply_no_panic: "rope_inv r \<Longrightarrow> rope_apply r op \<noteq> Panic"
  by (cases op) (simp_all add: rope_apply_def rp.ins_no_panic rp.del_no_panic rp.repl_no_panic)

section \<open>The covering edit\<close>

lemma first_mismatch_None: "length xs = length ys \<Longrightarrow> first_mismatch xs ys = None \<longleftrightarrow> xs = ys"
  by (induction xs ys rule: first_mismatch.induct) auto

lemma first_mismatch_Some:
  "first_mismatch xs ys = Some k \<Longrightarrow>
   k < length xs \<and> k < length ys \<and> take k xs = take k ys \<and> xs ! k \<noteq> ys ! k"
proof (induction xs ys arbitrary: k rule: first_mismatch.induct)
  case (1 x xs y ys)
  then show ?case by (cases k) (auto split: if_splits)
qed auto

lemma slice_zeroed:
  "rope_inv r \<Longrightarrow> s + n \<le> rope_len r \<Longrightarrow> rope_slice r s (s + n) (replicate n 0) = Some (segment s (s + n) (contents r))"
  by (rule rope_slice_correct) simp_all

lemma take_segment: "take p xs @ segment p (p + n) xs = take (p + n) xs"
  by (simp add: segment_def take_add)

text \<open>The prefix loop returns the length of the longest common prefix.\<close>

lemma prefix_loop_correct:
  assumes "rope_inv a" and "rope_inv b"
    and "prefix \<le> min (rope_len a) (rope_len b)" and "take prefix (contents a) = take prefix (contents b)"
  shows "\<exists>p. prefix_loop a b prefix = Some p \<and> p \<le> min (rope_len a) (rope_len b) \<and>
           take p (contents a) = take p (contents b) \<and>
           (p < min (rope_len a) (rope_len b) \<longrightarrow> contents a ! p \<noteq> contents b ! p)"
  using assms
proof (induction "min (rope_len a) (rope_len b) - prefix" arbitrary: prefix rule: less_induct)
  case less
  define m where "m = min (rope_len a) (rope_len b)"
  define n where "n = min (min 4096 m) (m - prefix)"
  show ?case
  proof (cases "prefix < m")
    case False
    with less.prems show ?thesis
      by (subst prefix_loop.simps) (simp add: m_def [symmetric] Let_def)
  next
    case True
    have n: "0 < n" "prefix + n \<le> m" using True by (auto simp: n_def)
    have la: "prefix + n \<le> rope_len a" and lb: "prefix + n \<le> rope_len b"
      using n by (auto simp: m_def)
    let ?x = "segment prefix (prefix + n) (contents a)" and ?y = "segment prefix (prefix + n) (contents b)"
    have len: "length ?x = n" "length ?y = n"
      using la lb less.prems by (simp_all add: rope_len_contents)
    have unfold: "prefix_loop a b prefix =
        (case first_mismatch ?x ?y of Some off \<Rightarrow> Some (prefix + off) | None \<Rightarrow> prefix_loop a b (prefix + n))"
      using True less.prems la lb
      by (subst prefix_loop.simps) (simp add: m_def [symmetric] n_def [symmetric] Let_def slice_zeroed split: option.split)
    show ?thesis
    proof (cases "first_mismatch ?x ?y")
      case None
      then have "?x = ?y" using first_mismatch_None len by metis
      then have "take (prefix + n) (contents a) = take (prefix + n) (contents b)"
        using less.prems(4) by (metis take_segment)
      moreover have "m - (prefix + n) < m - prefix" using True n by linarith
      ultimately show ?thesis
        using less.hyps [of "prefix + n"] less.prems(1,2) n(2) unfold None by (simp add: m_def)
    next
      case (Some k)
      then have k: "k < n" "take k ?x = take k ?y" "?x ! k \<noteq> ?y ! k"
        using first_mismatch_Some [OF Some] len by auto
      then have "take k (drop prefix (contents a)) = take k (drop prefix (contents b))"
        by (simp add: segment_def)
      then have "take (prefix + k) (contents a) = take (prefix + k) (contents b)"
        using less.prems(4) by (simp add: take_add)
      moreover have "contents a ! (prefix + k) \<noteq> contents b ! (prefix + k)"
        using k la lb less.prems by (simp add: segment_def rope_len_contents)
      moreover have "prefix + k \<le> m" using k n by simp
      ultimately show ?thesis
        using unfold Some by (simp add: m_def)
    qed
  qed
qed

lemma rev_segment:
  "s + n \<le> length xs \<Longrightarrow> rev (segment (length xs - s - n) (length xs - s) xs) = segment s (s + n) (rev xs)"
  by (rule nth_equalityI) (auto simp: segment_def rev_nth)

lemma slice_zeroed_end:
  assumes "rope_inv r" and "s + n \<le> rope_len r"
  shows "rope_slice r (rope_len r - s - n) (rope_len r - s) (replicate n 0) =
           Some (rev (segment s (s + n) (rev (contents r))))"
proof -
  have "rope_slice r (rope_len r - s - n) (rope_len r - s) (replicate n 0) =
      Some (segment (rope_len r - s - n) (rope_len r - s) (contents r))"
    using assms by (intro rope_slice_correct) auto
  also have "segment (rope_len r - s - n) (rope_len r - s) (contents r) =
      rev (segment s (s + n) (rev (contents r)))"
    using rev_segment [of s n "contents r"] assms by (metis rev_rev_ident rope_len_contents)
  finally show ?thesis .
qed

text \<open>The suffix loop returns the length of the longest common suffix outside the prefix.\<close>

lemma suffix_loop_correct:
  assumes "rope_inv a" and "rope_inv b"
    and "suffix \<le> min (rope_len a - p) (rope_len b - p)"
    and "take suffix (rev (contents a)) = take suffix (rev (contents b))"
  shows "\<exists>s. suffix_loop a b p suffix = Some s \<and> s \<le> min (rope_len a - p) (rope_len b - p) \<and>
           take s (rev (contents a)) = take s (rev (contents b)) \<and>
           (s < min (rope_len a - p) (rope_len b - p) \<longrightarrow> rev (contents a) ! s \<noteq> rev (contents b) ! s)"
  using assms
proof (induction "min (rope_len a - p) (rope_len b - p) - suffix" arbitrary: suffix rule: less_induct)
  case less
  define m where "m = min (rope_len a - p) (rope_len b - p)"
  define n where "n = min (min 4096 (min (rope_len a) (rope_len b))) (m - suffix)"
  show ?case
  proof (cases "suffix < m")
    case False
    then have "suffix_loop a b p suffix = Some suffix"
      by (subst suffix_loop.simps) (simp only: m_def Let_def if_False)
    with False less.prems show ?thesis by (auto simp: m_def)
  next
    case True
    have ma: "m \<le> rope_len a" and mb: "m \<le> rope_len b" by (auto simp: m_def)
    have n: "0 < n" "suffix + n \<le> m" using True ma mb by (auto simp: n_def)
    have la: "suffix + n \<le> rope_len a" and lb: "suffix + n \<le> rope_len b"
      using n ma mb by auto
    let ?x = "segment suffix (suffix + n) (rev (contents a))" and ?y = "segment suffix (suffix + n) (rev (contents b))"
    have len: "length ?x = n" "length ?y = n"
      using la lb less.prems by (simp_all add: rope_len_contents)
    note slices = slice_zeroed_end [OF less.prems(1) la] slice_zeroed_end [OF less.prems(2) lb]
    have unfold: "suffix_loop a b p suffix =
        (case first_mismatch ?x ?y of Some off \<Rightarrow> Some (suffix + off) | None \<Rightarrow> suffix_loop a b p (suffix + n))"
      by (subst suffix_loop.simps)
         (simp only: Let_def m_def [symmetric] n_def [symmetric] slices True if_True option.case rev_rev_ident)
    show ?thesis
    proof (cases "first_mismatch ?x ?y")
      case None
      then have "?x = ?y" using first_mismatch_None len by metis
      then have "take (suffix + n) (rev (contents a)) = take (suffix + n) (rev (contents b))"
        using less.prems(4) by (metis take_segment)
      moreover have "m - (suffix + n) < m - suffix" using True n by linarith
      ultimately show ?thesis
        using less.hyps [of "suffix + n"] less.prems(1,2) n(2) unfold None by (simp add: m_def)
    next
      case (Some k)
      then have k: "k < n" "take k ?x = take k ?y" "?x ! k \<noteq> ?y ! k"
        using first_mismatch_Some [OF Some] len by auto
      then have "take k (drop suffix (rev (contents a))) = take k (drop suffix (rev (contents b)))"
        by (simp add: segment_def)
      then have "take (suffix + k) (rev (contents a)) = take (suffix + k) (rev (contents b))"
        using less.prems(4) by (simp add: take_add)
      moreover have "rev (contents a) ! (suffix + k) \<noteq> rev (contents b) ! (suffix + k)"
        using k la lb less.prems by (simp add: segment_def rope_len_contents)
      moreover have "suffix + k \<le> m" using k n by simp
      ultimately show ?thesis
        using unfold Some by (simp add: m_def)
    qed
  qed
qed

lemma take_rev_drop: "s \<le> length xs \<Longrightarrow> rev (take s (rev xs)) = drop (length xs - s) xs"
  by (simp add: take_rev)

text \<open>
  \<^verbatim>\<open>derive_replacement_edit\<close> never panics, describes the change, and is minimal: the two ropes
  differ right after the kept prefix and right before the kept suffix (unless one side is used up).
\<close>

lemma derive_replacement_edit_correct:
  assumes "rope_inv a" and "rope_inv b"
  shows "\<exists>rng n. derive_replacement_edit a b = Some (rng, n) \<and> describes a b rng n"
proof (cases "rope_len a = 0 \<and> rope_len b = 0")
  case True
  with assms show ?thesis
    by (simp add: derive_replacement_edit_def describes_def range_new_def rope_len_contents splice_list_def)
next
  case False
  obtain p where p: "prefix_loop a b 0 = Some p" "p \<le> min (rope_len a) (rope_len b)"
    "take p (contents a) = take p (contents b)"
    using prefix_loop_correct [OF assms, of 0] by auto
  obtain s where s: "suffix_loop a b p 0 = Some s" "s \<le> min (rope_len a - p) (rope_len b - p)"
    "take s (rev (contents a)) = take s (rev (contents b))"
    using suffix_loop_correct [OF assms, of 0 p] by auto
  let ?la = "length (contents a)" and ?lb = "length (contents b)"
  have la: "rope_len a = ?la" and lb: "rope_len b = ?lb"
    using assms by (simp_all add: rope_len_contents)
  have bounds: "p \<le> ?la - s" "p \<le> ?lb - s" "s \<le> ?la" "s \<le> ?lb"
    using p(2) s(2) la lb by auto
  have tail: "drop (?la - s) (contents a) = drop (?lb - s) (contents b)"
    using s(3) bounds by (metis take_rev_drop)
  have "contents b = take p (contents b) @ segment p (?lb - s) (contents b) @ drop (?lb - s) (contents b)"
    using bounds(2) by (metis append_assoc append_take_drop_id le_add_diff_inverse take_segment)
  then have "contents b = splice_list p (?la - s) (segment p (p + (?lb - p - s)) (contents b)) (contents a)"
    using p(3) tail bounds by (simp add: splice_list_def)
  then have "describes a b (range_new p (?la - s)) (?lb - p - s)"
    using bounds by (simp add: describes_def range_new_def)
  with False p(1) s(1) la lb show ?thesis
    by (auto simp: derive_replacement_edit_def Let_def)
qed

section \<open>The history invariant\<close>

text \<open>\<open>chain es cur\<close>, the newest entry first: each entry's edit leads from its rope to the next.\<close>

fun chain :: "undo_entry list \<Rightarrow> rope \<Rightarrow> bool" where
  "chain [] cur \<longleftrightarrow> True"
| "chain (x # xs) cur \<longleftrightarrow>
     rope_inv (entry_rope x) \<and>
     describes (entry_rope x) cur (pre_range (entry_edit x)) (desc_inserted (entry_edit x)) \<and>
     chain xs (entry_rope x)"

definition marks_ok :: "'v buffer \<Rightarrow> bool" where
  "marks_ok b \<longleftrightarrow>
     (\<forall>(i, m) \<in> set (marks b). i < next_mark_id b \<and> mark_position m \<le> length (contents (buf_rope b))) \<and>
     distinct (map fst (marks b))"

definition history_ok :: "'v buffer \<Rightarrow> bool" where
  "history_ok b \<longleftrightarrow>
     chain (rev (undo_stack b)) (buf_rope b) \<and> chain (rev (redo_stack b)) (buf_rope b) \<and>
     length (undo_stack b) + length (redo_stack b) \<le> UNDO_HISTORY_LIMIT"

definition views_ok :: "'v buffer \<Rightarrow> bool" where
  "views_ok b \<longleftrightarrow> (\<forall>(i, v) \<in> set (buf_views b). i < next_view_id b) \<and> distinct (map fst (buf_views b))"

definition buffer_inv :: "'v buffer \<Rightarrow> bool" where
  "buffer_inv b \<longleftrightarrow> rope_inv (buf_rope b) \<and> history_ok b \<and> marks_ok b \<and> views_ok b"

lemma chain_append: "chain (xs @ ys) cur \<Longrightarrow> chain xs cur"
  by (induction xs arbitrary: cur) auto

lemma chain_suffix: "chain (xs @ y # ys) cur \<Longrightarrow> rope_inv (entry_rope y) \<and> chain ys (entry_rope y)"
  by (induction xs arbitrary: cur) auto

lemma chain_push:
  assumes "chain (rev es) cur" and "rope_inv cur" and "describes cur new rng n"
  shows "chain (rev (push_undo \<lparr>entry_rope = cur, entry_edit = \<lparr>pre_range = rng, desc_inserted = n\<rparr>,
                               entry_typed = t\<rparr> es)) new"
proof -
  have "chain (rev (tl es)) cur"
    using assms(1) by (cases es) (auto dest: chain_append)
  with assms show ?thesis by (simp add: push_undo_def)
qed

lemma length_push_undo: "length es \<le> UNDO_HISTORY_LIMIT \<Longrightarrow> length (push_undo e es) \<le> UNDO_HISTORY_LIMIT"
  by (auto simp: push_undo_def UNDO_HISTORY_LIMIT_def)

text \<open>Moving the marks keeps them inside the new text.\<close>

lemma adjust_mark_bound:
  assumes "describes old new rng n" and "mark_position m \<le> length (contents old)"
  shows "mark_position (adjust_mark rng n m) \<le> length (contents new)"
proof -
  have len: "length (contents new) = length (contents old) - (range_end rng - range_start rng) + n"
    using assms(1) by (rule describes_length)
  have b: "range_start rng \<le> range_end rng" "range_end rng \<le> length (contents old)"
    "range_start rng + n \<le> length (contents new)"
    using assms(1) by (simp_all add: describes_def)
  have "mark_position m < range_start rng \<Longrightarrow> mark_position m \<le> length (contents new)"
    using b(3) by linarith
  moreover have "range_end rng < mark_position m \<Longrightarrow>
      mark_position m - (range_end rng - range_start rng) + n \<le> length (contents new)"
    using len b assms(2) by linarith
  moreover have "range_start rng \<le> length (contents new)" using b(3) by linarith
  ultimately show ?thesis
    using b(3) by (simp add: adjust_mark_def Let_def range_len_def split: mark_gravity.split)
qed

lemma marks_ok_adjust:
  assumes "marks_ok b" and "describes (buf_rope b) new rng n"
    and "marks b' = map (\<lambda>(i, m). (i, adjust_mark rng n m)) (marks b)"
    and "buf_rope b' = new" and "next_mark_id b' = next_mark_id b"
  shows "marks_ok b'"
proof -
  have "map fst (marks b') = map fst (marks b)"
    using assms(3) by (simp add: case_prod_beta comp_def)
  moreover have "\<forall>(i, m) \<in> set (marks b'). i < next_mark_id b' \<and> mark_position m \<le> length (contents (buf_rope b'))"
    using assms(1,3,4,5) adjust_mark_bound [OF assms(2)] by (auto simp: marks_ok_def)
  ultimately show ?thesis
    using assms(1) by (simp add: marks_ok_def)
qed

section \<open>Broadcasts and intercepts only touch view states\<close>

lemma broadcast_ids: "map fst (fst (broadcast ops b ed vs)) = map fst vs"
  by (induction ops b ed vs rule: broadcast.induct) (auto split: prod.splits option.splits)

lemma run_intercepts_ids: "map fst (fst (run_intercepts ops ctx vs op)) = map fst vs"
  by (induction ops ctx vs op rule: run_intercepts.induct) (auto split: prod.splits sum.splits)

lemma views_ok_same_ids:
  "views_ok b \<Longrightarrow> map fst (buf_views b') = map fst (buf_views b) \<Longrightarrow> next_view_id b' = next_view_id b \<Longrightarrow> views_ok b'"
  unfolding views_ok_def
  by (metis (mono_tags, lifting) case_prod_unfold list.set_map image_iff)

section \<open>Forward edits keep the invariant\<close>

lemma commit_edit_fields [simp]:
  "buf_rope (commit_edit ed b) = new_rope ed"
  "buf_views (commit_edit ed b) = buf_views b"
  "next_view_id (commit_edit ed b) = next_view_id b"
  "next_mark_id (commit_edit ed b) = next_mark_id b"
  "redo_stack (commit_edit ed b) = []"
  "is_modified (commit_edit ed b) = True"
  "revision (commit_edit ed b) = revision b + 1"
  "read_only (commit_edit ed b) = read_only b"
  "marks (commit_edit ed b) = map (\<lambda>(i, m). (i, adjust_mark (edit_range ed) (inserted_len ed) m)) (marks b)"
  "undo_stack (commit_edit ed b) = push_undo
     \<lparr>entry_rope = buf_rope b, entry_edit = \<lparr>pre_range = edit_range ed, desc_inserted = inserted_len ed\<rparr>,
      entry_typed = False\<rparr> (undo_stack b)"
  by (simp_all add: commit_edit_def Let_def adjust_marks_for_edit_def)

lemma commit_edit_inv:
  assumes inv: "buffer_inv b" and d: "rope_inv (new_rope ed)"
    "describes (buf_rope b) (new_rope ed) (edit_range ed) (inserted_len ed)"
  shows "buffer_inv (commit_edit ed b)"
proof -
  have "history_ok (commit_edit ed b)"
    using inv chain_push [OF _ _ d(2)] length_push_undo by (simp add: buffer_inv_def history_ok_def)
  moreover have "marks_ok (commit_edit ed b)"
    by (rule marks_ok_adjust [OF _ d(2)]) (use inv in \<open>simp_all add: buffer_inv_def\<close>)
  moreover have "views_ok (commit_edit ed b)"
    using inv by (simp add: buffer_inv_def views_ok_def)
  ultimately show ?thesis
    using d(1) by (simp add: buffer_inv_def)
qed

lemma buffer_inv_views:
  "buffer_inv b \<Longrightarrow> views_ok (b\<lparr>buf_views := vs\<rparr>) \<Longrightarrow> buffer_inv (b\<lparr>buf_views := vs\<rparr>)"
  by (simp add: buffer_inv_def history_ok_def marks_ok_def)

lemma run_rope_edit_inv:
  assumes inv: "buffer_inv b"
    and run: "run_rope_edit_and_broadcast ops vs op source b = Some (b', vs', r)"
  shows "buffer_inv b' \<and> map fst vs' = map fst vs \<and> buf_views b' = buf_views b \<and> next_view_id b' = next_view_id b"
proof (cases "rope_apply (buf_rope b) op")
  case None
  with run show ?thesis by (simp add: run_rope_edit_and_broadcast_def)
next
  case (Some r')
  show ?thesis
  proof (cases r')
    case (Inl e)
    with Some run inv show ?thesis by (simp add: run_rope_edit_and_broadcast_def)
  next
    case (Inr ed)
    have d: "rope_inv (new_rope ed)" "describes (buf_rope b) (new_rope ed) (edit_range ed) (inserted_len ed)"
      using rope_apply_describes [of "buf_rope b" op ed] inv Some Inr by (auto simp: buffer_inv_def)
    define b1 where "b1 = (if range_is_empty (edit_range ed) \<and> inserted_len ed = 0 then b else commit_edit ed b)"
    have "buffer_inv b1" "buf_views b1 = buf_views b" "next_view_id b1 = next_view_id b"
      using commit_edit_inv [OF inv d] inv by (simp_all add: b1_def)
    moreover have "b' = b1" "vs' = fst (broadcast ops b1 ed vs)"
      using run Some Inr by (auto simp: run_rope_edit_and_broadcast_def b1_def Let_def split: prod.splits option.splits)
    ultimately show ?thesis by (simp add: broadcast_ids)
  qed
qed

lemma run_rope_edit_no_panic:
  assumes "buffer_inv b"
  shows "run_rope_edit_and_broadcast ops vs op source b \<noteq> None"
  using rope_apply_no_panic [of "buf_rope b" op] assms
  by (auto simp: run_rope_edit_and_broadcast_def buffer_inv_def Let_def split: option.splits sum.splits prod.splits)

lemma buffer_inv_same_ids:
  assumes "buffer_inv b" and "map fst vs = map fst ws" and "views_ok (b\<lparr>buf_views := ws\<rparr>)"
  shows "buffer_inv (b\<lparr>buf_views := vs\<rparr>)"
proof -
  have "views_ok (b\<lparr>buf_views := vs\<rparr>)"
    by (rule views_ok_same_ids [OF assms(3)]) (simp_all add: assms(2))
  with assms(1) show ?thesis by (rule buffer_inv_views)
qed

lemma buffer_inv_clear_views: "buffer_inv b \<Longrightarrow> buffer_inv (b\<lparr>buf_views := []\<rparr>)"
  by (rule buffer_inv_views) (simp_all add: views_ok_def)

text \<open>Taking the views out, editing, and putting them back keeps the invariant.\<close>

lemma edit_with_views_inv:
  assumes "buffer_inv b" and "map fst vs = map fst (buf_views b)"
    and "run_rope_edit_and_broadcast ops vs op source (b\<lparr>buf_views := []\<rparr>) = Some (b', vs', r)"
  shows "buffer_inv (b'\<lparr>buf_views := vs'\<rparr>)"
proof -
  have r: "buffer_inv b'" "map fst vs' = map fst vs" "next_view_id b' = next_view_id (b\<lparr>buf_views := []\<rparr>)"
    using run_rope_edit_inv [OF buffer_inv_clear_views [OF assms(1)] assms(3)] by blast+
  have "views_ok b" using assms(1) by (simp add: buffer_inv_def)
  then have "views_ok (b'\<lparr>buf_views := buf_views b\<rparr>)"
    by (rule views_ok_same_ids) (simp_all add: r(3))
  moreover have "map fst vs' = map fst (buf_views b)" using r(2) assms(2) by simp
  ultimately show ?thesis by (rule buffer_inv_same_ids [OF r(1), rotated])
qed

lemma apply_edit_skip_intercepts_as_inv:
  assumes "buffer_inv b" and "apply_edit_skip_intercepts_as ops source op b = Some (b', r)"
  shows "buffer_inv b'"
  using assms edit_with_views_inv [OF assms(1) refl, of ops op source]
  by (auto simp: apply_edit_skip_intercepts_as_def split: option.splits)

lemma apply_edit_as_inv:
  assumes "buffer_inv b" and "apply_edit_as ops source op b = Some (b', r)"
  shows "buffer_inv b'"
proof -
  let ?b = "b\<lparr>buf_views := []\<rparr>"
  obtain vs res where ri: "run_intercepts ops (context_snapshot ?b) (buf_views b) op = (vs, res)"
    by fastforce
  have ids: "map fst vs = map fst (buf_views b)"
    using run_intercepts_ids [of ops "context_snapshot ?b" "buf_views b" op] ri by simp
  have "views_ok b" using assms(1) by (simp add: buffer_inv_def)
  then have kept: "buffer_inv (b\<lparr>buf_views := vs\<rparr>)"
    using buffer_inv_same_ids [OF assms(1) ids] by simp
  show ?thesis
    using assms ri kept edit_with_views_inv [OF assms(1) ids, of ops _ source]
    by (auto simp: apply_edit_as_def apply_edit_inner_def split: option.splits if_splits sum.splits)
qed

lemma edit_no_panic:
  assumes "buffer_inv b"
  shows "apply_edit_as ops source op b \<noteq> None" and "apply_edit_skip_intercepts_as ops source op b \<noteq> None"
  using run_rope_edit_no_panic [OF buffer_inv_clear_views [OF assms]]
  by (auto simp: apply_edit_as_def apply_edit_inner_def apply_edit_skip_intercepts_as_def
      simp del: not_None_eq split: option.splits sum.splits prod.splits)

lemma buffer_inv_flags:
  "buffer_inv (b\<lparr>read_only := x\<rparr>) = buffer_inv b"
  "buffer_inv (b\<lparr>is_modified := x\<rparr>) = buffer_inv b"
  "buffer_inv (b\<lparr>editing_in_progress := x\<rparr>) = buffer_inv b"
  "buffer_inv (b\<lparr>typed_floor := t\<rparr>) = buffer_inv b"
  "buffer_inv (b\<lparr>buf_name := n\<rparr>) = buffer_inv b"
  "buffer_inv (b\<lparr>name_origin := og\<rparr>) = buffer_inv b"
  "buffer_inv (b\<lparr>named_directory := d\<rparr>) = buffer_inv b"
  "buffer_inv (b\<lparr>major_mode := mm\<rparr>) = buffer_inv b"
  "buffer_inv (b\<lparr>file_path := p\<rparr>) = buffer_inv b"
  "buffer_inv (b\<lparr>buf_file_meta := fm\<rparr>) = buffer_inv b"
  by (simp_all add: buffer_inv_def history_ok_def marks_ok_def views_ok_def)

lemma clear_history_inv: "buffer_inv b \<Longrightarrow> buffer_inv (clear_history b)"
  by (simp add: clear_history_def buffer_inv_def history_ok_def marks_ok_def views_ok_def)

lemma set_generated_contents_inv:
  "buffer_inv b \<Longrightarrow> set_generated_contents ops bs b = Some (b', r) \<Longrightarrow> buffer_inv b'"
  by (auto simp: set_generated_contents_def apply_edit_skip_intercepts_def buffer_inv_flags
      intro!: clear_history_inv dest!: apply_edit_skip_intercepts_as_inv [rotated])

section \<open>Undo and redo keep the invariant\<close>

lemma finish_history_step_Some:
  "\<exists>vs. finish_history_step ops ed b = Some (b\<lparr>buf_views := vs\<rparr>,
       case snd (broadcast ops (b\<lparr>buf_views := []\<rparr>) ed (buf_views b)) of None \<Rightarrow> Inr ed | Some e \<Rightarrow> Inl e) \<and>
     map fst vs = map fst (buf_views b)"
  using broadcast_ids [of ops "b\<lparr>buf_views := []\<rparr>" ed "buf_views b"]
  by (auto simp: finish_history_step_def broadcast_on_edit_def split: prod.splits option.splits)

lemma chain_last:
  assumes "chain (rev es) cur" and "es \<noteq> []"
  shows "rope_inv (entry_rope (last es))"
    and "describes (entry_rope (last es)) cur (pre_range (entry_edit (last es))) (desc_inserted (entry_edit (last es)))"
    and "chain (rev (butlast es)) (entry_rope (last es))"
  using assms by (cases es rule: rev_cases; simp)+

lemma inverse_entry_describes:
  assumes "describes (entry_rope e) cur (pre_range (entry_edit e)) (desc_inserted (entry_edit e))"
  shows "describes cur (entry_rope e) (inverse_range e) (range_len (pre_range (entry_edit e)))"
  using describes_inverse [OF assms] by (simp add: inverse_range_def)

lemma history_move_inv:
  assumes inv: "buffer_inv b" and popped: "chain (rev popped) (buf_rope b)" and ne: "popped \<noteq> []"
    and to_chain: "chain (rev pushed) (buf_rope b)" and len: "length popped + length pushed \<le> UNDO_HISTORY_LIMIT"
  defines "e \<equiv> last popped"
  shows "chain (rev (butlast popped)) (entry_rope e)"
    and "chain (rev (pushed @ [inverse_entry e (buf_rope b)])) (entry_rope e)"
    and "length (butlast popped) + length (pushed @ [inverse_entry e (buf_rope b)]) \<le> UNDO_HISTORY_LIMIT"
    and "rope_inv (entry_rope e)"
    and "describes (buf_rope b) (entry_rope e) (inverse_range e) (range_len (pre_range (entry_edit e)))"
proof -
  show l: "chain (rev (butlast popped)) (entry_rope e)" "rope_inv (entry_rope e)"
    using chain_last [OF popped ne] by (simp_all add: e_def)
  show d: "describes (buf_rope b) (entry_rope e) (inverse_range e) (range_len (pre_range (entry_edit e)))"
    using chain_last(2) [OF popped ne] inverse_entry_describes by (simp add: e_def)
  show "chain (rev (pushed @ [inverse_entry e (buf_rope b)])) (entry_rope e)"
    using d to_chain inv by (simp add: inverse_entry_def buffer_inv_def)
  show "length (butlast popped) + length (pushed @ [inverse_entry e (buf_rope b)]) \<le> UNDO_HISTORY_LIMIT"
    using len ne by (cases popped) auto
qed

text \<open>The state an undo step leads to, before the views are told.\<close>

definition undone :: "'v buffer \<Rightarrow> 'v buffer" where
  "undone b =
     (let entry = last (undo_stack b)
      in (adjust_marks_for_edit (inverse_range entry) (range_len (pre_range (entry_edit entry)))
            (b\<lparr>undo_stack := butlast (undo_stack b), buf_rope := entry_rope entry\<rparr>))
         \<lparr>redo_stack := redo_stack b @ [inverse_entry entry (buf_rope b)],
          is_modified := (butlast (undo_stack b) \<noteq> []), revision := revision b + 1\<rparr>)"

definition redone :: "'v buffer \<Rightarrow> 'v buffer" where
  "redone b =
     (let entry = last (redo_stack b)
      in (adjust_marks_for_edit (inverse_range entry) (range_len (pre_range (entry_edit entry)))
            (b\<lparr>redo_stack := butlast (redo_stack b), buf_rope := entry_rope entry\<rparr>))
         \<lparr>undo_stack := undo_stack b @ [inverse_entry entry (buf_rope b)],
          is_modified := True, revision := revision b + 1\<rparr>)"

lemma undo_v01_eq:
  "undo_v01 ops b = (if undo_stack b = [] then Some (b, Inl NothingToUndo)
     else finish_history_step ops (inverse_edit (last (undo_stack b))) (undone b))"
  by (simp add: undo_v01_def undone_def Let_def adjust_marks_for_edit_def)

lemma redo_v01_eq:
  "redo_v01 ops b = (if redo_stack b = [] then Some (b, Inl NothingToRedo)
     else finish_history_step ops (inverse_edit (last (redo_stack b))) (redone b))"
  by (simp add: redo_v01_def redone_def Let_def adjust_marks_for_edit_def)

lemma undone_fields [simp]:
  "buf_rope (undone b) = entry_rope (last (undo_stack b))"
  "undo_stack (undone b) = butlast (undo_stack b)"
  "redo_stack (undone b) = redo_stack b @ [inverse_entry (last (undo_stack b)) (buf_rope b)]"
  "is_modified (undone b) = (butlast (undo_stack b) \<noteq> [])"
  "revision (undone b) = revision b + 1"
  "buf_views (undone b) = buf_views b" "next_view_id (undone b) = next_view_id b"
  "next_mark_id (undone b) = next_mark_id b" "read_only (undone b) = read_only b"
  "marks (undone b) = map (\<lambda>(i, m). (i, adjust_mark (inverse_range (last (undo_stack b)))
      (range_len (pre_range (entry_edit (last (undo_stack b))))) m)) (marks b)"
  by (simp_all add: undone_def Let_def adjust_marks_for_edit_def)

lemma redone_fields [simp]:
  "buf_rope (redone b) = entry_rope (last (redo_stack b))"
  "redo_stack (redone b) = butlast (redo_stack b)"
  "undo_stack (redone b) = undo_stack b @ [inverse_entry (last (redo_stack b)) (buf_rope b)]"
  "is_modified (redone b) = True"
  "revision (redone b) = revision b + 1"
  "buf_views (redone b) = buf_views b" "next_view_id (redone b) = next_view_id b"
  "next_mark_id (redone b) = next_mark_id b" "read_only (redone b) = read_only b"
  "marks (redone b) = map (\<lambda>(i, m). (i, adjust_mark (inverse_range (last (redo_stack b)))
      (range_len (pre_range (entry_edit (last (redo_stack b))))) m)) (marks b)"
  by (simp_all add: redone_def Let_def adjust_marks_for_edit_def)

lemma undone_inv:
  assumes inv: "buffer_inv b" and ne: "undo_stack b \<noteq> []"
  shows "buffer_inv (undone b)"
proof -
  note h = history_move_inv [OF inv _ ne, of "redo_stack b"]
  have hist: "chain (rev (undo_stack b)) (buf_rope b)" "chain (rev (redo_stack b)) (buf_rope b)"
    "length (undo_stack b) + length (redo_stack b) \<le> UNDO_HISTORY_LIMIT"
    using inv by (auto simp: buffer_inv_def history_ok_def)
  have "history_ok (undone b)"
    using h(1,2,3) [OF hist] by (simp add: history_ok_def)
  moreover have "marks_ok (undone b)"
    by (rule marks_ok_adjust [OF _ h(5) [OF hist]]) (use inv in \<open>simp_all add: buffer_inv_def\<close>)
  moreover have "views_ok (undone b)"
    using inv by (simp add: buffer_inv_def views_ok_def)
  ultimately show ?thesis
    using h(4) [OF hist] by (simp add: buffer_inv_def)
qed

lemma redone_inv:
  assumes inv: "buffer_inv b" and ne: "redo_stack b \<noteq> []"
  shows "buffer_inv (redone b)"
proof -
  note h = history_move_inv [OF inv _ ne, of "undo_stack b"]
  have hist: "chain (rev (redo_stack b)) (buf_rope b)" "chain (rev (undo_stack b)) (buf_rope b)"
    "length (redo_stack b) + length (undo_stack b) \<le> UNDO_HISTORY_LIMIT"
    using inv by (auto simp: buffer_inv_def history_ok_def)
  have "history_ok (redone b)"
    using h(1,2,3) [OF hist] by (simp add: history_ok_def)
  moreover have "marks_ok (redone b)"
    by (rule marks_ok_adjust [OF _ h(5) [OF hist]]) (use inv in \<open>simp_all add: buffer_inv_def\<close>)
  moreover have "views_ok (redone b)"
    using inv by (simp add: buffer_inv_def views_ok_def)
  ultimately show ?thesis
    using h(4) [OF hist] by (simp add: buffer_inv_def)
qed

lemma finish_history_step_inv:
  assumes "buffer_inv b" and "finish_history_step ops ed b = Some (b', r)"
  shows "buffer_inv b'"
proof -
  obtain vs where "b' = b\<lparr>buf_views := vs\<rparr>" "map fst vs = map fst (buf_views b)"
    using finish_history_step_Some [of ops ed b] assms(2) by auto
  moreover have "views_ok (b\<lparr>buf_views := buf_views b\<rparr>)"
    using assms(1) by (simp add: buffer_inv_def)
  ultimately show ?thesis
    using buffer_inv_same_ids [OF assms(1)] by blast
qed

lemma undo_for_inv: "buffer_inv b \<Longrightarrow> undo_for ops source b = Some (b', r) \<Longrightarrow> buffer_inv b'"
  by (auto simp: undo_for_def undo_v01_eq split: option.splits if_splits
      intro: finish_history_step_inv undone_inv)

lemma redo_for_inv: "buffer_inv b \<Longrightarrow> redo_for ops source b = Some (b', r) \<Longrightarrow> buffer_inv b'"
  by (auto simp: redo_for_def redo_v01_eq split: option.splits if_splits
      intro: finish_history_step_inv redone_inv)

section \<open>Typed runs keep the invariant\<close>

lemma covering_entry_correct:
  assumes "rope_inv (entry_rope old)" and "rope_inv cur"
  shows "\<exists>e. covering_entry old cur t = Some e \<and> entry_rope e = entry_rope old \<and> entry_typed e = t \<and>
           describes (entry_rope e) cur (pre_range (entry_edit e)) (desc_inserted (entry_edit e))"
  using derive_replacement_edit_correct [OF assms] by (auto simp: covering_entry_def)

text \<open>Replacing a tail of the stack by one entry with the rope of its oldest member.\<close>

lemma chain_replace_tail:
  assumes "chain (rev es) cur" and "k < length es"
    and "entry_rope e = entry_rope (es ! k)"
    and "describes (entry_rope e) cur (pre_range (entry_edit e)) (desc_inserted (entry_edit e))"
  shows "chain (rev (take k es @ [e])) cur" and "rope_inv (entry_rope (es ! k))"
proof -
  have "rev es = rev (drop (Suc k) es) @ es ! k # rev (take k es)"
    using assms(2) by (metis append_Cons append_Nil append_assoc id_take_nth_drop rev.simps(2) rev_append)
  then have "rope_inv (entry_rope (es ! k)) \<and> chain (rev (take k es)) (entry_rope (es ! k))"
    using assms(1) chain_suffix by metis
  with assms(3,4) show "chain (rev (take k es @ [e])) cur" and "rope_inv (entry_rope (es ! k))"
    by simp_all
qed

lemma chain_nth_inv: "chain (rev es) cur \<Longrightarrow> k < length es \<Longrightarrow> rope_inv (entry_rope (es ! k))"
proof -
  assume a: "chain (rev es) cur" "k < length es"
  have "rev es = rev (drop (Suc k) es) @ es ! k # rev (take k es)"
    using a(2) by (metis append_Cons append_Nil append_assoc id_take_nth_drop rev.simps(2) rev_append)
  with a(1) show ?thesis using chain_suffix by metis
qed

lemma buffer_inv_undo_stack:
  assumes "buffer_inv b" and "chain (rev es) (buf_rope b)" and "length es \<le> length (undo_stack b)"
  shows "buffer_inv (b\<lparr>undo_stack := es\<rparr>)"
  using assms by (simp add: buffer_inv_def history_ok_def marks_ok_def views_ok_def)

lemma replace_tail_inv:
  assumes inv: "buffer_inv b" and k: "k < length (undo_stack b)"
  shows "\<exists>e. covering_entry (undo_stack b ! k) (buf_rope b) t = Some e \<and>
           entry_rope e = entry_rope (undo_stack b ! k) \<and> entry_typed e = t \<and>
           buffer_inv (b\<lparr>undo_stack := take k (undo_stack b) @ [e]\<rparr>)"
proof -
  have c: "chain (rev (undo_stack b)) (buf_rope b)" "rope_inv (buf_rope b)"
    using inv by (simp_all add: buffer_inv_def history_ok_def)
  obtain e where e: "covering_entry (undo_stack b ! k) (buf_rope b) t = Some e"
    "entry_rope e = entry_rope (undo_stack b ! k)" "entry_typed e = t"
    "describes (entry_rope e) (buf_rope b) (pre_range (entry_edit e)) (desc_inserted (entry_edit e))"
    using covering_entry_correct [OF chain_nth_inv [OF c(1) k] c(2)] by blast
  have "buffer_inv (b\<lparr>undo_stack := take k (undo_stack b) @ [e]\<rparr>)"
    by (rule buffer_inv_undo_stack [OF inv chain_replace_tail(1) [OF c(1) k e(2,4)]]) (use k in simp)
  with e show ?thesis by blast
qed

text \<open>
  Collapsing the entries of one command leaves one entry with the rope the command began with;
  it never panics.
\<close>

lemma collapse_typed_command_correct:
  assumes inv: "buffer_inv b"
  shows "\<exists>b'. collapse_typed_command b = Some b' \<and> buffer_inv b' \<and> buf_rope b' = buf_rope b \<and>
     typed_floor b' = None \<and> redo_stack b' = redo_stack b \<and>
     (case typed_floor b of
        None \<Rightarrow> undo_stack b' = undo_stack b
      | Some f \<Rightarrow>
          if length (undo_stack b) \<le> f + 1 then undo_stack b' = undo_stack b
          else \<exists>e. undo_stack b' = take f (undo_stack b) @ [e] \<and> entry_rope e = entry_rope (undo_stack b ! f))"
proof (cases "typed_floor b")
  case None
  with inv show ?thesis by (simp add: collapse_typed_command_def)
next
  case (Some f)
  show ?thesis
  proof (cases "length (undo_stack b) \<le> f + 1")
    case True
    with Some inv show ?thesis by (simp add: collapse_typed_command_def buffer_inv_flags)
  next
    case False
    let ?b = "b\<lparr>typed_floor := None\<rparr>"
    have "buffer_inv ?b" using inv by (simp add: buffer_inv_flags)
    moreover have "f < length (undo_stack ?b)" using False by simp
    ultimately obtain e where "covering_entry (undo_stack ?b ! f) (buf_rope ?b) False = Some e"
      "entry_rope e = entry_rope (undo_stack ?b ! f)"
      "buffer_inv (?b\<lparr>undo_stack := take f (undo_stack ?b) @ [e]\<rparr>)"
      using replace_tail_inv by blast
    with Some False show ?thesis by (simp add: collapse_typed_command_def)
  qed
qed

lemma chain_retype:
  "chain (rev (es @ [e])) cur \<Longrightarrow> chain (rev (es @ [e\<lparr>entry_typed := t\<rparr>])) cur"
  by simp

lemma note_typed_edit_correct:
  assumes inv: "buffer_inv b"
  shows "\<exists>b' r. note_typed_edit merge b = Some (b', r) \<and> buffer_inv b' \<and> buf_rope b' = buf_rope b"
proof -
  obtain b1 where b1: "collapse_typed_command b = Some b1" "buffer_inv b1" "buf_rope b1 = buf_rope b"
    using collapse_typed_command_correct [OF inv] by blast
  show ?thesis
  proof (cases "undo_stack b1 = []")
    case True
    with b1(1) have "note_typed_edit merge b = Some (b1, False)"
      by (simp add: note_typed_edit_def)
    with b1 show ?thesis by blast
  next
    case False
    let ?n = "length (undo_stack b1)"
    let ?es = "butlast (undo_stack b1) @ [last (undo_stack b1)\<lparr>entry_typed := True\<rparr>]"
    let ?b2 = "b1\<lparr>undo_stack := ?es\<rparr>"
    have "chain (rev (undo_stack b1)) (buf_rope b1)"
      using b1(2) by (simp add: buffer_inv_def history_ok_def)
    then have "chain (rev ?es) (buf_rope b1)"
      using False by (intro chain_retype) simp
    then have b2: "buffer_inv ?b2"
      using buffer_inv_undo_stack [OF b1(2)] False by simp
    show ?thesis
    proof (cases "merge \<and> 2 \<le> ?n \<and> entry_typed (?es ! (?n - 2))")
      case True
      then have "?n - 2 < length (undo_stack ?b2)" by simp
      then obtain e where e: "covering_entry (undo_stack ?b2 ! (?n - 2)) (buf_rope ?b2) True = Some e"
        "buffer_inv (?b2\<lparr>undo_stack := take (?n - 2) (undo_stack ?b2) @ [e]\<rparr>)"
        using replace_tail_inv [OF b2] by blast
      then have "note_typed_edit merge b = Some (?b2\<lparr>undo_stack := take (?n - 2) (undo_stack ?b2) @ [e]\<rparr>, True)"
        using True False b1(1) by (simp add: note_typed_edit_def Let_def)
      with e(2) b1(3) show ?thesis by auto
    next
      case no_merge: False
      then have "note_typed_edit merge b = Some (?b2, False)"
        using b1(1) False by (auto simp: note_typed_edit_def Let_def)
      with b2 b1(3) show ?thesis by auto
    qed
  qed
qed

section \<open>Marks and views keep the invariant\<close>

lemma create_mark_inv: "buffer_inv b \<Longrightarrow> create_mark pos g b = (b', r) \<Longrightarrow> buffer_inv b'"
  by (fastforce simp: create_mark_def buffer_len_def buffer_inv_def marks_ok_def history_ok_def views_ok_def
      rope_len_contents split: if_splits)

lemma update_first_keys: "update_first k f xs = Some ys \<Longrightarrow> map fst ys = map fst xs"
  by (induction k f xs arbitrary: ys rule: update_first.induct) (auto split: if_splits)

lemma update_first_elem:
  "update_first k f xs = Some ys \<Longrightarrow> (i, y) \<in> set ys \<Longrightarrow> \<exists>x. (i, x) \<in> set xs \<and> (y = x \<or> y = f x)"
proof (induction k f xs arbitrary: ys rule: update_first.induct)
  case (2 k f k' x xs)
  show ?case
  proof (cases "k' = k")
    case False
    with 2 obtain zs where "update_first k f xs = Some zs" "ys = (k', x) # zs" by auto
    with 2 False show ?thesis by fastforce
  qed (use 2 in auto)
qed simp

lemma remove_first_subset: "remove_first k xs = Some (x, ys) \<Longrightarrow> set ys \<subseteq> set xs"
proof (induction k xs arbitrary: ys rule: remove_first.induct)
  case (2 k k' x' xs)
  then show ?case by (cases "k' = k") auto
qed simp

lemma remove_first_distinct:
  "remove_first k xs = Some (x, ys) \<Longrightarrow> distinct (map fst xs) \<Longrightarrow> distinct (map fst ys)"
proof (induction k xs arbitrary: ys rule: remove_first.induct)
  case (2 k k' x' xs)
  show ?case
  proof (cases "k' = k")
    case False
    with 2 obtain zs where "remove_first k xs = Some (x, zs)" "ys = (k', x') # zs"
      by auto
    with 2 False remove_first_subset [of k xs x zs] show ?thesis by auto
  qed (use 2 in auto)
qed simp

lemma set_mark_inv:
  assumes "buffer_inv b" and "set_mark i pos b = (b', r)"
  shows "buffer_inv b'"
proof (cases "buffer_len b < pos \<or> update_first i (\<lambda>m. m\<lparr>mark_position := pos\<rparr>) (marks b) = None")
  case True
  with assms show ?thesis by (auto simp: set_mark_def split: if_splits)
next
  case False
  then obtain ms where ms: "update_first i (\<lambda>m. m\<lparr>mark_position := pos\<rparr>) (marks b) = Some ms" by auto
  have "pos \<le> length (contents (buf_rope b))"
    using False assms(1) by (simp add: buffer_len_def buffer_inv_def rope_len_contents)
  then have "marks_ok (b\<lparr>marks := ms\<rparr>)"
    using assms(1) update_first_keys [OF ms] update_first_elem [OF ms]
    by (fastforce simp: marks_ok_def buffer_inv_def)
  with assms False ms show ?thesis
    by (auto simp: set_mark_def buffer_inv_def history_ok_def views_ok_def)
qed

lemma remove_mark_inv:
  assumes "buffer_inv b" and "remove_mark i b = (b', r)"
  shows "buffer_inv b'"
proof (cases "remove_first i (marks b)")
  case (Some x)
  then obtain m ms where ms: "remove_first i (marks b) = Some (m, ms)" by (cases x) auto
  have "marks_ok (b\<lparr>marks := ms\<rparr>)"
    using assms(1) remove_first_subset [OF ms] remove_first_distinct [OF ms] by (auto simp: marks_ok_def buffer_inv_def)
  with assms ms show ?thesis
    by (auto simp: remove_mark_def buffer_inv_def history_ok_def views_ok_def)
qed (use assms in \<open>simp add: remove_mark_def\<close>)

lemma attach_view_inv: "buffer_inv b \<Longrightarrow> attach_view v b = (b', i) \<Longrightarrow> buffer_inv b'"
  by (fastforce simp: attach_view_def buffer_inv_def marks_ok_def history_ok_def views_ok_def)

lemma detach_view_inv:
  assumes "buffer_inv b" and "detach_view i b = (b', r)"
  shows "buffer_inv b'"
proof (cases "remove_first i (buf_views b)")
  case (Some x)
  then obtain v vs where vs: "remove_first i (buf_views b) = Some (v, vs)" by (cases x) auto
  have "views_ok (b\<lparr>buf_views := vs\<rparr>)"
    using assms(1) remove_first_subset [OF vs] remove_first_distinct [OF vs] by (auto simp: views_ok_def buffer_inv_def)
  with assms vs show ?thesis
    by (auto simp: detach_view_def intro: buffer_inv_views)
qed (use assms in \<open>simp add: detach_view_def\<close>)

section \<open>Reachable buffers\<close>

text \<open>
  One rule per public operation that changes a buffer. \<^verbatim>\<open>take_views\<close> hands the views out and \<^verbatim>\<open>restore_views\<close> takes
  views back: ones the buffer numbered and does not hold, in whatever state they come back.
\<close>

inductive buf_step :: "'v view_ops \<Rightarrow> 'v buffer \<Rightarrow> 'v buffer \<Rightarrow> bool" for ops where
  step_edit: "apply_edit_as ops source op b = Some (b', r) \<Longrightarrow> buf_step ops b b'"
| step_edit_skip: "apply_edit_skip_intercepts_as ops source op b = Some (b', r) \<Longrightarrow> buf_step ops b b'"
| step_generated: "set_generated_contents ops bs b = Some (b', r) \<Longrightarrow> buf_step ops b b'"
| step_undo: "undo_for ops source b = Some (b', r) \<Longrightarrow> buf_step ops b b'"
| step_redo: "redo_for ops source b = Some (b', r) \<Longrightarrow> buf_step ops b b'"
| step_typed_begin: "buf_step ops b (arbiter_typed_begin source run limit b)"
| step_note_typed: "note_typed_edit merge b = Some (b', m) \<Longrightarrow> buf_step ops b b'"
| step_collapse: "command_collapse b = Some b' \<Longrightarrow> buf_step ops b b'"
| step_create_mark: "create_mark pos g b = (b', rm) \<Longrightarrow> buf_step ops b b'"
| step_set_mark: "set_mark i pos b = (b', rs) \<Longrightarrow> buf_step ops b b'"
| step_remove_mark: "remove_mark i b = (b', m) \<Longrightarrow> buf_step ops b b'"
| step_attach: "attach_view v b = (b', i) \<Longrightarrow> buf_step ops b b'"
| step_detach: "detach_view i b = (b', rv) \<Longrightarrow> buf_step ops b b'"
| step_take_views: "take_views b = (b', vs) \<Longrightarrow> buf_step ops b b'"
| step_restore_views: "(\<forall>(i, v) \<in> set vs. i < next_view_id b) \<Longrightarrow> distinct (map fst (vs @ buf_views b)) \<Longrightarrow>
    buf_step ops b (restore_views vs b)"
| step_begin: "begin_edit b = (b', ru) \<Longrightarrow> buf_step ops b b'"
| step_end: "buf_step ops b (end_edit b)"
| step_clean: "buf_step ops b (mark_clean b)"
| step_read_only: "buf_step ops b (set_read_only ro b)"
| step_name: "buf_step ops b (set_name name b)"
| step_path: "buf_step ops b (set_file_path path b)"
| step_mode: "buf_step ops b (set_major_mode mode b)"
| step_meta: "buf_step ops b (set_file_meta meta b)"
| step_name_path: "buf_step ops b (name_from_path b)"
| step_name_directory: "buf_step ops b (name_from_directory dir b)"
| step_derived_name: "buf_step ops b (set_derived_name name b)"
| step_clear_history: "buf_step ops b (clear_history b)"

inductive buf_reach :: "'v view_ops \<Rightarrow> 'v buffer \<Rightarrow> bool" for ops where
  reach_start: "buf_reach ops (buffer_from_bytes i name bs)"
| reach_step: "buf_reach ops b \<Longrightarrow> buf_step ops b b' \<Longrightarrow> buf_reach ops b'"

lemma buffer_inv_from_bytes: "buffer_inv (buffer_from_bytes i name bs)"
  using rope_from_bytes_correct [of bs]
  by (simp add: buffer_from_bytes_def buffer_from_rope_def buffer_inv_def history_ok_def marks_ok_def views_ok_def)

lemma begin_edit_inv: "buffer_inv b \<Longrightarrow> begin_edit b = (b', r) \<Longrightarrow> buffer_inv b'"
  by (auto simp: begin_edit_def buffer_inv_flags split: option.splits if_splits)

lemma command_collapse_inv: "buffer_inv b \<Longrightarrow> command_collapse b = Some b' \<Longrightarrow> buffer_inv b'"
  using collapse_typed_command_correct [of b] by (auto simp: command_collapse_def)

lemma note_typed_edit_inv: "buffer_inv b \<Longrightarrow> note_typed_edit m b = Some (b', r) \<Longrightarrow> buffer_inv b'"
  using note_typed_edit_correct [of b m] by auto

lemma take_views_inv: "buffer_inv b \<Longrightarrow> take_views b = (b', vs) \<Longrightarrow> buffer_inv b'"
  by (auto simp: take_views_def intro: buffer_inv_clear_views)

lemma restore_views_inv:
  assumes "buffer_inv b" and "\<forall>(i, v) \<in> set vs. i < next_view_id b" and "distinct (map fst (vs @ buf_views b))"
  shows "buffer_inv (restore_views vs b)"
  unfolding restore_views_def
  by (rule buffer_inv_views [OF assms(1)]) (use assms in \<open>auto simp: buffer_inv_def views_ok_def\<close>)

lemmas buffer_inv_intros = take_views_inv apply_edit_as_inv apply_edit_skip_intercepts_as_inv set_generated_contents_inv
  undo_for_inv redo_for_inv note_typed_edit_inv command_collapse_inv create_mark_inv set_mark_inv
  remove_mark_inv attach_view_inv detach_view_inv begin_edit_inv

lemmas plain_setter_defs = arbiter_typed_begin_def end_edit_def mark_clean_def set_read_only_def set_name_def
  set_file_path_def set_major_mode_def set_file_meta_def name_from_path_def name_from_directory_def set_derived_name_def

lemma buf_step_inv: "buf_step ops b b' \<Longrightarrow> buffer_inv b \<Longrightarrow> buffer_inv b'"
  by (induction rule: buf_step.induct;
      (erule (1) buffer_inv_intros | erule (2) restore_views_inv | erule clear_history_inv |
       simp only: plain_setter_defs buffer_inv_flags))

section \<open>What an operation means for the text\<close>

text \<open>The specification of one edit on the byte list.\<close>

fun op_splice :: "edit_op \<Rightarrow> byte list \<Rightarrow> byte list" where
  "op_splice (OpInsert pos bs) xs = splice_list pos pos bs xs"
| "op_splice (OpDelete rng) xs = splice_list (range_start rng) (range_end rng) [] xs"
| "op_splice (OpReplace rng bs) xs = splice_list (range_start rng) (range_end rng) bs xs"

fun op_in_bounds :: "edit_op \<Rightarrow> nat \<Rightarrow> bool" where
  "op_in_bounds (OpInsert pos bs) len \<longleftrightarrow> pos \<le> len"
| "op_in_bounds (OpDelete rng) len \<longleftrightarrow> range_start rng \<le> range_end rng \<and> range_end rng \<le> len"
| "op_in_bounds (OpReplace rng bs) len \<longleftrightarrow> range_start rng \<le> range_end rng \<and> range_end rng \<le> len"

fun op_is_noop :: "edit_op \<Rightarrow> bool" where
  "op_is_noop (OpInsert pos bs) \<longleftrightarrow> bs = []"
| "op_is_noop (OpDelete rng) \<longleftrightarrow> range_start rng = range_end rng"
| "op_is_noop (OpReplace rng bs) \<longleftrightarrow> range_start rng = range_end rng \<and> bs = []"

text \<open>What the operation reports: its range and the number of bytes it inserts.\<close>

fun op_range :: "edit_op \<Rightarrow> brange" where
  "op_range (OpInsert pos bs) = range_new pos pos"
| "op_range (OpDelete rng) = rng"
| "op_range (OpReplace rng bs) = rng"

fun op_inserted :: "edit_op \<Rightarrow> nat" where
  "op_inserted (OpInsert pos bs) = length bs"
| "op_inserted (OpDelete rng) = 0"
| "op_inserted (OpReplace rng bs) = length bs"

lemma op_is_noop_iff: "op_is_noop op \<longleftrightarrow> range_is_empty (op_range op) \<and> op_inserted op = 0"
  by (cases op) (auto simp: range_is_empty_def range_new_def)

lemma rope_apply_spec:
  assumes "rope_inv r"
  shows "op_in_bounds op (rope_len r) \<Longrightarrow>
      \<exists>ed. rope_apply r op = Ok ed \<and> rope_inv (new_rope ed) \<and> contents (new_rope ed) = op_splice op (contents r) \<and>
           edit_range ed = op_range op \<and> inserted_len ed = op_inserted op"
    and "\<not> op_in_bounds op (rope_len r) \<Longrightarrow> \<exists>e. rope_apply r op = Err e"
proof -
  show "\<exists>ed. rope_apply r op = Ok ed \<and> rope_inv (new_rope ed) \<and> contents (new_rope ed) = op_splice op (contents r) \<and>
           edit_range ed = op_range op \<and> inserted_len ed = op_inserted op"
    if "op_in_bounds op (rope_len r)"
    using that assms rope_insert_correct [of r] rope_delete_correct [of r] rope_replace_correct [of r]
    by (cases op) (fastforce simp: rope_apply_def range_new_def)+
  show "\<exists>e. rope_apply r op = Err e" if "\<not> op_in_bounds op (rope_len r)"
    using that by (cases op) (auto simp: rope_apply_def not_le rp.ins_err rp.del_err rp.repl_err)
qed

lemma run_rope_edit_spec:
  assumes inv: "buffer_inv b" and "op_in_bounds op (buffer_len b)"
  shows "\<exists>ed vs' e. run_rope_edit_and_broadcast ops vs op source b =
             Some (if op_is_noop op then b else commit_edit ed b, vs', case e of None \<Rightarrow> Inr ed | Some x \<Rightarrow> Inl x) \<and>
           contents (new_rope ed) = op_splice op (contents (buf_rope b)) \<and>
           edit_range ed = op_range op \<and> inserted_len ed = op_inserted op \<and> map fst vs' = map fst vs \<and>
           (e \<noteq> None \<longrightarrow> vs \<noteq> [])"
proof -
  have "rope_inv (buf_rope b)" using inv by (simp add: buffer_inv_def)
  then obtain ed where ed: "rope_apply (buf_rope b) op = Ok ed"
    "contents (new_rope ed) = op_splice op (contents (buf_rope b))" "edit_range ed = op_range op" "inserted_len ed = op_inserted op"
    using rope_apply_spec(1) assms(2) by (auto simp: buffer_len_def)
  let ?b = "if op_is_noop op then b else commit_edit ed b"
  obtain vs' e where br: "broadcast ops ?b ed vs = (vs', e)" by fastforce
  then have "map fst vs' = map fst vs \<and> (e \<noteq> None \<longrightarrow> vs \<noteq> [])" using broadcast_ids [of ops ?b ed vs] by (cases vs) auto
  moreover have "run_rope_edit_and_broadcast ops vs op source b =
      Some (?b, vs', case e of None \<Rightarrow> Inr ed | Some x \<Rightarrow> Inl x)"
    using ed br by (auto simp: run_rope_edit_and_broadcast_def Let_def op_is_noop_iff split: option.splits)
  ultimately show ?thesis using ed(2-4) by blast
qed

section \<open>History as a zipper of ropes\<close>

text \<open>
  The abstract history: the past states oldest first, the present one, and the undone states, the
  next one to redo last. Undo and redo move the present along it.
\<close>

type_synonym rope_zipper = "rope list \<times> rope \<times> rope list"

definition zipper_of :: "'v buffer \<Rightarrow> rope_zipper" where
  "zipper_of b = (map entry_rope (undo_stack b), buf_rope b, map entry_rope (redo_stack b))"

fun zip_undo :: "rope_zipper \<Rightarrow> rope_zipper" where
  "zip_undo (ps, c, fs) = (if ps = [] then (ps, c, fs) else (butlast ps, last ps, fs @ [c]))"

fun zip_redo :: "rope_zipper \<Rightarrow> rope_zipper" where
  "zip_redo (ps, c, fs) = (if fs = [] then (ps, c, fs) else (ps @ [c], last fs, butlast fs))"

lemma zipper_of_views [simp]: "zipper_of (b\<lparr>buf_views := vs\<rparr>) = zipper_of b"
  by (simp add: zipper_of_def)

lemma map_butlast_last: "es \<noteq> [] \<Longrightarrow> map f (butlast es) = butlast (map f es) \<and> f (last es) = last (map f es)"
  by (simp add: map_butlast last_map)

lemma undo_for_refines:
  assumes "\<not> read_only b"
  shows "\<exists>b' r. undo_for ops source b = Some (b', r) \<and> zipper_of b' = zip_undo (zipper_of b) \<and> \<not> read_only b' \<and>
           buf_name b' = buf_name b"
proof (cases "undo_stack b = []")
  case True
  with assms show ?thesis
    by (simp add: undo_for_def ensure_writable_def undo_v01_eq zipper_of_def)
next
  case False
  obtain vs where "undo_for ops source b = Some ((undone b)\<lparr>buf_views := vs\<rparr>,
      case snd (broadcast ops ((undone b)\<lparr>buf_views := []\<rparr>) (inverse_edit (last (undo_stack b))) (buf_views (undone b)))
      of None \<Rightarrow> Inr (inverse_edit (last (undo_stack b))) | Some e \<Rightarrow> Inl e)"
    using finish_history_step_Some [of ops "inverse_edit (last (undo_stack b))" "undone b"] assms False
    by (auto simp: undo_for_def ensure_writable_def undo_v01_eq)
  moreover have "zipper_of (undone b) = zip_undo (zipper_of b)"
    using False by (simp add: zipper_of_def map_butlast last_map inverse_entry_def)
  moreover have "buf_name (undone b) = buf_name b"
    by (simp add: undone_def Let_def adjust_marks_for_edit_def)
  ultimately show ?thesis using assms by simp
qed

lemma redo_for_refines:
  assumes "\<not> read_only b"
  shows "\<exists>b' r. redo_for ops source b = Some (b', r) \<and> zipper_of b' = zip_redo (zipper_of b) \<and> \<not> read_only b'"
proof (cases "redo_stack b = []")
  case True
  with assms show ?thesis
    by (simp add: redo_for_def ensure_writable_def redo_v01_eq zipper_of_def)
next
  case False
  obtain vs where "redo_for ops source b = Some ((redone b)\<lparr>buf_views := vs\<rparr>,
      case snd (broadcast ops ((redone b)\<lparr>buf_views := []\<rparr>) (inverse_edit (last (redo_stack b))) (buf_views (redone b)))
      of None \<Rightarrow> Inr (inverse_edit (last (redo_stack b))) | Some e \<Rightarrow> Inl e)"
    using finish_history_step_Some [of ops "inverse_edit (last (redo_stack b))" "redone b"] assms False
    by (auto simp: redo_for_def ensure_writable_def redo_v01_eq)
  moreover have "zipper_of (redone b) = zip_redo (zipper_of b)"
    using False by (simp add: zipper_of_def map_butlast last_map inverse_entry_def)
  ultimately show ?thesis using assms by simp
qed

fun undo_times :: "'v view_ops \<Rightarrow> nat \<Rightarrow> 'v buffer \<Rightarrow> 'v buffer option" where
  "undo_times ops 0 b = Some b"
| "undo_times ops (Suc k) b = (case undo ops b of None \<Rightarrow> None | Some (b', r) \<Rightarrow> undo_times ops k b')"

fun redo_times :: "'v view_ops \<Rightarrow> nat \<Rightarrow> 'v buffer \<Rightarrow> 'v buffer option" where
  "redo_times ops 0 b = Some b"
| "redo_times ops (Suc k) b = (case redo ops b of None \<Rightarrow> None | Some (b', r) \<Rightarrow> redo_times ops k b')"

lemma undo_times_refines:
  "\<not> read_only b \<Longrightarrow> \<exists>b'. undo_times ops k b = Some b' \<and> \<not> read_only b' \<and> zipper_of b' = (zip_undo ^^ k) (zipper_of b)"
proof (induction k arbitrary: b)
  case (Suc k)
  then obtain b1 r where "undo ops b = Some (b1, r)" "zipper_of b1 = zip_undo (zipper_of b)" "\<not> read_only b1"
    using undo_for_refines [of b ops Daemon] by (auto simp: undo_def)
  with Suc.IH [of b1] show ?case by (auto simp: funpow_swap1)
qed simp

lemma redo_times_refines:
  "\<not> read_only b \<Longrightarrow> \<exists>b'. redo_times ops k b = Some b' \<and> \<not> read_only b' \<and> zipper_of b' = (zip_redo ^^ k) (zipper_of b)"
proof (induction k arbitrary: b)
  case (Suc k)
  then obtain b1 r where "redo ops b = Some (b1, r)" "zipper_of b1 = zip_redo (zipper_of b)" "\<not> read_only b1"
    using redo_for_refines [of b ops Daemon] by (auto simp: redo_def)
  with Suc.IH [of b1] show ?case by (auto simp: funpow_swap1)
qed simp

lemma zip_redo_undo: "fst z \<noteq> [] \<Longrightarrow> zip_redo (zip_undo z) = z"
  by (cases z) auto

lemma zip_undo_nth:
  "k \<le> length ps \<Longrightarrow> (zip_undo ^^ k) (ps, c, fs) =
     (take (length ps - k) ps, (ps @ [c]) ! (length ps - k), fs @ rev (drop (length ps - k + 1) (ps @ [c])))"
proof (induction k)
  case (Suc k)
  let ?m = "length ps - k"
  have m: "0 < ?m" "?m \<le> length ps" "length ps - Suc k = ?m - 1" using Suc.prems by auto
  have "zip_undo (take ?m ps, (ps @ [c]) ! ?m, fs @ rev (drop (?m + 1) (ps @ [c]))) =
      (take (?m - 1) ps, (ps @ [c]) ! (?m - 1), fs @ rev (drop (?m + 1) (ps @ [c])) @ [(ps @ [c]) ! ?m])"
    using m by (auto simp: butlast_take last_conv_nth nth_append)
  moreover have "drop ?m (ps @ [c]) = (ps @ [c]) ! ?m # drop (?m + 1) (ps @ [c])"
    using m by (simp add: Cons_nth_drop_Suc del: drop_append)
  moreover have "?m - 1 + 1 = ?m" using m by simp
  moreover have "(zip_undo ^^ k) (ps, c, fs) =
      (take ?m ps, (ps @ [c]) ! ?m, fs @ rev (drop (?m + 1) (ps @ [c])))"
    using Suc by simp
  ultimately show ?case
    by (simp only: funpow.simps comp_apply m(3) rev.simps)
qed simp

lemma zip_redo_undo_times: "k \<le> length (fst z) \<Longrightarrow> (zip_redo ^^ k) ((zip_undo ^^ k) z) = z"
proof (induction k)
  case (Suc k)
  obtain ps c fs where z: "z = (ps, c, fs)" by (cases z)
  have "fst ((zip_undo ^^ k) z) \<noteq> []"
    using Suc.prems by (auto simp: z zip_undo_nth)
  then have "zip_redo (zip_undo ((zip_undo ^^ k) z)) = (zip_undo ^^ k) z"
    by (rule zip_redo_undo)
  with Suc show ?case by (simp add: funpow_swap1)
qed simp

section \<open>One command, one undo step\<close>

fun run_edits :: "'v view_ops \<Rightarrow> undo_source \<Rightarrow> edit_op list \<Rightarrow> 'v buffer \<Rightarrow> 'v buffer option" where
  "run_edits ops source [] b = Some b"
| "run_edits ops source (op # es) b =
     (case apply_edit_skip_intercepts_as ops source op b of
        None \<Rightarrow> None
      | Some (b', r) \<Rightarrow> run_edits ops source es b')"

lemma commit_edit_more [simp]: "typed_floor (commit_edit ed b) = typed_floor b"
  by (simp add: commit_edit_def Let_def adjust_marks_for_edit_def)

text \<open>A forward edit either leaves the stack alone or adds one entry holding the old rope.\<close>

lemma skip_edit_stack:
  assumes "apply_edit_skip_intercepts_as ops source op b = Some (b', r)"
    and "length (undo_stack b) < UNDO_HISTORY_LIMIT"
  shows "typed_floor b' = typed_floor b \<and> read_only b' = read_only b \<and>
     (undo_stack b' = undo_stack b \<and> buf_rope b' = buf_rope b \<or>
      (\<exists>e. undo_stack b' = undo_stack b @ [e] \<and> entry_rope e = buf_rope b))"
  using assms
  by (auto simp: apply_edit_skip_intercepts_as_def run_rope_edit_and_broadcast_def push_undo_def Let_def
      split: option.splits sum.splits if_splits prod.splits)

lemma run_edits_stack:
  assumes "run_edits ops source es b = Some b'" and "buffer_inv b"
    and "length (undo_stack b) + length es \<le> UNDO_HISTORY_LIMIT"
  shows "buffer_inv b' \<and> typed_floor b' = typed_floor b \<and> read_only b' = read_only b \<and>
     (undo_stack b' = undo_stack b \<and> buf_rope b' = buf_rope b \<or>
      (\<exists>e new. undo_stack b' = undo_stack b @ e # new \<and> entry_rope e = buf_rope b))"
  using assms
proof (induction es arbitrary: b)
  case (Cons op es)
  then obtain b1 r where b1: "apply_edit_skip_intercepts_as ops source op b = Some (b1, r)"
    "run_edits ops source es b1 = Some b'"
    by (auto split: option.splits)
  have inv1: "buffer_inv b1"
    by (rule apply_edit_skip_intercepts_as_inv [OF Cons.prems(2) b1(1)])
  have s1: "typed_floor b1 = typed_floor b \<and> read_only b1 = read_only b \<and>
     (undo_stack b1 = undo_stack b \<and> buf_rope b1 = buf_rope b \<or>
      (\<exists>e. undo_stack b1 = undo_stack b @ [e] \<and> entry_rope e = buf_rope b))"
    by (rule skip_edit_stack [OF b1(1)]) (use Cons.prems(3) in simp)
  then have "length (undo_stack b1) + length es \<le> UNDO_HISTORY_LIMIT"
    using Cons.prems(3) by auto
  with Cons.IH [OF b1(2) inv1] s1 show ?case by auto
qed simp

end
