(* ===== verification/Text_Properties.thy ===== *)
theory Text_Properties
  imports Buffer_History
begin

text \<open>
  The properties of the text core (rope, buffer, history, marks) as closed statements over the
  definitions, with the concrete instances that show their hypotheses can hold.
\<close>

abbreviation sample_rope :: rope where
  "sample_rope \<equiv> \<lparr>root = Internal [Leaf [104, 105], Leaf [10, 33]] 4\<rparr>"

lemma sample_rope_inv: "rope_inv sample_rope" and sample_rope_len: "rope_len sample_rope = 4"
  and sample_rope_contents: "contents sample_rope = [104, 105, 10, 33]"
  by (simp_all add: rope_inv_def rope_len_def contents_def MAX_CHILDREN_def MAX_LEAF_BYTES_def)

section \<open>Rope\<close>

text \<open>
  C1. Inserting bytes at a position inside a well-formed rope returns, without panicking, an edit
  whose rope is well-formed (uniform depth, leaf and fan-out bounds, right cached lengths) and
  stands for the old bytes with the new ones spliced in at that position; the edit reports the
  empty range at the position and the number of inserted bytes.
\<close>

theorem rope_insert_refines:
  assumes "rope_inv r" and "pos \<le> rope_len r"
  shows "\<exists>ed. rope_insert r pos bs = Ok ed \<and> rope_inv (new_rope ed) \<and>
           contents (new_rope ed) = take pos (contents r) @ bs @ drop pos (contents r) \<and>
           edit_range ed = range_new pos pos \<and> inserted_len ed = length bs"
  using rope_insert_correct [OF assms, of bs] by (auto simp: splice_list_def)

theorem rope_insert_refines_witness:
  "\<exists>ed. rope_insert sample_rope 3 [7, 8] = Ok ed \<and> rope_inv (new_rope ed) \<and>
        contents (new_rope ed) = [104, 105, 10, 7, 8, 33] \<and>
        edit_range ed = range_new 3 3 \<and> inserted_len ed = 2"
  using rope_insert_refines [OF sample_rope_inv, of 3 "[7, 8]"]
  by (simp add: sample_rope_len sample_rope_contents numeral_2_eq_2)

text \<open>
  C2. Deleting a byte range inside a well-formed rope returns, without panicking, an edit whose
  rope is well-formed and stands for the old bytes without that range.
\<close>

theorem rope_delete_refines:
  assumes "rope_inv r" and "s \<le> e" and "e \<le> rope_len r"
  shows "\<exists>ed. rope_delete r s e = Ok ed \<and> rope_inv (new_rope ed) \<and>
           contents (new_rope ed) = take s (contents r) @ drop e (contents r) \<and>
           edit_range ed = range_new s e \<and> inserted_len ed = 0"
  using rope_delete_correct [OF assms] by (auto simp: splice_list_def)

theorem rope_delete_refines_witness:
  "\<exists>ed. rope_delete sample_rope 1 3 = Ok ed \<and> rope_inv (new_rope ed) \<and>
        contents (new_rope ed) = [104, 33] \<and> edit_range ed = range_new 1 3 \<and> inserted_len ed = 0"
  using rope_delete_refines [OF sample_rope_inv, of 1 3]
  by (simp add: sample_rope_len sample_rope_contents)

text \<open>
  A successful replacement is undone by the replacement its edit describes: replacing the
  inserted bytes by the removed segment gives back the original byte sequence.
\<close>

theorem rope_replace_roundtrip:
  assumes "rope_inv r" and "rope_replace r s e bs = Ok ed"
  shows "\<exists>ed'. rope_replace (new_rope ed) s (s + inserted_len ed) (segment s e (contents r)) = Ok ed' \<and>
           rope_inv (new_rope ed') \<and> contents (new_rope ed') = contents r"
proof -
  have "inserted_len ed = length bs"
    using assms(2) by (auto simp: rope_replace_def try_bind_Ok_iff)
  then show ?thesis
    using rp.repl_inverse [OF assms] by simp
qed

theorem rope_replace_roundtrip_witness:
  "\<exists>ed ed'. rope_replace sample_rope 0 3 [1] = Ok ed \<and>
     rope_replace (new_rope ed) 0 (0 + inserted_len ed) (segment 0 3 (contents sample_rope)) = Ok ed' \<and>
     contents (new_rope ed') = [104, 105, 10, 33]"
proof -
  obtain ed where ed: "rope_replace sample_rope 0 3 [1] = Ok ed"
    using rope_replace_correct [OF sample_rope_inv, of 0 3 "[1]"] by (auto simp: sample_rope_len)
  show ?thesis
    using ed rope_replace_roundtrip [OF sample_rope_inv ed] by (auto simp: sample_rope_contents)
qed

text \<open>
  The edit operations are total on well-formed ropes: they never panic, they fail exactly when
  the position or range is outside the rope, and the error carries the offending position (the
  start of an inverted range, otherwise the end) and the length of the rope.
\<close>

theorem rope_errors_exact:
  assumes "rope_inv r"
  shows "rope_insert r pos bs \<noteq> Panic \<and> rope_delete r s e \<noteq> Panic \<and> rope_replace r s e bs \<noteq> Panic \<and>
    (\<forall>x. rope_insert r pos bs = Err x \<longleftrightarrow>
       length (contents r) < pos \<and> x = OutOfBounds pos (length (contents r))) \<and>
    (\<forall>x. rope_delete r s e = Err x \<longleftrightarrow>
       (e < s \<or> length (contents r) < e) \<and> x = OutOfBounds (if e < s then s else e) (length (contents r))) \<and>
    (\<forall>x. rope_replace r s e bs = Err x \<longleftrightarrow>
       (e < s \<or> length (contents r) < e) \<and> x = OutOfBounds (if e < s then s else e) (length (contents r)))"
proof -
  have len: "rope_len r = length (contents r)" by (rule rope_len_contents [OF assms])
  note no_panic = rp.ins_no_panic [OF assms] rp.del_no_panic [OF assms] rp.repl_no_panic [OF assms]
  have i: "rope_insert r pos bs = Err x \<longleftrightarrow> rope_len r < pos \<and> x = OutOfBounds pos (rope_len r)" for x
    using rp.ins_ok [OF assms, of pos bs] rope_errors(1) [of r pos bs]
    by (cases "pos \<le> rope_len r") auto
  have d: "rope_delete r s e = Err x \<longleftrightarrow>
      (e < s \<or> rope_len r < e) \<and> x = OutOfBounds (if e < s then s else e) (rope_len r)" for x
    using rp.del_ok [OF assms, of s e] rope_errors(2,3) [of e s r] rope_errors(3) [of s e r]
    by (cases "s \<le> e \<and> e \<le> rope_len r") (auto simp: not_le)
  have p: "rope_replace r s e bs = Err x \<longleftrightarrow>
      (e < s \<or> rope_len r < e) \<and> x = OutOfBounds (if e < s then s else e) (rope_len r)" for x
    using rp.repl_ok [OF assms, of s e bs] rope_errors(4) [of e s r bs] rope_errors(5) [of s e r bs]
    by (cases "s \<le> e \<and> e \<le> rope_len r") (auto simp: not_le)
  show ?thesis
    using no_panic i d p unfolding len by blast
qed

theorem rope_errors_exact_witness:
  "rope_insert sample_rope 5 [1] = Err (OutOfBounds 5 4) \<and> rope_delete sample_rope 3 1 = Err (OutOfBounds 3 4)"
proof -
  have "length (contents sample_rope) = 4" by (simp add: sample_rope_contents)
  then show ?thesis
    using rope_errors_exact [OF sample_rope_inv, of 5 "[1]" 3 1] by simp
qed

text \<open>
  The three ways of reading a well-formed rope agree with its byte sequence: a byte lookup,
  filling a caller's buffer of the right length, and the chunk iterator, which yields no empty
  chunk.
\<close>

theorem rope_reads_agree:
  assumes "rope_inv r" and "s \<le> e" and "e \<le> rope_len r" and "length out = e - s"
  shows "rope_byte_at r pos = Some (if pos < length (contents r) then Some (contents r ! pos) else None) \<and>
    rope_slice r s e out = Some (take (e - s) (drop s (contents r))) \<and>
    concat (rope_chunks r s e) = take (e - s) (drop s (contents r)) \<and> [] \<notin> set (rope_chunks r s e)"
  using rope_byte_at_correct [OF assms(1)] rope_slice_correct [OF assms] rope_chunks_correct(1) [OF assms(1), of s e]
    rope_chunks_correct(2) [OF assms(1), of _ s e]
  by (auto simp: segment_def)

theorem rope_reads_agree_witness:
  "rope_byte_at sample_rope 2 = Some (Some 10) \<and> rope_slice sample_rope 1 4 [0, 0, 0] = Some [105, 10, 33] \<and>
   concat (rope_chunks sample_rope 1 4) = [105, 10, 33]"
  using rope_reads_agree [OF sample_rope_inv, of 1 4 "[0, 0, 0]" 2]
  by (simp add: sample_rope_contents sample_rope_len)

text \<open>
  Loading bytes builds a well-formed, balanced rope that stands for exactly those bytes (the
  packing loop terminates for every input).
\<close>

theorem rope_from_bytes_roundtrip:
  "rope_inv (rope_from_bytes bs) \<and> contents (rope_from_bytes bs) = bs \<and> rope_len (rope_from_bytes bs) = length bs"
  using rope_from_bytes_correct [of bs] by (auto simp: rope_len_contents)

section \<open>Buffers\<close>

text \<open>Views that pass every edit through and never fail.\<close>

definition quiet_views :: "'v view_ops" where
  "quiet_views = \<lparr>intercept_edit = (\<lambda>v ctx op. (v, Inr op)), on_edit = (\<lambda>v b ed. (v, None))\<rparr>"

abbreviation hello_buffer :: "unit buffer" where
  "hello_buffer \<equiv> buffer_from_bytes 0 ''hello'' [104, 105]"

lemma hello_buffer_facts:
  "\<not> read_only hello_buffer" "buffer_len hello_buffer = 2" "undo_stack hello_buffer = []"
  "contents (buf_rope hello_buffer) = [104, 105]" "revision hello_buffer = 0" "buf_views hello_buffer = []"
  "\<not> editing_in_progress hello_buffer" "next_view_id hello_buffer = 0"
  using rope_from_bytes_correct [of "[104, 105]"]
  by (simp_all add: buffer_from_bytes_def buffer_from_rope_def buffer_len_def rope_len_contents)

lemma hello_rope: "buf_rope hello_buffer = \<lparr>root = Leaf [104, 105]\<rparr>"
  by (simp add: buffer_from_bytes_def buffer_from_rope_def rope_from_bytes_def chunks_of.simps
      MAX_LEAF_BYTES_def build_balanced_from_nodes_def)

lemmas eval_edit = apply_edit_skip_intercepts_as_def ensure_writable_def run_rope_edit_and_broadcast_def
  rope_apply_def rope_insert_def rope_len_def chunks_of.simps MAX_LEAF_BYTES_def leaf_from_def grow_root_def
  range_is_empty_def range_new_def push_undo_def UNDO_HISTORY_LIMIT_def quiet_views_def Let_def

text \<open>
  C3. Every buffer that the public operations can reach from a loaded file, whatever its views do,
  is well-formed: its rope is, every undo and redo entry describes exactly the edit between its
  rope and the next state, both stacks together hold at most \<open>UNDO_HISTORY_LIMIT\<close> entries, and every
  mark lies within the text under a distinct identifier.
\<close>

theorem buffer_reachable_inv:
  "buf_reach ops b \<Longrightarrow> buffer_inv b"
  by (induction rule: buf_reach.induct) (blast intro: buffer_inv_from_bytes buf_step_inv)+

theorem buffer_reachable_inv_witness:
  "buffer_inv (mark_clean hello_buffer)"
  by (rule buffer_reachable_inv [OF reach_step [OF reach_start step_clean, of quiet_views]])

text \<open>
  C7. A forward edit inside the bounds of a writable, well-formed buffer never panics and its effect is exact, whatever
  the views answer. The text becomes the specified splice. A textual no-op leaves every field but the state of the views
  as it was. Any other edit pushes one entry on the undo stack, with the old rope and the range and length of the edit,
  above the entries that were there (without the oldest when the stack is at its limit), empties the redo stack, moves
  each mark, sets the modified flag and advances the revision by one (modulo \<open>2 ^ 64\<close>), and leaves every other field as
  it was. The answer is the edit, unless a view fails.
\<close>

theorem buffer_edit_meaning:
  assumes "buffer_inv b" and "\<not> read_only b" and "op_in_bounds op (buffer_len b)"
  shows "\<exists>b' r vs. apply_edit_skip_intercepts_as ops source op b = Some (b', r) \<and> buffer_inv b' \<and>
     contents (buf_rope b') = op_splice op (contents (buf_rope b)) \<and>
     b' = (if op_is_noop op then b\<lparr>buf_views := vs\<rparr>
           else b\<lparr>buf_rope := buf_rope b',
                  marks := map (\<lambda>(i, m). (i, adjust_mark (op_range op) (op_inserted op) m)) (marks b),
                  undo_stack := (if UNDO_HISTORY_LIMIT \<le> length (undo_stack b) then tl (undo_stack b) else undo_stack b) @
                    [\<lparr>entry_rope = buf_rope b, entry_edit = \<lparr>pre_range = op_range op, desc_inserted = op_inserted op\<rparr>, entry_typed = False\<rparr>],
                  redo_stack := [], is_modified := True, revision := revision b + 1, buf_views := vs\<rparr>) \<and>
     map fst vs = map fst (buf_views b) \<and>
     (case r of Inr ed \<Rightarrow> edit_range ed = op_range op \<and> inserted_len ed = op_inserted op \<and> contents (new_rope ed) = contents (buf_rope b')
      | Inl e \<Rightarrow> buf_views b \<noteq> [])"
proof -
  let ?b = "b\<lparr>buf_views := []\<rparr>"
  have "op_in_bounds op (buffer_len ?b)" using assms(3) by (simp add: buffer_len_def)
  from run_rope_edit_spec [OF buffer_inv_clear_views [OF assms(1)] this, of ops "buf_views b" source]
  obtain ed vs e where run: "run_rope_edit_and_broadcast ops (buf_views b) op source ?b =
        Some (if op_is_noop op then ?b else commit_edit ed ?b, vs, case e of None \<Rightarrow> Inr ed | Some x \<Rightarrow> Inl x)"
    and spec: "contents (new_rope ed) = op_splice op (contents (buf_rope b))"
      "edit_range ed = op_range op" "inserted_len ed = op_inserted op" "map fst vs = map fst (buf_views b)"
      "e \<noteq> None \<longrightarrow> buf_views b \<noteq> []" by auto
  define b' where "b' = (if op_is_noop op then ?b else commit_edit ed ?b)\<lparr>buf_views := vs\<rparr>"
  define r where "r = (case e of None \<Rightarrow> Inr ed | Some x \<Rightarrow> Inl x)"
  have step: "apply_edit_skip_intercepts_as ops source op b = Some (b', r)"
    using assms(2) run by (simp add: apply_edit_skip_intercepts_as_def ensure_writable_def b'_def r_def)
  have inv: "buffer_inv b'" unfolding b'_def by (rule edit_with_views_inv [OF assms(1) refl run])
  have same: "op_is_noop op \<Longrightarrow> op_splice op xs = xs" for xs by (cases op) (auto simp: splice_list_def)
  have spliced: "contents (buf_rope b') = op_splice op (contents (buf_rope b))" and returned: "contents (new_rope ed) = contents (buf_rope b')"
    using spec(1) same by (simp_all add: b'_def commit_edit_def adjust_marks_for_edit_def Let_def)
  have "buf_views b \<noteq> []" if "r = Inl x" for x
    using that spec(5) by (auto simp: r_def split: option.splits)
  moreover have "b' = (if op_is_noop op then b\<lparr>buf_views := vs\<rparr>
      else b\<lparr>buf_rope := buf_rope b',
             marks := map (\<lambda>(i, m). (i, adjust_mark (op_range op) (op_inserted op) m)) (marks b),
             undo_stack := (if UNDO_HISTORY_LIMIT \<le> length (undo_stack b) then tl (undo_stack b) else undo_stack b) @
               [\<lparr>entry_rope = buf_rope b, entry_edit = \<lparr>pre_range = op_range op, desc_inserted = op_inserted op\<rparr>, entry_typed = False\<rparr>],
             redo_stack := [], is_modified := True, revision := revision b + 1, buf_views := vs\<rparr>)"
    using spec by (simp add: b'_def commit_edit_def adjust_marks_for_edit_def push_undo_def Let_def)
  ultimately show ?thesis
    using step inv spliced returned spec(2-4) by (intro exI [of _ b'] exI [of _ r] exI [of _ vs] conjI) (auto simp: r_def split: option.split)
qed

theorem buffer_edit_meaning_witness:
  "\<exists>b' r. apply_edit_skip_intercepts_as quiet_views Daemon (OpInsert 1 [33]) hello_buffer = Some (b', r) \<and>
     contents (buf_rope b') = [104, 33, 105] \<and> revision b' = 1 \<and> length (undo_stack b') = 1"
proof -
  obtain b' r vs where b': "apply_edit_skip_intercepts_as quiet_views Daemon (OpInsert 1 [33]) hello_buffer = Some (b', r)"
    "contents (buf_rope b') = [104, 33, 105]" and
    eq: "b' = hello_buffer\<lparr>buf_rope := buf_rope b',
            marks := map (\<lambda>(i, m). (i, adjust_mark (range_new 1 1) 1 m)) (marks hello_buffer),
            undo_stack := [\<lparr>entry_rope = buf_rope hello_buffer, entry_edit = \<lparr>pre_range = range_new 1 1, desc_inserted = 1\<rparr>, entry_typed = False\<rparr>],
            redo_stack := [], is_modified := True, revision := revision hello_buffer + 1, buf_views := vs\<rparr>"
    using buffer_edit_meaning [OF buffer_inv_from_bytes hello_buffer_facts(1), of "OpInsert 1 [33]" quiet_views Daemon]
    by (auto simp: hello_buffer_facts splice_list_def UNDO_HISTORY_LIMIT_def)
  have "revision b' = 1" "length (undo_stack b') = 1" by (subst eq, simp add: hello_buffer_facts)+
  with b' show ?thesis by blast
qed

text \<open>
  C4. Undo and redo refine a zipper of ropes: undo moves the present to the last past state and keeps
  it for redo, redo is its mirror image, and nothing else of the history changes (the views'
  failures included).
\<close>

theorem undo_redo_refine_zipper:
  assumes "\<not> read_only b"
  shows "\<exists>b1 r1 b2 r2. undo_for ops source b = Some (b1, r1) \<and> zipper_of b1 = zip_undo (zipper_of b) \<and>
     redo_for ops source b = Some (b2, r2) \<and> zipper_of b2 = zip_redo (zipper_of b)"
  using undo_for_refines [OF assms, of ops source] redo_for_refines [OF assms, of ops source] by blast

theorem undo_redo_refine_zipper_witness:
  "\<exists>b1 r1 b2 r2. undo_for quiet_views Daemon hello_buffer = Some (b1, r1) \<and> zipper_of b1 = zip_undo (zipper_of hello_buffer) \<and>
     redo_for quiet_views Daemon hello_buffer = Some (b2, r2) \<and> zipper_of b2 = zip_redo (zipper_of hello_buffer)"
  by (rule undo_redo_refine_zipper [OF hello_buffer_facts(1)])

text \<open>
  C5. Undoing \<open>k\<close> steps, for any \<open>k\<close> up to the depth of the stack, always succeeds and arrives at the
  rope that was current \<open>k\<close> edits ago; redoing \<open>k\<close> steps from there restores the present rope and
  both stacks' ropes exactly.
\<close>

theorem undo_redo_walk:
  assumes "\<not> read_only b" and "k \<le> length (undo_stack b)"
  shows "\<exists>b1 b2. undo_times ops k b = Some b1 \<and>
     buf_rope b1 = (map entry_rope (undo_stack b) @ [buf_rope b]) ! (length (undo_stack b) - k) \<and>
     redo_times ops k b1 = Some b2 \<and> zipper_of b2 = zipper_of b"
proof -
  obtain b1 where b1: "undo_times ops k b = Some b1" "\<not> read_only b1"
    "zipper_of b1 = (zip_undo ^^ k) (zipper_of b)"
    using undo_times_refines [OF assms(1)] by blast
  obtain b2 where b2: "redo_times ops k b1 = Some b2" "zipper_of b2 = (zip_redo ^^ k) (zipper_of b1)"
    using redo_times_refines [OF b1(2)] by blast
  have "buf_rope b1 = fst (snd ((zip_undo ^^ k) (zipper_of b)))"
    using b1(3) by (simp add: zipper_of_def prod_eq_iff)
  moreover have "k \<le> length (fst (zipper_of b))"
    using assms(2) by (simp add: zipper_of_def)
  then have "zipper_of b2 = zipper_of b"
    using b2(2) b1(3) zip_redo_undo_times [of k "zipper_of b"] by simp
  ultimately show ?thesis
    using b1(1) b2(1) assms(2) by (auto simp: zipper_of_def zip_undo_nth)
qed

abbreviation edited_buffer :: "unit buffer" where
  "edited_buffer \<equiv> commit_edit \<lparr>new_rope = rope_from_bytes [104], edit_range = range_new 1 2,
     inserted_len = 0, edit_crdt_op = None\<rparr> hello_buffer"

theorem undo_redo_walk_witness:
  "\<exists>b1 b2. undo_times quiet_views 1 edited_buffer = Some b1 \<and> buf_rope b1 = buf_rope hello_buffer \<and>
     redo_times quiet_views 1 b1 = Some b2 \<and> zipper_of b2 = zipper_of edited_buffer"
proof -
  define b where "b = edited_buffer"
  have "map entry_rope (undo_stack b) = [buf_rope hello_buffer]" "length (undo_stack b) = 1" "\<not> read_only b"
    by (simp_all add: b_def push_undo_def hello_buffer_facts UNDO_HISTORY_LIMIT_def)
  then show ?thesis
    using undo_redo_walk [of b 1 quiet_views] unfolding b_def [symmetric]
    by (simp del: undo_times.simps redo_times.simps)
qed

text \<open>
  A read-only buffer rejects every content mutation (forward edits with or without intercepts,
  undo, redo, starting a three-phase edit) with \<open>ReadOnly\<close> and is left unchanged.
\<close>

theorem read_only_frozen:
  assumes "read_only b"
  shows "apply_edit_as ops source op b = Some (b, Inl (ReadOnly (buf_id b) (buf_name b))) \<and>
     apply_edit_skip_intercepts_as ops source op b = Some (b, Inl (ReadOnly (buf_id b) (buf_name b))) \<and>
     undo_for ops source b = Some (b, Inl (ReadOnly (buf_id b) (buf_name b))) \<and>
     redo_for ops source b = Some (b, Inl (ReadOnly (buf_id b) (buf_name b))) \<and>
     begin_edit b = (b, Inl (ReadOnly (buf_id b) (buf_name b)))"
  using assms
  by (simp add: apply_edit_as_def apply_edit_skip_intercepts_as_def undo_for_def redo_for_def begin_edit_def
      ensure_writable_def)

theorem read_only_frozen_witness:
  "undo_for quiet_views Daemon (set_read_only True edited_buffer) =
     Some (set_read_only True edited_buffer, Inl (ReadOnly (buf_id edited_buffer) (buf_name edited_buffer)))"
  using read_only_frozen [of "set_read_only True edited_buffer" quiet_views Daemon]
  by (simp add: set_read_only_def)

text \<open>
  C8. Marks follow the text across an edit: a mark before the edited range keeps the text to its
  left, a mark behind the range keeps the text to its right, and a mark in or at the edges of the
  range goes to the start or to the end of the inserted bytes by its gravity.
\<close>

theorem marks_follow_text:
  assumes "rope_inv r" and "rope_apply r op = Ok ed" and "mark_position m \<le> length (contents r)"
  defines "p \<equiv> mark_position m" and "p' \<equiv> mark_position (adjust_mark (edit_range ed) (inserted_len ed) m)"
    and "s \<equiv> range_start (edit_range ed)" and "e \<equiv> range_end (edit_range ed)"
  shows "p' \<le> length (contents (new_rope ed)) \<and>
     (p < s \<longrightarrow> take p' (contents (new_rope ed)) = take p (contents r)) \<and>
     (e < p \<longrightarrow> drop p' (contents (new_rope ed)) = drop p (contents r)) \<and>
     (s \<le> p \<and> p \<le> e \<longrightarrow> p' = (case gravity m of GravityLeft \<Rightarrow> s | GravityRight \<Rightarrow> s + inserted_len ed))"
proof -
  have d: "describes r (new_rope ed) (edit_range ed) (inserted_len ed)"
    using rope_apply_describes [OF assms(1,2)] by simp
  let ?bs = "segment s (s + inserted_len ed) (contents (new_rope ed))"
  have b: "s \<le> e" "e \<le> length (contents r)" "length ?bs = inserted_len ed"
    and eq: "contents (new_rope ed) = splice_list s e ?bs (contents r)"
    using d by (simp_all add: describes_def s_def e_def)
  have "p' \<le> length (contents (new_rope ed))"
    unfolding p'_def by (rule adjust_mark_bound [OF d assms(3)])
  moreover have "take p' (contents (new_rope ed)) = take p (contents r)" if "p < s"
  proof -
    have "p' = p" using that by (simp add: p'_def p_def s_def adjust_mark_def Let_def)
    with that b show ?thesis by (subst eq) (simp add: splice_list_def)
  qed
  moreover have "drop p' (contents (new_rope ed)) = drop p (contents r)" if "e < p"
  proof -
    have "p' = p - (e - s) + inserted_len ed"
      using that b(1) by (simp add: p'_def p_def s_def e_def adjust_mark_def Let_def range_len_def)
    with that b show ?thesis by (subst eq) (simp add: splice_list_def)
  qed
  moreover have "p' = (case gravity m of GravityLeft \<Rightarrow> s | GravityRight \<Rightarrow> s + inserted_len ed)" if "s \<le> p" "p \<le> e"
    using that by (auto simp: p'_def p_def s_def e_def adjust_mark_def Let_def split: mark_gravity.split)
  ultimately show ?thesis by blast
qed

theorem marks_follow_text_witness:
  "\<exists>ed. rope_apply sample_rope (OpInsert 1 [7, 8]) = Ok ed \<and>
     drop (mark_position (adjust_mark (edit_range ed) (inserted_len ed) \<lparr>mark_position = 3, gravity = GravityLeft\<rparr>))
       (contents (new_rope ed)) = [33]"
proof -
  obtain ed where ed: "rope_apply sample_rope (OpInsert 1 [7, 8]) = Ok ed" "edit_range ed = range_new 1 1"
    using rope_insert_correct [OF sample_rope_inv, of 1 "[7, 8]"] by (auto simp: sample_rope_len rope_apply_def)
  show ?thesis
    using ed marks_follow_text [OF sample_rope_inv ed(1), of "\<lparr>mark_position = 3, gravity = GravityLeft\<rparr>"]
    by (auto simp: sample_rope_contents range_new_def)
qed

text \<open>
  C6. Every edit one command makes is one undo step: after \<open>arbiter_typed_begin\<close>, any sequence of edits
  of which at least one was recorded, and that together with the entries there were stays within the history limit,
  and \<open>command_collapse\<close>, the stack is exactly one entry deeper and a single undo restores the rope the
  command started from. At the limit the oldest entries are dropped below \<open>typed_floor\<close>, and the code does not promise this.
\<close>

theorem command_is_one_undo_step:
  assumes "buffer_inv b" and "\<not> read_only b"
    and "length (undo_stack b) + length es \<le> UNDO_HISTORY_LIMIT"
    and "run_edits ops source es (arbiter_typed_begin source run limit b) = Some b1"
    and "length (undo_stack b) < length (undo_stack b1)"
  shows "\<exists>b2 b3 r. command_collapse b1 = Some b2 \<and> contents (buf_rope b2) = contents (buf_rope b1) \<and>
     length (undo_stack b2) = Suc (length (undo_stack b)) \<and>
     undo_for ops source b2 = Some (b3, r) \<and> buf_rope b3 = buf_rope b"
proof -
  let ?b = "arbiter_typed_begin source run limit b"
  have begin_inv: "buffer_inv ?b" and len: "length (undo_stack ?b) + length es \<le> UNDO_HISTORY_LIMIT"
    using assms(1,3) by (simp_all add: arbiter_typed_begin_def buffer_inv_flags)
  obtain e new where b1: "buffer_inv b1" "typed_floor b1 = Some (length (undo_stack b))" "\<not> read_only b1"
    "undo_stack b1 = undo_stack b @ e # new" "entry_rope e = buf_rope b"
    using run_edits_stack [OF assms(4) begin_inv len] assms(2,5) by (auto simp: arbiter_typed_begin_def)
  obtain b2 where b2: "command_collapse b1 = Some b2" "buffer_inv b2" "buf_rope b2 = buf_rope b1"
    and stack: "if length (undo_stack b1) \<le> length (undo_stack b) + 1 then undo_stack b2 = undo_stack b1
       else \<exists>x. undo_stack b2 = take (length (undo_stack b)) (undo_stack b1) @ [x] \<and>
              entry_rope x = entry_rope (undo_stack b1 ! length (undo_stack b))"
    using collapse_typed_command_correct [OF b1(1)] b1(2) by (auto simp: command_collapse_def)
  then obtain x where x: "undo_stack b2 = undo_stack b @ [x]" "entry_rope x = buf_rope b"
    using b1(4,5) by (cases new) auto
  have ro: "read_only b2 = read_only b1"
    using b2(1) by (auto simp: command_collapse_def collapse_typed_command_def Let_def split: option.splits if_splits)
  then obtain b3 r where "undo_for ops source b2 = Some (b3, r)" "zipper_of b3 = zip_undo (zipper_of b2)"
    using undo_for_refines [of b2 ops source] b1(3) by blast
  then have "undo_for ops source b2 = Some (b3, r)" "buf_rope b3 = buf_rope b"
    using x by (simp_all add: zipper_of_def)
  with b2 x show ?thesis by auto
qed

theorem command_is_one_undo_step_witness:
  "\<exists>b1 b2 b3 r. run_edits quiet_views Daemon [OpInsert 0 [40], OpInsert 1 [41]]
       (arbiter_typed_begin Daemon 0 20 hello_buffer) = Some b1 \<and>
     command_collapse b1 = Some b2 \<and> length (undo_stack b2) = 1 \<and>
     undo_for quiet_views Daemon b2 = Some (b3, r) \<and> buf_rope b3 = buf_rope hello_buffer"
proof -
  let ?es = "[OpInsert 0 [40], OpInsert 1 [41]]"
  obtain b1 where b1: "run_edits quiet_views Daemon ?es (arbiter_typed_begin Daemon 0 20 hello_buffer) = Some b1"
    "length (undo_stack b1) = 2"
    by (simp add: arbiter_typed_begin_def hello_rope hello_buffer_facts(1,3,6) eval_edit)
  show ?thesis
    using b1 command_is_one_undo_step [OF buffer_inv_from_bytes hello_buffer_facts(1) _ b1(1)]
    by (auto simp: hello_buffer_facts(3) UNDO_HISTORY_LIMIT_def simp del: run_edits.simps)
qed

text \<open>
  C9. The covering edit of two well-formed ropes is computed without a panic, describes the change
  (splicing the reported bytes of the new rope into the reported range of the old one gives the new
  rope) and is minimal: unless one side is used up, the ropes differ in the first and in the last byte
  of the range.
\<close>

theorem covering_edit_minimal:
  assumes "rope_inv a" and "rope_inv b"
  shows "\<exists>rng n. derive_replacement_edit a b = Some (rng, n) \<and> describes a b rng n \<and>
     (range_start rng < range_end rng \<and> 0 < n \<longrightarrow>
        contents a ! range_start rng \<noteq> contents b ! range_start rng \<and>
        contents a ! (range_end rng - 1) \<noteq> contents b ! (range_start rng + n - 1))"
proof -
  obtain rng n where d: "derive_replacement_edit a b = Some (rng, n)" "describes a b rng n"
    using derive_replacement_edit_correct [OF assms] by blast
  show ?thesis
  proof (cases "rope_len a = 0 \<and> rope_len b = 0")
    case True
    with d show ?thesis by (auto simp: derive_replacement_edit_def range_new_def)
  next
    case False
    let ?la = "length (contents a)" and ?lb = "length (contents b)"
    have la: "rope_len a = ?la" and lb: "rope_len b = ?lb"
      using assms by (simp_all add: rope_len_contents)
    obtain p where p: "prefix_loop a b 0 = Some p" "p \<le> min ?la ?lb"
      "p < min ?la ?lb \<longrightarrow> contents a ! p \<noteq> contents b ! p"
      using prefix_loop_correct [OF assms, of 0] la lb by auto
    obtain s where s: "suffix_loop a b p 0 = Some s" "s \<le> min (?la - p) (?lb - p)"
      "s < min (?la - p) (?lb - p) \<longrightarrow> rev (contents a) ! s \<noteq> rev (contents b) ! s"
      using suffix_loop_correct [OF assms, of 0 p] la lb by auto
    have r: "rng = range_new p (?la - s)" "n = ?lb - p - s"
      using d(1) False p(1) s(1) la lb by (auto simp: derive_replacement_edit_def Let_def)
    have "contents a ! p \<noteq> contents b ! p \<and>
        contents a ! (?la - s - 1) \<noteq> contents b ! (?lb - s - 1)" if "p < ?la - s" "0 < ?lb - p - s"
      using that p(2,3) s(2,3) by (auto simp: rev_nth)
    then show ?thesis
      using d r by (auto simp: range_new_def)
  qed
qed

theorem covering_edit_minimal_witness:
  "\<exists>rng n. derive_replacement_edit sample_rope (rope_from_bytes [104, 9, 33]) = Some (rng, n) \<and>
     describes sample_rope (rope_from_bytes [104, 9, 33]) rng n"
  using covering_edit_minimal [OF sample_rope_inv conjunct1 [OF rope_from_bytes_correct [of "[104, 9, 33]"]]]
  by blast

text \<open>
  The modified flag after an undo says whether the undo stack is empty, not whether the text
  differs from the last save: after an edit, a save (\<open>mark_clean\<close>) and an undo the buffer reports no
  modification although its text is not the saved one.
\<close>

theorem undo_after_save_reports_clean:
  "\<exists>b1 r1 b2 r2. apply_edit_skip_intercepts quiet_views (OpInsert 0 [33]) hello_buffer = Some (b1, r1) \<and>
     undo quiet_views (mark_clean b1) = Some (b2, r2) \<and> \<not> is_modified b2 \<and>
     contents (buf_rope b2) \<noteq> contents (buf_rope (mark_clean b1))"
  by (simp add: apply_edit_skip_intercepts_def hello_rope hello_buffer_facts(1,3,6) eval_edit mark_clean_def
      undo_def undo_for_def undo_v01_eq finish_history_step_def broadcast_on_edit_def contents_def)

text \<open>
  A view that rejects the broadcast makes \<open>apply_edit\<close> return an error after the edit was
  committed: the rope, the revision and the undo stack have changed.
\<close>

theorem failed_broadcast_keeps_edit:
  "\<exists>b1 e b2. attach_view () hello_buffer = (b1, 0) \<and>
     apply_edit (quiet_views\<lparr>on_edit := (\<lambda>v b ed. (v, Some (Intercepted ''no'')))\<rparr>) (OpInsert 0 [33]) b1 = Some (b2, Inl e) \<and>
     contents (buf_rope b2) = [33, 104, 105] \<and> revision b2 = revision b1 + 1 \<and> length (undo_stack b2) = 1"
  by (simp add: apply_edit_def apply_edit_as_def apply_edit_inner_def attach_view_def hello_rope
      hello_buffer_facts(1,3,6,7,8) eval_edit contents_def)

end
