(* ===== verification/Edit_Tracker.thy ===== *)
theory Edit_Tracker
  imports Buffer_History
begin

text \<open>
  The contract of a view that keeps positions into the text of its buffer (folds, style spans): its
  \<^verbatim>\<open>on_edit\<close> re-establishes a relation between its state and the text, and never fails. Proved once
  here: if every attached view keeps the contract, every operation of the buffer leaves all of them
  in step with the text, undo and redo included.
\<close>

locale edit_tracker =
  fixes ops :: "'v view_ops"
    and tinv :: "byte list \<Rightarrow> 'v \<Rightarrow> bool"
  assumes on_edit_tracks: "tinv (contents old) v \<Longrightarrow> describes old new (edit_range ed) (inserted_len ed) \<Longrightarrow>
      tinv (contents new) (fst (on_edit ops v b ed))"
    and on_edit_succeeds: "snd (on_edit ops v b ed) = None"
    and intercept_tracks: "tinv xs v \<Longrightarrow> tinv xs (fst (intercept_edit ops v ctx op))"
begin

fun all_track :: "byte list \<Rightarrow> (nat \<times> 'v) list \<Rightarrow> bool" where
  "all_track xs [] \<longleftrightarrow> True"
| "all_track xs ((i, v) # vs) \<longleftrightarrow> tinv xs v \<and> all_track xs vs"

lemma all_track_iff: "all_track xs vs \<longleftrightarrow> (\<forall>(i, v) \<in> set vs. tinv xs v)"
  by (induction xs vs rule: all_track.induct) auto

definition in_step :: "'v buffer \<Rightarrow> bool" where
  "in_step b \<longleftrightarrow> all_track (contents (buf_rope b)) (buf_views b)"

lemma broadcast_tracks:
  assumes "describes old new (edit_range ed) (inserted_len ed)"
    and "all_track (contents old) vs"
  shows "all_track (contents new) (fst (broadcast ops b ed vs)) \<and> snd (broadcast ops b ed vs) = None"
  using assms(2)
proof (induction vs)
  case (Cons iv vs)
  obtain i v where iv: "iv = (i, v)" by (cases iv)
  have "tinv (contents new) (fst (on_edit ops v b ed))"
    using on_edit_tracks [OF _ assms(1)] Cons.prems by (simp add: iv)
  moreover obtain v' where "on_edit ops v b ed = (v', None)"
    using on_edit_succeeds [of v b ed] by (metis prod.collapse)
  ultimately show ?case
    using Cons by (auto simp: iv split: prod.splits)
qed simp

lemma run_intercepts_tracks:
  "all_track xs vs \<Longrightarrow> all_track xs (fst (run_intercepts ops ctx vs op))"
proof (induction vs arbitrary: op)
  case (Cons iv vs)
  obtain i v where iv: "iv = (i, v)" by (cases iv)
  obtain v' res where r: "intercept_edit ops v ctx op = (v', res)" by fastforce
  have v': "tinv xs v'"
    using intercept_tracks [of xs v ctx op] Cons.prems r by (simp add: iv)
  have rest: "all_track xs vs" using Cons.prems by (simp add: iv)
  show ?case
    using v' rest Cons.IH [OF rest] by (cases res) (auto simp: iv r case_prod_unfold)
qed simp

lemma run_rope_edit_tracks:
  assumes inv: "buffer_inv b" and vs: "all_track (contents (buf_rope b)) vs"
    and run: "run_rope_edit_and_broadcast ops vs op source b = Some (b', vs', r)"
  shows "all_track (contents (buf_rope b')) vs'"
proof -
  consider e where "rope_apply (buf_rope b) op = Err e" | ed where "rope_apply (buf_rope b) op = Ok ed"
    using rope_apply_no_panic [of "buf_rope b" op] inv
    by (metis buffer_inv_def not_None_eq sum.exhaust)
  then show ?thesis
  proof cases
    case 1
    with run vs show ?thesis by (auto simp: run_rope_edit_and_broadcast_def)
  next
    case (2 ed)
    have d: "describes (buf_rope b) (new_rope ed) (edit_range ed) (inserted_len ed)"
      using rope_apply_describes [of "buf_rope b" op ed] inv 2 by (auto simp: buffer_inv_def)
    define b1 where "b1 = (if range_is_empty (edit_range ed) \<and> inserted_len ed = 0 then b else commit_edit ed b)"
    have b1: "contents (buf_rope b1) = contents (new_rope ed)"
    proof (cases "range_is_empty (edit_range ed) \<and> inserted_len ed = 0")
      case True
      have "contents (new_rope ed) = splice_list (range_start (edit_range ed)) (range_end (edit_range ed))
          (segment (range_start (edit_range ed)) (range_start (edit_range ed) + inserted_len ed) (contents (new_rope ed)))
          (contents (buf_rope b))"
        using d by (simp only: describes_def)
      then have "contents (new_rope ed) = contents (buf_rope b)"
        using True by (simp add: range_is_empty_def splice_list_noop)
      then show ?thesis using True by (simp add: b1_def)
    qed (auto simp: b1_def)
    have "b' = b1" "vs' = fst (broadcast ops b1 ed vs)"
      using run 2 by (auto simp: run_rope_edit_and_broadcast_def b1_def Let_def split: prod.splits option.splits)
    then show ?thesis
      using broadcast_tracks [OF d vs, of b1] b1 by simp
  qed
qed

lemma edit_skip_tracks:
  assumes "buffer_inv b" and "in_step b" and "apply_edit_skip_intercepts_as ops source op b = Some (b', r)"
  shows "in_step b'"
  using assms run_rope_edit_tracks [OF buffer_inv_clear_views [OF assms(1)], of "buf_views b" op source]
  by (auto simp: apply_edit_skip_intercepts_as_def in_step_def split: option.splits)

lemma edit_tracks:
  assumes "buffer_inv b" and "in_step b" and "apply_edit_as ops source op b = Some (b', r)"
  shows "in_step b'"
proof -
  let ?b = "b\<lparr>buf_views := []\<rparr>"
  obtain vs res where ri: "run_intercepts ops (context_snapshot ?b) (buf_views b) op = (vs, res)"
    by fastforce
  have vs: "all_track (contents (buf_rope b)) vs"
    using run_intercepts_tracks [of "contents (buf_rope b)" "buf_views b" "context_snapshot ?b" op] ri assms(2)
    by (simp add: in_step_def)
  then have edits: "all_track (contents (buf_rope b2)) vs'"
    if "run_rope_edit_and_broadcast ops vs op' source ?b = Some (b2, vs', r')" for op' b2 vs' r'
    using run_rope_edit_tracks [OF buffer_inv_clear_views [OF assms(1)] _ that] by simp
  show ?thesis
    using assms(2,3) ri vs edits
    by (auto simp: apply_edit_as_def apply_edit_inner_def in_step_def split: option.splits if_splits sum.splits)
qed

lemma generated_tracks:
  assumes "buffer_inv b" and "in_step b" and "set_generated_contents ops bs b = Some (b', r)"
  shows "in_step b'"
proof -
  let ?w = "b\<lparr>read_only := False\<rparr>"
  obtain b2 r2 where e: "apply_edit_skip_intercepts_as ops Daemon (OpReplace (range_new 0 (buffer_len b)) bs) ?w = Some (b2, r2)"
    "buf_views b' = buf_views b2" "buf_rope b' = buf_rope b2"
    using assms(3) by (auto simp: set_generated_contents_def apply_edit_skip_intercepts_def clear_history_def)
  have "in_step ?w" using assms(2) by (simp add: in_step_def)
  then have "in_step b2"
    using edit_skip_tracks [OF _ _ e(1)] assms(1) by (simp add: buffer_inv_flags)
  then show ?thesis by (simp add: in_step_def e)
qed

lemma finish_tracks:
  assumes "describes old (buf_rope b) (edit_range ed) (inserted_len ed)"
    and "all_track (contents old) (buf_views b)"
    and "finish_history_step ops ed b = Some (b', r)"
  shows "in_step b'"
  using assms(3) broadcast_tracks [OF assms(1,2), of "b\<lparr>buf_views := []\<rparr>"]
  by (auto simp: finish_history_step_def broadcast_on_edit_def in_step_def split: prod.splits option.splits)

lemma undo_tracks:
  assumes "buffer_inv b" and "in_step b" and "undo_for ops source b = Some (b', r)"
  shows "in_step b'"
proof -
  have "describes (buf_rope b) (entry_rope e) (edit_range (inverse_edit e)) (inserted_len (inverse_edit e))"
    if "e = last (undo_stack b)" "undo_stack b \<noteq> []" for e
    using inverse_entry_describes [OF chain_last(2)] that assms(1)
    by (simp add: inverse_edit_def buffer_inv_def history_ok_def)
  then show ?thesis
    using assms(2,3) finish_tracks [of "buf_rope b" "undone b" "inverse_edit (last (undo_stack b))" b' r]
    by (auto simp: undo_for_def undo_v01_eq in_step_def split: option.splits if_splits)
qed

lemma redo_tracks:
  assumes "buffer_inv b" and "in_step b" and "redo_for ops source b = Some (b', r)"
  shows "in_step b'"
proof -
  have "describes (buf_rope b) (entry_rope e) (edit_range (inverse_edit e)) (inserted_len (inverse_edit e))"
    if "e = last (redo_stack b)" "redo_stack b \<noteq> []" for e
    using inverse_entry_describes [OF chain_last(2)] that assms(1)
    by (simp add: inverse_edit_def buffer_inv_def history_ok_def)
  then show ?thesis
    using assms(2,3) finish_tracks [of "buf_rope b" "redone b" "inverse_edit (last (redo_stack b))" b' r]
    by (auto simp: redo_for_def redo_v01_eq in_step_def split: option.splits if_splits)
qed

lemma attach_tracks:
  "in_step b \<Longrightarrow> tinv (contents (buf_rope b)) v \<Longrightarrow> attach_view v b = (b', i) \<Longrightarrow> in_step b'"
  by (auto simp: attach_view_def in_step_def all_track_iff)

lemma detach_tracks: "in_step b \<Longrightarrow> detach_view i b = (b', r) \<Longrightarrow> in_step b'"
  using remove_first_subset
  by (fastforce simp: detach_view_def in_step_def all_track_iff split: option.splits)

text \<open>A command may also change the state of one view behind the buffer's back.\<close>

lemma update_tracks:
  assumes "in_step b" and "update_first i f (buf_views b) = Some vs"
    and "\<And>v. tinv (contents (buf_rope b)) v \<Longrightarrow> tinv (contents (buf_rope b)) (f v)"
  shows "in_step (b\<lparr>buf_views := vs\<rparr>)"
proof -
  have "\<forall>(j, w) \<in> set vs. tinv xs w"
    if "update_first i f us = Some vs" "\<forall>(j, w) \<in> set us. tinv xs w" "\<And>v. tinv xs v \<Longrightarrow> tinv xs (f v)" for us vs xs
    using that by (induction i f us arbitrary: vs rule: update_first.induct) (auto split: if_splits option.splits)
  then show ?thesis
    using assms by (simp add: in_step_def all_track_iff)
qed

end

end
