(* ===== verification/Fold.thy ===== *)
theory Fold
  imports Buffer "HOL-Library.Product_Lexorder"
begin

text \<open>
  Code folding, \<^verbatim>\<open>src/src/fold.rs\<close>: the store of collapsed byte ranges of a buffer, its translation
  across edits, and the commands over it. The line arithmetic is that of
  \<^verbatim>\<open>src/pmacs-syntax/src/fold.rs\<close>. The tree-sitter walk that finds foldable regions is not modelled;
  the commands take the candidates it found, as \<^verbatim>\<open>close_among\<close>, \<^verbatim>\<open>cycle_among\<close> and \<^verbatim>\<open>toggle_among\<close> do.
\<close>

section \<open>Ranges\<close>

datatype byte_range = ByteRange (br_start: position) (br_end: position)

text \<open>The order of \<^verbatim>\<open>normalize\<close>: by start, then by end.\<close>

instantiation byte_range :: linorder
begin

definition less_eq_byte_range :: "byte_range \<Rightarrow> byte_range \<Rightarrow> bool" where
  "less_eq_byte_range a b \<longleftrightarrow> (br_start a, br_end a) \<le> (br_start b, br_end b)"

definition less_byte_range :: "byte_range \<Rightarrow> byte_range \<Rightarrow> bool" where
  "less_byte_range a b \<longleftrightarrow> (br_start a, br_end a) < (br_start b, br_end b)"

instance
  by standard (auto simp: less_eq_byte_range_def less_byte_range_def byte_range.expand)

end

section \<open>The store\<close>

record fold_store =
  folds :: "byte_range list"

definition fold_new :: fold_store where
  "fold_new = \<lparr>folds = []\<rparr>"

definition fold_is_empty :: "fold_store \<Rightarrow> bool" where
  "fold_is_empty s \<longleftrightarrow> folds s = []"

definition contains_exact :: "byte_range \<Rightarrow> fold_store \<Rightarrow> bool" where
  "contains_exact r s \<longleftrightarrow> r \<in> set (folds s)"

definition normalize :: "fold_store \<Rightarrow> fold_store" where
  "normalize s = s\<lparr>folds := remdups_adj (sort (folds s))\<rparr>"

definition fold_insert :: "byte_range \<Rightarrow> fold_store \<Rightarrow> fold_store \<times> bool" where
  "fold_insert r s =
     (if br_end r \<le> br_start r \<or> contains_exact r s then (s, False)
      else (normalize (s\<lparr>folds := folds s @ [r]\<rparr>), True))"

definition fold_remove :: "byte_range \<Rightarrow> fold_store \<Rightarrow> fold_store \<times> bool" where
  "fold_remove r s =
     (let kept = filter (\<lambda>f. f \<noteq> r) (folds s)
      in (s\<lparr>folds := kept\<rparr>, length kept \<noteq> length (folds s)))"

definition fold_clear :: "fold_store \<Rightarrow> fold_store \<times> bool" where
  "fold_clear s = (s\<lparr>folds := []\<rparr>, folds s \<noteq> [])"

text \<open>Containment is start-exclusive and end-inclusive.\<close>

definition covers :: "position \<Rightarrow> byte_range \<Rightarrow> bool" where
  "covers p f \<longleftrightarrow> br_start f < p \<and> p \<le> br_end f"

definition containing :: "position \<Rightarrow> fold_store \<Rightarrow> byte_range list" where
  "containing p s = sort_key (\<lambda>f. (- int (br_start f), int (br_end f))) (filter (covers p) (folds s))"

definition unfold_containing :: "position \<Rightarrow> fold_store \<Rightarrow> fold_store \<times> nat" where
  "unfold_containing p s =
     (let kept = filter (\<lambda>f. \<not> covers p f) (folds s)
      in (s\<lparr>folds := kept\<rparr>, length (folds s) - length kept))"

text \<open>The closure \<^verbatim>\<open>shift\<close> of \<^verbatim>\<open>translate\<close>; the truncated subtraction is \<^verbatim>\<open>saturating_sub\<close>.\<close>

definition shift_pos :: "nat \<Rightarrow> nat \<Rightarrow> position \<Rightarrow> position" where
  "shift_pos old_len new_len x =
     (if old_len \<le> new_len then x + (new_len - old_len) else x - (old_len - new_len))"

definition translate_fold :: "edit \<Rightarrow> byte_range \<Rightarrow> byte_range option" where
  "translate_fold ed f =
     (let os = range_start (edit_range ed); oe = range_end (edit_range ed);
          old_len = oe - os; new_len = inserted_len ed;
          s = br_start f; e = br_end f
      in if oe \<le> s then
           Some (ByteRange (shift_pos old_len new_len s) (shift_pos old_len new_len e))
         else if e < os \<or> (os = e \<and> old_len = 0) then Some (ByteRange s e)
         else if s < os \<and> oe < e then
           (let e2 = shift_pos old_len new_len e in if s < e2 then Some (ByteRange s e2) else None)
         else None)"

definition translate :: "edit \<Rightarrow> fold_store \<Rightarrow> fold_store" where
  "translate ed s =
     (if range_end (edit_range ed) - range_start (edit_range ed) = 0 \<and> inserted_len ed = 0 then s
      else normalize (s\<lparr>folds := List.map_filter (translate_fold ed) (folds s)\<rparr>))"

section \<open>State-aware commands\<close>

fun close_among :: "byte_range list \<Rightarrow> fold_store \<Rightarrow> fold_store \<times> byte_range option" where
  "close_among [] s = (s, None)"
| "close_among (c # cs) s =
     (if \<not> contains_exact c s then (fst (fold_insert c s), Some c) else close_among cs s)"

definition open_at :: "position \<Rightarrow> fold_store \<Rightarrow> fold_store \<times> byte_range option" where
  "open_at p s =
     (case sort_key (\<lambda>f. (int (br_start f), - int (br_end f))) (containing p s) of
        [] \<Rightarrow> (s, None)
      | outer # _ \<Rightarrow> (fst (fold_remove outer s), Some outer))"

datatype cycle_outcome = Closed byte_range | OpenedAll nat | CycleNothing

definition cycle_among :: "byte_range list \<Rightarrow> position \<Rightarrow> fold_store \<Rightarrow> fold_store \<times> cycle_outcome" where
  "cycle_among candidates p s =
     (case (if \<exists>c \<in> set candidates. \<not> contains_exact c s
            then find (\<lambda>c. \<not> contains_exact c s) candidates else None) of
        Some c \<Rightarrow> (fst (fold_insert c s), Closed c)
      | None \<Rightarrow>
          (case unfold_containing p s of
             (s', n) \<Rightarrow> (s', if 0 < n then OpenedAll n else CycleNothing)))"

datatype toggle_outcome = Folded byte_range | Unfolded nat | ToggleNothing

definition toggle_among :: "byte_range list \<Rightarrow> position \<Rightarrow> fold_store \<Rightarrow> fold_store \<times> toggle_outcome" where
  "toggle_among candidates p s =
     (if containing p s \<noteq> [] then (case unfold_containing p s of (s', n) \<Rightarrow> (s', Unfolded n))
      else (case candidates of
              [] \<Rightarrow> (s, ToggleNothing)
            | t # _ \<Rightarrow> (fst (fold_insert t s), Folded t)))"

section \<open>Lines\<close>

definition as_u32 :: "nat \<Rightarrow> nat" where
  "as_u32 n = n mod 2 ^ 32"

text \<open>The loop over \<^verbatim>\<open>source.iter().enumerate()\<close>, from index \<open>i\<close>.\<close>

fun newline_offsets :: "nat \<Rightarrow> byte list \<Rightarrow> nat list" where
  "newline_offsets i [] = []"
| "newline_offsets i (b # bs) =
     (if b = 10 then as_u32 (as_u32 i + 1) # newline_offsets (Suc i) bs else newline_offsets (Suc i) bs)"

definition line_offsets :: "byte list \<Rightarrow> nat list" where
  "line_offsets source = 0 # newline_offsets 0 source"

text \<open>\<^verbatim>\<open>slice::binary_search\<close> on a strictly increasing slice: \<open>Inr\<close> the index, \<open>Inl\<close> the insertion point.\<close>

definition binary_search :: "nat list \<Rightarrow> nat \<Rightarrow> nat + nat" where
  "binary_search xs x =
     (let i = length (takeWhile (\<lambda>y. y < x) xs) in if i < length xs \<and> xs ! i = x then Inr i else Inl i)"

definition line_at_offset :: "nat list \<Rightarrow> nat \<Rightarrow> nat" where
  "line_at_offset offsets offset = (case binary_search offsets offset of Inr i \<Rightarrow> i | Inl i \<Rightarrow> i - 1)"

definition line_content_end :: "byte list \<Rightarrow> nat list \<Rightarrow> nat \<Rightarrow> nat" where
  "line_content_end source offsets row =
     (let get = (\<lambda>i. if i < length offsets then offsets ! i else as_u32 (length source));
          start = get row; stop = min (get (row + 1)) (length source)
      in if start < stop \<and> source ! (stop - 1) = 10 then stop - 1 else stop)"

definition normalize_arbitrary_range :: "byte list \<Rightarrow> byte_range \<Rightarrow> byte_range option" where
  "normalize_arbitrary_range source r =
     (if length source < br_start r \<or> length source < br_end r then None
      else (let offsets = line_offsets source;
                head_row = line_at_offset offsets (as_u32 (br_start r));
                end_row_raw = line_at_offset offsets (as_u32 (br_end r));
                end_at_line_start = (end_row_raw < length offsets \<and> offsets ! end_row_raw = as_u32 (br_end r));
                last_hidden_row = (if end_at_line_start \<and> 0 < end_row_raw then end_row_raw - 1 else end_row_raw)
            in if last_hidden_row < head_row + 1 then None
               else (let s = line_content_end source offsets head_row;
                         e = line_content_end source offsets last_hidden_row
                     in if e \<le> s then None else Some (ByteRange s e))))"

section \<open>Specification\<close>

text \<open>A store is well-formed in a buffer of \<open>n\<close> bytes when it is strictly sorted and every fold hides
  at least one byte inside the buffer.\<close>

definition fold_ok :: "nat \<Rightarrow> fold_store \<Rightarrow> bool" where
  "fold_ok n s \<longleftrightarrow> sorted (folds s) \<and> distinct (folds s) \<and> (\<forall>f \<in> set (folds s). br_start f < br_end f \<and> br_end f \<le> n)"

section \<open>The store as a set\<close>

lemma set_normalize [simp]: "set (folds (normalize s)) = set (folds s)"
  by (simp add: normalize_def)

lemma distinct_remdups_adj_sorted: "sorted xs \<Longrightarrow> distinct (remdups_adj xs)"
  by (induction xs rule: remdups_adj.induct) (auto simp: less_le)

lemma normalize_sorted [simp]:
  "sorted (folds (normalize s))" "distinct (folds (normalize s))"
  by (simp_all add: normalize_def distinct_remdups_adj_sorted)

lemma fold_insert_set:
  "br_start r < br_end r \<Longrightarrow> set (folds (fst (fold_insert r s))) = insert r (set (folds s))"
  by (auto simp: fold_insert_def contains_exact_def)

lemma set_containing [simp]: "set (containing p s) = {f \<in> set (folds s). covers p f}"
  by (simp add: containing_def)

lemma unfold_containing_set:
  "set (folds (fst (unfold_containing p s))) = {f \<in> set (folds s). \<not> covers p f}"
  by (simp add: unfold_containing_def Let_def)

lemma unfold_containing_count:
  "snd (unfold_containing p s) = length (filter (covers p) (folds s))"
  using sum_length_filter_compl [of "covers p" "folds s"] by (simp add: unfold_containing_def Let_def)

lemma fold_ok_insert:
  "fold_ok n s \<Longrightarrow> br_end r \<le> n \<Longrightarrow> fold_ok n (fst (fold_insert r s))"
  by (auto simp: fold_insert_def fold_ok_def)

lemma fold_ok_filter: "fold_ok n s \<Longrightarrow> fold_ok n (s\<lparr>folds := filter P (folds s)\<rparr>)"
  by (auto simp: fold_ok_def sorted_wrt_filter)

lemma fold_ok_new [simp]: "fold_ok n fold_new"
  by (simp add: fold_ok_def fold_new_def)

lemma fold_ok_removals:
  assumes "fold_ok n s"
  shows "fold_ok n (fst (fold_remove r s))" "fold_ok n (fst (fold_clear s))"
    "fold_ok n (fst (unfold_containing p s))" "fold_ok n (fst (open_at p s))"
  using assms fold_ok_filter [OF assms]
  by (auto simp: fold_remove_def fold_clear_def unfold_containing_def open_at_def Let_def fold_ok_def
      split: list.splits)

lemma fold_ok_close_among:
  "fold_ok n s \<Longrightarrow> \<forall>c \<in> set cs. br_end c \<le> n \<Longrightarrow> fold_ok n (fst (close_among cs s))"
  by (induction cs) (auto intro: fold_ok_insert)

lemma close_among_find:
  "close_among cs s =
     (case find (\<lambda>c. \<not> contains_exact c s) cs of
        None \<Rightarrow> (s, None) | Some c \<Rightarrow> (fst (fold_insert c s), Some c))"
  by (induction cs) auto

lemma fold_ok_cycle_among:
  assumes "fold_ok n s" and "\<forall>c \<in> set cs. br_end c \<le> n"
  shows "fold_ok n (fst (cycle_among cs p s))" "fold_ok n (fst (toggle_among cs p s))"
proof -
  have "fold_ok n (fst (fold_insert c s))" if "find (\<lambda>c. \<not> contains_exact c s) cs = Some c" for c
    using that assms by (auto simp: find_Some_iff intro: fold_ok_insert)
  then show "fold_ok n (fst (cycle_among cs p s))"
    using fold_ok_removals(3) [OF assms(1), of p] by (auto simp: cycle_among_def split: option.splits prod.splits)
  show "fold_ok n (fst (toggle_among cs p s))"
    using fold_ok_removals(3) [OF assms(1), of p] assms
    by (auto simp: toggle_among_def split: list.splits prod.splits intro: fold_ok_insert)
qed

section \<open>Translation across edits\<close>

lemma translate_fold_cases:
  assumes "os \<le> oe" and "s < e"
  shows "translate_fold \<lparr>new_rope = r, edit_range = range_new os oe, inserted_len = k, edit_crdt_op = c\<rparr> (ByteRange s e) =
    (if oe \<le> s then Some (ByteRange (s - (oe - os) + k) (e - (oe - os) + k))
     else if e < os \<or> os = e \<and> oe = os then Some (ByteRange s e)
     else if s < os \<and> oe < e then Some (ByteRange s (e - (oe - os) + k))
     else None)"
  using assms by (auto simp: translate_fold_def Let_def range_new_def shift_pos_def)

lemma fold_ok_translate:
  assumes "fold_ok n s" and "range_start (edit_range ed) \<le> range_end (edit_range ed)"
    and "range_end (edit_range ed) \<le> n"
  shows "fold_ok (n - range_len (edit_range ed) + inserted_len ed) (translate ed s)"
proof -
  obtain r rng k c where ed: "ed = \<lparr>new_rope = r, edit_range = rng, inserted_len = k, edit_crdt_op = c\<rparr>"
    by (metis edit.cases)
  obtain os oe where rng: "rng = range_new os oe"
    by (cases rng) (simp add: range_new_def)
  have bounds: "os \<le> oe" "oe \<le> n"
    using assms by (simp_all add: ed rng range_new_def)
  have "br_start g < br_end g \<and> br_end g \<le> n - (oe - os) + k"
    if "f \<in> set (folds s)" "translate_fold ed f = Some g" for f g
  proof -
    obtain a b where f: "f = ByteRange a b" by (cases f)
    then have "a < b" "b \<le> n" using that(1) assms(1) by (auto simp: fold_ok_def)
    then show ?thesis
      using that(2) bounds translate_fold_cases [OF bounds(1) \<open>a < b\<close>, of r k c]
      by (auto simp: ed rng f split: if_splits)
  qed
  then show ?thesis
    using assms(1) by (auto simp: translate_def fold_ok_def set_map_filter_iff ed rng range_len_def range_new_def)
qed

text \<open>What the surviving folds hide: the same bytes when the edit is outside, the edited bytes when it is
  strictly inside.\<close>

lemma segment_splice_before:
  "os \<le> oe \<Longrightarrow> oe \<le> s \<Longrightarrow> s \<le> e \<Longrightarrow> e \<le> length xs \<Longrightarrow>
   segment (s - (oe - os) + length ys) (e - (oe - os) + length ys) (splice_list os oe ys xs) = segment s e xs"
  by (simp add: segment_def splice_list_def)

lemma segment_splice_after:
  "s \<le> e \<Longrightarrow> e \<le> os \<Longrightarrow> os \<le> oe \<Longrightarrow> oe \<le> length xs \<Longrightarrow> segment s e (splice_list os oe ys xs) = segment s e xs"
  by (simp add: segment_def splice_list_def drop_take min_def)

lemma segment_splice_inside:
  assumes "s \<le> os" "os \<le> oe" "oe \<le> e" "e \<le> length xs"
  shows "segment s (e - (oe - os) + length ys) (splice_list os oe ys xs) =
    splice_list (os - s) (oe - s) ys (segment s e xs)"
proof -
  have len: "e - (oe - os) + length ys - s = (os - s) + (length ys + (e - oe))"
    using assms by simp
  have "drop s (splice_list os oe ys xs) = take (os - s) (drop s xs) @ ys @ drop oe xs"
    using assms by (simp add: splice_list_def drop_take)
  moreover have "length (take (os - s) (drop s xs)) = os - s"
    using assms by simp
  moreover have "drop (oe - s) (take (e - s) (drop s xs)) = take (e - oe) (drop oe xs)"
    using assms by (simp add: drop_take)
  moreover have "take (os - s) (take (e - s) (drop s xs)) = take (os - s) (drop s xs)"
    using assms by (simp add: min_def)
  ultimately show ?thesis
    unfolding segment_def len splice_list_def [of "os - s"] by simp
qed

lemma translate_set:
  assumes "\<not> (range_end (edit_range ed) - range_start (edit_range ed) = 0 \<and> inserted_len ed = 0)"
  shows "set (folds (translate ed s)) = {g. \<exists>f \<in> set (folds s). translate_fold ed f = Some g}"
  using assms by (auto simp: translate_def set_map_filter_iff)

end
