(* ===== verification/Fold_View.thy ===== *)
theory Fold_View
  imports Edit_Tracker Fold
begin

text \<open>
  The rest of \<^verbatim>\<open>src/src/fold.rs\<close>: the translator view and the registry that attaches it, the proof
  that the stores stay in step with their buffers, and the line arithmetic of data-API folds. The
  store that the registry and the view share through an \<^verbatim>\<open>Arc\<close> is the state of the view; a registry
  entry names the view.
\<close>

section \<open>Lines\<close>

text \<open>The reference: the end of the line that holds position \<open>p\<close>.\<close>

definition eol :: "byte list \<Rightarrow> nat \<Rightarrow> nat" where
  "eol xs p = p + length (takeWhile (\<lambda>b. b \<noteq> 10) (drop p xs))"

lemma eol_ge: "p \<le> eol xs p"
  by (simp add: eol_def)

lemma eol_le: "p \<le> length xs \<Longrightarrow> eol xs p \<le> length xs"
  using length_takeWhile_le [of "\<lambda>b. b \<noteq> 10" "drop p xs"] by (simp add: eol_def)

lemma eol_none_between: "p \<le> j \<Longrightarrow> j < eol xs p \<Longrightarrow> xs ! j \<noteq> 10"
proof -
  assume a: "p \<le> j" "j < eol xs p"
  then have "j - p < length (takeWhile (\<lambda>b. b \<noteq> 10) (drop p xs))" by (simp add: eol_def)
  then have "takeWhile (\<lambda>b. b \<noteq> 10) (drop p xs) ! (j - p) \<noteq> 10" "takeWhile (\<lambda>b. b \<noteq> 10) (drop p xs) ! (j - p) = drop p xs ! (j - p)"
    "j - p < length (drop p xs)"
    by (metis (mono_tags, lifting) nth_mem set_takeWhileD, metis takeWhile_nth, metis length_takeWhile_le less_le_trans)
  with a show ?thesis by simp
qed

lemma eol_newline: "p \<le> length xs \<Longrightarrow> eol xs p < length xs \<Longrightarrow> xs ! eol xs p = 10"
  using nth_length_takeWhile [of "\<lambda>b. b \<noteq> 10" "drop p xs"] by (simp add: eol_def add.commute less_diff_conv)

lemma eol_unique:
  assumes "p \<le> q" and "q \<le> length xs" and "\<And>j. p \<le> j \<Longrightarrow> j < q \<Longrightarrow> xs ! j \<noteq> 10" and "q < length xs \<Longrightarrow> xs ! q = 10"
  shows "eol xs p = q"
proof -
  have p: "p \<le> length xs" using assms by simp
  show ?thesis
    using assms(2) assms(3) [of "eol xs p"] assms(4) eol_none_between [of p q xs] eol_newline [OF p] eol_ge [of p xs] eol_le [OF p] assms(1)
    by (metis le_eq_less_or_eq linorder_neqE_nat order.strict_trans1)
qed

lemma eol_mono: "p \<le> q \<Longrightarrow> q \<le> length xs \<Longrightarrow> eol xs p \<le> eol xs q"
  using eol_none_between [of p "eol xs q" xs] eol_newline [of q xs] eol_ge [of q xs] eol_le [of p xs]
  by (metis le_trans linorder_not_le)

text \<open>The indices of the newlines, in order.\<close>

definition newlines :: "byte list \<Rightarrow> nat list" where
  "newlines xs = filter (\<lambda>j. xs ! j = 10) [0..<length xs]"

definition row_of :: "byte list \<Rightarrow> nat \<Rightarrow> nat" where
  "row_of xs p = length (filter (\<lambda>j. j < p) (newlines xs))"

lemma newline_offsets_eq:
  "i + length bs < 2 ^ 32 \<Longrightarrow>
   newline_offsets i bs = map Suc (filter (\<lambda>j. bs ! (j - i) = 10) [i..<i + length bs])"
proof (induction i bs rule: newline_offsets.induct)
  case (2 i b bs)
  define R where "R = [Suc i..<Suc i + length bs]"
  have u: "[i..<i + length (b # bs)] = i # R"
    unfolding R_def by (subst upt_conv_Cons) simp_all
  have f: "filter (\<lambda>j. (b # bs) ! (j - i) = 10) R = filter (\<lambda>j. bs ! (j - Suc i) = 10) R"
    by (rule filter_cong) (auto simp: nth_Cons' R_def)
  have "newline_offsets (Suc i) bs = map Suc (filter (\<lambda>j. bs ! (j - Suc i) = 10) R)"
    using 2 by (cases "b = 10") (simp_all add: R_def del: upt_Suc)
  then show ?case
    unfolding u using 2(3) f by (cases "b = 10") (simp_all add: as_u32_def)
qed simp

lemma line_offsets_eq: "length xs < 2 ^ 32 \<Longrightarrow> line_offsets xs = 0 # map Suc (newlines xs)"
  using newline_offsets_eq [of 0 xs] by (simp add: line_offsets_def newlines_def)

lemma sorted_newlines: "sorted (newlines xs)" "distinct (newlines xs)"
  by (simp_all add: newlines_def sorted_wrt_filter)

lemma in_newlines: "j \<in> set (newlines xs) \<longleftrightarrow> j < length xs \<and> xs ! j = 10"
  by (auto simp: newlines_def)

lemma newlines_mono: "i \<le> j \<Longrightarrow> j < length (newlines xs) \<Longrightarrow> newlines xs ! i \<le> newlines xs ! j"
  using sorted_newlines(1) by (rule sorted_nth_mono)

lemma takeWhile_less_sorted: "sorted (xs :: nat list) \<Longrightarrow> takeWhile (\<lambda>y. y < p) xs = filter (\<lambda>y. y < p) xs"
  by (induction xs) (auto simp: filter_empty_conv dest: sym intro!: filter_False [symmetric])

lemma sorted_nth_split:
  assumes "sorted (xs :: nat list)" and "k = length (filter (\<lambda>j. j < p) xs)"
  shows "k < length xs \<Longrightarrow> p \<le> xs ! k" and "i < k \<Longrightarrow> xs ! i < p" and "k \<le> length xs"
proof -
  have tw: "k = length (takeWhile (\<lambda>j. j < p) xs)"
    using assms takeWhile_less_sorted by metis
  show "k < length xs \<Longrightarrow> p \<le> xs ! k"
    using nth_length_takeWhile [of "\<lambda>j. j < p" xs] tw by simp
  show "i < k \<Longrightarrow> xs ! i < p"
    using tw by (metis nth_mem set_takeWhileD takeWhile_nth)
  show "k \<le> length xs" using tw length_takeWhile_le by metis
qed

lemma line_at_offset_row:
  assumes "length xs < 2 ^ 32" and "p \<le> length xs"
  shows "line_at_offset (line_offsets xs) p = row_of xs p"
proof (cases "p = 0")
  case True
  with assms show ?thesis by (simp add: line_at_offset_def binary_search_def line_offsets_def row_of_def)
next
  case False
  let ?N = "newlines xs"
  let ?k = "length (filter (\<lambda>j. Suc j < p) ?N)"
  have "sorted (line_offsets xs)"
    using sorted_newlines(1) [of xs] assms(1) by (simp add: line_offsets_eq sorted_map sorted_wrt_mono_rel)
  then have i: "length (takeWhile (\<lambda>y. y < p) (line_offsets xs)) = Suc ?k"
    using False assms(1) by (simp add: takeWhile_less_sorted line_offsets_eq filter_map comp_def)
  have k: "?k = length (filter (\<lambda>j. j < p - 1) ?N)"
    using False by (metis (mono_tags, lifting) Suc_less_eq Suc_pred' bot_nat_0.not_eq_extremum)
  note split = sorted_nth_split [OF sorted_newlines(1) k]
  have fin: "row_of xs p = card {j \<in> set ?N. j < p}" "?k = card {j \<in> set ?N. j < p - 1}"
    unfolding row_of_def k by (simp_all add: distinct_length_filter sorted_newlines(2) Collect_conj_eq Int_commute)
  show ?thesis
  proof (cases "p - 1 \<in> set ?N")
    case True
    then have "{j \<in> set ?N. j < p} = insert (p - 1) {j \<in> set ?N. j < p - 1}" using False by auto
    then have row: "row_of xs p = Suc ?k" unfolding fin by simp
    obtain m where m: "m < length ?N" "?N ! m = p - 1" using True by (metis in_set_conv_nth)
    then have "\<not> m < ?k" using split(2) by fastforce
    then have "?k < length ?N" "?N ! ?k \<le> ?N ! m"
      using m(1) sorted_newlines(1) by (auto simp: sorted_nth_mono)
    then have "?N ! ?k = p - 1" using split(1) m(2) by simp
    then show ?thesis
      using \<open>?k < length ?N\<close> False assms(1) i row
      by (simp add: line_at_offset_def binary_search_def Let_def line_offsets_eq)
  next
    case nomem: False
    have "j < p - 1" if "j \<in> set ?N" "j < p" for j
      using that nomem by (cases "j = p - 1") auto
    then have "{j \<in> set ?N. j < p} = {j \<in> set ?N. j < p - 1}" by auto
    then have "row_of xs p = ?k" unfolding fin by simp
    moreover have "\<not> (?k < length ?N \<and> ?N ! ?k = p - 1)" using nomem nth_mem by metis
    ultimately show ?thesis
      using False assms(1) i by (auto simp: line_at_offset_def binary_search_def Let_def line_offsets_eq)
  qed
qed

lemma row_of_nth:
  assumes "p \<le> length xs"
  shows "row_of xs p < length (newlines xs) \<Longrightarrow> newlines xs ! row_of xs p = eol xs p"
    and "\<not> row_of xs p < length (newlines xs) \<Longrightarrow> eol xs p = length xs"
    and "0 < row_of xs p \<Longrightarrow> newlines xs ! (row_of xs p - 1) < p"
proof -
  let ?N = "newlines xs" and ?k = "row_of xs p"
  note split = sorted_nth_split [OF sorted_newlines(1) row_of_def [of xs p]]
  show "?N ! ?k = eol xs p" if "?k < length ?N"
  proof (rule eol_unique [symmetric])
    have mem: "?N ! ?k \<in> set ?N" using that by simp
    then show "?N ! ?k \<le> length xs" "xs ! (?N ! ?k) = 10" by (simp_all add: in_newlines)
    show "p \<le> ?N ! ?k" using split(1) [OF that] .
    show "xs ! j \<noteq> 10" if "p \<le> j" "j < ?N ! ?k" for j
    proof
      assume "xs ! j = 10"
      then have "j \<in> set ?N" using that mem by (simp add: in_newlines)
      then obtain m where m: "m < length ?N" "?N ! m = j" by (metis in_set_conv_nth)
      then have "\<not> m < ?k" using split(2) that(1) by fastforce
      then show False using newlines_mono [of ?k m xs] m that(2) by simp
    qed
  qed
  show "eol xs p = length xs" if "\<not> ?k < length ?N"
  proof (rule eol_unique [OF assms])
    show "xs ! j \<noteq> 10" if "p \<le> j" "j < length xs" for j
    proof
      assume "xs ! j = 10"
      then have "j \<in> set ?N" using that by (simp add: in_newlines)
      then obtain m where m: "m < length ?N" "?N ! m = j" by (metis in_set_conv_nth)
      then show False using split(2) [of m] \<open>\<not> ?k < length ?N\<close> \<open>p \<le> j\<close> by simp
    qed
  qed simp_all
  show "0 < ?k \<Longrightarrow> ?N ! (?k - 1) < p" using split(2) by simp
qed

lemma row_start_le:
  assumes "length xs < 2 ^ 32" and "p \<le> length xs"
  shows "row_of xs p < length (line_offsets xs)" and "line_offsets xs ! row_of xs p \<le> p"
    and "line_offsets xs ! row_of xs p = p \<longleftrightarrow> p = 0 \<or> xs ! (p - 1) = 10"
proof -
  let ?N = "newlines xs" and ?k = "row_of xs p"
  have kN: "?k \<le> length ?N"
    using sorted_nth_split(3) [OF sorted_newlines(1) row_of_def] .
  then show "?k < length (line_offsets xs)" by (simp add: line_offsets_eq [OF assms(1)])
  have nth: "line_offsets xs ! ?k = (if ?k = 0 then 0 else Suc (?N ! (?k - 1)))"
    using kN by (cases ?k) (simp_all add: line_offsets_eq [OF assms(1)])
  then show "line_offsets xs ! ?k \<le> p"
    using row_of_nth(3) [OF assms(2)] by (simp add: Suc_le_eq)
  show "line_offsets xs ! ?k = p \<longleftrightarrow> p = 0 \<or> xs ! (p - 1) = 10"
  proof
    assume eq: "line_offsets xs ! ?k = p"
    show "p = 0 \<or> xs ! (p - 1) = 10"
    proof (cases "?k = 0")
      case False
      then have "?N ! (?k - 1) = p - 1" "?k - 1 < length ?N" using eq nth kN by auto
      then have "p - 1 \<in> set ?N" by (metis nth_mem)
      then show ?thesis by (simp add: in_newlines)
    qed (use eq nth in simp)
  next
    assume r: "p = 0 \<or> xs ! (p - 1) = 10"
    show "line_offsets xs ! ?k = p"
    proof (cases "p = 0")
      case True
      then show ?thesis using nth by (simp add: row_of_def)
    next
      case False
      then have mem: "p - 1 \<in> set ?N" using r assms(2) by (auto simp: in_newlines)
      then obtain m where m: "m < length ?N" "?N ! m = p - 1" by (metis in_set_conv_nth)
      have "m < ?k"
      proof (rule ccontr)
        assume "\<not> m < ?k"
        then have "?k < length ?N" "p \<le> ?N ! ?k" "?N ! ?k \<le> ?N ! m"
          using m(1) sorted_nth_split(1) [OF sorted_newlines(1) row_of_def [of xs p]] newlines_mono [of ?k m xs] by simp_all
        then show False using m(2) False by simp
      qed
      then have "p - 1 \<le> ?N ! (?k - 1)" "?N ! (?k - 1) < p"
        using m newlines_mono [of m "?k - 1" xs] kN row_of_nth(3) [OF assms(2)] by auto
      then show ?thesis using nth \<open>m < ?k\<close> False by auto
    qed
  qed
qed

lemma line_content_end_eol:
  assumes "length xs < 2 ^ 32" and "p \<le> length xs"
  shows "line_content_end xs (line_offsets xs) (row_of xs p) = eol xs p"
proof (cases "row_of xs p < length (newlines xs)")
  case True
  have "eol xs p \<in> set (newlines xs)" using row_of_nth(1) [OF assms(2) True] True by (metis nth_mem)
  then have e: "eol xs p < length xs" "xs ! eol xs p = 10" by (simp_all add: in_newlines)
  have "line_offsets xs ! (row_of xs p + 1) = Suc (eol xs p)" "row_of xs p + 1 < length (line_offsets xs)"
    using True row_of_nth(1) [OF assms(2) True] by (simp_all add: line_offsets_eq [OF assms(1)])
  then show ?thesis
    using e row_start_le [OF assms] eol_ge [of p xs]
    by (simp add: line_content_end_def Let_def min_def)
next
  case False
  let ?L = "line_offsets xs" and ?k = "row_of xs p"
  have n: "\<not> ?k + 1 < length ?L" using False by (simp add: line_offsets_eq [OF assms(1)])
  have len: "as_u32 (length xs) = length xs" using assms(1) by (simp add: as_u32_def)
  have "xs ! (length xs - 1) \<noteq> 10" if "?L ! ?k < length xs"
  proof (cases "p = length xs")
    case True
    then show ?thesis using that row_start_le(3) [OF assms] by auto
  next
    case neq: False
    then show ?thesis
      using eol_none_between [of p "length xs - 1" xs] row_of_nth(2) [OF assms(2) False] assms(2) by simp
  qed
  then show ?thesis
    using n len row_start_le(1) [OF assms] row_of_nth(2) [OF assms(2) False]
    by (auto simp: line_content_end_def Let_def)
qed

lemma row_of_less:
  assumes "eol xs p < eol xs q" and "p \<le> length xs" and "q \<le> length xs"
  shows "row_of xs p < row_of xs q"
proof -
  have pq: "eol xs p < q"
  proof (rule ccontr)
    assume "\<not> eol xs p < q"
    moreover have "p \<le> q" using eol_mono [of q p xs] assms by (meson linorder_not_le nat_le_linear)
    ultimately have "eol xs q = eol xs p"
      using assms eol_none_between [of p _ xs] eol_newline [of p xs] eol_le [of p xs]
      by (intro eol_unique) auto
    then show False using assms(1) by simp
  qed
  have nl: "eol xs p \<in> set (newlines xs)"
    using pq assms eol_newline [of p xs] by (simp add: in_newlines)
  have "{j \<in> set (newlines xs). j < p} \<subset> {j \<in> set (newlines xs). j < q}"
  proof
    show "{j \<in> set (newlines xs). j < p} \<subseteq> {j \<in> set (newlines xs). j < q}"
      using pq eol_ge [of p xs] by auto
    show "{j \<in> set (newlines xs). j < p} \<noteq> {j \<in> set (newlines xs). j < q}"
      using nl pq eol_ge [of p xs] by (metis (mono_tags, lifting) linorder_not_less mem_Collect_eq)
  qed
  then have "card {j \<in> set (newlines xs). j < p} < card {j \<in> set (newlines xs). j < q}"
    by (intro psubset_card_mono) simp_all
  then show ?thesis
    by (simp add: row_of_def distinct_length_filter sorted_newlines(2) Collect_conj_eq Int_commute)
qed

text \<open>The last position a data-API range hides.\<close>

definition last_hidden :: "byte list \<Rightarrow> nat \<Rightarrow> nat" where
  "last_hidden xs p = (if 0 < p \<and> xs ! (p - 1) = 10 then p - 1 else eol xs p)"

lemma row_of_pred:
  assumes "0 < p" and "p \<le> length xs" and "xs ! (p - 1) = 10"
  shows "row_of xs p - 1 = row_of xs (p - 1)" and "0 < row_of xs p"
proof -
  have "{j \<in> set (newlines xs). j < p} = insert (p - 1) {j \<in> set (newlines xs). j < p - 1}"
    using assms by (auto simp: in_newlines)
  then have "row_of xs p = Suc (row_of xs (p - 1))"
    by (simp add: row_of_def distinct_length_filter sorted_newlines(2) Collect_conj_eq Int_commute)
  then show "row_of xs p - 1 = row_of xs (p - 1)" "0 < row_of xs p" by simp_all
qed

lemma normalize_arbitrary_range_eq:
  assumes "length xs < 2 ^ 32"
  shows "normalize_arbitrary_range xs r =
    (if br_start r \<le> length xs \<and> br_end r \<le> length xs \<and> eol xs (br_start r) < last_hidden xs (br_end r)
     then Some (ByteRange (eol xs (br_start r)) (last_hidden xs (br_end r))) else None)"
proof (cases "br_start r \<le> length xs \<and> br_end r \<le> length xs")
  case True
  let ?s = "br_start r" and ?e = "br_end r"
  define q where "q = (if 0 < ?e \<and> xs ! (?e - 1) = 10 then ?e - 1 else ?e)"
  have q: "q \<le> length xs" "eol xs q = last_hidden xs ?e"
    using True eol_unique [of "?e - 1" "?e - 1" xs] by (auto simp: q_def last_hidden_def)
  have cast: "as_u32 ?s = ?s" "as_u32 ?e = ?e" using True assms by (simp_all add: as_u32_def)
  have row: "(if (row_of xs ?e < length (line_offsets xs) \<and> line_offsets xs ! row_of xs ?e = ?e) \<and> 0 < row_of xs ?e
      then row_of xs ?e - 1 else row_of xs ?e) = row_of xs q"
    using True row_start_le [OF assms, of ?e] row_of_pred [of ?e xs] by (auto simp: q_def row_of_def)
  have "normalize_arbitrary_range xs r =
    (if row_of xs q < row_of xs ?s + 1 then None
     else if eol xs q \<le> eol xs ?s then None else Some (ByteRange (eol xs ?s) (eol xs q)))"
    unfolding normalize_arbitrary_range_def Let_def cast line_at_offset_row [OF assms conjunct1 [OF True]]
      line_at_offset_row [OF assms conjunct2 [OF True]] row
      line_content_end_eol [OF assms conjunct1 [OF True]] line_content_end_eol [OF assms q(1)]
    using True by auto
  then show ?thesis
    using True q row_of_less [of xs ?s q] by auto
qed (auto simp: normalize_arbitrary_range_def)

section \<open>The translator view and the registry\<close>

text \<open>\<^verbatim>\<open>FoldStoreTranslator\<close>: intercepts nothing (the trait's default) and translates the store.\<close>

definition fold_view_ops :: "fold_store view_ops" where
  "fold_view_ops = \<lparr>intercept_edit = (\<lambda>s ctx op. (s, Inr op)), on_edit = (\<lambda>s b ed. (translate ed s, None))\<rparr>"

type_synonym fold_registry = "nat \<rightharpoonup> nat"

definition registry_store :: "fold_registry \<Rightarrow> fold_store buffer \<Rightarrow> fold_store option" where
  "registry_store reg b = Option.bind (reg (buf_id b)) (map_of (buf_views b))"

definition registry_folds :: "fold_registry \<Rightarrow> fold_store buffer \<Rightarrow> byte_range list" where
  "registry_folds reg b = (case registry_store reg b of Some s \<Rightarrow> folds s | None \<Rightarrow> [])"

definition store_or_attach :: "fold_registry \<Rightarrow> fold_store buffer \<Rightarrow> fold_registry \<times> fold_store buffer" where
  "store_or_attach reg b =
     (case reg (buf_id b) of
        Some _ \<Rightarrow> (reg, b)
      | None \<Rightarrow> (case attach_view fold_new b of (b', i) \<Rightarrow> (reg(buf_id b \<mapsto> i), b')))"

definition forget :: "fold_registry \<Rightarrow> fold_store buffer \<Rightarrow> fold_registry \<times> fold_store buffer" where
  "forget reg b =
     (case reg (buf_id b) of
        None \<Rightarrow> (reg, b)
      | Some i \<Rightarrow> (reg(buf_id b := None), fst (detach_view i b)))"

definition forget_buffer :: "fold_registry \<Rightarrow> nat \<Rightarrow> fold_registry" where
  "forget_buffer reg i = reg(i := None)"

text \<open>A command on the store of a buffer; without a store it does nothing.\<close>

definition on_store :: "(fold_store \<Rightarrow> fold_store) \<Rightarrow> fold_registry \<Rightarrow> fold_store buffer \<Rightarrow> fold_store buffer" where
  "on_store f reg b =
     (case reg (buf_id b) of
        None \<Rightarrow> b
      | Some i \<Rightarrow> (case update_first i f (buf_views b) of None \<Rightarrow> b | Some vs \<Rightarrow> b\<lparr>buf_views := vs\<rparr>))"

definition registry_unfold_containing :: "fold_registry \<Rightarrow> position \<Rightarrow> fold_store buffer \<Rightarrow> fold_store buffer \<times> nat" where
  "registry_unfold_containing reg p b =
     (case registry_store reg b of
        Some s \<Rightarrow> (on_store (\<lambda>s. fst (unfold_containing p s)) reg b, snd (unfold_containing p s))
      | None \<Rightarrow> (b, 0))"

section \<open>Stores stay in step with their buffers\<close>

text \<open>The commands that change a store; the candidates come from a parse of the buffer's text.\<close>

inductive fold_cmd :: "nat \<Rightarrow> (fold_store \<Rightarrow> fold_store) \<Rightarrow> bool" for n where
  cmd_insert: "br_end r \<le> n \<Longrightarrow> fold_cmd n (\<lambda>s. fst (fold_insert r s))"
| cmd_remove: "fold_cmd n (\<lambda>s. fst (fold_remove r s))"
| cmd_clear: "fold_cmd n (\<lambda>s. fst (fold_clear s))"
| cmd_unfold: "fold_cmd n (\<lambda>s. fst (unfold_containing p s))"
| cmd_close: "\<forall>c \<in> set cs. br_end c \<le> n \<Longrightarrow> fold_cmd n (\<lambda>s. fst (close_among cs s))"
| cmd_open: "fold_cmd n (\<lambda>s. fst (open_at p s))"
| cmd_cycle: "\<forall>c \<in> set cs. br_end c \<le> n \<Longrightarrow> fold_cmd n (\<lambda>s. fst (cycle_among cs p s))"
| cmd_toggle: "\<forall>c \<in> set cs. br_end c \<le> n \<Longrightarrow> fold_cmd n (\<lambda>s. fst (toggle_among cs p s))"

lemma fold_cmd_ok: "fold_cmd n f \<Longrightarrow> fold_ok n s \<Longrightarrow> fold_ok n (f s)"
  by (induction rule: fold_cmd.induct)
    (simp_all add: fold_ok_insert fold_ok_removals fold_ok_close_among fold_ok_cycle_among)

inductive fold_reach :: "fold_registry \<Rightarrow> fold_store buffer \<Rightarrow> bool" where
  fr_start: "fold_reach Map.empty (buffer_from_bytes i name bs)"
| fr_attach: "fold_reach reg b \<Longrightarrow> store_or_attach reg b = (reg', b') \<Longrightarrow> fold_reach reg' b'"
| fr_forget: "fold_reach reg b \<Longrightarrow> forget reg b = (reg', b') \<Longrightarrow> fold_reach reg' b'"
| fr_command: "fold_reach reg b \<Longrightarrow> fold_cmd (buffer_len b) f \<Longrightarrow> fold_reach reg (on_store f reg b)"
| fr_edit: "fold_reach reg b \<Longrightarrow> apply_edit_as fold_view_ops source op b = Some (b', r) \<Longrightarrow> fold_reach reg b'"
| fr_edit_skip:
    "fold_reach reg b \<Longrightarrow> apply_edit_skip_intercepts_as fold_view_ops source op b = Some (b', r) \<Longrightarrow> fold_reach reg b'"
| fr_generated: "fold_reach reg b \<Longrightarrow> set_generated_contents fold_view_ops bs b = Some (b', r) \<Longrightarrow> fold_reach reg b'"
| fr_undo: "fold_reach reg b \<Longrightarrow> undo_for fold_view_ops source b = Some (b', r) \<Longrightarrow> fold_reach reg b'"
| fr_redo: "fold_reach reg b \<Longrightarrow> redo_for fold_view_ops source b = Some (b', r) \<Longrightarrow> fold_reach reg b'"

interpretation ft: edit_tracker fold_view_ops "\<lambda>xs s. fold_ok (length xs) s"
proof
  fix old new :: rope and v :: fold_store and ed :: edit and b :: "fold_store buffer"
  assume ok: "fold_ok (length (contents old)) v" and d: "describes old new (edit_range ed) (inserted_len ed)"
  then have "fold_ok (length (contents old) - range_len (edit_range ed) + inserted_len ed) (translate ed v)"
    by (intro fold_ok_translate) (simp_all add: describes_def)
  then show "fold_ok (length (contents new)) (fst (on_edit fold_view_ops v b ed))"
    using describes_length [OF d] by (simp add: fold_view_ops_def range_len_def)
qed (simp_all add: fold_view_ops_def)

lemma on_store_inv:
  assumes "buffer_inv b" and "ft.in_step b" and "fold_cmd (buffer_len b) f"
  shows "buffer_inv (on_store f reg b) \<and> ft.in_step (on_store f reg b)"
proof -
  have len: "buffer_len b = length (contents (buf_rope b))"
    using assms(1) by (simp add: buffer_len_def rope_len_contents buffer_inv_def)
  have "buffer_inv (b\<lparr>buf_views := vs\<rparr>) \<and> ft.in_step (b\<lparr>buf_views := vs\<rparr>)"
    if "update_first i f (buf_views b) = Some vs" for i vs
  proof
    have "views_ok (b\<lparr>buf_views := buf_views b\<rparr>)" using assms(1) by (simp add: buffer_inv_def)
    then show "buffer_inv (b\<lparr>buf_views := vs\<rparr>)"
      using buffer_inv_same_ids [OF assms(1) update_first_keys [OF that]] by blast
    show "ft.in_step (b\<lparr>buf_views := vs\<rparr>)"
      using ft.update_tracks [OF assms(2) that] fold_cmd_ok [OF assms(3)] len by simp
  qed
  then show ?thesis
    using assms by (auto simp: on_store_def split: option.splits)
qed

lemma store_or_attach_inv:
  "buffer_inv b \<Longrightarrow> ft.in_step b \<Longrightarrow> store_or_attach reg b = (reg', b') \<Longrightarrow> buffer_inv b' \<and> ft.in_step b'"
  by (auto simp: store_or_attach_def split: option.splits prod.splits
      intro: attach_view_inv ft.attach_tracks [OF _ fold_ok_new])

lemma forget_inv:
  "buffer_inv b \<Longrightarrow> ft.in_step b \<Longrightarrow> forget reg b = (reg', b') \<Longrightarrow> buffer_inv b' \<and> ft.in_step b'"
  by (auto simp: forget_def split: option.splits prod.splits
      intro: detach_view_inv ft.detach_tracks [of b] prod.collapse [symmetric])

lemma in_step_start: "ft.in_step (buffer_from_bytes i name bs)"
  by (simp add: ft.in_step_def buffer_from_bytes_def buffer_from_rope_def)

lemmas fold_track = ft.edit_tracks ft.edit_skip_tracks ft.generated_tracks ft.undo_tracks ft.redo_tracks

lemma fold_reach_inv: "fold_reach reg b \<Longrightarrow> buffer_inv b \<and> ft.in_step b"
proof (induction rule: fold_reach.induct)
  case (fr_attach reg b reg' b') then show ?case using store_or_attach_inv by blast
next
  case (fr_forget reg b reg' b') then show ?case using forget_inv by blast
next
  case (fr_command reg b f) then show ?case using on_store_inv by blast
qed (use buffer_inv_from_bytes in_step_start in \<open>blast intro: buffer_inv_intros fold_track\<close>)+

end
