(* ===== verification/Fold_Properties.thy ===== *)
theory Fold_Properties
  imports Fold_View
begin

text \<open>The properties of code folding.\<close>

text \<open>
  C10. Whatever sequence of fold commands, edits (intercepted or not), undos, redos, attachments and
  resets a buffer goes through, its fold store is strictly sorted and every fold hides a non-empty
  range inside the present text.
\<close>

theorem fold_store_in_step:
  assumes "fold_reach reg b" and "registry_store reg b = Some s"
  shows "fold_ok (buffer_len b) s"
proof -
  have "buffer_inv b" "ft.in_step b" using fold_reach_inv [OF assms(1)] by simp_all
  moreover obtain i where "(i, s) \<in> set (buf_views b)"
    using assms(2) by (auto simp: registry_store_def bind_eq_Some_conv dest: map_of_SomeD)
  ultimately show ?thesis
    by (auto simp: ft.in_step_def ft.all_track_iff buffer_len_def rope_len_contents buffer_inv_def)
qed

theorem fold_store_in_step_witness:
  "\<exists>reg b s. fold_reach reg b \<and> registry_store reg b = Some s \<and> folds s = [ByteRange 1 3] \<and> fold_ok (buffer_len b) s"
proof -
  let ?b = "buffer_from_bytes 0 ''f'' [65, 10, 66, 10]"
  let ?cmd = "\<lambda>s. fst (fold_insert (ByteRange 1 3) s)"
  obtain reg b where a: "store_or_attach Map.empty ?b = (reg, b)" by fastforce
  have r1: "fold_reach reg b" using fr_attach [OF fr_start a] .
  have "buffer_len b = 4"
    using a rope_from_bytes_correct [of "[65, 10, 66, 10]"]
    by (auto simp: store_or_attach_def attach_view_def buffer_len_def rope_len_contents buffer_from_bytes_def
        buffer_from_rope_def)
  then have "fold_cmd (buffer_len b) ?cmd" by (intro cmd_insert) simp
  then have r2: "fold_reach reg (on_store ?cmd reg b)" using fr_command [OF r1] by simp
  have s: "registry_store reg (on_store ?cmd reg b) = Some \<lparr>folds = [ByteRange 1 3]\<rparr>"
    using a by (auto simp: store_or_attach_def attach_view_def registry_store_def on_store_def buffer_from_bytes_def
        buffer_from_rope_def fold_insert_def fold_new_def contains_exact_def normalize_def)
  show ?thesis using r2 s fold_store_in_step [OF r2 s] by fastforce
qed

text \<open>
  C11. A fold that survives an edit hides what it hid before: the same bytes when the edit is outside, the same bytes
  with the edit applied when it is strictly inside. A fold is dropped exactly when the edit deletes the byte at its head,
  or deletes something and reaches its tail from either side; an insertion never drops one. No fold appears from nowhere.
\<close>

theorem fold_translation_keeps_text:
  assumes "fold_ok (length xs) s" and "os \<le> oe" and "oe \<le> length xs"
    and "ed = \<lparr>new_rope = r, edit_range = range_new os oe, inserted_len = length ys, edit_crdt_op = c\<rparr>"
    and "os < oe \<or> ys \<noteq> []"
  shows "(\<forall>f \<in> set (folds s).
       (translate_fold ed f = None \<longleftrightarrow>
          (os \<le> br_start f \<and> br_start f < oe) \<or> (os < oe \<and> os \<le> br_end f \<and> br_end f \<le> oe)) \<and>
       (\<forall>g. translate_fold ed f = Some g \<longrightarrow>
          g \<in> set (folds (translate ed s)) \<and>
            segment (br_start g) (br_end g) (splice_list os oe ys xs) =
              (if br_start f < os \<and> oe < br_end f
               then splice_list (os - br_start f) (oe - br_start f) ys (segment (br_start f) (br_end f) xs)
               else segment (br_start f) (br_end f) xs))) \<and>
     (\<forall>g \<in> set (folds (translate ed s)). \<exists>f \<in> set (folds s). translate_fold ed f = Some g)"
proof (intro conjI ballI allI impI)
  have set: "set (folds (translate ed s)) = {g. \<exists>f \<in> set (folds s). translate_fold ed f = Some g}"
    using assms(2,4,5) by (intro translate_set) (auto simp: range_new_def)
  then show "\<exists>f \<in> set (folds s). translate_fold ed f = Some g" if "g \<in> set (folds (translate ed s))" for g
    using that by auto
  fix f assume f: "f \<in> set (folds s)"
  obtain a b where ab: "f = ByteRange a b" by (cases f)
  then have bounds: "a < b" "b \<le> length xs" using f assms(1) by (auto simp: fold_ok_def)
  note cases = translate_fold_cases [OF assms(2) bounds(1), of r "length ys" c, folded assms(4), folded ab]
  show "translate_fold ed f = None \<longleftrightarrow>
      (os \<le> br_start f \<and> br_start f < oe) \<or> (os < oe \<and> os \<le> br_end f \<and> br_end f \<le> oe)"
    using bounds(1) assms(2) unfolding cases by (auto simp: ab)
  fix g assume g: "translate_fold ed f = Some g"
  show "g \<in> set (folds (translate ed s))" using set f g by auto
  have "segment (br_start g) (br_end g) (splice_list os oe ys xs) =
      (if a < os \<and> oe < b then splice_list (os - a) (oe - a) ys (segment a b xs) else segment a b xs)"
  proof -
    consider (before) "oe \<le> a" | (after) "a < oe" "b \<le> os" "g = ByteRange a b"
      | (inside) "a < os" "oe < b" "g = ByteRange a (b - (oe - os) + length ys)"
      using g [unfolded cases] assms(2) ab by (auto split: if_splits)
    then show ?thesis
    proof cases
      case before
      then have "g = ByteRange (a - (oe - os) + length ys) (b - (oe - os) + length ys)" using g [unfolded cases] by simp
      then show ?thesis
        using before bounds assms(2) segment_splice_before [of os oe a b xs ys] by simp
    next
      case after
      then show ?thesis using bounds assms(2,3) segment_splice_after [of a b os oe xs ys] by simp
    next
      case inside
      then show ?thesis using bounds assms(2,3) segment_splice_inside [of a os oe b xs ys] by simp
    qed
  qed
  then show "segment (br_start g) (br_end g) (splice_list os oe ys xs) =
      (if br_start f < os \<and> oe < br_end f
       then splice_list (os - br_start f) (oe - br_start f) ys (segment (br_start f) (br_end f) xs)
       else segment (br_start f) (br_end f) xs)"
    by (simp add: ab)
qed

theorem fold_translation_keeps_text_witness:
  "\<exists>g \<in> set (folds (translate \<lparr>new_rope = rope_new, edit_range = range_new 3 4, inserted_len = 2, edit_crdt_op = None\<rparr>
       \<lparr>folds = [ByteRange 1 6]\<rparr>)).
     segment (br_start g) (br_end g) (splice_list 3 4 [8, 9] [0, 1, 2, 3, 4, 5, 6 :: byte]) = [1, 2, 8, 9, 4, 5]"
proof -
  let ?ed = "\<lparr>new_rope = rope_new, edit_range = range_new 3 4, inserted_len = 2, edit_crdt_op = None\<rparr>"
  let ?xs = "[0, 1, 2, 3, 4, 5, 6 :: byte]"
  have g: "translate_fold ?ed (ByteRange 1 6) = Some (ByteRange 1 7)"
    by (simp add: translate_fold_def range_new_def shift_pos_def)
  have "ByteRange 1 7 \<in> set (folds (translate ?ed \<lparr>folds = [ByteRange 1 6]\<rparr>)) \<and>
      segment 1 7 (splice_list 3 4 [8, 9] ?xs) = splice_list 2 3 [8, 9] (segment 1 6 ?xs)"
  proof -
    have ok: "fold_ok (length ?xs) \<lparr>folds = [ByteRange 1 6]\<rparr>" by (simp add: fold_ok_def)
    have f: "ByteRange 1 6 \<in> set (folds \<lparr>folds = [ByteRange 1 6]\<rparr>)" by simp
    have ed: "?ed = \<lparr>new_rope = rope_new, edit_range = range_new 3 4, inserted_len = length [8, 9 :: byte], edit_crdt_op = None\<rparr>"
      "3 \<le> (4 :: nat)" "4 \<le> length ?xs" "3 < (4 :: nat) \<or> [8, 9 :: byte] \<noteq> []" by simp_all
    note one = fold_translation_keeps_text [OF ok ed(2,3,1,4), THEN conjunct1, rule_format, OF f, THEN conjunct2, rule_format, OF g]
    then show ?thesis by simp
  qed
  then show ?thesis
    by (intro bexI [of _ "ByteRange 1 7"]) (simp_all add: segment_def splice_list_def)
qed

definition cycle_times :: "nat \<Rightarrow> byte_range list \<Rightarrow> position \<Rightarrow> fold_store \<Rightarrow> fold_store" where
  "cycle_times k cs p s = ((\<lambda>s. fst (cycle_among cs p s)) ^^ k) s"

lemma cycle_among_open:
  "find (\<lambda>c. \<not> contains_exact c s) cs = Some c \<Longrightarrow> cycle_among cs p s = (fst (fold_insert c s), Closed c)"
proof -
  assume f: "find (\<lambda>c. \<not> contains_exact c s) cs = Some c"
  then have "\<exists>c \<in> set cs. \<not> contains_exact c s"
    by (metis (no_types, lifting) find_Some_iff nth_mem)
  with f show ?thesis by (simp add: cycle_among_def)
qed

lemma find_first_open:
  assumes "distinct cs" and "k < length cs" and "set (folds s') = A \<union> set (take k cs)" and "A \<inter> set cs = {}"
  shows "find (\<lambda>c. \<not> contains_exact c s') cs = Some (cs ! k)"
proof -
  have "cs ! k \<notin> set (take k cs)"
    using assms(1,2) by (metis id_take_nth_drop distinct.simps(2) distinct_append not_distinct_conv_prefix in_set_conv_nth
        disjoint_iff list.set_intros(1))
  moreover have "cs ! j \<in> set (take k cs)" if "j < k" for j
    using that assms(2) by (metis in_set_conv_nth length_take min.absorb4 nth_take)
  ultimately show ?thesis
    using assms by (auto simp: find_Some_iff contains_exact_def intro!: exI [of _ k])
qed

lemma cycle_times_state:
  assumes "fold_ok n s" and "distinct cs" and "\<forall>c \<in> set cs. covers p c" and "\<forall>f \<in> set (folds s). \<not> covers p f"
    and "k \<le> length cs"
  shows "set (folds (cycle_times k cs p s)) = set (folds s) \<union> set (take k cs) \<and>
    sorted (folds (cycle_times k cs p s)) \<and> distinct (folds (cycle_times k cs p s))"
  using assms(5)
proof (induction k)
  case 0
  then show ?case using assms(1) by (simp add: cycle_times_def fold_ok_def)
next
  case (Suc k)
  let ?s = "cycle_times k cs p s"
  have IH: "set (folds ?s) = set (folds s) \<union> set (take k cs)" "sorted (folds ?s)" "distinct (folds ?s)"
    using Suc by simp_all
  have "set (folds s) \<inter> set cs = {}" using assms(3,4) by auto
  then have find: "find (\<lambda>c. \<not> contains_exact c ?s) cs = Some (cs ! k)"
    using find_first_open [OF assms(2) _ IH(1)] Suc.prems by simp
  then have "fst (cycle_among cs p ?s) = fst (fold_insert (cs ! k) ?s)"
    by (simp add: cycle_among_open)
  moreover have "cycle_times (Suc k) cs p s = fst (cycle_among cs p ?s)"
    by (simp add: cycle_times_def)
  moreover have "br_start (cs ! k) < br_end (cs ! k)"
    using assms(3) Suc.prems by (auto simp: covers_def Suc_le_eq dest!: bspec [OF _ nth_mem])
  moreover have "take (Suc k) cs = take k cs @ [cs ! k]"
    using Suc.prems by (simp add: take_Suc_conv_app_nth)
  ultimately show ?case
    using IH fold_insert_set [of "cs ! k" ?s] by (auto simp: fold_insert_def)
qed

text \<open>
  Pressing the toggle inside nested foldable regions, none of them closed yet, closes one region
  per press from the first candidate to the last; the next press opens exactly those again and leaves
  the store as it was before the first press.
\<close>

theorem fold_cycle_closes_then_opens:
  assumes "fold_ok n s" and "distinct cs" and "cs \<noteq> []" and "\<forall>c \<in> set cs. covers p c"
    and "\<forall>f \<in> set (folds s). \<not> covers p f"
  shows "(\<forall>k < length cs. cycle_among cs p (cycle_times k cs p s) = (cycle_times (Suc k) cs p s, Closed (cs ! k))) \<and>
     set (folds (cycle_times (length cs) cs p s)) = set (folds s) \<union> set cs \<and>
     cycle_among cs p (cycle_times (length cs) cs p s) = (s, OpenedAll (length cs))"
proof (intro conjI allI impI)
  let ?s = "\<lambda>k. cycle_times k cs p s"
  note state = cycle_times_state [OF assms(1,2,4,5)]
  have disj: "set (folds s) \<inter> set cs = {}" using assms(4,5) by auto
  show "cycle_among cs p (?s k) = (?s (Suc k), Closed (cs ! k))" if "k < length cs" for k
  proof -
    have "find (\<lambda>c. \<not> contains_exact c (?s k)) cs = Some (cs ! k)"
      using find_first_open [OF assms(2) that _ disj] state [of k] that by simp
    then have "snd (cycle_among cs p (?s k)) = Closed (cs ! k)"
      by (simp add: cycle_among_open)
    then show ?thesis by (simp add: cycle_times_def prod_eq_iff)
  qed
  show all: "set (folds (?s (length cs))) = set (folds s) \<union> set cs" using state [of "length cs"] by simp
  let ?e = "?s (length cs)"
  have e: "sorted (folds ?e)" "distinct (folds ?e)" using state [of "length cs"] by simp_all
  have "sorted (filter (\<lambda>f. \<not> covers p f) (folds ?e))" "distinct (filter (\<lambda>f. \<not> covers p f) (folds ?e))"
    using e by (simp_all add: sorted_wrt_filter)
  moreover have "set (filter (\<lambda>f. \<not> covers p f) (folds ?e)) = set (folds s)"
    using all assms(4,5) by auto
  ultimately have "filter (\<lambda>f. \<not> covers p f) (folds ?e) = folds s"
    using assms(1) by (intro sorted_distinct_set_unique) (simp_all add: fold_ok_def)
  moreover have "set (filter (covers p) (folds ?e)) = set cs" using all assms(4,5) by auto
  then have "length (filter (covers p) (folds ?e)) = length cs"
    using e(2) assms(2) by (metis distinct_card distinct_filter)
  ultimately have "unfold_containing p ?e = (s, length cs)"
    using unfold_containing_count [of p ?e] by (auto simp: unfold_containing_def Let_def)
  moreover have "\<forall>c \<in> set cs. contains_exact c ?e" using all by (simp add: contains_exact_def)
  ultimately show "cycle_among cs p ?e = (s, OpenedAll (length cs))"
    using assms(3) by (simp add: cycle_among_def)
qed

theorem fold_cycle_closes_then_opens_witness:
  "cycle_among [ByteRange 4 8, ByteRange 1 9] 6 (cycle_times 2 [ByteRange 4 8, ByteRange 1 9] 6 fold_new) = (fold_new, OpenedAll 2)"
  using fold_cycle_closes_then_opens [of 9 fold_new "[ByteRange 4 8, ByteRange 1 9]" 6]
  by (simp add: covers_def fold_new_def fold_ok_def numeral_2_eq_2)

text \<open>
  On the head line of a fold the toggle is stuck: closing a region moves the point to the end of
  its head line, which is the start of the range and outside it, and from there the next press finds
  the region closed, opens nothing and reports that there is nothing to fold.
\<close>

theorem fold_cycle_stuck_on_head_line:
  assumes "covers p r" and "\<not> contains_exact r s" and "\<forall>f \<in> set (folds s). \<not> covers (br_start r) f"
  shows "\<exists>s'. cycle_among [r] p s = (s', Closed r) \<and> contains_exact r s' \<and>
     cycle_among [r] (br_start r) s' = (s', CycleNothing)"
proof -
  let ?s = "fst (fold_insert r s)"
  have ne: "br_start r < br_end r" using assms(1) by (simp add: covers_def)
  have set: "set (folds ?s) = insert r (set (folds s))" by (rule fold_insert_set [OF ne])
  have "cycle_among [r] p s = (?s, Closed r)" using assms(2) by (simp add: cycle_among_def)
  moreover have "contains_exact r ?s" using set by (simp add: contains_exact_def)
  moreover have "filter (covers (br_start r)) (folds ?s) = []" "filter (\<lambda>f. \<not> covers (br_start r) f) (folds ?s) = folds ?s"
    using set assms(3) by (auto simp: filter_empty_conv filter_id_conv covers_def)
  then have "unfold_containing (br_start r) ?s = (?s, 0)"
    by (simp add: unfold_containing_def)
  then have "cycle_among [r] (br_start r) ?s = (?s, CycleNothing)"
    using \<open>contains_exact r ?s\<close> by (simp add: cycle_among_def)
  ultimately show ?thesis by blast
qed

theorem fold_cycle_stuck_on_head_line_witness:
  "\<exists>s'. cycle_among [ByteRange 4 8] 6 fold_new = (s', Closed (ByteRange 4 8)) \<and>
     cycle_among [ByteRange 4 8] 4 s' = (s', CycleNothing)"
  using fold_cycle_stuck_on_head_line [of 6 "ByteRange 4 8" fold_new]
  by (auto simp: covers_def contains_exact_def fold_new_def)

text \<open>
  The fold stored for an arbitrary range of a text below 4 GiB is line-aligned: it runs from the
  end of the line that holds the start of the range to the end of the line that holds its end (of the
  previous line when the range ends at a line start), and there is no fold when that hides no line.
\<close>

theorem data_fold_line_aligned:
  assumes "length xs < 2 ^ 32"
  shows "normalize_arbitrary_range xs r =
    (if br_start r \<le> length xs \<and> br_end r \<le> length xs \<and> eol xs (br_start r) < last_hidden xs (br_end r)
     then Some (ByteRange (eol xs (br_start r)) (last_hidden xs (br_end r))) else None)"
  by (rule normalize_arbitrary_range_eq [OF assms])

theorem data_fold_line_aligned_witness:
  "normalize_arbitrary_range [65, 10, 66, 10, 67] (ByteRange 0 4) = Some (ByteRange 1 3)"
  using data_fold_line_aligned [of "[65, 10, 66, 10, 67]" "ByteRange 0 4"]
  by (simp add: eol_def last_hidden_def)

end
