(* ===== verification/Key.thy ===== *)
theory Key
  imports Prelude
begin

text \<open>
  Chords and key sequences, \<^verbatim>\<open>src/src/key.rs\<close>: canonicalisation, the Emacs-style parser and the printer.
  A Rust \<^verbatim>\<open>char\<close> is its code point. \<^verbatim>\<open>KeyCode\<close> and \<^verbatim>\<open>KeyModifiers\<close> are types of the \<^verbatim>\<open>crossterm\<close> package:
  the key codes that the source names are constructors, the others are \<open>OtherKey\<close>, whose debug form is
  the parameter \<open>dbg\<close> of the printer.
\<close>

section \<open>Text\<close>

type_synonym uchar = nat
type_synonym ustring = "uchar list"

definition lit :: "string \<Rightarrow> ustring" where
  "lit s = map of_char s"

text \<open>\<^verbatim>\<open>char::is_whitespace\<close>: the Unicode property White_Space.\<close>

definition is_whitespace :: "uchar \<Rightarrow> bool" where
  "is_whitespace c \<longleftrightarrow> (9 \<le> c \<and> c \<le> 13) \<or> c = 32 \<or> c = 133 \<or> c = 160 \<or> c = 5760 \<or>
     (8192 \<le> c \<and> c \<le> 8202) \<or> c = 8232 \<or> c = 8233 \<or> c = 8239 \<or> c = 8287 \<or> c = 12288"

definition trim :: "ustring \<Rightarrow> ustring" where
  "trim s = rev (dropWhile is_whitespace (rev (dropWhile is_whitespace s)))"

text \<open>\<^verbatim>\<open>str::split_whitespace\<close>: the maximal runs of other characters.\<close>

function split_whitespace :: "ustring \<Rightarrow> ustring list" where
  "split_whitespace [] = []"
| "split_whitespace (c # cs) =
     (if is_whitespace c then split_whitespace cs
      else (c # takeWhile (\<lambda>c. \<not> is_whitespace c) cs) #
           split_whitespace (dropWhile (\<lambda>c. \<not> is_whitespace c) cs))"
  by pat_completeness auto
termination
  by (relation "measure length") (auto simp: le_imp_less_Suc length_dropWhile_le)

definition is_ascii_uppercase :: "uchar \<Rightarrow> bool" where
  "is_ascii_uppercase c \<longleftrightarrow> 65 \<le> c \<and> c \<le> 90"

definition is_ascii_lowercase :: "uchar \<Rightarrow> bool" where
  "is_ascii_lowercase c \<longleftrightarrow> 97 \<le> c \<and> c \<le> 122"

definition to_ascii_uppercase :: "uchar \<Rightarrow> uchar" where
  "to_ascii_uppercase c = (if is_ascii_lowercase c then c - 32 else c)"

definition to_ascii_lowercase :: "uchar \<Rightarrow> uchar" where
  "to_ascii_lowercase c = (if is_ascii_uppercase c then c + 32 else c)"

text \<open>\<^verbatim>\<open>str::parse::<u8>\<close>: an optional plus sign and decimal digits, at most 255.\<close>

definition digits_value :: "ustring \<Rightarrow> nat" where
  "digits_value ds = foldl (\<lambda>n d. 10 * n + (d - 48)) 0 ds"

definition parse_u8 :: "ustring \<Rightarrow> nat option" where
  "parse_u8 s =
     (let ds = (case s of c # cs \<Rightarrow> if c = 43 then cs else s | [] \<Rightarrow> s)
      in if ds \<noteq> [] \<and> list_all (\<lambda>d. 48 \<le> d \<and> d \<le> 57) ds \<and> digits_value ds \<le> 255
         then Some (digits_value ds) else None)"

fun show_nat :: "nat \<Rightarrow> ustring" where
  "show_nat n = (if n < 10 then [48 + n] else show_nat (n div 10) @ [48 + n mod 10])"

declare show_nat.simps [simp del]

section \<open>Chords\<close>

datatype key_code =
    CharKey uchar | Enter | Tab | Esc | Backspace | Delete | Up | Down | LeftKey | RightKey
  | Home | End | PageUp | PageDown | InsertKey | F nat | OtherKey nat

record key_modifiers =
  CONTROL :: bool
  ALT :: bool
  SHIFT :: bool
  SUPER :: bool
  HYPER :: bool
  META :: bool

definition no_modifiers :: key_modifiers where
  "no_modifiers = \<lparr>CONTROL = False, ALT = False, SHIFT = False, SUPER = False, HYPER = False, META = False\<rparr>"

record chord =
  code :: key_code
  modifiers :: key_modifiers

type_synonym key_sequence = "chord list"

definition chord_new :: "key_code \<Rightarrow> key_modifiers \<Rightarrow> chord" where
  "chord_new c m =
     (case c of
        CharKey ch \<Rightarrow>
          if is_ascii_uppercase ch then \<lparr>code = c, modifiers = m\<lparr>SHIFT := False\<rparr>\<rparr>
          else if is_ascii_lowercase ch \<and> SHIFT m
            then \<lparr>code = CharKey (to_ascii_uppercase ch), modifiers = m\<lparr>SHIFT := False\<rparr>\<rparr>
          else \<lparr>code = c, modifiers = m\<rparr>
      | _ \<Rightarrow> \<lparr>code = c, modifiers = m\<rparr>)"

definition chord_plain :: "key_code \<Rightarrow> chord" where
  "chord_plain c = chord_new c no_modifiers"

section \<open>Parsing\<close>

datatype key_parse_error =
    KeyEmpty
  | BadModifier ustring ustring
  | UnknownKey ustring ustring

definition named_key :: "ustring \<Rightarrow> key_code option" where
  "named_key upper =
     (if upper \<in> {lit ''RET'', lit ''RETURN'', lit ''ENTER''} then Some Enter
      else if upper = lit ''TAB'' then Some Tab
      else if upper \<in> {lit ''SPC'', lit ''SPACE''} then Some (CharKey 32)
      else if upper \<in> {lit ''ESC'', lit ''ESCAPE''} then Some Esc
      else if upper \<in> {lit ''BS'', lit ''BACKSPACE''} then Some Backspace
      else if upper \<in> {lit ''DEL'', lit ''DELETE''} then Some Delete
      else None)"

definition bracketed_key :: "ustring \<Rightarrow> key_code option" where
  "bracketed_key inner =
     (if inner = lit ''up'' then Some Up
      else if inner = lit ''down'' then Some Down
      else if inner = lit ''left'' then Some LeftKey
      else if inner = lit ''right'' then Some RightKey
      else if inner = lit ''home'' then Some Home
      else if inner = lit ''end'' then Some End
      else if inner \<in> {lit ''pageup'', lit ''pgup''} then Some PageUp
      else if inner \<in> {lit ''pagedown'', lit ''pgdn''} then Some PageDown
      else if inner \<in> {lit ''insert'', lit ''ins''} then Some InsertKey
      else (case inner of
              c # rest \<Rightarrow>
                if c = of_char (CHR ''f'') then
                  (case parse_u8 rest of
                     Some n \<Rightarrow> if 1 \<le> n \<and> n \<le> 12 then Some (F n) else None
                   | None \<Rightarrow> None)
                else None
            | [] \<Rightarrow> None))"

definition parse_key_code :: "ustring \<Rightarrow> ustring \<Rightarrow> key_parse_error + key_code" where
  "parse_key_code token full_chord =
     (case named_key (map to_ascii_uppercase token) of
        Some c \<Rightarrow> Inr c
      | None \<Rightarrow>
          if token \<noteq> [] \<and> hd token = of_char (CHR ''<'') \<and> last token = of_char (CHR ''>'') \<and> 3 \<le> length token then
            (case bracketed_key (map to_ascii_lowercase (butlast (tl token))) of
               Some c \<Rightarrow> Inr c
             | None \<Rightarrow> Inl (UnknownKey full_chord token))
          else (case token of
                  [ch] \<Rightarrow> Inr (CharKey ch)
                | _ \<Rightarrow> Inl (UnknownKey full_chord token)))"

text \<open>The modifier bit of one of the letters \<^verbatim>\<open>CMSs\<close>, as a getter and a setter.\<close>

definition modifier_bit :: "uchar \<Rightarrow> ((key_modifiers \<Rightarrow> bool) \<times> (key_modifiers \<Rightarrow> key_modifiers)) option" where
  "modifier_bit c =
     (if c = of_char (CHR ''C'') then Some (CONTROL, CONTROL_update (\<lambda>_. True))
      else if c = of_char (CHR ''M'') then Some (ALT, ALT_update (\<lambda>_. True))
      else if c = of_char (CHR ''S'') then Some (SHIFT, SHIFT_update (\<lambda>_. True))
      else if c = of_char (CHR ''s'') then Some (SUPER, SUPER_update (\<lambda>_. True))
      else None)"

fun peel_modifiers :: "ustring \<Rightarrow> key_modifiers \<Rightarrow> ustring \<Rightarrow> key_parse_error + key_modifiers \<times> ustring" where
  "peel_modifiers trimmed m (c # d # after) =
     (if d = of_char (CHR ''-'') \<and> after \<noteq> [] then
        (case modifier_bit c of
           Some (get, put) \<Rightarrow>
             if get m then Inl (BadModifier trimmed (lit ''modifier `'' @ [c] @ lit ''-` repeated''))
             else peel_modifiers trimmed (put m) after
         | None \<Rightarrow> Inr (m, c # d # after))
      else Inr (m, c # d # after))"
| "peel_modifiers trimmed m rest = Inr (m, rest)"

definition parse_chord :: "ustring \<Rightarrow> key_parse_error + chord" where
  "parse_chord s =
     (let trimmed = trim s
      in if trimmed = [] then Inl KeyEmpty
         else (case peel_modifiers trimmed no_modifiers trimmed of
                 Inl e \<Rightarrow> Inl e
               | Inr (m, rest) \<Rightarrow>
                   (case parse_key_code rest trimmed of
                      Inl e \<Rightarrow> Inl e
                    | Inr c \<Rightarrow> Inr (chord_new c m))))"

fun parse_tokens :: "ustring list \<Rightarrow> key_parse_error + key_sequence" where
  "parse_tokens [] = Inr []"
| "parse_tokens (tok # toks) =
     (case parse_chord tok of
        Inl e \<Rightarrow> Inl e
      | Inr c \<Rightarrow> (case parse_tokens toks of Inl e \<Rightarrow> Inl e | Inr cs \<Rightarrow> Inr (c # cs)))"

definition parse_sequence :: "ustring \<Rightarrow> key_parse_error + key_sequence" where
  "parse_sequence s =
     (case parse_tokens (split_whitespace s) of
        Inl e \<Rightarrow> Inl e
      | Inr [] \<Rightarrow> Inl KeyEmpty
      | Inr cs \<Rightarrow> Inr cs)"

section \<open>Printing\<close>

fun display_code :: "(nat \<Rightarrow> ustring) \<Rightarrow> key_code \<Rightarrow> ustring" where
  "display_code dbg (CharKey c) = (if c = 32 then lit ''SPC'' else [c])"
| "display_code dbg Enter = lit ''RET''"
| "display_code dbg Tab = lit ''TAB''"
| "display_code dbg Esc = lit ''ESC''"
| "display_code dbg Backspace = lit ''BS''"
| "display_code dbg Delete = lit ''DEL''"
| "display_code dbg Up = lit ''<up>''"
| "display_code dbg Down = lit ''<down>''"
| "display_code dbg LeftKey = lit ''<left>''"
| "display_code dbg RightKey = lit ''<right>''"
| "display_code dbg Home = lit ''<home>''"
| "display_code dbg End = lit ''<end>''"
| "display_code dbg PageUp = lit ''<pageup>''"
| "display_code dbg PageDown = lit ''<pagedown>''"
| "display_code dbg InsertKey = lit ''<insert>''"
| "display_code dbg (F n) = lit ''<f'' @ show_nat n @ lit ''>''"
| "display_code dbg (OtherKey k) = dbg k"

definition display_chord :: "(nat \<Rightarrow> ustring) \<Rightarrow> chord \<Rightarrow> ustring" where
  "display_chord dbg c =
     (if CONTROL (modifiers c) then lit ''C-'' else []) @
     (if ALT (modifiers c) then lit ''M-'' else []) @
     (if SHIFT (modifiers c) then lit ''S-'' else []) @
     (if SUPER (modifiers c) then lit ''s-'' else []) @ display_code dbg (code c)"

fun display_sequence :: "(nat \<Rightarrow> ustring) \<Rightarrow> key_sequence \<Rightarrow> ustring" where
  "display_sequence dbg [] = []"
| "display_sequence dbg [c] = display_chord dbg c"
| "display_sequence dbg (c # cs) = display_chord dbg c @ [32] @ display_sequence dbg cs"

section \<open>Printing and parsing are inverse\<close>

text \<open>The chords that a parse can produce: canonical, and with a key that has a name.\<close>

fun nameable :: "key_code \<Rightarrow> bool" where
  "nameable (CharKey c) \<longleftrightarrow> c = 32 \<or> \<not> is_whitespace c"
| "nameable (F n) \<longleftrightarrow> 1 \<le> n \<and> n \<le> 12"
| "nameable (OtherKey k) \<longleftrightarrow> False"
| "nameable _ \<longleftrightarrow> True"

definition printable_chord :: "chord \<Rightarrow> bool" where
  "printable_chord c \<longleftrightarrow> nameable (code c) \<and> chord_new (code c) (modifiers c) = c \<and>
     \<not> HYPER (modifiers c) \<and> \<not> META (modifiers c)"

lemmas char_classes = is_ascii_uppercase_def is_ascii_lowercase_def to_ascii_uppercase_def to_ascii_lowercase_def
  is_whitespace_def

lemma chord_new_idem: "chord_new (code (chord_new c m)) (modifiers (chord_new c m)) = chord_new c m"
  by (cases c) (auto simp: chord_new_def char_classes)

lemma le_12_cases: "1 \<le> n \<Longrightarrow> n \<le> 12 \<Longrightarrow> n \<in> {1, 2, 3, 4, 5, 6, 7, 8, 9, 10, 11, 12 :: nat}"
  unfolding insert_iff empty_iff by presburger

lemma show_nat_small:
  "n \<in> {1, 2, 3, 4, 5, 6, 7, 8, 9, 10, 11, 12} \<Longrightarrow>
   show_nat n = (if n < 10 then [48 + n] else [49, 38 + n])"
  by (auto simp: show_nat.simps)

lemma display_code_shape:
  assumes "nameable k"
  shows "display_code dbg k \<noteq> []" and "list_all (\<lambda>c. \<not> is_whitespace c) (display_code dbg k)"
    and "peel_modifiers t m (display_code dbg k) = Inr (m, display_code dbg k)"
proof -
  show "display_code dbg k \<noteq> []" using assms by (cases k) (simp_all add: lit_def)
  show "list_all (\<lambda>c. \<not> is_whitespace c) (display_code dbg k)"
    using assms le_12_cases
    by (cases k) (auto simp: lit_def is_whitespace_def show_nat_small)
  show "peel_modifiers t m (display_code dbg k) = Inr (m, display_code dbg k)"
    using assms by (cases k) (simp_all add: lit_def)
qed

lemma parse_u8_show: "1 \<le> n \<Longrightarrow> n \<le> 12 \<Longrightarrow> parse_u8 (show_nat n) = Some n"
  using le_12_cases [of n] by (auto simp: show_nat_small parse_u8_def digits_value_def)

lemma named_key_None: "length s \<le> 1 \<Longrightarrow> named_key s = None" "s \<noteq> [] \<Longrightarrow> hd s = 60 \<Longrightarrow> named_key s = None"
  by (cases s; simp add: named_key_def lit_def)+

lemma lower_show: "1 \<le> n \<Longrightarrow> n \<le> 12 \<Longrightarrow> map to_ascii_lowercase (show_nat n) = show_nat n"
  using le_12_cases [of n] by (auto simp: show_nat_small char_classes)

lemma parse_display_code: "nameable k \<Longrightarrow> parse_key_code (display_code dbg k) full = Inr k"
proof (cases k)
  case (F n)
  assume "nameable k"
  then have n: "1 \<le> n" "n \<le> 12" by (simp_all add: F)
  have "bracketed_key (102 # show_nat n) = Some (F n)"
    using n parse_u8_show [OF n] by (simp add: bracketed_key_def lit_def)
  moreover have "show_nat n \<noteq> []" by (subst show_nat.simps) simp
  ultimately show ?thesis
    using lower_show [OF n]
    by (simp add: F parse_key_code_def lit_def named_key_None char_classes butlast_append Suc_le_eq)
qed (simp_all add: parse_key_code_def named_key_None named_key_def bracketed_key_def lit_def char_classes)

lemma trim_id: "list_all (\<lambda>c. \<not> is_whitespace c) s \<Longrightarrow> trim s = s"
proof -
  assume a: "list_all (\<lambda>c. \<not> is_whitespace c) s"
  then have "dropWhile is_whitespace s = s" "dropWhile is_whitespace (rev s) = rev s"
    by (auto simp: dropWhile_eq_self_iff list_all_iff hd_rev)
  then show ?thesis by (simp add: trim_def)
qed

lemma peel_display:
  assumes "printable_chord c"
  shows "peel_modifiers t no_modifiers (display_chord dbg c) = Inr (modifiers c, display_code dbg (code c))"
proof -
  let ?b = "display_code dbg (code c)"
  have b: "?b \<noteq> []" "peel_modifiers t m ?b = Inr (m, ?b)" for m
    using display_code_shape assms by (simp_all add: printable_chord_def)
  obtain ct al sh su where m: "modifiers c = \<lparr>CONTROL = ct, ALT = al, SHIFT = sh, SUPER = su, HYPER = False, META = False\<rparr>"
    using assms by (cases "modifiers c") (simp add: printable_chord_def)
  show ?thesis
    using b by (cases ct; cases al; cases sh; cases su)
      (simp_all add: display_chord_def m lit_def modifier_bit_def no_modifiers_def)
qed

lemma display_chord_shape:
  assumes "printable_chord c"
  shows "display_chord dbg c \<noteq> []" and "list_all (\<lambda>c. \<not> is_whitespace c) (display_chord dbg c)"
  using assms display_code_shape(1,2) [of "code c" dbg]
  by (simp_all add: display_chord_def printable_chord_def lit_def is_whitespace_def)

lemma parse_display_chord: "printable_chord c \<Longrightarrow> parse_chord (display_chord dbg c) = Inr c"
  using display_chord_shape [of c dbg] peel_display [where c = c and t = "display_chord dbg c" and dbg = dbg]
    parse_display_code [where k = "code c" and dbg = dbg and full = "display_chord dbg c"]
  by (simp add: parse_chord_def trim_id printable_chord_def)

lemma peel_modifiers_suffix:
  "peel_modifiers t m xs = Inr (m', r) \<Longrightarrow>
   (\<exists>pre. xs = pre @ r) \<and> (xs \<noteq> [] \<longrightarrow> r \<noteq> []) \<and> HYPER m' = HYPER m \<and> META m' = META m"
proof (induction t m xs rule: peel_modifiers.induct)
  case (1 t m c d after)
  show ?case
  proof (cases "d = of_char (CHR ''-'') \<and> after \<noteq> [] \<and> modifier_bit c \<noteq> None")
    case True
    then obtain g p where gp: "modifier_bit c = Some (g, p)" by auto
    have keep: "HYPER (p m) = HYPER m" "META (p m) = META m"
      using gp by (auto simp: modifier_bit_def split: if_splits)
    have "\<not> g m" "peel_modifiers t (p m) after = Inr (m', r)"
      using 1(2) True gp by (auto split: if_splits)
    then show ?thesis
      using 1(1) [OF _ gp refl] True keep by (metis append_Cons)
  next
    case False
    then have "Inr (m, c # d # after) = (Inr (m', r) :: key_parse_error + key_modifiers \<times> ustring)"
      using 1(2) by (auto split: if_splits option.splits)
    then show ?thesis by auto
  qed
qed auto

lemma last_trim: "trim s \<noteq> [] \<Longrightarrow> \<not> is_whitespace (last (trim s))"
  using hd_dropWhile [of is_whitespace "rev (dropWhile is_whitespace s)"] by (auto simp: trim_def last_rev)

lemma named_key_nameable: "named_key u = Some k \<Longrightarrow> nameable k"
  by (auto simp: named_key_def split: if_splits)

lemma bracketed_key_nameable: "bracketed_key u = Some k \<Longrightarrow> nameable k"
  by (auto simp: bracketed_key_def split: if_splits list.splits option.splits)

lemma parse_key_code_nameable:
  "parse_key_code tok full = Inr k \<Longrightarrow> tok \<noteq> [] \<Longrightarrow> \<not> is_whitespace (last tok) \<Longrightarrow> nameable k"
  by (auto simp: parse_key_code_def split: option.splits if_splits list.splits
      dest: named_key_nameable bracketed_key_nameable)

lemma lowercase_upper: "is_ascii_lowercase c \<Longrightarrow> \<not> is_whitespace (to_ascii_uppercase c)"
  by (simp add: char_classes) linarith

lemma nameable_chord_new: "nameable k \<Longrightarrow> nameable (code (chord_new k m))"
  by (cases k) (simp_all add: chord_new_def lowercase_upper)

lemma parse_chord_printable:
  assumes "parse_chord s = Inr c"
  shows "printable_chord c"
proof -
  obtain m r k where p: "trim s \<noteq> []" "peel_modifiers (trim s) no_modifiers (trim s) = Inr (m, r)"
    "parse_key_code r (trim s) = Inr k" "c = chord_new k m"
    using assms by (auto simp: parse_chord_def Let_def split: if_splits sum.splits)
  obtain pre where r: "trim s = pre @ r" "r \<noteq> []" "\<not> HYPER m" "\<not> META m"
    using peel_modifiers_suffix [OF p(2)] p(1) by (auto simp: no_modifiers_def)
  then have "nameable k"
    using parse_key_code_nameable [OF p(3)] last_trim [OF p(1)] by simp
  moreover have "\<not> HYPER (modifiers (chord_new k m))" "\<not> META (modifiers (chord_new k m))"
    using r(3,4) by (cases k; simp add: chord_new_def)+
  ultimately show ?thesis
    by (simp add: p(4) printable_chord_def chord_new_idem nameable_chord_new)
qed

lemma parse_tokens_map:
  "parse_tokens toks = Inr cs \<longleftrightarrow> list_all2 (\<lambda>tok c. parse_chord tok = Inr c) toks cs"
proof (induction toks arbitrary: cs)
  case (Cons tok toks)
  show ?case
  proof (cases "parse_tokens toks")
    case (Inl e)
    then have "\<not> list_all2 (\<lambda>tok c. parse_chord tok = Inr c) toks ds" for ds
      using Cons by (metis Inl_Inr_False)
    then show ?thesis using Inl by (auto simp: list_all2_Cons1 split: sum.splits)
  next
    case (Inr ds)
    then have "list_all2 (\<lambda>tok c. parse_chord tok = Inr c) toks es \<longleftrightarrow> es = ds" for es
      using Cons by (metis sum.inject(2))
    then show ?thesis using Inr by (auto simp: list_all2_Cons1 split: sum.splits)
  qed
qed auto

lemma split_whitespace_token:
  "tok \<noteq> [] \<Longrightarrow> list_all (\<lambda>c. \<not> is_whitespace c) tok \<Longrightarrow> split_whitespace tok = [tok]"
  "tok \<noteq> [] \<Longrightarrow> list_all (\<lambda>c. \<not> is_whitespace c) tok \<Longrightarrow>
   split_whitespace (tok @ 32 # rest) = tok # split_whitespace rest"
proof -
  assume a: "tok \<noteq> []" "list_all (\<lambda>c. \<not> is_whitespace c) tok"
  then obtain c cs where tok: "tok = c # cs" "\<not> is_whitespace c" "\<forall>x \<in> set cs. \<not> is_whitespace x"
    by (cases tok) (auto simp: list_all_iff)
  then have all: "takeWhile (\<lambda>c. \<not> is_whitespace c) cs = cs" "dropWhile (\<lambda>c. \<not> is_whitespace c) cs = []"
    by (simp_all add: takeWhile_eq_all_conv dropWhile_eq_Nil_conv)
  then show "split_whitespace tok = [tok]"
    unfolding tok(1) split_whitespace.simps all using tok(2) by simp
  have sp: "is_whitespace 32" by (simp add: is_whitespace_def)
  have "takeWhile (\<lambda>c. \<not> is_whitespace c) (cs @ 32 # rest) = cs"
    "dropWhile (\<lambda>c. \<not> is_whitespace c) (cs @ 32 # rest) = 32 # rest"
    using tok(3) sp by (simp_all add: takeWhile_tail dropWhile_append3 dropWhile_append1 list_all_iff)
  then show "split_whitespace (tok @ 32 # rest) = tok # split_whitespace rest"
    using tok(1,2) sp by simp
qed

lemma split_display_sequence:
  "list_all printable_chord cs \<Longrightarrow> split_whitespace (display_sequence dbg cs) = map (display_chord dbg) cs"
proof (induction dbg cs rule: display_sequence.induct)
  case (2 dbg c)
  then show ?case using split_whitespace_token(1) display_chord_shape by simp
next
  case (3 dbg c d cs)
  then show ?case using split_whitespace_token(2) [OF display_chord_shape] by simp
qed simp

lemma parse_display_sequence:
  assumes "list_all printable_chord cs" and "cs \<noteq> []"
  shows "parse_sequence (display_sequence dbg cs) = Inr cs"
proof -
  have "parse_tokens (map (display_chord dbg) cs) = Inr cs"
    using assms(1) by (auto simp: parse_tokens_map list_all2_map1 list_all_iff parse_display_chord list.rel_refl_strong)
  then show ?thesis
    using assms by (simp add: parse_sequence_def split_display_sequence split: list.splits)
qed

lemma parse_sequence_printable:
  assumes "parse_sequence s = Inr cs"
  shows "list_all printable_chord cs \<and> cs \<noteq> []"
proof -
  have "parse_tokens (split_whitespace s) = Inr cs" "cs \<noteq> []"
    using assms by (auto simp: parse_sequence_def split: sum.splits list.splits)
  then show ?thesis
    by (auto simp: parse_tokens_map list_all_length list_all2_conv_all_nth dest: parse_chord_printable)
qed

end
