(* ===== verification/Binding_Store.thy ===== *)
theory Binding_Store
  imports Prelude "HOL-Library.Sublist"
begin

text \<open>
  The contract of a store of key bindings: a finite map from key sequences to bindings in which no
  bound sequence extends another, together with the three-way lookup that the dispatcher relies on.
  What the client needs is derived here once, from the laws alone.
\<close>

datatype 'b resolution = Bound 'b | Pending | Unbound

text \<open>No bound sequence is a prefix of \<open>s\<close> or has \<open>s\<close> as a prefix.\<close>

definition conflict_free :: "('k list \<rightharpoonup> 'b) \<Rightarrow> 'k list \<Rightarrow> bool" where
  "conflict_free f s \<longleftrightarrow> (\<forall>t \<in> dom f. \<not> prefix t s \<and> \<not> prefix s t)"

locale binding_store =
  fixes inv :: "'m \<Rightarrow> bool"
    and abs :: "'m \<Rightarrow> 'k list \<rightharpoonup> 'b"
    and look :: "'m \<Rightarrow> 'k list \<Rightarrow> 'b resolution"
    and add :: "'m \<Rightarrow> 'k list \<Rightarrow> 'b \<Rightarrow> 'm option"
    and del :: "'m \<Rightarrow> 'k list \<Rightarrow> ('m \<times> 'b) option"
  assumes look_bound: "inv m \<Longrightarrow> look m s = Bound b \<longleftrightarrow> abs m s = Some b"
    and look_pending: "inv m \<Longrightarrow> look m s = Pending \<longleftrightarrow> s \<noteq> [] \<and> (\<exists>e. e \<noteq> [] \<and> s @ e \<in> dom (abs m))"
    and nil_unbound: "inv m \<Longrightarrow> abs m [] = None"
    and add_some: "inv m \<Longrightarrow> add m s b \<noteq> None \<longleftrightarrow> s \<noteq> [] \<and> conflict_free (abs m) s"
    and add_abs: "inv m \<Longrightarrow> add m s b = Some m' \<Longrightarrow> inv m' \<and> abs m' = (abs m)(s \<mapsto> b)"
    and del_some: "inv m \<Longrightarrow> del m s \<noteq> None \<longleftrightarrow> s \<in> dom (abs m)"
    and del_abs: "inv m \<Longrightarrow> del m s = Some (m', b) \<Longrightarrow> inv m' \<and> abs m s = Some b \<and> abs m' = (abs m)(s := None)"
begin

text \<open>Every proper prefix of a bound sequence is pending, so the dispatcher waits for the rest.\<close>

lemma proper_prefix_pending:
  "inv m \<Longrightarrow> abs m (s @ e) = Some b \<Longrightarrow> s \<noteq> [] \<Longrightarrow> e \<noteq> [] \<Longrightarrow> look m s = Pending"
  by (auto simp: look_pending)

lemma prefix_free:
  assumes "inv m" and "abs m s = Some b" and "abs m (s @ e) = Some b'"
  shows "e = []"
proof (rule ccontr)
  assume "e \<noteq> []"
  moreover have "s \<noteq> []" using assms nil_unbound by force
  ultimately have "look m s = Pending" using assms by (auto simp: look_pending)
  moreover have "look m s = Bound b" using assms by (simp add: look_bound)
  ultimately show False by simp
qed

lemma unbound_no_extension:
  assumes "inv m" and "look m s = Unbound" and "s \<noteq> []"
  shows "s @ e \<notin> dom (abs m)"
proof (cases "e = []")
  case True
  then show ?thesis using assms look_bound [OF assms(1), of s "the (abs m s)"] by auto
next
  case False
  then show ?thesis using assms look_pending [OF assms(1), of s] by auto
qed

text \<open>Binding a sequence and removing it again restores the bindings.\<close>

lemma add_del:
  assumes "inv m" and "add m s b = Some m'"
  shows "\<exists>m''. del m' s = Some (m'', b) \<and> inv m'' \<and> abs m'' = abs m"
proof -
  have m': "inv m'" "abs m' = (abs m)(s \<mapsto> b)" using add_abs [OF assms] by simp_all
  then obtain m'' b' where d: "del m' s = Some (m'', b')"
    using del_some [of m' s] by auto
  have "s \<noteq> []" "conflict_free (abs m) s" using add_some [OF assms(1), of s b] assms(2) by simp_all
  then have "abs m s = None" by (auto simp: conflict_free_def)
  then have "(abs m)(s \<mapsto> b, s := None) = abs m" by auto
  then show ?thesis using del_abs [OF m'(1) d] d m'(2) by auto
qed

text \<open>A bound sequence blocks every conflicting one.\<close>

lemma add_refused:
  "inv m \<Longrightarrow> abs m t = Some b' \<Longrightarrow> prefix t s \<or> prefix s t \<Longrightarrow> add m s b = None"
  using add_some [of m s b] by (auto simp: conflict_free_def)

end

end
