(* ===== verification/Keymap.thy ===== *)
theory Keymap
  imports Key Binding_Store "HOL-Library.AList"
begin

text \<open>
  The keymap trie of \<^verbatim>\<open>src/src/keymap_tree.rs\<close>. A \<^verbatim>\<open>HashMap<Chord, Branch>\<close> is an association list with
  distinct keys, whose order stands for the unspecified iteration order. Messages are rendered with
  the printer parameter \<open>dbg\<close> of the key theory.
\<close>

section \<open>Data\<close>

record source_location =
  src_file :: string
  src_line :: int

record binding =
  command :: string
  bind_source :: source_location

datatype keymap = Keymap (branches: "(chord \<times> branch) list")
  and branch = LeafBranch binding | Submap keymap

datatype keymap_error =
    DuplicateBinding ustring string
  | WouldExtendLeaf ustring string ustring string
  | WouldShadowSubmap ustring string
  | NotBound ustring
  | EmptySequence

section \<open>Operations\<close>

definition keymap_new :: keymap where
  "keymap_new = Keymap []"

definition keymap_is_empty :: "keymap \<Rightarrow> bool" where
  "keymap_is_empty km \<longleftrightarrow> branches km = []"

fun lookup :: "keymap \<Rightarrow> key_sequence \<Rightarrow> binding resolution" where
  "lookup km [] = Unbound"
| "lookup km (head # tail) =
     (case map_of (branches km) head of
        None \<Rightarrow> Unbound
      | Some (LeafBranch b) \<Rightarrow> if tail = [] then Bound b else Unbound
      | Some (Submap sub) \<Rightarrow> if tail = [] then Pending else lookup sub tail)"

text \<open>\<^verbatim>\<open>expect("non-empty checked by caller")\<close> is the outcome \<open>Panic\<close>.\<close>

fun check_bind_path :: "(nat \<Rightarrow> ustring) \<Rightarrow> keymap \<Rightarrow> key_sequence \<Rightarrow> string \<Rightarrow> (keymap_error, unit) outcome" where
  "check_bind_path dbg km [] cmd = Panic"
| "check_bind_path dbg km (head # tail) cmd =
     (case map_of (branches km) head of
        None \<Rightarrow> Ok ()
      | Some (LeafBranch existing) \<Rightarrow>
          if tail = [] then Err (DuplicateBinding (display_sequence dbg (head # tail)) (command existing))
          else Err (WouldExtendLeaf (display_sequence dbg (head # tail)) cmd (display_sequence dbg [head]) (command existing))
      | Some (Submap sub) \<Rightarrow>
          if tail = [] then Err (WouldShadowSubmap (display_sequence dbg (head # tail)) cmd)
          else check_bind_path dbg sub tail cmd)"

fun bind_recursive :: "keymap \<Rightarrow> key_sequence \<Rightarrow> binding \<Rightarrow> keymap option" where
  "bind_recursive km [] b = None"
| "bind_recursive km (head # tail) b =
     (if tail = [] then Some (Keymap (AList.update head (LeafBranch b) (branches km)))
      else (case map_of (branches km) head of
              Some (Submap sub) \<Rightarrow>
                map_option (\<lambda>sub'. Keymap (AList.update head (Submap sub') (branches km))) (bind_recursive sub tail b)
            | None \<Rightarrow>
                map_option (\<lambda>sub'. Keymap (AList.update head (Submap sub') (branches km))) (bind_recursive keymap_new tail b)
            | Some (LeafBranch _) \<Rightarrow> None))"

definition keymap_bind ::
    "(nat \<Rightarrow> ustring) \<Rightarrow> keymap \<Rightarrow> key_sequence \<Rightarrow> string \<Rightarrow> source_location \<Rightarrow> (keymap \<times> (keymap_error + unit)) option" where
  "keymap_bind dbg km seq cmd src =
     (if seq = [] then Some (km, Inl EmptySequence)
      else (case check_bind_path dbg km seq cmd of
              None \<Rightarrow> None
            | Some (Inl e) \<Rightarrow> Some (km, Inl e)
            | Some (Inr _) \<Rightarrow>
                map_option (\<lambda>km'. (km', Inr ())) (bind_recursive km seq \<lparr>command = cmd, bind_source = src\<rparr>)))"

fun unbind_recursive :: "keymap \<Rightarrow> key_sequence \<Rightarrow> (keymap \<times> binding) option" where
  "unbind_recursive km [] = None"
| "unbind_recursive km (head # tail) =
     (if tail = [] then
        (case map_of (branches km) head of
           Some (LeafBranch b) \<Rightarrow> Some (Keymap (AList.delete head (branches km)), b)
         | _ \<Rightarrow> None)
      else (case map_of (branches km) head of
              Some (Submap sub) \<Rightarrow>
                (case unbind_recursive sub tail of
                   None \<Rightarrow> None
                 | Some (sub', b) \<Rightarrow>
                     Some (if keymap_is_empty sub' then Keymap (AList.delete head (branches km))
                           else Keymap (AList.update head (Submap sub') (branches km)), b))
            | _ \<Rightarrow> None))"

definition keymap_unbind :: "(nat \<Rightarrow> ustring) \<Rightarrow> keymap \<Rightarrow> key_sequence \<Rightarrow> keymap \<times> (keymap_error + binding)" where
  "keymap_unbind dbg km seq =
     (if seq = [] then (km, Inl EmptySequence)
      else (case unbind_recursive km seq of
              None \<Rightarrow> (km, Inl (NotBound (display_sequence dbg seq)))
            | Some (km', b) \<Rightarrow> (km', Inr b)))"

fun keymap_len :: "keymap \<Rightarrow> nat" where
  "keymap_len (Keymap bs) =
     sum_list (map (\<lambda>(c, br). case br of LeafBranch b \<Rightarrow> 1 | Submap sub \<Rightarrow> keymap_len sub) bs)"

fun collect_pairs :: "keymap \<Rightarrow> key_sequence \<Rightarrow> (key_sequence \<times> binding) list" where
  "collect_pairs (Keymap bs) pre =
     concat (map (\<lambda>(c, br). case br of LeafBranch b \<Rightarrow> [(pre @ [c], b)] | Submap sub \<Rightarrow> collect_pairs sub (pre @ [c])) bs)"

definition keymap_iter :: "keymap \<Rightarrow> (key_sequence \<times> binding) list" where
  "keymap_iter km = collect_pairs km []"

section \<open>Specification\<close>

text \<open>Keys are distinct at every level and no submap is empty.\<close>

fun wf_keymap :: "keymap \<Rightarrow> bool" where
  "wf_keymap (Keymap bs) \<longleftrightarrow>
     distinct (map fst bs) \<and>
     (\<forall>(c, br) \<in> set bs. case br of LeafBranch b \<Rightarrow> True | Submap sub \<Rightarrow> branches sub \<noteq> [] \<and> wf_keymap sub)"

definition bindings :: "keymap \<Rightarrow> key_sequence \<rightharpoonup> binding" where
  "bindings km seq = (case lookup km seq of Bound b \<Rightarrow> Some b | _ \<Rightarrow> None)"

section \<open>The trie as a map\<close>

lemma wf_keymap_iff:
  "wf_keymap km \<longleftrightarrow> distinct (map fst (branches km)) \<and>
     (\<forall>c sub. map_of (branches km) c = Some (Submap sub) \<longrightarrow> branches sub \<noteq> [] \<and> wf_keymap sub)"
  by (cases km) (fastforce split: branch.splits)

lemma wf_keymap_new [simp]: "wf_keymap keymap_new"
  by (simp add: keymap_new_def wf_keymap.simps)

declare wf_keymap.simps [simp del]

lemma bindings_simps [simp]:
  "bindings km [] = None"
  "bindings km (h # t) =
     (case map_of (branches km) h of
        None \<Rightarrow> None
      | Some (LeafBranch b) \<Rightarrow> if t = [] then Some b else None
      | Some (Submap sub) \<Rightarrow> bindings sub t)"
  by (auto simp: bindings_def split: option.splits branch.splits)

lemma bindings_new [simp]: "bindings keymap_new = Map.empty"
proof
  fix s show "bindings keymap_new s = None" by (cases s) (simp_all add: keymap_new_def)
qed

lemma wf_keymap_inhabited: "wf_keymap km \<Longrightarrow> branches km \<noteq> [] \<Longrightarrow> \<exists>s. s \<in> dom (bindings km)"
proof (induction km rule: measure_induct_rule [of size])
  case (less km)
  then obtain c br rest where bs: "km = Keymap ((c, br) # rest)" by (cases km) (metis keymap.sel list.exhaust prod.exhaust)
  show ?case
  proof (cases br)
    case (LeafBranch b)
    then have "bindings km [c] = Some b" by (simp add: bs)
    then show ?thesis by blast
  next
    case (Submap sub)
    then have "map_of (branches km) c = Some (Submap sub)" by (simp add: bs)
    then have "branches sub \<noteq> []" "wf_keymap sub"
      using less.prems(1) by (auto simp: wf_keymap_iff [of km])
    moreover have "size sub < size km" by (simp add: bs Submap)
    ultimately obtain s b where "bindings sub s = Some b" using less.IH by blast
    then have "bindings km (c # s) = Some b" using Submap by (simp add: bs)
    then show ?thesis by blast
  qed
qed

lemma lookup_bound: "lookup km s = Bound b \<longleftrightarrow> bindings km s = Some b"
  by (auto simp: bindings_def split: resolution.splits)

lemma lookup_pending:
  "wf_keymap km \<Longrightarrow> lookup km s = Pending \<longleftrightarrow> s \<noteq> [] \<and> (\<exists>e. e \<noteq> [] \<and> s @ e \<in> dom (bindings km))"
proof (induction s arbitrary: km)
  case (Cons h t)
  show ?case
  proof (cases "map_of (branches km) h")
    case (Some br)
    show ?thesis
    proof (cases br)
      case (Submap sub)
      then have sub: "branches sub \<noteq> []" "wf_keymap sub"
        using Cons.prems Some by (auto simp: wf_keymap_iff [of km])
      show ?thesis
      proof (cases "t = []")
        case True
        obtain e b where "bindings sub e = Some b" using wf_keymap_inhabited sub by blast
        moreover from this have "e \<noteq> []" by auto
        ultimately show ?thesis using True Some Submap by (auto simp: dom_def)
      next
        case False
        then show ?thesis using Cons.IH [OF sub(2)] Some Submap by (simp add: dom_def)
      qed
    qed (use Some in \<open>simp add: dom_def\<close>)
  qed (simp add: dom_def)
qed simp

section \<open>Binding\<close>

lemma conflict_free_Cons:
  assumes "f [] = None"
  shows "conflict_free f (h # t) \<longleftrightarrow> (\<forall>u. f (h # u) \<noteq> None \<longrightarrow> \<not> prefix u t \<and> \<not> prefix t u)"
proof
  assume r: "\<forall>u. f (h # u) \<noteq> None \<longrightarrow> \<not> prefix u t \<and> \<not> prefix t u"
  have "\<not> prefix v (h # t) \<and> \<not> prefix (h # t) v" if "f v \<noteq> None" for v
    using that r assms by (cases v) auto
  then show "conflict_free f (h # t)" by (auto simp: conflict_free_def)
next
  assume "conflict_free f (h # t)"
  then have "\<not> prefix (h # u) (h # t) \<and> \<not> prefix (h # t) (h # u)" if "f (h # u) \<noteq> None" for u
    using that unfolding conflict_free_def by (metis domI not_None_eq)
  then show "\<forall>u. f (h # u) \<noteq> None \<longrightarrow> \<not> prefix u t \<and> \<not> prefix t u" by simp
qed

lemma check_bind_path_ok:
  "wf_keymap km \<Longrightarrow> s \<noteq> [] \<Longrightarrow> check_bind_path dbg km s cmd = Ok () \<longleftrightarrow> conflict_free (bindings km) s"
proof (induction s arbitrary: km)
  case (Cons h t)
  have Nil: "conflict_free (bindings km) (h # t) \<longleftrightarrow>
      (\<forall>u. bindings km (h # u) \<noteq> None \<longrightarrow> \<not> prefix u t \<and> \<not> prefix t u)"
    by (rule conflict_free_Cons) simp
  show ?case
  proof (cases "map_of (branches km) h")
    case None
    then show ?thesis by (simp add: Nil)
  next
    case (Some br)
    show ?thesis
    proof (cases br)
      case (LeafBranch b)
      then show ?thesis using Some by (auto simp: Nil)
    next
      case (Submap sub)
      then have sub: "branches sub \<noteq> []" "wf_keymap sub"
        using Cons.prems Some by (auto simp: wf_keymap_iff [of km])
      have cf: "conflict_free (bindings km) (h # t) \<longleftrightarrow> conflict_free (bindings sub) t"
        unfolding Nil using Some Submap by (auto simp: conflict_free_def dom_def)
      show ?thesis
      proof (cases "t = []")
        case True
        obtain e where "e \<in> dom (bindings sub)" using wf_keymap_inhabited sub by blast
        then have "\<not> conflict_free (bindings sub) []" by (auto simp: conflict_free_def)
        then show ?thesis using True Some Submap cf by simp
      next
        case False
        then show ?thesis using Cons.IH [OF sub(2) False] Some Submap cf by simp
      qed
    qed
  qed
qed simp

lemma check_bind_path_no_panic: "s \<noteq> [] \<Longrightarrow> check_bind_path dbg km s cmd \<noteq> Panic"
  by (induction dbg km s cmd rule: check_bind_path.induct) (auto split: option.splits branch.splits)

lemma wf_keymap_update:
  "wf_keymap km \<Longrightarrow> (\<And>sub. br = Submap sub \<Longrightarrow> branches sub \<noteq> [] \<and> wf_keymap sub) \<Longrightarrow>
   wf_keymap (Keymap (AList.update h br (branches km)))"
  unfolding wf_keymap_iff [of km] wf_keymap_iff [of "Keymap _"]
  by (auto simp: update_conv' distinct_update)

lemma wf_keymap_delete: "wf_keymap km \<Longrightarrow> wf_keymap (Keymap (AList.delete h (branches km)))"
  unfolding wf_keymap_iff [of km] wf_keymap_iff [of "Keymap _"]
  by (auto simp: delete_conv' distinct_delete split: if_splits)

lemma update_nonempty: "AList.update h br xs \<noteq> []"
  by (cases xs) (auto split: prod.splits)

lemma bindings_update:
  "bindings (Keymap (AList.update h br (branches km))) =
     (\<lambda>s. case s of
        [] \<Rightarrow> None
      | h' # t \<Rightarrow>
          if h' = h then (case br of LeafBranch b \<Rightarrow> if t = [] then Some b else None | Submap sub \<Rightarrow> bindings sub t)
          else bindings km s)"
  by (rule ext) (auto simp: update_conv' split: list.splits branch.splits)

lemma bindings_delete:
  "bindings (Keymap (AList.delete h (branches km))) =
     (\<lambda>s. case s of [] \<Rightarrow> None | h' # t \<Rightarrow> if h' = h then None else bindings km s)"
  by (rule ext) (auto simp: delete_conv' split: list.splits branch.splits)

lemma bind_recursive_correct:
  "wf_keymap km \<Longrightarrow> s \<noteq> [] \<Longrightarrow> conflict_free (bindings km) s \<Longrightarrow>
   \<exists>km'. bind_recursive km s b = Some km' \<and> wf_keymap km' \<and> branches km' \<noteq> [] \<and> bindings km' = (bindings km)(s \<mapsto> b)"
proof (induction s arbitrary: km)
  case (Cons h t)
  have cf: "\<not> prefix u t \<and> \<not> prefix t u" if "bindings km (h # u) = Some x" for u x
    using Cons.prems(3) that by (auto simp: conflict_free_def dom_def simp del: bindings_simps(2))
  show ?case
  proof (cases "t = []")
    case True
    then have "bindings km (h # u) = None" for u using cf [of u] by fastforce
    then have "bindings (Keymap (AList.update h (LeafBranch b) (branches km))) = (bindings km)([h] \<mapsto> b)"
      unfolding bindings_update by (auto simp: fun_eq_iff simp del: bindings_simps(2) split: list.splits)
    then show ?thesis
      using True wf_keymap_update [OF Cons.prems(1), of "LeafBranch b" h]
      by (simp add: update_nonempty del: fun_upd_apply)
  next
    case False
    have "\<exists>sub. wf_keymap sub \<and> bindings sub = (\<lambda>u. bindings km (h # u)) \<and>
        bind_recursive km (h # t) b = map_option (\<lambda>sub'. Keymap (AList.update h (Submap sub') (branches km))) (bind_recursive sub t b)"
    proof (cases "map_of (branches km) h")
      case None
      then show ?thesis using False by (intro exI [of _ keymap_new]) (auto simp: fun_eq_iff)
    next
      case (Some br)
      then obtain sub where "br = Submap sub"
        using cf [of "[]"] False by (cases br) auto
      then show ?thesis
        using Some False Cons.prems(1) by (intro exI [of _ sub]) (auto simp: wf_keymap_iff [of km] fun_eq_iff)
    qed
    then obtain sub where sub: "wf_keymap sub" "bindings sub = (\<lambda>u. bindings km (h # u))"
      "bind_recursive km (h # t) b = map_option (\<lambda>sub'. Keymap (AList.update h (Submap sub') (branches km))) (bind_recursive sub t b)"
      by blast
    have "conflict_free (bindings sub) t"
      using cf by (auto simp: conflict_free_def sub(2) simp del: bindings_simps(2))
    then obtain sub' where sub': "bind_recursive sub t b = Some sub'" "wf_keymap sub'" "branches sub' \<noteq> []"
      "bindings sub' = (bindings sub)(t \<mapsto> b)"
      using Cons.IH [OF sub(1) False] by blast
    let ?km' = "Keymap (AList.update h (Submap sub') (branches km))"
    have "bindings ?km' = (bindings km)(h # t \<mapsto> b)"
      by (auto simp: bindings_update sub'(4) sub(2) fun_eq_iff simp del: bindings_simps(2) split: list.splits)
    then show ?thesis
      using sub(3) sub' wf_keymap_update [OF Cons.prems(1), of "Submap sub'" h]
      by (simp add: update_nonempty del: fun_upd_apply)
  qed
qed simp

section \<open>Unbinding\<close>

lemma unbind_recursive_none: "unbind_recursive km s = None \<longleftrightarrow> s \<notin> dom (bindings km)"
  by (induction km s rule: unbind_recursive.induct) (auto split: option.splits branch.splits)

lemma unbind_recursive_correct:
  "wf_keymap km \<Longrightarrow> unbind_recursive km s = Some (km', b) \<Longrightarrow>
   wf_keymap km' \<and> bindings km s = Some b \<and> bindings km' = (bindings km)(s := None)"
proof (induction s arbitrary: km km')
  case (Cons h t)
  show ?case
  proof (cases "t = []")
    case True
    then have leaf: "map_of (branches km) h = Some (LeafBranch b)" "km' = Keymap (AList.delete h (branches km))"
      using Cons.prems(2) by (auto split: option.splits branch.splits)
    then have "bindings km' = (bindings km)([h] := None)"
      unfolding leaf(2) bindings_delete by (auto simp: fun_eq_iff leaf(1) split: list.splits)
    then show ?thesis
      using True leaf wf_keymap_delete [OF Cons.prems(1)] by simp
  next
    case False
    then obtain sub sub' where sub: "map_of (branches km) h = Some (Submap sub)" "unbind_recursive sub t = Some (sub', b)"
      "km' = (if keymap_is_empty sub' then Keymap (AList.delete h (branches km))
              else Keymap (AList.update h (Submap sub') (branches km)))"
      using Cons.prems(2) by (auto split: option.splits branch.splits)
    have IH: "wf_keymap sub'" "bindings sub t = Some b" "bindings sub' = (bindings sub)(t := None)"
      using Cons.IH [OF _ sub(2)] Cons.prems(1) sub(1) by (auto simp: wf_keymap_iff [of km])
    have empty: "bindings sub' = Map.empty" if "branches sub' = []"
      using that by (cases sub') (simp flip: keymap_new_def)
    have "bindings km' = (bindings km)(h # t := None)"
    proof (cases "keymap_is_empty sub'")
      case True
      then have "(bindings sub)(t := None) = Map.empty" using IH(3) empty by (simp add: keymap_is_empty_def)
      then have "bindings sub u = None" if "u \<noteq> t" for u using that by (metis fun_upd_apply)
      then show ?thesis
        using True sub(1) unfolding sub(3) by (auto simp: bindings_delete fun_eq_iff split: list.splits)
    next
      case False
      then show ?thesis
        using sub(1) IH(3) unfolding sub(3) by (auto simp: bindings_update fun_eq_iff split: list.splits)
    qed
    moreover have "wf_keymap km'"
      using Cons.prems(1) IH(1) unfolding sub(3)
      by (auto simp: wf_keymap_delete keymap_is_empty_def intro!: wf_keymap_update)
    ultimately show ?thesis using IH(2) sub(1) False by simp
  qed
qed simp

section \<open>The trie implements the contract\<close>

text \<open>Binding and unbinding as the contract sees them: \<open>None\<close> for an error, which leaves the map as it was.\<close>

definition keymap_add :: "keymap \<Rightarrow> key_sequence \<Rightarrow> binding \<Rightarrow> keymap option" where
  "keymap_add km s b =
     (case keymap_bind (\<lambda>_. []) km s (command b) (bind_source b) of
        Some (km', Inr _) \<Rightarrow> Some km'
      | _ \<Rightarrow> None)"

definition keymap_del :: "keymap \<Rightarrow> key_sequence \<Rightarrow> (keymap \<times> binding) option" where
  "keymap_del km s = (case keymap_unbind (\<lambda>_. []) km s of (km', Inr b) \<Rightarrow> Some (km', b) | _ \<Rightarrow> None)"

lemma keymap_bind_cases:
  assumes "wf_keymap km"
  shows "s \<noteq> [] \<and> conflict_free (bindings km) s \<Longrightarrow>
      \<exists>km'. keymap_bind dbg km s cmd src = Some (km', Inr ()) \<and> wf_keymap km' \<and>
            bindings km' = (bindings km)(s \<mapsto> \<lparr>command = cmd, bind_source = src\<rparr>)"
    and "\<not> (s \<noteq> [] \<and> conflict_free (bindings km) s) \<Longrightarrow> \<exists>e. keymap_bind dbg km s cmd src = Some (km, Inl e)"
proof -
  assume ok: "s \<noteq> [] \<and> conflict_free (bindings km) s"
  then show "\<exists>km'. keymap_bind dbg km s cmd src = Some (km', Inr ()) \<and> wf_keymap km' \<and>
            bindings km' = (bindings km)(s \<mapsto> \<lparr>command = cmd, bind_source = src\<rparr>)"
    using check_bind_path_ok [OF assms, of s dbg cmd] bind_recursive_correct [OF assms]
    by (fastforce simp: keymap_bind_def)
next
  assume bad: "\<not> (s \<noteq> [] \<and> conflict_free (bindings km) s)"
  show "\<exists>e. keymap_bind dbg km s cmd src = Some (km, Inl e)"
  proof (cases "s = []")
    case False
    then obtain e where "check_bind_path dbg km s cmd = Err e"
      using bad check_bind_path_ok [OF assms, of s dbg cmd] check_bind_path_no_panic [of s dbg km cmd]
      by (metis (full_types) not_None_eq old.unit.exhaust sum.exhaust)
    then show ?thesis using False by (simp add: keymap_bind_def)
  qed (simp add: keymap_bind_def)
qed

interpretation km: binding_store wf_keymap bindings lookup keymap_add keymap_del
proof
  fix m s b m'
  assume inv: "wf_keymap m"
  show "lookup m s = Bound b \<longleftrightarrow> bindings m s = Some b" by (rule lookup_bound)
  show "lookup m s = Pending \<longleftrightarrow> s \<noteq> [] \<and> (\<exists>e. e \<noteq> [] \<and> s @ e \<in> dom (bindings m))" by (rule lookup_pending [OF inv])
  show "bindings m [] = None" by simp
  show "keymap_add m s b \<noteq> None \<longleftrightarrow> s \<noteq> [] \<and> conflict_free (bindings m) s"
    using keymap_bind_cases [OF inv, of s "\<lambda>_. []" "command b" "bind_source b"]
    by (cases "s \<noteq> [] \<and> conflict_free (bindings m) s") (fastforce simp: keymap_add_def)+
  show "keymap_del m s \<noteq> None \<longleftrightarrow> s \<in> dom (bindings m)"
    using unbind_recursive_none [of m s]
    by (cases "s = []") (auto simp: keymap_del_def keymap_unbind_def split: option.splits prod.splits)
next
  fix m s b m'
  assume inv: "wf_keymap m" and add: "keymap_add m s b = Some m'"
  show "wf_keymap m' \<and> bindings m' = (bindings m)(s \<mapsto> b)"
  proof (cases "s \<noteq> [] \<and> conflict_free (bindings m) s")
    case True
    then show ?thesis
      using keymap_bind_cases(1) [OF inv True, of "\<lambda>_. []" "command b" "bind_source b"] add
      by (auto simp: keymap_add_def)
  next
    case False
    then show ?thesis
      using keymap_bind_cases(2) [OF inv False, of "\<lambda>_. []" "command b" "bind_source b"] add
      by (auto simp: keymap_add_def)
  qed
next
  fix m s m' b
  assume "wf_keymap m" and "keymap_del m s = Some (m', b)"
  then show "wf_keymap m' \<and> bindings m s = Some b \<and> bindings m' = (bindings m)(s := None)"
    using unbind_recursive_correct [of m s m' b]
    by (auto simp: keymap_del_def keymap_unbind_def split: if_splits option.splits prod.splits)
qed

section \<open>Enumeration\<close>

lemma map_of_wf: "wf_keymap km \<Longrightarrow> (c, br) \<in> set (branches km) \<longleftrightarrow> map_of (branches km) c = Some br"
  by (simp add: wf_keymap_iff [of km])

lemma collect_pairs_set:
  "wf_keymap km \<Longrightarrow> (s, b) \<in> set (collect_pairs km pre) \<longleftrightarrow> (\<exists>t. s = pre @ t \<and> bindings km t = Some b)"
proof (induction km pre arbitrary: s rule: collect_pairs.induct)
  case (1 bs pre)
  define km where "km = Keymap bs"
  have wf: "wf_keymap km" using 1(2) by (simp add: km_def)
  have IH: "(u, b) \<in> set (collect_pairs sub (pre @ [c])) \<longleftrightarrow> (\<exists>t. u = (pre @ [c]) @ t \<and> bindings sub t = Some b)"
    if "(c, Submap sub) \<in> set bs" for c sub u
    using 1(1) [OF that refl refl] 1(2) that by (auto simp: wf_keymap.simps)
  define g where "g = (\<lambda>(c, br). case br of LeafBranch b \<Rightarrow> [(pre @ [c], b)] | Submap sub \<Rightarrow> collect_pairs sub (pre @ [c]))"
  have g: "(s, b) \<in> set (g (c, br)) \<longleftrightarrow> (case br of
      LeafBranch b' \<Rightarrow> (s, b) = (pre @ [c], b') | Submap sub \<Rightarrow> \<exists>t. s = pre @ c # t \<and> bindings sub t = Some b)"
    if "(c, br) \<in> set bs" for c br
    using IH that by (cases br) (auto simp: g_def)
  have "collect_pairs km pre = concat (map g bs)" by (simp add: km_def g_def)
  then have "(s, b) \<in> set (collect_pairs km pre) \<longleftrightarrow> (\<exists>p \<in> set bs. (s, b) \<in> set (g p))" by simp
  also have "\<dots> \<longleftrightarrow> (\<exists>(c, br) \<in> set bs. case br of
      LeafBranch b' \<Rightarrow> (s, b) = (pre @ [c], b') | Submap sub \<Rightarrow> \<exists>t. s = pre @ c # t \<and> bindings sub t = Some b)"
    by (rule bex_cong [OF refl]) (simp only: g split_paired_all prod.case)
  also have "\<dots> \<longleftrightarrow> (\<exists>t. s = pre @ t \<and> bindings km t = Some b)"
  proof
    assume "\<exists>(c, br) \<in> set bs. case br of
      LeafBranch b' \<Rightarrow> (s, b) = (pre @ [c], b') | Submap sub \<Rightarrow> \<exists>t. s = pre @ c # t \<and> bindings sub t = Some b"
    then obtain c br where c: "map_of bs c = Some br"
      "case br of LeafBranch b' \<Rightarrow> (s, b) = (pre @ [c], b') | Submap sub \<Rightarrow> \<exists>t. s = pre @ c # t \<and> bindings sub t = Some b"
      using map_of_wf [OF wf] by (auto simp: km_def)
    show "\<exists>t. s = pre @ t \<and> bindings km t = Some b"
    proof (cases br)
      case (LeafBranch b')
      then show ?thesis using c by (intro exI [of _ "[c]"]) (simp add: km_def)
    next
      case (Submap sub)
      then obtain t where "s = pre @ c # t" "bindings sub t = Some b" using c(2) by auto
      then show ?thesis using c(1) Submap by (intro exI [of _ "c # t"]) (simp add: km_def)
    qed
  next
    assume "\<exists>t. s = pre @ t \<and> bindings km t = Some b"
    then obtain c u where t: "s = pre @ c # u" "bindings km (c # u) = Some b"
      by (metis bindings_simps(1) list.exhaust option.distinct(1))
    then obtain br where br: "(c, br) \<in> set bs" "map_of bs c = Some br"
      using map_of_wf [OF wf] by (auto simp: km_def split: option.splits)
    show "\<exists>(c, br) \<in> set bs. case br of
      LeafBranch b' \<Rightarrow> (s, b) = (pre @ [c], b') | Submap sub \<Rightarrow> \<exists>t. s = pre @ c # t \<and> bindings sub t = Some b"
      using t br by (intro bexI [of _ "(c, br)"]) (auto simp: km_def split: branch.splits if_splits)
  qed
  finally show ?case by (simp add: km_def)
qed

lemma keymap_len_collect: "keymap_len km = length (collect_pairs km pre)"
proof (induction km pre rule: collect_pairs.induct)
  case (1 bs pre)
  have "map (\<lambda>(c, br). case br of LeafBranch b \<Rightarrow> 1 | Submap sub \<Rightarrow> keymap_len sub) bs =
      map (length \<circ> (\<lambda>(c, br). case br of LeafBranch b \<Rightarrow> [(pre @ [c], b)] | Submap sub \<Rightarrow> collect_pairs sub (pre @ [c]))) bs"
    using 1 by (intro map_cong) (auto split: branch.splits)
  then show ?case unfolding keymap_len.simps collect_pairs.simps length_concat map_map by (rule arg_cong)
qed

lemma collect_pairs_prefix: "(s, b) \<in> set (collect_pairs km pre) \<Longrightarrow> \<exists>t. s = pre @ t \<and> t \<noteq> []"
proof (induction km pre rule: collect_pairs.induct)
  case (1 bs pre)
  then obtain c br where "(c, br) \<in> set bs"
    "(s, b) \<in> set (case br of LeafBranch b \<Rightarrow> [(pre @ [c], b)] | Submap sub \<Rightarrow> collect_pairs sub (pre @ [c]))"
    by auto
  then show ?case using 1(1) [of "(c, br)" c br] by (cases br) fastforce+
qed

lemma collect_pairs_distinct: "wf_keymap km \<Longrightarrow> distinct (map fst (collect_pairs km pre))"
proof (induction km pre rule: collect_pairs.induct)
  case (1 bs pre)
  define g where "g = (\<lambda>(c, br). case br of LeafBranch b \<Rightarrow> [(pre @ [c], b)] | Submap sub \<Rightarrow> collect_pairs sub (pre @ [c]))"
  have head: "\<exists>t. s = pre @ c # t" if "s \<in> fst ` set (g (c, br))" for s c br
    using that collect_pairs_prefix [of s _ _ "pre @ [c]"] by (cases br) (force simp: g_def)+
  have each: "distinct (map fst (g p))" if "p \<in> set bs" for p
    using that 1 by (auto simp: wf_keymap.simps g_def split: branch.splits)
  have "distinct (map fst (concat (map g cs)))" if "distinct (map fst cs)" "set cs \<subseteq> set bs" for cs
    using that
  proof (induction cs)
    case (Cons p cs)
    obtain c br where p: "p = (c, br)" by (cases p)
    have "s \<notin> fst ` set (g q)" if "s \<in> fst ` set (g p)" "q \<in> set cs" for s q
    proof
      assume "s \<in> fst ` set (g q)"
      then have "fst q = c" using head [of s c br] head [of s "fst q" "snd q"] that(1) by (auto simp: p)
      then show False using Cons.prems(1) that(2) by (auto simp: p)
    qed
    then have "set (map fst (g p)) \<inter> set (map fst (concat (map g cs))) = {}"
      unfolding disjoint_iff set_map set_concat image_UN by blast
    then show ?case using Cons each [of p] by simp
  qed simp
  then show ?case using 1(2) by (simp add: wf_keymap.simps g_def)
qed

end
