(* ===== verification/Keymap_Stack.thy ===== *)
theory Keymap_Stack
  imports Keymap
begin

text \<open>
  Scoped keymaps and the multi-key dispatcher, \<^verbatim>\<open>src/src/keymap_stack.rs\<close>. The map from buffers to
  keymaps is an association list with distinct keys, the list of mode keymaps is the \<^verbatim>\<open>Vec\<close> of the source.
\<close>

section \<open>Data\<close>

datatype scope = BufferScope nat | ModeScope string | GlobalScope

definition scope_render :: "scope \<Rightarrow> string" where
  "scope_render sc =
     (case sc of BufferScope _ \<Rightarrow> ''buffer'' | ModeScope name \<Rightarrow> ''mode:'' @ name | GlobalScope \<Rightarrow> ''global'')"

record resolved_binding =
  res_binding :: binding
  res_scope :: scope

datatype stack_resolution = StackBound resolved_binding | StackPending | StackUnbound

record keymap_stack =
  global_map :: keymap
  modes :: "(string \<times> keymap) list"
  buffers :: "(nat \<times> keymap) list"

definition stack_new :: keymap_stack where
  "stack_new = \<lparr>global_map = keymap_new, modes = [], buffers = []\<rparr>"

section \<open>Binding into a scope\<close>

definition bind_global ::
    "(nat \<Rightarrow> ustring) \<Rightarrow> key_sequence \<Rightarrow> string \<Rightarrow> source_location \<Rightarrow> keymap_stack \<Rightarrow> (keymap_stack \<times> (keymap_error + unit)) option" where
  "bind_global dbg seq cmd src st =
     map_option (\<lambda>(km, r). (st\<lparr>global_map := km\<rparr>, r)) (keymap_bind dbg (global_map st) seq cmd src)"

text \<open>\<^verbatim>\<open>entry(buffer).or_default()\<close> creates the map even when the bind then fails.\<close>

definition bind_buffer ::
    "(nat \<Rightarrow> ustring) \<Rightarrow> nat \<Rightarrow> key_sequence \<Rightarrow> string \<Rightarrow> source_location \<Rightarrow> keymap_stack \<Rightarrow> (keymap_stack \<times> (keymap_error + unit)) option" where
  "bind_buffer dbg buf seq cmd src st =
     (let km = (case map_of (buffers st) buf of Some km \<Rightarrow> km | None \<Rightarrow> keymap_new)
      in map_option (\<lambda>(km', r). (st\<lparr>buffers := AList.update buf km' (buffers st)\<rparr>, r)) (keymap_bind dbg km seq cmd src))"

definition bind_mode ::
    "(nat \<Rightarrow> ustring) \<Rightarrow> string \<Rightarrow> key_sequence \<Rightarrow> string \<Rightarrow> source_location \<Rightarrow> keymap_stack \<Rightarrow> (keymap_stack \<times> (keymap_error + unit)) option" where
  "bind_mode dbg mode seq cmd src st =
     (let ms = (if mode \<in> set (map fst (modes st)) then modes st else modes st @ [(mode, keymap_new)])
      in case map_of ms mode of
           None \<Rightarrow> None
         | Some km \<Rightarrow> map_option (\<lambda>(km', r). (st\<lparr>modes := AList.update mode km' ms\<rparr>, r)) (keymap_bind dbg km seq cmd src))"

definition unbind_global ::
    "(nat \<Rightarrow> ustring) \<Rightarrow> key_sequence \<Rightarrow> keymap_stack \<Rightarrow> keymap_stack \<times> (keymap_error + binding)" where
  "unbind_global dbg seq st =
     (case keymap_unbind dbg (global_map st) seq of (km, r) \<Rightarrow> (st\<lparr>global_map := km\<rparr>, r))"

definition unbind_buffer ::
    "(nat \<Rightarrow> ustring) \<Rightarrow> nat \<Rightarrow> key_sequence \<Rightarrow> keymap_stack \<Rightarrow> keymap_stack \<times> (keymap_error + binding)" where
  "unbind_buffer dbg buf seq st =
     (case map_of (buffers st) buf of
        None \<Rightarrow> (st, Inl (NotBound (display_sequence dbg seq)))
      | Some km \<Rightarrow>
          (case keymap_unbind dbg km seq of
             (_, Inl e) \<Rightarrow> (st, Inl e)
           | (km', Inr b) \<Rightarrow>
               (st\<lparr>buffers := (if keymap_is_empty km' then AList.delete buf (buffers st)
                              else AList.update buf km' (buffers st))\<rparr>, Inr b)))"

definition remove_buffer :: "nat \<Rightarrow> keymap_stack \<Rightarrow> keymap_stack \<times> bool" where
  "remove_buffer buf st = (st\<lparr>buffers := AList.delete buf (buffers st)\<rparr>, map_of (buffers st) buf \<noteq> None)"

definition unbind_mode ::
    "(nat \<Rightarrow> ustring) \<Rightarrow> string \<Rightarrow> key_sequence \<Rightarrow> keymap_stack \<Rightarrow> keymap_stack \<times> (keymap_error + binding)" where
  "unbind_mode dbg mode seq st =
     (case map_of (modes st) mode of
        None \<Rightarrow> (st, Inl (NotBound (display_sequence dbg seq)))
      | Some km \<Rightarrow>
          (case keymap_unbind dbg km seq of
             (_, Inl e) \<Rightarrow> (st, Inl e)
           | (km', Inr b) \<Rightarrow>
               (st\<lparr>modes := (if keymap_is_empty km' then AList.delete mode (modes st)
                            else AList.update mode km' (modes st))\<rparr>, Inr b)))"

section \<open>Resolution\<close>

text \<open>The loop over the active modes: the first complete binding, and whether a prefix was seen.\<close>

fun resolve_modes :: "keymap_stack \<Rightarrow> key_sequence \<Rightarrow> string list \<Rightarrow> bool \<Rightarrow> resolved_binding option \<times> bool" where
  "resolve_modes st seq [] any_pending = (None, any_pending)"
| "resolve_modes st seq (m # ms) any_pending =
     (case map_of (modes st) m of
        None \<Rightarrow> resolve_modes st seq ms any_pending
      | Some km \<Rightarrow>
          (case lookup km seq of
             Bound b \<Rightarrow> (Some \<lparr>res_binding = b, res_scope = ModeScope m\<rparr>, any_pending)
           | Pending \<Rightarrow> resolve_modes st seq ms True
           | Unbound \<Rightarrow> resolve_modes st seq ms any_pending))"

definition resolve_rest :: "keymap_stack \<Rightarrow> key_sequence \<Rightarrow> string list \<Rightarrow> bool \<Rightarrow> stack_resolution" where
  "resolve_rest st seq active_modes any_pending =
     (case resolve_modes st seq active_modes any_pending of
        (Some rb, _) \<Rightarrow> StackBound rb
      | (None, pend) \<Rightarrow>
          (case lookup (global_map st) seq of
             Bound b \<Rightarrow> StackBound \<lparr>res_binding = b, res_scope = GlobalScope\<rparr>
           | Pending \<Rightarrow> StackPending
           | Unbound \<Rightarrow> if pend then StackPending else StackUnbound))"

definition resolve :: "keymap_stack \<Rightarrow> key_sequence \<Rightarrow> nat option \<Rightarrow> string list \<Rightarrow> stack_resolution" where
  "resolve st seq active_buffer active_modes =
     (case Option.bind active_buffer (\<lambda>i. map_option (\<lambda>km. (i, km)) (map_of (buffers st) i)) of
        None \<Rightarrow> resolve_rest st seq active_modes False
      | Some (i, km) \<Rightarrow>
          (case lookup km seq of
             Bound b \<Rightarrow> StackBound \<lparr>res_binding = b, res_scope = BufferScope i\<rparr>
           | Pending \<Rightarrow> resolve_rest st seq active_modes True
           | Unbound \<Rightarrow> resolve_rest st seq active_modes False))"

definition iter_all :: "keymap_stack \<Rightarrow> (scope \<times> key_sequence \<times> binding) list" where
  "iter_all st =
     concat (map (\<lambda>(i, km). map (\<lambda>(s, b). (BufferScope i, s, b)) (keymap_iter km)) (buffers st)) @
     concat (map (\<lambda>(n, km). map (\<lambda>(s, b). (ModeScope n, s, b)) (keymap_iter km)) (modes st)) @
     map (\<lambda>(s, b). (GlobalScope, s, b)) (keymap_iter (global_map st))"

section \<open>The dispatcher\<close>

datatype action =
    Run string key_sequence scope
  | PendingKeys key_sequence
  | UnboundKeys key_sequence

record key_dispatcher =
  pending :: key_sequence

definition dispatcher_new :: key_dispatcher where
  "dispatcher_new = \<lparr>pending = []\<rparr>"

definition dispatcher_reset :: "key_dispatcher \<Rightarrow> key_dispatcher" where
  "dispatcher_reset d = d\<lparr>pending := []\<rparr>"

definition lowercase_last :: "key_sequence \<Rightarrow> key_sequence option" where
  "lowercase_last seq =
     (if seq = [] then None
      else (case code (last seq) of
              CharKey ch \<Rightarrow>
                if is_ascii_uppercase ch
                then Some (butlast seq @ [chord_new (CharKey (to_ascii_lowercase ch)) (modifiers (last seq))])
                else None
            | _ \<Rightarrow> None))"

definition dispatch ::
    "chord \<Rightarrow> keymap_stack \<Rightarrow> nat option \<Rightarrow> string list \<Rightarrow> key_dispatcher \<Rightarrow> key_dispatcher \<times> action" where
  "dispatch c st active_buffer active_modes d =
     (let seq = pending d @ [c]
      in case resolve st seq active_buffer active_modes of
           StackBound rb \<Rightarrow> (d\<lparr>pending := []\<rparr>, Run (command (res_binding rb)) seq (res_scope rb))
         | StackPending \<Rightarrow> (d\<lparr>pending := seq\<rparr>, PendingKeys seq)
         | StackUnbound \<Rightarrow>
             (case (if 1 < length seq then lowercase_last seq else None) of
                Some lowered \<Rightarrow>
                  (case resolve st lowered active_buffer active_modes of
                     StackBound rb \<Rightarrow> (d\<lparr>pending := []\<rparr>, Run (command (res_binding rb)) lowered (res_scope rb))
                   | _ \<Rightarrow> (d\<lparr>pending := []\<rparr>, UnboundKeys seq))
              | None \<Rightarrow> (d\<lparr>pending := []\<rparr>, UnboundKeys seq)))"

fun dispatch_all ::
    "chord list \<Rightarrow> keymap_stack \<Rightarrow> nat option \<Rightarrow> string list \<Rightarrow> key_dispatcher \<Rightarrow> key_dispatcher \<times> action list" where
  "dispatch_all [] st ab am d = (d, [])"
| "dispatch_all (c # cs) st ab am d =
     (case dispatch c st ab am d of
        (d', a) \<Rightarrow> (case dispatch_all cs st ab am d' of (d'', as) \<Rightarrow> (d'', a # as)))"

section \<open>Well-formed stacks\<close>

definition maps_wf :: "('k \<times> keymap) list \<Rightarrow> bool" where
  "maps_wf xs \<longleftrightarrow> distinct (map fst xs) \<and> (\<forall>(k, km) \<in> set xs. wf_keymap km)"

definition stack_wf :: "keymap_stack \<Rightarrow> bool" where
  "stack_wf st \<longleftrightarrow> wf_keymap (global_map st) \<and> maps_wf (modes st) \<and> maps_wf (buffers st)"

lemma maps_wf_map_of: "maps_wf xs \<Longrightarrow> map_of xs k = Some km \<Longrightarrow> wf_keymap km"
  by (auto simp: maps_wf_def dest: map_of_SomeD)

lemma maps_wf_update:
  assumes "maps_wf xs" and "wf_keymap km"
  shows "maps_wf (AList.update k km xs)"
proof -
  have d: "distinct (map fst (AList.update k km xs))" using assms(1) by (simp add: maps_wf_def distinct_update)
  have "wf_keymap km'" if "(k', km') \<in> set (AList.update k km xs)" for k' km'
  proof -
    have "map_of (AList.update k km xs) k' = Some km'" using that d by simp
    then show ?thesis using assms maps_wf_map_of [OF assms(1)] by (auto simp: update_conv' split: if_splits)
  qed
  with d show ?thesis by (auto simp: maps_wf_def)
qed

lemma maps_wf_delete:
  assumes "maps_wf xs"
  shows "maps_wf (AList.delete k xs)"
proof -
  have d: "distinct (map fst (AList.delete k xs))" using assms by (simp add: maps_wf_def distinct_delete)
  have "wf_keymap km'" if "(k', km') \<in> set (AList.delete k xs)" for k' km'
  proof -
    have "map_of (AList.delete k xs) k' = Some km'" using that d by simp
    then show ?thesis using maps_wf_map_of [OF assms] by (auto simp: delete_conv' split: if_splits)
  qed
  with d show ?thesis by (auto simp: maps_wf_def)
qed

lemma stack_wf_new: "stack_wf stack_new"
  by (simp add: stack_wf_def stack_new_def maps_wf_def)

lemma keymap_bind_wf: "keymap_bind dbg km seq cmd src = Some (km', r) \<Longrightarrow> wf_keymap km \<Longrightarrow> wf_keymap km'"
  using keymap_bind_cases [of km seq dbg cmd src] by (cases "seq \<noteq> [] \<and> conflict_free (bindings km) seq") auto

lemma keymap_bind_no_panic: "wf_keymap km \<Longrightarrow> keymap_bind dbg km seq cmd src \<noteq> None"
  using keymap_bind_cases [of km seq dbg cmd src] by (cases "seq \<noteq> [] \<and> conflict_free (bindings km) seq") auto

lemma keymap_unbind_wf: "keymap_unbind dbg km seq = (km', r) \<Longrightarrow> wf_keymap km \<Longrightarrow> wf_keymap km'"
  using unbind_recursive_correct [of km seq]
  by (auto simp: keymap_unbind_def split: if_splits option.splits prod.splits)

lemmas maps_wf_intros = maps_wf_update maps_wf_delete

lemma bind_global_wf: "stack_wf st \<Longrightarrow> bind_global dbg seq cmd src st = Some (st', r) \<Longrightarrow> stack_wf st'"
  by (auto simp: bind_global_def stack_wf_def dest: keymap_bind_wf)

lemma bind_buffer_wf:
  assumes "stack_wf st" and "bind_buffer dbg buf seq cmd src st = Some (st', r)"
  shows "stack_wf st'"
proof -
  define km where "km = (case map_of (buffers st) buf of Some km \<Rightarrow> km | None \<Rightarrow> keymap_new)"
  have km: "wf_keymap km" "maps_wf (buffers st)"
    using assms(1) maps_wf_map_of [of "buffers st" buf] by (auto simp: stack_wf_def km_def split: option.splits)
  obtain km' where "keymap_bind dbg km seq cmd src = Some (km', r)" "st' = st\<lparr>buffers := AList.update buf km' (buffers st)\<rparr>"
    using assms(2) unfolding bind_buffer_def Let_def km_def [symmetric] by auto
  then show ?thesis
    using assms(1) keymap_bind_wf km by (auto simp: stack_wf_def intro: maps_wf_update)
qed

lemma bind_mode_wf:
  assumes "stack_wf st" and "bind_mode dbg mode seq cmd src st = Some (st', r)"
  shows "stack_wf st'"
proof -
  define ms where "ms = (if mode \<in> set (map fst (modes st)) then modes st else modes st @ [(mode, keymap_new)])"
  have ms: "maps_wf ms" using assms(1) by (auto simp: ms_def stack_wf_def maps_wf_def)
  obtain km km' where "map_of ms mode = Some km" "keymap_bind dbg km seq cmd src = Some (km', r)"
    "st' = st\<lparr>modes := AList.update mode km' ms\<rparr>"
    using assms(2) unfolding bind_mode_def Let_def ms_def [symmetric] by (auto split: option.splits)
  then show ?thesis
    using assms(1) ms maps_wf_map_of [OF ms] keymap_bind_wf by (auto simp: stack_wf_def intro: maps_wf_update)
qed

lemma unbind_global_wf: "stack_wf st \<Longrightarrow> unbind_global dbg seq st = (st', r) \<Longrightarrow> stack_wf st'"
  by (auto simp: unbind_global_def stack_wf_def split: prod.splits dest: keymap_unbind_wf)

lemma unbind_buffer_wf:
  assumes "stack_wf st" and "unbind_buffer dbg buf seq st = (st', r)"
  shows "stack_wf st'"
proof (cases "map_of (buffers st) buf")
  case None
  then show ?thesis using assms by (simp add: unbind_buffer_def)
next
  case (Some km)
  obtain km' r' where u: "keymap_unbind dbg km seq = (km', r')" by fastforce
  have wf: "maps_wf (buffers st)" "wf_keymap km'"
    using assms(1) Some keymap_unbind_wf [OF u] maps_wf_map_of [OF _ Some] by (auto simp: stack_wf_def)
  show ?thesis
    using assms Some u wf maps_wf_intros by (cases r') (auto simp: unbind_buffer_def stack_wf_def)
qed

lemma unbind_mode_wf:
  assumes "stack_wf st" and "unbind_mode dbg mode seq st = (st', r)"
  shows "stack_wf st'"
proof (cases "map_of (modes st) mode")
  case None
  then show ?thesis using assms by (simp add: unbind_mode_def)
next
  case (Some km)
  obtain km' r' where u: "keymap_unbind dbg km seq = (km', r')" by fastforce
  have wf: "maps_wf (modes st)" "wf_keymap km'"
    using assms(1) Some keymap_unbind_wf [OF u] maps_wf_map_of [OF _ Some] by (auto simp: stack_wf_def)
  show ?thesis
    using assms Some u wf maps_wf_intros by (cases r') (auto simp: unbind_mode_def stack_wf_def)
qed

lemma remove_buffer_wf: "stack_wf st \<Longrightarrow> remove_buffer buf st = (st', r) \<Longrightarrow> stack_wf st'"
  by (auto simp: remove_buffer_def stack_wf_def maps_wf_delete)

section \<open>Resolution by priority\<close>

text \<open>The reference: the keymaps that apply, most specific first.\<close>

definition scopes :: "keymap_stack \<Rightarrow> nat option \<Rightarrow> string list \<Rightarrow> (scope \<times> keymap) list" where
  "scopes st active_buffer active_modes =
     (case active_buffer of
        None \<Rightarrow> []
      | Some i \<Rightarrow> (case map_of (buffers st) i of None \<Rightarrow> [] | Some km \<Rightarrow> [(BufferScope i, km)])) @
     List.map_filter (\<lambda>m. map_option (\<lambda>km. (ModeScope m, km)) (map_of (modes st) m)) active_modes @
     [(GlobalScope, global_map st)]"

fun first_bound :: "(scope \<times> keymap) list \<Rightarrow> key_sequence \<Rightarrow> resolved_binding option" where
  "first_bound [] seq = None"
| "first_bound ((sc, km) # rest) seq =
     (case bindings km seq of
        Some b \<Rightarrow> Some \<lparr>res_binding = b, res_scope = sc\<rparr>
      | None \<Rightarrow> first_bound rest seq)"

definition resolve_ref :: "(scope \<times> keymap) list \<Rightarrow> key_sequence \<Rightarrow> stack_resolution" where
  "resolve_ref scs seq =
     (case first_bound scs seq of
        Some rb \<Rightarrow> StackBound rb
      | None \<Rightarrow> if \<exists>(sc, km) \<in> set scs. lookup km seq = Pending then StackPending else StackUnbound)"

lemma first_bound_append:
  "first_bound (xs @ ys) seq = (case first_bound xs seq of Some rb \<Rightarrow> Some rb | None \<Rightarrow> first_bound ys seq)"
  by (induction xs seq rule: first_bound.induct) (auto split: option.splits)

lemma bindings_lookup: "bindings km seq = (case lookup km seq of Bound b \<Rightarrow> Some b | _ \<Rightarrow> None)"
  by (simp add: bindings_def)

lemma resolve_modes_ref:
  "resolve_modes st seq ms p =
     (let scs = List.map_filter (\<lambda>m. map_option (\<lambda>km. (ModeScope m, km)) (map_of (modes st) m)) ms
      in case resolve_modes st seq ms p of
           (Some rb, q) \<Rightarrow> (first_bound scs seq, q)
         | (None, _) \<Rightarrow> (None, p \<or> (\<exists>(sc, km) \<in> set scs. lookup km seq = Pending)))"
  "fst (resolve_modes st seq ms p) =
     first_bound (List.map_filter (\<lambda>m. map_option (\<lambda>km. (ModeScope m, km)) (map_of (modes st) m)) ms) seq"
  by (induction st seq ms p rule: resolve_modes.induct)
    (auto simp: Let_def map_filter_simps bindings_lookup split: option.splits resolution.splits prod.splits)

lemma resolve_rest_ref:
  "resolve_rest st seq ms p =
     (let scs = List.map_filter (\<lambda>m. map_option (\<lambda>km. (ModeScope m, km)) (map_of (modes st) m)) ms @ [(GlobalScope, global_map st)]
      in case first_bound scs seq of
           Some rb \<Rightarrow> StackBound rb
         | None \<Rightarrow> if p \<or> (\<exists>(sc, km) \<in> set scs. lookup km seq = Pending) then StackPending else StackUnbound)"
proof -
  define scs where "scs = List.map_filter (\<lambda>m. map_option (\<lambda>km. (ModeScope m, km)) (map_of (modes st) m)) ms"
  obtain o1 q where r: "resolve_modes st seq ms p = (o1, q)" by fastforce
  then have o1: "o1 = first_bound scs seq" and q: "o1 = None \<longrightarrow> q = (p \<or> (\<exists>(sc, km) \<in> set scs. lookup km seq = Pending))"
    using resolve_modes_ref [of st seq ms p] by (auto simp: scs_def Let_def split: option.splits)
  show ?thesis
    unfolding scs_def [symmetric] Let_def resolve_rest_def r
    using o1 q by (auto simp: first_bound_append bindings_lookup split: option.splits resolution.splits)
qed

lemma resolve_priority: "resolve st seq ab ms = resolve_ref (scopes st ab ms) seq"
proof (cases "Option.bind ab (\<lambda>i. map_option (\<lambda>km. (i, km)) (map_of (buffers st) i))")
  case None
  then have "scopes st ab ms = scopes st None ms" by (auto simp: scopes_def split: option.splits)
  then show ?thesis
    using None by (auto simp: resolve_def resolve_rest_ref resolve_ref_def scopes_def Let_def)
next
  case (Some ikm)
  then obtain i km where ab: "ab = Some i" "map_of (buffers st) i = Some km" "ikm = (i, km)"
    by (auto simp: bind_eq_Some_conv)
  then have sc: "scopes st ab ms = (BufferScope i, km) # scopes st None ms" by (simp add: scopes_def)
  show ?thesis
    using Some ab unfolding resolve_ref_def sc
    by (cases "lookup km seq") (auto simp: resolve_def resolve_rest_ref scopes_def Let_def bindings_lookup)
qed

section \<open>The dispatcher\<close>

lemma dispatch_bound:
  "resolve st (p @ [c]) ab ms = StackBound rb \<Longrightarrow>
   dispatch c st ab ms \<lparr>pending = p\<rparr> = (\<lparr>pending = []\<rparr>, Run (command (res_binding rb)) (p @ [c]) (res_scope rb))"
  by (simp add: dispatch_def)

lemma dispatch_pending:
  "resolve st (p @ [c]) ab ms = StackPending \<Longrightarrow>
   dispatch c st ab ms \<lparr>pending = p\<rparr> = (\<lparr>pending = p @ [c]\<rparr>, PendingKeys (p @ [c]))"
  by (simp add: dispatch_def Let_def)

text \<open>Typing a sequence whose proper prefixes are pending runs it at its last key.\<close>

lemma dispatch_all_run:
  assumes "e \<noteq> []" and "resolve st (p @ e) ab ms = StackBound rb"
    and "\<And>k. 0 < k \<Longrightarrow> k < length e \<Longrightarrow> resolve st (p @ take k e) ab ms = StackPending"
  shows "dispatch_all e st ab ms \<lparr>pending = p\<rparr> =
    (\<lparr>pending = []\<rparr>, map (\<lambda>k. PendingKeys (p @ take k e)) [1..<length e] @ [Run (command (res_binding rb)) (p @ e) (res_scope rb)])"
  using assms
proof (induction e arbitrary: p)
  case (Cons c e)
  show ?case
  proof (cases "e = []")
    case True
    then show ?thesis using dispatch_bound [of st p c ab ms rb] Cons.prems(2) by simp
  next
    case False
    then have "resolve st (p @ [c]) ab ms = StackPending" using Cons.prems(3) [of 1] by (cases e) simp_all
    moreover have "dispatch_all e st ab ms \<lparr>pending = p @ [c]\<rparr> =
        (\<lparr>pending = []\<rparr>, map (\<lambda>k. PendingKeys ((p @ [c]) @ take k e)) [1..<length e] @
           [Run (command (res_binding rb)) ((p @ [c]) @ e) (res_scope rb)])"
    proof (rule Cons.IH [OF False])
      show "resolve st ((p @ [c]) @ e) ab ms = StackBound rb" using Cons.prems(2) by simp
      show "resolve st ((p @ [c]) @ take k e) ab ms = StackPending" if "0 < k" "k < length e" for k
        using Cons.prems(3) [of "Suc k"] that by simp
    qed
    moreover have "map (\<lambda>k. PendingKeys (p @ take k (c # e))) [1..<length (c # e)] =
        PendingKeys (p @ [c]) # map (\<lambda>k. PendingKeys ((p @ [c]) @ take k e)) [1..<length e]"
    proof -
      have "[1..<length (c # e)] = 1 # map Suc [1..<length e]"
        using False by (simp add: upt_conv_Cons map_Suc_upt del: upt_Suc)
      then show ?thesis by (simp del: upt_Suc)
    qed
    ultimately show ?thesis
      using dispatch_pending [of st p c ab ms] by (simp del: upt_Suc)
  qed
qed simp

lemma scopes_wf: "stack_wf st \<Longrightarrow> (sc, km) \<in> set (scopes st ab ms) \<Longrightarrow> wf_keymap km"
  by (auto simp: stack_wf_def scopes_def set_map_filter_iff split: option.splits
      dest: maps_wf_map_of maps_wf_map_of [OF _ sym])

lemma first_bound_none: "first_bound scs seq = None \<longleftrightarrow> (\<forall>(sc, km) \<in> set scs. bindings km seq = None)"
  by (induction scs seq rule: first_bound.induct) (auto split: option.splits)

text \<open>A prefix on which the dispatcher waits can be completed.\<close>

lemma pending_completes:
  assumes wf: "stack_wf st" and pend: "resolve st p ab ms = StackPending"
  shows "\<exists>e rb. e \<noteq> [] \<and> resolve st (p @ e) ab ms = StackBound rb \<and>
    (\<forall>k. 0 < k \<and> k < length e \<longrightarrow> resolve st (p @ take k e) ab ms = StackPending)"
proof -
  let ?scs = "scopes st ab ms"
  define hit where "hit e \<longleftrightarrow> e \<noteq> [] \<and> (\<exists>(sc, km) \<in> set ?scs. p @ e \<in> dom (bindings km))" for e
  obtain sc km where km: "(sc, km) \<in> set ?scs" "lookup km p = Pending"
    using pend by (auto simp: resolve_priority resolve_ref_def split: option.splits if_splits)
  have pn: "p \<noteq> []" using km(2) by auto
  have "\<exists>e. hit e" using km km.look_pending [OF scopes_wf [OF wf km(1)], of p] by (fastforce simp: hit_def)
  then obtain e0 where "hit e0" ..
  then have "\<exists>e. hit e \<and> (\<forall>e'. hit e' \<longrightarrow> length e \<le> length e')" by (rule ex_has_least_nat)
  then obtain e where e: "hit e" "\<And>e'. length e' < length e \<Longrightarrow> \<not> hit e'"
    using linorder_not_le by blast
  then obtain sc' km' where km': "(sc', km') \<in> set ?scs" "p @ e \<in> dom (bindings km')" by (auto simp: hit_def)
  have "first_bound ?scs (p @ e) \<noteq> None" unfolding first_bound_none
    using km' by (metis (mono_tags, lifting) case_prodD domIff)
  then obtain rb where rb: "resolve st (p @ e) ab ms = StackBound rb"
    by (auto simp: resolve_priority resolve_ref_def)
  have "resolve st (p @ take k e) ab ms = StackPending" if k: "0 < k" "k < length e" for k
  proof -
    have "\<not> hit (take k e)" using e(2) [of "take k e"] k by simp
    then have "first_bound ?scs (p @ take k e) = None" using k by (fastforce simp: first_bound_none hit_def)
    moreover obtain b where b: "bindings km' ((p @ take k e) @ drop k e) = Some b"
      using km'(2) by (auto simp del: bindings_simps)
    have "lookup km' (p @ take k e) = Pending"
      using km.proper_prefix_pending [OF scopes_wf [OF wf km'(1)] b] pn k by simp
    ultimately show ?thesis using km'(1) by (auto simp: resolve_priority resolve_ref_def)
  qed
  then show ?thesis using rb e(1) by (auto simp: hit_def)
qed

section \<open>Reachable stacks\<close>

inductive stack_reach :: "(nat \<Rightarrow> ustring) \<Rightarrow> keymap_stack \<Rightarrow> bool" for dbg where
  sr_new: "stack_reach dbg stack_new"
| sr_bind_global: "stack_reach dbg st \<Longrightarrow> bind_global dbg seq cmd src st = Some (st', r) \<Longrightarrow> stack_reach dbg st'"
| sr_bind_buffer: "stack_reach dbg st \<Longrightarrow> bind_buffer dbg buf seq cmd src st = Some (st', r) \<Longrightarrow> stack_reach dbg st'"
| sr_bind_mode: "stack_reach dbg st \<Longrightarrow> bind_mode dbg mode seq cmd src st = Some (st', r) \<Longrightarrow> stack_reach dbg st'"
| sr_unbind_global: "stack_reach dbg st \<Longrightarrow> unbind_global dbg seq st = (st', rb) \<Longrightarrow> stack_reach dbg st'"
| sr_unbind_buffer: "stack_reach dbg st \<Longrightarrow> unbind_buffer dbg buf seq st = (st', rb) \<Longrightarrow> stack_reach dbg st'"
| sr_unbind_mode: "stack_reach dbg st \<Longrightarrow> unbind_mode dbg mode seq st = (st', rb) \<Longrightarrow> stack_reach dbg st'"
| sr_remove: "stack_reach dbg st \<Longrightarrow> remove_buffer buf st = (st', x) \<Longrightarrow> stack_reach dbg st'"

lemmas stack_wf_ops = bind_global_wf bind_buffer_wf bind_mode_wf unbind_global_wf unbind_buffer_wf
  unbind_mode_wf remove_buffer_wf

lemma stack_reach_wf: "stack_reach dbg st \<Longrightarrow> stack_wf st"
  by (induction rule: stack_reach.induct) (blast intro: stack_wf_new stack_wf_ops)+

end
