(* ===== verification/Key_Properties.thy ===== *)
theory Key_Properties
  imports Keymap_Stack
begin

text \<open>The properties of key notation, keymaps and key dispatch.\<close>

text \<open>
  C15. Key notation is stable: whatever text a sequence was parsed from, printing it gives a canonical
  text that parses back to the same sequence.
\<close>

theorem key_notation_roundtrip:
  assumes "parse_sequence s = Inr cs"
  shows "parse_sequence (display_sequence dbg cs) = Inr cs"
  using parse_sequence_printable [OF assms] by (auto intro: parse_display_sequence)

theorem key_notation_roundtrip_witness:
  "parse_sequence (display_sequence (\<lambda>_. [])
     [chord_new (CharKey 120) (no_modifiers\<lparr>CONTROL := True, ALT := True\<rparr>), chord_new (F 5) no_modifiers]) =
   Inr [chord_new (CharKey 120) (no_modifiers\<lparr>CONTROL := True, ALT := True\<rparr>), chord_new (F 5) no_modifiers]"
proof (rule key_notation_roundtrip)
  show "parse_sequence (lit '' M-C-x  <F5>'') =
    Inr [chord_new (CharKey 120) (no_modifiers\<lparr>CONTROL := True, ALT := True\<rparr>), chord_new (F 5) no_modifiers]"
    by (simp add: parse_sequence_def lit_def parse_chord_def trim_def is_whitespace_def modifier_bit_def
        parse_key_code_def named_key_def bracketed_key_def parse_u8_def digits_value_def char_classes no_modifiers_def Let_def)
qed

text \<open>
  C12. The trie implements a prefix-free map of key sequences: on a well-formed keymap binding never
  panics; it succeeds exactly when the sequence is not empty and conflicts with no bound sequence,
  and then adds exactly that binding; otherwise it reports an error and changes nothing. Unbinding
  removes exactly the given sequence or reports an error and changes nothing.
\<close>

theorem keymap_refines_prefix_map:
  assumes "wf_keymap km"
  shows "(\<exists>km' r. keymap_bind dbg km s cmd src = Some (km', r) \<and> wf_keymap km' \<and>
       (if s \<noteq> [] \<and> conflict_free (bindings km) s
        then r = Inr () \<and> bindings km' = (bindings km)(s \<mapsto> \<lparr>command = cmd, bind_source = src\<rparr>)
        else (\<exists>e. r = Inl e) \<and> km' = km)) \<and>
     (\<exists>km' r. keymap_unbind dbg km s = (km', r) \<and> wf_keymap km' \<and>
       (case bindings km s of
          Some b \<Rightarrow> r = Inr b \<and> bindings km' = (bindings km)(s := None)
        | None \<Rightarrow> (\<exists>e. r = Inl e) \<and> km' = km))"
proof
  show "\<exists>km' r. keymap_bind dbg km s cmd src = Some (km', r) \<and> wf_keymap km' \<and>
       (if s \<noteq> [] \<and> conflict_free (bindings km) s
        then r = Inr () \<and> bindings km' = (bindings km)(s \<mapsto> \<lparr>command = cmd, bind_source = src\<rparr>)
        else (\<exists>e. r = Inl e) \<and> km' = km)"
  proof (cases "s \<noteq> [] \<and> conflict_free (bindings km) s")
    case True
    then show ?thesis using keymap_bind_cases(1) [OF assms True, of dbg cmd src] by (simp del: fun_upd_apply)
  next
    case False
    then show ?thesis using keymap_bind_cases(2) [OF assms False, of dbg cmd src] assms by (simp only: if_False) blast
  qed
  show "\<exists>km' r. keymap_unbind dbg km s = (km', r) \<and> wf_keymap km' \<and>
       (case bindings km s of
          Some b \<Rightarrow> r = Inr b \<and> bindings km' = (bindings km)(s := None)
        | None \<Rightarrow> (\<exists>e. r = Inl e) \<and> km' = km)"
  proof (cases "unbind_recursive km s")
    case None
    then show ?thesis
      using unbind_recursive_none [of km s] assms by (auto simp: keymap_unbind_def)
  next
    case (Some kb)
    obtain km' b where kb: "kb = (km', b)" by (cases kb)
    have "s \<noteq> []" using Some by auto
    then have "keymap_unbind dbg km s = (km', Inr b)" using Some kb by (simp add: keymap_unbind_def)
    then show ?thesis using unbind_recursive_correct [OF assms, of s km' b] Some kb by auto
  qed
qed

theorem keymap_refines_prefix_map_witness:
  "\<exists>km' r. keymap_bind (\<lambda>_. []) keymap_new [chord_plain Enter] ''newline'' \<lparr>src_file = ''init.lua'', src_line = 3\<rparr> =
       Some (km', r) \<and> r = Inr () \<and>
     bindings km' [chord_plain Enter] = Some \<lparr>command = ''newline'', bind_source = \<lparr>src_file = ''init.lua'', src_line = 3\<rparr>\<rparr>"
  using keymap_refines_prefix_map [OF wf_keymap_new, of "\<lambda>_. []" "[chord_plain Enter]" "''newline''"
      "\<lparr>src_file = ''init.lua'', src_line = 3\<rparr>"]
  by (fastforce simp: conflict_free_def)

text \<open>
  Lookup classifies every sequence of a well-formed keymap: bound exactly when it has a binding,
  pending exactly when it is a non-empty proper prefix of a bound sequence, and no bound sequence
  extends another.
\<close>

theorem keymap_lookup_classifies:
  assumes "wf_keymap km"
  shows "(lookup km s = Bound b \<longleftrightarrow> bindings km s = Some b) \<and>
     (lookup km s = Pending \<longleftrightarrow> s \<noteq> [] \<and> (\<exists>e. e \<noteq> [] \<and> s @ e \<in> dom (bindings km))) \<and>
     (s \<in> dom (bindings km) \<and> s @ e \<in> dom (bindings km) \<longrightarrow> e = [])"
  using km.look_bound [OF assms] km.look_pending [OF assms] km.prefix_free [OF assms] by blast

theorem keymap_lookup_classifies_witness:
  "lookup keymap_new [chord_plain Enter] \<noteq> Pending"
  using keymap_lookup_classifies [OF wf_keymap_new, of "[chord_plain Enter]"] by simp

text \<open>
  Iteration lists every binding of a well-formed keymap exactly once, and the length is their
  number.
\<close>

theorem keymap_iter_complete:
  assumes "wf_keymap km"
  shows "set (keymap_iter km) = {(s, b). bindings km s = Some b} \<and> distinct (map fst (keymap_iter km)) \<and>
     keymap_len km = card (dom (bindings km))"
proof (intro conjI)
  show set: "set (keymap_iter km) = {(s, b). bindings km s = Some b}"
    using collect_pairs_set [OF assms, of _ _ "[]"] by (auto simp: keymap_iter_def)
  show distinct: "distinct (map fst (keymap_iter km))"
    using collect_pairs_distinct [OF assms] by (simp add: keymap_iter_def)
  have "set (map fst (keymap_iter km)) = dom (bindings km)"
    using set by force
  then show "keymap_len km = card (dom (bindings km))"
    using distinct keymap_len_collect [of km "[]"] by (metis distinct_card keymap_iter_def length_map)
qed

theorem keymap_iter_complete_witness:
  "keymap_len keymap_new = 0 \<and> keymap_iter keymap_new = []"
  using keymap_iter_complete [OF wf_keymap_new] by simp

text \<open>
  C14. In every stack of keymaps that the binding operations can build, resolution returns the first
  complete binding in the order buffer, active modes, global; without one it is pending exactly when
  some applicable keymap has the sequence as a proper prefix of a binding.
\<close>

theorem stack_resolution_by_priority:
  assumes "stack_reach dbg st"
  shows "resolve st seq ab ms =
    (case first_bound (scopes st ab ms) seq of
       Some rb \<Rightarrow> StackBound rb
     | None \<Rightarrow> if seq \<noteq> [] \<and> (\<exists>(sc, km) \<in> set (scopes st ab ms). \<exists>e. e \<noteq> [] \<and> seq @ e \<in> dom (bindings km))
              then StackPending else StackUnbound)"
proof -
  have wf: "stack_wf st" by (rule stack_reach_wf [OF assms])
  have "(\<exists>(sc, km) \<in> set (scopes st ab ms). lookup km seq = Pending) \<longleftrightarrow>
      (\<exists>(sc, km) \<in> set (scopes st ab ms). seq \<noteq> [] \<and> (\<exists>e. e \<noteq> [] \<and> seq @ e \<in> dom (bindings km)))"
    by (rule bex_cong [OF refl]) (simp only: split_paired_all prod.case lookup_pending [OF scopes_wf [OF wf]])
  also have "\<dots> \<longleftrightarrow> seq \<noteq> [] \<and> (\<exists>(sc, km) \<in> set (scopes st ab ms). \<exists>e. e \<noteq> [] \<and> seq @ e \<in> dom (bindings km))"
    by blast
  finally show ?thesis by (simp only: resolve_priority resolve_ref_def)
qed

theorem stack_resolution_by_priority_witness:
  "resolve stack_new [chord_plain Enter] None [] = StackUnbound"
  using stack_resolution_by_priority [OF sr_new, of "[chord_plain Enter]" None "[]"]
  by (simp add: scopes_def stack_new_def)

text \<open>
  C13. The dispatcher never waits in vain: from every prefix on which it waits there are keys that run
  a command, it answers pending to all of them but the last, and then it is reset.
\<close>

theorem dispatcher_wait_completes:
  assumes "stack_reach dbg st" and "resolve st p ab ms = StackPending"
  shows "\<exists>e (rb :: resolved_binding). e \<noteq> [] \<and> dispatch_all e st ab ms \<lparr>pending = p\<rparr> =
     (\<lparr>pending = []\<rparr>, map (\<lambda>k. PendingKeys (p @ take k e)) [1..<length e] @
        [Run (command (res_binding rb)) (p @ e) (res_scope rb)])"
proof -
  obtain e rb where e: "e \<noteq> []" "resolve st (p @ e) ab ms = StackBound rb"
    "\<And>k. 0 < k \<Longrightarrow> k < length e \<Longrightarrow> resolve st (p @ take k e) ab ms = StackPending"
    using pending_completes [OF stack_reach_wf [OF assms(1)] assms(2)] by blast
  show ?thesis using e(1) dispatch_all_run [OF e(1,2,3)] by (intro exI [of _ e] exI [of _ rb] conjI) auto
qed

theorem dispatcher_wait_completes_witness:
  "\<exists>st e (rb :: resolved_binding). resolve st [chord_plain Esc] None [] = StackPending \<and> e \<noteq> [] \<and>
     last (snd (dispatch_all e st None [] \<lparr>pending = [chord_plain Esc]\<rparr>)) =
       Run (command (res_binding rb)) (chord_plain Esc # e) (res_scope rb)"
proof -
  let ?seq = "[chord_plain Esc, chord_plain Enter]" and ?src = "\<lparr>src_file = ''init.lua'', src_line = 1\<rparr>"
  let ?st = "stack_new\<lparr>global_map := Keymap [(chord_plain Esc, Submap (Keymap [(chord_plain Enter,
      LeafBranch \<lparr>command = ''run'', bind_source = ?src\<rparr>)]))]\<rparr>"
  have b: "bind_global (\<lambda>_. []) ?seq ''run'' ?src stack_new = Some (?st, Inr ())"
    by (simp add: bind_global_def keymap_bind_def stack_new_def keymap_new_def)
  have p: "resolve ?st [chord_plain Esc] None [] = StackPending"
    by (simp add: resolve_def resolve_rest_def)
  obtain e and rb :: resolved_binding where e: "e \<noteq> []"
    "dispatch_all e ?st None [] \<lparr>pending = [chord_plain Esc]\<rparr> =
     (\<lparr>pending = []\<rparr>, map (\<lambda>k. PendingKeys ([chord_plain Esc] @ take k e)) [1..<length e] @
        [Run (command (res_binding rb)) ([chord_plain Esc] @ e) (res_scope rb)])"
    using dispatcher_wait_completes [OF sr_bind_global [OF sr_new b] p] by metis
  show ?thesis
    by (rule exI [of _ ?st], rule exI [of _ e], rule exI [of _ rb], unfold e(2)) (simp add: p e(1))
qed

text \<open>
  A conflict below a submap is reported with only the keys below it: with \<open>ESC RET\<close> bound, the
  attempt to bind \<open>ESC RET TAB\<close> is refused with an error that names the sequence \<open>RET TAB\<close>.
\<close>

theorem bind_error_names_suffix:
  "\<exists>km. keymap_bind dbg keymap_new [chord_plain Esc, chord_plain Enter] ''a'' src = Some (km, Inr ()) \<and>
     keymap_bind dbg km [chord_plain Esc, chord_plain Enter, chord_plain Tab] ''b'' src =
       Some (km, Inl (WouldExtendLeaf (lit ''RET TAB'') ''b'' (lit ''RET'') ''a''))"
  by (simp add: keymap_bind_def keymap_new_def chord_plain_def chord_new_def no_modifiers_def display_chord_def lit_def)

end
