(* ===== verification/Window.thy ===== *)
theory Window
  imports Prelude "HOL-Library.Disjoint_Sets"
begin

text \<open>
  The window tree of \<^verbatim>\<open>src/src/window.rs\<close>: viewports, splits, focus and the quit history of side
  windows. Cell counts are natural numbers; the release build wraps \<^verbatim>\<open>u32\<close> sums, which is written out
  where a sum of user-supplied weights is taken.
\<close>

section \<open>Rectangles\<close>

record rect =
  row :: nat
  col :: nat
  rows :: nat
  cols :: nat

definition rect_new :: "nat \<Rightarrow> nat \<Rightarrow> nat \<Rightarrow> nat \<Rightarrow> rect" where
  "rect_new r c rs cs = \<lparr>row = r, col = c, rows = rs, cols = cs\<rparr>"

definition rect_is_empty :: "rect \<Rightarrow> bool" where
  "rect_is_empty r \<longleftrightarrow> rows r = 0 \<or> cols r = 0"

definition rect_contains :: "rect \<Rightarrow> nat \<times> nat \<Rightarrow> bool" where
  "rect_contains r cell \<longleftrightarrow>
     row r \<le> fst cell \<and> fst cell - row r < rows r \<and> col r \<le> snd cell \<and> snd cell - col r < cols r"

section \<open>Windows\<close>

datatype line_number_mode = LinesOff | Absolute | Relative | Hybrid

definition is_on :: "line_number_mode \<Rightarrow> bool" where
  "is_on m \<longleftrightarrow> m \<noteq> LinesOff"

definition abs_diff :: "nat \<Rightarrow> nat \<Rightarrow> nat" where
  "abs_diff a b = (if a < b then b - a else a - b)"

fun number_for :: "line_number_mode \<Rightarrow> nat \<Rightarrow> nat \<Rightarrow> nat option" where
  "number_for LinesOff l cursor_line = None"
| "number_for Absolute l cursor_line = Some (l + 1)"
| "number_for Relative l cursor_line = Some (abs_diff l cursor_line)"
| "number_for Hybrid l cursor_line = Some (if l = cursor_line then l + 1 else abs_diff l cursor_line)"

definition LINE_NUMBER_GUTTER_PAD :: nat where
  "LINE_NUMBER_GUTTER_PAD = 2"

fun decimal_digits :: "nat \<Rightarrow> nat" where
  "decimal_digits n = (if 10 \<le> n then Suc (decimal_digits (n div 10)) else 1)"

declare decimal_digits.simps [simp del]

datatype side = Bottom

definition side_from_name :: "string \<Rightarrow> side option" where
  "side_from_name name = (if name = ''bottom'' then Some Bottom else None)"

definition side_name :: "side \<Rightarrow> string" where
  "side_name s = (case s of Bottom \<Rightarrow> ''bottom'')"

definition MIN_WINDOW_OUTER_ROWS :: nat where
  "MIN_WINDOW_OUTER_ROWS = 2"

definition MAX_PANEL_QUIT_DEPTH :: nat where
  "MAX_PANEL_QUIT_DEPTH = 64"

text \<open>A saved presentation of a side window, without the action that follows it.\<close>

record presentation =
  pres_buffer :: nat
  pres_fixed_rows :: nat
  pres_dedicated :: bool
  pres_cursor :: position
  pres_view_top :: nat
  pres_goal_col :: "nat option"
  pres_selection :: "position option"

datatype quit_action = QuitDelete | QuitRestore presentation quit_action

fun quit_depth :: "quit_action \<Rightarrow> nat" where
  "quit_depth QuitDelete = 0"
| "quit_depth (QuitRestore p next_action) = Suc (quit_depth next_action)"

text \<open>The loop of \<^verbatim>\<open>truncate_to\<close>, with the number of presentations kept so far.\<close>

fun truncate_loop :: "nat \<Rightarrow> nat \<Rightarrow> quit_action \<Rightarrow> quit_action" where
  "truncate_loop cap kept QuitDelete = QuitDelete"
| "truncate_loop cap kept (QuitRestore p next_action) =
     (if cap \<le> kept + 1 then QuitRestore p QuitDelete else QuitRestore p (truncate_loop cap (kept + 1) next_action))"

definition truncate_to :: "nat \<Rightarrow> quit_action \<Rightarrow> quit_action" where
  "truncate_to cap q = (if cap = 0 then QuitDelete else truncate_loop cap 0 q)"

record window_params =
  win_side :: "side option"
  fixed_rows :: "nat option"
  dedicated :: bool
  win_quit_action :: "quit_action option"
  origin_document :: "nat option"

definition default_params :: window_params where
  "default_params = \<lparr>win_side = None, fixed_rows = None, dedicated = False, win_quit_action = None, origin_document = None\<rparr>"

datatype wrap_mode = Truncate | Wrap

text \<open>The text view is opaque (a type variable); an overlay is its kind and its identity.\<close>

record 'tv window =
  win_id :: nat
  buffer_id :: nat
  text_view :: 'tv
  overlays :: "(string \<times> nat option) list"
  win_cursor :: position
  selection :: "position option"
  view_top :: nat
  view_left :: nat
  manual_left_authority :: bool
  manual_left_cursor :: position
  goal_col :: "nat option"
  last_visible_rows :: nat
  last_content_cols :: nat
  last_wrap :: wrap_mode
  line_numbers :: line_number_mode
  win_params :: window_params

definition window_new :: "nat \<Rightarrow> nat \<Rightarrow> 'tv \<Rightarrow> 'tv window" where
  "window_new i buf tv =
     \<lparr>win_id = i, buffer_id = buf, text_view = tv, overlays = [], win_cursor = 0, selection = None, view_top = 0,
      view_left = 0, manual_left_authority = False, manual_left_cursor = 0, goal_col = None, last_visible_rows = 0,
      last_content_cols = 0, last_wrap = Truncate, line_numbers = Absolute, win_params = default_params\<rparr>"

definition window_is_side :: "'tv window \<Rightarrow> bool" where
  "window_is_side w \<longleftrightarrow> win_side (win_params w) \<noteq> None"

definition forget_manual_horizontal_origin :: "'tv window \<Rightarrow> 'tv window" where
  "forget_manual_horizontal_origin w = w\<lparr>view_left := 0, manual_left_authority := False\<rparr>"

definition gutter_width :: "('tv \<Rightarrow> nat) \<Rightarrow> 'tv window \<Rightarrow> nat" where
  "gutter_width line_count w =
     (if is_on (line_numbers w) then decimal_digits (max (line_count (text_view w)) 1) + LINE_NUMBER_GUTTER_PAD else 0)"

definition push_overlay :: "string \<times> nat option \<Rightarrow> 'tv window \<Rightarrow> 'tv window" where
  "push_overlay v w = w\<lparr>overlays := overlays w @ [v]\<rparr>"

definition ensure_overlay :: "string \<times> nat option \<Rightarrow> 'tv window \<Rightarrow> 'tv window" where
  "ensure_overlay v w =
     (if snd v \<noteq> None \<and> (\<exists>u \<in> set (overlays w). snd u = snd v) then w else w\<lparr>overlays := overlays w @ [v]\<rparr>)"

definition overlay_kinds :: "'tv window \<Rightarrow> string list" where
  "overlay_kinds w = map fst (overlays w)"

definition region :: "'tv window \<Rightarrow> (position \<times> position) option" where
  "region w =
     (case selection w of
        None \<Rightarrow> None
      | Some anchor \<Rightarrow>
          if anchor < win_cursor w then Some (anchor, win_cursor w)
          else if win_cursor w < anchor then Some (win_cursor w, anchor)
          else None)"

section \<open>The tree\<close>

datatype orientation = Horizontal | Vertical

datatype layout_node = LeafNode nat | SplitNode orientation "nat list" "layout_node list"

record layout =
  layout_root :: layout_node

definition layout_single :: "nat \<Rightarrow> layout" where
  "layout_single w = \<lparr>layout_root = LeafNode w\<rparr>"

fun node_ids :: "layout_node \<Rightarrow> nat list" where
  "node_ids (LeafNode i) = [i]"
| "node_ids (SplitNode orient ws children) = concat (map node_ids children)"

definition iter_ids :: "layout \<Rightarrow> nat list" where
  "iter_ids l = node_ids (layout_root l)"

text \<open>Pass 1 of \<^verbatim>\<open>compute_node\<close>: the extents of the fixed leaves, with the running \<^verbatim>\<open>fixed_total\<close>.\<close>

fun fixed_pass :: "orientation \<Rightarrow> (nat \<rightharpoonup> nat) \<Rightarrow> nat \<Rightarrow> nat \<Rightarrow> layout_node list \<Rightarrow> nat option list" where
  "fixed_pass orient fixed primary fixed_total [] = []"
| "fixed_pass orient fixed primary fixed_total (child # rest) =
     (case (orient, child) of
        (Horizontal, LeafNode i) \<Rightarrow>
          (case fixed i of
             Some rs \<Rightarrow>
               (let taken = min rs (primary - fixed_total)
                in Some taken # fixed_pass orient fixed primary (fixed_total + taken) rest)
           | None \<Rightarrow> None # fixed_pass orient fixed primary fixed_total rest)
      | _ \<Rightarrow> None # fixed_pass orient fixed primary fixed_total rest)"

definition weight_of :: "nat list \<Rightarrow> nat \<Rightarrow> nat" where
  "weight_of ws i = max (if i < length ws then ws ! i else 1) 1"

definition extents_total :: "nat option list \<Rightarrow> nat" where
  "extents_total es = sum_list (map (\<lambda>e. case e of Some n \<Rightarrow> n | None \<Rightarrow> 0) es)"

text \<open>Indices of the flexible children, and the weight they share (\<^verbatim>\<open>u32\<close>, wrapping).\<close>

definition flexible :: "nat option list \<Rightarrow> nat list" where
  "flexible es = filter (\<lambda>i. es ! i = None) [0..<length es]"

definition total_weight :: "nat list \<Rightarrow> nat option list \<Rightarrow> nat" where
  "total_weight ws es = sum_list (map (weight_of ws) (flexible es)) mod 2 ^ 32"

definition last_flexible :: "nat option list \<Rightarrow> nat option" where
  "last_flexible es = (if flexible es = [] then None else Some (last (flexible es)))"

text \<open>Pass 2: the extent of every child, from index \<open>i\<close> with \<^verbatim>\<open>flexible_used\<close> so far.\<close>

fun flex_pass :: "nat list \<Rightarrow> nat \<Rightarrow> nat \<Rightarrow> nat option \<Rightarrow> nat \<Rightarrow> nat \<Rightarrow> nat option list \<Rightarrow> nat list" where
  "flex_pass ws remainder tot lst used i [] = []"
| "flex_pass ws remainder tot lst used i (Some n # es) = n # flex_pass ws remainder tot lst used (Suc i) es"
| "flex_pass ws remainder tot lst used i (None # es) =
     (let e = (if Some i = lst then remainder - used
               else if tot = 0 then 0
               else (let q = remainder * weight_of ws i div tot in if q < 2 ^ 32 then q else remainder))
      in e # flex_pass ws remainder tot lst (used + e) (Suc i) es)"

definition child_extents :: "orientation \<Rightarrow> (nat \<rightharpoonup> nat) \<Rightarrow> nat \<Rightarrow> nat list \<Rightarrow> layout_node list \<Rightarrow> nat list" where
  "child_extents orient fixed primary ws children =
     (let es = fixed_pass orient fixed primary 0 children
      in flex_pass ws (primary - extents_total es) (total_weight ws es) (last_flexible es) 0 0 es)"

definition child_area :: "orientation \<Rightarrow> rect \<Rightarrow> nat \<Rightarrow> nat \<Rightarrow> rect" where
  "child_area orient area cursor extent =
     (case orient of
        Horizontal \<Rightarrow> \<lparr>row = row area + cursor, col = col area, rows = extent, cols = cols area\<rparr>
      | Vertical \<Rightarrow> \<lparr>row = row area, col = col area + cursor, rows = rows area, cols = extent\<rparr>)"

definition primary_extent :: "orientation \<Rightarrow> rect \<Rightarrow> nat" where
  "primary_extent orient area = (case orient of Horizontal \<Rightarrow> rows area | Vertical \<Rightarrow> cols area)"

fun compute_node :: "layout_node \<Rightarrow> rect \<Rightarrow> (nat \<rightharpoonup> nat) \<Rightarrow> (nat \<rightharpoonup> rect) \<Rightarrow> (nat \<rightharpoonup> rect)"
  and compute_children ::
    "layout_node list \<Rightarrow> orientation \<Rightarrow> rect \<Rightarrow> nat list \<Rightarrow> nat \<Rightarrow> (nat \<rightharpoonup> nat) \<Rightarrow> (nat \<rightharpoonup> rect) \<Rightarrow> (nat \<rightharpoonup> rect)" where
  "compute_node (LeafNode i) area fixed out = out(i \<mapsto> area)"
| "compute_node (SplitNode orient ws children) area fixed out =
     compute_children children orient area (child_extents orient fixed (primary_extent orient area) ws children) 0 fixed out"
| "compute_children [] orient area es cursor fixed out = out"
| "compute_children (child # rest) orient area [] cursor fixed out = out"
| "compute_children (child # rest) orient area (e # es) cursor fixed out =
     compute_children rest orient area es (cursor + e) fixed
       (compute_node child (child_area orient area cursor e) fixed out)"

definition layout_compute :: "layout \<Rightarrow> rect \<Rightarrow> (nat \<rightharpoonup> nat) \<Rightarrow> (nat \<rightharpoonup> rect)" where
  "layout_compute l area fixed = compute_node (layout_root l) area fixed Map.empty"

section \<open>Changing the tree\<close>

definition side_leaf :: "(nat \<Rightarrow> bool) \<Rightarrow> layout \<Rightarrow> nat option" where
  "side_leaf sides l = find sides (iter_ids l)"

definition document_subtree :: "nat \<Rightarrow> layout \<Rightarrow> layout_node option" where
  "document_subtree s l =
     (case layout_root l of
        SplitNode Horizontal ws [doc, LeafNode i] \<Rightarrow> if i = s then Some doc else None
      | _ \<Rightarrow> None)"

definition install_side_leaf :: "nat \<Rightarrow> layout \<Rightarrow> layout" where
  "install_side_leaf s l = l\<lparr>layout_root := SplitNode Horizontal [1, 1] [layout_root l, LeafNode s]\<rparr>"

text \<open>\<open>split_children\<close> is \<^verbatim>\<open>iter_mut().any\<close>: it stops at the first child that was split.\<close>

fun split_node :: "nat \<Rightarrow> orientation \<Rightarrow> nat \<Rightarrow> layout_node \<Rightarrow> layout_node \<times> bool"
  and split_children :: "nat \<Rightarrow> orientation \<Rightarrow> nat \<Rightarrow> layout_node list \<Rightarrow> layout_node list \<times> bool" where
  "split_node target orient new_window (LeafNode i) =
     (if i = target then (SplitNode orient [1, 1] [LeafNode i, LeafNode new_window], True) else (LeafNode i, False))"
| "split_node target orient new_window (SplitNode og ws children) =
     (case split_children target orient new_window children of (cs, done) \<Rightarrow> (SplitNode og ws cs, done))"
| "split_children target orient new_window [] = ([], False)"
| "split_children target orient new_window (c # cs) =
     (case split_node target orient new_window c of
        (c', True) \<Rightarrow> (c' # cs, True)
      | (c', False) \<Rightarrow> (case split_children target orient new_window cs of (cs', done) \<Rightarrow> (c' # cs', done)))"

definition split_window :: "nat \<Rightarrow> orientation \<Rightarrow> nat \<Rightarrow> layout \<Rightarrow> layout \<times> bool" where
  "split_window target orient new_window l =
     (case split_node target orient new_window (layout_root l) of (n, done) \<Rightarrow> (l\<lparr>layout_root := n\<rparr>, done))"

text \<open>\<^verbatim>\<open>Vec::remove\<close>, and the index of a direct leaf child.\<close>

definition remove_at :: "nat \<Rightarrow> 'a list \<Rightarrow> 'a list" where
  "remove_at i xs = take i xs @ drop (Suc i) xs"

fun leaf_position :: "nat \<Rightarrow> layout_node list \<Rightarrow> nat option" where
  "leaf_position target [] = None"
| "leaf_position target (c # cs) =
     (if c = LeafNode target then Some 0 else map_option Suc (leaf_position target cs))"

fun remove_leaf :: "nat \<Rightarrow> layout_node \<Rightarrow> layout_node option"
  and remove_in_children :: "nat \<Rightarrow> layout_node list \<Rightarrow> layout_node list option" where
  "remove_leaf target (LeafNode i) = None"
| "remove_leaf target (SplitNode orient ws children) =
     (case leaf_position target children of
        Some idx \<Rightarrow> Some (SplitNode orient (if idx < length ws then remove_at idx ws else ws) (remove_at idx children))
      | None \<Rightarrow> map_option (SplitNode orient ws) (remove_in_children target children))"
| "remove_in_children target [] = None"
| "remove_in_children target (c # cs) =
     (case remove_leaf target c of
        Some c' \<Rightarrow> Some (c' # cs)
      | None \<Rightarrow> map_option (\<lambda>cs'. c # cs') (remove_in_children target cs))"

fun collapse_single_child_splits :: "layout_node \<Rightarrow> layout_node" where
  "collapse_single_child_splits (LeafNode i) = LeafNode i"
| "collapse_single_child_splits (SplitNode orient ws children) =
     (case map collapse_single_child_splits children of
        [only] \<Rightarrow> only
      | cs \<Rightarrow> SplitNode orient ws cs)"

definition close_window :: "nat \<Rightarrow> layout \<Rightarrow> layout \<times> bool" where
  "close_window target l =
     (case remove_leaf target (layout_root l) of
        None \<Rightarrow> (l, False)
      | Some n \<Rightarrow> (l\<lparr>layout_root := collapse_single_child_splits n\<rparr>, True))"

definition keep_only :: "nat \<Rightarrow> layout \<Rightarrow> layout \<times> bool" where
  "keep_only keep l = (if keep \<in> set (iter_ids l) then (l\<lparr>layout_root := LeafNode keep\<rparr>, True) else (l, False))"

section \<open>Focus\<close>

definition step_index :: "bool \<Rightarrow> nat \<Rightarrow> nat \<Rightarrow> nat \<Rightarrow> nat" where
  "step_index forward n start step = (if forward then (start + step) mod n else (start + n - step mod n) mod n)"

definition index_of :: "nat \<Rightarrow> nat list \<Rightarrow> nat option" where
  "index_of x xs = find (\<lambda>i. xs ! i = x) [0..<length xs]"

definition focus_step :: "nat \<Rightarrow> bool \<Rightarrow> (nat \<Rightarrow> bool) \<Rightarrow> layout \<Rightarrow> nat" where
  "focus_step current forward eligible l =
     (let ids = iter_ids l
      in if ids = [] then current
         else (case index_of current ids of
                 None \<Rightarrow> (case find eligible ids of Some i \<Rightarrow> i | None \<Rightarrow> hd ids)
               | Some start \<Rightarrow>
                   (case find (\<lambda>step. eligible (ids ! step_index forward (length ids) start step)) [1..<Suc (length ids)] of
                      Some step \<Rightarrow> ids ! step_index forward (length ids) start step
                    | None \<Rightarrow> current)))"

definition focus_next :: "nat \<Rightarrow> layout \<Rightarrow> nat" where
  "focus_next current l = focus_step current True (\<lambda>_. True) l"

definition focus_prev :: "nat \<Rightarrow> layout \<Rightarrow> nat" where
  "focus_prev current l = focus_step current False (\<lambda>_. True) l"

section \<open>Paths and boundaries\<close>

text \<open>\<open>path_in_children\<close> is the loop over \<^verbatim>\<open>children.iter().enumerate()\<close>, from index \<open>i\<close>.\<close>

fun path_to_node :: "nat \<Rightarrow> layout_node \<Rightarrow> nat list option"
  and path_in_children :: "nat \<Rightarrow> nat \<Rightarrow> layout_node list \<Rightarrow> nat list option" where
  "path_to_node target (LeafNode i) = (if i = target then Some [] else None)"
| "path_to_node target (SplitNode orient ws children) = path_in_children target 0 children"
| "path_in_children target i [] = None"
| "path_in_children target i (c # cs) =
     (case path_to_node target c of
        Some p \<Rightarrow> Some (i # p)
      | None \<Rightarrow> path_in_children target (Suc i) cs)"

definition path_to :: "nat \<Rightarrow> layout \<Rightarrow> nat list option" where
  "path_to target l = path_to_node target (layout_root l)"

fun node_at_from :: "layout_node \<Rightarrow> nat list \<Rightarrow> layout_node option" where
  "node_at_from node [] = Some node"
| "node_at_from (SplitNode orient ws children) (i # path) =
     (if i < length children then node_at_from (children ! i) path else None)"
| "node_at_from (LeafNode w) (i # path) = None"

definition node_at :: "nat list \<Rightarrow> layout \<Rightarrow> layout_node option" where
  "node_at path l = node_at_from (layout_root l) path"

record split_boundary =
  boundary_path :: "nat list"
  upper :: nat

text \<open>The loop of \<^verbatim>\<open>boundary_below\<close> over the depths, deepest first; \<open>None\<close> inside is the \<^verbatim>\<open>?\<close> on \<^verbatim>\<open>node_at\<close>.\<close>

fun boundary_loop :: "layout \<Rightarrow> nat list \<Rightarrow> nat \<Rightarrow> split_boundary option" where
  "boundary_loop l path 0 = None"
| "boundary_loop l path (Suc depth) =
     (case node_at (take depth path) l of
        None \<Rightarrow> None
      | Some (SplitNode Horizontal ws children) \<Rightarrow>
          if path ! depth + 1 < length children then Some \<lparr>boundary_path = take depth path, upper = path ! depth\<rparr>
          else boundary_loop l path depth
      | Some _ \<Rightarrow> boundary_loop l path depth)"

definition boundary_below :: "nat \<Rightarrow> layout \<Rightarrow> split_boundary option" where
  "boundary_below target l =
     (case path_to target l of None \<Rightarrow> None | Some path \<Rightarrow> boundary_loop l path (length path))"

fun interactive_min_rows :: "(nat \<Rightarrow> nat) \<Rightarrow> layout_node \<Rightarrow> nat" where
  "interactive_min_rows per_leaf (LeafNode i) = per_leaf i"
| "interactive_min_rows per_leaf (SplitNode Horizontal ws children) =
     sum_list (map (interactive_min_rows per_leaf) children)"
| "interactive_min_rows per_leaf (SplitNode Vertical ws children) =
     foldr max (map (interactive_min_rows per_leaf) children) 0"

fun subtree_min_rows :: "layout_node \<Rightarrow> nat" where
  "subtree_min_rows (LeafNode i) = MIN_WINDOW_OUTER_ROWS"
| "subtree_min_rows (SplitNode Horizontal ws children) = sum_list (map subtree_min_rows children)"
| "subtree_min_rows (SplitNode Vertical ws children) = foldr max (map subtree_min_rows children) 0"

end
