(* ===== verification/Window_Layout.thy ===== *)
theory Window_Layout
  imports Window
begin

text \<open>
  The window tree is correct: the viewports tile the frame, splitting and closing are inverse, focus
  moves in a cycle. Lemmas first, then the properties.
\<close>

section \<open>Extents add up\<close>

lemma fixed_pass_length [simp]: "length (fixed_pass orient fixed primary t cs) = length cs"
  by (induction orient fixed primary t cs rule: fixed_pass.induct)
    (auto simp: Let_def split: orientation.splits layout_node.splits option.splits)

lemma extents_total_simps [simp]:
  "extents_total [] = 0" "extents_total (Some n # es) = n + extents_total es" "extents_total (None # es) = extents_total es"
  by (simp_all add: extents_total_def)

lemma fixed_pass_total: "t \<le> primary \<Longrightarrow> extents_total (fixed_pass orient fixed primary t cs) \<le> primary - t"
proof (induction cs arbitrary: t)
  case (Cons c cs)
  have rest: "extents_total (fixed_pass orient fixed primary t cs) \<le> primary - t" using Cons by simp
  show ?case
  proof (cases "\<exists>i n. orient = Horizontal \<and> c = LeafNode i \<and> fixed i = Some n")
    case True
    then obtain i n where c: "orient = Horizontal" "c = LeafNode i" "fixed i = Some n" by blast
    define taken where "taken = min n (primary - t)"
    have "taken \<le> primary - t" by (simp add: taken_def)
    then have "extents_total (fixed_pass orient fixed primary (t + taken) cs) \<le> primary - (t + taken)"
      using Cons.IH [of "t + taken"] Cons.prems by simp
    then show ?thesis using c \<open>taken \<le> primary - t\<close> by (simp add: Let_def taken_def [symmetric])
  qed (use rest in \<open>auto split: orientation.splits layout_node.splits option.splits\<close>)
qed simp

definition fixed_leaf :: "orientation \<Rightarrow> (nat \<rightharpoonup> nat) \<Rightarrow> layout_node \<Rightarrow> bool" where
  "fixed_leaf orient fixed child \<longleftrightarrow> orient = Horizontal \<and> (\<exists>i. child = LeafNode i \<and> fixed i \<noteq> None)"

lemma fixed_pass_nth:
  "k < length cs \<Longrightarrow> fixed_pass orient fixed primary t cs ! k = None \<longleftrightarrow> \<not> fixed_leaf orient fixed (cs ! k)"
proof (induction orient fixed primary t cs arbitrary: k rule: fixed_pass.induct)
  case (2 orient fixed primary t child rest)
  then show ?case
    by (cases k; cases orient; cases child; cases "fixed (case child of LeafNode i \<Rightarrow> i | _ \<Rightarrow> 0)")
      (auto simp: Let_def fixed_leaf_def)
qed simp

lemma flex_pass_length [simp]: "length (flex_pass ws rm tot lst used i es) = length es"
  by (induction ws rm tot lst used i es rule: flex_pass.induct) (simp_all add: Let_def)

lemma flex_pass_all_fixed:
  "None \<notin> set es \<Longrightarrow> sum_list (flex_pass ws rm tot lst used i es) = extents_total es"
  by (induction ws rm tot lst used i es rule: flex_pass.induct) auto

text \<open>The weight of the flexible children from index \<open>i\<close> on.\<close>

fun flex_weight :: "nat list \<Rightarrow> nat \<Rightarrow> nat option list \<Rightarrow> nat" where
  "flex_weight ws i [] = 0"
| "flex_weight ws i (Some n # es) = flex_weight ws (Suc i) es"
| "flex_weight ws i (None # es) = weight_of ws i + flex_weight ws (Suc i) es"

lemma weight_of_pos: "0 < weight_of ws i"
  by (simp add: weight_of_def)

lemma flex_pass_sum:
  assumes "used * tot \<le> rm * used_w" and "used_w + flex_weight ws i es = tot" and "rm < 2 ^ 32" and "0 < tot"
    and "k < length es" and "es ! k = None" and "None \<notin> set (drop (Suc k) es)" and "lst = Some (i + k)"
  shows "sum_list (flex_pass ws rm tot lst used i es) = extents_total es + (rm - used)"
  using assms
proof (induction ws rm tot lst used i es arbitrary: k used_w rule: flex_pass.induct)
  case (2 ws rm tot lst used i n es)
  then show ?case by (cases k) auto
next
  case (3 ws rm tot lst used i es)
  show ?case
  proof (cases k)
    case 0
    then show ?thesis using 3 flex_pass_all_fixed [of es] by (simp add: Let_def)
  next
    case (Suc j)
    define q where "q = rm * weight_of ws i div tot"
    have w: "weight_of ws i \<le> tot" using 3(3) by simp
    have "rm * weight_of ws i \<le> rm * tot" using w by simp
    then have "q \<le> rm * tot div tot" unfolding q_def by (rule div_le_mono)
    then have q: "q \<le> rm" using 3(5) by simp
    have "q * tot \<le> rm * weight_of ws i" unfolding q_def by simp
    then have used: "(used + q) * tot \<le> rm * (used_w + weight_of ws i)"
      using 3(2) by (simp add: add_mult_distrib add_mult_distrib2)
    have flex: "flex_pass ws rm tot lst used i (None # es) = q # flex_pass ws rm tot lst (used + q) (Suc i) es"
      using Suc 3(4,5,9) q by (simp add: Let_def q_def [symmetric])
    have "q = (if Some i = lst then rm - used else if tot = 0 then 0
        else (let q = rm * weight_of ws i div tot in if q < 2 ^ 32 then q else rm))"
      using Suc 3(4,5,9) q by (simp add: Let_def q_def [symmetric])
    note IH = 3(1) [OF this, of "used_w + weight_of ws i" j]
    have "sum_list (flex_pass ws rm tot lst (used + q) (Suc i) es) = extents_total es + (rm - (used + q))"
      using IH used 3 Suc by simp
    moreover have "used + q \<le> rm"
    proof -
      have "(used + q) * tot \<le> rm * tot"
        using used 3(3) by (metis add.assoc le_add1 le_trans mult_le_mono2 flex_weight.simps(3))
      then show ?thesis using 3(5) by simp
    qed
    ultimately show ?thesis unfolding flex by simp
  qed
qed simp

lemma filter_upt_shift: "filter P [Suc i..<Suc i + n] = map Suc (filter (\<lambda>j. P (Suc j)) [i..<i + n])"
  by (simp add: filter_map [symmetric, unfolded comp_def] map_Suc_upt [symmetric] del: upt_Suc)

lemma flex_weight_eq: "flex_weight ws i es = sum_list (map (\<lambda>j. weight_of ws (i + j)) (flexible es))"
proof (induction ws i es rule: flex_weight.induct)
  case (2 ws i n es)
  have "flexible (Some n # es) = map Suc (flexible es)"
    using filter_upt_shift [of "\<lambda>j. (Some n # es) ! j = None" 0 "length es"]
    by (simp add: flexible_def upt_conv_Cons del: upt_Suc)
  then show ?case using 2 by (simp add: comp_def)
next
  case (3 ws i es)
  have "flexible (None # es) = 0 # map Suc (flexible es)"
    using filter_upt_shift [of "\<lambda>j. (None # es) ! j = None" 0 "length es"]
    by (simp add: flexible_def upt_conv_Cons del: upt_Suc)
  then show ?case using 3 by (simp add: comp_def)
qed (simp add: flexible_def)

lemma child_extents_length [simp]: "length (child_extents orient fixed primary ws cs) = length cs"
  by (simp add: child_extents_def Let_def)

lemma sum_list_filter_le: "sum_list (map f (filter P xs)) \<le> (sum_list (map f xs) :: nat)"
  by (induction xs) auto

lemma child_extents_sum:
  assumes "\<exists>c \<in> set cs. \<not> fixed_leaf orient fixed c"
    and "sum_list (map (weight_of ws) [0..<length cs]) < 2 ^ 32" and "primary < 2 ^ 32"
  shows "sum_list (child_extents orient fixed primary ws cs) = primary"
proof -
  define es where "es = fixed_pass orient fixed primary 0 cs"
  have len: "length es = length cs" by (simp add: es_def)
  obtain k0 where "k0 < length cs" "\<not> fixed_leaf orient fixed (cs ! k0)" using assms(1) by (metis in_set_conv_nth)
  then have "k0 \<in> set (flexible es)" using fixed_pass_nth [of k0 cs orient fixed primary 0] by (simp add: flexible_def es_def)
  then have ne: "flexible es \<noteq> []" by auto
  define k where "k = last (flexible es)"
  have k: "k < length es" "es ! k = None" using last_in_set [OF ne] by (auto simp: k_def flexible_def)
  have after: "None \<notin> set (drop (Suc k) es)"
  proof
    assume "None \<in> set (drop (Suc k) es)"
    then obtain j where j: "j < length es - Suc k" "es ! (Suc k + j) = None"
      by (auto simp: in_set_conv_nth)
    then have "Suc k + j \<in> set (flexible es)" by (simp add: flexible_def)
    moreover have "sorted (flexible es)" by (simp add: flexible_def sorted_wrt_filter)
    ultimately have "Suc k + j \<le> k"
      unfolding k_def by (metis in_set_conv_nth last_conv_nth le_eq_less_or_eq length_pos_if_in_set less_Suc_eq_le
          One_nat_def Suc_pred ne sorted_nth_mono diff_less zero_less_one)
    then show False by simp
  qed
  have fw: "flex_weight ws 0 es = sum_list (map (weight_of ws) (flexible es))" using flex_weight_eq [of ws 0 es] by simp
  also have "\<dots> \<le> sum_list (map (weight_of ws) [0..<length cs])"
    unfolding flexible_def len by (rule sum_list_filter_le)
  finally have small: "flex_weight ws 0 es < 2 ^ 32" using assms(2) by simp
  have tw: "total_weight ws es = flex_weight ws 0 es" using small fw by (simp add: total_weight_def)
  have "0 < flex_weight ws 0 es"
    unfolding fw using ne weight_of_pos [of ws "hd (flexible es)"] by (cases "flexible es") simp_all
  moreover have F: "extents_total es \<le> primary" using fixed_pass_total [of 0 primary orient fixed cs] by (simp add: es_def)
  ultimately have "sum_list (flex_pass ws (primary - extents_total es) (flex_weight ws 0 es) (Some k) 0 0 es) =
      extents_total es + (primary - extents_total es - 0)"
    using k after assms(3) by (intro flex_pass_sum [where used_w = 0 and k = k]) auto
  then show ?thesis
    using F tw ne by (simp add: child_extents_def Let_def es_def [symmetric] last_flexible_def k_def [symmetric])
qed

section \<open>Viewports tile the frame\<close>

definition cells :: "rect \<Rightarrow> (nat \<times> nat) set" where
  "cells r = {c. rect_contains r c}"

definition tiling :: "(nat \<rightharpoonup> rect) \<Rightarrow> nat set \<Rightarrow> (nat \<times> nat) set \<Rightarrow> bool" where
  "tiling m I C \<longleftrightarrow>
     I \<subseteq> dom m \<and> (\<Union>i \<in> I. cells (the (m i))) = C \<and> disjoint_family_on (\<lambda>i. cells (the (m i))) I"

text \<open>The part of an area whose primary offset lies in \<open>[lo, hi)\<close>.\<close>

definition strip :: "orientation \<Rightarrow> rect \<Rightarrow> nat \<Rightarrow> nat \<Rightarrow> (nat \<times> nat) set" where
  "strip orient area lo hi = cells (child_area orient area lo (hi - lo))"

lemma in_strip:
  assumes "lo \<le> hi"
  shows "(x, y) \<in> strip orient area lo hi \<longleftrightarrow> (case orient of
      Horizontal \<Rightarrow> row area + lo \<le> x \<and> x < row area + hi \<and> col area \<le> y \<and> y < col area + cols area
    | Vertical \<Rightarrow> row area \<le> x \<and> x < row area + rows area \<and> col area + lo \<le> y \<and> y < col area + hi)"
  using assms by (cases orient) (auto simp: strip_def cells_def rect_contains_def child_area_def)

lemma strip_split: "lo \<le> mid \<Longrightarrow> mid \<le> hi \<Longrightarrow> strip orient area lo mid \<union> strip orient area mid hi = strip orient area lo hi"
  by (cases orient) (auto simp: in_strip set_eq_iff)

lemma strip_disjoint: "lo \<le> mid \<Longrightarrow> mid \<le> hi \<Longrightarrow> strip orient area lo mid \<inter> strip orient area mid hi = {}"
  by (cases orient) (auto simp: in_strip)

lemma strip_whole: "strip orient area 0 (primary_extent orient area) = cells area"
  by (cases orient) (auto simp: strip_def child_area_def primary_extent_def cells_def rect_contains_def)

lemma tiling_cong: "tiling m I C \<Longrightarrow> (\<And>i. i \<in> I \<Longrightarrow> m' i = m i) \<Longrightarrow> tiling m' I C"
  unfolding tiling_def disjoint_family_on_def by (auto simp: domIff subset_iff)

lemma tiling_union:
  assumes "tiling m I C" and "tiling m J D" and "I \<inter> J = {}" and "C \<inter> D = {}"
  shows "tiling m (I \<union> J) (C \<union> D)"
proof -
  have "cells (the (m i)) \<subseteq> C" if "i \<in> I" for i using assms(1) that by (auto simp: tiling_def)
  moreover have "cells (the (m j)) \<subseteq> D" if "j \<in> J" for j using assms(2) that by (auto simp: tiling_def)
  ultimately have "disjoint_family_on (\<lambda>i. cells (the (m i))) (I \<union> J)"
    using assms unfolding tiling_def disjoint_family_on_def by (auto 0 4)
  then show ?thesis using assms by (auto simp: tiling_def)
qed

fun layout_ok :: "(nat \<rightharpoonup> nat) \<Rightarrow> layout_node \<Rightarrow> bool" where
  "layout_ok fixed (LeafNode i) \<longleftrightarrow> True"
| "layout_ok fixed (SplitNode orient ws cs) \<longleftrightarrow>
     (\<exists>c \<in> set cs. \<not> fixed_leaf orient fixed c) \<and> sum_list (map (weight_of ws) [0..<length cs]) < 2 ^ 32 \<and>
     (\<forall>c \<in> set cs. layout_ok fixed c)"

lemma compute_other:
  "i \<notin> set (node_ids node) \<Longrightarrow> compute_node node area fixed out i = out i"
  "i \<notin> set (concat (map node_ids cs)) \<Longrightarrow> compute_children cs orient area es cursor fixed out i = out i"
  by (induction node area fixed out and cs orient area es cursor fixed out rule: compute_node_compute_children.induct) auto

lemma compute_tiles:
  "layout_ok fixed node \<Longrightarrow> distinct (node_ids node) \<Longrightarrow> rows area < 2 ^ 32 \<Longrightarrow> cols area < 2 ^ 32 \<Longrightarrow>
   tiling (compute_node node area fixed out) (set (node_ids node)) (cells area)"
  "\<forall>c \<in> set cs. layout_ok fixed c \<Longrightarrow> distinct (concat (map node_ids cs)) \<Longrightarrow> length es = length cs \<Longrightarrow>
   rows area < 2 ^ 32 \<Longrightarrow> cols area < 2 ^ 32 \<Longrightarrow> cursor + sum_list es \<le> primary_extent orient area \<Longrightarrow>
   tiling (compute_children cs orient area es cursor fixed out) (set (concat (map node_ids cs)))
     (strip orient area cursor (cursor + sum_list es))"
proof (induction node area fixed out and cs orient area es cursor fixed out rule: compute_node_compute_children.induct)
  case (1 i area fixed out)
  then show ?case by (simp add: tiling_def disjoint_family_on_def domIff)
next
  case (2 orient ws cs area fixed out)
  have p: "primary_extent orient area < 2 ^ 32" using 2(4,5) by (cases orient) (simp_all add: primary_extent_def)
  then have "sum_list (child_extents orient fixed (primary_extent orient area) ws cs) = primary_extent orient area"
    using 2(2) by (intro child_extents_sum) auto
  then show ?case using 2 strip_whole [of orient area] by simp
next
  case (3 orient area es cursor fixed out)
  then show ?case by (simp add: tiling_def disjoint_family_on_def strip_def cells_def rect_contains_def child_area_def split: orientation.splits)
next
  case (5 child rest orient area e es cursor fixed out)
  let ?m = "compute_node child (child_area orient area cursor e) fixed out"
  let ?out = "compute_children rest orient area es (cursor + e) fixed ?m"
  have e: "e < 2 ^ 32" using 5(6,7,8) by (cases orient) (simp_all add: primary_extent_def)
  have "tiling ?m (set (node_ids child)) (cells (child_area orient area cursor e))"
    using 5(1,3,4,6,7) e by (cases orient) (simp_all add: child_area_def)
  moreover have "?out i = ?m i" if "i \<in> set (node_ids child)" for i
    using 5(4) that by (intro compute_other(2)) auto
  ultimately have "tiling ?out (set (node_ids child)) (cells (child_area orient area cursor e))"
    by (rule tiling_cong)
  then have first: "tiling ?out (set (node_ids child)) (strip orient area cursor (cursor + e))"
    by (simp add: strip_def)
  have rest: "tiling ?out (set (concat (map node_ids rest))) (strip orient area (cursor + e) (cursor + e + sum_list es))"
    using 5(2-8) by simp
  have "tiling ?out (set (node_ids child) \<union> set (concat (map node_ids rest)))
      (strip orient area cursor (cursor + e) \<union> strip orient area (cursor + e) (cursor + e + sum_list es))"
    using first rest 5(4) strip_disjoint [of cursor "cursor + e" "cursor + e + sum_list es" orient area]
    by (intro tiling_union) auto
  then show ?case
    using strip_split [of cursor "cursor + e" "cursor + e + sum_list es" orient area] by (simp add: add.assoc)
qed simp

section \<open>Splitting and closing\<close>

fun wf_node :: "layout_node \<Rightarrow> bool" where
  "wf_node (LeafNode i) \<longleftrightarrow> True"
| "wf_node (SplitNode orient ws cs) \<longleftrightarrow> 2 \<le> length cs \<and> length ws = length cs \<and> (\<forall>c \<in> set cs. wf_node c)"

definition layout_wf :: "layout \<Rightarrow> bool" where
  "layout_wf l \<longleftrightarrow> wf_node (layout_root l) \<and> distinct (iter_ids l)"

text \<open>Between the removal and the clean-up a split may have a single child.\<close>

fun thin_node :: "layout_node \<Rightarrow> bool" where
  "thin_node (LeafNode i) \<longleftrightarrow> True"
| "thin_node (SplitNode orient ws cs) \<longleftrightarrow> cs \<noteq> [] \<and> length ws = length cs \<and> (\<forall>c \<in> set cs. thin_node c)"

lemma wf_thin: "wf_node n \<Longrightarrow> thin_node n"
  by (induction n rule: wf_node.induct) auto

lemma wf_node_ids_nonempty: "wf_node n \<Longrightarrow> node_ids n \<noteq> []"
  by (induction n rule: wf_node.induct) (auto simp: numeral_2_eq_2 Suc_le_length_iff)

lemma collapse_wf: "wf_node n \<Longrightarrow> collapse_single_child_splits n = n"
proof (induction n rule: wf_node.induct)
  case (2 orient ws cs)
  then have "map collapse_single_child_splits cs = cs" by (simp add: map_idI)
  then show ?case using 2(2) by (auto split: list.splits)
qed simp

lemma collapse_thin:
  "thin_node n \<Longrightarrow> wf_node (collapse_single_child_splits n) \<and> node_ids (collapse_single_child_splits n) = node_ids n"
proof (induction n rule: thin_node.induct)
  case (2 orient ws cs)
  let ?cs = "map collapse_single_child_splits cs"
  have IH: "\<forall>c \<in> set ?cs. wf_node c" "concat (map node_ids ?cs) = concat (map node_ids cs)"
    using 2 by (auto intro!: arg_cong [where f = concat])
  show ?case
  proof (cases "\<exists>c. ?cs = [c]")
    case True
    then obtain c where "?cs = [c]" ..
    then show ?thesis using IH by simp
  next
    case False
    then have "2 \<le> length cs" "collapse_single_child_splits (SplitNode orient ws cs) = SplitNode orient ws ?cs"
      using 2(2) by (cases cs; cases "tl cs"; auto split: list.splits)+
    then show ?thesis using IH 2(2) by simp
  qed
qed simp

lemma split_node_spec:
  "snd (split_node t orient w n) = (t \<in> set (node_ids n)) \<and>
   (t \<notin> set (node_ids n) \<longrightarrow> fst (split_node t orient w n) = n)"
  "snd (split_children t orient w cs) = (t \<in> set (concat (map node_ids cs))) \<and>
   (t \<notin> set (concat (map node_ids cs)) \<longrightarrow> fst (split_children t orient w cs) = cs)"
proof (induction t orient w n and t orient w cs rule: split_node_split_children.induct)
  case (4 t orient w c cs)
  obtain c' b where c: "split_node t orient w c = (c', b)" by fastforce
  obtain cs' d where cs: "split_children t orient w cs = (cs', d)" by fastforce
  show ?case using 4(1) 4(2) [OF c [symmetric]] c cs by (cases b) auto
qed (auto split: prod.splits)

lemma split_children_length [simp]: "length (fst (split_children t orient w cs)) = length cs"
  by (induction cs) (auto split: prod.splits bool.splits)

text \<open>The identifiers after a split: the new window right after the one that was split.\<close>

definition after_split :: "nat \<Rightarrow> nat \<Rightarrow> nat list \<Rightarrow> nat list" where
  "after_split t w ids = concat (map (\<lambda>i. if i = t then [i, w] else [i]) ids)"

lemma after_split_append [simp]: "after_split t w (xs @ ys) = after_split t w xs @ after_split t w ys"
  by (simp add: after_split_def)

lemma after_split_id [simp]: "t \<notin> set xs \<Longrightarrow> after_split t w xs = xs"
  by (induction xs) (auto simp: after_split_def)

lemma set_after_split: "t \<in> set xs \<Longrightarrow> set (after_split t w xs) = insert w (set xs)"
  by (induction xs) (auto simp: after_split_def)

lemma distinct_after_split: "distinct xs \<Longrightarrow> w \<notin> set xs \<Longrightarrow> distinct (after_split t w xs)"
proof (induction xs)
  case (Cons x xs)
  have "set (after_split t w xs) \<subseteq> insert w (set xs)"
    by (cases "t \<in> set xs") (auto simp: set_after_split)
  then show ?case
    using Cons by (cases "x = t") (auto simp: after_split_def)
qed (simp add: after_split_def)

lemma split_node_ids:
  "distinct (node_ids n) \<Longrightarrow> node_ids (fst (split_node t orient w n)) = after_split t w (node_ids n)"
  "distinct (concat (map node_ids cs)) \<Longrightarrow>
   concat (map node_ids (fst (split_children t orient w cs))) = after_split t w (concat (map node_ids cs))"
proof (induction t orient w n and t orient w cs rule: split_node_split_children.induct)
  case (4 t orient w c cs)
  obtain c' b where c: "split_node t orient w c = (c', b)" by fastforce
  have b: "b = (t \<in> set (node_ids c))" "\<not> b \<Longrightarrow> c' = c"
    using split_node_spec(1) [of t orient w c] c by auto
  obtain cs' d where cs: "split_children t orient w cs = (cs', d)" by fastforce
  have "node_ids c' = after_split t w (node_ids c)" using 4(1,3) c by simp
  moreover have "concat (map node_ids cs') = after_split t w (concat (map node_ids cs))" if "\<not> b"
    using 4(2) [OF c [symmetric]] 4(3) cs that by auto
  moreover have "t \<notin> set (concat (map node_ids cs))" if b using that b(1) 4(3) by auto
  ultimately show ?case using c cs b by (cases b) auto
qed (auto simp: after_split_def split: prod.splits)

lemma split_node_wf:
  "wf_node n \<Longrightarrow> wf_node (fst (split_node t orient w n))"
  "\<forall>c \<in> set cs. wf_node c \<Longrightarrow> \<forall>c \<in> set (fst (split_children t orient w cs)). wf_node c"
proof (induction t orient w n and t orient w cs rule: split_node_split_children.induct)
  case (2 t orient w og ws cs)
  obtain cs' d where cs: "split_children t orient w cs = (cs', d)" by fastforce
  then have "length cs' = length cs" using split_children_length [of t orient w cs] by simp
  then show ?case using 2 cs by simp
next
  case (4 t orient w c cs)
  then show ?case by (auto split: prod.splits bool.splits)
qed auto

lemma leaf_position_other: "\<forall>c \<in> set cs. t \<notin> set (node_ids c) \<Longrightarrow> leaf_position t cs = None"
  by (induction cs) auto

lemma remove_leaf_other:
  "t \<notin> set (node_ids n) \<Longrightarrow> remove_leaf t n = None"
  "t \<notin> set (concat (map node_ids cs)) \<Longrightarrow> remove_in_children t cs = None"
  by (induction t n and t cs rule: remove_leaf_remove_in_children.induct) (simp_all add: leaf_position_other)

lemma split_close_node:
  "wf_node n \<Longrightarrow> distinct (node_ids n) \<Longrightarrow> t \<in> set (node_ids n) \<Longrightarrow> w \<notin> set (node_ids n) \<Longrightarrow>
   \<exists>n'. remove_leaf w (fst (split_node t orient w n)) = Some n' \<and> collapse_single_child_splits n' = n"
  "\<forall>c \<in> set cs. wf_node c \<Longrightarrow> distinct (concat (map node_ids cs)) \<Longrightarrow> t \<in> set (concat (map node_ids cs)) \<Longrightarrow>
   w \<notin> set (concat (map node_ids cs)) \<Longrightarrow>
   leaf_position w (fst (split_children t orient w cs)) = None \<and>
   (\<exists>cs'. remove_in_children w (fst (split_children t orient w cs)) = Some cs' \<and> map collapse_single_child_splits cs' = cs)"
proof (induction t orient w n and t orient w cs rule: split_node_split_children.induct)
  case (1 t orient w i)
  then show ?case by (auto simp: remove_at_def)
next
  case (2 t orient w og ws cs)
  obtain cs' d where cs: "split_children t orient w cs = (cs', d)" by fastforce
  then obtain cs'' where "leaf_position w cs' = None" "remove_in_children w cs' = Some cs''"
    "map collapse_single_child_splits cs'' = cs"
    using 2 by auto
  then show ?case using 2(2) cs by (auto split: list.splits)
next
  case (4 t orient w c cs)
  obtain c' b where c: "split_node t orient w c = (c', b)" by fastforce
  have b: "b = (t \<in> set (node_ids c))" "\<not> b \<Longrightarrow> c' = c"
    using split_node_spec(1) [of t orient w c] c by auto
  obtain cs' d where cs: "split_children t orient w cs = (cs', d)" by fastforce
  have keep: "map collapse_single_child_splits cs = cs" using 4(3) by (simp add: collapse_wf map_idI)
  show ?case
  proof (cases b)
    case True
    then have "c' \<noteq> LeafNode w" using c 4(6) by (cases c) (auto split: prod.splits if_splits)
    moreover have "leaf_position w cs = None" using 4(6) by (intro leaf_position_other) auto
    moreover obtain c'' where "remove_leaf w c' = Some c''" "collapse_single_child_splits c'' = c"
      using 4(1,3-6) b True c by auto
    ultimately show ?thesis using c True keep by simp
  next
    case False
    then have "c' = c" "t \<in> set (concat (map node_ids cs))" using b 4(5) by auto
    moreover have "remove_leaf w c = None" "c \<noteq> LeafNode w"
      using 4(6) remove_leaf_other(1) [of w c] by auto
    moreover have "leaf_position w cs' = None \<and>
        (\<exists>cs''. remove_in_children w cs' = Some cs'' \<and> map collapse_single_child_splits cs'' = cs)"
      using 4(2) [OF c [symmetric]] 4(3-6) False cs calculation(2) by auto
    ultimately show ?thesis using c cs False collapse_wf [of c] 4(3) by auto
  qed
qed auto

lemma leaf_position_Some:
  "leaf_position t cs = Some k \<Longrightarrow> k < length cs \<and> cs ! k = LeafNode t"
  by (induction cs arbitrary: k) (auto split: if_splits)

lemma remove_at_length [simp]: "k < length xs \<Longrightarrow> length (remove_at k xs) = length xs - 1"
  by (simp add: remove_at_def)

lemma set_remove_at: "set (remove_at k xs) \<subseteq> set xs"
  by (auto simp: remove_at_def dest: in_set_takeD in_set_dropD)

lemma filter_neq_id: "t \<notin> set xs \<Longrightarrow> filter (\<lambda>i. i \<noteq> t) xs = xs"
  by (induction xs) auto

lemma concat_remove_at:
  assumes "k < length cs" and "cs ! k = LeafNode t" and "distinct (concat (map node_ids cs))"
  shows "concat (map node_ids (remove_at k cs)) = filter (\<lambda>i. i \<noteq> t) (concat (map node_ids cs))"
proof -
  have cs: "cs = take k cs @ LeafNode t # drop (Suc k) cs" using assms(1,2) id_take_nth_drop by metis
  define A B where "A = concat (map node_ids (take k cs))" and "B = concat (map node_ids (drop (Suc k) cs))"
  have all: "concat (map node_ids cs) = A @ t # B"
    by (subst cs) (simp add: A_def B_def)
  then have "t \<notin> set A" "t \<notin> set B" using assms(3) by auto
  then have "filter (\<lambda>i. i \<noteq> t) (concat (map node_ids cs)) = A @ B" unfolding all by (simp add: filter_neq_id)
  then show ?thesis by (simp add: remove_at_def A_def B_def)
qed

lemma remove_leaf_spec:
  "wf_node n \<Longrightarrow> distinct (node_ids n) \<Longrightarrow> remove_leaf t n = Some n' \<Longrightarrow>
   thin_node n' \<and> node_ids n' = filter (\<lambda>i. i \<noteq> t) (node_ids n) \<and> t \<in> set (node_ids n)"
  "\<forall>c \<in> set cs. wf_node c \<Longrightarrow> distinct (concat (map node_ids cs)) \<Longrightarrow> remove_in_children t cs = Some cs' \<Longrightarrow>
   (\<forall>c \<in> set cs'. thin_node c) \<and> length cs' = length cs \<and>
   concat (map node_ids cs') = filter (\<lambda>i. i \<noteq> t) (concat (map node_ids cs)) \<and> t \<in> set (concat (map node_ids cs))"
proof (induction t n and t cs arbitrary: n' and cs' rule: remove_leaf_remove_in_children.induct)
  case (2 t orient ws cs)
  show ?case
  proof (cases "leaf_position t cs")
    case None
    then obtain cs' where cs': "remove_in_children t cs = Some cs'" "n' = SplitNode orient ws cs'"
      using 2(4) by auto
    then show ?thesis using 2(1) [OF None] 2(2,3) by auto
  next
    case (Some k)
    then have k: "k < length cs" "cs ! k = LeafNode t" using leaf_position_Some by blast+
    have n': "n' = SplitNode orient (remove_at k ws) (remove_at k cs)" using 2(2,4) Some k(1) by simp
    have "LeafNode t \<in> set cs" using k nth_mem by metis
    then have "t \<in> set (concat (map node_ids cs))" by force
    moreover have "\<forall>c \<in> set (remove_at k cs). thin_node c" using set_remove_at [of k cs] 2(2) wf_thin by auto
    moreover have "remove_at k cs \<noteq> []"
    proof
      assume "remove_at k cs = []"
      then show False using remove_at_length [OF k(1)] 2(2) by simp
    qed
    ultimately show ?thesis
      using concat_remove_at [OF k] 2(2,3) k(1) by (simp add: n')
  qed
next
  case (4 t c cs)
  show ?case
  proof (cases "remove_leaf t c")
    case None
    then obtain ds where ds: "remove_in_children t cs = Some ds" "cs' = c # ds" using 4(5) by auto
    have "t \<notin> set (node_ids c)"
      using 4(2) [OF None _ _ ds(1)] 4(3,4) by auto
    then show ?thesis
      using 4(2) [OF None _ _ ds(1)] 4(3,4) ds(2) wf_thin [of c] by (simp add: filter_neq_id)
  next
    case (Some c')
    then have cs': "cs' = c' # cs" using 4(5) by simp
    have c': "thin_node c'" "node_ids c' = filter (\<lambda>i. i \<noteq> t) (node_ids c)" "t \<in> set (node_ids c)"
      using 4(1) [OF _ _ Some] 4(3,4) by auto
    then have "t \<notin> set (concat (map node_ids cs))" using 4(4) by auto
    then show ?thesis using c' cs' 4(3) wf_thin by (auto simp: filter_neq_id)
  qed
qed auto

lemma remove_leaf_Some:
  "t \<in> set (node_ids n) \<Longrightarrow> n \<noteq> LeafNode t \<Longrightarrow> remove_leaf t n \<noteq> None"
  "t \<in> set (concat (map node_ids cs)) \<Longrightarrow> leaf_position t cs = None \<Longrightarrow> remove_in_children t cs \<noteq> None"
  by (induction t n and t cs rule: remove_leaf_remove_in_children.induct)
    (auto split: option.splits if_splits)

section \<open>Focus\<close>

lemma index_of_nth:
  assumes "distinct ids" and "i < length ids"
  shows "index_of (ids ! i) ids = Some i"
proof -
  have "ids ! j = ids ! i \<longleftrightarrow> j = i" if "j < length ids" for j
    using assms that by (simp add: nth_eq_iff_index_eq)
  then have "find (\<lambda>j. ids ! j = ids ! i) [0..<length ids] = Some i"
    using assms(2) by (auto simp: find_Some_iff intro!: exI [of _ i])
  then show ?thesis by (simp add: index_of_def)
qed

lemma focus_next_nth:
  assumes "distinct (iter_ids l)" and "i < length (iter_ids l)"
  shows "focus_next (iter_ids l ! i) l = iter_ids l ! ((i + 1) mod length (iter_ids l))"
    and "focus_prev (iter_ids l ! i) l = iter_ids l ! ((i + length (iter_ids l) - 1 mod length (iter_ids l)) mod length (iter_ids l))"
  using assms index_of_nth [OF assms]
  by (auto simp: focus_next_def focus_prev_def focus_step_def Let_def step_index_def upt_conv_Cons simp del: upt_Suc)

lemma prev_next_index: "i < n \<Longrightarrow> ((i + 1) mod n + n - 1 mod n) mod n = (i :: nat)"
proof -
  assume i: "i < n"
  show ?thesis
  proof (cases "n = 1")
    case False
    then have "1 mod n = 1" using i by simp
    moreover have "((i + 1) mod n + n - 1) mod n = ((i + 1) mod n + (n - 1)) mod n" using i by simp
    moreover have "\<dots> = (i + 1 + (n - 1)) mod n" by (rule mod_add_left_eq)
    moreover have "i + 1 + (n - 1) = i + n" using i by simp
    ultimately show ?thesis using i by simp
  qed (use i in simp)
qed

lemma focus_next_iter:
  assumes "distinct (iter_ids l)" and "i < length (iter_ids l)"
  shows "((\<lambda>w. focus_next w l) ^^ k) (iter_ids l ! i) = iter_ids l ! ((i + k) mod length (iter_ids l))"
proof (induction k)
  case (Suc k)
  have "(i + k) mod length (iter_ids l) < length (iter_ids l)" using assms(2) by (intro mod_less_divisor) linarith
  then show ?case using Suc focus_next_nth(1) [OF assms(1)] by (simp add: mod_Suc_eq)
qed (use assms in simp)

section \<open>Quit history\<close>

fun quit_chain :: "quit_action \<Rightarrow> presentation list" where
  "quit_chain QuitDelete = []"
| "quit_chain (QuitRestore p q) = p # quit_chain q"

lemma truncate_loop_chain: "kept < cap \<Longrightarrow> quit_chain (truncate_loop cap kept q) = take (cap - kept) (quit_chain q)"
proof (induction cap kept q rule: truncate_loop.induct)
  case (2 cap kept p q)
  have "cap - kept = Suc (cap - Suc kept)" using 2(2) by simp
  then show ?case using 2 by auto
qed simp

lemma quit_depth_chain: "quit_depth q = length (quit_chain q)"
  by (induction q) auto

section \<open>Properties\<close>

text \<open>
  C16. The viewports tile the frame: for a tree with distinct windows in which every split keeps a
  child without a fixed height and its weights sum to less than \<open>2 ^ 32\<close>, every window gets a rectangle, the
  rectangles are disjoint and together they are exactly the area. Where all the children of a split are fixed, the code
  leaves a gap.
\<close>

theorem viewports_tile_frame:
  assumes "layout_ok fixed (layout_root l)" and "distinct (iter_ids l)" and "rows area < 2 ^ 32" and "cols area < 2 ^ 32"
  shows "dom (layout_compute l area fixed) = set (iter_ids l) \<and>
     (\<Union>i \<in> set (iter_ids l). cells (the (layout_compute l area fixed i))) = cells area \<and>
     disjoint_family_on (\<lambda>i. cells (the (layout_compute l area fixed i))) (set (iter_ids l))"
proof -
  have t: "tiling (layout_compute l area fixed) (set (iter_ids l)) (cells area)"
    using compute_tiles(1) assms by (simp add: layout_compute_def iter_ids_def)
  have "i \<in> set (iter_ids l)" if "i \<in> dom (layout_compute l area fixed)" for i
  proof (rule ccontr)
    assume "i \<notin> set (iter_ids l)"
    then show False
      using that compute_other(1) [of i "layout_root l" area fixed Map.empty]
      by (auto simp: layout_compute_def iter_ids_def)
  qed
  with t show ?thesis by (auto simp: tiling_def)
qed

theorem viewports_tile_frame_witness:
  "(\<Union>i \<in> {1, 2, 3}. cells (the (layout_compute
       \<lparr>layout_root = SplitNode Horizontal [1, 1] [SplitNode Vertical [2, 1] [LeafNode 1, LeafNode 2], LeafNode 3]\<rparr>
       (rect_new 0 0 24 80) [3 \<mapsto> 5] i))) = cells (rect_new 0 0 24 80)"
proof -
  let ?l = "\<lparr>layout_root = SplitNode Horizontal [1, 1] [SplitNode Vertical [2, 1] [LeafNode 1, LeafNode 2], LeafNode 3]\<rparr>"
  have ids: "iter_ids ?l = [1, 2, 3]" by (simp add: iter_ids_def)
  have "layout_ok [3 \<mapsto> 5] (layout_root ?l)"
    by (auto simp: fixed_leaf_def weight_of_def upt_rec)
  then show ?thesis
    using viewports_tile_frame [of "[3 \<mapsto> 5]" ?l "rect_new 0 0 24 80"] ids by (simp add: rect_new_def)
qed

text \<open>
  Closing the window that a split just created restores the tree, nodes, weights and order
  included.
\<close>

theorem split_then_close:
  assumes "layout_wf l" and "target \<in> set (iter_ids l)" and "w \<notin> set (iter_ids l)"
  shows "close_window w (fst (split_window target orient w l)) = (l, True)"
proof -
  obtain n' where "remove_leaf w (fst (split_node target orient w (layout_root l))) = Some n'"
    "collapse_single_child_splits n' = layout_root l"
    using split_close_node(1) [of "layout_root l" target w orient] assms by (auto simp: layout_wf_def iter_ids_def)
  then show ?thesis by (auto simp: close_window_def split_window_def split: prod.splits)
qed

theorem split_then_close_witness:
  "close_window 9 (fst (split_window 2 Vertical 9 \<lparr>layout_root = SplitNode Horizontal [3, 1] [LeafNode 1, LeafNode 2]\<rparr>)) =
     (\<lparr>layout_root = SplitNode Horizontal [3, 1] [LeafNode 1, LeafNode 2]\<rparr>, True)"
  by (rule split_then_close) (simp_all add: layout_wf_def iter_ids_def)

text \<open>
  C17. Every change of a well-formed tree (splits with at least two children, one weight per child,
  distinct windows) keeps it well-formed and changes its windows exactly as asked: a split adds the
  new window right after its target, closing removes one window unless it is the only one, and a
  side window is appended.
\<close>

theorem window_tree_changes:
  assumes "layout_wf l" and "w \<notin> set (iter_ids l)"
  shows "(case split_window target orient w l of (l', done) \<Rightarrow>
       layout_wf l' \<and> done = (target \<in> set (iter_ids l)) \<and> iter_ids l' = after_split target w (iter_ids l)) \<and>
     (case close_window target l of (l', done) \<Rightarrow>
       layout_wf l' \<and> done = (target \<in> set (iter_ids l) \<and> iter_ids l \<noteq> [target]) \<and>
       iter_ids l' = (if done then filter (\<lambda>i. i \<noteq> target) (iter_ids l) else iter_ids l)) \<and>
     layout_wf (install_side_leaf w l) \<and> iter_ids (install_side_leaf w l) = iter_ids l @ [w]"
proof (intro conjI)
  let ?r = "layout_root l"
  have wf: "wf_node ?r" "distinct (node_ids ?r)" "w \<notin> set (node_ids ?r)"
    using assms by (simp_all add: layout_wf_def iter_ids_def)
  show "case split_window target orient w l of (l', done) \<Rightarrow>
       layout_wf l' \<and> done = (target \<in> set (iter_ids l)) \<and> iter_ids l' = after_split target w (iter_ids l)"
    using split_node_spec(1) [of target orient w ?r] split_node_ids(1) [OF wf(2), of target orient w]
      split_node_wf(1) [OF wf(1), of target orient w] distinct_after_split [OF wf(2,3), of target]
    by (auto simp: split_window_def layout_wf_def iter_ids_def split: prod.splits)
  show "case close_window target l of (l', done) \<Rightarrow>
       layout_wf l' \<and> done = (target \<in> set (iter_ids l) \<and> iter_ids l \<noteq> [target]) \<and>
       iter_ids l' = (if done then filter (\<lambda>i. i \<noteq> target) (iter_ids l) else iter_ids l)"
  proof (cases "remove_leaf target ?r")
    case None
    have "\<not> (target \<in> set (node_ids ?r) \<and> node_ids ?r \<noteq> [target])"
      using remove_leaf_Some(1) [of target ?r] None by (cases "?r = LeafNode target") auto
    then show ?thesis using None assms(1) by (simp add: close_window_def iter_ids_def)
  next
    case (Some n')
    note spec = remove_leaf_spec(1) [OF wf(1,2) Some]
    have "node_ids (collapse_single_child_splits n') = filter (\<lambda>i. i \<noteq> target) (node_ids ?r)"
      "wf_node (collapse_single_child_splits n')" using collapse_thin [of n'] spec by simp_all
    moreover from this have "node_ids ?r \<noteq> [target]"
      using wf_node_ids_nonempty [of "collapse_single_child_splits n'"] by auto
    ultimately show ?thesis using Some spec wf(2) by (simp add: close_window_def layout_wf_def iter_ids_def)
  qed
  show "layout_wf (install_side_leaf w l)" "iter_ids (install_side_leaf w l) = iter_ids l @ [w]"
    using wf by (simp_all add: install_side_leaf_def layout_wf_def iter_ids_def)
qed

theorem window_tree_changes_witness:
  "iter_ids (fst (close_window 1 \<lparr>layout_root = SplitNode Horizontal [3, 1] [LeafNode 1, LeafNode 2]\<rparr>)) = [2]"
  using window_tree_changes [of "\<lparr>layout_root = SplitNode Horizontal [3, 1] [LeafNode 1, LeafNode 2]\<rparr>" 7 1 Vertical]
  by (simp add: layout_wf_def iter_ids_def split: prod.splits)

text \<open>
  Focus moves in a cycle: from any window of the tree, \<open>k\<close> steps forward lead to the window \<open>k\<close>
  places on in layout order, wrapping around, and a step back undoes a step forward.
\<close>

theorem focus_is_a_cycle:
  assumes "layout_wf l" and "i < length (iter_ids l)"
  shows "((\<lambda>w. focus_next w l) ^^ k) (iter_ids l ! i) = iter_ids l ! ((i + k) mod length (iter_ids l)) \<and>
     focus_prev (focus_next (iter_ids l ! i) l) l = iter_ids l ! i"
proof -
  have d: "distinct (iter_ids l)" using assms(1) by (simp add: layout_wf_def)
  have lt: "(i + 1) mod length (iter_ids l) < length (iter_ids l)" using assms(2) by (intro mod_less_divisor) linarith
  show ?thesis
    using focus_next_iter [OF d assms(2)] focus_next_nth(1) [OF d assms(2)] focus_next_nth(2) [OF d lt]
      prev_next_index [OF assms(2)] by simp
qed

theorem focus_is_a_cycle_witness:
  "focus_next 2 \<lparr>layout_root = SplitNode Horizontal [3, 1] [LeafNode 1, LeafNode 2]\<rparr> = 1"
  using focus_is_a_cycle [of "\<lparr>layout_root = SplitNode Horizontal [3, 1] [LeafNode 1, LeafNode 2]\<rparr>" 1 1]
  by (simp add: layout_wf_def iter_ids_def)

text \<open>
  Truncating the quit history of a side window keeps exactly its most recent presentations, in
  order, and at most as many as asked.
\<close>

theorem quit_history_truncated:
  "quit_chain (truncate_to cap q) = take cap (quit_chain q) \<and> quit_depth (truncate_to cap q) = min (quit_depth q) cap"
  using truncate_loop_chain [of 0 cap q] by (auto simp: truncate_to_def quit_depth_chain min.commute)

end
