(* ===== verification/Utf8.thy ===== *)
theory Utf8
  imports Key
begin

text \<open>
  UTF-8 as Rust's \<^verbatim>\<open>core::str\<close> defines it: encoding of a \<^verbatim>\<open>char\<close>, validation with \<^verbatim>\<open>valid_up_to\<close> and
  \<^verbatim>\<open>error_len\<close>, and lossy decoding. The terminal parser and the screen read and write text through these.
\<close>

section \<open>Encoding\<close>

text \<open>\<^verbatim>\<open>char::encode_utf8\<close>, as numbers.\<close>

definition encode_nats :: "uchar \<Rightarrow> nat list" where
  "encode_nats c =
     (if c < 128 then [c]
      else if c < 2048 then [192 + c div 64, 128 + c mod 64]
      else if c < 65536 then [224 + c div 4096, 128 + c div 64 mod 64, 128 + c mod 64]
      else [240 + c div 262144, 128 + c div 4096 mod 64, 128 + c div 64 mod 64, 128 + c mod 64])"

definition encode_char :: "uchar \<Rightarrow> byte list" where
  "encode_char c = map of_nat (encode_nats c)"

definition encode_utf8 :: "ustring \<Rightarrow> byte list" where
  "encode_utf8 s = concat (map encode_char s)"

text \<open>The Unicode scalar values, the values of \<^verbatim>\<open>char\<close>.\<close>

definition is_scalar :: "uchar \<Rightarrow> bool" where
  "is_scalar c \<longleftrightarrow> c < 55296 \<or> (57344 \<le> c \<and> c < 1114112)"

section \<open>Decoding\<close>

text \<open>
  One step of \<^verbatim>\<open>run_utf8_validation\<close>: a scalar and its width, a sequence cut short by the end of the
  input (\<^verbatim>\<open>error_len\<close> \<open>None\<close>), or an invalid sequence of the given length.
\<close>

datatype utf8_step = Scalar uchar nat | Incomplete | Invalid nat

definition is_cont :: "nat \<Rightarrow> bool" where
  "is_cont b \<longleftrightarrow> 128 \<le> b \<and> b < 192"

definition second_ok :: "nat \<Rightarrow> nat \<Rightarrow> bool" where
  "second_ok a b \<longleftrightarrow>
     (if a = 224 then 160 \<le> b \<and> b < 192
      else if a = 237 then 128 \<le> b \<and> b < 160
      else if a = 240 then 144 \<le> b \<and> b < 192
      else if a = 244 then 128 \<le> b \<and> b < 144
      else is_cont b)"

definition utf8_width :: "nat \<Rightarrow> nat" where
  "utf8_width a =
     (if a < 128 then 1 else if 194 \<le> a \<and> a < 224 then 2 else if 224 \<le> a \<and> a < 240 then 3
      else if 240 \<le> a \<and> a < 245 then 4 else 0)"

fun step_nats :: "nat list \<Rightarrow> utf8_step" where
  "step_nats [] = Incomplete"
| "step_nats (a # bs) =
     (if utf8_width a = 1 then Scalar a 1
      else if utf8_width a = 2 then
        (case bs of
           [] \<Rightarrow> Incomplete
         | b # _ \<Rightarrow> if is_cont b then Scalar ((a - 192) * 64 + (b - 128)) 2 else Invalid 1)
      else if utf8_width a = 3 then
        (case bs of
           [] \<Rightarrow> Incomplete
         | b # cs \<Rightarrow>
             if \<not> second_ok a b then Invalid 1
             else (case cs of
                     [] \<Rightarrow> Incomplete
                   | c # _ \<Rightarrow>
                       if is_cont c then Scalar ((a - 224) * 4096 + (b - 128) * 64 + (c - 128)) 3 else Invalid 2))
      else if utf8_width a = 4 then
        (case bs of
           [] \<Rightarrow> Incomplete
         | b # cs \<Rightarrow>
             if \<not> second_ok a b then Invalid 1
             else (case cs of
                     [] \<Rightarrow> Incomplete
                   | c # ds \<Rightarrow>
                       if \<not> is_cont c then Invalid 2
                       else (case ds of
                               [] \<Rightarrow> Incomplete
                             | d # _ \<Rightarrow>
                                 if is_cont d
                                 then Scalar ((a - 240) * 262144 + (b - 128) * 4096 + (c - 128) * 64 + (d - 128)) 4
                                 else Invalid 3)))
      else Invalid 1)"

definition utf8_step :: "byte list \<Rightarrow> utf8_step" where
  "utf8_step bs = step_nats (map unat bs)"

lemma step_nats_Scalar_width:
  assumes "step_nats bs = Scalar c n"
  shows "0 < n \<and> n \<le> length bs"
  using assms by (cases bs) (auto split: if_splits list.splits)

lemma step_nats_Invalid_width:
  assumes "step_nats bs = Invalid n"
  shows "0 < n \<and> n \<le> length bs"
  using assms by (cases bs) (auto split: if_splits list.splits)

lemma utf8_step_widths:
  "utf8_step bs = Scalar c n \<Longrightarrow> 0 < n \<and> n \<le> length bs"
  "utf8_step bs = Invalid n \<Longrightarrow> 0 < n \<and> n \<le> length bs"
  using step_nats_Scalar_width [of "map unat bs"] step_nats_Invalid_width [of "map unat bs"]
  by (auto simp: utf8_step_def)

text \<open>
  \<^verbatim>\<open>str::from_utf8\<close>: the characters of the valid prefix, its length \<^verbatim>\<open>valid_up_to\<close>, and the error, if any,
  with its \<^verbatim>\<open>error_len\<close>.
\<close>

function from_utf8 :: "byte list \<Rightarrow> ustring \<times> nat \<times> nat option option" where
  "from_utf8 bs =
     (if bs = [] then ([], 0, None)
      else (case utf8_step bs of
              Scalar c n \<Rightarrow> (case from_utf8 (drop n bs) of (cs, v, e) \<Rightarrow> (c # cs, n + v, e))
            | Incomplete \<Rightarrow> ([], 0, Some None)
            | Invalid k \<Rightarrow> ([], 0, Some (Some k))))"
  by pat_completeness auto
termination
  by (relation "measure length") (auto dest: utf8_step_widths)

declare from_utf8.simps [simp del]

text \<open>The text of a valid byte string, \<open>None\<close> for \<^verbatim>\<open>Err\<close>.\<close>

definition utf8_text :: "byte list \<Rightarrow> ustring option" where
  "utf8_text bs = (case from_utf8 bs of (cs, _, None) \<Rightarrow> Some cs | _ \<Rightarrow> None)"

definition REPLACEMENT :: uchar where
  "REPLACEMENT = 65533"

text \<open>\<^verbatim>\<open>String::from_utf8_lossy\<close>.\<close>

function from_utf8_lossy :: "byte list \<Rightarrow> ustring" where
  "from_utf8_lossy bs =
     (if bs = [] then []
      else (case utf8_step bs of
              Scalar c n \<Rightarrow> c # from_utf8_lossy (drop n bs)
            | Incomplete \<Rightarrow> [REPLACEMENT]
            | Invalid k \<Rightarrow> REPLACEMENT # from_utf8_lossy (drop k bs)))"
  by pat_completeness auto
termination
  by (relation "measure length") (auto dest: utf8_step_widths)

declare from_utf8_lossy.simps [simp del]

section \<open>Decoding inverts encoding\<close>

lemma encode_nats_bytes: "is_scalar c \<Longrightarrow> b \<in> set (encode_nats c) \<Longrightarrow> b < 256"
  by (auto simp: encode_nats_def is_scalar_def split: if_splits)

lemma div_mod_join:
  fixes c :: nat
  shows "c div 4096 * 4096 + c div 64 mod 64 * 64 + c mod 64 = c"
    "c div 262144 * 262144 + c div 4096 mod 64 * 4096 + c div 64 mod 64 * 64 + c mod 64 = c"
proof -
  have d: "c div 4096 = c div 64 div 64" "c div 262144 = c div 4096 div 64"
    by (simp_all add: div_mult2_eq [symmetric])
  have m: "c div 64 * 64 + c mod 64 = c" "c div 64 div 64 * 64 + c div 64 mod 64 = c div 64"
    "c div 4096 div 64 * 64 + c div 4096 mod 64 = c div 4096" by (rule div_mult_mod_eq)+
  show one: "c div 4096 * 4096 + c div 64 mod 64 * 64 + c mod 64 = c" using d(1) m(1,2) by linarith
  show "c div 262144 * 262144 + c div 4096 mod 64 * 4096 + c div 64 mod 64 * 64 + c mod 64 = c"
    using d(2) m(3) one by linarith
qed

lemma second_ok3:
  assumes "2048 \<le> c" "c < 65536" "is_scalar c"
  shows "second_ok (224 + c div 4096) (128 + c div 64 mod 64)"
proof -
  define q r t where "q = c div 4096" and "r = c div 64 mod 64" and "t = c mod 64"
  have c: "q * 4096 + r * 64 + t = c" "r < 64" "t < 64" using div_mod_join(1) [of c] by (simp_all add: q_def r_def t_def)
  have "q = 0 \<Longrightarrow> 32 \<le> r" "q = 13 \<Longrightarrow> r < 32" using c assms by (auto simp: is_scalar_def)
  moreover have "q < 16" using c assms by linarith
  ultimately show ?thesis using c(2) unfolding q_def [symmetric] r_def [symmetric]
    by (auto simp: second_ok_def is_cont_def)
qed

lemma second_ok4:
  assumes "65536 \<le> c" "is_scalar c"
  shows "second_ok (240 + c div 262144) (128 + c div 4096 mod 64) \<and> c div 262144 < 5"
proof -
  define q r t u where "q = c div 262144" and "r = c div 4096 mod 64" and "t = c div 64 mod 64" and "u = c mod 64"
  have c: "q * 262144 + r * 4096 + t * 64 + u = c" "r < 64" "t < 64" "u < 64"
    using div_mod_join(2) [of c] by (simp_all add: q_def r_def t_def u_def)
  have "q = 0 \<Longrightarrow> 16 \<le> r" "q = 4 \<Longrightarrow> r < 16" using c assms by (auto simp: is_scalar_def)
  moreover have "q < 5" using c assms by (auto simp: is_scalar_def)
  ultimately show ?thesis using c(2) unfolding q_def [symmetric] r_def [symmetric]
    by (auto simp: second_ok_def is_cont_def)
qed

lemma step_encode_nats:
  assumes "is_scalar c"
  shows "step_nats (encode_nats c @ bs) = Scalar c (length (encode_nats c))"
proof -
  consider "c < 128" | "128 \<le> c" "c < 2048" | "2048 \<le> c" "c < 65536" | "65536 \<le> c" by linarith
  then show ?thesis
  proof cases
    case 1
    then show ?thesis by (simp add: encode_nats_def utf8_width_def)
  next
    case 2
    have "2 \<le> c div 64" "c div 64 < 32" using 2 div_le_mono [of 128 c 64] by (simp_all add: less_mult_imp_div_less)
    then have "utf8_width (192 + c div 64) = 2" by (simp add: utf8_width_def)
    moreover have "c div 64 * 64 + c mod 64 = c" by (rule div_mult_mod_eq)
    ultimately show ?thesis using 2 by (simp add: encode_nats_def is_cont_def)
  next
    case 3
    have "c div 4096 < 16" using 3 by (simp add: less_mult_imp_div_less)
    then have "utf8_width (224 + c div 4096) = 3" by (simp add: utf8_width_def)
    then show ?thesis
      using 3 second_ok3 [OF 3 assms] div_mod_join(1) [of c] by (simp add: encode_nats_def is_cont_def)
  next
    case 4
    have "utf8_width (240 + c div 262144) = 4" using second_ok4 [OF 4 assms] by (simp add: utf8_width_def)
    then show ?thesis
      using 4 second_ok4 [OF 4 assms] div_mod_join(2) [of c] by (simp add: encode_nats_def is_cont_def)
  qed
qed

lemma map_unat_encode_char: "is_scalar c \<Longrightarrow> map unat (encode_char c) = encode_nats c"
  by (auto simp: encode_char_def unat_of_nat take_bit_eq_mod encode_nats_bytes intro!: map_idI)

lemma utf8_step_encode:
  "is_scalar c \<Longrightarrow> utf8_step (encode_char c @ bs) = Scalar c (length (encode_char c))"
  using step_encode_nats [of c "map unat bs"] map_unat_encode_char [of c]
  by (simp add: utf8_step_def) (metis length_map)

lemma encode_char_nonempty [simp]: "encode_char c \<noteq> []"
  by (simp add: encode_char_def encode_nats_def)

lemma from_utf8_encode:
  "\<forall>c \<in> set s. is_scalar c \<Longrightarrow> from_utf8 (encode_utf8 s) = (s, length (encode_utf8 s), None)"
proof (induction s)
  case Nil
  then show ?case by (simp add: encode_utf8_def from_utf8.simps)
next
  case (Cons c s)
  then show ?case
    using utf8_step_encode [of c "encode_utf8 s"]
    by (subst from_utf8.simps) (simp add: encode_utf8_def)
qed

lemma utf8_text_encode [simp]: "\<forall>c \<in> set s. is_scalar c \<Longrightarrow> utf8_text (encode_utf8 s) = Some s"
  by (simp add: utf8_text_def from_utf8_encode)

end
