(* ===== verification/Cell.thy ===== *)
theory Cell
  imports Utf8
begin

text \<open>
  The cells every renderer writes, \<^verbatim>\<open>src/pmacs-protocol/src/cell.rs\<close>: glyphs, colours, styles and sizes.
\<close>

record cell_coord =
  coord_row :: nat
  coord_col :: nat

record cell_size =
  size_rows :: nat
  size_cols :: nat

definition coord_new :: "nat \<Rightarrow> nat \<Rightarrow> cell_coord" where
  "coord_new r c = \<lparr>coord_row = r, coord_col = c\<rparr>"

datatype glyph = GChar uchar | Cluster "byte list" | Continuation

datatype color = DefaultColor | Rgb byte byte byte | Indexed byte

datatype underline_style = UnderlineNone | UnderlineSingle | UnderlineDouble | UnderlineCurly | UnderlineDotted | UnderlineDashed

record style =
  fg :: color
  bg :: color
  bold :: bool
  italic :: bool
  underline :: underline_style
  reverse :: bool
  underline_color :: color

definition default_style :: style where
  "default_style =
     \<lparr>fg = DefaultColor, bg = DefaultColor, bold = False, italic = False, underline = UnderlineNone,
      reverse = False, underline_color = DefaultColor\<rparr>"

datatype attachment = ImageCell (image_id: nat) (sub_x: nat) (sub_y: nat)

record cell =
  cell_glyph :: glyph
  cell_style :: style
  cell_attachment :: "attachment option"

end
