(* ===== verification/Ansi_Event.thy ===== *)
theory Ansi_Event
  imports Cell
begin

text \<open>
  The interface between the escape-sequence parser and the terminal screen: the events and their
  payloads, as \<^verbatim>\<open>src/src/ansi.rs\<close> declares them. A \<^verbatim>\<open>u32\<close> count is a natural number.
\<close>

datatype erase_mode = ToEnd | ToStart | EraseAll | Saved

datatype alternate_screen_mode = Mode47 | Mode1047 | Mode1049

datatype terminal_mode =
    ModeInsert | ModeOrigin | AutoWrap | ApplicationCursor | ApplicationKeypad | CursorVisible
  | BracketedPaste | FocusReporting | SynchronizedOutput | MouseX10 | MouseButton | MouseAny | MouseSgr

datatype character_set_slot = G0 | G1

datatype character_set = Ascii | DecSpecialGraphics

datatype device_request = PrimaryAttributes | SecondaryAttributes | OperatingStatus | CursorPositionReport

datatype ansi_event =
    Text ustring
  | SetStyle style
  | CarriageReturn
  | Backspace
  | EraseToEol
  | EraseLine
  | SetTitle ustring
  | PromptStart
  | PromptEnd
  | CommandStart
  | OutputStart
  | BracketedPasteBegin
  | BracketedPasteEnd
  | AlternateScreenEnter
  | AlternateScreenExit
  | Bell
  | LineFeed
  | Index
  | NextLine
  | ReverseIndex
  | HorizontalTab
  | SetTabStop
  | ClearTabStop
  | ClearAllTabStops
  | CursorUp nat
  | CursorDown nat
  | CursorForward nat
  | CursorBackward nat
  | CursorNextLine nat
  | CursorPreviousLine nat
  | CursorHorizontalAbsolute nat
  | CursorVerticalAbsolute nat
  | CursorPosition nat nat
  | EraseDisplay erase_mode
  | EraseLineMode erase_mode
  | EraseCharacters nat
  | InsertCharacters nat
  | DeleteCharacters nat
  | InsertLines nat
  | DeleteLines nat
  | ScrollUp nat
  | ScrollDown nat
  | SetScrollingRegion nat "nat option"
  | SaveCursor
  | RestoreCursor
  | AlternateScreen alternate_screen_mode bool
  | SetMode terminal_mode bool
  | DesignateCharacterSet character_set_slot character_set
  | ShiftOut
  | ShiftIn
  | DeviceRequest device_request

end
