(* ===== verification/Checked.thy ===== *)
theory Checked
  imports Prelude "HOL-Library.Monad_Syntax"
begin

text \<open>
  Rust's checked operations on vectors and unsigned integers, with \<open>None\<close> for the panic, and the rules
  by which a computation built from them is shown to return.
\<close>

section \<open>Operations that may panic\<close>

definition nth_opt :: "'a list \<Rightarrow> nat \<Rightarrow> 'a option" where
  "nth_opt xs i = (if i < length xs then Some (xs ! i) else None)"

definition upd_opt :: "'a list \<Rightarrow> nat \<Rightarrow> 'a \<Rightarrow> 'a list option" where
  "upd_opt xs i v = (if i < length xs then Some (xs[i := v]) else None)"

definition sub_opt :: "nat \<Rightarrow> nat \<Rightarrow> nat option" where
  "sub_opt a b = (if b \<le> a then Some (a - b) else None)"

text \<open>\<^verbatim>\<open>Vec::remove\<close>, \<^verbatim>\<open>Vec::insert\<close>, and filling and rotating a slice.\<close>

definition remove_opt :: "nat \<Rightarrow> 'a list \<Rightarrow> ('a \<times> 'a list) option" where
  "remove_opt i xs = (if i < length xs then Some (xs ! i, take i xs @ drop (Suc i) xs) else None)"

definition insert_opt :: "nat \<Rightarrow> 'a \<Rightarrow> 'a list \<Rightarrow> 'a list option" where
  "insert_opt i v xs = (if i \<le> length xs then Some (take i xs @ v # drop i xs) else None)"

definition fill_opt :: "nat \<Rightarrow> nat \<Rightarrow> 'a \<Rightarrow> 'a list \<Rightarrow> 'a list option" where
  "fill_opt s e v xs =
     (if s \<le> e \<and> e \<le> length xs then Some (take s xs @ replicate (e - s) v @ drop e xs) else None)"

definition rotate_right_opt :: "nat \<Rightarrow> nat \<Rightarrow> 'a list \<Rightarrow> 'a list option" where
  "rotate_right_opt s n xs =
     (if s \<le> length xs \<and> n \<le> length xs - s
      then (let ys = drop s xs; k = length ys - n in Some (take s xs @ drop k ys @ take k ys)) else None)"

definition rotate_left_opt :: "nat \<Rightarrow> nat \<Rightarrow> 'a list \<Rightarrow> 'a list option" where
  "rotate_left_opt s n xs =
     (if s \<le> length xs \<and> n \<le> length xs - s
      then (let ys = drop s xs in Some (take s xs @ drop n ys @ take n ys)) else None)"

text \<open>\<^verbatim>\<open>Ord::clamp\<close> panics when the bounds are crossed.\<close>

definition clamp_opt :: "nat \<Rightarrow> nat \<Rightarrow> nat \<Rightarrow> nat option" where
  "clamp_opt lo hi n = (if lo \<le> hi then Some (max lo (min hi n)) else None)"

definition resize_list :: "nat \<Rightarrow> 'a \<Rightarrow> 'a list \<Rightarrow> 'a list" where
  "resize_list n v xs = take n xs @ replicate (n - length xs) v"

section \<open>Returning\<close>

text \<open>\<open>returns m Q\<close>: the computation does not panic and its result satisfies \<open>Q\<close>.\<close>

definition returns :: "'a option \<Rightarrow> ('a \<Rightarrow> bool) \<Rightarrow> bool" where
  "returns m Q \<longleftrightarrow> (\<exists>x. m = Some x \<and> Q x)"

named_theorems returns_rules \<open>how the checked operations return\<close>

lemma returns_Some [simp]: "returns (Some x) Q \<longleftrightarrow> Q x"
  by (simp add: returns_def)

lemma returns_None [simp]: "\<not> returns None Q"
  by (simp add: returns_def)

lemma returns_bind: "returns m P \<Longrightarrow> (\<And>x. P x \<Longrightarrow> returns (f x) Q) \<Longrightarrow> returns (Option.bind m f) Q"
  by (auto simp: returns_def)

lemma returns_weaken: "returns m P \<Longrightarrow> (\<And>x. P x \<Longrightarrow> Q x) \<Longrightarrow> returns m Q"
  by (auto simp: returns_def)

lemma returnsE:
  assumes "returns m Q"
  obtains x where "m = Some x" "Q x"
  using assms by (auto simp: returns_def)

lemma returns_nth_opt [returns_rules]: "i < length xs \<Longrightarrow> nth_opt xs i = Some (xs ! i)"
  by (simp add: nth_opt_def)

lemma returns_upd_opt [returns_rules]: "i < length xs \<Longrightarrow> upd_opt xs i v = Some (xs[i := v])"
  by (simp add: upd_opt_def)

lemma returns_sub_opt [returns_rules]: "b \<le> a \<Longrightarrow> sub_opt a b = Some (a - b)"
  by (simp add: sub_opt_def)

lemma returns_clamp_opt [returns_rules]: "lo \<le> hi \<Longrightarrow> clamp_opt lo hi n = Some (max lo (min hi n))"
  by (simp add: clamp_opt_def)

lemma returns_remove_opt [returns_rules]:
  "i < length xs \<Longrightarrow> remove_opt i xs = Some (xs ! i, take i xs @ drop (Suc i) xs)"
  by (simp add: remove_opt_def)

lemma returns_insert_opt [returns_rules]:
  "i \<le> length xs \<Longrightarrow> insert_opt i v xs = Some (take i xs @ v # drop i xs)"
  by (simp add: insert_opt_def)

lemma returns_fill_opt [returns_rules]:
  "s \<le> e \<Longrightarrow> e \<le> length xs \<Longrightarrow> fill_opt s e v xs = Some (take s xs @ replicate (e - s) v @ drop e xs)"
  by (simp add: fill_opt_def)

lemma returns_rotate_right_opt [returns_rules]:
  "s + n \<le> length xs \<Longrightarrow> \<exists>ys. rotate_right_opt s n xs = Some ys \<and> length ys = length xs"
  by (simp add: rotate_right_opt_def Let_def)

lemma returns_rotate_left_opt [returns_rules]:
  "s + n \<le> length xs \<Longrightarrow> \<exists>ys. rotate_left_opt s n xs = Some ys \<and> length ys = length xs"
  by (simp add: rotate_left_opt_def Let_def)

lemma length_resize_list [simp]: "length (resize_list n v xs) = n"
  by (simp add: resize_list_def)

end
