(* ===== verification/Terminal_Screen.thy ===== *)
theory Terminal_Screen
  imports Ansi_Event Checked
begin

text \<open>
  The terminal screen, \<^verbatim>\<open>src/src/terminal/screen.rs\<close>: the grid of cells that the events of the escape-sequence
  parser write. An operation returns \<open>None\<close> where the source panics (an index or slice out of range, an
  unsigned subtraction below zero, a crossed \<^verbatim>\<open>clamp\<close>). Character widths and grapheme boundaries come from the
  packages \<^verbatim>\<open>unicode-width\<close> and \<^verbatim>\<open>unicode-segmentation\<close>: the record \<open>unicode\<close> is their parameter. Time is a
  number of milliseconds, read by the caller.
\<close>

record unicode =
  char_width :: "uchar \<Rightarrow> nat option"
  str_width :: "ustring \<Rightarrow> nat"
  one_grapheme :: "ustring \<Rightarrow> bool"

section \<open>Limits and counters\<close>

definition MAX_TERMINAL_ROWS :: nat where "MAX_TERMINAL_ROWS = 512"
definition MAX_TERMINAL_COLS :: nat where "MAX_TERMINAL_COLS = 512"
definition MAX_TERMINAL_VISIBLE_CELLS :: nat where "MAX_TERMINAL_VISIBLE_CELLS = 262144"
definition MAX_TERMINAL_GRAPHEME_BYTES :: nat where "MAX_TERMINAL_GRAPHEME_BYTES = 256"
definition MAX_TERMINAL_METADATA_BYTES :: nat where "MAX_TERMINAL_METADATA_BYTES = 1024"
definition MAX_TERMINAL_HISTORY_CELLS :: nat where "MAX_TERMINAL_HISTORY_CELLS = 4000000"
definition SYNCHRONIZED_OUTPUT_WATCHDOG :: nat where "SYNCHRONIZED_OUTPUT_WATCHDOG = 1000"

text \<open>\<^verbatim>\<open>saturating_add\<close> on the \<^verbatim>\<open>u64\<close> counters and on a \<^verbatim>\<open>u32\<close> offset; plain \<^verbatim>\<open>u32\<close> arithmetic wraps.\<close>

definition sat64 :: "nat \<Rightarrow> nat" where "sat64 n = min (n + 1) 18446744073709551615"
definition sat32 :: "nat \<Rightarrow> nat" where "sat32 n = min n 4294967295"
definition wrap32 :: "nat \<Rightarrow> nat" where "wrap32 n = n mod 4294967296"

section \<open>State\<close>

datatype screen_error = InvalidSize cell_size

datatype mouse_tracking_mode = MouseOff | MouseX10Mode | MouseButtonMode | MouseAnyMode

record terminal_modes =
  insert_mode :: bool
  origin :: bool
  autowrap :: bool
  application_cursor :: bool
  application_keypad :: bool
  cursor_visible :: bool
  bracketed_paste :: bool
  focus_reporting :: bool
  synchronized_output :: bool
  mouse_tracking :: mouse_tracking_mode
  mouse_sgr :: bool

definition default_modes :: terminal_modes where
  "default_modes =
     \<lparr>insert_mode = False, origin = False, autowrap = True, application_cursor = False, application_keypad = False,
      cursor_visible = True, bracketed_paste = False, focus_reporting = False, synchronized_output = False,
      mouse_tracking = MouseOff, mouse_sgr = False\<rparr>"

record terminal_row =
  cells :: "cell list"
  logical_line_id :: nat
  cell_offset :: nat
  soft_wrapped :: bool

record screen_snapshot =
  snap_size :: cell_size
  snap_cells :: "cell list"
  snap_cursor :: "cell_coord option"
  snap_title :: "ustring option"
  snap_generation :: nat

record screen_projection =
  proj_size :: cell_size
  proj_alternate_active :: bool
  proj_history :: "terminal_row list"
  proj_visible_rows :: "terminal_row list"
  proj_cursor :: "cell_coord option"
  proj_title :: "ustring option"
  proj_generation :: nat
  proj_mapping_revision :: nat

record cursor =
  cur_row :: nat
  cur_col :: nat
  pending_wrap :: bool

definition default_cursor :: cursor where
  "default_cursor = \<lparr>cur_row = 0, cur_col = 0, pending_wrap = False\<rparr>"

record saved_cursor =
  saved_pos :: cursor
  saved_style :: style
  saved_g0 :: character_set
  saved_g1 :: character_set
  saved_use_g1 :: bool

record grid =
  grid_rows :: "terminal_row list"
  grid_history :: "terminal_row list"

record screen =
  scr_size :: cell_size
  main_grid :: grid
  alt_grid :: grid
  alt_active :: bool
  cursor :: cursor
  saved_main_cursor :: "saved_cursor option"
  saved_alt_cursor :: "saved_cursor option"
  saved_main_1049 :: "saved_cursor option"
  inactive_main_cursor :: cursor
  inactive_alt_cursor :: cursor
  pen :: style
  modes :: terminal_modes
  scroll_top :: nat
  scroll_bottom :: nat
  tab_stops :: "nat list"
  title :: "ustring option"
  generation :: nat
  mapping_revision :: nat
  published :: screen_projection
  sync_started :: "nat option"
  next_line_id :: nat
  scrollback_rows :: nat
  charset_g0 :: character_set
  charset_g1 :: character_set
  use_g1 :: bool
  bell_count :: nat
  mouse_x10 :: bool
  mouse_button :: bool
  mouse_any :: bool
  last_grapheme :: "(nat \<times> nat) option"

abbreviation nrows :: "screen \<Rightarrow> nat" where "nrows s \<equiv> size_rows (scr_size s)"
abbreviation ncols :: "screen \<Rightarrow> nat" where "ncols s \<equiv> size_cols (scr_size s)"

section \<open>Cells and rows\<close>

definition mk_cell :: "glyph \<Rightarrow> style \<Rightarrow> cell" where
  "mk_cell g st = \<lparr>cell_glyph = g, cell_style = st, cell_attachment = None\<rparr>"

definition blank :: "style \<Rightarrow> cell" where
  "blank st = mk_cell (GChar 32) st"

definition is_blank :: "cell \<Rightarrow> bool" where
  "is_blank c \<longleftrightarrow> cell_glyph c = GChar 32 \<and> cell_style c = default_style \<and> cell_attachment c = None"

definition row_new :: "nat \<Rightarrow> nat \<Rightarrow> style \<Rightarrow> terminal_row" where
  "row_new n ident st = \<lparr>cells = replicate n (blank st), logical_line_id = ident, cell_offset = 0, soft_wrapped = False\<rparr>"

text \<open>\<^verbatim>\<open>Grid::new\<close> returns the grid and the advanced line id.\<close>

fun rows_new :: "nat \<Rightarrow> nat \<Rightarrow> nat \<Rightarrow> terminal_row list \<times> nat" where
  "rows_new 0 n ident = ([], ident)"
| "rows_new (Suc k) n ident =
     (case rows_new k n (sat64 ident) of (rs, ident') \<Rightarrow> (row_new n ident default_style # rs, ident'))"

definition grid_new :: "cell_size \<Rightarrow> nat \<Rightarrow> grid \<times> nat" where
  "grid_new sz ident =
     (case rows_new (size_rows sz) (size_cols sz) ident of
        (rs, ident') \<Rightarrow> (\<lparr>grid_rows = rs, grid_history = []\<rparr>, ident'))"

definition validate_size :: "cell_size \<Rightarrow> bool" where
  "validate_size sz \<longleftrightarrow>
     \<not> (size_rows sz = 0 \<or> size_cols sz = 0 \<or> MAX_TERMINAL_ROWS < size_rows sz \<or> MAX_TERMINAL_COLS < size_cols sz \<or>
        MAX_TERMINAL_VISIBLE_CELLS < size_rows sz * size_cols sz)"

definition default_tab_stops :: "nat \<Rightarrow> nat list" where
  "default_tab_stops n = filter (\<lambda>c. c mod 8 = 0) [8..<n]"

definition flatten :: "terminal_row list \<Rightarrow> cell list" where
  "flatten rs = concat (map cells rs)"

definition last_nonblank :: "cell list \<Rightarrow> nat" where
  "last_nonblank cs = length (rev (dropWhile is_blank (rev cs)))"

definition glyph_bytes :: "glyph \<Rightarrow> byte list" where
  "glyph_bytes g = (case g of GChar c \<Rightarrow> encode_char c | Cluster bs \<Rightarrow> bs | Continuation \<Rightarrow> [])"

definition char_cols :: "unicode \<Rightarrow> uchar \<Rightarrow> nat" where
  "char_cols u c = min 2 (case char_width u c of Some w \<Rightarrow> w | None \<Rightarrow> 0)"

definition glyph_width :: "unicode \<Rightarrow> glyph \<Rightarrow> nat" where
  "glyph_width u g =
     (case g of
        GChar c \<Rightarrow> char_cols u c
      | Cluster bs \<Rightarrow> (case utf8_text bs of Some t \<Rightarrow> min 2 (str_width u t) | None \<Rightarrow> 1)
      | Continuation \<Rightarrow> 0)"

text \<open>
  The two passes of \<^verbatim>\<open>sanitize_row\<close>: a continuation whose left neighbour is not wide, then a wide glyph that no
  continuation follows, becomes a blank. The first reads the neighbour it has just written.
\<close>

fun sanitize_continuations :: "unicode \<Rightarrow> style \<Rightarrow> nat \<Rightarrow> cell list \<Rightarrow> cell list" where
  "sanitize_continuations u st prev [] = []"
| "sanitize_continuations u st prev (c # cs) =
     (let c' = (if cell_glyph c = Continuation \<and> prev \<noteq> 2 then blank st else c)
      in c' # sanitize_continuations u st (glyph_width u (cell_glyph c')) cs)"

fun sanitize_leads :: "unicode \<Rightarrow> style \<Rightarrow> cell list \<Rightarrow> cell list" where
  "sanitize_leads u st [] = []"
| "sanitize_leads u st (c # cs) =
     (if glyph_width u (cell_glyph c) = 2 \<and> (case cs of [] \<Rightarrow> True | d # _ \<Rightarrow> cell_glyph d \<noteq> Continuation)
      then blank st else c) # sanitize_leads u st cs"

definition sanitize_row :: "unicode \<Rightarrow> style \<Rightarrow> cell list \<Rightarrow> cell list" where
  "sanitize_row u st cs = sanitize_leads u st (sanitize_continuations u st 0 cs)"

text \<open>\<^verbatim>\<open>char::is_control\<close>, and the longest prefix that fits in a number of bytes.\<close>

definition is_control :: "uchar \<Rightarrow> bool" where
  "is_control c \<longleftrightarrow> c < 32 \<or> (127 \<le> c \<and> c < 160)"

fun take_bytes :: "nat \<Rightarrow> ustring \<Rightarrow> ustring" where
  "take_bytes n [] = []"
| "take_bytes n (c # cs) =
     (if length (encode_char c) \<le> n then c # take_bytes (n - length (encode_char c)) cs else [])"

definition sanitize_title :: "ustring \<Rightarrow> ustring" where
  "sanitize_title s =
     (let t = map (\<lambda>c. if is_control c then 32 else c) s
      in if MAX_TERMINAL_METADATA_BYTES < length (encode_utf8 t) then take_bytes MAX_TERMINAL_METADATA_BYTES t else t)"

definition dec_table :: "(nat \<times> nat) list" where
  "dec_table = [(96, 9670), (97, 9618), (102, 176), (103, 177), (106, 9496), (107, 9488), (108, 9484), (109, 9492),
     (110, 9532), (111, 9146), (112, 9147), (113, 9472), (114, 9148), (115, 9149), (116, 9500), (117, 9508),
     (118, 9524), (119, 9516), (120, 9474), (121, 8804), (122, 8805), (123, 960), (124, 8800), (125, 163), (126, 183)]"

definition dec_special_graphics :: "uchar \<Rightarrow> uchar" where
  "dec_special_graphics c = (case map_of dec_table c of Some d \<Rightarrow> d | None \<Rightarrow> c)"

section \<open>The screen\<close>

definition active :: "screen \<Rightarrow> grid" where
  "active s = (if alt_active s then alt_grid s else main_grid s)"

abbreviation active_rows :: "screen \<Rightarrow> terminal_row list" where
  "active_rows s \<equiv> grid_rows (active s)"

definition set_rows :: "terminal_row list \<Rightarrow> screen \<Rightarrow> screen" where
  "set_rows rs s =
     (if alt_active s then s\<lparr>alt_grid := (alt_grid s)\<lparr>grid_rows := rs\<rparr>\<rparr>
      else s\<lparr>main_grid := (main_grid s)\<lparr>grid_rows := rs\<rparr>\<rparr>)"

definition row_at :: "nat \<Rightarrow> screen \<Rightarrow> terminal_row option" where
  "row_at r s = nth_opt (active_rows s) r"

definition put_row :: "nat \<Rightarrow> terminal_row \<Rightarrow> screen \<Rightarrow> screen option" where
  "put_row r row s = do { rs \<leftarrow> upd_opt (active_rows s) r row; Some (set_rows rs s) }"

definition put_cell :: "nat \<Rightarrow> nat \<Rightarrow> cell \<Rightarrow> screen \<Rightarrow> screen option" where
  "put_cell r c v s =
     do { row \<leftarrow> row_at r s; cs \<leftarrow> upd_opt (cells row) c v; put_row r (row\<lparr>cells := cs\<rparr>) s }"

definition changed :: "screen \<Rightarrow> screen" where
  "changed s = s\<lparr>generation := sat64 (generation s), mapping_revision := sat64 (mapping_revision s)\<rparr>"

definition display_only_changed :: "screen \<Rightarrow> screen" where
  "display_only_changed s = s\<lparr>generation := sat64 (generation s)\<rparr>"

definition move_to :: "nat \<Rightarrow> nat \<Rightarrow> bool \<Rightarrow> screen \<Rightarrow> screen" where
  "move_to r c w s = s\<lparr>cursor := \<lparr>cur_row = r, cur_col = c, pending_wrap = w\<rparr>\<rparr>"

definition no_wrap :: "screen \<Rightarrow> screen" where
  "no_wrap s = s\<lparr>cursor := (cursor s)\<lparr>pending_wrap := False\<rparr>\<rparr>"

definition set_cursor_col :: "nat \<Rightarrow> screen \<Rightarrow> screen" where
  "set_cursor_col c s = s\<lparr>cursor := (cursor s)\<lparr>cur_col := c\<rparr>\<rparr>"

definition set_cursor_row :: "nat \<Rightarrow> screen \<Rightarrow> screen" where
  "set_cursor_row r s = s\<lparr>cursor := (cursor s)\<lparr>cur_row := r\<rparr>\<rparr>"

definition new_row :: "screen \<Rightarrow> terminal_row \<times> screen" where
  "new_row s = (row_new (ncols s) (next_line_id s) (pen s), s\<lparr>next_line_id := sat64 (next_line_id s)\<rparr>)"

fun trim_history :: "nat \<Rightarrow> nat \<Rightarrow> terminal_row list \<Rightarrow> terminal_row list" where
  "trim_history sb n [] = []"
| "trim_history sb n (r # rs) =
     (if sb < length (r # rs) \<or> MAX_TERMINAL_HISTORY_CELLS < length (r # rs) * n then trim_history sb n rs else r # rs)"

definition enforce_history_budget :: "screen \<Rightarrow> screen" where
  "enforce_history_budget s =
     s\<lparr>main_grid := (main_grid s)\<lparr>grid_history := trim_history (scrollback_rows s) (ncols s) (grid_history (main_grid s))\<rparr>\<rparr>"

subsection \<open>Logical lines\<close>

text \<open>The loop of \<^verbatim>\<open>break_chain_after\<close> over the rows below; it returns the rows and the next free id.\<close>

fun rechain :: "nat \<Rightarrow> nat \<Rightarrow> nat \<Rightarrow> nat \<Rightarrow> nat \<Rightarrow> terminal_row list \<Rightarrow> terminal_row list \<times> nat" where
  "rechain n old_id ident offset nxt [] = ([], nxt)"
| "rechain n old_id ident offset nxt (r # rs) =
     (if logical_line_id r \<noteq> old_id then (r # rs, nxt)
      else (case (if soft_wrapped r then rechain n old_id ident (sat32 (offset + n)) nxt rs
                  else rechain n old_id nxt 0 (sat64 nxt) rs) of
              (rs', nxt') \<Rightarrow> (r\<lparr>logical_line_id := ident, cell_offset := offset\<rparr> # rs', nxt')))"

definition break_chain_after :: "nat \<Rightarrow> screen \<Rightarrow> screen option" where
  "break_chain_after r s = do {
     row \<leftarrow> row_at r s;
     let rs = active_rows s;
     if length rs \<le> r + 1 \<or> logical_line_id (rs ! (r + 1)) \<noteq> logical_line_id row then Some s
     else (case rechain (ncols s) (logical_line_id row) (next_line_id s) 0 (sat64 (next_line_id s)) (drop (r + 1) rs) of
             (rs', nxt) \<Rightarrow> Some (set_rows (take (r + 1) rs @ rs') (s\<lparr>next_line_id := nxt\<rparr>)))
   }"

subsection \<open>Clearing\<close>

definition wide_lead :: "nat \<Rightarrow> nat \<Rightarrow> screen \<Rightarrow> nat option" where
  "wide_lead r c s = do {
     row \<leftarrow> row_at r s;
     x \<leftarrow> nth_opt (cells row) c;
     Some (if cell_glyph x = Continuation \<and> 0 < c then c - 1 else c)
   }"

definition clear_wide_at :: "nat \<Rightarrow> nat \<Rightarrow> screen \<Rightarrow> screen option" where
  "clear_wide_at r c s =
     (if ncols s \<le> c then Some s
      else do {
        lead \<leftarrow> wide_lead r c s;
        row \<leftarrow> row_at r s;
        let wide = (lead + 1 < length (cells row) \<and> cell_glyph (cells row ! (lead + 1)) = Continuation);
        s' \<leftarrow> put_cell r lead (blank (pen s)) s;
        if wide then put_cell r (lead + 1) (blank (pen s)) s' else Some s'
      })"

definition clear_range :: "nat \<Rightarrow> nat \<Rightarrow> nat \<Rightarrow> screen \<Rightarrow> screen option" where
  "clear_range r st en s =
     (if en \<le> st then Some s
      else do {
        s1 \<leftarrow> clear_wide_at r st s;
        s2 \<leftarrow> clear_wide_at r (en - 1) s1;
        row \<leftarrow> row_at r s2;
        cs \<leftarrow> fill_opt st en (blank (pen s2)) (cells row);
        put_row r (row\<lparr>cells := cs\<rparr>) s2
      })"

text \<open>Clearing a row first cuts it off from the wrapped row above it.\<close>

definition cut_above :: "nat \<Rightarrow> screen \<Rightarrow> screen option" where
  "cut_above r s =
     (if r = 0 then Some s
      else do {
        above \<leftarrow> row_at (r - 1) s;
        row \<leftarrow> row_at r s;
        if soft_wrapped above \<and> logical_line_id above = logical_line_id row
        then do { s' \<leftarrow> put_row (r - 1) (above\<lparr>soft_wrapped := False\<rparr>) s; break_chain_after (r - 1) s' }
        else Some s
      })"

definition clear_row :: "nat \<Rightarrow> screen \<Rightarrow> screen option" where
  "clear_row r s = do {
     s1 \<leftarrow> cut_above r s;
     row \<leftarrow> row_at r s1;
     s2 \<leftarrow> put_row r (row\<lparr>cells := replicate (length (cells row)) (blank (pen s1)), soft_wrapped := False\<rparr>) s1;
     break_chain_after r s2
   }"

fun clear_rows :: "nat list \<Rightarrow> screen \<Rightarrow> screen option" where
  "clear_rows [] s = Some s"
| "clear_rows (r # rs) s = do { s' \<leftarrow> clear_row r s; clear_rows rs s' }"

subsection \<open>Scrolling\<close>

text \<open>
  A row that leaves the top of the whole main screen becomes history; the continuation of a soft wrap goes to
  the row of the last turn of the loop of \<^verbatim>\<open>scroll_up_internal\<close>.
\<close>

definition keeps_history :: "screen \<Rightarrow> bool" where
  "keeps_history s \<longleftrightarrow> \<not> alt_active s \<and> scroll_top s = 0 \<and> scroll_bottom s + 1 = nrows s"

definition retire :: "bool \<Rightarrow> terminal_row \<Rightarrow> screen \<Rightarrow> screen" where
  "retire keep r s =
     (if keep then s\<lparr>main_grid := (main_grid s)\<lparr>grid_history := grid_history (main_grid s) @ [r]\<rparr>\<rparr> else s)"

definition continue_row :: "bool \<Rightarrow> (nat \<times> nat) option \<Rightarrow> terminal_row \<Rightarrow> terminal_row" where
  "continue_row is_last cont row =
     (case cont of
        Some (ident, offset) \<Rightarrow> if is_last then row\<lparr>logical_line_id := ident, cell_offset := offset\<rparr> else row
      | None \<Rightarrow> row)"

fun scroll_up_loop :: "nat \<Rightarrow> (nat \<times> nat) option \<Rightarrow> screen \<Rightarrow> screen option" where
  "scroll_up_loop 0 cont s = Some s"
| "scroll_up_loop (Suc k) cont s = do {
     (removed, rs) \<leftarrow> remove_opt (scroll_top s) (active_rows s);
     let (row, s1) = new_row (retire (keeps_history s) removed (set_rows rs s));
     rs' \<leftarrow> insert_opt (scroll_bottom s) (continue_row (k = 0) cont row) (active_rows s1);
     scroll_up_loop k cont (set_rows rs' s1)
   }"

definition scroll_up_internal :: "nat \<Rightarrow> (nat \<times> nat) option \<Rightarrow> screen \<Rightarrow> screen option" where
  "scroll_up_internal n cont s = do {
     d \<leftarrow> sub_opt (scroll_bottom s) (scroll_top s);
     s' \<leftarrow> scroll_up_loop (min n (d + 1)) cont s;
     Some (enforce_history_budget (set_cursor_row (scroll_bottom s) s'))
   }"

text \<open>Rows removed at one index and inserted blank at another, \<open>n\<close> times.\<close>

fun shift_rows :: "nat \<Rightarrow> nat \<Rightarrow> nat \<Rightarrow> screen \<Rightarrow> screen option" where
  "shift_rows 0 src dst s = Some s"
| "shift_rows (Suc k) src dst s = do {
     (removed, rs) \<leftarrow> remove_opt src (active_rows s);
     let (row, s1) = new_row (set_rows rs s);
     rs' \<leftarrow> insert_opt dst row (active_rows s1);
     shift_rows k src dst (set_rows rs' s1)
   }"

definition scroll_up :: "nat \<Rightarrow> screen \<Rightarrow> screen option" where
  "scroll_up n s = do { s' \<leftarrow> scroll_up_internal (max n 1) None s; Some (changed (s'\<lparr>cursor := cursor s\<rparr>)) }"

definition scroll_down :: "nat \<Rightarrow> screen \<Rightarrow> screen option" where
  "scroll_down n s = do {
     d \<leftarrow> sub_opt (scroll_bottom s) (scroll_top s);
     s' \<leftarrow> shift_rows (min (max n 1) (d + 1)) (scroll_bottom s) (scroll_top s) s;
     Some (changed s')
   }"

definition insert_lines :: "nat \<Rightarrow> screen \<Rightarrow> screen option" where
  "insert_lines n s =
     (if cur_row (cursor s) < scroll_top s \<or> scroll_bottom s < cur_row (cursor s) then Some s
      else do {
        s' \<leftarrow> shift_rows (min (max n 1) (scroll_bottom s - cur_row (cursor s) + 1)) (scroll_bottom s) (cur_row (cursor s)) s;
        Some (changed s')
      })"

definition delete_lines :: "nat \<Rightarrow> screen \<Rightarrow> screen option" where
  "delete_lines n s =
     (if cur_row (cursor s) < scroll_top s \<or> scroll_bottom s < cur_row (cursor s) then Some s
      else do {
        s' \<leftarrow> shift_rows (min (max n 1) (scroll_bottom s - cur_row (cursor s) + 1)) (cur_row (cursor s)) (scroll_bottom s) s;
        Some (changed s')
      })"

definition set_scrolling_region :: "nat \<Rightarrow> nat option \<Rightarrow> screen \<Rightarrow> screen" where
  "set_scrolling_region upper lower s =
     (let t = upper - 1; b = (case lower of Some n \<Rightarrow> n | None \<Rightarrow> nrows s) - 1
      in if t < b \<and> b < nrows s
         then changed (move_to (if origin (modes s) then t else 0) 0 False (s\<lparr>scroll_top := t, scroll_bottom := b\<rparr>))
         else s)"

subsection \<open>Lines and the cursor\<close>

definition line_feed :: "screen \<Rightarrow> screen option" where
  "line_feed s = do {
     let r = cur_row (cursor s);
     row \<leftarrow> row_at r s;
     s1 \<leftarrow> put_row r (row\<lparr>soft_wrapped := False\<rparr>) (no_wrap s);
     s2 \<leftarrow> break_chain_after r s1;
     s3 \<leftarrow> (if r = scroll_bottom s2 then scroll_up_internal 1 None s2
            else Some (if r + 1 < nrows s2 then set_cursor_row (r + 1) s2 else s2));
     Some (changed s3)
   }"

definition soft_wrap :: "screen \<Rightarrow> screen option" where
  "soft_wrap s = do {
     let r = cur_row (cursor s);
     row \<leftarrow> row_at r s;
     let offset = wrap32 (cell_offset row + ncols s);
     s1 \<leftarrow> put_row r (row\<lparr>soft_wrapped := True\<rparr>) s;
     let s2 = move_to r 0 False s1;
     s3 \<leftarrow> (if r = scroll_bottom s2 then scroll_up_internal 1 (Some (logical_line_id row, offset)) s2
            else do {
              next \<leftarrow> row_at (r + 1) s2;
              put_row (r + 1) (next\<lparr>logical_line_id := logical_line_id row, cell_offset := offset\<rparr>) (set_cursor_row (r + 1) s2)
            });
     Some (changed s3)
   }"

definition reverse_index :: "screen \<Rightarrow> screen option" where
  "reverse_index s =
     (let s = no_wrap s; r = cur_row (cursor s)
      in if r = scroll_top s then scroll_down 1 s
         else Some (if 0 < r then changed (set_cursor_row (r - 1) s) else s))"

definition horizontal_tab :: "screen \<Rightarrow> screen option" where
  "horizontal_tab s = do {
     last_col \<leftarrow> sub_opt (ncols s) 1;
     let c = (case find (\<lambda>t. cur_col (cursor s) + 1 \<le> t) (tab_stops s) of Some t \<Rightarrow> t | None \<Rightarrow> last_col);
     Some (display_only_changed (no_wrap (set_cursor_col c s)))
   }"

text \<open>A signed distance is its sign and magnitude.\<close>

definition move_vertical :: "bool \<Rightarrow> nat \<Rightarrow> screen \<Rightarrow> screen option" where
  "move_vertical neg n s = do {
     last_row \<leftarrow> sub_opt (nrows s) 1;
     let (lo, hi) = (if origin (modes s) then (scroll_top s, scroll_bottom s) else (0, last_row));
     r \<leftarrow> clamp_opt lo hi (if neg then cur_row (cursor s) - n else cur_row (cursor s) + n);
     Some (display_only_changed (no_wrap (set_cursor_row r s)))
   }"

definition move_horizontal :: "bool \<Rightarrow> nat \<Rightarrow> screen \<Rightarrow> screen option" where
  "move_horizontal neg n s = do {
     last_col \<leftarrow> sub_opt (ncols s) 1;
     let c = min (if neg then cur_col (cursor s) - n else cur_col (cursor s) + n) last_col;
     Some (display_only_changed (no_wrap (set_cursor_col c s)))
   }"

definition set_col :: "nat \<Rightarrow> screen \<Rightarrow> screen option" where
  "set_col c s = do {
     last_col \<leftarrow> sub_opt (ncols s) 1;
     Some (display_only_changed (no_wrap (set_cursor_col (min (c - 1) last_col) s)))
   }"

definition set_row :: "nat \<Rightarrow> screen \<Rightarrow> screen option" where
  "set_row r s = do {
     last_row \<leftarrow> sub_opt (nrows s) 1;
     let base = (if origin (modes s) then scroll_top s else 0);
     let hi = (if origin (modes s) then scroll_bottom s else last_row);
     Some (display_only_changed (no_wrap (set_cursor_row (min (base + (r - 1)) hi) s)))
   }"

definition set_position :: "nat \<Rightarrow> nat \<Rightarrow> screen \<Rightarrow> screen option" where
  "set_position r c s = do { s' \<leftarrow> set_row r s; set_col c s' }"

subsection \<open>Writing\<close>

definition map_character :: "uchar \<Rightarrow> screen \<Rightarrow> uchar" where
  "map_character c s =
     (if (if use_g1 s then charset_g1 s else charset_g0 s) = DecSpecialGraphics then dec_special_graphics c else c)"

definition insert_characters :: "unicode \<Rightarrow> nat \<Rightarrow> screen \<Rightarrow> screen option" where
  "insert_characters u n s = do {
     let c = cur_col (cursor s);
     room \<leftarrow> sub_opt (ncols s) c;
     let n = min (max n 1) room;
     row \<leftarrow> row_at (cur_row (cursor s)) s;
     cs1 \<leftarrow> rotate_right_opt c n (sanitize_row u (pen s) (cells row));
     cs2 \<leftarrow> fill_opt c (c + n) (blank (pen s)) cs1;
     s' \<leftarrow> put_row (cur_row (cursor s)) (row\<lparr>cells := sanitize_row u (pen s) cs2\<rparr>) s;
     Some (changed (no_wrap s'))
   }"

definition delete_characters :: "unicode \<Rightarrow> nat \<Rightarrow> screen \<Rightarrow> screen option" where
  "delete_characters u n s = do {
     let c = cur_col (cursor s);
     room \<leftarrow> sub_opt (ncols s) c;
     let n = min (max n 1) room;
     row \<leftarrow> row_at (cur_row (cursor s)) s;
     cs1 \<leftarrow> rotate_left_opt c n (sanitize_row u (pen s) (cells row));
     start \<leftarrow> sub_opt (ncols s) n;
     cs2 \<leftarrow> fill_opt start (length cs1) (blank (pen s)) cs1;
     s' \<leftarrow> put_row (cur_row (cursor s)) (row\<lparr>cells := sanitize_row u (pen s) cs2\<rparr>) s;
     Some (changed (no_wrap s'))
   }"

text \<open>The cursor after a glyph of the given width written at a column of a row.\<close>

definition advance :: "nat \<Rightarrow> nat \<Rightarrow> nat \<Rightarrow> screen \<Rightarrow> screen" where
  "advance r c w s =
     (if ncols s \<le> c + w then move_to r (ncols s - 1) (autowrap (modes s)) s else move_to r (c + w) False s)"

text \<open>The replacement of a wide glyph that has no room, and the wrap before a glyph.\<close>

definition fit_glyph :: "uchar \<Rightarrow> nat \<Rightarrow> screen \<Rightarrow> (uchar \<times> nat \<times> screen) option" where
  "fit_glyph c w s =
     (let (c, w) = (if w = 2 \<and> ncols s = 1 then (REPLACEMENT, 1) else (c, w))
      in if w = 2 \<and> ncols s \<le> cur_col (cursor s) + 1 \<and> \<not> autowrap (modes s) then Some (REPLACEMENT, 1, s)
         else if pending_wrap (cursor s) \<or> (w = 2 \<and> ncols s \<le> cur_col (cursor s) + 1)
         then do { s' \<leftarrow> soft_wrap s; Some (c, w, s') }
         else Some (c, w, s))"

text \<open>
  \<open>glyph_changes\<close> compares with the cell before it is cleared; \<open>draw_glyph\<close> clears what the glyph covers, writes it
  and advances the cursor.
\<close>

definition glyph_changes :: "glyph \<Rightarrow> nat \<Rightarrow> nat \<Rightarrow> cell list \<Rightarrow> bool" where
  "glyph_changes g w k cs \<longleftrightarrow>
     cell_glyph (cs ! k) \<noteq> g \<or> (w = 2 \<and> \<not> (k + 1 < length cs \<and> cell_glyph (cs ! (k + 1)) = Continuation))"

definition draw_glyph :: "nat \<Rightarrow> nat \<Rightarrow> glyph \<Rightarrow> nat \<Rightarrow> screen \<Rightarrow> screen option" where
  "draw_glyph r k g w s = do {
     s1 \<leftarrow> clear_wide_at r k s;
     s2 \<leftarrow> (if w = 2 then clear_wide_at r (k + 1) s1 else Some s1);
     s3 \<leftarrow> put_cell r k (mk_cell g (pen s)) s2;
     s4 \<leftarrow> (if w = 2 then put_cell r (k + 1) (mk_cell Continuation (pen s)) s3 else Some s3);
     Some ((advance r k w s4)\<lparr>last_grapheme := Some (r, k)\<rparr>)
   }"

definition write_character :: "unicode \<Rightarrow> uchar \<Rightarrow> nat \<Rightarrow> screen \<Rightarrow> screen option" where
  "write_character u c w s = do {
     (c, w, s1) \<leftarrow> fit_glyph c w s;
     s2 \<leftarrow> (if insert_mode (modes s1) then insert_characters u w s1 else Some s1);
     row \<leftarrow> row_at (cur_row (cursor s2)) s2;
     old \<leftarrow> nth_opt (cells row) (cur_col (cursor s2));
     s3 \<leftarrow> draw_glyph (cur_row (cursor s2)) (cur_col (cursor s2)) (GChar c) w s2;
     Some (if glyph_changes (GChar c) w (cur_col (cursor s2)) (cells row) then changed s3 else display_only_changed s3)
   }"

definition write_leading_combining :: "uchar \<Rightarrow> screen \<Rightarrow> screen option" where
  "write_leading_combining c s = do {
     let r = cur_row (cursor s);
     let k = cur_col (cursor s);
     s1 \<leftarrow> clear_wide_at r k s;
     let cluster = encode_utf8 [32, c];
     if length cluster \<le> MAX_TERMINAL_GRAPHEME_BYTES
     then do { s2 \<leftarrow> put_cell r k (mk_cell (Cluster cluster) (pen s1)) s1; Some (changed (s2\<lparr>last_grapheme := Some (r, k)\<rparr>)) }
     else Some s1
   }"

text \<open>The three ways a widened glyph can lack room, then the ordinary replacement.\<close>

definition replace_without_room :: "nat \<Rightarrow> nat \<Rightarrow> style \<Rightarrow> screen \<Rightarrow> screen option" where
  "replace_without_room r lead st s = do {
     s1 \<leftarrow> put_cell r lead (mk_cell (GChar REPLACEMENT) st) s;
     Some (changed ((if ncols s = 1 then move_to r 0 (autowrap (modes s)) s1 else move_to r lead False s1)
                      \<lparr>last_grapheme := Some (r, lead)\<rparr>))
   }"

definition replace_on_next_row :: "nat \<Rightarrow> nat \<Rightarrow> style \<Rightarrow> byte list \<Rightarrow> screen \<Rightarrow> screen option" where
  "replace_on_next_row r lead st cluster s = do {
     s1 \<leftarrow> put_cell r lead (blank (pen s)) s;
     s2 \<leftarrow> soft_wrap (move_to r (ncols s - 1) True s1);
     let r' = cur_row (cursor s2);
     s3 \<leftarrow> put_cell r' 0 (mk_cell (Cluster cluster) st) s2;
     s4 \<leftarrow> put_cell r' 1 (mk_cell Continuation st) s3;
     let s5 = (if ncols s = 2 then move_to r' 1 (autowrap (modes s4)) s4 else move_to r' 2 False s4);
     Some (changed (s5\<lparr>last_grapheme := Some (r', 0)\<rparr>))
   }"

definition replace_in_place :: "nat \<Rightarrow> nat \<Rightarrow> nat \<Rightarrow> nat \<Rightarrow> style \<Rightarrow> byte list \<Rightarrow> screen \<Rightarrow> screen option" where
  "replace_in_place r lead w old_w st cluster s = do {
     s1 \<leftarrow> put_cell r lead (mk_cell (Cluster cluster) st) s;
     s2 \<leftarrow> (if w = 2 then put_cell r (lead + 1) (mk_cell Continuation st) s1
            else if old_w = 2 \<and> lead + 1 < ncols s then put_cell r (lead + 1) (blank (pen s1)) s1
            else Some s1);
     Some (changed ((advance r lead w s2)\<lparr>last_grapheme := Some (r, lead)\<rparr>))
   }"

definition replace_previous_grapheme :: "unicode \<Rightarrow> nat \<Rightarrow> nat \<Rightarrow> ustring \<Rightarrow> screen \<Rightarrow> screen option" where
  "replace_previous_grapheme u r lead cluster s = do {
     let w = max 1 (min 2 (str_width u cluster));
     row \<leftarrow> row_at r s;
     old \<leftarrow> nth_opt (cells row) lead;
     let st = cell_style old;
     let old_w = glyph_width u (cell_glyph old);
     if w = 2 \<and> ncols s = 1 then replace_without_room r lead st s
     else if w = 2 \<and> ncols s \<le> lead + 1 \<and> \<not> autowrap (modes s) then replace_without_room r lead st s
     else if w = 2 \<and> ncols s \<le> lead + 1 then replace_on_next_row r lead st (encode_utf8 cluster) s
     else replace_in_place r lead w old_w st (encode_utf8 cluster) s
   }"

text \<open>The flag tells whether the character joined the previous grapheme.\<close>

definition try_extend_previous_grapheme :: "unicode \<Rightarrow> uchar \<Rightarrow> screen \<Rightarrow> (screen \<times> bool) option" where
  "try_extend_previous_grapheme u c s =
     (case last_grapheme s of
        None \<Rightarrow> Some (s, False)
      | Some (r, lead) \<Rightarrow> do {
          row \<leftarrow> row_at r s;
          old \<leftarrow> nth_opt (cells row) lead;
          case utf8_text (glyph_bytes (cell_glyph old)) of
            None \<Rightarrow> Some (s, False)
          | Some previous \<Rightarrow>
              if \<not> one_grapheme u (previous @ [c]) then Some (s, False)
              else if MAX_TERMINAL_GRAPHEME_BYTES < length (encode_utf8 (previous @ [c])) then Some (s, True)
              else do { s' \<leftarrow> replace_previous_grapheme u r lead (previous @ [c]) s; Some (s', True) }
        })"

definition write_char :: "unicode \<Rightarrow> uchar \<Rightarrow> screen \<Rightarrow> screen option" where
  "write_char u c0 s = (let c = map_character c0 s in
     if is_control c then Some s
     else do {
       (s', joined) \<leftarrow> try_extend_previous_grapheme u c s;
       if joined then Some s'
       else if char_cols u c = 0 then write_leading_combining c s'
       else write_character u c (char_cols u c) s'
     })"

fun write_text :: "unicode \<Rightarrow> ustring \<Rightarrow> screen \<Rightarrow> screen option" where
  "write_text u [] s = Some s"
| "write_text u (c # cs) s = do { s' \<leftarrow> write_char u c s; write_text u cs s' }"

subsection \<open>Erasing\<close>

definition erase_line :: "erase_mode \<Rightarrow> screen \<Rightarrow> screen option" where
  "erase_line mode s = do {
     let r = cur_row (cursor s);
     s' \<leftarrow> (case mode of
             ToEnd \<Rightarrow> clear_range r (cur_col (cursor s)) (ncols s) s
           | ToStart \<Rightarrow> clear_range r 0 (cur_col (cursor s) + 1) s
           | EraseAll \<Rightarrow> clear_row r s
           | Saved \<Rightarrow> clear_row r s);
     Some (changed (no_wrap s'))
   }"

definition erase_display :: "erase_mode \<Rightarrow> screen \<Rightarrow> screen option" where
  "erase_display mode s = do {
     s' \<leftarrow> (case mode of
             ToEnd \<Rightarrow> do { s1 \<leftarrow> erase_line ToEnd s; clear_rows [cur_row (cursor s1) + 1..<nrows s1] s1 }
           | ToStart \<Rightarrow> do { s1 \<leftarrow> clear_rows [0..<cur_row (cursor s)] s; erase_line ToStart s1 }
           | EraseAll \<Rightarrow> clear_rows [0..<nrows s] s
           | Saved \<Rightarrow> Some (if alt_active s then s else s\<lparr>main_grid := (main_grid s)\<lparr>grid_history := []\<rparr>\<rparr>));
     Some (changed s')
   }"

definition erase_characters :: "nat \<Rightarrow> screen \<Rightarrow> screen option" where
  "erase_characters n s = do {
     s' \<leftarrow> clear_range (cur_row (cursor s)) (cur_col (cursor s)) (min (cur_col (cursor s) + max n 1) (ncols s)) s;
     Some (changed s')
   }"

subsection \<open>Cursors, screens and modes\<close>

definition capture_cursor :: "screen \<Rightarrow> saved_cursor" where
  "capture_cursor s =
     \<lparr>saved_pos = cursor s, saved_style = pen s, saved_g0 = charset_g0 s, saved_g1 = charset_g1 s, saved_use_g1 = use_g1 s\<rparr>"

definition clamp_cursor :: "screen \<Rightarrow> screen" where
  "clamp_cursor s = move_to (min (cur_row (cursor s)) (nrows s - 1)) (min (cur_col (cursor s)) (ncols s - 1)) False s"

definition restore_cursor :: "saved_cursor \<Rightarrow> screen \<Rightarrow> screen" where
  "restore_cursor sv s =
     display_only_changed (clamp_cursor (s\<lparr>cursor := saved_pos sv, pen := saved_style sv, charset_g0 := saved_g0 sv,
       charset_g1 := saved_g1 sv, use_g1 := saved_use_g1 sv\<rparr>))"

definition fresh_alternate :: "screen \<Rightarrow> screen" where
  "fresh_alternate s =
     (case grid_new (scr_size s) (next_line_id s) of
        (g, nxt) \<Rightarrow> s\<lparr>alt_grid := g, next_line_id := nxt, cursor := default_cursor\<rparr>)"

definition enter_alternate :: "alternate_screen_mode \<Rightarrow> screen \<Rightarrow> screen" where
  "enter_alternate mode s =
     (let s = s\<lparr>inactive_main_cursor := cursor s\<rparr>
      in (case mode of
            Mode1049 \<Rightarrow> fresh_alternate (s\<lparr>saved_main_1049 := Some (capture_cursor s)\<rparr>)
          | Mode1047 \<Rightarrow> fresh_alternate s
          | Mode47 \<Rightarrow> s\<lparr>cursor := inactive_alt_cursor s\<rparr>)\<lparr>alt_active := True\<rparr>)"

definition leave_alternate :: "alternate_screen_mode \<Rightarrow> screen \<Rightarrow> screen" where
  "leave_alternate mode s =
     (let s = s\<lparr>inactive_alt_cursor := cursor s, alt_active := False\<rparr>
      in case (mode, saved_main_1049 s) of
           (Mode1049, Some sv) \<Rightarrow> restore_cursor sv (s\<lparr>saved_main_1049 := None\<rparr>)
         | _ \<Rightarrow> s\<lparr>cursor := inactive_main_cursor s\<rparr>)"

definition set_alternate :: "alternate_screen_mode \<Rightarrow> bool \<Rightarrow> screen \<Rightarrow> screen" where
  "set_alternate mode enabled s =
     (if enabled = alt_active s then s
      else (let s = (if enabled then enter_alternate mode s else leave_alternate mode s)
            in changed (clamp_cursor (s\<lparr>scroll_top := 0, scroll_bottom := nrows s - 1\<rparr>))))"

definition resolve_mouse_tracking :: "screen \<Rightarrow> screen" where
  "resolve_mouse_tracking s =
     s\<lparr>modes := (modes s)\<lparr>mouse_tracking :=
       (if mouse_any s then MouseAnyMode else if mouse_button s then MouseButtonMode
        else if mouse_x10 s then MouseX10Mode else MouseOff)\<rparr>\<rparr>"

definition published_cursor :: "screen \<Rightarrow> cell_coord option" where
  "published_cursor s =
     (if cursor_visible (modes s) then Some (coord_new (cur_row (cursor s)) (cur_col (cursor s))) else None)"

definition current_snapshot :: "screen \<Rightarrow> screen_snapshot" where
  "current_snapshot s =
     \<lparr>snap_size = scr_size s, snap_cells = flatten (active_rows s), snap_cursor = published_cursor s,
      snap_title = title s, snap_generation = generation s\<rparr>"

definition current_projection :: "screen \<Rightarrow> screen_projection" where
  "current_projection s =
     \<lparr>proj_size = scr_size s, proj_alternate_active = alt_active s,
      proj_history = (if alt_active s then [] else grid_history (main_grid s)), proj_visible_rows = active_rows s,
      proj_cursor = published_cursor s, proj_title = title s, proj_generation = generation s,
      proj_mapping_revision = mapping_revision s\<rparr>"

definition publish :: "screen \<Rightarrow> screen" where
  "publish s = s\<lparr>published := current_projection s\<rparr>"

definition set_synchronized :: "nat \<Rightarrow> bool \<Rightarrow> screen \<Rightarrow> screen" where
  "set_synchronized now enabled s =
     (let s = (if enabled \<and> \<not> synchronized_output (modes s) then (publish s)\<lparr>sync_started := Some now\<rparr> else s);
          s = s\<lparr>modes := (modes s)\<lparr>synchronized_output := enabled\<rparr>\<rparr>
      in if enabled then s else publish (s\<lparr>sync_started := None\<rparr>))"

definition set_mode :: "nat \<Rightarrow> terminal_mode \<Rightarrow> bool \<Rightarrow> screen \<Rightarrow> screen" where
  "set_mode now mode enabled s =
     changed (no_wrap
       (case mode of
          ModeInsert \<Rightarrow> s\<lparr>modes := (modes s)\<lparr>insert_mode := enabled\<rparr>\<rparr>
        | ModeOrigin \<Rightarrow>
            set_cursor_col 0 (set_cursor_row (if enabled then scroll_top s else 0) (s\<lparr>modes := (modes s)\<lparr>origin := enabled\<rparr>\<rparr>))
        | AutoWrap \<Rightarrow> s\<lparr>modes := (modes s)\<lparr>autowrap := enabled\<rparr>\<rparr>
        | ApplicationCursor \<Rightarrow> s\<lparr>modes := (modes s)\<lparr>application_cursor := enabled\<rparr>\<rparr>
        | ApplicationKeypad \<Rightarrow> s\<lparr>modes := (modes s)\<lparr>application_keypad := enabled\<rparr>\<rparr>
        | CursorVisible \<Rightarrow> s\<lparr>modes := (modes s)\<lparr>cursor_visible := enabled\<rparr>\<rparr>
        | BracketedPaste \<Rightarrow> s\<lparr>modes := (modes s)\<lparr>bracketed_paste := enabled\<rparr>\<rparr>
        | FocusReporting \<Rightarrow> s\<lparr>modes := (modes s)\<lparr>focus_reporting := enabled\<rparr>\<rparr>
        | SynchronizedOutput \<Rightarrow> set_synchronized now enabled s
        | MouseX10 \<Rightarrow> resolve_mouse_tracking (s\<lparr>mouse_x10 := enabled\<rparr>)
        | MouseButton \<Rightarrow> resolve_mouse_tracking (s\<lparr>mouse_button := enabled\<rparr>)
        | MouseAny \<Rightarrow> resolve_mouse_tracking (s\<lparr>mouse_any := enabled\<rparr>)
        | MouseSgr \<Rightarrow> s\<lparr>modes := (modes s)\<lparr>mouse_sgr := enabled\<rparr>\<rparr>))"

definition bytes_of :: "string \<Rightarrow> byte list" where
  "bytes_of s = map of_char s"

definition device_reply :: "device_request \<Rightarrow> screen \<Rightarrow> byte list" where
  "device_reply req s =
     (case req of
        PrimaryAttributes \<Rightarrow> 27 # bytes_of ''[?1;2c''
      | SecondaryAttributes \<Rightarrow> 27 # bytes_of ''[>0;0;0c''
      | OperatingStatus \<Rightarrow> 27 # bytes_of ''[0n''
      | CursorPositionReport \<Rightarrow>
          (let r = (if origin (modes s) then cur_row (cursor s) - scroll_top s else cur_row (cursor s)) + 1
           in 27 # bytes_of ''['' @ map of_nat (show_nat r) @ bytes_of '';'' @ map of_nat (show_nat (cur_col (cursor s) + 1)) @
              bytes_of ''R''))"

subsection \<open>Events\<close>

definition screen_new :: "cell_size \<Rightarrow> nat \<Rightarrow> screen_error + screen" where
  "screen_new sz sb =
     (if \<not> validate_size sz then Inl (InvalidSize sz)
      else (case grid_new sz 1 of (m, n1) \<Rightarrow> case grid_new sz n1 of (a, n2) \<Rightarrow>
        Inr \<lparr>scr_size = sz, main_grid = m, alt_grid = a, alt_active = False, cursor = default_cursor,
             saved_main_cursor = None, saved_alt_cursor = None, saved_main_1049 = None,
             inactive_main_cursor = default_cursor, inactive_alt_cursor = default_cursor, pen = default_style,
             modes = default_modes, scroll_top = 0, scroll_bottom = size_rows sz - 1,
             tab_stops = default_tab_stops (size_cols sz), title = None, generation = 0, mapping_revision = 0,
             published =
               \<lparr>proj_size = sz, proj_alternate_active = False, proj_history = [], proj_visible_rows = grid_rows m,
                proj_cursor = Some (coord_new 0 0), proj_title = None, proj_generation = 0, proj_mapping_revision = 0\<rparr>,
             sync_started = None, next_line_id = n2, scrollback_rows = sb, charset_g0 = Ascii, charset_g1 = Ascii,
             use_g1 = False, bell_count = 0, mouse_x10 = False, mouse_button = False, mouse_any = False,
             last_grapheme = None\<rparr>))"

definition insert_stop :: "nat \<Rightarrow> nat list \<Rightarrow> nat list" where
  "insert_stop c ts = (if c \<in> set ts then ts else insort c ts)"

text \<open>Every event but a device request; \<^verbatim>\<open>apply_event\<close> adds the reply.\<close>

definition event_effect :: "unicode \<Rightarrow> nat \<Rightarrow> ansi_event \<Rightarrow> screen \<Rightarrow> screen option" where
  "event_effect u now ev s =
     (case ev of
        Text t \<Rightarrow> write_text u t s
      | SetStyle st \<Rightarrow> Some (display_only_changed (s\<lparr>pen := st\<rparr>))
      | CarriageReturn \<Rightarrow> Some (display_only_changed (no_wrap (set_cursor_col 0 s)))
      | Backspace \<Rightarrow> Some (display_only_changed (no_wrap (set_cursor_col (cur_col (cursor s) - 1) s)))
      | Bell \<Rightarrow> Some (display_only_changed (s\<lparr>bell_count := sat64 (bell_count s)\<rparr>))
      | LineFeed \<Rightarrow> line_feed s
      | Index \<Rightarrow> line_feed s
      | NextLine \<Rightarrow> line_feed (set_cursor_col 0 s)
      | ReverseIndex \<Rightarrow> reverse_index s
      | HorizontalTab \<Rightarrow> horizontal_tab s
      | SetTabStop \<Rightarrow> Some (display_only_changed (s\<lparr>tab_stops := insert_stop (cur_col (cursor s)) (tab_stops s)\<rparr>))
      | ClearTabStop \<Rightarrow> Some (display_only_changed (s\<lparr>tab_stops := removeAll (cur_col (cursor s)) (tab_stops s)\<rparr>))
      | ClearAllTabStops \<Rightarrow> Some (display_only_changed (s\<lparr>tab_stops := []\<rparr>))
      | CursorUp n \<Rightarrow> move_vertical True n s
      | CursorDown n \<Rightarrow> move_vertical False n s
      | CursorForward n \<Rightarrow> move_horizontal False n s
      | CursorBackward n \<Rightarrow> move_horizontal True n s
      | CursorNextLine n \<Rightarrow> do { s' \<leftarrow> move_vertical False n s; Some (set_cursor_col 0 s') }
      | CursorPreviousLine n \<Rightarrow> do { s' \<leftarrow> move_vertical True n s; Some (set_cursor_col 0 s') }
      | CursorHorizontalAbsolute c \<Rightarrow> set_col c s
      | CursorVerticalAbsolute r \<Rightarrow> set_row r s
      | CursorPosition r c \<Rightarrow> set_position r c s
      | EraseDisplay mode \<Rightarrow> erase_display mode s
      | EraseLineMode mode \<Rightarrow> erase_line mode s
      | EraseCharacters n \<Rightarrow> erase_characters n s
      | InsertCharacters n \<Rightarrow> insert_characters u n s
      | DeleteCharacters n \<Rightarrow> delete_characters u n s
      | InsertLines n \<Rightarrow> insert_lines n s
      | DeleteLines n \<Rightarrow> delete_lines n s
      | ScrollUp n \<Rightarrow> scroll_up n s
      | ScrollDown n \<Rightarrow> scroll_down n s
      | SetScrollingRegion t b \<Rightarrow> Some (set_scrolling_region t b s)
      | SaveCursor \<Rightarrow>
          Some (if alt_active s then s\<lparr>saved_alt_cursor := Some (capture_cursor s)\<rparr>
                else s\<lparr>saved_main_cursor := Some (capture_cursor s)\<rparr>)
      | RestoreCursor \<Rightarrow>
          Some (case (if alt_active s then saved_alt_cursor s else saved_main_cursor s) of
                  Some sv \<Rightarrow> restore_cursor sv s
                | None \<Rightarrow> s)
      | AlternateScreen mode enabled \<Rightarrow> Some (set_alternate mode enabled s)
      | SetMode mode enabled \<Rightarrow> Some (set_mode now mode enabled s)
      | DesignateCharacterSet slot cs \<Rightarrow>
          Some (display_only_changed (case slot of G0 \<Rightarrow> s\<lparr>charset_g0 := cs\<rparr> | G1 \<Rightarrow> s\<lparr>charset_g1 := cs\<rparr>))
      | ShiftOut \<Rightarrow> Some (display_only_changed (s\<lparr>use_g1 := True\<rparr>))
      | ShiftIn \<Rightarrow> Some (display_only_changed (s\<lparr>use_g1 := False\<rparr>))
      | DeviceRequest req \<Rightarrow> Some s
      | SetTitle t \<Rightarrow> Some (display_only_changed (s\<lparr>title := Some (sanitize_title t)\<rparr>))
      | EraseToEol \<Rightarrow> erase_line ToEnd s
      | EraseLine \<Rightarrow> erase_line EraseAll s
      | AlternateScreenEnter \<Rightarrow> Some (set_alternate Mode1049 True s)
      | AlternateScreenExit \<Rightarrow> Some (set_alternate Mode1049 False s)
      | _ \<Rightarrow> Some s)"

definition is_text :: "ansi_event \<Rightarrow> bool" where
  "is_text ev \<longleftrightarrow> (case ev of Text _ \<Rightarrow> True | _ \<Rightarrow> False)"

definition apply_event :: "unicode \<Rightarrow> nat \<Rightarrow> ansi_event \<Rightarrow> screen \<Rightarrow> (screen \<times> byte list option) option" where
  "apply_event u now ev s = do {
     let s = (if is_text ev then s else s\<lparr>last_grapheme := None\<rparr>);
     s' \<leftarrow> event_effect u now ev s;
     Some (s', case ev of DeviceRequest req \<Rightarrow> Some (device_reply req s) | _ \<Rightarrow> None)
   }"

text \<open>The session manager's loop over the events of one read: the screen after them and the replies.\<close>

fun apply_events :: "unicode \<Rightarrow> nat \<Rightarrow> ansi_event list \<Rightarrow> screen \<Rightarrow> (screen \<times> byte list list) option" where
  "apply_events u now [] s = Some (s, [])"
| "apply_events u now (ev # evs) s = do {
     (s1, reply) \<leftarrow> apply_event u now ev s;
     (s2, replies) \<leftarrow> apply_events u now evs s1;
     Some (s2, (case reply of Some r \<Rightarrow> [r] | None \<Rightarrow> []) @ replies)
   }"

definition finish_output :: "screen \<Rightarrow> screen" where
  "finish_output s =
     (if synchronized_output (modes s)
      then publish (s\<lparr>modes := (modes s)\<lparr>synchronized_output := False\<rparr>, sync_started := None\<rparr>) else s)"

definition synchronized_watchdog_expired :: "nat \<Rightarrow> screen \<Rightarrow> screen \<times> bool" where
  "synchronized_watchdog_expired now s =
     (case sync_started s of
        Some start \<Rightarrow>
          if SYNCHRONIZED_OUTPUT_WATCHDOG \<le> now - start
          then (publish (s\<lparr>modes := (modes s)\<lparr>synchronized_output := False\<rparr>, sync_started := None\<rparr>), True)
          else (s, False)
      | None \<Rightarrow> (s, False))"

definition append_process_annotation :: "unicode \<Rightarrow> ustring \<Rightarrow> screen \<Rightarrow> screen option" where
  "append_process_annotation u note s = do {
     row \<leftarrow> row_at (cur_row (cursor s)) s;
     let needs_newline = (cur_col (cursor s) \<noteq> 0 \<or> pending_wrap (cursor s) \<or> list_ex (\<lambda>c. \<not> is_blank c) (cells row));
     let s1 = s\<lparr>last_grapheme := None, pen := default_style\<rparr>;
     s2 \<leftarrow> (if needs_newline then line_feed (set_cursor_col 0 (no_wrap s1)) else Some s1);
     s3 \<leftarrow> write_text u note s2;
     let s4 = no_wrap s3;
     let r = cur_row (cursor s4);
     row' \<leftarrow> row_at r s4;
     s5 \<leftarrow> put_row r (row'\<lparr>soft_wrapped := False\<rparr>) s4;
     s6 \<leftarrow> break_chain_after r s5;
     Some (finish_output s6)
   }"

subsection \<open>Snapshots\<close>

definition snapshot_from_projection :: "screen_projection \<Rightarrow> screen_snapshot" where
  "snapshot_from_projection p =
     \<lparr>snap_size = proj_size p, snap_cells = flatten (proj_visible_rows p), snap_cursor = proj_cursor p,
      snap_title = proj_title p, snap_generation = proj_generation p\<rparr>"

definition snapshot :: "screen \<Rightarrow> screen_snapshot" where
  "snapshot s = (if synchronized_output (modes s) then snapshot_from_projection (published s) else current_snapshot s)"

definition projection :: "screen \<Rightarrow> screen_projection" where
  "projection s = (if synchronized_output (modes s) then published s else current_projection s)"

subsection \<open>Resizing\<close>

text \<open>
  Joining the physical rows into logical lines \<open>(id, base, cells)\<close>, the last one first in the accumulator; the
  subtraction of the base panics when a row of the line lies before it.
\<close>

definition used_cells :: "nat \<Rightarrow> nat \<Rightarrow> nat \<Rightarrow> terminal_row \<Rightarrow> nat" where
  "used_cells old_cols cursor_id cursor_offset row =
     (let cursor_used =
        (if logical_line_id row = cursor_id \<and> cell_offset row \<le> cursor_offset \<and> cursor_offset < cell_offset row + old_cols
         then cursor_offset - cell_offset row + 1 else 0)
      in if soft_wrapped row then old_cols else max (last_nonblank (cells row)) cursor_used)"

fun join_rows ::
    "style \<Rightarrow> (terminal_row \<Rightarrow> nat) \<Rightarrow> bool \<Rightarrow> (nat \<times> nat \<times> cell list) list \<Rightarrow> terminal_row list \<Rightarrow>
     (nat \<times> nat \<times> cell list) list option" where
  "join_rows st used prev_soft acc [] = Some (rev acc)"
| "join_rows st used prev_soft acc (row # rs) =
     (if length (cells row) < used row then None
      else (case acc of
              (ident, base, cs) # rest \<Rightarrow>
                if prev_soft \<and> ident = logical_line_id row
                then do {
                  start \<leftarrow> sub_opt (cell_offset row) base;
                  join_rows st used (soft_wrapped row)
                    ((ident, base, resize_list start (blank st) cs @ take (used row) (cells row)) # rest) rs
                }
                else join_rows st used (soft_wrapped row)
                       ((logical_line_id row, cell_offset row, take (used row) (cells row)) # acc) rs
            | [] \<Rightarrow> join_rows st used (soft_wrapped row)
                       [(logical_line_id row, cell_offset row, take (used row) (cells row))] rs))"

text \<open>The state of the loop that cuts one logical line into rows of the new width.\<close>

record reflow_state =
  rf_source :: nat
  rf_physical :: nat
  rf_col :: nat
  rf_part :: "cell list"
  rf_rows :: "terminal_row list"
  rf_cursor :: nat

definition reflow_push :: "style \<Rightarrow> nat \<Rightarrow> nat \<Rightarrow> nat \<Rightarrow> reflow_state \<Rightarrow> reflow_state" where
  "reflow_push st n ident base f =
     f\<lparr>rf_rows := rf_rows f @ [\<lparr>cells = rf_part f, logical_line_id = ident,
         cell_offset = wrap32 (base + rf_physical f), soft_wrapped = True\<rparr>],
       rf_physical := rf_physical f + n, rf_col := 0, rf_part := replicate n (blank st)\<rparr>"

text \<open>The glyph to draw and its width, for a source glyph of the given width.\<close>

definition reflow_shape :: "nat \<Rightarrow> nat \<Rightarrow> glyph \<Rightarrow> glyph \<times> nat" where
  "reflow_shape n source_width g =
     (if min 2 source_width = 2 \<and> n = 1 then (GChar REPLACEMENT, 1) else (g, min 2 source_width))"

definition reflow_map_cursor :: "nat \<Rightarrow> nat option \<Rightarrow> nat \<Rightarrow> nat \<Rightarrow> reflow_state \<Rightarrow> reflow_state" where
  "reflow_map_cursor base cursor_source source_width display_width f =
     (case cursor_source of
        Some c \<Rightarrow>
          if rf_source f \<le> c \<and> c < rf_source f + source_width
          then f\<lparr>rf_cursor := base + rf_physical f + rf_col f + min (c - rf_source f) (display_width - 1)\<rparr>
          else f
      | None \<Rightarrow> f)"

definition reflow_put :: "glyph \<Rightarrow> nat \<Rightarrow> style \<Rightarrow> nat \<Rightarrow> reflow_state \<Rightarrow> reflow_state option" where
  "reflow_put g display_width st source_width f = do {
     p1 \<leftarrow> upd_opt (rf_part f) (rf_col f) (mk_cell g st);
     p2 \<leftarrow> (if display_width = 2 then upd_opt p1 (rf_col f + 1) (mk_cell Continuation st) else Some p1);
     Some (f\<lparr>rf_part := p2, rf_col := rf_col f + display_width, rf_source := rf_source f + source_width\<rparr>)
   }"

definition reflow_glyph ::
    "unicode \<Rightarrow> style \<Rightarrow> nat \<Rightarrow> nat \<Rightarrow> nat \<Rightarrow> nat option \<Rightarrow> cell list \<Rightarrow> reflow_state \<Rightarrow> reflow_state option" where
  "reflow_glyph u st n ident base cursor_source cs f =
     (let x = cs ! rf_source f;
          source_width = max 1 (glyph_width u (cell_glyph x));
          (g, display_width) = reflow_shape n source_width (cell_glyph x);
          f1 = (if display_width = 2 \<and> n < rf_col f + 2 then reflow_push st n ident base f else f)
      in do {
        f2 \<leftarrow> reflow_put g display_width (cell_style x) source_width
               (reflow_map_cursor base cursor_source source_width display_width f1);
        Some (if rf_col f2 = n \<and> rf_source f2 < length cs then reflow_push st n ident base f2 else f2)
      })"

lemma rf_source_simps [simp]:
  "rf_source (reflow_push st n ident base f) = rf_source f"
  "rf_source (reflow_map_cursor base c sw dw f) = rf_source f"
  by (simp_all add: reflow_push_def reflow_map_cursor_def split: option.splits)

lemma reflow_put_source: "reflow_put g dw st sw f = Some f' \<Longrightarrow> rf_source f' = rf_source f + sw"
  by (auto simp: reflow_put_def bind_eq_Some_conv)

lemma reflow_glyph_source:
  assumes "reflow_glyph u st n ident base c cs f = Some f'"
  shows "rf_source f < rf_source f'"
  using assms
  by (auto simp: reflow_glyph_def Let_def bind_eq_Some_conv dest!: reflow_put_source split: prod.splits if_splits)

function reflow_loop ::
    "unicode \<Rightarrow> style \<Rightarrow> nat \<Rightarrow> nat \<Rightarrow> nat \<Rightarrow> nat option \<Rightarrow> cell list \<Rightarrow> reflow_state \<Rightarrow> reflow_state option" where
  "reflow_loop u st n ident base cursor_source cs f =
     (if length cs \<le> rf_source f then Some f
      else if cell_glyph (cs ! rf_source f) = Continuation
      then reflow_loop u st n ident base cursor_source cs (f\<lparr>rf_source := rf_source f + 1\<rparr>)
      else (case reflow_glyph u st n ident base cursor_source cs f of
              Some f' \<Rightarrow> reflow_loop u st n ident base cursor_source cs f'
            | None \<Rightarrow> None))"
  by pat_completeness auto
termination
  by (relation "measure (\<lambda>(u, st, n, ident, base, c, cs, f). length cs - rf_source f)")
     (auto dest: reflow_glyph_source)

declare reflow_loop.simps [simp del]

definition reflow_line ::
    "unicode \<Rightarrow> style \<Rightarrow> nat \<Rightarrow> nat \<Rightarrow> nat \<Rightarrow> nat \<times> nat \<times> cell list \<Rightarrow> nat \<Rightarrow> (terminal_row list \<times> nat) option" where
  "reflow_line u st n cursor_id cursor_offset line mapped =
     (case line of (ident, base, cs0) \<Rightarrow>
        (let cs = sanitize_row u st cs0
         in if cs = [] then Some ([row_new n ident st], mapped)
            else do {
              f \<leftarrow> reflow_loop u st n ident base (if ident = cursor_id then Some (cursor_offset - base) else None) cs
                    \<lparr>rf_source = 0, rf_physical = 0, rf_col = 0, rf_part = replicate n (blank st), rf_rows = [], rf_cursor = mapped\<rparr>;
              Some (rf_rows f @ [\<lparr>cells = rf_part f, logical_line_id = ident,
                      cell_offset = wrap32 (base + rf_physical f), soft_wrapped = False\<rparr>], rf_cursor f)
            }))"

fun reflow_lines ::
    "unicode \<Rightarrow> style \<Rightarrow> nat \<Rightarrow> nat \<Rightarrow> nat \<Rightarrow> (nat \<times> nat \<times> cell list) list \<Rightarrow> nat \<Rightarrow> (terminal_row list \<times> nat) option" where
  "reflow_lines u st n cid coff [] mapped = Some ([], mapped)"
| "reflow_lines u st n cid coff (l # ls) mapped = do {
     (rs, mapped1) \<leftarrow> reflow_line u st n cid coff l mapped;
     (rs', mapped2) \<leftarrow> reflow_lines u st n cid coff ls mapped1;
     Some (rs @ rs', mapped2)
   }"

text \<open>\<^verbatim>\<open>while rows.len() < size.rows\<close>, with fresh ids.\<close>

fun pad_rows :: "nat \<Rightarrow> nat \<Rightarrow> style \<Rightarrow> nat \<Rightarrow> terminal_row list \<times> nat" where
  "pad_rows 0 n st nxt = ([], nxt)"
| "pad_rows (Suc k) n st nxt = (case pad_rows k n st (sat64 nxt) of (rs, nxt') \<Rightarrow> (row_new n nxt st # rs, nxt'))"

definition covers_offset :: "nat \<Rightarrow> nat \<Rightarrow> nat \<Rightarrow> terminal_row \<Rightarrow> bool" where
  "covers_offset n cid mapped row \<longleftrightarrow>
     logical_line_id row = cid \<and> cell_offset row \<le> mapped \<and> mapped < cell_offset row + n"

definition find_cursor :: "nat \<Rightarrow> nat \<Rightarrow> nat \<Rightarrow> nat \<Rightarrow> terminal_row list \<Rightarrow> cursor" where
  "find_cursor nr n cid mapped rs =
     (case find (\<lambda>i. covers_offset n cid mapped (rs ! i)) [0..<length rs] of
        Some i \<Rightarrow> \<lparr>cur_row = i, cur_col = mapped - cell_offset (rs ! i), pending_wrap = False\<rparr>
      | None \<Rightarrow> \<lparr>cur_row = nr - 1, cur_col = 0, pending_wrap = False\<rparr>)"

definition reflow_main :: "unicode \<Rightarrow> cell_size \<Rightarrow> screen \<Rightarrow> screen option" where
  "reflow_main u sz s = do {
     let n = size_cols sz;
     let nr = size_rows sz;
     let main_cursor = (if alt_active s then inactive_main_cursor s else cursor s);
     last_row \<leftarrow> sub_opt (length (grid_rows (main_grid s))) 1;
     crow \<leftarrow> nth_opt (grid_rows (main_grid s)) (min (cur_row main_cursor) last_row);
     let cid = logical_line_id crow;
     let coff = cell_offset crow + cur_col main_cursor;
     logical \<leftarrow> join_rows (pen s) (used_cells (ncols s) cid coff) False []
                 (grid_history (main_grid s) @ grid_rows (main_grid s));
     (rs, mapped) \<leftarrow> reflow_lines u (pen s) n cid coff logical coff;
     let (pad, nxt) = pad_rows (nr - length rs) n (pen s) (next_line_id s);
     let all = rs @ pad;
     let split = length all - nr;
     let s1 = s\<lparr>main_grid := \<lparr>grid_rows = drop split all, grid_history = take split all\<rparr>, next_line_id := nxt\<rparr>;
     let cur = find_cursor nr n cid mapped (drop split all);
     Some (if alt_active s then s1\<lparr>inactive_main_cursor := cur\<rparr> else s1\<lparr>cursor := cur\<rparr>)
   }"

fun clip_pad :: "nat \<Rightarrow> nat \<Rightarrow> style \<Rightarrow> nat \<Rightarrow> terminal_row list \<times> nat" where
  "clip_pad 0 n st nxt = ([], nxt)"
| "clip_pad (Suc k) n st nxt =
     (case clip_pad k n st ((nxt + 1) mod 18446744073709551616) of (rs, nxt') \<Rightarrow> (row_new n nxt st # rs, nxt'))"

definition resize_grid_clip :: "unicode \<Rightarrow> cell_size \<Rightarrow> nat \<Rightarrow> style \<Rightarrow> grid \<Rightarrow> grid \<times> nat" where
  "resize_grid_clip u sz nxt st g =
     (let rs = take (size_rows sz)
        (map (\<lambda>r. r\<lparr>cells := sanitize_row u st (resize_list (size_cols sz) (blank st) (cells r))\<rparr>) (grid_rows g))
      in case clip_pad (size_rows sz - length rs) (size_cols sz) st nxt of
           (pad, nxt') \<Rightarrow> (\<lparr>grid_rows = rs @ pad, grid_history = []\<rparr>, nxt'))"

definition resize :: "unicode \<Rightarrow> cell_size \<Rightarrow> screen \<Rightarrow> (screen_error, screen) outcome" where
  "resize u sz s =
     (if \<not> validate_size sz then Err (InvalidSize sz)
      else if sz = scr_size s then Ok s
      else (case reflow_main u sz (s\<lparr>last_grapheme := None\<rparr>) of
              None \<Rightarrow> Panic
            | Some s1 \<Rightarrow>
                (case resize_grid_clip u sz (next_line_id s1) (pen s1) (alt_grid s1) of
                   (g, nxt) \<Rightarrow>
                     (let s2 = s1\<lparr>alt_grid := g, next_line_id := nxt, scr_size := sz, scroll_top := 0, scroll_bottom := size_rows sz - 1\<rparr>;
                          s3 = clamp_cursor s2;
                          kept = filter (\<lambda>c. c < size_cols sz) (tab_stops s3);
                          first = (ncols s + 7) div 8 * 8;
                          added = (if ncols s < size_cols sz
                                   then filter (\<lambda>c. c mod 8 = 0) [first..<size_cols sz] else [])
                      in Ok (changed (enforce_history_budget (s3\<lparr>tab_stops := fold insert_stop added kept\<rparr>)))))))"

end
