(* ===== verification/Terminal_Safety.thy ===== *)
theory Terminal_Safety
  imports Terminal_Screen
begin

text \<open>
  The shape of a terminal screen and its preservation: every event keeps both grids rectangular, the cursor
  and the margins on the screen and the history within its budget, and does not panic, except for text that
  wraps on the last row while the scrolling region ends above it.
\<close>

section \<open>Well-formed screens\<close>

definition rows_ok :: "nat \<Rightarrow> nat \<Rightarrow> terminal_row list \<Rightarrow> bool" where
  "rows_ok nr n rs \<longleftrightarrow> length rs = nr \<and> (\<forall>r \<in> set rs. length (cells r) = n)"

definition grids_ok :: "screen \<Rightarrow> bool" where
  "grids_ok s \<longleftrightarrow> 0 < nrows s \<and> 0 < ncols s \<and>
     rows_ok (nrows s) (ncols s) (grid_rows (main_grid s)) \<and> rows_ok (nrows s) (ncols s) (grid_rows (alt_grid s)) \<and>
     (\<forall>r \<in> set (grid_history (main_grid s)). length (cells r) = ncols s)"

definition history_ok :: "screen \<Rightarrow> bool" where
  "history_ok s \<longleftrightarrow> length (grid_history (main_grid s)) \<le> scrollback_rows s \<and>
     length (grid_history (main_grid s)) * ncols s \<le> MAX_TERMINAL_HISTORY_CELLS"

definition cursor_ok :: "screen \<Rightarrow> bool" where
  "cursor_ok s \<longleftrightarrow> cur_row (cursor s) < nrows s \<and> cur_col (cursor s) < ncols s \<and>
     (pending_wrap (cursor s) \<longrightarrow> autowrap (modes s))"

definition margins_ok :: "screen \<Rightarrow> bool" where
  "margins_ok s \<longleftrightarrow> scroll_top s \<le> scroll_bottom s \<and> scroll_bottom s < nrows s"

definition marks_ok :: "screen \<Rightarrow> bool" where
  "marks_ok s \<longleftrightarrow> (\<forall>t \<in> set (tab_stops s). t < ncols s) \<and>
     (\<forall>r c. last_grapheme s = Some (r, c) \<longrightarrow> r < nrows s \<and> c < ncols s)"

definition screen_ok :: "screen \<Rightarrow> bool" where
  "screen_ok s \<longleftrightarrow> validate_size (scr_size s) \<and> grids_ok s \<and> history_ok s \<and> cursor_ok s \<and> margins_ok s \<and> marks_ok s"

text \<open>A step that writes the grids and the line counter only, and one that also leaves the history alone.\<close>

definition same_frame :: "screen \<Rightarrow> screen \<Rightarrow> bool" where
  "same_frame s s' \<longleftrightarrow> (\<exists>m a nx. s' = s\<lparr>main_grid := m, alt_grid := a, next_line_id := nx\<rparr>)"

definition edits :: "screen \<Rightarrow> screen \<Rightarrow> bool" where
  "edits s s' \<longleftrightarrow> same_frame s s' \<and> grids_ok s' \<and> grid_history (main_grid s') = grid_history (main_grid s)"

lemma same_frame_fields:
  assumes "same_frame s s'"
  shows "scr_size s' = scr_size s" "alt_active s' = alt_active s" "cursor s' = cursor s" "pen s' = pen s"
    "modes s' = modes s" "scroll_top s' = scroll_top s" "scroll_bottom s' = scroll_bottom s"
    "tab_stops s' = tab_stops s" "scrollback_rows s' = scrollback_rows s" "last_grapheme s' = last_grapheme s"
    "published s' = published s"
  using assms by (auto simp: same_frame_def)

lemma same_frameI: "s' = s\<lparr>main_grid := m, alt_grid := a, next_line_id := nx\<rparr> \<Longrightarrow> same_frame s s'"
  unfolding same_frame_def by blast

lemma same_frame_refl [simp]: "same_frame s s"
  by (rule same_frameI [where m = "main_grid s" and a = "alt_grid s" and nx = "next_line_id s"]) simp

lemma same_frame_trans: "same_frame s s1 \<Longrightarrow> same_frame s1 s2 \<Longrightarrow> same_frame s s2"
  unfolding same_frame_def by (elim exE) (simp, blast)

lemma edits_refl: "grids_ok s \<Longrightarrow> edits s s"
  by (simp add: edits_def)

lemma edits_trans: "edits s s1 \<Longrightarrow> edits s1 s2 \<Longrightarrow> edits s s2"
  by (auto simp: edits_def intro: same_frame_trans)

lemma editsD:
  assumes "edits s s'"
  shows "grids_ok s'" "same_frame s s'" "grid_history (main_grid s') = grid_history (main_grid s)"
  using assms by (simp_all add: edits_def)

lemmas edits_fields = same_frame_fields [OF editsD(2)]

lemma edits_bind:
  assumes "returns m (edits s)" and "\<And>s1. edits s s1 \<Longrightarrow> grids_ok s1 \<Longrightarrow> returns (f s1) (edits s1)"
  shows "returns (Option.bind m f) (edits s)"
  using assms by (auto intro!: returns_bind [OF assms(1)] intro: returns_weaken edits_trans dest: editsD)

lemma active_rows_ok: "grids_ok s \<Longrightarrow> rows_ok (nrows s) (ncols s) (active_rows s)"
  by (simp add: grids_ok_def active_def)

lemma length_active_rows [simp]: "grids_ok s \<Longrightarrow> length (active_rows s) = nrows s"
  using active_rows_ok [of s] by (simp add: rows_ok_def)

lemma set_rows_edits:
  assumes "grids_ok s" and "rows_ok (nrows s) (ncols s) rs"
  shows "edits s (set_rows rs s)"
proof -
  have "same_frame s (set_rows rs s)"
    by (rule same_frameI [where m = "main_grid (set_rows rs s)" and a = "alt_grid (set_rows rs s)" and nx = "next_line_id s"])
       (simp add: set_rows_def)
  then show ?thesis using assms by (auto simp: edits_def set_rows_def grids_ok_def)
qed

lemma active_rows_set_rows [simp]: "active_rows (set_rows rs s) = rs"
  by (simp add: set_rows_def active_def)

lemma set_rows_fields [simp]:
  "scr_size (set_rows rs s) = scr_size s" "alt_active (set_rows rs s) = alt_active s" "pen (set_rows rs s) = pen s"
  "next_line_id (set_rows rs s) = next_line_id s" "scroll_top (set_rows rs s) = scroll_top s"
  "scroll_bottom (set_rows rs s) = scroll_bottom s" "modes (set_rows rs s) = modes s" "cursor (set_rows rs s) = cursor s"
  by (simp_all add: set_rows_def)

section \<open>Writing rows and cells\<close>

lemma row_at_ok:
  assumes "grids_ok s" and "r < nrows s"
  shows "row_at r s = Some (active_rows s ! r)" "length (cells (active_rows s ! r)) = ncols s"
  using active_rows_ok [OF assms(1)] assms by (auto simp: row_at_def returns_rules rows_ok_def)

lemma rows_ok_update: "rows_ok nr n rs \<Longrightarrow> length (cells row) = n \<Longrightarrow> rows_ok nr n (rs[r := row])"
  by (auto simp: rows_ok_def dest!: set_update_subset_insert [THEN subsetD])

lemma put_row_edits:
  assumes "grids_ok s" and "r < nrows s" and "length (cells row) = ncols s"
  shows "returns (put_row r row s) (edits s)"
  using assms set_rows_edits [OF assms(1) rows_ok_update [OF active_rows_ok [OF assms(1)] assms(3)]]
  by (simp add: put_row_def returns_rules)

lemma put_cell_edits:
  assumes "grids_ok s" and "r < nrows s" and "c < ncols s"
  shows "returns (put_cell r c v s) (edits s)"
  using row_at_ok [OF assms(1,2)] assms put_row_edits [OF assms(1,2)] by (simp add: put_cell_def returns_rules)

lemma rechain_ok:
  assumes "rechain n old_id ident offset nxt rs = (rs', nxt')" and "\<forall>r \<in> set rs. length (cells r) = m"
  shows "length rs' = length rs \<and> (\<forall>r \<in> set rs'. length (cells r) = m)"
  using assms
  by (induction n old_id ident offset nxt rs arbitrary: rs' nxt' rule: rechain.induct)
     (auto split: if_splits prod.splits)

lemma break_chain_edits:
  assumes "grids_ok s" and "r < nrows s"
  shows "returns (break_chain_after r s) (edits s)"
proof (cases "nrows s \<le> r + 1 \<or> logical_line_id (active_rows s ! (r + 1)) \<noteq> logical_line_id (active_rows s ! r)")
  case True
  then show ?thesis
    using row_at_ok [OF assms] assms edits_refl by (simp add: break_chain_after_def Let_def)
next
  case False
  let ?rs = "active_rows s"
  obtain rs' nxt where rc: "rechain (ncols s) (logical_line_id (?rs ! r)) (next_line_id s) 0 (sat64 (next_line_id s)) (drop (r + 1) ?rs) = (rs', nxt)"
    by fastforce
  have rows: "rows_ok (nrows s) (ncols s) ?rs" by (rule active_rows_ok) fact
  then have "rows_ok (nrows s) (ncols s) (take (r + 1) ?rs @ rs')"
  proof -
    have "\<forall>x \<in> set (drop (r + 1) ?rs). length (cells x) = ncols s"
      using rows by (auto simp: rows_ok_def dest: in_set_dropD)
    from rechain_ok [OF rc this] show ?thesis
      using rows assms(2) by (auto simp: rows_ok_def dest: in_set_takeD)
  qed
  moreover have "grids_ok (s\<lparr>next_line_id := nxt\<rparr>)" using assms(1) by (simp add: grids_ok_def)
  ultimately have "edits (s\<lparr>next_line_id := nxt\<rparr>) (set_rows (take (r + 1) ?rs @ rs') (s\<lparr>next_line_id := nxt\<rparr>))"
    by (intro set_rows_edits) simp_all
  moreover have "edits s (s\<lparr>next_line_id := nxt\<rparr>)"
    using \<open>grids_ok (s\<lparr>next_line_id := nxt\<rparr>)\<close>
    by (auto simp: edits_def intro!: same_frameI [where m = "main_grid s" and a = "alt_grid s" and nx = nxt])
  ultimately show ?thesis
    using False row_at_ok [OF assms] assms rc edits_trans by (simp add: break_chain_after_def Let_def)
qed

lemma clear_wide_at_edits:
  assumes "grids_ok s" and "r < nrows s"
  shows "returns (clear_wide_at r c s) (edits s)"
proof (cases "ncols s \<le> c")
  case True
  then show ?thesis using assms edits_refl by (simp add: clear_wide_at_def)
next
  case False
  let ?row = "active_rows s ! r"
  note row = row_at_ok [OF assms]
  define lead where "lead = (if cell_glyph (cells ?row ! c) = Continuation \<and> 0 < c then c - 1 else c)"
  have lead: "wide_lead r c s = Some lead" "lead < ncols s"
    using row False by (auto simp: wide_lead_def returns_rules lead_def)
  have put: "returns (put_cell r lead (blank (pen s)) s) (edits s)" by (rule put_cell_edits) (use assms lead in auto)
  show ?thesis
  proof (cases "lead + 1 < length (cells ?row) \<and> cell_glyph (cells ?row ! (lead + 1)) = Continuation")
    case True
    then have "returns (do { s' \<leftarrow> put_cell r lead (blank (pen s)) s; put_cell r (lead + 1) (blank (pen s)) s' }) (edits s)"
      using assms row by (intro edits_bind [OF put] put_cell_edits) (auto simp: edits_fields)
    then show ?thesis using False True lead row by (simp add: clear_wide_at_def Let_def)
  next
    case nowide: False
    then show ?thesis using False put lead row by (auto simp: clear_wide_at_def Let_def if_distrib cong: if_cong)
  qed
qed

lemma clear_range_edits:
  assumes "grids_ok s" and "r < nrows s" and "en \<le> ncols s"
  shows "returns (clear_range r st en s) (edits s)"
proof (cases "en \<le> st")
  case True
  then show ?thesis using assms edits_refl by (simp add: clear_range_def)
next
  case False
  have "returns (do { row \<leftarrow> row_at r s2; cs \<leftarrow> fill_opt st en v (cells row); put_row r (row\<lparr>cells := cs\<rparr>) s2 }) (edits s2)"
    if "grids_ok s2" "scr_size s2 = scr_size s" for s2 v
    using row_at_ok [OF that(1), of r] that assms False
    by (auto simp: returns_rules intro!: put_row_edits)
  then have "returns (do { s1 \<leftarrow> clear_wide_at r st s; s2 \<leftarrow> clear_wide_at r (en - 1) s1; row \<leftarrow> row_at r s2;
      cs \<leftarrow> fill_opt st en (blank (pen s2)) (cells row); put_row r (row\<lparr>cells := cs\<rparr>) s2 }) (edits s)"
    using assms
    by (intro edits_bind clear_wide_at_edits) (auto simp: edits_fields)
  then show ?thesis using False by (simp add: clear_range_def)
qed

lemma cut_above_edits:
  assumes "grids_ok s" and "r < nrows s"
  shows "returns (cut_above r s) (edits s)"
proof (cases "r = 0")
  case True
  then show ?thesis using assms edits_refl by (simp add: cut_above_def)
next
  case False
  have lt: "r - 1 < nrows s" using assms(2) by linarith
  note above = row_at_ok [OF assms(1) lt]
  have "returns (do { s' \<leftarrow> put_row (r - 1) ((active_rows s ! (r - 1))\<lparr>soft_wrapped := False\<rparr>) s; break_chain_after (r - 1) s' }) (edits s)"
    using above lt assms by (intro edits_bind put_row_edits break_chain_edits) (auto simp: edits_fields)
  then show ?thesis using False above row_at_ok [OF assms] assms edits_refl by (simp add: cut_above_def)
qed

lemma clear_row_edits:
  assumes "grids_ok s" and "r < nrows s"
  shows "returns (clear_row r s) (edits s)"
  unfolding clear_row_def
proof (rule edits_bind [OF cut_above_edits [OF assms]])
  fix s1 assume s1: "edits s s1" "grids_ok s1"
  then have lt: "r < nrows s1" using assms by (simp add: edits_fields)
  have "returns (do { s2 \<leftarrow> put_row r ((active_rows s1 ! r)\<lparr>cells := replicate (length (cells (active_rows s1 ! r))) (blank (pen s1)), soft_wrapped := False\<rparr>) s1;
      break_chain_after r s2 }) (edits s1)"
    using row_at_ok [OF s1(2) lt] s1 lt
    by (intro edits_bind put_row_edits break_chain_edits) (auto simp: edits_fields)
  then show "returns (do { row \<leftarrow> row_at r s1;
      s2 \<leftarrow> put_row r (row\<lparr>cells := replicate (length (cells row)) (blank (pen s1)), soft_wrapped := False\<rparr>) s1;
      break_chain_after r s2 }) (edits s1)"
    using row_at_ok [OF s1(2) lt] by simp
qed

lemma clear_rows_edits:
  "grids_ok s \<Longrightarrow> \<forall>r \<in> set rs. r < nrows s \<Longrightarrow> returns (clear_rows rs s) (edits s)"
proof (induction rs arbitrary: s)
  case Nil
  then show ?case by (simp add: edits_refl)
next
  case (Cons r rs)
  then show ?case
    by (auto intro!: edits_bind clear_row_edits Cons.IH simp: edits_fields)
qed

section \<open>Scrolling\<close>

lemma rows_ok_move:
  assumes "rows_ok nr n rs" and "src < nr" and "dst < nr" and "length (cells row) = n"
    and "rs' = take src rs @ drop (Suc src) rs"
  shows "length rs' = nr - 1" "rows_ok nr n (take dst rs' @ row # drop dst rs')"
proof -
  show len: "length rs' = nr - 1" using assms by (simp add: rows_ok_def)
  have "set rs' \<subseteq> set rs" using assms(5) by (auto dest: in_set_takeD in_set_dropD)
  then show "rows_ok nr n (take dst rs' @ row # drop dst rs')"
    using assms len by (auto simp: rows_ok_def dest!: in_set_takeD in_set_dropD)
qed

lemma active_next_id [simp]: "active (s\<lparr>next_line_id := nx\<rparr>) = active s"
  by (simp add: active_def)

lemma same_frame_next_id: "same_frame s s' \<Longrightarrow> same_frame s (s'\<lparr>next_line_id := nx\<rparr>)"
  unfolding same_frame_def by (elim exE) (simp, blast)

lemma edits_next_id: "edits s s' \<Longrightarrow> edits s (s'\<lparr>next_line_id := nx\<rparr>)"
  by (auto simp: edits_def grids_ok_def intro: same_frame_next_id)

lemma set_rows_over:
  "set_rows rs' ((set_rows rs s)\<lparr>next_line_id := nx\<rparr>) = (set_rows rs' s)\<lparr>next_line_id := nx\<rparr>"
  by (simp add: set_rows_def)

lemma shift_rows_edits:
  "grids_ok s \<Longrightarrow> src < nrows s \<Longrightarrow> dst < nrows s \<Longrightarrow> returns (shift_rows k src dst s) (edits s)"
proof (induction k arbitrary: s)
  case 0
  then show ?case by (simp add: edits_refl)
next
  case (Suc k)
  let ?rs = "active_rows s"
  define rs1 where "rs1 = take src ?rs @ drop (Suc src) ?rs"
  define row where "row = row_new (ncols s) (next_line_id s) (pen s)"
  define s2 where "s2 = (set_rows (take dst rs1 @ row # drop dst rs1) s)\<lparr>next_line_id := sat64 (next_line_id s)\<rparr>"
  have row: "length (cells row) = ncols s" by (simp add: row_def row_new_def)
  note moved = rows_ok_move [OF active_rows_ok [OF Suc.prems(1)] Suc.prems(2,3) row rs1_def]
  have e: "edits s s2" unfolding s2_def by (intro edits_next_id set_rows_edits) (use Suc.prems moved in auto)
  have "shift_rows (Suc k) src dst s = shift_rows k src dst s2"
    using Suc.prems moved(1)
    by (simp add: returns_rules new_row_def Let_def s2_def rs1_def [symmetric] row_def [symmetric] set_rows_over)
  moreover have "returns (shift_rows k src dst s2) (edits s2)"
    using Suc.prems e by (intro Suc.IH) (auto simp: edits_fields dest: editsD)
  ultimately show ?case using e by (auto intro: returns_weaken edits_trans)
qed

lemma trim_history_ok:
  "length (trim_history sb n h) \<le> sb \<and> length (trim_history sb n h) * n \<le> MAX_TERMINAL_HISTORY_CELLS \<and>
   set (trim_history sb n h) \<subseteq> set h"
  by (induction sb n h rule: trim_history.induct) auto

lemma retire_fields [simp]:
  "scr_size (retire b r s) = scr_size s" "alt_active (retire b r s) = alt_active s"
  "next_line_id (retire b r s) = next_line_id s" "pen (retire b r s) = pen s"
  "active_rows (retire b r s) = active_rows s"
  "set_rows rs (retire b r s) = retire b r (set_rows rs s)"
  "(retire b r s)\<lparr>next_line_id := nx\<rparr> = retire b r (s\<lparr>next_line_id := nx\<rparr>)"
  by (auto simp: retire_def active_def set_rows_def)

lemma retire_grids:
  assumes "same_frame s s'" and "grids_ok s'" and "length (cells r) = ncols s"
  shows "same_frame s (retire b r s') \<and> grids_ok (retire b r s')"
proof -
  have "same_frame s' (retire b r s')"
    by (rule same_frameI [where m = "main_grid (retire b r s')" and a = "alt_grid s'" and nx = "next_line_id s'"])
       (simp add: retire_def)
  moreover have "grids_ok (retire b r s')"
    using assms by (auto simp: grids_ok_def retire_def same_frame_fields)
  ultimately show ?thesis using assms(1) same_frame_trans by blast
qed

lemma cells_continue_row [simp]: "cells (continue_row b cont row) = cells row"
  by (auto simp: continue_row_def split: option.splits)

lemma length_cells_row_new [simp]: "length (cells (row_new n ident st)) = n"
  by (simp add: row_new_def)

lemma scroll_up_loop_frame:
  "grids_ok s \<Longrightarrow> margins_ok s \<Longrightarrow> returns (scroll_up_loop k cont s) (\<lambda>s'. same_frame s s' \<and> grids_ok s')"
proof (induction k arbitrary: s)
  case 0
  then show ?case by simp
next
  case (Suc k)
  let ?rs = "active_rows s"
  have top: "scroll_top s < nrows s" and bot: "scroll_bottom s < nrows s" using Suc.prems(2) by (auto simp: margins_ok_def)
  define rs1 where "rs1 = take (scroll_top s) ?rs @ drop (Suc (scroll_top s)) ?rs"
  define row where "row = continue_row (k = 0) cont (row_new (ncols s) (next_line_id s) (pen s))"
  define s1 where "s1 = (set_rows (take (scroll_bottom s) rs1 @ row # drop (scroll_bottom s) rs1) s)\<lparr>next_line_id := sat64 (next_line_id s)\<rparr>"
  define s2 where "s2 = retire (keeps_history s) (?rs ! scroll_top s) s1"
  have row: "length (cells row) = ncols s" by (simp add: row_def)
  note moved = rows_ok_move [OF active_rows_ok [OF Suc.prems(1)] top bot row rs1_def]
  have e: "edits s s1" unfolding s1_def by (intro edits_next_id set_rows_edits) (use Suc.prems moved in auto)
  have s2: "same_frame s s2" "grids_ok s2"
    using retire_grids [OF editsD(2) [OF e] editsD(1) [OF e] row_at_ok(2) [OF Suc.prems(1) top]] by (simp_all add: s2_def)
  have eq: "scroll_up_loop (Suc k) cont s = scroll_up_loop k cont s2"
    using Suc.prems top bot moved(1)
    by (simp add: returns_rules new_row_def s2_def s1_def rs1_def [symmetric] row_def [symmetric] set_rows_over)
  have "margins_ok s2" using Suc.prems(2) s2(1) by (simp add: margins_ok_def same_frame_fields)
  then have "returns (scroll_up_loop k cont s2) (\<lambda>s'. same_frame s2 s' \<and> grids_ok s')" by (intro Suc.IH s2)
  then show ?case unfolding eq using s2(1) by (auto intro: returns_weaken same_frame_trans)
qed

text \<open>Scrolling puts the cursor on the bottom margin and brings the history within its budget.\<close>

lemma same_frame_cursor: "same_frame s s' \<Longrightarrow> same_frame (s\<lparr>cursor := c\<rparr>) (s'\<lparr>cursor := c\<rparr>)"
proof -
  assume "same_frame s s'"
  then obtain m a nx where "s' = s\<lparr>main_grid := m, alt_grid := a, next_line_id := nx\<rparr>" by (auto simp: same_frame_def)
  then show ?thesis by (intro same_frameI [where m = m and a = a and nx = nx]) simp
qed

lemma enforce_history_budget_ok:
  assumes "grids_ok s"
  shows "same_frame s (enforce_history_budget s) \<and> grids_ok (enforce_history_budget s) \<and> history_ok (enforce_history_budget s)"
proof -
  have "same_frame s (enforce_history_budget s)"
    by (rule same_frameI [where m = "main_grid (enforce_history_budget s)" and a = "alt_grid s" and nx = "next_line_id s"])
       (simp add: enforce_history_budget_def)
  then show ?thesis
    using assms trim_history_ok [of "scrollback_rows s" "ncols s" "grid_history (main_grid s)"]
    by (auto simp: enforce_history_budget_def grids_ok_def history_ok_def)
qed

lemma scroll_up_internal_ok:
  assumes "grids_ok s" and "margins_ok s"
  shows "returns (scroll_up_internal n cont s)
     (\<lambda>s'. same_frame (set_cursor_row (scroll_bottom s) s) s' \<and> grids_ok s' \<and> history_ok s')"
proof -
  obtain s1 where s1: "scroll_up_loop (min n (scroll_bottom s - scroll_top s + 1)) cont s = Some s1" "same_frame s s1" "grids_ok s1"
    using scroll_up_loop_frame [OF assms, of "min n (scroll_bottom s - scroll_top s + 1)" cont] by (auto elim: returnsE)
  let ?s2 = "set_cursor_row (scroll_bottom s) s1"
  have "same_frame (set_cursor_row (scroll_bottom s) s) ?s2" "grids_ok ?s2"
    using same_frame_cursor [OF s1(2), of "(cursor s)\<lparr>cur_row := scroll_bottom s\<rparr>"] s1(3)
    by (simp_all add: set_cursor_row_def same_frame_fields(3) [OF s1(2)] grids_ok_def)
  then have "same_frame (set_cursor_row (scroll_bottom s) s) (enforce_history_budget ?s2)"
    "grids_ok (enforce_history_budget ?s2)" "history_ok (enforce_history_budget ?s2)"
    using enforce_history_budget_ok [of ?s2] same_frame_trans by blast+
  moreover have "scroll_up_internal n cont s = Some (enforce_history_budget ?s2)"
    using s1(1) assms(2) by (simp add: scroll_up_internal_def returns_rules margins_ok_def)
  ultimately show ?thesis by simp
qed

section \<open>Well-formedness through updates\<close>

lemmas screen_ok_defs = screen_ok_def grids_ok_def history_ok_def cursor_ok_def margins_ok_def marks_ok_def

lemma screen_ok_same_frame:
  "screen_ok s \<Longrightarrow> same_frame s s' \<Longrightarrow> grids_ok s' \<Longrightarrow> history_ok s' \<Longrightarrow> screen_ok s'"
  by (simp add: screen_ok_def cursor_ok_def margins_ok_def marks_ok_def same_frame_fields)

lemma screen_ok_edits: "screen_ok s \<Longrightarrow> edits s s' \<Longrightarrow> screen_ok s'"
  using screen_ok_same_frame [of s s'] editsD [of s s'] same_frame_fields [of s s']
  by (simp add: history_ok_def screen_ok_def [of s])

lemma screen_okD:
  assumes "screen_ok s"
  shows "grids_ok s" "margins_ok s" "cursor_ok s" "history_ok s" "cur_row (cursor s) < nrows s" "cur_col (cursor s) < ncols s"
    "0 < nrows s" "0 < ncols s" "scroll_bottom s < nrows s" "scroll_top s \<le> scroll_bottom s"
  using assms by (auto simp: screen_ok_defs)

lemma screen_ok_ignored [simp]:
  "screen_ok (changed s) = screen_ok s" "screen_ok (display_only_changed s) = screen_ok s"
  by (simp_all add: changed_def display_only_changed_def screen_ok_defs)

lemma screen_ok_no_wrap: "screen_ok s \<Longrightarrow> screen_ok (no_wrap s)"
  by (simp add: no_wrap_def screen_ok_defs)

lemma screen_ok_set_col: "screen_ok s \<Longrightarrow> c < ncols s \<Longrightarrow> screen_ok (set_cursor_col c s)"
  by (simp add: set_cursor_col_def screen_ok_defs)

lemma screen_ok_set_row: "screen_ok s \<Longrightarrow> r < nrows s \<Longrightarrow> screen_ok (set_cursor_row r s)"
  by (simp add: set_cursor_row_def screen_ok_defs)

lemma screen_ok_move_to:
  "screen_ok s \<Longrightarrow> r < nrows s \<Longrightarrow> c < ncols s \<Longrightarrow> (w \<longrightarrow> autowrap (modes s)) \<Longrightarrow> screen_ok (move_to r c w s)"
  by (simp add: move_to_def screen_ok_defs)

lemma screen_ok_last_grapheme:
  "screen_ok s \<Longrightarrow> r < nrows s \<Longrightarrow> c < ncols s \<Longrightarrow> screen_ok (s\<lparr>last_grapheme := Some (r, c)\<rparr>)"
  "screen_ok s \<Longrightarrow> screen_ok (s\<lparr>last_grapheme := None\<rparr>)"
  by (simp_all add: screen_ok_defs)

lemma cursor_update_fields [simp]:
  "scr_size (changed s) = scr_size s" "scr_size (display_only_changed s) = scr_size s" "scr_size (no_wrap s) = scr_size s"
  "scr_size (set_cursor_col c s) = scr_size s" "scr_size (set_cursor_row r s) = scr_size s" "scr_size (move_to r c w s) = scr_size s"
  "modes (changed s) = modes s" "modes (display_only_changed s) = modes s" "modes (no_wrap s) = modes s"
  "modes (set_cursor_col c s) = modes s" "modes (set_cursor_row r s) = modes s" "modes (move_to r c w s) = modes s"
  "scroll_top (changed s) = scroll_top s" "scroll_top (display_only_changed s) = scroll_top s" "scroll_top (no_wrap s) = scroll_top s"
  "scroll_top (set_cursor_col c s) = scroll_top s" "scroll_top (set_cursor_row r s) = scroll_top s" "scroll_top (move_to r c w s) = scroll_top s"
  "scroll_bottom (changed s) = scroll_bottom s" "scroll_bottom (display_only_changed s) = scroll_bottom s"
  "scroll_bottom (no_wrap s) = scroll_bottom s" "scroll_bottom (set_cursor_col c s) = scroll_bottom s"
  "scroll_bottom (set_cursor_row r s) = scroll_bottom s" "scroll_bottom (move_to r c w s) = scroll_bottom s"
  "cur_row (cursor (no_wrap s)) = cur_row (cursor s)" "cur_col (cursor (no_wrap s)) = cur_col (cursor s)"
  "cur_row (cursor (set_cursor_col c s)) = cur_row (cursor s)" "cur_col (cursor (set_cursor_col c s)) = c"
  "cur_row (cursor (set_cursor_row r s)) = r" "cur_col (cursor (set_cursor_row r s)) = cur_col (cursor s)"
  "pending_wrap (cursor (no_wrap s)) = False" "cursor (changed s) = cursor s" "cursor (display_only_changed s) = cursor s"
  "cursor (move_to r c w s) = \<lparr>cur_row = r, cur_col = c, pending_wrap = w\<rparr>"
  "published (changed s) = published s" "published (display_only_changed s) = published s" "published (no_wrap s) = published s"
  "published (set_cursor_col c s) = published s" "published (set_cursor_row r s) = published s"
  "published (move_to r c w s) = published s"
  by (simp_all add: changed_def display_only_changed_def no_wrap_def set_cursor_col_def set_cursor_row_def move_to_def)

text \<open>The settings that writing text leaves alone.\<close>

definition keeps :: "screen \<Rightarrow> screen \<Rightarrow> bool" where
  "keeps s s' \<longleftrightarrow> scr_size s' = scr_size s \<and> modes s' = modes s \<and> scroll_top s' = scroll_top s \<and> scroll_bottom s' = scroll_bottom s \<and>
     published s' = published s"

definition ok_step :: "screen \<Rightarrow> screen \<Rightarrow> bool" where
  "ok_step s s' \<longleftrightarrow> screen_ok s' \<and> keeps s s'"

lemma keeps_refl [simp]: "keeps s s"
  by (simp add: keeps_def)

lemma keeps_trans: "keeps s s1 \<Longrightarrow> keeps s1 s2 \<Longrightarrow> keeps s s2"
  by (simp add: keeps_def)

lemma same_frame_keeps: "same_frame s s' \<Longrightarrow> keeps s s'"
  by (simp add: keeps_def same_frame_fields)

lemma ok_step_edits: "screen_ok s \<Longrightarrow> edits s s' \<Longrightarrow> ok_step s s'"
  by (simp add: ok_step_def screen_ok_edits same_frame_keeps editsD(2))

lemma ok_step_trans: "ok_step s s1 \<Longrightarrow> ok_step s1 s2 \<Longrightarrow> ok_step s s2"
  by (auto simp: ok_step_def intro: keeps_trans)

lemma ok_step_bind:
  assumes "returns m (ok_step s)" and "\<And>s1. ok_step s s1 \<Longrightarrow> screen_ok s1 \<Longrightarrow> returns (f s1) (ok_step s1)"
  shows "returns (Option.bind m f) (ok_step s)"
proof (rule returns_bind [OF assms(1)])
  fix s1 assume a: "ok_step s s1"
  then have "returns (f s1) (ok_step s1)" using assms(2) by (simp add: ok_step_def)
  then show "returns (f s1) (ok_step s)" by (rule returns_weaken) (rule ok_step_trans [OF a])
qed

lemma ok_step_from:
  "ok_step (no_wrap s) = ok_step s" "ok_step (set_cursor_col c s) = ok_step s" "ok_step (set_cursor_row r s) = ok_step s"
  "ok_step (move_to r c w s) = ok_step s" "ok_step (changed s) = ok_step s" "ok_step (s\<lparr>last_grapheme := g\<rparr>) = ok_step s"
  by (simp_all add: fun_eq_iff ok_step_def keeps_def)

text \<open>An edit of the grids followed by a change of the cursor or the counters.\<close>

lemma edits_then:
  assumes "screen_ok s" and "returns m (edits s)" and "\<And>s1. edits s s1 \<Longrightarrow> screen_ok s1 \<Longrightarrow> returns (f s1) (ok_step s1)"
  shows "returns (Option.bind m f) (ok_step s)"
proof (rule returns_bind [OF assms(2)])
  fix s1 assume a: "edits s s1"
  then have "returns (f s1) (ok_step s1)" using assms(3) screen_ok_edits [OF assms(1)] by simp
  then show "returns (f s1) (ok_step s)" by (rule returns_weaken) (rule ok_step_trans [OF ok_step_edits [OF assms(1) a]])
qed

section \<open>Operations\<close>

lemma clear_range_step:
  "screen_ok s \<Longrightarrow> r < nrows s \<Longrightarrow> en \<le> ncols s \<Longrightarrow> returns (clear_range r st en s) (ok_step s)"
  using clear_range_edits [of s r en st] ok_step_edits [of s] by (auto intro: returns_weaken dest: screen_okD(1))

lemma clear_rows_step:
  "screen_ok s \<Longrightarrow> \<forall>r \<in> set rs. r < nrows s \<Longrightarrow> returns (clear_rows rs s) (ok_step s)"
  using clear_rows_edits [of s rs] ok_step_edits [of s] by (auto intro: returns_weaken dest: screen_okD(1))

lemma clear_row_step: "screen_ok s \<Longrightarrow> r < nrows s \<Longrightarrow> returns (clear_row r s) (ok_step s)"
  using clear_row_edits [of s r] ok_step_edits [of s] by (auto intro: returns_weaken dest: screen_okD(1))

lemma scroll_up_internal_step:
  assumes "screen_ok s"
  shows "returns (scroll_up_internal n cont s) (\<lambda>s'. ok_step s s' \<and> cursor s' = (cursor s)\<lparr>cur_row := scroll_bottom s\<rparr>)"
  using scroll_up_internal_ok [OF screen_okD(1,2) [OF assms]]
proof (rule returns_weaken)
  fix s'
  assume s': "same_frame (set_cursor_row (scroll_bottom s) s) s' \<and> grids_ok s' \<and> history_ok s'"
  have "screen_ok (set_cursor_row (scroll_bottom s) s)" using assms screen_okD by (auto intro: screen_ok_set_row)
  then have "screen_ok s'" using s' screen_ok_same_frame by blast
  then show "ok_step s s' \<and> cursor s' = (cursor s)\<lparr>cur_row := scroll_bottom s\<rparr>"
    using s' same_frame_fields [of "set_cursor_row (scroll_bottom s) s" s']
    by (auto simp: ok_step_def keeps_def set_cursor_row_def)
qed

lemma scroll_up_step:
  assumes "screen_ok s"
  shows "returns (scroll_up n s) (ok_step s)"
  unfolding scroll_up_def
proof (rule returns_bind [OF scroll_up_internal_step [OF assms]])
  fix s' assume "ok_step s s' \<and> cursor s' = (cursor s)\<lparr>cur_row := scroll_bottom s\<rparr>"
  then show "returns (Some (changed (s'\<lparr>cursor := cursor s\<rparr>))) (ok_step s)"
    using assms by (auto simp: ok_step_def keeps_def changed_def screen_ok_defs)
qed

lemma shift_rows_step:
  assumes "screen_ok s" and "src < nrows s" and "dst < nrows s"
  shows "returns (Option.bind (shift_rows k src dst s) (\<lambda>s'. Some (changed s'))) (ok_step s)"
  using assms screen_okD(1) [OF assms(1)]
  by (intro edits_then shift_rows_edits) (auto simp: ok_step_def keeps_def)

lemma scroll_down_step: "screen_ok s \<Longrightarrow> returns (scroll_down n s) (ok_step s)"
  using shift_rows_step [of s "scroll_bottom s" "scroll_top s"] screen_okD [of s]
  by (simp add: scroll_down_def returns_rules)

lemma lines_step:
  assumes "screen_ok s"
  shows "returns (insert_lines n s) (ok_step s)" "returns (delete_lines n s) (ok_step s)"
  using shift_rows_step [OF assms, of "scroll_bottom s" "cur_row (cursor s)"]
    shift_rows_step [OF assms, of "cur_row (cursor s)" "scroll_bottom s"] screen_okD [OF assms] assms
  by (auto simp: insert_lines_def delete_lines_def ok_step_def)

lemma line_feed_step:
  assumes "screen_ok s"
  shows "returns (line_feed s) (ok_step s)"
proof -
  let ?r = "cur_row (cursor s)"
  note row = row_at_ok [OF screen_okD(1,5) [OF assms]]
  let ?tail = "\<lambda>s2. Option.bind (if ?r = scroll_bottom s2 then scroll_up_internal 1 None s2
            else Some (if ?r + 1 < nrows s2 then set_cursor_row (?r + 1) s2 else s2)) (\<lambda>s3. Some (changed s3))"
  have tail: "returns (?tail s2) (ok_step s2)" if "screen_ok s2" for s2
    using that scroll_up_internal_step [OF that, of 1 None]
    by (auto intro!: ok_step_bind intro: screen_ok_set_row returns_weaken simp: ok_step_def keeps_def)
  have s0: "screen_ok (no_wrap s)" using assms by (rule screen_ok_no_wrap)
  have "returns (do { s1 \<leftarrow> put_row ?r ((active_rows s ! ?r)\<lparr>soft_wrapped := False\<rparr>) (no_wrap s);
      s2 \<leftarrow> break_chain_after ?r s1; ?tail s2 }) (ok_step (no_wrap s))"
  proof (rule edits_then [OF s0 put_row_edits])
    fix s1 assume s1: "edits (no_wrap s) s1" "screen_ok s1"
    have "returns (break_chain_after ?r s1) (edits s1)"
      using s1 screen_okD(1,5) [OF assms] by (intro break_chain_edits) (auto simp: edits_fields dest: editsD)
    then show "returns (do { s2 \<leftarrow> break_chain_after ?r s1; ?tail s2 }) (ok_step s1)"
      by (rule edits_then [OF s1(2)]) (rule tail)
  qed (use s0 row screen_okD [OF assms] in \<open>auto dest: screen_okD(1)\<close>)
  then show ?thesis
    using row by (simp add: line_feed_def Let_def ok_step_from)
qed

text \<open>
  A soft wrap needs a row below the cursor, unless the cursor is on the bottom margin; \<open>wrap_safe\<close> is the
  condition on the settings that guarantees it.
\<close>

definition wrap_safe :: "screen \<Rightarrow> bool" where
  "wrap_safe s \<longleftrightarrow> \<not> autowrap (modes s) \<or> scroll_bottom s + 1 = nrows s"

lemma wrap_safe_keeps: "wrap_safe s \<Longrightarrow> keeps s s' \<Longrightarrow> wrap_safe s'"
  by (simp add: wrap_safe_def keeps_def)

lemma soft_wrap_step:
  assumes "screen_ok s" and "cur_row (cursor s) = scroll_bottom s \<or> cur_row (cursor s) + 1 < nrows s"
  shows "returns (soft_wrap s) (\<lambda>s'. ok_step s s' \<and> cur_col (cursor s') = 0 \<and> \<not> pending_wrap (cursor s'))"
proof -
  let ?r = "cur_row (cursor s)"
  let ?row = "active_rows s ! ?r"
  let ?off = "wrap32 (cell_offset ?row + ncols s)"
  note row = row_at_ok [OF screen_okD(1,5) [OF assms(1)]]
  obtain s1 where s1: "put_row ?r (?row\<lparr>soft_wrapped := True\<rparr>) s = Some s1" "edits s s1"
    using put_row_edits [OF screen_okD(1,5) [OF assms(1)], of "?row\<lparr>soft_wrapped := True\<rparr>"] row(2) by (auto elim: returnsE)
  define s2 where "s2 = move_to ?r 0 False s1"
  have fields: "scr_size s2 = scr_size s" "modes s2 = modes s" "scroll_bottom s2 = scroll_bottom s" "scroll_top s2 = scroll_top s"
    "published s2 = published s"
    using edits_fields [OF s1(2)] by (simp_all add: s2_def)
  have s2: "screen_ok s2"
    unfolding s2_def using screen_ok_edits [OF assms(1) s1(2)] screen_okD [OF assms(1)] edits_fields [OF s1(2)]
    by (intro screen_ok_move_to) auto
  have keep: "ok_step s2 = ok_step s" using fields by (simp add: fun_eq_iff ok_step_def keeps_def)
  show ?thesis
  proof (cases "?r = scroll_bottom s")
    case True
    then have "soft_wrap s = Option.bind (scroll_up_internal 1 (Some (logical_line_id ?row, ?off)) s2) (\<lambda>s3. Some (changed s3))"
      using s1 row fields by (simp add: soft_wrap_def Let_def s2_def)
    moreover have "returns (Option.bind (scroll_up_internal 1 (Some (logical_line_id ?row, ?off)) s2) (\<lambda>s3. Some (changed s3)))
      (\<lambda>s'. ok_step s s' \<and> cur_col (cursor s') = 0 \<and> \<not> pending_wrap (cursor s'))"
      by (rule returns_bind [OF scroll_up_internal_step [OF s2]])
         (auto simp: keep, auto simp: ok_step_def keeps_def s2_def)
    ultimately show ?thesis by simp
  next
    case False
    then have lt: "?r + 1 < nrows s2" using assms(2) fields by simp
    let ?s2' = "set_cursor_row (?r + 1) s2"
    have s2': "screen_ok ?s2'" using s2 lt by (intro screen_ok_set_row) simp_all
    have next_row: "row_at (?r + 1) s2 = Some (active_rows s2 ! (?r + 1))" "length (cells (active_rows s2 ! (?r + 1))) = ncols s2"
      using row_at_ok [OF screen_okD(1) [OF s2] lt] by simp_all
    obtain s3 where s3: "put_row (?r + 1) ((active_rows s2 ! (?r + 1))\<lparr>logical_line_id := logical_line_id ?row, cell_offset := ?off\<rparr>) ?s2' = Some s3"
      "edits ?s2' s3"
      using put_row_edits [OF screen_okD(1) [OF s2'], of "?r + 1"
          "(active_rows s2 ! (?r + 1))\<lparr>logical_line_id := logical_line_id ?row, cell_offset := ?off\<rparr>"] lt next_row
      by (auto elim: returnsE)
    have "soft_wrap s = Some (changed s3)"
      using s1 row fields False next_row(1) s3(1) by (simp add: soft_wrap_def Let_def s2_def)
    moreover have "ok_step s (changed s3)"
      using ok_step_edits [OF s2' s3(2)] keep by (simp add: ok_step_from) (simp add: ok_step_def keeps_def)
    moreover have "cursor s3 = \<lparr>cur_row = ?r + 1, cur_col = 0, pending_wrap = False\<rparr>"
      using edits_fields(3) [OF s3(2)] by (simp add: s2_def set_cursor_row_def move_to_def)
    ultimately show ?thesis by simp
  qed
qed

lemma length_sanitize_continuations [simp]: "length (sanitize_continuations u st k cs) = length cs"
  by (induction u st k cs rule: sanitize_continuations.induct) (auto simp: Let_def)

lemma length_sanitize_leads [simp]: "length (sanitize_leads u st cs) = length cs"
  by (induction u st cs rule: sanitize_leads.induct) auto

lemma length_sanitize_row [simp]: "length (sanitize_row u st cs) = length cs"
  by (simp add: sanitize_row_def)

lemma put_row_then:
  assumes "screen_ok s" and "r < nrows s" and "length (cells row) = ncols s"
  shows "returns (Option.bind (put_row r row s) (\<lambda>s'. Some (changed (no_wrap s'))))
     (\<lambda>s'. ok_step s s' \<and> cur_row (cursor s') = cur_row (cursor s) \<and> cur_col (cursor s') = cur_col (cursor s))"
proof (rule returns_bind [OF put_row_edits [OF screen_okD(1) [OF assms(1)] assms(2,3)]])
  fix s' assume e: "edits s s'"
  then show "returns (Some (changed (no_wrap s')))
     (\<lambda>s'. ok_step s s' \<and> cur_row (cursor s') = cur_row (cursor s) \<and> cur_col (cursor s') = cur_col (cursor s))"
    using ok_step_edits [OF assms(1) e] edits_fields(3) [OF e] screen_ok_no_wrap by (simp add: ok_step_def keeps_def)
qed

lemma insert_characters_step:
  assumes "screen_ok s"
  shows "returns (insert_characters u n s)
     (\<lambda>s'. ok_step s s' \<and> cur_row (cursor s') = cur_row (cursor s) \<and> cur_col (cursor s') = cur_col (cursor s))"
proof -
  let ?r = "cur_row (cursor s)" and ?c = "cur_col (cursor s)"
  note row = row_at_ok [OF screen_okD(1,5) [OF assms]] and lt = screen_okD(6) [OF assms]
  define k where "k = min (max n (Suc 0)) (ncols s - ?c)"
  define cs where "cs = sanitize_row u (pen s) (cells (active_rows s ! ?r))"
  have len: "length cs = ncols s" "?c + k \<le> ncols s" using row lt by (auto simp: cs_def k_def)
  obtain cs1 where cs1: "rotate_right_opt ?c k cs = Some cs1" "length cs1 = length cs"
    using returns_rotate_right_opt [of ?c k cs] len by auto
  have "insert_characters u n s = Option.bind
      (put_row ?r ((active_rows s ! ?r)\<lparr>cells := sanitize_row u (pen s) (take ?c cs1 @ replicate k (blank (pen s)) @ drop (?c + k) cs1)\<rparr>) s)
      (\<lambda>s'. Some (changed (no_wrap s')))"
    using row lt len cs1 by (simp add: insert_characters_def Let_def returns_rules cs_def [symmetric] k_def [symmetric])
  then show ?thesis
    using put_row_then [OF assms screen_okD(5) [OF assms]] len cs1 by simp
qed

lemma delete_characters_step:
  assumes "screen_ok s"
  shows "returns (delete_characters u n s) (ok_step s)"
proof -
  let ?r = "cur_row (cursor s)" and ?c = "cur_col (cursor s)"
  note row = row_at_ok [OF screen_okD(1,5) [OF assms]] and lt = screen_okD(6) [OF assms]
  define k where "k = min (max n (Suc 0)) (ncols s - ?c)"
  define cs where "cs = sanitize_row u (pen s) (cells (active_rows s ! ?r))"
  have len: "length cs = ncols s" "?c + k \<le> ncols s" using row lt by (auto simp: cs_def k_def)
  obtain cs1 where cs1: "rotate_left_opt ?c k cs = Some cs1" "length cs1 = length cs"
    using returns_rotate_left_opt [of ?c k cs] len by auto
  have "delete_characters u n s = Option.bind
      (put_row ?r ((active_rows s ! ?r)\<lparr>cells := sanitize_row u (pen s) (take (ncols s - k) cs1 @ replicate (ncols s - (ncols s - k)) (blank (pen s)))\<rparr>) s)
      (\<lambda>s'. Some (changed (no_wrap s')))"
    using row lt len cs1 by (simp add: delete_characters_def Let_def returns_rules cs_def [symmetric] k_def [symmetric])
  then show ?thesis
    using len cs1 by (simp, intro returns_weaken [OF put_row_then [OF assms screen_okD(5) [OF assms]]]) simp_all
qed

section \<open>Writing text\<close>

lemma advance_step:
  assumes "screen_ok s" and "r < nrows s" and "c < ncols s"
  shows "ok_step s ((advance r c w s)\<lparr>last_grapheme := Some (r, c)\<rparr>)"
  using assms screen_okD(8) [OF assms(1)]
  by (auto simp: advance_def ok_step_def keeps_def intro!: screen_ok_last_grapheme screen_ok_move_to)

lemma fit_glyph_step:
  assumes "screen_ok s" and "wrap_safe s" and "w = 1 \<or> w = 2"
  shows "returns (fit_glyph c w s)
     (\<lambda>(c', w', s'). ok_step s s' \<and> (w' = 1 \<or> w' = 2) \<and> (w' = 2 \<longrightarrow> cur_col (cursor s') + 1 < ncols s'))"
proof -
  have room: "cur_row (cursor s) = scroll_bottom s \<or> cur_row (cursor s) + 1 < nrows s" if "autowrap (modes s)"
    using assms(2) that screen_okD(5) [OF assms(1)] by (auto simp: wrap_safe_def)
  have pend: "pending_wrap (cursor s) \<Longrightarrow> autowrap (modes s)" using assms(1) by (simp add: screen_ok_defs)
  have wrap: "returns (Option.bind (soft_wrap s) (\<lambda>s'. Some (c, w', s')))
      (\<lambda>(c', w', s'). ok_step s s' \<and> (w' = 1 \<or> w' = 2) \<and> (w' = 2 \<longrightarrow> cur_col (cursor s') + 1 < ncols s'))"
    if "autowrap (modes s)" "w' = 1 \<or> w' = 2" "w' = 2 \<longrightarrow> ncols s \<noteq> 1" for c and w' :: nat
    using that screen_okD(8) [OF assms(1)]
    by (intro returns_bind [OF soft_wrap_step [OF assms(1) room [OF that(1)]]]) (auto simp: ok_step_def keeps_def)
  obtain c' w' where cw: "(c', w') = (if w = 2 \<and> ncols s = 1 then (REPLACEMENT, 1) else (c, w))" by fastforce
  then have w': "w' = 1 \<or> w' = 2" "w' = 2 \<longrightarrow> ncols s \<noteq> 1" using assms(3) by (auto split: if_splits)
  have fit: "fit_glyph c w s =
     (if w' = 2 \<and> ncols s \<le> cur_col (cursor s) + 1 \<and> \<not> autowrap (modes s) then Some (REPLACEMENT, 1, s)
      else if pending_wrap (cursor s) \<or> (w' = 2 \<and> ncols s \<le> cur_col (cursor s) + 1)
      then Option.bind (soft_wrap s) (\<lambda>s'. Some (c', w', s')) else Some (c', w', s))"
    unfolding fit_glyph_def cw [symmetric] by simp
  have "pending_wrap (cursor s) \<or> (w' = 2 \<and> ncols s \<le> cur_col (cursor s) + 1) \<Longrightarrow>
      \<not> (w' = 2 \<and> ncols s \<le> cur_col (cursor s) + 1 \<and> \<not> autowrap (modes s)) \<Longrightarrow> autowrap (modes s)"
    using pend by blast
  then show ?thesis unfolding fit using wrap [of w' c'] w' assms(1) by (auto simp: ok_step_def)
qed

text \<open>Drawing a glyph of one or two columns where there is room for it.\<close>

lemma draw_glyph_step:
  assumes "screen_ok s" and "r < nrows s" and "k < ncols s" and "w = 2 \<longrightarrow> k + 1 < ncols s"
  shows "returns (draw_glyph r k g w s) (ok_step s)"
proof -
  have opt: "returns (if w = 2 then m else Some s') (edits s')" if "w = 2 \<Longrightarrow> returns m (edits s')" "grids_ok s'" for m s'
    using that edits_refl by simp
  have "returns (do { s1 \<leftarrow> clear_wide_at r k s; s2 \<leftarrow> (if w = 2 then clear_wide_at r (k + 1) s1 else Some s1);
      s3 \<leftarrow> put_cell r k (mk_cell g (pen s)) s2;
      if w = 2 then put_cell r (k + 1) (mk_cell Continuation (pen s)) s3 else Some s3 }) (edits s)" (is "returns ?m _")
    using assms screen_okD(1) [OF assms(1)]
    by (intro edits_bind clear_wide_at_edits put_cell_edits opt) (auto simp: edits_fields)
  then have "returns (Option.bind ?m (\<lambda>s4. Some ((advance r k w s4)\<lparr>last_grapheme := Some (r, k)\<rparr>))) (ok_step s)"
    using assms advance_step by (intro edits_then) (auto simp: edits_fields)
  then show ?thesis by (simp add: draw_glyph_def)
qed

lemma write_character_step:
  assumes "screen_ok s" and "wrap_safe s" and "w = 1 \<or> w = 2"
  shows "returns (write_character u c w s) (ok_step s)"
proof -
  obtain c' w' s1 where fit: "fit_glyph c w s = Some (c', w', s1)" "ok_step s s1"
    and w: "w' = 2 \<longrightarrow> cur_col (cursor s1) + 1 < ncols s1"
    using fit_glyph_step [OF assms, of c] by (auto elim!: returnsE)
  have ok: "screen_ok s1" using fit by (simp add: ok_step_def)
  obtain s2 where ins: "(if insert_mode (modes s1) then insert_characters u w' s1 else Some s1) = Some s2" "ok_step s1 s2"
    and cur: "cur_row (cursor s2) = cur_row (cursor s1)" "cur_col (cursor s2) = cur_col (cursor s1)"
    using insert_characters_step [OF ok, of u w'] ok
    by (cases "insert_mode (modes s1)") (auto simp: ok_step_def elim!: returnsE)
  have ok2: "screen_ok s2" and room: "w' = 2 \<longrightarrow> cur_col (cursor s2) + 1 < ncols s2"
    using w ins(2) cur by (auto simp: ok_step_def keeps_def)
  obtain s3 where draw: "draw_glyph (cur_row (cursor s2)) (cur_col (cursor s2)) (GChar c') w' s2 = Some s3" "ok_step s2 s3"
    using draw_glyph_step [OF ok2 screen_okD(5,6) [OF ok2] room] by (auto elim: returnsE)
  have "ok_step s s3" using fit(2) ins(2) draw(2) ok_step_trans by blast
  then show ?thesis
    using fit(1) ins(1) draw(1) row_at_ok [OF screen_okD(1,5) [OF ok2]] screen_okD(6) [OF ok2]
    by (simp add: write_character_def returns_rules) (simp add: ok_step_def keeps_def)
qed

lemma write_leading_combining_step:
  assumes "screen_ok s"
  shows "returns (write_leading_combining c s) (ok_step s)"
proof -
  let ?r = "cur_row (cursor s)" and ?k = "cur_col (cursor s)"
  have "returns (Option.bind (put_cell ?r ?k v s1) (\<lambda>s2. Some (changed (s2\<lparr>last_grapheme := Some (?r, ?k)\<rparr>)))) (ok_step s1)"
    if "edits s s1" "screen_ok s1" for s1 v
    using that screen_okD [OF assms]
    by (intro edits_then put_cell_edits)
       (auto simp: edits_fields ok_step_def keeps_def intro!: screen_ok_last_grapheme dest: screen_okD(1))
  then show ?thesis
    using screen_okD(1,5) [OF assms] assms unfolding write_leading_combining_def Let_def
    by (intro edits_then clear_wide_at_edits) (auto simp: ok_step_def)
qed

lemma replace_without_room_step:
  assumes "screen_ok s" and "r < nrows s" and "lead < ncols s"
  shows "returns (replace_without_room r lead st s) (ok_step s)"
  unfolding replace_without_room_def
proof (rule edits_then [OF assms(1) put_cell_edits [OF screen_okD(1) [OF assms(1)] assms(2,3)]])
  fix s1 assume s1: "edits s s1" "screen_ok s1"
  have "screen_ok (if ncols s = 1 then move_to r 0 (autowrap (modes s)) s1 else move_to r lead False s1)"
    using s1 assms by (auto simp: edits_fields intro!: screen_ok_move_to)
  then show "returns (Some (changed ((if ncols s = 1 then move_to r 0 (autowrap (modes s)) s1 else move_to r lead False s1)
      \<lparr>last_grapheme := Some (r, lead)\<rparr>))) (ok_step s1)"
    using assms edits_fields(1) [OF s1(1)] by (auto simp: ok_step_def keeps_def intro!: screen_ok_last_grapheme)
qed

lemma replace_on_next_row_step:
  assumes "screen_ok s" and "r < nrows s" and "lead < ncols s" and "1 < ncols s" and "wrap_safe s" and "autowrap (modes s)"
  shows "returns (replace_on_next_row r lead st cluster s) (ok_step s)"
  unfolding replace_on_next_row_def
proof (rule edits_then [OF assms(1) put_cell_edits [OF screen_okD(1) [OF assms(1)] assms(2,3)]])
  fix s1 assume s1: "edits s s1" "screen_ok s1"
  let ?s1 = "move_to r (ncols s - 1) True s1"
  have ok1: "screen_ok ?s1" using s1 assms by (intro screen_ok_move_to) (auto simp: edits_fields)
  have room: "cur_row (cursor ?s1) = scroll_bottom ?s1 \<or> cur_row (cursor ?s1) + 1 < nrows ?s1"
    using assms(2,5,6) edits_fields [OF s1(1)] by (auto simp: wrap_safe_def)
  obtain s2 where s2: "soft_wrap ?s1 = Some s2" "ok_step ?s1 s2" using soft_wrap_step [OF ok1 room] by (auto elim: returnsE)
  have ok2: "screen_ok s2" and sz: "scr_size s2 = scr_size s" using s2 edits_fields [OF s1(1)] by (auto simp: ok_step_def keeps_def)
  let ?r = "cur_row (cursor s2)"
  have r: "?r < nrows s" using screen_okD(5) [OF ok2] sz by simp
  have "returns (do { s3 \<leftarrow> put_cell ?r 0 (mk_cell (Cluster cluster) st) s2; put_cell ?r 1 (mk_cell Continuation st) s3 }) (edits s2)"
    using screen_okD(1) [OF ok2] r sz assms(4) by (intro edits_bind put_cell_edits) (auto simp: edits_fields)
  then obtain s3 s4 where s34: "put_cell ?r 0 (mk_cell (Cluster cluster) st) s2 = Some s3"
      "put_cell ?r 1 (mk_cell Continuation st) s3 = Some s4" "edits s2 s4"
    by (auto simp: bind_eq_Some_conv elim!: returnsE)
  define s5 where "s5 = (if ncols s = 2 then move_to ?r 1 (autowrap (modes s4)) s4 else move_to ?r 2 False s4)"
  have "screen_ok s5"
    using screen_ok_edits [OF ok2 s34(3)] edits_fields [OF s34(3)] sz r assms(4)
    by (auto simp: s5_def intro!: screen_ok_move_to)
  then have "ok_step s2 (changed (s5\<lparr>last_grapheme := Some (?r, 0)\<rparr>))"
    using edits_fields [OF s34(3)] sz r assms(4)
    by (auto simp: ok_step_def keeps_def s5_def intro!: screen_ok_last_grapheme)
  then have "ok_step s1 (changed (s5\<lparr>last_grapheme := Some (?r, 0)\<rparr>))"
    using s2(2) ok_step_trans by (auto simp: ok_step_from)
  then show "returns (do { s2 \<leftarrow> soft_wrap ?s1;
     let r' = cur_row (cursor s2);
     s3 \<leftarrow> put_cell r' 0 (mk_cell (Cluster cluster) st) s2;
     s4 \<leftarrow> put_cell r' 1 (mk_cell Continuation st) s3;
     let s5 = (if ncols s = 2 then move_to r' 1 (autowrap (modes s4)) s4 else move_to r' 2 False s4);
     Some (changed (s5\<lparr>last_grapheme := Some (r', 0)\<rparr>)) }) (ok_step s1)"
    using s2(1) s34(1,2) by (simp add: Let_def s5_def)
qed

lemma replace_in_place_step:
  assumes "screen_ok s" and "r < nrows s" and "lead < ncols s" and "w = 2 \<longrightarrow> lead + 1 < ncols s"
  shows "returns (replace_in_place r lead w old_w st cluster s) (ok_step s)"
  unfolding replace_in_place_def
proof (rule edits_then [OF assms(1) put_cell_edits [OF screen_okD(1) [OF assms(1)] assms(2,3)]])
  fix s1 assume s1: "edits s s1" "screen_ok s1"
  have m: "returns (if w = 2 then put_cell r (lead + 1) (mk_cell Continuation st) s1
            else if old_w = 2 \<and> lead + 1 < ncols s then put_cell r (lead + 1) (blank (pen s1)) s1
            else Some s1) (edits s1)"
    using put_cell_edits [OF screen_okD(1) [OF s1(2)], of r "lead + 1"] assms edits_fields(1) [OF s1(1)]
      edits_refl [OF screen_okD(1) [OF s1(2)]] by auto
  show "returns (do { s2 \<leftarrow> (if w = 2 then put_cell r (lead + 1) (mk_cell Continuation st) s1
            else if old_w = 2 \<and> lead + 1 < ncols s then put_cell r (lead + 1) (blank (pen s1)) s1
            else Some s1);
     Some (changed ((advance r lead w s2)\<lparr>last_grapheme := Some (r, lead)\<rparr>)) }) (ok_step s1)"
  proof (rule edits_then [OF s1(2) m])
    fix s2 assume "edits s1 s2" "screen_ok s2"
    then show "returns (Some (changed ((advance r lead w s2)\<lparr>last_grapheme := Some (r, lead)\<rparr>))) (ok_step s2)"
      using advance_step [of s2 r lead w] assms edits_fields(1) [OF s1(1)]
      by (simp add: edits_fields) (simp add: ok_step_def keeps_def)
  qed
qed

lemma replace_previous_grapheme_step:
  assumes "screen_ok s" and "r < nrows s" and "lead < ncols s" and "wrap_safe s"
  shows "returns (replace_previous_grapheme u r lead cluster s) (ok_step s)"
  using assms row_at_ok [OF screen_okD(1) [OF assms(1)] assms(2)]
  by (auto simp: replace_previous_grapheme_def returns_rules Let_def
      intro!: replace_without_room_step replace_on_next_row_step replace_in_place_step)

lemma try_extend_step:
  assumes "screen_ok s" and "wrap_safe s"
  shows "returns (try_extend_previous_grapheme u c s) (\<lambda>(s', joined). ok_step s s')"
proof (cases "last_grapheme s")
  case None
  then show ?thesis using assms by (simp add: try_extend_previous_grapheme_def ok_step_def)
next
  case (Some p)
  obtain r lead where p: "p = (r, lead)" by (cases p)
  have lt: "r < nrows s" "lead < ncols s" using assms(1) Some p by (auto simp: screen_ok_defs)
  have ok: "ok_step s s" using assms(1) by (simp add: ok_step_def)
  have "returns (Option.bind (replace_previous_grapheme u r lead t s) (\<lambda>s'. Some (s', True))) (\<lambda>(s', joined). ok_step s s')" for t
    by (rule returns_bind [OF replace_previous_grapheme_step [OF assms(1) lt assms(2)]]) simp
  then show ?thesis
    using Some p row_at_ok [OF screen_okD(1) [OF assms(1)] lt(1)] lt ok
    by (auto simp: try_extend_previous_grapheme_def returns_rules split: option.splits)
qed

lemma write_char_step:
  assumes "screen_ok s" and "wrap_safe s"
  shows "returns (write_char u c s) (ok_step s)"
proof -
  define d where "d = map_character c s"
  obtain s' joined where ext: "try_extend_previous_grapheme u d s = Some (s', joined)" "ok_step s s'"
    using try_extend_step [OF assms, of u d] by (auto elim!: returnsE)
  have ok: "screen_ok s'" "wrap_safe s'" using ext(2) assms(2) wrap_safe_keeps by (auto simp: ok_step_def)
  have w: "char_cols u d \<noteq> 0 \<Longrightarrow> char_cols u d = 1 \<or> char_cols u d = 2" by (auto simp: char_cols_def)
  have "returns (if joined then Some s' else if char_cols u d = 0 then write_leading_combining d s'
      else write_character u d (char_cols u d) s') (ok_step s')"
    using write_leading_combining_step [OF ok(1)] write_character_step [OF ok w] ok(1) by (simp add: ok_step_def)
  then have "returns (if joined then Some s' else if char_cols u d = 0 then write_leading_combining d s'
      else write_character u d (char_cols u d) s') (ok_step s)"
    by (rule returns_weaken) (rule ok_step_trans [OF ext(2)])
  then show ?thesis
    using ext(1) assms(1) by (simp add: write_char_def d_def [symmetric] ok_step_def)
qed

lemma write_text_step: "screen_ok s \<Longrightarrow> wrap_safe s \<Longrightarrow> returns (write_text u t s) (ok_step s)"
proof (induction t arbitrary: s)
  case Nil
  then show ?case by (simp add: ok_step_def)
next
  case (Cons c t)
  show ?case
    unfolding write_text.simps
  proof (rule ok_step_bind [OF write_char_step [OF Cons.prems]])
    fix s1 assume "ok_step s s1" "screen_ok s1"
    then show "returns (write_text u t s1) (ok_step s1)"
      using Cons.prems(2) wrap_safe_keeps by (intro Cons.IH) (auto simp: ok_step_def)
  qed
qed

section \<open>Events\<close>

text \<open>
  What every event but a shorter scrolling region leaves: the size, and the bottom margin unless it moved to the
  last row.
\<close>

definition good :: "screen \<Rightarrow> screen \<Rightarrow> bool" where
  "good s s' \<longleftrightarrow> screen_ok s' \<and> scr_size s' = scr_size s \<and>
     (scroll_bottom s' = scroll_bottom s \<or> scroll_bottom s' + 1 = nrows s')"

lemma ok_step_good: "ok_step s s' \<Longrightarrow> good s s'"
  by (simp add: ok_step_def keeps_def good_def)

lemma good_refl: "screen_ok s \<Longrightarrow> good s s"
  by (simp add: good_def)

lemma good_ok: "good s s' \<Longrightarrow> screen_ok s'"
  by (simp add: good_def)

lemma good_trans: "good s s1 \<Longrightarrow> good s1 s2 \<Longrightarrow> good s s2"
  by (auto simp: good_def)

lemma good_updates [simp]:
  "good s (changed s') = good s s'" "good s (display_only_changed s') = good s s'"
  by (simp_all add: good_def)

lemma good_cursor:
  "good s s' \<Longrightarrow> good s (no_wrap s')" "good s s' \<Longrightarrow> c < ncols s' \<Longrightarrow> good s (set_cursor_col c s')"
  "good s s' \<Longrightarrow> r < nrows s' \<Longrightarrow> good s (set_cursor_row r s')"
  by (auto simp: good_def screen_ok_no_wrap screen_ok_set_col screen_ok_set_row)

lemma cursor_moves_ok:
  assumes "screen_ok s"
  shows "returns (move_vertical neg n s) (good s)" "returns (move_horizontal neg n s) (good s)"
    "returns (set_col c s) (good s)" "returns (set_row r s) (good s)" "returns (horizontal_tab s) (good s)"
proof -
  note ok = screen_okD [OF assms]
  show "returns (move_vertical neg n s) (good s)"
    using ok assms
    by (auto simp: move_vertical_def returns_rules Let_def intro!: good_cursor good_refl split: prod.splits)
  show "returns (move_horizontal neg n s) (good s)" "returns (set_col c s) (good s)" "returns (set_row r s) (good s)"
    using ok assms
    by (auto simp: move_horizontal_def set_col_def set_row_def returns_rules Let_def
        intro!: good_cursor good_refl)
  have "t < ncols s" if "find P (tab_stops s) = Some t" for P t
    using assms that by (auto simp: screen_ok_defs find_Some_iff)
  then show "returns (horizontal_tab s) (good s)"
    using ok assms
    by (auto simp: horizontal_tab_def returns_rules Let_def intro!: good_cursor good_refl split: option.splits)
qed

lemma set_position_ok: "screen_ok s \<Longrightarrow> returns (set_position r c s) (good s)"
  unfolding set_position_def
  by (rule returns_bind [OF cursor_moves_ok(4)], assumption, rule returns_weaken [OF cursor_moves_ok(3) [OF good_ok]])
     (auto intro: good_trans)

lemma move_line_ok:
  assumes "screen_ok s"
  shows "returns (Option.bind (move_vertical neg n s) (\<lambda>s'. Some (set_cursor_col 0 s'))) (good s)"
  by (rule returns_bind [OF cursor_moves_ok(1) [OF assms]]) (auto intro!: good_cursor dest: good_ok screen_okD)

lemma erase_line_step:
  assumes "screen_ok s"
  shows "returns (erase_line mode s) (\<lambda>s'. ok_step s s' \<and> cur_row (cursor s') = cur_row (cursor s))"
proof -
  let ?r = "cur_row (cursor s)"
  have "returns (case mode of ToEnd \<Rightarrow> clear_range ?r (cur_col (cursor s)) (ncols s) s
           | ToStart \<Rightarrow> clear_range ?r 0 (cur_col (cursor s) + 1) s
           | EraseAll \<Rightarrow> clear_row ?r s | Saved \<Rightarrow> clear_row ?r s) (edits s)"
    using screen_okD [OF assms] by (cases mode) (auto intro!: clear_range_edits clear_row_edits)
  then show ?thesis
    unfolding erase_line_def Let_def
  proof (rule returns_bind)
    fix s' assume e: "edits s s'"
    have "screen_ok (no_wrap s')" by (rule screen_ok_no_wrap [OF screen_ok_edits [OF assms e]])
    then show "returns (Some (changed (no_wrap s'))) (\<lambda>s'. ok_step s s' \<and> cur_row (cursor s') = cur_row (cursor s))"
      using edits_fields [OF e] by (simp add: ok_step_def keeps_def)
  qed
qed

lemma erase_display_ok:
  assumes "screen_ok s"
  shows "returns (erase_display mode s) (good s)"
proof -
  have "returns (case mode of
             ToEnd \<Rightarrow> do { s1 \<leftarrow> erase_line ToEnd s; clear_rows [cur_row (cursor s1) + 1..<nrows s1] s1 }
           | ToStart \<Rightarrow> do { s1 \<leftarrow> clear_rows [0..<cur_row (cursor s)] s; erase_line ToStart s1 }
           | EraseAll \<Rightarrow> clear_rows [0..<nrows s] s
           | Saved \<Rightarrow> Some (if alt_active s then s else s\<lparr>main_grid := (main_grid s)\<lparr>grid_history := []\<rparr>\<rparr>)) (good s)"
  proof (cases mode)
    case ToEnd
    have "returns (do { s1 \<leftarrow> erase_line ToEnd s; clear_rows [cur_row (cursor s1) + 1..<nrows s1] s1 }) (good s)"
      by (rule returns_bind [OF erase_line_step [OF assms]], rule returns_weaken [OF clear_rows_step])
         (auto dest: ok_step_good good_ok intro: good_trans)
    then show ?thesis using ToEnd by simp
  next
    case ToStart
    have "returns (do { s1 \<leftarrow> clear_rows [0..<cur_row (cursor s)] s; erase_line ToStart s1 }) (good s)"
      by (rule returns_bind [OF clear_rows_step [OF assms]])
         (use screen_okD(5) [OF assms] in \<open>auto intro!: returns_weaken [OF erase_line_step] dest: ok_step_good good_ok intro: good_trans\<close>)
    then show ?thesis using ToStart by simp
  next
    case EraseAll
    then show ?thesis using clear_rows_step [OF assms, of "[0..<nrows s]"] by (auto intro: returns_weaken ok_step_good)
  next
    case Saved
    then show ?thesis using assms by (auto simp: good_def screen_ok_defs)
  qed
  then show ?thesis unfolding erase_display_def by (rule returns_bind) simp
qed

lemma erase_characters_ok: "screen_ok s \<Longrightarrow> returns (erase_characters n s) (good s)"
  unfolding erase_characters_def
  by (rule returns_bind [OF clear_range_step]) (auto intro: ok_step_good dest: screen_okD)

lemma reverse_index_ok:
  assumes "screen_ok s"
  shows "returns (reverse_index s) (good s)"
proof -
  have "returns (scroll_down 1 (no_wrap s)) (good s)"
    using scroll_down_step [OF screen_ok_no_wrap [OF assms], of 1] by (auto simp: ok_step_from intro: returns_weaken ok_step_good)
  then show ?thesis
    using screen_okD(5) [OF assms] assms by (auto simp: reverse_index_def Let_def intro!: good_cursor good_refl)
qed

text \<open>Events that only set fields.\<close>

lemma validate_pos: "validate_size sz \<Longrightarrow> 0 < size_rows sz \<and> 0 < size_cols sz"
  by (simp add: validate_size_def)

lemma rows_new_ok: "rows_new k n ident = (rs, nxt) \<Longrightarrow> rows_ok k n rs"
  by (induction k n ident arbitrary: rs nxt rule: rows_new.induct) (auto simp: rows_ok_def split: prod.splits)

lemma clamp_cursor_ok:
  assumes "validate_size (scr_size s)" "grids_ok s" "history_ok s" "margins_ok s" "marks_ok s"
  shows "screen_ok (clamp_cursor s)"
  using assms validate_pos [OF assms(1)]
  by (auto simp: clamp_cursor_def move_to_def screen_ok_def cursor_ok_def grids_ok_def history_ok_def margins_ok_def marks_ok_def)

lemma set_alternate_ok:
  assumes "screen_ok s"
  shows "good s (set_alternate mode enabled s)"
proof -
  have fresh: "grid_new sz ident = (g, nxt) \<Longrightarrow> rows_ok (size_rows sz) (size_cols sz) (grid_rows g)" for sz ident g nxt
    by (auto simp: grid_new_def split: prod.splits dest: rows_new_ok)
  define t where "t = (if enabled then enter_alternate mode s else leave_alternate mode s)"
  have t: "scr_size t = scr_size s" "main_grid t = main_grid s" "rows_ok (nrows s) (ncols s) (grid_rows (alt_grid t))"
      "tab_stops t = tab_stops s" "last_grapheme t = last_grapheme s" "scrollback_rows t = scrollback_rows s"
      "published t = published s" "modes t = modes s"
    using assms fresh
    by (auto simp: t_def enter_alternate_def leave_alternate_def fresh_alternate_def restore_cursor_def clamp_cursor_def
        move_to_def display_only_changed_def Let_def screen_ok_def grids_ok_def
        split: alternate_screen_mode.splits option.splits prod.splits)
  have "screen_ok (clamp_cursor (t\<lparr>scroll_top := 0, scroll_bottom := nrows t - 1\<rparr>))"
    using assms t by (intro clamp_cursor_ok) (auto simp: screen_ok_defs)
  moreover have "0 < nrows s" using screen_okD [OF assms] by simp
  ultimately have "good s (clamp_cursor (t\<lparr>scroll_top := 0, scroll_bottom := nrows t - 1\<rparr>))"
    using t by (simp add: good_def clamp_cursor_def)
  then show ?thesis using assms good_refl unfolding set_alternate_def Let_def t_def [symmetric] by simp
qed

lemma restore_cursor_ok:
  assumes "screen_ok s"
  shows "good s (restore_cursor sv s)"
proof -
  have "screen_ok (restore_cursor sv s)"
    unfolding restore_cursor_def using assms by (simp, intro clamp_cursor_ok) (auto simp: screen_ok_defs)
  then show ?thesis by (simp add: good_def restore_cursor_def clamp_cursor_def)
qed

lemma screen_ok_modes:
  "screen_ok s \<Longrightarrow> autowrap m = autowrap (modes s) \<Longrightarrow> screen_ok (s\<lparr>modes := m\<rparr>)"
  "screen_ok s \<Longrightarrow> screen_ok (no_wrap (s\<lparr>modes := m\<rparr>))"
  by (simp_all add: no_wrap_def screen_ok_defs)

lemma screen_ok_bookkeeping [simp]:
  "screen_ok (publish s) = screen_ok s" "screen_ok (s\<lparr>sync_started := t\<rparr>) = screen_ok s"
  "screen_ok (s\<lparr>mouse_x10 := b\<rparr>) = screen_ok s" "screen_ok (s\<lparr>mouse_button := b\<rparr>) = screen_ok s"
  "screen_ok (s\<lparr>mouse_any := b\<rparr>) = screen_ok s"
  by (simp_all add: publish_def screen_ok_defs)

lemma modes_bookkeeping [simp]: "modes (publish s) = modes s"
  by (simp add: publish_def)

lemma set_synchronized_ok:
  assumes "screen_ok s"
  shows "screen_ok (set_synchronized now enabled s)"
proof -
  define t where "t = (if enabled \<and> \<not> synchronized_output (modes s) then (publish s)\<lparr>sync_started := Some now\<rparr> else s)"
  have "screen_ok t" "modes t = modes s" using assms by (simp_all add: t_def)
  then have "screen_ok (t\<lparr>modes := (modes t)\<lparr>synchronized_output := enabled\<rparr>\<rparr>)" by (intro screen_ok_modes) simp_all
  then show ?thesis unfolding set_synchronized_def Let_def t_def [symmetric] by (cases enabled) simp_all
qed

lemma set_mode_ok:
  assumes "screen_ok s"
  shows "screen_ok (set_mode now mode enabled s) \<and> scr_size (set_mode now mode enabled s) = scr_size s \<and>
     scroll_bottom (set_mode now mode enabled s) = scroll_bottom s \<and>
     good s (set_mode now mode enabled s)"
proof -
  have "scr_size (set_mode now mode enabled s) = scr_size s" "scroll_bottom (set_mode now mode enabled s) = scroll_bottom s"
    by (cases mode; simp add: set_mode_def set_synchronized_def resolve_mouse_tracking_def publish_def Let_def)+
  moreover have "screen_ok (set_mode now mode enabled s)"
  proof (cases mode)
  case ModeOrigin
  have "screen_ok (s\<lparr>modes := (modes s)\<lparr>origin := enabled\<rparr>\<rparr>)" using assms by (intro screen_ok_modes) simp_all
  then show ?thesis
    using ModeOrigin screen_okD [OF assms]
    by (auto simp: set_mode_def intro!: screen_ok_no_wrap screen_ok_set_col screen_ok_set_row)
qed (use assms in \<open>auto simp: set_mode_def resolve_mouse_tracking_def intro!: screen_ok_modes
       screen_ok_no_wrap [OF set_synchronized_ok]\<close>)
  ultimately show ?thesis by (simp add: good_def)
qed

lemma set_scrolling_region_ok:
  assumes "screen_ok s"
  shows "screen_ok (set_scrolling_region t b s)"
proof -
  have "screen_ok (move_to r 0 False (s\<lparr>scroll_top := t', scroll_bottom := b'\<rparr>))" if "t' < b'" "b' < nrows s" "r < nrows s" for t' b' r
    using assms that by (simp add: move_to_def screen_ok_defs)
  then show ?thesis using assms by (simp add: set_scrolling_region_def Let_def)
qed

lemma set_insert_stop [simp]: "set (insert_stop c ts) = insert c (set ts)"
  by (auto simp: insert_stop_def set_insort_key)

lemmas field_events_ok = good_cursor restore_cursor_ok set_alternate_ok good_refl

lemma line_feed_ok: "screen_ok s \<Longrightarrow> returns (line_feed s) (good s)"
  using line_feed_step [of s] by (auto intro: returns_weaken ok_step_good)

lemma step_events_ok:
  assumes "screen_ok s"
  shows "returns (scroll_up n s) (good s)" "returns (scroll_down n s) (good s)" "returns (insert_lines n s) (good s)"
    "returns (delete_lines n s) (good s)" "returns (insert_characters u n s) (good s)"
    "returns (delete_characters u n s) (good s)" "returns (erase_line m s) (good s)"
  using scroll_up_step [OF assms, of n] scroll_down_step [OF assms, of n] lines_step [OF assms, of n]
    insert_characters_step [OF assms, of u n] delete_characters_step [OF assms, of u n] erase_line_step [OF assms, of m]
  by (auto intro: returns_weaken ok_step_good)

text \<open>A scrolling region that, if it is accepted, ends on the last row; an empty or too low one is rejected.\<close>

fun ends_at_bottom :: "nat \<Rightarrow> ansi_event \<Rightarrow> bool" where
  "ends_at_bottom nr (SetScrollingRegion t b) \<longleftrightarrow>
     (let upper = t - 1; lower = (case b of Some n \<Rightarrow> n | None \<Rightarrow> nr) - 1
      in upper < lower \<and> lower < nr \<longrightarrow> lower + 1 = nr)"
| "ends_at_bottom nr ev \<longleftrightarrow> True"

text \<open>
  After an event: well-formed, of the same size, and the bottom margin on the last row if the region it sets is.
\<close>

definition event_post :: "ansi_event \<Rightarrow> screen \<Rightarrow> screen \<Rightarrow> bool" where
  "event_post ev s s' \<longleftrightarrow> screen_ok s' \<and> scr_size s' = scr_size s \<and>
     (ends_at_bottom (nrows s) ev \<longrightarrow> scroll_bottom s' = scroll_bottom s \<or> scroll_bottom s' + 1 = nrows s')"

lemma good_event_post: "good s s' \<Longrightarrow> event_post ev s s'"
  by (auto simp: good_def event_post_def)

lemma event_effect_ok:
  assumes "screen_ok s" and "is_text ev \<Longrightarrow> wrap_safe s"
  shows "returns (event_effect u now ev s) (event_post ev s)"
proof (cases "(\<exists>t b. ev = SetScrollingRegion t b) \<or> (\<exists>m e. ev = SetMode m e)")
  case True
  then consider (region) t b where "ev = SetScrollingRegion t b" | (mode) m e where "ev = SetMode m e" by blast
  then show ?thesis
  proof cases
    case region
    have "scr_size (set_scrolling_region t b s) = scr_size s" by (simp add: set_scrolling_region_def Let_def)
    moreover have "ends_at_bottom (nrows s) ev \<longrightarrow>
        scroll_bottom (set_scrolling_region t b s) = scroll_bottom s \<or> scroll_bottom (set_scrolling_region t b s) + 1 = nrows s"
      using region by (auto simp: set_scrolling_region_def Let_def split: option.splits)
    ultimately show ?thesis
      using region set_scrolling_region_ok [OF assms(1), of t b] by (simp add: event_effect_def event_post_def)
  next
    case mode
    then show ?thesis
      using set_mode_ok [OF assms(1), of now m e] by (auto simp: event_effect_def event_post_def good_def)
  qed
next
  case False
  have "returns (event_effect u now ev s) (good s)"
  proof (cases ev)
    case (Text t)
    then show ?thesis
      using write_text_step [of s u t] assms by (auto simp: event_effect_def is_text_def intro: returns_weaken ok_step_good)
  next
    case NextLine
    have "screen_ok (set_cursor_col 0 s)" by (intro screen_ok_set_col) (use assms screen_okD in auto)
    then show ?thesis
      using NextLine line_feed_step by (auto simp: event_effect_def ok_step_from intro!: returns_weaken [OF line_feed_step] ok_step_good)
  qed (use False assms(1) screen_okD [OF assms(1)] in
       \<open>auto simp: event_effect_def intro!: field_events_ok line_feed_ok step_events_ok cursor_moves_ok set_position_ok move_line_ok
          erase_display_ok erase_characters_ok reverse_index_ok split: option.splits character_set_slot.splits,
        auto simp: good_def screen_ok_defs\<close>)
  then show ?thesis by (rule returns_weaken) (rule good_event_post)
qed

lemma apply_event_ok:
  assumes "screen_ok s" and "is_text ev \<longrightarrow> wrap_safe s"
  shows "returns (apply_event u now ev s) (\<lambda>(s', reply). event_post ev s s')"
proof -
  define s1 where "s1 = (if is_text ev then s else s\<lparr>last_grapheme := None\<rparr>)"
  have s1: "screen_ok s1" "is_text ev \<Longrightarrow> wrap_safe s1" "event_post ev s1 = event_post ev s"
    using assms screen_ok_last_grapheme by (auto simp: s1_def event_post_def fun_eq_iff)
  show ?thesis
    unfolding apply_event_def Let_def s1_def [symmetric]
    by (rule returns_bind [OF event_effect_ok [OF s1(1,2)]]) (use s1(3) in auto)
qed

lemma screen_new_ok:
  assumes "screen_new sz sb = Inr s"
  shows "screen_ok s \<and> scroll_bottom s + 1 = nrows s \<and> scr_size s = sz"
proof -
  have v: "validate_size sz" using assms by (auto simp: screen_new_def split: if_splits)
  have g: "grid_new sz ident = (g, nxt) \<Longrightarrow> rows_ok (size_rows sz) (size_cols sz) (grid_rows g) \<and> grid_history g = []" for ident g nxt
    by (auto simp: grid_new_def split: prod.splits dest: rows_new_ok)
  obtain m n1 a n2 where grids: "grid_new sz 1 = (m, n1)" "grid_new sz n1 = (a, n2)" by fastforce
  then show ?thesis
    using assms v validate_pos [OF v] g [OF grids(1)] g [OF grids(2)]
    by (auto simp: screen_new_def screen_ok_defs default_cursor_def default_tab_stops_def)
qed

lemma apply_events_ok:
  "screen_ok s \<Longrightarrow> scroll_bottom s + 1 = nrows s \<Longrightarrow> \<forall>ev \<in> set evs. ends_at_bottom (nrows s) ev \<Longrightarrow>
   returns (apply_events u now evs s) (\<lambda>(s', replies). screen_ok s' \<and> scr_size s' = scr_size s \<and> scroll_bottom s' + 1 = nrows s')"
proof (induction evs arbitrary: s)
  case Nil
  then show ?case by simp
next
  case (Cons ev evs)
  have w: "is_text ev \<longrightarrow> wrap_safe s" using Cons.prems by (simp add: wrap_safe_def)
  obtain s1 reply where s1: "apply_event u now ev s = Some (s1, reply)" "event_post ev s s1"
    using apply_event_ok [OF Cons.prems(1) w, of u now] by (auto elim!: returnsE)
  then have "screen_ok s1" "scr_size s1 = scr_size s" "scroll_bottom s1 + 1 = nrows s1"
    using Cons.prems(2,3) by (auto simp: event_post_def)
  then obtain s2 replies where "apply_events u now evs s1 = Some (s2, replies)" "screen_ok s2" "scr_size s2 = scr_size s"
      "scroll_bottom s2 + 1 = nrows s2"
    using Cons.IH [of s1] Cons.prems by (auto elim!: returnsE)
  then show ?case using s1(1) by simp
qed

end
