(* ===== verification/Terminal_Frame.thy ===== *)
theory Terminal_Frame
  imports Terminal_Screen
begin

text \<open>
  What the terminal holds back while synchronized output is on: the published projection, the flag and the time it was
  set. No operation of the screen touches them but the events about synchronized output, whatever else it does and
  whether or not the screen is well-formed.
\<close>

section \<open>The held frame\<close>

definition held :: "screen \<Rightarrow> screen_projection \<times> bool \<times> nat option" where
  "held s = (published s, synchronized_output (modes s), sync_started s)"

text \<open>An operation that, if it returns, leaves the held frame as it was in \<open>s\<close>.\<close>

definition holding :: "screen \<Rightarrow> screen option \<Rightarrow> bool" where
  "holding s m \<longleftrightarrow> (\<forall>s'. m = Some s' \<longrightarrow> held s' = held s)"

named_theorems frame

lemma holding_Some [frame]: "held s' = held s \<Longrightarrow> holding s (Some s')"
  by (simp add: holding_def)

lemma holdingD: "holding s m \<Longrightarrow> m = Some s' \<Longrightarrow> held s' = held s"
  by (simp add: holding_def)

lemma holding_if [frame]: "(b \<Longrightarrow> holding s m) \<Longrightarrow> (\<not> b \<Longrightarrow> holding s n) \<Longrightarrow> holding s (if b then m else n)"
  by simp

lemma holding_bind: "holding s m \<Longrightarrow> (\<And>s'. held s' = held s \<Longrightarrow> holding s (f s')) \<Longrightarrow> holding s (m \<bind> f)"
  unfolding holding_def bind_eq_Some_conv by metis

lemma holding_value: "(\<And>x. holding s (f x)) \<Longrightarrow> holding s (m \<bind> f)"
  unfolding holding_def bind_eq_Some_conv by metis

lemma holding_from: "holding s' m \<Longrightarrow> held s' = held s \<Longrightarrow> holding s m"
  unfolding holding_def by metis

lemma held_updates [simp]:
  "held (set_rows rs s) = held s" "held (changed s) = held s" "held (display_only_changed s) = held s"
  "held (move_to r c w s) = held s" "held (no_wrap s) = held s" "held (set_cursor_col c s) = held s"
  "held (set_cursor_row r s) = held s" "held (enforce_history_budget s) = held s"
  "held (retire keep row s) = held s" "held (advance r c wd s) = held s" "held (clamp_cursor s) = held s"
  "held (restore_cursor sv s) = held s" "held (fresh_alternate s) = held s"
  "held (s\<lparr>next_line_id := nxt\<rparr>) = held s" "held (s\<lparr>cursor := cur\<rparr>) = held s" "held (s\<lparr>last_grapheme := g\<rparr>) = held s"
  "held (s\<lparr>pen := st\<rparr>) = held s" "held (s\<lparr>main_grid := grid\<rparr>) = held s" "held (s\<lparr>alt_active := b\<rparr>) = held s"
  "held (s\<lparr>scroll_top := t, scroll_bottom := b'\<rparr>) = held s" "held (s\<lparr>inactive_main_cursor := cur\<rparr>) = held s"
  "held (s\<lparr>inactive_alt_cursor := cur\<rparr>) = held s" "held (s\<lparr>inactive_alt_cursor := cur, alt_active := b\<rparr>) = held s"
  "held (s\<lparr>saved_main_1049 := sv'\<rparr>) = held s"
  "held (s\<lparr>bell_count := n\<rparr>) = held s" "held (s\<lparr>tab_stops := ts\<rparr>) = held s" "held (s\<lparr>title := ti\<rparr>) = held s"
  "held (s\<lparr>charset_g0 := cs\<rparr>) = held s" "held (s\<lparr>charset_g1 := cs\<rparr>) = held s" "held (s\<lparr>use_g1 := b\<rparr>) = held s"
  "held (s\<lparr>saved_alt_cursor := sv'\<rparr>) = held s" "held (s\<lparr>saved_main_cursor := sv'\<rparr>) = held s"
  by (simp_all add: held_def set_rows_def changed_def display_only_changed_def move_to_def no_wrap_def set_cursor_col_def
      set_cursor_row_def new_row_def enforce_history_budget_def retire_def advance_def clamp_cursor_def restore_cursor_def
      fresh_alternate_def split: prod.split)

section \<open>Cells and rows\<close>

lemma holding_put_row [frame]: "holding s (put_row r row s)"
  unfolding put_row_def by (intro holding_value holding_Some) simp

lemma holding_put_cell [frame]: "holding s (put_cell r c v s)"
  unfolding put_cell_def by (intro holding_value frame)

lemma holding_break_chain_after [frame]: "holding s (break_chain_after r s)"
  unfolding break_chain_after_def Let_def by (intro holding_value frame) (auto simp: holding_def split: prod.splits if_splits)

text \<open>The same from any screen that holds the same frame.\<close>

lemmas frame_from = holding_put_row [THEN holding_from] holding_put_cell [THEN holding_from]
  holding_break_chain_after [THEN holding_from]

lemma holding_clear_wide_at: "holding s (clear_wide_at r c s)"
  unfolding clear_wide_at_def Let_def
  by (intro holding_if holding_Some holding_value holding_bind [OF holding_put_cell] frame_from) simp_all

lemma holding_clear_range: "holding s (clear_range r st en s)"
  unfolding clear_range_def
  by (intro holding_if holding_Some holding_bind [OF holding_clear_wide_at] holding_bind [OF holding_clear_wide_at [THEN holding_from]]
      holding_value frame_from) simp_all

lemma holding_cut_above: "holding s (cut_above r s)"
  unfolding cut_above_def
  by (intro holding_if holding_Some holding_value holding_bind [OF holding_put_row] frame_from) simp_all

lemma holding_clear_row: "holding s (clear_row r s)"
  unfolding clear_row_def
  by (rule holding_bind [OF holding_cut_above], rule holding_value,
      rule holding_bind [OF holding_put_row [THEN holding_from]], assumption, rule frame_from, assumption)

lemma holding_clear_rows: "holding s (clear_rows rs s)"
proof (induction rs arbitrary: s)
  case (Cons r rs)
  show ?case unfolding clear_rows.simps by (rule holding_bind [OF holding_clear_row]) (rule holding_from [OF Cons.IH])
qed (simp add: holding_def)

section \<open>Scrolling and lines\<close>

lemma holding_shift_rows: "holding s (shift_rows k src dst s)"
proof (induction k arbitrary: s)
  case (Suc k)
  show ?case unfolding shift_rows.simps Let_def
    by (auto simp: holding_def new_row_def bind_eq_Some_conv dest!: holdingD [OF Suc.IH])
qed (simp add: holding_def)

lemma holding_scroll_up_loop: "holding s (scroll_up_loop k cont s)"
proof (induction k arbitrary: s)
  case (Suc k)
  show ?case unfolding scroll_up_loop.simps Let_def
    by (auto simp: holding_def new_row_def bind_eq_Some_conv dest!: holdingD [OF Suc.IH])
qed (simp add: holding_def)

lemma holding_scroll_up_internal: "holding s (scroll_up_internal n cont s)"
  unfolding scroll_up_internal_def
  by (intro holding_value holding_bind [OF holding_scroll_up_loop] holding_Some) simp

lemma holding_scrolls:
  "holding s (scroll_up n s)" "holding s (scroll_down n s)" "holding s (insert_lines n s)" "holding s (delete_lines n s)"
  unfolding scroll_up_def scroll_down_def insert_lines_def delete_lines_def
  by (auto simp: holding_def bind_eq_Some_conv split: if_splits
      dest!: holdingD [OF holding_scroll_up_internal] holdingD [OF holding_shift_rows])

lemma holding_line_feed: "holding s (line_feed s)"
  unfolding line_feed_def Let_def
  by (auto simp: holding_def bind_eq_Some_conv split: if_splits
      dest!: holdingD [OF holding_put_row] holdingD [OF holding_break_chain_after] holdingD [OF holding_scroll_up_internal])

lemma holding_soft_wrap: "holding s (soft_wrap s)"
  unfolding soft_wrap_def Let_def
  by (auto simp: holding_def bind_eq_Some_conv split: if_splits
      dest!: holdingD [OF holding_put_row] holdingD [OF holding_scroll_up_internal])

lemma holding_moves:
  "holding s (reverse_index s)" "holding s (horizontal_tab s)" "holding s (move_vertical neg n s)"
  "holding s (move_horizontal neg n s)" "holding s (set_col c s)" "holding s (set_row r s)" "holding s (set_position r c s)"
  unfolding reverse_index_def horizontal_tab_def move_vertical_def move_horizontal_def set_col_def set_row_def set_position_def Let_def
  by (auto simp: holding_def bind_eq_Some_conv split: if_splits prod.splits dest!: holdingD [OF holding_scrolls(2)])

section \<open>Writing and erasing\<close>

lemma holding_line_edits:
  "holding s (insert_characters u n s)" "holding s (delete_characters u n s)" "holding s (erase_characters n s)"
  unfolding insert_characters_def delete_characters_def erase_characters_def Let_def
  by (auto simp: holding_def bind_eq_Some_conv dest!: holdingD [OF holding_put_row] holdingD [OF holding_clear_range])

lemma holding_draw_glyph: "holding s (draw_glyph r k g w s)"
  unfolding draw_glyph_def
  by (auto simp: holding_def bind_eq_Some_conv split: if_splits dest!: holdingD [OF holding_put_cell] holdingD [OF holding_clear_wide_at])

lemma held_fit_glyph: "fit_glyph c w s = Some (c', w', s') \<Longrightarrow> held s' = held s"
  unfolding fit_glyph_def
  by (auto simp: Let_def bind_eq_Some_conv split: if_splits dest!: holdingD [OF holding_soft_wrap])

lemma holding_write_character: "holding s (write_character u c w s)"
  unfolding write_character_def
  by (auto simp: holding_def bind_eq_Some_conv split: if_splits
      dest!: held_fit_glyph holdingD [OF holding_line_edits(1)] holdingD [OF holding_draw_glyph])

lemma holding_write_leading_combining: "holding s (write_leading_combining c s)"
  unfolding write_leading_combining_def Let_def
  by (auto simp: holding_def bind_eq_Some_conv split: if_splits dest!: holdingD [OF holding_put_cell] holdingD [OF holding_clear_wide_at])

lemma holding_replacements:
  "holding s (replace_without_room r lead st s)" "holding s (replace_on_next_row r lead st cluster s)"
  "holding s (replace_in_place r lead w old_w st cluster s)"
  unfolding replace_without_room_def replace_on_next_row_def replace_in_place_def Let_def
  by (auto simp: holding_def bind_eq_Some_conv split: if_splits dest!: holdingD [OF holding_put_cell] holdingD [OF holding_soft_wrap])

lemma holding_replace_previous_grapheme: "holding s (replace_previous_grapheme u r lead cluster s)"
  unfolding replace_previous_grapheme_def Let_def by (intro holding_value holding_if holding_replacements)

lemma held_try_extend: "try_extend_previous_grapheme u c s = Some (s', joined) \<Longrightarrow> held s' = held s"
  unfolding try_extend_previous_grapheme_def
  by (auto simp: bind_eq_Some_conv split: if_splits option.splits prod.splits dest!: holdingD [OF holding_replace_previous_grapheme])

lemma holding_write_char: "holding s (write_char u c s)"
  unfolding write_char_def Let_def
  by (auto simp: holding_def bind_eq_Some_conv split: if_splits
      dest!: held_try_extend holdingD [OF holding_write_leading_combining] holdingD [OF holding_write_character])

lemma holding_write_text: "holding s (write_text u t s)"
proof (induction t arbitrary: s)
  case (Cons c cs)
  show ?case unfolding write_text.simps by (rule holding_bind [OF holding_write_char]) (rule holding_from [OF Cons.IH])
qed (simp add: holding_def)

lemma holding_erase_line: "holding s (erase_line mode s)"
  unfolding erase_line_def Let_def
  by (cases mode) (auto simp: holding_def bind_eq_Some_conv dest!: holdingD [OF holding_clear_range] holdingD [OF holding_clear_row])

lemma holding_erase_display: "holding s (erase_display mode s)"
  unfolding erase_display_def
  by (cases mode) (auto simp: holding_def bind_eq_Some_conv split: if_splits
      dest!: holdingD [OF holding_erase_line] holdingD [OF holding_clear_rows])

section \<open>Events\<close>

lemma held_set_alternate [simp]: "held (set_alternate mode enabled s) = held s"
  unfolding set_alternate_def enter_alternate_def leave_alternate_def Let_def
  by (cases mode) (auto split: option.split)

lemma held_set_scrolling_region [simp]: "held (set_scrolling_region t b s) = held s"
  by (simp add: set_scrolling_region_def Let_def)

lemma held_set_mode: "mode \<noteq> SynchronizedOutput \<Longrightarrow> held (set_mode now mode enabled s) = held s"
  by (cases mode) (simp_all add: set_mode_def, simp_all add: held_def resolve_mouse_tracking_def)

text \<open>Setting synchronized output again while it is on changes nothing of the held frame.\<close>

lemma held_set_mode_again:
  "synchronized_output (modes s) \<Longrightarrow> held (set_mode now SynchronizedOutput True s) = held s"
  by (simp add: set_mode_def set_synchronized_def) (simp add: held_def)

lemma holding_event_effect:
  assumes "\<forall>e. ev \<noteq> SetMode SynchronizedOutput e"
  shows "holding s (event_effect u now ev s)"
  using assms
  by (cases ev) (auto simp: event_effect_def intro!: holding_Some holding_line_feed holding_moves holding_line_edits holding_scrolls
      holding_write_text holding_erase_line holding_erase_display holding_from [OF holding_line_feed]
      holding_bind [OF holding_moves(3)] held_set_mode split: option.splits character_set_slot.splits)

definition ends_synchronized :: "ansi_event \<Rightarrow> bool" where
  "ends_synchronized ev \<longleftrightarrow> ev = SetMode SynchronizedOutput False"

lemma apply_event_held:
  assumes "synchronized_output (modes s)" "\<not> ends_synchronized ev" "apply_event u now ev s = Some (s', reply)"
  shows "held s' = held s"
proof -
  define s1 where "s1 = (if is_text ev then s else s\<lparr>last_grapheme := None\<rparr>)"
  have s1: "held s1 = held s" by (simp add: s1_def)
  have e: "event_effect u now ev s1 = Some s'"
    using assms(3) by (simp add: apply_event_def s1_def [symmetric] bind_eq_Some_conv)
  show ?thesis
  proof (cases "\<exists>e. ev = SetMode SynchronizedOutput e")
    case True
    then have "ev = SetMode SynchronizedOutput True" using assms(2) by (auto simp: ends_synchronized_def)
    then have "s' = set_mode now SynchronizedOutput True s1" "synchronized_output (modes s1)"
      using e assms(1) s1 by (simp_all add: event_effect_def held_def)
    then show ?thesis using held_set_mode_again s1 by simp
  next
    case False
    then show ?thesis using holdingD [OF holding_event_effect e] s1 by simp
  qed
qed

lemma apply_events_held:
  "synchronized_output (modes s) \<Longrightarrow> \<forall>ev \<in> set evs. \<not> ends_synchronized ev \<Longrightarrow>
   apply_events u now evs s = Some (s', replies) \<Longrightarrow> held s' = held s"
proof (induction evs arbitrary: s replies)
  case (Cons ev evs)
  obtain s1 r replies' where s1: "apply_event u now ev s = Some (s1, r)" "apply_events u now evs s1 = Some (s', replies')"
    using Cons.prems(3) by (auto simp: bind_eq_Some_conv)
  have h: "held s1 = held s" using apply_event_held [OF Cons.prems(1) _ s1(1)] Cons.prems(2) by simp
  then have "synchronized_output (modes s1)" using Cons.prems(1) by (simp add: held_def)
  then show ?case using Cons.IH [OF _ _ s1(2)] Cons.prems(2) h by simp
qed simp

end
