(* ===== verification/Ansi.thy ===== *)
theory Ansi
  imports Ansi_Event
begin

text \<open>
  The escape-sequence parser, \<^verbatim>\<open>src/src/ansi.rs\<close>. Bytes go in one at a time; every function that takes
  \<^verbatim>\<open>&mut self\<close> and \<^verbatim>\<open>events\<close> returns the new parser and the events it pushed, in order.
\<close>

datatype ansi_parser_profile = LineOriented | FullScreen

section \<open>CSI parameters\<close>

record csi_param =
  param_main :: nat
  param_sub :: "nat list"

record csi_collector =
  csi_params :: "csi_param list"
  current_main :: "nat option"
  current_subs :: "nat list"
  current_sub_acc :: "nat option"
  in_subs :: bool
  private_marker :: "nat option"
  csi_intermediates :: "nat list"

definition csi_reset :: csi_collector where
  "csi_reset =
     \<lparr>csi_params = [], current_main = None, current_subs = [], current_sub_acc = None, in_subs = False,
      private_marker = None, csi_intermediates = []\<rparr>"

text \<open>\<^verbatim>\<open>cur.saturating_mul(10).saturating_add(d)\<close> on \<^verbatim>\<open>u32\<close>.\<close>

definition U32_MAX :: nat where
  "U32_MAX = 4294967295"

definition push_decimal :: "nat \<Rightarrow> nat \<Rightarrow> nat" where
  "push_decimal cur d = min U32_MAX (min U32_MAX (cur * 10) + d)"

definition unwrap_or :: "nat \<Rightarrow> nat option \<Rightarrow> nat" where
  "unwrap_or d x = (case x of Some n \<Rightarrow> n | None \<Rightarrow> d)"

definition push_digit :: "nat \<Rightarrow> csi_collector \<Rightarrow> csi_collector" where
  "push_digit d c =
     (if in_subs c then c\<lparr>current_sub_acc := Some (push_decimal (unwrap_or 0 (current_sub_acc c)) d)\<rparr>
      else c\<lparr>current_main := Some (push_decimal (unwrap_or 0 (current_main c)) d)\<rparr>)"

definition push_colon :: "csi_collector \<Rightarrow> csi_collector" where
  "push_colon c =
     (if in_subs c
      then c\<lparr>current_subs := current_subs c @ [unwrap_or 0 (current_sub_acc c)], current_sub_acc := None\<rparr>
      else c\<lparr>in_subs := True\<rparr>)"

text \<open>Closing the group in progress, as \<^verbatim>\<open>push_semicolon\<close> and \<^verbatim>\<open>finalize\<close> both do.\<close>

definition close_group :: "csi_collector \<Rightarrow> csi_collector" where
  "close_group c =
     (let c = (if in_subs c
               then c\<lparr>current_subs := current_subs c @ [unwrap_or 0 (current_sub_acc c)], current_sub_acc := None\<rparr>
               else c)
      in c\<lparr>csi_params := csi_params c @ [\<lparr>param_main = unwrap_or 0 (current_main c), param_sub = current_subs c\<rparr>],
           current_subs := []\<rparr>)"

definition push_semicolon :: "csi_collector \<Rightarrow> csi_collector" where
  "push_semicolon c = (close_group c)\<lparr>current_main := None, in_subs := False\<rparr>"

text \<open>\<^verbatim>\<open>finalize\<close>: the collected parameters; the caller resets the collector.\<close>

definition csi_finalize :: "csi_collector \<Rightarrow> csi_param list" where
  "csi_finalize c =
     (if current_main c \<noteq> None \<or> in_subs c \<or> current_subs c \<noteq> [] then csi_params (close_group c) else csi_params c)"

section \<open>The parser\<close>

datatype parser_state =
    Ground | Escape | EscapeIntermediate | EscapeIgnore | CsiEntry | CsiParamState | CsiIntermediate | CsiIgnore
  | OscString | OscIgnore | OscEscPending | DcsEntry | DcsParam | DcsIntermediate | DcsPassthrough | DcsIgnore
  | SosPmApcString

record ansi_parser =
  pstate :: parser_state
  current_style :: style
  emitted_style :: style
  ignore_byte_count :: nat
  text_run :: ustring
  utf8_buf :: "byte list"
  alt_screen_active :: bool
  csi :: csi_collector
  osc_body :: "byte list"
  escape_intermediates :: "nat list"
  profile :: ansi_parser_profile
  unknown_sequence_byte_limit :: nat

type_synonym parse_step = "ansi_parser \<times> ansi_event list"

definition with_profile_and_config :: "ansi_parser_profile \<Rightarrow> nat \<Rightarrow> ansi_parser" where
  "with_profile_and_config prof limit =
     \<lparr>pstate = Ground, current_style = default_style, emitted_style = default_style, ignore_byte_count = 0,
      text_run = [], utf8_buf = [], alt_screen_active = False, csi = csi_reset, osc_body = [],
      escape_intermediates = [], profile = prof, unknown_sequence_byte_limit = limit\<rparr>"

definition default_limit :: nat where
  "default_limit = 1024"

definition with_profile :: "ansi_parser_profile \<Rightarrow> ansi_parser" where
  "with_profile prof = with_profile_and_config prof default_limit"

definition parser_reset :: "ansi_parser \<Rightarrow> ansi_parser" where
  "parser_reset p =
     p\<lparr>pstate := Ground, ignore_byte_count := 0, text_run := [], utf8_buf := [], csi := csi_reset,
       osc_body := [], escape_intermediates := []\<rparr>"

definition suppress_visible :: "ansi_parser \<Rightarrow> bool" where
  "suppress_visible p \<longleftrightarrow> profile p = LineOriented \<and> alt_screen_active p"

definition push_visible :: "ansi_event \<Rightarrow> ansi_parser \<Rightarrow> ansi_event list" where
  "push_visible ev p = (if suppress_visible p then [] else [ev])"

definition start_new_sequence :: "ansi_parser \<Rightarrow> ansi_parser" where
  "start_new_sequence p =
     p\<lparr>csi := csi_reset, osc_body := [], escape_intermediates := [], ignore_byte_count := 0, pstate := Escape\<rparr>"

definition recover_to_ground :: "ansi_parser \<Rightarrow> ansi_parser" where
  "recover_to_ground p =
     p\<lparr>csi := csi_reset, osc_body := [], escape_intermediates := [], ignore_byte_count := 0, pstate := Ground\<rparr>"

subsection \<open>Text runs\<close>

definition flush_pending_utf8_as_replacement :: "ansi_parser \<Rightarrow> ansi_parser" where
  "flush_pending_utf8_as_replacement p =
     (if utf8_buf p \<noteq> [] then p\<lparr>text_run := text_run p @ [REPLACEMENT], utf8_buf := []\<rparr> else p)"

text \<open>Emitting the run, at the end of a feed and, after the pending bytes, at every transition.\<close>

definition emit_text_run :: "ansi_parser \<Rightarrow> parse_step" where
  "emit_text_run p =
     (if text_run p = [] then (p, []) else (p\<lparr>text_run := []\<rparr>, push_visible (Text (text_run p)) p))"

definition flush_text_run :: "ansi_parser \<Rightarrow> parse_step" where
  "flush_text_run p = emit_text_run (flush_pending_utf8_as_replacement p)"

lemma from_utf8_error_len:
  "from_utf8 bs = (cs, v, Some (Some k)) \<Longrightarrow> 0 < k \<and> v + k \<le> length bs"
proof (induction bs arbitrary: cs v rule: from_utf8.induct)
  case (1 bs)
  show ?case
  proof (cases "utf8_step bs")
    case (Scalar c n)
    moreover have "bs \<noteq> []" using "1.prems" by (auto simp: from_utf8.simps [of bs])
    ultimately obtain cs' v' where "from_utf8 (drop n bs) = (cs', v', Some (Some k))" "v = n + v'"
      using "1.prems" by (auto simp: from_utf8.simps [of bs] split: prod.splits)
    then show ?thesis using "1.IH" [OF \<open>bs \<noteq> []\<close> Scalar] utf8_step_widths(1) [OF Scalar] by fastforce
  qed (use "1.prems" utf8_step_widths(2) in \<open>auto simp: from_utf8.simps [of bs] split: if_splits\<close>)
qed

function try_decode_utf8_buf :: "ustring \<Rightarrow> byte list \<Rightarrow> ustring \<times> byte list" where
  "try_decode_utf8_buf run buf =
     (if buf = [] then (run, [])
      else (case from_utf8 buf of
              (cs, v, None) \<Rightarrow> (run @ cs, [])
            | (cs, v, Some None) \<Rightarrow>
                if 8 \<le> length (drop v buf) then (run @ cs @ [REPLACEMENT], []) else (run @ cs, drop v buf)
            | (cs, v, Some (Some n)) \<Rightarrow> try_decode_utf8_buf (run @ cs @ [REPLACEMENT]) (drop n (drop v buf))))"
  by pat_completeness auto
termination
  by (relation "measure (\<lambda>(run, buf). length buf)") (auto dest!: from_utf8_error_len [OF sym])

declare try_decode_utf8_buf.simps [simp del]

definition push_text_byte :: "byte \<Rightarrow> ansi_parser \<Rightarrow> ansi_parser" where
  "push_text_byte b p =
     (if utf8_buf p = [] \<and> unat b < 128 then p\<lparr>text_run := text_run p @ [unat b]\<rparr>
      else (case try_decode_utf8_buf (text_run p) (utf8_buf p @ [b]) of
              (run, buf) \<Rightarrow> p\<lparr>text_run := run, utf8_buf := buf\<rparr>))"

subsection \<open>Ground\<close>

text \<open>A control byte in ground state: the run is flushed, then the event pushed.\<close>

definition flush_then :: "(ansi_parser \<Rightarrow> ansi_event list) \<Rightarrow> ansi_parser \<Rightarrow> parse_step" where
  "flush_then evs p = (case flush_text_run p of (p', es) \<Rightarrow> (p', es @ evs p'))"

definition feed_ground :: "byte \<Rightarrow> ansi_parser \<Rightarrow> parse_step" where
  "feed_ground b p =
     (let n = unat b in
      if profile p = LineOriented then
        (if n = 13 then flush_then (push_visible CarriageReturn) p
         else if n = 8 then flush_then (push_visible Backspace) p
         else if n = 7 \<or> (9 \<le> n \<and> n \<le> 12) \<or> (32 \<le> n \<and> n \<le> 126) \<or> 128 \<le> n then (push_text_byte b p, [])
         else (p, []))
      else if n = 7 then flush_then (\<lambda>_. [Bell]) p
      else if n = 8 then flush_then (\<lambda>_. [Backspace]) p
      else if n = 9 then flush_then (\<lambda>_. [HorizontalTab]) p
      else if 10 \<le> n \<and> n \<le> 12 then flush_then (\<lambda>_. [LineFeed]) p
      else if n = 13 then flush_then (\<lambda>_. [CarriageReturn]) p
      else if n = 14 then flush_then (\<lambda>_. [ShiftOut]) p
      else if n = 15 then flush_then (\<lambda>_. [ShiftIn]) p
      else if (32 \<le> n \<and> n \<le> 126) \<or> 128 \<le> n then (push_text_byte b p, [])
      else (p, []))"

subsection \<open>Select graphic rendition\<close>

definition to_u8 :: "nat \<Rightarrow> byte" where
  "to_u8 n = (if n < 256 then of_nat n else 255)"

text \<open>The first parameter of an extended colour, the parameters after it, and how many of them it consumes.\<close>

definition parse_extended_color :: "csi_param \<Rightarrow> csi_param list \<Rightarrow> (color \<times> nat) option" where
  "parse_extended_color p rest =
     (case param_sub p of
        kind # sub \<Rightarrow>
          (if kind = 5 then (case sub of n # _ \<Rightarrow> Some (Indexed (to_u8 n), 0) | [] \<Rightarrow> None)
           else if kind = 2 then
             (case sub of
                _ # r # g # b # _ \<Rightarrow> Some (Rgb (to_u8 r) (to_u8 g) (to_u8 b), 0)
              | r # g # b # _ \<Rightarrow> Some (Rgb (to_u8 r) (to_u8 g) (to_u8 b), 0)
              | _ \<Rightarrow> None)
           else None)
      | [] \<Rightarrow>
          (case rest of
             [] \<Rightarrow> None
           | kind # args \<Rightarrow>
               (if param_main kind = 5 then (case args of n # _ \<Rightarrow> Some (Indexed (to_u8 (param_main n)), 2) | [] \<Rightarrow> None)
                else if param_main kind = 2 then
                  (case args of
                     r # g # b # _ \<Rightarrow> Some (Rgb (to_u8 (param_main r)) (to_u8 (param_main g)) (to_u8 (param_main b)), 4)
                   | _ \<Rightarrow> None)
                else None)))"

definition underline_of :: "nat list \<Rightarrow> underline_style" where
  "underline_of sub =
     (case sub of
        [] \<Rightarrow> UnderlineSingle
      | k # _ \<Rightarrow>
          if k = 0 then UnderlineNone else if k = 2 then UnderlineDouble else if k = 3 then UnderlineCurly
          else if k = 4 then UnderlineDotted else if k = 5 then UnderlineDashed else UnderlineSingle)"

text \<open>One turn of the \<^verbatim>\<open>dispatch_sgr\<close> loop: the new style and \<^verbatim>\<open>consumed_extra\<close>.\<close>

definition sgr_one :: "ansi_parser_profile \<Rightarrow> csi_param \<Rightarrow> csi_param list \<Rightarrow> style \<Rightarrow> style \<times> nat" where
  "sgr_one prof p rest st =
     (let m = param_main p in
      if m = 0 then (default_style, 0)
      else if m = 1 then (st\<lparr>bold := True\<rparr>, 0)
      else if m = 3 then (st\<lparr>italic := True\<rparr>, 0)
      else if m = 4 then (st\<lparr>underline := underline_of (param_sub p)\<rparr>, 0)
      else if m = 5 \<or> m = 6 then (if prof = LineOriented then (st\<lparr>bold := True\<rparr>, 0) else (st, 0))
      else if m = 7 then (st\<lparr>reverse := True\<rparr>, 0)
      else if m = 22 then (st\<lparr>bold := False\<rparr>, 0)
      else if m = 23 then (st\<lparr>italic := False\<rparr>, 0)
      else if m = 24 then (st\<lparr>underline := UnderlineNone\<rparr>, 0)
      else if m = 27 then (st\<lparr>reverse := False\<rparr>, 0)
      else if 30 \<le> m \<and> m \<le> 37 then (st\<lparr>fg := Indexed (of_nat (m - 30))\<rparr>, 0)
      else if m = 38 then
        (case parse_extended_color p rest of Some (c, extra) \<Rightarrow> (st\<lparr>fg := c\<rparr>, extra) | None \<Rightarrow> (st, 0))
      else if m = 39 then (st\<lparr>fg := DefaultColor\<rparr>, 0)
      else if 40 \<le> m \<and> m \<le> 47 then (st\<lparr>bg := Indexed (of_nat (m - 40))\<rparr>, 0)
      else if m = 48 then
        (case parse_extended_color p rest of Some (c, extra) \<Rightarrow> (st\<lparr>bg := c\<rparr>, extra) | None \<Rightarrow> (st, 0))
      else if m = 49 then (st\<lparr>bg := DefaultColor\<rparr>, 0)
      else if m = 58 then
        (case parse_extended_color p rest of Some (c, extra) \<Rightarrow> (st\<lparr>underline_color := c\<rparr>, extra) | None \<Rightarrow> (st, 0))
      else if m = 59 then (st\<lparr>underline_color := DefaultColor\<rparr>, 0)
      else if 90 \<le> m \<and> m \<le> 97 then (st\<lparr>fg := Indexed (of_nat (m - 90 + 8))\<rparr>, 0)
      else if 100 \<le> m \<and> m \<le> 107 then (st\<lparr>bg := Indexed (of_nat (m - 100 + 8))\<rparr>, 0)
      else (st, 0))"

function sgr_loop :: "ansi_parser_profile \<Rightarrow> csi_param list \<Rightarrow> style \<Rightarrow> style" where
  "sgr_loop prof [] st = st"
| "sgr_loop prof (p # rest) st = (case sgr_one prof p rest st of (st', extra) \<Rightarrow> sgr_loop prof (drop extra rest) st')"
  by pat_completeness auto
termination
  by (relation "measure (\<lambda>(prof, ps, st). length ps)") auto

definition emit_set_style :: "ansi_parser \<Rightarrow> parse_step" where
  "emit_set_style p =
     (if suppress_visible p then (p, []) else (p\<lparr>emitted_style := current_style p\<rparr>, [SetStyle (current_style p)]))"

definition dispatch_sgr :: "csi_param list \<Rightarrow> ansi_parser \<Rightarrow> parse_step" where
  "dispatch_sgr params p =
     (if params = [] then emit_set_style (p\<lparr>current_style := default_style\<rparr>)
      else emit_set_style (p\<lparr>current_style := sgr_loop (profile p) params (current_style p)\<rparr>))"

subsection \<open>Control sequences\<close>

definition param :: "csi_param list \<Rightarrow> nat \<Rightarrow> nat \<Rightarrow> nat" where
  "param params i dflt =
     (if i < length params then (if param_main (params ! i) = 0 then dflt else param_main (params ! i)) else dflt)"

definition erase_mode_of :: "nat \<Rightarrow> erase_mode option" where
  "erase_mode_of v =
     (if v = 0 then Some ToEnd else if v = 1 then Some ToStart else if v = 2 then Some EraseAll
      else if v = 3 then Some Saved else None)"

definition private_mode :: "nat \<Rightarrow> terminal_mode option" where
  "private_mode v =
     (if v = 1 then Some ApplicationCursor else if v = 6 then Some ModeOrigin else if v = 7 then Some AutoWrap
      else if v = 25 then Some CursorVisible else if v = 66 then Some ApplicationKeypad
      else if v = 1000 then Some MouseX10 else if v = 1002 then Some MouseButton else if v = 1003 then Some MouseAny
      else if v = 1004 then Some FocusReporting else if v = 1006 then Some MouseSgr
      else if v = 2004 then Some BracketedPaste else if v = 2026 then Some SynchronizedOutput else None)"

definition private_mode_event :: "nat \<Rightarrow> bool \<Rightarrow> ansi_event option" where
  "private_mode_event v enabled =
     (if v = 47 then Some (AlternateScreen Mode47 enabled)
      else if v = 1047 then Some (AlternateScreen Mode1047 enabled)
      else if v = 1049 then Some (AlternateScreen Mode1049 enabled)
      else map_option (\<lambda>m. SetMode m enabled) (private_mode v))"

definition option_list :: "'a option \<Rightarrow> 'a list" where
  "option_list x = (case x of Some v \<Rightarrow> [v] | None \<Rightarrow> [])"

text \<open>The full-screen table: an ordinary sequence without intermediates, by its final byte (as a character).\<close>

definition plain_csi_events :: "csi_param list \<Rightarrow> char \<Rightarrow> ansi_event list" where
  "plain_csi_events params final =
     (let cnt = max (param params 0 1) 1 in
      if final = CHR ''A'' then [CursorUp cnt]
      else if final = CHR ''B'' then [CursorDown cnt]
      else if final = CHR ''C'' \<or> final = CHR ''a'' then [CursorForward cnt]
      else if final = CHR ''D'' then [CursorBackward cnt]
      else if final = CHR ''E'' then [CursorNextLine cnt]
      else if final = CHR ''F'' then [CursorPreviousLine cnt]
      else if final = CHR ''G'' \<or> final = CHR 0x60 then [CursorHorizontalAbsolute cnt]
      else if final = CHR ''d'' then [CursorVerticalAbsolute cnt]
      else if final = CHR ''H'' \<or> final = CHR ''f'' then [CursorPosition cnt (max (param params 1 1) 1)]
      else if final = CHR ''J'' then option_list (map_option EraseDisplay (erase_mode_of (param params 0 0)))
      else if final = CHR ''K'' then option_list (map_option EraseLineMode (erase_mode_of (param params 0 0)))
      else if final = CHR ''X'' then [EraseCharacters cnt]
      else if final = CHR ''@'' then [InsertCharacters cnt]
      else if final = CHR ''P'' then [DeleteCharacters cnt]
      else if final = CHR ''L'' then [InsertLines cnt]
      else if final = CHR ''M'' then [DeleteLines cnt]
      else if final = CHR ''S'' then [ScrollUp cnt]
      else if final = CHR ''T'' then [ScrollDown cnt]
      else if final = CHR ''r'' then
        [SetScrollingRegion cnt
           (if 1 < length params \<and> param_main (params ! 1) \<noteq> 0 then Some (param_main (params ! 1)) else None)]
      else if final = CHR ''s'' then [SaveCursor]
      else if final = CHR ''u'' then [RestoreCursor]
      else if final = CHR ''g'' then
        (if param params 0 0 = 0 then [ClearTabStop] else if param params 0 0 = 3 then [ClearAllTabStops] else [])
      else if final = CHR ''~'' then
        (if param params 0 0 = 200 then [BracketedPasteBegin]
         else if param params 0 0 = 201 then [BracketedPasteEnd] else [])
      else if final = CHR ''h'' \<or> final = CHR ''l'' then
        concat (map (\<lambda>p. if param_main p = 4 then [SetMode ModeInsert (final = CHR ''h'')] else []) params)
      else if final = CHR ''c'' then [DeviceRequest PrimaryAttributes]
      else if final = CHR ''n'' then
        (if param params 0 0 = 5 then [DeviceRequest OperatingStatus]
         else if param params 0 0 = 6 then [DeviceRequest CursorPositionReport] else [])
      else [])"

definition csi_events :: "nat option \<Rightarrow> nat list \<Rightarrow> csi_param list \<Rightarrow> char \<Rightarrow> ansi_event list" where
  "csi_events private inters params final =
     (if inters \<noteq> [] then []
      else if private = None then plain_csi_events params final
      else if private = Some 63 \<and> (final = CHR ''h'' \<or> final = CHR ''l'')
      then concat (map (\<lambda>p. option_list (private_mode_event (param_main p) (final = CHR ''h''))) params)
      else if private = Some 62 \<and> final = CHR ''c'' then [DeviceRequest SecondaryAttributes]
      else [])"

text \<open>The loop over the parameters of a line-oriented \<^verbatim>\<open>CSI ? h\<close> or \<^verbatim>\<open>CSI ? l\<close>.\<close>

fun alternate_loop :: "bool \<Rightarrow> csi_param list \<Rightarrow> ansi_parser \<Rightarrow> parse_step" where
  "alternate_loop set_it [] p = (p, [])"
| "alternate_loop set_it (q # rest) p =
     (let (p1, es) =
        (if param_main q = 1049 then
           (if set_it \<and> \<not> alt_screen_active p then (p\<lparr>alt_screen_active := True\<rparr>, [AlternateScreenEnter])
            else if \<not> set_it \<and> alt_screen_active p then
              (let p' = p\<lparr>alt_screen_active := False\<rparr>;
                   (p'', es') = (if current_style p' \<noteq> emitted_style p' then emit_set_style p' else (p', []))
               in (p'', AlternateScreenExit # es'))
            else (p, []))
         else (p, []));
      (p2, es2) = alternate_loop set_it rest p1
      in (p2, es @ es2))"

definition line_csi :: "nat option \<Rightarrow> csi_param list \<Rightarrow> char \<Rightarrow> ansi_parser \<Rightarrow> parse_step" where
  "line_csi private params final p =
     (if private = None \<and> final = CHR ''K'' then
        (if param params 0 0 = 0 then (p, push_visible EraseToEol p)
         else if param params 0 0 = 2 then (p, push_visible EraseLine p) else (p, []))
      else if private = None \<and> final = CHR ''~'' then
        (if param params 0 0 = 200 then (p, push_visible BracketedPasteBegin p)
         else if param params 0 0 = 201 then (p, push_visible BracketedPasteEnd p) else (p, []))
      else if private = Some 63 \<and> (final = CHR ''h'' \<or> final = CHR ''l'') then alternate_loop (final = CHR ''h'') params p
      else (p, []))"

definition dispatch_csi :: "byte \<Rightarrow> ansi_parser \<Rightarrow> parse_step" where
  "dispatch_csi b p =
     (let private = private_marker (csi p);
          inters = csi_intermediates (csi p);
          params = csi_finalize (csi p);
          final = char_of (unat b);
          (p', es) =
            (if private = None \<and> final = CHR ''m'' then dispatch_sgr params p
             else if profile p = LineOriented then line_csi private params final p
             else (p, csi_events private inters params final))
      in (p'\<lparr>csi := csi_reset\<rparr>, es))"

subsection \<open>Operating system commands\<close>

definition parse_u32 :: "ustring \<Rightarrow> nat option" where
  "parse_u32 s =
     (let ds = (case s of c # cs \<Rightarrow> if c = 43 then cs else s | [] \<Rightarrow> s)
      in if ds \<noteq> [] \<and> list_all (\<lambda>d. 48 \<le> d \<and> d \<le> 57) ds \<and> digits_value ds \<le> U32_MAX
         then Some (digits_value ds) else None)"

definition osc_marker :: "byte list \<Rightarrow> ansi_event list" where
  "osc_marker payload =
     (case payload of
        [] \<Rightarrow> []
      | b # _ \<Rightarrow>
          if b = 65 then [PromptStart] else if b = 66 then [PromptEnd] else if b = 67 then [CommandStart]
          else if b = 68 then [OutputStart] else [])"

definition dispatch_osc :: "ansi_parser \<Rightarrow> parse_step" where
  "dispatch_osc p =
     (let body = osc_body p;
          num_part = takeWhile (\<lambda>b. b \<noteq> 59) body;
          text_part = drop 1 (dropWhile (\<lambda>b. b \<noteq> 59) body);
          num = Option.bind (utf8_text num_part) parse_u32;
          p' = p\<lparr>osc_body := []\<rparr>
      in if num = Some 133 \<and> \<not> suppress_visible p then (p', osc_marker text_part)
         else if (num = Some 0 \<or> num = Some 2) \<and> \<not> suppress_visible p
         then (p', [SetTitle (from_utf8_lossy text_part)])
         else (p', []))"

subsection \<open>One byte\<close>

definition escape_event :: "char \<Rightarrow> ansi_event option" where
  "escape_event c =
     (if c = CHR ''7'' then Some SaveCursor else if c = CHR ''8'' then Some RestoreCursor
      else if c = CHR ''D'' then Some Index else if c = CHR ''E'' then Some NextLine
      else if c = CHR ''H'' then Some SetTabStop else if c = CHR ''M'' then Some ReverseIndex
      else if c = CHR ''='' then Some (SetMode ApplicationKeypad True)
      else if c = CHR ''>'' then Some (SetMode ApplicationKeypad False) else None)"

definition feed_escape :: "byte \<Rightarrow> ansi_parser \<Rightarrow> parse_step" where
  "feed_escape b p =
     (let n = unat b; c = char_of n in
      if 32 \<le> n \<and> n \<le> 47 then (p\<lparr>escape_intermediates := escape_intermediates p @ [n], pstate := EscapeIntermediate\<rparr>, [])
      else if n = 91 then (p\<lparr>csi := csi_reset, pstate := CsiEntry\<rparr>, [])
      else if n = 93 then (p\<lparr>osc_body := [], pstate := OscString\<rparr>, [])
      else if n = 80 then (p\<lparr>pstate := DcsEntry\<rparr>, [])
      else if n = 88 \<or> n = 94 \<or> n = 95 then (p\<lparr>pstate := SosPmApcString\<rparr>, [])
      else if profile p = FullScreen \<and> escape_event c \<noteq> None then (recover_to_ground p, option_list (escape_event c))
      else if 48 \<le> n \<and> n \<le> 126 then (recover_to_ground p, [])
      else (p, []))"

definition charset_slot :: "nat list \<Rightarrow> character_set_slot option" where
  "charset_slot inters = (if inters = [40] then Some G0 else if inters = [41] then Some G1 else None)"

definition charset_of :: "nat \<Rightarrow> character_set option" where
  "charset_of n = (if n = 48 then Some DecSpecialGraphics else if n = 66 then Some Ascii else None)"

definition feed_escape_intermediate :: "byte \<Rightarrow> ansi_parser \<Rightarrow> parse_step" where
  "feed_escape_intermediate b p =
     (let n = unat b in
      if 32 \<le> n \<and> n \<le> 47 then (p\<lparr>escape_intermediates := escape_intermediates p @ [n]\<rparr>, [])
      else if 48 \<le> n \<and> n \<le> 126 then
        (recover_to_ground p,
         if profile p = FullScreen then
           (case (charset_slot (escape_intermediates p), charset_of n) of
              (Some slot, Some charset) \<Rightarrow> [DesignateCharacterSet slot charset]
            | _ \<Rightarrow> [])
         else [])
      else (p, []))"

definition feed_escape_ignore :: "byte \<Rightarrow> ansi_parser \<Rightarrow> ansi_parser" where
  "feed_escape_ignore b p = (if 48 \<le> unat b \<and> unat b \<le> 126 then recover_to_ground p else p)"

definition dispatch_and_recover :: "byte \<Rightarrow> ansi_parser \<Rightarrow> parse_step" where
  "dispatch_and_recover b p = (case dispatch_csi b p of (p', es) \<Rightarrow> (recover_to_ground p', es))"

definition feed_csi_param :: "byte \<Rightarrow> ansi_parser \<Rightarrow> parse_step" where
  "feed_csi_param b p =
     (let n = unat b in
      if 48 \<le> n \<and> n \<le> 57 then (p\<lparr>csi := push_digit (n - 48) (csi p)\<rparr>, [])
      else if n = 58 then (p\<lparr>csi := push_colon (csi p)\<rparr>, [])
      else if n = 59 then (p\<lparr>csi := push_semicolon (csi p)\<rparr>, [])
      else if 32 \<le> n \<and> n \<le> 47 then
        (p\<lparr>csi := (csi p)\<lparr>csi_intermediates := csi_intermediates (csi p) @ [n]\<rparr>, pstate := CsiIntermediate\<rparr>, [])
      else if 64 \<le> n \<and> n \<le> 126 then dispatch_and_recover b p
      else (p\<lparr>pstate := CsiIgnore\<rparr>, []))"

text \<open>\<^verbatim>\<open>feed_csi_entry\<close> repeats the arms of \<^verbatim>\<open>feed_csi_param\<close>, moving to that state, after the private markers.\<close>

definition feed_csi_entry :: "byte \<Rightarrow> ansi_parser \<Rightarrow> parse_step" where
  "feed_csi_entry b p =
     (let n = unat b in
      if 60 \<le> n \<and> n \<le> 63 then (p\<lparr>csi := (csi p)\<lparr>private_marker := Some n\<rparr>, pstate := CsiParamState\<rparr>, [])
      else if 48 \<le> n \<and> n \<le> 57 then (p\<lparr>csi := push_digit (n - 48) (csi p), pstate := CsiParamState\<rparr>, [])
      else if n = 58 then (p\<lparr>csi := push_colon (csi p), pstate := CsiParamState\<rparr>, [])
      else if n = 59 then (p\<lparr>csi := push_semicolon (csi p), pstate := CsiParamState\<rparr>, [])
      else if 32 \<le> n \<and> n \<le> 47 then
        (p\<lparr>csi := (csi p)\<lparr>csi_intermediates := csi_intermediates (csi p) @ [n]\<rparr>, pstate := CsiIntermediate\<rparr>, [])
      else if 64 \<le> n \<and> n \<le> 126 then dispatch_and_recover b p
      else (p\<lparr>pstate := CsiIgnore\<rparr>, []))"

definition feed_csi_intermediate :: "byte \<Rightarrow> ansi_parser \<Rightarrow> parse_step" where
  "feed_csi_intermediate b p =
     (let n = unat b in
      if 32 \<le> n \<and> n \<le> 47
      then (p\<lparr>csi := (csi p)\<lparr>csi_intermediates := csi_intermediates (csi p) @ [n]\<rparr>\<rparr>, [])
      else if 64 \<le> n \<and> n \<le> 126 then dispatch_and_recover b p
      else (p\<lparr>pstate := CsiIgnore\<rparr>, []))"

definition feed_csi_ignore :: "byte \<Rightarrow> ansi_parser \<Rightarrow> ansi_parser" where
  "feed_csi_ignore b p = (if 64 \<le> unat b \<and> unat b \<le> 126 then recover_to_ground p else p)"

definition feed_osc_string :: "byte \<Rightarrow> ansi_parser \<Rightarrow> parse_step" where
  "feed_osc_string b p =
     (let n = unat b in
      if n = 7 then (case dispatch_osc p of (p', es) \<Rightarrow> (recover_to_ground p', es))
      else if n = 27 then (p\<lparr>pstate := OscEscPending\<rparr>, [])
      else if 32 \<le> n then (p\<lparr>osc_body := osc_body p @ [b]\<rparr>, [])
      else (p, []))"

definition feed_osc_ignore :: "byte \<Rightarrow> ansi_parser \<Rightarrow> ansi_parser" where
  "feed_osc_ignore b p =
     (if b = 7 then recover_to_ground p else if b = 27 then p\<lparr>pstate := OscEscPending\<rparr> else p)"

text \<open>
  The byte budget of a sequence: \<open>True\<close> when the byte was spent on moving to an ignore state. The last
  arm of the match, \<^verbatim>\<open>recover_to_ground\<close>, is unreachable: every state is in one of the others.
\<close>

definition spend_budget :: "ansi_parser \<Rightarrow> ansi_parser \<times> bool" where
  "spend_budget p =
     (if pstate p \<in> {Ground, EscapeIgnore, CsiIgnore, OscIgnore, DcsIgnore} then (p, False)
      else (let p = p\<lparr>ignore_byte_count := ignore_byte_count p + 1\<rparr> in
            if ignore_byte_count p \<le> unknown_sequence_byte_limit p then (p, False)
            else (case pstate p of
                    OscString \<Rightarrow> (p\<lparr>osc_body := [], pstate := OscIgnore, ignore_byte_count := 0\<rparr>, True)
                  | OscEscPending \<Rightarrow> (p\<lparr>osc_body := [], pstate := OscIgnore, ignore_byte_count := 0\<rparr>, True)
                  | Escape \<Rightarrow> (p\<lparr>escape_intermediates := [], pstate := EscapeIgnore, ignore_byte_count := 0\<rparr>, True)
                  | EscapeIntermediate \<Rightarrow>
                      (p\<lparr>escape_intermediates := [], pstate := EscapeIgnore, ignore_byte_count := 0\<rparr>, True)
                  | CsiEntry \<Rightarrow> (p\<lparr>csi := csi_reset, pstate := CsiIgnore, ignore_byte_count := 0\<rparr>, True)
                  | CsiParamState \<Rightarrow> (p\<lparr>csi := csi_reset, pstate := CsiIgnore, ignore_byte_count := 0\<rparr>, True)
                  | CsiIntermediate \<Rightarrow> (p\<lparr>csi := csi_reset, pstate := CsiIgnore, ignore_byte_count := 0\<rparr>, True)
                  | _ \<Rightarrow> (p\<lparr>pstate := DcsIgnore, ignore_byte_count := 0\<rparr>, True))))"

lemma spend_budget_False:
  assumes "spend_budget p = (p', False)"
  shows "pstate p' = pstate p"
  using assms by (auto simp: spend_budget_def Let_def split: if_splits parser_state.splits)

function feed_byte :: "byte \<Rightarrow> ansi_parser \<Rightarrow> parse_step" where
  "feed_byte b p =
     (if b = 27 \<and> pstate p \<noteq> OscString \<and> pstate p \<noteq> OscEscPending
      then (case flush_text_run p of (p', es) \<Rightarrow> (start_new_sequence p', es))
      else if b = 24 \<or> b = 26 then (case flush_text_run p of (p', es) \<Rightarrow> (recover_to_ground p', es))
      else (case spend_budget p of
              (p', True) \<Rightarrow> (p', [])
            | (p', False) \<Rightarrow>
                (case pstate p' of
                   Ground \<Rightarrow> feed_ground b p'
                 | Escape \<Rightarrow> feed_escape b p'
                 | EscapeIntermediate \<Rightarrow> feed_escape_intermediate b p'
                 | EscapeIgnore \<Rightarrow> (feed_escape_ignore b p', [])
                 | CsiEntry \<Rightarrow> feed_csi_entry b p'
                 | CsiParamState \<Rightarrow> feed_csi_param b p'
                 | CsiIntermediate \<Rightarrow> feed_csi_intermediate b p'
                 | CsiIgnore \<Rightarrow> (feed_csi_ignore b p', [])
                 | OscString \<Rightarrow> feed_osc_string b p'
                 | OscEscPending \<Rightarrow>
                     (if b = 92 then (case dispatch_osc p' of (p'', es) \<Rightarrow> (recover_to_ground p'', es))
                      else feed_byte b (p'\<lparr>osc_body := [], ignore_byte_count := 0, pstate := Escape\<rparr>))
                 | OscIgnore \<Rightarrow> (feed_osc_ignore b p', [])
                 | _ \<Rightarrow> (p', []))))"
  by pat_completeness auto
termination
  by (relation "measure (\<lambda>(b, p). if pstate p = OscEscPending then 1 else 0)")
     (auto dest!: spend_budget_False [OF sym])

declare feed_byte.simps [simp del]

section \<open>Feeding\<close>

fun feed_bytes :: "byte list \<Rightarrow> ansi_parser \<Rightarrow> parse_step" where
  "feed_bytes [] p = (p, [])"
| "feed_bytes (b # bs) p =
     (case feed_byte b p of (p1, es1) \<Rightarrow> (case feed_bytes bs p1 of (p2, es2) \<Rightarrow> (p2, es1 @ es2)))"

definition feed :: "byte list \<Rightarrow> ansi_parser \<Rightarrow> parse_step" where
  "feed bs p =
     (case feed_bytes bs p of (p1, es1) \<Rightarrow> (case emit_text_run p1 of (p2, es2) \<Rightarrow> (p2, es1 @ es2)))"

definition finish :: "ansi_parser \<Rightarrow> parse_step" where
  "finish p =
     (case emit_text_run (flush_pending_utf8_as_replacement p) of
        (p1, es) \<Rightarrow>
          (parser_reset (p1\<lparr>alt_screen_active := False, current_style := default_style, emitted_style := default_style\<rparr>),
           es @
           (if profile p1 = LineOriented
            then (if alt_screen_active p1 then [AlternateScreenExit] else []) @
                 (if emitted_style p1 \<noteq> default_style then [SetStyle default_style] else [])
            else [])))"

end
