(* ===== verification/Ansi_Chunks.thy ===== *)
theory Ansi_Chunks
  imports Ansi
begin

text \<open>
  What the escape-sequence parser guarantees for every input: how the input is cut into reads does not matter,
  what a sequence retains is bounded, and a device control string swallows what follows it.
\<close>

section \<open>Text runs\<close>

text \<open>The observable output: every text event taken apart into its characters.\<close>

definition chars :: "ustring \<Rightarrow> ansi_event list" where
  "chars s = map (\<lambda>c. Text [c]) s"

definition explode :: "ansi_event list \<Rightarrow> ansi_event list" where
  "explode es = concat (map (\<lambda>e. case e of Text s \<Rightarrow> chars s | _ \<Rightarrow> [e]) es)"

lemma chars_append [simp]: "chars (s @ t) = chars s @ chars t"
  by (simp add: chars_def)

lemma chars_Nil [simp]: "chars [] = []"
  by (simp add: chars_def)

lemma explode_simps [simp]:
  "explode [] = []" "explode (es @ fs) = explode es @ explode fs" "explode [Text s] = chars s"
  by (simp_all add: explode_def)

definition visible :: "ansi_parser \<Rightarrow> ustring \<Rightarrow> ansi_event list" where
  "visible p s = (if suppress_visible p then [] else chars s)"

definition add_run :: "ustring \<Rightarrow> ansi_parser \<Rightarrow> ansi_parser" where
  "add_run r p = p\<lparr>text_run := r @ text_run p\<rparr>"

lemma add_run_fields [simp]:
  "pstate (add_run r p) = pstate p" "profile (add_run r p) = profile p" "utf8_buf (add_run r p) = utf8_buf p"
  "suppress_visible (add_run r p) = suppress_visible p" "text_run (add_run r p) = r @ text_run p"
  by (simp_all add: add_run_def suppress_visible_def)

text \<open>Outside ground state nothing is pending.\<close>

definition run_inv :: "ansi_parser \<Rightarrow> bool" where
  "run_inv p \<longleftrightarrow> (pstate p = Ground \<or> (text_run p = [] \<and> utf8_buf p = []))"

lemma emit_text_run_explode:
  assumes "emit_text_run p = (p', es)"
  shows "p' = p\<lparr>text_run := []\<rparr> \<and> explode es = visible p (text_run p)"
  using assms by (auto simp: emit_text_run_def push_visible_def visible_def split: if_splits)

lemma flush_text_run_explode:
  assumes "flush_text_run p = (p', es)"
  shows "p' = p\<lparr>text_run := [], utf8_buf := []\<rparr> \<and>
     explode es = visible p (text_run p @ (if utf8_buf p = [] then [] else [REPLACEMENT]))"
  using emit_text_run_explode [OF assms [unfolded flush_text_run_def]]
  by (auto simp: flush_pending_utf8_as_replacement_def visible_def suppress_visible_def)

lemma flush_prefix:
  assumes "flush_text_run q = (q', es')"
  shows "\<exists>es. flush_text_run (add_run r q) = (q', es) \<and> explode es = visible q r @ explode es'"
proof -
  obtain p' es where f: "flush_text_run (add_run r q) = (p', es)" by fastforce
  have "p' = q'" using flush_text_run_explode [OF f] flush_text_run_explode [OF assms] by (simp add: add_run_def)
  moreover have "explode es = visible q r @ explode es'"
    using flush_text_run_explode [OF f] flush_text_run_explode [OF assms] by (simp add: visible_def)
  ultimately show ?thesis using f by blast
qed

lemma try_decode_prefix:
  "try_decode_utf8_buf (r @ run) buf = (case try_decode_utf8_buf run buf of (run', buf') \<Rightarrow> (r @ run', buf'))"
proof (induction run buf rule: try_decode_utf8_buf.induct)
  case (1 run buf)
  show ?case
  proof (cases "\<exists>cs v n. buf \<noteq> [] \<and> from_utf8 buf = (cs, v, Some (Some n))")
    case True
    then obtain cs v n where b: "buf \<noteq> []" "from_utf8 buf = (cs, v, Some (Some n))" by blast
    show ?thesis
      using "1.IH" [OF b(1) b(2) [symmetric] refl refl refl] b
      by (subst (1 2) try_decode_utf8_buf.simps) simp
  next
    case False
    then show ?thesis
      by (subst (1 2) try_decode_utf8_buf.simps) (auto split: prod.splits option.splits)
  qed
qed

lemma push_text_byte_prefix: "push_text_byte b (add_run r q) = add_run r (push_text_byte b q)"
  by (auto simp: push_text_byte_def add_run_def try_decode_prefix split: prod.splits)

lemma push_text_byte_fields [simp]:
  "pstate (push_text_byte b p) = pstate p" "suppress_visible (push_text_byte b p) = suppress_visible p"
  by (auto simp: push_text_byte_def suppress_visible_def split: prod.splits)

text \<open>
  One byte in ground state, with and without a run already in front: either the run stays pending, or both flush
  and the outputs differ by the run.
\<close>

definition prefix_step :: "ustring \<Rightarrow> ansi_parser \<Rightarrow> parse_step \<Rightarrow> parse_step \<Rightarrow> bool" where
  "prefix_step r q a b \<longleftrightarrow>
     (fst a = add_run r (fst b) \<and> snd a = [] \<and> snd b = [] \<and> pstate (fst b) = Ground \<and>
      suppress_visible (fst b) = suppress_visible q) \<or>
     (fst a = fst b \<and> explode (snd a) = visible q r @ explode (snd b))"

lemma flush_then_prefix: "prefix_step r q (flush_then evs (add_run r q)) (flush_then evs q)"
proof -
  obtain q' es' where f: "flush_text_run q = (q', es')" by fastforce
  obtain es where "flush_text_run (add_run r q) = (q', es)" "explode es = visible q r @ explode es'"
    using flush_prefix [OF f] by blast
  then show ?thesis using f by (simp add: flush_then_def prefix_step_def)
qed

lemma prefix_step_if:
  "prefix_step r q a b \<Longrightarrow> prefix_step r q a' b' \<Longrightarrow> prefix_step r q (if c then a else a') (if c then b else b')"
  by simp

lemma feed_ground_prefix:
  assumes "pstate q = Ground"
  shows "prefix_step r q (feed_ground b (add_run r q)) (feed_ground b q)"
proof -
  have push: "prefix_step r q (push_text_byte b (add_run r q), []) (push_text_byte b q, [])"
    using assms by (simp add: prefix_step_def push_text_byte_prefix)
  have skip: "prefix_step r q (add_run r q, []) (q, [])" using assms by (simp add: prefix_step_def)
  show ?thesis
    unfolding feed_ground_def Let_def add_run_fields by (intro prefix_step_if flush_then_prefix push skip)
qed

lemma feed_byte_prefix:
  assumes "pstate q = Ground"
  shows "prefix_step r q (feed_byte b (add_run r q)) (feed_byte b q)"
proof -
  have flush: "prefix_step r q (case flush_text_run (add_run r q) of (p', es) \<Rightarrow> (f p', es))
      (case flush_text_run q of (p', es) \<Rightarrow> (f p', es))" for f
  proof -
    obtain q' es' where f: "flush_text_run q = (q', es')" by fastforce
    then show ?thesis using flush_prefix [OF f, of r] by (auto simp: prefix_step_def)
  qed
  have budget: "spend_budget q = (q, False)" "spend_budget (add_run r q) = (add_run r q, False)"
    using assms by (simp_all add: spend_budget_def)
  show ?thesis
    using assms flush feed_ground_prefix [OF assms]
    by (simp add: feed_byte.simps [of b q] feed_byte.simps [of b "add_run r q"] budget)
qed

section \<open>Nothing is pending outside ground state\<close>

definition same_text :: "ansi_parser \<Rightarrow> ansi_parser \<Rightarrow> bool" where
  "same_text p p' \<longleftrightarrow> text_run p' = text_run p \<and> utf8_buf p' = utf8_buf p \<and>
     unknown_sequence_byte_limit p' = unknown_sequence_byte_limit p"

lemma same_text_simps [simp]:
  "same_text p p" "same_text p (recover_to_ground p') = same_text p p'" "same_text p (start_new_sequence p') = same_text p p'"
  "same_text p (p'\<lparr>pstate := st\<rparr>) = same_text p p'" "same_text p (p'\<lparr>csi := c\<rparr>) = same_text p p'"
  "same_text p (p'\<lparr>osc_body := o'\<rparr>) = same_text p p'" "same_text p (p'\<lparr>ignore_byte_count := n\<rparr>) = same_text p p'"
  "same_text p (p'\<lparr>escape_intermediates := i\<rparr>) = same_text p p'" "same_text p (p'\<lparr>alt_screen_active := b\<rparr>) = same_text p p'"
  "same_text p (p'\<lparr>current_style := x\<rparr>) = same_text p p'" "same_text p (p'\<lparr>emitted_style := x\<rparr>) = same_text p p'"
  by (simp_all add: same_text_def recover_to_ground_def start_new_sequence_def)

lemma same_text_trans: "same_text p q \<Longrightarrow> same_text q r \<Longrightarrow> same_text p r"
  by (simp add: same_text_def)

lemma spend_budget_text: "spend_budget p = (p', b) \<Longrightarrow> same_text p p'"
  by (auto simp: spend_budget_def Let_def split: if_splits parser_state.splits)

lemma emit_set_style_text: "emit_set_style p = (p', es) \<Longrightarrow> same_text p p'"
  by (auto simp: emit_set_style_def split: if_splits)

lemma alternate_loop_text: "same_text p (fst (alternate_loop b ps p))"
proof (induction ps arbitrary: p)
  case (Cons q ps)
  define p1 where "p1 = (if param_main q = 1049 then
       (if b \<and> \<not> alt_screen_active p then p\<lparr>alt_screen_active := True\<rparr>
        else if \<not> b \<and> alt_screen_active p then
          (if current_style p \<noteq> emitted_style p then fst (emit_set_style (p\<lparr>alt_screen_active := False\<rparr>))
           else p\<lparr>alt_screen_active := False\<rparr>)
        else p) else p)"
  have "same_text p p1"
    by (auto simp: p1_def same_text_def emit_set_style_def)
  moreover have "fst (alternate_loop b (q # ps) p) = fst (alternate_loop b ps p1)"
    by (simp add: p1_def Let_def split: prod.split)
  ultimately show ?case using Cons.IH [of p1] same_text_trans by metis
qed simp

lemma dispatch_sgr_text: "same_text p (fst (dispatch_sgr ps p))"
  by (simp add: dispatch_sgr_def emit_set_style_def same_text_def)

lemma line_csi_text: "same_text p (fst (line_csi private params final p))"
  by (simp add: line_csi_def alternate_loop_text)

lemma dispatch_csi_text: "dispatch_csi b p = (p', es) \<Longrightarrow> same_text p p'"
  using dispatch_sgr_text [of p] line_csi_text [of p]
  by (auto simp: dispatch_csi_def Let_def split: if_splits prod.splits) (metis fst_conv)+

lemma dispatch_osc_text: "dispatch_osc p = (p', es) \<Longrightarrow> same_text p p'"
  by (auto simp: dispatch_osc_def Let_def split: if_splits)

lemmas sequence_text = spend_budget_text dispatch_csi_text dispatch_osc_text

lemma feed_sequence_text:
  "feed_escape b p = (p', es) \<Longrightarrow> same_text p p'" "feed_escape_intermediate b p = (p', es) \<Longrightarrow> same_text p p'"
  "feed_csi_entry b p = (p', es) \<Longrightarrow> same_text p p'" "feed_csi_param b p = (p', es) \<Longrightarrow> same_text p p'"
  "feed_csi_intermediate b p = (p', es) \<Longrightarrow> same_text p p'" "feed_osc_string b p = (p', es) \<Longrightarrow> same_text p p'"
  "same_text p (feed_escape_ignore b p)" "same_text p (feed_csi_ignore b p)" "same_text p (feed_osc_ignore b p)"
  by (auto simp: feed_escape_def feed_escape_intermediate_def feed_csi_entry_def feed_csi_param_def feed_csi_intermediate_def
      feed_osc_string_def feed_escape_ignore_def feed_csi_ignore_def feed_osc_ignore_def dispatch_and_recover_def Let_def
      split: if_splits prod.splits dest: sequence_text)

lemma flush_text_run_text: "flush_text_run p = (p', es) \<Longrightarrow> text_run p' = [] \<and> utf8_buf p' = []"
  using flush_text_run_explode by fastforce

text \<open>A byte of a sequence that is neither interrupted nor over budget.\<close>

definition feed_state :: "byte \<Rightarrow> ansi_parser \<Rightarrow> parse_step" where
  "feed_state b p =
     (case pstate p of
        Ground \<Rightarrow> feed_ground b p
      | Escape \<Rightarrow> feed_escape b p
      | EscapeIntermediate \<Rightarrow> feed_escape_intermediate b p
      | EscapeIgnore \<Rightarrow> (feed_escape_ignore b p, [])
      | CsiEntry \<Rightarrow> feed_csi_entry b p
      | CsiParamState \<Rightarrow> feed_csi_param b p
      | CsiIntermediate \<Rightarrow> feed_csi_intermediate b p
      | CsiIgnore \<Rightarrow> (feed_csi_ignore b p, [])
      | OscString \<Rightarrow> feed_osc_string b p
      | OscEscPending \<Rightarrow> (case dispatch_osc p of (p', es) \<Rightarrow> (recover_to_ground p', es))
      | OscIgnore \<Rightarrow> (feed_osc_ignore b p, [])
      | _ \<Rightarrow> (p, []))"

lemma feed_byte_interrupt:
  assumes "flush_text_run p = (q, es)"
  shows "b = 27 \<Longrightarrow> pstate p \<noteq> OscString \<Longrightarrow> pstate p \<noteq> OscEscPending \<Longrightarrow> feed_byte b p = (start_new_sequence q, es)"
    "b = 24 \<or> b = 26 \<Longrightarrow> feed_byte b p = (recover_to_ground q, es)"
  using assms by (subst feed_byte.simps; auto)+

lemma feed_byte_budgeted:
  assumes "\<not> (b = 27 \<and> pstate p \<noteq> OscString \<and> pstate p \<noteq> OscEscPending)" "\<not> (b = 24 \<or> b = 26)" "spend_budget p = (q, spent)"
  shows "feed_byte b p =
     (if spent then (q, [])
      else if pstate q = OscEscPending \<and> b \<noteq> 92 then feed_byte b (q\<lparr>osc_body := [], ignore_byte_count := 0, pstate := Escape\<rparr>)
      else feed_state b q)"
  unfolding feed_byte.simps [of b p] if_not_P [OF assms(1)] if_not_P [OF assms(2)] assms(3)
  by (simp add: feed_state_def split: parser_state.split bool.split)

text \<open>To preserve an invariant, one byte has four things to preserve it in.\<close>

lemma feed_byte_invariant:
  assumes start: "I p"
    and interrupt: "\<And>p q es. I p \<Longrightarrow> flush_text_run p = (q, es) \<Longrightarrow> I (start_new_sequence q) \<and> I (recover_to_ground q)"
    and spent: "\<And>p q. I p \<Longrightarrow> spend_budget p = (q, True) \<Longrightarrow> I q"
    and restart: "\<And>p q. I p \<Longrightarrow> spend_budget p = (q, False) \<Longrightarrow> pstate q = OscEscPending \<Longrightarrow>
      I (q\<lparr>osc_body := [], ignore_byte_count := 0, pstate := Escape\<rparr>)"
    and step: "\<And>b p q p' es. I p \<Longrightarrow> spend_budget p = (q, False) \<Longrightarrow> feed_state b q = (p', es) \<Longrightarrow> I p'"
  shows "I (fst (feed_byte b p))"
  using start
proof (induction b p rule: feed_byte.induct)
  case (1 b p)
  obtain r fs where f: "flush_text_run p = (r, fs)" by fastforce
  obtain q s where sb: "spend_budget p = (q, s)" by fastforce
  consider (esc) "b = 27" "pstate p \<noteq> OscString" "pstate p \<noteq> OscEscPending"
    | (can) "b = 24 \<or> b = 26"
    | (other) "\<not> (b = 27 \<and> pstate p \<noteq> OscString \<and> pstate p \<noteq> OscEscPending)" "\<not> (b = 24 \<or> b = 26)" by blast
  then show ?case
  proof cases
    case other
    note unfold = feed_byte_budgeted [OF other sb]
    consider (spent) s | (restart) "\<not> s" "pstate q = OscEscPending" "b \<noteq> 92" | (step) "\<not> s" "\<not> (pstate q = OscEscPending \<and> b \<noteq> 92)"
      by blast
    then show ?thesis
    proof cases
      case restart
      then have "I (q\<lparr>osc_body := [], ignore_byte_count := 0, pstate := Escape\<rparr>)"
        using assms(4) [OF "1.prems"] sb by simp
      then show ?thesis using restart "1.IH" [OF other sb [symmetric]] unfold by simp
    next
      case step
      obtain p' es where fs: "feed_state b q = (p', es)" by fastforce
      then show ?thesis
        unfolding unfold if_not_P [OF step(1)] if_not_P [OF step(2)] using step(1) assms(5) [OF "1.prems" _ fs] sb by simp
    qed (use unfold spent "1.prems" sb in simp)
  qed (use feed_byte_interrupt [OF f] interrupt [OF "1.prems" f] in auto)
qed

lemma feed_ground_run_inv: "pstate p = Ground \<Longrightarrow> feed_ground b p = (p', es) \<Longrightarrow> pstate p' = Ground"
  by (auto simp: feed_ground_def Let_def flush_then_def split: if_splits prod.splits dest: flush_text_run_explode)

lemma feed_state_text:
  assumes "feed_state b p = (p', es)" "pstate p \<noteq> Ground"
  shows "same_text p p'"
proof -
  have osc: "same_text p (fst (case dispatch_osc p of (p', es) \<Rightarrow> (recover_to_ground p', es)))"
    using dispatch_osc_text [of p] by (simp split: prod.split)
  have fst: "p' = fst (feed_state b p)" using assms(1) by simp
  have "same_text p (fst (feed_state b p))"
    unfolding feed_state_def
    using assms(2) feed_sequence_text(1-6) [of b p] feed_sequence_text(7-9) [of p b] osc
    by (cases "pstate p") (simp_all, (metis prod.collapse)+)
  then show ?thesis using fst by simp
qed

lemma feed_byte_run_inv:
  assumes "run_inv p" "feed_byte b p = (p', es)"
  shows "run_inv p'"
proof -
  have "run_inv (fst (feed_byte b p))"
    using assms(1)
  proof (rule feed_byte_invariant)
    fix p q es assume "flush_text_run p = (q, es)"
    then show "run_inv (start_new_sequence q) \<and> run_inv (recover_to_ground q)"
      by (auto simp: run_inv_def start_new_sequence_def recover_to_ground_def dest: flush_text_run_text)
  next
    fix p q assume "run_inv p" and sb: "spend_budget p = (q, True)"
    moreover have "pstate p \<noteq> Ground" using sb by (auto simp: spend_budget_def)
    ultimately show "run_inv q" using spend_budget_text [OF sb] by (simp add: run_inv_def same_text_def)
  next
    fix p q assume "run_inv p" and sb: "spend_budget p = (q, False)" and "pstate q = OscEscPending"
    then show "run_inv (q\<lparr>osc_body := [], ignore_byte_count := 0, pstate := Escape\<rparr>)"
      using spend_budget_text [OF sb] spend_budget_False [OF sb] by (simp add: run_inv_def same_text_def)
  next
    fix b p q p' es assume inv: "run_inv p" and sb: "spend_budget p = (q, False)" and fs: "feed_state b q = (p', es)"
    show "run_inv p'"
    proof (cases "pstate q = Ground")
      case True
      then show ?thesis using feed_ground_run_inv [OF True, of b p' es] fs by (simp add: feed_state_def run_inv_def)
    next
      case False
      then have "same_text p p'" using feed_state_text [OF fs] spend_budget_text [OF sb] same_text_trans by blast
      then show ?thesis using inv False spend_budget_False [OF sb] by (simp add: run_inv_def same_text_def)
    qed
  qed
  then show ?thesis using assms(2) by simp
qed

section \<open>Cutting the input\<close>

lemma add_run_Nil [simp]: "add_run [] p = p"
  by (simp add: add_run_def)

lemma visible_Nil [simp]: "visible p [] = []"
  by (simp add: visible_def)

lemma feed_bytes_run_inv: "run_inv p \<Longrightarrow> feed_bytes bs p = (p', es) \<Longrightarrow> run_inv p'"
  by (induction bs arbitrary: p es) (auto split: prod.splits dest: feed_byte_run_inv)

lemma feed_byte_prefix_run:
  assumes "pstate q \<noteq> Ground \<longrightarrow> r = []" "feed_byte b (add_run r q) = (p1, e1)" "feed_byte b q = (p2, e2)"
  shows "\<exists>r'. p1 = add_run r' p2 \<and> (pstate p2 \<noteq> Ground \<longrightarrow> r' = []) \<and>
    explode e1 @ visible p2 r' = visible q r @ explode e2"
proof (cases "pstate q = Ground")
  case True
  have "prefix_step r q (p1, e1) (p2, e2)" using feed_byte_prefix [OF True, of r b] assms by simp
  then show ?thesis
    unfolding prefix_step_def
    by (elim disjE) (auto simp: visible_def intro: exI [of _ r] exI [of _ "[]"])
next
  case False
  then show ?thesis using assms by (auto intro: exI [of _ "[]"])
qed

lemma feed_bytes_prefix:
  "pstate q \<noteq> Ground \<longrightarrow> r = [] \<Longrightarrow> feed_bytes bs (add_run r q) = (p1, e1) \<Longrightarrow> feed_bytes bs q = (p2, e2) \<Longrightarrow>
   \<exists>r'. p1 = add_run r' p2 \<and> (pstate p2 \<noteq> Ground \<longrightarrow> r' = []) \<and> explode e1 @ visible p2 r' = visible q r @ explode e2"
proof (induction bs arbitrary: q r p1 e1 p2 e2)
  case Nil
  then show ?case by (auto intro: exI [of _ r])
next
  case (Cons b bs)
  obtain p1' f1 where 1: "feed_byte b (add_run r q) = (p1', f1)" by fastforce
  obtain p2' f2 where 2: "feed_byte b q = (p2', f2)" by fastforce
  obtain r' where r': "p1' = add_run r' p2'" "pstate p2' \<noteq> Ground \<longrightarrow> r' = []"
      "explode f1 @ visible p2' r' = visible q r @ explode f2"
    using feed_byte_prefix_run [OF Cons.prems(1) 1 2] by blast
  obtain g1 where g1: "feed_bytes bs (add_run r' p2') = (p1, g1)" "e1 = f1 @ g1"
    using Cons.prems(2) 1 r'(1) by (auto split: prod.splits)
  obtain g2 where g2: "feed_bytes bs p2' = (p2, g2)" "e2 = f2 @ g2"
    using Cons.prems(3) 2 by (auto split: prod.splits)
  obtain r'' where r'': "p1 = add_run r'' p2" "pstate p2 \<noteq> Ground \<longrightarrow> r'' = []"
      "explode g1 @ visible p2 r'' = visible p2' r' @ explode g2"
    using Cons.IH [OF r'(2) g1(1) g2(1)] by blast
  have "explode e1 @ visible p2 r'' = explode f1 @ visible p2' r' @ explode g2"
    using r''(3) by (simp add: g1(2))
  also have "\<dots> = visible q r @ explode e2"
    using r'(3) by (simp add: g2(2) flip: append_assoc)
  finally show ?case using r'' by blast
qed

lemma feed_bytes_append:
  "feed_bytes (xs @ ys) p =
     (case feed_bytes xs p of (p1, e1) \<Rightarrow> (case feed_bytes ys p1 of (p2, e2) \<Rightarrow> (p2, e1 @ e2)))"
  by (induction xs arbitrary: p) (simp_all split: prod.split)

lemma feed_run_inv:
  assumes "run_inv p" "feed bs p = (p', es)"
  shows "run_inv p'"
proof -
  obtain q f where q: "feed_bytes bs p = (q, f)" by fastforce
  then have "p' = q\<lparr>text_run := []\<rparr>"
    using assms(2) emit_text_run_explode by (auto simp: feed_def split: prod.splits)
  then show ?thesis using feed_bytes_run_inv [OF assms(1) q] by (auto simp: run_inv_def)
qed

lemma feed_append:
  assumes "run_inv p" "feed xs p = (p1, e1)" "feed ys p1 = (p2, e2)"
  shows "\<exists>es. feed (xs @ ys) p = (p2, es) \<and> explode es = explode e1 @ explode e2"
proof -
  obtain q f where q: "feed_bytes xs p = (q, f)" by fastforce
  obtain t where t: "emit_text_run q = (p1, t)" "e1 = f @ t" using assms(2) q by (auto simp: feed_def split: prod.splits)
  note emit = emit_text_run_explode [OF t(1)]
  have undo: "q = add_run (text_run q) p1" using emit by (simp add: add_run_def)
  have idle: "pstate p1 \<noteq> Ground \<longrightarrow> text_run q = []"
    using feed_bytes_run_inv [OF assms(1) q] emit by (auto simp: run_inv_def)
  obtain a g where a: "feed_bytes ys q = (a, g)" by fastforce
  obtain b h where b: "feed_bytes ys p1 = (b, h)" by fastforce
  obtain r where r: "a = add_run r b" "explode g @ visible b r = visible p1 (text_run q) @ explode h"
    using feed_bytes_prefix [OF idle _ b] a undo by metis
  obtain a' k where k: "emit_text_run a = (a', k)" by fastforce
  obtain m where m: "emit_text_run b = (p2, m)" "e2 = h @ m" using assms(3) b by (auto simp: feed_def split: prod.splits)
  have "a' = p2"
    using emit_text_run_explode [OF k] emit_text_run_explode [OF m(1)] r(1) by (simp add: add_run_def)
  moreover have "explode k = visible b r @ explode m"
    using emit_text_run_explode [OF k] emit_text_run_explode [OF m(1)] r(1) by (simp add: visible_def)
  moreover have "visible p1 (text_run q) = explode t"
    using emit by (simp add: visible_def suppress_visible_def)
  ultimately have "explode g @ explode k = explode t @ explode h @ explode m"
    using r(2) by (simp flip: append_assoc)
  then show ?thesis
    using q a k \<open>a' = p2\<close> by (simp add: feed_def feed_bytes_append t(2) m(2))
qed

text \<open>The parser fed with a list of reads, as a reader thread hands them over.\<close>

fun feed_chunks :: "byte list list \<Rightarrow> ansi_parser \<Rightarrow> parse_step" where
  "feed_chunks [] p = (p, [])"
| "feed_chunks (c # cs) p = (case feed c p of (p1, e1) \<Rightarrow> (case feed_chunks cs p1 of (p2, e2) \<Rightarrow> (p2, e1 @ e2)))"

lemma feed_chunks_concat:
  assumes "run_inv p" "text_run p = []" "feed_chunks cs p = (p1, e1)" "feed (concat cs) p = (p2, e2)"
  shows "p2 = p1 \<and> explode e2 = explode e1"
  using assms
proof (induction cs arbitrary: p p1 e1 p2 e2)
  case Nil
  then show ?case by (auto simp: feed_def emit_text_run_def)
next
  case (Cons c cs)
  obtain q f where q: "feed c p = (q, f)" by fastforce
  obtain g where g: "feed_chunks cs q = (p1, g)" "e1 = f @ g" using Cons.prems(3) q by (auto split: prod.splits)
  obtain q' h where h: "feed (concat cs) q = (q', h)" by fastforce
  have inv: "run_inv q" "text_run q = []"
    using feed_run_inv [OF Cons.prems(1) q] q by (auto simp: feed_def split: prod.splits dest!: emit_text_run_explode)
  have "q' = p1 \<and> explode h = explode g" using Cons.IH [OF inv g(1) h] by simp
  then show ?case using feed_append [OF Cons.prems(1) q h] Cons.prems(4) g(2) by auto
qed

end
