(* ===== verification/Ansi_Bounds.thy ===== *)
theory Ansi_Bounds
  imports Ansi_Chunks
begin

text \<open>
  What the escape-sequence parser retains: the bytes of an unfinished sequence stay within the configured budget and
  the bytes of an unfinished character are at most three, so the defensive cap of eight is never reached.
\<close>

section \<open>Unfinished characters\<close>

lemma step_nats_Incomplete_width: "step_nats bs = Incomplete \<Longrightarrow> length bs \<le> 3"
  by (cases bs) (auto split: if_splits list.splits)

lemma from_utf8_incomplete_len: "from_utf8 bs = (cs, v, Some None) \<Longrightarrow> length bs \<le> v + 3"
proof (induction bs arbitrary: cs v rule: from_utf8.induct)
  case (1 bs)
  have "bs \<noteq> []" using "1.prems" by (auto simp: from_utf8.simps [of bs])
  show ?case
  proof (cases "utf8_step bs")
    case (Scalar c n)
    then obtain cs' v' where "from_utf8 (drop n bs) = (cs', v', Some None)" "v = n + v'"
      using "1.prems" \<open>bs \<noteq> []\<close> by (auto simp: from_utf8.simps [of bs] split: prod.splits)
    then show ?thesis using "1.IH" [OF \<open>bs \<noteq> []\<close> Scalar] by fastforce
  next
    case Incomplete
    then show ?thesis using step_nats_Incomplete_width [of "map unat bs"] by (simp add: utf8_step_def)
  qed (use "1.prems" \<open>bs \<noteq> []\<close> in \<open>simp add: from_utf8.simps [of bs]\<close>)
qed

lemma try_decode_pending: "try_decode_utf8_buf run buf = (run', buf') \<Longrightarrow> length buf' \<le> 3"
proof (induction run buf rule: try_decode_utf8_buf.induct)
  case (1 run buf)
  show ?case
  proof (cases "\<exists>cs v n. buf \<noteq> [] \<and> from_utf8 buf = (cs, v, Some (Some n))")
    case True
    then obtain cs v n where b: "buf \<noteq> []" "from_utf8 buf = (cs, v, Some (Some n))" by blast
    then show ?thesis
      using "1.IH" [OF b(1) b(2) [symmetric] refl refl refl] "1.prems" by (simp add: try_decode_utf8_buf.simps [of run buf])
  next
    case False
    then show ?thesis
      using "1.prems" from_utf8_incomplete_len [of buf]
      by (fastforce simp: try_decode_utf8_buf.simps [of run buf] split: prod.splits option.splits if_splits)
  qed
qed

section \<open>Unfinished sequences\<close>

definition csi_size :: "csi_collector \<Rightarrow> nat" where
  "csi_size c =
     sum_list (map (\<lambda>p. 1 + length (param_sub p)) (csi_params c)) + length (current_subs c) +
     length (csi_intermediates c) + (if in_subs c then 1 else 0)"

definition retained :: "ansi_parser \<Rightarrow> nat" where
  "retained p = length (osc_body p) + length (escape_intermediates p) + csi_size (csi p)"

lemma csi_size_reset [simp]: "csi_size csi_reset = 0"
  by (simp add: csi_size_def csi_reset_def)

lemma csi_size_steps:
  "csi_size (push_digit d c) = csi_size c" "csi_size (push_colon c) = csi_size c + 1"
  "csi_size (push_semicolon c) = csi_size c + 1" "csi_size (c\<lparr>private_marker := m\<rparr>) = csi_size c"
  "csi_size (c\<lparr>csi_intermediates := csi_intermediates c @ [n]\<rparr>) = csi_size c + 1"
  by (simp_all add: csi_size_def push_digit_def push_colon_def push_semicolon_def close_group_def)

lemma retained_recover [simp]: "retained (recover_to_ground p) = 0" "retained (start_new_sequence p) = 0"
  by (simp_all add: retained_def recover_to_ground_def start_new_sequence_def)

text \<open>The states in which a byte may be kept, and those that start with nothing kept of an escape or CSI sequence.\<close>

definition collecting :: "parser_state \<Rightarrow> bool" where
  "collecting st \<longleftrightarrow> st \<in> {Escape, EscapeIntermediate, CsiEntry, CsiParamState, CsiIntermediate, OscString, OscEscPending}"

definition memory_ok :: "ansi_parser \<Rightarrow> bool" where
  "memory_ok p \<longleftrightarrow>
     retained p \<le> unknown_sequence_byte_limit p \<and> ignore_byte_count p \<le> unknown_sequence_byte_limit p \<and>
     (collecting (pstate p) \<longrightarrow> retained p \<le> ignore_byte_count p) \<and>
     (pstate p \<in> {Escape, OscString, OscEscPending, OscIgnore} \<longrightarrow> escape_intermediates p = [] \<and> csi_size (csi p) = 0) \<and>
     (pstate p = OscIgnore \<longrightarrow> osc_body p = []) \<and> length (utf8_buf p) \<le> 3"

lemma memory_okI:
  assumes "retained p = 0" "ignore_byte_count p = 0" "length (utf8_buf p) \<le> 3"
  shows "memory_ok p"
  using assms by (simp add: memory_ok_def retained_def)

lemma memory_ok_ground:
  assumes "utf8_buf p = []"
  shows "memory_ok (recover_to_ground p)" "memory_ok (start_new_sequence p)"
  using assms by (auto intro!: memory_okI simp: recover_to_ground_def start_new_sequence_def retained_def)

lemma memory_ok_recover: "length (utf8_buf p) \<le> 3 \<Longrightarrow> memory_ok (recover_to_ground p)"
  by (rule memory_okI) (simp_all add: recover_to_ground_def retained_def)

text \<open>A byte within budget leaves room for one more.\<close>

lemma spend_budget_within:
  assumes "memory_ok p" "spend_budget p = (q, False)"
  shows "memory_ok q \<and> (collecting (pstate q) \<longrightarrow> retained q + 1 \<le> ignore_byte_count q)"
  using assms
  by (cases "pstate p")
     (auto simp: spend_budget_def memory_ok_def collecting_def retained_def Let_def split: if_splits)

lemma spend_budget_over:
  assumes "memory_ok p" "spend_budget p = (q, True)"
  shows "memory_ok q"
  using assms
  by (cases "pstate p")
     (auto simp: spend_budget_def memory_ok_def collecting_def retained_def Let_def split: if_splits)

lemma push_text_byte_memory: "length (utf8_buf (push_text_byte b p)) \<le> max 3 (length (utf8_buf p))"
  by (auto simp: push_text_byte_def split: prod.split dest: try_decode_pending)

lemma memory_ok_same:
  assumes "memory_ok p" "pstate p' = Ground" "retained p' = retained p" "ignore_byte_count p' = ignore_byte_count p"
    "unknown_sequence_byte_limit p' = unknown_sequence_byte_limit p" "length (utf8_buf p') \<le> 3"
  shows "memory_ok p'"
  using assms by (simp add: memory_ok_def collecting_def)

lemma feed_ground_memory:
  assumes "memory_ok p" "pstate p = Ground" "feed_ground b p = (p', es)"
  shows "memory_ok p'"
proof -
  have push: "memory_ok (push_text_byte b p)"
    using assms(1,2) push_text_byte_memory [of b p]
    by (intro memory_ok_same [OF assms(1)]) (auto simp: memory_ok_def push_text_byte_def retained_def split: prod.splits)
  have flush: "memory_ok p'" if "flush_then evs p = (p', es)" for evs es
  proof -
    obtain q fs where f: "flush_text_run p = (q, fs)" by fastforce
    then have "p' = p\<lparr>text_run := [], utf8_buf := []\<rparr>"
      using that flush_text_run_explode [OF f] by (auto simp: flush_then_def)
    then show ?thesis using assms(2) by (intro memory_ok_same [OF assms(1)]) (simp_all add: retained_def)
  qed
  show ?thesis
    using assms(1,3) push flush unfolding feed_ground_def Let_def by (simp split: if_split_asm)
qed

lemma dispatch_recover_memory:
  assumes "memory_ok p"
  shows "dispatch_and_recover b p = (p', es) \<Longrightarrow> memory_ok p'"
    "(case dispatch_osc p of (q, es) \<Rightarrow> (recover_to_ground q, es)) = (p', es) \<Longrightarrow> memory_ok p'"
proof -
  have pending: "length (utf8_buf p) \<le> 3" using assms by (simp add: memory_ok_def)
  show "dispatch_and_recover b p = (p', es) \<Longrightarrow> memory_ok p'"
    using pending dispatch_csi_text [of b p]
    by (auto simp: dispatch_and_recover_def same_text_def intro!: memory_ok_recover split: prod.splits)
  show "(case dispatch_osc p of (q, es) \<Rightarrow> (recover_to_ground q, es)) = (p', es) \<Longrightarrow> memory_ok p'"
    using pending dispatch_osc_text [of p] by (auto simp: same_text_def intro!: memory_ok_recover split: prod.splits)
qed

text \<open>A byte that is kept, or that only moves the state on.\<close>

lemma keep_if: "memory_ok (fst x) \<Longrightarrow> memory_ok (fst y) \<Longrightarrow> memory_ok (fst (if c then x else y))"
  by simp

lemma memory_ok_grow:
  assumes "memory_ok p" "retained p + 1 \<le> ignore_byte_count p"
    and "retained p' \<le> retained p + 1" "ignore_byte_count p' = ignore_byte_count p"
    "unknown_sequence_byte_limit p' = unknown_sequence_byte_limit p" "utf8_buf p' = utf8_buf p"
    and "pstate p' \<in> {Escape, OscString, OscEscPending, OscIgnore} \<Longrightarrow> escape_intermediates p' = [] \<and> csi_size (csi p') = 0"
    and "pstate p' \<noteq> OscIgnore"
  shows "memory_ok p'"
  using assms by (simp add: memory_ok_def)

lemma keep_csi:
  assumes "memory_ok p" "retained p + 1 \<le> ignore_byte_count p"
  shows "csi_size c \<le> csi_size (csi p) + 1 \<Longrightarrow> st \<in> {CsiEntry, CsiParamState, CsiIntermediate, CsiIgnore} \<Longrightarrow>
      memory_ok (p\<lparr>csi := c, pstate := st\<rparr>)"
    "csi_size c \<le> csi_size (csi p) + 1 \<Longrightarrow> pstate p = CsiParamState \<or> pstate p = CsiIntermediate \<Longrightarrow> memory_ok (p\<lparr>csi := c\<rparr>)"
    "st \<in> {CsiIgnore, DcsEntry, SosPmApcString} \<Longrightarrow> memory_ok (p\<lparr>pstate := st\<rparr>)"
  by (rule memory_ok_grow [OF assms]; force simp: retained_def)+

lemma keep_escape:
  assumes "memory_ok p" "retained p + 1 \<le> ignore_byte_count p"
  shows "memory_ok (p\<lparr>escape_intermediates := escape_intermediates p @ [n], pstate := EscapeIntermediate\<rparr>)"
    "pstate p = EscapeIntermediate \<Longrightarrow> memory_ok (p\<lparr>escape_intermediates := escape_intermediates p @ [n]\<rparr>)"
    "memory_ok (recover_to_ground p)"
proof -
  show "memory_ok (p\<lparr>escape_intermediates := escape_intermediates p @ [n], pstate := EscapeIntermediate\<rparr>)"
    by (rule memory_ok_grow [OF assms]; simp add: retained_def)
  show "pstate p = EscapeIntermediate \<Longrightarrow> memory_ok (p\<lparr>escape_intermediates := escape_intermediates p @ [n]\<rparr>)"
    by (rule memory_ok_grow [OF assms]; simp add: retained_def)
  show "memory_ok (recover_to_ground p)" using assms(1) memory_ok_recover by (simp add: memory_ok_def)
qed

lemma keep_osc:
  assumes "memory_ok p" "retained p + 1 \<le> ignore_byte_count p"
  shows "pstate p = Escape \<Longrightarrow> memory_ok (p\<lparr>osc_body := [], pstate := OscString\<rparr>)"
    "pstate p = OscString \<Longrightarrow> memory_ok (p\<lparr>osc_body := osc_body p @ [b]\<rparr>)"
    "pstate p = OscString \<Longrightarrow> memory_ok (p\<lparr>pstate := OscEscPending\<rparr>)"
proof -
  have clear: "pstate p = Escape \<or> pstate p = OscString \<Longrightarrow> escape_intermediates p = [] \<and> csi_size (csi p) = 0"
    using assms(1) by (auto simp: memory_ok_def)
  show "pstate p = Escape \<Longrightarrow> memory_ok (p\<lparr>osc_body := [], pstate := OscString\<rparr>)"
    by (rule memory_ok_grow [OF assms]; simp add: retained_def clear)
  show "pstate p = OscString \<Longrightarrow> memory_ok (p\<lparr>osc_body := osc_body p @ [b]\<rparr>)"
    by (rule memory_ok_grow [OF assms]; simp add: retained_def clear)
  show "pstate p = OscString \<Longrightarrow> memory_ok (p\<lparr>pstate := OscEscPending\<rparr>)"
    by (rule memory_ok_grow [OF assms]; simp add: retained_def clear)
qed

lemma dispatch_keep:
  assumes "memory_ok p"
  shows "memory_ok (fst (dispatch_and_recover b p))"
    "memory_ok (fst (case dispatch_osc p of (q, es) \<Rightarrow> (recover_to_ground q, es)))"
  using dispatch_recover_memory [OF assms] by (metis prod.collapse)+

lemma feed_csi_memory:
  assumes "memory_ok p" "retained p + 1 \<le> ignore_byte_count p"
  shows "pstate p = CsiEntry \<Longrightarrow> memory_ok (fst (feed_csi_entry b p))"
    "pstate p = CsiParamState \<Longrightarrow> memory_ok (fst (feed_csi_param b p))"
    "pstate p = CsiIntermediate \<Longrightarrow> memory_ok (fst (feed_csi_intermediate b p))"
  unfolding feed_csi_entry_def feed_csi_param_def feed_csi_intermediate_def Let_def
  by (intro keep_if dispatch_keep [OF assms(1)];
      simp add: keep_csi [OF assms] csi_size_steps)+

lemma feed_escape_memory:
  assumes "memory_ok p" "retained p + 1 \<le> ignore_byte_count p"
  shows "pstate p = Escape \<Longrightarrow> memory_ok (fst (feed_escape b p))"
    "pstate p = EscapeIntermediate \<Longrightarrow> memory_ok (fst (feed_escape_intermediate b p))"
    "pstate p = OscString \<Longrightarrow> memory_ok (fst (feed_osc_string b p))"
  unfolding feed_escape_def feed_escape_intermediate_def feed_osc_string_def Let_def
  by (intro keep_if dispatch_keep [OF assms(1)];
      simp add: keep_csi [OF assms] keep_escape [OF assms] keep_osc [OF assms] assms(1))+

lemma feed_ignore_memory:
  assumes "memory_ok p"
  shows "memory_ok (feed_escape_ignore b p)" "memory_ok (feed_csi_ignore b p)"
    "pstate p = OscIgnore \<Longrightarrow> memory_ok (feed_osc_ignore b p)"
proof -
  have recover: "memory_ok (recover_to_ground p)" using assms memory_ok_recover [of p] by (simp add: memory_ok_def)
  then show "memory_ok (feed_escape_ignore b p)" "memory_ok (feed_csi_ignore b p)"
    using assms by (simp_all add: feed_escape_ignore_def feed_csi_ignore_def)
  have "memory_ok (p\<lparr>pstate := OscEscPending\<rparr>)" if "pstate p = OscIgnore"
    using assms that by (simp add: memory_ok_def retained_def)
  then show "pstate p = OscIgnore \<Longrightarrow> memory_ok (feed_osc_ignore b p)"
    using assms recover by (simp add: feed_osc_ignore_def)
qed

lemma feed_state_memory:
  assumes "memory_ok p" "collecting (pstate p) \<longrightarrow> retained p + 1 \<le> ignore_byte_count p"
  shows "memory_ok (fst (feed_state b p))"
proof -
  have ground: "pstate p = Ground \<Longrightarrow> memory_ok (fst (feed_ground b p))"
    using feed_ground_memory [OF assms(1)] by (metis prod.collapse)
  show ?thesis
    using assms(2) ground
    by (cases "pstate p")
       (simp_all add: feed_state_def collecting_def feed_csi_memory feed_escape_memory feed_ignore_memory dispatch_keep assms(1))
qed

lemma feed_byte_memory:
  assumes "memory_ok p"
  shows "memory_ok (fst (feed_byte b p))"
  using assms
proof (rule feed_byte_invariant)
  fix p q es assume "flush_text_run p = (q, es)"
  then show "memory_ok (start_new_sequence q) \<and> memory_ok (recover_to_ground q)"
    using flush_text_run_text memory_ok_ground by blast
next
  fix p q assume "memory_ok p" and sb: "spend_budget p = (q, False)" and "pstate q = OscEscPending"
  then show "memory_ok (q\<lparr>osc_body := [], ignore_byte_count := 0, pstate := Escape\<rparr>)"
    using spend_budget_within [of p q] by (intro memory_okI) (auto simp: memory_ok_def retained_def)
next
  fix b p q p' es assume "memory_ok p" "spend_budget p = (q, False)" "feed_state b q = (p', es)"
  then show "memory_ok p'" using spend_budget_within [of p q] feed_state_memory [of q b] by simp
qed (rule spend_budget_over)

lemma feed_bytes_memory: "memory_ok p \<Longrightarrow> memory_ok (fst (feed_bytes bs p))"
  by (induction bs arbitrary: p) (simp_all split: prod.split, metis feed_byte_memory fst_conv)

lemma feed_memory:
  assumes "memory_ok p" "feed bs p = (p', es)"
  shows "memory_ok p' \<and> text_run p' = []"
proof -
  obtain q f where q: "feed_bytes bs p = (q, f)" by fastforce
  then have "p' = q\<lparr>text_run := []\<rparr>" using assms(2) emit_text_run_explode by (auto simp: feed_def split: prod.splits)
  moreover have "memory_ok q" using feed_bytes_memory [OF assms(1), of bs] q by simp
  ultimately show ?thesis by (simp add: memory_ok_def retained_def)
qed

lemma feed_chunks_memory:
  "memory_ok p \<Longrightarrow> text_run p = [] \<Longrightarrow> feed_chunks cs p = (p', es) \<Longrightarrow> memory_ok p' \<and> text_run p' = []"
  by (induction cs arbitrary: p es) (auto split: prod.splits dest: feed_memory)

lemma memory_ok_new [simp]: "memory_ok (with_profile_and_config prof limit)"
  by (simp add: memory_ok_def with_profile_and_config_def retained_def collecting_def)

text \<open>The limit itself is fixed.\<close>

lemma flush_text_run_limit:
  "flush_text_run p = (q, es) \<Longrightarrow> unknown_sequence_byte_limit q = unknown_sequence_byte_limit p"
  using flush_text_run_explode by fastforce

lemma feed_ground_limit:
  "feed_ground b p = (p', es) \<Longrightarrow> unknown_sequence_byte_limit p' = unknown_sequence_byte_limit p"
  by (auto simp: feed_ground_def flush_then_def push_text_byte_def Let_def split: if_splits prod.splits
      dest: flush_text_run_limit)

lemma feed_state_limit:
  "feed_state b p = (p', es) \<Longrightarrow> unknown_sequence_byte_limit p' = unknown_sequence_byte_limit p"
  using feed_state_text [of b p p' es] feed_ground_limit [of b p p' es]
  by (cases "pstate p = Ground") (simp_all add: same_text_def feed_state_def)

lemma feed_byte_limit:
  assumes "unknown_sequence_byte_limit p = limit"
  shows "unknown_sequence_byte_limit (fst (feed_byte b p)) = limit"
  using assms
  by (rule feed_byte_invariant)
     (auto simp: start_new_sequence_def recover_to_ground_def same_text_def
       dest!: flush_text_run_limit feed_state_limit spend_budget_text)

lemma feed_bytes_limit: "unknown_sequence_byte_limit (fst (feed_bytes bs p)) = unknown_sequence_byte_limit p"
  by (induction bs arbitrary: p) (simp_all split: prod.split, metis feed_byte_limit fst_conv)

lemma feed_chunks_limit: "unknown_sequence_byte_limit (fst (feed_chunks cs p)) = unknown_sequence_byte_limit p"
proof (induction cs arbitrary: p)
  case (Cons c cs)
  have "unknown_sequence_byte_limit (fst (feed c p)) = unknown_sequence_byte_limit p"
    using feed_bytes_limit [of c p] by (auto simp: feed_def emit_text_run_def split: prod.split)
  moreover obtain q es where "feed c p = (q, es)" by fastforce
  ultimately show ?case using Cons.IH [of q] by (simp split: prod.split) (metis fst_conv)
qed simp

section \<open>Control strings without a terminator\<close>

definition swallows :: "parser_state \<Rightarrow> bool" where
  "swallows st \<longleftrightarrow> st \<in> {DcsEntry, DcsParam, DcsIntermediate, DcsPassthrough, DcsIgnore, SosPmApcString}"

definition interrupting :: "byte \<Rightarrow> bool" where
  "interrupting b \<longleftrightarrow> b = 27 \<or> b = 24 \<or> b = 26"

lemma feed_byte_swallows:
  assumes "swallows (pstate p)" "\<not> interrupting b"
  shows "snd (feed_byte b p) = [] \<and> swallows (pstate (fst (feed_byte b p)))"
proof -
  obtain q s where sb: "spend_budget p = (q, s)" by fastforce
  have "swallows (pstate q)"
    using sb assms(1) by (cases "pstate p") (auto simp: swallows_def spend_budget_def Let_def split: if_splits)
  then show ?thesis
    using assms feed_byte_budgeted [OF _ _ sb, of b]
    by (cases "pstate q") (auto simp: swallows_def interrupting_def feed_state_def)
qed

lemma feed_bytes_swallows:
  "swallows (pstate p) \<Longrightarrow> list_all (\<lambda>b. \<not> interrupting b) bs \<Longrightarrow>
   snd (feed_bytes bs p) = [] \<and> swallows (pstate (fst (feed_bytes bs p)))"
proof (induction bs arbitrary: p)
  case (Cons b bs)
  obtain q es where "feed_byte b p = (q, es)" by fastforce
  then show ?case
    using Cons.prems feed_byte_swallows [of p b] Cons.IH [of q] by (simp split: prod.split)
qed simp

lemma feed_swallows:
  assumes "1 \<le> limit" "list_all (\<lambda>b. \<not> interrupting b) bs"
  shows "snd (feed ([27, 80] @ bs) (with_profile_and_config prof limit)) = []"
proof -
  let ?p = "with_profile_and_config prof limit"
  have esc: "feed_byte 27 ?p = (start_new_sequence ?p, [])"
    by (rule feed_byte_interrupt(1))
       (simp_all add: flush_text_run_def flush_pending_utf8_as_replacement_def emit_text_run_def with_profile_and_config_def)
  obtain q where q: "feed_byte 80 (start_new_sequence ?p) = (q, [])" "pstate q = DcsEntry"
    using assms(1) by (simp add: feed_byte.simps spend_budget_def start_new_sequence_def with_profile_and_config_def feed_escape_def)
  obtain r es where r: "feed_bytes bs q = (r, es)" by fastforce
  have "es = []" "swallows (pstate r)" using feed_bytes_swallows [OF _ assms(2), of q] q(2) r by (simp_all add: swallows_def)
  moreover have "run_inv r"
    using feed_bytes_run_inv [of ?p "[27, 80] @ bs"] esc q(1) r by (simp add: run_inv_def with_profile_and_config_def)
  then have "text_run r = []" using \<open>swallows (pstate r)\<close> by (auto simp: run_inv_def swallows_def)
  ultimately show ?thesis using esc q(1) r by (simp add: feed_def emit_text_run_def)
qed

end
