(* ===== verification/Terminal_Properties.thy ===== *)
theory Terminal_Properties
  imports Terminal_Safety Terminal_Frame Ansi_Bounds "HOL-Library.Code_Target_Nat"
begin

text \<open>The properties of the embedded terminal: the bytes of a process through the parser onto the screen.\<close>

section \<open>Runs of events\<close>

lemma write_text_append: "write_text u (xs @ ys) s = do { s' \<leftarrow> write_text u xs s; write_text u ys s' }"
  by (induction xs arbitrary: s) (auto split: Option.bind_splits)

lemma apply_events_append:
  "apply_events u now (es @ fs) s = do {
     (s1, r1) \<leftarrow> apply_events u now es s;
     (s2, r2) \<leftarrow> apply_events u now fs s1;
     Some (s2, r1 @ r2)
   }"
  by (induction es arbitrary: s) (auto split: Option.bind_splits)

lemma apply_event_text: "apply_event u now (Text t) s = map_option (\<lambda>s'. (s', None)) (write_text u t s)"
  by (cases "write_text u t s") (simp_all add: apply_event_def event_effect_def is_text_def)

lemma apply_events_chars: "apply_events u now (chars t) s = map_option (\<lambda>s'. (s', [])) (write_text u t s)"
proof (induction t arbitrary: s)
  case (Cons c t)
  have "chars (c # t) = Text [c] # chars t" by (simp add: chars_def)
  then show ?case
    using Cons.IH by (cases "write_char u c s") (auto simp: apply_event_text split: Option.bind_splits)
qed simp

text \<open>Taking the text events apart does not change what they do.\<close>

lemma apply_events_explode: "apply_events u now (explode es) s = apply_events u now es s"
proof (induction es arbitrary: s)
  case (Cons e es)
  have one: "apply_events u now (explode [e]) s = apply_events u now [e] s" for s
  proof (cases e)
    case (Text t)
    then show ?thesis by (cases "write_text u t s") (simp_all add: apply_events_chars apply_event_text)
  qed (simp_all add: explode_def)
  have "explode (e # es) = explode [e] @ explode es" by (simp add: explode_def)
  then show ?case
    using Cons.IH one apply_events_append [of u now "[e]" es s] by (simp add: apply_events_append del: apply_events.simps)
qed simp

lemma run_inv_new [simp]: "run_inv (with_profile_and_config prof limit)" "text_run (with_profile_and_config prof limit) = []"
  by (simp_all add: run_inv_def with_profile_and_config_def)

section \<open>Shape and safety\<close>

text \<open>
  C19. Every event keeps the screen well-formed and cannot panic: the grids stay rectangular and of the same size,
  the cursor, margins, tab stops and remembered grapheme stay on the screen and the history within its budget;
  for text this needs automatic wrapping off or the scrolling region to end on the last row.
\<close>

theorem terminal_event_keeps_shape:
  assumes "screen_ok s" and "is_text ev \<longrightarrow> wrap_safe s"
  shows "\<exists>s' reply. apply_event u now ev s = Some (s', reply) \<and> screen_ok s' \<and> scr_size s' = scr_size s"
  using apply_event_ok [OF assms, of u now] by (auto simp: event_post_def elim: returnsE)

definition narrow :: unicode where
  "narrow = \<lparr>char_width = (\<lambda>_. Some 1), str_width = length, one_grapheme = (\<lambda>_. False)\<rparr>"

definition fresh :: "nat \<Rightarrow> nat \<Rightarrow> screen" where
  "fresh nr n = (case screen_new \<lparr>size_rows = nr, size_cols = n\<rparr> 100 of Inr s \<Rightarrow> s)"

lemma fresh_new:
  "nr \<in> {1..512} \<Longrightarrow> n \<in> {1..512} \<Longrightarrow> nr * n \<le> 262144 \<Longrightarrow>
   screen_new \<lparr>size_rows = nr, size_cols = n\<rparr> 100 = Inr (fresh nr n)"
  by (auto simp: fresh_def screen_new_def validate_size_def MAX_TERMINAL_ROWS_def MAX_TERMINAL_COLS_def
      MAX_TERMINAL_VISIBLE_CELLS_def split: prod.split)

lemma fresh_ok:
  assumes "nr \<in> {1..512}" "n \<in> {1..512}" "nr * n \<le> 262144"
  shows "screen_ok (fresh nr n)" "scroll_bottom (fresh nr n) + 1 = nrows (fresh nr n)" "nrows (fresh nr n) = nr"
  using screen_new_ok [OF fresh_new [OF assms]] by simp_all

lemma screen_new_fields:
  assumes "screen_new sz sb = Inr s"
  shows "scr_size s = sz" "modes s = default_modes" "last_grapheme s = None" "cursor s = default_cursor"
    "scroll_top s = 0" "scroll_bottom s = size_rows sz - 1"
  using assms by (auto simp: screen_new_def split: if_splits prod.splits)

lemma fresh_fields:
  assumes "nr \<in> {1..512}" "n \<in> {1..512}" "nr * n \<le> 262144"
  shows "scr_size (fresh nr n) = \<lparr>size_rows = nr, size_cols = n\<rparr>" "modes (fresh nr n) = default_modes"
    "last_grapheme (fresh nr n) = None" "cursor (fresh nr n) = default_cursor" "scroll_top (fresh nr n) = 0"
    "scroll_bottom (fresh nr n) = nr - 1"
  using screen_new_fields [OF fresh_new [OF assms]] by simp_all

theorem terminal_event_keeps_shape_witness:
  "\<exists>s' reply. apply_event narrow 0 (Text [97, 98, 99]) (fresh 3 2) = Some (s', reply) \<and> screen_ok s' \<and>
     scr_size s' = scr_size (fresh 3 2)"
  using fresh_ok [of 3 2] by (intro terminal_event_keeps_shape) (simp_all add: wrap_safe_def)

text \<open>
  C18. From the process to the screen: whatever bytes a process writes to a fresh terminal, in whatever reads,
  handling them does not panic and leaves a well-formed screen of the same size, provided no accepted scrolling
  region ends above the last row.
\<close>

theorem terminal_output_never_panics:
  assumes "screen_new sz sb = Inr s" and "feed_chunks reads (with_profile FullScreen) = (p, evs)"
    and "\<forall>ev \<in> set evs. ends_at_bottom (size_rows sz) ev"
  shows "\<exists>s' replies. apply_events u now evs s = Some (s', replies) \<and> screen_ok s' \<and> scr_size s' = sz"
  using screen_new_ok [OF assms(1)] assms(3) apply_events_ok [of s evs u now] by (auto elim: returnsE)

text \<open>The escape sequence for a red \<open>A\<close>, cut in the middle.\<close>

lemma char_of_m [simp]: "char_of (109 :: nat) = CHR ''m''"
  by code_simp

lemma red_letter_events:
  "feed_chunks [[27, 91, 51], [49, 109, 65]] (with_profile FullScreen) =
     ((with_profile FullScreen)\<lparr>current_style := default_style\<lparr>fg := Indexed 1\<rparr>, emitted_style := default_style\<lparr>fg := Indexed 1\<rparr>\<rparr>,
      [SetStyle (default_style\<lparr>fg := Indexed 1\<rparr>), Text [65]])"
  by (simp add: feed_def feed_byte.simps with_profile_def with_profile_and_config_def default_limit_def flush_text_run_def
      flush_pending_utf8_as_replacement_def emit_text_run_def start_new_sequence_def recover_to_ground_def spend_budget_def
      feed_escape_def feed_csi_entry_def feed_csi_param_def push_digit_def push_decimal_def unwrap_or_def U32_MAX_def csi_reset_def
      dispatch_and_recover_def dispatch_csi_def csi_finalize_def close_group_def dispatch_sgr_def sgr_one_def emit_set_style_def
      suppress_visible_def push_visible_def feed_ground_def push_text_byte_def Let_def)

theorem terminal_output_never_panics_witness:
  "\<exists>s' replies. apply_events narrow 0 [SetStyle (default_style\<lparr>fg := Indexed 1\<rparr>), Text [65]] (fresh 3 2) = Some (s', replies) \<and>
     screen_ok s' \<and> scr_size s' = \<lparr>size_rows = 3, size_cols = 2\<rparr>"
  by (rule terminal_output_never_panics [OF fresh_new red_letter_events]) simp_all

text \<open>
  C20. How the output of a process is cut into reads does not matter: the parser ends in the same state, and the
  events have the same effect on the screen and the same replies.
\<close>

theorem terminal_reads_irrelevant:
  assumes "feed_chunks reads (with_profile_and_config prof limit) = (p, evs)"
  shows "fst (feed (concat reads) (with_profile_and_config prof limit)) = p \<and>
     apply_events u now (snd (feed (concat reads) (with_profile_and_config prof limit))) s = apply_events u now evs s"
proof -
  obtain p2 e2 where f: "feed (concat reads) (with_profile_and_config prof limit) = (p2, e2)" by fastforce
  have "p2 = p \<and> explode e2 = explode evs" using feed_chunks_concat [OF _ _ assms f] by simp
  then show ?thesis using f apply_events_explode [of u now e2 s] apply_events_explode [of u now evs s] by simp
qed

theorem terminal_reads_irrelevant_witness:
  "apply_events narrow 0 (snd (feed [27, 91, 51, 49, 109, 65] (with_profile FullScreen))) (fresh 3 2) =
   apply_events narrow 0 [SetStyle (default_style\<lparr>fg := Indexed 1\<rparr>), Text [65]] (fresh 3 2)"
  using terminal_reads_irrelevant [OF red_letter_events [unfolded with_profile_def], of narrow 0 "fresh 3 2"]
  by (simp add: with_profile_def)

text \<open>
  C21. What the parser remembers between reads is bounded by its configuration, whatever the input: the collected
  parameters, intermediates and string bytes of an unfinished sequence together stay within the byte limit, at
  most three bytes of a character are pending, and no decoded text is held back.
\<close>

theorem parser_memory_bounded:
  "retained (fst (feed_chunks reads (with_profile_and_config prof limit))) \<le> limit \<and>
   length (utf8_buf (fst (feed_chunks reads (with_profile_and_config prof limit)))) \<le> 3 \<and>
   text_run (fst (feed_chunks reads (with_profile_and_config prof limit))) = []"
proof -
  obtain p evs where f: "feed_chunks reads (with_profile_and_config prof limit) = (p, evs)" by fastforce
  have "unknown_sequence_byte_limit p = limit"
    using feed_chunks_limit [of reads "with_profile_and_config prof limit"] f by (simp add: with_profile_and_config_def)
  moreover have "memory_ok p \<and> text_run p = []" using feed_chunks_memory [OF memory_ok_new _ f] by simp
  ultimately show ?thesis using f by (auto simp: memory_ok_def)
qed

text \<open>
  A device control string without a terminator swallows everything: after \<^verbatim>\<open>ESC P\<close> no number of bytes other
  than \<^verbatim>\<open>ESC\<close>, \<^verbatim>\<open>CAN\<close> and \<^verbatim>\<open>SUB\<close> produces an event, although the configured byte limit is documented to force the
  parser back to ordinary text.
\<close>

theorem control_string_swallows:
  assumes "1 \<le> limit" and "list_all (\<lambda>b. \<not> interrupting b) bs"
  shows "snd (feed ([27, 80] @ bs) (with_profile_and_config prof limit)) = []"
  by (rule feed_swallows [OF assms])

theorem control_string_swallows_witness:
  "snd (feed ([27, 80] @ replicate 5000 97) (with_profile_and_config FullScreen 1024)) = []"
  by (rule control_string_swallows) (simp_all add: list_all_iff interrupting_def)

section \<open>Synchronized output\<close>

lemma held_views:
  assumes "synchronized_output (modes s)" "held s' = held s"
  shows "snapshot s' = snapshot s \<and> projection s' = projection s \<and> synchronized_output (modes s')"
  using assms by (simp add: snapshot_def projection_def held_def)

text \<open>Turning it on shows what was shown before, and turning it on again does nothing.\<close>

lemma set_synchronized_on:
  fixes now :: nat and s :: screen
  defines "t \<equiv> set_mode now SynchronizedOutput True s"
  shows "synchronized_output (modes t)" "snapshot t = snapshot s" "projection t = projection s"
    "sync_started t = (if synchronized_output (modes s) then sync_started s else Some now)"
  by (simp_all add: t_def set_mode_def set_synchronized_def Let_def)
    (simp_all add: changed_def no_wrap_def publish_def snapshot_def projection_def current_projection_def current_snapshot_def
      snapshot_from_projection_def published_cursor_def active_def)

lemma current_snapshot_fields:
  "current_snapshot (s\<lparr>last_grapheme := g\<rparr>) = current_snapshot s" "current_projection (s\<lparr>last_grapheme := g\<rparr>) = current_projection s"
  "snapshot (s\<lparr>last_grapheme := g\<rparr>) = snapshot s" "projection (s\<lparr>last_grapheme := g\<rparr>) = projection s"
  by (simp_all add: current_snapshot_def current_projection_def snapshot_def projection_def published_cursor_def active_def)

text \<open>
  C22. Synchronized output holds the frame. From the event that turns it on, any run of events that does not turn it off,
  a repeated request to turn it on included, leaves the snapshot and the projection handed to the renderers as they
  were before that event, and the watchdog's clock at the time of the first request. This needs nothing of the screen: as
  long as the events return, they hold the frame. The event that turns it off, the end of the output and the watchdog
  after a second bring back the current screen.
\<close>

theorem synchronized_output_holds_frame:
  assumes "\<forall>ev \<in> set evs. ev \<noteq> SetMode SynchronizedOutput False"
    and "apply_events u now (SetMode SynchronizedOutput True # evs) s = Some (s', replies)"
  shows "snapshot s' = snapshot s \<and> projection s' = projection s \<and> synchronized_output (modes s') \<and>
     sync_started s' = (if synchronized_output (modes s) then sync_started s else Some now) \<and>
     (\<exists>t. apply_event u now (SetMode SynchronizedOutput False) s' = Some (t, None) \<and> snapshot t = current_snapshot t \<and>
        projection t = current_projection t \<and> active_rows t = active_rows s') \<and>
     snapshot (finish_output s') = current_snapshot s' \<and> projection (finish_output s') = current_projection s' \<and>
     (\<forall>start t. sync_started s' = Some start \<longrightarrow>
        (case synchronized_watchdog_expired t s' of (s'', fired) \<Rightarrow>
           if start + SYNCHRONIZED_OUTPUT_WATCHDOG \<le> t
           then fired \<and> snapshot s'' = current_snapshot s' \<and> projection s'' = current_projection s'
           else \<not> fired \<and> s'' = s'))"
proof -
  define s1 where "s1 = set_mode now SynchronizedOutput True (s\<lparr>last_grapheme := None\<rparr>)"
  note on = set_synchronized_on [of now "s\<lparr>last_grapheme := None\<rparr>", folded s1_def]
  obtain replies' where run: "apply_events u now evs s1 = Some (s', replies')"
    using assms(2) by (auto simp: apply_event_def event_effect_def is_text_def bind_eq_Some_conv s1_def)
  have h: "held s' = held s1" by (rule apply_events_held [OF on(1) _ run]) (use assms(1) in \<open>auto simp: ends_synchronized_def\<close>)
  have views: "snapshot s' = snapshot s" "projection s' = projection s" "synchronized_output (modes s')"
    using held_views [OF on(1) h] unfolding on current_snapshot_fields by simp_all
  have "sync_started s' = sync_started s1" using h by (simp add: held_def)
  then have started: "sync_started s' = (if synchronized_output (modes s) then sync_started s else Some now)" unfolding on by simp
  have off: "\<exists>t. apply_event u now (SetMode SynchronizedOutput False) s' = Some (t, None) \<and> snapshot t = current_snapshot t \<and>
        projection t = current_projection t \<and> active_rows t = active_rows s'"
    by (simp add: apply_event_def event_effect_def is_text_def set_mode_def set_synchronized_def Let_def)
      (simp add: changed_def no_wrap_def publish_def snapshot_def projection_def active_def)
  have finish: "snapshot (finish_output s') = current_snapshot s'" "projection (finish_output s') = current_projection s'"
    using views(3) by (simp_all add: finish_output_def snapshot_def projection_def publish_def current_snapshot_def
        current_projection_def published_cursor_def active_def)
  have watchdog: "case synchronized_watchdog_expired t s' of (s'', fired) \<Rightarrow>
       if start + SYNCHRONIZED_OUTPUT_WATCHDOG \<le> t
       then fired \<and> snapshot s'' = current_snapshot s' \<and> projection s'' = current_projection s' else \<not> fired \<and> s'' = s'"
    if "sync_started s' = Some start" for start t
  proof -
    have "1000 \<le> t - start \<longleftrightarrow> start + 1000 \<le> t" by linarith
    then show ?thesis
      using that by (simp add: synchronized_watchdog_expired_def SYNCHRONIZED_OUTPUT_WATCHDOG_def)
        (simp add: snapshot_def projection_def publish_def current_snapshot_def current_projection_def published_cursor_def active_def)
  qed
  show ?thesis by (intro conjI allI impI) (fact views started off finish watchdog)+
qed

theorem synchronized_output_holds_frame_witness:
  "\<exists>s' replies. apply_events narrow 5 [SetMode SynchronizedOutput True, Text [97], SetMode SynchronizedOutput True] (fresh 3 2) = Some (s', replies) \<and>
     snapshot s' = snapshot (fresh 3 2) \<and> sync_started s' = Some 5"
proof -
  let ?evs = "[SetMode SynchronizedOutput True, Text [97], SetMode SynchronizedOutput True]"
  have fresh: "screen_ok (fresh 3 2)" "scroll_bottom (fresh 3 2) + 1 = nrows (fresh 3 2)" "modes (fresh 3 2) = default_modes"
    using fresh_ok [of 3 2] fresh_fields [of 3 2] by simp_all
  obtain s' replies where run: "apply_events narrow 5 ?evs (fresh 3 2) = Some (s', replies)"
    using apply_events_ok [OF fresh(1,2), of ?evs narrow 5] by (auto elim: returnsE)
  have "\<forall>ev \<in> set [Text [97], SetMode SynchronizedOutput True]. ev \<noteq> SetMode SynchronizedOutput False" by simp
  from synchronized_output_holds_frame [OF this run] show ?thesis
    using run fresh(3) by (auto simp: default_modes_def)
qed

section \<open>Panics\<close>

lemma soft_wrap_panics_iff:
  assumes "screen_ok s"
  shows "soft_wrap s = None \<longleftrightarrow> cur_row (cursor s) + 1 = nrows s \<and> scroll_bottom s + 1 < nrows s"
proof (cases "cur_row (cursor s) = scroll_bottom s \<or> cur_row (cursor s) + 1 < nrows s")
  case True
  then show ?thesis using soft_wrap_step [OF assms] by (auto elim: returnsE)
next
  case False
  note row = row_at_ok [OF screen_okD(1,5) [OF assms]]
  let ?row = "active_rows s ! cur_row (cursor s)"
  obtain s1 where s1: "put_row (cur_row (cursor s)) (?row\<lparr>soft_wrapped := True\<rparr>) s = Some s1" "edits s s1"
    using put_row_edits [OF screen_okD(1,5) [OF assms], of "?row\<lparr>soft_wrapped := True\<rparr>"] row(2) by (auto elim: returnsE)
  have last: "cur_row (cursor s) + 1 = nrows s" "scroll_bottom s + 1 < nrows s"
    using False screen_okD [OF assms] assms by (auto simp: screen_ok_defs)
  have "row_at (cur_row (cursor s) + 1) (move_to (cur_row (cursor s)) 0 False s1) = None"
    using last editsD [OF s1(2)] edits_fields [OF s1(2)] length_active_rows [of s1]
    by (simp add: row_at_def nth_opt_def move_to_def active_def split: if_splits)
  then show ?thesis
    using False last s1(1) row edits_fields [OF s1(2)] by (simp add: soft_wrap_def Let_def)
qed

definition trapped :: screen where
  "trapped = (fresh 3 1)\<lparr>scroll_bottom := 1, cursor := \<lparr>cur_row = 2, cur_col = 0, pending_wrap = True\<rparr>\<rparr>"

text \<open>
  C23. A soft wrap panics exactly when the cursor is on the last row and the scrolling region ends above it: the
  branch that moves to the next row has no bounds check, unlike the line feed. The state is reachable: a region
  over the first two of three rows, the cursor moved to the third and two characters on a single column.
\<close>

theorem soft_wrap_panics_below_region:
  assumes "screen_ok s"
  shows "soft_wrap s = None \<longleftrightarrow> cur_row (cursor s) + 1 = nrows s \<and> scroll_bottom s + 1 < nrows s"
  by (rule soft_wrap_panics_iff [OF assms])

theorem soft_wrap_panics_below_region_witness: "soft_wrap trapped = None"
proof -
  have "screen_ok trapped"
    using fresh_ok(1) [of 3 1] fresh_fields [of 3 1] by (simp add: trapped_def screen_ok_defs default_modes_def)
  then show ?thesis using fresh_fields [of 3 1] by (subst soft_wrap_panics_below_region) (simp_all add: trapped_def)
qed

text \<open>The panic is reachable from a fresh terminal by the events of two control sequences and two letters.\<close>

theorem short_region_output_panics:
  "apply_events narrow 0 [SetScrollingRegion 1 (Some 2), CursorPosition 3 1, Text [97, 98]] (fresh 3 1) = None"
  by code_simp

text \<open>
  Widening the terminal can panic: a line that wrapped below a scrolling region keeps its identity while the
  region scrolls the rows above it, so deleting a line brings two rows of one line together in the wrong order,
  and the reflow subtracts the larger offset from the smaller.
\<close>

theorem resize_after_region_panics:
  "Option.bind
     (apply_events narrow 0
        [CursorPosition 2 1, Text [97, 98], SetScrollingRegion 1 (Some 2), CursorPosition 2 1, Text [97, 97, 97, 97],
         SetScrollingRegion 1 None, CursorPosition 2 1, DeleteLines 1] (fresh 3 1))
     (\<lambda>(s, replies). Some (resize narrow \<lparr>size_rows = 3, size_cols = 2\<rparr> s)) = Some Panic"
  by code_simp

end
