(* ===== verification/Buffer_Names.thy ===== *)
theory Buffer_Names
  imports Utf8 Checked
begin

text \<open>
  The names of path-backed buffers, \<^verbatim>\<open>src/src/buffer_names.rs\<close>. A name and a path are the bytes of their text, as
  in the buffer. The search for a free \<^verbatim>\<open><N>\<close> ends only because the taken names are finite; it is a partial
  function, whose termination is a theorem.
\<close>

section \<open>Paths\<close>

text \<open>
  \<^verbatim>\<open>Path::components\<close> on Unix: the root if the path starts with a slash, then the parts between slashes; empty
  parts are dropped, and so is \<^verbatim>\<open>.\<close> unless it begins a relative path.
\<close>

datatype component = RootDir | CurDir | ParentDir | Normal string

fun split_slash :: "string \<Rightarrow> string list" where
  "split_slash [] = [[]]"
| "split_slash (c # cs) =
     (if c = CHR ''/'' then [] # split_slash cs
      else (case split_slash cs of p # ps \<Rightarrow> (c # p) # ps | [] \<Rightarrow> [[c]]))"

definition component_of :: "string \<Rightarrow> component list" where
  "component_of p =
     (if p = [] \<or> p = ''.'' then [] else if p = ''..'' then [ParentDir] else [Normal p])"

definition path_components :: "string \<Rightarrow> component list" where
  "path_components s =
     (let ps = split_slash s
      in (if take 1 s = ''/'' then [RootDir] else if hd ps = ''.'' then [CurDir] else []) @ concat (map component_of ps))"

text \<open>\<^verbatim>\<open>OsStr::to_string_lossy\<close>.\<close>

definition to_string_lossy :: "string \<Rightarrow> string" where
  "to_string_lossy s =
     map (\<lambda>b. char_of (unat b)) (encode_utf8 (from_utf8_lossy (map (\<lambda>c. of_nat (of_char c)) s)))"

text \<open>The normal components as text.\<close>

definition normal_text :: "component \<Rightarrow> string list" where
  "normal_text c = (case c of Normal p \<Rightarrow> [to_string_lossy p] | _ \<Rightarrow> [])"

definition name_components :: "string \<Rightarrow> string list" where
  "name_components path = concat (map normal_text (path_components path))"

fun join_slash :: "string list \<Rightarrow> string" where
  "join_slash [] = []"
| "join_slash [p] = p"
| "join_slash (p # q # ps) = p @ ''/'' @ join_slash (q # ps)"

definition render :: "string list \<Rightarrow> nat \<Rightarrow> bool \<Rightarrow> string" where
  "render parts depth directory =
     (let name = (if length parts < depth then ''/'' @ join_slash parts else join_slash (drop (length parts - depth) parts))
      in if directory \<and> \<not> (name \<noteq> [] \<and> last name = CHR ''/'') then name @ ''/'' else name)"

record path_names =
  np_path :: string
  np_directory :: bool
  np_names :: "string list"

definition name_path_new :: "string \<Rightarrow> bool \<Rightarrow> path_names" where
  "name_path_new path directory =
     (let parts = name_components path
      in \<lparr>np_path = path, np_directory = directory,
          np_names = map (\<lambda>depth. render parts depth directory) [1..<length parts + 2]\<rparr>)"

definition np_is_of :: "path_names \<Rightarrow> string \<Rightarrow> bool \<Rightarrow> bool" where
  "np_is_of np path directory \<longleftrightarrow> np_directory np = directory \<and> path_components (np_path np) = path_components path"

definition np_group :: "path_names \<Rightarrow> string" where
  "np_group np = hd (np_names np)"

definition np_whole :: "path_names \<Rightarrow> string" where
  "np_whole np = last (np_names np)"

section \<open>The rule\<close>

text \<open>\<^verbatim>\<open>Iterator::position\<close>.\<close>

definition position_of :: "('a \<Rightarrow> bool) \<Rightarrow> 'a list \<Rightarrow> nat option" where
  "position_of P xs = find (\<lambda>i. P (xs ! i)) [0..<length xs]"

definition name_depth :: "path_names \<Rightarrow> (string \<Rightarrow> bool) \<Rightarrow> (string \<Rightarrow> bool) \<Rightarrow> nat" where
  "name_depth np shared reserved =
     (case position_of (\<lambda>n. \<not> shared n \<and> \<not> reserved n) (np_names np) of Some i \<Rightarrow> i | None \<Rightarrow> length (np_names np) - 1)"

fun dec_string :: "nat \<Rightarrow> string" where
  "dec_string n = (if n < 10 then [char_of (48 + n)] else dec_string (n div 10) @ [char_of (48 + n mod 10)])"

declare dec_string.simps [simp del]

definition numbered :: "string \<Rightarrow> nat \<Rightarrow> string" where
  "numbered base n = base @ ''<'' @ dec_string n @ ''>''"

text \<open>\<^verbatim>\<open>str::parse::<usize>\<close>.\<close>

definition is_digit :: "char \<Rightarrow> bool" where
  "is_digit c \<longleftrightarrow> 48 \<le> (of_char c :: nat) \<and> (of_char c :: nat) \<le> 57"

definition decimal_value :: "string \<Rightarrow> nat" where
  "decimal_value ds = foldl (\<lambda>n d. 10 * n + (of_char d - 48)) 0 ds"

definition parse_usize :: "string \<Rightarrow> nat option" where
  "parse_usize s =
     (let ds = (case s of c # cs \<Rightarrow> if c = CHR ''+'' then cs else s | [] \<Rightarrow> s)
      in if ds \<noteq> [] \<and> list_all is_digit ds \<and> decimal_value ds \<le> 18446744073709551615 then Some (decimal_value ds) else None)"

definition strip_prefix :: "string \<Rightarrow> string \<Rightarrow> string option" where
  "strip_prefix p s = (if take (length p) s = p then Some (drop (length p) s) else None)"

definition strip_suffix_char :: "char \<Rightarrow> string \<Rightarrow> string option" where
  "strip_suffix_char c s = (if s \<noteq> [] \<and> last s = c then Some (butlast s) else None)"

definition is_suffixed :: "string \<Rightarrow> string \<Rightarrow> bool" where
  "is_suffixed base name =
     (case Option.bind (Option.bind (Option.bind (strip_prefix base name) (strip_prefix ''<'')) (strip_suffix_char CHR ''>'')) parse_usize of
        Some n \<Rightarrow> 2 \<le> n \<and> length name = length base + length (dec_string n) + 2
      | None \<Rightarrow> False)"

subsection \<open>The holders of one path\<close>

text \<open>
  \<open>keep_base\<close> gives the plain name to the buffer that holds it, or to the first; \<open>keep_suffixed\<close> lets a buffer
  keep a \<^verbatim>\<open><N>\<close> it holds; \<open>number_rest\<close> numbers the others. \<open>used\<close> is the set of names given so far with a suffix.
\<close>

definition keep_base :: "string \<Rightarrow> string list \<Rightarrow> bool \<Rightarrow> string option list" where
  "keep_base base holds base_free =
     (let out = replicate (length holds) None
      in if base_free \<and> holds \<noteq> []
         then out[(case position_of (\<lambda>h. h = base) holds of Some i \<Rightarrow> i | None \<Rightarrow> 0) := Some base] else out)"

fun keep_suffixed ::
    "string \<Rightarrow> (string \<Rightarrow> bool) \<Rightarrow> (string option \<times> string) list \<Rightarrow> string list \<Rightarrow> string option list \<times> string list" where
  "keep_suffixed base taken [] used = ([], used)"
| "keep_suffixed base taken ((slot, held) # rest) used =
     (if slot = None \<and> is_suffixed base held \<and> \<not> taken held \<and> held \<notin> set used
      then (case keep_suffixed base taken rest (held # used) of (out, used') \<Rightarrow> (Some held # out, used'))
      else (case keep_suffixed base taken rest used of (out, used') \<Rightarrow> (slot # out, used')))"

partial_function (option) next_free :: "string \<Rightarrow> (string \<Rightarrow> bool) \<Rightarrow> string list \<Rightarrow> nat \<Rightarrow> nat option" where
  "next_free base taken used n =
     (if \<not> taken (numbered base n) \<and> numbered base n \<notin> set used then Some n else next_free base taken used (n + 1))"

declare next_free.simps [code]

fun number_rest :: "string \<Rightarrow> (string \<Rightarrow> bool) \<Rightarrow> string option list \<Rightarrow> string list \<Rightarrow> nat \<Rightarrow> string list option" where
  "number_rest base taken [] used n = Some []"
| "number_rest base taken (Some name # slots) used n = map_option (\<lambda>names. name # names) (number_rest base taken slots used n)"
| "number_rest base taken (None # slots) used n = do {
     m \<leftarrow> next_free base taken used n;
     names \<leftarrow> number_rest base taken slots (numbered base m # used) (m + 1);
     Some (numbered base m # names)
   }"

definition name_holders :: "string \<Rightarrow> string list \<Rightarrow> bool \<Rightarrow> (string \<Rightarrow> bool) \<Rightarrow> string list option" where
  "name_holders base holds base_free taken =
     (case keep_suffixed base taken (zip (keep_base base holds base_free) holds) [] of
        (out, used) \<Rightarrow> number_rest base taken out used 2)"

subsection \<open>Naming a set at once\<close>

record name_request =
  req_path :: path_names
  req_holds :: string

text \<open>One key per distinct path, in the order of its first request, with the requests that hold it.\<close>

fun collect_keys :: "(nat \<times> name_request) list \<Rightarrow> (path_names \<times> nat list) list \<Rightarrow> (path_names \<times> nat list) list" where
  "collect_keys [] ks = ks"
| "collect_keys ((i, r) # rest) ks =
     collect_keys rest
       (case position_of (\<lambda>(p, members). np_whole p = np_whole (req_path r)) ks of
          Some k \<Rightarrow> ks[k := (fst (ks ! k), snd (ks ! k) @ [i])]
        | None \<Rightarrow> ks @ [(req_path r, [i])])"

definition count_shared :: "path_names list \<Rightarrow> string \<Rightarrow> nat" where
  "count_shared keys n = length (filter (\<lambda>m. m = n) (concat (map np_names keys)))"

definition base_of :: "path_names list \<Rightarrow> (string \<Rightarrow> bool) \<Rightarrow> path_names \<Rightarrow> string" where
  "base_of keys reserved p = np_names p ! name_depth p (\<lambda>n. 1 < count_shared keys n) reserved"

text \<open>\<^verbatim>\<open>for (&i, name) in members.iter().zip(names) { out[i] = Some(name) }\<close>.\<close>

fun store_names :: "(nat \<times> string) list \<Rightarrow> string option list \<Rightarrow> string option list option" where
  "store_names [] out = Some out"
| "store_names ((i, name) # rest) out = do { out' \<leftarrow> upd_opt out i (Some name); store_names rest out' }"

fun name_keys ::
    "name_request list \<Rightarrow> (string \<Rightarrow> bool) \<Rightarrow> string list \<Rightarrow> (string \<times> nat list) list \<Rightarrow> string option list \<Rightarrow>
     string option list option" where
  "name_keys reqs reserved bases [] out = Some out"
| "name_keys reqs reserved bases ((base, members) # ks) out = do {
     names \<leftarrow> name_holders base (map (\<lambda>i. req_holds (reqs ! i)) members) (\<not> reserved base)
                (\<lambda>n. reserved n \<or> n \<in> set bases);
     out' \<leftarrow> store_names (zip members names) out;
     name_keys reqs reserved bases ks out'
   }"

definition derive_names :: "name_request list \<Rightarrow> (string \<Rightarrow> bool) \<Rightarrow> string list option" where
  "derive_names reqs reserved = do {
     let ks = collect_keys (enumerate 0 reqs) [];
     let bases = map (base_of (map fst ks) reserved) (map fst ks);
     out \<leftarrow> name_keys reqs reserved bases (zip bases (map snd ks)) (replicate (length reqs) None);
     if list_all (\<lambda>x. x \<noteq> None) out then Some (map the out) else None
   }"

section \<open>The groups a name can meet\<close>

definition strip_last_slash :: "string \<Rightarrow> string" where
  "strip_last_slash name = (case strip_suffix_char CHR ''/'' name of Some body \<Rightarrow> body | None \<Rightarrow> name)"

text \<open>\<^verbatim>\<open>body.rfind('/')\<close>, then the rest of the \<open>name\<close> from there.\<close>

definition group_of :: "string \<Rightarrow> string" where
  "group_of name =
     (let body = strip_last_slash name
      in drop (length body - length (takeWhile (\<lambda>c. c \<noteq> CHR ''/'') (rev body))) name)"

definition without_suffix :: "string \<Rightarrow> string option" where
  "without_suffix name = do {
     body \<leftarrow> strip_suffix_char CHR ''>'' name;
     let digits = rev (takeWhile (\<lambda>c. c \<noteq> CHR ''<'') (rev body));
     if length digits < length body \<and> digits \<noteq> [] \<and> list_all is_digit digits
     then Some (take (length body - length digits - 1) body) else None
   }"

definition groups_of_name :: "string \<Rightarrow> string list" where
  "groups_of_name name = group_of name # (case without_suffix name of Some base \<Rightarrow> [group_of base] | None \<Rightarrow> [])"

end
