(* ===== verification/Buffer_Registry.thy ===== *)
theory Buffer_Registry
  imports Buffer Buffer_Names "HOL-Library.Mapping" "HOL-Library.AList_Mapping"
begin

text \<open>
  The registry of open buffers, \<^verbatim>\<open>src/src/buffer_registry.rs\<close>, with the incremental index that names buffers by
  their paths. A \<^verbatim>\<open>HashMap\<close> is a \<open>mapping\<close>; a \<^verbatim>\<open>HashSet\<close> that is iterated is a list without duplicates, and the
  unspecified order of its iteration is the parameter \<open>ho\<close>, which may reorder the set differently in every round.
  \<open>None\<close> is a panic: a failed \<^verbatim>\<open>expect\<close>, an index by a missing key, an underflow, a failed \<^verbatim>\<open>debug_assert!\<close>. The
  counters of places and of path ids are natural numbers: they advance once per buffer event.
\<close>

unbundle bit_operations_syntax

section \<open>The naming index\<close>

record group_path =
  gp_id :: nat
  gp_path :: path_names
  gp_holders :: "(nat \<times> nat) list"
  gp_depth :: "nat option"

record path_group =
  g_paths :: "(string, group_path) mapping"
  g_shared :: "(string, nat \<times> nat) mapping"
  g_named :: "(string, string) mapping"
  g_by_id :: "(nat, string) mapping"

record name_index =
  ix_held :: "(string, nat) mapping"
  ix_reserved :: "(string, nat) mapping"
  ix_member :: "(nat, string \<times> string) mapping"
  ix_groups :: "(string, path_group) mapping"
  ix_place :: "(nat, nat) mapping"
  ix_next_place :: nat
  ix_next_path :: nat

type_synonym dirty = "(string \<times> string) list"
type_synonym hash_order = "nat \<Rightarrow> dirty \<Rightarrow> dirty"

definition path_group_new :: path_group where
  "path_group_new = \<lparr>g_paths = Mapping.empty, g_shared = Mapping.empty, g_named = Mapping.empty, g_by_id = Mapping.empty\<rparr>"

definition name_index_new :: name_index where
  "name_index_new =
     \<lparr>ix_held = Mapping.empty, ix_reserved = Mapping.empty, ix_member = Mapping.empty, ix_groups = Mapping.empty,
      ix_place = Mapping.empty, ix_next_place = 0, ix_next_path = 0\<rparr>"

definition count_up :: "string \<Rightarrow> (string, nat) mapping \<Rightarrow> (string, nat) mapping" where
  "count_up name counts =
     (case Mapping.lookup counts name of
        Some count \<Rightarrow> Mapping.update name (count + 1) counts
      | None \<Rightarrow> Mapping.update name 1 counts)"

definition count_down :: "string \<Rightarrow> (string, nat) mapping \<Rightarrow> (string, nat) mapping option" where
  "count_down name counts =
     (case Mapping.lookup counts name of
        Some count \<Rightarrow> do {
          count' \<leftarrow> sub_opt count 1;
          Some (if count' = 0 then Mapping.delete name counts else Mapping.update name count' counts)
        }
      | None \<Rightarrow> Some counts)"

definition hold :: "string \<Rightarrow> name_index \<Rightarrow> name_index" where
  "hold name ix = ix\<lparr>ix_held := count_up name (ix_held ix)\<rparr>"

definition release :: "string \<Rightarrow> name_index \<Rightarrow> name_index option" where
  "release name ix = do { held \<leftarrow> count_down name (ix_held ix); Some (ix\<lparr>ix_held := held\<rparr>) }"

subsection \<open>Joining and leaving a path\<close>

definition entry_or_default :: "string \<Rightarrow> (string, path_group) mapping \<Rightarrow> path_group" where
  "entry_or_default name groups = (case Mapping.lookup groups name of Some g \<Rightarrow> g | None \<Rightarrow> path_group_new)"

text \<open>The loop over a new path's names: count the path in, and mark a path that loses a name to it.\<close>

fun share_names ::
    "string \<Rightarrow> (string, string) mapping \<Rightarrow> nat \<Rightarrow> string list \<Rightarrow> (string, nat \<times> nat) mapping \<Rightarrow> dirty \<Rightarrow>
     (string, nat \<times> nat) mapping \<times> dirty" where
  "share_names gname named path_id [] shared dirty = (shared, dirty)"
| "share_names gname named path_id (name # names) shared dirty =
     (let (count, ids) = (case Mapping.lookup shared name of Some entry \<Rightarrow> entry | None \<Rightarrow> (0, 0));
          dirty' = (if count + 1 = 2
                    then (case Mapping.lookup named name of Some other \<Rightarrow> List.insert (gname, other) dirty | None \<Rightarrow> dirty)
                    else dirty)
      in share_names gname named path_id names (Mapping.update name (count + 1, ids XOR path_id) shared) dirty')"

definition insert_holder :: "nat \<Rightarrow> nat \<Rightarrow> (nat \<times> nat) list \<Rightarrow> (nat \<times> nat) list" where
  "insert_holder place i holders =
     (let at = length (takeWhile (\<lambda>(p, _). p < place) holders) in take at holders @ (place, i) # drop at holders)"

definition join :: "nat \<Rightarrow> path_names \<Rightarrow> name_index \<Rightarrow> dirty \<Rightarrow> (name_index \<times> dirty) option" where
  "join i path ix dirty = do {
     let gname = np_group path;
     let whole = np_whole path;
     place \<leftarrow> Mapping.lookup (ix_place ix) i;
     let grp = entry_or_default gname (ix_groups ix);
     let (grp', next_path, dirty') =
       (case Mapping.lookup (g_paths grp) whole of
          Some entry \<Rightarrow>
            (grp\<lparr>g_paths := Mapping.update whole (entry\<lparr>gp_holders := insert_holder place i (gp_holders entry)\<rparr>) (g_paths grp)\<rparr>,
             ix_next_path ix, dirty)
        | None \<Rightarrow>
            (let path_id = ix_next_path ix;
                 (shared, dirty1) = share_names gname (g_named grp) path_id (np_names path) (g_shared grp) dirty
             in (grp\<lparr>g_shared := shared,
                       g_by_id := Mapping.update path_id whole (g_by_id grp),
                       g_paths := Mapping.update whole
                         \<lparr>gp_id = path_id, gp_path = path, gp_holders = [(place, i)], gp_depth = None\<rparr> (g_paths grp)\<rparr>,
                 path_id + 1, dirty1)));
     Some (ix\<lparr>ix_groups := Mapping.update gname grp' (ix_groups ix), ix_next_path := next_path,
              ix_member := Mapping.update i (gname, whole) (ix_member ix)\<rparr>,
           List.insert (gname, whole) dirty')
   }"

text \<open>The loop over the names of a path that is gone: count it out, and mark a path left alone with a name.\<close>

fun unshare_names ::
    "string \<Rightarrow> (nat, string) mapping \<Rightarrow> nat \<Rightarrow> string list \<Rightarrow> (string, nat \<times> nat) mapping \<Rightarrow> dirty \<Rightarrow>
     ((string, nat \<times> nat) mapping \<times> dirty) option" where
  "unshare_names gname by_id path_id [] shared dirty = Some (shared, dirty)"
| "unshare_names gname by_id path_id (name # names) shared dirty =
     (case Mapping.lookup shared name of
        None \<Rightarrow> unshare_names gname by_id path_id names shared dirty
      | Some (count, ids) \<Rightarrow> do {
          count' \<leftarrow> sub_opt count 1;
          let ids' = ids XOR path_id;
          let shared' = (if count' = 0 then Mapping.delete name shared else Mapping.update name (count', ids') shared);
          let dirty' = (if count' = 1
                        then (case Mapping.lookup by_id ids' of Some other \<Rightarrow> List.insert (gname, other) dirty | None \<Rightarrow> dirty)
                        else dirty);
          unshare_names gname by_id path_id names shared' dirty'
        })"

text \<open>
  \<^verbatim>\<open>binary_search_by_key\<close> finds the position of the key in a list sorted by it; the holders are sorted by place.
\<close>

definition remove_holder :: "nat \<Rightarrow> (nat \<times> nat) list \<Rightarrow> (nat \<times> nat) list" where
  "remove_holder place holders =
     (case position_of (\<lambda>(p, _). p = place) holders of Some at \<Rightarrow> take at holders @ drop (Suc at) holders | None \<Rightarrow> holders)"

definition drop_name :: "group_path \<Rightarrow> nat \<Rightarrow> string \<Rightarrow> (string, string) mapping \<Rightarrow> (string, string) mapping option" where
  "drop_name entry depth whole named = do {
     name \<leftarrow> nth_opt (np_names (gp_path entry)) depth;
     Some (if Mapping.lookup named name = Some whole then Mapping.delete name named else named)
   }"

definition leave :: "nat \<Rightarrow> name_index \<Rightarrow> dirty \<Rightarrow> (name_index \<times> dirty) option" where
  "leave i ix0 dirty =
     (case Mapping.lookup (ix_member ix0) i of
        None \<Rightarrow> Some (ix0, dirty)
      | Some (gname, whole) \<Rightarrow> do {
          let ix = ix0\<lparr>ix_member := Mapping.delete i (ix_member ix0)\<rparr>;
          place \<leftarrow> Mapping.lookup (ix_place ix) i;
          (case Mapping.lookup (ix_groups ix) gname of
             None \<Rightarrow> Some (ix, dirty)
           | Some grp \<Rightarrow>
               (case Mapping.lookup (g_paths grp) whole of
                  None \<Rightarrow> Some (ix, dirty)
                | Some entry0 \<Rightarrow>
                    (let entry = entry0\<lparr>gp_holders := remove_holder place (gp_holders entry0)\<rparr>
                     in if gp_holders entry \<noteq> [] then
                          Some (ix\<lparr>ix_groups := Mapping.update gname
                                     (grp\<lparr>g_paths := Mapping.update whole entry (g_paths grp)\<rparr>) (ix_groups ix)\<rparr>,
                                List.insert (gname, whole) dirty)
                        else do {
                          let by_id = Mapping.delete (gp_id entry) (g_by_id grp);
                          named \<leftarrow> (case gp_depth entry of
                                      Some depth \<Rightarrow> drop_name entry depth whole (g_named grp)
                                    | None \<Rightarrow> Some (g_named grp));
                          (shared, dirty') \<leftarrow>
                            unshare_names gname by_id (gp_id entry) (np_names (gp_path entry)) (g_shared grp) dirty;
                          let paths = Mapping.delete whole (g_paths grp);
                          Some (ix\<lparr>ix_groups :=
                                     (if Mapping.is_empty paths then Mapping.delete gname (ix_groups ix)
                                      else Mapping.update gname
                                             \<lparr>g_paths = paths, g_shared = shared, g_named = named, g_by_id = by_id\<rparr>
                                             (ix_groups ix))\<rparr>,
                                dirty')
                        })))
        })"

subsection \<open>What a name can move\<close>

definition mark_named :: "string \<Rightarrow> path_group \<Rightarrow> string \<Rightarrow> dirty \<Rightarrow> dirty" where
  "mark_named gname grp name dirty =
     (case Mapping.lookup (g_named grp) name of Some whole \<Rightarrow> List.insert (gname, whole) dirty | None \<Rightarrow> dirty)"

definition mark_alone :: "string \<Rightarrow> path_group \<Rightarrow> string \<Rightarrow> dirty \<Rightarrow> dirty" where
  "mark_alone gname grp name dirty =
     (case Mapping.lookup (g_shared grp) name of
        Some (count, path_id) \<Rightarrow>
          (if count = 1
           then (case Mapping.lookup (g_by_id grp) path_id of Some whole \<Rightarrow> List.insert (gname, whole) dirty | None \<Rightarrow> dirty)
           else dirty)
      | None \<Rightarrow> dirty)"

definition mark_suffixed :: "string \<Rightarrow> path_group \<Rightarrow> string \<Rightarrow> dirty \<Rightarrow> dirty" where
  "mark_suffixed gname grp name dirty =
     (case without_suffix name of Some base \<Rightarrow> mark_named gname grp base dirty | None \<Rightarrow> dirty)"

definition reserved_changed :: "name_index \<Rightarrow> string \<Rightarrow> dirty \<Rightarrow> dirty" where
  "reserved_changed ix name dirty =
     fold (\<lambda>gname d. case Mapping.lookup (ix_groups ix) gname of
                       None \<Rightarrow> d
                     | Some grp \<Rightarrow> mark_suffixed gname grp name (mark_alone gname grp name (mark_named gname grp name d)))
       (groups_of_name name) dirty"

definition derived_changed :: "name_index \<Rightarrow> string \<Rightarrow> dirty \<Rightarrow> dirty" where
  "derived_changed ix name dirty =
     (case without_suffix name of
        None \<Rightarrow> dirty
      | Some base \<Rightarrow>
          fold (\<lambda>gname d. case Mapping.lookup (ix_groups ix) gname of
                            None \<Rightarrow> d
                          | Some grp \<Rightarrow> mark_named gname grp base d)
            (groups_of_name name) dirty)"

section \<open>The registry\<close>

datatype registry_error = Missing nat | RegistryConcurrentEdit nat string

record 'v registry =
  reg_buffers :: "(nat, 'v buffer) mapping"
  reg_order :: "nat list"
  reg_names :: name_index

definition registry_new :: "'v registry" where
  "registry_new = \<lparr>reg_buffers = Mapping.empty, reg_order = [], reg_names = name_index_new\<rparr>"

definition file_buffer :: "nat \<Rightarrow> 'v registry \<Rightarrow> dirty \<Rightarrow> ('v registry \<times> dirty) option" where
  "file_buffer i r dirty = do {
     buf \<leftarrow> Mapping.lookup (reg_buffers r) i;
     let ix = hold (buf_name buf) (reg_names r);
     (case name_path buf of
        Some (path, directory) \<Rightarrow> do {
          (ix', dirty') \<leftarrow> join i (name_path_new path directory) ix dirty;
          Some (r\<lparr>reg_names := ix'\<rparr>, dirty')
        }
      | None \<Rightarrow>
          (let ix' = ix\<lparr>ix_reserved := count_up (buf_name buf) (ix_reserved ix)\<rparr>
           in Some (r\<lparr>reg_names := ix'\<rparr>, reserved_changed ix' (buf_name buf) dirty)))
   }"

definition unfile_buffer :: "nat \<Rightarrow> string \<Rightarrow> 'v registry \<Rightarrow> dirty \<Rightarrow> ('v registry \<times> dirty) option" where
  "unfile_buffer i name r dirty = do {
     ix \<leftarrow> release name (reg_names r);
     (if Mapping.lookup (ix_member ix) i \<noteq> None then do {
        (ix', dirty') \<leftarrow> leave i ix dirty;
        Some (r\<lparr>reg_names := ix'\<rparr>, derived_changed ix' name dirty')
      } else do {
        reserved \<leftarrow> count_down name (ix_reserved ix);
        let ix' = ix\<lparr>ix_reserved := reserved\<rparr>;
        Some (r\<lparr>reg_names := ix'\<rparr>, reserved_changed ix' name dirty)
      })
   }"

subsection \<open>Naming\<close>

definition shared_name :: "path_group \<Rightarrow> string \<Rightarrow> bool" where
  "shared_name grp n = (case Mapping.lookup (g_shared grp) n of Some (count, _) \<Rightarrow> 1 < count | None \<Rightarrow> False)"

definition held_count :: "name_index \<Rightarrow> string \<Rightarrow> nat" where
  "held_count ix n = (case Mapping.lookup (ix_held ix) n of Some count \<Rightarrow> count | None \<Rightarrow> 0)"

text \<open>The second half of \<^verbatim>\<open>name_path\<close>: a holder's new name, with the name it held when the event began kept in \<open>prior\<close>.\<close>

fun rename_holders ::
    "(nat \<times> string) list \<Rightarrow> (nat, string) mapping \<Rightarrow> 'v registry \<Rightarrow>
     ('v registry \<times> (nat, string) mapping \<times> (string \<times> string) list) option" where
  "rename_holders [] prior r = Some (r, prior, [])"
| "rename_holders ((i, name) # changes) prior r = do {
     buf \<leftarrow> Mapping.lookup (reg_buffers r) i;
     let old = buf_name buf;
     let prior' = (if Mapping.lookup prior i = None then Mapping.update i old prior else prior);
     ix \<leftarrow> release old (reg_names r);
     (if name_origin buf \<noteq> PathDerived then None else do {
        (r', prior'', renamed) \<leftarrow> rename_holders changes prior'
          (r\<lparr>reg_buffers := Mapping.update i (set_derived_name name buf) (reg_buffers r), reg_names := hold name ix\<rparr>);
        Some (r', prior'', (old, name) # renamed)
      })
   }"

definition set_depth :: "string \<Rightarrow> string \<Rightarrow> nat \<Rightarrow> name_index \<Rightarrow> name_index option" where
  "set_depth gname whole depth ix = do {
     grp \<leftarrow> Mapping.lookup (ix_groups ix) gname;
     entry \<leftarrow> Mapping.lookup (g_paths grp) whole;
     (if gp_depth entry = Some depth then Some ix else do {
        named \<leftarrow> (case gp_depth entry of
                    Some before \<Rightarrow> drop_name entry before whole (g_named grp)
                  | None \<Rightarrow> Some (g_named grp));
        name \<leftarrow> nth_opt (np_names (gp_path entry)) depth;
        Some (ix\<lparr>ix_groups := Mapping.update gname
                   (grp\<lparr>g_named := Mapping.update name whole named,
                          g_paths := Mapping.update whole (entry\<lparr>gp_depth := Some depth\<rparr>) (g_paths grp)\<rparr>)
                   (ix_groups ix)\<rparr>)
      })
   }"

definition settle_path ::
    "string \<Rightarrow> string \<Rightarrow> (nat, string) mapping \<Rightarrow> 'v registry \<Rightarrow>
     ('v registry \<times> (nat, string) mapping \<times> (string \<times> string) list) option" where
  "settle_path gname whole prior r =
     (case Option.bind (Mapping.lookup (ix_groups (reg_names r)) gname)
             (\<lambda>grp. map_option (\<lambda>entry. (grp, entry)) (Mapping.lookup (g_paths grp) whole)) of
        None \<Rightarrow> Some (r, prior, [])
      | Some (grp, entry) \<Rightarrow> do {
          let ix = reg_names r;
          let reserved = (\<lambda>n. Mapping.lookup (ix_reserved ix) n \<noteq> None);
          let depth = name_depth (gp_path entry) (shared_name grp) reserved;
          base \<leftarrow> nth_opt (np_names (gp_path entry)) depth;
          now \<leftarrow> those (map (\<lambda>(_, i). map_option buf_name (Mapping.lookup (reg_buffers r) i)) (gp_holders entry));
          let holds = map (\<lambda>((_, i), name). case Mapping.lookup prior i of Some h \<Rightarrow> h | None \<Rightarrow> name) (zip (gp_holders entry) now);
          names \<leftarrow> name_holders base holds (\<not> reserved base) (\<lambda>n. length (filter (\<lambda>h. h = n) now) < held_count ix n);
          let changes = map (\<lambda>((_, i), _, name). (i, name))
                          (filter (\<lambda>(_, held, name). held \<noteq> name) (zip (gp_holders entry) (zip now names)));
          ix' \<leftarrow> set_depth gname whole depth ix;
          rename_holders changes prior (r\<lparr>reg_names := ix'\<rparr>)
        })"

text \<open>One round names every path of a dirty set; the names that changed mark the next round's.\<close>

definition mark_renamed :: "name_index \<Rightarrow> (string \<times> string) list \<Rightarrow> dirty \<Rightarrow> dirty" where
  "mark_renamed ix renamed next = fold (\<lambda>(old, new) d. derived_changed ix new (derived_changed ix old d)) renamed next"

fun settle_round ::
    "dirty \<Rightarrow> (nat, string) mapping \<Rightarrow> 'v registry \<Rightarrow> dirty \<Rightarrow> ('v registry \<times> (nat, string) mapping \<times> dirty) option" where
  "settle_round [] prior r next = Some (r, prior, next)"
| "settle_round ((gname, whole) # dirty) prior r next = do {
     (r', prior', renamed) \<leftarrow> settle_path gname whole prior r;
     settle_round dirty prior' r' (mark_renamed (reg_names r') renamed next)
   }"

function settle_loop :: "hash_order \<Rightarrow> nat \<Rightarrow> dirty \<Rightarrow> (nat, string) mapping \<Rightarrow> 'v registry \<Rightarrow> 'v registry option" where
  "settle_loop ho rounds dirty prior r =
     (if dirty = [] then Some r
      else if \<not> rounds + 1 \<le> 8 then None
      else do {
        (r', prior', next) \<leftarrow> settle_round (ho (rounds + 1) dirty) prior r [];
        settle_loop ho (rounds + 1) next prior' r'
      })"
  by pat_completeness auto
termination by (relation "measure (\<lambda>(ho, rounds, dirty, prior, r). 8 - rounds)") auto

declare settle_loop.simps [simp del]

definition settle :: "hash_order \<Rightarrow> dirty \<Rightarrow> 'v registry \<Rightarrow> 'v registry option" where
  "settle ho dirty r = settle_loop ho 0 dirty Mapping.empty r"

subsection \<open>Operations\<close>

definition reg_get :: "nat \<Rightarrow> 'v registry \<Rightarrow> registry_error + 'v buffer" where
  "reg_get i r = (case Mapping.lookup (reg_buffers r) i of Some b \<Rightarrow> Inr b | None \<Rightarrow> Inl (Missing i))"

text \<open>\<^verbatim>\<open>get_mut\<close>: what the caller does through the exclusive reference is the function \<open>f\<close>.\<close>

definition reg_get_mut :: "nat \<Rightarrow> ('v buffer \<Rightarrow> 'v buffer) \<Rightarrow> 'v registry \<Rightarrow> 'v registry \<times> (registry_error + unit)" where
  "reg_get_mut i f r =
     (case Mapping.lookup (reg_buffers r) i of
        Some b \<Rightarrow> (r\<lparr>reg_buffers := Mapping.update i (f b) (reg_buffers r)\<rparr>, Inr ())
      | None \<Rightarrow> (r, Inl (Missing i)))"

definition reg_insert :: "hash_order \<Rightarrow> 'v buffer \<Rightarrow> 'v registry \<Rightarrow> ('v registry \<times> nat) option" where
  "reg_insert ho buf r = do {
     let i = buf_id buf;
     let old = Mapping.lookup (reg_buffers r) i;
     let r1 = r\<lparr>reg_buffers := Mapping.update i buf (reg_buffers r)\<rparr>;
     (r2, dirty) \<leftarrow>
       (case old of
          Some b \<Rightarrow> unfile_buffer i (buf_name b) (r1\<lparr>reg_order := filter (\<lambda>x. x \<noteq> i) (reg_order r1)\<rparr>) []
        | None \<Rightarrow> Some (r1, []));
     let ix = reg_names r2;
     let r3 = r2\<lparr>reg_order := reg_order r2 @ [i],
                 reg_names := ix\<lparr>ix_place := Mapping.update i (ix_next_place ix) (ix_place ix), ix_next_place := ix_next_place ix + 1\<rparr>\<rparr>;
     (r4, dirty') \<leftarrow> file_buffer i r3 dirty;
     r5 \<leftarrow> settle ho dirty' r4;
     Some (r5, i)
   }"

definition insert_for_path :: "hash_order \<Rightarrow> 'v buffer \<Rightarrow> string \<Rightarrow> 'v registry \<Rightarrow> ('v registry \<times> nat) option" where
  "insert_for_path ho buf path r = reg_insert ho (name_from_path (set_file_path (Some path) (set_name [] buf))) r"

text \<open>\<^verbatim>\<open>BufferId::next()\<close>, the global counter, is the argument \<open>i\<close>.\<close>

definition reg_create :: "hash_order \<Rightarrow> nat \<Rightarrow> string \<Rightarrow> 'v registry \<Rightarrow> ('v registry \<times> nat) option" where
  "reg_create ho i name r = reg_insert ho (buffer_new i name) r"

definition create_from_bytes :: "hash_order \<Rightarrow> nat \<Rightarrow> string \<Rightarrow> byte list \<Rightarrow> 'v registry \<Rightarrow> ('v registry \<times> nat) option" where
  "create_from_bytes ho i name bs r = reg_insert ho (buffer_from_bytes i name bs) r"

definition reg_remove :: "hash_order \<Rightarrow> nat \<Rightarrow> 'v registry \<Rightarrow> ('v registry \<times> (registry_error + 'v buffer)) option" where
  "reg_remove ho i r =
     (case Mapping.lookup (reg_buffers r) i of
        None \<Rightarrow> Some (r, Inl (Missing i))
      | Some buf \<Rightarrow>
          if editing_in_progress buf then Some (r, Inl (RegistryConcurrentEdit i (buf_name buf)))
          else do {
            let r1 = r\<lparr>reg_buffers := Mapping.delete i (reg_buffers r), reg_order := filter (\<lambda>x. x \<noteq> i) (reg_order r)\<rparr>;
            (r2, dirty) \<leftarrow> unfile_buffer i (buf_name buf) r1 [];
            let ix = reg_names r2;
            r3 \<leftarrow> settle ho dirty (r2\<lparr>reg_names := ix\<lparr>ix_place := Mapping.delete i (ix_place ix)\<rparr>\<rparr>);
            Some (r3, Inr buf)
          })"

text \<open>\<^verbatim>\<open>refresh_names\<close>: the loop over the ids refiles a buffer whose path is no longer the one it is filed under.\<close>

definition filed_unchanged :: "nat \<Rightarrow> 'v buffer \<Rightarrow> 'v registry \<Rightarrow> bool" where
  "filed_unchanged i buf r =
     (let filed = do {
            (gname, whole) \<leftarrow> Mapping.lookup (ix_member (reg_names r)) i;
            grp \<leftarrow> Mapping.lookup (ix_groups (reg_names r)) gname;
            Mapping.lookup (g_paths grp) whole
          }
      in case (filed, name_path buf) of
           (Some entry, Some (path, directory)) \<Rightarrow> np_is_of (gp_path entry) path directory
         | (None, None) \<Rightarrow> True
         | _ \<Rightarrow> False)"

fun refile_all :: "nat list \<Rightarrow> 'v registry \<Rightarrow> dirty \<Rightarrow> ('v registry \<times> dirty) option" where
  "refile_all [] r dirty = Some (r, dirty)"
| "refile_all (i # ids) r dirty =
     (case Mapping.lookup (reg_buffers r) i of
        None \<Rightarrow> refile_all ids r dirty
      | Some buf \<Rightarrow>
          if filed_unchanged i buf r then refile_all ids r dirty
          else do {
            (r1, dirty1) \<leftarrow> unfile_buffer i (buf_name buf) r dirty;
            (r2, dirty2) \<leftarrow> file_buffer i r1 dirty1;
            refile_all ids r2 dirty2
          })"

definition refresh_names :: "hash_order \<Rightarrow> nat list \<Rightarrow> 'v registry \<Rightarrow> 'v registry option" where
  "refresh_names ho ids r = do { (r', dirty) \<leftarrow> refile_all ids r []; settle ho dirty r' }"

definition name_by_path :: "hash_order \<Rightarrow> nat \<Rightarrow> string \<Rightarrow> 'v registry \<Rightarrow> ('v registry \<times> (registry_error + unit)) option" where
  "name_by_path ho i path r =
     (case reg_get_mut i (\<lambda>b. name_from_path (set_file_path (Some path) b)) r of
        (r1, Inl e) \<Rightarrow> Some (r1, Inl e)
      | (r1, Inr _) \<Rightarrow> do { r2 \<leftarrow> refresh_names ho [i] r1; Some (r2, Inr ()) })"

definition name_by_directory ::
    "hash_order \<Rightarrow> nat \<Rightarrow> string \<Rightarrow> 'v registry \<Rightarrow> ('v registry \<times> (registry_error + unit)) option" where
  "name_by_directory ho i directory r =
     (case reg_get_mut i (name_from_directory directory) r of
        (r1, Inl e) \<Rightarrow> Some (r1, Inl e)
      | (r1, Inr _) \<Rightarrow> do { r2 \<leftarrow> refresh_names ho [i] r1; Some (r2, Inr ()) })"

definition reg_set_name :: "hash_order \<Rightarrow> nat \<Rightarrow> string \<Rightarrow> 'v registry \<Rightarrow> ('v registry \<times> (registry_error + unit)) option" where
  "reg_set_name ho i name r =
     (case reg_get i r of
        Inl e \<Rightarrow> Some (r, Inl e)
      | Inr buf \<Rightarrow> do {
          (r1, dirty) \<leftarrow> unfile_buffer i (buf_name buf) r [];
          buf1 \<leftarrow> Mapping.lookup (reg_buffers r1) i;
          let r2 = r1\<lparr>reg_buffers := Mapping.update i (set_name name buf1) (reg_buffers r1)\<rparr>;
          (r3, dirty') \<leftarrow> file_buffer i r2 dirty;
          r4 \<leftarrow> settle ho dirty' r3;
          Some (r4, Inr ())
        })"

definition find_by_name :: "string \<Rightarrow> 'v registry \<Rightarrow> nat option" where
  "find_by_name name r =
     find (\<lambda>i. case Mapping.lookup (reg_buffers r) i of Some b \<Rightarrow> buf_name b = name | None \<Rightarrow> False) (reg_order r)"

text \<open>Paths compare by their components.\<close>

definition find_by_path :: "string \<Rightarrow> 'v registry \<Rightarrow> nat option" where
  "find_by_path path r =
     find (\<lambda>i. case Mapping.lookup (reg_buffers r) i of
                 Some b \<Rightarrow> map_option path_components (file_path b) = Some (path_components path)
               | None \<Rightarrow> False) (reg_order r)"

definition reg_contains :: "nat \<Rightarrow> 'v registry \<Rightarrow> bool" where
  "reg_contains i r = (Mapping.lookup (reg_buffers r) i \<noteq> None)"

definition reg_ids :: "'v registry \<Rightarrow> nat list" where
  "reg_ids r = reg_order r"

definition reg_len :: "'v registry \<Rightarrow> nat" where
  "reg_len r = Mapping.size (reg_buffers r)"

definition reg_is_empty :: "'v registry \<Rightarrow> bool" where
  "reg_is_empty r = Mapping.is_empty (reg_buffers r)"

definition buffer_holds :: "'v buffer \<Rightarrow> byte list \<Rightarrow> bool option" where
  "buffer_holds buf bs =
     (if buffer_len buf \<noteq> length bs then Some False
      else do {
        held \<leftarrow> (if bs = [] then Some [] else rope_slice (snapshot_rope buf) 0 (buffer_len buf) (replicate (length bs) 0));
        Some (held = bs)
      })"

definition replace_generated ::
    "'v view_ops \<Rightarrow> hash_order \<Rightarrow> nat \<Rightarrow> string \<Rightarrow> byte list \<Rightarrow> 'v registry \<Rightarrow> ('v registry \<times> nat \<times> edit option) option" where
  "replace_generated ops ho fresh_id name bs r = do {
     (r1, i) \<leftarrow> (case find_by_name name r of Some i \<Rightarrow> Some (r, i) | None \<Rightarrow> reg_create ho fresh_id name r);
     buf \<leftarrow> Mapping.lookup (reg_buffers r1) i;
     same \<leftarrow> (if read_only buf then buffer_holds buf bs else Some False);
     (if same then Some (r1\<lparr>reg_buffers := Mapping.update i (mark_clean buf) (reg_buffers r1)\<rparr>, i, None)
      else do {
        (buf', result) \<leftarrow> set_generated_contents ops bs buf;
        Some (r1\<lparr>reg_buffers := Mapping.update i buf' (reg_buffers r1)\<rparr>, i,
              case result of Inr edit \<Rightarrow> Some edit | Inl _ \<Rightarrow> None)
      })
   }"

text \<open>\<^verbatim>\<open>EditorCore::set_buffer_path\<close>, with the path already normalized.\<close>

definition set_buffer_path :: "hash_order \<Rightarrow> nat \<Rightarrow> string option \<Rightarrow> 'v registry \<Rightarrow> 'v registry option" where
  "set_buffer_path ho i path r = refresh_names ho [i] (fst (reg_get_mut i (set_file_path path) r))"

text \<open>
  The registry's part of \<^verbatim>\<open>EditorCore::reconcile_rename\<close>, for the buffers bound under the old path with the paths they
  move to: every path moves and its metadata is dropped, a stale handle is skipped, and the names are refreshed once.
\<close>

fun move_paths :: "(nat \<times> string) list \<Rightarrow> 'v registry \<Rightarrow> 'v registry \<times> nat list" where
  "move_paths [] r = (r, [])"
| "move_paths ((i, target) # targets) r =
     (case reg_get_mut i (\<lambda>b. set_file_meta None (set_file_path (Some target) b)) r of
        (r1, Inl e) \<Rightarrow> move_paths targets r1
      | (r1, Inr _) \<Rightarrow> (case move_paths targets r1 of (r2, moved) \<Rightarrow> (r2, i # moved)))"

definition reconcile_paths :: "hash_order \<Rightarrow> (nat \<times> string) list \<Rightarrow> 'v registry \<Rightarrow> 'v registry option" where
  "reconcile_paths ho targets r = (case move_paths targets r of (r1, moved) \<Rightarrow> refresh_names ho moved r1)"

end
