(* ===== verification/Buffer_Naming.thy ===== *)
theory Buffer_Naming
  imports Buffer_Names "HOL-Library.Multiset" "HOL-Library.Code_Target_Nat"
begin

text \<open>
  What the naming of path-backed buffers guarantees: the search for a free number ends, and the names of a set of
  buffers are pairwise distinct and avoid every reserved name.
\<close>

section \<open>Numbers\<close>

lemma of_char_digit: "d < 10 \<Longrightarrow> of_char (char_of (48 + d) :: char) = (48 + d :: nat)"
  by simp

lemma decimal_value_snoc: "decimal_value (ds @ [c]) = 10 * decimal_value ds + (of_char c - 48)"
  by (simp add: decimal_value_def)

lemma decimal_value_show: "decimal_value (dec_string n) = n"
proof (induction n rule: dec_string.induct)
  case (1 n)
  show ?case
  proof (cases "n < 10")
    case True
    then show ?thesis by (simp add: dec_string.simps [of n] decimal_value_def)
  next
    case False
    then show ?thesis using "1.IH" by (simp add: dec_string.simps [of n] decimal_value_snoc)
  qed
qed

lemma show_nat_inj: "dec_string m = dec_string n \<Longrightarrow> m = n"
  by (metis decimal_value_show)

lemma show_nat_digits: "list_all is_digit (dec_string n)"
proof (induction n rule: dec_string.induct)
  case (1 n)
  have "n mod 10 < 10" by simp
  then show ?case using 1 by (auto simp: dec_string.simps [of n] is_digit_def simp del: mod_less_divisor)
qed

text \<open>The form of a name with a suffix: a bracketed number, which holds no bracket itself.\<close>

definition suffixed :: "string \<Rightarrow> string \<Rightarrow> bool" where
  "suffixed base name \<longleftrightarrow> (\<exists>ds. name = base @ ''<'' @ ds @ ''>'' \<and> ds \<noteq> [] \<and> list_all is_digit ds)"

lemma digits_no_bracket: "list_all is_digit ds \<Longrightarrow> CHR ''<'' \<notin> set ds"
  by (auto simp: list_all_iff is_digit_def)

lemma dec_string_nonempty [simp]: "dec_string n \<noteq> []"
  by (cases "n < 10") (simp_all add: dec_string.simps [of n])

lemma suffixed_numbered [simp]: "suffixed base (numbered base n)"
  using show_nat_digits by (auto simp: suffixed_def numbered_def)

lemma suffixedE:
  assumes "suffixed base name"
  obtains ds where "name = base @ ''<'' @ ds @ ''>''" "CHR ''<'' \<notin> set ds" "ds \<noteq> []" "list_all is_digit ds"
  using assms digits_no_bracket unfolding suffixed_def by blast

text \<open>A number is written with no more digits than any numeral for it.\<close>

lemma decimal_value_bound: "list_all is_digit ds \<Longrightarrow> decimal_value ds < 10 ^ length ds"
proof (induction ds rule: rev_induct)
  case Nil
  then show ?case by (simp add: decimal_value_def)
next
  case (snoc d ds)
  then have "decimal_value ds + 1 \<le> 10 ^ length ds" "of_char d - 48 \<le> (9::nat)" by (auto simp: is_digit_def)
  then show ?case by (simp add: decimal_value_snoc)
qed

lemma dec_string_length: "n < 10 ^ k \<Longrightarrow> 0 < k \<Longrightarrow> length (dec_string n) \<le> k"
proof (induction n arbitrary: k rule: dec_string.induct)
  case (1 n)
  show ?case
  proof (cases "n < 10")
    case True
    then show ?thesis using 1 by (simp add: dec_string.simps [of n])
  next
    case False
    then obtain j where j: "k = Suc j" "0 < j" using 1 by (cases k; cases "k - 1") auto
    have "n div 10 < 10 ^ j" using 1(2) j by auto
    then have "length (dec_string (n div 10)) \<le> j" using 1(1) False j by blast
    then show ?thesis using False j by (simp add: dec_string.simps [of n])
  qed
qed

lemma suffixed_base_unique:
  assumes "suffixed b1 name" "suffixed b2 name"
  shows "b1 = b2"
proof -
  obtain d1 where d1: "name = b1 @ ''<'' @ d1 @ ''>''" "CHR ''<'' \<notin> set d1" using assms(1) by (rule suffixedE)
  obtain d2 where d2: "name = b2 @ ''<'' @ d2 @ ''>''" "CHR ''<'' \<notin> set d2" using assms(2) by (rule suffixedE)
  have last: "takeWhile (\<lambda>c. c \<noteq> CHR ''<'') (rev name) = CHR ''>'' # rev ds"
    if "name = b @ ''<'' @ ds @ ''>''" "CHR ''<'' \<notin> set ds" for b ds
  proof -
    have "takeWhile (\<lambda>c. c \<noteq> CHR ''<'') (rev ds @ CHR ''<'' # rev b) = rev ds @ takeWhile (\<lambda>c. c \<noteq> CHR ''<'') (CHR ''<'' # rev b)"
      using that(2) by (intro takeWhile_append2) auto
    then show ?thesis using that(1) by simp
  qed
  have "rev d1 = rev d2" using last [OF d1] last [OF d2] by simp
  then show ?thesis using d1(1) d2(1) by simp
qed

lemma suffixed_not_base: "\<not> suffixed base base"
  by (auto simp: suffixed_def)

lemma numbered_inj: "numbered base m = numbered base n \<Longrightarrow> m = n"
  by (auto simp: numbered_def dest: show_nat_inj)

lemma is_suffixed_form: "is_suffixed base name \<Longrightarrow> suffixed base name"
proof -
  assume s: "is_suffixed base name"
  obtain rest mid n where r: "strip_prefix base name = Some rest" "Option.bind (strip_prefix ''<'' rest) (strip_suffix_char CHR ''>'') = Some mid"
      "parse_usize mid = Some n"
    using s by (auto simp: is_suffixed_def split: option.splits Option.bind_splits)
  have name: "name = base @ rest"
    using r(1) by (auto simp: strip_prefix_def split: if_splits) (metis append_take_drop_id)
  obtain tail where "strip_prefix ''<'' rest = Some tail" "strip_suffix_char CHR ''>'' tail = Some mid"
    using r(2) by (auto split: Option.bind_splits)
  then have "rest = ''<'' @ mid @ ''>''"
    by (cases rest) (auto simp: strip_prefix_def strip_suffix_char_def append_butlast_last_id split: if_splits
        dest!: append_butlast_last_id)
  then have rest: "length name = length base + length mid + 2" "name = base @ ''<'' @ mid @ ''>''" using name by simp_all
  have len: "length mid = length (dec_string n)"
    using s r name rest(1) \<open>rest = ''<'' @ mid @ ''>''\<close> by (auto simp: is_suffixed_def bind_eq_Some_conv)
  obtain ds where ds: "mid = ds \<or> mid = CHR ''+'' # ds" "ds \<noteq> []" "list_all is_digit ds" "n = decimal_value ds"
    using r(3) by (auto simp: parse_usize_def Let_def split: list.splits if_splits)
  have "length (dec_string n) \<le> length ds"
    using dec_string_length decimal_value_bound ds(2-4) by simp
  then have "mid = ds" using ds(1) len by auto
  then show ?thesis using rest(2) ds(2,3) by (auto simp: suffixed_def)
qed

section \<open>The search for a free number ends\<close>

lemma free_number_exists:
  assumes "finite {n. taken (numbered base n)}"
  shows "\<exists>m \<ge> k. \<not> taken (numbered base m) \<and> numbered base m \<notin> set used"
proof -
  have "inj (numbered base)" by (rule injI) (rule numbered_inj)
  then have "finite (numbered base -` set used)" by (simp add: finite_vimageI)
  then have "finite ({n. taken (numbered base n)} \<union> (numbered base -` set used) \<union> {..<k})" using assms by simp
  then obtain m where "m \<notin> {n. taken (numbered base n)} \<union> (numbered base -` set used) \<union> {..<k}"
    by (metis ex_new_if_finite infinite_UNIV_nat)
  then show ?thesis by (intro exI [of _ m]) auto
qed

lemma next_free_finds:
  assumes "k \<le> m" "\<not> taken (numbered base m)" "numbered base m \<notin> set used"
  shows "\<exists>n. next_free base taken used k = Some n \<and> \<not> taken (numbered base n) \<and> numbered base n \<notin> set used \<and> k \<le> n \<and> n \<le> m"
  using assms
proof (induction "m - k" arbitrary: k)
  case 0
  then have "next_free base taken used k = Some k" by (subst next_free.simps) simp
  then show ?case using 0 by simp
next
  case (Suc d)
  show ?case
  proof (cases "\<not> taken (numbered base k) \<and> numbered base k \<notin> set used")
    case True
    then have "next_free base taken used k = Some k" by (subst next_free.simps) simp
    then show ?thesis using True Suc.prems(1) by simp
  next
    case False
    then have "next_free base taken used k = next_free base taken used (k + 1)" by (subst next_free.simps) auto
    moreover have "d = m - (k + 1)" "k + 1 \<le> m" using Suc.hyps(2) by auto
    ultimately show ?thesis using Suc.hyps(1) [of "k + 1"] Suc.prems by auto
  qed
qed

lemma next_free_returns:
  assumes "finite {n. taken (numbered base n)}"
  shows "returns (next_free base taken used k) (\<lambda>n. \<not> taken (numbered base n) \<and> numbered base n \<notin> set used)"
proof -
  obtain m where "k \<le> m" "\<not> taken (numbered base m)" "numbered base m \<notin> set used"
    using free_number_exists [OF assms] by blast
  then show ?thesis using next_free_finds [of k m taken base used] by (auto simp: returns_def)
qed

section \<open>The holders of one path\<close>

text \<open>The suffixed names among the slots, and the result: the filled slots stay and the others get fresh names.\<close>

definition given :: "string option list \<Rightarrow> string list" where
  "given out = concat (map (\<lambda>x. case x of Some n \<Rightarrow> [n] | None \<Rightarrow> []) out)"

lemma given_simps [simp]: "given [] = []" "given (Some x # out) = x # given out" "given (None # out) = given out"
  by (simp_all add: given_def)

definition fresh_name :: "string \<Rightarrow> (string \<Rightarrow> bool) \<Rightarrow> string list \<Rightarrow> string \<Rightarrow> bool" where
  "fresh_name base taken used x \<longleftrightarrow> suffixed base x \<and> \<not> taken x \<and> x \<notin> set used"

lemma number_rest_names:
  "finite {n. taken (numbered base n)} \<Longrightarrow> distinct (given out) \<Longrightarrow> set (given out) \<subseteq> insert base (set used) \<Longrightarrow>
     returns (number_rest base taken out used n)
       (\<lambda>names. length names = length out \<and> distinct names \<and>
          (\<forall>x \<in> set names. x \<in> set (given out) \<or> fresh_name base taken used x))"
proof (induction base taken out used n rule: number_rest.induct)
  case (1 base taken used n)
  then show ?case by simp
next
  case (2 base taken name slots used n)
  have "returns (number_rest base taken slots used n)
      (\<lambda>names. length names = length slots \<and> distinct names \<and>
         (\<forall>x \<in> set names. x \<in> set (given slots) \<or> fresh_name base taken used x))"
    using "2.prems" by (intro "2.IH") auto
  then obtain names where names: "number_rest base taken slots used n = Some names" "length names = length slots" "distinct names"
      "\<forall>x \<in> set names. x \<in> set (given slots) \<or> fresh_name base taken used x" by (auto elim: returnsE)
  have "name \<notin> set names"
    using names(4) "2.prems" suffixed_not_base by (auto simp: fresh_name_def)
  then show ?case using names by auto
next
  case (3 base taken slots used n)
  obtain m where m: "next_free base taken used n = Some m" "\<not> taken (numbered base m)" "numbered base m \<notin> set used"
    using next_free_returns [OF "3.prems"(1), of used n] by (auto elim: returnsE)
  obtain names where names: "number_rest base taken slots (numbered base m # used) (m + 1) = Some names"
      "length names = length slots" "distinct names"
      "\<forall>x \<in> set names. x \<in> set (given slots) \<or> fresh_name base taken (numbered base m # used) x"
  proof -
    have "set (given slots) \<subseteq> insert base (set (numbered base m # used))" using "3.prems"(3) by auto
    then show ?thesis using "3.IH" [OF m(1) "3.prems"(1)] "3.prems"(2) that by (auto elim: returnsE)
  qed
  have "numbered base m \<noteq> base" using suffixed_numbered [of base m] suffixed_not_base [of base] by metis
  then have "numbered base m \<notin> set names"
    using names(4) "3.prems"(3) m(3) by (auto simp: fresh_name_def)
  moreover have "fresh_name base taken used x" if "fresh_name base taken (numbered base m # used) x" for x
    using that by (simp add: fresh_name_def)
  ultimately show ?case using m names by (auto simp: fresh_name_def)
qed

text \<open>The first two passes: at most one plain name, and suffixed names that were held and are free.\<close>

lemma given_replicate [simp]: "given (replicate k None) = []"
  by (induction k) auto

lemma given_update: "i < k \<Longrightarrow> given ((replicate k None)[i := Some x]) = [x]"
  by (induction k arbitrary: i) (auto split: nat.split simp: list_update_code)

lemma position_of_less: "position_of P xs = Some i \<Longrightarrow> i < length xs \<and> P (xs ! i)"
  by (auto simp: position_of_def find_Some_iff)

lemma keep_base_given:
  "length (keep_base base holds base_free) = length holds"
  "given (keep_base base holds base_free) = (if base_free \<and> holds \<noteq> [] then [base] else [])"
  by (auto simp: keep_base_def given_update Let_def dest: position_of_less split: option.split)

lemma keep_suffixed_given:
  "keep_suffixed base taken slots used = (out, used') \<Longrightarrow> distinct (given (map fst slots)) \<Longrightarrow>
   set (given (map fst slots)) \<subseteq> {base} \<Longrightarrow> 
   length out = length slots \<and> distinct (given out) \<and> set (given out) \<subseteq> set (given (map fst slots)) \<union> set used' \<and>
   set used \<subseteq> set used' \<and> (\<forall>x \<in> set (given out). x \<in> set (given (map fst slots)) \<or> fresh_name base taken used x)"
proof (induction base taken slots used arbitrary: out used' rule: keep_suffixed.induct)
  case (1 base taken used)
  then show ?case by simp
next
  case (2 base taken slot held rest used)
  show ?case
  proof (cases "slot = None \<and> is_suffixed base held \<and> \<not> taken held \<and> held \<notin> set used")
    case True
    obtain o1 u1 where o1: "keep_suffixed base taken rest (held # used) = (o1, u1)" by fastforce
    have out: "out = Some held # o1" "used' = u1" using "2.prems"(1) True o1 by auto
    have IH: "length o1 = length rest \<and> distinct (given o1) \<and> set (given o1) \<subseteq> set (given (map fst rest)) \<union> set u1 \<and>
        set (held # used) \<subseteq> set u1 \<and> (\<forall>x \<in> set (given o1). x \<in> set (given (map fst rest)) \<or> fresh_name base taken (held # used) x)"
      using "2.IH"(1) [OF True o1] "2.prems" True by simp
    have "suffixed base held" using True is_suffixed_form by blast
    then have "held \<notin> set (given o1)"
      using IH "2.prems"(3) True suffixed_not_base [of base] by (auto simp: fresh_name_def)
    then show ?thesis using IH True out \<open>suffixed base held\<close> by (auto simp: fresh_name_def)
  next
    case False
    obtain o1 u1 where o1: "keep_suffixed base taken rest used = (o1, u1)" by fastforce
    have out: "out = slot # o1" "used' = u1" using "2.prems"(1) False o1 by auto
    have IH: "length o1 = length rest \<and> distinct (given o1) \<and> set (given o1) \<subseteq> set (given (map fst rest)) \<union> set u1 \<and>
        set used \<subseteq> set u1 \<and> (\<forall>x \<in> set (given o1). x \<in> set (given (map fst rest)) \<or> fresh_name base taken used x)"
      using "2.IH"(2) [OF False o1] "2.prems" by (cases slot) auto
    show ?thesis
    proof (cases slot)
      case None
      then show ?thesis using IH out by auto
    next
      case (Some name)
      then have "name \<notin> set (given o1)"
        using IH "2.prems" suffixed_not_base [of base] by (auto simp: fresh_name_def)
      then show ?thesis using IH out Some by auto
    qed
  qed
qed

lemma name_holders_names:
  assumes "finite {n. taken (numbered base n)}"
  shows "returns (name_holders base holds base_free taken)
    (\<lambda>names. length names = length holds \<and> distinct names \<and>
       (\<forall>x \<in> set names. (x = base \<and> base_free) \<or> (suffixed base x \<and> \<not> taken x)))"
proof -
  obtain out used where o: "keep_suffixed base taken (zip (keep_base base holds base_free) holds) [] = (out, used)" by fastforce
  have slots: "map fst (zip (keep_base base holds base_free) holds) = keep_base base holds base_free"
    by (simp add: keep_base_given(1))
  have k: "length out = length holds" "distinct (given out)"
      "set (given out) \<subseteq> set (given (keep_base base holds base_free)) \<union> set used"
      "\<forall>x \<in> set (given out). x \<in> set (given (keep_base base holds base_free)) \<or> fresh_name base taken [] x"
  proof -
    have "distinct (given (keep_base base holds base_free))" "set (given (keep_base base holds base_free)) \<subseteq> {base}"
      by (auto simp: keep_base_given)
    from keep_suffixed_given [OF o, unfolded slots, OF this]
    show "length out = length holds" "distinct (given out)"
      "set (given out) \<subseteq> set (given (keep_base base holds base_free)) \<union> set used"
      "\<forall>x \<in> set (given out). x \<in> set (given (keep_base base holds base_free)) \<or> fresh_name base taken [] x"
      by (simp_all add: keep_base_given(1))
  qed
  have "returns (number_rest base taken out used 2)
       (\<lambda>names. length names = length out \<and> distinct names \<and>
          (\<forall>x \<in> set names. x \<in> set (given out) \<or> fresh_name base taken used x))"
    using k(2,3) by (intro number_rest_names [OF assms]) (auto simp: keep_base_given split: if_splits)
  then show ?thesis
    unfolding name_holders_def o prod.case
    by (rule returns_weaken) (use k(1,4) in \<open>auto simp: fresh_name_def keep_base_given split: if_splits\<close>)
qed

section \<open>The names of a path\<close>

text \<open>Decoding and encoding neither lose a text nor make a slash.\<close>

lemma step_nats_ascii:
  assumes "step_nats bs = Scalar c n" "c < 128"
  shows "\<exists>bs'. bs = c # bs' \<and> n = 1"
  using assms
  by (cases bs) (auto simp: utf8_width_def second_ok_def is_cont_def split: if_splits list.splits)

lemma lossy_no_slash: "47 \<notin> set bs \<Longrightarrow> 47 \<notin> set (from_utf8_lossy bs)"
proof (induction bs rule: from_utf8_lossy.induct)
  case (1 bs)
  show ?case
  proof (cases "bs = []")
    case False
    have sub: "47 \<notin> set (drop k bs)" for k using "1.prems" by (auto dest: in_set_dropD)
    show ?thesis
    proof (cases "utf8_step bs")
      case (Scalar c n)
      have "c \<noteq> 47"
      proof
        assume "c = 47"
        then obtain rest where "map unat bs = 47 # rest"
          using Scalar step_nats_ascii [of "map unat bs" 47 n] by (auto simp: utf8_step_def)
        then have "47 \<in> set (map unat bs)" by simp
        then have "47 \<in> unat ` set bs" by simp
        then obtain b where b: "b \<in> set bs" "47 = unat b" by (rule imageE)
        have "b = 47" using b(2) by (intro word_unat_eq_iff [THEN iffD2]) simp
        then show False using b(1) "1.prems" by simp
      qed
      then show ?thesis using "1.IH"(1) [OF False Scalar sub] Scalar False by (simp add: from_utf8_lossy.simps [of bs])
    next
      case Incomplete
      then show ?thesis using False by (simp add: from_utf8_lossy.simps [of bs] REPLACEMENT_def)
    next
      case (Invalid k)
      then show ?thesis using "1.IH"(2) [OF False Invalid sub] False by (simp add: from_utf8_lossy.simps [of bs] REPLACEMENT_def)
    qed
  qed (simp add: from_utf8_lossy.simps)
qed

lemma lossy_nonempty: "from_utf8_lossy bs = [] \<longleftrightarrow> bs = []"
  by (auto simp: from_utf8_lossy.simps [of bs] split: utf8_step.splits)

lemma step_nats_bound:
  assumes "step_nats bs = Scalar c n" "\<forall>b \<in> set bs. b < 256"
  shows "c < 2097152"
  using assms
  by (cases bs) (auto simp: utf8_width_def second_ok_def is_cont_def split: if_splits list.splits)

lemma byte_less [simp]: "unat (b :: byte) < 256"
  using unsigned_less [of b] by simp

lemma char_of_slash: "char_of (47 :: nat) = CHR ''/''"
  by code_simp

lemma lossy_bound: "c \<in> set (from_utf8_lossy bs) \<Longrightarrow> c < 2097152"
proof (induction bs rule: from_utf8_lossy.induct)
  case (1 bs)
  have bytes: "\<forall>b \<in> set (map unat bs). b < 256" by auto
  show ?case
    using "1.prems" "1.IH" step_nats_bound [OF _ bytes]
    by (auto simp: from_utf8_lossy.simps [of bs] utf8_step_def REPLACEMENT_def split: if_splits utf8_step.splits)
qed

lemma encode_nats_slash:
  "c < 2097152 \<Longrightarrow> b \<in> set (encode_nats c) \<Longrightarrow> b < 256 \<and> (b = 47 \<longrightarrow> c = 47)"
  by (auto simp: encode_nats_def less_mult_imp_div_less split: if_splits)

definition part_ok :: "string \<Rightarrow> bool" where
  "part_ok p \<longleftrightarrow> p \<noteq> [] \<and> CHR ''/'' \<notin> set p"

lemma to_string_lossy_ok: "part_ok p \<Longrightarrow> part_ok (to_string_lossy p)"
proof -
  assume p: "part_ok p"
  define bs :: "byte list" where "bs = map (\<lambda>c. of_nat (of_char c)) p"
  define cs where "cs = from_utf8_lossy bs"
  have "47 \<notin> set bs"
  proof
    assume "47 \<in> set bs"
    then obtain c :: char where c: "c \<in> set p" "(of_nat (of_char c) :: byte) = 47" by (auto simp: bs_def)
    have "(of_char c :: nat) < 256" by simp
    then have "unat (of_nat (of_char c) :: byte) = of_char c" by (simp add: unat_of_nat take_bit_eq_mod)
    then have "of_char c = (47 :: nat)" using c(2) by simp
    then have "c = char_of (47 :: nat)" by (metis char_of_char)
    then show False using c(1) p char_of_slash by (simp add: part_ok_def)
  qed
  then have "47 \<notin> set cs" unfolding cs_def by (rule lossy_no_slash)
  moreover have "\<forall>c \<in> set cs. c < 2097152" using lossy_bound by (auto simp: cs_def)
  ultimately have bytes: "\<forall>b \<in> set (encode_utf8 cs). unat b \<noteq> 47"
    using encode_nats_slash by (fastforce simp: encode_utf8_def encode_char_def unat_of_nat take_bit_eq_mod)
  have "CHR ''/'' \<notin> set (to_string_lossy p)"
  proof
    assume "CHR ''/'' \<in> set (to_string_lossy p)"
    then obtain b where b: "b \<in> set (encode_utf8 cs)" "char_of (unat b) = CHR ''/''"
      by (auto simp: to_string_lossy_def cs_def bs_def)
    have "unat b = of_char (char_of (unat b) :: char)" by (simp add: of_char_of)
    then show False using b bytes by simp
  qed
  moreover have "to_string_lossy p \<noteq> []"
  proof -
    have "cs \<noteq> []" using p by (simp add: cs_def bs_def lossy_nonempty part_ok_def)
    moreover have "encode_char c \<noteq> []" for c by (simp add: encode_char_def encode_nats_def)
    ultimately have "encode_utf8 cs \<noteq> []" by (cases cs) (simp_all add: encode_utf8_def)
    then show ?thesis by (simp add: to_string_lossy_def cs_def bs_def)
  qed
  ultimately show ?thesis by (simp add: part_ok_def)
qed

lemma split_slash_parts: "p \<in> set (split_slash s) \<Longrightarrow> CHR ''/'' \<notin> set p"
proof (induction s arbitrary: p rule: split_slash.induct)
  case (2 c cs)
  then show ?case by (auto split: if_splits list.splits)
qed auto

lemma name_components_ok: "p \<in> set (name_components path) \<Longrightarrow> part_ok p"
proof -
  assume "p \<in> set (name_components path)"
  then obtain q where q: "Normal q \<in> set (path_components path)" "p = to_string_lossy q"
    by (auto simp: name_components_def normal_text_def split: component.splits)
  then have "q \<in> set (split_slash path)" "q \<noteq> []"
    by (auto simp: path_components_def component_of_def Let_def split: if_splits)
  then show ?thesis using q(2) split_slash_parts to_string_lossy_ok by (auto simp: part_ok_def)
qed

section \<open>Distinct paths have distinct plain names\<close>

lemma count_shared_Cons: "count_shared (p # ps) n = length (filter (\<lambda>m. m = n) (np_names p)) + count_shared ps n"
  by (simp add: count_shared_def)

lemma count_shared_member: "p \<in> set ps \<Longrightarrow> n \<in> set (np_names p) \<Longrightarrow> 1 \<le> count_shared ps n"
  by (induction ps) (auto simp: count_shared_Cons filter_empty_conv Suc_le_eq)

lemma count_shared_two:
  "i < j \<Longrightarrow> j < length ps \<Longrightarrow> n \<in> set (np_names (ps ! i)) \<Longrightarrow> n \<in> set (np_names (ps ! j)) \<Longrightarrow> 2 \<le> count_shared ps n"
proof (induction ps arbitrary: i j)
  case (Cons p ps)
  obtain j' where j': "j = Suc j'" using Cons.prems(1) by (cases j) auto
  show ?case
  proof (cases i)
    case 0
    have "1 \<le> count_shared ps n" using Cons.prems j' by (intro count_shared_member [of "ps ! j'"]) auto
    moreover have "1 \<le> length (filter (\<lambda>m. m = n) (np_names p))"
      using Cons.prems 0 by (simp add: Suc_le_eq filter_empty_conv)
    ultimately show ?thesis by (simp add: count_shared_Cons)
  next
    case (Suc i')
    then show ?thesis using Cons.IH [of i' j'] Cons.prems j' by (simp add: count_shared_Cons)
  qed
qed simp

lemma position_of_None: "position_of P xs = None \<Longrightarrow> x \<in> set xs \<Longrightarrow> \<not> P x"
  by (auto simp: position_of_def find_None_iff in_set_conv_nth)

lemma base_of_cases:
  assumes "np_names p \<noteq> []"
  shows "base_of keys reserved p \<in> set (np_names p)"
    "base_of keys reserved p = np_whole p \<or> (count_shared keys (base_of keys reserved p) \<le> 1 \<and> \<not> reserved (base_of keys reserved p))"
  using assms
  by (auto simp: base_of_def name_depth_def np_whole_def last_conv_nth split: option.splits dest!: position_of_less)

lemma bases_distinct:
  assumes "\<forall>p \<in> set keys. np_names p \<noteq> []" "distinct (map np_whole keys)"
  shows "distinct (map (base_of keys reserved) keys)"
proof -
  have False if "i < j" "j < length keys" "base_of keys reserved (keys ! i) = base_of keys reserved (keys ! j)" for i j
  proof -
    let ?n = "base_of keys reserved (keys ! i)"
    have in_names: "?n \<in> set (np_names (keys ! i))" "?n \<in> set (np_names (keys ! j))"
      using base_of_cases(1) [of "keys ! i" keys reserved] base_of_cases(1) [of "keys ! j" keys reserved] assms(1) that by auto
    have "2 \<le> count_shared keys ?n" by (rule count_shared_two [OF that(1,2) in_names])
    then have "?n = np_whole (keys ! i)" "?n = np_whole (keys ! j)"
      using base_of_cases(2) [of "keys ! i" keys reserved] base_of_cases(2) [of "keys ! j" keys reserved] assms(1) that by auto
    then show False using assms(2) that by (auto simp: distinct_conv_nth)
  qed
  then show ?thesis unfolding distinct_conv_nth by (metis length_map nat_neq_iff nth_map)
qed

section \<open>Grouping the requests\<close>

lemma mset_concat_update:
  "k < length xss \<Longrightarrow> mset (concat (xss[k := xss ! k @ [i]])) = add_mset i (mset (concat xss))"
  by (induction xss arbitrary: k) (auto split: nat.split simp: list_update_code)

lemma collect_keys_members:
  "mset (concat (map snd (collect_keys irs ks))) = mset (concat (map snd ks)) + mset (map fst irs)"
proof (induction irs ks rule: collect_keys.induct)
  case (2 i r rest ks)
  show ?case
  proof (cases "position_of (\<lambda>(p, members). np_whole p = np_whole (req_path r)) ks")
    case None
    then show ?thesis using 2 by simp
  next
    case (Some k)
    then have "k < length ks" by (auto dest: position_of_less)
    then show ?thesis using 2 Some mset_concat_update [of k "map snd ks" i] by (simp add: map_update)
  qed
qed simp

lemma collect_keys_paths:
  "distinct (map (np_whole \<circ> fst) ks) \<Longrightarrow>
   distinct (map (np_whole \<circ> fst) (collect_keys irs ks)) \<and>
   fst ` set (collect_keys irs ks) \<subseteq> fst ` set ks \<union> req_path ` snd ` set irs"
proof (induction irs ks rule: collect_keys.induct)
  case (2 i r rest ks)
  show ?case
  proof (cases "position_of (\<lambda>(p, members). np_whole p = np_whole (req_path r)) ks")
    case None
    then have "np_whole (req_path r) \<notin> set (map (np_whole \<circ> fst) ks)" by (auto dest: position_of_None)
    then have "distinct (map (np_whole \<circ> fst) (ks @ [(req_path r, [i])]))" using "2.prems" by (auto simp: comp_def)
    then show ?thesis using 2 None by auto
  next
    case (Some k)
    then have k: "k < length ks" by (auto dest: position_of_less)
    have same: "map fst (ks[k := (fst (ks ! k), snd (ks ! k) @ [i])]) = map fst ks"
      by (simp add: map_update) (metis k list_update_id nth_map)
    define ks' where "ks' = ks[k := (fst (ks ! k), snd (ks ! k) @ [i])]"
    have "map (np_whole \<circ> fst) ks' = map (np_whole \<circ> fst) ks" using same unfolding ks'_def by (metis map_map)
    then have "distinct (map (np_whole \<circ> fst) ks')" using "2.prems" by metis
    then have "distinct (map (np_whole \<circ> fst) (collect_keys rest ks')) \<and>
        fst ` set (collect_keys rest ks') \<subseteq> fst ` set ks' \<union> req_path ` snd ` set rest"
      using "2.IH" unfolding Some option.case ks'_def by blast
    moreover have "fst ` set ks' = fst ` set ks" using same unfolding ks'_def by (metis set_map)
    moreover have "collect_keys ((i, r) # rest) ks = collect_keys rest ks'" by (simp add: Some ks'_def)
    ultimately show ?thesis by (auto simp: comp_def)
  qed
qed simp

section \<open>Storing the names\<close>

lemma store_names_out:
  "\<forall>(i, name) \<in> set pairs. i < length out \<Longrightarrow> distinct (map fst pairs) \<Longrightarrow>
   returns (store_names pairs out) (\<lambda>out'. length out' = length out \<and>
     (\<forall>(i, name) \<in> set pairs. out' ! i = Some name) \<and> (\<forall>i. i \<notin> set (map fst pairs) \<longrightarrow> out' ! i = out ! i))"
proof (induction pairs out rule: store_names.induct)
  case (2 i name rest out)
  have i: "i < length out" using "2.prems"(1) by simp
  have "returns (store_names rest (out[i := Some name])) (\<lambda>out'. length out' = length (out[i := Some name]) \<and>
     (\<forall>(k, name) \<in> set rest. out' ! k = Some name) \<and> (\<forall>k. k \<notin> set (map fst rest) \<longrightarrow> out' ! k = out[i := Some name] ! k))"
    using "2.prems" i by (intro "2.IH") (auto simp: upd_opt_def)
  then obtain out' where "store_names rest (out[i := Some name]) = Some out'" "length out' = length out"
      "\<forall>(k, name) \<in> set rest. out' ! k = Some name" "\<forall>k. k \<notin> set (map fst rest) \<longrightarrow> out' ! k = out[i := Some name] ! k"
    by (auto elim: returnsE)
  then show ?case using "2.prems"(2) i by (auto simp: upd_opt_def)
qed simp

lemma name_keys_out:
  "\<forall>(base, ms) \<in> set ks. returns (name_holders base (map (\<lambda>i. req_holds (reqs ! i)) ms) (\<not> reserved base)
       (\<lambda>n. reserved n \<or> n \<in> set bases)) (\<lambda>names. length names = length ms) \<Longrightarrow>
   distinct (concat (map snd ks)) \<Longrightarrow> \<forall>i \<in> set (concat (map snd ks)). i < length out \<Longrightarrow>
   returns (name_keys reqs reserved bases ks out) (\<lambda>out'. length out' = length out \<and>
     (\<forall>(base, ms) \<in> set ks. \<exists>names. name_holders base (map (\<lambda>i. req_holds (reqs ! i)) ms) (\<not> reserved base)
        (\<lambda>n. reserved n \<or> n \<in> set bases) = Some names \<and> (\<forall>j < length ms. out' ! (ms ! j) = Some (names ! j))) \<and>
     (\<forall>i. i \<notin> set (concat (map snd ks)) \<longrightarrow> out' ! i = out ! i))"
proof (induction ks arbitrary: out)
  case (Cons k ks)
  obtain base ms where k: "k = (base, ms)" by fastforce
  let ?holders = "\<lambda>base ms. name_holders base (map (\<lambda>i. req_holds (reqs ! i)) ms) (\<not> reserved base) (\<lambda>n. reserved n \<or> n \<in> set bases)"
  obtain names where names: "?holders base ms = Some names" "length names = length ms"
    using Cons.prems(1) k by (auto elim: returnsE)
  have fst: "map fst (zip ms names) = ms" using names(2) by simp
  have "returns (store_names (zip ms names) out) (\<lambda>out'. length out' = length out \<and>
     (\<forall>(i, name) \<in> set (zip ms names). out' ! i = Some name) \<and> (\<forall>i. i \<notin> set (map fst (zip ms names)) \<longrightarrow> out' ! i = out ! i))"
    using Cons.prems(2,3) k fst by (intro store_names_out) (auto dest: set_zip_leftD)
  then obtain out1 where out1: "store_names (zip ms names) out = Some out1" "length out1 = length out"
      "\<forall>(i, name) \<in> set (zip ms names). out1 ! i = Some name" "\<forall>i. i \<notin> set ms \<longrightarrow> out1 ! i = out ! i"
    using fst by (auto elim: returnsE)
  have mine: "out1 ! (ms ! j) = Some (names ! j)" if "j < length ms" for j
    using out1(3) that names(2) by (auto simp: in_set_zip)
  obtain out2 where out2: "name_keys reqs reserved bases ks out1 = Some out2" "length out2 = length out1"
      "\<forall>(base, ms) \<in> set ks. \<exists>names. ?holders base ms = Some names \<and> (\<forall>j < length ms. out2 ! (ms ! j) = Some (names ! j))"
      "\<forall>i. i \<notin> set (concat (map snd ks)) \<longrightarrow> out2 ! i = out1 ! i"
    using Cons.IH [of out1] Cons.prems k out1(2) by (auto elim: returnsE)
  have "ms ! j \<notin> set (concat (map snd ks))" if "j < length ms" for j
  proof -
    have "ms ! j \<in> set ms" using that by simp
    then show ?thesis using Cons.prems(2) k by (auto simp: disjoint_iff)
  qed
  then have "\<forall>j < length ms. out2 ! (ms ! j) = Some (names ! j)" using mine out2(4) by simp
  then show ?case using k names out1 out2 by auto
qed simp

text \<open>
  The names derived for a set of requests: one for each, all different, none reserved; each is a name of the path
  requested or such a name with a number.
\<close>

lemma derive_names_distinct:
  assumes "\<forall>r \<in> set reqs. np_names (req_path r) \<noteq> []" and "finite {n. reserved n}"
  shows "returns (derive_names reqs reserved) (\<lambda>out. length out = length reqs \<and> distinct out \<and> (\<forall>x \<in> set out. \<not> reserved x))"
proof -
  define ks where "ks = collect_keys (enumerate 0 reqs) []"
  define keys where "keys = map fst ks"
  define bases where "bases = map (base_of keys reserved) keys"
  let ?taken = "\<lambda>n. reserved n \<or> n \<in> set bases"
  let ?holders = "\<lambda>base ms. name_holders base (map (\<lambda>i. req_holds (reqs ! i)) ms) (\<not> reserved base) ?taken"
  let ?kb = "zip bases (map snd ks)"
  have len: "length bases = length ks" by (simp add: bases_def keys_def)
  have snd_kb: "map snd ?kb = map snd ks" using len by simp
  have members: "mset (concat (map snd ks)) = mset [0..<length reqs]"
    using collect_keys_members [of "enumerate 0 reqs" "[]"] by (simp add: ks_def)
  have part: "distinct (concat (map snd ks))" "set (concat (map snd ks)) = {0..<length reqs}"
    using mset_eq_imp_distinct_iff [OF members] mset_eq_setD [OF members] by simp_all
  have keys: "distinct (map np_whole keys)" "\<forall>p \<in> set keys. np_names p \<noteq> []"
  proof -
    have c: "distinct (map (np_whole \<circ> fst) ks) \<and> fst ` set ks \<subseteq> req_path ` snd ` set (enumerate 0 reqs)"
      using collect_keys_paths [of "[]" "enumerate 0 reqs"] by (simp add: ks_def)
    then show "distinct (map np_whole keys)" by (simp add: keys_def)
    have "snd ` set (enumerate 0 reqs) = set reqs" by (metis map_snd_enumerate set_map)
    then show "\<forall>p \<in> set keys. np_names p \<noteq> []" using c assms(1) by (fastforce simp: keys_def)
  qed
  have distinct_bases: "distinct bases" unfolding bases_def by (rule bases_distinct [OF keys(2,1)])
  have holders: "returns (?holders base ms) (\<lambda>names. length names = length ms \<and> distinct names \<and>
      (\<forall>x \<in> set names. (x = base \<and> \<not> reserved base) \<or> (suffixed base x \<and> \<not> ?taken x)))" for base ms
  proof -
    have "finite {n. ?taken n}" using assms(2) by simp
    then have "finite (numbered base -` {n. ?taken n})" by (rule finite_vimageI) (auto intro: injI numbered_inj)
    then have "finite {n. ?taken (numbered base n)}" by (simp add: vimage_def)
    from name_holders_names [OF this, of "map (\<lambda>i. req_holds (reqs ! i)) ms" "\<not> reserved base"] show ?thesis by simp
  qed
  have "returns (name_keys reqs reserved bases ?kb (replicate (length reqs) None)) (\<lambda>out'. length out' = length reqs \<and>
     (\<forall>(base, ms) \<in> set ?kb. \<exists>names. ?holders base ms = Some names \<and> (\<forall>j < length ms. out' ! (ms ! j) = Some (names ! j))))"
  proof (rule returns_weaken [OF name_keys_out])
    show "\<forall>(base, ms) \<in> set ?kb. returns (?holders base ms) (\<lambda>names. length names = length ms)"
      using holders by (auto intro: returns_weaken)
  qed (use part in \<open>auto simp: snd_kb\<close>)
  then obtain out where out: "name_keys reqs reserved bases ?kb (replicate (length reqs) None) = Some out" "length out = length reqs"
      "\<forall>(base, ms) \<in> set ?kb. \<exists>names. ?holders base ms = Some names \<and> (\<forall>j < length ms. out ! (ms ! j) = Some (names ! j))"
    by (auto elim: returnsE)
  text \<open>Every position belongs to one key.\<close>
  have at: "\<exists>k j names. k < length ks \<and> j < length (snd (ks ! k)) \<and> snd (ks ! k) ! j = i \<and>
      ?holders (bases ! k) (snd (ks ! k)) = Some names \<and> out ! i = Some (names ! j)" if "i < length reqs" for i
  proof -
    have "i \<in> set (concat (map snd ks))" using part(2) that by simp
    then obtain p where p: "p \<in> set ks" "i \<in> set (snd p)" by auto
    then obtain k where k: "k < length ks" "i \<in> set (snd (ks ! k))" by (metis in_set_conv_nth)
    then obtain j where j: "j < length (snd (ks ! k))" "snd (ks ! k) ! j = i" by (auto simp: in_set_conv_nth)
    have "(bases ! k, snd (ks ! k)) \<in> set ?kb" using k(1) len by (auto simp: in_set_zip intro: exI [of _ k])
    then show ?thesis using out(3) k(1) j by fastforce
  qed
  define own where "own k x \<longleftrightarrow> (x = bases ! k \<and> \<not> reserved (bases ! k)) \<or> (suffixed (bases ! k) x \<and> \<not> ?taken x)" for k x
  have own: "own k (names ! j) \<and> distinct names \<and> length names = length (snd (ks ! k))"
    if "?holders (bases ! k) (snd (ks ! k)) = Some names" "j < length (snd (ks ! k))" for k j names
  proof -
    have "length names = length (snd (ks ! k)) \<and> distinct names \<and>
        (\<forall>x \<in> set names. (x = bases ! k \<and> \<not> reserved (bases ! k)) \<or> (suffixed (bases ! k) x \<and> \<not> ?taken x))"
      using holders [of "bases ! k" "snd (ks ! k)"] that(1) by (auto elim: returnsE)
    then show ?thesis using that(2) by (simp add: own_def)
  qed
  have apart: "k = k'" if "own k x" "own k' x" "k < length ks" "k' < length ks" for k k' x
  proof -
    have in_bases: "bases ! k \<in> set bases" "bases ! k' \<in> set bases" using that(3,4) len by simp_all
    have "bases ! k = bases ! k'"
      using that(1,2) in_bases suffixed_base_unique unfolding own_def by metis
    then show ?thesis using distinct_bases that(3,4) len by (simp add: nth_eq_iff_index_eq)
  qed
  have filled: "\<exists>x. out ! i = Some x \<and> \<not> reserved x" if "i < length reqs" for i
    using at [OF that] own by (fastforce simp: own_def)
  have different: "i = i'" if i: "i < length reqs" "i' < length reqs" and same: "out ! i = out ! i'" for i i'
  proof -
    obtain k j names where a: "k < length ks" "j < length (snd (ks ! k))" "snd (ks ! k) ! j = i"
        "?holders (bases ! k) (snd (ks ! k)) = Some names" "out ! i = Some (names ! j)" using at [OF i(1)] by blast
    obtain k' j' names' where b: "k' < length ks" "j' < length (snd (ks ! k'))" "snd (ks ! k') ! j' = i'"
        "?holders (bases ! k') (snd (ks ! k')) = Some names'" "out ! i' = Some (names' ! j')" using at [OF i(2)] by blast
    have eq: "names ! j = names' ! j'" using a(5) b(5) same by simp
    then have "k = k'" using apart [of k "names ! j" k'] own [OF a(4,2)] own [OF b(4,2)] a(1) b(1) by simp
    then have "j = j'" using eq a(2,4) b(2,4) own [OF a(4,2)] by (simp add: nth_eq_iff_index_eq)
    then show ?thesis using \<open>k = k'\<close> a(3) b(3) by simp
  qed
  have all: "list_all (\<lambda>x. x \<noteq> None) out" using filled out(2) by (auto simp: list_all_length)
  have names: "derive_names reqs reserved = Some (map the out)"
    using out(1) all by (simp add: derive_names_def ks_def bases_def keys_def Let_def)
  have "distinct (map the out)"
    unfolding distinct_conv_nth using different filled out(2) by (metis length_map nth_map option.sel)
  moreover have "\<forall>x \<in> set (map the out). \<not> reserved x" using filled out(2) by (fastforce simp: in_set_conv_nth)
  ultimately show ?thesis using names out(2) by (simp add: returns_def)
qed

text \<open>The keeper of the plain name gets it, and only what is taken among the numbered names matters.\<close>

definition keeper :: "string \<Rightarrow> string list \<Rightarrow> nat" where
  "keeper base holds = (case position_of (\<lambda>h. h = base) holds of Some i \<Rightarrow> i | None \<Rightarrow> 0)"

lemma keeper_less: "holds \<noteq> [] \<Longrightarrow> keeper base holds < length holds"
  by (auto simp: keeper_def dest: position_of_less split: option.split)

lemma keep_suffixed_slot:
  "keep_suffixed base taken slots used = (out, used') \<Longrightarrow> j < length slots \<Longrightarrow> fst (slots ! j) = Some x \<Longrightarrow> out ! j = Some x"
proof (induction base taken slots used arbitrary: out used' j rule: keep_suffixed.induct)
  case (2 base taken slot held rest used)
  show ?case
  proof (cases j)
    case 0
    then show ?thesis using "2.prems" by (auto split: prod.splits if_splits)
  next
    case (Suc k)
    show ?thesis
    proof (cases "slot = None \<and> is_suffixed base held \<and> \<not> taken held \<and> held \<notin> set used")
      case True
      obtain o1 u1 where o1: "keep_suffixed base taken rest (held # used) = (o1, u1)" by fastforce
      then show ?thesis using "2.IH"(1) [OF True o1, of k] "2.prems" True Suc by auto
    next
      case False
      obtain o1 u1 where o1: "keep_suffixed base taken rest used = (o1, u1)" by fastforce
      have out: "out = slot # o1" using "2.prems"(1) False o1 by auto
      have "o1 ! k = Some x" using "2.prems"(2,3) Suc by (intro "2.IH"(2) [OF False o1, of k]) auto
      then show ?thesis using out Suc by simp
    qed
  qed
qed simp

lemma number_rest_slot:
  "number_rest base taken out used n = Some names \<Longrightarrow> j < length out \<Longrightarrow> out ! j = Some x \<Longrightarrow> names ! j = x"
proof (induction base taken out used n arbitrary: names j rule: number_rest.induct)
  case (3 base taken slots used n)
  then show ?case by (cases j) (auto split: Option.bind_splits)
qed (auto simp: nth_Cons split: nat.splits)

lemma name_holders_keeper:
  assumes "name_holders base holds True taken = Some names" "holds \<noteq> []"
  shows "names ! keeper base holds = base"
proof -
  let ?slots = "zip (keep_base base holds True) holds"
  obtain out used where o: "keep_suffixed base taken ?slots [] = (out, used)" by fastforce
  have k: "keeper base holds < length holds" using assms(2) by (rule keeper_less)
  have slot: "fst (?slots ! keeper base holds) = Some base"
    using k assms(2) keep_base_given(1) [of base holds True] by (simp add: keep_base_def keeper_def Let_def)
  have len: "length ?slots = length holds" using keep_base_given(1) by simp
  have "out ! keeper base holds = Some base"
    using keep_suffixed_slot [OF o _ slot] k len by simp
  moreover have "length out = length holds"
    using keep_suffixed_given [OF o] keep_base_given [of base holds True] assms(2) by simp
  moreover have "number_rest base taken out used 2 = Some names" using assms(1) o by (simp add: name_holders_def)
  ultimately show ?thesis using number_rest_slot k by metis
qed

definition first_free :: "string \<Rightarrow> (string \<Rightarrow> bool) \<Rightarrow> string list \<Rightarrow> nat \<Rightarrow> nat \<Rightarrow> bool" where
  "first_free base taken used n m \<longleftrightarrow>
     n \<le> m \<and> \<not> taken (numbered base m) \<and> numbered base m \<notin> set used \<and>
     (\<forall>k. n \<le> k \<and> k < m \<longrightarrow> taken (numbered base k) \<or> numbered base k \<in> set used)"

lemma first_free_step:
  assumes "first_free base taken used (n + 1) m" "taken (numbered base n) \<or> numbered base n \<in> set used"
  shows "first_free base taken used n m"
  using assms by (auto simp: first_free_def) (metis Suc_leI le_neq_implies_less)+

lemma next_free_result:
  assumes "next_free base taken used n = Some m"
  shows "first_free base taken used n m"
proof (rule next_free.raw_induct [where P = first_free, OF _ assms])
  fix nf base taken used n m
  assume IH: "\<And>base taken used n m. nf base taken used n = Some m \<Longrightarrow> first_free base taken used n m"
    and step: "(if \<not> taken (numbered base n) \<and> numbered base n \<notin> set used then Some n else nf base taken used (n + 1)) = Some m"
  show "first_free base taken used n m"
  proof (cases "\<not> taken (numbered base n) \<and> numbered base n \<notin> set used")
    case True
    then show ?thesis using step by (auto simp: first_free_def)
  next
    case False
    then have "nf base taken used (n + 1) = Some m" using step by (simp split: if_splits)
    then show ?thesis using IH first_free_step False by blast
  qed
qed

lemma next_free_iff: "next_free base taken used n = Some m \<longleftrightarrow> first_free base taken used n m"
proof
  assume "first_free base taken used n m"
  then obtain k where k: "next_free base taken used n = Some k" "k \<le> m"
    using next_free_finds [of n m taken base used] by (auto simp: first_free_def)
  then have "k = m" using next_free_result [OF k(1)] \<open>first_free base taken used n m\<close>
    by (auto simp: first_free_def le_less)
  then show "next_free base taken used n = Some m" using k by simp
qed (rule next_free_result)

lemma next_free_cong:
  assumes "\<forall>x. suffixed base x \<longrightarrow> taken x = taken' x"
  shows "next_free base taken used n = next_free base taken' used n"
proof -
  have "first_free base taken used n m = first_free base taken' used n m" for m
    using assms by (simp add: first_free_def)
  then show ?thesis by (metis next_free_iff not_None_eq)
qed

lemma number_rest_cong:
  assumes "\<forall>x. suffixed base x \<longrightarrow> taken x = taken' x"
  shows "number_rest base taken out used n = number_rest base taken' out used n"
proof (induction out arbitrary: used n)
  case (Cons slot out)
  then show ?case using next_free_cong [OF assms] by (cases slot) simp_all
qed simp

lemma keep_suffixed_cong:
  assumes "\<forall>x. suffixed base x \<longrightarrow> taken x = taken' x"
  shows "keep_suffixed base taken slots used = keep_suffixed base taken' slots used"
proof (induction slots arbitrary: used)
  case (Cons p rest)
  have "is_suffixed base (snd p) \<Longrightarrow> taken (snd p) = taken' (snd p)" using assms is_suffixed_form by blast
  then show ?case using Cons by (cases p) auto
qed simp

lemma name_holders_cong:
  assumes "\<forall>x. suffixed base x \<longrightarrow> taken x = taken' x"
  shows "name_holders base holds base_free taken = name_holders base holds base_free taken'"
  unfolding name_holders_def keep_suffixed_cong [OF assms] number_rest_cong [OF assms] by (rule refl)

section \<open>Groups\<close>

lemma join_slash_last:
  "ps \<noteq> [] \<Longrightarrow> \<exists>pre. join_slash ps = pre @ last ps \<and> (pre = [] \<or> last pre = CHR ''/'')"
proof (induction ps rule: join_slash.induct)
  case (3 p q ps)
  then obtain pre where "join_slash (q # ps) = pre @ last (q # ps)" "pre = [] \<or> last pre = CHR ''/''" by auto
  then show ?case by (intro exI [of _ "p @ ''/'' @ pre"]) auto
qed auto

lemma part_ok_last: "part_ok p \<Longrightarrow> p \<noteq> [] \<and> last p \<noteq> CHR ''/'' \<and> CHR ''/'' \<notin> set p"
  using last_in_set by (fastforce simp: part_ok_def)

lemma render_last:
  assumes "parts \<noteq> []" "\<forall>p \<in> set parts. part_ok p" "1 \<le> depth"
  shows "\<exists>pre. render parts depth directory = pre @ last parts @ (if directory then ''/'' else []) \<and> (pre = [] \<or> last pre = CHR ''/'')"
proof -
  have ok: "part_ok (last parts)" using assms(1,2) by simp
  have slash: "\<not> (pre @ last parts \<noteq> [] \<and> last (pre @ last parts) = CHR ''/'')" for pre
    using part_ok_last [OF ok] by simp
  show ?thesis
  proof (cases "length parts < depth")
    case True
    obtain pre where "join_slash parts = pre @ last parts" "pre = [] \<or> last pre = CHR ''/''"
      using join_slash_last [OF assms(1)] by blast
    then show ?thesis
      using True slash [of "''/'' @ pre"] by (intro exI [of _ "''/'' @ pre"]) (auto simp: render_def)
  next
    case False
    then have d: "drop (length parts - depth) parts \<noteq> []" "last (drop (length parts - depth) parts) = last parts"
      using assms(1,3) by (auto simp: last_drop)
    obtain pre where "join_slash (drop (length parts - depth) parts) = pre @ last parts" "pre = [] \<or> last pre = CHR ''/''"
      using join_slash_last [OF d(1)] d(2) by auto
    then show ?thesis using False slash [of pre] by (intro exI [of _ pre]) (auto simp: render_def)
  qed
qed

lemma group_of_name:
  assumes "part_ok l" "pre = [] \<or> last pre = CHR ''/''"
  shows "group_of (pre @ l @ (if directory then ''/'' else [])) = l @ (if directory then ''/'' else [])"
proof -
  have l: "l \<noteq> []" "last l \<noteq> CHR ''/''" "CHR ''/'' \<notin> set l" using part_ok_last [OF assms(1)] by simp_all
  have body: "strip_last_slash (pre @ l @ (if directory then ''/'' else [])) = pre @ l"
    using l by (auto simp: strip_last_slash_def strip_suffix_char_def butlast_append)
  have "takeWhile (\<lambda>c. c \<noteq> CHR ''/'') (rev l @ rev pre) = rev l @ takeWhile (\<lambda>c. c \<noteq> CHR ''/'') (rev pre)"
    using l(3) by (intro takeWhile_append2) auto
  moreover have "takeWhile (\<lambda>c. c \<noteq> CHR ''/'') (rev pre) = []"
    using assms(2) by (cases pre rule: rev_cases) auto
  ultimately show ?thesis by (simp add: group_of_def body)
qed

lemma group_of_path_names:
  assumes "n \<in> set (np_names (name_path_new path directory))"
  shows "group_of n = np_group (name_path_new path directory)"
proof -
  define parts where "parts = name_components path"
  have names: "np_names (name_path_new path directory) = map (\<lambda>depth. render parts depth directory) [1..<length parts + 2]"
    by (simp add: name_path_new_def parts_def Let_def)
  have first: "np_group (name_path_new path directory) = render parts 1 directory"
  proof -
    have "[1..<length parts + 2] = 1 # [2..<length parts + 2]" using upt_conv_Cons [of 1 "length parts + 2"] by (simp add: numeral_2_eq_2)
    then show ?thesis unfolding np_group_def names by (metis list.map(2) list.sel(1))
  qed
  obtain depth where depth: "1 \<le> depth" "depth < length parts + 2" "n = render parts depth directory" using assms names by auto
  show ?thesis
  proof (cases "parts = []")
    case True
    then have "depth = 1" using depth by simp
    moreover have "group_of (render [] 1 directory) = render [] 1 directory"
      by (simp add: render_def group_of_def strip_last_slash_def strip_suffix_char_def)
    ultimately show ?thesis using True depth(3) first by simp
  next
    case False
    have ok: "\<forall>p \<in> set parts. part_ok p" using name_components_ok by (auto simp: parts_def)
    then have last: "part_ok (last parts)" using False by simp
    have "group_of (render parts d directory) = last parts @ (if directory then ''/'' else [])" if "1 \<le> d" for d
      using render_last [OF False ok that, of directory] group_of_name [OF last] by metis
    moreover have "group_of (render parts 1 directory) = render parts 1 directory"
    proof -
      have "render parts 1 directory = last parts @ (if directory then ''/'' else [])"
        using False part_ok_last [OF last] by (cases parts rule: rev_cases) (auto simp: render_def)
      then show ?thesis using group_of_name [OF last, of "[]" directory] by simp
    qed
    ultimately show ?thesis using depth first by simp
  qed
qed

text \<open>The names of a path: distinct, and the whole path is the one that starts at the root.\<close>

lemma np_names_new:
  "np_names (name_path_new path directory) =
     map (\<lambda>depth. render (name_components path) depth directory) [1..<length (name_components path) + 2]"
  by (simp add: name_path_new_def Let_def)

lemma np_names_nonempty [simp]: "np_names (name_path_new path directory) \<noteq> []"
  by (simp add: np_names_new)

lemma np_whole_new: "np_whole (name_path_new path directory) = render (name_components path) (length (name_components path) + 1) directory"
  by (simp add: np_whole_def np_names_new last_map)

lemma join_slash_shorter: "ps \<noteq> [] \<Longrightarrow> \<forall>p \<in> set ps. p \<noteq> [] \<Longrightarrow> length (join_slash (tl ps)) < length (join_slash ps)"
  by (induction ps rule: join_slash.induct) auto

lemma join_slash_first: "ps \<noteq> [] \<Longrightarrow> hd ps \<noteq> [] \<Longrightarrow> take 1 (join_slash ps) = take 1 (hd ps) \<and> join_slash ps \<noteq> []"
  by (cases ps rule: join_slash.cases; cases "hd ps") auto

lemma render_first:
  assumes "\<forall>p \<in> set parts. part_ok p" "1 \<le> depth" "depth \<le> length parts + 1"
  shows "take 1 (render parts depth directory) = ''/'' \<longleftrightarrow> depth = length parts + 1"
proof (cases "depth = length parts + 1")
  case True
  then show ?thesis by (simp add: render_def Let_def)
next
  case False
  define ps where "ps = drop (length parts - depth) parts"
  have ne: "ps \<noteq> []" using False assms(2,3) by (simp add: ps_def)
  then have "hd ps \<in> set parts" unfolding ps_def by (metis hd_in_set in_set_dropD)
  then have "hd ps \<noteq> []" "CHR ''/'' \<notin> set (hd ps)" using assms(1) part_ok_last by blast+
  then have "take 1 (join_slash ps) \<noteq> ''/''" "join_slash ps \<noteq> []" using join_slash_first [OF ne] by (cases "hd ps"; auto)+
  then show ?thesis using False assms(3) by (cases "join_slash ps") (auto simp: render_def Let_def ps_def [symmetric])
qed

lemma np_whole_first:
  assumes "n \<in> set (np_names (name_path_new path directory))"
  shows "take 1 n = ''/'' \<longleftrightarrow> n = np_whole (name_path_new path directory)"
proof -
  let ?parts = "name_components path"
  obtain d where d: "1 \<le> d" "d \<le> length ?parts + 1" "n = render ?parts d directory" using assms by (auto simp: np_names_new)
  have ok: "\<forall>p \<in> set ?parts. part_ok p" using name_components_ok by blast
  have "take 1 n = ''/'' \<longleftrightarrow> d = length ?parts + 1" using render_first [OF ok d(1,2), of directory] d(3) by blast
  moreover have "take 1 (render ?parts (length ?parts + 1) directory) = ''/''"
    using render_first [OF ok, of "length ?parts + 1" directory] by simp
  ultimately show ?thesis unfolding np_whole_new using d(3) by metis
qed

lemma render_length_less:
  assumes "\<forall>p \<in> set parts. part_ok p" "1 \<le> d" "d \<le> length parts"
  shows "length (render parts d directory) < length (render parts (Suc d) directory)"
proof -
  have slash: "last (join_slash ps) \<noteq> CHR ''/'' \<and> join_slash ps \<noteq> []" if "ps \<noteq> []" "set ps \<subseteq> set parts" for ps
  proof -
    have "part_ok (last ps)" using that assms(1) last_in_set by blast
    then have "last ps \<noteq> []" "last (last ps) \<noteq> CHR ''/''" using part_ok_last by blast+
    then show ?thesis using join_slash_last [OF that(1)] by fastforce
  qed
  have nonempty: "\<forall>p \<in> set parts. p \<noteq> []" using assms(1) part_ok_last by blast
  define ps where "ps = drop (length parts - d) parts"
  have ps: "ps \<noteq> []" "set ps \<subseteq> set parts" using assms(2,3) by (auto simp: ps_def dest: in_set_dropD)
  show ?thesis
  proof (cases "d = length parts")
    case True
    then have "ps = parts" by (simp add: ps_def)
    then show ?thesis using True slash [OF ps] by (simp add: render_def Let_def)
  next
    case False
    define qs where "qs = drop (length parts - Suc d) parts"
    have "tl qs = ps" using False assms(3) by (simp add: qs_def ps_def tl_drop drop_Suc [symmetric] Suc_diff_Suc)
    moreover have qs: "qs \<noteq> []" "set qs \<subseteq> set parts" using assms(2,3) False by (auto simp: qs_def dest: in_set_dropD)
    ultimately have "length (join_slash ps) < length (join_slash qs)" using join_slash_shorter [of qs] nonempty by blast
    then show ?thesis using False assms(3) slash [OF ps] slash [OF qs]
      by (simp add: render_def Let_def ps_def [symmetric] qs_def [symmetric])
  qed
qed

lemma np_names_distinct: "distinct (np_names (name_path_new path directory))"
proof -
  let ?r = "\<lambda>d. length (render (name_components path) d directory)"
  have ok: "\<forall>p \<in> set (name_components path). part_ok p" using name_components_ok by blast
  have less: "?r d < ?r e" if "1 \<le> d" "d < e" "e \<le> length (name_components path) + 1" for d e
    using that(2,3)
  proof (induction e)
    case (Suc e)
    have step: "?r e < ?r (Suc e)" if "1 \<le> e" using render_length_less [OF ok that] Suc.prems by simp
    show ?case using Suc step that(1) by (cases "d = e") (auto intro: less_trans)
  qed simp
  have "inj_on (\<lambda>d. render (name_components path) d directory) (set [1..<length (name_components path) + 2])"
  proof (rule inj_onI)
    fix d e
    assume "d \<in> set [1..<length (name_components path) + 2]" "e \<in> set [1..<length (name_components path) + 2]"
      "render (name_components path) d directory = render (name_components path) e directory"
    then show "d = e" using less [of d e] less [of e d] by (cases d e rule: linorder_cases) auto
  qed
  then show ?thesis by (simp add: np_names_new distinct_map)
qed

section \<open>Properties\<close>

text \<open>The example of the source's tests, and one path held twice beside a reserved name.\<close>

lemma derive_names_examples:
  "derive_names (map (\<lambda>p. \<lparr>req_path = name_path_new p False, req_holds = []\<rparr>) [''/p/src/a.rs'', ''/p/tests/a.rs'', ''/p/b.rs''])
     (\<lambda>_. False) = Some [''src/a.rs'', ''tests/a.rs'', ''b.rs'']"
  "derive_names (map (\<lambda>p. \<lparr>req_path = name_path_new p False, req_holds = []\<rparr>) [''/a.rs'', ''/a.rs'', ''/x/a.rs''])
     (\<lambda>n. n = ''x/a.rs'') = Some [''/a.rs'', ''/a.rs<2>'', ''/x/a.rs'']"
  by code_simp+

text \<open>
  The search for a free number ends exactly when there is one, and then finds the smallest from its start; so
  it ends whenever finitely many names are taken.
\<close>

theorem numbering_terminates:
  "(next_free base taken used n \<noteq> None \<longleftrightarrow> (\<exists>m \<ge> n. \<not> taken (numbered base m) \<and> numbered base m \<notin> set used)) \<and>
   (next_free base taken used n =
      (if \<exists>m \<ge> n. \<not> taken (numbered base m) \<and> numbered base m \<notin> set used
       then Some (LEAST m. n \<le> m \<and> \<not> taken (numbered base m) \<and> numbered base m \<notin> set used) else None))"
proof -
  let ?free = "\<lambda>m. n \<le> m \<and> \<not> taken (numbered base m) \<and> numbered base m \<notin> set used"
  show ?thesis
  proof (cases "next_free base taken used n")
    case None
    then have "\<not> (\<exists>m. ?free m)" using next_free_finds [of n _ taken base used] by fastforce
    then show ?thesis using None by auto
  next
    case (Some m)
    note r = next_free_result [OF Some, unfolded first_free_def]
    then have "(LEAST m. ?free m) = m" by (intro Least_equality) (auto simp: not_less [symmetric])
    moreover have "\<exists>m. ?free m" using r by blast
    ultimately show ?thesis using Some by simp
  qed
qed

text \<open>
  Naming a set of path-backed buffers always succeeds when finitely many names are reserved: every buffer gets a
  name, no two the same, and none a reserved name, whatever paths are shared and whatever names are held.
\<close>

theorem derived_names_unique:
  assumes "\<forall>r \<in> set reqs. \<exists>path directory. req_path r = name_path_new path directory" and "finite {n. reserved n}"
  shows "\<exists>out. derive_names reqs reserved = Some out \<and> length out = length reqs \<and> distinct out \<and> (\<forall>x \<in> set out. \<not> reserved x)"
proof -
  have "\<forall>r \<in> set reqs. np_names (req_path r) \<noteq> []" using assms(1) by (fastforce simp: name_path_new_def Let_def)
  from derive_names_distinct [OF this assms(2)] show ?thesis by (auto elim: returnsE)
qed

theorem derived_names_unique_witness:
  "\<exists>out. derive_names
       [\<lparr>req_path = name_path_new ''/p/src/a'' False, req_holds = ''a''\<rparr>, \<lparr>req_path = name_path_new ''/p/src/a'' False, req_holds = []\<rparr>,
        \<lparr>req_path = name_path_new ''/p/a'' True, req_holds = []\<rparr>] (\<lambda>n. n = ''a'') = Some out \<and>
     length out = 3 \<and> distinct out \<and> (\<forall>x \<in> set out. x \<noteq> ''a'')"
  using derived_names_unique [of "[\<lparr>req_path = name_path_new ''/p/src/a'' False, req_holds = ''a''\<rparr>,
      \<lparr>req_path = name_path_new ''/p/src/a'' False, req_holds = []\<rparr>, \<lparr>req_path = name_path_new ''/p/a'' True, req_holds = []\<rparr>]"
      "\<lambda>n. n = ''a''"] by (auto simp: numeral_3_eq_3)

text \<open>
  A name belongs to one group: every name a path can be shown by has the path's basename as its group, so two
  paths that share a name are in the same group, which is where the registry looks.
\<close>

theorem shared_names_in_one_group:
  assumes "n \<in> set (np_names (name_path_new path directory))" and "n \<in> set (np_names (name_path_new path' directory'))"
  shows "np_group (name_path_new path directory) = np_group (name_path_new path' directory') \<and>
     np_group (name_path_new path directory) \<in> set (groups_of_name n)"
  using group_of_path_names [OF assms(1)] group_of_path_names [OF assms(2)] by (simp add: groups_of_name_def)

theorem shared_names_in_one_group_witness:
  "np_group (name_path_new ''/x/a'' False) = np_group (name_path_new ''y/a'' False) \<and>
     np_group (name_path_new ''/x/a'' False) \<in> set (groups_of_name ''a'')"
  by (rule shared_names_in_one_group) code_simp+

end
