(* ===== verification/Registry_Index.thy ===== *)
theory Registry_Index
  imports Buffer_Registry Buffer_Naming
begin

text \<open>
  The invariant of the naming index of \<^verbatim>\<open>src/src/buffer_registry.rs\<close>: its counts are the counts of the names that are
  held, each path of a group counts and xors the paths its names are shared by, and every path outside the dirty set is
  named by the rule. Filing and unfiling a buffer keep it, marking every path whose name they can move.
\<close>

section \<open>Maps and tallies\<close>

lemma lookup_delete': "Mapping.lookup (Mapping.delete k m) k' = (if k = k' then None else Mapping.lookup m k')"
  by simp

lemmas lookup_simps = lookup_update' lookup_delete'

text \<open>A tally of a set of paths: how many they are and the xor of their ids.\<close>

definition xor_all :: "(string \<Rightarrow> nat) \<Rightarrow> string list \<Rightarrow> nat" where
  "xor_all f ws = foldr (\<lambda>w x. x XOR f w) ws 0"

lemma xor_all_simps [simp]: "xor_all f [] = 0" "xor_all f (w # ws) = xor_all f ws XOR f w"
  by (simp_all add: xor_all_def)

lemma xor_all_remove: "w \<in> set ws \<Longrightarrow> xor_all f (remove1 w ws) = xor_all f ws XOR f w"
proof (induction ws)
  case (Cons v ws)
  show ?case
  proof (cases "v = w")
    case True
    then show ?thesis by (simp add: xor.assoc)
  next
    case False
    then have "xor_all f (remove1 w (v # ws)) = (xor_all f ws XOR f w) XOR f v" using Cons by simp
    then show ?thesis by (simp add: xor.assoc xor.commute [of "f v"])
  qed
qed simp

definition tally :: "(string \<Rightarrow> nat) \<Rightarrow> string set \<Rightarrow> nat \<times> nat \<Rightarrow> bool" where
  "tally f A entry \<longleftrightarrow> (\<exists>ws. distinct ws \<and> set ws = A \<and> entry = (length ws, xor_all f ws))"

lemma tally_empty: "tally f {} (0, 0)"
  by (simp add: tally_def)

lemma tally_insert: "tally f A (c, x) \<Longrightarrow> w \<notin> A \<Longrightarrow> tally f (insert w A) (c + 1, x XOR f w)"
  unfolding tally_def by (elim exE, rule_tac x = "w # ws" in exI) auto

lemma tally_remove: "tally f A (c, x) \<Longrightarrow> w \<in> A \<Longrightarrow> 0 < c \<and> tally f (A - {w}) (c - 1, x XOR f w)"
  unfolding tally_def
  by (elim exE, intro conjI, force, rule_tac x = "remove1 w ws" in exI)
    (auto simp: length_remove1 xor_all_remove distinct_remove1)

lemma tally_card: "tally f A (c, x) \<Longrightarrow> finite A \<and> c = card A"
  by (auto simp: tally_def distinct_card)

lemma tally_single: "tally f {w} (c, x) \<Longrightarrow> c = 1 \<and> x = f w"
proof -
  assume "tally f {w} (c, x)"
  then obtain ws where ws: "distinct ws" "set ws = {w}" "c = length ws" "x = xor_all f ws" by (auto simp: tally_def)
  then have "length ws = 1" using distinct_card [OF ws(1)] by simp
  then show ?thesis using ws by (cases ws) auto
qed

lemma tally_cong: "tally f A cx \<Longrightarrow> (\<forall>w \<in> A. f w = g w) \<Longrightarrow> tally g A cx"
proof -
  assume "tally f A cx" and eq: "\<forall>w \<in> A. f w = g w"
  then obtain ws where ws: "distinct ws" "set ws = A" "cx = (length ws, xor_all f ws)" by (auto simp: tally_def)
  have "set us \<subseteq> A \<Longrightarrow> xor_all f us = xor_all g us" for us using eq by (induction us) auto
  then show ?thesis using ws by (auto simp: tally_def)
qed

text \<open>The table of the names of a group: a tally for each name some path has.\<close>

definition tally_at :: "(string \<Rightarrow> nat) \<Rightarrow> string set \<Rightarrow> (nat \<times> nat) option \<Rightarrow> bool" where
  "tally_at f A entry \<longleftrightarrow> (case entry of None \<Rightarrow> A = {} | Some cx \<Rightarrow> A \<noteq> {} \<and> tally f A cx)"

definition tallies :: "(string \<Rightarrow> nat) \<Rightarrow> (string \<Rightarrow> string set) \<Rightarrow> (string, nat \<times> nat) mapping \<Rightarrow> bool" where
  "tallies f H shared \<longleftrightarrow> (\<forall>n. tally_at f (H n) (Mapping.lookup shared n))"

lemma tallies_lookup:
  assumes "tallies f H shared"
  shows "Mapping.lookup shared n = Some cx \<Longrightarrow> H n \<noteq> {} \<and> tally f (H n) cx" "Mapping.lookup shared n = None \<Longrightarrow> H n = {}"
proof -
  have "tally_at f (H n) (Mapping.lookup shared n)" using assms by (simp add: tallies_def)
  then show "Mapping.lookup shared n = Some cx \<Longrightarrow> H n \<noteq> {} \<and> tally f (H n) cx" "Mapping.lookup shared n = None \<Longrightarrow> H n = {}"
    by (simp_all add: tally_at_def)
qed

lemma tallies_entry: "tallies f H shared \<Longrightarrow> tally f (H n) (case Mapping.lookup shared n of Some e \<Rightarrow> e | None \<Rightarrow> (0, 0))"
  using tallies_lookup [of f H shared n] tally_empty by (auto split: option.split)

lemma tallies_put:
  assumes "tallies f H shared" "tally f A cx" "A \<noteq> {}"
  shows "tallies f (H(n := A)) (Mapping.update n cx shared)"
  using assms by (simp add: tallies_def lookup_simps tally_at_def [of f A "Some cx"])

lemma tallies_del: "tallies f H shared \<Longrightarrow> tallies f (H(n := {})) (Mapping.delete n shared)"
  by (simp add: tallies_def lookup_simps tally_at_def [of f "{}" None])

lemma share_names_tallies:
  assumes "tallies f H shared" "distinct names" "\<forall>n \<in> set names. w \<notin> H n" "f w = path_id"
    "share_names gname named path_id names shared dirty = (shared', dirty')"
  shows "tallies f (\<lambda>n. if n \<in> set names then insert w (H n) else H n) shared' \<and> set dirty \<subseteq> set dirty' \<and>
    (\<forall>n \<in> set names. \<forall>other. card (H n) = 1 \<longrightarrow> Mapping.lookup named n = Some other \<longrightarrow> (gname, other) \<in> set dirty')"
  using assms
proof (induction names arbitrary: H shared dirty)
  case (Cons name names)
  obtain c x where cx: "(case Mapping.lookup shared name of Some e \<Rightarrow> e | None \<Rightarrow> (0, 0)) = (c, x)" by fastforce
  have t: "tally f (H name) (c, x)" using tallies_entry [OF Cons.prems(1), of name] cx by simp
  define d1 where "d1 = (if c + 1 = 2
      then (case Mapping.lookup named name of Some other \<Rightarrow> List.insert (gname, other) dirty | None \<Rightarrow> dirty) else dirty)"
  let ?H = "H(name := insert w (H name))"
  have tal: "tallies f ?H (Mapping.update name (c + 1, x XOR path_id) shared)"
    using tally_insert [OF t, of w] Cons.prems(3,4) by (intro tallies_put [OF Cons.prems(1)]) simp_all
  have step: "share_names gname named path_id names (Mapping.update name (c + 1, x XOR path_id) shared) d1 = (shared', dirty')"
    using Cons.prems(5) cx by (simp add: d1_def Let_def)
  have IH: "tallies f (\<lambda>n. if n \<in> set names then insert w (?H n) else ?H n) shared' \<and> set d1 \<subseteq> set dirty' \<and>
      (\<forall>n \<in> set names. \<forall>other. card (?H n) = 1 \<longrightarrow> Mapping.lookup named n = Some other \<longrightarrow> (gname, other) \<in> set dirty')"
    by (rule Cons.IH [OF tal _ _ _ step]) (use Cons.prems(2-4) in auto)
  have d1: "set dirty \<subseteq> set d1" "card (H name) = 1 \<Longrightarrow> Mapping.lookup named name = Some other \<Longrightarrow> (gname, other) \<in> set d1" for other
    using tally_card [OF t] by (auto simp: d1_def split: option.splits)
  have "(\<lambda>n. if n \<in> set names then insert w (?H n) else ?H n) = (\<lambda>n. if n \<in> set (name # names) then insert w (H n) else H n)"
    using Cons.prems(2) by (intro ext) auto
  moreover have same: "?H n = H n" if "n \<in> set names" for n using that Cons.prems(2) by auto
  have "\<forall>n \<in> set names. \<forall>other. card (H n) = 1 \<longrightarrow> Mapping.lookup named n = Some other \<longrightarrow> (gname, other) \<in> set dirty'"
    using IH same by metis
  ultimately show ?case using IH d1 by (auto simp: subset_iff)
qed simp

lemma unshare_names_tallies:
  assumes "tallies f H shared" "distinct names" "\<forall>n \<in> set names. w \<in> H n" "f w = path_id"
  shows "returns (unshare_names gname by_id path_id names shared dirty)
    (\<lambda>(shared', dirty').
       tallies f (\<lambda>n. if n \<in> set names then H n - {w} else H n) shared' \<and> set dirty \<subseteq> set dirty' \<and>
       (\<forall>n \<in> set names. \<forall>v other. H n - {w} = {v} \<longrightarrow> Mapping.lookup by_id (f v) = Some other \<longrightarrow> (gname, other) \<in> set dirty'))"
  using assms
proof (induction names arbitrary: H shared dirty)
  case (Cons name names)
  obtain c x where cx: "Mapping.lookup shared name = Some (c, x)" "tally f (H name) (c, x)"
    using tallies_lookup [OF Cons.prems(1), of name] Cons.prems(3) by (cases "Mapping.lookup shared name") auto
  have t: "0 < c" "tally f (H name - {w}) (c - 1, x XOR path_id)"
    using tally_remove [OF cx(2), of w] Cons.prems(3,4) by auto
  let ?H = "H(name := H name - {w})"
  define s1 where "s1 = (if c - 1 = 0 then Mapping.delete name shared else Mapping.update name (c - 1, x XOR path_id) shared)"
  define d1 where "d1 = (if c - 1 = 1
      then (case Mapping.lookup by_id (x XOR path_id) of Some other \<Rightarrow> List.insert (gname, other) dirty | None \<Rightarrow> dirty) else dirty)"
  have card: "finite (H name - {w})" "card (H name - {w}) = c - 1" using tally_card [OF t(2)] by auto
  have tal: "tallies f ?H s1"
  proof (cases "c - 1 = 0")
    case True
    then have "H name - {w} = {}" using card by simp
    then show ?thesis unfolding s1_def using True tallies_del [OF Cons.prems(1), of name] by metis
  next
    case False
    then have "H name - {w} \<noteq> {}" using card by (metis card.empty)
    then show ?thesis using False tallies_put [OF Cons.prems(1) t(2), of name] by (simp add: s1_def)
  qed
  have IH: "returns (unshare_names gname by_id path_id names s1 d1)
    (\<lambda>(shared', dirty').
       tallies f (\<lambda>n. if n \<in> set names then ?H n - {w} else ?H n) shared' \<and> set d1 \<subseteq> set dirty' \<and>
       (\<forall>n \<in> set names. \<forall>v other. ?H n - {w} = {v} \<longrightarrow> Mapping.lookup by_id (f v) = Some other \<longrightarrow> (gname, other) \<in> set dirty'))"
    by (rule Cons.IH [OF tal]) (use Cons.prems(2-4) in auto)
  have d1: "set dirty \<subseteq> set d1"
      "H name - {w} = {v} \<Longrightarrow> Mapping.lookup by_id (f v) = Some other \<Longrightarrow> (gname, other) \<in> set d1" for v other
    using tally_single [of f v "c - 1" "x XOR path_id"] t(2) by (auto simp: d1_def split: option.splits)
  have step: "unshare_names gname by_id path_id (name # names) shared dirty = unshare_names gname by_id path_id names s1 d1"
    using cx(1) t(1) by (simp add: s1_def d1_def sub_opt_def Let_def)
  have eq: "(\<lambda>n. if n \<in> set names then ?H n - {w} else ?H n) = (\<lambda>n. if n \<in> set (name # names) then H n - {w} else H n)"
    using Cons.prems(2) by (intro ext) auto
  have same: "?H n = H n" if "n \<in> set names" for n using that Cons.prems(2) by auto
  obtain s2 d2 where r: "unshare_names gname by_id path_id names s1 d1 = Some (s2, d2)"
      "tallies f (\<lambda>n. if n \<in> set (name # names) then H n - {w} else H n) s2" "set d1 \<subseteq> set d2"
      "\<forall>n \<in> set names. \<forall>v other. ?H n - {w} = {v} \<longrightarrow> Mapping.lookup by_id (f v) = Some other \<longrightarrow> (gname, other) \<in> set d2"
    using IH unfolding eq by (elim returnsE) (clarsimp split: prod.splits)
  have "\<forall>n \<in> set names. \<forall>v other. H n - {w} = {v} \<longrightarrow> Mapping.lookup by_id (f v) = Some other \<longrightarrow> (gname, other) \<in> set d2"
    using r(4) same by metis
  then show ?case unfolding step r(1) using r(2,3) d1 by (auto simp: subset_iff)
qed simp

section \<open>What is filed\<close>

text \<open>
  A filing is what the index knows: the name each registered buffer holds and, for a buffer named by a path, the group
  and the path, by its whole name.
\<close>

type_synonym filing = "nat \<Rightarrow> (string \<times> (string \<times> string) option) option"

definition name_count :: "filing \<Rightarrow> string \<Rightarrow> nat" where
  "name_count fl n = card {i. \<exists>m. fl i = Some (n, m)}"

definition reserved_count :: "filing \<Rightarrow> string \<Rightarrow> nat" where
  "reserved_count fl n = card {i. fl i = Some (n, None)}"

definition counts :: "(string, nat) mapping \<Rightarrow> (string \<Rightarrow> nat) \<Rightarrow> bool" where
  "counts m f \<longleftrightarrow> (\<forall>n. Mapping.lookup m n = (if f n = 0 then None else Some (f n)))"

lemma countsD: "counts m f \<Longrightarrow> Mapping.lookup m n = (if f n = 0 then None else Some (f n))"
  by (simp add: counts_def)

definition one_at :: "string \<Rightarrow> string \<Rightarrow> nat" where
  "one_at n0 n = (if n = n0 then 1 else 0)"

lemma counts_up: "counts m f \<Longrightarrow> counts (count_up n0 m) (\<lambda>n. f n + one_at n0 n)"
  by (auto simp: counts_def count_up_def one_at_def lookup_simps)

lemma counts_down:
  assumes "counts m (\<lambda>n. f n + one_at n0 n)"
  obtains m' where "count_down n0 m = Some m'" "counts m' f"
proof -
  have "Mapping.lookup m n0 = Some (f n0 + 1)" using countsD [OF assms, of n0] by (simp add: one_at_def)
  then obtain m' where m': "count_down n0 m = Some m'"
      "m' = (if f n0 = 0 then Mapping.delete n0 m else Mapping.update n0 (f n0) m)"
    by (simp add: count_down_def sub_opt_def)
  have "counts m' f"
    unfolding counts_def m'(2)
  proof
    fix n
    have "Mapping.lookup m n = (if f n + one_at n0 n = 0 then None else Some (f n + one_at n0 n))" using countsD [OF assms] .
    then show "Mapping.lookup (if f n0 = 0 then Mapping.delete n0 m else Mapping.update n0 (f n0) m) n = (if f n = 0 then None else Some (f n))"
      by (auto simp: one_at_def lookup_simps)
  qed
  then show thesis using m'(1) that by blast
qed

lemma filing_subset: "{i. \<exists>m. fl i = Some (n, m)} \<subseteq> dom fl" "{i. fl i = Some (n, None)} \<subseteq> dom fl"
  by auto

lemma name_count_add:
  assumes "finite (dom fl)" "fl i = None"
  shows "name_count (fl(i \<mapsto> (n0, m0))) = (\<lambda>n. name_count fl n + one_at n0 n)"
proof
  fix n
  have fin: "finite {j. \<exists>m. fl j = Some (n, m)}" using assms(1) filing_subset finite_subset by metis
  have "{j. \<exists>m. (fl(i \<mapsto> (n0, m0))) j = Some (n, m)} = (if n = n0 then insert i {j. \<exists>m. fl j = Some (n, m)} else {j. \<exists>m. fl j = Some (n, m)})"
    using assms(2) by auto
  then show "name_count (fl(i \<mapsto> (n0, m0))) n = name_count fl n + one_at n0 n"
    using fin assms(2) by (cases "n = n0") (simp_all add: name_count_def one_at_def)
qed

lemma reserved_count_add:
  assumes "finite (dom fl)" "fl i = None"
  shows "reserved_count (fl(i \<mapsto> (n0, m0))) = (\<lambda>n. reserved_count fl n + (if m0 = None then one_at n0 n else 0))"
proof
  fix n
  have fin: "finite {j. fl j = Some (n, None)}" using assms(1) filing_subset finite_subset by metis
  have "{j. (fl(i \<mapsto> (n0, m0))) j = Some (n, None)} =
      (if n = n0 \<and> m0 = None then insert i {j. fl j = Some (n, None)} else {j. fl j = Some (n, None)})"
    using assms(2) by auto
  then show "reserved_count (fl(i \<mapsto> (n0, m0))) n = reserved_count fl n + (if m0 = None then one_at n0 n else 0)"
    using fin assms(2) by (cases "n = n0"; cases m0) (simp_all add: reserved_count_def one_at_def)
qed

lemma counts_remove:
  assumes "finite (dom fl)" "fl i = Some (n0, m0)"
  shows "name_count fl = (\<lambda>n. name_count (fl(i := None)) n + one_at n0 n)"
    "reserved_count fl = (\<lambda>n. reserved_count (fl(i := None)) n + (if m0 = None then one_at n0 n else 0))"
proof -
  have fl: "fl = (fl(i := None))(i \<mapsto> (n0, m0))" using assms(2) by auto
  have fin: "finite (dom (fl(i := None)))" using assms(1) by simp
  show "name_count fl = (\<lambda>n. name_count (fl(i := None)) n + one_at n0 n)"
    using name_count_add [OF fin, of i n0 m0] fl by simp
  show "reserved_count fl = (\<lambda>n. reserved_count (fl(i := None)) n + (if m0 = None then one_at n0 n else 0))"
    using reserved_count_add [OF fin, of i n0 m0] fl by simp
qed

lemma name_count_pos: "finite (dom fl) \<Longrightarrow> name_count fl n = 0 \<longleftrightarrow> (\<forall>i m. fl i \<noteq> Some (n, m))"
  using finite_subset [OF filing_subset(1), of fl n] by (auto simp: name_count_def)

lemma reserved_count_pos: "finite (dom fl) \<Longrightarrow> reserved_count fl n = 0 \<longleftrightarrow> (\<forall>i. fl i \<noteq> Some (n, None))"
  using finite_subset [OF filing_subset(2), of fl n] by (auto simp: reserved_count_def)

section \<open>Groups\<close>

definition is_np :: "path_names \<Rightarrow> bool" where
  "is_np p \<longleftrightarrow> (\<exists>path directory. p = name_path_new path directory)"

lemma is_np_facts:
  assumes "is_np p"
  shows "distinct (np_names p)" "np_names p \<noteq> []" "np_whole p \<in> set (np_names p)"
    "n \<in> set (np_names p) \<Longrightarrow> group_of n = np_group p"
    "n \<in> set (np_names p) \<Longrightarrow> take 1 n = ''/'' \<longleftrightarrow> n = np_whole p"
proof -
  obtain path directory where p: "p = name_path_new path directory" using assms by (auto simp: is_np_def)
  show "distinct (np_names p)" "np_names p \<noteq> []" "np_whole p \<in> set (np_names p)"
    by (simp_all add: p np_names_distinct np_whole_def)
  show "n \<in> set (np_names p) \<Longrightarrow> group_of n = np_group p" by (simp add: p group_of_path_names)
  show "n \<in> set (np_names p) \<Longrightarrow> take 1 n = ''/'' \<longleftrightarrow> n = np_whole p" unfolding p by (rule np_whole_first)
qed

definition having :: "path_group \<Rightarrow> string \<Rightarrow> string set" where
  "having g n = {w. \<exists>e. Mapping.lookup (g_paths g) w = Some e \<and> n \<in> set (np_names (gp_path e))}"

definition gid :: "path_group \<Rightarrow> string \<Rightarrow> nat" where
  "gid g w = (case Mapping.lookup (g_paths g) w of Some e \<Rightarrow> gp_id e | None \<Rightarrow> 0)"

definition shown :: "path_group \<Rightarrow> string \<Rightarrow> string \<Rightarrow> bool" where
  "shown g w n \<longleftrightarrow>
     (\<exists>e d. Mapping.lookup (g_paths g) w = Some e \<and> gp_depth e = Some d \<and> d < length (np_names (gp_path e)) \<and> np_names (gp_path e) ! d = n)"

definition entry_ok :: "string \<Rightarrow> nat \<Rightarrow> path_group \<Rightarrow> string \<Rightarrow> group_path \<Rightarrow> bool" where
  "entry_ok gname next_path g w e \<longleftrightarrow>
     is_np (gp_path e) \<and> np_group (gp_path e) = gname \<and> np_whole (gp_path e) = w \<and>
     (\<forall>d. gp_depth e = Some d \<longrightarrow> d < length (np_names (gp_path e))) \<and>
     Mapping.lookup (g_by_id g) (gp_id e) = Some w \<and> gp_id e < next_path"

definition group_ok :: "string \<Rightarrow> nat \<Rightarrow> path_group \<Rightarrow> bool" where
  "group_ok gname next_path g \<longleftrightarrow>
     (\<forall>w e. Mapping.lookup (g_paths g) w = Some e \<longrightarrow> entry_ok gname next_path g w e) \<and>
     (\<forall>k w. Mapping.lookup (g_by_id g) k = Some w \<longrightarrow> (\<exists>e. Mapping.lookup (g_paths g) w = Some e \<and> gp_id e = k)) \<and>
     tallies (gid g) (having g) (g_shared g) \<and>
     (\<forall>n w. Mapping.lookup (g_named g) n = Some w \<longleftrightarrow> shown g w n)"

lemma group_okD:
  assumes "group_ok gname next_path g"
  shows "Mapping.lookup (g_paths g) w = Some e \<Longrightarrow> entry_ok gname next_path g w e"
    "Mapping.lookup (g_by_id g) k = Some w \<Longrightarrow> \<exists>e. Mapping.lookup (g_paths g) w = Some e \<and> gp_id e = k"
    "tallies (gid g) (having g) (g_shared g)"
    "Mapping.lookup (g_named g) n = Some w \<longleftrightarrow> shown g w n"
  using assms by (auto simp: group_ok_def)

lemma group_ok_new: "group_ok gname next_path path_group_new"
  by (simp add: group_ok_def path_group_new_def having_def shown_def tallies_def tally_at_def)

lemma group_ok_mono: "group_ok gname k g \<Longrightarrow> k \<le> k' \<Longrightarrow> group_ok gname k' g"
  by (fastforce simp: group_ok_def entry_ok_def)

text \<open>Changing the holders of a path changes none of this.\<close>

lemma lookup_holders:
  fixes hs :: "(nat \<times> nat) list"
  assumes "Mapping.lookup (g_paths g) w = Some e"
  defines "g' \<equiv> g\<lparr>g_paths := Mapping.update w (e\<lparr>gp_holders := hs\<rparr>) (g_paths g)\<rparr>"
  shows "having g' = having g" "gid g' = gid g" "shown g' = shown g" "shared_name g' = shared_name g"
    "g_shared g' = g_shared g" "g_named g' = g_named g" "g_by_id g' = g_by_id g"
proof -
  show "having g' = having g" using assms by (intro ext) (auto simp: having_def lookup_simps split: if_splits)
  show "gid g' = gid g" using assms by (intro ext) (auto simp: gid_def lookup_simps)
  show "shown g' = shown g" using assms by (intro ext) (auto simp: shown_def lookup_simps split: if_splits)
qed (auto simp: g'_def shared_name_def)

lemma group_ok_holders:
  assumes "group_ok gname k g" "Mapping.lookup (g_paths g) w = Some e"
  shows "group_ok gname k (g\<lparr>g_paths := Mapping.update w (e\<lparr>gp_holders := hs\<rparr>) (g_paths g)\<rparr>)"
  unfolding group_ok_def lookup_holders [OF assms(2)]
  using assms by (auto simp: group_ok_def entry_ok_def lookup_simps split: if_splits) (metis option.inject)

text \<open>A shared name is one that two paths have; a whole path is never shared.\<close>

lemma shared_name_card:
  assumes "group_ok gname k g"
  shows "shared_name g n \<longleftrightarrow> 1 < card (having g n)" "finite (having g n)"
proof -
  note t = group_okD(3) [OF assms]
  show "shared_name g n \<longleftrightarrow> 1 < card (having g n)"
    using tallies_lookup [OF t, of n] tally_card by (auto simp: shared_name_def split: option.splits)
  show "finite (having g n)"
    using tallies_lookup [OF t, of n] tally_card by (cases "Mapping.lookup (g_shared g) n") fastforce+
qed

lemma whole_not_shared:
  assumes "group_ok gname k g" "Mapping.lookup (g_paths g) w = Some e"
  shows "having g w = {w}" "\<not> shared_name g w"
proof -
  note ok = group_okD(1) [OF assms(1), unfolded entry_ok_def]
  have "v = w" if "v \<in> having g w" for v
  proof -
    obtain f where f: "Mapping.lookup (g_paths g) v = Some f" "w \<in> set (np_names (gp_path f))" using \<open>v \<in> having g w\<close> by (auto simp: having_def)
    have "take 1 w = ''/''" using is_np_facts(3) [of "gp_path e"] is_np_facts(5) [of "gp_path e" w] ok [OF assms(2)] by metis
    then show "v = w" using is_np_facts(5) [of "gp_path f" w] ok [OF f(1)] f(2) by metis
  qed
  moreover have "w \<in> having g w" using is_np_facts(3) [of "gp_path e"] ok [OF assms(2)] assms(2) by (auto simp: having_def)
  ultimately show "having g w = {w}" by blast
  then show "\<not> shared_name g w" using shared_name_card [OF assms(1)] by simp
qed

section \<open>The invariant\<close>

subsection \<open>The name a path is shown by\<close>

definition depth_of :: "(string \<Rightarrow> bool) \<Rightarrow> path_group \<Rightarrow> group_path \<Rightarrow> nat" where
  "depth_of res g e = name_depth (gp_path e) (shared_name g) res"

definition base_name :: "(string \<Rightarrow> bool) \<Rightarrow> path_group \<Rightarrow> group_path \<Rightarrow> string" where
  "base_name res g e = np_names (gp_path e) ! depth_of res g e"

lemma name_depth_less: "np_names p \<noteq> [] \<Longrightarrow> name_depth p sh res < length (np_names p)"
  by (auto simp: name_depth_def dest: position_of_less split: option.split)

lemma name_depth_base:
  fixes sh res :: "string \<Rightarrow> bool"
  assumes "np_names p \<noteq> []"
  defines "n \<equiv> np_names p ! name_depth p sh res"
  shows "n \<in> set (np_names p)" "(\<not> sh n \<and> \<not> res n) \<or> n = np_whole p"
proof -
  show "n \<in> set (np_names p)" unfolding n_def using name_depth_less [OF assms(1)] by simp
  show "(\<not> sh n \<and> \<not> res n) \<or> n = np_whole p"
    using assms(1) by (auto simp: n_def name_depth_def np_whole_def last_conv_nth dest: position_of_less split: option.split)
qed

lemma position_of_cong: "(\<And>x. x \<in> set xs \<Longrightarrow> P x = Q x) \<Longrightarrow> position_of P xs = position_of Q xs"
  unfolding position_of_def by (intro find_cong) auto

lemma name_depth_cong:
  "(\<And>n. n \<in> set (np_names p) \<Longrightarrow> (\<not> sh n \<and> \<not> res n) = (\<not> sh' n \<and> \<not> res' n)) \<Longrightarrow> name_depth p sh res = name_depth p sh' res'"
  unfolding name_depth_def using position_of_cong [of "np_names p" "\<lambda>n. \<not> sh n \<and> \<not> res n" "\<lambda>n. \<not> sh' n \<and> \<not> res' n"] by simp

lemma position_of_Some_iff: "position_of P xs = Some i \<longleftrightarrow> i < length xs \<and> P (xs ! i) \<and> (\<forall>j < i. \<not> P (xs ! j))"
  by (auto simp: position_of_def find_Some_iff)

lemma position_of_None_iff: "position_of P xs = None \<longleftrightarrow> (\<forall>x \<in> set xs. \<not> P x)"
  by (auto simp: position_of_def find_None_iff all_set_conv_all_nth)

lemma name_depth_grow:
  assumes "np_names p \<noteq> []" "\<And>n. n \<in> set (np_names p) \<Longrightarrow> sh n \<Longrightarrow> sh' n"
    and "sh' (np_names p ! name_depth p sh res) = sh (np_names p ! name_depth p sh res)"
  shows "name_depth p sh' res = name_depth p sh res"
proof (cases "position_of (\<lambda>n. \<not> sh n \<and> \<not> res n) (np_names p)")
  case (Some i)
  then have "name_depth p sh res = i" by (simp add: name_depth_def)
  then have "position_of (\<lambda>n. \<not> sh' n \<and> \<not> res n) (np_names p) = Some i"
    using Some assms(2,3) by (auto simp: position_of_Some_iff)
  then show ?thesis using Some by (simp add: name_depth_def)
next
  case None
  then have "position_of (\<lambda>n. \<not> sh' n \<and> \<not> res n) (np_names p) = None"
    using assms(2) unfolding position_of_None_iff by blast
  then show ?thesis using None by (simp add: name_depth_def)
qed

lemma base_name_facts:
  assumes "group_ok gname k g" "Mapping.lookup (g_paths g) w = Some e"
  shows "base_name res g e \<in> set (np_names (gp_path e))" "\<not> shared_name g (base_name res g e)"
    "having g (base_name res g e) = {w}" "depth_of res g e < length (np_names (gp_path e))"
proof -
  have np: "np_names (gp_path e) \<noteq> []" "np_whole (gp_path e) = w"
    using is_np_facts(2) group_okD(1) [OF assms] by (auto simp: entry_ok_def)
  show b: "base_name res g e \<in> set (np_names (gp_path e))"
    unfolding base_name_def depth_of_def by (rule name_depth_base(1) [OF np(1)])
  show d: "\<not> shared_name g (base_name res g e)"
    using name_depth_base(2) [OF np(1), of "shared_name g" res] whole_not_shared(2) [OF assms] np(2)
    unfolding base_name_def depth_of_def by auto
  have "w \<in> having g (base_name res g e)" using b assms(2) by (auto simp: having_def)
  moreover have "card (having g (base_name res g e)) \<le> 1" "finite (having g (base_name res g e))"
    using d shared_name_card [OF assms(1)] by (auto simp: not_less)
  ultimately show "having g (base_name res g e) = {w}"
    by (metis card_le_Suc0_iff_eq is_singletonI' is_singleton_the_elem empty_iff One_nat_def singletonD)
  show "depth_of res g e < length (np_names (gp_path e))" unfolding depth_of_def by (rule name_depth_less [OF np(1)])
qed

lemma base_name_unique:
  assumes "group_ok gname k g" "Mapping.lookup (g_paths g) w = Some e"
    and "group_ok gname' k g'" "Mapping.lookup (g_paths g') w' = Some e'"
    and "base_name res g e = base_name res g' e'" "gname = gname' \<Longrightarrow> g = g'"
  shows "gname = gname' \<and> w = w'"
proof -
  have g: "group_of (base_name res g e) = gname" "group_of (base_name res g' e') = gname'"
    using is_np_facts(4) base_name_facts(1) [OF assms(1,2)] group_okD(1) [OF assms(1,2)]
      base_name_facts(1) [OF assms(3,4)] group_okD(1) [OF assms(3,4)] by (auto simp: entry_ok_def)
  then have same: "gname = gname'" using assms(5) by simp
  then have "g = g'" using assms(6) by blast
  then show ?thesis using same base_name_facts(3) [OF assms(1,2), of res] base_name_facts(3) [OF assms(3,4), of res] assms(5) by simp
qed

subsection \<open>The index and what is settled\<close>

definition reserved_name :: "name_index \<Rightarrow> string \<Rightarrow> bool" where
  "reserved_name ix n \<longleftrightarrow> Mapping.lookup (ix_reserved ix) n \<noteq> None"

definition filed_at :: "name_index \<Rightarrow> string \<Rightarrow> string \<Rightarrow> path_group \<Rightarrow> group_path \<Rightarrow> bool" where
  "filed_at ix gname w g e \<longleftrightarrow> Mapping.lookup (ix_groups ix) gname = Some g \<and> Mapping.lookup (g_paths g) w = Some e"

definition holders_ok :: "(nat, nat) mapping \<Rightarrow> filing \<Rightarrow> string \<Rightarrow> string \<Rightarrow> group_path \<Rightarrow> bool" where
  "holders_ok place fl gname w e \<longleftrightarrow>
     gp_holders e \<noteq> [] \<and> sorted_wrt (<) (map fst (gp_holders e)) \<and>
     set (gp_holders e) = {(pl, i). Mapping.lookup place i = Some pl \<and> (\<exists>n. fl i = Some (n, Some (gname, w)))}"

definition place_ok :: "(nat, nat) mapping \<Rightarrow> nat \<Rightarrow> filing \<Rightarrow> bool" where
  "place_ok place next_place fl \<longleftrightarrow>
     (\<forall>i \<in> dom fl. Mapping.lookup place i \<noteq> None) \<and>
     (\<forall>i pl. Mapping.lookup place i = Some pl \<longrightarrow> pl < next_place) \<and>
     (\<forall>i j pl. Mapping.lookup place i = Some pl \<longrightarrow> Mapping.lookup place j = Some pl \<longrightarrow> i = j)"

definition groups_ok :: "name_index \<Rightarrow> filing \<Rightarrow> bool" where
  "groups_ok ix fl \<longleftrightarrow>
     (\<forall>gname g. Mapping.lookup (ix_groups ix) gname = Some g \<longrightarrow> group_ok gname (ix_next_path ix) g) \<and>
     (\<forall>gname w g e. filed_at ix gname w g e \<longrightarrow> holders_ok (ix_place ix) fl gname w e) \<and>
     (\<forall>i n gname w. fl i = Some (n, Some (gname, w)) \<longrightarrow> (\<exists>g e. filed_at ix gname w g e))"

definition index_ok :: "name_index \<Rightarrow> filing \<Rightarrow> bool" where
  "index_ok ix fl \<longleftrightarrow>
     finite (dom fl) \<and> counts (ix_held ix) (name_count fl) \<and> counts (ix_reserved ix) (reserved_count fl) \<and>
     (\<forall>i. Mapping.lookup (ix_member ix) i = Option.bind (fl i) snd) \<and>
     place_ok (ix_place ix) (ix_next_place ix) fl \<and> groups_ok ix fl"

lemma index_okD:
  assumes "index_ok ix fl"
  shows "finite (dom fl)" "counts (ix_held ix) (name_count fl)" "counts (ix_reserved ix) (reserved_count fl)"
    "Mapping.lookup (ix_member ix) i = Option.bind (fl i) snd" "place_ok (ix_place ix) (ix_next_place ix) fl" "groups_ok ix fl"
  using assms by (simp_all add: index_ok_def)

lemma groups_okD:
  assumes "groups_ok ix fl"
  shows "Mapping.lookup (ix_groups ix) gname = Some g \<Longrightarrow> group_ok gname (ix_next_path ix) g"
    "filed_at ix gname w g e \<Longrightarrow> holders_ok (ix_place ix) fl gname w e"
    "fl i = Some (n, Some (gname, w)) \<Longrightarrow> \<exists>g e. filed_at ix gname w g e"
  using assms unfolding groups_ok_def by blast+

lemma filed_atD: "filed_at ix gname w g e \<Longrightarrow> Mapping.lookup (ix_groups ix) gname = Some g \<and> Mapping.lookup (g_paths g) w = Some e"
  by (simp add: filed_at_def)

lemma filed_group_ok:
  assumes "index_ok ix fl" "filed_at ix gname w g e"
  shows "group_ok gname (ix_next_path ix) g" "Mapping.lookup (g_paths g) w = Some e" "holders_ok (ix_place ix) fl gname w e"
  using groups_okD [OF index_okD(6) [OF assms(1)]] assms(2) by (auto simp: filed_at_def)

lemma reserved_name_iff: "index_ok ix fl \<Longrightarrow> reserved_name ix n \<longleftrightarrow> (\<exists>i. fl i = Some (n, None))"
  using countsD [OF index_okD(3)] reserved_count_pos [OF index_okD(1)] by (simp add: reserved_name_def)

text \<open>What the names of a path's holders are, and that no other buffer holds one of its numbered names.\<close>

definition holder_names :: "filing \<Rightarrow> group_path \<Rightarrow> string list" where
  "holder_names fl e = map (\<lambda>(_, i). fst (the (fl i))) (gp_holders e)"

definition well_named :: "string \<Rightarrow> bool \<Rightarrow> string list \<Rightarrow> bool" where
  "well_named base free names \<longleftrightarrow>
     distinct names \<and> (\<forall>x \<in> set names. (x = base \<and> free) \<or> suffixed base x) \<and> (free \<longrightarrow> base \<in> set names)"

definition alone :: "filing \<Rightarrow> string \<times> string \<Rightarrow> string \<Rightarrow> string list \<Rightarrow> bool" where
  "alone fl key base names \<longleftrightarrow> (\<forall>x \<in> set names. suffixed base x \<longrightarrow> (\<forall>i m. fl i = Some (x, m) \<longrightarrow> m = Some key))"

definition clean :: "filing \<Rightarrow> (string \<Rightarrow> bool) \<Rightarrow> string \<Rightarrow> string \<Rightarrow> path_group \<Rightarrow> group_path \<Rightarrow> bool" where
  "clean fl res gname w g e \<longleftrightarrow>
     gp_depth e = Some (depth_of res g e) \<and>
     well_named (base_name res g e) (\<not> res (base_name res g e)) (holder_names fl e) \<and>
     alone fl (gname, w) (base_name res g e) (holder_names fl e)"

definition settled :: "name_index \<Rightarrow> filing \<Rightarrow> (string \<times> string) set \<Rightarrow> bool" where
  "settled ix fl D \<longleftrightarrow> (\<forall>gname w g e. filed_at ix gname w g e \<longrightarrow> (gname, w) \<notin> D \<longrightarrow> clean fl (reserved_name ix) gname w g e)"

lemma settledD: "settled ix fl D \<Longrightarrow> filed_at ix gname w g e \<Longrightarrow> (gname, w) \<notin> D \<Longrightarrow> clean fl (reserved_name ix) gname w g e"
  by (simp add: settled_def)

lemma clean_shown:
  assumes "group_ok gname k g" "Mapping.lookup (g_paths g) w = Some e" "clean fl res gname w g e"
  shows "shown g w (base_name res g e)"
  using assms base_name_facts(4) [OF assms(1,2), of res] by (auto simp: shown_def clean_def base_name_def)

lemma clean_change:
  assumes "clean fl res gname w g e" "depth_of res' g' e = depth_of res g e" "res' (base_name res g e) = res (base_name res g e)"
    and "holder_names fl' e = holder_names fl e" "alone fl' (gname, w) (base_name res g e) (holder_names fl e)"
  shows "clean fl' res' gname w g' e"
  using assms by (simp add: clean_def base_name_def)

section \<open>Marking\<close>

lemma without_suffix_suffixed: "suffixed base x \<Longrightarrow> without_suffix x = Some base"
proof -
  assume "suffixed base x"
  then obtain ds where ds: "x = base @ ''<'' @ ds @ ''>''" "CHR ''<'' \<notin> set ds" "ds \<noteq> []" "list_all is_digit ds" by (rule suffixedE)
  have body: "strip_suffix_char CHR ''>'' x = Some (base @ ''<'' @ ds)"
    by (simp add: ds(1) strip_suffix_char_def butlast_append)
  have "takeWhile (\<lambda>c. c \<noteq> CHR ''<'') (rev ds @ CHR ''<'' # rev base) = rev ds @ takeWhile (\<lambda>c. c \<noteq> CHR ''<'') (CHR ''<'' # rev base)"
    using ds(2) by (intro takeWhile_append2) auto
  then have "takeWhile (\<lambda>c. c \<noteq> CHR ''<'') (rev ds @ CHR ''<'' # rev base) = rev ds" by simp
  then show ?thesis unfolding without_suffix_def body using ds(3,4) by (simp add: Let_def)
qed

lemma fold_marks:
  assumes "\<And>x d. set d \<subseteq> set (f x d)"
  shows "set d \<subseteq> set (fold f xs d)" "x \<in> set xs \<Longrightarrow> (\<And>d. m \<in> set (f x d)) \<Longrightarrow> m \<in> set (fold f xs d)"
proof -
  show sub: "set d \<subseteq> set (fold f xs d)" for d
  proof (induction xs arbitrary: d)
    case (Cons y ys)
    then show ?case using assms [of d y] Cons [of "f y d"] by auto
  qed simp
  show "x \<in> set xs \<Longrightarrow> (\<And>d. m \<in> set (f x d)) \<Longrightarrow> m \<in> set (fold f xs d)"
  proof -
    assume "x \<in> set xs" and m: "\<And>d. m \<in> set (f x d)"
    then obtain ys zs where xs: "xs = ys @ x # zs" by (meson split_list)
    have all: "set d \<subseteq> set (fold f us d)" for us d
    proof (induction us arbitrary: d)
      case (Cons y ys)
      then show ?case using assms [of d y] Cons [of "f y d"] by auto
    qed simp
    have "m \<in> set (f x (fold f ys d))" by (rule m)
    then have "m \<in> set (fold f zs (f x (fold f ys d)))" using all [of "f x (fold f ys d)" zs] by (rule rev_subsetD)
    then show ?thesis by (simp add: xs)
  qed
qed

lemma mark_sup: "set d \<subseteq> set (mark_named gn g n d)" "set d \<subseteq> set (mark_alone gn g n d)" "set d \<subseteq> set (mark_suffixed gn g n d)"
  by (auto simp: mark_named_def mark_alone_def mark_suffixed_def split: option.splits)

lemma reserved_changed_sup: "set d \<subseteq> set (reserved_changed ix n d)"
  unfolding reserved_changed_def
  by (rule fold_marks(1)) (use mark_sup in \<open>force split: option.splits\<close>)

lemma derived_changed_sup: "set d \<subseteq> set (derived_changed ix n d)"
proof (cases "without_suffix n")
  case (Some b)
  have "set d \<subseteq> set (case Mapping.lookup (ix_groups ix) gn of None \<Rightarrow> d | Some g \<Rightarrow> mark_named gn g b d)" for gn d
    using mark_sup(1) by (auto split: option.split)
  then show ?thesis unfolding derived_changed_def Some option.case by (rule fold_marks(1))
qed (simp add: derived_changed_def)

lemma groups_of_path_name:
  assumes "is_np p" "n \<in> set (np_names p)"
  shows "np_group p \<in> set (groups_of_name n)" "suffixed n x \<Longrightarrow> np_group p \<in> set (groups_of_name x)"
  using is_np_facts(4) [OF assms] without_suffix_suffixed by (auto simp: groups_of_name_def)

lemma reserved_unmarked:
  assumes "group_ok gname k g" "Mapping.lookup (ix_groups ix) gname = Some g" "Mapping.lookup (g_paths g) w = Some e"
    and "(gname, w) \<notin> set (reserved_changed ix name d)"
  shows "name \<in> set (np_names (gp_path e)) \<longrightarrow> shared_name g name" "shown g w n \<longrightarrow> n \<noteq> name \<and> \<not> suffixed n name"
proof -
  let ?f = "\<lambda>gname d. case Mapping.lookup (ix_groups ix) gname of
      None \<Rightarrow> d | Some grp \<Rightarrow> mark_suffixed gname grp name (mark_alone gname grp name (mark_named gname grp name d))"
  have e: "is_np (gp_path e)" "np_group (gp_path e) = gname" "Mapping.lookup (g_by_id g) (gp_id e) = Some w"
    using group_okD(1) [OF assms(1,3)] by (auto simp: entry_ok_def)
  have sup: "set d \<subseteq> set (?f gn d)" for gn d using mark_sup by (force split: option.splits)
  have marked: "(gname, w) \<in> set (reserved_changed ix name d)"
    if "gname \<in> set (groups_of_name name)"
      and "\<And>d. (gname, w) \<in> set (mark_suffixed gname g name (mark_alone gname g name (mark_named gname g name d)))"
    unfolding reserved_changed_def by (rule fold_marks(2) [of ?f, OF sup that(1)]) (use that(2) assms(2) in simp)
  show "name \<in> set (np_names (gp_path e)) \<longrightarrow> shared_name g name"
  proof (intro impI, rule ccontr)
    assume n: "name \<in> set (np_names (gp_path e))" "\<not> shared_name g name"
    have w: "w \<in> having g name" using n(1) assms(3) by (auto simp: having_def)
    moreover have "card (having g name) \<le> 1" "finite (having g name)" using n(2) shared_name_card [OF assms(1)] by (auto simp: not_less)
    ultimately have h: "having g name = {w}" using card_le_Suc0_iff_eq by fastforce
    then obtain c x where cx: "Mapping.lookup (g_shared g) name = Some (c, x)" "tally (gid g) {w} (c, x)"
      using tallies_lookup [OF group_okD(3) [OF assms(1)], of name] by (cases "Mapping.lookup (g_shared g) name") auto
    have "c = 1" "x = gp_id e" using tally_single [OF cx(2)] assms(3) by (auto simp: gid_def)
    then have "(gname, w) \<in> set (mark_alone gname g name d)" for d using cx(1) e(3) by (auto simp: mark_alone_def)
    then have "(gname, w) \<in> set (reserved_changed ix name d)"
      using marked groups_of_path_name(1) [OF e(1) n(1)] e(2) mark_sup(3) by blast
    then show False using assms(4) by simp
  qed
  show "shown g w n \<longrightarrow> n \<noteq> name \<and> \<not> suffixed n name"
  proof (intro impI, rule ccontr)
    assume n: "shown g w n" "\<not> (n \<noteq> name \<and> \<not> suffixed n name)"
    have named: "Mapping.lookup (g_named g) n = Some w" using group_okD(4) [OF assms(1)] n(1) by blast
    have mem: "n \<in> set (np_names (gp_path e))" using n(1) assms(3) by (auto simp: shown_def)
    have "(gname, w) \<in> set (reserved_changed ix name d)"
    proof (cases "n = name")
      case True
      then have "(gname, w) \<in> set (mark_named gname g name d)" for d using named by (auto simp: mark_named_def)
      then show ?thesis using marked groups_of_path_name(1) [OF e(1) mem] e(2) mark_sup(2,3) True by blast
    next
      case False
      then have s: "suffixed n name" using n(2) by blast
      then have "(gname, w) \<in> set (mark_suffixed gname g name d)" for d
        using named without_suffix_suffixed [OF s] by (auto simp: mark_suffixed_def mark_named_def)
      then show ?thesis using marked groups_of_path_name(2) [OF e(1) mem s] e(2) by blast
    qed
    then show False using assms(4) by simp
  qed
qed

lemma derived_unmarked:
  assumes "group_ok gname k g" "Mapping.lookup (ix_groups ix) gname = Some g" "Mapping.lookup (g_paths g) w = Some e"
    and "(gname, w) \<notin> set (derived_changed ix name d)" "shown g w n"
  shows "\<not> suffixed n name"
proof
  assume s: "suffixed n name"
  have e: "is_np (gp_path e)" "np_group (gp_path e) = gname" using group_okD(1) [OF assms(1,3)] by (auto simp: entry_ok_def)
  have mem: "n \<in> set (np_names (gp_path e))" using assms(3,5) by (auto simp: shown_def)
  have named: "Mapping.lookup (g_named g) n = Some w" using group_okD(4) [OF assms(1)] assms(5) by blast
  let ?f = "\<lambda>gname d. case Mapping.lookup (ix_groups ix) gname of None \<Rightarrow> d | Some grp \<Rightarrow> mark_named gname grp n d"
  have sup: "set d \<subseteq> set (?f gn d)" for gn d using mark_sup(1) by (auto split: option.splits)
  have "(gname, w) \<in> set (fold ?f (groups_of_name name) d)"
    by (rule fold_marks(2) [of ?f, OF sup]) (use groups_of_path_name(2) [OF e(1) mem s] e(2) assms(2) named in \<open>auto simp: mark_named_def\<close>)
  then show False using assms(4) without_suffix_suffixed [OF s] by (simp add: derived_changed_def)
qed

end
