(* ===== verification/Registry_Filing.thy ===== *)
theory Registry_Filing
  imports Registry_Index
begin

text \<open>
  Filing and unfiling a buffer in the naming index of \<^verbatim>\<open>src/src/buffer_registry.rs\<close>: the index stays the count of what is
  filed, and every path whose name the event can move is in the dirty set.
\<close>

section \<open>Changing the filing\<close>

lemma filed_at_groups: "ix_groups ix' = ix_groups ix \<Longrightarrow> filed_at ix' = filed_at ix"
  by (intro ext) (simp add: filed_at_def)

lemma filed_at_update:
  "ix_groups ix' = Mapping.update gname g' (ix_groups ix) \<Longrightarrow>
   filed_at ix' gn w g e \<longleftrightarrow> (if gn = gname then g = g' \<and> Mapping.lookup (g_paths g') w = Some e else filed_at ix gn w g e)"
  by (auto simp: filed_at_def lookup_simps)

definition on_path :: "filing \<Rightarrow> string \<times> string \<Rightarrow> nat \<Rightarrow> bool" where
  "on_path fl key i \<longleftrightarrow> (\<exists>n. fl i = Some (n, Some key))"

lemma on_pathI: "fl i = Some (n, Some key) \<Longrightarrow> on_path fl key i"
  by (auto simp: on_path_def)

lemma holders_ok_on_path:
  "holders_ok place fl gname w e \<longleftrightarrow> gp_holders e \<noteq> [] \<and> sorted_wrt (<) (map fst (gp_holders e)) \<and>
     set (gp_holders e) = {(pl, i). Mapping.lookup place i = Some pl \<and> on_path fl (gname, w) i}"
  by (simp add: holders_ok_def on_path_def)

lemma holders_ok_cong: "on_path fl (gname, w) = on_path fl' (gname, w) \<Longrightarrow> holders_ok place fl gname w e = holders_ok place fl' gname w e"
  by (simp add: holders_ok_on_path)

lemma holder_names_other:
  assumes "holders_ok place fl gname w e" "\<not> on_path fl (gname, w) i"
  shows "holder_names (fl(i := y)) e = holder_names fl e"
proof -
  have "j \<noteq> i" if "(pl, j) \<in> set (gp_holders e)" for pl j
    using that assms unfolding holders_ok_on_path by blast
  then show ?thesis unfolding holder_names_def by (intro map_cong) auto
qed

lemma place_okD:
  assumes "place_ok place k fl"
  shows "i \<in> dom fl \<Longrightarrow> Mapping.lookup place i \<noteq> None" "Mapping.lookup place i = Some pl \<Longrightarrow> pl < k"
    "Mapping.lookup place i = Some pl \<Longrightarrow> Mapping.lookup place j = Some pl \<Longrightarrow> i = j"
  using assms unfolding place_ok_def by blast+

lemma place_ok_put: "place_ok place k fl \<Longrightarrow> Mapping.lookup place i \<noteq> None \<Longrightarrow> place_ok place k (fl(i := y))"
  unfolding place_ok_def by (auto split: if_splits)

lemma place_ok_drop: "place_ok place k fl \<Longrightarrow> place_ok place k (fl(i := None))"
  unfolding place_ok_def by (auto split: if_splits)

lemma alone_sub:
  assumes "alone fl key base names" "\<And>j x m. fl' j = Some (x, m) \<Longrightarrow> x \<in> set names \<Longrightarrow> suffixed base x \<Longrightarrow> fl j = Some (x, m)"
  shows "alone fl' key base names"
  using assms unfolding alone_def by blast

lemma groups_ok_update:
  assumes "groups_ok ix fl" "ix_groups ix' = Mapping.update gname g' (ix_groups ix)" "ix_place ix' = ix_place ix"
    and "ix_next_path ix \<le> ix_next_path ix'" "group_ok gname (ix_next_path ix') g'"
    and "\<And>w e. Mapping.lookup (g_paths g') w = Some e \<Longrightarrow> holders_ok (ix_place ix) fl' gname w e"
    and "\<And>key. fst key \<noteq> gname \<Longrightarrow> on_path fl' key = on_path fl key"
    and "\<And>i w. on_path fl' (gname, w) i \<Longrightarrow> Mapping.lookup (g_paths g') w \<noteq> None"
  shows "groups_ok ix' fl'"
  unfolding groups_ok_def
proof (intro conjI allI impI)
  fix gn g
  assume "Mapping.lookup (ix_groups ix') gn = Some g"
  then show "group_ok gn (ix_next_path ix') g"
    using assms(2,4,5) groups_okD(1) [OF assms(1), of gn g] group_ok_mono [of gn "ix_next_path ix" g] by (auto simp: lookup_simps split: if_splits)
next
  fix gn w g e
  assume f: "filed_at ix' gn w g e"
  show "holders_ok (ix_place ix') fl' gn w e"
  proof (cases "gn = gname")
    case True
    then show ?thesis using f assms(6) unfolding filed_at_update [OF assms(2)] assms(3) by simp
  next
    case False
    then have "holders_ok (ix_place ix) fl gn w e" using f groups_okD(2) [OF assms(1)] unfolding filed_at_update [OF assms(2)] by simp
    moreover have "on_path fl (gn, w) = on_path fl' (gn, w)" using assms(7) [of "(gn, w)"] False by simp
    ultimately show ?thesis using holders_ok_cong assms(3) by metis
  qed
next
  fix i n gn w
  assume f: "fl' i = Some (n, Some (gn, w))"
  show "\<exists>g e. filed_at ix' gn w g e"
  proof (cases "gn = gname")
    case True
    then have "Mapping.lookup (g_paths g') w \<noteq> None" using on_pathI [of fl' i, OF f] assms(8) by simp
    then show ?thesis using True unfolding filed_at_update [OF assms(2)] by auto
  next
    case False
    then have "on_path fl (gn, w) i" using on_pathI [of fl' i, OF f] assms(7) [of "(gn, w)"] by simp
    then obtain g e where "filed_at ix gn w g e" using groups_okD(3) [OF assms(1)] unfolding on_path_def by metis
    then show ?thesis using False unfolding filed_at_update [OF assms(2)] by auto
  qed
qed

lemma groups_ok_same:
  assumes "groups_ok ix fl" "ix_groups ix' = ix_groups ix" "ix_place ix' = ix_place ix" "ix_next_path ix' = ix_next_path ix"
    and "\<And>key. on_path fl' key = on_path fl key"
  shows "groups_ok ix' fl'"
  unfolding groups_ok_def filed_at_groups [OF assms(2)]
proof (intro conjI allI impI)
  fix gn g
  assume "Mapping.lookup (ix_groups ix') gn = Some g"
  then show "group_ok gn (ix_next_path ix') g" using groups_okD(1) [OF assms(1)] assms(2,4) by simp
next
  fix gn w g e
  assume "filed_at ix gn w g e"
  then show "holders_ok (ix_place ix') fl' gn w e" using groups_okD(2) [OF assms(1)] assms(3,5) holders_ok_cong by metis
next
  fix i n gn w
  assume "fl' i = Some (n, Some (gn, w))"
  from on_pathI [of fl' i, OF this] have "on_path fl (gn, w) i" using assms(5) by simp
  then show "\<exists>g e. filed_at ix gn w g e" using groups_okD(3) [OF assms(1)] by (auto simp: on_path_def)
qed

section \<open>A name that derives from no path\<close>

text \<open>A reserved name comes or goes: outside the marks, every path keeps its name.\<close>

lemma settled_reserved:
  assumes ok: "index_ok ix fl" "settled ix fl D" and ix': "ix_groups ix' = ix_groups ix"
    and res: "\<And>n. n \<noteq> name \<Longrightarrow> reserved_name ix' n = reserved_name ix n"
    and fl': "\<And>j. j \<noteq> i \<Longrightarrow> fl' j = fl j" "fl' i = None \<or> fl' i = Some (name, None)" "fl i = None \<or> fl i = Some (name, None)"
  shows "settled ix' fl' (D \<union> set (reserved_changed ix' name d))"
  unfolding settled_def filed_at_groups [OF ix']
proof (intro allI impI)
  fix gn w g e
  assume f: "filed_at ix gn w g e" and n: "(gn, w) \<notin> D \<union> set (reserved_changed ix' name d)"
  note g = filed_group_ok [OF ok(1) f]
  have c: "clean fl (reserved_name ix) gn w g e" using settledD [OF ok(2) f] n by simp
  let ?b = "base_name (reserved_name ix) g e"
  have look: "Mapping.lookup (ix_groups ix') gn = Some g" using filed_atD [OF f] ix' by simp
  have nm: "(gn, w) \<notin> set (reserved_changed ix' name d)" using n by simp
  note um = reserved_unmarked [OF g(1) look g(2) nm]
  have sh: "shown g w ?b" using clean_shown [OF g(1,2) c] .
  have b: "?b \<noteq> name" "\<not> suffixed ?b name" using um(2) sh by blast+
  have depth: "depth_of (reserved_name ix') g e = depth_of (reserved_name ix) g e"
    unfolding depth_of_def
  proof (rule name_depth_cong)
    fix n
    assume "n \<in> set (np_names (gp_path e))"
    then show "(\<not> shared_name g n \<and> \<not> reserved_name ix' n) = (\<not> shared_name g n \<and> \<not> reserved_name ix n)"
      using um(1) res [of n] by (cases "n = name") auto
  qed
  have "\<not> on_path fl (gn, w) i" using fl'(3) by (auto simp: on_path_def)
  moreover have eq: "fl' = fl(i := fl' i)" using fl'(1) by auto
  ultimately have names: "holder_names fl' e = holder_names fl e" using holder_names_other [OF g(3)] by metis
  show "clean fl' (reserved_name ix') gn w g e"
  proof (rule clean_change [OF c depth res [OF b(1)] names])
    have "alone fl (gn, w) ?b (holder_names fl e)" using c by (simp add: clean_def)
    then show "alone fl' (gn, w) ?b (holder_names fl e)"
    proof (rule alone_sub)
      fix j x m
      assume "fl' j = Some (x, m)" "suffixed ?b x"
      then show "fl j = Some (x, m)" using fl'(1,2) b(2) by (cases "j = i") auto
    qed
  qed
qed

lemma on_path_add_reserved: "fl i = None \<Longrightarrow> on_path (fl(i \<mapsto> (name, None))) key = on_path fl key"
  by (intro ext) (auto simp: on_path_def)

lemma on_path_del_reserved: "fl i = Some (name, None) \<Longrightarrow> on_path (fl(i := None)) key = on_path fl key"
  by (intro ext) (auto simp: on_path_def)

lemma file_reserved_ok:
  fixes name :: string
  assumes ok: "index_ok ix fl" "settled ix fl D" and i: "fl i = None" "Mapping.lookup (ix_place ix) i \<noteq> None"
  defines "ix' \<equiv> (hold name ix)\<lparr>ix_reserved := count_up name (ix_reserved (hold name ix))\<rparr>"
    and "fl' \<equiv> fl(i \<mapsto> (name, None))"
  shows "index_ok ix' fl'" "settled ix' fl' (D \<union> set (reserved_changed ix' name d))"
proof -
  note o = index_okD [OF ok(1)]
  have fields: "ix_groups ix' = ix_groups ix" "ix_place ix' = ix_place ix" "ix_next_path ix' = ix_next_path ix" "ix_member ix' = ix_member ix"
      "ix_next_place ix' = ix_next_place ix" "ix_held ix' = count_up name (ix_held ix)" "ix_reserved ix' = count_up name (ix_reserved ix)"
    by (simp_all add: ix'_def hold_def)
  show ok': "index_ok ix' fl'"
    unfolding index_ok_def fields
  proof (intro conjI allI)
    show "finite (dom fl')" using o(1) by (simp add: fl'_def)
    show "counts (count_up name (ix_held ix)) (name_count fl')"
      using counts_up [OF o(2)] unfolding fl'_def name_count_add [OF o(1) i(1)] .
    show "counts (count_up name (ix_reserved ix)) (reserved_count fl')"
      using counts_up [OF o(3)] unfolding fl'_def reserved_count_add [OF o(1) i(1)] by simp
    show "Mapping.lookup (ix_member ix) j = Option.bind (fl' j) snd" for j using o(4) i(1) by (simp add: fl'_def)
    show "place_ok (ix_place ix) (ix_next_place ix) fl'" using place_ok_put [OF o(5) i(2)] by (simp add: fl'_def)
    show "groups_ok ix' fl'"
      using on_path_add_reserved [of fl i name] i(1) by (intro groups_ok_same [OF o(6)]) (auto simp: fields fl'_def)
  qed
  have res: "reserved_name ix' n = reserved_name ix n" if "n \<noteq> name" for n
    unfolding reserved_name_iff [OF ok(1)] reserved_name_iff [OF ok'] using that i(1) unfolding fl'_def
    by (metis (no_types) fun_upd_apply option.distinct(1) option.inject prod.inject)
  show "settled ix' fl' (D \<union> set (reserved_changed ix' name d))"
    by (rule settled_reserved [OF ok fields(1) res]) (use i(1) in \<open>auto simp: fl'_def\<close>)
qed

lemma release_ok:
  assumes "index_ok ix fl" "fl i = Some (name, m)"
  obtains held where "release name ix = Some (ix\<lparr>ix_held := held\<rparr>)" "counts held (name_count (fl(i := None)))"
proof -
  note o = index_okD [OF assms(1)]
  have "counts (ix_held ix) (\<lambda>n. name_count (fl(i := None)) n + one_at name n)"
    using o(2) unfolding counts_remove(1) [OF o(1) assms(2)] .
  then obtain held where "count_down name (ix_held ix) = Some held" "counts held (name_count (fl(i := None)))" by (rule counts_down)
  then show thesis using that by (simp add: release_def)
qed

lemma unfile_reserved_ok:
  assumes ok: "index_ok ix fl" "settled ix fl D" and i: "fl i = Some (name, None)"
  obtains ix1 reserved where "release name ix = Some ix1" "ix_reserved ix1 = ix_reserved ix" "ix_member ix1 = ix_member ix"
    "count_down name (ix_reserved ix) = Some reserved"
    "index_ok (ix1\<lparr>ix_reserved := reserved\<rparr>) (fl(i := None))"
    "\<And>d. settled (ix1\<lparr>ix_reserved := reserved\<rparr>) (fl(i := None)) (D \<union> set (reserved_changed (ix1\<lparr>ix_reserved := reserved\<rparr>) name d))"
    "ix_place ix1 = ix_place ix" "ix_next_place ix1 = ix_next_place ix"
proof -
  note o = index_okD [OF ok(1)]
  obtain held where h: "release name ix = Some (ix\<lparr>ix_held := held\<rparr>)" "counts held (name_count (fl(i := None)))"
    using release_ok [OF ok(1) i] .
  have "counts (ix_reserved ix) (\<lambda>n. reserved_count (fl(i := None)) n + one_at name n)"
    using o(3) unfolding counts_remove(2) [OF o(1) i] by simp
  then obtain reserved where r: "count_down name (ix_reserved ix) = Some reserved" "counts reserved (reserved_count (fl(i := None)))"
    by (rule counts_down)
  let ?ix = "ix\<lparr>ix_held := held, ix_reserved := reserved\<rparr>"
  have ok': "index_ok ?ix (fl(i := None))"
    unfolding index_ok_def
  proof (intro conjI allI)
    show "Mapping.lookup (ix_member ?ix) j = Option.bind ((fl(i := None)) j) snd" for j using o(4) i by simp
    show "groups_ok ?ix (fl(i := None))"
      using on_path_del_reserved [of fl i, OF i] by (intro groups_ok_same [OF o(6)]) auto
  qed (use o(1) h(2) r(2) place_ok_drop [OF o(5)] in simp_all)
  have res: "reserved_name ?ix n = reserved_name ix n" if "n \<noteq> name" for n
    unfolding reserved_name_iff [OF ok(1)] reserved_name_iff [OF ok'] using that i
    by (metis (no_types) fun_upd_apply option.distinct(1) option.inject prod.inject)
  have "settled ?ix (fl(i := None)) (D \<union> set (reserved_changed ?ix name d))" for d
    by (rule settled_reserved [OF ok _ res, where i = i]) (use i in auto)
  then show thesis using that [of "ix\<lparr>ix_held := held\<rparr>" reserved] h(1) r(1) ok' by simp
qed

section \<open>Joining a path\<close>

lemma insert_holder_ok:
  assumes "sorted_wrt (<) (map fst hs)" "pl \<notin> set (map fst hs)"
  shows "sorted_wrt (<) (map fst (insert_holder pl i hs))" "set (insert_holder pl i hs) = insert (pl, i) (set hs)"
proof -
  let ?k = "length (takeWhile (\<lambda>(p, _). p < pl) hs)"
  have ins: "insert_holder pl i hs = takeWhile (\<lambda>(p, _). p < pl) hs @ (pl, i) # dropWhile (\<lambda>(p, _). p < pl) hs"
    by (simp add: insert_holder_def Let_def takeWhile_eq_take [symmetric] dropWhile_eq_drop [symmetric])
  have parts: "hs = takeWhile (\<lambda>(p, _). p < pl) hs @ dropWhile (\<lambda>(p, _). p < pl) hs" by simp
  show "set (insert_holder pl i hs) = insert (pl, i) (set hs)" unfolding ins by (subst (3) parts) (simp only: set_append list.set, blast)
  have low: "p < pl" if "(p, j) \<in> set (takeWhile (\<lambda>(p, _). p < pl) hs)" for p j using set_takeWhileD [OF that] by simp
  have high: "pl < p" if "(p, j) \<in> set (dropWhile (\<lambda>(p, _). p < pl) hs)" for p j
  proof -
    have "dropWhile (\<lambda>(p, _). p < pl) hs \<noteq> []" using that by (metis empty_iff empty_set)
    then obtain q k rest where d: "dropWhile (\<lambda>(p, _). p < pl) hs = (q, k) # rest"
      by (metis neq_Nil_conv surj_pair)
    then have "\<not> q < pl" using hd_dropWhile [of "\<lambda>(p, _). p < pl" hs] by fastforce
    moreover have "(q, k) \<in> set hs" using d by (metis list.set_intros(1) set_dropWhileD)
    then have "q \<noteq> pl" using assms(2) by force
    moreover have "sorted_wrt (<) (map fst ((q, k) # rest))"
      using assms(1) parts d by (metis map_append sorted_wrt_append)
    ultimately show "pl < p" using that d by (auto simp: not_less)
  qed
  show "sorted_wrt (<) (map fst (insert_holder pl i hs))"
  proof -
    have "sorted_wrt (<) (map fst (takeWhile (\<lambda>(p, _). p < pl) hs) @ map fst (dropWhile (\<lambda>(p, _). p < pl) hs))"
      using assms(1) parts by (metis map_append)
    then show ?thesis using low high unfolding ins by (auto simp: sorted_wrt_append)
  qed
qed

lemma share_group_ok:
  fixes hs :: "(nat \<times> nat) list"
  assumes g: "group_ok gname k g" "Mapping.lookup (g_paths g) w = None"
    and p: "is_np p" "np_group p = gname" "np_whole p = w"
    and share: "share_names gname (g_named g) k (np_names p) (g_shared g) d = (shared, d')"
  defines "g' \<equiv> g\<lparr>g_shared := shared, g_by_id := Mapping.update k w (g_by_id g),
      g_paths := Mapping.update w \<lparr>gp_id = k, gp_path = p, gp_holders = hs, gp_depth = None\<rparr> (g_paths g)\<rparr>"
  shows "group_ok gname (k + 1) g'" "set d \<subseteq> set d'" "shared_name g n \<Longrightarrow> shared_name g' n"
    "shown g v n \<Longrightarrow> (gname, v) \<notin> set d' \<Longrightarrow> shared_name g' n = shared_name g n"
proof -
  note ok = group_okD [OF g(1)]
  have having: "having g' = (\<lambda>n. if n \<in> set (np_names p) then insert w (having g n) else having g n)"
    using g(2) by (intro ext) (auto simp: having_def g'_def lookup_simps)
  have out: "w \<notin> having g n" for n using g(2) by (auto simp: having_def)
  have gid: "gid g' v = (if v = w then k else gid g v)" for v by (simp add: gid_def g'_def lookup_simps)
  have "tallies (gid g') (having g) (g_shared g)"
    unfolding tallies_def
  proof
    fix n
    have "tally_at (gid g) (having g n) (Mapping.lookup (g_shared g) n)" using ok(3) by (simp add: tallies_def)
    moreover have "\<forall>v \<in> having g n. gid g v = gid g' v" using out gid by metis
    ultimately show "tally_at (gid g') (having g n) (Mapping.lookup (g_shared g) n)"
      using tally_cong by (auto simp: tally_at_def split: option.splits)
  qed
  note t = share_names_tallies [OF this is_np_facts(1) [OF p(1)] _ _ share, of w]
  have t1: "tallies (gid g') (having g') shared" "set d \<subseteq> set d'"
      "\<And>n other. n \<in> set (np_names p) \<Longrightarrow> card (having g n) = 1 \<Longrightarrow> Mapping.lookup (g_named g) n = Some other \<Longrightarrow> (gname, other) \<in> set d'"
    using t out gid unfolding having by auto
  show "set d \<subseteq> set d'" by (rule t1(2))
  have by_id: "Mapping.lookup (g_by_id g) k = None"
  proof (rule ccontr)
    assume "Mapping.lookup (g_by_id g) k \<noteq> None"
    then obtain v e where "Mapping.lookup (g_paths g) v = Some e" "gp_id e = k" using ok(2) by fastforce
    then show False using ok(1) [of v e] by (simp add: entry_ok_def)
  qed
  have shown: "shown g' v n = shown g v n" for v n using g(2) by (auto simp: shown_def g'_def lookup_simps split: if_splits)
  show g': "group_ok gname (k + 1) g'"
    unfolding group_ok_def
  proof (intro conjI allI impI)
    fix v e
    assume "Mapping.lookup (g_paths g') v = Some e"
    then show "entry_ok gname (k + 1) g' v e"
      using ok(1) [of v e] p by_id by (auto simp: g'_def entry_ok_def lookup_simps split: if_splits)
  next
    fix j v
    assume "Mapping.lookup (g_by_id g') j = Some v"
    then show "\<exists>e. Mapping.lookup (g_paths g') v = Some e \<and> gp_id e = j"
      using ok(2) [of j v] g(2) by (auto simp: g'_def lookup_simps split: if_splits)
  next
    show "tallies (gid g') (having g') (g_shared g')" using t1(1) by (simp add: g'_def)
  next
    fix n v
    show "Mapping.lookup (g_named g') n = Some v \<longleftrightarrow> shown g' v n" unfolding shown using ok(4) by (simp add: g'_def)
  qed
  have sub: "having g n \<subseteq> having g' n" for n unfolding having by auto
  show "shared_name g n \<Longrightarrow> shared_name g' n"
    unfolding shared_name_card(1) [OF g(1)] shared_name_card(1) [OF g']
    using card_mono [OF shared_name_card(2) [OF g', of n] sub [of n]] by linarith
  show "shown g v n \<Longrightarrow> (gname, v) \<notin> set d' \<Longrightarrow> shared_name g' n = shared_name g n"
  proof -
    assume v: "shown g v n" "(gname, v) \<notin> set d'"
    show ?thesis
    proof (cases "n \<in> set (np_names p)")
      case True
      have "Mapping.lookup (g_named g) n = Some v" using ok(4) v(1) by blast
      then have "card (having g n) \<noteq> 1" using t1(3) [OF True] v(2) by blast
      moreover have "v \<in> having g n" using v(1) by (auto simp: shown_def having_def)
      then have "card (having g n) \<noteq> 0" using shared_name_card(2) [OF g(1), of n] by auto
      ultimately have "1 < card (having g n)" by linarith
      then show ?thesis
        using card_mono [OF shared_name_card(2) [OF g', of n] sub [of n]]
        unfolding shared_name_card(1) [OF g(1)] shared_name_card(1) [OF g'] by linarith
    next
      case False
      then show ?thesis unfolding shared_name_card(1) [OF g(1)] shared_name_card(1) [OF g'] having by simp
    qed
  qed
qed

text \<open>Filing a buffer under a path, and the condition on the name it holds.\<close>

definition name_free :: "name_index \<Rightarrow> filing \<Rightarrow> (string \<times> string) set \<Rightarrow> string \<Rightarrow> bool" where
  "name_free ix fl D name \<longleftrightarrow>
     (\<forall>gn w g e. filed_at ix gn w g e \<longrightarrow> (gn, w) \<notin> D \<longrightarrow> name \<in> set (holder_names fl e) \<longrightarrow>
        \<not> suffixed (base_name (reserved_name ix) g e) name)"

lemma on_path_add: "fl i = None \<Longrightarrow> on_path (fl(i \<mapsto> (name, Some key'))) key = (if key = key' then (on_path fl key)(i := True) else on_path fl key)"
  by (intro ext) (auto simp: on_path_def)

lemma index_ok_joined:
  assumes ok: "index_ok ix fl" and i: "fl i = None" "Mapping.lookup (ix_place ix) i \<noteq> None"
    and fields: "ix_held ix' = count_up name (ix_held ix)" "ix_reserved ix' = ix_reserved ix" "ix_place ix' = ix_place ix"
      "ix_next_place ix' = ix_next_place ix" "ix_member ix' = Mapping.update i key (ix_member ix)"
    and groups: "groups_ok ix' (fl(i \<mapsto> (name, Some key)))"
  shows "index_ok ix' (fl(i \<mapsto> (name, Some key)))"
proof -
  note o = index_okD [OF ok]
  show ?thesis
    unfolding index_ok_def fields
  proof (intro conjI allI)
    show "counts (count_up name (ix_held ix)) (name_count (fl(i \<mapsto> (name, Some key))))"
      using counts_up [OF o(2)] unfolding name_count_add [OF o(1) i(1)] .
    show "counts (ix_reserved ix) (reserved_count (fl(i \<mapsto> (name, Some key))))"
      using o(3) unfolding reserved_count_add [OF o(1) i(1)] by simp
    show "Mapping.lookup (Mapping.update i key (ix_member ix)) j = Option.bind ((fl(i \<mapsto> (name, Some key))) j) snd" for j
      using o(4) [of j] by (simp add: lookup_simps)
  qed (use o(1) place_ok_put [OF o(5) i(2)] groups in simp_all)
qed

lemma alone_add:
  assumes "clean fl res gn w g e" "name \<in> set (holder_names fl e) \<longrightarrow> \<not> suffixed (base_name res g e) name"
  shows "alone (fl(i \<mapsto> (name, m))) (gn, w) (base_name res g e) (holder_names fl e)"
proof -
  have "alone fl (gn, w) (base_name res g e) (holder_names fl e)" using assms(1) by (simp add: clean_def)
  then show ?thesis by (rule alone_sub) (use assms(2) in \<open>auto split: if_splits\<close>)
qed

lemma settled_joined:
  assumes ok: "index_ok ix fl" "settled ix fl D" and i: "fl i = None" "name_free ix fl D name"
    and ix': "ix_groups ix' = Mapping.update gname g' (ix_groups ix)" "ix_reserved ix' = ix_reserved ix"
    and g': "\<And>v. v \<noteq> w \<Longrightarrow> Mapping.lookup (g_paths g') v = Mapping.lookup (g_paths (entry_or_default gname (ix_groups ix))) v"
      "\<And>n. shared_name (entry_or_default gname (ix_groups ix)) n \<Longrightarrow> shared_name g' n"
      "\<And>v n. shown (entry_or_default gname (ix_groups ix)) v n \<Longrightarrow> (gname, v) \<notin> M \<Longrightarrow>
         shared_name g' n = shared_name (entry_or_default gname (ix_groups ix)) n"
    and M: "(gname, w) \<in> M"
  shows "settled ix' (fl(i \<mapsto> (name, Some (gname, w)))) (D \<union> M)"
  unfolding settled_def filed_at_update [OF ix'(1)]
proof (intro allI impI)
  fix gn v g e
  let ?grp = "entry_or_default gname (ix_groups ix)" and ?res = "reserved_name ix"
  assume f: "if gn = gname then g = g' \<and> Mapping.lookup (g_paths g') v = Some e else filed_at ix gn v g e"
    and n: "(gn, v) \<notin> D \<union> M"
  have res: "reserved_name ix' = ?res" by (intro ext) (simp add: reserved_name_def ix'(2))
  define g0 where "g0 = (if gn = gname then ?grp else g)"
  have f0: "filed_at ix gn v g0 e"
  proof (cases "gn = gname")
    case True
    then have "v \<noteq> w" using n M by auto
    then have "Mapping.lookup (g_paths ?grp) v = Some e" using f True g'(1) by simp
    moreover from this have "Mapping.lookup (ix_groups ix) gname = Some ?grp"
      by (auto simp: entry_or_default_def path_group_new_def split: option.splits)
    ultimately show ?thesis using True by (simp add: g0_def filed_at_def)
  qed (use f in \<open>simp add: g0_def\<close>)
  note g0 = filed_group_ok [OF ok(1) f0]
  have c: "clean fl ?res gn v g0 e" using settledD [OF ok(2) f0] n by simp
  have np: "np_names (gp_path e) \<noteq> []" using group_okD(1) [OF g0(1,2)] is_np_facts(2) by (auto simp: entry_ok_def)
  have depth: "depth_of ?res g e = depth_of ?res g0 e"
  proof (cases "gn = gname")
    case True
    have shown: "shown ?grp v (base_name ?res ?grp e)" using clean_shown [OF g0(1,2) c] True by (simp add: g0_def)
    have "shared_name g' (base_name ?res ?grp e) = shared_name ?grp (base_name ?res ?grp e)"
      using g'(3) [OF shown] n True by blast
    then have "name_depth (gp_path e) (shared_name g') ?res = name_depth (gp_path e) (shared_name ?grp) ?res"
      using g'(2) unfolding base_name_def depth_of_def by (intro name_depth_grow [OF np])
    then show ?thesis using True f by (simp add: depth_of_def g0_def)
  qed (simp add: g0_def)
  have names: "holder_names (fl(i \<mapsto> (name, Some (gname, w)))) e = holder_names fl e"
    using holder_names_other [OF g0(3)] i(1) by (simp add: on_path_def)
  have "name \<in> set (holder_names fl e) \<longrightarrow> \<not> suffixed (base_name ?res g0 e) name"
    using i(2) f0 n unfolding name_free_def by blast
  then show "clean (fl(i \<mapsto> (name, Some (gname, w)))) (reserved_name ix') gn v g e"
    unfolding res by (intro clean_change [OF c depth refl names] alone_add [OF c])
qed

lemma join_ok:
  assumes ok: "index_ok ix fl" "settled ix fl D" and i: "fl i = None" "Mapping.lookup (ix_place ix) i \<noteq> None"
    and p: "is_np p" and free: "name_free ix fl D name"
  defines "fl' \<equiv> fl(i \<mapsto> (name, Some (np_group p, np_whole p)))"
  obtains ix' d' where "join i p (hold name ix) d = Some (ix', d')" "index_ok ix' fl'" "settled ix' fl' (D \<union> set d')"
    "set d \<subseteq> set d'" "(np_group p, np_whole p) \<in> set d'" "ix_place ix' = ix_place ix" "ix_next_place ix' = ix_next_place ix"
proof -
  note result = that
  define gname w where "gname = np_group p" and "w = np_whole p"
  define grp where "grp = entry_or_default gname (ix_groups ix)"
  obtain pl where pl: "Mapping.lookup (ix_place ix) i = Some pl" using i(2) by blast
  note o = index_okD [OF ok(1)]
  have grp: "group_ok gname (ix_next_path ix) grp"
    using groups_okD(1) [OF o(6)] group_ok_new by (auto simp: grp_def entry_or_default_def split: option.split)
  have fresh: "pl \<notin> set (map fst hs)" if "set hs \<subseteq> {(pl, j). Mapping.lookup (ix_place ix) j = Some pl \<and> j \<noteq> i}" for hs
  proof
    assume "pl \<in> set (map fst hs)"
    then obtain j where "(pl, j) \<in> set hs" by auto
    then have "Mapping.lookup (ix_place ix) j = Some pl" "j \<noteq> i" using that by blast+
    then show False using place_okD(3) [OF o(5) pl] by blast
  qed
  have unfiled: "\<not> on_path fl key i" for key using i(1) by (simp add: on_path_def)
  have at_grp: "Mapping.lookup (g_paths grp) v = Some e \<Longrightarrow> filed_at ix gname v grp e" for v e
    by (auto simp: grp_def entry_or_default_def filed_at_def path_group_new_def split: option.splits)
  have on: "on_path fl' key = (if key = (gname, w) then (on_path fl key)(i := True) else on_path fl key)" for key
    unfolding fl'_def gname_def [symmetric] w_def [symmetric] using on_path_add [of fl i name "(gname, w)" key] i(1) by simp
  have held: "ix_held (hold name ix) = count_up name (ix_held ix)" "ix_groups (hold name ix) = ix_groups ix"
      "ix_place (hold name ix) = ix_place ix" "ix_next_path (hold name ix) = ix_next_path ix"
      "ix_member (hold name ix) = ix_member ix" "ix_reserved (hold name ix) = ix_reserved ix" "ix_next_place (hold name ix) = ix_next_place ix"
    by (simp_all add: hold_def)
  have main: thesis
    if g': "group_ok gname np' g'" "ix_next_path ix \<le> np'"
      "\<And>v. v \<noteq> w \<Longrightarrow> Mapping.lookup (g_paths g') v = Mapping.lookup (g_paths grp) v"
      "\<And>n. shared_name grp n \<Longrightarrow> shared_name g' n"
      "\<And>v n. shown grp v n \<Longrightarrow> (gname, v) \<notin> set d1 \<Longrightarrow> shared_name g' n = shared_name grp n"
      "Mapping.lookup (g_paths g') w = Some e'" "holders_ok (ix_place ix) fl' gname w e'" "set d \<subseteq> set d1"
      and join: "join i p (hold name ix) d =
        Some ((hold name ix)\<lparr>ix_groups := Mapping.update gname g' (ix_groups ix), ix_next_path := np',
                ix_member := Mapping.update i (gname, w) (ix_member ix)\<rparr>, List.insert (gname, w) d1)"
    for g' np' d1 e'
  proof -
    let ?ix = "(hold name ix)\<lparr>ix_groups := Mapping.update gname g' (ix_groups ix), ix_next_path := np',
                ix_member := Mapping.update i (gname, w) (ix_member ix)\<rparr>"
    have groups: "groups_ok ?ix fl'"
    proof (rule groups_ok_update [OF o(6), of ?ix gname g'])
      fix v e
      assume v: "Mapping.lookup (g_paths g') v = Some e"
      show "holders_ok (ix_place ix) fl' gname v e"
      proof (cases "v = w")
        case False
        then have "holders_ok (ix_place ix) fl gname v e" using v g'(3) groups_okD(2) [OF o(6) at_grp] by simp
        moreover have "on_path fl (gname, v) = on_path fl' (gname, v)" using on [of "(gname, v)"] False by simp
        ultimately show ?thesis using holders_ok_cong [of fl gname v fl'] by blast
      qed (use v g'(6,7) in simp)
    next
      fix j v
      assume "on_path fl' (gname, v) j"
      then show "Mapping.lookup (g_paths g') v \<noteq> None"
      proof (cases "v = w")
        case False
        then have "on_path fl (gname, v) j" using \<open>on_path fl' (gname, v) j\<close> on [of "(gname, v)"] by simp
        then obtain g e where "filed_at ix gname v g e" using groups_okD(3) [OF o(6)] unfolding on_path_def by metis
        then have "Mapping.lookup (g_paths grp) v = Some e" by (simp add: grp_def entry_or_default_def filed_at_def)
        then show ?thesis using g'(3) False by simp
      qed (use g'(6) in simp)
    qed (use g'(1,2) on in \<open>auto simp: held\<close>)
    have "index_ok ?ix fl'"
      using index_ok_joined [OF ok(1) i, of ?ix name "(gname, w)"] groups
      by (simp add: held fl'_def gname_def [symmetric] w_def [symmetric])
    moreover have "settled ?ix (fl(i \<mapsto> (name, Some (gname, w)))) (D \<union> set (List.insert (gname, w) d1))"
      using g'(3-5) by (intro settled_joined [OF ok i(1) free, of ?ix gname g']) (auto simp: held grp_def)
    ultimately show thesis
      using result [OF join] g'(8) by (simp add: held fl'_def gname_def [symmetric] w_def [symmetric] subset_iff)
  qed
  show thesis
  proof (cases "Mapping.lookup (g_paths grp) w")
    case (Some e)
    define e' where "e' = e\<lparr>gp_holders := insert_holder pl i (gp_holders e)\<rparr>"
    define g' where "g' = grp\<lparr>g_paths := Mapping.update w e' (g_paths grp)\<rparr>"
    have h: "holders_ok (ix_place ix) fl gname w e" using groups_okD(2) [OF o(6) at_grp [OF Some]] .
    have "pl \<notin> set (map fst (gp_holders e))"
      using h unfiled by (intro fresh) (auto simp: holders_ok_on_path)
    note ins = insert_holder_ok [OF _ this, of i]
    have "holders_ok (ix_place ix) fl' gname w e'"
      using h ins pl unfolding holders_ok_on_path on by (auto simp: e'_def)
    moreover have "group_ok gname (ix_next_path ix) g'" unfolding g'_def e'_def by (rule group_ok_holders [OF grp Some])
    moreover have "shared_name g' = shared_name grp" using lookup_holders(4) [OF Some] by (simp add: g'_def e'_def)
    moreover have "join i p (hold name ix) d =
        Some ((hold name ix)\<lparr>ix_groups := Mapping.update gname g' (ix_groups ix), ix_next_path := ix_next_path ix,
                ix_member := Mapping.update i (gname, w) (ix_member ix)\<rparr>, List.insert (gname, w) d)"
      using Some pl by (simp add: join_def held gname_def w_def grp_def g'_def e'_def Let_def)
    ultimately show thesis by (intro main [of "ix_next_path ix" g' d e']) (auto simp: g'_def lookup_simps)
  next
    case None
    obtain shared d1 where sh: "share_names gname (g_named grp) (ix_next_path ix) (np_names p) (g_shared grp) d = (shared, d1)" by fastforce
    define e' where "e' = \<lparr>gp_id = ix_next_path ix, gp_path = p, gp_holders = [(pl, i)], gp_depth = None\<rparr>"
    define g' where "g' = grp\<lparr>g_shared := shared, g_by_id := Mapping.update (ix_next_path ix) w (g_by_id grp),
        g_paths := Mapping.update w e' (g_paths grp)\<rparr>"
    note so = share_group_ok(1,3,4) [OF grp None p gname_def [symmetric] w_def [symmetric] sh, where hs = "[(pl, i)]",
        folded e'_def g'_def] share_group_ok(2) [OF grp None p gname_def [symmetric] w_def [symmetric] sh]
    have "\<not> on_path fl (gname, w) j" for j
    proof
      assume "on_path fl (gname, w) j"
      then obtain g e where "filed_at ix gname w g e" using groups_okD(3) [OF o(6)] unfolding on_path_def by metis
      then show False using None by (simp add: grp_def entry_or_default_def filed_at_def)
    qed
    then have "holders_ok (ix_place ix) fl' gname w e'"
      unfolding holders_ok_on_path on using pl by (auto simp: e'_def)
    moreover have "join i p (hold name ix) d =
        Some ((hold name ix)\<lparr>ix_groups := Mapping.update gname g' (ix_groups ix), ix_next_path := ix_next_path ix + 1,
                ix_member := Mapping.update i (gname, w) (ix_member ix)\<rparr>, List.insert (gname, w) d1)"
      using None pl sh by (simp add: join_def held gname_def w_def grp_def g'_def e'_def Let_def)
    ultimately show thesis
      using so by (intro main [of "ix_next_path ix + 1" g' d1 e']) (auto simp: g'_def lookup_simps)
  qed
qed

end
