(* ===== verification/Registry_Leaving.thy ===== *)
theory Registry_Leaving
  imports Registry_Filing
begin

text \<open>
  Unfiling a buffer from its path, and refiling: the second half of what filing does to the naming index of
  \<^verbatim>\<open>src/src/buffer_registry.rs\<close>.
\<close>

section \<open>Leaving a path\<close>

lemma remove_holder_ok:
  assumes "sorted_wrt (<) (map fst hs)" "(pl, i) \<in> set hs"
  shows "sorted_wrt (<) (map fst (remove_holder pl hs))" "set (remove_holder pl hs) = set hs - {(pl, i)}"
proof -
  obtain at where at: "at < length hs" "hs ! at = (pl, i)" using assms(2) by (auto simp: in_set_conv_nth)
  have hs: "hs = take at hs @ (pl, i) # drop (Suc at) hs" using id_take_nth_drop [OF at(1)] at(2) by simp
  have distinct: "distinct (map fst hs)" using assms(1) by (simp add: strict_sorted_iff)
  have "position_of (\<lambda>(p, _). p = pl) hs = Some at"
    unfolding position_of_Some_iff
  proof (intro conjI allI impI)
    fix j
    assume "j < at"
    then have "map fst hs ! j \<noteq> map fst hs ! at" using nth_eq_iff_index_eq [OF distinct, of j at] at(1) by simp
    then show "\<not> (case hs ! j of (p, _) \<Rightarrow> p = pl)" using \<open>j < at\<close> at by (auto split: prod.split)
  qed (use at in simp_all)
  then have rem: "remove_holder pl hs = take at hs @ drop (Suc at) hs" by (simp add: remove_holder_def)
  have srt: "sorted_wrt (<) (map fst (take at hs) @ pl # map fst (drop (Suc at) hs))"
    using assms(1) hs by (metis list.simps(9) map_append fst_conv)
  then show "sorted_wrt (<) (map fst (remove_holder pl hs))" unfolding rem by (auto simp: sorted_wrt_append)
  have "pl \<notin> set (map fst (take at hs)) \<union> set (map fst (drop (Suc at) hs))" using srt by (auto simp: sorted_wrt_append)
  then have "(pl, i) \<notin> set (take at hs) \<union> set (drop (Suc at) hs)" by force
  moreover have "set hs = insert (pl, i) (set (take at hs) \<union> set (drop (Suc at) hs))" by (subst hs) simp
  ultimately show "set (remove_holder pl hs) = set hs - {(pl, i)}" unfolding rem by auto
qed

lemma unshare_group_ok:
  assumes g: "group_ok gname k g" "Mapping.lookup (g_paths g) w = Some e"
  obtains named shared d' where
    "(case gp_depth e of Some depth \<Rightarrow> drop_name e depth w (g_named g) | None \<Rightarrow> Some (g_named g)) = Some named"
    "unshare_names gname (Mapping.delete (gp_id e) (g_by_id g)) (gp_id e) (np_names (gp_path e)) (g_shared g) d = Some (shared, d')"
    "group_ok gname k \<lparr>g_paths = Mapping.delete w (g_paths g), g_shared = shared, g_named = named, g_by_id = Mapping.delete (gp_id e) (g_by_id g)\<rparr>"
    "set d \<subseteq> set d'"
    "\<And>v f n. v \<noteq> w \<Longrightarrow> Mapping.lookup (g_paths g) v = Some f \<Longrightarrow> n \<in> set (np_names (gp_path f)) \<Longrightarrow> (gname, v) \<notin> set d' \<Longrightarrow>
       shared_name \<lparr>g_paths = Mapping.delete w (g_paths g), g_shared = shared, g_named = named, g_by_id = Mapping.delete (gp_id e) (g_by_id g)\<rparr> n =
       shared_name g n"
proof -
  note ok = group_okD [OF g(1)]
  have e: "is_np (gp_path e)" "Mapping.lookup (g_by_id g) (gp_id e) = Some w" using ok(1) [OF g(2)] by (auto simp: entry_ok_def)
  let ?by_id = "Mapping.delete (gp_id e) (g_by_id g)"
  have w: "\<forall>n \<in> set (np_names (gp_path e)). w \<in> having g n" using g(2) by (auto simp: having_def)
  have "returns (unshare_names gname ?by_id (gp_id e) (np_names (gp_path e)) (g_shared g) d)
    (\<lambda>(shared', dirty').
       tallies (gid g) (\<lambda>n. if n \<in> set (np_names (gp_path e)) then having g n - {w} else having g n) shared' \<and> set d \<subseteq> set dirty' \<and>
       (\<forall>n \<in> set (np_names (gp_path e)). \<forall>v other.
          having g n - {w} = {v} \<longrightarrow> Mapping.lookup ?by_id (gid g v) = Some other \<longrightarrow> (gname, other) \<in> set dirty'))"
    by (rule unshare_names_tallies [OF ok(3) is_np_facts(1) [OF e(1)] w]) (simp add: gid_def g(2))
  then obtain shared d' where un: "unshare_names gname ?by_id (gp_id e) (np_names (gp_path e)) (g_shared g) d = Some (shared, d')"
      "tallies (gid g) (\<lambda>n. if n \<in> set (np_names (gp_path e)) then having g n - {w} else having g n) shared" "set d \<subseteq> set d'"
      "\<And>n v other. n \<in> set (np_names (gp_path e)) \<Longrightarrow> having g n - {w} = {v} \<Longrightarrow>
         Mapping.lookup ?by_id (gid g v) = Some other \<Longrightarrow> (gname, other) \<in> set d'"
    by (elim returnsE) (clarsimp split: prod.splits)
  have "\<exists>named. (case gp_depth e of Some depth \<Rightarrow> drop_name e depth w (g_named g) | None \<Rightarrow> Some (g_named g)) = Some named \<and>
      (\<forall>n v. Mapping.lookup named n = Some v \<longleftrightarrow> v \<noteq> w \<and> shown g v n)"
  proof (cases "gp_depth e")
    case None
    then have "\<not> shown g w n" for n using g(2) by (auto simp: shown_def)
    then show ?thesis using None ok(4) by auto
  next
    case (Some depth)
    then have len: "depth < length (np_names (gp_path e))" using ok(1) [OF g(2)] by (auto simp: entry_ok_def)
    let ?n = "np_names (gp_path e) ! depth"
    have w: "shown g w n \<longleftrightarrow> n = ?n" for n using Some len g(2) by (auto simp: shown_def)
    then have drop: "drop_name e depth w (g_named g) = Some (Mapping.delete ?n (g_named g))"
      using len ok(4) [of ?n w] by (simp add: drop_name_def nth_opt_def)
    have "Mapping.lookup (Mapping.delete ?n (g_named g)) n = Some v \<longleftrightarrow> v \<noteq> w \<and> shown g v n" for n v
      using w [of n] ok(4) [of n v] ok(4) [of n w] by (cases "n = ?n") (auto simp: lookup_simps)
    then show ?thesis using Some drop by simp
  qed
  then obtain named where named: "(case gp_depth e of Some depth \<Rightarrow> drop_name e depth w (g_named g) | None \<Rightarrow> Some (g_named g)) = Some named"
      "\<And>n v. Mapping.lookup named n = Some v \<longleftrightarrow> v \<noteq> w \<and> shown g v n" by blast
  define g' where "g' = \<lparr>g_paths = Mapping.delete w (g_paths g), g_shared = shared, g_named = named, g_by_id = ?by_id\<rparr>"
  have having: "having g' = (\<lambda>n. if n \<in> set (np_names (gp_path e)) then having g n - {w} else having g n)"
    using g(2) by (intro ext) (auto simp: having_def g'_def lookup_simps split: if_splits)
  have gid: "v \<noteq> w \<Longrightarrow> gid g' v = gid g v" for v by (simp add: gid_def g'_def lookup_simps)
  have out: "w \<notin> having g' n" for n by (auto simp: having_def g'_def lookup_simps)
  have t: "tallies (gid g') (having g') (g_shared g')"
    unfolding tallies_def
  proof
    fix n
    have "tally_at (gid g) (having g' n) (Mapping.lookup (g_shared g') n)" using un(2) unfolding tallies_def having by (simp add: g'_def)
    moreover have "\<forall>v \<in> having g' n. gid g v = gid g' v" using out gid by metis
    ultimately show "tally_at (gid g') (having g' n) (Mapping.lookup (g_shared g') n)"
      using tally_cong by (auto simp: tally_at_def split: option.splits)
  qed
  have shown: "shown g' v n \<longleftrightarrow> v \<noteq> w \<and> shown g v n" for v n by (auto simp: shown_def g'_def lookup_simps split: if_splits)
  have by_id: "v \<noteq> w \<Longrightarrow> Mapping.lookup (g_paths g) v = Some f \<Longrightarrow> Mapping.lookup ?by_id (gp_id f) = Some v" for v f
    using ok(1) [of v f] e(2) by (auto simp: entry_ok_def lookup_simps)
  have g': "group_ok gname k g'"
    unfolding group_ok_def
  proof (intro conjI allI impI)
    fix v f
    assume "Mapping.lookup (g_paths g') v = Some f"
    then have v: "v \<noteq> w" "Mapping.lookup (g_paths g) v = Some f" by (auto simp: g'_def lookup_simps split: if_splits)
    then show "entry_ok gname k g' v f" using ok(1) [OF v(2)] by_id [OF v] by (simp add: entry_ok_def g'_def)
  next
    fix j v
    assume "Mapping.lookup (g_by_id g') j = Some v"
    then have j: "j \<noteq> gp_id e" "Mapping.lookup (g_by_id g) j = Some v" by (auto simp: g'_def lookup_simps split: if_splits)
    then obtain f where f: "Mapping.lookup (g_paths g) v = Some f" "gp_id f = j" using ok(2) by blast
    then have "v \<noteq> w" using j(1) g(2) by auto
    then show "\<exists>f. Mapping.lookup (g_paths g') v = Some f \<and> gp_id f = j" using f by (simp add: g'_def lookup_simps)
  next
    show "tallies (gid g') (having g') (g_shared g')" by (rule t)
  next
    fix n v
    show "Mapping.lookup (g_named g') n = Some v \<longleftrightarrow> shown g' v n" unfolding shown using named(2) by (simp add: g'_def)
  qed
  have "shared_name g' n = shared_name g n"
    if v: "v \<noteq> w" "Mapping.lookup (g_paths g) v = Some f" "n \<in> set (np_names (gp_path f))" "(gname, v) \<notin> set d'" for v f n
  proof (cases "n \<in> set (np_names (gp_path e))")
    case True
    have fin: "finite (having g n)" by (rule shared_name_card(2) [OF g(1)])
    have vw: "v \<in> having g n - {w}" "w \<in> having g n" using v(1-3) w True by (auto simp: having_def)
    have "card (having g n - {w}) \<noteq> 1"
    proof
      assume "card (having g n - {w}) = 1"
      then have "having g n - {w} = {v}" using vw(1) by (metis card_1_singletonE singletonD)
      moreover have "Mapping.lookup ?by_id (gid g v) = Some v" using by_id [OF v(1,2)] v(2) by (simp add: gid_def)
      ultimately show False using un(4) [OF True] v(4) by blast
    qed
    moreover have "card (having g n - {w}) \<noteq> 0" using vw(1) fin by auto
    moreover have "card (having g n) = Suc (card (having g n - {w}))" using vw(2) fin by (metis card_Suc_Diff1)
    ultimately show ?thesis
      unfolding shared_name_card(1) [OF g(1)] shared_name_card(1) [OF g'] having using True by simp
  next
    case False
    then show ?thesis unfolding shared_name_card(1) [OF g(1)] shared_name_card(1) [OF g'] having by simp
  qed
  then show thesis using that [OF named(1) un(1) g' [unfolded g'_def] un(3)] unfolding g'_def by blast
qed

lemma on_path_drop:
  "fl i = Some (name, Some key') \<Longrightarrow> on_path (fl(i := None)) key = (if key = key' then (on_path fl key)(i := False) else on_path fl key)"
  by (intro ext) (auto simp: on_path_def)

lemma index_ok_left:
  assumes ok: "index_ok ix fl" and i: "fl i = Some (name, Some key)"
    and fields: "counts (ix_held ix') (name_count (fl(i := None)))" "ix_reserved ix' = ix_reserved ix" "ix_place ix' = ix_place ix"
      "ix_next_place ix' = ix_next_place ix" "ix_member ix' = Mapping.delete i (ix_member ix)"
    and groups: "groups_ok ix' (fl(i := None))"
  shows "index_ok ix' (fl(i := None))"
proof -
  note o = index_okD [OF ok]
  show ?thesis
    unfolding index_ok_def fields
  proof (intro conjI allI)
    show "counts (ix_reserved ix) (reserved_count (fl(i := None)))"
      using o(3) unfolding counts_remove(2) [OF o(1) i] by simp
    show "Mapping.lookup (Mapping.delete i (ix_member ix)) j = Option.bind ((fl(i := None)) j) snd" for j
      using o(4) [of j] by (simp add: lookup_simps)
  qed (use o(1) fields(1) place_ok_drop [OF o(5)] groups in simp_all)
qed

lemma settled_left:
  assumes ok: "index_ok ix fl" "settled ix fl D" and i: "fl i = Some (name, Some (gname, w))"
    and ix': "ix_reserved ix' = ix_reserved ix"
      "\<And>gn v g' e. filed_at ix' gn v g' e \<Longrightarrow> gn \<noteq> gname \<Longrightarrow> filed_at ix gn v g' e"
      "\<And>v g' e. filed_at ix' gname v g' e \<Longrightarrow> v \<noteq> w \<Longrightarrow>
         \<exists>g. filed_at ix gname v g e \<and> ((gname, v) \<notin> M \<longrightarrow> (\<forall>n \<in> set (np_names (gp_path e)). shared_name g' n = shared_name g n))"
    and w: "\<And>g' e. filed_at ix' gname w g' e \<Longrightarrow> (gname, w) \<in> M"
  shows "settled ix' (fl(i := None)) (D \<union> M)"
  unfolding settled_def
proof (intro allI impI)
  fix gn v g' e
  assume f: "filed_at ix' gn v g' e" and n: "(gn, v) \<notin> D \<union> M"
  have res: "reserved_name ix' = reserved_name ix" by (intro ext) (simp add: reserved_name_def ix'(1))
  have key: "(gn, v) \<noteq> (gname, w)" using w f n by auto
  obtain g where g: "filed_at ix gn v g e" "\<forall>n \<in> set (np_names (gp_path e)). shared_name g' n = shared_name g n"
  proof (cases "gn = gname")
    case True
    then show thesis using ix'(3) [of v g' e] f key n that by auto
  next
    case False
    then show thesis using ix'(2) [OF f] that by blast
  qed
  have c: "clean fl (reserved_name ix) gn v g e" using settledD [OF ok(2) g(1)] n by simp
  have depth: "depth_of (reserved_name ix) g' e = depth_of (reserved_name ix) g e"
    unfolding depth_of_def by (rule name_depth_cong) (use g(2) in simp)
  have "\<not> on_path fl (gn, v) i" using i key by (auto simp: on_path_def)
  then have names: "holder_names (fl(i := None)) e = holder_names fl e"
    using holder_names_other filed_group_ok(3) [OF ok(1) g(1)] by blast
  have "alone fl (gn, v) (base_name (reserved_name ix) g e) (holder_names fl e)" using c by (simp add: clean_def)
  then have "alone (fl(i := None)) (gn, v) (base_name (reserved_name ix) g e) (holder_names fl e)"
    by (rule alone_sub) (auto split: if_splits)
  then show "clean (fl(i := None)) (reserved_name ix') gn v g' e"
    unfolding res by (rule clean_change [OF c depth refl names])
qed

text \<open>A group without paths can as well be absent.\<close>

lemma filed_at_delete:
  assumes "ix_groups ix1 = Mapping.update gname g' groups" "ix_groups ix2 = Mapping.delete gname groups" "g_paths g' = Mapping.empty"
  shows "filed_at ix1 = filed_at ix2"
  using assms by (intro ext) (auto simp: filed_at_def lookup_simps)

lemma groups_ok_delete:
  assumes "groups_ok ix1 fl" "ix_groups ix1 = Mapping.update gname g' groups" "ix_groups ix2 = Mapping.delete gname groups"
    and "g_paths g' = Mapping.empty" "ix_place ix2 = ix_place ix1" "ix_next_path ix2 = ix_next_path ix1"
  shows "groups_ok ix2 fl"
  using assms(1) unfolding groups_ok_def filed_at_delete [OF assms(2-4)] assms(2,3,5,6)
  by (auto simp: lookup_simps split: if_splits)

lemma is_empty_iff: "Mapping.is_empty m \<longleftrightarrow> m = Mapping.empty"
  by (auto simp: Mapping.is_empty_def keys_dom_lookup intro: mapping_eqI)

lemma leave_ok:
  assumes ok: "index_ok ix fl" "settled ix fl D" and i: "fl i = Some (name, Some (gname, w))"
    and held: "counts held (name_count (fl(i := None)))"
  obtains ix' d' where "leave i (ix\<lparr>ix_held := held\<rparr>) d = Some (ix', d')" "index_ok ix' (fl(i := None))"
    "settled ix' (fl(i := None)) (D \<union> set d')" "set d \<subseteq> set d'" "ix_place ix' = ix_place ix" "ix_next_place ix' = ix_next_place ix"
proof -
  note result = that
  note o = index_okD [OF ok(1)]
  obtain g e where f: "filed_at ix gname w g e" using groups_okD(3) [OF o(6) i] by blast
  have look: "Mapping.lookup (ix_groups ix) gname = Some g" "Mapping.lookup (g_paths g) w = Some e" using filed_atD [OF f] by simp_all
  note g = filed_group_ok [OF ok(1) f]
  obtain pl where pl: "Mapping.lookup (ix_place ix) i = Some pl" using place_okD(1) [OF o(5), of i] i by auto
  have mem: "(pl, i) \<in> set (gp_holders e)" using g(3) pl i by (auto simp: holders_ok_def)
  have srt: "sorted_wrt (<) (map fst (gp_holders e))" using g(3) by (simp add: holders_ok_def)
  note rem = remove_holder_ok [OF srt mem]
  have on: "on_path (fl(i := None)) key = (if key = (gname, w) then (on_path fl key)(i := False) else on_path fl key)" for key
    using on_path_drop [of fl i name "(gname, w)" key] i by simp
  have member: "Mapping.lookup (ix_member ix) i = Some (gname, w)" using o(4) [of i] i by simp
  let ?ix0 = "ix\<lparr>ix_held := held, ix_member := Mapping.delete i (ix_member ix)\<rparr>"
  have others: "holders_ok (ix_place ix) (fl(i := None)) gname v f" if "v \<noteq> w" "Mapping.lookup (g_paths g) v = Some f" for v f
  proof -
    have "holders_ok (ix_place ix) fl gname v f" using groups_okD(2) [OF o(6)] that(2) look(1) by (simp add: filed_at_def)
    moreover have "on_path fl (gname, v) = on_path (fl(i := None)) (gname, v)" using on [of "(gname, v)"] that(1) by simp
    ultimately show ?thesis using holders_ok_cong [of fl gname v "fl(i := None)"] by blast
  qed
  have filed: "on_path (fl(i := None)) (gname, v) j \<Longrightarrow> Mapping.lookup (g_paths g) v \<noteq> None" for v j
  proof -
    assume "on_path (fl(i := None)) (gname, v) j"
    then obtain n where "fl j = Some (n, Some (gname, v))" by (auto simp: on_path_def split: if_splits)
    then show ?thesis using groups_okD(3) [OF o(6)] look(1) by (fastforce simp: filed_at_def)
  qed
  have elsewhere: "fst key \<noteq> gname \<Longrightarrow> on_path (fl(i := None)) key = on_path fl key" for key using on [of key] by auto
  show thesis
  proof (cases "remove_holder pl (gp_holders e) = []")
    case False
    define e' where "e' = e\<lparr>gp_holders := remove_holder pl (gp_holders e)\<rparr>"
    define g' where "g' = g\<lparr>g_paths := Mapping.update w e' (g_paths g)\<rparr>"
    let ?ix = "?ix0\<lparr>ix_groups := Mapping.update gname g' (ix_groups ix)\<rparr>"
    have leave: "leave i (ix\<lparr>ix_held := held\<rparr>) d = Some (?ix, List.insert (gname, w) d)"
      using member pl look False by (simp add: leave_def e'_def g'_def Let_def)
    have e': "holders_ok (ix_place ix) (fl(i := None)) gname w e'"
      using g(3) rem False pl unfolding holders_ok_on_path on by (auto simp: e'_def)
    have groups: "groups_ok ?ix (fl(i := None))"
    proof (rule groups_ok_update [OF o(6), of ?ix gname g'])
      fix v f
      assume "Mapping.lookup (g_paths g') v = Some f"
      then show "holders_ok (ix_place ix) (fl(i := None)) gname v f"
        using others [of v f] e' by (auto simp: g'_def lookup_simps split: if_splits)
    next
      fix j v
      assume "on_path (fl(i := None)) (gname, v) j"
      then show "Mapping.lookup (g_paths g') v \<noteq> None" using filed by (auto simp: g'_def lookup_simps)
    qed (use group_ok_holders [OF g(1,2)] elsewhere in \<open>simp_all add: g'_def e'_def\<close>)
    have "index_ok ?ix (fl(i := None))" using held groups by (intro index_ok_left [OF ok(1) i]) simp_all
    moreover have "settled ?ix (fl(i := None)) (D \<union> set (List.insert (gname, w) d))"
    proof (rule settled_left [OF ok i])
      have shared: "shared_name g' = shared_name g" using lookup_holders(4) [OF look(2)] by (simp add: g'_def e'_def)
      fix v h f
      assume "filed_at ?ix gname v h f" "v \<noteq> w"
      then have "h = g'" "Mapping.lookup (g_paths g) v = Some f" by (auto simp: filed_at_def g'_def lookup_simps)
      then show "\<exists>g. filed_at ix gname v g f \<and>
          ((gname, v) \<notin> set (List.insert (gname, w) d) \<longrightarrow> (\<forall>n \<in> set (np_names (gp_path f)). shared_name h n = shared_name g n))"
        using look(1) shared by (auto simp: filed_at_def)
    qed (auto simp: filed_at_def lookup_simps)
    ultimately show thesis using result [OF leave] by auto
  next
    case True
    obtain named shared d' where un:
      "(case gp_depth e of Some depth \<Rightarrow> drop_name e depth w (g_named g) | None \<Rightarrow> Some (g_named g)) = Some named"
      "unshare_names gname (Mapping.delete (gp_id e) (g_by_id g)) (gp_id e) (np_names (gp_path e)) (g_shared g) d = Some (shared, d')"
      "group_ok gname (ix_next_path ix) \<lparr>g_paths = Mapping.delete w (g_paths g), g_shared = shared, g_named = named,
         g_by_id = Mapping.delete (gp_id e) (g_by_id g)\<rparr>"
      "set d \<subseteq> set d'"
      "\<And>v f n. v \<noteq> w \<Longrightarrow> Mapping.lookup (g_paths g) v = Some f \<Longrightarrow> n \<in> set (np_names (gp_path f)) \<Longrightarrow> (gname, v) \<notin> set d' \<Longrightarrow>
         shared_name \<lparr>g_paths = Mapping.delete w (g_paths g), g_shared = shared, g_named = named,
           g_by_id = Mapping.delete (gp_id e) (g_by_id g)\<rparr> n = shared_name g n"
      using unshare_group_ok [OF g(1,2), of d] by blast
    define g' where "g' = \<lparr>g_paths = Mapping.delete w (g_paths g), g_shared = shared, g_named = named,
        g_by_id = Mapping.delete (gp_id e) (g_by_id g)\<rparr>"
    note un = un [folded g'_def]
    let ?ix1 = "?ix0\<lparr>ix_groups := Mapping.update gname g' (ix_groups ix)\<rparr>"
    define ix2 where "ix2 = ?ix0\<lparr>ix_groups := (if Mapping.is_empty (g_paths g') then Mapping.delete gname (ix_groups ix)
        else Mapping.update gname g' (ix_groups ix))\<rparr>"
    have leave: "leave i (ix\<lparr>ix_held := held\<rparr>) d = Some (ix2, d')"
      using member pl look True un(1,2) by (simp add: leave_def drop_name_def g'_def ix2_def Let_def cong: option.case_cong)
    have not_w: "\<not> on_path (fl(i := None)) (gname, w) j" for j
    proof
      assume "on_path (fl(i := None)) (gname, w) j"
      then have j: "j \<noteq> i" "on_path fl (gname, w) j" unfolding on by (simp_all split: if_splits)
      then obtain q where "Mapping.lookup (ix_place ix) j = Some q" using place_okD(1) [OF o(5), of j] by (auto simp: on_path_def)
      then have "(q, j) \<in> set (gp_holders e)" using g(3) j(2) by (simp add: holders_ok_on_path)
      then show False using rem(2) True j(1) by auto
    qed
    have groups1: "groups_ok ?ix1 (fl(i := None))"
    proof (rule groups_ok_update [OF o(6), of ?ix1 gname g'])
      fix v f
      assume "Mapping.lookup (g_paths g') v = Some f"
      then show "holders_ok (ix_place ix) (fl(i := None)) gname v f"
        using others [of v f] by (auto simp: g'_def lookup_simps split: if_splits)
    next
      fix j v
      assume v: "on_path (fl(i := None)) (gname, v) j"
      then have "v \<noteq> w" using not_w by blast
      then show "Mapping.lookup (g_paths g') v \<noteq> None" using filed [OF v] by (simp add: g'_def lookup_simps)
    qed (use un(3) elsewhere in simp_all)
    have at2: "filed_at ix2 = filed_at ?ix1"
    proof (cases "Mapping.is_empty (g_paths g')")
      case True
      then show ?thesis using filed_at_delete [of ?ix1 gname g' "ix_groups ix" ix2] by (simp add: ix2_def is_empty_iff)
    qed (simp add: ix2_def)
    have groups: "groups_ok ix2 (fl(i := None))"
    proof (cases "Mapping.is_empty (g_paths g')")
      case True
      then show ?thesis using groups_ok_delete [OF groups1, of gname g' "ix_groups ix" ix2] by (simp add: ix2_def is_empty_iff)
    qed (use groups1 in \<open>simp add: ix2_def\<close>)
    have fields: "ix_held ix2 = held" "ix_reserved ix2 = ix_reserved ix" "ix_place ix2 = ix_place ix"
        "ix_next_place ix2 = ix_next_place ix" "ix_member ix2 = Mapping.delete i (ix_member ix)" by (simp_all add: ix2_def)
    have "index_ok ix2 (fl(i := None))" using held groups fields by (intro index_ok_left [OF ok(1) i]) simp_all
    moreover have "settled ix2 (fl(i := None)) (D \<union> set d')"
    proof (rule settled_left [OF ok i fields(2)])
      fix v h f
      assume "filed_at ix2 gname v h f" "v \<noteq> w"
      then have v: "h = g'" "Mapping.lookup (g_paths g) v = Some f" unfolding at2 by (auto simp: filed_at_def g'_def lookup_simps)
      then show "\<exists>g. filed_at ix gname v g f \<and> ((gname, v) \<notin> set d' \<longrightarrow> (\<forall>n \<in> set (np_names (gp_path f)). shared_name h n = shared_name g n))"
        using look(1) un(5) [OF \<open>v \<noteq> w\<close> v(2)] by (auto simp: filed_at_def)
    next
      fix gn v h f
      assume "filed_at ix2 gn v h f" "gn \<noteq> gname"
      then show "filed_at ix gn v h f" unfolding at2 by (simp add: filed_at_def lookup_simps)
    next
      fix h f
      assume "filed_at ix2 gname w h f"
      then show "(gname, w) \<in> set d'" unfolding at2 by (auto simp: filed_at_def g'_def lookup_simps)
    qed
    ultimately show thesis using result [OF leave] un(4) fields by auto
  qed
qed

section \<open>Filing and unfiling a buffer\<close>

lemma settled_mono: "settled ix fl D \<Longrightarrow> D \<subseteq> D' \<Longrightarrow> settled ix fl D'"
  unfolding settled_def by blast

text \<open>Once a name is unfiled, the paths that a later buffer of that name could disturb are marked.\<close>

lemma name_free_marked:
  assumes "index_ok ix fl" "settled ix fl D" "\<And>gn w g e n. filed_at ix gn w g e \<Longrightarrow> (gn, w) \<notin> D \<Longrightarrow> shown g w n \<Longrightarrow> \<not> suffixed n name"
  shows "name_free ix fl D name"
  unfolding name_free_def
proof (intro allI impI)
  fix gn w g e
  assume f: "filed_at ix gn w g e" "(gn, w) \<notin> D"
  note g = filed_group_ok [OF assms(1) f(1)]
  have "shown g w (base_name (reserved_name ix) g e)" by (rule clean_shown [OF g(1,2) settledD [OF assms(2) f]])
  then show "\<not> suffixed (base_name (reserved_name ix) g e) name" using assms(3) [OF f] by blast
qed

definition key_of :: "'v buffer \<Rightarrow> (string \<times> string) option" where
  "key_of buf = map_option (\<lambda>(path, directory). (np_group (name_path_new path directory), np_whole (name_path_new path directory))) (name_path buf)"

lemma unfile_buffer_ok:
  assumes ok: "index_ok (reg_names r) fl" "settled (reg_names r) fl (set d)" and i: "fl i = Some (name, m)"
  obtains ix' d' where "unfile_buffer i name r d = Some (r\<lparr>reg_names := ix'\<rparr>, d')" "index_ok ix' (fl(i := None))"
    "settled ix' (fl(i := None)) (set d')" "set d \<subseteq> set d'" "name_free ix' (fl(i := None)) (set d') name"
    "ix_place ix' = ix_place (reg_names r)" "ix_next_place ix' = ix_next_place (reg_names r)"
proof -
  note result = that
  have member: "Mapping.lookup (ix_member (reg_names r)) i = m" using index_okD(4) [OF ok(1), of i] i by simp
  show thesis
  proof (cases m)
    case None
    obtain ix1 reserved where u: "release name (reg_names r) = Some ix1" "ix_reserved ix1 = ix_reserved (reg_names r)"
      "ix_member ix1 = ix_member (reg_names r)" "count_down name (ix_reserved (reg_names r)) = Some reserved"
      "index_ok (ix1\<lparr>ix_reserved := reserved\<rparr>) (fl(i := None))"
      "\<And>d1. settled (ix1\<lparr>ix_reserved := reserved\<rparr>) (fl(i := None))
         (set d \<union> set (reserved_changed (ix1\<lparr>ix_reserved := reserved\<rparr>) name d1))"
      "ix_place ix1 = ix_place (reg_names r)" "ix_next_place ix1 = ix_next_place (reg_names r)"
      using unfile_reserved_ok [OF ok] i None by blast
    let ?ix = "ix1\<lparr>ix_reserved := reserved\<rparr>"
    let ?d = "reserved_changed ?ix name d"
    have step: "unfile_buffer i name r d = Some (r\<lparr>reg_names := ?ix\<rparr>, ?d)"
      using u(1-4) member None by (simp add: unfile_buffer_def Let_def)
    have sub: "set d \<subseteq> set ?d" by (rule reserved_changed_sup)
    then have s: "settled ?ix (fl(i := None)) (set ?d)" using u(6) [of d] by (simp add: Un_absorb1)
    have "name_free ?ix (fl(i := None)) (set ?d) name"
    proof (rule name_free_marked [OF u(5) s])
      fix gn w g e n
      assume f: "filed_at ?ix gn w g e" "(gn, w) \<notin> set ?d" "shown g w n"
      show "\<not> suffixed n name"
        using reserved_unmarked(2) [OF filed_group_ok(1) [OF u(5) f(1)] _ _ f(2), of e n] filed_atD [OF f(1)] f(3) by simp
    qed
    then show thesis using result [OF step u(5) s sub] u(7,8) by simp
  next
    case (Some key)
    obtain gname w where key: "key = (gname, w)" by fastforce
    obtain held where h: "release name (reg_names r) = Some ((reg_names r)\<lparr>ix_held := held\<rparr>)" "counts held (name_count (fl(i := None)))"
      using release_ok [OF ok(1) i] .
    obtain ix' d' where l: "leave i ((reg_names r)\<lparr>ix_held := held\<rparr>) d = Some (ix', d')" "index_ok ix' (fl(i := None))"
      "settled ix' (fl(i := None)) (set d \<union> set d')" "set d \<subseteq> set d'" "ix_place ix' = ix_place (reg_names r)"
      "ix_next_place ix' = ix_next_place (reg_names r)"
      using leave_ok [OF ok _ h(2), where d = d and gname = gname and w = w] i Some key by blast
    let ?d = "derived_changed ix' name d'"
    have step: "unfile_buffer i name r d = Some (r\<lparr>reg_names := ix'\<rparr>, ?d)"
      using h(1) l(1) member Some by (simp add: unfile_buffer_def Let_def)
    have sub: "set d \<subseteq> set ?d" using l(4) derived_changed_sup by blast
    have "set d \<union> set d' \<subseteq> set ?d" using sub derived_changed_sup by blast
    then have s: "settled ix' (fl(i := None)) (set ?d)" using settled_mono [OF l(3)] by blast
    have "name_free ix' (fl(i := None)) (set ?d) name"
    proof (rule name_free_marked [OF l(2) s])
      fix gn w g e n
      assume f: "filed_at ix' gn w g e" "(gn, w) \<notin> set ?d" "shown g w n"
      show "\<not> suffixed n name"
        using derived_unmarked [OF filed_group_ok(1) [OF l(2) f(1)] _ _ f(2) f(3)] filed_atD [OF f(1)] by blast
    qed
    then show thesis using result [OF step l(2) s sub] l(5,6) by simp
  qed
qed

lemma file_buffer_ok:
  assumes ok: "index_ok (reg_names r) fl" "settled (reg_names r) fl (set d)"
    and i: "fl i = None" "Mapping.lookup (ix_place (reg_names r)) i \<noteq> None"
    and buf: "Mapping.lookup (reg_buffers r) i = Some buf" "name_path buf \<noteq> None \<Longrightarrow> name_free (reg_names r) fl (set d) (buf_name buf)"
  obtains ix' d' where "file_buffer i r d = Some (r\<lparr>reg_names := ix'\<rparr>, d')" "index_ok ix' (fl(i \<mapsto> (buf_name buf, key_of buf)))"
    "settled ix' (fl(i \<mapsto> (buf_name buf, key_of buf))) (set d')" "set d \<subseteq> set d'"
    "ix_place ix' = ix_place (reg_names r)" "ix_next_place ix' = ix_next_place (reg_names r)"
proof -
  note result = that
  show thesis
  proof (cases "name_path buf")
    case None
    let ?ix = "(hold (buf_name buf) (reg_names r))\<lparr>ix_reserved := count_up (buf_name buf) (ix_reserved (hold (buf_name buf) (reg_names r)))\<rparr>"
    let ?d = "reserved_changed ?ix (buf_name buf) d"
    note f = file_reserved_ok [OF ok i, of "buf_name buf"]
    have step: "file_buffer i r d = Some (r\<lparr>reg_names := ?ix\<rparr>, ?d)" using buf(1) None by (simp add: file_buffer_def Let_def)
    have sub: "set d \<subseteq> set ?d" by (rule reserved_changed_sup)
    have "settled ?ix (fl(i \<mapsto> (buf_name buf, key_of buf))) (set ?d)"
      using f(2) [of d] sub None by (simp add: key_of_def Un_absorb1)
    then show thesis using result [OF step] f(1) sub None by (simp add: key_of_def hold_def)
  next
    case (Some pd)
    obtain path directory where pd: "pd = (path, directory)" by fastforce
    let ?p = "name_path_new path directory"
    have "is_np ?p" by (auto simp: is_np_def)
    then obtain ix' d' where j: "join i ?p (hold (buf_name buf) (reg_names r)) d = Some (ix', d')"
      "index_ok ix' (fl(i \<mapsto> (buf_name buf, Some (np_group ?p, np_whole ?p))))"
      "settled ix' (fl(i \<mapsto> (buf_name buf, Some (np_group ?p, np_whole ?p)))) (set d \<union> set d')"
      "set d \<subseteq> set d'" "ix_place ix' = ix_place (reg_names r)" "ix_next_place ix' = ix_next_place (reg_names r)"
      using join_ok [OF ok i _ buf(2)] Some by (metis option.distinct(1))
    have "file_buffer i r d = Some (r\<lparr>reg_names := ix'\<rparr>, d')" using buf(1) Some pd j(1) by (simp add: file_buffer_def Let_def)
    then show thesis using result [of ix' d'] j Some pd by (simp add: key_of_def Un_absorb1)
  qed
qed

end
