(* ===== verification/Registry_Settling.thy ===== *)
theory Registry_Settling
  imports Registry_Leaving
begin

text \<open>
  Naming the dirty paths of the registry, \<^verbatim>\<open>BufferRegistry::settle\<close>: visiting a path names its holders by the rule and
  marks every path the new names disturb, so that outside the dirty set the names stay right.
\<close>

section \<open>What settling does not touch\<close>

text \<open>The table of shared names, the split path and the holders of a path, as settling reads them.\<close>

definition path_view :: "name_index \<Rightarrow> string \<Rightarrow> string \<Rightarrow> ((string, nat \<times> nat) mapping \<times> path_names \<times> (nat \<times> nat) list) option" where
  "path_view ix gname w =
     Option.bind (Mapping.lookup (ix_groups ix) gname)
       (\<lambda>g. map_option (\<lambda>e. (g_shared g, gp_path e, gp_holders e)) (Mapping.lookup (g_paths g) w))"

definition same_static :: "name_index \<Rightarrow> name_index \<Rightarrow> bool" where
  "same_static ix ix' \<longleftrightarrow>
     ix_reserved ix' = ix_reserved ix \<and> ix_member ix' = ix_member ix \<and> ix_place ix' = ix_place ix \<and>
     ix_next_place ix' = ix_next_place ix \<and> path_view ix' = path_view ix"

lemma same_static_refl [simp]: "same_static ix ix"
  by (simp add: same_static_def)

lemma same_static_trans: "same_static ix ix' \<Longrightarrow> same_static ix' ix'' \<Longrightarrow> same_static ix ix''"
  by (simp add: same_static_def)

lemma same_static_held [simp]: "same_static ix (ix\<lparr>ix_held := held\<rparr>)"
  by (simp add: same_static_def path_view_def fun_eq_iff)

lemma path_view_filed: "filed_at ix gname w g e \<Longrightarrow> path_view ix gname w = Some (g_shared g, gp_path e, gp_holders e)"
  by (simp add: path_view_def filed_at_def)

lemma path_view_Some: "path_view ix gname w = Some (sh, p, hs) \<Longrightarrow> \<exists>g e. filed_at ix gname w g e \<and> g_shared g = sh \<and> gp_path e = p \<and> gp_holders e = hs"
  by (auto simp: path_view_def filed_at_def bind_eq_Some_conv)

lemma same_static_filed:
  assumes "same_static ix ix'" "filed_at ix gname w g e"
  obtains g' e' where "filed_at ix' gname w g' e'" "g_shared g' = g_shared g" "gp_path e' = gp_path e" "gp_holders e' = gp_holders e"
  using assms path_view_filed [OF assms(2)] path_view_Some [of ix' gname w] unfolding same_static_def by metis

lemma same_static_reserved: "same_static ix ix' \<Longrightarrow> reserved_name ix' = reserved_name ix"
  by (intro ext) (simp add: same_static_def reserved_name_def)

lemma depth_of_view: "g_shared g' = g_shared g \<Longrightarrow> gp_path e' = gp_path e \<Longrightarrow> depth_of res g' e' = depth_of res g e"
  by (simp add: depth_of_def shared_name_def [abs_def])

lemma base_name_view: "g_shared g' = g_shared g \<Longrightarrow> gp_path e' = gp_path e \<Longrightarrow> base_name res g' e' = base_name res g e"
  using depth_of_view [of g' g e' e] by (simp add: base_name_def)

lemma holder_names_view: "gp_holders e' = gp_holders e \<Longrightarrow> holder_names fl e' = holder_names fl e"
  by (simp add: holder_names_def)

section \<open>Recording the depth\<close>

lemma set_depth_group_ok:
  assumes g: "group_ok gname k g" "Mapping.lookup (g_paths g) w = Some e"
    and depth: "depth < length (np_names (gp_path e))" "having g (np_names (gp_path e) ! depth) = {w}"
    and named: "(case gp_depth e of Some before \<Rightarrow> drop_name e before w (g_named g) | None \<Rightarrow> Some (g_named g)) = Some named"
  defines "g' \<equiv> g\<lparr>g_named := Mapping.update (np_names (gp_path e) ! depth) w named,
      g_paths := Mapping.update w (e\<lparr>gp_depth := Some depth\<rparr>) (g_paths g)\<rparr>"
  shows "group_ok gname k g'"
proof -
  note ok = group_okD [OF g(1)]
  let ?n = "np_names (gp_path e) ! depth"
  have old: "Mapping.lookup named n = Some v \<longleftrightarrow> v \<noteq> w \<and> shown g v n" for n v
  proof (cases "gp_depth e")
    case None
    then have "\<not> shown g w n" using g(2) by (auto simp: shown_def)
    then show ?thesis using None named ok(4) [of n v] by auto
  next
    case (Some before)
    then have len: "before < length (np_names (gp_path e))" using ok(1) [OF g(2)] by (auto simp: entry_ok_def)
    let ?b = "np_names (gp_path e) ! before"
    have w: "shown g w n \<longleftrightarrow> n = ?b" for n using Some len g(2) by (auto simp: shown_def)
    then have "named = Mapping.delete ?b (g_named g)"
      using named Some len ok(4) [of ?b w] by (simp add: drop_name_def nth_opt_def)
    then show ?thesis using w [of n] ok(4) [of n v] ok(4) [of n w] by (cases "n = ?b") (auto simp: lookup_simps)
  qed
  have having: "having g' = having g" using g(2) by (intro ext) (auto simp: having_def g'_def lookup_simps split: if_splits)
  have gid: "gid g' = gid g" using g(2) by (intro ext) (auto simp: gid_def g'_def lookup_simps)
  have shown: "shown g' v n \<longleftrightarrow> (if v = w then n = ?n else shown g v n)" for v n
    using depth(1) g(2) by (auto simp: shown_def g'_def lookup_simps)
  have alone: "v = w" if "shown g v ?n" for v
  proof -
    have "v \<in> having g ?n" using that nth_mem by (fastforce simp: shown_def having_def)
    then show ?thesis using depth(2) by simp
  qed
  show ?thesis
    unfolding group_ok_def having gid
  proof (intro conjI allI impI)
    fix v f
    assume "Mapping.lookup (g_paths g') v = Some f"
    then show "entry_ok gname k g' v f"
      using ok(1) [of v] g(2) depth(1) by (auto simp: g'_def entry_ok_def lookup_simps split: if_splits)
  next
    fix j v
    assume "Mapping.lookup (g_by_id g') j = Some v"
    then obtain f where "Mapping.lookup (g_paths g) v = Some f" "gp_id f = j" using ok(2) [of j v] by (auto simp: g'_def)
    then show "\<exists>f. Mapping.lookup (g_paths g') v = Some f \<and> gp_id f = j" using g(2) by (auto simp: g'_def lookup_simps)
  next
    show "tallies (gid g) (having g) (g_shared g')" using ok(3) by (simp add: g'_def)
  next
    fix n v
    show "Mapping.lookup (g_named g') n = Some v \<longleftrightarrow> shown g' v n"
      unfolding shown using old [of n v] alone by (auto simp: g'_def lookup_simps)
  qed
qed

lemma set_depth_ok:
  assumes ok: "index_ok ix fl" and f: "filed_at ix gname w g e"
    and depth: "depth < length (np_names (gp_path e))" "having g (np_names (gp_path e) ! depth) = {w}"
  obtains groups where "set_depth gname w depth ix = Some (ix\<lparr>ix_groups := groups\<rparr>)" "index_ok (ix\<lparr>ix_groups := groups\<rparr>) fl"
    "same_static ix (ix\<lparr>ix_groups := groups\<rparr>)"
    "\<And>gn v h k. filed_at (ix\<lparr>ix_groups := groups\<rparr>) gn v h k \<Longrightarrow>
       \<exists>h0 k0. filed_at ix gn v h0 k0 \<and> gp_depth k = (if (gn, v) = (gname, w) then Some depth else gp_depth k0)"
proof -
  note result = that
  note o = index_okD [OF ok]
  note g = filed_group_ok [OF ok f]
  have look: "Mapping.lookup (ix_groups ix) gname = Some g" using filed_atD [OF f] by simp
  show thesis
  proof (cases "gp_depth e = Some depth")
    case True
    have "set_depth gname w depth ix = Some ix" using look g(2) True by (simp add: set_depth_def)
    moreover have "gp_depth k = Some depth" if "filed_at ix gname w h k" for h k using that f True by (simp add: filed_at_def)
    ultimately show thesis using result [of "ix_groups ix"] ok by fastforce
  next
    case False
    have drop: "\<exists>named. (case gp_depth e of Some before \<Rightarrow> drop_name e before w (g_named g) | None \<Rightarrow> Some (g_named g)) = Some named"
      using group_okD(1) [OF g(1,2)] by (auto simp: entry_ok_def drop_name_def nth_opt_def split: option.split)
    then obtain named where named:
      "(case gp_depth e of Some before \<Rightarrow> drop_name e before w (g_named g) | None \<Rightarrow> Some (g_named g)) = Some named" by blast
    define g' where "g' = g\<lparr>g_named := Mapping.update (np_names (gp_path e) ! depth) w named,
      g_paths := Mapping.update w (e\<lparr>gp_depth := Some depth\<rparr>) (g_paths g)\<rparr>"
    have g': "group_ok gname (ix_next_path ix) g'" unfolding g'_def by (rule set_depth_group_ok [OF g(1,2) depth named])
    let ?ix = "ix\<lparr>ix_groups := Mapping.update gname g' (ix_groups ix)\<rparr>"
    have step: "set_depth gname w depth ix = Some ?ix"
      using look g(2) named False depth(1) by (simp add: set_depth_def g'_def nth_opt_def)
    have groups: "groups_ok ?ix fl"
    proof (rule groups_ok_update [OF o(6), of ?ix gname g'])
      fix v k
      assume v: "Mapping.lookup (g_paths g') v = Some k"
      then obtain k0 where "filed_at ix gname v g k0" "gp_holders k = gp_holders k0"
        using look g(2) by (auto simp: filed_at_def g'_def lookup_simps split: if_splits)
      then show "holders_ok (ix_place ix) fl gname v k" using groups_okD(2) [OF o(6)] by (simp add: holders_ok_def)
    next
      fix j v
      assume "on_path fl (gname, v) j"
      then have "Mapping.lookup (g_paths g) v \<noteq> None"
        using groups_okD(3) [OF o(6), of j _ gname v] look by (fastforce simp: on_path_def filed_at_def)
      then show "Mapping.lookup (g_paths g') v \<noteq> None" by (auto simp: g'_def lookup_simps)
    qed (use g' in simp_all)
    have "index_ok ?ix fl" using ok groups unfolding index_ok_def by simp
    moreover have "path_view ?ix gn v = path_view ix gn v" for gn v
      using look g(2) by (auto simp: path_view_def lookup_simps g'_def)
    then have "same_static ix ?ix" by (simp add: same_static_def fun_eq_iff)
    moreover have "\<exists>h0 k0. filed_at ix gn v h0 k0 \<and> gp_depth k = (if (gn, v) = (gname, w) then Some depth else gp_depth k0)"
      if "filed_at ?ix gn v h k" for gn v h k
      using that look g(2) by (auto simp: filed_at_def g'_def lookup_simps split: if_splits)
    ultimately show thesis using result [OF step] by blast
  qed
qed

section \<open>Renaming the holders\<close>

definition filing_of :: "'v registry \<Rightarrow> filing" where
  "filing_of r i = map_option (\<lambda>b. (buf_name b, Mapping.lookup (ix_member (reg_names r)) i)) (Mapping.lookup (reg_buffers r) i)"

definition renames :: "filing \<Rightarrow> (nat \<times> string) list \<Rightarrow> filing" where
  "renames fl changes i = (case map_of changes i of None \<Rightarrow> fl i | Some n \<Rightarrow> map_option (\<lambda>(_, m). (n, m)) (fl i))"

definition rename_buffers :: "(nat \<times> string) list \<Rightarrow> (nat, 'v buffer) mapping \<Rightarrow> nat \<Rightarrow> 'v buffer option" where
  "rename_buffers changes bufs i =
     (case map_of changes i of None \<Rightarrow> Mapping.lookup bufs i | Some n \<Rightarrow> map_option (set_derived_name n) (Mapping.lookup bufs i))"

text \<open>A buffer named by a path is one whose name may be derived: no assertion fails.\<close>

definition derived_origins :: "'v registry \<Rightarrow> bool" where
  "derived_origins r \<longleftrightarrow>
     (\<forall>i b. Mapping.lookup (reg_buffers r) i = Some b \<longrightarrow> Mapping.lookup (ix_member (reg_names r)) i \<noteq> None \<longrightarrow> name_origin b = PathDerived)"

lemma rename_one:
  assumes ok: "index_ok ix fl" and i: "fl i = Some (old, Some key)"
  obtains held where "release old ix = Some (ix\<lparr>ix_held := held\<rparr>)" "index_ok (hold name (ix\<lparr>ix_held := held\<rparr>)) (fl(i \<mapsto> (name, Some key)))"
proof -
  note o = index_okD [OF ok]
  obtain held where h: "release old ix = Some (ix\<lparr>ix_held := held\<rparr>)" "counts held (name_count (fl(i := None)))" using release_ok [OF ok i] .
  let ?fl = "fl(i \<mapsto> (name, Some key))"
  have fl: "?fl = (fl(i := None))(i \<mapsto> (name, Some key))" by simp
  have fin: "finite (dom (fl(i := None)))" using o(1) by simp
  have "counts (count_up name held) (name_count ?fl)"
    using counts_up [OF h(2), of name] unfolding fl name_count_add [OF fin fun_upd_same] .
  moreover have "reserved_count ?fl = reserved_count fl"
    unfolding fl reserved_count_add [OF fin fun_upd_same] using counts_remove(2) [OF o(1) i] by simp
  moreover have on: "on_path ?fl k = on_path fl k" for k using i by (intro ext) (auto simp: on_path_def)
  have "groups_ok (hold name (ix\<lparr>ix_held := held\<rparr>)) ?fl" by (rule groups_ok_same [OF o(6) _ _ _ on]) (simp_all add: hold_def)
  moreover have "place_ok (ix_place ix) (ix_next_place ix) ?fl" using place_okD(1) [OF o(5), of i] i by (intro place_ok_put [OF o(5)]) auto
  ultimately have "index_ok (hold name (ix\<lparr>ix_held := held\<rparr>)) ?fl"
    using o(1,3,4) i unfolding index_ok_def by (simp add: hold_def)
  then show thesis using that h(1) by blast
qed

lemma rename_holders_ok:
  assumes "index_ok (reg_names r) (filing_of r)" "derived_origins r" "distinct (map fst changes)"
    "\<forall>i \<in> fst ` set changes. \<exists>n key. filing_of r i = Some (n, Some key)"
  shows "returns (rename_holders changes prior r)
    (\<lambda>(r', prior', renamed). \<exists>held.
       index_ok (reg_names r') (filing_of r') \<and> filing_of r' = renames (filing_of r) changes \<and>
       reg_names r' = (reg_names r)\<lparr>ix_held := held\<rparr> \<and> reg_order r' = reg_order r \<and>
       Mapping.lookup (reg_buffers r') = rename_buffers changes (reg_buffers r) \<and>
       (\<forall>i. Mapping.lookup prior' i = (case Mapping.lookup prior i of Some h \<Rightarrow> Some h
              | None \<Rightarrow> if i \<in> fst ` set changes then Some (fst (the (filing_of r i))) else None)) \<and>
       renamed = map (\<lambda>(i, n). (fst (the (filing_of r i)), n)) changes)"
  using assms
proof (induction changes arbitrary: r prior)
  case Nil
  have "reg_names r = (reg_names r)\<lparr>ix_held := ix_held (reg_names r)\<rparr>" by simp
  then show ?case
    using Nil.prems(1) unfolding rename_holders.simps returns_Some prod.case
    by (intro exI [of _ "ix_held (reg_names r)"]) (auto simp: renames_def rename_buffers_def fun_eq_iff split: option.split)
next
  case (Cons c changes)
  obtain i name where c: "c = (i, name)" by fastforce
  obtain old key where i: "filing_of r i = Some (old, Some key)" using Cons.prems(4) c by auto
  obtain b where b: "Mapping.lookup (reg_buffers r) i = Some b" "buf_name b = old" "Mapping.lookup (ix_member (reg_names r)) i = Some key"
    using i by (auto simp: filing_of_def)
  have derived: "name_origin b = PathDerived" using Cons.prems(2) b(1,3) by (auto simp: derived_origins_def)
  obtain held where h: "release old (reg_names r) = Some ((reg_names r)\<lparr>ix_held := held\<rparr>)"
    "index_ok (hold name ((reg_names r)\<lparr>ix_held := held\<rparr>)) ((filing_of r)(i \<mapsto> (name, Some key)))"
    using rename_one [OF Cons.prems(1) i, of name] by blast
  define r1 where "r1 = r\<lparr>reg_buffers := Mapping.update i (set_derived_name name b) (reg_buffers r),
      reg_names := hold name ((reg_names r)\<lparr>ix_held := held\<rparr>)\<rparr>"
  define prior1 where "prior1 = (if Mapping.lookup prior i = None then Mapping.update i old prior else prior)"
  have step: "rename_holders (c # changes) prior r =
      map_option (\<lambda>(r', prior'', renamed). (r', prior'', (old, name) # renamed)) (rename_holders changes prior1 r1)"
    using b derived h(1) by (cases "rename_holders changes prior1 r1") (auto simp: c r1_def prior1_def Let_def)
  have fl1: "filing_of r1 = (filing_of r)(i \<mapsto> (name, Some key))"
    using b(3) by (intro ext) (simp add: filing_of_def r1_def hold_def lookup_simps set_derived_name_def)
  have "derived_origins r1"
    using Cons.prems(2) b derived by (auto simp: derived_origins_def r1_def hold_def lookup_simps set_derived_name_def split: if_splits)
  moreover have "i \<notin> fst ` set changes" "distinct (map fst changes)" using Cons.prems(3) c by auto
  then have out: "map_of changes i = None" "\<And>j. j \<in> fst ` set changes \<Longrightarrow> j \<noteq> i" by (auto simp: map_of_eq_None_iff)
  then have "\<forall>j \<in> fst ` set changes. \<exists>n key. filing_of r1 j = Some (n, Some key)" using Cons.prems(4) unfolding fl1 by auto
  ultimately obtain r' prior' renamed held' where IH: "rename_holders changes prior1 r1 = Some (r', prior', renamed)"
    "index_ok (reg_names r') (filing_of r')" "filing_of r' = renames (filing_of r1) changes"
    "reg_names r' = (reg_names r1)\<lparr>ix_held := held'\<rparr>" "reg_order r' = reg_order r1"
    "Mapping.lookup (reg_buffers r') = rename_buffers changes (reg_buffers r1)"
    "\<forall>j. Mapping.lookup prior' j = (case Mapping.lookup prior1 j of Some h \<Rightarrow> Some h
       | None \<Rightarrow> if j \<in> fst ` set changes then Some (fst (the (filing_of r1 j))) else None)"
    "renamed = map (\<lambda>(j, n). (fst (the (filing_of r1 j)), n)) changes"
    using Cons.IH [of r1 prior1] h(2) \<open>distinct (map fst changes)\<close> fl1 by (fastforce simp: r1_def elim!: returnsE)
  have r1: "renames (filing_of r1) changes = renames (filing_of r) (c # changes)"
    using out(1) i by (intro ext) (auto simp: renames_def fl1 c split: option.split)
  have r2: "rename_buffers changes (reg_buffers r1) = rename_buffers (c # changes) (reg_buffers r)"
    using out(1) b(1) by (intro ext) (auto simp: rename_buffers_def r1_def c lookup_simps split: option.split)
  have r3: "\<forall>j. Mapping.lookup prior' j = (case Mapping.lookup prior j of Some h \<Rightarrow> Some h
       | None \<Rightarrow> if j \<in> fst ` set (c # changes) then Some (fst (the (filing_of r j))) else None)"
  proof
    fix j
    have "j \<in> fst ` set changes \<Longrightarrow> fst (the (filing_of r1 j)) = fst (the (filing_of r j))" using out(2) fl1 by fastforce
    then show "Mapping.lookup prior' j = (case Mapping.lookup prior j of Some h \<Rightarrow> Some h
       | None \<Rightarrow> if j \<in> fst ` set (c # changes) then Some (fst (the (filing_of r j))) else None)"
      using IH(7) [rule_format, of j] i out(2) [of j]
      by (cases "j = i"; cases "Mapping.lookup prior i"; cases "Mapping.lookup prior j"; cases "j \<in> fst ` set changes")
        (simp_all add: prior1_def c lookup_simps)
  qed
  have r4: "(old, name) # renamed = map (\<lambda>(j, n). (fst (the (filing_of r j)), n)) (c # changes)"
    using i out(2) by (force simp: IH(8) c fl1)
  have r5: "reg_names r' = (reg_names r)\<lparr>ix_held := held'\<rparr>" "reg_order r' = reg_order r"
    using IH(4,5) by (simp_all add: r1_def hold_def)
  show ?case
    unfolding step IH(1) option.map prod.case returns_Some
    by (intro exI [of _ held'] conjI) (fact IH(2) IH(3) [unfolded r1] r5 IH(6) [unfolded r2] r3 r4)+
qed

section \<open>Visiting a path\<close>

lemma those_map_Some: "\<forall>x \<in> set xs. f x = Some (g x) \<Longrightarrow> those (map f xs) = Some (map g xs)"
  by (induction xs) auto

lemma holders_distinct:
  assumes "holders_ok place fl gname w e"
  shows "distinct (map snd (gp_holders e))"
proof -
  have "distinct (map fst (gp_holders e))" using assms by (simp add: holders_ok_def strict_sorted_iff)
  then have "distinct (gp_holders e)" by (rule distinct_map [THEN iffD1, THEN conjunct1])
  moreover have "inj_on snd (set (gp_holders e))" using assms by (auto simp: holders_ok_def inj_on_def)
  ultimately show ?thesis by (simp add: distinct_map)
qed

definition name_changes :: "(nat \<times> nat) list \<Rightarrow> string list \<Rightarrow> string list \<Rightarrow> (nat \<times> string) list" where
  "name_changes hs now names =
     map (\<lambda>((_, i), _, name). (i, name)) (filter (\<lambda>(_, held, name). held \<noteq> name) (zip hs (zip now names)))"

lemma name_changes_facts:
  assumes "length hs = length now" "length now = length names" "distinct (map snd hs)"
  shows "distinct (map fst (name_changes hs now names))" "fst ` set (name_changes hs now names) \<subseteq> snd ` set hs"
    "set (name_changes hs now names) = {(snd (hs ! j), names ! j) | j. j < length hs \<and> now ! j \<noteq> names ! j}"
proof -
  have sub: "fst ` set (name_changes hs now names) \<subseteq> snd ` set hs" for hs :: "(nat \<times> nat) list" and now names
    by (force simp: name_changes_def dest: set_zip_leftD)
  then show "fst ` set (name_changes hs now names) \<subseteq> snd ` set hs" .
  show "distinct (map fst (name_changes hs now names))"
    using assms
  proof (induction hs now names rule: list_induct3)
    case (Cons h hs n now m names)
    have "name_changes (h # hs) (n # now) (m # names) = (if n \<noteq> m then (snd h, m) # name_changes hs now names else name_changes hs now names)"
      by (cases h) (simp add: name_changes_def)
    moreover have "distinct (map fst (name_changes hs now names))" "snd h \<notin> snd ` set hs" using Cons by auto
    ultimately show ?case using sub [of hs now names] by auto
  qed (simp add: name_changes_def)
  show "set (name_changes hs now names) = {(snd (hs ! j), names ! j) | j. j < length hs \<and> now ! j \<noteq> names ! j}"
  proof (intro equalityI subsetI)
    fix x
    assume "x \<in> set (name_changes hs now names)"
    then obtain h a n where t: "(h, a, n) \<in> set (zip hs (zip now names))" "a \<noteq> n" "x = (snd h, n)"
      by (auto simp: name_changes_def)
    then obtain j where "j < length hs" "h = hs ! j" "a = now ! j" "n = names ! j"
      using assms(1,2) by (auto simp: in_set_zip)
    then show "x \<in> {(snd (hs ! j), names ! j) | j. j < length hs \<and> now ! j \<noteq> names ! j}" using t by auto
  next
    fix x
    assume "x \<in> {(snd (hs ! j), names ! j) | j. j < length hs \<and> now ! j \<noteq> names ! j}"
    then obtain j where j: "j < length hs" "now ! j \<noteq> names ! j" "x = (snd (hs ! j), names ! j)" by blast
    then have "(hs ! j, now ! j, names ! j) \<in> set (zip hs (zip now names))"
      using assms(1,2) by (auto simp: in_set_zip)
    then show "x \<in> set (name_changes hs now names)"
      unfolding name_changes_def set_map using j(2,3)
      by (intro image_eqI [where x = "(hs ! j, now ! j, names ! j)"]) (auto split: prod.splits)
  qed
qed

lemma map_of_changes:
  assumes "length hs = length now" "length now = length names" "distinct (map snd hs)"
  shows "j < length hs \<Longrightarrow> map_of (name_changes hs now names) (snd (hs ! j)) = (if now ! j \<noteq> names ! j then Some (names ! j) else None)"
    "i \<notin> snd ` set hs \<Longrightarrow> map_of (name_changes hs now names) i = None"
proof -
  note c = name_changes_facts [OF assms]
  show "j < length hs \<Longrightarrow> map_of (name_changes hs now names) (snd (hs ! j)) = (if now ! j \<noteq> names ! j then Some (names ! j) else None)"
  proof -
    assume j: "j < length hs"
    show ?thesis
    proof (cases "now ! j = names ! j")
      case True
      have "snd (hs ! j) \<notin> fst ` set (name_changes hs now names)"
      proof
        assume "snd (hs ! j) \<in> fst ` set (name_changes hs now names)"
        then obtain k where k: "k < length hs" "now ! k \<noteq> names ! k" "snd (hs ! k) = snd (hs ! j)" unfolding c(3) by auto
        then have "k = j" using nth_eq_iff_index_eq [OF assms(3), of k j] j by simp
        then show False using k(2) True by simp
      qed
      then show ?thesis using True by (simp add: map_of_eq_None_iff)
    next
      case False
      then have "(snd (hs ! j), names ! j) \<in> set (name_changes hs now names)" using c(3) j by blast
      then show ?thesis using False map_of_is_SomeI [OF c(1)] by simp
    qed
  qed
  show "i \<notin> snd ` set hs \<Longrightarrow> map_of (name_changes hs now names) i = None" using c(2) by (auto simp: map_of_eq_None_iff)
qed

text \<open>The name a buffer held when the event began.\<close>

definition orig :: "'v registry \<Rightarrow> (nat, string) mapping \<Rightarrow> nat \<Rightarrow> string" where
  "orig r prior i = (case Mapping.lookup prior i of Some h \<Rightarrow> h | None \<Rightarrow> fst (the (filing_of r i)))"

definition taken_by :: "name_index \<Rightarrow> string list \<Rightarrow> string \<Rightarrow> bool" where
  "taken_by ix now n \<longleftrightarrow> length (filter (\<lambda>h. h = n) now) < held_count ix n"

lemma held_count_iff: "index_ok ix fl \<Longrightarrow> held_count ix n = name_count fl n"
  using countsD [OF index_okD(2), of ix fl n] by (simp add: held_count_def)

lemma taken_by_iff:
  assumes "index_ok ix fl" "filed_at ix gname w g e"
  shows "taken_by ix (holder_names fl e) n \<longleftrightarrow> (\<exists>i m. fl i = Some (n, m) \<and> m \<noteq> Some (gname, w))"
proof -
  note o = index_okD [OF assms(1)]
  have h: "holders_ok (ix_place ix) fl gname w e" by (rule filed_group_ok(3) [OF assms])
  let ?all = "{i. \<exists>m. fl i = Some (n, m)}" and ?own = "{i. fl i = Some (n, Some (gname, w))}"
  have fin: "finite ?all" using finite_subset [OF filing_subset(1) o(1)] .
  have own: "?own = snd ` {p \<in> set (gp_holders e). fst (the (fl (snd p))) = n}"
  proof (intro equalityI subsetI)
    fix i
    assume "i \<in> ?own"
    then have i: "fl i = Some (n, Some (gname, w))" by simp
    then obtain pl where "Mapping.lookup (ix_place ix) i = Some pl" using place_okD(1) [OF o(5), of i] by auto
    then have "(pl, i) \<in> set (gp_holders e)" using h i by (auto simp: holders_ok_def)
    then show "i \<in> snd ` {p \<in> set (gp_holders e). fst (the (fl (snd p))) = n}" using i by force
  next
    fix i
    assume "i \<in> snd ` {p \<in> set (gp_holders e). fst (the (fl (snd p))) = n}"
    then show "i \<in> ?own" using h by (auto simp: holders_ok_def)
  qed
  have "length (filter (\<lambda>h. h = n) (holder_names fl e)) = length (filter (\<lambda>p. fst (the (fl (snd p))) = n) (gp_holders e))"
    by (simp add: holder_names_def filter_map comp_def split_beta)
  also have "\<dots> = card (snd ` set (filter (\<lambda>p. fst (the (fl (snd p))) = n) (gp_holders e)))"
    using holders_distinct [OF h] by (metis (no_types, lifting) distinct_card distinct_map_filter length_map set_map)
  also have "\<dots> = card ?own" unfolding own by simp
  finally have count: "length (filter (\<lambda>h. h = n) (holder_names fl e)) = card ?own" .
  have sub: "?own \<subseteq> ?all" by auto
  have "card ?own < card ?all \<longleftrightarrow> ?own \<noteq> ?all"
    using psubset_card_mono [OF fin, of ?own] sub by auto
  also have "?own \<noteq> ?all \<longleftrightarrow> (\<exists>i. i \<in> ?all \<and> i \<notin> ?own)" using sub by blast
  also have "\<dots> \<longleftrightarrow> (\<exists>i m. fl i = Some (n, m) \<and> m \<noteq> Some (gname, w))" by auto
  finally show ?thesis unfolding taken_by_def count held_count_iff [OF assms(1)] name_count_def .
qed

lemma taken_by_finite:
  assumes "index_ok ix fl" "filed_at ix gname w g e"
  shows "finite {n. taken_by ix (holder_names fl e) (numbered base n)}"
proof -
  have "finite (ran fl)" using index_okD(1) [OF assms(1)] by (rule finite_ran)
  then have "finite (fst ` ran fl)" by simp
  moreover have "inj (numbered base)" by (rule injI) (rule numbered_inj)
  ultimately have "finite (numbered base -` (fst ` ran fl))" by (simp add: finite_vimageI)
  moreover have "{n. taken_by ix (holder_names fl e) (numbered base n)} \<subseteq> numbered base -` (fst ` ran fl)"
    using taken_by_iff [OF assms] by (force simp: ran_def)
  ultimately show ?thesis by (rule rev_finite_subset)
qed

lemma renames_changes:
  assumes "length hs = length now" "length now = length names" "distinct (map snd hs)"
    and "\<And>j. j < length hs \<Longrightarrow> fl (snd (hs ! j)) = Some (now ! j, Some key)"
  shows "j < length hs \<Longrightarrow> renames fl (name_changes hs now names) (snd (hs ! j)) = Some (names ! j, Some key)"
    "i \<notin> snd ` set hs \<Longrightarrow> renames fl (name_changes hs now names) i = fl i"
  using map_of_changes [OF assms(1-3)] assms(4) by (auto simp: renames_def)

text \<open>What a visit does: the names by the rule, over the names the holders had when the event began.\<close>

definition visit_names :: "'v registry \<Rightarrow> (nat, string) mapping \<Rightarrow> path_group \<Rightarrow> group_path \<Rightarrow> string list option" where
  "visit_names r prior g e =
     (let base = base_name (reserved_name (reg_names r)) g e
      in name_holders base (map (\<lambda>(_, i). orig r prior i) (gp_holders e)) (\<not> reserved_name (reg_names r) base)
           (taken_by (reg_names r) (holder_names (filing_of r) e)))"

definition same_buffers :: "'v registry \<Rightarrow> 'v registry \<Rightarrow> bool" where
  "same_buffers r r' \<longleftrightarrow> reg_order r' = reg_order r \<and>
     (\<forall>i. map_option (set_derived_name []) (Mapping.lookup (reg_buffers r') i) = map_option (set_derived_name []) (Mapping.lookup (reg_buffers r) i)) \<and>
     (\<forall>i. Mapping.lookup (ix_member (reg_names r)) i = None \<longrightarrow> Mapping.lookup (reg_buffers r') i = Mapping.lookup (reg_buffers r) i)"

lemma same_buffers_refl [simp]: "same_buffers r r"
  by (simp add: same_buffers_def)

definition visited :: "'v registry \<Rightarrow> (nat, string) mapping \<Rightarrow> string \<Rightarrow> string \<Rightarrow> path_group \<Rightarrow> group_path \<Rightarrow> string list \<Rightarrow>
    'v registry \<times> (nat, string) mapping \<times> (string \<times> string) list \<Rightarrow> bool" where
  "visited r prior gname w g e names result \<longleftrightarrow> (case result of (r', prior', renamed) \<Rightarrow>
     index_ok (reg_names r') (filing_of r') \<and> same_static (reg_names r) (reg_names r') \<and> same_buffers r r' \<and>
     (\<forall>j < length names. filing_of r' (snd (gp_holders e ! j)) = Some (names ! j, Some (gname, w))) \<and>
     (\<forall>i. i \<notin> snd ` set (gp_holders e) \<longrightarrow> filing_of r' i = filing_of r i) \<and>
     (\<forall>gn v h k. filed_at (reg_names r') gn v h k \<longrightarrow> (\<exists>h0 k0. filed_at (reg_names r) gn v h0 k0 \<and>
        gp_depth k = (if (gn, v) = (gname, w) then Some (depth_of (reserved_name (reg_names r)) g e) else gp_depth k0))) \<and>
     set renamed = {(holder_names (filing_of r) e ! j, names ! j) | j. j < length names \<and> holder_names (filing_of r) e ! j \<noteq> names ! j} \<and>
     (\<forall>i. orig r' prior' i = orig r prior i))"

lemma filing_member: "filing_of r i = Some (n, m) \<Longrightarrow> Mapping.lookup (ix_member (reg_names r)) i = m"
  by (auto simp: filing_of_def)

lemma settle_path_absent: "(\<nexists>g e. filed_at (reg_names r) gname w g e) \<Longrightarrow> settle_path gname w prior r = Some (r, prior, [])"
  by (auto simp: settle_path_def filed_at_def bind_eq_Some_conv split: option.split)

lemma same_buffers_renamed:
  assumes "Mapping.lookup (reg_buffers r') = rename_buffers changes (reg_buffers r)" "reg_order r' = reg_order r"
    and "\<And>i. i \<in> fst ` set changes \<Longrightarrow> Mapping.lookup (ix_member (reg_names r)) i \<noteq> None"
  shows "same_buffers r r'"
  unfolding same_buffers_def assms(1,2)
proof (intro conjI allI impI refl)
  fix i
  show "map_option (set_derived_name []) (rename_buffers changes (reg_buffers r) i) = map_option (set_derived_name []) (Mapping.lookup (reg_buffers r) i)"
    by (cases "Mapping.lookup (reg_buffers r) i") (auto simp: rename_buffers_def set_derived_name_def split: option.split)
  assume "Mapping.lookup (ix_member (reg_names r)) i = None"
  then have "i \<notin> fst ` set changes" using assms(3) by blast
  then have "map_of changes i = None" by (simp add: map_of_eq_None_iff)
  then show "rename_buffers changes (reg_buffers r) i = Mapping.lookup (reg_buffers r) i" by (simp add: rename_buffers_def)
qed

lemma settle_path_visits:
  assumes ok: "index_ok (reg_names r) (filing_of r)" "derived_origins r" and f: "filed_at (reg_names r) gname w g e"
  obtains result names where "settle_path gname w prior r = Some result" "visit_names r prior g e = Some names"
    "length names = length (gp_holders e)" "visited r prior gname w g e names result"
proof -
  note result = that
  let ?ix = "reg_names r" and ?fl = "filing_of r" and ?hs = "gp_holders e"
  let ?res = "reserved_name ?ix" and ?now = "holder_names ?fl e"
  let ?base = "base_name ?res g e" and ?depth = "depth_of ?res g e"
  note g = filed_group_ok [OF ok(1) f]
  note look = filed_atD [OF f]
  have key: "?fl i = Some (fst (the (?fl i)), Some (gname, w))" if "(pl, i) \<in> set ?hs" for pl i
    using g(3) that by (auto simp: holders_ok_def)
  have buf: "map_option buf_name (Mapping.lookup (reg_buffers r) i) = Some (fst (the (?fl i)))" if "(pl, i) \<in> set ?hs" for pl i
    using key [OF that] by (auto simp: filing_of_def)
  have now: "those (map (\<lambda>(_, i). map_option buf_name (Mapping.lookup (reg_buffers r) i)) ?hs) = Some ?now"
    unfolding holder_names_def by (rule those_map_Some) (use buf in auto)
  have len: "length ?now = length ?hs" by (simp add: holder_names_def)
  have holds: "map (\<lambda>((_, i), name). case Mapping.lookup prior i of Some h \<Rightarrow> h | None \<Rightarrow> name) (zip ?hs ?now) = map (\<lambda>(_, i). orig r prior i) ?hs"
    by (rule nth_equalityI) (auto simp: holder_names_def orig_def split_beta)
  have base: "nth_opt (np_names (gp_path e)) ?depth = Some ?base"
    using base_name_facts(4) [OF g(1,2), of ?res] by (simp add: nth_opt_def base_name_def)
  obtain names where names: "visit_names r prior g e = Some names" "length names = length ?hs"
    using name_holders_names [OF taken_by_finite [OF ok(1) f], of ?base "map (\<lambda>(_, i). orig r prior i) ?hs" "\<not> ?res ?base"]
    by (auto simp: visit_names_def Let_def elim: returnsE)
  let ?changes = "name_changes ?hs ?now names"
  obtain groups where d: "set_depth gname w ?depth ?ix = Some (?ix\<lparr>ix_groups := groups\<rparr>)" "index_ok (?ix\<lparr>ix_groups := groups\<rparr>) ?fl"
    "same_static ?ix (?ix\<lparr>ix_groups := groups\<rparr>)"
    "\<And>gn v h k. filed_at (?ix\<lparr>ix_groups := groups\<rparr>) gn v h k \<Longrightarrow>
       \<exists>h0 k0. filed_at ?ix gn v h0 k0 \<and> gp_depth k = (if (gn, v) = (gname, w) then Some ?depth else gp_depth k0)"
    using set_depth_ok [OF ok(1) f, of ?depth] base_name_facts(3,4) [OF g(1,2), of ?res] unfolding base_name_def by blast
  define r1 where "r1 = r\<lparr>reg_names := ?ix\<lparr>ix_groups := groups\<rparr>\<rparr>"
  have fl1: "filing_of r1 = ?fl" by (intro ext) (simp add: filing_of_def r1_def)
  have step: "settle_path gname w prior r = rename_holders ?changes prior r1"
    unfolding settle_path_def Let_def reserved_name_def [symmetric]
    using look now names(1) base d(1)
    by (simp add: visit_names_def Let_def holds depth_of_def [symmetric] taken_by_def [abs_def] name_changes_def [symmetric] r1_def)
  have lens: "length ?hs = length ?now" "length ?now = length names" using len names(2) by simp_all
  note c = name_changes_facts [OF lens holders_distinct [OF g(3)]]
  have key_j: "?fl (snd (?hs ! j)) = Some (?now ! j, Some (gname, w))" if "j < length ?hs" for j
  proof -
    have "(fst (?hs ! j), snd (?hs ! j)) \<in> set ?hs" using that by simp
    from key [OF this] show ?thesis using that by (simp add: holder_names_def split_beta)
  qed
  have "\<forall>i \<in> fst ` set ?changes. \<exists>n key. filing_of r1 i = Some (n, Some key)"
  proof
    fix i
    assume "i \<in> fst ` set ?changes"
    then obtain pl where "(pl, i) \<in> set ?hs" using c(2) by force
    from key [OF this] show "\<exists>n key. filing_of r1 i = Some (n, Some key)" unfolding fl1 by blast
  qed
  note rh = rename_holders_ok [OF _ _ c(1), of r1 prior, unfolded fl1, OF _ _ this [unfolded fl1]]
  have pre: "derived_origins r1" "index_ok (reg_names r1) ?fl" using ok(2) d(2) by (simp_all add: derived_origins_def r1_def)
  obtain x where x: "rename_holders ?changes prior r1 = Some x"
    "case x of (r', prior', renamed) \<Rightarrow> \<exists>held.
       index_ok (reg_names r') (filing_of r') \<and> filing_of r' = renames ?fl ?changes \<and>
       reg_names r' = (reg_names r1)\<lparr>ix_held := held\<rparr> \<and> reg_order r' = reg_order r1 \<and>
       Mapping.lookup (reg_buffers r') = rename_buffers ?changes (reg_buffers r1) \<and>
       (\<forall>i. Mapping.lookup prior' i = (case Mapping.lookup prior i of Some h \<Rightarrow> Some h
              | None \<Rightarrow> if i \<in> fst ` set ?changes then Some (fst (the (?fl i))) else None)) \<and>
       renamed = map (\<lambda>(i, n). (fst (the (?fl i)), n)) ?changes"
    by (rule returnsE [OF rh [OF pre(2,1)]])
  obtain r' prior' renamed where xs: "x = (r', prior', renamed)" using prod_cases3 by blast
  obtain held where rn: "rename_holders ?changes prior r1 = Some (r', prior', renamed)"
    "index_ok (reg_names r') (filing_of r')" "filing_of r' = renames ?fl ?changes" "reg_names r' = (reg_names r1)\<lparr>ix_held := held\<rparr>"
    "reg_order r' = reg_order r1" "Mapping.lookup (reg_buffers r') = rename_buffers ?changes (reg_buffers r1)"
    "\<forall>i. Mapping.lookup prior' i = (case Mapping.lookup prior i of Some h \<Rightarrow> Some h
       | None \<Rightarrow> if i \<in> fst ` set ?changes then Some (fst (the (?fl i))) else None)"
    "renamed = map (\<lambda>(i, n). (fst (the (?fl i)), n)) ?changes"
    using x unfolding xs prod.case by blast
  note ren = renames_changes [OF lens holders_distinct [OF g(3)] key_j]
  have static: "same_static ?ix (reg_names r')"
    using same_static_trans [OF d(3) same_static_held] rn(4) by (simp add: r1_def)
  have bufs: "same_buffers r r'"
  proof (rule same_buffers_renamed)
    show "Mapping.lookup (reg_buffers r') = rename_buffers ?changes (reg_buffers r)" "reg_order r' = reg_order r" using rn(5,6) by (simp_all add: r1_def)
    fix i
    assume "i \<in> fst ` set ?changes"
    then obtain pl where "(pl, i) \<in> set ?hs" using c(2) by force
    then show "Mapping.lookup (ix_member ?ix) i \<noteq> None" using filing_member [OF key] by simp
  qed
  have depths: "\<exists>h0 k0. filed_at ?ix gn v h0 k0 \<and> gp_depth k = (if (gn, v) = (gname, w) then Some ?depth else gp_depth k0)"
    if "filed_at (reg_names r') gn v h k" for gn v h k
  proof (rule d(4))
    have "filed_at (reg_names r') = filed_at (?ix\<lparr>ix_groups := groups\<rparr>)" by (rule filed_at_groups) (simp add: rn(4) r1_def)
    then show "filed_at (?ix\<lparr>ix_groups := groups\<rparr>) gn v h k" using that by simp
  qed
  have pairs: "set renamed = {(?now ! j, names ! j) | j. j < length names \<and> ?now ! j \<noteq> names ! j}"
    unfolding rn(8) set_map c(3) using key_j names(2) by (auto simp: image_iff) (metis fst_conv option.sel)+
  have prior: "orig r' prior' i = orig r prior i" for i
  proof -
    have p': "Mapping.lookup prior' i = (case Mapping.lookup prior i of Some h \<Rightarrow> Some h
       | None \<Rightarrow> if i \<in> fst ` set ?changes then Some (fst (the (?fl i))) else None)" using rn(7) by blast
    show ?thesis
    proof (cases "Mapping.lookup prior i = None \<and> i \<notin> fst ` set ?changes")
      case True
      then have "map_of ?changes i = None" by (simp add: map_of_eq_None_iff)
      then have "renames ?fl ?changes i = ?fl i" by (simp add: renames_def)
      then show ?thesis using True p' rn(3) by (simp add: orig_def)
    next
      case False
      then show ?thesis using p' by (auto simp: orig_def split: option.splits)
    qed
  qed
  have "visited r prior gname w g e names (r', prior', renamed)"
    unfolding visited_def prod.case using rn(2) static bufs ren depths pairs prior names(2) unfolding rn(3) by simp
  then show thesis using result [OF step [unfolded rn(1)] names] by blast
qed

end
