(* ===== verification/Registry_Rounds.thy ===== *)
theory Registry_Rounds
  imports Registry_Settling
begin

text \<open>
  The rounds of \<^verbatim>\<open>BufferRegistry::settle\<close>: what is outside the dirty set stays rightly named, and three rounds are
  enough. From the second round on, what a path's numbered names can meet is fixed, so a path visited again keeps its
  names and marks nothing.
\<close>

section \<open>One visit\<close>

lemma same_buffers_trans:
  "same_buffers r r' \<Longrightarrow> same_static (reg_names r) (reg_names r') \<Longrightarrow> same_buffers r' r'' \<Longrightarrow> same_buffers r r''"
  by (simp add: same_buffers_def same_static_def)

lemma same_buffers_origins:
  assumes "same_buffers r r'" "same_static (reg_names r) (reg_names r')" "derived_origins r"
  shows "derived_origins r'"
  unfolding derived_origins_def
proof (intro allI impI)
  fix i b'
  assume b': "Mapping.lookup (reg_buffers r') i = Some b'" "Mapping.lookup (ix_member (reg_names r')) i \<noteq> None"
  have "map_option (set_derived_name []) (Mapping.lookup (reg_buffers r') i) = map_option (set_derived_name []) (Mapping.lookup (reg_buffers r) i)"
    using assms(1) by (simp add: same_buffers_def)
  then obtain b where b: "Mapping.lookup (reg_buffers r) i = Some b" "set_derived_name [] b' = set_derived_name [] b"
    using b'(1) by (cases "Mapping.lookup (reg_buffers r) i") auto
  have "name_origin b' = name_origin b" using arg_cong [OF b(2), of name_origin] by (simp add: set_derived_name_def)
  then show "name_origin b' = PathDerived" using assms(2,3) b(1) b'(2) by (simp add: derived_origins_def same_static_def)
qed

lemma visitedD:
  assumes "visited r prior gname w g e names (r', prior', renamed)"
  shows "index_ok (reg_names r') (filing_of r')" "same_static (reg_names r) (reg_names r')" "same_buffers r r'"
    "j < length names \<Longrightarrow> filing_of r' (snd (gp_holders e ! j)) = Some (names ! j, Some (gname, w))"
    "i \<notin> snd ` set (gp_holders e) \<Longrightarrow> filing_of r' i = filing_of r i"
    "filed_at (reg_names r') gn v h k \<Longrightarrow> \<exists>h0 k0. filed_at (reg_names r) gn v h0 k0 \<and>
        gp_depth k = (if (gn, v) = (gname, w) then Some (depth_of (reserved_name (reg_names r)) g e) else gp_depth k0)"
    "set renamed = {(holder_names (filing_of r) e ! j, names ! j) | j. j < length names \<and> holder_names (filing_of r) e ! j \<noteq> names ! j}"
    "orig r' prior' i = orig r prior i"
proof -
  note v = assms [unfolded visited_def prod.case]
  note t1 = v [THEN conjunct2] and t3 = v [THEN conjunct2, THEN conjunct2, THEN conjunct2]
  note t6 = t3 [THEN conjunct2, THEN conjunct2, THEN conjunct2]
  show "index_ok (reg_names r') (filing_of r')" by (rule v [THEN conjunct1])
  show "same_static (reg_names r) (reg_names r')" by (rule t1 [THEN conjunct1])
  show "same_buffers r r'" by (rule t1 [THEN conjunct2, THEN conjunct1])
  show "filing_of r' (snd (gp_holders e ! j)) = Some (names ! j, Some (gname, w))" if "j < length names"
    by (rule t3 [THEN conjunct1, rule_format, OF that])
  show "filing_of r' i = filing_of r i" if "i \<notin> snd ` set (gp_holders e)"
    by (rule t3 [THEN conjunct2, THEN conjunct1, rule_format, OF that])
  show "\<exists>h0 k0. filed_at (reg_names r) gn v h0 k0 \<and>
        gp_depth k = (if (gn, v) = (gname, w) then Some (depth_of (reserved_name (reg_names r)) g e) else gp_depth k0)"
    if "filed_at (reg_names r') gn v h k" for gn v h k
    by (rule t3 [THEN conjunct2, THEN conjunct2, THEN conjunct1, rule_format, OF that])
  show "set renamed = {(holder_names (filing_of r) e ! j, names ! j) | j. j < length names \<and> holder_names (filing_of r) e ! j \<noteq> names ! j}"
    by (rule t6 [THEN conjunct1])
  show "orig r' prior' i = orig r prior i" by (rule t6 [THEN conjunct2, rule_format])
qed

text \<open>A filed path after the visit, and the same path before.\<close>

lemma visited_filed:
  assumes v: "visited r prior gname w g e names (r', prior', renamed)" and f: "filed_at (reg_names r') gn v h k"
  obtains h0 k0 where "filed_at (reg_names r) gn v h0 k0" "g_shared h = g_shared h0" "gp_path k = gp_path k0" "gp_holders k = gp_holders k0"
    "gp_depth k = (if (gn, v) = (gname, w) then Some (depth_of (reserved_name (reg_names r)) g e) else gp_depth k0)"
proof -
  obtain h0 k0 where a: "filed_at (reg_names r) gn v h0 k0"
    "gp_depth k = (if (gn, v) = (gname, w) then Some (depth_of (reserved_name (reg_names r)) g e) else gp_depth k0)"
    using visitedD(6) [OF v f] by blast
  have "path_view (reg_names r) gn v = path_view (reg_names r') gn v" using visitedD(2) [OF v] by (simp add: same_static_def)
  then show thesis using that [OF a(1) _ _ _ a(2)] path_view_filed [OF a(1)] path_view_filed [OF f] by simp
qed

lemma filed_at_unique: "filed_at ix gn v g e \<Longrightarrow> filed_at ix gn v g' e' \<Longrightarrow> g' = g \<and> e' = e"
  by (simp add: filed_at_def)

lemma holders_apart:
  assumes ok: "index_ok ix fl" and f: "filed_at ix gname w g e" "filed_at ix gn v h k" "(gn, v) \<noteq> (gname, w)"
  shows "(pl, i) \<in> set (gp_holders k) \<Longrightarrow> i \<notin> snd ` set (gp_holders e)"
  using filed_group_ok(3) [OF ok f(1)] filed_group_ok(3) [OF ok f(2)] f(3) by (auto simp: holders_ok_def)

lemma visited_names:
  assumes v: "visited r prior gname w g e names (r', prior', renamed)" and len: "length names = length (gp_holders e)"
    and ok: "index_ok (reg_names r) (filing_of r)" and f: "filed_at (reg_names r) gname w g e"
  shows "holder_names (filing_of r') e = names"
    "filed_at (reg_names r) gn u h k \<Longrightarrow> (gn, u) \<noteq> (gname, w) \<Longrightarrow> holder_names (filing_of r') k = holder_names (filing_of r) k"
proof -
  show "holder_names (filing_of r') e = names"
    using visitedD(4) [OF v] len by (intro nth_equalityI) (auto simp: holder_names_def split_beta)
  show "holder_names (filing_of r') k = holder_names (filing_of r) k" if k: "filed_at (reg_names r) gn u h k" "(gn, u) \<noteq> (gname, w)"
    unfolding holder_names_def
  proof (rule map_cong [OF refl])
    fix p
    assume "p \<in> set (gp_holders k)"
    then have "snd p \<notin> snd ` set (gp_holders e)" using holders_apart [OF ok f k, of "fst p" "snd p"] by simp
    then show "(case p of (_, i) \<Rightarrow> fst (the (filing_of r' i))) = (case p of (_, i) \<Rightarrow> fst (the (filing_of r i)))"
      using visitedD(5) [OF v] by (simp add: split_beta)
  qed
qed

lemma derived_pair_sup: "set d \<subseteq> set ((\<lambda>(old, new) d. derived_changed ix new (derived_changed ix old d)) p d)"
  using derived_changed_sup [of d ix "fst p"] derived_changed_sup [of "derived_changed ix (fst p) d" ix "snd p"]
  by (simp add: split_beta)

lemma mark_renamed_sup: "set d \<subseteq> set (mark_renamed ix renamed d)"
  unfolding mark_renamed_def by (rule fold_marks(1)) (rule derived_pair_sup)

lemma mark_renamed_marks:
  assumes "group_ok gname k g" "filed_at ix gname w g e" "shown g w n" "(old, new) \<in> set renamed" "suffixed n old \<or> suffixed n new"
  shows "(gname, w) \<in> set (mark_renamed ix renamed d)"
proof -
  let ?f = "\<lambda>(old, new) d. derived_changed ix new (derived_changed ix old d)"
  have marked: "suffixed n x \<Longrightarrow> (gname, w) \<in> set (derived_changed ix x d)" for x d
    using derived_unmarked [OF assms(1)] filed_atD [OF assms(2)] assms(3) by blast
  have sup: "set d \<subseteq> set (?f p d)" for p d by (rule derived_pair_sup)
  have "(gname, w) \<in> set (?f (old, new) d)" for d
    using assms(5) marked derived_changed_sup by (auto simp: subset_iff)
  then show ?thesis unfolding mark_renamed_def using fold_marks(2) [of ?f, OF sup assms(4)] by blast
qed

lemma visit_names_facts:
  assumes ok: "index_ok (reg_names r) (filing_of r)" and f: "filed_at (reg_names r) gname w g e"
    and names: "visit_names r prior g e = Some names"
  defines "base \<equiv> base_name (reserved_name (reg_names r)) g e"
  shows "length names = length (gp_holders e)" "well_named base (\<not> reserved_name (reg_names r) base) names"
    "x \<in> set names \<Longrightarrow> suffixed base x \<Longrightarrow> filing_of r i = Some (x, m) \<Longrightarrow> m = Some (gname, w)"
    "\<not> reserved_name (reg_names r) base \<Longrightarrow> names ! keeper base (map (\<lambda>(_, i). orig r prior i) (gp_holders e)) = base"
proof -
  let ?holds = "map (\<lambda>(_, i). orig r prior i) (gp_holders e)" and ?taken = "taken_by (reg_names r) (holder_names (filing_of r) e)"
  have holders: "gp_holders e \<noteq> []" using filed_group_ok(3) [OF ok f] by (simp add: holders_ok_def)
  have n: "name_holders base ?holds (\<not> reserved_name (reg_names r) base) ?taken = Some names"
    using names by (simp add: visit_names_def base_def Let_def)
  have "returns (name_holders base ?holds (\<not> reserved_name (reg_names r) base) ?taken)
    (\<lambda>names. length names = length ?holds \<and> distinct names \<and>
       (\<forall>x \<in> set names. (x = base \<and> \<not> reserved_name (reg_names r) base) \<or> (suffixed base x \<and> \<not> ?taken x)))"
    using name_holders_names [OF taken_by_finite [OF ok f]] .
  then have facts: "length names = length ?holds" "distinct names"
    "\<forall>x \<in> set names. (x = base \<and> \<not> reserved_name (reg_names r) base) \<or> (suffixed base x \<and> \<not> ?taken x)"
    unfolding n by simp_all
  then show len: "length names = length (gp_holders e)" by simp
  show keep: "\<not> reserved_name (reg_names r) base \<Longrightarrow> names ! keeper base ?holds = base"
    using name_holders_keeper [of base ?holds ?taken names] n holders by simp
  have "keeper base ?holds < length names" using keeper_less [of ?holds base] holders len by simp
  then have "\<not> reserved_name (reg_names r) base \<Longrightarrow> base \<in> set names" using keep nth_mem by metis
  then show "well_named base (\<not> reserved_name (reg_names r) base) names" using facts(2,3) unfolding well_named_def by blast
  show "x \<in> set names \<Longrightarrow> suffixed base x \<Longrightarrow> filing_of r i = Some (x, m) \<Longrightarrow> m = Some (gname, w)"
  proof -
    assume x: "x \<in> set names" "suffixed base x" "filing_of r i = Some (x, m)"
    have "x \<noteq> base" using x(2) suffixed_not_base by auto
    then have "\<not> ?taken x" using facts(3) x(1) by blast
    then show "m = Some (gname, w)" using taken_by_iff [OF ok f, of x] x(3) by blast
  qed
qed

text \<open>What is outside the dirty set stays right, if the paths that the new names disturb join it.\<close>

lemma visited_settled:
  assumes ok: "index_ok (reg_names r) (filing_of r)" and s: "settled (reg_names r) (filing_of r) D"
    and f: "filed_at (reg_names r) gname w g e" and names: "visit_names r prior g e = Some names"
    and v: "visited r prior gname w g e names (r', prior', renamed)"
  shows "settled (reg_names r') (filing_of r') ((D - {(gname, w)}) \<union> set (mark_renamed (reg_names r') renamed next))"
  unfolding settled_def
proof (intro allI impI)
  fix gn u h k
  assume k: "filed_at (reg_names r') gn u h k" and n: "(gn, u) \<notin> (D - {(gname, w)}) \<union> set (mark_renamed (reg_names r') renamed next)"
  let ?res = "reserved_name (reg_names r)"
  have res: "reserved_name (reg_names r') = ?res" by (rule same_static_reserved [OF visitedD(2) [OF v]])
  obtain h0 k0 where k0: "filed_at (reg_names r) gn u h0 k0" "g_shared h = g_shared h0" "gp_path k = gp_path k0" "gp_holders k = gp_holders k0"
    "gp_depth k = (if (gn, u) = (gname, w) then Some (depth_of ?res g e) else gp_depth k0)"
    using visited_filed [OF v k] .
  have base: "base_name ?res h k = base_name ?res h0 k0" "depth_of ?res h k = depth_of ?res h0 k0"
    using base_name_view [OF k0(2,3)] depth_of_view [OF k0(2,3)] by simp_all
  have hn: "holder_names fl k = holder_names fl k0" for fl using holder_names_view [OF k0(4)] .
  note facts = visit_names_facts [OF ok f names]
  show "clean (filing_of r') (reserved_name (reg_names r')) gn u h k"
  proof (cases "(gn, u) = (gname, w)")
    case True
    then have same: "h0 = g" "k0 = e" using filed_at_unique [OF f] k0(1) by auto
    have new: "holder_names (filing_of r') k = names" using hn visited_names(1) [OF v facts(1) ok f] same by simp
    have "alone (filing_of r') (gname, w) (base_name ?res g e) names"
      unfolding alone_def
    proof (intro ballI impI allI)
      fix x i m
      assume x: "x \<in> set names" "suffixed (base_name ?res g e) x" "filing_of r' i = Some (x, m)"
      show "m = Some (gname, w)"
      proof (cases "i \<in> snd ` set (gp_holders e)")
        case True
        then obtain j where "j < length (gp_holders e)" "i = snd (gp_holders e ! j)" by (auto simp: in_set_conv_nth)
        then show ?thesis using visitedD(4) [OF v, of j] facts(1) x(3) by simp
      next
        case False
        then show ?thesis using visitedD(5) [OF v False] x facts(3) [OF x(1,2), of i m] by simp
      qed
    qed
    then show ?thesis using facts(2) k0(5) base same new True by (simp add: clean_def res)
  next
    case False
    have c: "clean (filing_of r) ?res gn u h0 k0" using settledD [OF s k0(1)] n False by blast
    have old: "holder_names (filing_of r') k = holder_names (filing_of r) k0" using hn visited_names(2) [OF v facts(1) ok f k0(1) False] by simp
    have "gp_depth k = gp_depth k0" using k0(5) unfolding if_not_P [OF False] .
    then have dep: "gp_depth k = Some (depth_of ?res h k)" using c base(2) by (simp add: clean_def)
    have g': "group_ok gn (ix_next_path (reg_names r')) h" "Mapping.lookup (g_paths h) u = Some k"
      using filed_group_ok [OF visitedD(1) [OF v] k] by simp_all
    have sh: "shown h u (base_name ?res h k)"
      using dep base_name_facts(4) [OF g', of ?res] g'(2) by (auto simp: shown_def base_name_def)
    have al: "\<And>x i m. x \<in> set (holder_names (filing_of r) k0) \<Longrightarrow> suffixed (base_name ?res h0 k0) x \<Longrightarrow> filing_of r i = Some (x, m) \<Longrightarrow> m = Some (gn, u)"
      using c by (simp add: clean_def alone_def)
    have "alone (filing_of r') (gn, u) (base_name ?res h0 k0) (holder_names (filing_of r) k0)"
      unfolding alone_def
    proof (intro ballI impI allI)
      fix x i m
      assume x: "x \<in> set (holder_names (filing_of r) k0)" "suffixed (base_name ?res h0 k0) x" "filing_of r' i = Some (x, m)"
      show "m = Some (gn, u)"
      proof (cases "i \<in> snd ` set (gp_holders e)")
        case True
        then obtain j where j: "j < length (gp_holders e)" "i = snd (gp_holders e ! j)" by (auto simp: in_set_conv_nth)
        then have new: "names ! j = x" using visitedD(4) [OF v, of j] facts(1) x(3) by simp
        have now: "filing_of r i = Some (holder_names (filing_of r) e ! j, Some (gname, w))"
        proof -
          have "(fst (gp_holders e ! j), i) \<in> set (gp_holders e)" using j by simp
          then have "\<exists>n. filing_of r i = Some (n, Some (gname, w))" using filed_group_ok(3) [OF ok f] by (auto simp: holders_ok_def)
          then show ?thesis using j by (auto simp: holder_names_def split_beta)
        qed
        have "holder_names (filing_of r) e ! j \<noteq> x"
        proof
          assume "holder_names (filing_of r) e ! j = x"
          then show False using al [OF x(1,2), of i "Some (gname, w)"] now False by simp
        qed
        then have "(holder_names (filing_of r) e ! j, x) \<in> set renamed"
          unfolding visitedD(7) [OF v] using j(1) new facts(1) by force
        then have "(gn, u) \<in> set (mark_renamed (reg_names r') renamed next)"
          using mark_renamed_marks [OF g'(1) k sh] x(2) base(1) by metis
        then show ?thesis using n by simp
      next
        case False
        then show ?thesis using visitedD(5) [OF v False] al [OF x(1,2)] x(3) by simp
      qed
    qed
    then show ?thesis using c dep base old by (simp add: clean_def res)
  qed
qed

section \<open>Paths that were named once in the event\<close>

text \<open>
  A path is kept when its depth is recorded, its holders have names of the right shape and the plain name is with its
  keeper, the one that the names held when the event began determine.
\<close>

definition origs :: "'v registry \<Rightarrow> (nat, string) mapping \<Rightarrow> group_path \<Rightarrow> string list" where
  "origs r prior e = map (\<lambda>(_, i). orig r prior i) (gp_holders e)"

definition kept :: "'v registry \<Rightarrow> (nat, string) mapping \<Rightarrow> path_group \<Rightarrow> group_path \<Rightarrow> bool" where
  "kept r prior g e \<longleftrightarrow>
     (let res = reserved_name (reg_names r); base = base_name res g e; names = holder_names (filing_of r) e
      in gp_depth e = Some (depth_of res g e) \<and> well_named base (\<not> res base) names \<and>
         (\<not> res base \<longrightarrow> names ! keeper base (origs r prior e) = base))"

definition all_kept :: "'v registry \<Rightarrow> (nat, string) mapping \<Rightarrow> (string \<times> string) set \<Rightarrow> bool" where
  "all_kept r prior X \<longleftrightarrow> (\<forall>gn u g e. filed_at (reg_names r) gn u g e \<longrightarrow> (gn, u) \<notin> X \<longrightarrow> kept r prior g e)"

lemma all_keptD: "all_kept r prior X \<Longrightarrow> filed_at (reg_names r) gn u g e \<Longrightarrow> (gn, u) \<notin> X \<Longrightarrow> kept r prior g e"
  by (simp add: all_kept_def)

lemma kept_facts:
  assumes "kept r prior g e"
  defines "base \<equiv> base_name (reserved_name (reg_names r)) g e"
  shows "gp_depth e = Some (depth_of (reserved_name (reg_names r)) g e)"
    "well_named base (\<not> reserved_name (reg_names r) base) (holder_names (filing_of r) e)"
    "\<not> reserved_name (reg_names r) base \<Longrightarrow> holder_names (filing_of r) e ! keeper base (origs r prior e) = base"
  using assms by (simp_all add: kept_def Let_def)

lemma kept_initially:
  assumes "index_ok (reg_names r) (filing_of r)" "settled (reg_names r) (filing_of r) D"
  shows "all_kept r Mapping.empty D"
  unfolding all_kept_def
proof (intro allI impI)
  fix gn u g e
  assume f: "filed_at (reg_names r) gn u g e" "(gn, u) \<notin> D"
  let ?base = "base_name (reserved_name (reg_names r)) g e" and ?names = "holder_names (filing_of r) e"
  have c: "clean (filing_of r) (reserved_name (reg_names r)) gn u g e" by (rule settledD [OF assms(2) f])
  have "origs r Mapping.empty e = ?names" by (simp add: origs_def orig_def holder_names_def)
  moreover have "?names ! keeper ?base ?names = ?base" if "?base \<in> set ?names"
  proof (cases "position_of (\<lambda>h. h = ?base) ?names")
    case None
    then show ?thesis using position_of_None [OF None that] by simp
  next
    case (Some j)
    then show ?thesis using position_of_less [OF Some] by (simp add: keeper_def)
  qed
  ultimately show "kept r Mapping.empty g e" using c by (auto simp: kept_def clean_def well_named_def Let_def)
qed

lemma visited_kept:
  assumes ok: "index_ok (reg_names r) (filing_of r)" and f: "filed_at (reg_names r) gname w g e"
    and names: "visit_names r prior g e = Some names" and v: "visited r prior gname w g e names (r', prior', renamed)"
    and kept: "all_kept r prior X"
  shows "all_kept r' prior' (X - {(gname, w)})"
  unfolding all_kept_def
proof (intro allI impI)
  fix gn u h k
  assume k: "filed_at (reg_names r') gn u h k" and n: "(gn, u) \<notin> X - {(gname, w)}"
  let ?res = "reserved_name (reg_names r)"
  have res: "reserved_name (reg_names r') = ?res" by (rule same_static_reserved [OF visitedD(2) [OF v]])
  obtain h0 k0 where k0: "filed_at (reg_names r) gn u h0 k0" "g_shared h = g_shared h0" "gp_path k = gp_path k0" "gp_holders k = gp_holders k0"
    "gp_depth k = (if (gn, u) = (gname, w) then Some (depth_of ?res g e) else gp_depth k0)"
    using visited_filed [OF v k] .
  have base: "base_name ?res h k = base_name ?res h0 k0" "depth_of ?res h k = depth_of ?res h0 k0"
    using base_name_view [OF k0(2,3)] depth_of_view [OF k0(2,3)] by simp_all
  have hn: "holder_names fl k = holder_names fl k0" for fl using holder_names_view [OF k0(4)] .
  have og: "origs r' prior' k = origs r prior k0" using visitedD(8) [OF v] k0(4) by (simp add: origs_def)
  note facts = visit_names_facts [OF ok f names]
  show "kept r' prior' h k"
  proof (cases "(gn, u) = (gname, w)")
    case True
    then have same: "h0 = g" "k0 = e" using filed_at_unique [OF f] k0(1) by auto
    have new: "holder_names (filing_of r') k = names" using hn visited_names(1) [OF v facts(1) ok f] same by simp
    have dep: "gp_depth k = Some (depth_of ?res g e)" using k0(5) unfolding if_P [OF True] .
    show ?thesis
      using facts(2,4) dep by (simp add: kept_def Let_def res base same new og) (simp add: origs_def)
  next
    case False
    have c: "kept r prior h0 k0" using all_keptD [OF kept k0(1)] n False by blast
    have old: "holder_names (filing_of r') k = holder_names (filing_of r) k0" using hn visited_names(2) [OF v facts(1) ok f k0(1) False] by simp
    have "gp_depth k = gp_depth k0" using k0(5) unfolding if_not_P [OF False] .
    then show ?thesis using c by (simp add: kept_def Let_def res base old og)
  qed
qed

section \<open>What the numbered names of a path can meet\<close>

definition fixed_taken :: "name_index \<Rightarrow> string \<Rightarrow> string \<Rightarrow> string \<Rightarrow> bool" where
  "fixed_taken ix gname w x \<longleftrightarrow>
     reserved_name ix x \<or>
     (\<exists>gn u g e. filed_at ix gn u g e \<and> (gn, u) \<noteq> (gname, w) \<and> base_name (reserved_name ix) g e = x)"

lemma fixed_taken_static:
  assumes "same_static ix ix'"
  shows "fixed_taken ix' = fixed_taken ix"
proof -
  have flip: "same_static ix' ix" using assms by (simp add: same_static_def)
  have res: "reserved_name ix' = reserved_name ix" by (rule same_static_reserved [OF assms])
  have one: "\<exists>g' e'. filed_at b gn u g' e' \<and> base_name rs g' e' = base_name rs g e"
    if "same_static a b" "filed_at a gn u g e" for a b gn u g e rs
    using same_static_filed [OF that] base_name_view by metis
  show ?thesis
    unfolding fixed_taken_def res by (intro ext) (metis one [OF assms] one [OF flip])
qed

lemma taken_fixed:
  assumes ok: "index_ok (reg_names r) (filing_of r)" and kept: "all_kept r prior {}" and f: "filed_at (reg_names r) gname w g e"
    and x: "suffixed (base_name (reserved_name (reg_names r)) g e) x"
  shows "taken_by (reg_names r) (holder_names (filing_of r) e) x \<longleftrightarrow> fixed_taken (reg_names r) gname w x"
proof -
  let ?res = "reserved_name (reg_names r)"
  note g = filed_group_ok [OF ok f]
  have unique: "(gn, u) = (gname, w)" if "filed_at (reg_names r) gn u h k" "base_name ?res h k = base_name ?res g e" for gn u h k
  proof -
    have "gn = gname \<Longrightarrow> h = g" using filed_atD [OF that(1)] filed_atD [OF f] by simp
    then show ?thesis using base_name_unique [OF filed_group_ok(1,2) [OF ok that(1)] g(1,2) that(2)] by blast
  qed
  have "(\<exists>i m. filing_of r i = Some (x, m) \<and> m \<noteq> Some (gname, w)) \<longleftrightarrow> fixed_taken (reg_names r) gname w x"
  proof
    assume "\<exists>i m. filing_of r i = Some (x, m) \<and> m \<noteq> Some (gname, w)"
    then obtain i m where i: "filing_of r i = Some (x, m)" "m \<noteq> Some (gname, w)" by blast
    show "fixed_taken (reg_names r) gname w x"
    proof (cases m)
      case None
      then show ?thesis using i(1) reserved_name_iff [OF ok] by (auto simp: fixed_taken_def)
    next
      case (Some key)
      obtain gn u where key: "key = (gn, u)" by fastforce
      obtain h k where k: "filed_at (reg_names r) gn u h k" using groups_okD(3) [OF index_okD(6) [OF ok]] i(1) Some key by blast
      have kk: "kept r prior h k" using all_keptD [OF kept k] by simp
      obtain pl where "Mapping.lookup (ix_place (reg_names r)) i = Some pl" using place_okD(1) [OF index_okD(5) [OF ok], of i] i(1) by auto
      then have "(pl, i) \<in> set (gp_holders k)" using filed_group_ok(3) [OF ok k] i(1) Some key by (auto simp: holders_ok_def)
      then have "x \<in> set (holder_names (filing_of r) k)" using i(1) by (force simp: holder_names_def)
      then have "x = base_name ?res h k \<or> suffixed (base_name ?res h k) x" using kept_facts(2) [OF kk] by (auto simp: well_named_def)
      moreover have "\<not> suffixed (base_name ?res h k) x"
        using suffixed_base_unique [OF _ x] unique [OF k] i(2) Some key by auto
      ultimately show ?thesis using k i(2) Some key by (auto simp: fixed_taken_def)
    qed
  next
    assume "fixed_taken (reg_names r) gname w x"
    then consider "reserved_name (reg_names r) x"
      | gn u h k where "\<not> reserved_name (reg_names r) x" "filed_at (reg_names r) gn u h k" "(gn, u) \<noteq> (gname, w)" "base_name ?res h k = x"
      unfolding fixed_taken_def by blast
    then show "\<exists>i m. filing_of r i = Some (x, m) \<and> m \<noteq> Some (gname, w)"
    proof cases
      case 1
      then show ?thesis using reserved_name_iff [OF ok] by blast
    next
      case 2
      have "x \<in> set (holder_names (filing_of r) k)"
        using kept_facts(2) [OF all_keptD [OF kept 2(2)]] 2(1,4) by (simp add: well_named_def)
      then obtain pl i where i: "(pl, i) \<in> set (gp_holders k)" "fst (the (filing_of r i)) = x" by (auto simp: holder_names_def)
      then have "filing_of r i = Some (x, Some (gn, u))" using filed_group_ok(3) [OF ok 2(2)] by (auto simp: holders_ok_def)
      then show ?thesis using 2(3) by blast
    qed
  qed
  then show ?thesis using taken_by_iff [OF ok f] by simp
qed

text \<open>So the names a visit gives are determined by what does not change.\<close>

definition goal_names :: "'v registry \<Rightarrow> (nat, string) mapping \<Rightarrow> string \<Rightarrow> string \<Rightarrow> path_group \<Rightarrow> group_path \<Rightarrow> string list option" where
  "goal_names r prior gname w g e =
     (let base = base_name (reserved_name (reg_names r)) g e
      in name_holders base (origs r prior e) (\<not> reserved_name (reg_names r) base) (fixed_taken (reg_names r) gname w))"

lemma visit_goal:
  assumes "index_ok (reg_names r) (filing_of r)" "all_kept r prior {}" "filed_at (reg_names r) gname w g e"
  shows "visit_names r prior g e = goal_names r prior gname w g e"
  unfolding visit_names_def goal_names_def origs_def Let_def
  by (rule name_holders_cong) (use taken_fixed [OF assms] in blast)

definition at_goal :: "'v registry \<Rightarrow> (nat, string) mapping \<Rightarrow> (string \<times> string) set \<Rightarrow> bool" where
  "at_goal r prior X \<longleftrightarrow>
     (\<forall>gn u g e. filed_at (reg_names r) gn u g e \<longrightarrow> (gn, u) \<in> X \<longrightarrow> goal_names r prior gn u g e = Some (holder_names (filing_of r) e))"

lemma visited_at_goal:
  assumes ok: "index_ok (reg_names r) (filing_of r)" "all_kept r prior {}" and f: "filed_at (reg_names r) gname w g e"
    and names: "visit_names r prior g e = Some names" and v: "visited r prior gname w g e names (r', prior', renamed)"
    and goal: "at_goal r prior X"
  shows "at_goal r' prior' (insert (gname, w) X)"
  unfolding at_goal_def
proof (intro allI impI)
  fix gn u h k
  assume k: "filed_at (reg_names r') gn u h k" and n: "(gn, u) \<in> insert (gname, w) X"
  have res: "reserved_name (reg_names r') = reserved_name (reg_names r)" by (rule same_static_reserved [OF visitedD(2) [OF v]])
  obtain h0 k0 where k0: "filed_at (reg_names r) gn u h0 k0" "g_shared h = g_shared h0" "gp_path k = gp_path k0" "gp_holders k = gp_holders k0"
    using visited_filed [OF v k] by blast
  have og: "origs r' prior' k = origs r prior k0" using visitedD(8) [OF v] k0(4) by (simp add: origs_def)
  have same: "goal_names r' prior' gn u h k = goal_names r prior gn u h0 k0"
    using base_name_view [OF k0(2,3)] og by (simp add: goal_names_def res fixed_taken_static [OF visitedD(2) [OF v]])
  have hn: "holder_names (filing_of r') k = holder_names (filing_of r') k0" using holder_names_view [OF k0(4)] .
  note facts = visit_names_facts [OF ok(1) f names]
  show "goal_names r' prior' gn u h k = Some (holder_names (filing_of r') k)"
  proof (cases "(gn, u) = (gname, w)")
    case True
    then have eq: "h0 = g" "k0 = e" using filed_at_unique [OF f] k0(1) by auto
    show ?thesis unfolding same hn eq using names visit_goal [OF ok f] visited_names(1) [OF v facts(1) ok(1) f] True by simp
  next
    case False
    have g0: "goal_names r prior gn u h0 k0 = Some (holder_names (filing_of r) k0)" using goal k0(1) n False unfolding at_goal_def by blast
    have "holder_names (filing_of r') k0 = holder_names (filing_of r) k0" by (rule visited_names(2) [OF v facts(1) ok(1) f k0(1) False])
    then show ?thesis unfolding same hn using g0 by simp
  qed
qed

text \<open>Once every path is kept, only numbered names of the visited path change, and they mark that path alone.\<close>

lemma derived_changed_only:
  assumes "\<And>gn g whole. Mapping.lookup (ix_groups ix) gn = Some g \<Longrightarrow> Mapping.lookup (g_named g) base = Some whole \<Longrightarrow> (gn, whole) = key"
    and "suffixed base x"
  shows "set (derived_changed ix x d) \<subseteq> insert key (set d)"
proof -
  let ?f = "\<lambda>gname d. case Mapping.lookup (ix_groups ix) gname of None \<Rightarrow> d | Some grp \<Rightarrow> mark_named gname grp base d"
  have one: "set (?f gn d) \<subseteq> insert key (set d)" for gn d
    using assms(1) by (auto simp: mark_named_def split: option.splits)
  have "set (fold ?f gs d) \<subseteq> insert key (set d)" for gs
  proof (induction gs arbitrary: d)
    case (Cons gn gs)
    have "set (fold ?f gs (?f gn d)) \<subseteq> insert key (set (?f gn d))" by (rule Cons)
    then show ?case using one [where gn = gn and d = d] by auto
  qed auto
  then show ?thesis using without_suffix_suffixed [OF assms(2)] by (simp add: derived_changed_def)
qed

lemma mark_renamed_only:
  assumes "\<And>gn g whole. Mapping.lookup (ix_groups ix) gn = Some g \<Longrightarrow> Mapping.lookup (g_named g) base = Some whole \<Longrightarrow> (gn, whole) = key"
    and "\<And>old new. (old, new) \<in> set renamed \<Longrightarrow> suffixed base old \<and> suffixed base new"
  shows "set (mark_renamed ix renamed d) \<subseteq> insert key (set d)"
  using assms(2)
proof (induction renamed arbitrary: d)
  case (Cons p renamed)
  obtain old new where p: "p = (old, new)" by fastforce
  have s: "suffixed base old" "suffixed base new" using Cons.prems p by auto
  let ?d = "derived_changed ix new (derived_changed ix old d)"
  have "set ?d \<subseteq> insert key (set d)"
  proof -
    have "set ?d \<subseteq> insert key (set (derived_changed ix old d))" by (rule derived_changed_only [OF _ s(2)]) (rule assms(1))
    moreover have "set (derived_changed ix old d) \<subseteq> insert key (set d)" by (rule derived_changed_only [OF _ s(1)]) (rule assms(1))
    ultimately show ?thesis by blast
  qed
  moreover have "set (mark_renamed ix renamed ?d) \<subseteq> insert key (set ?d)"
    by (rule Cons.IH) (rule Cons.prems, simp)
  ultimately show ?case by (auto simp: mark_renamed_def p)
qed (auto simp: mark_renamed_def)

lemma visited_marks:
  assumes ok: "index_ok (reg_names r) (filing_of r)" "all_kept r prior {}" and f: "filed_at (reg_names r) gname w g e"
    and names: "visit_names r prior g e = Some names" and v: "visited r prior gname w g e names (r', prior', renamed)"
  shows "set (mark_renamed (reg_names r') renamed next) \<subseteq> insert (gname, w) (set next)"
proof -
  let ?res = "reserved_name (reg_names r)"
  let ?base = "base_name ?res g e" and ?now = "holder_names (filing_of r) e" and ?holds = "origs r prior e"
  note facts = visit_names_facts [OF ok(1) f names]
  have res: "reserved_name (reg_names r') = ?res" by (rule same_static_reserved [OF visitedD(2) [OF v]])
  have kept': "all_kept r' prior' {}" using visited_kept [OF ok(1) f names v ok(2)] by simp
  have k: "kept r prior g e" using all_keptD [OF ok(2) f] by simp
  have only: "(gn, whole) = (gname, w)"
    if g': "Mapping.lookup (ix_groups (reg_names r')) gn = Some h" "Mapping.lookup (g_named h) ?base = Some whole" for gn h whole
  proof -
    have hok: "group_ok gn (ix_next_path (reg_names r')) h"
      using groups_okD(1) [OF index_okD(6) [OF visitedD(1) [OF v]] g'(1)] .
    obtain c d where c: "Mapping.lookup (g_paths h) whole = Some c" "gp_depth c = Some d" "np_names (gp_path c) ! d = ?base"
      using group_okD(4) [OF hok] g'(2) by (auto simp: shown_def)
    have fc: "filed_at (reg_names r') gn whole h c" using g'(1) c(1) by (simp add: filed_at_def)
    have "base_name ?res h c = ?base"
      using kept_facts(1) [OF all_keptD [OF kept' fc]] c(2,3) by (simp add: res base_name_def)
    moreover obtain h0 c0 where c0: "filed_at (reg_names r) gn whole h0 c0" "g_shared h = g_shared h0" "gp_path c = gp_path c0"
      using visited_filed [OF v fc] by blast
    ultimately have "base_name ?res h0 c0 = base_name ?res g e" using base_name_view [OF c0(2,3)] by simp
    moreover have "gn = gname \<Longrightarrow> h0 = g" using filed_atD [OF c0(1)] filed_atD [OF f] by simp
    ultimately show ?thesis
      using base_name_unique [OF filed_group_ok(1,2) [OF ok(1) c0(1)] filed_group_ok(1,2) [OF ok(1) f]] by blast
  qed
  have len: "length ?now = length names" using facts(1) by (simp add: holder_names_def)
  have keep: "x = ?base \<Longrightarrow> xs ! j = x \<Longrightarrow> j < length xs \<Longrightarrow> well_named ?base (\<not> ?res ?base) xs \<Longrightarrow>
      (\<not> ?res ?base \<longrightarrow> xs ! keeper ?base ?holds = ?base) \<Longrightarrow> length xs = length names \<Longrightarrow> \<not> ?res ?base \<and> j = keeper ?base ?holds" for x xs j
  proof -
    assume x: "x = ?base" "xs ! j = x" "j < length xs" "well_named ?base (\<not> ?res ?base) xs"
      "\<not> ?res ?base \<longrightarrow> xs ! keeper ?base ?holds = ?base" "length xs = length names"
    have "x \<in> set xs" using x(2,3) by auto
    then have free: "\<not> ?res ?base" using x(1,4) suffixed_not_base by (auto simp: well_named_def)
    have "?holds \<noteq> []" using filed_group_ok(3) [OF ok(1) f] by (simp add: holders_ok_def origs_def)
    then have "keeper ?base ?holds < length xs" using keeper_less [of ?holds ?base] facts(1) x(6) by (simp add: origs_def)
    then show ?thesis using free x nth_eq_iff_index_eq [of xs j "keeper ?base ?holds"] by (auto simp: well_named_def)
  qed
  have pair: "suffixed ?base old \<and> suffixed ?base new" if pr: "(old, new) \<in> set renamed" for old new
  proof -
    obtain j where j: "j < length names" "?now ! j \<noteq> names ! j" "old = ?now ! j" "new = names ! j"
      using pr unfolding visitedD(7) [OF v] by blast
    have w: "well_named ?base (\<not> ?res ?base) ?now" "\<not> ?res ?base \<longrightarrow> ?now ! keeper ?base ?holds = ?base"
      using kept_facts(2,3) [OF k] by simp_all
    have w': "\<not> ?res ?base \<longrightarrow> names ! keeper ?base ?holds = ?base" using facts(4) by (simp add: origs_def)
    have at: "?now ! j \<in> set ?now" "names ! j \<in> set names" using j(1) len by simp_all
    show ?thesis
    proof (cases "old = ?base \<or> new = ?base")
      case True
      then have "\<not> ?res ?base \<and> j = keeper ?base ?holds"
      proof
        assume "old = ?base"
        then show ?thesis using keep [of old ?now j] j(1,3) len w by simp
      next
        assume "new = ?base"
        then show ?thesis using keep [of new names j] j(1,4) facts(2) w' by simp
      qed
      then show ?thesis using w(2) w' j(2) by simp
    next
      case False
      then show ?thesis using w(1) facts(2) at j(3,4) by (auto simp: well_named_def)
    qed
  qed
  show ?thesis by (rule mark_renamed_only [OF only pair])
qed

section \<open>A round\<close>

definition round_ok :: "'v registry \<Rightarrow> (nat, string) mapping \<Rightarrow> (string \<times> string) set \<Rightarrow> bool" where
  "round_ok r prior D \<longleftrightarrow> index_ok (reg_names r) (filing_of r) \<and> derived_origins r \<and> settled (reg_names r) (filing_of r) D"

definition unmoved :: "'v registry \<Rightarrow> 'v registry \<Rightarrow> bool" where
  "unmoved r r' \<longleftrightarrow> same_static (reg_names r) (reg_names r') \<and> same_buffers r r'"

lemma unmoved_refl [simp]: "unmoved r r"
  by (simp add: unmoved_def)

lemma unmoved_trans: "unmoved r r' \<Longrightarrow> unmoved r' r'' \<Longrightarrow> unmoved r r''"
  unfolding unmoved_def using same_static_trans same_buffers_trans by blast

text \<open>The visit of one member of the dirty set, filed or not.\<close>

lemma settle_path_ok:
  assumes ok: "round_ok r prior D" and kept: "all_kept r prior X"
  obtains r' prior' renamed where "settle_path gname w prior r = Some (r', prior', renamed)"
    "round_ok r' prior' ((D - {(gname, w)}) \<union> set (mark_renamed (reg_names r') renamed next))"
    "all_kept r' prior' (X - {(gname, w)})" "unmoved r r'"
    "X = {} \<Longrightarrow> set (mark_renamed (reg_names r') renamed next) \<subseteq> insert (gname, w) (set next)"
    "\<And>V. X = {} \<Longrightarrow> at_goal r prior V \<Longrightarrow> at_goal r' prior' (insert (gname, w) V)"
    "\<And>V. X = {} \<Longrightarrow> at_goal r prior V \<Longrightarrow> (gname, w) \<in> V \<Longrightarrow> renamed = []"
proof (cases "\<exists>g e. filed_at (reg_names r) gname w g e")
  case False
  have "settle_path gname w prior r = Some (r, prior, [])" using settle_path_absent False by blast
  moreover have "round_ok r prior ((D - {(gname, w)}) \<union> set (mark_renamed (reg_names r) [] next))"
    using ok False unfolding round_ok_def settled_def by blast
  moreover have "all_kept r prior (X - {(gname, w)})" using kept False unfolding all_kept_def by blast
  moreover have "at_goal r prior (insert (gname, w) V)" if "at_goal r prior V" for V using that False unfolding at_goal_def by blast
  ultimately show ?thesis using that by (simp add: mark_renamed_def subset_insertI)
next
  case True
  then obtain g e where f: "filed_at (reg_names r) gname w g e" by blast
  have o: "index_ok (reg_names r) (filing_of r)" "derived_origins r" "settled (reg_names r) (filing_of r) D"
    using ok by (simp_all add: round_ok_def)
  obtain result names where v0: "settle_path gname w prior r = Some result" "visit_names r prior g e = Some names"
    "visited r prior gname w g e names result" using settle_path_visits [OF o(1,2) f] by blast
  obtain r' prior' renamed where result: "result = (r', prior', renamed)" using prod_cases3 by blast
  note v = v0(3) [unfolded result]
  have "round_ok r' prior' ((D - {(gname, w)}) \<union> set (mark_renamed (reg_names r') renamed next))"
    unfolding round_ok_def
    using visitedD(1) [OF v] same_buffers_origins [OF visitedD(3,2) [OF v] o(2)] visited_settled [OF o(1,3) f v0(2) v] by blast
  moreover have "all_kept r' prior' (X - {(gname, w)})" by (rule visited_kept [OF o(1) f v0(2) v kept])
  moreover have "unmoved r r'" using visitedD(2,3) [OF v] by (simp add: unmoved_def)
  moreover have "X = {} \<Longrightarrow> set (mark_renamed (reg_names r') renamed next) \<subseteq> insert (gname, w) (set next)"
    using visited_marks [OF o(1) _ f v0(2) v] kept by blast
  moreover have "at_goal r' prior' (insert (gname, w) V)" if "X = {}" "at_goal r prior V" for V
    using visited_at_goal [OF o(1) _ f v0(2) v that(2)] kept that(1) by blast
  moreover have "renamed = []" if V: "X = {}" "at_goal r prior V" "(gname, w) \<in> V" for V
  proof -
    have "goal_names r prior gname w g e = Some (holder_names (filing_of r) e)" using V(2,3) f unfolding at_goal_def by blast
    then have "names = holder_names (filing_of r) e" using visit_goal [OF o(1) _ f] kept V(1) v0(2) by simp
    then have "set renamed = {}" unfolding visitedD(7) [OF v] by blast
    then show ?thesis by simp
  qed
  ultimately show ?thesis using that [OF v0(1) [unfolded result]] by blast
qed

lemma settle_round_ok:
  assumes "round_ok r prior (set ds \<union> set next)" "all_kept r prior X"
  shows "returns (settle_round ds prior r next) (\<lambda>(r', prior', next').
    round_ok r' prior' (set next') \<and> all_kept r' prior' (X - set ds) \<and> unmoved r r' \<and>
    (X = {} \<longrightarrow> set next' \<subseteq> set ds \<union> set next \<and>
       (\<forall>V. at_goal r prior V \<longrightarrow> at_goal r' prior' (V \<union> set ds) \<and> (set ds \<subseteq> V \<longrightarrow> next' = next))))"
  using assms
proof (induction ds arbitrary: r prior "next" X)
  case (Cons d ds)
  obtain gname w where d: "d = (gname, w)" by fastforce
  obtain r1 prior1 renamed where s: "settle_path gname w prior r = Some (r1, prior1, renamed)"
    "round_ok r1 prior1 (((set (d # ds) \<union> set next) - {(gname, w)}) \<union> set (mark_renamed (reg_names r1) renamed next))"
    "all_kept r1 prior1 (X - {(gname, w)})" "unmoved r r1"
    "X = {} \<Longrightarrow> set (mark_renamed (reg_names r1) renamed next) \<subseteq> insert (gname, w) (set next)"
    "\<And>V. X = {} \<Longrightarrow> at_goal r prior V \<Longrightarrow> at_goal r1 prior1 (insert (gname, w) V)"
    "\<And>V. X = {} \<Longrightarrow> at_goal r prior V \<Longrightarrow> (gname, w) \<in> V \<Longrightarrow> renamed = []"
    using settle_path_ok [OF Cons.prems] by metis
  let ?next = "mark_renamed (reg_names r1) renamed next"
  have "((set (d # ds) \<union> set next) - {(gname, w)}) \<union> set ?next \<subseteq> set ds \<union> set ?next"
    using mark_renamed_sup [of "next" "reg_names r1" renamed] d by auto
  then have "round_ok r1 prior1 (set ds \<union> set ?next)" using s(2) settled_mono unfolding round_ok_def by blast
  from Cons.IH [OF this s(3)] obtain x where x: "settle_round ds prior1 r1 ?next = Some x"
    "case x of (r', prior', next') \<Rightarrow> round_ok r' prior' (set next') \<and> all_kept r' prior' (X - {(gname, w)} - set ds) \<and> unmoved r1 r' \<and>
    (X - {(gname, w)} = {} \<longrightarrow> set next' \<subseteq> set ds \<union> set ?next \<and>
       (\<forall>V. at_goal r1 prior1 V \<longrightarrow> at_goal r' prior' (V \<union> set ds) \<and> (set ds \<subseteq> V \<longrightarrow> next' = ?next)))"
    by (rule returnsE)
  obtain r' prior' next' where xs: "x = (r', prior', next')" using prod_cases3 by blast
  note x2 = x(2) [unfolded xs prod.case]
  have "settle_round (d # ds) prior r next = Some (r', prior', next')" using s(1) x(1) by (simp add: d xs)
  moreover have "X - {(gname, w)} - set ds = X - set (d # ds)" using d by auto
  moreover have "unmoved r r'" using unmoved_trans s(4) x2 by blast
  moreover have "set next' \<subseteq> set (d # ds) \<union> set next" if "X = {}" using x2 s(5) that d by auto
  moreover have "at_goal r' prior' (V \<union> set (d # ds))" if "X = {}" "at_goal r prior V" for V
  proof -
    have "at_goal r' prior' (insert (gname, w) V \<union> set ds)" using x2 s(6) [OF that] that(1) by blast
    moreover have "insert (gname, w) V \<union> set ds = V \<union> set (d # ds)" using d by auto
    ultimately show ?thesis by simp
  qed
  moreover have "next' = next" if V: "X = {}" "at_goal r prior V" "set (d # ds) \<subseteq> V" for V
  proof -
    have "renamed = []" using s(7) [OF V(1,2)] V(3) d by simp
    then have same: "?next = next" by (simp add: mark_renamed_def)
    have "at_goal r1 prior1 (insert (gname, w) V)" by (rule s(6) [OF V(1,2)])
    moreover have "set ds \<subseteq> insert (gname, w) V" using V(3) by auto
    ultimately show ?thesis using x2 V(1) same by auto
  qed
  ultimately show ?case using x2 by (simp add: d)
qed (auto simp: at_goal_def)

section \<open>Settling ends\<close>

definition hash_order_ok :: "hash_order \<Rightarrow> bool" where
  "hash_order_ok ho \<longleftrightarrow> (\<forall>k d. mset (ho k d) = mset d)"

lemma hash_order_set: "hash_order_ok ho \<Longrightarrow> set (ho k d) = set d"
  unfolding hash_order_ok_def by (metis set_mset_mset)

lemma settle_loop_step:
  assumes "hash_order_ok ho" "round_ok r prior (set d)" "all_kept r prior X" "d \<noteq> []" "rounds < 8"
  obtains r' prior' next' where "settle_loop ho rounds d prior r = settle_loop ho (Suc rounds) next' prior' r'"
    "round_ok r' prior' (set next')" "all_kept r' prior' (X - set d)" "unmoved r r'"
    "X = {} \<Longrightarrow> set next' \<subseteq> set d" "\<And>V. X = {} \<Longrightarrow> at_goal r prior V \<Longrightarrow> at_goal r' prior' (V \<union> set d)"
    "\<And>V. X = {} \<Longrightarrow> at_goal r prior V \<Longrightarrow> set d \<subseteq> V \<Longrightarrow> next' = []"
proof -
  have set: "set (ho (rounds + 1) d) = set d" by (rule hash_order_set [OF assms(1)])
  have "round_ok r prior (set (ho (rounds + 1) d) \<union> set [])" using assms(2) set by simp
  from settle_round_ok [OF this assms(3)] obtain x where x: "settle_round (ho (rounds + 1) d) prior r [] = Some x"
    "case x of (r', prior', next') \<Rightarrow> round_ok r' prior' (set next') \<and> all_kept r' prior' (X - set d) \<and> unmoved r r' \<and>
    (X = {} \<longrightarrow> set next' \<subseteq> set d \<union> set [] \<and>
       (\<forall>V. at_goal r prior V \<longrightarrow> at_goal r' prior' (V \<union> set d) \<and> (set d \<subseteq> V \<longrightarrow> next' = [])))"
    unfolding set by (rule returnsE)
  obtain r' prior' next' where xs: "x = (r', prior', next')" using prod_cases3 by blast
  note x2 = x(2) [unfolded xs prod.case]
  have "settle_loop ho rounds d prior r = settle_loop ho (Suc rounds) next' prior' r'"
    using assms(4,5) x(1) xs by (subst settle_loop.simps) simp
  then show thesis using that [of next' prior' r'] x2 by simp
qed

theorem settle_ok:
  assumes ho: "hash_order_ok ho" and ok: "index_ok (reg_names r) (filing_of r)" "derived_origins r" "settled (reg_names r) (filing_of r) (set d)"
  shows "returns (settle ho d r) (\<lambda>r'. index_ok (reg_names r') (filing_of r') \<and> derived_origins r' \<and>
    settled (reg_names r') (filing_of r') {} \<and> unmoved r r')"
proof -
  let ?done = "\<lambda>r'. index_ok (reg_names r') (filing_of r') \<and> derived_origins r' \<and> settled (reg_names r') (filing_of r') {} \<and> unmoved r r'"
  have stop: "returns (settle_loop ho k [] prior r') ?done" if "round_ok r' prior (set [])" "unmoved r r'" for k prior r'
    using that by (subst settle_loop.simps) (simp add: round_ok_def)
  have r0: "round_ok r Mapping.empty (set d)" using ok by (simp add: round_ok_def)
  have "returns (settle_loop ho 0 d Mapping.empty r) ?done"
  proof (cases "d = []")
    case True
    then show ?thesis using stop [of r Mapping.empty 0] r0 by simp
  next
    case False
    obtain r1 p1 d1 where s1: "settle_loop ho 0 d Mapping.empty r = settle_loop ho (Suc 0) d1 p1 r1" "round_ok r1 p1 (set d1)"
      "all_kept r1 p1 (set d - set d)" "unmoved r r1"
      by (rule settle_loop_step [OF ho r0 kept_initially [OF ok(1,3)] False, of 0]) auto
    have k1: "all_kept r1 p1 {}" using s1(3) by simp
    show ?thesis
    proof (cases "d1 = []")
      case True
      then show ?thesis using stop [of r1 p1 "Suc 0"] s1 by simp
    next
      case False
      have goal0: "at_goal r1 p1 {}" by (simp add: at_goal_def)
      obtain r2 p2 d2 where s2: "settle_loop ho (Suc 0) d1 p1 r1 = settle_loop ho (Suc (Suc 0)) d2 p2 r2" "round_ok r2 p2 (set d2)"
        "all_kept r2 p2 ({} - set d1)" "unmoved r1 r2" "set d2 \<subseteq> set d1"
        and s2': "\<And>V. at_goal r1 p1 V \<Longrightarrow> at_goal r2 p2 (V \<union> set d1)"
        by (rule settle_loop_step [OF ho s1(2) k1 False, of "Suc 0"]) auto
      have k2: "all_kept r2 p2 {}" using s2(3) by simp
      show ?thesis
      proof (cases "d2 = []")
        case True
        then show ?thesis using stop [of r2 p2 "Suc (Suc 0)"] s1 s2 unmoved_trans [OF s1(4) s2(4)] by simp
      next
        case False
        have goal2: "at_goal r2 p2 (set d1)" using s2' [OF goal0] by simp
        obtain r3 p3 d3 where s3: "settle_loop ho (Suc (Suc 0)) d2 p2 r2 = settle_loop ho (Suc (Suc (Suc 0))) d3 p3 r3"
          "round_ok r3 p3 (set d3)" "unmoved r2 r3" and s3': "\<And>V. at_goal r2 p2 V \<Longrightarrow> set d2 \<subseteq> V \<Longrightarrow> d3 = []"
          by (rule settle_loop_step [OF ho s2(2) k2 False, of "Suc (Suc 0)"]) auto
        have d3: "d3 = []" by (rule s3' [OF goal2 s2(5)])
        show ?thesis
          using stop [of r3 p3 "Suc (Suc (Suc 0))"] s1(1) s2(1) s3 d3 unmoved_trans [OF unmoved_trans [OF s1(4) s2(4)] s3(3)] by simp
      qed
    qed
  qed
  then show ?thesis by (simp add: settle_def)
qed

end
