(* ===== verification/Registry_Operations.thy ===== *)
theory Registry_Operations
  imports Registry_Rounds Buffer_History
begin

text \<open>
  The operations of the buffer registry, \<^verbatim>\<open>src/src/buffer_registry.rs\<close>, keep its invariant: the index is the index
  of the open buffers, every path is named by the rule, the order lists each buffer once, and every buffer keeps its own
  invariant. No operation panics.
\<close>

section \<open>The invariant\<close>

text \<open>What the index has to know of the open buffers, read from the buffers alone.\<close>

definition filing_by :: "'v registry \<Rightarrow> filing" where
  "filing_by r i = map_option (\<lambda>b. (buf_name b, key_of b)) (Mapping.lookup (reg_buffers r) i)"

definition buffers_ok :: "'v registry \<Rightarrow> bool" where
  "buffers_ok r \<longleftrightarrow>
     (\<forall>i b. Mapping.lookup (reg_buffers r) i = Some b \<longrightarrow> buf_id b = i \<and> buffer_inv b) \<and>
     distinct (reg_order r) \<and> set (reg_order r) = Mapping.keys (reg_buffers r)"

definition reg_ok :: "'v registry \<Rightarrow> bool" where
  "reg_ok r \<longleftrightarrow> index_ok (reg_names r) (filing_by r) \<and> settled (reg_names r) (filing_by r) {} \<and> buffers_ok r"

lemma reg_okD:
  assumes "reg_ok r"
  shows "index_ok (reg_names r) (filing_by r)" "settled (reg_names r) (filing_by r) {}" "buffers_ok r"
  using assms by (simp_all add: reg_ok_def)

lemma buffers_okD:
  assumes "buffers_ok r"
  shows "Mapping.lookup (reg_buffers r) i = Some b \<Longrightarrow> buf_id b = i" "Mapping.lookup (reg_buffers r) i = Some b \<Longrightarrow> buffer_inv b"
    "distinct (reg_order r)" "set (reg_order r) = Mapping.keys (reg_buffers r)"
  using assms by (simp_all add: buffers_ok_def)

lemma filing_by_Some: "Mapping.lookup (reg_buffers r) i = Some b \<Longrightarrow> filing_by r i = Some (buf_name b, key_of b)"
  by (simp add: filing_by_def)

lemma filing_by_names [simp]: "filing_by (r\<lparr>reg_names := ix\<rparr>) = filing_by r" "filing_by (r\<lparr>reg_order := xs\<rparr>) = filing_by r"
  by (simp_all add: filing_by_def fun_eq_iff)

lemma filing_by_put: "filing_by (r\<lparr>reg_buffers := Mapping.update i b (reg_buffers r)\<rparr>) = (filing_by r)(i \<mapsto> (buf_name b, key_of b))"
  by (auto simp: filing_by_def fun_eq_iff)

lemma filing_by_drop: "filing_by (r\<lparr>reg_buffers := Mapping.delete i (reg_buffers r)\<rparr>) = (filing_by r)(i := None)"
  by (auto simp: filing_by_def fun_eq_iff lookup_delete')

lemma key_of_derived: "key_of b \<noteq> None \<Longrightarrow> name_origin b = PathDerived"
  by (auto simp: key_of_def name_path_def split: if_splits)

lemma key_of_unnamed: "key_of (set_derived_name n b) = key_of b"
  by (simp add: key_of_def name_path_def set_derived_name_def cong: option.case_cong)

lemma reg_ok_new: "reg_ok registry_new"
  by (simp add: reg_ok_def index_ok_def settled_def buffers_ok_def registry_new_def name_index_new_def filing_by_def filed_at_def
      counts_def name_count_def reserved_count_def place_ok_def groups_ok_def dom_def)

section \<open>The end of an event\<close>

lemma filing_of_by:
  assumes "index_ok (reg_names r) (filing_by r)"
  shows "filing_of r = filing_by r" "derived_origins r"
proof -
  have m: "Mapping.lookup (ix_member (reg_names r)) i = Option.bind (filing_by r i) snd" for i using index_okD(4) [OF assms] .
  show "filing_of r = filing_by r"
  proof
    show "filing_of r i = filing_by r i" for i
      by (cases "Mapping.lookup (reg_buffers r) i") (simp_all add: filing_of_def m filing_by_def)
  qed
  show "derived_origins r"
    unfolding derived_origins_def m using key_of_derived by (auto simp: filing_by_def)
qed

text \<open>The buffers after an event: those of \<open>bufs\<close>, but for the derived names.\<close>

definition renamed_only :: "'v registry \<Rightarrow> 'v registry \<Rightarrow> bool" where
  "renamed_only r r' \<longleftrightarrow> reg_order r' = reg_order r \<and>
     (\<forall>i. map_option (set_derived_name []) (Mapping.lookup (reg_buffers r') i) = map_option (set_derived_name []) (Mapping.lookup (reg_buffers r) i)) \<and>
     (\<forall>i b. Mapping.lookup (reg_buffers r) i = Some b \<longrightarrow> name_path b = None \<longrightarrow> Mapping.lookup (reg_buffers r') i = Some b)"

lemma renamed_only_cong: "reg_buffers a = reg_buffers b \<Longrightarrow> reg_order a = reg_order b \<Longrightarrow> renamed_only a r = renamed_only b r"
  by (simp add: renamed_only_def)

lemma renamed_onlyD:
  assumes "renamed_only r r'" "Mapping.lookup (reg_buffers r) i = Some b"
  obtains n where "Mapping.lookup (reg_buffers r') i = Some (set_derived_name n b)" "name_path b = None \<Longrightarrow> n = buf_name b"
proof -
  have "map_option (set_derived_name []) (Mapping.lookup (reg_buffers r') i) = Some (set_derived_name [] b)"
    using assms by (simp add: renamed_only_def)
  then obtain b' where b': "Mapping.lookup (reg_buffers r') i = Some b'" "set_derived_name [] b' = set_derived_name [] b" by auto
  have "b' = set_derived_name (buf_name b') (set_derived_name [] b')" by (simp add: set_derived_name_def)
  then have "b' = set_derived_name (buf_name b') b" unfolding b'(2) by (simp add: set_derived_name_def)
  moreover have "name_path b = None \<Longrightarrow> buf_name b' = buf_name b" using assms b'(1) by (auto simp: renamed_only_def)
  ultimately show thesis using that b'(1) by metis
qed

lemma renamed_only_dom:
  assumes "renamed_only r r'"
  shows "Mapping.lookup (reg_buffers r') i = None \<longleftrightarrow> Mapping.lookup (reg_buffers r) i = None"
proof -
  have "map_option (set_derived_name []) (Mapping.lookup (reg_buffers r') i) = map_option (set_derived_name []) (Mapping.lookup (reg_buffers r) i)"
    using assms by (simp add: renamed_only_def)
  then show ?thesis by (metis option.map_disc_iff)
qed

lemma renamed_only_keys: "renamed_only r r' \<Longrightarrow> Mapping.keys (reg_buffers r') = Mapping.keys (reg_buffers r)"
  using renamed_only_dom [of r r'] unfolding keys_dom_lookup dom_def by (simp del: not_None_eq)

lemma settle_reg_ok:
  assumes ho: "hash_order_ok ho" and ok: "index_ok (reg_names r) (filing_by r)" "settled (reg_names r) (filing_by r) (set d)" "buffers_ok r"
  shows "returns (settle ho d r) (\<lambda>r'. reg_ok r' \<and> renamed_only r r')"
proof -
  note f = filing_of_by [OF ok(1)]
  have member: "Mapping.lookup (ix_member (reg_names r)) i = Option.bind (filing_by r i) snd" for i using index_okD(4) [OF ok(1)] .
  from settle_ok [OF ho, of r d, unfolded f(1), OF ok(1) f(2) ok(2)]
  obtain r' where r': "settle ho d r = Some r'" "index_ok (reg_names r') (filing_of r')" "settled (reg_names r') (filing_of r') {}" "unmoved r r'"
    by (rule returnsE) blast
  have s: "same_static (reg_names r) (reg_names r')" "same_buffers r r'" using r'(4) by (simp_all add: unmoved_def)
  have only: "renamed_only r r'"
    unfolding renamed_only_def
  proof (intro conjI allI impI)
    show "reg_order r' = reg_order r" using s(2) by (simp add: same_buffers_def)
    show "map_option (set_derived_name []) (Mapping.lookup (reg_buffers r') i) = map_option (set_derived_name []) (Mapping.lookup (reg_buffers r) i)" for i
      using s(2) by (simp add: same_buffers_def)
    fix i b assume b: "Mapping.lookup (reg_buffers r) i = Some b" "name_path b = None"
    then have "Mapping.lookup (ix_member (reg_names r)) i = None" by (simp add: member filing_by_def key_of_def)
    then show "Mapping.lookup (reg_buffers r') i = Some b" using s(2) b(1) by (simp add: same_buffers_def)
  qed
  have "filing_of r' i = filing_by r' i" for i
  proof (cases "Mapping.lookup (reg_buffers r) i")
    case None
    then have "Mapping.lookup (reg_buffers r') i = None" using renamed_only_dom [OF only] by simp
    then show ?thesis by (simp add: filing_of_def filing_by_def)
  next
    case (Some b)
    obtain n where n: "Mapping.lookup (reg_buffers r') i = Some (set_derived_name n b)" by (rule renamed_onlyD [OF only Some])
    have "Mapping.lookup (ix_member (reg_names r')) i = key_of b"
      using s(1) by (simp add: same_static_def member filing_by_Some [OF Some])
    then show ?thesis by (simp add: filing_of_def filing_by_def n key_of_unnamed)
  qed
  then have eq: "filing_of r' = filing_by r'" by (rule ext)
  have "buffers_ok r'"
    unfolding buffers_ok_def
  proof (intro conjI allI impI)
    fix i b assume b': "Mapping.lookup (reg_buffers r') i = Some b"
    then have "Mapping.lookup (reg_buffers r) i \<noteq> None" using renamed_only_dom [OF only, of i] by (simp del: not_None_eq)
    then obtain b0 where b0: "Mapping.lookup (reg_buffers r) i = Some b0" by blast
    obtain n where "Mapping.lookup (reg_buffers r') i = Some (set_derived_name n b0)" by (rule renamed_onlyD [OF only b0])
    then show "buf_id b = i" "buffer_inv b"
      using b' buffers_okD(1,2) [OF ok(3) b0] by (auto simp: set_derived_name_def buffer_inv_flags)
  next
    show "distinct (reg_order r')" "set (reg_order r') = Mapping.keys (reg_buffers r')"
      using buffers_okD(3,4) [OF ok(3)] only renamed_only_keys [OF only] by (simp_all add: renamed_only_def)
  qed
  then show ?thesis using r' only unfolding eq by (simp add: reg_ok_def)
qed

text \<open>Places: a new one for a buffer that is not filed, and one given back.\<close>

lemma place_new_ok:
  assumes "index_ok ix fl" "settled ix fl D" "fl i = None"
  defines "ix' \<equiv> ix\<lparr>ix_place := Mapping.update i (ix_next_place ix) (ix_place ix), ix_next_place := ix_next_place ix + 1\<rparr>"
  shows "index_ok ix' fl" "settled ix' fl D" "Mapping.lookup (ix_place ix') i \<noteq> None"
proof -
  have f: "filed_at ix' = filed_at ix" "reserved_name ix' = reserved_name ix"
    by (simp_all add: ix'_def filed_at_def reserved_name_def fun_eq_iff)
  note pl = place_okD [OF index_okD(5) [OF assms(1)]]
  have place: "place_ok (ix_place ix') (ix_next_place ix') fl"
    unfolding place_ok_def
  proof (intro conjI allI impI ballI)
    show "Mapping.lookup (ix_place ix') j \<noteq> None" if "j \<in> dom fl" for j using pl(1) [OF that] by (simp add: ix'_def lookup_simps)
    show "p < ix_next_place ix'" if "Mapping.lookup (ix_place ix') j = Some p" for j p
      using that pl(2) [of j p] by (auto simp: ix'_def lookup_simps split: if_splits)
    show "j = k" if "Mapping.lookup (ix_place ix') j = Some p" "Mapping.lookup (ix_place ix') k = Some p" for j k p
      using that pl(2) [of j p] pl(2) [of k p] pl(3) [of j p k] by (auto simp: ix'_def lookup_simps split: if_splits)
  qed
  have held: "holders_ok (ix_place ix') fl gname w e = holders_ok (ix_place ix) fl gname w e" for gname w e
  proof -
    have "(\<lambda>(pl, j). Mapping.lookup (ix_place ix') j = Some pl \<and> (\<exists>n. fl j = Some (n, Some (gname, w)))) =
        (\<lambda>(pl, j). Mapping.lookup (ix_place ix) j = Some pl \<and> (\<exists>n. fl j = Some (n, Some (gname, w))))"
      using assms(3) by (auto simp: fun_eq_iff ix'_def lookup_simps)
    then show ?thesis by (simp add: holders_ok_def)
  qed
  have "groups_ok ix' fl"
    using index_okD(6) [OF assms(1)] unfolding groups_ok_def f held by (simp add: ix'_def)
  then show "index_ok ix' fl" using assms(1) place by (simp add: index_ok_def ix'_def)
  show "settled ix' fl D" using assms(2) by (simp add: settled_def f)
  show "Mapping.lookup (ix_place ix') i \<noteq> None" by (simp add: ix'_def)
qed

lemma place_old_ok:
  assumes "index_ok ix fl" "settled ix fl D" "fl i = None"
  defines "ix' \<equiv> ix\<lparr>ix_place := Mapping.delete i (ix_place ix)\<rparr>"
  shows "index_ok ix' fl" "settled ix' fl D"
proof -
  have f: "filed_at ix' = filed_at ix" "reserved_name ix' = reserved_name ix"
    by (simp_all add: ix'_def filed_at_def reserved_name_def fun_eq_iff)
  have place: "place_ok (ix_place ix') (ix_next_place ix') fl"
    using index_okD(5) [OF assms(1)] assms(3) unfolding place_ok_def ix'_def
    by (auto simp: lookup_delete' split: if_splits)
  have held: "holders_ok (ix_place ix') fl gname w e = holders_ok (ix_place ix) fl gname w e" for gname w e
  proof -
    have "(\<lambda>(pl, j). Mapping.lookup (ix_place ix') j = Some pl \<and> (\<exists>n. fl j = Some (n, Some (gname, w)))) =
        (\<lambda>(pl, j). Mapping.lookup (ix_place ix) j = Some pl \<and> (\<exists>n. fl j = Some (n, Some (gname, w))))"
      using assms(3) by (auto simp: fun_eq_iff ix'_def lookup_delete')
    then show ?thesis by (simp add: holders_ok_def)
  qed
  have "groups_ok ix' fl"
    using index_okD(6) [OF assms(1)] unfolding groups_ok_def f held by (simp add: ix'_def)
  then show "index_ok ix' fl" using assms(1) place by (simp add: index_ok_def ix'_def)
  show "settled ix' fl D" using assms(2) by (simp add: settled_def f)
qed

section \<open>Inserting and removing\<close>

text \<open>
  A buffer may be inserted with any name, but one that is named by its path comes in without a number: the index would
  not look for the paths a numbered name disturbs before the buffer has been named.
\<close>

definition insertable :: "'v buffer \<Rightarrow> bool" where
  "insertable b \<longleftrightarrow> buffer_inv b \<and> (name_path b = None \<or> without_suffix (buf_name b) = None)"

lemma insertable_free: "insertable b \<Longrightarrow> name_path b \<noteq> None \<Longrightarrow> name_free ix fl D (buf_name b)"
  unfolding name_free_def insertable_def using without_suffix_suffixed by fastforce

text \<open>Filing the buffer behind \<open>i\<close>, and the order that ends with it.\<close>

lemma file_and_settle:
  assumes ho: "hash_order_ok ho" and ok: "index_ok (reg_names r) fl" "settled (reg_names r) fl (set d)"
    and i: "fl i = None" "Mapping.lookup (ix_place (reg_names r)) i \<noteq> None" "Mapping.lookup (reg_buffers r) i = Some buf"
    and free: "name_path buf \<noteq> None \<Longrightarrow> name_free (reg_names r) fl (set d) (buf_name buf)"
    and fl: "fl(i \<mapsto> (buf_name buf, key_of buf)) = filing_by r" and bufs: "buffers_ok r"
  shows "returns (do { (r', d') \<leftarrow> file_buffer i r d; settle ho d' r' }) (\<lambda>r'. reg_ok r' \<and> renamed_only r r')"
proof -
  obtain ix' d' where f: "file_buffer i r d = Some (r\<lparr>reg_names := ix'\<rparr>, d')" "index_ok ix' (fl(i \<mapsto> (buf_name buf, key_of buf)))"
    "settled ix' (fl(i \<mapsto> (buf_name buf, key_of buf))) (set d')"
    by (rule file_buffer_ok [OF ok i(1,2,3) free]) auto
  let ?r = "r\<lparr>reg_names := ix'\<rparr>"
  have "returns (settle ho d' ?r) (\<lambda>r'. reg_ok r' \<and> renamed_only ?r r')"
    by (rule settle_reg_ok [OF ho]) (use f(2,3) fl bufs in \<open>simp_all add: buffers_ok_def\<close>)
  moreover have "renamed_only ?r r' = renamed_only r r'" for r' by (simp add: renamed_only_def)
  ultimately show ?thesis by (simp add: f(1))
qed

definition put_buffer :: "'v buffer \<Rightarrow> 'v registry \<Rightarrow> 'v registry" where
  "put_buffer b r = r\<lparr>reg_buffers := Mapping.update (buf_id b) b (reg_buffers r), reg_order := filter (\<lambda>x. x \<noteq> buf_id b) (reg_order r) @ [buf_id b]\<rparr>"

lemma buffers_ok_put:
  assumes "buffers_ok r" "buffer_inv b"
  shows "buffers_ok (put_buffer b r)"
  using assms unfolding buffers_ok_def put_buffer_def by (auto simp: lookup_simps split: if_splits)

lemma filter_other: "Mapping.lookup (reg_buffers r) i = None \<Longrightarrow> buffers_ok r \<Longrightarrow> filter (\<lambda>x. x \<noteq> i) (reg_order r) = reg_order r"
  by (auto simp: buffers_ok_def keys_dom_lookup filter_id_conv)

lemma reg_insert_ok:
  assumes ho: "hash_order_ok ho" and ok: "reg_ok r" and buf: "insertable buf"
  shows "returns (reg_insert ho buf r) (\<lambda>(r', i). reg_ok r' \<and> i = buf_id buf \<and> renamed_only (put_buffer buf r) r')"
proof -
  let ?i = "buf_id buf" and ?old = "Mapping.lookup (reg_buffers r) (buf_id buf)"
  let ?r1 = "r\<lparr>reg_buffers := Mapping.update ?i buf (reg_buffers r)\<rparr>" and ?fl = "(filing_by r)(buf_id buf := None)"
  note R = reg_okD [OF ok]
  obtain r2 d where u: "(case ?old of Some b \<Rightarrow> unfile_buffer ?i (buf_name b) (?r1\<lparr>reg_order := filter (\<lambda>x. x \<noteq> ?i) (reg_order ?r1)\<rparr>) []
      | None \<Rightarrow> Some (?r1, [])) = Some (r2, d)"
    "index_ok (reg_names r2) ?fl" "settled (reg_names r2) ?fl (set d)"
    "reg_buffers r2 = reg_buffers ?r1" "reg_order r2 = filter (\<lambda>x. x \<noteq> ?i) (reg_order r)"
  proof (cases ?old)
    case None
    then have "?fl = filing_by r" by (auto simp: filing_by_def fun_eq_iff)
    then show thesis using that [of ?r1 "[]"] None R filter_other [OF None R(3)] by simp
  next
    case (Some b)
    let ?r0 = "?r1\<lparr>reg_order := filter (\<lambda>x. x \<noteq> ?i) (reg_order ?r1)\<rparr>"
    have n: "index_ok (reg_names ?r0) (filing_by r)" "settled (reg_names ?r0) (filing_by r) (set [])" using R by simp_all
    obtain ix' d' where "unfile_buffer ?i (buf_name b) ?r0 [] = Some (?r0\<lparr>reg_names := ix'\<rparr>, d')" "index_ok ix' ?fl" "settled ix' ?fl (set d')"
      by (rule unfile_buffer_ok [OF n filing_by_Some [OF Some]])
    then show thesis using that [of "?r0\<lparr>reg_names := ix'\<rparr>" d'] Some by simp
  qed
  let ?ix = "reg_names r2"
  let ?r3 = "r2\<lparr>reg_order := reg_order r2 @ [?i],
      reg_names := ?ix\<lparr>ix_place := Mapping.update ?i (ix_next_place ?ix) (ix_place ?ix), ix_next_place := ix_next_place ?ix + 1\<rparr>\<rparr>"
  have place: "index_ok (reg_names ?r3) ?fl" "settled (reg_names ?r3) ?fl (set d)" "Mapping.lookup (ix_place (reg_names ?r3)) ?i \<noteq> None"
    using place_new_ok [OF u(2,3), of ?i] by simp_all
  have same: "reg_buffers ?r3 = reg_buffers (put_buffer buf r)" "reg_order ?r3 = reg_order (put_buffer buf r)"
    using u(4,5) by (simp_all add: put_buffer_def)
  let ?event = "do { (r', d') \<leftarrow> file_buffer ?i ?r3 d; settle ho d' r' }"
  have "returns ?event (\<lambda>r'. reg_ok r' \<and> renamed_only ?r3 r')"
  proof (rule file_and_settle [OF ho place(1,2) _ place(3), where buf = buf])
    show "?fl ?i = None" by simp
    show "Mapping.lookup (reg_buffers ?r3) ?i = Some buf" using u(4) by simp
    show "name_free (reg_names ?r3) ?fl (set d) (buf_name buf)" if "name_path buf \<noteq> None" by (rule insertable_free [OF buf that])
    show "?fl(?i \<mapsto> (buf_name buf, key_of buf)) = filing_by ?r3" using u(4) by (auto simp: filing_by_def fun_eq_iff)
    show "buffers_ok ?r3" using buffers_ok_put [OF R(3), of buf] buf same by (simp add: buffers_ok_def insertable_def)
  qed
  then obtain r' where r': "?event = Some r'" "reg_ok r'" "renamed_only ?r3 r'" by (rule returnsE) blast
  have "reg_insert ho buf r = do { r' \<leftarrow> ?event; Some (r', ?i) }"
    by (simp add: reg_insert_def Let_def u(1) Option.bind_assoc split_def)
  then have "reg_insert ho buf r = Some (r', ?i)" unfolding r'(1) by simp
  moreover have "renamed_only (put_buffer buf r) r'" using r'(3) renamed_only_cong [OF same] by blast
  ultimately show ?thesis using r'(2) by simp
qed

lemma buffer_inv_named: "buffer_inv b \<Longrightarrow> buffer_inv (set_name n b)" "buffer_inv b \<Longrightarrow> buffer_inv (set_file_path p b)"
  "buffer_inv b \<Longrightarrow> buffer_inv (name_from_path b)" "buffer_inv b \<Longrightarrow> buffer_inv (name_from_directory dir b)"
  by (simp_all add: set_name_def set_file_path_def name_from_path_def name_from_directory_def buffer_inv_flags)

lemma insertable_path: "buffer_inv b \<Longrightarrow> insertable (name_from_path (set_file_path (Some path) (set_name [] b)))"
  unfolding insertable_def by (intro conjI disjI2 buffer_inv_named)
    (simp_all add: name_from_path_def set_file_path_def set_name_def without_suffix_def strip_suffix_char_def)

lemma insert_for_path_ok:
  assumes "hash_order_ok ho" "reg_ok r" "buffer_inv buf"
  shows "returns (insert_for_path ho buf path r) (\<lambda>(r', i). reg_ok r' \<and> i = buf_id buf \<and>
    renamed_only (put_buffer (name_from_path (set_file_path (Some path) (set_name [] buf))) r) r')"
proof -
  have "buf_id (name_from_path (set_file_path (Some path) (set_name [] buf))) = buf_id buf"
    by (simp add: name_from_path_def set_file_path_def set_name_def)
  then show ?thesis using reg_insert_ok [OF assms(1,2) insertable_path [OF assms(3)], of path] by (simp add: insert_for_path_def)
qed

text \<open>Removing a buffer.\<close>

definition drop_buffer :: "nat \<Rightarrow> 'v registry \<Rightarrow> 'v registry" where
  "drop_buffer i r = r\<lparr>reg_buffers := Mapping.delete i (reg_buffers r), reg_order := filter (\<lambda>x. x \<noteq> i) (reg_order r)\<rparr>"

lemma buffers_ok_drop: "buffers_ok r \<Longrightarrow> buffers_ok (drop_buffer i r)"
  by (auto simp: buffers_ok_def drop_buffer_def lookup_delete' split: if_splits)

lemma reg_remove_done:
  assumes ho: "hash_order_ok ho" and ok: "reg_ok r" and Some: "Mapping.lookup (reg_buffers r) i = Some b" and False: "\<not> editing_in_progress b"
  shows "returns (reg_remove ho i r) (\<lambda>(r', result). reg_ok r' \<and> result = Inr b \<and> renamed_only (drop_buffer i r) r')"
proof -
  let ?r1 = "drop_buffer i r" and ?fl = "(filing_by r)(i := None)"
  note R = reg_okD [OF ok]
  have n: "index_ok (reg_names ?r1) (filing_by r)" "settled (reg_names ?r1) (filing_by r) (set [])" using R by (simp_all add: drop_buffer_def)
  obtain ix' d' where u: "unfile_buffer i (buf_name b) ?r1 [] = Some (?r1\<lparr>reg_names := ix'\<rparr>, d')" "index_ok ix' ?fl" "settled ix' ?fl (set d')"
    by (rule unfile_buffer_ok [OF n filing_by_Some [OF Some]])
  let ?r3 = "?r1\<lparr>reg_names := ix'\<lparr>ix_place := Mapping.delete i (ix_place ix')\<rparr>\<rparr>"
  have fl: "filing_by ?r3 = ?fl" by (auto simp: filing_by_def fun_eq_iff drop_buffer_def lookup_delete')
  have "returns (settle ho d' ?r3) (\<lambda>r'. reg_ok r' \<and> renamed_only ?r3 r')"
  proof (rule settle_reg_ok [OF ho])
    show "index_ok (reg_names ?r3) (filing_by ?r3)" "settled (reg_names ?r3) (filing_by ?r3) (set d')"
      unfolding fl using place_old_ok [OF u(2,3), of i] by simp_all
    show "buffers_ok ?r3" using buffers_ok_drop [OF R(3), of i] by (simp add: buffers_ok_def)
  qed
  moreover have "renamed_only ?r3 r' = renamed_only ?r1 r'" for r' by (simp add: renamed_only_def)
  moreover have "reg_remove ho i r = do { r' \<leftarrow> settle ho d' ?r3; Some (r', Inr b) }"
    using u(1) Some False by (simp add: reg_remove_def drop_buffer_def Let_def)
  ultimately show ?thesis by (elim returnsE) simp
qed

lemma reg_remove_ok:
  assumes ho: "hash_order_ok ho" and ok: "reg_ok r"
  shows "returns (reg_remove ho i r) (\<lambda>(r', result). reg_ok r')"
proof (cases "Mapping.lookup (reg_buffers r) i")
  case None
  then show ?thesis using ok by (simp add: reg_remove_def)
next
  case (Some b)
  show ?thesis
  proof (cases "editing_in_progress b")
    case True
    then show ?thesis using ok Some by (simp add: reg_remove_def)
  next
    case False
    show ?thesis by (rule returns_weaken [OF reg_remove_done [OF ho ok Some False]]) auto
  qed
qed

section \<open>Names and paths that change\<close>

text \<open>The path a buffer is filed under is the one it has.\<close>

lemma np_is_of_names: "is_np p \<Longrightarrow> np_is_of p path directory \<Longrightarrow> np_names p = np_names (name_path_new path directory)"
  by (auto simp: is_np_def np_is_of_def name_path_new_def Let_def name_components_def)

lemma filed_unchanged_key:
  assumes ok: "index_ok (reg_names r) fl" and i: "fl i = Some (n, m)" and same: "filed_unchanged i b r"
  shows "m = key_of b"
proof -
  have member: "Mapping.lookup (ix_member (reg_names r)) i = m" using index_okD(4) [OF ok, of i] i by simp
  show ?thesis
  proof (cases m)
    case None
    then have "name_path b = None" using same member by (auto simp: filed_unchanged_def Let_def split: option.splits)
    then show ?thesis using None by (simp add: key_of_def)
  next
    case (Some key)
    obtain gname w where key: "key = (gname, w)" by fastforce
    obtain g e where f: "filed_at (reg_names r) gname w g e" using groups_okD(3) [OF index_okD(6) [OF ok]] i Some key by blast
    obtain path directory where p: "name_path b = Some (path, directory)" "np_is_of (gp_path e) path directory"
      using same member Some key filed_atD [OF f] by (auto simp: filed_unchanged_def split: option.splits)
    note e = group_okD(1) [OF filed_group_ok(1,2) [OF ok f], unfolded entry_ok_def]
    have "np_names (gp_path e) = np_names (name_path_new path directory)" using np_is_of_names e p(2) by blast
    then show ?thesis using e p(1) Some key by (simp add: key_of_def np_group_def np_whole_def)
  qed
qed

lemma refile_all_ok:
  assumes "index_ok (reg_names r) fl" "settled (reg_names r) fl (set d)"
    and "\<And>i. map_option fst (fl i) = map_option buf_name (Mapping.lookup (reg_buffers r) i)"
    and "\<And>i. Mapping.lookup (reg_buffers r) i \<noteq> None \<Longrightarrow> Mapping.lookup (ix_place (reg_names r)) i \<noteq> None"
  shows "returns (refile_all ids r d) (\<lambda>(r', d'). \<exists>ix'. r' = r\<lparr>reg_names := ix'\<rparr> \<and>
    index_ok ix' (\<lambda>i. if i \<in> set ids then filing_by r i else fl i) \<and>
    settled ix' (\<lambda>i. if i \<in> set ids then filing_by r i else fl i) (set d'))"
  using assms
proof (induction ids arbitrary: r fl d)
  case Nil
  then show ?case by (auto intro: exI [where x = "reg_names r"])
next
  case (Cons i ids)
  show ?case
  proof (cases "Mapping.lookup (reg_buffers r) i")
    case None
    then have "fl i = filing_by r i" using Cons.prems(3) [of i] by (simp add: filing_by_def)
    then have "(\<lambda>j. if j \<in> set (i # ids) then filing_by r j else fl j) = (\<lambda>j. if j \<in> set ids then filing_by r j else fl j)" by auto
    then show ?thesis using Cons.IH [OF Cons.prems] None by simp
  next
    case (Some b)
    obtain m where m: "fl i = Some (buf_name b, m)" using Cons.prems(3) [of i] Some by (cases "fl i") auto
    let ?fl = "fl(i \<mapsto> (buf_name b, key_of b))"
    have eq: "(\<lambda>j. if j \<in> set (i # ids) then filing_by r j else fl j) = (\<lambda>j. if j \<in> set ids then filing_by r j else ?fl j)"
      using filing_by_Some [OF Some] by auto
    obtain ix1 d1 where s: "refile_all (i # ids) r d = refile_all ids (r\<lparr>reg_names := ix1\<rparr>) d1" "index_ok ix1 ?fl" "settled ix1 ?fl (set d1)"
      "ix_place ix1 = ix_place (reg_names r)"
    proof (cases "filed_unchanged i b r")
      case True
      have "?fl = fl" using filed_unchanged_key [OF Cons.prems(1) m True] m by auto
      then show thesis using that [of "reg_names r" d] Some True Cons.prems(1,2) by simp
    next
      case False
      obtain ix1 d1 where u: "unfile_buffer i (buf_name b) r d = Some (r\<lparr>reg_names := ix1\<rparr>, d1)" "index_ok ix1 (fl(i := None))"
        "settled ix1 (fl(i := None)) (set d1)" "name_free ix1 (fl(i := None)) (set d1) (buf_name b)" "ix_place ix1 = ix_place (reg_names r)"
        by (rule unfile_buffer_ok [OF Cons.prems(1,2) m])
      let ?r1 = "r\<lparr>reg_names := ix1\<rparr>"
      have ok1: "index_ok (reg_names ?r1) (fl(i := None))" "settled (reg_names ?r1) (fl(i := None)) (set d1)" "(fl(i := None)) i = None"
        "Mapping.lookup (ix_place (reg_names ?r1)) i \<noteq> None" "Mapping.lookup (reg_buffers ?r1) i = Some b"
        "name_free (reg_names ?r1) (fl(i := None)) (set d1) (buf_name b)"
        using u Some Cons.prems(4) [of i] by simp_all
      obtain ix2 d2 where f: "file_buffer i ?r1 d1 = Some (?r1\<lparr>reg_names := ix2\<rparr>, d2)"
        "index_ok ix2 ((fl(i := None))(i \<mapsto> (buf_name b, key_of b)))" "settled ix2 ((fl(i := None))(i \<mapsto> (buf_name b, key_of b))) (set d2)"
        "ix_place ix2 = ix_place (reg_names ?r1)"
        by (rule file_buffer_ok [OF ok1])
      then show thesis using that [of ix2 d2] Some False u(1,5) by simp
    qed
    have IH: "returns (refile_all ids (r\<lparr>reg_names := ix1\<rparr>) d1) (\<lambda>(r', d'). \<exists>ix'. r' = (r\<lparr>reg_names := ix1\<rparr>)\<lparr>reg_names := ix'\<rparr> \<and>
      index_ok ix' (\<lambda>j. if j \<in> set ids then filing_by (r\<lparr>reg_names := ix1\<rparr>) j else ?fl j) \<and>
      settled ix' (\<lambda>j. if j \<in> set ids then filing_by (r\<lparr>reg_names := ix1\<rparr>) j else ?fl j) (set d'))"
    proof (rule Cons.IH)
      show "index_ok (reg_names (r\<lparr>reg_names := ix1\<rparr>)) ?fl" "settled (reg_names (r\<lparr>reg_names := ix1\<rparr>)) ?fl (set d1)" using s(2,3) by simp_all
      show "map_option fst (?fl j) = map_option buf_name (Mapping.lookup (reg_buffers (r\<lparr>reg_names := ix1\<rparr>)) j)" for j
        using Cons.prems(3) [of j] Some by simp
      show "Mapping.lookup (ix_place (reg_names (r\<lparr>reg_names := ix1\<rparr>))) j \<noteq> None"
        if "Mapping.lookup (reg_buffers (r\<lparr>reg_names := ix1\<rparr>)) j \<noteq> None" for j
        using Cons.prems(4) [of j] that s(4) by simp
    qed
    then show ?thesis unfolding s(1) eq filing_by_names by simp
  qed
qed

text \<open>Whatever changed the paths of the buffers in \<open>ids\<close>, and no name, a refresh names them by the new ones.\<close>

definition paths_moved :: "nat set \<Rightarrow> 'v registry \<Rightarrow> 'v registry \<Rightarrow> bool" where
  "paths_moved ids r r' \<longleftrightarrow> reg_order r' = reg_order r \<and> reg_names r' = reg_names r \<and>
     (\<forall>i. rel_option (\<lambda>b b'. buf_id b' = buf_id b \<and> buffer_inv b' \<and> buf_name b' = buf_name b \<and> (i \<in> ids \<or> name_path b' = name_path b))
        (Mapping.lookup (reg_buffers r) i) (Mapping.lookup (reg_buffers r') i))"

lemma paths_movedE:
  assumes "paths_moved ids r r'"
  obtains "Mapping.lookup (reg_buffers r) i = None" "Mapping.lookup (reg_buffers r') i = None"
  | b b' where "Mapping.lookup (reg_buffers r) i = Some b" "Mapping.lookup (reg_buffers r') i = Some b'" "buf_id b' = buf_id b" "buffer_inv b'"
      "buf_name b' = buf_name b" "i \<in> ids \<or> name_path b' = name_path b"
proof -
  have "rel_option (\<lambda>b b'. buf_id b' = buf_id b \<and> buffer_inv b' \<and> buf_name b' = buf_name b \<and> (i \<in> ids \<or> name_path b' = name_path b))
      (Mapping.lookup (reg_buffers r) i) (Mapping.lookup (reg_buffers r') i)"
    using assms by (simp add: paths_moved_def)
  then show thesis using that by (cases rule: option.rel_cases) auto
qed

lemma paths_moved_buffers_ok:
  assumes "paths_moved ids r r'" "buffers_ok r"
  shows "buffers_ok r'"
proof -
  have "buf_id b = i \<and> buffer_inv b" if "Mapping.lookup (reg_buffers r') i = Some b" for i b
    by (rule paths_movedE [OF assms(1), of i]) (use that buffers_okD(1) [OF assms(2)] in auto)
  moreover have "Mapping.lookup (reg_buffers r') i = None \<longleftrightarrow> Mapping.lookup (reg_buffers r) i = None" for i
    by (rule paths_movedE [OF assms(1), of i]) auto
  then have "Mapping.keys (reg_buffers r') = Mapping.keys (reg_buffers r)" unfolding keys_dom_lookup dom_def by (simp del: not_None_eq)
  ultimately show ?thesis using assms by (simp add: buffers_ok_def paths_moved_def)
qed

lemma refresh_names_ok:
  assumes ho: "hash_order_ok ho" and ok: "reg_ok r" and moved: "paths_moved (set ids) r r1"
  shows "returns (refresh_names ho ids r1) (\<lambda>r'. reg_ok r' \<and> renamed_only r1 r')"
proof -
  note R = reg_okD [OF ok]
  have names: "reg_names r1 = reg_names r" using moved by (simp add: paths_moved_def)
  have fl: "(\<lambda>i. if i \<in> set ids then filing_by r1 i else filing_by r i) = filing_by r1"
  proof
    fix i
    show "(if i \<in> set ids then filing_by r1 i else filing_by r i) = filing_by r1 i"
      by (rule paths_movedE [OF moved, of i]) (auto simp: filing_by_def key_of_def)
  qed
  have "returns (refile_all ids r1 []) (\<lambda>(r', d'). \<exists>ix'. r' = r1\<lparr>reg_names := ix'\<rparr> \<and> index_ok ix' (filing_by r1) \<and> settled ix' (filing_by r1) (set d'))"
  proof (rule refile_all_ok [where r = r1 and fl = "filing_by r" and ids = ids and d = "[]", unfolded fl])
    show "index_ok (reg_names r1) (filing_by r)" "settled (reg_names r1) (filing_by r) (set [])" using R names by simp_all
    show "map_option fst (filing_by r i) = map_option buf_name (Mapping.lookup (reg_buffers r1) i)" for i
      by (rule paths_movedE [OF moved, of i]) (auto simp: filing_by_def)
    show "Mapping.lookup (ix_place (reg_names r1)) i \<noteq> None" if "Mapping.lookup (reg_buffers r1) i \<noteq> None" for i
    proof -
      have "i \<in> dom (filing_by r)" by (rule paths_movedE [OF moved, of i]) (use that in \<open>auto simp: filing_by_def\<close>)
      then show ?thesis using place_okD(1) [OF index_okD(5) [OF R(1)]] names by metis
    qed
  qed
  then obtain ix' d' where f: "refile_all ids r1 [] = Some (r1\<lparr>reg_names := ix'\<rparr>, d')" "index_ok ix' (filing_by r1)" "settled ix' (filing_by r1) (set d')"
    by (rule returnsE) auto
  let ?r = "r1\<lparr>reg_names := ix'\<rparr>"
  have "returns (settle ho d' ?r) (\<lambda>r'. reg_ok r' \<and> renamed_only ?r r')"
    by (rule settle_reg_ok [OF ho]) (use f(2,3) paths_moved_buffers_ok [OF moved R(3)] in \<open>simp_all add: buffers_ok_def\<close>)
  moreover have "renamed_only ?r r' = renamed_only r1 r'" for r' by (simp add: renamed_only_def)
  ultimately show ?thesis by (simp add: refresh_names_def f(1))
qed

end
