(* ===== verification/Registry_Steps.thy ===== *)
theory Registry_Steps
  imports Registry_Operations
begin

text \<open>
  The operations of \<^verbatim>\<open>src/src/buffer_registry.rs\<close> that change a buffer in place, and the registries the operations
  reach from the empty one: each of them keeps the invariant, and from each of them every operation returns.
\<close>

section \<open>Changes in place\<close>

definition change_buffer :: "nat \<Rightarrow> ('v buffer \<Rightarrow> 'v buffer) \<Rightarrow> 'v registry \<Rightarrow> 'v registry" where
  "change_buffer i f r = fst (reg_get_mut i f r)"

lemma change_buffer_eq:
  "change_buffer i f r =
     (case Mapping.lookup (reg_buffers r) i of Some b \<Rightarrow> r\<lparr>reg_buffers := Mapping.update i (f b) (reg_buffers r)\<rparr> | None \<Rightarrow> r)"
  by (simp add: change_buffer_def reg_get_mut_def split: option.split)

text \<open>A change that keeps the id, the name and the buffer's own invariant moves at most the path.\<close>

definition keeps_name :: "('v buffer \<Rightarrow> 'v buffer) \<Rightarrow> bool" where
  "keeps_name f \<longleftrightarrow> (\<forall>b. buf_id (f b) = buf_id b \<and> buf_name (f b) = buf_name b \<and> (buffer_inv b \<longrightarrow> buffer_inv (f b)))"

lemma keeps_name_path: "keeps_name (set_file_path p)" "keeps_name (name_from_directory dir)"
    "keeps_name (\<lambda>b. name_from_path (set_file_path p b))"
  by (simp_all add: keeps_name_def set_file_path_def name_from_directory_def name_from_path_def buffer_inv_flags)

lemma change_moves:
  assumes "keeps_name f" "buffers_ok r" "i \<in> ids \<or> (\<forall>b. name_path (f b) = name_path b)"
  shows "paths_moved ids r (change_buffer i f r)"
proof -
  have "rel_option (\<lambda>b b'. buf_id b' = buf_id b \<and> buffer_inv b' \<and> buf_name b' = buf_name b \<and> (j \<in> ids \<or> name_path b' = name_path b))
      (Mapping.lookup (reg_buffers r) j) (Mapping.lookup (reg_buffers (change_buffer i f r)) j)" for j
    using assms buffers_okD(2) [OF assms(2), of j]
    by (cases "Mapping.lookup (reg_buffers r) j"; cases "Mapping.lookup (reg_buffers r) i"; cases "i = j")
      (auto simp: change_buffer_eq keeps_name_def lookup_simps)
  then show ?thesis by (simp add: paths_moved_def change_buffer_eq split: option.split)
qed

text \<open>An edit through \<^verbatim>\<open>get_mut\<close> that leaves the naming alone needs no refresh.\<close>

lemma unmoved_reg_ok:
  assumes ok: "reg_ok r" and moved: "paths_moved {} r r'"
  shows "reg_ok r'"
proof -
  note R = reg_okD [OF ok]
  have "filing_by r' i = filing_by r i" for i
    by (rule paths_movedE [OF moved, of i]) (auto simp: filing_by_def key_of_def)
  then have "filing_by r' = filing_by r" by (rule ext)
  moreover have "reg_names r' = reg_names r" using moved by (simp add: paths_moved_def)
  ultimately show ?thesis using R paths_moved_buffers_ok [OF moved R(3)] by (simp add: reg_ok_def)
qed

text \<open>A stale handle is an error and changes nothing; another is named anew.\<close>

definition renamed_or_missing :: "nat \<Rightarrow> ('v buffer \<Rightarrow> 'v buffer) \<Rightarrow> 'v registry \<Rightarrow> 'v registry \<times> (registry_error + unit) \<Rightarrow> bool" where
  "renamed_or_missing i f r result \<longleftrightarrow>
     (if Mapping.lookup (reg_buffers r) i = None then result = (r, Inl (Missing i))
      else snd result = Inr () \<and> reg_ok (fst result) \<and> renamed_only (change_buffer i f r) (fst result))"

lemma refresh_one_ok:
  assumes "hash_order_ok ho" "reg_ok r" "keeps_name f"
  shows "returns (refresh_names ho [i] (change_buffer i f r)) (\<lambda>r'. reg_ok r' \<and> renamed_only (change_buffer i f r) r')"
  by (rule refresh_names_ok [OF assms(1,2)]) (rule change_moves [OF assms(3) reg_okD(3) [OF assms(2)]], simp)

lemma change_and_refresh:
  assumes "hash_order_ok ho" "reg_ok r" "keeps_name f"
  shows "returns (case reg_get_mut i f r of (r1, Inl e) \<Rightarrow> Some (r1, Inl e) | (r1, Inr _) \<Rightarrow> do { r2 \<leftarrow> refresh_names ho [i] r1; Some (r2, Inr ()) })
    (renamed_or_missing i f r)"
proof (cases "Mapping.lookup (reg_buffers r) i")
  case None
  then show ?thesis by (simp add: reg_get_mut_def renamed_or_missing_def)
next
  case (Some b)
  have "reg_get_mut i f r = (change_buffer i f r, Inr ())" using Some by (simp add: reg_get_mut_def change_buffer_eq)
  then show ?thesis using refresh_one_ok [OF assms, of i] Some by (elim returnsE) (simp add: renamed_or_missing_def)
qed

lemma name_by_path_ok:
  assumes "hash_order_ok ho" "reg_ok r"
  shows "returns (name_by_path ho i path r) (renamed_or_missing i (\<lambda>b. name_from_path (set_file_path (Some path) b)) r)"
  unfolding name_by_path_def by (rule change_and_refresh [OF assms keeps_name_path(3)])

lemma name_by_directory_ok:
  assumes "hash_order_ok ho" "reg_ok r"
  shows "returns (name_by_directory ho i directory r) (renamed_or_missing i (name_from_directory directory) r)"
  unfolding name_by_directory_def by (rule change_and_refresh [OF assms keeps_name_path(2)])

lemma set_buffer_path_ok:
  assumes "hash_order_ok ho" "reg_ok r"
  shows "returns (set_buffer_path ho i path r) (\<lambda>r'. reg_ok r' \<and> renamed_only (change_buffer i (set_file_path path) r) r')"
  using refresh_one_ok [OF assms keeps_name_path(1), of i path] by (simp add: set_buffer_path_def change_buffer_def)

lemma reg_set_name_ok:
  assumes ho: "hash_order_ok ho" and ok: "reg_ok r"
  shows "returns (reg_set_name ho i name r) (renamed_or_missing i (set_name name) r)"
proof (cases "Mapping.lookup (reg_buffers r) i")
  case None
  then show ?thesis by (simp add: reg_set_name_def reg_get_def renamed_or_missing_def)
next
  case (Some b)
  let ?fl = "(filing_by r)(i := None)" and ?b = "set_name name b"
  note R = reg_okD [OF ok]
  have n: "index_ok (reg_names r) (filing_by r)" "settled (reg_names r) (filing_by r) (set [])" using R by simp_all
  obtain ix d where u: "unfile_buffer i (buf_name b) r [] = Some (r\<lparr>reg_names := ix\<rparr>, d)" "index_ok ix ?fl" "settled ix ?fl (set d)"
    "ix_place ix = ix_place (reg_names r)"
    by (rule unfile_buffer_ok [OF n filing_by_Some [OF Some]])
  let ?r = "r\<lparr>reg_names := ix, reg_buffers := Mapping.update i ?b (reg_buffers r)\<rparr>"
  let ?event = "do { (r', d') \<leftarrow> file_buffer i ?r d; settle ho d' r' }"
  have "returns ?event (\<lambda>r'. reg_ok r' \<and> renamed_only ?r r')"
  proof (rule file_and_settle [OF ho, where fl = ?fl and buf = ?b])
    show "index_ok (reg_names ?r) ?fl" "settled (reg_names ?r) ?fl (set d)" "?fl i = None" using u by simp_all
    show "Mapping.lookup (ix_place (reg_names ?r)) i \<noteq> None"
      using place_okD(1) [OF index_okD(5) [OF R(1)], of i] u(4) filing_by_Some [OF Some] by (auto simp: domIff)
    show "Mapping.lookup (reg_buffers ?r) i = Some ?b" by simp
    show "name_free (reg_names ?r) ?fl (set d) (buf_name ?b)" if "name_path ?b \<noteq> None" using that by (simp add: name_path_def set_name_def)
    show "?fl(i \<mapsto> (buf_name ?b, key_of ?b)) = filing_by ?r" by (auto simp: filing_by_def fun_eq_iff lookup_simps)
    have "buf_id b = i" "buffer_inv ?b" using buffers_okD(1,2) [OF R(3) Some] buffer_inv_named(1) by auto
    then have "buf_id ?b = i" "buffer_inv ?b" by (simp_all add: set_name_def)
    then show "buffers_ok ?r"
      using R(3) Some by (auto simp: buffers_ok_def lookup_simps keys_dom_lookup split: if_splits)
  qed
  then obtain r' where r': "?event = Some r'" "reg_ok r'" "renamed_only ?r r'" by (rule returnsE) blast
  have "reg_set_name ho i name r = do { r' \<leftarrow> ?event; Some (r', Inr ()) }"
    using Some u(1) by (simp add: reg_set_name_def reg_get_def Let_def Option.bind_assoc split_def)
  then have "reg_set_name ho i name r = Some (r', Inr ())" unfolding r'(1) by simp
  moreover have "renamed_only (change_buffer i (set_name name) r) r'"
    using r'(3) renamed_only_cong [of ?r "change_buffer i (set_name name) r"] Some by (simp add: change_buffer_eq)
  ultimately show ?thesis using r'(2) Some by (simp add: renamed_or_missing_def)
qed

subsection \<open>Several buffers at once\<close>

text \<open>Changes of several buffers through \<^verbatim>\<open>get_mut\<close>, before the names are refreshed once for all of them.\<close>

definition change_buffers :: "(nat \<times> ('v buffer \<Rightarrow> 'v buffer)) list \<Rightarrow> 'v registry \<Rightarrow> 'v registry" where
  "change_buffers changes r = fold (\<lambda>(i, f). change_buffer i f) changes r"

text \<open>Each change keeps the name, and the ids to be refreshed include those whose path it may move.\<close>

definition refreshes :: "nat list \<Rightarrow> (nat \<times> ('v buffer \<Rightarrow> 'v buffer)) list \<Rightarrow> bool" where
  "refreshes ids changes \<longleftrightarrow> (\<forall>(i, f) \<in> set changes. keeps_name f \<and> (i \<in> set ids \<or> (\<forall>b. name_path (f b) = name_path b)))"

lemma paths_moved_refl: "buffers_ok r \<Longrightarrow> paths_moved ids r r"
  unfolding paths_moved_def
proof (intro conjI allI)
  fix i assume "buffers_ok r"
  then show "rel_option (\<lambda>b b'. buf_id b' = buf_id b \<and> buffer_inv b' \<and> buf_name b' = buf_name b \<and> (i \<in> ids \<or> name_path b' = name_path b))
      (Mapping.lookup (reg_buffers r) i) (Mapping.lookup (reg_buffers r) i)"
    using buffers_okD(2) by (cases "Mapping.lookup (reg_buffers r) i") auto
qed simp_all

lemma paths_moved_trans:
  assumes "paths_moved ids r r1" "paths_moved ids r1 r2"
  shows "paths_moved ids r r2"
  unfolding paths_moved_def
proof (intro conjI allI)
  fix i
  show "rel_option (\<lambda>b b'. buf_id b' = buf_id b \<and> buffer_inv b' \<and> buf_name b' = buf_name b \<and> (i \<in> ids \<or> name_path b' = name_path b))
      (Mapping.lookup (reg_buffers r) i) (Mapping.lookup (reg_buffers r2) i)"
    by (rule paths_movedE [OF assms(1), of i]; rule paths_movedE [OF assms(2), of i]) auto
qed (use assms in \<open>simp_all add: paths_moved_def\<close>)

lemma change_buffers_move:
  "buffers_ok r \<Longrightarrow> refreshes ids changes \<Longrightarrow> paths_moved (set ids) r (change_buffers changes r)"
proof (induction changes arbitrary: r)
  case (Cons c changes)
  obtain i f where c: "c = (i, f)" by fastforce
  have one: "paths_moved (set ids) r (change_buffer i f r)"
    by (rule change_moves) (use Cons.prems in \<open>auto simp: c refreshes_def\<close>)
  have "paths_moved (set ids) (change_buffer i f r) (change_buffers changes (change_buffer i f r))"
    by (rule Cons.IH [OF paths_moved_buffers_ok [OF one Cons.prems(1)]]) (use Cons.prems(2) in \<open>simp add: refreshes_def\<close>)
  then show ?case using paths_moved_trans [OF one] by (simp add: change_buffers_def c)
qed (simp add: change_buffers_def paths_moved_refl)

lemma refresh_changed_ok:
  assumes "hash_order_ok ho" "reg_ok r" "refreshes ids changes"
  shows "returns (refresh_names ho ids (change_buffers changes r)) (\<lambda>r'. reg_ok r' \<and> renamed_only (change_buffers changes r) r')"
  by (rule refresh_names_ok [OF assms(1,2) change_buffers_move [OF reg_okD(3) [OF assms(2)] assms(3)]])

text \<open>A rename on disk is such a change: of the paths of the buffers that are there.\<close>

lemma reconcile_paths_changes:
  obtains changes moved where "reconcile_paths ho targets r = refresh_names ho moved (change_buffers changes r)" "refreshes moved changes"
proof -
  have "\<exists>changes. move_paths targets r = (change_buffers changes r, snd (move_paths targets r)) \<and> refreshes (snd (move_paths targets r)) changes"
  proof (induction targets arbitrary: r)
    case Nil
    show ?case by (rule exI [of _ "[]"]) (simp add: change_buffers_def refreshes_def)
  next
    case (Cons t targets)
    obtain i target where t: "t = (i, target)" by fastforce
    let ?f = "\<lambda>b :: 'a buffer. set_file_meta None (set_file_path (Some target) b)"
    show ?case
    proof (cases "Mapping.lookup (reg_buffers r) i")
      case None
      then show ?thesis using Cons.IH [of r] by (simp add: t reg_get_mut_def)
    next
      case (Some b)
      have get: "reg_get_mut i ?f r = (change_buffer i ?f r, Inr ())" using Some by (simp add: reg_get_mut_def change_buffer_eq)
      obtain changes moved where c: "move_paths targets (change_buffer i ?f r) = (change_buffers changes (change_buffer i ?f r), moved)" "refreshes moved changes"
        using Cons.IH [of "change_buffer i ?f r"] by (metis snd_conv)
      have "keeps_name ?f" by (simp add: keeps_name_def set_file_meta_def set_file_path_def buffer_inv_flags)
      then have "refreshes (i # moved) ((i, ?f) # changes)" using c(2) by (auto simp: refreshes_def)
      then show ?thesis by (intro exI [of _ "(i, ?f) # changes"]) (simp add: t get c(1) change_buffers_def)
    qed
  qed
  then obtain changes where "move_paths targets r = (change_buffers changes r, snd (move_paths targets r))"
      "refreshes (snd (move_paths targets r)) changes" by blast
  then show thesis by (metis that case_prod_conv reconcile_paths_def)
qed

lemma reconcile_paths_ok:
  assumes "hash_order_ok ho" "reg_ok r"
  shows "returns (reconcile_paths ho targets r) reg_ok"
proof -
  obtain changes moved where c: "reconcile_paths ho targets r = refresh_names ho moved (change_buffers changes r)" "refreshes moved changes"
    by (rule reconcile_paths_changes)
  show ?thesis unfolding c(1) by (rule returns_weaken [OF refresh_changed_ok [OF assms c(2)]]) simp
qed

subsection \<open>Generated contents\<close>

lemma run_rope_edit_naming:
  assumes "run_rope_edit_and_broadcast ops vs op source b = Some (b', vs', result)"
  shows "buf_id b' = buf_id b" "buf_name b' = buf_name b" "name_path b' = name_path b"
  using assms
  by (auto simp: run_rope_edit_and_broadcast_def commit_edit_def adjust_marks_for_edit_def name_path_def Let_def
      split: option.splits sum.splits prod.splits if_splits)

lemma set_generated_naming:
  assumes "set_generated_contents ops bs b = Some (b', result)"
  shows "buf_id b' = buf_id b" "buf_name b' = buf_name b" "name_path b' = name_path b"
proof -
  obtain b1 vs r1 where e: "run_rope_edit_and_broadcast ops (buf_views b) (OpReplace (range_new 0 (buffer_len b)) bs) Daemon
      (b\<lparr>read_only := False, buf_views := []\<rparr>) = Some (b1, vs, r1)" "buf_id b' = buf_id b1" "buf_name b' = buf_name b1"
      "name_path b' = name_path b1"
    using assms
    by (auto simp: set_generated_contents_def apply_edit_skip_intercepts_def apply_edit_skip_intercepts_as_def ensure_writable_def
        clear_history_def name_path_def cong: option.case_cong)
  show "buf_id b' = buf_id b" "buf_name b' = buf_name b" "name_path b' = name_path b"
    using run_rope_edit_naming [OF e(1)] e(2-4) by (simp_all add: name_path_def cong: option.case_cong)
qed

lemma set_generated_no_panic:
  assumes "buffer_inv b"
  obtains b' result where "set_generated_contents ops bs b = Some (b', result)"
proof -
  have "buffer_inv (b\<lparr>read_only := False\<rparr>)" using assms by (simp add: buffer_inv_flags)
  from edit_no_panic(2) [OF this, of ops Daemon "OpReplace (range_new 0 (buffer_len b)) bs"]
  show thesis using that by (auto simp: set_generated_contents_def apply_edit_skip_intercepts_def)
qed

lemma buffer_holds_ok:
  assumes "buffer_inv b"
  shows "buffer_holds b bs = Some (contents (buf_rope b) = bs)"
proof (cases "buffer_len b = length bs")
  case False
  have inv: "rope_inv (buf_rope b)" using assms by (simp add: buffer_inv_def)
  have "contents (buf_rope b) \<noteq> bs" using False rope_len_contents [OF inv] by (auto simp: buffer_len_def)
  then show ?thesis using False by (simp add: buffer_holds_def)
next
  case True
  have inv: "rope_inv (buf_rope b)" using assms by (simp add: buffer_inv_def)
  have len: "rope_len (buf_rope b) = length bs" "length (contents (buf_rope b)) = length bs"
    using True rope_len_contents [OF inv] by (simp_all add: buffer_len_def)
  have "rope_slice (buf_rope b) 0 (length bs) (replicate (length bs) 0) = Some (contents (buf_rope b))"
    using rope_slice_correct [OF inv, of 0 "length bs" "replicate (length bs) 0"] len by (simp add: segment_def)
  then show ?thesis using True len by (auto simp: buffer_holds_def snapshot_rope_def rope_snapshot_def)
qed

lemma set_generated_text:
  assumes inv: "buffer_inv b" and gen: "set_generated_contents ops bs b = Some (b', result)"
  shows "contents (buf_rope b') = bs" "read_only b'"
proof -
  have r: "rope_inv (buf_rope b)" using inv by (simp add: buffer_inv_def)
  obtain ed where ed: "rope_replace (buf_rope b) 0 (rope_len (buf_rope b)) bs = Ok ed"
    "contents (new_rope ed) = splice_list 0 (rope_len (buf_rope b)) bs (contents (buf_rope b))"
    "edit_range ed = range_new 0 (rope_len (buf_rope b))" "inserted_len ed = length bs"
    using rope_replace_correct [OF r, of 0 "rope_len (buf_rope b)" bs] by auto
  have new: "contents (new_rope ed) = bs" using ed(2) rope_len_contents [OF r] by (simp add: splice_list_def)
  have old: "contents (buf_rope b) = bs" if "range_is_empty (edit_range ed)" "inserted_len ed = 0"
    using that ed(3,4) rope_len_contents [OF r] by (simp add: range_is_empty_def range_new_def)
  have whole: "rope_apply (buf_rope b) (OpReplace (range_new 0 (buffer_len b)) bs) = Ok ed"
    using ed(1) by (simp add: rope_apply_def range_new_def buffer_len_def)
  show "contents (buf_rope b') = bs" "read_only b'"
    using gen new old
    by (auto simp: set_generated_contents_def apply_edit_skip_intercepts_def apply_edit_skip_intercepts_as_def ensure_writable_def
        run_rope_edit_and_broadcast_def whole commit_edit_def adjust_marks_for_edit_def clear_history_def Let_def
        split: prod.splits option.splits if_splits)
qed

text \<open>The first buffer of a name, in insertion order.\<close>

lemma find_by_name_Some:
  assumes "find_by_name name r = Some i"
  obtains b where "Mapping.lookup (reg_buffers r) i = Some b" "buf_name b = name" "i \<in> set (reg_order r)"
  using assms unfolding find_by_name_def by (auto simp: find_Some_iff split: option.splits)

lemma find_by_name_None:
  assumes "buffers_ok r" "find_by_name name r = None" "Mapping.lookup (reg_buffers r) i = Some b"
  shows "buf_name b \<noteq> name"
proof -
  have "i \<in> set (reg_order r)" using assms(1,3) by (auto simp: buffers_ok_def keys_dom_lookup)
  then show ?thesis using assms(2,3) unfolding find_by_name_def find_None_iff by fastforce
qed

text \<open>
  What \<^verbatim>\<open>replace_generated\<close> leaves: a read-only buffer of that name with that text, the first of the name if there was
  one.
\<close>

definition generated :: "nat \<Rightarrow> string \<Rightarrow> byte list \<Rightarrow> 'v registry \<Rightarrow> 'v registry \<times> nat \<times> edit option \<Rightarrow> bool" where
  "generated fresh_id name bs r result \<longleftrightarrow> (case result of (r', i, _) \<Rightarrow>
     reg_ok r' \<and> i = (case find_by_name name r of Some i \<Rightarrow> i | None \<Rightarrow> fresh_id) \<and>
     (\<exists>b. Mapping.lookup (reg_buffers r') i = Some b \<and> buf_name b = name \<and> read_only b \<and> contents (buf_rope b) = bs))"

lemma buffer_new_facts [simp]: "buf_id (buffer_new i name) = i" "buf_name (buffer_new i name) = name" "name_path (buffer_new i name) = None"
    "buf_id (buffer_from_bytes i name bs) = i" "name_path (buffer_from_bytes i name bs) = None"
  by (simp_all add: buffer_new_def buffer_from_bytes_def buffer_from_rope_def name_path_def)

lemma buffer_inv_new: "buffer_inv (buffer_new i name)"
  using buffer_inv_from_bytes [of i name "[]"] by (simp add: buffer_new_def buffer_from_bytes_def rope_from_bytes_def rope_new_def)

lemma reg_create_ok:
  assumes "hash_order_ok ho" "reg_ok r"
  shows "returns (reg_create ho i name r) (\<lambda>(r', j). reg_ok r' \<and> j = i \<and> renamed_only (put_buffer (buffer_new i name) r) r')"
  using reg_insert_ok [OF assms, of "buffer_new i name"] by (simp add: reg_create_def insertable_def buffer_inv_new)

lemma create_from_bytes_ok:
  assumes "hash_order_ok ho" "reg_ok r"
  shows "returns (create_from_bytes ho i name bs r) (\<lambda>(r', j). reg_ok r' \<and> j = i \<and> renamed_only (put_buffer (buffer_from_bytes i name bs) r) r')"
  using reg_insert_ok [OF assms, of "buffer_from_bytes i name bs"] by (simp add: create_from_bytes_def insertable_def buffer_inv_from_bytes)

lemma update_ok:
  assumes "reg_ok r" "Mapping.lookup (reg_buffers r) i = Some b"
    and "buf_id b' = buf_id b" "buf_name b' = buf_name b" "name_path b' = name_path b" "buffer_inv b'"
  shows "reg_ok (r\<lparr>reg_buffers := Mapping.update i b' (reg_buffers r)\<rparr>)"
proof (rule unmoved_reg_ok [OF assms(1)])
  show "paths_moved {} r (r\<lparr>reg_buffers := Mapping.update i b' (reg_buffers r)\<rparr>)"
    unfolding paths_moved_def
  proof (intro conjI allI)
    fix j
    show "rel_option (\<lambda>b b'. buf_id b' = buf_id b \<and> buffer_inv b' \<and> buf_name b' = buf_name b \<and> (j \<in> {} \<or> name_path b' = name_path b))
        (Mapping.lookup (reg_buffers r) j) (Mapping.lookup (reg_buffers (r\<lparr>reg_buffers := Mapping.update i b' (reg_buffers r)\<rparr>)) j)"
      using assms(2-6) buffers_okD(2) [OF reg_okD(3) [OF assms(1)], of j]
      by (cases "Mapping.lookup (reg_buffers r) j"; cases "i = j") (auto simp: lookup_simps)
  qed simp_all
qed

lemma replace_generated_ok:
  assumes ho: "hash_order_ok ho" and ok: "reg_ok r"
  shows "returns (replace_generated ops ho fresh_id name bs r) (generated fresh_id name bs r)"
proof -
  define i where "i = (case find_by_name name r of Some i \<Rightarrow> i | None \<Rightarrow> fresh_id)"
  obtain r1 b where r1: "(case find_by_name name r of Some i \<Rightarrow> Some (r, i) | None \<Rightarrow> reg_create ho fresh_id name r) = Some (r1, i)"
    "reg_ok r1" "Mapping.lookup (reg_buffers r1) i = Some b" "buf_name b = name"
  proof (cases "find_by_name name r")
    case (Some j)
    obtain b where b: "Mapping.lookup (reg_buffers r) j = Some b" "buf_name b = name" by (rule find_by_name_Some [OF Some])
    then show thesis using that [of r b] Some ok by (simp add: i_def)
  next
    case None
    from reg_create_ok [OF ho ok, of fresh_id name] obtain r' where r': "reg_create ho fresh_id name r = Some (r', fresh_id)" "reg_ok r'"
      "renamed_only (put_buffer (buffer_new fresh_id name) r) r'" by (elim returnsE) auto
    have "Mapping.lookup (reg_buffers (put_buffer (buffer_new fresh_id name) r)) fresh_id = Some (buffer_new fresh_id name)"
      by (simp add: put_buffer_def)
    then have "Mapping.lookup (reg_buffers r') fresh_id = Some (buffer_new fresh_id name)"
      using r'(3) buffer_new_facts(3) unfolding renamed_only_def by blast
    then show thesis using that [of r' "buffer_new fresh_id name"] None r' by (simp add: i_def)
  qed
  have inv: "buffer_inv b" by (rule buffers_okD(2) [OF reg_okD(3) [OF r1(2)] r1(3)])
  show ?thesis
  proof (cases "read_only b \<and> contents (buf_rope b) = bs")
    case True
    let ?r = "r1\<lparr>reg_buffers := Mapping.update i (mark_clean b) (reg_buffers r1)\<rparr>"
    have "replace_generated ops ho fresh_id name bs r = Some (?r, i, None)"
      using True buffer_holds_ok [OF inv, of bs] r1(1,3) by (simp add: replace_generated_def)
    moreover have "reg_ok ?r"
      by (rule update_ok [OF r1(2,3)]) (use inv in \<open>simp_all add: mark_clean_def name_path_def buffer_inv_flags cong: option.case_cong\<close>)
    ultimately show ?thesis using True r1(4) by (simp add: generated_def i_def mark_clean_def)
  next
    case False
    obtain b' result where gen: "set_generated_contents ops bs b = Some (b', result)" by (rule set_generated_no_panic [OF inv])
    let ?r = "r1\<lparr>reg_buffers := Mapping.update i b' (reg_buffers r1)\<rparr>"
    have "replace_generated ops ho fresh_id name bs r = Some (?r, i, case result of Inr edit \<Rightarrow> Some edit | Inl _ \<Rightarrow> None)"
      using False buffer_holds_ok [OF inv, of bs] r1(1,3) gen by (auto simp: replace_generated_def)
    moreover have "reg_ok ?r"
      by (rule update_ok [OF r1(2,3) set_generated_naming [OF gen] set_generated_contents_inv [OF inv gen]])
    ultimately show ?thesis using set_generated_text [OF inv gen] set_generated_naming [OF gen] r1(4) by (simp add: generated_def i_def)
  qed
qed

section \<open>The registries there are\<close>

text \<open>
  Every operation, with any order of iteration of the hash sets, any views and, through \<^verbatim>\<open>get_mut\<close>, any change of a
  buffer that keeps its id, its name, what it is named by, and its invariant; and any changes of several buffers that may
  move their paths, followed by one refresh of the names of those, as when a directory is renamed.
\<close>

inductive reg_step :: "'v registry \<Rightarrow> 'v registry \<Rightarrow> bool" where
  step_insert: "hash_order_ok ho \<Longrightarrow> insertable buf \<Longrightarrow> reg_insert ho buf r = Some (r', i) \<Longrightarrow> reg_step r r'"
| step_insert_for_path: "hash_order_ok ho \<Longrightarrow> buffer_inv buf \<Longrightarrow> insert_for_path ho buf path r = Some (r', i) \<Longrightarrow> reg_step r r'"
| step_create: "hash_order_ok ho \<Longrightarrow> reg_create ho i name r = Some (r', j) \<Longrightarrow> reg_step r r'"
| step_create_from_bytes: "hash_order_ok ho \<Longrightarrow> create_from_bytes ho i name bs r = Some (r', j) \<Longrightarrow> reg_step r r'"
| step_remove: "hash_order_ok ho \<Longrightarrow> reg_remove ho i r = Some (r', result) \<Longrightarrow> reg_step r r'"
| step_name_by_path: "hash_order_ok ho \<Longrightarrow> name_by_path ho i path r = Some (r', result) \<Longrightarrow> reg_step r r'"
| step_name_by_directory: "hash_order_ok ho \<Longrightarrow> name_by_directory ho i directory r = Some (r', result) \<Longrightarrow> reg_step r r'"
| step_set_name: "hash_order_ok ho \<Longrightarrow> reg_set_name ho i name r = Some (r', result) \<Longrightarrow> reg_step r r'"
| step_set_path: "hash_order_ok ho \<Longrightarrow> set_buffer_path ho i opath r = Some r' \<Longrightarrow> reg_step r r'"
| step_refresh: "hash_order_ok ho \<Longrightarrow> refreshes ids changes \<Longrightarrow> refresh_names ho ids (change_buffers changes r) = Some r' \<Longrightarrow> reg_step r r'"
| step_reconcile: "hash_order_ok ho \<Longrightarrow> reconcile_paths ho targets r = Some r' \<Longrightarrow> reg_step r r'"
| step_replace_generated: "hash_order_ok ho \<Longrightarrow> replace_generated ops ho fresh_id name bs r = Some (r', i, ed) \<Longrightarrow> reg_step r r'"
| step_edit: "keeps_name f \<Longrightarrow> (\<forall>b. name_path (f b) = name_path b) \<Longrightarrow> reg_get_mut i f r = (r', result') \<Longrightarrow> reg_step r r'"

inductive reg_reachable :: "'v registry \<Rightarrow> bool" where
  reachable_new: "reg_reachable registry_new"
| reachable_step: "reg_reachable r \<Longrightarrow> reg_step r r' \<Longrightarrow> reg_reachable r'"

lemma returns_not_None: "returns m Q \<Longrightarrow> m \<noteq> None"
  by (auto simp: returns_def)

lemma renamed_or_missing_ok: "renamed_or_missing i f r (r', result) \<Longrightarrow> reg_ok r \<Longrightarrow> reg_ok r'"
  by (auto simp: renamed_or_missing_def split: if_splits)

lemma reg_step_ok:
  assumes "reg_step r r'" "reg_ok r"
  shows "reg_ok r'"
  using assms
proof (induction rule: reg_step.induct)
  case (step_insert ho buf r r' i)
  show ?case using reg_insert_ok [OF step_insert(1,4,2)] step_insert(3) by simp
next
  case (step_insert_for_path ho buf path r r' i)
  show ?case using insert_for_path_ok [OF step_insert_for_path(1,4,2), of path] step_insert_for_path(3) by simp
next
  case (step_create ho i name r r' j)
  show ?case using reg_create_ok [OF step_create(1,3), of i name] step_create(2) by simp
next
  case (step_create_from_bytes ho i name bs r r' j)
  show ?case using create_from_bytes_ok [OF step_create_from_bytes(1,3), of i name bs] step_create_from_bytes(2) by simp
next
  case (step_remove ho i r r' result)
  show ?case using reg_remove_ok [OF step_remove(1,3), of i] step_remove(2) by simp
next
  case (step_name_by_path ho i path r r' result)
  show ?case using name_by_path_ok [OF step_name_by_path(1,3), of i path] step_name_by_path(2,3) renamed_or_missing_ok by fastforce
next
  case (step_name_by_directory ho i directory r r' result)
  show ?case
    using name_by_directory_ok [OF step_name_by_directory(1,3), of i directory] step_name_by_directory(2,3) renamed_or_missing_ok by fastforce
next
  case (step_set_name ho i name r r' result)
  show ?case using reg_set_name_ok [OF step_set_name(1,3), of i name] step_set_name(2,3) renamed_or_missing_ok by fastforce
next
  case (step_set_path ho i opath r r')
  show ?case using set_buffer_path_ok [OF step_set_path(1,3), of i opath] step_set_path(2) by simp
next
  case (step_refresh ho ids changes r r')
  show ?case using refresh_changed_ok [OF step_refresh(1,4,2)] step_refresh(3) by simp
next
  case (step_reconcile ho targets r r')
  show ?case using reconcile_paths_ok [OF step_reconcile(1,3), of targets] step_reconcile(2) by simp
next
  case (step_replace_generated ho ops fresh_id name bs r r' i ed)
  show ?case using replace_generated_ok [OF step_replace_generated(1,3), of ops fresh_id name bs] step_replace_generated(2) by (simp add: generated_def)
next
  case (step_edit f i r r' result')
  have "r' = change_buffer i f r" using step_edit(3) by (simp add: change_buffer_def)
  then show ?case using unmoved_reg_ok [OF step_edit(4) change_moves [OF step_edit(1) reg_okD(3) [OF step_edit(4)], of i]] step_edit(2) by simp
qed

lemma reachable_ok: "reg_reachable r \<Longrightarrow> reg_ok r"
  by (induction rule: reg_reachable.induct) (blast intro: reg_ok_new reg_step_ok)+

end
