(* ===== verification/Registry_Properties.thy ===== *)
theory Registry_Properties
  imports Registry_Steps "HOL-Library.Code_Target_Nat"
begin

text \<open>
  What the registry of open buffers, \<^verbatim>\<open>src/src/buffer_registry.rs\<close>, promises: after any events, every buffer named by
  its path has the name that the rule gives when it is worked out afresh from the open buffers, no other buffer has that
  name, and no operation panics or goes on for ever.
\<close>

section \<open>The whole path determines the names\<close>

lemma split_slash_append: "CHR ''/'' \<notin> set p \<Longrightarrow> split_slash (p @ CHR ''/'' # s) = p # split_slash s"
  by (induction p) auto

lemma split_slash_single: "CHR ''/'' \<notin> set p \<Longrightarrow> split_slash p = [p]"
  by (induction p) auto

lemma split_join_slash: "ps \<noteq> [] \<Longrightarrow> \<forall>p \<in> set ps. CHR ''/'' \<notin> set p \<Longrightarrow> split_slash (join_slash ps) = ps"
  by (induction ps rule: join_slash.induct) (simp_all add: split_slash_single split_slash_append)

lemma join_slash_ends: "ps \<noteq> [] \<Longrightarrow> \<forall>p \<in> set ps. part_ok p \<Longrightarrow> join_slash ps \<noteq> [] \<and> last (join_slash ps) \<noteq> CHR ''/''"
proof (induction ps rule: join_slash.induct)
  case (3 p q ps)
  then show ?case by simp
qed (auto dest: part_ok_last)

lemma whole_form:
  fixes path directory
  defines "ps \<equiv> name_components path"
  shows "np_whole (name_path_new path directory) =
    (if ps = [] then ''/'' else ''/'' @ join_slash ps @ (if directory then ''/'' else []))"
proof (cases "ps = []")
  case True
  then show ?thesis by (simp add: np_whole_new render_def ps_def)
next
  case False
  then have "join_slash ps \<noteq> []" "last (join_slash ps) \<noteq> CHR ''/''" using join_slash_ends name_components_ok by (auto simp: ps_def)
  then show ?thesis using False by (simp add: np_whole_new render_def ps_def [symmetric] Let_def)
qed

lemma whole_determines:
  assumes "np_whole (name_path_new path d) = np_whole (name_path_new path' d')"
  shows "np_names (name_path_new path d) = np_names (name_path_new path' d')"
proof -
  let ?ps = "name_components path" and ?qs = "name_components path'"
  have ends: "join_slash ?ps \<noteq> [] \<and> last (join_slash ?ps) \<noteq> CHR ''/''" if "?ps \<noteq> []" using join_slash_ends [OF that] name_components_ok by blast
  have ends': "join_slash ?qs \<noteq> [] \<and> last (join_slash ?qs) \<noteq> CHR ''/''" if "?qs \<noteq> []" using join_slash_ends [OF that] name_components_ok by blast
  have ok: "\<forall>p \<in> set ?ps. CHR ''/'' \<notin> set p" "\<forall>p \<in> set ?qs. CHR ''/'' \<notin> set p" using name_components_ok part_ok_last by blast+
  show ?thesis
  proof (cases "?ps = [] \<or> ?qs = []")
    case True
    then have "?ps = [] \<and> ?qs = []" using assms ends ends' by (auto simp: whole_form split: if_splits)
    then show ?thesis by (simp add: np_names_new render_def)
  next
    case False
    then have eq: "join_slash ?ps @ (if d then ''/'' else []) = join_slash ?qs @ (if d' then ''/'' else [])"
      using assms by (simp add: whole_form)
    have "d = d'" using arg_cong [OF eq, of last] ends ends' False by (auto split: if_splits)
    then have "join_slash ?ps = join_slash ?qs" using eq by simp
    then have "?ps = ?qs" using split_join_slash [OF _ ok(1)] split_join_slash [OF _ ok(2)] False by metis
    then show ?thesis using \<open>d = d'\<close> by (simp add: np_names_new)
  qed
qed

section \<open>The names worked out afresh\<close>

definition open_buffers :: "'v registry \<Rightarrow> 'v buffer list" where
  "open_buffers r = concat (map (\<lambda>i. case Mapping.lookup (reg_buffers r) i of Some b \<Rightarrow> [b] | None \<Rightarrow> []) (reg_order r))"

definition path_names_of :: "'v buffer \<Rightarrow> path_names option" where
  "path_names_of b = map_option (\<lambda>(path, directory). name_path_new path directory) (name_path b)"

definition ref_shared :: "'v registry \<Rightarrow> path_names \<Rightarrow> string \<Rightarrow> bool" where
  "ref_shared r p n \<longleftrightarrow>
     list_ex (\<lambda>c. case path_names_of c of Some q \<Rightarrow> np_whole q \<noteq> np_whole p \<and> n \<in> set (np_names q) | None \<Rightarrow> False) (open_buffers r)"

definition ref_reserved :: "'v registry \<Rightarrow> string \<Rightarrow> bool" where
  "ref_reserved r n \<longleftrightarrow> list_ex (\<lambda>c. name_path c = None \<and> buf_name c = n) (open_buffers r)"

definition ref_base :: "'v registry \<Rightarrow> path_names \<Rightarrow> string" where
  "ref_base r p = np_names p ! name_depth p (ref_shared r p) (ref_reserved r)"

lemma open_buffers_iff:
  assumes "buffers_ok r"
  shows "c \<in> set (open_buffers r) \<longleftrightarrow> (\<exists>j. Mapping.lookup (reg_buffers r) j = Some c)"
proof
  assume "c \<in> set (open_buffers r)"
  then show "\<exists>j. Mapping.lookup (reg_buffers r) j = Some c" unfolding open_buffers_def by (auto split: option.splits)
next
  assume "\<exists>j. Mapping.lookup (reg_buffers r) j = Some c"
  then obtain j where j: "Mapping.lookup (reg_buffers r) j = Some c" by blast
  then have "j \<in> set (reg_order r)" using buffers_okD(4) [OF assms] by (auto simp: keys_dom_lookup)
  then show "c \<in> set (open_buffers r)" unfolding open_buffers_def using j by (auto intro!: bexI [where x = j])
qed

lemma key_of_path: "path_names_of b = Some p \<Longrightarrow> key_of b = Some (np_group p, np_whole p) \<and> is_np p"
  by (auto simp: path_names_of_def key_of_def is_np_def)

lemma key_of_none: "key_of b = None \<longleftrightarrow> name_path b = None" "path_names_of b = None \<longleftrightarrow> name_path b = None"
  by (simp_all add: key_of_def path_names_of_def)

lemma is_np_whole: "is_np p \<Longrightarrow> is_np q \<Longrightarrow> np_whole p = np_whole q \<Longrightarrow> np_names p = np_names q"
  using whole_determines unfolding is_np_def by blast

text \<open>Where a buffer named by a path is filed.\<close>

lemma filed_reference:
  assumes ok: "reg_ok r" and b: "Mapping.lookup (reg_buffers r) i = Some b" "path_names_of b = Some p"
  obtains g e where "filed_at (reg_names r) (np_group p) (np_whole p) g e" "np_names (gp_path e) = np_names p"
    "i \<in> snd ` set (gp_holders e)" "clean (filing_by r) (reserved_name (reg_names r)) (np_group p) (np_whole p) g e"
proof -
  note R = reg_okD [OF ok] and key = key_of_path [OF b(2)]
  have fl: "filing_by r i = Some (buf_name b, Some (np_group p, np_whole p))" using filing_by_Some [OF b(1)] key by simp
  obtain g e where f: "filed_at (reg_names r) (np_group p) (np_whole p) g e" using groups_okD(3) [OF index_okD(6) [OF R(1)] fl] by blast
  note g = filed_group_ok [OF R(1) f]
  have "np_names (gp_path e) = np_names p" using is_np_whole key group_okD(1) [OF g(1,2)] by (auto simp: entry_ok_def)
  moreover obtain pl where "Mapping.lookup (ix_place (reg_names r)) i = Some pl"
    using place_okD(1) [OF index_okD(5) [OF R(1)], of i] fl by auto
  then have "(pl, i) \<in> set (gp_holders e)" using g(3) fl by (simp add: holders_ok_def)
  then have "i \<in> snd ` set (gp_holders e)" by force
  ultimately show thesis using that f settledD [OF R(2) f] by blast
qed

lemma holder_buffer:
  assumes ok: "reg_ok r" and f: "filed_at (reg_names r) gname w g e" and j: "(pl, j) \<in> set (gp_holders e)"
  obtains c q where "Mapping.lookup (reg_buffers r) j = Some c" "path_names_of c = Some q" "np_whole q = w" "np_group q = gname"
    "np_names q = np_names (gp_path e)" "is_np q"
proof -
  note R = reg_okD [OF ok] and g = filed_group_ok [OF reg_okD(1) [OF ok] f]
  obtain n where "filing_by r j = Some (n, Some (gname, w))" using g(3) j by (auto simp: holders_ok_def)
  then obtain c where c: "Mapping.lookup (reg_buffers r) j = Some c" "key_of c = Some (gname, w)" by (auto simp: filing_by_def)
  then obtain q where q: "path_names_of c = Some q" using key_of_none [of c] by (cases "path_names_of c") auto
  note k = key_of_path [OF q]
  have "np_names q = np_names (gp_path e)" using is_np_whole k c(2) group_okD(1) [OF g(1,2)] by (auto simp: entry_ok_def)
  then show thesis using that c q k by simp
qed

lemma reserved_reference:
  assumes ok: "reg_ok r"
  shows "reserved_name (reg_names r) n = ref_reserved r n"
proof -
  note R = reg_okD [OF ok]
  have "reserved_name (reg_names r) n \<longleftrightarrow> (\<exists>i b. Mapping.lookup (reg_buffers r) i = Some b \<and> buf_name b = n \<and> key_of b = None)"
    unfolding reserved_name_iff [OF R(1)] by (auto simp: filing_by_def)
  also have "\<dots> \<longleftrightarrow> (\<exists>b \<in> set (open_buffers r). name_path b = None \<and> buf_name b = n)"
    unfolding Bex_def open_buffers_iff [OF R(3)] key_of_none by blast
  finally show ?thesis by (simp add: ref_reserved_def list_ex_iff)
qed

lemma shared_reference:
  assumes ok: "reg_ok r" and p: "is_np p" and f: "filed_at (reg_names r) (np_group p) (np_whole p) g e" and names: "np_names (gp_path e) = np_names p"
    and n: "n \<in> set (np_names p)"
  shows "shared_name g n = ref_shared r p n"
proof -
  note R = reg_okD [OF ok] and g = filed_group_ok [OF reg_okD(1) [OF ok] f]
  have self: "np_whole p \<in> having g n" using g(2) names n by (auto simp: having_def)
  have "shared_name g n \<longleftrightarrow> (\<exists>w \<in> having g n. w \<noteq> np_whole p)"
  proof -
    have "card (having g n) \<le> 1 \<longleftrightarrow> (\<forall>w \<in> having g n. w = np_whole p)"
      using shared_name_card(2) [OF g(1), of n] self card_le_Suc0_iff_eq by (metis One_nat_def)
    then show ?thesis using shared_name_card(1) [OF g(1), of n] by (metis not_less)
  qed
  also have "\<dots> \<longleftrightarrow> (\<exists>c \<in> set (open_buffers r). \<exists>q. path_names_of c = Some q \<and> np_whole q \<noteq> np_whole p \<and> n \<in> set (np_names q))"
  proof
    assume "\<exists>w \<in> having g n. w \<noteq> np_whole p"
    then obtain w h where h: "w \<noteq> np_whole p" "Mapping.lookup (g_paths g) w = Some h" "n \<in> set (np_names (gp_path h))"
      by (auto simp: having_def)
    have fh: "filed_at (reg_names r) (np_group p) w g h" using f h(2) by (simp add: filed_at_def)
    have "gp_holders h \<noteq> []" using filed_group_ok(3) [OF R(1) fh] by (simp add: holders_ok_def)
    then obtain pl j where "(pl, j) \<in> set (gp_holders h)" by (cases "gp_holders h") auto
    then obtain c q where "Mapping.lookup (reg_buffers r) j = Some c" "path_names_of c = Some q" "np_whole q = w" "np_names q = np_names (gp_path h)"
      using holder_buffer [OF ok fh] by metis
    then show "\<exists>c \<in> set (open_buffers r). \<exists>q. path_names_of c = Some q \<and> np_whole q \<noteq> np_whole p \<and> n \<in> set (np_names q)"
      using h open_buffers_iff [OF R(3)] by metis
  next
    assume "\<exists>c \<in> set (open_buffers r). \<exists>q. path_names_of c = Some q \<and> np_whole q \<noteq> np_whole p \<and> n \<in> set (np_names q)"
    then obtain j c q where c: "Mapping.lookup (reg_buffers r) j = Some c" "path_names_of c = Some q" "np_whole q \<noteq> np_whole p" "n \<in> set (np_names q)"
      using open_buffers_iff [OF R(3)] by blast
    have "np_group q = np_group p" using is_np_facts(4) [OF p n] is_np_facts(4) [of q n] key_of_path [OF c(2)] c(4) by simp
    then obtain h k where "filed_at (reg_names r) (np_group p) (np_whole q) h k" "np_names (gp_path k) = np_names q"
      using filed_reference [OF ok c(1,2)] by metis
    then have "np_whole q \<in> having g n" using f c(4) by (auto simp: filed_at_def having_def)
    then show "\<exists>w \<in> having g n. w \<noteq> np_whole p" using c(3) by blast
  qed
  also have "\<dots> \<longleftrightarrow> ref_shared r p n"
    unfolding ref_shared_def list_ex_iff by (rule bex_cong [OF refl]) (auto split: option.split)
  finally show ?thesis .
qed

text \<open>The incremental base name is the one worked out afresh.\<close>

lemma base_reference:
  assumes ok: "reg_ok r" and p: "is_np p" and f: "filed_at (reg_names r) (np_group p) (np_whole p) g e" and names: "np_names (gp_path e) = np_names p"
  shows "base_name (reserved_name (reg_names r)) g e = ref_base r p"
proof -
  have "name_depth (gp_path e) (shared_name g) (reserved_name (reg_names r)) = name_depth p (shared_name g) (reserved_name (reg_names r))"
    by (simp add: name_depth_def names cong: option.case_cong)
  also have "\<dots> = name_depth p (ref_shared r p) (ref_reserved r)"
    by (rule name_depth_cong) (simp add: shared_reference [OF ok p f names] reserved_reference [OF ok])
  finally show ?thesis by (simp add: base_name_def depth_of_def ref_base_def names)
qed

text \<open>Everything known of the name of a buffer named by its path.\<close>

lemma derived_name:
  assumes ok: "reg_ok r" and b: "Mapping.lookup (reg_buffers r) i = Some b" "path_names_of b = Some p"
  shows "(buf_name b = ref_base r p \<and> \<not> ref_reserved r (ref_base r p)) \<or> suffixed (ref_base r p) (buf_name b)"
    "suffixed (ref_base r p) (buf_name b) \<Longrightarrow> Mapping.lookup (reg_buffers r) j = Some c \<Longrightarrow> buf_name c = buf_name b \<Longrightarrow> key_of c = key_of b"
    "Mapping.lookup (reg_buffers r) j = Some c \<Longrightarrow> key_of c = key_of b \<Longrightarrow> buf_name c = buf_name b \<Longrightarrow> j = i"
    "\<not> ref_reserved r (ref_base r p) \<Longrightarrow> \<exists>j c. Mapping.lookup (reg_buffers r) j = Some c \<and> key_of c = key_of b \<and> buf_name c = ref_base r p"
proof -
  note R = reg_okD [OF ok] and key = key_of_path [OF b(2)]
  obtain g e where f: "filed_at (reg_names r) (np_group p) (np_whole p) g e" "np_names (gp_path e) = np_names p"
    "i \<in> snd ` set (gp_holders e)" "clean (filing_by r) (reserved_name (reg_names r)) (np_group p) (np_whole p) g e"
    by (rule filed_reference [OF ok b])
  note g = filed_group_ok [OF R(1) f(1)]
  have base: "base_name (reserved_name (reg_names r)) g e = ref_base r p" using base_reference [OF ok _ f(1,2)] key by blast
  let ?names = "holder_names (filing_by r) e"
  have w: "well_named (ref_base r p) (\<not> ref_reserved r (ref_base r p)) ?names" "alone (filing_by r) (np_group p, np_whole p) (ref_base r p) ?names"
    using f(4) unfolding clean_def base reserved_reference [OF ok] by blast+
  have held: "\<exists>k < length (gp_holders e). snd (gp_holders e ! k) = j \<and> ?names ! k = buf_name c"
    if "Mapping.lookup (reg_buffers r) j = Some c" "key_of c = key_of b" for j c
  proof -
    have fl: "filing_by r j = Some (buf_name c, Some (np_group p, np_whole p))" using filing_by_Some [OF that(1)] key that(2) by simp
    obtain pl where "Mapping.lookup (ix_place (reg_names r)) j = Some pl" using place_okD(1) [OF index_okD(5) [OF R(1)], of j] fl by auto
    then have "(pl, j) \<in> set (gp_holders e)" using g(3) fl by (simp add: holders_ok_def)
    then obtain k where "k < length (gp_holders e)" "gp_holders e ! k = (pl, j)" by (auto simp: in_set_conv_nth)
    then show ?thesis using fl by (auto simp: holder_names_def)
  qed
  have len: "length ?names = length (gp_holders e)" by (simp add: holder_names_def)
  obtain k where k: "k < length (gp_holders e)" "snd (gp_holders e ! k) = i" "?names ! k = buf_name b" using held [OF b(1)] by blast
  have mem: "buf_name b \<in> set ?names" using k len by (metis nth_mem)
  show "(buf_name b = ref_base r p \<and> \<not> ref_reserved r (ref_base r p)) \<or> suffixed (ref_base r p) (buf_name b)"
    using w(1) mem unfolding well_named_def by blast
  show "key_of c = key_of b" if "suffixed (ref_base r p) (buf_name b)" "Mapping.lookup (reg_buffers r) j = Some c" "buf_name c = buf_name b"
  proof -
    have "filing_by r j = Some (buf_name b, key_of c)" using filing_by_Some [OF that(2)] that(3) by simp
    then show ?thesis using w(2) mem that(1) key unfolding alone_def by metis
  qed
  show "j = i" if c: "Mapping.lookup (reg_buffers r) j = Some c" "key_of c = key_of b" "buf_name c = buf_name b"
  proof -
    obtain m where m: "m < length (gp_holders e)" "snd (gp_holders e ! m) = j" "?names ! m = buf_name c" using held [OF c(1,2)] by blast
    have "distinct ?names" using w(1) by (simp add: well_named_def)
    then have "m = k" using m k c(3) len by (metis nth_eq_iff_index_eq)
    then show ?thesis using m(2) k(2) by simp
  qed
  show "\<exists>j c. Mapping.lookup (reg_buffers r) j = Some c \<and> key_of c = key_of b \<and> buf_name c = ref_base r p" if free: "\<not> ref_reserved r (ref_base r p)"
  proof -
    have "ref_base r p \<in> set ?names" using w(1) free by (simp add: well_named_def)
    then obtain pl j where j: "(pl, j) \<in> set (gp_holders e)" "fst (the (filing_by r j)) = ref_base r p"
      by (auto simp: holder_names_def)
    obtain c q where c: "Mapping.lookup (reg_buffers r) j = Some c" "path_names_of c = Some q" "np_whole q = np_whole p" "np_group q = np_group p"
      using holder_buffer [OF ok f(1) j(1)] by metis
    have "key_of c = key_of b" using key_of_path [OF c(2)] key c(3,4) by simp
    then show ?thesis using c(1) j(2) filing_by_Some [OF c(1)] by auto
  qed
qed

text \<open>Two buffers of one name, one of them named by its path, are filed alike.\<close>

lemma unique_key:
  assumes ok: "reg_ok r" and b: "Mapping.lookup (reg_buffers r) i = Some b" "path_names_of b = Some p"
    and c: "Mapping.lookup (reg_buffers r) j = Some c" "buf_name c = buf_name b"
  shows "key_of c = key_of b"
proof (cases "suffixed (ref_base r p) (buf_name b)")
  case True
  then show ?thesis by (rule derived_name(2) [OF ok b _ c])
next
  case False
  then have plain: "buf_name b = ref_base r p" "\<not> ref_reserved r (ref_base r p)" using derived_name(1) [OF ok b] by blast+
  show ?thesis
  proof (cases "path_names_of c")
    case None
    have "c \<in> set (open_buffers r)" using open_buffers_iff [OF reg_okD(3) [OF ok]] c(1) by blast
    then have "ref_reserved r (buf_name c)" using None key_of_none(2) by (auto simp: ref_reserved_def list_ex_iff)
    then show ?thesis using plain c(2) by simp
  next
    case (Some q)
    show ?thesis
    proof (cases "suffixed (ref_base r q) (buf_name c)")
      case True
      show ?thesis using derived_name(2) [OF ok c(1) Some True b(1)] c(2) by simp
    next
      case False
      then have plain': "buf_name c = ref_base r q" using derived_name(1) [OF ok c(1) Some] by blast
      note R = reg_okD(1) [OF ok]
      obtain g e where f: "filed_at (reg_names r) (np_group p) (np_whole p) g e" "np_names (gp_path e) = np_names p"
        by (rule filed_reference [OF ok b])
      obtain h k where f': "filed_at (reg_names r) (np_group q) (np_whole q) h k" "np_names (gp_path k) = np_names q"
        by (rule filed_reference [OF ok c(1) Some])
      note kp = key_of_path [OF b(2)] and kq = key_of_path [OF Some]
      have "base_name (reserved_name (reg_names r)) g e = base_name (reserved_name (reg_names r)) h k"
        using base_reference [OF ok _ f] base_reference [OF ok _ f'] kp kq plain plain' c(2) by simp
      moreover have "g = h" if "np_group p = np_group q" using that filed_atD [OF f(1)] filed_atD [OF f'(1)] by simp
      ultimately have "np_group p = np_group q \<and> np_whole p = np_whole q"
        by (rule base_name_unique [OF filed_group_ok(1,2) [OF R f(1)] filed_group_ok(1,2) [OF R f'(1)]])
      then show ?thesis using kp kq by simp
    qed
  qed
qed

section \<open>A run\<close>

text \<open>Opening files, for concrete registries.\<close>

fun open_files :: "hash_order \<Rightarrow> (nat \<times> string) list \<Rightarrow> 'v registry \<Rightarrow> 'v registry option" where
  "open_files ho [] r = Some r"
| "open_files ho ((i, path) # files) r = do { (r', _) \<leftarrow> insert_for_path ho (buffer_new i []) path r; open_files ho files r' }"

lemma open_files_reachable: "reg_reachable r \<Longrightarrow> hash_order_ok ho \<Longrightarrow> open_files ho files r = Some r' \<Longrightarrow> reg_reachable r'"
proof (induction files arbitrary: r)
  case (Cons f files)
  obtain i path where f: "f = (i, path)" by fastforce
  obtain r1 j where r1: "insert_for_path ho (buffer_new i []) path r = Some (r1, j)" "open_files ho files r1 = Some r'"
    using Cons.prems(3) by (auto simp: f bind_eq_Some_conv)
  have "reg_step r r1" by (rule step_insert_for_path [OF Cons.prems(2) buffer_inv_new r1(1)])
  then show ?case using Cons.IH [OF _ Cons.prems(2) r1(2)] reachable_step [OF Cons.prems(1)] by blast
qed simp

definition in_order :: hash_order where
  "in_order k d = d"

definition in_reverse :: hash_order where
  "in_reverse k d = rev d"

lemma hash_orders: "hash_order_ok in_order" "hash_order_ok in_reverse"
  by (simp_all add: hash_order_ok_def in_order_def in_reverse_def)

text \<open>Two files of one name, one of them opened twice.\<close>

definition three_files :: "unit registry" where
  "three_files = the (open_files in_reverse [(1, ''/p/src/a''), (2, ''/p/tests/a''), (3, ''/p/src/a'')] registry_new)"

lemma three_files_reachable: "reg_reachable three_files"
proof -
  let ?run = "open_files in_reverse [(1, ''/p/src/a''), (2, ''/p/tests/a''), (3, ''/p/src/a'')] registry_new :: unit registry option"
  have "?run \<noteq> None" by code_simp
  then have "?run = Some three_files" unfolding three_files_def using option.collapse by metis
  then show ?thesis by (rule open_files_reachable [OF reachable_new hash_orders(2)])
qed

lemma three_files_names:
  "map buf_name (open_buffers three_files) = [''src/a'', ''tests/a'', ''src/a<2>'']"
  "map_option buf_name (Mapping.lookup (reg_buffers three_files) 3) = Some ''src/a<2>''"
  "map_option (map_option np_whole \<circ> path_names_of) (Mapping.lookup (reg_buffers three_files) 3) = Some (Some ''/p/src/a'')"
  "find_by_name ''src/a<2>'' three_files = Some 3"
  by code_simp+

lemma three_files_third:
  obtains b p where "Mapping.lookup (reg_buffers three_files) 3 = Some b" "buf_name b = ''src/a<2>''" "path_names_of b = Some p" "np_whole p = ''/p/src/a''"
  using three_files_names(2,3) by (auto simp: comp_def)

text \<open>
  The names of the open buffers as the rule wants them: each buffer named by its path shows the base name worked out
  afresh, unless that is reserved, or that name with a number; and an unreserved base name is shown plain by a buffer of
  the path.
\<close>

definition name_follows_rule :: "'v registry \<Rightarrow> 'v buffer \<Rightarrow> bool" where
  "name_follows_rule r b \<longleftrightarrow>
     (case path_names_of b of
        None \<Rightarrow> True
      | Some p \<Rightarrow>
          (buf_name b = ref_base r p \<and> \<not> ref_reserved r (ref_base r p) \<or> suffixed (ref_base r p) (buf_name b)) \<and>
          (ref_reserved r (ref_base r p) \<or>
           list_ex (\<lambda>c. map_option np_whole (path_names_of c) = Some (np_whole p) \<and> buf_name c = ref_base r p) (open_buffers r)))"

lemma names_follow_rule:
  assumes "reg_ok r"
  shows "list_all (name_follows_rule r) (open_buffers r)"
  unfolding list_all_iff
proof
  fix b assume b: "b \<in> set (open_buffers r)"
  note R = reg_okD(3) [OF assms]
  obtain i where i: "Mapping.lookup (reg_buffers r) i = Some b" using b open_buffers_iff [OF R] by blast
  show "name_follows_rule r b"
  proof (cases "path_names_of b")
    case (Some p)
    note d = derived_name [OF assms i Some]
    have "list_ex (\<lambda>c. map_option np_whole (path_names_of c) = Some (np_whole p) \<and> buf_name c = ref_base r p) (open_buffers r)"
      if free: "\<not> ref_reserved r (ref_base r p)"
    proof -
      obtain j c where c: "Mapping.lookup (reg_buffers r) j = Some c" "key_of c = key_of b" "buf_name c = ref_base r p" using d(4) [OF free] by blast
      then obtain q where q: "path_names_of c = Some q" using key_of_path [OF Some] key_of_none [of c] by (cases "path_names_of c") auto
      have "c \<in> set (open_buffers r)" using c(1) open_buffers_iff [OF R] by blast
      moreover have "np_whole q = np_whole p" using c(2) key_of_path [OF Some] key_of_path [OF q] by simp
      ultimately show ?thesis using c(3) q by (auto simp: list_ex_iff)
    qed
    then show ?thesis using d(1) Some by (auto simp: name_follows_rule_def)
  qed (simp add: name_follows_rule_def)
qed

section \<open>Properties\<close>

text \<open>
  C32. Incremental naming agrees with naming from scratch. After any events, several paths moved at once included, every
  open buffer named by its path shows the shortest name of the path that no other open path shares and no other buffer
  reserves, worked out afresh from the open buffers, or that name with a number; and if the name is not reserved, one of
  the buffers of the path shows it plain. From any such state, changing several buffers and refreshing the names of those
  whose paths moved returns, and the names follow the rule again.
\<close>

theorem registry_names_match_reference:
  assumes "reg_reachable r" and "hash_order_ok ho" and "refreshes ids changes"
  shows "list_all (name_follows_rule r) (open_buffers r) \<and>
    (\<exists>r'. refresh_names ho ids (change_buffers changes r) = Some r' \<and> list_all (name_follows_rule r') (open_buffers r') \<and>
       renamed_only (change_buffers changes r) r')"
proof -
  note ok = reachable_ok [OF assms(1)]
  obtain r' where "refresh_names ho ids (change_buffers changes r) = Some r'" "reg_ok r'" "renamed_only (change_buffers changes r) r'"
    using refresh_changed_ok [OF assms(2) ok assms(3)] by (auto elim: returnsE)
  then show ?thesis using names_follow_rule [OF ok] names_follow_rule by blast
qed

text \<open>The directory of two of the three files is renamed, and their names follow.\<close>

definition moved_files :: "(nat \<times> (unit buffer \<Rightarrow> unit buffer)) list" where
  "moved_files = [(1, set_file_path (Some ''/p/tests/b'')), (3, set_file_path (Some ''/p/tests/b''))]"

theorem registry_names_match_reference_witness:
  "\<exists>r'. refresh_names in_reverse [1, 3] (change_buffers moved_files three_files) = Some r' \<and>
     list_all (name_follows_rule r') (open_buffers r')"
proof -
  have "refreshes [1, 3] moved_files" using keeps_name_path(1) by (auto simp: refreshes_def moved_files_def)
  from registry_names_match_reference [OF three_files_reachable hash_orders(2) this] show ?thesis by blast
qed

text \<open>
  A derived name is a buffer's own: no other open buffer, whatever named it, has the name of a buffer that is named by
  its path, so looking the name up finds that buffer.
\<close>

theorem registry_derived_name_is_unique:
  assumes "reg_reachable r" and "Mapping.lookup (reg_buffers r) i = Some b" and "name_path b \<noteq> None"
    and "Mapping.lookup (reg_buffers r) j = Some c" and "buf_name c = buf_name b"
  shows "j = i \<and> find_by_name (buf_name b) r = Some i"
proof -
  note ok = reachable_ok [OF assms(1)]
  obtain p where p: "path_names_of b = Some p" using assms(3) key_of_none(2) [of b] by (cases "path_names_of b") auto
  have same: "k = i" if k: "Mapping.lookup (reg_buffers r) k = Some d" "buf_name d = buf_name b" for k d
  proof (cases "key_of d = key_of b")
    case True
    then show ?thesis using derived_name(3) [OF ok assms(2) p k(1) _ k(2)] by blast
  next
    case False
    then show ?thesis using unique_key [OF ok assms(2) p k] by blast
  qed
  obtain k where k: "find_by_name (buf_name b) r = Some k"
    using find_by_name_None [OF reg_okD(3) [OF ok] _ assms(2)] by (cases "find_by_name (buf_name b) r") auto
  obtain d where "Mapping.lookup (reg_buffers r) k = Some d" "buf_name d = buf_name b" by (rule find_by_name_Some [OF k])
  then have "k = i" by (rule same)
  then show ?thesis using same [OF assms(4,5)] k by simp
qed

theorem registry_derived_name_is_unique_witness:
  "\<exists>b. Mapping.lookup (reg_buffers three_files) 3 = Some b \<and> find_by_name (buf_name b) three_files = Some 3"
proof -
  obtain b p where b: "Mapping.lookup (reg_buffers three_files) 3 = Some b" "path_names_of b = Some p" by (rule three_files_third)
  have "name_path b \<noteq> None" using b(2) key_of_none(2) [of b] by auto
  then show ?thesis using registry_derived_name_is_unique [OF three_files_reachable b(1) _ b(1)] b(1) by blast
qed

text \<open>
  C33. No operation of the registry panics or goes on for ever: from every registry that the operations reach, whatever the
  order in which the hash sets are iterated, each returns; the counts never underflow, no path is missing from the index,
  and the renaming settles before the eight rounds that a debug assertion allows. A buffer to be inserted is well-formed
  and, if it is named by its path, does not come with a numbered name; a refresh may be of any ids, after any changes that
  keep the names and move the paths of those ids only.
\<close>

theorem registry_operations_return:
  assumes "reg_reachable r" and "hash_order_ok ho"
  shows "(insertable buf \<longrightarrow> reg_insert ho buf r \<noteq> None) \<and> (buffer_inv buf \<longrightarrow> insert_for_path ho buf path r \<noteq> None) \<and>
    reg_create ho i name r \<noteq> None \<and> create_from_bytes ho i name bs r \<noteq> None \<and> reg_remove ho i r \<noteq> None \<and>
    name_by_path ho i path r \<noteq> None \<and> name_by_directory ho i path r \<noteq> None \<and> reg_set_name ho i name r \<noteq> None \<and>
    set_buffer_path ho i opath r \<noteq> None \<and> reconcile_paths ho targets r \<noteq> None \<and>
    (refreshes ids changes \<longrightarrow> refresh_names ho ids (change_buffers changes r) \<noteq> None) \<and> replace_generated ops ho i name bs r \<noteq> None"
proof -
  note ok = assms(2) reachable_ok [OF assms(1)]
  show ?thesis
    by (intro conjI impI returns_not_None [OF reg_insert_ok [OF ok]] returns_not_None [OF insert_for_path_ok [OF ok]]
        returns_not_None [OF reg_create_ok [OF ok]] returns_not_None [OF create_from_bytes_ok [OF ok]]
        returns_not_None [OF reg_remove_ok [OF ok]] returns_not_None [OF name_by_path_ok [OF ok]]
        returns_not_None [OF name_by_directory_ok [OF ok]] returns_not_None [OF reg_set_name_ok [OF ok]]
        returns_not_None [OF set_buffer_path_ok [OF ok]] returns_not_None [OF reconcile_paths_ok [OF ok]]
        returns_not_None [OF refresh_changed_ok [OF ok]] returns_not_None [OF replace_generated_ok [OF ok]]; assumption)
qed

theorem registry_operations_return_witness:
  "reg_remove in_reverse 1 three_files \<noteq> None \<and> reg_set_name in_reverse 2 ''src/a'' three_files \<noteq> None \<and>
     reconcile_paths in_reverse [(1, ''/q/a''), (3, ''/q/a'')] three_files \<noteq> None"
  using registry_operations_return [OF three_files_reachable hash_orders(2)] by blast

text \<open>
  Removing a buffer: a missing handle and a buffer in the middle of an edit are errors that leave the registry as it
  was; otherwise the buffer comes back, its handle is stale, and of the others only derived names change.
\<close>

theorem registry_remove:
  assumes "reg_reachable r" and "hash_order_ok ho"
  shows "case Mapping.lookup (reg_buffers r) i of
      None \<Rightarrow> reg_remove ho i r = Some (r, Inl (Missing i))
    | Some b \<Rightarrow>
        if editing_in_progress b then reg_remove ho i r = Some (r, Inl (RegistryConcurrentEdit i (buf_name b)))
        else (\<exists>r'. reg_remove ho i r = Some (r', Inr b) \<and> reg_get i r' = Inl (Missing i) \<and> reg_order r' = filter (\<lambda>x. x \<noteq> i) (reg_order r) \<and>
          (\<forall>j c. j \<noteq> i \<longrightarrow> Mapping.lookup (reg_buffers r) j = Some c \<longrightarrow>
             (\<exists>n. Mapping.lookup (reg_buffers r') j = Some (c\<lparr>buf_name := n\<rparr>) \<and> (name_path c = None \<longrightarrow> n = buf_name c))))"
proof (cases "Mapping.lookup (reg_buffers r) i")
  case None
  then show ?thesis by (simp add: reg_remove_def)
next
  case (Some b)
  show ?thesis
  proof (cases "editing_in_progress b")
    case True
    then show ?thesis using Some by (simp add: reg_remove_def)
  next
    case False
    obtain r' where r': "reg_remove ho i r = Some (r', Inr b)" "renamed_only (drop_buffer i r) r'"
      by (rule returnsE [OF reg_remove_done [OF assms(2) reachable_ok [OF assms(1)] Some False]]) auto
    have "\<exists>n. Mapping.lookup (reg_buffers r') j = Some (c\<lparr>buf_name := n\<rparr>) \<and> (name_path c = None \<longrightarrow> n = buf_name c)"
      if "j \<noteq> i" "Mapping.lookup (reg_buffers r) j = Some c" for j c
    proof -
      have "Mapping.lookup (reg_buffers (drop_buffer i r)) j = Some c" using that by (simp add: drop_buffer_def lookup_delete')
      from renamed_onlyD [OF r'(2) this] show ?thesis unfolding set_derived_name_def by metis
    qed
    moreover have "Mapping.lookup (reg_buffers (drop_buffer i r)) i = None" by (simp add: drop_buffer_def)
    then have "reg_get i r' = Inl (Missing i)" using renamed_only_dom [OF r'(2), of i] by (simp add: reg_get_def)
    moreover have "reg_order r' = filter (\<lambda>x. x \<noteq> i) (reg_order r)" using r'(2) by (simp add: renamed_only_def drop_buffer_def)
    ultimately show ?thesis using r'(1) Some False by simp
  qed
qed

theorem registry_remove_witness: "reg_remove in_order 9 three_files = Some (three_files, Inl (Missing 9))"
proof -
  have "Mapping.lookup (reg_buffers three_files) 9 = None" by code_simp
  then show ?thesis using registry_remove [OF three_files_reachable hash_orders(1), of 9] by simp
qed

text \<open>
  C34. Opening a file: the buffer comes last in the order, bound to the path and named by it. Its name is the one the rule
  gives for its path among the buffers now open, or that name with a number, and the plain name if no other buffer has
  its path and none reserves the name; no other open buffer has its name. Of the others only derived names change, and
  all of them follow the rule.
\<close>

theorem registry_open_file:
  assumes "reg_reachable r" and "hash_order_ok ho" and "buffer_inv buf" and "Mapping.lookup (reg_buffers r) (buf_id buf) = None"
    and "named_directory buf = None"
  shows "\<exists>r' n. insert_for_path ho buf path r = Some (r', buf_id buf) \<and> reg_order r' = reg_order r @ [buf_id buf] \<and>
    Mapping.lookup (reg_buffers r') (buf_id buf) = Some (buf\<lparr>buf_name := n, file_path := Some path, name_origin := PathDerived\<rparr>) \<and>
    (let p = name_path_new path False; base = ref_base r' p
     in (n = base \<and> \<not> ref_reserved r' base \<or> suffixed base n) \<and>
        (\<not> ref_reserved r' base \<longrightarrow>
         (\<forall>j c. j \<noteq> buf_id buf \<longrightarrow> Mapping.lookup (reg_buffers r') j = Some c \<longrightarrow> map_option np_whole (path_names_of c) \<noteq> Some (np_whole p)) \<longrightarrow>
         n = base)) \<and>
    find_by_name n r' = Some (buf_id buf) \<and>
    (\<forall>j c. Mapping.lookup (reg_buffers r) j = Some c \<longrightarrow>
       (\<exists>n. Mapping.lookup (reg_buffers r') j = Some (c\<lparr>buf_name := n\<rparr>) \<and> (name_path c = None \<longrightarrow> n = buf_name c))) \<and>
    list_all (name_follows_rule r') (open_buffers r')"
proof -
  note ok = reachable_ok [OF assms(1)]
  let ?b = "name_from_path (set_file_path (Some path) (set_name [] buf))" and ?p = "name_path_new path False"
  obtain r' where r': "insert_for_path ho buf path r = Some (r', buf_id buf)" "renamed_only (put_buffer ?b r) r'" "reg_ok r'"
    using insert_for_path_ok [OF assms(2) ok assms(3), of path] by (elim returnsE) auto
  have b: "buf_id ?b = buf_id buf" by (simp add: name_from_path_def set_file_path_def set_name_def)
  have "Mapping.lookup (reg_buffers (put_buffer ?b r)) (buf_id buf) = Some ?b" by (simp add: put_buffer_def b)
  then obtain n where n: "Mapping.lookup (reg_buffers r') (buf_id buf) = Some (set_derived_name n ?b)" by (rule renamed_onlyD [OF r'(2)])
  have eq: "set_derived_name n ?b = buf\<lparr>buf_name := n, file_path := Some path, name_origin := PathDerived\<rparr>"
    by (simp add: set_derived_name_def name_from_path_def set_file_path_def set_name_def)
  have path: "path_names_of (set_derived_name n ?b) = Some ?p" unfolding eq using assms(5) by (simp add: path_names_of_def name_path_def)
  note d = derived_name [OF r'(3) n path]
  have name: "buf_name (set_derived_name n ?b) = n" by (simp add: set_derived_name_def)
  have plain: "n = ref_base r' ?p"
    if free: "\<not> ref_reserved r' (ref_base r' ?p)" and only: "\<forall>j c. j \<noteq> buf_id buf \<longrightarrow> Mapping.lookup (reg_buffers r') j = Some c \<longrightarrow> map_option np_whole (path_names_of c) \<noteq> Some (np_whole ?p)"
  proof -
    obtain j c where c: "Mapping.lookup (reg_buffers r') j = Some c" "key_of c = key_of (set_derived_name n ?b)" "buf_name c = ref_base r' ?p"
      using d(4) [OF free] by blast
    have "map_option np_whole (path_names_of c) = Some (np_whole ?p)"
      using c(2) key_of_path [OF path] key_of_none [of c] key_of_path [of c] by (cases "path_names_of c") auto
    then have "j = buf_id buf" using only c(1) by blast
    then show ?thesis using c(1,3) n name by simp
  qed
  have own: "find_by_name n r' = Some (buf_id buf)"
  proof -
    obtain k where k: "find_by_name n r' = Some k"
      using find_by_name_None [OF reg_okD(3) [OF r'(3)] _ n, of n] name by (cases "find_by_name n r'") auto
    obtain c where c: "Mapping.lookup (reg_buffers r') k = Some c" "buf_name c = n" by (rule find_by_name_Some [OF k])
    then have "key_of c = key_of (set_derived_name n ?b)" using unique_key [OF r'(3) n path c(1)] name by simp
    then show ?thesis using d(3) [OF c(1)] c(2) name k by simp
  qed
  have "reg_order r' = reg_order r @ [buf_id buf]"
    using r'(2) filter_other [OF assms(4) reg_okD(3) [OF ok]] by (simp add: renamed_only_def put_buffer_def b)
  moreover have "\<exists>n. Mapping.lookup (reg_buffers r') j = Some (c\<lparr>buf_name := n\<rparr>) \<and> (name_path c = None \<longrightarrow> n = buf_name c)"
    if "Mapping.lookup (reg_buffers r) j = Some c" for j c
  proof -
    have "j \<noteq> buf_id buf" using that assms(4) by auto
    then have "Mapping.lookup (reg_buffers (put_buffer ?b r)) j = Some c" using that by (simp add: put_buffer_def b lookup_simps)
    from renamed_onlyD [OF r'(2) this] show ?thesis unfolding set_derived_name_def by metis
  qed
  ultimately show ?thesis
    using r'(1) n d(1) plain own names_follow_rule [OF r'(3)] unfolding eq Let_def
    by (intro exI [of _ r'] exI [of _ n]) auto
qed

theorem registry_open_file_witness:
  "\<exists>r' n. insert_for_path in_order (buffer_new 4 []) ''/a'' three_files = Some (r', 4) \<and> reg_order r' = reg_order three_files @ [4] \<and>
     find_by_name n r' = Some 4 \<and> list_all (name_follows_rule r') (open_buffers r')"
proof -
  have "Mapping.lookup (reg_buffers three_files) (buf_id (buffer_new 4 [] :: unit buffer)) = None"
    "named_directory (buffer_new 4 [] :: unit buffer) = None" by code_simp+
  from registry_open_file [OF three_files_reachable hash_orders(1) buffer_inv_new this, of "''/a''"]
  show ?thesis unfolding buffer_new_facts by blast
qed

text \<open>
  Generated contents: whether or not there is a buffer of the name, afterwards there is one, read-only, with exactly
  the given text, the first of the name if there was one; and the registry is as consistent as before.
\<close>

theorem registry_replace_generated:
  assumes "reg_reachable r" and "hash_order_ok ho"
  shows "\<exists>r' ed b. replace_generated ops ho fresh_id name bs r =
      Some (r', case find_by_name name r of Some i \<Rightarrow> i | None \<Rightarrow> fresh_id, ed) \<and> reg_reachable r' \<and>
    Mapping.lookup (reg_buffers r') (case find_by_name name r of Some i \<Rightarrow> i | None \<Rightarrow> fresh_id) = Some b \<and>
    buf_name b = name \<and> read_only b \<and> contents (buf_rope b) = bs"
proof -
  obtain r' i ed where g: "replace_generated ops ho fresh_id name bs r = Some (r', i, ed)" "generated fresh_id name bs r (r', i, ed)"
    by (rule returnsE [OF replace_generated_ok [OF assms(2) reachable_ok [OF assms(1)], of ops fresh_id name bs]]) (metis prod_cases3)
  have "reg_reachable r'" by (rule reachable_step [OF assms(1) step_replace_generated [OF assms(2) g(1)]])
  then show ?thesis using g unfolding generated_def by auto
qed

theorem registry_replace_generated_witness:
  "\<exists>r' ed b. replace_generated \<lparr>intercept_edit = \<lambda>v ctx op. (v, Inr op), on_edit = \<lambda>v b ed. (v, None)\<rparr> in_order 7 ''*help*'' [104, 105] three_files =
      Some (r', 7, ed) \<and> Mapping.lookup (reg_buffers r') 7 = Some b \<and> contents (buf_rope b) = [104, 105]"
proof -
  have "find_by_name ''*help*'' three_files = None" by code_simp
  then show ?thesis
    using registry_replace_generated [OF three_files_reachable hash_orders(1),
        of "\<lparr>intercept_edit = \<lambda>v ctx op. (v, Inr op), on_edit = \<lambda>v b ed. (v, None)\<rparr>" 7 "''*help*''" "[104, 105]"]
    by auto
qed

end
