(* ===== verification/Theme.thy ===== *)
theory Theme
  imports Cell "HOL-Library.Finite_Map" "HOL-Library.List_Lexorder" "HOL-Library.Char_ord"
begin

text \<open>
  Themes, \<^verbatim>\<open>src/src/highlight.rs\<close>: the styles by capture and face name with their authored fallbacks, the
  dotted lookups, the commit that advances the epochs, and the library of named themes with the layer of
  the user's own calls. Hash maps and ordered maps are finite maps; names are their bytes. The epochs are
  numbers, their 64 bits being out of reach.
\<close>

section \<open>Entries\<close>

record depth_colors =
  dc_fg :: "byte option"
  dc_bg :: "byte option"
  dc_underline_color :: "byte option"

definition no_depth_colors :: depth_colors where
  "no_depth_colors = \<lparr>dc_fg = None, dc_bg = None, dc_underline_color = None\<rparr>"

definition depth_colors_is_empty :: "depth_colors \<Rightarrow> bool" where
  "depth_colors_is_empty c \<longleftrightarrow> c = no_depth_colors"

record fallbacks =
  c256 :: depth_colors
  c16 :: depth_colors

definition no_fallbacks :: fallbacks where
  "no_fallbacks = \<lparr>c256 = no_depth_colors, c16 = no_depth_colors\<rparr>"

definition fallbacks_is_empty :: "fallbacks \<Rightarrow> bool" where
  "fallbacks_is_empty f \<longleftrightarrow> depth_colors_is_empty (c256 f) \<and> depth_colors_is_empty (c16 f)"

record theme_entry =
  te_name :: string
  te_style :: style
  te_fallbacks :: fallbacks

datatype entry_mode = ReplaceAll | MergeInto

definition BUFFER_FACE :: string where
  "BUFFER_FACE = ''ui.default''"

definition STATE_FACES :: "string list" where
  "STATE_FACES = [''ui.menu.selected'', ''ui.minimap.thumb'', ''ui.scrollbar.thumb'']"

definition string_starts_with :: "string \<Rightarrow> string \<Rightarrow> bool" where
  "string_starts_with p s \<longleftrightarrow> take (length p) s = p"

definition is_face_name :: "string \<Rightarrow> bool" where
  "is_face_name name \<longleftrightarrow> name = ''ui'' \<or> string_starts_with ''ui.'' name"

definition is_modeline_face_name :: "string \<Rightarrow> bool" where
  "is_modeline_face_name name \<longleftrightarrow> name = ''ui.modeline'' \<or> string_starts_with ''ui.modeline.'' name"

section \<open>The theme\<close>

record theme =
  by_capture :: "(string, style) fmap"
  theme_default :: style
  syntax_epoch :: nat
  face_epoch :: nat
  theme_fallbacks :: "(string, fallbacks) fmap"

definition theme_empty :: theme where
  "theme_empty = \<lparr>by_capture = fmempty, theme_default = default_style, syntax_epoch = 0, face_epoch = 0,
     theme_fallbacks = fmempty\<rparr>"

text \<open>\<^verbatim>\<open>str::rfind('.')\<close>.\<close>

definition rfind_dot :: "string \<Rightarrow> nat option" where
  "rfind_dot s =
     (case filter (\<lambda>i. s ! i = CHR ''.'') [0..<length s] of [] \<Rightarrow> None | is \<Rightarrow> Some (last is))"

lemma sorted_le_last: "sorted xs \<Longrightarrow> (x :: nat) \<in> set xs \<Longrightarrow> x \<le> last xs"
  by (induction xs) auto

lemma rfind_dot_Some:
  "rfind_dot s = Some i \<longleftrightarrow> i < length s \<and> s ! i = CHR ''.'' \<and> (\<forall>j. i < j \<and> j < length s \<longrightarrow> s ! j \<noteq> CHR ''.'')"
proof -
  let ?is = "filter (\<lambda>i. s ! i = CHR ''.'') [0..<length s]"
  have srt: "sorted ?is" by (simp add: sorted_wrt_filter)
  have top: "j \<le> last ?is" if "j \<in> set ?is" for j
    using sorted_le_last [OF srt that] .
  show ?thesis
  proof
    assume "rfind_dot s = Some i"
    then have ne: "?is \<noteq> []" and i: "i = last ?is"
      by (auto simp: rfind_dot_def split: list.splits)
    then have "i \<in> set ?is" by (metis last_in_set)
    moreover have "\<not> (i < j \<and> j < length s \<and> s ! j = CHR ''.'')" for j
      using top [of j] i by auto
    ultimately show "i < length s \<and> s ! i = CHR ''.'' \<and> (\<forall>j. i < j \<and> j < length s \<longrightarrow> s ! j \<noteq> CHR ''.'')"
      by auto
  next
    assume i: "i < length s \<and> s ! i = CHR ''.'' \<and> (\<forall>j. i < j \<and> j < length s \<longrightarrow> s ! j \<noteq> CHR ''.'')"
    then have mem: "i \<in> set ?is" by simp
    then have "last ?is \<in> set ?is" by (metis empty_iff last_in_set list.set(1))
    then have "last ?is = i" using top [OF mem] i by (auto simp: order.order_iff_strict)
    moreover have "?is \<noteq> []" using mem by (metis empty_iff list.set(1))
    ultimately show "rfind_dot s = Some i" by (cases ?is) (simp_all add: rfind_dot_def)
  qed
qed

lemma rfind_dot_None: "rfind_dot s = None \<longleftrightarrow> CHR ''.'' \<notin> set s"
proof -
  have "rfind_dot s = None \<longleftrightarrow> filter (\<lambda>i. s ! i = CHR ''.'') [0..<length s] = []"
    by (simp add: rfind_dot_def split: list.splits)
  then show ?thesis by (auto simp: filter_empty_conv in_set_conv_nth)
qed

lemma rfind_dot_less: "rfind_dot s = Some i \<Longrightarrow> i < length s"
  by (simp add: rfind_dot_Some)

text \<open>The walk of both lookups: the name, then one segment less at a time.\<close>

function walk :: "(string, 'a) fmap \<Rightarrow> string \<Rightarrow> 'a option" where
  "walk m name =
     (case fmlookup m name of
        Some s \<Rightarrow> Some s
      | None \<Rightarrow> (case rfind_dot name of Some i \<Rightarrow> walk m (take i name) | None \<Rightarrow> None))"
  by pat_completeness auto
termination
  by (relation "measure (\<lambda>(_, name). length name)") (auto dest: rfind_dot_less)

declare walk.simps [simp del]

definition theme_lookup :: "theme \<Rightarrow> string \<Rightarrow> style" where
  "theme_lookup t capture = (case walk (by_capture t) capture of Some s \<Rightarrow> s | None \<Rightarrow> theme_default t)"

text \<open>A name that is no face fails the assertion of \<^verbatim>\<open>face\<close>: the outer \<open>None\<close>.\<close>

definition theme_face :: "theme \<Rightarrow> string \<Rightarrow> style option option" where
  "theme_face t name =
     (if \<not> is_face_name name then None
      else if name \<in> set STATE_FACES then Some (fmlookup (by_capture t) name)
      else Some (walk (by_capture t) name))"

definition buffer_face :: "theme \<Rightarrow> style option" where
  "buffer_face t = fmlookup (by_capture t) BUFFER_FACE"

text \<open>The walk of a modeline segment stops before \<^verbatim>\<open>ui.modeline\<close> and keeps only a concrete foreground.\<close>

function modeline_walk :: "theme \<Rightarrow> string \<Rightarrow> style option" where
  "modeline_walk t name =
     (if name = ''ui.modeline'' then None
      else case fmlookup (by_capture t) name of
          Some s \<Rightarrow> (if fg s = DefaultColor then None else Some (default_style\<lparr>fg := fg s\<rparr>))
        | None \<Rightarrow> (case rfind_dot name of Some i \<Rightarrow> modeline_walk t (take i name) | None \<Rightarrow> None))"
  by pat_completeness auto
termination
  by (relation "measure (\<lambda>(_, name). length name)") (auto dest: rfind_dot_less)

declare modeline_walk.simps [simp del]

definition modeline_segment_face :: "theme \<Rightarrow> string \<Rightarrow> style option option" where
  "modeline_segment_face t name = (if is_modeline_face_name name then Some (modeline_walk t name) else None)"

definition theme_insert :: "string \<Rightarrow> style \<Rightarrow> theme \<Rightarrow> theme" where
  "theme_insert name s t = t\<lparr>by_capture := fmupd name s (by_capture t)\<rparr>"

definition theme_clear :: "theme \<Rightarrow> theme" where
  "theme_clear t = t\<lparr>by_capture := fmempty, theme_fallbacks := fmempty\<rparr>"

definition apply_entry :: "theme_entry \<Rightarrow> theme \<Rightarrow> theme" where
  "apply_entry e t =
     t\<lparr>theme_fallbacks :=
         (if fallbacks_is_empty (te_fallbacks e) then fmdrop (te_name e) (theme_fallbacks t)
          else fmupd (te_name e) (te_fallbacks e) (theme_fallbacks t)),
       by_capture := fmupd (te_name e) (te_style e) (by_capture t)\<rparr>"

definition theme_apply :: "entry_mode \<Rightarrow> theme_entry list \<Rightarrow> theme \<Rightarrow> theme" where
  "theme_apply mode entries t = fold apply_entry entries (if mode = ReplaceAll then theme_clear t else t)"

definition theme_commit :: "entry_mode \<Rightarrow> theme_entry list \<Rightarrow> theme \<Rightarrow> theme" where
  "theme_commit mode entries t =
     (case (case mode of
              ReplaceAll \<Rightarrow> (True, True)
            | MergeInto \<Rightarrow> (\<exists>e \<in> set entries. is_face_name (te_name e), \<exists>e \<in> set entries. \<not> is_face_name (te_name e))) of
        (any_face, any_syntax) \<Rightarrow>
          (let t1 = theme_apply mode entries t;
               t2 = (if any_syntax then t1\<lparr>syntax_epoch := syntax_epoch t1 + 1\<rparr> else t1)
           in if any_face then t2\<lparr>face_epoch := face_epoch t2 + 1\<rparr> else t2))"

text \<open>\<^verbatim>\<open>pmacs.theme.default\<close>.\<close>

definition set_default_style :: "style \<Rightarrow> theme \<Rightarrow> theme" where
  "set_default_style s t = t\<lparr>theme_default := s, syntax_epoch := syntax_epoch t + 1\<rparr>"

section \<open>Named themes\<close>

record named_theme =
  nt_description :: string
  nt_entries :: "theme_entry list"

record user_layer =
  ul_replaced :: "theme_entry list option"
  ul_merged :: "(string, theme_entry) fmap"

definition no_layer :: user_layer where
  "no_layer = \<lparr>ul_replaced = None, ul_merged = fmempty\<rparr>"

record theme_library =
  lib_themes :: "(string, named_theme) fmap"
  lib_user :: user_layer
  lib_loaded :: "string option"

definition library_new :: theme_library where
  "library_new = \<lparr>lib_themes = fmempty, lib_user = no_layer, lib_loaded = None\<rparr>"

definition theme_define :: "string \<Rightarrow> named_theme \<Rightarrow> theme_library \<Rightarrow> theme_library" where
  "theme_define name nt l = l\<lparr>lib_themes := fmupd name nt (lib_themes l)\<rparr>"

definition theme_names :: "theme_library \<Rightarrow> string list" where
  "theme_names l = sorted_list_of_fset (fmdom (lib_themes l))"

definition record_user :: "entry_mode \<Rightarrow> theme_entry list \<Rightarrow> theme_library \<Rightarrow> theme_library" where
  "record_user mode entries l =
     (case mode of
        ReplaceAll \<Rightarrow> l\<lparr>lib_user := \<lparr>ul_replaced = Some entries, ul_merged = fmempty\<rparr>\<rparr>
      | MergeInto \<Rightarrow>
          l\<lparr>lib_user := (lib_user l)\<lparr>ul_merged := fold (\<lambda>e. fmupd (te_name e) e) entries (ul_merged (lib_user l))\<rparr>\<rparr>)"

text \<open>The values of an ordered map, in the order of its keys.\<close>

definition values_of :: "(string, 'a) fmap \<Rightarrow> 'a list" where
  "values_of m = map (\<lambda>k. the (fmlookup m k)) (sorted_list_of_fset (fmdom m))"

definition theme_load :: "string \<Rightarrow> theme_library \<Rightarrow> theme \<Rightarrow> theme_library \<times> theme \<times> bool" where
  "theme_load name l t =
     (case fmlookup (lib_themes l) name of
        None \<Rightarrow> (l, t, False)
      | Some named \<Rightarrow>
          (let base = (case ul_replaced (lib_user l) of Some es \<Rightarrow> es | None \<Rightarrow> nt_entries named);
               entries = base @ values_of (ul_merged (lib_user l))
           in (l\<lparr>lib_loaded := Some name\<rparr>, theme_commit ReplaceAll entries t, True)))"

section \<open>The most specific entry\<close>

text \<open>The names the walk visits.\<close>

definition dot_prefix :: "string \<Rightarrow> string \<Rightarrow> bool" where
  "dot_prefix p name \<longleftrightarrow> p = name \<or> (\<exists>rest. name = p @ ''.'' @ rest)"

lemma dot_prefix_refl [simp]: "dot_prefix name name"
  by (simp add: dot_prefix_def)

lemma dot_prefix_step:
  "dot_prefix q name \<longleftrightarrow> q = name \<or> (\<exists>i. rfind_dot name = Some i \<and> dot_prefix q (take i name))"
proof
  assume q: "dot_prefix q name"
  show "q = name \<or> (\<exists>i. rfind_dot name = Some i \<and> dot_prefix q (take i name))"
  proof (cases "q = name")
    case False
    then obtain rest where r: "name = q @ ''.'' @ rest" using q by (auto simp: dot_prefix_def)
    then have "CHR ''.'' \<in> set name" by simp
    then obtain i where i: "rfind_dot name = Some i" using rfind_dot_None by fastforce
    have "name ! length q = CHR ''.''" "length q < length name" by (simp_all add: r)
    then have le: "length q \<le> i" using i by (meson linorder_not_le rfind_dot_Some)
    have "dot_prefix q (take i name)"
    proof (cases "length q = i")
      case True
      then show ?thesis by (simp add: r)
    next
      case False
      then have "take i name = q @ ''.'' @ take (i - Suc (length q)) rest"
        using le by (simp add: r Suc_diff_Suc take_Cons')
      then show ?thesis by (auto simp: dot_prefix_def)
    qed
    with i show ?thesis by blast
  qed simp
next
  assume "q = name \<or> (\<exists>i. rfind_dot name = Some i \<and> dot_prefix q (take i name))"
  then show "dot_prefix q name"
  proof
    assume "\<exists>i. rfind_dot name = Some i \<and> dot_prefix q (take i name)"
    then obtain i where i: "i < length name" "name ! i = CHR ''.''" and q: "dot_prefix q (take i name)"
      by (auto simp: rfind_dot_Some)
    from i have "name = take i name @ ''.'' @ drop (Suc i) name"
      by (metis append_Cons append_Nil append_take_drop_id Cons_nth_drop_Suc)
    with q show ?thesis unfolding dot_prefix_def by (metis append.assoc)
  qed simp
qed

lemma dot_prefix_length: "dot_prefix q name \<Longrightarrow> length q \<le> length name"
  by (auto simp: dot_prefix_def)

lemma walk_None: "walk m name = None \<longleftrightarrow> (\<forall>q. dot_prefix q name \<longrightarrow> fmlookup m q = None)"
proof (induction m name rule: walk.induct)
  case (1 m name)
  show ?case
  proof (cases "fmlookup m name")
    case None
    then show ?thesis
      using 1 by (subst walk.simps, subst dot_prefix_step) (auto split: option.splits)
  next
    case (Some s)
    then show ?thesis by (subst walk.simps) (auto intro!: exI [of _ name])
  qed
qed

lemma walk_Some:
  "walk m name = Some s \<longleftrightarrow>
   (\<exists>p. dot_prefix p name \<and> fmlookup m p = Some s \<and> (\<forall>q. dot_prefix q name \<and> length p < length q \<longrightarrow> fmlookup m q = None))"
  (is "_ \<longleftrightarrow> (\<exists>p. ?best m name p)")
proof (induction m name rule: walk.induct)
  case (1 m name)
  show ?case
  proof (cases "fmlookup m name")
    case (Some s')
    have "?best m name p" if "walk m name = Some s" "p = name" for p
      using that Some by (auto simp: walk.simps [of m name] dest: dot_prefix_length)
    moreover have "walk m name = Some s" if "?best m name p" for p
    proof -
      have "\<not> length p < length name" using that Some by fastforce
      then have "p = name" using that by (auto simp: dot_prefix_def)
      then show ?thesis using that Some by (subst walk.simps) simp
    qed
    ultimately show ?thesis by blast
  next
    case None
    show ?thesis
    proof (cases "rfind_dot name")
      case nd: None
      then have "dot_prefix q name \<longleftrightarrow> q = name" for q by (subst dot_prefix_step) simp
      then show ?thesis using None nd by (subst walk.simps) auto
    next
      case (Some i)
      have "?best m name p \<longleftrightarrow> ?best m (take i name) p" for p
        using None Some dot_prefix_step [of _ name] by auto
      then show ?thesis using 1 [OF None Some] None Some by (subst walk.simps) simp
    qed
  qed
qed

section \<open>What entries leave\<close>

definition last_entry :: "theme_entry list \<Rightarrow> string \<Rightarrow> theme_entry option" where
  "last_entry es n = List.find (\<lambda>e. te_name e = n) (rev es)"

lemma find_append: "List.find P (xs @ ys) = (case List.find P xs of Some x \<Rightarrow> Some x | None \<Rightarrow> List.find P ys)"
  by (induction xs) auto

lemma last_entry_append:
  "last_entry (xs @ ys) n = (case last_entry ys n of Some e \<Rightarrow> Some e | None \<Rightarrow> last_entry xs n)"
  by (simp add: last_entry_def find_append split: option.split)

lemma last_entry_Nil [simp]: "last_entry [] n = None"
  by (simp add: last_entry_def)

lemma apply_entries_fixed:
  "theme_default (fold apply_entry es t) = theme_default t \<and> syntax_epoch (fold apply_entry es t) = syntax_epoch t \<and>
   face_epoch (fold apply_entry es t) = face_epoch t"
  by (induction es arbitrary: t) (simp_all add: apply_entry_def)

lemma apply_entries_capture:
  "fmlookup (by_capture (fold apply_entry es t)) n =
   (case last_entry es n of Some e \<Rightarrow> Some (te_style e) | None \<Rightarrow> fmlookup (by_capture t) n)"
proof (induction es rule: rev_induct)
  case (snoc e es)
  then show ?case
    by (cases "te_name e = n") (simp_all add: last_entry_append last_entry_def apply_entry_def)
qed simp

lemma apply_entries_fallbacks:
  "fmlookup (theme_fallbacks (fold apply_entry es t)) n =
   (case last_entry es n of
      Some e \<Rightarrow> if fallbacks_is_empty (te_fallbacks e) then None else Some (te_fallbacks e)
    | None \<Rightarrow> fmlookup (theme_fallbacks t) n)"
proof (induction es rule: rev_induct)
  case (snoc e es)
  then show ?case
    by (cases "te_name e = n") (simp_all add: last_entry_append last_entry_def apply_entry_def)
qed simp

lemmas theme_commit_parts = theme_commit_def theme_apply_def theme_clear_def apply_entries_fixed

lemma commit_epochs:
  "syntax_epoch t \<le> syntax_epoch (theme_commit mode es t) \<and> face_epoch t \<le> face_epoch (theme_commit mode es t)"
  by (cases mode) (auto simp: theme_commit_parts Let_def)

text \<open>A commit that leaves both epochs changes nothing.\<close>

lemma commit_same_epochs:
  assumes "syntax_epoch (theme_commit mode es t) = syntax_epoch t"
    and "face_epoch (theme_commit mode es t) = face_epoch t"
  shows "theme_commit mode es t = t"
proof (cases mode)
  case ReplaceAll
  then show ?thesis using assms by (simp add: theme_commit_parts Let_def)
next
  case MergeInto
  then have "es = []"
    using assms by (cases es) (auto simp: theme_commit_parts apply_entry_def Let_def split: if_splits)
  then show ?thesis using MergeInto by (simp add: theme_commit_def theme_apply_def)
qed

section \<open>The user layer and the calls it stands for\<close>

text \<open>A log of \<^verbatim>\<open>set\<close> and \<^verbatim>\<open>merge\<close> calls as the entries it applies over \<open>base\<close>.\<close>

type_synonym theme_call = "entry_mode \<times> theme_entry list"

fun replayed :: "theme_entry list \<Rightarrow> theme_call list \<Rightarrow> theme_entry list" where
  "replayed base [] = base"
| "replayed base ((mode, es) # calls) = replayed (if mode = ReplaceAll then es else base @ es) calls"

lemma replayed_snoc:
  "replayed base (calls @ [(mode, es)]) = (if mode = ReplaceAll then es else replayed base calls @ es)"
  by (induction base calls rule: replayed.induct) simp_all

lemma fmupd_entries:
  "fmlookup (fold (\<lambda>e. fmupd (te_name e) e) es m) n =
   (case last_entry es n of Some e \<Rightarrow> Some e | None \<Rightarrow> fmlookup m n)"
proof (induction es rule: rev_induct)
  case (snoc e es)
  then show ?case by (cases "te_name e = n") (simp_all add: last_entry_append last_entry_def)
qed simp

definition named_by_keys :: "(string, theme_entry) fmap \<Rightarrow> bool" where
  "named_by_keys m \<longleftrightarrow> (\<forall>k e. fmlookup m k = Some e \<longrightarrow> te_name e = k)"

lemma named_by_keys_one: "named_by_keys m \<Longrightarrow> named_by_keys (fmupd (te_name e) e m)"
  by (simp add: named_by_keys_def)

lemma named_by_keys_upd: "named_by_keys m \<Longrightarrow> named_by_keys (fold (\<lambda>e. fmupd (te_name e) e) es m)"
  by (induction es arbitrary: m) (simp_all add: named_by_keys_one)

lemma last_entry_values:
  assumes "named_by_keys m"
  shows "last_entry (values_of m) n = fmlookup m n"
proof -
  let ?ks = "rev (sorted_list_of_fset (fmdom m))"
  have dom: "k \<in> set ?ks \<longleftrightarrow> (\<exists>e. fmlookup m k = Some e)" for k
    by (simp add: fmlookup_dom_iff)
  have "List.find (\<lambda>e. te_name e = n) (map (\<lambda>k. the (fmlookup m k)) ks) =
      (if n \<in> set ks then Some (the (fmlookup m n)) else None)"
    if "\<forall>k \<in> set ks. te_name (the (fmlookup m k)) = k" for ks
    using that by (induction ks) auto
  moreover have "\<forall>k \<in> set ?ks. te_name (the (fmlookup m k)) = k"
    using assms dom unfolding named_by_keys_def by (metis option.sel)
  ultimately have "last_entry (values_of m) n = (if n \<in> set ?ks then Some (the (fmlookup m n)) else None)"
    by (simp only: last_entry_def values_of_def rev_map)
  then show ?thesis
    using dom [of n] by (cases "fmlookup m n") (simp_all del: set_rev)
qed

text \<open>The layer after a log: its \<^verbatim>\<open>set\<close> and the merges since stand for the whole log.\<close>

definition after_calls :: "theme_call list \<Rightarrow> theme_library \<Rightarrow> theme_library" where
  "after_calls calls l = fold (\<lambda>(mode, es). record_user mode es) calls l"

lemma after_calls_layer:
  assumes "lib_user l = no_layer"
  shows "named_by_keys (ul_merged (lib_user (after_calls calls l))) \<and> lib_themes (after_calls calls l) = lib_themes l \<and>
    last_entry (replayed base calls) n =
      (case fmlookup (ul_merged (lib_user (after_calls calls l))) n of
         Some e \<Rightarrow> Some e
       | None \<Rightarrow> last_entry (case ul_replaced (lib_user (after_calls calls l)) of Some es \<Rightarrow> es | None \<Rightarrow> base) n)"
proof (induction calls rule: rev_induct)
  case Nil
  then show ?case using assms by (simp add: after_calls_def no_layer_def named_by_keys_def)
next
  case (snoc c calls)
  obtain mode es where c: "c = (mode, es)" by (cases c)
  have step: "after_calls (calls @ [(mode, es)]) l = record_user mode es (after_calls calls l)"
    by (simp add: after_calls_def)
  show ?case
  proof (cases mode)
    case ReplaceAll
    then show ?thesis using snoc.IH unfolding c step
      by (simp add: record_user_def named_by_keys_def replayed_snoc)
  next
    case MergeInto
    then show ?thesis using snoc.IH unfolding c step
      by (auto simp: record_user_def named_by_keys_upd replayed_snoc last_entry_append fmupd_entries
          split: option.splits)
  qed
qed

lemma commit_capture:
  "fmlookup (by_capture (theme_commit mode es t)) n =
   (case last_entry es n of Some e \<Rightarrow> Some (te_style e)
    | None \<Rightarrow> if mode = ReplaceAll then None else fmlookup (by_capture t) n)"
  by (simp add: theme_commit_def Let_def theme_apply_def apply_entries_capture theme_clear_def split: option.splits prod.splits)

lemma commit_fallbacks:
  "fmlookup (theme_fallbacks (theme_commit mode es t)) n =
   (case last_entry es n of
      Some e \<Rightarrow> if fallbacks_is_empty (te_fallbacks e) then None else Some (te_fallbacks e)
    | None \<Rightarrow> if mode = ReplaceAll then None else fmlookup (theme_fallbacks t) n)"
  by (simp add: theme_commit_def Let_def theme_apply_def apply_entries_fallbacks theme_clear_def split: option.splits prod.splits)

lemma commit_default: "theme_default (theme_commit mode es t) = theme_default t"
  by (simp add: theme_commit_def Let_def theme_apply_def apply_entries_fixed theme_clear_def split: prod.splits)

text \<open>Committing the calls one by one over a loaded theme.\<close>

definition commit_calls :: "theme_call list \<Rightarrow> theme \<Rightarrow> theme" where
  "commit_calls calls t = fold (\<lambda>(mode, es). theme_commit mode es) calls t"

lemma commit_calls_contents:
  "by_capture (commit_calls calls (theme_commit ReplaceAll base t)) = by_capture (theme_commit ReplaceAll (replayed base calls) t) \<and>
   theme_fallbacks (commit_calls calls (theme_commit ReplaceAll base t)) =
     theme_fallbacks (theme_commit ReplaceAll (replayed base calls) t) \<and>
   theme_default (commit_calls calls (theme_commit ReplaceAll base t)) = theme_default t"
proof (induction calls rule: rev_induct)
  case (snoc c calls)
  obtain mode es where c: "c = (mode, es)" by (cases c)
  show ?case
    using snoc.IH
    by (auto simp: c commit_calls_def replayed_snoc commit_default intro!: fmap_ext
        simp: commit_capture commit_fallbacks last_entry_append split: option.splits)
qed (simp add: commit_calls_def commit_default)

lemma same_last_entries:
  assumes "\<And>n. last_entry xs n = last_entry ys n"
  shows "by_capture (theme_commit ReplaceAll xs t) = by_capture (theme_commit ReplaceAll ys t) \<and>
    theme_fallbacks (theme_commit ReplaceAll xs t) = theme_fallbacks (theme_commit ReplaceAll ys t)"
  by (auto intro!: fmap_ext simp: commit_capture commit_fallbacks assms)

lemma load_replays:
  assumes user: "lib_user l = no_layer" and named: "fmlookup (lib_themes l) name = Some nt"
    and load: "theme_load name (after_calls calls l) t = (l', t', ok)"
  shows "ok \<and> lib_loaded l' = Some name \<and>
    by_capture t' = by_capture (commit_calls calls (theme_commit ReplaceAll (nt_entries nt) t)) \<and>
    theme_fallbacks t' = theme_fallbacks (commit_calls calls (theme_commit ReplaceAll (nt_entries nt) t)) \<and>
    theme_default t' = theme_default t"
proof -
  let ?u = "lib_user (after_calls calls l)"
  let ?base = "case ul_replaced ?u of Some es \<Rightarrow> es | None \<Rightarrow> nt_entries nt"
  note layer = after_calls_layer [OF user, of calls "nt_entries nt"]
  have t': "t' = theme_commit ReplaceAll (?base @ values_of (ul_merged ?u)) t" "ok" "lib_loaded l' = Some name"
    using load layer named by (auto simp: theme_load_def Let_def)
  have "last_entry (?base @ values_of (ul_merged ?u)) n = last_entry (replayed (nt_entries nt) calls) n" for n
    using layer [of n] by (simp add: last_entry_append last_entry_values)
  from same_last_entries [OF this, of t] commit_calls_contents [of calls "nt_entries nt" t] t'
  show ?thesis by (simp add: commit_default)
qed

end
