(* ===== verification/Cell_Grid.thy ===== *)
theory Cell_Grid
  imports Cell Checked
begin

text \<open>
  The grid a frame is painted into and the diff of two frames, \<^verbatim>\<open>src/src/cell.rs\<close>, with the span of the
  wire, \<^verbatim>\<open>DiffSpan\<close> of \<^verbatim>\<open>src/pmacs-protocol/src/cell.rs\<close>. The borrowed slice is a list; \<open>None\<close> is a panic,
  of a failed \<^verbatim>\<open>debug_assert!\<close> too.
\<close>

section \<open>The grid\<close>

definition default_cell :: cell where
  "default_cell = \<lparr>cell_glyph = GChar 32, cell_style = default_style, cell_attachment = None\<rparr>"

record cell_grid =
  grid_cells :: "cell list"
  grid_stride :: nat
  grid_size :: cell_size

text \<open>The index both accessors compute, after their assertions.\<close>

definition grid_index :: "cell_coord \<Rightarrow> cell_grid \<Rightarrow> nat option" where
  "grid_index c g =
     (if coord_row c < size_rows (grid_size g) \<and> coord_col c < size_cols (grid_size g)
      then Some (coord_row c * grid_stride g + coord_col c) else None)"

definition grid_get :: "cell_coord \<Rightarrow> cell_grid \<Rightarrow> cell option" where
  "grid_get c g = do { i \<leftarrow> grid_index c g; nth_opt (grid_cells g) i }"

text \<open>A write through the reference that \<^verbatim>\<open>at\<close> returns.\<close>

definition grid_put :: "cell_coord \<Rightarrow> cell \<Rightarrow> cell_grid \<Rightarrow> cell_grid option" where
  "grid_put c x g = do {
     i \<leftarrow> grid_index c g;
     cells \<leftarrow> upd_opt (grid_cells g) i x;
     Some (g\<lparr>grid_cells := cells\<rparr>)
   }"

fun clear_columns :: "nat \<Rightarrow> nat list \<Rightarrow> cell_grid \<Rightarrow> cell_grid option" where
  "clear_columns row [] g = Some g"
| "clear_columns row (col # cols) g = do {
     g' \<leftarrow> grid_put (coord_new row col) default_cell g;
     clear_columns row cols g'
   }"

fun clear_grid_rows :: "nat list \<Rightarrow> cell_grid \<Rightarrow> cell_grid option" where
  "clear_grid_rows [] g = Some g"
| "clear_grid_rows (row # rows) g = do {
     g' \<leftarrow> clear_columns row [0..<size_cols (grid_size g)] g;
     clear_grid_rows rows g'
   }"

definition grid_clear :: "cell_grid \<Rightarrow> cell_grid option" where
  "grid_clear g = clear_grid_rows [0..<size_rows (grid_size g)] g"

section \<open>The diff\<close>

record diff_span =
  span_start :: cell_coord
  span_cells :: "cell list"

definition same_at :: "cell list \<Rightarrow> cell list \<Rightarrow> nat \<Rightarrow> bool option" where
  "same_at prev new i = do { p \<leftarrow> nth_opt prev i; n \<leftarrow> nth_opt new i; Some (p = n) }"

text \<open>The inner loop: the cells of one run of changes and the column it stops at.\<close>

function diff_run :: "cell list \<Rightarrow> cell list \<Rightarrow> nat \<Rightarrow> nat \<Rightarrow> nat \<Rightarrow> (cell list \<times> nat) option" where
  "diff_run prev new row_offset cols col =
     (if \<not> col < cols then Some ([], col)
      else do {
        same \<leftarrow> same_at prev new (row_offset + col);
        if same then Some ([], col)
        else do {
          x \<leftarrow> nth_opt new (row_offset + col);
          (xs, stop) \<leftarrow> diff_run prev new row_offset cols (Suc col);
          Some (x # xs, stop)
        }
      })"
  by pat_completeness auto
termination
  by (relation "measure (\<lambda>(_, _, _, cols, col). cols - col)") auto

declare diff_run.simps [simp del]

lemma diff_run_advances: "diff_run prev new off cols col = Some (xs, stop) \<Longrightarrow> stop = col + length xs"
proof (induction prev new off cols col arbitrary: xs stop rule: diff_run.induct)
  case (1 prev new off cols col)
  from "1.prems" show ?case
    by (subst (asm) diff_run.simps)
      (auto split: if_splits bind_splits dest!: "1.IH" [rotated 3])
qed

lemma diff_run_progress:
  "diff_run prev new off cols col = Some (xs, stop) \<Longrightarrow> same_at prev new (off + col) = Some False \<Longrightarrow> col < cols \<Longrightarrow>
   col < stop"
  by (frule diff_run_advances, subst (asm) diff_run.simps) (auto split: bind_splits if_splits)

text \<open>The loop over the columns of a row.\<close>

function diff_row :: "cell list \<Rightarrow> cell list \<Rightarrow> nat \<Rightarrow> nat \<Rightarrow> nat \<Rightarrow> nat \<Rightarrow> diff_span list option" where
  "diff_row prev new row row_offset cols col =
     (if \<not> col < cols then Some []
      else case same_at prev new (row_offset + col) of
          None \<Rightarrow> None
        | Some True \<Rightarrow> diff_row prev new row row_offset cols (Suc col)
        | Some False \<Rightarrow>
            (case diff_run prev new row_offset cols col of
               None \<Rightarrow> None
             | Some (xs, stop) \<Rightarrow> do {
                 spans \<leftarrow> diff_row prev new row row_offset cols stop;
                 Some (\<lparr>span_start = coord_new row col, span_cells = xs\<rparr> # spans)
               }))"
  by pat_completeness auto
termination
  by (relation "measure (\<lambda>(_, _, _, _, cols, col). cols - col)") (auto dest: diff_run_progress)

declare diff_row.simps [simp del]

fun diff_rows :: "cell list \<Rightarrow> cell list \<Rightarrow> nat \<Rightarrow> nat \<Rightarrow> nat list \<Rightarrow> diff_span list option" where
  "diff_rows prev new stride cols [] = Some []"
| "diff_rows prev new stride cols (row # rows) = do {
     here \<leftarrow> diff_row prev new row (row * stride) cols 0;
     rest \<leftarrow> diff_rows prev new stride cols rows;
     Some (here @ rest)
   }"

definition diff :: "cell list \<Rightarrow> cell list \<Rightarrow> nat \<Rightarrow> cell_size \<Rightarrow> diff_span list option" where
  "diff prev new stride sz =
     (if stride * size_rows sz \<le> length prev \<and> stride * size_rows sz \<le> length new
      then diff_rows prev new stride (size_cols sz) [0..<size_rows sz] else None)"

section \<open>What a diff says\<close>

text \<open>A span as the writes it asks for, and a frame after writes.\<close>

definition span_writes :: "nat \<Rightarrow> diff_span \<Rightarrow> (nat \<times> cell) list" where
  "span_writes stride s = enumerate (coord_row (span_start s) * stride + coord_col (span_start s)) (span_cells s)"

definition write_cells :: "(nat \<times> cell) list \<Rightarrow> cell list \<Rightarrow> cell list" where
  "write_cells ws cells = fold (\<lambda>(i, x) xs. xs[i := x]) ws cells"

definition visible_indices :: "nat \<Rightarrow> cell_size \<Rightarrow> nat list" where
  "visible_indices stride sz = concat (map (\<lambda>r. map (\<lambda>c. r * stride + c) [0..<size_cols sz]) [0..<size_rows sz])"

text \<open>The reference: the indices that differ, in order, with the new cells.\<close>

definition changes :: "cell list \<Rightarrow> cell list \<Rightarrow> nat list \<Rightarrow> (nat \<times> cell) list" where
  "changes prev new is = map (\<lambda>i. (i, new ! i)) (filter (\<lambda>i. prev ! i \<noteq> new ! i) is)"

lemma changes_append [simp]: "changes prev new (is @ js) = changes prev new is @ changes prev new js"
  by (simp add: changes_def)

lemma changes_Nil [simp]: "changes prev new [] = []"
  by (simp add: changes_def)

lemma changes_Cons [simp]:
  "changes prev new (i # is) = (if prev ! i \<noteq> new ! i then (i, new ! i) # changes prev new is else changes prev new is)"
  by (simp add: changes_def)

lemma same_at_Some: "i < length prev \<Longrightarrow> i < length new \<Longrightarrow> same_at prev new i = Some (prev ! i = new ! i)"
  by (simp add: same_at_def returns_nth_opt)

lemma diff_run_changes:
  assumes "off + cols \<le> length prev" and "off + cols \<le> length new" and "col \<le> cols"
  shows "\<exists>xs stop. diff_run prev new off cols col = Some (xs, stop) \<and> col \<le> stop \<and> stop \<le> cols \<and>
    enumerate (off + col) xs = changes prev new (map ((+) off) [col..<stop]) \<and> length xs = stop - col \<and>
    (\<forall>j. col \<le> j \<and> j < stop \<longrightarrow> prev ! (off + j) \<noteq> new ! (off + j)) \<and>
    (stop < cols \<longrightarrow> prev ! (off + stop) = new ! (off + stop))"
  using assms
proof (induction prev new off cols col rule: diff_run.induct)
  case (1 prev new off cols col)
  show ?case
  proof (cases "col < cols")
    case False
    then show ?thesis using "1.prems" by (subst diff_run.simps) auto
  next
    case True
    then have at: "same_at prev new (off + col) = Some (prev ! (off + col) = new ! (off + col))"
      "nth_opt new (off + col) = Some (new ! (off + col))"
      using "1.prems" by (simp_all add: same_at_Some returns_nth_opt)
    show ?thesis
    proof (cases "prev ! (off + col) = new ! (off + col)")
      case eq: True
      then show ?thesis using True at "1.prems" by (subst diff_run.simps) auto
    next
      case neq: False
      obtain xs stop where r: "diff_run prev new off cols (Suc col) = Some (xs, stop)" "Suc col \<le> stop" "stop \<le> cols"
        "enumerate (off + Suc col) xs = changes prev new (map ((+) off) [Suc col..<stop])" "length xs = stop - Suc col"
        "\<forall>j. Suc col \<le> j \<and> j < stop \<longrightarrow> prev ! (off + j) \<noteq> new ! (off + j)"
        "stop < cols \<longrightarrow> prev ! (off + stop) = new ! (off + stop)"
        using "1.IH" [OF _ at(1) _ at(2)] True neq "1.prems" by auto
      have run: "diff_run prev new off cols col = Some (new ! (off + col) # xs, stop)"
        using True at neq r(1) by (subst diff_run.simps) simp
      have "\<forall>j. col \<le> j \<and> j < stop \<longrightarrow> prev ! (off + j) \<noteq> new ! (off + j)"
        using r(6) neq by (metis Suc_leI le_neq_implies_less)
      moreover have "[col..<stop] = col # [Suc col..<stop]"
        using r(2) by (simp add: upt_conv_Cons)
      ultimately show ?thesis
        using run r neq by (intro exI [of _ "new ! (off + col) # xs"] exI [of _ stop]) simp
    qed
  qed
qed

text \<open>Spans of one row that start at or after a column: each is a maximal run of changes.\<close>

definition maximal_run :: "cell list \<Rightarrow> cell list \<Rightarrow> nat \<Rightarrow> nat \<Rightarrow> diff_span \<Rightarrow> bool" where
  "maximal_run prev new stride cols s \<longleftrightarrow>
     (let r = coord_row (span_start s) * stride; c = coord_col (span_start s); e = c + length (span_cells s)
      in span_cells s \<noteq> [] \<and> e \<le> cols \<and> span_cells s = map (\<lambda>j. new ! (r + j)) [c..<e] \<and>
         (\<forall>j. c \<le> j \<and> j < e \<longrightarrow> prev ! (r + j) \<noteq> new ! (r + j)) \<and>
         (e < cols \<longrightarrow> prev ! (r + e) = new ! (r + e)) \<and>
         (0 < c \<longrightarrow> prev ! (r + (c - 1)) = new ! (r + (c - 1))))"

lemma diff_row_changes:
  assumes "row * stride + cols \<le> length prev" and "row * stride + cols \<le> length new"
    and "col \<le> cols" and "0 < col \<Longrightarrow> col < cols \<Longrightarrow> prev ! (row * stride + (col - 1)) = new ! (row * stride + (col - 1)) \<or>
      prev ! (row * stride + col) = new ! (row * stride + col)"
  shows "\<exists>spans. diff_row prev new row (row * stride) cols col = Some spans \<and>
    concat (map (span_writes stride) spans) = changes prev new (map ((+) (row * stride)) [col..<cols]) \<and>
    (\<forall>s \<in> set spans. maximal_run prev new stride cols s)"
  using assms
proof (induction "cols - col" arbitrary: col rule: less_induct)
  case less
  let ?off = "row * stride"
  show ?case
  proof (cases "col < cols")
    case False
    then show ?thesis by (subst diff_row.simps) (use less.prems in simp)
  next
    case True
    then have at: "same_at prev new (?off + col) = Some (prev ! (?off + col) = new ! (?off + col))"
      using less.prems by (simp add: same_at_Some)
    show ?thesis
    proof (cases "prev ! (?off + col) = new ! (?off + col)")
      case eq: True
      have "\<exists>spans. diff_row prev new row ?off cols (Suc col) = Some spans \<and>
        concat (map (span_writes stride) spans) = changes prev new (map ((+) ?off) [Suc col..<cols]) \<and>
        (\<forall>s \<in> set spans. maximal_run prev new stride cols s)"
        using less.hyps [of "Suc col"] True eq less.prems by simp
      moreover have "[col..<cols] = col # [Suc col..<cols]"
        using True by (rule upt_conv_Cons)
      ultimately show ?thesis
        using True at eq by (subst diff_row.simps) simp
    next
      case neq: False
      obtain xs stop where r: "diff_run prev new ?off cols col = Some (xs, stop)" "col \<le> stop" "stop \<le> cols"
        "enumerate (?off + col) xs = changes prev new (map ((+) ?off) [col..<stop])" "length xs = stop - col"
        "\<forall>j. col \<le> j \<and> j < stop \<longrightarrow> prev ! (?off + j) \<noteq> new ! (?off + j)"
        "stop < cols \<longrightarrow> prev ! (?off + stop) = new ! (?off + stop)"
        using diff_run_changes [of ?off cols prev new col] less.prems by auto
      have pos: "col < stop"
        using diff_run_progress [OF r(1)] at neq True by simp
      have "\<exists>spans. diff_row prev new row ?off cols stop = Some spans \<and>
        concat (map (span_writes stride) spans) = changes prev new (map ((+) ?off) [stop..<cols]) \<and>
        (\<forall>s \<in> set spans. maximal_run prev new stride cols s)"
        by (rule less.hyps) (use pos True r(3,7) less.prems(1,2) in simp_all)
      then obtain spans where s: "diff_row prev new row ?off cols stop = Some spans"
        "concat (map (span_writes stride) spans) = changes prev new (map ((+) ?off) [stop..<cols])"
        "\<forall>s \<in> set spans. maximal_run prev new stride cols s"
        by blast
      let ?s = "\<lparr>span_start = coord_new row col, span_cells = xs\<rparr>"
      have xs: "xs = map (\<lambda>j. new ! (?off + j)) [col..<stop]"
      proof -
        have "map snd (enumerate (?off + col) xs) = map snd (changes prev new (map ((+) ?off) [col..<stop]))"
          using r(4) by simp
        moreover have "filter (\<lambda>j. prev ! (?off + j) \<noteq> new ! (?off + j)) [col..<stop] = [col..<stop]"
          using r(6) by (simp add: filter_id_conv)
        ultimately show ?thesis by (simp add: changes_def filter_map comp_def)
      qed
      have "maximal_run prev new stride cols ?s"
        using r(3,5,6,7) pos xs neq less.prems(4) True by (auto simp: maximal_run_def coord_new_def)
      moreover have "[col..<cols] = [col..<stop] @ [stop..<cols]"
        using r(2,3) by (metis le_add_diff_inverse upt_add_eq_append)
      ultimately show ?thesis
        using True at neq r(1,4) s by (subst diff_row.simps) (simp add: span_writes_def coord_new_def)
    qed
  qed
qed

lemma diff_rows_changes:
  assumes "\<forall>r \<in> set rows. r * stride + cols \<le> length prev \<and> r * stride + cols \<le> length new"
  shows "\<exists>spans. diff_rows prev new stride cols rows = Some spans \<and>
    concat (map (span_writes stride) spans) =
      changes prev new (concat (map (\<lambda>r. map (\<lambda>c. r * stride + c) [0..<cols]) rows)) \<and>
    (\<forall>s \<in> set spans. maximal_run prev new stride cols s)"
  using assms
proof (induction rows)
  case (Cons row rows)
  obtain xs where xs: "diff_row prev new row (row * stride) cols 0 = Some xs"
    "concat (map (span_writes stride) xs) = changes prev new (map ((+) (row * stride)) [0..<cols])"
    "\<forall>s \<in> set xs. maximal_run prev new stride cols s"
    using diff_row_changes [of row stride cols prev new 0] Cons.prems by auto
  obtain ys where ys: "diff_rows prev new stride cols rows = Some ys"
    "concat (map (span_writes stride) ys) =
      changes prev new (concat (map (\<lambda>r. map (\<lambda>c. r * stride + c) [0..<cols]) rows))"
    "\<forall>s \<in> set ys. maximal_run prev new stride cols s"
    using Cons.IH Cons.prems by auto
  show ?case using xs ys by auto
qed simp

text \<open>The grid fits its slice: every index a visible coordinate has is inside.\<close>

definition fits :: "nat \<Rightarrow> cell_size \<Rightarrow> 'a list \<Rightarrow> bool" where
  "fits stride sz xs \<longleftrightarrow> size_cols sz \<le> stride \<and> stride * size_rows sz \<le> length xs"

lemma fits_row: "fits stride sz xs \<Longrightarrow> r < size_rows sz \<Longrightarrow> r * stride + size_cols sz \<le> length xs"
proof -
  assume a: "fits stride sz xs" "r < size_rows sz"
  then have "Suc r * stride \<le> size_rows sz * stride" by (intro mult_le_mono1) simp
  with a show ?thesis by (simp add: fits_def mult.commute)
qed

lemma diff_ok:
  assumes "fits stride sz prev" and "fits stride sz new"
  shows "\<exists>spans. diff prev new stride sz = Some spans \<and>
    concat (map (span_writes stride) spans) = changes prev new (visible_indices stride sz) \<and>
    (\<forall>s \<in> set spans. maximal_run prev new stride (size_cols sz) s)"
proof -
  have "\<forall>r \<in> set [0..<size_rows sz]. r * stride + size_cols sz \<le> length prev \<and> r * stride + size_cols sz \<le> length new"
    using fits_row assms by auto
  from diff_rows_changes [OF this] show ?thesis
    using assms by (simp add: diff_def visible_indices_def fits_def)
qed

section \<open>Applying the changes\<close>

lemma write_cells_Nil [simp]: "write_cells [] xs = xs"
  and write_cells_Cons [simp]: "write_cells ((i, x) # ws) xs = write_cells ws (xs[i := x])"
  by (simp_all add: write_cells_def)

lemma length_write_cells [simp]: "length (write_cells ws xs) = length xs"
  by (induction ws arbitrary: xs) auto

lemma write_cells_nth:
  "j < length xs \<Longrightarrow> write_cells (map (\<lambda>i. (i, new ! i)) is) xs ! j = (if j \<in> set is then new ! j else xs ! j)"
  by (induction "is" arbitrary: xs) (auto simp: nth_list_update)

lemma write_changes_nth:
  "j < length prev \<Longrightarrow> write_cells (changes prev new is) prev ! j = (if j \<in> set is then new ! j else prev ! j)"
  by (auto simp: changes_def write_cells_nth)

lemma in_visible:
  "i \<in> set (visible_indices stride sz) \<longleftrightarrow>
   (\<exists>r < size_rows sz. r * stride \<le> i \<and> i < r * stride + size_cols sz)"
  by (auto simp: visible_indices_def add.commute)

lemma visible_indices_all: "set (visible_indices (size_cols sz) sz) = {..<size_rows sz * size_cols sz}"
proof (intro equalityI subsetI)
  fix i assume "i \<in> set (visible_indices (size_cols sz) sz)"
  then obtain r where r: "r < size_rows sz" "i < r * size_cols sz + size_cols sz"
    by (auto simp: in_visible)
  then have "Suc r * size_cols sz \<le> size_rows sz * size_cols sz" by (intro mult_le_mono1) simp
  with r show "i \<in> {..<size_rows sz * size_cols sz}" by simp
next
  fix i assume i: "i \<in> {..<size_rows sz * size_cols sz}"
  then have "0 < size_cols sz" by (auto intro: gr0I)
  then have "i < i div size_cols sz * size_cols sz + size_cols sz"
    using dividend_less_div_times [of "size_cols sz" i] by (simp add: add.commute)
  moreover have "i div size_cols sz < size_rows sz" using i by (simp add: less_mult_imp_div_less)
  ultimately show "i \<in> set (visible_indices (size_cols sz) sz)"
    using div_times_less_eq_dividend [of i "size_cols sz"] by (auto simp: in_visible)
qed

text \<open>When every cell is visible, the changes turn the old frame into the new one.\<close>

lemma write_changes_whole:
  assumes "length prev = size_rows sz * size_cols sz" and "length new = length prev"
  shows "write_cells (changes prev new (visible_indices (size_cols sz) sz)) prev = new"
  by (rule nth_equalityI) (use assms in \<open>simp_all add: write_changes_nth visible_indices_all\<close>)

end
