(* ===== verification/Color_Depth.thy ===== *)
theory Color_Depth
  imports Theme Cell_Grid
begin

unbundle bit_operations_syntax

text \<open>
  What a colour becomes on a terminal that shows fewer, \<^verbatim>\<open>src/src/color_depth.rs\<close>: the palette, the nearest
  colour, the map built from a theme, and the reduction of the spans of a frame to sixteen colours.
\<close>

section \<open>Depths\<close>

datatype color_depth = Sixteen | TwoFiftySix | TrueColor

text \<open>The derived order, lowest first.\<close>

fun depth_rank :: "color_depth \<Rightarrow> nat" where
  "depth_rank Sixteen = 0"
| "depth_rank TwoFiftySix = 1"
| "depth_rank TrueColor = 2"

instantiation color_depth :: linorder
begin

definition less_eq_color_depth :: "color_depth \<Rightarrow> color_depth \<Rightarrow> bool" where
  "less_eq_color_depth a b \<longleftrightarrow> depth_rank a \<le> depth_rank b"

definition less_color_depth :: "color_depth \<Rightarrow> color_depth \<Rightarrow> bool" where
  "less_color_depth a b \<longleftrightarrow> depth_rank a < depth_rank b"

instance
proof
  show "x = y" if "x \<le> y" "y \<le> x" for x y :: color_depth
    using that by (cases x; cases y) (simp_all add: less_eq_color_depth_def)
qed (auto simp: less_eq_color_depth_def less_color_depth_def)

end

definition is_digit_char :: "char \<Rightarrow> bool" where
  "is_digit_char c \<longleftrightarrow> c \<in> set ''0123456789''"

definition depth_detect :: "string option \<Rightarrow> color_depth" where
  "depth_detect term_name =
     (case term_name of
        None \<Rightarrow> TrueColor
      | Some t \<Rightarrow>
          if t = ''linux'' \<or> t = ''xterm'' \<or> t = ''screen'' then Sixteen
          else if string_starts_with ''vt'' t \<and> (case drop 2 t of c # _ \<Rightarrow> is_digit_char c | [] \<Rightarrow> False) then Sixteen
          else TrueColor)"

definition depth_from_setting :: "string \<Rightarrow> color_depth option" where
  "depth_from_setting v =
     (if v = ''truecolor'' then Some TrueColor else if v = ''256'' then Some TwoFiftySix
      else if v = ''16'' then Some Sixteen else None)"

definition depth_effective :: "color_depth option \<Rightarrow> color_depth \<Rightarrow> color_depth" where
  "depth_effective setting detected = (case setting of None \<Rightarrow> detected | Some s \<Rightarrow> min s detected)"

definition depth_attached :: "color_depth option \<Rightarrow> bool \<Rightarrow> color_depth" where
  "depth_attached setting true_color =
     (case depth_effective setting (if true_color then TrueColor else TwoFiftySix) of
        TrueColor \<Rightarrow> TrueColor | _ \<Rightarrow> TwoFiftySix)"

fun max_index :: "color_depth \<Rightarrow> byte option" where
  "max_index Sixteen = Some 15"
| "max_index TwoFiftySix = Some 255"
| "max_index TrueColor = None"

section \<open>The palette\<close>

type_synonym rgb = "byte \<times> byte \<times> byte"

definition ANSI16 :: "rgb list" where
  "ANSI16 =
     [(0, 0, 0), (205, 49, 49), (13, 188, 121), (229, 229, 16), (36, 114, 200), (188, 63, 188), (17, 168, 205),
      (229, 229, 229), (102, 102, 102), (241, 76, 76), (35, 209, 139), (245, 245, 67), (59, 142, 234),
      (214, 112, 214), (41, 184, 219), (255, 255, 255)]"

definition CUBE :: "byte list" where
  "CUBE = [0, 95, 135, 175, 215, 255]"

definition index_rgb :: "byte \<Rightarrow> rgb" where
  "index_rgb index =
     (if index \<le> 15 then ANSI16 ! unat index
      else if index \<le> 231
      then (let i = index - 16
            in (CUBE ! unat (i div 36), CUBE ! unat (i div 6 mod 6), CUBE ! unat (i mod 6)))
      else (let level = 8 + 10 * (index - 232) in (level, level, level)))"

definition byte_abs_diff :: "byte \<Rightarrow> byte \<Rightarrow> nat" where
  "byte_abs_diff a b = (if a \<le> b then unat (b - a) else unat (a - b))"

fun distance :: "rgb \<Rightarrow> rgb \<Rightarrow> nat" where
  "distance (r1, g1, b1) (r2, g2, b2) = (byte_abs_diff r1 r2)\<^sup>2 + (byte_abs_diff g1 g2)\<^sup>2 + (byte_abs_diff b1 b2)\<^sup>2"

text \<open>\<^verbatim>\<open>Iterator::min_by_key\<close>: the first of the smallest.\<close>

fun min_by_key :: "('a \<Rightarrow> nat) \<Rightarrow> 'a list \<Rightarrow> 'a option" where
  "min_by_key f [] = None"
| "min_by_key f (x # xs) = Some (fold (\<lambda>y best. if f y < f best then y else best) xs x)"

definition palette_range :: "nat \<Rightarrow> nat \<Rightarrow> byte list" where
  "palette_range lo hi = map of_nat [lo..<Suc hi]"

text \<open>The palette range is never empty, so the \<^verbatim>\<open>expect\<close> holds.\<close>

definition nearest_in :: "rgb \<Rightarrow> nat \<Rightarrow> nat \<Rightarrow> byte" where
  "nearest_in rgb lo hi = the (min_by_key (\<lambda>i. distance rgb (index_rgb i)) (palette_range lo hi))"

definition nearest_16 :: "rgb \<Rightarrow> byte" where
  "nearest_16 rgb = nearest_in rgb 0 15"

definition nearest_256 :: "rgb \<Rightarrow> byte" where
  "nearest_256 rgb = nearest_in rgb 16 255"

definition index_to_16 :: "byte \<Rightarrow> byte" where
  "index_to_16 i = (if i < 16 then i else nearest_16 (index_rgb i))"

fun reduce :: "color \<Rightarrow> color_depth \<Rightarrow> color" where
  "reduce DefaultColor depth = DefaultColor"
| "reduce c TrueColor = c"
| "reduce (Indexed n) TwoFiftySix = Indexed n"
| "reduce (Rgb r g b) TwoFiftySix = Indexed (nearest_256 (r, g, b))"
| "reduce (Rgb r g b) Sixteen = Indexed (nearest_16 (r, g, b))"
| "reduce (Indexed n) Sixteen = Indexed (index_to_16 n)"

definition reduce_cell_to_16 :: "cell \<Rightarrow> cell" where
  "reduce_cell_to_16 c =
     c\<lparr>cell_style := (cell_style c)\<lparr>fg := reduce (fg (cell_style c)) Sixteen,
         bg := reduce (bg (cell_style c)) Sixteen,
         underline_color := reduce (underline_color (cell_style c)) Sixteen\<rparr>\<rparr>"

definition reduce_spans_to_16 :: "diff_span list \<Rightarrow> diff_span list" where
  "reduce_spans_to_16 spans =
     map (\<lambda>s. \<lparr>span_start = span_start s, span_cells = map reduce_cell_to_16 (span_cells s)\<rparr>) spans"

section \<open>The map of a theme\<close>

datatype color_component = Fg | Bg | UnderlineColor

definition color_component_all :: "color_component list" where
  "color_component_all = [Fg, Bg, UnderlineColor]"

fun color_component_of :: "color_component \<Rightarrow> style \<Rightarrow> color" where
  "color_component_of Fg s = fg s"
| "color_component_of Bg s = bg s"
| "color_component_of UnderlineColor s = underline_color s"

fun color_component_of_depth :: "color_component \<Rightarrow> depth_colors \<Rightarrow> byte option" where
  "color_component_of_depth Fg c = dc_fg c"
| "color_component_of_depth Bg c = dc_bg c"
| "color_component_of_depth UnderlineColor c = dc_underline_color c"

definition authored_index :: "color \<Rightarrow> fallbacks \<Rightarrow> color_component \<Rightarrow> color_depth \<Rightarrow> byte option" where
  "authored_index main f color_component depth =
     (case max_index depth of
        None \<Rightarrow> None
      | Some most \<Rightarrow>
          (let written = (case depth of
                 Sixteen \<Rightarrow> color_component_of_depth color_component (c16 f)
               | _ \<Rightarrow> color_component_of_depth color_component (c256 f))
           in case (written, main) of
                (_, DefaultColor) \<Rightarrow> None
              | (Some index, _) \<Rightarrow> Some index
              | (None, Indexed n) \<Rightarrow> if n \<le> most then Some n else None
              | (None, _) \<Rightarrow> None))"

record depth_map =
  dm_depth :: color_depth
  dm_faces :: "32 word \<rightharpoonup> color"

text \<open>\<^verbatim>\<open>u32::from_be_bytes([0, r, g, b])\<close>, and the key of a colour.\<close>

definition be_bytes :: "byte \<Rightarrow> byte \<Rightarrow> byte \<Rightarrow> 32 word" where
  "be_bytes r g b = push_bit 16 (ucast r) OR push_bit 8 (ucast g) OR ucast b"

fun color_key :: "color \<Rightarrow> 32 word option" where
  "color_key DefaultColor = None"
| "color_key (Rgb r g b) = Some (0x01000000 OR be_bytes r g b)"
| "color_key (Indexed n) = Some (0x02000000 OR ucast n)"

definition add_face :: "color_depth \<Rightarrow> style \<Rightarrow> fallbacks \<Rightarrow> color_component \<Rightarrow> (32 word \<rightharpoonup> color) \<Rightarrow> (32 word \<rightharpoonup> color)" where
  "add_face depth s f color_component faces =
     (let main = color_component_of color_component s
      in case color_key main of
           None \<Rightarrow> faces
         | Some key \<Rightarrow>
             (let target = (case authored_index main f color_component depth of Some i \<Rightarrow> Indexed i | None \<Rightarrow> reduce main depth)
              in case faces key of Some _ \<Rightarrow> faces | None \<Rightarrow> faces(key \<mapsto> target)))"

definition for_theme :: "theme \<Rightarrow> color_depth \<Rightarrow> depth_map" where
  "for_theme t depth =
     (if depth = TrueColor then \<lparr>dm_depth = depth, dm_faces = Map.empty\<rparr>
      else \<lparr>dm_depth = depth, dm_faces =
        fold (\<lambda>name faces.
            let s = the (fmlookup (by_capture t) name);
                f = (case fmlookup (theme_fallbacks t) name of Some f \<Rightarrow> f | None \<Rightarrow> no_fallbacks)
            in fold (add_face depth s f) color_component_all faces)
          (sorted_list_of_fset (fmdom (by_capture t))) Map.empty\<rparr>)"

definition map_color :: "depth_map \<Rightarrow> color \<Rightarrow> color" where
  "map_color m c =
     (case Option.bind (color_key c) (dm_faces m) of Some c' \<Rightarrow> c' | None \<Rightarrow> reduce c (dm_depth m))"

definition map_style :: "depth_map \<Rightarrow> style \<Rightarrow> style" where
  "map_style m s = s\<lparr>fg := map_color m (fg s), bg := map_color m (bg s),
     underline_color := map_color m (underline_color s)\<rparr>"

section \<open>Nearest\<close>

lemma min_by_key_fold:
  fixes f :: "'a \<Rightarrow> nat"
  defines "pick \<equiv> \<lambda>y best. if f y < f best then y else best"
  shows "\<exists>us vs. x # xs = us @ fold pick xs x # vs \<and> (\<forall>u \<in> set us. f (fold pick xs x) < f u) \<and>
    (\<forall>v \<in> set vs. f (fold pick xs x) \<le> f v)"
proof (induction xs rule: rev_induct)
  case (snoc y xs)
  then obtain us vs where s: "x # xs = us @ fold pick xs x # vs" "\<forall>u \<in> set us. f (fold pick xs x) < f u"
    "\<forall>v \<in> set vs. f (fold pick xs x) \<le> f v" by blast
  show ?case
  proof (cases "f y < f (fold pick xs x)")
    case True
    then have "\<forall>u \<in> set (x # xs). f y < f u" unfolding s(1) using s(2,3) by auto
    with True show ?thesis by (intro exI [of _ "x # xs"] exI [of _ "[]"]) (simp add: pick_def)
  next
    case False
    then show ?thesis
      using s by (intro exI [of _ us] exI [of _ "vs @ [y]"]) (auto simp: pick_def)
  qed
qed (auto intro: exI [of _ "[]"])

text \<open>The reference: the first index of the range at the least distance.\<close>

definition first_nearest :: "rgb \<Rightarrow> nat \<Rightarrow> nat \<Rightarrow> byte \<Rightarrow> bool" where
  "first_nearest rgb lo hi i \<longleftrightarrow> lo \<le> unat i \<and> unat i \<le> hi \<and>
     (\<forall>j. lo \<le> unat j \<and> unat j \<le> hi \<longrightarrow> distance rgb (index_rgb i) \<le> distance rgb (index_rgb j)) \<and>
     (\<forall>j. lo \<le> unat j \<and> unat j < unat i \<longrightarrow> distance rgb (index_rgb i) < distance rgb (index_rgb j))"

lemma palette_range_set: "hi < 256 \<Longrightarrow> (i :: byte) \<in> set (palette_range lo hi) \<longleftrightarrow> lo \<le> unat i \<and> unat i \<le> hi"
proof -
  assume hi: "hi < 256"
  have "i \<in> set (palette_range lo hi) \<longleftrightarrow> (\<exists>n. lo \<le> n \<and> n \<le> hi \<and> i = of_nat n)"
    by (auto simp: palette_range_def image_iff Bex_def less_Suc_eq_le)
  moreover have "unat (of_nat n :: byte) = n" if "n \<le> hi" for n
    using that hi by (simp add: unsigned_of_nat take_bit_nat_eq_self)
  moreover have "i = of_nat (unat i)" by simp
  ultimately show ?thesis by metis
qed

lemma nearest_first:
  assumes "lo \<le> hi" and "hi < 256"
  shows "first_nearest rgb lo hi (nearest_in rgb lo hi)"
proof -
  let ?f = "\<lambda>i. distance rgb (index_rgb i)"
  have "palette_range lo hi = of_nat lo # map of_nat [Suc lo..<Suc hi]"
    using assms(1) by (simp add: palette_range_def upt_conv_Cons del: upt_Suc)
  then obtain x xs where r: "palette_range lo hi = x # xs" by blast
  define m where "m = nearest_in rgb lo hi"
  have "m = fold (\<lambda>y best. if ?f y < ?f best then y else best) xs x" by (simp add: m_def nearest_in_def r)
  then obtain us vs where s: "palette_range lo hi = us @ m # vs" "\<forall>u \<in> set us. ?f m < ?f u" "\<forall>v \<in> set vs. ?f m \<le> ?f v"
    using min_by_key_fold [of x xs ?f] unfolding r by blast
  have "map unat (palette_range lo hi) = [lo..<Suc hi]"
    unfolding palette_range_def map_map
    by (rule map_idI) (use assms(2) in \<open>auto simp: unsigned_of_nat intro!: take_bit_nat_eq_self\<close>)
  then have split: "[lo..<Suc hi] = map unat us @ unat m # map unat vs"
    by (simp add: s(1) del: upt_Suc)
  have mem: "j \<in> set us \<or> j = m \<or> j \<in> set vs \<longleftrightarrow> lo \<le> unat j \<and> unat j \<le> hi" for j
    using palette_range_set [OF assms(2), of j lo] by (auto simp: s(1))
  then have m: "lo \<le> unat m \<and> unat m \<le> hi" by blast
  have "sorted (map unat us @ unat m # map unat vs)"
    unfolding split [symmetric] by (simp del: upt_Suc)
  then have later: "\<forall>v \<in> set vs. unat m \<le> unat v" by (simp add: sorted_append)
  have "?f m \<le> ?f j" if "lo \<le> unat j" "unat j \<le> hi" for j
    using mem [of j] that s(2,3) by (metis less_imp_le order_refl)
  moreover have "?f m < ?f j" if "lo \<le> unat j" "unat j < unat m" for j
    using mem [of j] that s(2) later m by (metis le_trans less_imp_le linorder_not_le)
  ultimately show ?thesis using m unfolding first_nearest_def m_def by blast
qed

lemma nearest_16_range: "nearest_16 rgb \<le> 15"
  using nearest_first [of 0 15 rgb] by (simp add: nearest_16_def first_nearest_def word_le_nat_alt)

lemma index_to_16_range: "index_to_16 i \<le> 15"
  using nearest_16_range inc_le [of i 16] by (auto simp: index_to_16_def word_le_nat_alt word_less_nat_alt)

section \<open>Colours a depth can show\<close>

fun shows_color :: "color_depth \<Rightarrow> color \<Rightarrow> bool" where
  "shows_color TrueColor c = True"
| "shows_color depth DefaultColor = True"
| "shows_color depth (Rgb r g b) = False"
| "shows_color Sixteen (Indexed n) = (n \<le> 15)"
| "shows_color TwoFiftySix (Indexed n) = True"

definition shows_style :: "color_depth \<Rightarrow> style \<Rightarrow> bool" where
  "shows_style d s \<longleftrightarrow> shows_color d (fg s) \<and> shows_color d (bg s) \<and> shows_color d (underline_color s)"

lemma shows_reduce: "shows_color d (reduce c d)"
  by (cases c; cases d) (simp_all add: nearest_16_range index_to_16_range)

lemma reduce_shown: "shows_color d c \<Longrightarrow> reduce c d = c"
  by (cases c; cases d) (auto simp: index_to_16_def word_le_nat_alt word_less_nat_alt)

text \<open>What the parser of themes promises of an authored fallback.\<close>

definition authored_in_range :: "fallbacks \<Rightarrow> bool" where
  "authored_in_range f \<longleftrightarrow>
     (\<forall>i \<in> set_option (dc_fg (c16 f)) \<union> set_option (dc_bg (c16 f)) \<union> set_option (dc_underline_color (c16 f)). i \<le> 15)"

definition theme_in_range :: "theme \<Rightarrow> bool" where
  "theme_in_range t \<longleftrightarrow> (\<forall>f \<in> fmran' (theme_fallbacks t). authored_in_range f)"

section \<open>The rule of the module\<close>

text \<open>Step 1 and the own half of step 2 for the first face, in name order, that has the colour; step 3.\<close>

definition face_target :: "theme \<Rightarrow> color_depth \<Rightarrow> color \<Rightarrow> string \<times> color_component \<Rightarrow> color" where
  "face_target t d c p =
     (case authored_index c (case fmlookup (theme_fallbacks t) (fst p) of Some f \<Rightarrow> f | None \<Rightarrow> no_fallbacks) (snd p) d of
        Some i \<Rightarrow> Indexed i | None \<Rightarrow> reduce c d)"

definition face_components :: "theme \<Rightarrow> (string \<times> color_component) list" where
  "face_components t = List.product (sorted_list_of_fset (fmdom (by_capture t))) color_component_all"

definition has_color :: "theme \<Rightarrow> color \<Rightarrow> string \<times> color_component \<Rightarrow> bool" where
  "has_color t c p \<longleftrightarrow> color_component_of (snd p) (the (fmlookup (by_capture t) (fst p))) = c"

definition rule_color :: "theme \<Rightarrow> color_depth \<Rightarrow> color \<Rightarrow> color" where
  "rule_color t d c =
     (if c = DefaultColor \<or> d = TrueColor then c
      else case List.find (has_color t c) (face_components t) of
          Some p \<Rightarrow> face_target t d c p
        | None \<Rightarrow> reduce c d)"

lemma const_bits:
  "bit (0x01000000 :: 32 word) n \<longleftrightarrow> n = 24" "bit (0x02000000 :: 32 word) n \<longleftrightarrow> n = 25"
proof -
  have "(0x01000000 :: 32 word) = push_bit 24 1" "(0x02000000 :: 32 word) = push_bit 25 1" by simp_all
  note eqs = this [THEN arg_cong, of "\<lambda>w. bit w n", unfolded bit_push_bit_iff]
  show "bit (0x01000000 :: 32 word) n \<longleftrightarrow> n = 24" unfolding eqs(1) by (auto simp: bit_1_iff)
  show "bit (0x02000000 :: 32 word) n \<longleftrightarrow> n = 25" unfolding eqs(2) by (auto simp: bit_1_iff)
qed

lemma bit_be_bytes:
  "bit (be_bytes r g b) n \<longleftrightarrow> n < 24 \<and> (if n < 8 then bit b n else if n < 16 then bit g (n - 8) else bit r (n - 16))"
  by (cases "n < 24") (auto simp: be_bytes_def bit_simps not_less dest: bit_imp_le_length)

lemma color_key_inj: "color_key c = Some k \<Longrightarrow> color_key d = Some k \<Longrightarrow> c = d"
proof -
  have rgb: "r = r' \<and> g = g' \<and> b = b'"
    if "0x01000000 OR be_bytes r g b = 0x01000000 OR be_bytes r' g' b'" for r g b r' g' b'
  proof -
    have eq: "bit (be_bytes r g b) n \<longleftrightarrow> bit (be_bytes r' g' b') n" if "n < 24" for n
    proof -
      have "bit (0x01000000 OR be_bytes r g b) n = bit (0x01000000 OR be_bytes r' g' b') n"
        by (simp only: \<open>0x01000000 OR be_bytes r g b = 0x01000000 OR be_bytes r' g' b'\<close>)
      with that show ?thesis unfolding bit_or_iff const_bits by simp
    qed
    have "b = b'"
    proof (rule bit_word_eqI)
      show "bit b n = bit b' n" if "n < LENGTH(8)" for n using eq [of n] that by (simp add: bit_be_bytes)
    qed
    moreover have "g = g'"
    proof (rule bit_word_eqI)
      show "bit g n = bit g' n" if "n < LENGTH(8)" for n using eq [of "n + 8"] that by (simp add: bit_be_bytes)
    qed
    moreover have "r = r'"
    proof (rule bit_word_eqI)
      show "bit r n = bit r' n" if "n < LENGTH(8)" for n using eq [of "n + 16"] that by (simp add: bit_be_bytes)
    qed
    ultimately show ?thesis by blast
  qed
  have idx: "n = n'" if "(0x02000000 :: 32 word) OR ucast n = 0x02000000 OR ucast n'" for n n' :: byte
  proof (rule bit_word_eqI)
    fix i assume i: "i < LENGTH(8)"
    show "bit n i = bit n' i"
      using arg_cong [OF that, of "\<lambda>w. bit w i"] i unfolding bit_or_iff const_bits by (simp add: bit_ucast_iff)
  qed
  have mixed: "0x01000000 OR be_bytes r g b \<noteq> 0x02000000 OR ucast n" for r g b and n :: byte
  proof
    assume "0x01000000 OR be_bytes r g b = 0x02000000 OR ucast n"
    from arg_cong [OF this, of "\<lambda>w. bit w 24"] show False
      unfolding bit_or_iff const_bits by (simp add: bit_ucast_iff bit_be_bytes) (auto dest: bit_imp_le_length)
  qed
  assume "color_key c = Some k" "color_key d = Some k"
  then have k: "color_key c = color_key d" "color_key c \<noteq> None" by simp_all
  show "c = d"
  proof (cases c)
    case DefaultColor
    with k show ?thesis by simp
  next
    case (Rgb r g b)
    show ?thesis
    proof (cases d)
      case (Rgb r' g' b')
      show ?thesis
        using rgb [of r g b r' g' b'] k(1) unfolding \<open>c = Rgb r g b\<close> Rgb by (simp only: color_key.simps option.inject)
    next
      case (Indexed n)
      show ?thesis
        using mixed [of r g b n] k(1) unfolding \<open>c = Rgb r g b\<close> Indexed by (simp only: color_key.simps option.inject)
    qed (use k in simp)
  next
    case (Indexed n)
    show ?thesis
    proof (cases d)
      case (Rgb r g b)
      show ?thesis
        using mixed [of r g b n] k(1) unfolding \<open>c = Indexed n\<close> Rgb by (metis color_key.simps(2,3) option.inject)
    next
      case (Indexed n')
      show ?thesis
        using idx [of n n'] k(1) unfolding \<open>c = Indexed n\<close> Indexed by (simp only: color_key.simps option.inject)
    qed (use k in simp)
  qed
qed

lemma add_face_lookup:
  assumes "color_key c = Some k"
  shows "add_face d s f cp faces k =
    (case faces k of
       Some x \<Rightarrow> Some x
     | None \<Rightarrow> if color_component_of cp s = c
               then Some (case authored_index c f cp d of Some i \<Rightarrow> Indexed i | None \<Rightarrow> reduce c d) else None)"
proof (cases "color_component_of cp s = c")
  case True
  then show ?thesis using assms by (simp add: add_face_def Let_def split: option.split)
next
  case False
  then have "color_key (color_component_of cp s) \<noteq> Some k" using color_key_inj [OF assms] by blast
  with False show ?thesis
    by (cases "color_key (color_component_of cp s)") (auto simp: add_face_def Let_def split: option.split)
qed

lemma fold_faces_lookup:
  assumes "color_key c = Some k"
  shows "fold (\<lambda>p. add_face d (the (fmlookup (by_capture t) (fst p)))
      (case fmlookup (theme_fallbacks t) (fst p) of Some f \<Rightarrow> f | None \<Rightarrow> no_fallbacks) (snd p)) ps faces k =
    (case faces k of Some x \<Rightarrow> Some x | None \<Rightarrow> map_option (face_target t d c) (List.find (has_color t c) ps))"
proof (induction ps arbitrary: faces)
  case (Cons p ps)
  then show ?case
    by (simp add: add_face_lookup [OF assms] has_color_def [of t c p] face_target_def [of t d c p] split: option.split)
qed (simp split: option.split)

lemma for_theme_fold:
  assumes "d \<noteq> TrueColor"
  shows "dm_faces (for_theme t d) =
    fold (\<lambda>p. add_face d (the (fmlookup (by_capture t) (fst p)))
      (case fmlookup (theme_fallbacks t) (fst p) of Some f \<Rightarrow> f | None \<Rightarrow> no_fallbacks) (snd p)) (face_components t) Map.empty"
proof -
  have inner: "fold g (map (Pair n) cs) = fold (\<lambda>c. g (n, c)) cs" for g :: "string \<times> color_component \<Rightarrow> _ \<Rightarrow> (32 word \<rightharpoonup> color)" and n cs
    by (simp add: fold_map comp_def)
  have "fold g (List.product ns cs) = fold (\<lambda>n. fold (\<lambda>c. g (n, c)) cs) ns"
    for g :: "string \<times> color_component \<Rightarrow> _ \<Rightarrow> (32 word \<rightharpoonup> color)" and ns cs
    by (induction ns) (simp_all add: inner comp_def)
  then show ?thesis using assms by (simp add: for_theme_def face_components_def Let_def)
qed

lemma map_color_rule: "map_color (for_theme t d) c = rule_color t d c"
proof (cases "d = TrueColor")
  case True
  then show ?thesis by (cases c) (simp_all add: map_color_def for_theme_def rule_color_def)
next
  case False
  have depth: "dm_depth (for_theme t d) = d" by (simp add: for_theme_def)
  show ?thesis
  proof (cases "color_key c")
    case None
    then have "c = DefaultColor" by (cases c) simp_all
    then show ?thesis by (simp add: map_color_def rule_color_def)
  next
    case (Some k)
    then have "c \<noteq> DefaultColor" by auto
    with False Some show ?thesis
      by (simp add: map_color_def for_theme_fold fold_faces_lookup [OF Some] rule_color_def depth split: option.split)
  qed
qed

lemma authored_index_shown:
  assumes "authored_in_range f" and "d \<noteq> TrueColor" and "authored_index c f cp d = Some i"
  shows "shows_color d (Indexed i)"
proof (cases d)
  case Sixteen
  then show ?thesis
    using assms by (cases cp) (auto simp: authored_index_def authored_in_range_def Let_def split: option.splits color.splits if_splits)
qed (use assms in simp_all)

lemma rule_color_shown:
  assumes "theme_in_range t"
  shows "shows_color d (rule_color t d c)"
proof (cases "d = TrueColor \<or> c = DefaultColor")
  case False
  let ?f = "\<lambda>n. case fmlookup (theme_fallbacks t) n of Some f \<Rightarrow> f | None \<Rightarrow> no_fallbacks"
  have "authored_in_range (?f n)" for n
    using assms
    by (auto simp: theme_in_range_def authored_in_range_def no_fallbacks_def no_depth_colors_def
        dest: fmran'I split: option.splits)
  then have "shows_color d (face_target t d c p)" for p
    using False authored_index_shown [of "?f (fst p)" d c "snd p"]
    by (cases "authored_index c (?f (fst p)) (snd p) d") (simp_all add: face_target_def shows_reduce)
  then show ?thesis using False by (auto simp: rule_color_def shows_reduce split: option.splits)
qed (cases d; auto simp: rule_color_def)

end
