(* ===== verification/Render_State.thy ===== *)
theory Render_State
  imports Color_Depth
begin

text \<open>
  Painting and diffing on the side of the instance, \<^verbatim>\<open>src/src/instance_render.rs\<close>: the two frames, the flag of
  a full synchronisation and the map of colours cached by the epochs of the theme. What paints a frame
  (\<^verbatim>\<open>paint_frame\<close> and the overlays of the other frontends) is any function that writes into the grid.
\<close>

section \<open>The state and its operations\<close>

record render_state =
  rs_size :: cell_size
  rs_prev :: "cell list"
  rs_next :: "cell list"
  needs_full_grid :: bool
  rs_depth :: color_depth
  rs_depth_map :: "((nat \<times> nat) \<times> depth_map) option"

record cursor_state =
  cursor_coord :: cell_coord
  cursor_shown :: bool

datatype render_message = CellDelta "diff_span list" bool | Cursor "cursor_state option"

type_synonym painter = "cell_grid \<Rightarrow> cell list \<times> cell_coord option"

definition blank_grid :: "cell_size \<Rightarrow> cell list" where
  "blank_grid sz = replicate (size_rows sz * size_cols sz) default_cell"

definition render_new :: "cell_size \<Rightarrow> render_state" where
  "render_new sz =
     \<lparr>rs_size = sz, rs_prev = blank_grid sz, rs_next = blank_grid sz, needs_full_grid = True, rs_depth = TrueColor,
      rs_depth_map = None\<rparr>"

definition set_color_depth :: "color_depth \<Rightarrow> render_state \<Rightarrow> render_state" where
  "set_color_depth d rs = (if d \<noteq> rs_depth rs then rs\<lparr>rs_depth := d, rs_depth_map := None\<rparr> else rs)"

definition render_resize :: "cell_size \<Rightarrow> render_state \<Rightarrow> render_state" where
  "render_resize sz rs =
     (if sz = rs_size rs then rs
      else rs\<lparr>rs_size := sz, rs_prev := blank_grid sz, rs_next := blank_grid sz, needs_full_grid := True\<rparr>)"

definition force_full_grid_resync :: "render_state \<Rightarrow> render_state" where
  "force_full_grid_resync rs = rs\<lparr>needs_full_grid := True\<rparr>"

definition fill_face :: "style \<Rightarrow> cell \<Rightarrow> cell" where
  "fill_face face c =
     (let s = cell_style c;
          s1 = (if fg s = DefaultColor then s\<lparr>fg := fg face\<rparr> else s);
          s2 = (if bg s1 = DefaultColor then s1\<lparr>bg := bg face\<rparr> else s1)
      in c\<lparr>cell_style := s2\<rparr>)"

definition colored_face :: "theme \<Rightarrow> style option" where
  "colored_face t =
     (case buffer_face t of
        Some f \<Rightarrow> (if fg f \<noteq> DefaultColor \<or> bg f \<noteq> DefaultColor then Some f else None)
      | None \<Rightarrow> None)"

definition refresh_depth_map :: "theme \<Rightarrow> render_state \<Rightarrow> render_state" where
  "refresh_depth_map t rs =
     (let epochs = (syntax_epoch t, face_epoch t)
      in if (case rs_depth_map rs of None \<Rightarrow> True | Some (at, _) \<Rightarrow> at \<noteq> epochs)
         then rs\<lparr>rs_depth_map := Some (epochs, for_theme t (rs_depth rs))\<rparr> else rs)"

definition finish_colors :: "theme \<Rightarrow> render_state \<Rightarrow> render_state option" where
  "finish_colors t rs =
     (let rs1 = (if rs_depth rs \<noteq> TrueColor then refresh_depth_map t rs else rs);
          rs2 = (case colored_face t of Some face \<Rightarrow> rs1\<lparr>rs_next := map (fill_face face) (rs_next rs1)\<rparr> | None \<Rightarrow> rs1)
      in if rs_depth rs2 = TrueColor then Some rs2
         else case rs_depth_map rs2 of
             None \<Rightarrow> None
           | Some (_, m) \<Rightarrow> Some (rs2\<lparr>rs_next := map (\<lambda>c. c\<lparr>cell_style := map_style m (cell_style c)\<rparr>) (rs_next rs2)\<rparr>))"

definition render_frame :: "painter \<Rightarrow> theme \<Rightarrow> render_state \<Rightarrow> (render_message list \<times> render_state) option" where
  "render_frame paint t rs =
     (if size_rows (rs_size rs) < 2 \<or> size_cols (rs_size rs) = 0 then Some ([], rs)
      else case paint \<lparr>grid_cells = rs_next rs, grid_stride = size_cols (rs_size rs), grid_size = rs_size rs\<rparr> of
        (painted, coord) \<Rightarrow> do {
          rs1 \<leftarrow> finish_colors t (rs\<lparr>rs_next := painted\<rparr>);
          spans \<leftarrow>
            (if needs_full_grid rs1
             then diff (replicate (length (rs_next rs1)) default_cell) (rs_next rs1) (size_cols (rs_size rs1)) (rs_size rs1)
             else diff (rs_prev rs1) (rs_next rs1) (size_cols (rs_size rs1)) (rs_size rs1));
          Some
            ([CellDelta spans (needs_full_grid rs1),
              Cursor (map_option (\<lambda>c. \<lparr>cursor_coord = c, cursor_shown = True\<rparr>) coord)],
             rs1\<lparr>needs_full_grid := False, rs_prev := rs_next rs1,
                 rs_next := replicate (length (rs_prev rs1)) default_cell\<rparr>)
        })"

section \<open>What a frontend shows\<close>

text \<open>
  The contract of \<^verbatim>\<open>CellDelta\<close>: a full grid blanks the screen, then every span is written where it starts.
\<close>

fun show_message :: "cell_size \<Rightarrow> render_message \<Rightarrow> cell list \<Rightarrow> cell list" where
  "show_message sz (CellDelta spans full) screen =
     write_cells (concat (map (span_writes (size_cols sz)) spans)) (if full then blank_grid sz else screen)"
| "show_message sz (Cursor c) screen = screen"

definition show_messages :: "cell_size \<Rightarrow> render_message list \<Rightarrow> cell list \<Rightarrow> cell list" where
  "show_messages sz msgs screen = fold (show_message sz) msgs screen"

text \<open>The reference: a frame painted on a blank grid, coloured without a cache.\<close>

definition recolored :: "theme \<Rightarrow> color_depth \<Rightarrow> style \<Rightarrow> style" where
  "recolored t d s = s\<lparr>fg := rule_color t d (fg s), bg := rule_color t d (bg s),
     underline_color := rule_color t d (underline_color s)\<rparr>"

definition finished_cell :: "theme \<Rightarrow> color_depth \<Rightarrow> cell \<Rightarrow> cell" where
  "finished_cell t d c =
     (let c' = (case colored_face t of Some face \<Rightarrow> fill_face face c | None \<Rightarrow> c)
      in c'\<lparr>cell_style := recolored t d (cell_style c')\<rparr>)"

definition painted_frame :: "painter \<Rightarrow> cell_size \<Rightarrow> cell list" where
  "painted_frame paint sz = fst (paint \<lparr>grid_cells = blank_grid sz, grid_stride = size_cols sz, grid_size = sz\<rparr>)"

definition ideal_frame :: "painter \<Rightarrow> theme \<Rightarrow> color_depth \<Rightarrow> cell_size \<Rightarrow> cell list" where
  "ideal_frame paint t d sz = map (finished_cell t d) (painted_frame paint sz)"

text \<open>A painter has a borrowed slice: it cannot change its length.\<close>

definition keeps_length :: "painter \<Rightarrow> bool" where
  "keeps_length paint \<longleftrightarrow> (\<forall>g. length (fst (paint g)) = length (grid_cells g))"

text \<open>
  The runs of an instance and its frontend: the theme changes, the depth, the size; a frontend attaches
  or its screen is lost, which the instance answers with a resynchronisation; frames are rendered and shown.
\<close>

inductive render_reach :: "theme \<Rightarrow> render_state \<Rightarrow> cell list \<Rightarrow> bool" where
  rr_start: "render_reach t (render_new sz) screen"
| rr_commit: "render_reach t rs screen \<Longrightarrow> render_reach (theme_commit mode es t) rs screen"
| rr_default: "render_reach t rs screen \<Longrightarrow> render_reach (set_default_style s t) rs screen"
| rr_load: "render_reach t rs screen \<Longrightarrow> theme_load name l t = (l', t', ok) \<Longrightarrow> render_reach t' rs screen"
| rr_depth: "render_reach t rs screen \<Longrightarrow> render_reach t (set_color_depth d rs) screen"
| rr_resize: "render_reach t rs screen \<Longrightarrow> sz \<noteq> rs_size rs \<Longrightarrow> render_reach t (render_resize sz rs) screen'"
| rr_resync: "render_reach t rs screen \<Longrightarrow> render_reach t (force_full_grid_resync rs) screen'"
| rr_frame: "render_reach t rs screen \<Longrightarrow> keeps_length paint \<Longrightarrow> render_frame paint t rs = Some (msgs, rs') \<Longrightarrow>
    render_reach t rs' (show_messages (rs_size rs) msgs screen)"

section \<open>The invariant\<close>

definition cache_valid :: "theme \<Rightarrow> render_state \<Rightarrow> bool" where
  "cache_valid t rs \<longleftrightarrow>
     (case rs_depth_map rs of
        None \<Rightarrow> True
      | Some ((s, f), m) \<Rightarrow> s \<le> syntax_epoch t \<and> f \<le> face_epoch t \<and>
          (s = syntax_epoch t \<and> f = face_epoch t \<longrightarrow> m = for_theme t (rs_depth rs)))"

definition frames_ok :: "render_state \<Rightarrow> bool" where
  "frames_ok rs \<longleftrightarrow> length (rs_prev rs) = size_rows (rs_size rs) * size_cols (rs_size rs) \<and> rs_next rs = blank_grid (rs_size rs)"

definition render_inv :: "theme \<Rightarrow> render_state \<Rightarrow> cell list \<Rightarrow> bool" where
  "render_inv t rs screen \<longleftrightarrow> cache_valid t rs \<and> frames_ok rs \<and> (\<not> needs_full_grid rs \<longrightarrow> screen = rs_prev rs)"

lemma length_blank_grid [simp]: "length (blank_grid sz) = size_rows sz * size_cols sz"
  by (simp add: blank_grid_def)

lemma cache_valid_cong:
  "rs_depth_map rs' = rs_depth_map rs \<Longrightarrow> rs_depth rs' = rs_depth rs \<Longrightarrow> cache_valid t rs' = cache_valid t rs"
  by (simp add: cache_valid_def split: option.split)

lemma cache_valid_updates [simp]:
  "cache_valid t (rs\<lparr>rs_next := xs\<rparr>) = cache_valid t rs" "cache_valid t (rs\<lparr>rs_prev := xs\<rparr>) = cache_valid t rs"
  "cache_valid t (rs\<lparr>rs_size := sz\<rparr>) = cache_valid t rs" "cache_valid t (rs\<lparr>needs_full_grid := b\<rparr>) = cache_valid t rs"
  by (rule cache_valid_cong; simp)+

lemma cache_valid_later:
  assumes "cache_valid t rs" and "syntax_epoch t \<le> syntax_epoch t'" and "face_epoch t \<le> face_epoch t'"
    and "syntax_epoch t' = syntax_epoch t \<Longrightarrow> face_epoch t' = face_epoch t \<Longrightarrow> for_theme t' = for_theme t"
  shows "cache_valid t' rs"
  using assms by (auto simp: cache_valid_def split: option.splits)

lemma cache_valid_commit: "cache_valid t rs \<Longrightarrow> cache_valid (theme_commit mode es t) rs"
  using cache_valid_later commit_epochs commit_same_epochs by metis

lemma refresh_valid: "cache_valid t rs \<Longrightarrow> cache_valid t (refresh_depth_map t rs)"
  and refresh_map: "cache_valid t rs \<Longrightarrow> \<exists>at. rs_depth_map (refresh_depth_map t rs) = Some (at, for_theme t (rs_depth rs))"
  and refresh_fields: "rs_next (refresh_depth_map t rs) = rs_next rs" "rs_prev (refresh_depth_map t rs) = rs_prev rs"
    "rs_depth (refresh_depth_map t rs) = rs_depth rs" "rs_size (refresh_depth_map t rs) = rs_size rs"
    "needs_full_grid (refresh_depth_map t rs) = needs_full_grid rs"
  by (auto simp: refresh_depth_map_def cache_valid_def Let_def split: option.splits prod.splits)

lemma map_style_recolored: "map_style (for_theme t d) s = recolored t d s"
  by (simp add: map_style_def recolored_def map_color_rule)

lemma recolored_true: "recolored t TrueColor s = s"
  by (simp add: recolored_def rule_color_def)

lemma finish_colors_ok:
  assumes "cache_valid t rs"
  shows "\<exists>rs'. finish_colors t rs = Some rs' \<and> cache_valid t rs' \<and> rs_next rs' = map (finished_cell t (rs_depth rs)) (rs_next rs) \<and>
    rs_prev rs' = rs_prev rs \<and> rs_size rs' = rs_size rs \<and> needs_full_grid rs' = needs_full_grid rs \<and> rs_depth rs' = rs_depth rs"
proof (cases "rs_depth rs = TrueColor")
  case True
  then show ?thesis
    using assms
    by (cases "colored_face t") (simp_all add: finish_colors_def finished_cell_def recolored_true Let_def map_idI)
next
  case False
  obtain at where at: "rs_depth_map (refresh_depth_map t rs) = Some (at, for_theme t (rs_depth rs))"
    using refresh_map [OF assms] by blast
  define rs2 where "rs2 = (case colored_face t of
      Some face \<Rightarrow> (refresh_depth_map t rs)\<lparr>rs_next := map (fill_face face) (rs_next (refresh_depth_map t rs))\<rparr>
    | None \<Rightarrow> refresh_depth_map t rs)"
  have rs2: "rs_depth_map rs2 = Some (at, for_theme t (rs_depth rs))" "rs_depth rs2 = rs_depth rs"
    "rs_prev rs2 = rs_prev rs" "rs_size rs2 = rs_size rs" "needs_full_grid rs2 = needs_full_grid rs"
    "rs_next rs2 = map (\<lambda>c. case colored_face t of Some face \<Rightarrow> fill_face face c | None \<Rightarrow> c) (rs_next rs)"
    "cache_valid t rs2 = cache_valid t (refresh_depth_map t rs)"
    using at by (auto simp: rs2_def refresh_fields split: option.split)
  have "finish_colors t rs =
      Some (rs2\<lparr>rs_next := map (\<lambda>c. c\<lparr>cell_style := map_style (for_theme t (rs_depth rs)) (cell_style c)\<rparr>) (rs_next rs2)\<rparr>)"
    unfolding finish_colors_def Let_def if_P [OF False] rs2_def [symmetric] using False rs2(1,2) by simp
  moreover have "cache_valid t (rs2\<lparr>rs_next := xs\<rparr>)" for xs
    using rs2(7) refresh_valid [OF assms] by simp
  ultimately show ?thesis
    using rs2 by (simp add: map_style_recolored finished_cell_def Let_def comp_def)
qed

lemma render_frame_ok:
  assumes inv: "render_inv t rs screen" and paint: "keeps_length paint"
    and room: "2 \<le> size_rows (rs_size rs)" "0 < size_cols (rs_size rs)"
  defines "old \<equiv> if needs_full_grid rs then blank_grid (rs_size rs) else screen"
    and "new \<equiv> ideal_frame paint t (rs_depth rs) (rs_size rs)"
  shows "\<exists>spans cursor rs'. render_frame paint t rs = Some ([CellDelta spans (needs_full_grid rs), Cursor cursor], rs') \<and>
    render_inv t rs' new \<and> rs_size rs' = rs_size rs \<and> rs_depth rs' = rs_depth rs \<and> \<not> needs_full_grid rs' \<and>
    show_messages (rs_size rs) [CellDelta spans (needs_full_grid rs), Cursor cursor] screen = new \<and>
    concat (map (span_writes (size_cols (rs_size rs))) spans) = changes old new (visible_indices (size_cols (rs_size rs)) (rs_size rs)) \<and>
    (\<forall>s \<in> set spans. maximal_run old new (size_cols (rs_size rs)) (size_cols (rs_size rs)) s)"
proof -
  let ?sz = "rs_size rs" and ?n = "size_rows (rs_size rs) * size_cols (rs_size rs)"
  have nxt: "rs_next rs = blank_grid ?sz" and prev: "length (rs_prev rs) = ?n" and cache: "cache_valid t rs"
    using inv by (simp_all add: render_inv_def frames_ok_def)
  obtain painted coord where p: "paint \<lparr>grid_cells = blank_grid ?sz, grid_stride = size_cols ?sz, grid_size = ?sz\<rparr> = (painted, coord)"
    by fastforce
  have len: "length painted = ?n" and frame: "painted_frame paint ?sz = painted"
    using paint [unfolded keeps_length_def, rule_format, of "\<lparr>grid_cells = blank_grid ?sz, grid_stride = size_cols ?sz, grid_size = ?sz\<rparr>"] p
    by (simp_all add: painted_frame_def)
  have "cache_valid t (rs\<lparr>rs_next := painted\<rparr>)" using cache by simp
  from finish_colors_ok [OF this] obtain rs1 where f: "finish_colors t (rs\<lparr>rs_next := painted\<rparr>) = Some rs1"
    "cache_valid t rs1" "rs_next rs1 = new" "rs_prev rs1 = rs_prev rs" "rs_size rs1 = ?sz"
    "needs_full_grid rs1 = needs_full_grid rs" "rs_depth rs1 = rs_depth rs"
    by (auto simp: new_def ideal_frame_def frame)
  have new: "length new = ?n" by (simp add: new_def ideal_frame_def frame len)
  have blank: "replicate (length new) default_cell = blank_grid ?sz" by (simp add: new blank_grid_def)
  have old: "length old = ?n" using inv prev by (auto simp: old_def render_inv_def)
  have "fits (size_cols ?sz) ?sz old" "fits (size_cols ?sz) ?sz new"
    using old new by (simp_all add: fits_def mult.commute)
  from diff_ok [OF this] obtain spans where s: "diff old new (size_cols ?sz) ?sz = Some spans"
    "concat (map (span_writes (size_cols ?sz)) spans) = changes old new (visible_indices (size_cols ?sz) ?sz)"
    "\<forall>s \<in> set spans. maximal_run old new (size_cols ?sz) (size_cols ?sz) s" by blast
  define cursor where "cursor = map_option (\<lambda>c. \<lparr>cursor_coord = c, cursor_shown = True\<rparr>) coord"
  define rs' where "rs' = rs1\<lparr>needs_full_grid := False, rs_prev := new, rs_next := blank_grid ?sz\<rparr>"
  have "\<not> needs_full_grid rs \<longrightarrow> rs_prev rs = screen" using inv by (simp add: render_inv_def)
  then have d: "(if needs_full_grid rs1
      then diff (replicate (length (rs_next rs1)) default_cell) (rs_next rs1) (size_cols (rs_size rs1)) (rs_size rs1)
      else diff (rs_prev rs1) (rs_next rs1) (size_cols (rs_size rs1)) (rs_size rs1)) = Some spans"
    using s(1) f blank by (cases "needs_full_grid rs") (simp_all add: old_def)
  have "replicate (length (rs_prev rs1)) default_cell = blank_grid ?sz" by (simp add: f prev blank_grid_def)
  then have "render_frame paint t rs = Some ([CellDelta spans (needs_full_grid rs), Cursor cursor], rs')"
    unfolding render_frame_def using room d
    by (cases "needs_full_grid rs") (simp_all add: nxt p f(1,3,6) cursor_def rs'_def)
  moreover have "render_inv t rs' new"
    using f(2,5,7) new by (simp add: render_inv_def frames_ok_def rs'_def)
  moreover have "show_messages ?sz [CellDelta spans (needs_full_grid rs), Cursor cursor] screen = new"
    using write_changes_whole [of old ?sz new] old new s(2) by (simp add: show_messages_def old_def)
  moreover have "rs_size rs' = ?sz" "rs_depth rs' = rs_depth rs" "\<not> needs_full_grid rs'"
    by (simp_all add: rs'_def f(5,7))
  ultimately show ?thesis using s(2,3) by blast
qed

lemma render_reach_inv: "render_reach t rs screen \<Longrightarrow> render_inv t rs screen"
proof (induction rule: render_reach.induct)
  case (rr_start t sz screen)
  then show ?case by (simp add: render_inv_def cache_valid_def frames_ok_def render_new_def)
next
  case (rr_commit t rs screen mode es)
  then show ?case by (simp add: render_inv_def cache_valid_commit)
next
  case (rr_default t rs screen s)
  then have "cache_valid (set_default_style s t) rs"
    using cache_valid_later [of t rs "set_default_style s t"] by (simp add: render_inv_def set_default_style_def)
  with rr_default show ?case by (simp add: render_inv_def)
next
  case (rr_load t rs screen name l l' t' ok)
  then show ?case
    by (auto simp: theme_load_def render_inv_def Let_def cache_valid_commit split: option.splits)
next
  case (rr_depth t rs screen d)
  then show ?case by (auto simp: render_inv_def set_color_depth_def cache_valid_def frames_ok_def)
next
  case (rr_resize t rs screen sz screen')
  then show ?case by (simp add: render_inv_def render_resize_def frames_ok_def)
next
  case (rr_resync t rs screen screen')
  then show ?case by (simp add: render_inv_def force_full_grid_resync_def frames_ok_def)
next
  case (rr_frame t rs screen paint msgs rs')
  show ?case
  proof (cases "2 \<le> size_rows (rs_size rs) \<and> 0 < size_cols (rs_size rs)")
    case True
    then show ?thesis
      using render_frame_ok [OF rr_frame.IH rr_frame.hyps(2)] rr_frame.hyps(3) by fastforce
  next
    case False
    then have "msgs = [] \<and> rs' = rs" using rr_frame.hyps(3) by (auto simp: render_frame_def)
    then show ?thesis using rr_frame.IH by (simp add: show_messages_def)
  qed
qed

section \<open>Colours of what is shipped\<close>

lemma fill_face_default:
  "fill_face face c = c\<lparr>cell_style := (cell_style c)\<lparr>fg := if fg (cell_style c) = DefaultColor then fg face else fg (cell_style c),
     bg := if bg (cell_style c) = DefaultColor then bg face else bg (cell_style c)\<rparr>\<rparr>"
  by (simp add: fill_face_def Let_def)

lemma finished_cell_shown: "theme_in_range t \<Longrightarrow> shows_style d (cell_style (finished_cell t d c))"
  by (simp add: finished_cell_def Let_def shows_style_def recolored_def rule_color_shown)

lemma span_cells_shipped:
  assumes "concat (map (span_writes stride) spans) = changes old new is" and "s \<in> set spans" and "x \<in> set (span_cells s)"
  shows "\<exists>i \<in> set is. x = new ! i"
proof -
  obtain j where j: "j < length (span_cells s)" "span_cells s ! j = x" using assms(3) by (auto simp: in_set_conv_nth)
  let ?k = "coord_row (span_start s) * stride + coord_col (span_start s)"
  have "(?k + j, x) \<in> set (span_writes stride s)" using j by (simp add: span_writes_def in_set_enumerate_eq)
  then have "(?k + j, x) \<in> set (changes old new is)" using assms(2) unfolding assms(1) [symmetric] by auto
  then show ?thesis by (auto simp: changes_def)
qed

text \<open>A client of sixteen colours reduces the spans it is sent.\<close>

definition reduce_message :: "render_message \<Rightarrow> render_message" where
  "reduce_message m = (case m of CellDelta spans full \<Rightarrow> CellDelta (reduce_spans_to_16 spans) full | Cursor c \<Rightarrow> Cursor c)"

lemma write_cells_map: "write_cells (map (\<lambda>(i, x). (i, f x)) ws) (map f xs) = map f (write_cells ws xs)"
  by (induction ws arbitrary: xs) (auto simp: map_update [symmetric])

lemma span_writes_reduced:
  "concat (map (span_writes stride) (reduce_spans_to_16 spans)) =
   map (\<lambda>(i, x). (i, reduce_cell_to_16 x)) (concat (map (span_writes stride) spans))"
  by (induction spans) (simp_all add: reduce_spans_to_16_def span_writes_def enumerate_map_upt enumerate_eq_zip zip_map2)

lemma reduce_default_cell: "reduce_cell_to_16 default_cell = default_cell"
  by (simp add: reduce_cell_to_16_def default_cell_def default_style_def)

lemma show_reduced:
  "show_messages sz (map reduce_message msgs) (map reduce_cell_to_16 screen) = map reduce_cell_to_16 (show_messages sz msgs screen)"
proof (induction msgs arbitrary: screen)
  case (Cons m msgs)
  have "map reduce_cell_to_16 (blank_grid sz) = blank_grid sz" by (simp add: blank_grid_def reduce_default_cell)
  then have "show_message sz (reduce_message m) (map reduce_cell_to_16 screen) = map reduce_cell_to_16 (show_message sz m screen)"
    by (cases m) (simp_all add: reduce_message_def span_writes_reduced write_cells_map [symmetric])
  then show ?case using Cons by (simp add: show_messages_def)
qed (simp add: show_messages_def)

lemma reduce_cell_shown: "shows_style Sixteen (cell_style (reduce_cell_to_16 c))"
  by (simp add: shows_style_def reduce_cell_to_16_def shows_reduce)

end
