(* ===== verification/Overlay.thy ===== *)
theory Overlay
  imports Edit_Tracker Cell_Grid
begin

text \<open>
  The overlays of \<^verbatim>\<open>src/src/overlay.rs\<close>: styles merged into the cells of a grid, whole cells painted over
  it, and the style spans in buffer bytes that a translator on the buffer keeps in step with its edits. The
  painting of buffer spans goes through the layout of the text view and is not modelled.
\<close>

section \<open>Cell overlays\<close>

record style_span =
  ss_row :: nat
  ss_start_col :: nat
  ss_end_col :: nat
  ss_style :: style

definition merge_styles :: "style \<Rightarrow> style \<Rightarrow> style" where
  "merge_styles base over =
     \<lparr>fg = (if fg over = DefaultColor then fg base else fg over),
      bg = (if bg over = DefaultColor then bg base else bg over),
      bold = (bold base \<or> bold over),
      italic = (italic base \<or> italic over),
      underline = (if underline over = UnderlineNone then underline base else underline over),
      reverse = (reverse base \<or> reverse over),
      underline_color = (if underline_color over = DefaultColor then underline_color base else underline_color over)\<rparr>"

text \<open>The part of the viewport the cell overlays read.\<close>

record cell_viewport =
  vp_origin :: cell_coord
  vp_size :: cell_size

fun merge_columns :: "nat \<Rightarrow> nat \<Rightarrow> style \<Rightarrow> nat list \<Rightarrow> cell_grid \<Rightarrow> cell_grid option" where
  "merge_columns row origin_col st [] g = Some g"
| "merge_columns row origin_col st (col # cols) g = do {
     let at = coord_new row (origin_col + col);
     c \<leftarrow> grid_get at g;
     g' \<leftarrow> grid_put at (c\<lparr>cell_style := merge_styles (cell_style c) st\<rparr>) g;
     merge_columns row origin_col st cols g'
   }"

fun style_overlay_render :: "style_span list \<Rightarrow> cell_viewport \<Rightarrow> cell_grid \<Rightarrow> cell_grid option" where
  "style_overlay_render [] v g = Some g"
| "style_overlay_render (s # spans) v g =
     (if size_rows (vp_size v) \<le> ss_row s then style_overlay_render spans v g
      else do {
        let max_col = size_cols (vp_size v);
        g' \<leftarrow> merge_columns (coord_row (vp_origin v) + ss_row s) (coord_col (vp_origin v)) (ss_style s)
                [min (ss_start_col s) max_col..<min (ss_end_col s) max_col] g;
        style_overlay_render spans v g'
      })"

record virtual_cell =
  vc_row :: nat
  vc_col :: nat
  vc_cell :: cell

fun virtual_overlay_render :: "virtual_cell list \<Rightarrow> cell_viewport \<Rightarrow> cell_grid \<Rightarrow> cell_grid option" where
  "virtual_overlay_render [] v g = Some g"
| "virtual_overlay_render (vc # vcs) v g =
     (if size_rows (vp_size v) \<le> vc_row vc \<or> size_cols (vp_size v) \<le> vc_col vc then virtual_overlay_render vcs v g
      else do {
        g' \<leftarrow> grid_put (coord_new (coord_row (vp_origin v) + vc_row vc) (coord_col (vp_origin v) + vc_col vc)) (vc_cell vc) g;
        virtual_overlay_render vcs v g'
      })"

text \<open>Stacked overlays merge like one: styles are a monoid, with the default style as its unit.\<close>

lemma merge_styles_assoc: "merge_styles (merge_styles a b) c = merge_styles a (merge_styles b c)"
  by (simp add: merge_styles_def)

lemma merge_styles_default: "merge_styles default_style a = a" "merge_styles a default_style = a"
  by (simp_all add: merge_styles_def default_style_def)

section \<open>Style spans in buffer bytes\<close>

record buffer_style_span =
  bs_start :: nat
  bs_end :: nat
  bs_style :: style

type_synonym style_spans = "buffer_style_span list"

text \<open>The fragments a span leaves: before the replaced range, and after it, shifted.\<close>

definition split_span :: "nat \<Rightarrow> nat \<Rightarrow> nat \<Rightarrow> buffer_style_span \<Rightarrow> style_spans" where
  "split_span old_start old_end new_len s =
     (let old_len = old_end - old_start
      in (if bs_start s < old_start
          then [\<lparr>bs_start = bs_start s, bs_end = min (bs_end s) old_start, bs_style = bs_style s\<rparr>] else []) @
         (if old_end < bs_end s
          then [\<lparr>bs_start = max (bs_start s) old_end - old_len + new_len, bs_end = bs_end s - old_len + new_len,
                 bs_style = bs_style s\<rparr>] else []))"

definition translate_spans :: "edit \<Rightarrow> style_spans \<Rightarrow> style_spans" where
  "translate_spans ed spans =
     (let old_start = range_start (edit_range ed); old_end = range_end (edit_range ed); new_len = inserted_len ed
      in if old_end - old_start = 0 \<and> new_len = 0 then spans
         else concat (map (split_span old_start old_end new_len) spans))"

definition span_translator_ops :: "style_spans view_ops" where
  "span_translator_ops =
     \<lparr>intercept_edit = (\<lambda>s ctx op. (s, Inr op)), on_edit = (\<lambda>s b ed. (translate_spans ed s, None))\<rparr>"

definition spans_ok :: "nat \<Rightarrow> style_spans \<Rightarrow> bool" where
  "spans_ok n spans \<longleftrightarrow> (\<forall>s \<in> set spans. bs_start s \<le> bs_end s \<and> bs_end s \<le> n)"

lemma spans_ok_translate:
  assumes "spans_ok n spans" and "range_start (edit_range ed) \<le> range_end (edit_range ed)"
    and "range_end (edit_range ed) \<le> n"
  shows "spans_ok (n - range_len (edit_range ed) + inserted_len ed) (translate_spans ed spans)"
proof -
  have "spans_ok (n - (e - s) + k) (split_span s e k x)"
    if "bs_start x \<le> bs_end x" "bs_end x \<le> n" "s \<le> e" "e \<le> n" for s e k x
    using that by (auto simp: spans_ok_def split_span_def Let_def)
  then show ?thesis
    using assms by (auto simp: spans_ok_def translate_spans_def Let_def range_len_def)
qed

interpretation st: edit_tracker span_translator_ops "\<lambda>xs spans. spans_ok (length xs) spans"
proof
  fix old new :: rope and v :: style_spans and ed :: edit and b :: "style_spans buffer"
  assume ok: "spans_ok (length (contents old)) v" and d: "describes old new (edit_range ed) (inserted_len ed)"
  then have "spans_ok (length (contents old) - range_len (edit_range ed) + inserted_len ed) (translate_spans ed v)"
    by (intro spans_ok_translate) (simp_all add: describes_def)
  then show "spans_ok (length (contents new)) (fst (on_edit span_translator_ops v b ed))"
    using describes_length [OF d] by (simp add: span_translator_ops_def range_len_def)
qed (simp_all add: span_translator_ops_def)

text \<open>
  A buffer with translators: attached over stores that fit the text, stores rewritten by their owner,
  translators detached, and the operations of the buffer.
\<close>

inductive span_reach :: "style_spans buffer \<Rightarrow> bool" where
  sr_start: "span_reach (buffer_from_bytes i name bs)"
| sr_attach: "span_reach b \<Longrightarrow> spans_ok (buffer_len b) spans \<Longrightarrow> attach_view spans b = (b', i) \<Longrightarrow> span_reach b'"
| sr_detach: "span_reach b \<Longrightarrow> detach_view i b = (b', r) \<Longrightarrow> span_reach b'"
| sr_owner: "span_reach b \<Longrightarrow> (\<And>s. spans_ok (buffer_len b) s \<Longrightarrow> spans_ok (buffer_len b) (f s)) \<Longrightarrow>
    update_first i f (buf_views b) = Some vs \<Longrightarrow> span_reach (b\<lparr>buf_views := vs\<rparr>)"
| sr_edit: "span_reach b \<Longrightarrow> apply_edit_as span_translator_ops source op b = Some (b', r) \<Longrightarrow> span_reach b'"
| sr_edit_skip:
    "span_reach b \<Longrightarrow> apply_edit_skip_intercepts_as span_translator_ops source op b = Some (b', r) \<Longrightarrow> span_reach b'"
| sr_generated: "span_reach b \<Longrightarrow> set_generated_contents span_translator_ops bs b = Some (b', r) \<Longrightarrow> span_reach b'"
| sr_undo: "span_reach b \<Longrightarrow> undo_for span_translator_ops source b = Some (b', r) \<Longrightarrow> span_reach b'"
| sr_redo: "span_reach b \<Longrightarrow> redo_for span_translator_ops source b = Some (b', r) \<Longrightarrow> span_reach b'"

lemma span_buffer_len: "buffer_inv b \<Longrightarrow> buffer_len b = length (contents (buf_rope b))"
  by (simp add: buffer_len_def rope_len_contents buffer_inv_def)

lemma update_views_inv:
  assumes "buffer_inv b" and "update_first i f (buf_views b) = Some vs"
  shows "buffer_inv (b\<lparr>buf_views := vs\<rparr>)"
proof -
  have "views_ok (b\<lparr>buf_views := buf_views b\<rparr>)" using assms(1) by (simp add: buffer_inv_def)
  then show ?thesis using buffer_inv_same_ids [OF assms(1) update_first_keys [OF assms(2)]] by blast
qed

lemmas span_track = st.edit_tracks st.edit_skip_tracks st.generated_tracks st.undo_tracks st.redo_tracks

lemma span_reach_inv: "span_reach b \<Longrightarrow> buffer_inv b \<and> st.in_step b"
proof (induction rule: span_reach.induct)
  case (sr_start i name bs)
  then show ?case
    using buffer_inv_from_bytes by (auto simp: st.in_step_def buffer_from_bytes_def buffer_from_rope_def)
next
  case (sr_attach b spans b' i)
  then show ?case using span_buffer_len [of b] by (auto intro: attach_view_inv st.attach_tracks)
next
  case (sr_detach b i b' r)
  then show ?case using detach_view_inv st.detach_tracks by blast
next
  case (sr_owner b f i vs)
  then have b: "buffer_inv b" "st.in_step b" by simp_all
  have "st.in_step (b\<lparr>buf_views := vs\<rparr>)"
    by (rule st.update_tracks [OF b(2) sr_owner.hyps(3)]) (use sr_owner.hyps(2) span_buffer_len [OF b(1)] in simp)
  with update_views_inv [OF b(1) sr_owner.hyps(3)] show ?case by simp
qed (blast intro: buffer_inv_intros span_track)+

section \<open>The styling of the text\<close>

text \<open>The styles of a byte, in the order of the store.\<close>

definition styles_at :: "style_spans \<Rightarrow> nat \<Rightarrow> style list" where
  "styles_at spans i = map bs_style (filter (\<lambda>s. bs_start s \<le> i \<and> i < bs_end s) spans)"

definition styling :: "nat \<Rightarrow> style_spans \<Rightarrow> style list list" where
  "styling n spans = map (styles_at spans) [0..<n]"

lemma styles_at_append [simp]: "styles_at (xs @ ys) i = styles_at xs i @ styles_at ys i"
  by (simp add: styles_at_def)

lemma styles_at_Nil [simp]: "styles_at [] i = []"
  by (simp add: styles_at_def)

lemma styles_at_split:
  assumes "s \<le> e"
  shows "styles_at (split_span s e k x) i =
    (if i < s then styles_at [x] i else if i < s + k then [] else styles_at [x] (i - k + (e - s)))"
proof -
  have right: "e < bs_end x \<and> max (bs_start x) e - (e - s) + k \<le> i \<and> i < bs_end x - (e - s) + k \<longleftrightarrow>
      e < bs_end x \<and> s + k \<le> i \<and> bs_start x \<le> i - k + (e - s) \<and> i - k + (e - s) < bs_end x"
  proof (cases "e < bs_end x")
    case True
    then show ?thesis using assms by (cases "bs_start x \<le> e") (simp_all add: max_def, linarith+)
  qed simp
  have one: "styles_at (if P then [y] else []) i =
      (if P \<and> bs_start y \<le> i \<and> i < bs_end y then [bs_style y] else [])" for P y i
    by (simp add: styles_at_def)
  have left: "styles_at (split_span s e k x) i =
      (if bs_start x < s \<and> bs_start x \<le> i \<and> i < bs_end x \<and> i < s then [bs_style x] else []) @
      (if e < bs_end x \<and> s + k \<le> i \<and> bs_start x \<le> i - k + (e - s) \<and> i - k + (e - s) < bs_end x then [bs_style x] else [])"
    unfolding split_span_def Let_def styles_at_append one buffer_style_span.simps right by simp
  have whole: "styles_at [x] j = (if bs_start x \<le> j \<and> j < bs_end x then [bs_style x] else [])" for j
    by (simp add: styles_at_def)
  show ?thesis
    unfolding left whole using assms by (simp, linarith)
qed

lemma styles_at_translate:
  assumes "range_start (edit_range ed) \<le> range_end (edit_range ed)"
  shows "styles_at (translate_spans ed spans) i =
    (if i < range_start (edit_range ed) then styles_at spans i
     else if i < range_start (edit_range ed) + inserted_len ed then []
     else styles_at spans (i - inserted_len ed + range_len (edit_range ed)))"
proof (cases "range_len (edit_range ed) = 0 \<and> inserted_len ed = 0")
  case True
  then show ?thesis by (simp add: translate_spans_def range_len_def Let_def)
next
  case False
  have all: "styles_at (concat (map (split_span s e k) spans)) i =
      (if i < s then styles_at spans i else if i < s + k then [] else styles_at spans (i - k + (e - s)))"
    if "s \<le> e" for s e k
  proof (induction spans)
    case (Cons x xs)
    have "styles_at (x # xs) j = styles_at [x] j @ styles_at xs j" for j by (simp add: styles_at_def)
    then show ?case using Cons by (simp add: styles_at_split [OF that])
  qed simp
  show ?thesis
    using False all [OF assms, of "inserted_len ed"] by (simp add: translate_spans_def range_len_def Let_def)
qed

text \<open>The styling is spliced as the text is, with the inserted bytes unstyled.\<close>

lemma styling_translate:
  assumes d: "describes old new (edit_range ed) (inserted_len ed)"
  shows "styling (length (contents new)) (translate_spans ed spans) =
    splice_list (range_start (edit_range ed)) (range_end (edit_range ed)) (replicate (inserted_len ed) [])
      (styling (length (contents old)) spans)"
proof (rule nth_equalityI)
  let ?s = "range_start (edit_range ed)" and ?e = "range_end (edit_range ed)" and ?k = "inserted_len ed"
  have se: "?s \<le> ?e" "?e \<le> length (contents old)" using d by (simp_all add: describes_def)
  note len = describes_length [OF d]
  show "length (styling (length (contents new)) (translate_spans ed spans)) =
      length (splice_list ?s ?e (replicate ?k []) (styling (length (contents old)) spans))"
    using se by (simp add: styling_def splice_list_def len)
  fix i assume "i < length (styling (length (contents new)) (translate_spans ed spans))"
  then have i: "i < length (contents new)" by (simp add: styling_def)
  then show "styling (length (contents new)) (translate_spans ed spans) ! i =
      splice_list ?s ?e (replicate ?k []) (styling (length (contents old)) spans) ! i"
    using se len
    by (auto simp: styling_def splice_list_def styles_at_translate nth_append range_len_def min_def
        add.commute Nat.diff_diff_right intro!: arg_cong [of _ _ "styles_at spans"])
qed

text \<open>An edit of the buffer hands every translator the edit it made.\<close>

lemma broadcast_translates:
  "broadcast span_translator_ops b ed vs = (map (\<lambda>(i, s). (i, translate_spans ed s)) vs, None)"
  by (induction vs) (auto simp: span_translator_ops_def)

lemma edit_skip_translates:
  assumes inv: "buffer_inv b" and run: "apply_edit_skip_intercepts_as span_translator_ops source op b = Some (b', Inr ed)"
  shows "buf_views b' = map (\<lambda>(i, s). (i, translate_spans ed s)) (buf_views b) \<and>
    describes (buf_rope b) (buf_rope b') (edit_range ed) (inserted_len ed)"
proof -
  let ?b = "b\<lparr>buf_views := []\<rparr>"
  obtain b1 vs where r: "run_rope_edit_and_broadcast span_translator_ops (buf_views b) op source ?b = Some (b1, vs, Inr ed)"
    "b' = b1\<lparr>buf_views := vs\<rparr>"
    using run by (auto simp: apply_edit_skip_intercepts_as_def split: option.splits)
  then have ok: "rope_apply (buf_rope b) op = Ok ed"
    and b1: "b1 = (if range_is_empty (edit_range ed) \<and> inserted_len ed = 0 then ?b else commit_edit ed ?b)"
    and vs: "vs = map (\<lambda>(i, s). (i, translate_spans ed s)) (buf_views b)"
    by (auto simp: run_rope_edit_and_broadcast_def broadcast_translates Let_def split: option.splits sum.splits)
  have d: "describes (buf_rope b) (new_rope ed) (edit_range ed) (inserted_len ed)"
    using rope_apply_describes [of "buf_rope b" op ed] inv ok by (auto simp: buffer_inv_def)
  have "contents (buf_rope b') = contents (new_rope ed)"
  proof (cases "range_is_empty (edit_range ed) \<and> inserted_len ed = 0")
    case True
    have "contents (new_rope ed) = splice_list (range_start (edit_range ed)) (range_end (edit_range ed))
        (segment (range_start (edit_range ed)) (range_start (edit_range ed) + inserted_len ed) (contents (new_rope ed)))
        (contents (buf_rope b))"
      using d by (simp only: describes_def)
    then show ?thesis using True r(2) by (simp add: b1 range_is_empty_def splice_list_noop)
  qed (auto simp: r(2) b1)
  with d vs r(2) show ?thesis by (simp add: describes_def)
qed

section \<open>Painting\<close>

text \<open>The viewport lies inside the grid, and the grid inside its slice.\<close>

definition viewport_fits :: "cell_viewport \<Rightarrow> cell_grid \<Rightarrow> bool" where
  "viewport_fits v g \<longleftrightarrow>
     coord_row (vp_origin v) + size_rows (vp_size v) \<le> size_rows (grid_size g) \<and>
     coord_col (vp_origin v) + size_cols (vp_size v) \<le> size_cols (grid_size g) \<and>
     fits (grid_stride g) (grid_size g) (grid_cells g)"

lemma grid_index_fits:
  assumes "fits (grid_stride g) (grid_size g) (grid_cells g)"
    and "r < size_rows (grid_size g)" and "c < size_cols (grid_size g)"
  shows "grid_index (coord_new r c) g = Some (r * grid_stride g + c) \<and> r * grid_stride g + c < length (grid_cells g)"
  using fits_row [OF assms(1,2)] assms by (auto simp: grid_index_def coord_new_def)

text \<open>Distinct coordinates are distinct cells.\<close>

lemma index_inj:
  assumes "c < stride" and "c' < stride" and "r * stride + c = r' * stride + (c' :: nat)"
  shows "r = r' \<and> c = c'"
proof -
  have "(r * stride + c) div stride = r" "(r' * stride + c') div stride = r'"
    "(r * stride + c) mod stride = c" "(r' * stride + c') mod stride = c'"
    using assms(1,2) by simp_all
  with assms(3) show ?thesis by metis
qed

definition restyled :: "(style \<Rightarrow> style) \<Rightarrow> cell \<Rightarrow> cell" where
  "restyled f c = c\<lparr>cell_style := f (cell_style c)\<rparr>"

text \<open>The cell of a grid at a row and a column.\<close>

definition cell_at :: "cell_grid \<Rightarrow> nat \<Rightarrow> nat \<Rightarrow> cell" where
  "cell_at g r c = grid_cells g ! (r * grid_stride g + c)"

definition same_shape :: "cell_grid \<Rightarrow> cell_grid \<Rightarrow> bool" where
  "same_shape g g' \<longleftrightarrow> grid_size g' = grid_size g \<and> grid_stride g' = grid_stride g \<and>
     length (grid_cells g') = length (grid_cells g)"

lemma merge_columns_ok:
  assumes "fits (grid_stride g) (grid_size g) (grid_cells g)" and "row < size_rows (grid_size g)"
    and "\<forall>col \<in> set cols. origin + col < size_cols (grid_size g)" and "distinct cols"
  shows "\<exists>g'. merge_columns row origin st cols g = Some g' \<and> same_shape g g' \<and>
    (\<forall>r c. c < grid_stride g \<longrightarrow> r * grid_stride g + c < length (grid_cells g) \<longrightarrow>
      cell_at g' r c =
        (if r = row \<and> c \<in> (+) origin ` set cols then restyled (\<lambda>s. merge_styles s st) (cell_at g r c) else cell_at g r c))"
  using assms
proof (induction cols arbitrary: g)
  case Nil
  then show ?case by (simp add: same_shape_def)
next
  case (Cons col cols)
  let ?i = "row * grid_stride g + (origin + col)"
  have i: "grid_index (coord_new row (origin + col)) g = Some ?i" "?i < length (grid_cells g)"
    using grid_index_fits [OF Cons.prems(1,2), of "origin + col"] Cons.prems(3) by auto
  have stride: "origin + col < grid_stride g" using Cons.prems(1,3) by (auto simp: fits_def)
  let ?c = "restyled (\<lambda>s. merge_styles s st) (grid_cells g ! ?i)"
  define g1 where "g1 = g\<lparr>grid_cells := (grid_cells g)[?i := ?c]\<rparr>"
  have g1: "grid_size g1 = grid_size g" "grid_stride g1 = grid_stride g" "length (grid_cells g1) = length (grid_cells g)"
    by (simp_all add: g1_def)
  have at1: "cell_at g1 r c = (if r = row \<and> c = origin + col then ?c else cell_at g r c)"
    if "c < grid_stride g" "r * grid_stride g + c < length (grid_cells g)" for r c
    using that index_inj [OF stride that(1), of row r] i(2)
    by (auto simp: cell_at_def g1_def nth_list_update)
  have "\<exists>g'. merge_columns row origin st cols g1 = Some g' \<and> same_shape g1 g' \<and>
    (\<forall>r c. c < grid_stride g1 \<longrightarrow> r * grid_stride g1 + c < length (grid_cells g1) \<longrightarrow>
      cell_at g' r c =
        (if r = row \<and> c \<in> (+) origin ` set cols then restyled (\<lambda>s. merge_styles s st) (cell_at g1 r c) else cell_at g1 r c))"
    by (rule Cons.IH) (use Cons.prems in \<open>auto simp: g1 fits_def\<close>)
  then obtain g' where g': "merge_columns row origin st cols g1 = Some g'" "same_shape g g'"
    "\<And>r c. c < grid_stride g \<Longrightarrow> r * grid_stride g + c < length (grid_cells g) \<Longrightarrow>
      cell_at g' r c =
        (if r = row \<and> c \<in> (+) origin ` set cols then restyled (\<lambda>s. merge_styles s st) (cell_at g1 r c) else cell_at g1 r c)"
    by (auto simp: same_shape_def g1)
  have "merge_columns row origin st (col # cols) g = Some g'"
    using i g'(1) by (simp add: grid_get_def grid_put_def returns_nth_opt returns_upd_opt restyled_def g1_def Let_def)
  moreover have "cell_at g' r c =
      (if r = row \<and> c \<in> (+) origin ` set (col # cols) then restyled (\<lambda>s. merge_styles s st) (cell_at g r c) else cell_at g r c)"
    if "c < grid_stride g" "r * grid_stride g + c < length (grid_cells g)" for r c
    using g'(3) [OF that] at1 [OF that] Cons.prems(4) by (auto simp: cell_at_def)
  ultimately show ?case using g'(2) by blast
qed

text \<open>The reference: the styles of the spans that cover a cell of the viewport, merged in order.\<close>

definition span_covers :: "cell_viewport \<Rightarrow> nat \<Rightarrow> nat \<Rightarrow> style_span \<Rightarrow> bool" where
  "span_covers v r c s \<longleftrightarrow> ss_row s < size_rows (vp_size v) \<and> r = coord_row (vp_origin v) + ss_row s \<and>
     coord_col (vp_origin v) + ss_start_col s \<le> c \<and> c < coord_col (vp_origin v) + min (ss_end_col s) (size_cols (vp_size v))"

definition painted_style :: "style_span list \<Rightarrow> cell_viewport \<Rightarrow> nat \<Rightarrow> nat \<Rightarrow> style \<Rightarrow> style" where
  "painted_style spans v r c st = fold (\<lambda>s st. merge_styles st (ss_style s)) (filter (span_covers v r c) spans) st"

lemma style_overlay_ok:
  assumes "viewport_fits v g"
  shows "\<exists>g'. style_overlay_render spans v g = Some g' \<and> same_shape g g' \<and>
    (\<forall>r c. c < grid_stride g \<longrightarrow> r * grid_stride g + c < length (grid_cells g) \<longrightarrow>
      cell_at g' r c = restyled (painted_style spans v r c) (cell_at g r c))"
  using assms
proof (induction spans arbitrary: g)
  case Nil
  then show ?case by (simp add: same_shape_def painted_style_def restyled_def)
next
  case (Cons s spans)
  have fit: "fits (grid_stride g) (grid_size g) (grid_cells g)" using Cons.prems by (simp add: viewport_fits_def)
  show ?case
  proof (cases "size_rows (vp_size v) \<le> ss_row s")
    case True
    then have "\<not> span_covers v r c s" for r c by (simp add: span_covers_def)
    then show ?thesis using True Cons.IH [OF Cons.prems] by (simp add: painted_style_def)
  next
    case False
    let ?cols = "[min (ss_start_col s) (size_cols (vp_size v))..<min (ss_end_col s) (size_cols (vp_size v))]"
    have "\<exists>g1. merge_columns (coord_row (vp_origin v) + ss_row s) (coord_col (vp_origin v)) (ss_style s) ?cols g = Some g1 \<and>
      same_shape g g1 \<and>
      (\<forall>r c. c < grid_stride g \<longrightarrow> r * grid_stride g + c < length (grid_cells g) \<longrightarrow>
        cell_at g1 r c =
          (if r = coord_row (vp_origin v) + ss_row s \<and> c \<in> (+) (coord_col (vp_origin v)) ` set ?cols
           then restyled (\<lambda>st. merge_styles st (ss_style s)) (cell_at g r c) else cell_at g r c))"
      by (rule merge_columns_ok [OF fit]) (use Cons.prems False in \<open>auto simp: viewport_fits_def\<close>)
    then obtain g1 where g1: "merge_columns (coord_row (vp_origin v) + ss_row s) (coord_col (vp_origin v)) (ss_style s) ?cols g = Some g1"
      "same_shape g g1"
      "\<And>r c. c < grid_stride g \<Longrightarrow> r * grid_stride g + c < length (grid_cells g) \<Longrightarrow>
        cell_at g1 r c =
          (if r = coord_row (vp_origin v) + ss_row s \<and> c \<in> (+) (coord_col (vp_origin v)) ` set ?cols
           then restyled (\<lambda>st. merge_styles st (ss_style s)) (cell_at g r c) else cell_at g r c)"
      by blast
    have shape: "grid_size g1 = grid_size g" "grid_stride g1 = grid_stride g" "length (grid_cells g1) = length (grid_cells g)"
      using g1(2) by (simp_all add: same_shape_def)
    have cov: "span_covers v r c s \<longleftrightarrow>
        r = coord_row (vp_origin v) + ss_row s \<and> c \<in> (+) (coord_col (vp_origin v)) ` set ?cols" for r c
      using False by (auto simp: span_covers_def image_iff Bex_def less_diff_conv2 intro!: exI [of _ "c - coord_col (vp_origin v)"])
    have g1_cell: "cell_at g1 r c =
        (if span_covers v r c s then restyled (\<lambda>st. merge_styles st (ss_style s)) (cell_at g r c) else cell_at g r c)"
      if "c < grid_stride g" "r * grid_stride g + c < length (grid_cells g)" for r c
      unfolding cov by (rule g1(3) [OF that])
    have "viewport_fits v g1" using Cons.prems by (simp add: viewport_fits_def shape fits_def)
    from Cons.IH [OF this] obtain g' where g': "style_overlay_render spans v g1 = Some g'" "same_shape g1 g'"
      "\<And>r c. c < grid_stride g \<Longrightarrow> r * grid_stride g + c < length (grid_cells g) \<Longrightarrow>
        cell_at g' r c = restyled (painted_style spans v r c) (cell_at g1 r c)"
      by (auto simp: shape)
    have "style_overlay_render (s # spans) v g = Some g'" using False g1(1) g'(1) by (simp add: Let_def)
    moreover have "same_shape g g'" using g1(2) g'(2) by (simp add: same_shape_def)
    moreover have "cell_at g' r c = restyled (painted_style (s # spans) v r c) (cell_at g r c)"
      if "c < grid_stride g" "r * grid_stride g + c < length (grid_cells g)" for r c
      using g'(3) [OF that] g1_cell [OF that] by (cases "span_covers v r c s") (simp_all add: painted_style_def restyled_def)
    ultimately show ?thesis by blast
  qed
qed

end
