(* ===== verification/Wire_Grid.thy ===== *)
theory Wire_Grid
  imports Terminal_Screen
begin

text \<open>
  The validation of every grid of cells on the wire, \<^verbatim>\<open>src/pmacs-protocol/src/wire_grid.rs\<close>, and of the two
  frames that carry one, \<^verbatim>\<open>PanelFrame\<close> and \<^verbatim>\<open>TerminalFrame\<close>. Widths are those of the record \<open>unicode\<close>. A
  remainder by zero and an index below zero are panics.
\<close>

section \<open>Limits and errors\<close>

definition MAX_WIRE_GRID_GLYPH_BYTES :: nat where "MAX_WIRE_GRID_GLYPH_BYTES = 8388608"
definition MAX_WIRE_GRID_GRAPHEME_BYTES :: nat where "MAX_WIRE_GRID_GRAPHEME_BYTES = 256"
definition MAX_WIRE_GRID_VISIBLE_CELLS :: nat where "MAX_WIRE_GRID_VISIBLE_CELLS = 262144"
definition USIZE_MAX :: nat where "USIZE_MAX = 18446744073709551615"
definition MAX_U32 :: nat where "MAX_U32 = 4294967295"

record wire_grid_limits =
  max_rows :: nat
  max_cols :: nat
  max_visible_cells :: nat
  max_glyph_bytes :: nat

datatype wire_grid_error =
    WireSize nat nat nat nat
  | WireArea nat nat
  | WireCellCount nat nat
  | WireCursor nat nat nat nat
  | WireGlyph nat string
  | WireAttachment nat
  | WireGlyphBudget nat

section \<open>The checks\<close>

definition checked_area :: "cell_size \<Rightarrow> wire_grid_limits \<Rightarrow> (wire_grid_error, nat) outcome" where
  "checked_area sz l =
     (let rows = size_rows sz; cols = size_cols sz
      in if rows = 0 \<or> cols = 0 \<or> max_rows l < rows \<or> max_cols l < cols
         then Err (WireSize rows cols (max_rows l) (max_cols l))
         else if MAX_U32 < rows * cols then Err (WireArea USIZE_MAX (max_visible_cells l))
         else if max_visible_cells l < rows * cols then Err (WireArea (rows * cols) (max_visible_cells l))
         else Ok (rows * cols))"

definition char_display_width :: "unicode \<Rightarrow> uchar \<Rightarrow> nat option" where
  "char_display_width u c =
     (if is_control c then None
      else if char_width u c = Some 1 then Some 1 else if char_width u c = Some 2 then Some 2 else None)"

definition cluster_display_width :: "unicode \<Rightarrow> byte list \<Rightarrow> nat \<Rightarrow> (wire_grid_error, nat) outcome" where
  "cluster_display_width u bs index =
     (if bs = [] then Err (WireGlyph index ''cluster is empty'')
      else if MAX_WIRE_GRID_GRAPHEME_BYTES < length bs
      then Err (WireGlyph index ''cluster exceeds the per-cluster byte limit'')
      else case utf8_text bs of
          None \<Rightarrow> Err (WireGlyph index ''cluster is not valid UTF-8'')
        | Some t \<Rightarrow>
            if list_ex is_control t then Err (WireGlyph index ''cluster carries a control character'')
            else if str_width u t = 0 then Err (WireGlyph index ''cluster occupies no columns'')
            else Ok (min (str_width u t) 2))"

definition add_glyph_bytes :: "nat \<Rightarrow> nat \<Rightarrow> wire_grid_limits \<Rightarrow> (wire_grid_error, nat) outcome" where
  "add_glyph_bytes so_far n l =
     (if USIZE_MAX < so_far + n then Err (WireGlyphBudget (max_glyph_bytes l))
      else if max_glyph_bytes l < so_far + n then Err (WireGlyphBudget (max_glyph_bytes l))
      else Ok (so_far + n))"

text \<open>The loop of \<^verbatim>\<open>validate_cells\<close>: the index, the bytes so far, whether a continuation is owed.\<close>

fun cells_loop ::
    "unicode \<Rightarrow> nat \<Rightarrow> wire_grid_limits \<Rightarrow> nat \<Rightarrow> nat \<Rightarrow> bool \<Rightarrow> cell list \<Rightarrow> (wire_grid_error, bool) outcome" where
  "cells_loop u cols l index spent pending [] = Ok pending"
| "cells_loop u cols l index spent pending (c # cs) =
     (if cell_attachment c \<noteq> None then Err (WireAttachment index)
      else if cols = 0 then Panic
      else if index mod cols = 0 \<and> pending
      then (if index = 0 then Panic
            else Err (WireGlyph (index - 1) ''wide glyph has no continuation column on its row''))
      else case cell_glyph c of
          Continuation \<Rightarrow>
            if \<not> pending then Err (WireGlyph index ''continuation without a preceding wide glyph'')
            else cells_loop u cols l (index + 1) spent False cs
        | GChar ch \<Rightarrow>
            if pending then Err (WireGlyph index ''wide glyph is not followed by its continuation'')
            else (case char_display_width u ch of
                None \<Rightarrow> Err (WireGlyph index ''glyph is a control or zero-width character'')
              | Some width \<Rightarrow>
                  try_bind (add_glyph_bytes spent (length (encode_char ch)) l)
                    (\<lambda>n. cells_loop u cols l (index + 1) n (width = 2) cs))
        | Cluster bs \<Rightarrow>
            if pending then Err (WireGlyph index ''wide glyph is not followed by its continuation'')
            else
              try_bind (cluster_display_width u bs index) (\<lambda>width.
                try_bind (add_glyph_bytes spent (length bs) l)
                  (\<lambda>n. cells_loop u cols l (index + 1) n (width = 2) cs)))"

definition validate_cells :: "unicode \<Rightarrow> cell_size \<Rightarrow> cell list \<Rightarrow> wire_grid_limits \<Rightarrow> (wire_grid_error, unit) outcome" where
  "validate_cells u sz cs l =
     try_bind (cells_loop u (size_cols sz) l 0 0 False cs) (\<lambda>pending.
       if pending
       then (if cs = [] then Panic
             else Err (WireGlyph (length cs - 1) ''wide glyph has no continuation column on its row''))
       else Ok ())"

definition validate_wire_grid ::
    "unicode \<Rightarrow> cell_size \<Rightarrow> cell list \<Rightarrow> cell_coord option \<Rightarrow> wire_grid_limits \<Rightarrow> (wire_grid_error, unit) outcome" where
  "validate_wire_grid u sz cs cur l =
     try_bind (checked_area sz l) (\<lambda>area.
       if length cs \<noteq> area then Err (WireCellCount area (length cs))
       else case cur of
           Some c \<Rightarrow>
             if size_rows sz \<le> coord_row c \<or> size_cols sz \<le> coord_col c
             then Err (WireCursor (coord_row c) (coord_col c) (size_rows sz) (size_cols sz))
             else validate_cells u sz cs l
         | None \<Rightarrow> validate_cells u sz cs l)"

section \<open>The panel frame\<close>

record panel_frame =
  pf_buffer_id :: nat
  panel_epoch :: nat
  geometry_epoch :: nat
  pf_size :: cell_size
  pf_cells :: "cell list"
  pf_cursor :: "cell_coord option"
  pf_focused :: bool

definition PANEL_GRID_LIMITS :: wire_grid_limits where
  "PANEL_GRID_LIMITS =
     \<lparr>max_rows = MAX_WIRE_GRID_VISIBLE_CELLS, max_cols = MAX_WIRE_GRID_VISIBLE_CELLS,
      max_visible_cells = MAX_WIRE_GRID_VISIBLE_CELLS, max_glyph_bytes = MAX_WIRE_GRID_GLYPH_BYTES\<rparr>"

datatype panel_frame_error =
    PanelSize nat nat nat nat
  | PanelArea nat nat
  | PanelCellCount nat nat
  | PanelCursor nat nat nat nat
  | PanelGlyph nat string
  | PanelAttachment nat
  | PanelGlyphBudget nat
  | PanelZeroEpoch string

fun panel_grid_error :: "wire_grid_error \<Rightarrow> panel_frame_error" where
  "panel_grid_error (WireSize r c mr mc) = PanelSize r c mr mc"
| "panel_grid_error (WireArea a m) = PanelArea a m"
| "panel_grid_error (WireCellCount e a) = PanelCellCount e a"
| "panel_grid_error (WireCursor r c rs cs) = PanelCursor r c rs cs"
| "panel_grid_error (WireGlyph i why) = PanelGlyph i why"
| "panel_grid_error (WireAttachment i) = PanelAttachment i"
| "panel_grid_error (WireGlyphBudget m) = PanelGlyphBudget m"

text \<open>\<^verbatim>\<open>Result::map_err\<close>.\<close>

definition map_wire_err :: "('e \<Rightarrow> 'f) \<Rightarrow> ('e, 'a) outcome \<Rightarrow> ('f, 'a) outcome" where
  "map_wire_err f m = map_option (map_sum f id) m"

definition panel_validate :: "unicode \<Rightarrow> panel_frame \<Rightarrow> (panel_frame_error, unit) outcome" where
  "panel_validate u f =
     (if panel_epoch f = 0 then Err (PanelZeroEpoch ''panel'')
      else if geometry_epoch f = 0 then Err (PanelZeroEpoch ''geometry'')
      else map_wire_err panel_grid_error (validate_wire_grid u (pf_size f) (pf_cells f) (pf_cursor f) PANEL_GRID_LIMITS))"

section \<open>The terminal frame\<close>

datatype terminal_process_state = Running | Exited int | Signaled ustring | Crashed ustring

record selection_span =
  sel_row :: nat
  sel_start :: nat
  sel_end :: nat

record terminal_frame =
  tf_buffer_id :: nat
  tf_size :: cell_size
  tf_cells :: "cell list"
  tf_cursor :: "cell_coord option"
  tf_title :: "ustring option"
  tf_screen_generation :: nat
  tf_selection :: "selection_span list"
  tf_scroll_offset :: nat
  tf_at_bottom :: bool
  tf_pid :: nat
  tf_process :: terminal_process_state

datatype terminal_frame_error =
    TerminalSize nat nat nat nat
  | TerminalArea nat nat
  | TerminalCellCount nat nat
  | TerminalCursor nat nat nat nat
  | TerminalMetadata string string
  | TerminalGlyph nat string
  | TerminalAttachment nat
  | TerminalGlyphBudget nat
  | TerminalSelection nat string
  | TerminalBottomState bool nat

definition TERMINAL_GRID_LIMITS :: wire_grid_limits where
  "TERMINAL_GRID_LIMITS =
     \<lparr>max_rows = MAX_TERMINAL_ROWS, max_cols = MAX_TERMINAL_COLS, max_visible_cells = MAX_WIRE_GRID_VISIBLE_CELLS,
      max_glyph_bytes = MAX_WIRE_GRID_GLYPH_BYTES\<rparr>"

fun terminal_grid_error :: "wire_grid_error \<Rightarrow> terminal_frame_error" where
  "terminal_grid_error (WireSize r c mr mc) = TerminalSize r c mr mc"
| "terminal_grid_error (WireArea a m) = TerminalArea a m"
| "terminal_grid_error (WireCellCount e a) = TerminalCellCount e a"
| "terminal_grid_error (WireCursor r c rs cs) = TerminalCursor r c rs cs"
| "terminal_grid_error (WireGlyph i why) = TerminalGlyph i why"
| "terminal_grid_error (WireAttachment i) = TerminalAttachment i"
| "terminal_grid_error (WireGlyphBudget m) = TerminalGlyphBudget m"

definition validate_metadata :: "string \<Rightarrow> ustring \<Rightarrow> (terminal_frame_error, unit) outcome" where
  "validate_metadata field t =
     (if MAX_TERMINAL_METADATA_BYTES < length (encode_utf8 t)
      then Err (TerminalMetadata field ''exceeds the metadata byte limit'')
      else if list_ex is_control t then Err (TerminalMetadata field ''carries a control character'')
      else Ok ())"

fun selection_loop :: "cell_size \<Rightarrow> nat \<Rightarrow> nat option \<Rightarrow> selection_span list \<Rightarrow> (terminal_frame_error, unit) outcome" where
  "selection_loop sz index previous [] = Ok ()"
| "selection_loop sz index previous (s # spans) =
     (if size_rows sz \<le> sel_row s then Err (TerminalSelection index ''row is outside the frame'')
      else if sel_end s \<le> sel_start s then Err (TerminalSelection index ''span is empty or reversed'')
      else if size_cols sz < sel_end s then Err (TerminalSelection index ''span extends past the final column'')
      else if (case previous of Some p \<Rightarrow> sel_row s \<le> p | None \<Rightarrow> False)
      then Err (TerminalSelection index ''rows are not strictly increasing'')
      else selection_loop sz (index + 1) (Some (sel_row s)) spans)"

definition terminal_validate :: "unicode \<Rightarrow> terminal_frame \<Rightarrow> (terminal_frame_error, unit) outcome" where
  "terminal_validate u f =
     try_bind (map_wire_err terminal_grid_error
         (validate_wire_grid u (tf_size f) (tf_cells f) (tf_cursor f) TERMINAL_GRID_LIMITS)) (\<lambda>_.
     try_bind (case tf_title f of Some t \<Rightarrow> validate_metadata ''title'' t | None \<Rightarrow> Ok ()) (\<lambda>_.
     try_bind
       (case tf_process f of
          Signaled t \<Rightarrow> validate_metadata ''signal'' t
        | Crashed t \<Rightarrow> validate_metadata ''crash'' t
        | _ \<Rightarrow> Ok ()) (\<lambda>_.
     try_bind (selection_loop (tf_size f) 0 None (tf_selection f)) (\<lambda>_.
       if tf_at_bottom f \<noteq> (tf_scroll_offset f = 0) then Err (TerminalBottomState (tf_at_bottom f) (tf_scroll_offset f))
       else Ok ()))))"

section \<open>What a valid grid is\<close>

text \<open>A glyph that may lead a cell, with its columns and its bytes.\<close>

inductive leads :: "unicode \<Rightarrow> glyph \<Rightarrow> nat \<Rightarrow> bool" for u where
  lead_char: "\<not> is_control c \<Longrightarrow> char_width u c = Some w \<Longrightarrow> w = 1 \<or> w = 2 \<Longrightarrow> leads u (GChar c) w"
| lead_cluster: "bs \<noteq> [] \<Longrightarrow> length bs \<le> 256 \<Longrightarrow> utf8_text bs = Some t \<Longrightarrow> \<forall>c \<in> set t. \<not> is_control c \<Longrightarrow>
    0 < str_width u t \<Longrightarrow> leads u (Cluster bs) (min (str_width u t) 2)"

inductive_simps leads_simps: "leads u (GChar c) w" "leads u (Cluster bs) w" "leads u Continuation w"

text \<open>A row is tiled by narrow glyphs and by wide glyphs with their continuation.\<close>

inductive tiled :: "unicode \<Rightarrow> cell list \<Rightarrow> bool" for u where
  tiled_Nil: "tiled u []"
| tiled_narrow: "leads u (cell_glyph c) 1 \<Longrightarrow> cell_attachment c = None \<Longrightarrow> tiled u cs \<Longrightarrow> tiled u (c # cs)"
| tiled_wide: "leads u (cell_glyph c) 2 \<Longrightarrow> cell_attachment c = None \<Longrightarrow> cell_glyph d = Continuation \<Longrightarrow>
    cell_attachment d = None \<Longrightarrow> tiled u cs \<Longrightarrow> tiled u (c # d # cs)"

fun glyph_cost :: "glyph \<Rightarrow> nat" where
  "glyph_cost (GChar c) = length (encode_char c)"
| "glyph_cost (Cluster bs) = length bs"
| "glyph_cost Continuation = 0"

definition grid_cost :: "cell list \<Rightarrow> nat" where
  "grid_cost cs = sum_list (map (\<lambda>c. glyph_cost (cell_glyph c)) cs)"

definition valid_grid :: "unicode \<Rightarrow> cell_size \<Rightarrow> cell list \<Rightarrow> cell_coord option \<Rightarrow> wire_grid_limits \<Rightarrow> bool" where
  "valid_grid u sz cs cur l \<longleftrightarrow>
     0 < size_rows sz \<and> size_rows sz \<le> max_rows l \<and> 0 < size_cols sz \<and> size_cols sz \<le> max_cols l \<and>
     size_rows sz * size_cols sz \<le> max_visible_cells l \<and>
     length cs = size_rows sz * size_cols sz \<and>
     (\<forall>c \<in> set_option cur. coord_row c < size_rows sz \<and> coord_col c < size_cols sz) \<and>
     (\<forall>r < size_rows sz. tiled u (segment (r * size_cols sz) ((r + 1) * size_cols sz) cs)) \<and>
     grid_cost cs \<le> max_glyph_bytes l"

section \<open>The loop accepts the tiled rows\<close>

text \<open>One cell of the loop, without the budget and the ends of rows: whether a continuation is owed next.\<close>

inductive cell_step :: "unicode \<Rightarrow> bool \<Rightarrow> cell \<Rightarrow> bool \<Rightarrow> bool" for u where
  step_lead: "leads u (cell_glyph c) w \<Longrightarrow> cell_attachment c = None \<Longrightarrow> cell_step u False c (w = 2)"
| step_cont: "cell_glyph c = Continuation \<Longrightarrow> cell_attachment c = None \<Longrightarrow> cell_step u True c False"

inductive_simps cell_step_simps: "cell_step u p c q"

fun cell_run :: "unicode \<Rightarrow> bool \<Rightarrow> cell list \<Rightarrow> bool \<Rightarrow> bool" where
  "cell_run u p [] q \<longleftrightarrow> q = p"
| "cell_run u p (c # cs) q \<longleftrightarrow> (\<exists>p'. cell_step u p c p' \<and> cell_run u p' cs q)"

lemma cell_run_tiled: "cell_run u False cs False \<longleftrightarrow> tiled u cs"
proof
  show "tiled u cs" if "cell_run u False cs False"
    using that
  proof (induction "length cs" arbitrary: cs rule: less_induct)
    case less
    show ?case
    proof (cases cs)
      case Nil
      then show ?thesis by (simp add: tiled_Nil)
    next
      case (Cons c ds)
      then obtain w where w: "leads u (cell_glyph c) w" "cell_attachment c = None" "cell_run u (w = 2) ds False"
        using less.prems by (auto simp: cell_step_simps)
      then have "w = 1 \<or> w = 2" by (cases "cell_glyph c") (auto simp: leads_simps)
      then show ?thesis
      proof
        assume "w = 1"
        then show ?thesis using w less.hyps [of ds] Cons by (auto intro: tiled_narrow)
      next
        assume w2: "w = 2"
        then obtain d es where "ds = d # es" "cell_glyph d = Continuation" "cell_attachment d = None" "cell_run u False es False"
          using w(3) by (cases ds) (auto simp: cell_step_simps)
        then show ?thesis using w w2 less.hyps [of es] Cons by (auto intro: tiled_wide)
      qed
    qed
  qed
  show "cell_run u False cs False" if "tiled u cs"
    using that
  proof induction
    case tiled_Nil
    show ?case by simp
  next
    case (tiled_narrow c cs)
    have "cell_step u False c False" using step_lead [OF tiled_narrow.hyps(1,2)] by simp
    with tiled_narrow.IH show ?case by auto
  next
    case (tiled_wide c d cs)
    have "cell_step u False c True" using step_lead [OF tiled_wide.hyps(1,2)] by simp
    with step_cont [OF tiled_wide.hyps(3,4)] tiled_wide.IH show ?case by auto
  qed
qed

lemma char_display_width_leads: "char_display_width u c = Some w \<longleftrightarrow> leads u (GChar c) w"
  by (auto simp: char_display_width_def leads_simps)

lemma cluster_width_leads: "cluster_display_width u bs i = Ok w \<longleftrightarrow> leads u (Cluster bs) w"
  by (auto simp: cluster_display_width_def leads_simps MAX_WIRE_GRID_GRAPHEME_BYTES_def list_ex_iff split: option.splits)

lemma cluster_width_returns: "cluster_display_width u bs i \<noteq> Panic"
  by (simp add: cluster_display_width_def split: option.splits)

lemma add_glyph_bytes_Ok:
  "max_glyph_bytes l \<le> USIZE_MAX \<Longrightarrow> add_glyph_bytes b n l = Ok m \<longleftrightarrow> m = b + n \<and> b + n \<le> max_glyph_bytes l"
  by (auto simp: add_glyph_bytes_def)

lemma add_glyph_bytes_returns: "add_glyph_bytes b n l \<noteq> Panic"
  by (simp add: add_glyph_bytes_def)

lemma cells_loop_Cons:
  assumes "max_glyph_bytes l \<le> USIZE_MAX" and "0 < cols" and "index mod cols = 0 \<Longrightarrow> \<not> p"
    and "b \<le> max_glyph_bytes l"
  shows "cells_loop u cols l index b p (c # cs) = Ok q \<longleftrightarrow>
    (\<exists>p'. cell_step u p c p' \<and> b + glyph_cost (cell_glyph c) \<le> max_glyph_bytes l \<and>
      cells_loop u cols l (index + 1) (b + glyph_cost (cell_glyph c)) p' cs = Ok q)"
proof (cases "cell_glyph c")
  case (GChar ch)
  then show ?thesis
    using assms
    by (cases "char_display_width u ch")
      (auto simp: cell_step_simps try_bind_Ok_iff add_glyph_bytes_Ok simp flip: char_display_width_leads)
next
  case (Cluster bs)
  then show ?thesis
    using assms
    by (auto simp: cell_step_simps try_bind_Ok_iff add_glyph_bytes_Ok cluster_width_leads)
next
  case Continuation
  then show ?thesis using assms by (auto simp: cell_step_simps leads_simps)
qed

text \<open>Within a row.\<close>

lemma cells_loop_row:
  assumes "max_glyph_bytes l \<le> USIZE_MAX" and "0 < cols" and "i < cols \<or> cs = []" and "i + length cs \<le> cols"
    and "i = 0 \<Longrightarrow> cs \<noteq> [] \<Longrightarrow> \<not> p" and "b \<le> max_glyph_bytes l"
  shows "cells_loop u cols l (r * cols + i) b p (cs @ rest) = Ok q \<longleftrightarrow>
    (\<exists>p'. cell_run u p cs p' \<and> b + grid_cost cs \<le> max_glyph_bytes l \<and>
      cells_loop u cols l (r * cols + i + length cs) (b + grid_cost cs) p' rest = Ok q)"
  using assms(3-6)
proof (induction cs arbitrary: i p b)
  case Nil
  then show ?case by (simp add: grid_cost_def)
next
  case (Cons c cs)
  let ?n = "glyph_cost (cell_glyph c)"
  have m: "(r * cols + i) mod cols = i" using Cons.prems by simp
  let ?after = "\<lambda>p''. cells_loop u cols l (r * cols + (i + 1) + length cs) (b + ?n + grid_cost cs) p'' rest = Ok q"
  have first: "cells_loop u cols l (r * cols + i) b p ((c # cs) @ rest) = Ok q \<longleftrightarrow>
    (\<exists>p'. cell_step u p c p' \<and> b + ?n \<le> max_glyph_bytes l \<and>
      cells_loop u cols l (r * cols + (i + 1)) (b + ?n) p' (cs @ rest) = Ok q)"
    unfolding append_Cons add.assoc [symmetric] by (rule cells_loop_Cons) (use assms Cons.prems m in auto)
  have later: "cells_loop u cols l (r * cols + (i + 1)) (b + ?n) p' (cs @ rest) = Ok q \<longleftrightarrow>
    (\<exists>p''. cell_run u p' cs p'' \<and> b + ?n + grid_cost cs \<le> max_glyph_bytes l \<and> ?after p'')"
    if "b + ?n \<le> max_glyph_bytes l" for p'
    by (rule Cons.IH) (use that Cons.prems in \<open>auto simp: neq_Nil_conv\<close>)
  have idx: "r * cols + i + length (c # cs) = r * cols + (i + 1) + length cs"
    and cost: "b + grid_cost (c # cs) = b + ?n + grid_cost cs"
    by (simp_all add: grid_cost_def)
  show ?case
    unfolding first idx cost cell_run.simps using later add_leD1 [of "b + ?n" "grid_cost cs"] by blast
qed

text \<open>Row by row: a continuation owed at the end of a row is refused.\<close>

lemma cells_loop_rows:
  assumes "max_glyph_bytes l \<le> USIZE_MAX" and "0 < cols" and "\<forall>row \<in> set rows. length row = cols"
    and "b \<le> max_glyph_bytes l"
  shows "cells_loop u cols l (r * cols) b False (concat rows) = Ok False \<longleftrightarrow>
    (\<forall>row \<in> set rows. tiled u row) \<and> b + grid_cost (concat rows) \<le> max_glyph_bytes l"
  using assms(3,4)
proof (induction rows arbitrary: r b)
  case Nil
  then show ?case by (simp add: grid_cost_def)
next
  case (Cons row rows)
  have row: "length row = cols" using Cons.prems by simp
  have refused: "cells_loop u cols l (Suc r * cols) b' True (concat rows) \<noteq> Ok False" for b'
  proof (cases "concat rows")
    case Nil
    show ?thesis unfolding Nil by simp
  next
    case (Cons c cs)
    then show ?thesis using assms(2) by simp
  qed
  have "cells_loop u cols l (r * cols + 0) b False (row @ concat rows) = Ok False \<longleftrightarrow>
    (\<exists>p'. cell_run u False row p' \<and> b + grid_cost row \<le> max_glyph_bytes l \<and>
      cells_loop u cols l (r * cols + 0 + length row) (b + grid_cost row) p' (concat rows) = Ok False)"
    by (rule cells_loop_row) (use assms Cons.prems row in auto)
  also have "\<dots> \<longleftrightarrow> tiled u row \<and> b + grid_cost row \<le> max_glyph_bytes l \<and>
      cells_loop u cols l (Suc r * cols) (b + grid_cost row) False (concat rows) = Ok False"
    using refused cell_run_tiled [of u row] by (auto simp: row add.commute) (metis (full_types))+
  also have "\<dots> \<longleftrightarrow> (\<forall>row \<in> set (row # rows). tiled u row) \<and> b + grid_cost (concat (row # rows)) \<le> max_glyph_bytes l"
    using Cons.IH [of "b + grid_cost row" "Suc r"] Cons.prems by (auto simp: grid_cost_def add.assoc)
  finally show ?case by simp
qed

lemma cells_loop_returns:
  "0 < cols \<Longrightarrow> (index = 0 \<Longrightarrow> \<not> p) \<Longrightarrow> cells_loop u cols l index b p cs \<noteq> Panic"
proof (induction cs arbitrary: index b p)
  case (Cons c cs)
  then have step: "cells_loop u cols l (index + 1) b' p' cs \<noteq> Panic" for b' p' by simp
  show ?case
    using Cons.prems step
    by (auto simp: try_bind_def cluster_width_returns add_glyph_bytes_returns
        split: glyph.splits option.splits sum.splits)
qed simp

text \<open>A grid cut into its rows.\<close>

definition grid_rows :: "nat \<Rightarrow> nat \<Rightarrow> 'a list \<Rightarrow> 'a list list" where
  "grid_rows cols n xs = map (\<lambda>r. segment (r * cols) ((r + 1) * cols) xs) [0..<n]"

lemma concat_grid_rows: "length xs = n * cols \<Longrightarrow> concat (grid_rows cols n xs) = xs"
proof (induction n arbitrary: xs)
  case (Suc n)
  have "segment (r * cols) ((r + 1) * cols) (take (n * cols) xs) = segment (r * cols) ((r + 1) * cols) xs" if "r < n" for r
  proof -
    have "Suc r * cols \<le> n * cols" using that by (intro mult_le_mono1) simp
    then show ?thesis by (simp add: segment_def drop_take min_def)
  qed
  then have "grid_rows cols n (take (n * cols) xs) = grid_rows cols n xs"
    by (simp add: grid_rows_def)
  moreover have "concat (grid_rows cols n (take (n * cols) xs)) = take (n * cols) xs"
    using Suc by (intro Suc.IH) simp
  moreover have "segment (n * cols) ((n + 1) * cols) xs = drop (n * cols) xs"
    using Suc.prems by (simp add: segment_def)
  moreover have "grid_rows cols (Suc n) xs = grid_rows cols n xs @ [segment (n * cols) ((n + 1) * cols) xs]"
    by (simp add: grid_rows_def)
  ultimately show ?case by (simp del: add_mult_distrib mult_Suc)
qed (simp add: grid_rows_def)

lemma grid_rows_length:
  "length xs = n * cols \<Longrightarrow> \<forall>row \<in> set (grid_rows cols n xs). length row = cols"
proof
  fix row assume len: "length xs = n * cols" and "row \<in> set (grid_rows cols n xs)"
  then obtain r where r: "r < n" "row = segment (r * cols) ((r + 1) * cols) xs" by (auto simp: grid_rows_def)
  then have "(r + 1) * cols \<le> length xs" unfolding len by (intro mult_le_mono1) simp
  then show "length row = cols" unfolding r(2) by (subst length_segment) simp_all
qed

lemma validate_wire_grid_Ok:
  assumes "max_glyph_bytes l \<le> USIZE_MAX" and "max_visible_cells l \<le> MAX_U32"
  shows "validate_wire_grid u sz cs cur l = Ok () \<longleftrightarrow> valid_grid u sz cs cur l"
proof -
  let ?rows = "size_rows sz" and ?cols = "size_cols sz"
  have cells: "validate_cells u sz cs l = Ok () \<longleftrightarrow>
      (\<forall>r < ?rows. tiled u (segment (r * ?cols) ((r + 1) * ?cols) cs)) \<and> grid_cost cs \<le> max_glyph_bytes l"
    if len: "length cs = ?rows * ?cols" and pos: "0 < ?cols"
  proof -
    have "validate_cells u sz cs l = Ok () \<longleftrightarrow> cells_loop u ?cols l 0 0 False cs = Ok False"
      by (auto simp: validate_cells_def try_bind_Ok_iff split: if_splits)
    also have "\<dots> \<longleftrightarrow> (\<forall>row \<in> set (grid_rows ?cols ?rows cs). tiled u row) \<and> grid_cost cs \<le> max_glyph_bytes l"
      using cells_loop_rows [OF assms(1) pos grid_rows_length [OF len], of 0 u 0] by (simp add: concat_grid_rows [OF len])
    also have "\<dots> \<longleftrightarrow> (\<forall>r < ?rows. tiled u (segment (r * ?cols) ((r + 1) * ?cols) cs)) \<and> grid_cost cs \<le> max_glyph_bytes l"
      by (auto simp: grid_rows_def)
    finally show ?thesis .
  qed
  have area: "checked_area sz l = Ok a \<longleftrightarrow> a = ?rows * ?cols \<and> 0 < ?rows \<and> ?rows \<le> max_rows l \<and> 0 < ?cols \<and>
      ?cols \<le> max_cols l \<and> ?rows * ?cols \<le> max_visible_cells l" for a
    using assms(2) by (auto simp: checked_area_def Let_def not_less)
  show ?thesis
  proof (cases "length cs = ?rows * ?cols \<and> 0 < ?cols")
    case True
    then show ?thesis
      using cells
      by (cases cur) (auto simp: validate_wire_grid_def try_bind_Ok_iff area valid_grid_def not_le)
  next
    case False
    then show ?thesis
      by (auto simp: validate_wire_grid_def try_bind_Ok_iff area valid_grid_def split: if_splits)
  qed
qed

lemma try_bind_returns: "m \<noteq> Panic \<Longrightarrow> (\<And>x. m = Ok x \<Longrightarrow> f x \<noteq> Panic) \<Longrightarrow> try_bind m f \<noteq> Panic"
  by (auto simp: try_bind_def split: option.splits sum.splits)

lemma validate_wire_grid_returns: "validate_wire_grid u sz cs cur l \<noteq> Panic"
proof -
  have cells: "validate_cells u sz cs l \<noteq> Panic" if "0 < size_cols sz"
  proof (cases cs)
    case Nil
    then show ?thesis by (simp add: validate_cells_def)
  next
    case (Cons c ds)
    have "cells_loop u (size_cols sz) l 0 0 False cs \<noteq> Panic" using that by (intro cells_loop_returns) simp_all
    then show ?thesis
      unfolding validate_cells_def by (rule try_bind_returns) (simp add: Cons del: not_None_eq)
  qed
  have area: "checked_area sz l \<noteq> Panic" by (simp add: checked_area_def Let_def)
  have pos: "checked_area sz l = Ok a \<Longrightarrow> 0 < size_cols sz" for a
    by (auto simp: checked_area_def Let_def split: if_splits)
  show ?thesis
    unfolding validate_wire_grid_def
    by (rule try_bind_returns [OF area]) (simp add: cells pos del: not_None_eq split: option.split)
qed

lemma map_wire_err_Ok [simp]: "map_wire_err f m = Ok x \<longleftrightarrow> m = Ok x"
proof (cases m)
  case (Some s)
  then show ?thesis by (cases s) (simp_all add: map_wire_err_def)
qed (simp add: map_wire_err_def)

lemma map_wire_err_Panic [simp]: "map_wire_err f m = Panic \<longleftrightarrow> m = Panic"
  by (simp add: map_wire_err_def)

text \<open>The selection: one nonempty span inside the frame per row, rows strictly increasing.\<close>

definition selection_ok :: "cell_size \<Rightarrow> selection_span list \<Rightarrow> bool" where
  "selection_ok sz spans \<longleftrightarrow>
     (\<forall>s \<in> set spans. sel_row s < size_rows sz \<and> sel_start s < sel_end s \<and> sel_end s \<le> size_cols sz) \<and>
     sorted_wrt (<) (map sel_row spans)"

lemma selection_loop_Ok:
  "selection_loop sz i prev spans = Ok () \<longleftrightarrow>
   selection_ok sz spans \<and> (\<forall>p \<in> set_option prev. \<forall>s \<in> set spans. p < sel_row s)"
proof (induction sz i prev spans rule: selection_loop.induct)
  case (2 sz i prev s spans)
  then show ?case
    by (auto simp: selection_ok_def not_le not_less split: option.splits if_splits dest: order.strict_trans)
qed (simp add: selection_ok_def)

lemma selection_loop_returns: "selection_loop sz i prev spans \<noteq> Panic"
  by (induction sz i prev spans rule: selection_loop.induct) auto

definition metadata_ok :: "ustring \<Rightarrow> bool" where
  "metadata_ok t \<longleftrightarrow> length (encode_utf8 t) \<le> 1024 \<and> (\<forall>c \<in> set t. \<not> is_control c)"

lemma validate_metadata_Ok: "validate_metadata field t = Ok () \<longleftrightarrow> metadata_ok t"
  by (auto simp: validate_metadata_def metadata_ok_def MAX_TERMINAL_METADATA_BYTES_def list_ex_iff)

lemma validate_metadata_returns: "validate_metadata field t \<noteq> Panic"
  by (simp add: validate_metadata_def)

lemmas limits_small = USIZE_MAX_def MAX_U32_def PANEL_GRID_LIMITS_def TERMINAL_GRID_LIMITS_def
  MAX_WIRE_GRID_GLYPH_BYTES_def MAX_WIRE_GRID_VISIBLE_CELLS_def

lemma panel_grid_Ok: "validate_wire_grid u sz cs cur PANEL_GRID_LIMITS = Ok () \<longleftrightarrow> valid_grid u sz cs cur PANEL_GRID_LIMITS"
  by (rule validate_wire_grid_Ok) (simp_all add: limits_small)

lemma terminal_grid_Ok:
  "validate_wire_grid u sz cs cur TERMINAL_GRID_LIMITS = Ok () \<longleftrightarrow> valid_grid u sz cs cur TERMINAL_GRID_LIMITS"
  by (rule validate_wire_grid_Ok) (simp_all add: limits_small)

text \<open>The texts of a process state.\<close>

fun process_text :: "terminal_process_state \<Rightarrow> ustring option" where
  "process_text (Signaled t) = Some t"
| "process_text (Crashed t) = Some t"
| "process_text s = None"

lemma process_metadata_Ok:
  "(case s of Signaled t \<Rightarrow> validate_metadata ''signal'' t | Crashed t \<Rightarrow> validate_metadata ''crash'' t | _ \<Rightarrow> Ok ()) = Ok () \<longleftrightarrow>
   (\<forall>t \<in> set_option (process_text s). metadata_ok t)"
  by (cases s) (simp_all add: validate_metadata_Ok)

lemma title_metadata_Ok:
  "(case t of Some t \<Rightarrow> validate_metadata ''title'' t | None \<Rightarrow> Ok ()) = Ok () \<longleftrightarrow> (\<forall>t \<in> set_option t. metadata_ok t)"
  by (cases t) (simp_all add: validate_metadata_Ok)

lemma terminal_validate_returns: "terminal_validate u f \<noteq> Panic"
  unfolding terminal_validate_def
  by (intro try_bind_returns; simp add: validate_wire_grid_returns selection_loop_returns validate_metadata_returns
      del: not_None_eq split: option.split terminal_process_state.split)

end
