(* ===== verification/Display_Width.thy ===== *)
theory Display_Width
  imports Terminal_Screen
begin

text \<open>
  Columns of text, \<^verbatim>\<open>src/pmacs-protocol/src/columns.rs\<close> and \<^verbatim>\<open>src/src/display_width.rs\<close>: tabs, the saturating
  count, byte offsets as columns, and text fitted to a number of columns. Widths of characters are those of
  the record \<open>unicode\<close>.
\<close>

definition TAB_STOP_COLUMNS :: nat where "TAB_STOP_COLUMNS = 8"

definition advance_char :: "unicode \<Rightarrow> nat \<Rightarrow> uchar \<Rightarrow> nat" where
  "advance_char u column ch =
     (let width = (if ch = 9 then TAB_STOP_COLUMNS - column mod TAB_STOP_COLUMNS
                   else wrap32 (case char_width u ch of Some w \<Rightarrow> w | None \<Rightarrow> 0))
      in sat32 (column + width))"

definition line_columns :: "unicode \<Rightarrow> ustring \<Rightarrow> nat" where
  "line_columns u line = fold (\<lambda>ch column. advance_char u column ch) line 0"

text \<open>\<^verbatim>\<open>str::split\<close> at newlines, and the widest of the pieces.\<close>

fun split_lines :: "ustring \<Rightarrow> ustring \<Rightarrow> ustring list" where
  "split_lines acc [] = [acc]"
| "split_lines acc (c # cs) = (if c = 10 then acc # split_lines [] cs else split_lines (acc @ [c]) cs)"

definition widest_line_columns :: "unicode \<Rightarrow> ustring \<Rightarrow> nat" where
  "widest_line_columns u t = fold max (map (line_columns u) (split_lines [] t)) 0"

definition valid_prefix_width :: "unicode \<Rightarrow> byte list \<Rightarrow> nat" where
  "valid_prefix_width u bs = fold (\<lambda>ch column. advance_char u column ch) (fst (from_utf8 bs)) 0"

definition byte_to_column :: "unicode \<Rightarrow> byte list \<Rightarrow> nat \<Rightarrow> nat" where
  "byte_to_column u bs offset = valid_prefix_width u (take (min offset (length bs)) bs)"

definition byte_range_to_columns :: "unicode \<Rightarrow> byte list \<Rightarrow> nat \<Rightarrow> nat \<Rightarrow> nat \<times> nat" where
  "byte_range_to_columns u bs s e = (byte_to_column u bs s, byte_to_column u bs e)"

definition ELLIPSIS :: uchar where "ELLIPSIS = 8230"

text \<open>The loop that keeps what stays below \<open>columns\<close>, and the padding.\<close>

fun keep_below :: "unicode \<Rightarrow> nat \<Rightarrow> nat \<Rightarrow> ustring \<Rightarrow> ustring \<times> nat" where
  "keep_below u columns used [] = ([], used)"
| "keep_below u columns used (ch # str) =
     (let nxt = advance_char u used ch
      in if columns \<le> nxt then ([], used)
         else (case keep_below u columns nxt str of (kept, used') \<Rightarrow> (ch # kept, used')))"

definition fit_columns :: "unicode \<Rightarrow> ustring \<Rightarrow> nat \<Rightarrow> ustring" where
  "fit_columns u str columns =
     (let width = fold (\<lambda>ch column. advance_char u column ch) str 0;
          (out, used) =
            (if width \<le> columns then (str, width)
             else if columns = 0 then ([], 0)
             else (case keep_below u columns 0 str of (kept, used) \<Rightarrow> (kept @ [ELLIPSIS], used + 1)))
      in out @ replicate (columns - used) 32)"

section \<open>Fitting\<close>

lemma line_columns_append:
  "line_columns u (s @ t) = fold (\<lambda>ch column. advance_char u column ch) t (line_columns u s)"
  by (simp add: line_columns_def)

lemma advance_one: "char_width u ch = Some 1 \<Longrightarrow> ch \<noteq> 9 \<Longrightarrow> column < 4294967295 \<Longrightarrow> advance_char u column ch = column + 1"
  by (simp add: advance_char_def sat32_def wrap32_def)

lemma advance_spaces:
  assumes "char_width u 32 = Some 1" and "used + n \<le> 4294967295"
  shows "fold (\<lambda>ch column. advance_char u column ch) (replicate n 32) used = used + n"
  using assms(2) by (induction n arbitrary: used) (simp_all add: advance_one [OF assms(1)])

lemma keep_below_prefix:
  "keep_below u columns used str = (kept, used') \<Longrightarrow> used < columns \<Longrightarrow>
   used' < columns \<and> fold (\<lambda>ch column. advance_char u column ch) kept used = used' \<and>
   (\<exists>rest. str = kept @ rest \<and> (rest \<noteq> [] \<longrightarrow> columns \<le> advance_char u used' (hd rest)))"
proof (induction u columns used str arbitrary: kept rule: keep_below.induct)
  case (2 u columns used ch str)
  let ?nxt = "advance_char u used ch"
  show ?case
  proof (cases "columns \<le> ?nxt")
    case True
    with "2.prems" show ?thesis by (auto simp: Let_def)
  next
    case False
    then obtain kept' where k: "keep_below u columns ?nxt str = (kept', used')" "kept = ch # kept'"
      using "2.prems" by (auto simp: Let_def split: prod.splits)
    then show ?thesis using "2.IH" [OF refl False k(1)] False by auto
  qed
qed simp

lemma fit_columns_cases:
  assumes "columns \<le> 4294967295" and "char_width u 32 = Some 1" and "char_width u ELLIPSIS = Some 1"
  shows "line_columns u (fit_columns u str columns) = columns \<and>
    (line_columns u str \<le> columns \<longrightarrow>
       fit_columns u str columns = str @ replicate (columns - line_columns u str) 32) \<and>
    (columns < line_columns u str \<and> 0 < columns \<longrightarrow>
       (\<exists>kept rest n. str = kept @ rest \<and> fit_columns u str columns = kept @ ELLIPSIS # replicate n 32 \<and>
          (rest \<noteq> [] \<longrightarrow> columns \<le> line_columns u (kept @ [hd rest]))))"
proof -
  note lc = line_columns_def [symmetric]
  consider "line_columns u str \<le> columns" | "columns = 0" "0 < line_columns u str" | "columns < line_columns u str" "0 < columns"
    by linarith
  then show ?thesis
  proof cases
    case 1
    then have f: "fit_columns u str columns = str @ replicate (columns - line_columns u str) 32"
      by (simp add: fit_columns_def lc Let_def)
    then have "line_columns u (fit_columns u str columns) = columns"
      using advance_spaces [OF assms(2), of "line_columns u str" "columns - line_columns u str"] 1 assms(1)
      by (simp add: line_columns_append)
    with 1 f show ?thesis by simp
  next
    case 2
    then have "fit_columns u str columns = []" by (simp add: fit_columns_def lc Let_def)
    with 2 show ?thesis by (simp add: line_columns_def)
  next
    case 3
    obtain kept used where k: "keep_below u columns 0 str = (kept, used)" by fastforce
    have p: "used < columns" "line_columns u kept = used"
      using keep_below_prefix [OF k 3(2)] by (simp_all add: line_columns_def)
    obtain rest where r: "str = kept @ rest" "rest \<noteq> [] \<longrightarrow> columns \<le> advance_char u used (hd rest)"
      using keep_below_prefix [OF k 3(2)] by blast
    have f: "fit_columns u str columns = kept @ ELLIPSIS # replicate (columns - (used + 1)) 32"
      using 3 k by (simp add: fit_columns_def lc Let_def)
    have "advance_char u used ELLIPSIS = used + 1"
      using p(1) assms(1,3) by (intro advance_one) (simp_all add: ELLIPSIS_def)
    then have "line_columns u (fit_columns u str columns) = columns"
      using advance_spaces [OF assms(2), of "used + 1" "columns - (used + 1)"] p assms(1)
      by (simp add: f line_columns_append)
    moreover have "rest \<noteq> [] \<longrightarrow> columns \<le> line_columns u (kept @ [hd rest])"
      using r(2) p(2) by (simp add: line_columns_append)
    ultimately show ?thesis using 3 f r(1) by auto
  qed
qed

text \<open>A byte offset at the boundary of a character is the columns of the text before it.\<close>

lemma encode_take: "take (length (encode_utf8 (take k s))) (encode_utf8 s) = encode_utf8 (take k s)"
proof -
  have "encode_utf8 s = encode_utf8 (take k s) @ encode_utf8 (drop k s)"
    by (metis append_take_drop_id concat_append encode_utf8_def map_append)
  then show ?thesis by (metis append_eq_conv_conj)
qed

lemma byte_to_column_boundary:
  assumes "\<forall>c \<in> set s. is_scalar c"
  shows "byte_to_column u (encode_utf8 s) (length (encode_utf8 (take k s))) = line_columns u (take k s)"
proof -
  have "take (min (length (encode_utf8 (take k s))) (length (encode_utf8 s))) (encode_utf8 s) = encode_utf8 (take k s)"
    using encode_take [of k s] by (metis length_take min.commute min.idem take_take length_take min.left_idem)
  moreover have "\<forall>c \<in> set (take k s). is_scalar c" using assms by (meson in_set_takeD)
  ultimately show ?thesis
    by (simp add: byte_to_column_def valid_prefix_width_def from_utf8_encode line_columns_def)
qed

end
