(* ===== verification/View_Properties.thy ===== *)
theory View_Properties
  imports Render_State Overlay Wire_Grid Display_Width "HOL-Library.Code_Target_Nat"
begin

text \<open>
  The properties of what is drawn and shipped: the diff of two frames, the frames a frontend shows, their
  colours, the user's layer over the themes, the validation of grids on the wire, text fitted to columns and
  the style spans of a buffer.
\<close>

section \<open>Samples\<close>

definition sample_size :: cell_size where
  "sample_size = \<lparr>size_rows = 2, size_cols = 2\<rparr>"

definition red_cell :: cell where
  "red_cell = default_cell\<lparr>cell_glyph := GChar 88, cell_style := default_style\<lparr>fg := Rgb 250 10 10\<rparr>\<rparr>"

definition sample_painter :: painter where
  "sample_painter g =
     (case grid_put (coord_new 1 0) red_cell g of Some g' \<Rightarrow> grid_cells g' | None \<Rightarrow> grid_cells g, None)"

definition sample_entry :: theme_entry where
  "sample_entry = \<lparr>te_name = ''keyword'', te_style = default_style\<lparr>fg := Rgb 250 10 10\<rparr>,
     te_fallbacks = no_fallbacks\<lparr>c16 := no_depth_colors\<lparr>dc_fg := Some 9\<rparr>\<rparr>\<rparr>"

definition sample_theme :: theme where
  "sample_theme = theme_commit MergeInto [sample_entry] theme_empty"

definition sample_unicode :: unicode where
  "sample_unicode =
     \<lparr>char_width = (\<lambda>c. if c < 32 then None else if 11904 \<le> c then Some 2 else Some 1), str_width = length,
      one_grapheme = (\<lambda>s. length s = 1)\<rparr>"

lemma sample_painter_keeps: "keeps_length sample_painter"
  by (simp add: keeps_length_def sample_painter_def grid_put_def upd_opt_def split: option.split bind_split)

lemma sample_theme_in_range: "theme_in_range sample_theme"
proof -
  have "fmlookup (theme_fallbacks sample_theme) n = Some f \<Longrightarrow> f = te_fallbacks sample_entry" for n f
    by (auto simp: sample_theme_def commit_fallbacks last_entry_def theme_empty_def split: if_splits option.splits)
  moreover have "authored_in_range (te_fallbacks sample_entry)"
    by (simp add: authored_in_range_def sample_entry_def no_fallbacks_def no_depth_colors_def)
  ultimately show ?thesis
    by (metis fmran'E theme_in_range_def)
qed

section \<open>Diffs\<close>

text \<open>
  C25. The diff of two frames that fill their grid does not panic; its spans write exactly the cells that differ,
  in row-major order and with their new contents, and every span is a maximal run of changes on one row.
\<close>

theorem diff_writes_changes:
  assumes "size_cols sz \<le> stride" and "stride * size_rows sz \<le> length prev" and "stride * size_rows sz \<le> length new"
  shows "\<exists>spans. diff prev new stride sz = Some spans \<and>
    concat (map (span_writes stride) spans) = changes prev new (visible_indices stride sz) \<and>
    list_all (maximal_run prev new stride (size_cols sz)) spans"
  using diff_ok [of stride sz prev new] assms by (simp add: fits_def list_all_iff)

theorem diff_writes_changes_witness:
  "\<exists>spans. diff [default_cell, default_cell, default_cell, default_cell] [red_cell, red_cell, default_cell, red_cell] 2 sample_size =
       Some spans \<and>
     concat (map (span_writes 2) spans) =
       changes [default_cell, default_cell, default_cell, default_cell] [red_cell, red_cell, default_cell, red_cell]
         (visible_indices 2 sample_size) \<and>
     list_all (maximal_run [default_cell, default_cell, default_cell, default_cell]
       [red_cell, red_cell, default_cell, red_cell] 2 2) spans"
  using diff_writes_changes [of sample_size 2 "[default_cell, default_cell, default_cell, default_cell]"
      "[red_cell, red_cell, default_cell, red_cell]"]
  by (simp add: sample_size_def)

section \<open>Frames\<close>

text \<open>
  C24. Whatever themes, depths, sizes and resynchronisations came before, rendering a frame does not panic, and the
  frontend that applies its messages shows the frame as it is painted on a blank grid and coloured by the present
  theme at the present depth: nothing of an earlier frame or of the cached map of colours remains. Without a
  resynchronisation only the cells that changed are shipped.
\<close>

theorem frontend_shows_painted_frame:
  assumes "render_reach t rs screen" and "keeps_length paint"
    and "2 \<le> size_rows (rs_size rs)" and "0 < size_cols (rs_size rs)"
  shows "\<exists>spans cursor rs'. render_frame paint t rs = Some ([CellDelta spans (needs_full_grid rs), Cursor cursor], rs') \<and>
    show_messages (rs_size rs) [CellDelta spans (needs_full_grid rs), Cursor cursor] screen =
      ideal_frame paint t (rs_depth rs) (rs_size rs) \<and>
    concat (map (span_writes (size_cols (rs_size rs))) spans) =
      changes (if needs_full_grid rs then blank_grid (rs_size rs) else screen) (ideal_frame paint t (rs_depth rs) (rs_size rs))
        (visible_indices (size_cols (rs_size rs)) (rs_size rs))"
  using render_frame_ok [OF render_reach_inv [OF assms(1)] assms(2-4)] by blast

theorem frontend_shows_painted_frame_witness:
  "\<exists>spans cursor rs'.
     render_frame sample_painter sample_theme (set_color_depth Sixteen (render_new sample_size)) =
       Some ([CellDelta spans True, Cursor cursor], rs') \<and>
     show_messages sample_size [CellDelta spans True, Cursor cursor] [] =
       [default_cell, default_cell, red_cell\<lparr>cell_style := default_style\<lparr>fg := Indexed 9\<rparr>\<rparr>, default_cell]"
proof -
  let ?rs = "set_color_depth Sixteen (render_new sample_size)"
  have rs: "rs_size ?rs = sample_size" "rs_depth ?rs = Sixteen" "needs_full_grid ?rs"
    by (simp_all add: set_color_depth_def render_new_def)
  have "ideal_frame sample_painter sample_theme Sixteen sample_size =
      [default_cell, default_cell, red_cell\<lparr>cell_style := default_style\<lparr>fg := Indexed 9\<rparr>\<rparr>, default_cell]"
    by code_simp
  moreover have "2 \<le> size_rows sample_size" "0 < size_cols sample_size" by (simp_all add: sample_size_def)
  ultimately show ?thesis
    using frontend_shows_painted_frame [OF rr_depth [OF rr_start [of sample_theme sample_size "[]"], of Sixteen] sample_painter_keeps]
    unfolding rs using rs(3) by auto
qed

text \<open>
  C26. The map of colours built from a theme follows the rule of its module: the first face in name order that has
  the colour gives its authored fallback or its own index, any other colour the nearest of the palette, which is
  the first index of the range at the least distance.
\<close>

theorem depth_map_follows_rule:
  "map_color (for_theme t d) c = rule_color t d c \<and>
   first_nearest (r, g, b) 16 255 (nearest_256 (r, g, b)) \<and> first_nearest (r, g, b) 0 15 (nearest_16 (r, g, b))"
  using map_color_rule nearest_first [of 16 255] nearest_first [of 0 15] by (simp add: nearest_256_def nearest_16_def)

text \<open>
  C27. A frame rendered from a theme whose authored fallbacks are in range shows only colours of its depth, and a
  client of sixteen colours that reduces every span it is sent shows the reduced frame, all of it in sixteen colours.
\<close>

theorem shown_colors_fit_depth:
  assumes "theme_in_range t" and "render_reach t rs screen" and "keeps_length paint"
    and "2 \<le> size_rows (rs_size rs)" and "0 < size_cols (rs_size rs)"
  shows "\<exists>msgs rs'. render_frame paint t rs = Some (msgs, rs') \<and>
    list_all (\<lambda>c. shows_style (rs_depth rs) (cell_style c)) (show_messages (rs_size rs) msgs screen) \<and>
    show_messages (rs_size rs) (map reduce_message msgs) (map reduce_cell_to_16 screen) =
      map reduce_cell_to_16 (show_messages (rs_size rs) msgs screen) \<and>
    list_all (\<lambda>c. shows_style Sixteen (cell_style c))
      (show_messages (rs_size rs) (map reduce_message msgs) (map reduce_cell_to_16 screen))"
proof -
  obtain spans cursor rs' where r:
    "render_frame paint t rs = Some ([CellDelta spans (needs_full_grid rs), Cursor cursor], rs')"
    "show_messages (rs_size rs) [CellDelta spans (needs_full_grid rs), Cursor cursor] screen =
      ideal_frame paint t (rs_depth rs) (rs_size rs)"
    using render_frame_ok [OF render_reach_inv [OF assms(2)] assms(3-5)] by blast
  have "list_all (\<lambda>c. shows_style (rs_depth rs) (cell_style c)) (ideal_frame paint t (rs_depth rs) (rs_size rs))"
    using finished_cell_shown [OF assms(1)] by (simp add: ideal_frame_def list_all_iff)
  then show ?thesis
    using r unfolding show_reduced
    by (intro exI [of _ "[CellDelta spans (needs_full_grid rs), Cursor cursor]"] exI [of _ rs'])
      (simp add: list_all_iff reduce_cell_shown)
qed

theorem shown_colors_fit_depth_witness:
  "\<exists>msgs rs'. render_frame sample_painter sample_theme (set_color_depth TwoFiftySix (render_new sample_size)) = Some (msgs, rs') \<and>
    list_all (\<lambda>c. shows_style TwoFiftySix (cell_style c)) (show_messages sample_size msgs []) \<and>
    show_messages sample_size (map reduce_message msgs) [] = map reduce_cell_to_16 (show_messages sample_size msgs []) \<and>
    list_all (\<lambda>c. shows_style Sixteen (cell_style c)) (show_messages sample_size (map reduce_message msgs) [])"
proof -
  have rs: "rs_size (set_color_depth TwoFiftySix (render_new sample_size)) = sample_size"
    "rs_depth (set_color_depth TwoFiftySix (render_new sample_size)) = TwoFiftySix"
    by (simp_all add: set_color_depth_def render_new_def)
  show ?thesis
    using shown_colors_fit_depth [OF sample_theme_in_range
        rr_depth [OF rr_start [of sample_theme sample_size "[]"], of TwoFiftySix] sample_painter_keeps]
    unfolding rs by (simp add: sample_size_def)
qed

section \<open>Themes\<close>

text \<open>
  C28. Loading a theme applies the folded layer of the user's calls: the styles, fallbacks and default style are those
  of the theme's own entries with every \<^verbatim>\<open>set\<close> and \<^verbatim>\<open>merge\<close> the user made committed again in order.
\<close>

theorem load_is_replay_of_calls:
  assumes "lib_user l = no_layer" and "fmlookup (lib_themes l) name = Some nt"
    and "theme_load name (after_calls calls l) t = (l', t', ok)"
  shows "ok \<and> lib_loaded l' = Some name \<and>
    by_capture t' = by_capture (commit_calls calls (theme_commit ReplaceAll (nt_entries nt) t)) \<and>
    theme_fallbacks t' = theme_fallbacks (commit_calls calls (theme_commit ReplaceAll (nt_entries nt) t)) \<and>
    theme_default t' = theme_default t"
  using load_replays [OF assms] .

theorem load_is_replay_of_calls_witness:
  "\<exists>t' l'. theme_load ''dark'' (after_calls [(MergeInto, [sample_entry]), (ReplaceAll, []), (MergeInto, [sample_entry])]
      (theme_define ''dark'' \<lparr>nt_description = [], nt_entries = []\<rparr> library_new)) theme_empty = (l', t', True) \<and>
    by_capture t' = by_capture (commit_calls [(MergeInto, [sample_entry]), (ReplaceAll, []), (MergeInto, [sample_entry])]
      (theme_commit ReplaceAll [] theme_empty)) \<and>
    fmlookup (by_capture t') ''keyword'' = Some (te_style sample_entry)"
proof -
  let ?calls = "[(MergeInto, [sample_entry]), (ReplaceAll, []), (MergeInto, [sample_entry])]"
  let ?l = "theme_define ''dark'' \<lparr>nt_description = [], nt_entries = []\<rparr> library_new"
  obtain l' t' ok where load: "theme_load ''dark'' (after_calls ?calls ?l) theme_empty = (l', t', ok)"
    by (metis prod_cases3)
  have "lib_user ?l = no_layer" "fmlookup (lib_themes ?l) ''dark'' = Some \<lparr>nt_description = [], nt_entries = []\<rparr>"
    by (simp_all add: theme_define_def library_new_def)
  from load_is_replay_of_calls [OF this load]
  have r: "ok" "by_capture t' = by_capture (commit_calls ?calls (theme_commit ReplaceAll [] theme_empty))" by simp_all
  moreover have "fmlookup (by_capture (commit_calls ?calls (theme_commit ReplaceAll [] theme_empty))) ''keyword'' =
      Some (te_style sample_entry)"
    by (simp add: commit_calls_def commit_capture last_entry_def) (simp add: sample_entry_def)
  ultimately show ?thesis using load by auto
qed

section \<open>Grids on the wire\<close>

text \<open>
  C29. Validating a panel or terminal frame never panics, and accepts exactly the frames whose grid has the declared
  size within the limits, a cursor inside it, every row tiled by narrow glyphs and wide glyphs with their
  continuation, no attachment and at most eight megabytes of glyphs; a panel with both epochs set, a terminal with
  clean metadata, one selection span per row in increasing rows and a bottom flag that agrees with its scroll offset.
\<close>

theorem wire_frames_valid_iff:
  "panel_validate u p \<noteq> Panic \<and> terminal_validate u f \<noteq> Panic \<and>
   (panel_validate u p = Ok () \<longleftrightarrow>
      panel_epoch p \<noteq> 0 \<and> geometry_epoch p \<noteq> 0 \<and> valid_grid u (pf_size p) (pf_cells p) (pf_cursor p) PANEL_GRID_LIMITS) \<and>
   (terminal_validate u f = Ok () \<longleftrightarrow>
      valid_grid u (tf_size f) (tf_cells f) (tf_cursor f) TERMINAL_GRID_LIMITS \<and>
      (\<forall>t \<in> set_option (tf_title f) \<union> set_option (process_text (tf_process f)). metadata_ok t) \<and>
      selection_ok (tf_size f) (tf_selection f) \<and> (tf_at_bottom f \<longleftrightarrow> tf_scroll_offset f = 0))"
proof (intro conjI)
  show "panel_validate u p \<noteq> Panic"
    by (simp add: panel_validate_def validate_wire_grid_returns del: not_None_eq)
  show "terminal_validate u f \<noteq> Panic" by (rule terminal_validate_returns)
  show "panel_validate u p = Ok () \<longleftrightarrow>
      panel_epoch p \<noteq> 0 \<and> geometry_epoch p \<noteq> 0 \<and> valid_grid u (pf_size p) (pf_cells p) (pf_cursor p) PANEL_GRID_LIMITS"
    by (simp add: panel_validate_def panel_grid_Ok)
  show "terminal_validate u f = Ok () \<longleftrightarrow>
      valid_grid u (tf_size f) (tf_cells f) (tf_cursor f) TERMINAL_GRID_LIMITS \<and>
      (\<forall>t \<in> set_option (tf_title f) \<union> set_option (process_text (tf_process f)). metadata_ok t) \<and>
      selection_ok (tf_size f) (tf_selection f) \<and> (tf_at_bottom f \<longleftrightarrow> tf_scroll_offset f = 0)"
    unfolding terminal_validate_def try_bind_Ok_iff
    by (auto simp: terminal_grid_Ok title_metadata_Ok process_metadata_Ok selection_loop_Ok)
qed

definition wide_panel :: panel_frame where
  "wide_panel = \<lparr>pf_buffer_id = 1, panel_epoch = 1, geometry_epoch = 1, pf_size = sample_size,
     pf_cells = [default_cell\<lparr>cell_glyph := GChar 20013\<rparr>, default_cell\<lparr>cell_glyph := Continuation\<rparr>, default_cell, default_cell],
     pf_cursor = Some (coord_new 1 1), pf_focused = True\<rparr>"

definition plain_terminal :: terminal_frame where
  "plain_terminal = \<lparr>tf_buffer_id = 1, tf_size = sample_size, tf_cells = blank_grid sample_size, tf_cursor = None,
     tf_title = Some [104, 105], tf_screen_generation = 0, tf_selection = [\<lparr>sel_row = 0, sel_start = 0, sel_end = 2\<rparr>],
     tf_scroll_offset = 0, tf_at_bottom = True, tf_pid = 1, tf_process = Running\<rparr>"

theorem wire_frames_valid_iff_witness:
  "valid_grid sample_unicode (pf_size wide_panel) (pf_cells wide_panel) (pf_cursor wide_panel) PANEL_GRID_LIMITS \<and>
   valid_grid sample_unicode (tf_size plain_terminal) (tf_cells plain_terminal) (tf_cursor plain_terminal) TERMINAL_GRID_LIMITS"
proof -
  have "panel_validate sample_unicode wide_panel = Ok ()" "terminal_validate sample_unicode plain_terminal = Ok ()"
    by code_simp+
  with wire_frames_valid_iff [of sample_unicode wide_panel plain_terminal] show ?thesis by blast
qed

section \<open>Text in columns\<close>

text \<open>
  C30. Text fitted to a number of columns takes exactly that many: a text that fits is padded with spaces, a longer one
  is the longest prefix that leaves room for the ellipsis, the ellipsis and spaces.
\<close>

theorem fitted_text_takes_columns:
  assumes "columns \<le> 4294967295" and "char_width u 32 = Some 1" and "char_width u ELLIPSIS = Some 1"
  shows "line_columns u (fit_columns u s columns) = columns \<and>
    (line_columns u s \<le> columns \<longrightarrow> fit_columns u s columns = s @ replicate (columns - line_columns u s) 32) \<and>
    (columns < line_columns u s \<and> 0 < columns \<longrightarrow>
       (\<exists>kept rest n. s = kept @ rest \<and> fit_columns u s columns = kept @ ELLIPSIS # replicate n 32 \<and>
          (rest \<noteq> [] \<longrightarrow> columns \<le> line_columns u (kept @ [hd rest]))))"
  using fit_columns_cases [OF assms] .

theorem fitted_text_takes_columns_witness:
  "line_columns sample_unicode (fit_columns sample_unicode [20013, 25991, 20013, 25991] 4) = 4 \<and>
   fit_columns sample_unicode [20013, 25991, 20013, 25991] 4 = [20013, ELLIPSIS, 32]"
proof
  show "line_columns sample_unicode (fit_columns sample_unicode [20013, 25991, 20013, 25991] 4) = 4"
    using fitted_text_takes_columns [of 4 sample_unicode "[20013, 25991, 20013, 25991]"]
    by (simp add: sample_unicode_def ELLIPSIS_def)
  show "fit_columns sample_unicode [20013, 25991, 20013, 25991] 4 = [20013, ELLIPSIS, 32]"
    by code_simp
qed

section \<open>Style spans\<close>

text \<open>
  C31. In every buffer reachable with span translators attached, through edits, undo, redo and the owners' own changes,
  an edit keeps every translator attached and its spans inside the text, and changes the styling of the text as it
  changes the text: the same splice, with the inserted bytes unstyled.
\<close>

theorem style_spans_follow_text:
  assumes "span_reach b" and "apply_edit_skip_intercepts_as span_translator_ops source op b = Some (b', Inr ed)"
    and "(i, spans) \<in> set (buf_views b)"
  shows "(i, translate_spans ed spans) \<in> set (buf_views b') \<and> spans_ok (buffer_len b') (translate_spans ed spans) \<and>
    styling (buffer_len b') (translate_spans ed spans) =
      splice_list (range_start (edit_range ed)) (range_end (edit_range ed)) (replicate (inserted_len ed) [])
        (styling (buffer_len b) spans)"
proof -
  have b: "buffer_inv b" using span_reach_inv [OF assms(1)] by simp
  have b': "buffer_inv b'" "st.in_step b'" using span_reach_inv [OF sr_edit_skip [OF assms(1,2)]] by simp_all
  note e = edit_skip_translates [OF b assms(2)]
  then have mem: "(i, translate_spans ed spans) \<in> set (buf_views b')" using assms(3) by force
  then have "spans_ok (buffer_len b') (translate_spans ed spans)"
    using b' by (auto simp: st.in_step_def st.all_track_iff span_buffer_len)
  then show ?thesis
    using mem styling_translate [of "buf_rope b" "buf_rope b'" ed spans] e
    by (simp add: span_buffer_len [OF b] span_buffer_len [OF b'(1)])
qed

definition styled_buffer :: "style_spans buffer" where
  "styled_buffer =
     fst (attach_view [\<lparr>bs_start = 1, bs_end = 4, bs_style = default_style\<lparr>bold := True\<rparr>\<rparr>]
       (buffer_from_bytes 0 ''f'' [104, 101, 108, 108, 111]))"

lemma styled_buffer_reach: "span_reach styled_buffer"
proof -
  let ?b = "buffer_from_bytes 0 ''f'' [104, 101, 108, 108, 111] :: style_spans buffer"
  let ?s = "[\<lparr>bs_start = 1, bs_end = 4, bs_style = default_style\<lparr>bold := True\<rparr>\<rparr>]"
  have "buffer_len ?b = 5" by code_simp
  then have "spans_ok (buffer_len ?b) ?s" by (simp add: spans_ok_def)
  then show ?thesis
    unfolding styled_buffer_def by (rule sr_attach [OF sr_start _ prod.collapse [symmetric]])
qed

theorem style_spans_follow_text_witness:
  "\<exists>b' ed spans. apply_edit_skip_intercepts_as span_translator_ops Daemon (OpInsert 2 [33]) styled_buffer = Some (b', Inr ed) \<and>
     (0, spans) \<in> set (buf_views b') \<and> spans_ok (buffer_len b') spans \<and>
     styling (buffer_len b') spans =
       (let b = [default_style\<lparr>bold := True\<rparr>] in [[], b, [], b, b, []])"
proof -
  let ?s = "[\<lparr>bs_start = 1, bs_end = 4, bs_style = default_style\<lparr>bold := True\<rparr>\<rparr>]"
  let ?run = "apply_edit_skip_intercepts_as span_translator_ops Daemon (OpInsert 2 [33]) styled_buffer"
  have "(case ?run of Some (b', Inr ed) \<Rightarrow> edit_range ed = range_new 2 2 \<and> inserted_len ed = 1 | _ \<Rightarrow> False)"
    by code_simp
  then have "\<exists>b' ed. ?run = Some (b', Inr ed) \<and> edit_range ed = range_new 2 2 \<and> inserted_len ed = 1"
    by (simp split: option.splits prod.splits sum.splits)
  then obtain b' ed where run: "?run = Some (b', Inr ed)" "edit_range ed = range_new 2 2" "inserted_len ed = 1"
    by blast
  have mem: "(0, ?s) \<in> set (buf_views styled_buffer)" and len: "buffer_len styled_buffer = 5" by code_simp+
  have splice: "splice_list 2 2 (replicate 1 []) (styling 5 ?s) = (let b = [default_style\<lparr>bold := True\<rparr>] in [[], b, [], b, b, []])"
    by code_simp
  have "(0, translate_spans ed ?s) \<in> set (buf_views b')" "spans_ok (buffer_len b') (translate_spans ed ?s)"
    "styling (buffer_len b') (translate_spans ed ?s) = splice_list 2 2 (replicate 1 []) (styling 5 ?s)"
    using style_spans_follow_text [OF styled_buffer_reach run(1) mem] by (simp_all add: run(2,3) len range_new_def)
  then show ?thesis using run(1) unfolding splice by blast
qed

end
