(* ===== verification/Package_Manifest.thy ===== *)
theory Package_Manifest
  imports Buffer_Names
begin

text \<open>
  Package addresses and manifests: \<^verbatim>\<open>src/src/packages/address.rs\<close> and \<^verbatim>\<open>src/src/packages/manifest.rs\<close>. Strings are the
  bytes of their text. A semantic version and a requirement on versions are types of the \<^verbatim>\<open>semver\<close> crate: the type
  parameters \<open>'v\<close> and \<open>'q\<close>. Reading TOML is the crate's, so it is an argument where it is used.
\<close>

section \<open>Results\<close>

text \<open>\<^verbatim>\<open>Result::map_err\<close>, into the outcomes of the model.\<close>

definition map_err :: "('x \<Rightarrow> 'e) \<Rightarrow> 'x + 'a \<Rightarrow> ('e, 'a) outcome" where
  "map_err f r = (case r of Inl x \<Rightarrow> Err (f x) | Inr a \<Rightarrow> Ok a)"

lemma map_err_simps [simp]: "map_err f (Inl x) = Err (f x)" "map_err f (Inr a) = Ok a"
  by (simp_all add: map_err_def)

lemma map_err_Ok_iff: "map_err f r = Ok a \<longleftrightarrow> r = Inr a"
  by (cases r) simp_all

lemma map_err_not_None [simp]: "map_err f r \<noteq> None"
  by (cases r) simp_all

section \<open>Addresses\<close>

datatype address =
  Github (addr_owner: string) (addr_repo: string)
| Gitlab (addr_owner: string) (addr_repo: string)
| Url string

datatype address_error =
  Empty
| InvalidGithub string
| InvalidGitlab string
| EmptyGitTarget string
| MalformedHttps string
| DeferredAlias string string
| UnknownScheme string

definition DEFERRED_ALIASES :: "string list" where
  "DEFERRED_ALIASES = [''codeberg:'', ''forgejo:'']"

definition starts_with :: "string \<Rightarrow> string \<Rightarrow> bool" where
  "starts_with s p \<longleftrightarrow> take (length p) s = p"

definition strip_suffix :: "string \<Rightarrow> string \<Rightarrow> string option" where
  "strip_suffix p s =
     (if length p \<le> length s \<and> drop (length s - length p) s = p then Some (take (length s - length p) s) else None)"

definition is_ascii_lowercase :: "char \<Rightarrow> bool" where
  "is_ascii_lowercase c \<longleftrightarrow> (97 :: nat) \<le> of_char c \<and> (of_char c :: nat) \<le> 122"

definition is_ascii_uppercase :: "char \<Rightarrow> bool" where
  "is_ascii_uppercase c \<longleftrightarrow> (65 :: nat) \<le> of_char c \<and> (of_char c :: nat) \<le> 90"

definition is_ascii_alphanumeric :: "char \<Rightarrow> bool" where
  "is_ascii_alphanumeric c \<longleftrightarrow> is_ascii_lowercase c \<or> is_ascii_uppercase c \<or> is_digit c"

definition is_forge_char :: "char \<Rightarrow> bool" where
  "is_forge_char c \<longleftrightarrow> is_ascii_alphanumeric c \<or> c = CHR ''_'' \<or> c = CHR ''-'' \<or> c = CHR ''.''"

text \<open>\<open>next\<close> on the iterator of \<^verbatim>\<open>split\<close>: the parts in turn, the missing ones empty by \<^verbatim>\<open>unwrap_or\<close>.\<close>

definition parse_forge_pair :: "string \<Rightarrow> address_error \<Rightarrow> address_error + string \<times> string" where
  "parse_forge_pair rest err =
     (let body = (case strip_suffix ''.git'' rest of Some b \<Rightarrow> b | None \<Rightarrow> rest);
          parts = split_slash body;
          owner = (case parts of p # _ \<Rightarrow> p | [] \<Rightarrow> []);
          repo = (case parts of _ # q # _ \<Rightarrow> q | _ \<Rightarrow> [])
      in if owner = [] \<or> repo = [] \<or> 2 < length parts then Inl err
         else if \<not> (list_all is_forge_char owner \<and> list_all is_forge_char repo) then Inl err
         else Inr (owner, repo))"

definition parse_github :: "string \<Rightarrow> string \<Rightarrow> address_error + address" where
  "parse_github rest original =
     (case parse_forge_pair rest (InvalidGithub original) of Inl e \<Rightarrow> Inl e | Inr (owner, repo) \<Rightarrow> Inr (Github owner repo))"

definition parse_gitlab :: "string \<Rightarrow> string \<Rightarrow> address_error + address" where
  "parse_gitlab rest original =
     (case parse_forge_pair rest (InvalidGitlab original) of Inl e \<Rightarrow> Inl e | Inr (owner, repo) \<Rightarrow> Inr (Gitlab owner repo))"

definition address_parse :: "string \<Rightarrow> address_error + address" where
  "address_parse s =
     (if s = [] then Inl Empty
      else case find (starts_with s) DEFERRED_ALIASES of
        Some alias \<Rightarrow> Inl (DeferredAlias alias s)
      | None \<Rightarrow>
          if starts_with s ''https://'' \<or> starts_with s ''git://'' then Inr (Url s)
          else case strip_prefix ''github:'' s of
            Some rest \<Rightarrow> parse_github rest s
          | None \<Rightarrow>
              (case strip_prefix ''gitlab:'' s of
                 Some rest \<Rightarrow> parse_gitlab rest s
               | None \<Rightarrow>
                   (case strip_prefix ''git:'' s of
                      Some rest \<Rightarrow> if rest = [] then Inl (EmptyGitTarget s) else Inr (Url rest)
                    | None \<Rightarrow>
                        (case strip_prefix ''https:'' s of
                           Some rest \<Rightarrow> if strip_prefix ''https://'' rest \<noteq> None then Inr (Url rest) else Inl (MalformedHttps s)
                         | None \<Rightarrow> Inl (UnknownScheme s)))))"

definition to_git_url :: "address \<Rightarrow> string" where
  "to_git_url a =
     (case a of
        Github owner repo \<Rightarrow> ''https://github.com/'' @ owner @ ''/'' @ repo @ ''.git''
      | Gitlab owner repo \<Rightarrow> ''https://gitlab.com/'' @ owner @ ''/'' @ repo @ ''.git''
      | Url u \<Rightarrow> u)"

section \<open>Manifests\<close>

datatype 'm manifest_error =
  InvalidName string string
| ManifestParse 'm
| EscapingEntry string string

text \<open>A segment of a name: the first rule it breaks, if any.\<close>

definition validate_segment :: "string \<Rightarrow> string \<Rightarrow> 'm manifest_error option" where
  "validate_segment seg full =
     (if seg = [] then Some (InvalidName full ''empty segment'')
      else if \<not> is_ascii_lowercase (hd seg) then Some (InvalidName full (''segment `'' @ seg @ ''` must start with a-z''))
      else if \<not> list_all (\<lambda>c. is_ascii_lowercase c \<or> is_digit c \<or> c = CHR ''-'') seg
      then Some (InvalidName full (''segment `'' @ seg @ ''` may only contain a-z, 0-9, and `-`''))
      else None)"

text \<open>\<^verbatim>\<open>split_once('/')\<close>, with the empty string for a missing tail.\<close>

definition package_name_new :: "string \<Rightarrow> 'm manifest_error + string" where
  "package_name_new s =
     (let head = takeWhile (\<lambda>c. c \<noteq> CHR ''/'') s;
          tail = drop (Suc (length head)) s
      in if 1 < length (filter (\<lambda>c. c = CHR ''/'') s) then Inl (InvalidName s ''at most one `/` separator'')
         else case validate_segment head s of
           Some e \<Rightarrow> Inl e
         | None \<Rightarrow>
             if tail \<noteq> [] then (case validate_segment tail s of Some e \<Rightarrow> Inl e | None \<Rightarrow> Inr s)
             else if CHR ''/'' \<in> set s then Inl (InvalidName s ''namespace separator with empty tail'')
             else Inr s)"

record 'q dependency_spec =
  dep_address :: string
  dep_version :: 'q

record ('v, 'q) package_manifest =
  mf_name :: string
  mf_version :: 'v
  mf_summary :: string
  mf_pmacs_required :: 'q
  mf_dependencies :: "'q dependency_spec list"
  mf_conflicts :: "'q dependency_spec list"
  mf_entry :: string
  mf_exports :: "string list"

text \<open>The components of a path on Unix, where there are no prefixes.\<close>

definition validate_entry_path :: "string \<Rightarrow> 'm manifest_error option" where
  "validate_entry_path p =
     (if p = [] then Some (EscapingEntry [] ''empty path'')
      else if starts_with p ''/'' then Some (EscapingEntry p ''absolute paths are forbidden'')
      else case find (\<lambda>c. c = ParentDir \<or> c = RootDir) (path_components p) of
        Some ParentDir \<Rightarrow> Some (EscapingEntry p ''`..` components are forbidden'')
      | Some _ \<Rightarrow> Some (EscapingEntry p ''drive prefixes / root components are forbidden'')
      | None \<Rightarrow> None)"

definition from_toml ::
    "(ustring \<Rightarrow> 'm + ('v, 'q) package_manifest) \<Rightarrow> ustring \<Rightarrow> 'm manifest_error + ('v, 'q) package_manifest" where
  "from_toml toml s =
     (case toml s of
        Inl e \<Rightarrow> Inl (ManifestParse e)
      | Inr m \<Rightarrow> (case validate_entry_path (mf_entry m) of Some e \<Rightarrow> Inl e | None \<Rightarrow> Inr m))"

text \<open>The last part of a namespaced name.\<close>

definition package_basename :: "string \<Rightarrow> string" where
  "package_basename name = rev (takeWhile (\<lambda>c. c \<noteq> CHR ''/'') (rev name))"

section \<open>What addresses and names are\<close>

text \<open>The sugared addresses, with and without the suffix, are spellings of one clone URL.\<close>

lemma address_parse_examples:
  "address_parse ''github:o/r'' = Inr (Github ''o'' ''r'')" "address_parse ''github:o/r.git'' = Inr (Github ''o'' ''r'')"
  "to_git_url (Github ''o'' ''r'') = ''https://github.com/o/r.git''"
  "address_parse ''git://h/r'' = Inr (Url ''git://h/r'')" "address_parse ''git:git@h:r'' = Inr (Url ''git@h:r'')"
  "address_parse ''codeberg:o/r'' = Inl (DeferredAlias ''codeberg:'' ''codeberg:o/r'')"
  "address_parse ''https:x'' = Inl (MalformedHttps ''https:x'')"
  by code_simp+

lemma package_name_examples:
  "package_name_new ''user/magit-2'' = (Inr ''user/magit-2'' :: unit manifest_error + string)"
  "package_name_new ''a/'' = (Inl (InvalidName ''a/'' ''namespace separator with empty tail'') :: unit manifest_error + string)"
  "package_name_new ''a/b/c'' = (Inl (InvalidName ''a/b/c'' ''at most one `/` separator'') :: unit manifest_error + string)"
  by code_simp+

text \<open>A manifest that is read stays inside its package: no path leads out by the root or by a parent.\<close>

lemma from_toml_inside:
  assumes "from_toml toml s = Inr m"
  shows "mf_entry m \<noteq> []" "ParentDir \<notin> set (path_components (mf_entry m))" "RootDir \<notin> set (path_components (mf_entry m))"
proof -
  have "validate_entry_path (mf_entry m) = (None :: 'a manifest_error option)"
    using assms by (auto simp: from_toml_def split: sum.splits option.splits)
  then have "mf_entry m \<noteq> [] \<and> find (\<lambda>c. c = ParentDir \<or> c = RootDir) (path_components (mf_entry m)) = None"
    by (auto simp: validate_entry_path_def split: if_splits option.splits component.splits)
  then show "mf_entry m \<noteq> []" "ParentDir \<notin> set (path_components (mf_entry m))" "RootDir \<notin> set (path_components (mf_entry m))"
    by (auto simp: find_None_iff)
qed

end
