(* ===== verification/Package_Resolver.thy ===== *)
theory Package_Resolver
  imports Package_Manifest "HOL-Library.Finite_Map" "HOL-Library.List_Lexorder" "HOL-Library.Char_ord"
begin

text \<open>
  The dependency resolver, \<^verbatim>\<open>src/src/packages/resolver.rs\<close>. A \<^verbatim>\<open>BTreeMap\<close> is a finite map whose keys are visited in
  order; names and URLs are ordered as the bytes of their text. What lies outside the repository is the record
  \<open>package_world\<close>: git behind the fetcher (whose answers do not change during a resolve), the versions and the
  requirements of the \<^verbatim>\<open>semver\<close> crate, and TOML. \<open>None\<close> is a panic or a run that does not end; the two loops that need
  not end are partial functions.
\<close>

section \<open>Data\<close>

datatype 'q install_pin = PinVersion 'q | PinBranch string | PinCommit string | PinLocal string

datatype ref_spec = RefTag string | RefCommit string | RefBranch string

datatype 'v source = TopLevel | DependencyOf string 'v

record 'q resolve_request =
  req_address :: address
  req_pin :: "'q install_pin"

record ('v, 'q) resolved_package =
  rp_name :: string
  rp_address :: address
  rp_revision :: string
  rp_version :: 'v
  rp_manifest :: "('v, 'q) package_manifest"
  rp_top_level_pin :: "'q install_pin option"

record ('v, 'q) pending_edge =
  pe_address :: string
  pe_constraint :: 'q
  pe_source :: "'v source"

record ('v, 'q) chosen_entry =
  ce_address :: address
  ce_commit :: string
  ce_version :: 'v
  ce_manifest :: "('v, 'q) package_manifest"
  ce_top_level_pin :: "'q install_pin option"

record ('v, 'q) conflict_decl =
  cd_declaring_name :: string
  cd_declaring_version :: 'v
  cd_target_address :: string
  cd_target_constraint :: 'q

record 'v tag_candidate =
  tc_tag :: string
  tc_version :: 'v

record 'v chosen_tag =
  ct_tag :: string
  ct_commit :: string
  ct_version :: 'v

datatype ('v, 'q, 'f, 'm) resolve_error =
  DuplicateTopLevel string
| LocalPinNotResolvable
| AddressInDependency string address_error "'v source"
| FetchFailed address 'f
| ManifestFailed string string "'m manifest_error"
| ManifestNotUtf8 string string
| NoTagsAvailable address "('v source \<times> 'q) list"
| NoVersionMatchesConstraints address "('v source \<times> 'q) list" "string list"
| NoVersionMatchesPmacsRequirement address 'v "('v source \<times> 'q) list" "(string \<times> 'q) list"
| PinnedRevisionIncompatibleWithPmacs address string string string 'q 'v
| PinnedRevisionViolatesConstraint string 'v "'v source" 'q
| ManifestConflict string 'v string 'v 'q
| DependencyCycle "string list"
| BasenameCollision string "string list"

record ('v, 'q, 'f, 'm) package_world =
  w_running :: 'v
  w_matches :: "'q \<Rightarrow> 'v \<Rightarrow> bool"
  w_star :: 'q
  w_parse_version :: "string \<Rightarrow> 'v option"
  w_fetch :: "string \<Rightarrow> 'f + string"
  w_list_tags :: "string \<Rightarrow> 'f + string list"
  w_resolve :: "string \<Rightarrow> ref_spec \<Rightarrow> 'f + string"
  w_show_blob :: "string \<Rightarrow> string \<Rightarrow> string \<Rightarrow> 'f + byte list"
  w_toml :: "ustring \<Rightarrow> 'm + ('v, 'q) package_manifest"

record ('v, 'q) resolver_state =
  rs_chosen :: "(string, ('v, 'q) chosen_entry) fmap"
  rs_constraints :: "(string, ('v source \<times> 'q) list) fmap"
  rs_conflicts :: "('v, 'q) conflict_decl list"
  rs_repo_paths :: "(string, string) fmap"
  rs_manifests :: "(string \<times> string, ('v, 'q) package_manifest) fmap"
  rs_pending :: "('v, 'q) pending_edge list"
  rs_prefer_versions :: "(string, 'v) fmap"

type_synonym ('v, 'q, 'f, 'm, 'a) resolving = "(('v, 'q, 'f, 'm) resolve_error, 'a) outcome"

definition resolver_state_new :: "('v, 'q) resolver_state" where
  "resolver_state_new =
     \<lparr>rs_chosen = fmempty, rs_constraints = fmempty, rs_conflicts = [], rs_repo_paths = fmempty, rs_manifests = fmempty,
      rs_pending = [], rs_prefer_versions = fmempty\<rparr>"

text \<open>The keys of a \<^verbatim>\<open>BTreeMap\<close>, in order.\<close>

definition keys_of :: "('k :: linorder, 'a) fmap \<Rightarrow> 'k list" where
  "keys_of m = sorted_list_of_fset (fmdom m)"

section \<open>Reading repositories\<close>

definition ensure_repo ::
    "('v, 'q, 'f, 'm) package_world \<Rightarrow> string \<Rightarrow> ('v, 'q) resolver_state \<Rightarrow> ('v, 'q, 'f, 'm, ('v, 'q) resolver_state) resolving" where
  "ensure_repo w url st =
     (if fmlookup (rs_repo_paths st) url \<noteq> None then Ok st
      else try_bind (map_err (FetchFailed (Url url)) (w_fetch w url)) (\<lambda>path.
        Ok (st\<lparr>rs_repo_paths := fmupd url path (rs_repo_paths st)\<rparr>)))"

definition parse_tag_as_version :: "('v, 'q, 'f, 'm) package_world \<Rightarrow> string \<Rightarrow> 'v option" where
  "parse_tag_as_version w tag = w_parse_version w (case strip_prefix ''v'' tag of Some stripped \<Rightarrow> stripped | None \<Rightarrow> tag)"

text \<open>\<^verbatim>\<open>sort_by\<close> is a stable sort; \<open>before\<close> puts an element behind those that are not smaller.\<close>

fun insert_descending :: "('v :: linorder) tag_candidate \<Rightarrow> 'v tag_candidate list \<Rightarrow> 'v tag_candidate list" where
  "insert_descending c [] = [c]"
| "insert_descending c (d # ds) = (if tc_version d \<le> tc_version c then c # d # ds else d # insert_descending c ds)"

definition sort_descending :: "('v :: linorder) tag_candidate list \<Rightarrow> 'v tag_candidate list" where
  "sort_descending cs = foldr insert_descending cs []"

definition tag_candidates :: "('v :: linorder, 'q, 'f, 'm) package_world \<Rightarrow> string list \<Rightarrow> 'v tag_candidate list" where
  "tag_candidates w raw =
     sort_descending (List.map_filter (\<lambda>t. map_option (\<lambda>v. \<lparr>tc_tag = t, tc_version = v\<rparr>) (parse_tag_as_version w t)) raw)"

definition list_tags ::
    "('v :: linorder, 'q, 'f, 'm) package_world \<Rightarrow> string \<Rightarrow> address \<Rightarrow> ('v, 'q, 'f, 'm, 'v tag_candidate list) resolving" where
  "list_tags w repo address =
     try_bind (map_err (FetchFailed address) (w_list_tags w repo)) (\<lambda>raw. Ok (tag_candidates w raw))"

definition commit_for_tag :: "'v tag_candidate \<Rightarrow> string" where
  "commit_for_tag c = tc_tag c"

definition read_manifest ::
    "('v, 'q, 'f, 'm) package_world \<Rightarrow> string \<Rightarrow> string \<Rightarrow> string \<Rightarrow> ('v, 'q) resolver_state \<Rightarrow>
     ('v, 'q, 'f, 'm, ('v, 'q) package_manifest \<times> ('v, 'q) resolver_state) resolving" where
  "read_manifest w url repo commit st =
     (let key = (url, commit)
      in try_bind
           (if fmlookup (rs_manifests st) key \<noteq> None then Ok st
            else try_bind (map_err (FetchFailed (Url url)) (w_show_blob w repo commit ''pmacs.toml'')) (\<lambda>bytes.
              case utf8_text bytes of
                None \<Rightarrow> Err (ManifestNotUtf8 url commit)
              | Some text \<Rightarrow>
                  try_bind (map_err (ManifestFailed url commit) (from_toml (w_toml w) text)) (\<lambda>manifest.
                    Ok (st\<lparr>rs_manifests := fmupd key manifest (rs_manifests st)\<rparr>))))
           (\<lambda>st'. case fmlookup (rs_manifests st') key of Some manifest \<Rightarrow> Ok (manifest, st') | None \<Rightarrow> Panic))"

definition check_pinned_pmacs_required ::
    "('v, 'q, 'f, 'm) package_world \<Rightarrow> address \<Rightarrow> ('v, 'q) package_manifest \<Rightarrow> string \<Rightarrow> string \<Rightarrow> string \<Rightarrow>
     ('v, 'q, 'f, 'm, unit) resolving" where
  "check_pinned_pmacs_required w address manifest commit pin_kind pin_value =
     (if w_matches w (mf_pmacs_required manifest) (w_running w) then Ok ()
      else Err (PinnedRevisionIncompatibleWithPmacs address commit pin_kind pin_value (mf_pmacs_required manifest) (w_running w)))"

subsection \<open>The best version\<close>

definition chosen_tag_of :: "'v tag_candidate \<Rightarrow> 'v chosen_tag" where
  "chosen_tag_of c = \<lparr>ct_tag = tc_tag c, ct_commit = commit_for_tag c, ct_version = tc_version c\<rparr>"

text \<open>The walk over the candidates, highest first, to one whose manifest accepts the running version.\<close>

fun first_compatible ::
    "('v, 'q, 'f, 'm) package_world \<Rightarrow> string \<Rightarrow> string \<Rightarrow> address \<Rightarrow> ('v source \<times> 'q) list \<Rightarrow> 'v tag_candidate list \<Rightarrow>
     (string \<times> 'q) list \<Rightarrow> ('v, 'q) resolver_state \<Rightarrow> ('v, 'q, 'f, 'm, 'v chosen_tag \<times> ('v, 'q) resolver_state) resolving" where
  "first_compatible w repo url address constraints [] incompatible st =
     Err (NoVersionMatchesPmacsRequirement address (w_running w) constraints incompatible)"
| "first_compatible w repo url address constraints (c # cs) incompatible st =
     try_bind (read_manifest w url repo (commit_for_tag c) st) (\<lambda>(manifest, st').
       if w_matches w (mf_pmacs_required manifest) (w_running w) then Ok (chosen_tag_of c, st')
       else first_compatible w repo url address constraints cs
              (incompatible @ [(tc_tag c, mf_pmacs_required manifest)]) st')"

definition pick_best_version ::
    "('v :: linorder, 'q, 'f, 'm) package_world \<Rightarrow> string \<Rightarrow> string \<Rightarrow> address \<Rightarrow> 'v tag_candidate list \<Rightarrow> ('v source \<times> 'q) list \<Rightarrow>
     ('v, 'q) resolver_state \<Rightarrow> ('v, 'q, 'f, 'm, 'v chosen_tag \<times> ('v, 'q) resolver_state) resolving" where
  "pick_best_version w repo url address candidates constraints st =
     (if candidates = [] then Err (NoTagsAvailable address constraints)
      else
        (let after_user = filter (\<lambda>c. list_all (\<lambda>(_, req). w_matches w req (tc_version c)) constraints) candidates
         in if after_user = [] then Err (NoVersionMatchesConstraints address constraints (map tc_tag candidates))
            else
              (case Option.bind (fmlookup (rs_prefer_versions st) url) (\<lambda>hint. find (\<lambda>c. tc_version c = hint) after_user) of
                 Some cand \<Rightarrow>
                   try_bind (read_manifest w url repo (commit_for_tag cand) st) (\<lambda>(manifest, st').
                     if w_matches w (mf_pmacs_required manifest) (w_running w) then Ok (chosen_tag_of cand, st')
                     else first_compatible w repo url address constraints after_user [] st')
               | None \<Rightarrow> first_compatible w repo url address constraints after_user [] st)))"

section \<open>The resolver's state\<close>

definition enqueue_dependencies ::
    "string \<Rightarrow> 'v \<Rightarrow> ('v, 'q) package_manifest \<Rightarrow> ('v, 'q) resolver_state \<Rightarrow> ('v, 'q) resolver_state" where
  "enqueue_dependencies name version manifest st =
     st\<lparr>rs_pending := rs_pending st @
          map (\<lambda>dep. \<lparr>pe_address = dep_address dep, pe_constraint = dep_version dep, pe_source = DependencyOf name version\<rparr>)
            (mf_dependencies manifest)\<rparr>"

definition stash_conflicts ::
    "string \<Rightarrow> 'v \<Rightarrow> ('v, 'q) package_manifest \<Rightarrow> ('v, 'q) resolver_state \<Rightarrow> ('v, 'q) resolver_state" where
  "stash_conflicts name version manifest st =
     st\<lparr>rs_conflicts := rs_conflicts st @
          map (\<lambda>c. \<lparr>cd_declaring_name = name, cd_declaring_version = version, cd_target_address = dep_address c,
                     cd_target_constraint = dep_version c\<rparr>)
            (mf_conflicts manifest)\<rparr>"

definition constraints_on :: "string \<Rightarrow> ('v, 'q) resolver_state \<Rightarrow> ('v source \<times> 'q) list" where
  "constraints_on name st = (case fmlookup (rs_constraints st) name of Some cs \<Rightarrow> cs | None \<Rightarrow> [])"

definition add_constraint :: "string \<Rightarrow> 'v source \<times> 'q \<Rightarrow> ('v, 'q) resolver_state \<Rightarrow> ('v, 'q) resolver_state" where
  "add_constraint name c st = st\<lparr>rs_constraints := fmupd name (constraints_on name st @ [c]) (rs_constraints st)\<rparr>"

text \<open>\<^verbatim>\<open>enqueue_dependencies\<close>, \<^verbatim>\<open>stash_conflicts\<close> and \<^verbatim>\<open>chosen.insert\<close>: how every choice is recorded.\<close>

definition record_choice :: "string \<Rightarrow> ('v, 'q) chosen_entry \<Rightarrow> ('v, 'q) resolver_state \<Rightarrow> ('v, 'q) resolver_state" where
  "record_choice name entry st =
     (let st' = stash_conflicts name (ce_version entry) (ce_manifest entry)
                  (enqueue_dependencies name (ce_version entry) (ce_manifest entry) st)
      in st'\<lparr>rs_chosen := fmupd name entry (rs_chosen st')\<rparr>)"

definition pinned_commit ::
    "('v :: linorder, 'q, 'f, 'm) package_world \<Rightarrow> 'q resolve_request \<Rightarrow> string \<Rightarrow> string \<Rightarrow> ('v, 'q) resolver_state \<Rightarrow>
     ('v, 'q, 'f, 'm, (string \<times> ('v, 'q) package_manifest) \<times> ('v, 'q) resolver_state) resolving" where
  "pinned_commit w req url repo st =
     (case req_pin req of
        PinVersion constraint \<Rightarrow>
          try_bind (list_tags w repo (req_address req)) (\<lambda>candidates.
          try_bind (pick_best_version w repo url (req_address req) candidates [(TopLevel, constraint)] st) (\<lambda>(chosen, st1).
          try_bind (read_manifest w url repo (ct_commit chosen) st1) (\<lambda>(manifest, st2).
          Ok ((ct_commit chosen, manifest), st2))))
      | PinBranch b \<Rightarrow>
          try_bind (map_err (FetchFailed (req_address req)) (w_resolve w repo (RefBranch b))) (\<lambda>commit.
          try_bind (read_manifest w url repo commit st) (\<lambda>(manifest, st1).
          try_bind (check_pinned_pmacs_required w (req_address req) manifest commit ''branch'' b) (\<lambda>_.
          Ok ((commit, manifest), st1))))
      | PinCommit c \<Rightarrow>
          try_bind (map_err (FetchFailed (req_address req)) (w_resolve w repo (RefCommit c))) (\<lambda>commit.
          try_bind (read_manifest w url repo commit st) (\<lambda>(manifest, st1).
          try_bind (check_pinned_pmacs_required w (req_address req) manifest commit ''commit'' c) (\<lambda>_.
          Ok ((commit, manifest), st1))))
      | PinLocal _ \<Rightarrow> Err LocalPinNotResolvable)"

definition add_top_level ::
    "('v :: linorder, 'q, 'f, 'm) package_world \<Rightarrow> 'q resolve_request \<Rightarrow> ('v, 'q) resolver_state \<Rightarrow>
     ('v, 'q, 'f, 'm, ('v, 'q) resolver_state) resolving" where
  "add_top_level w req st =
     (let url = to_git_url (req_address req)
      in try_bind (ensure_repo w url st) (\<lambda>st1.
         case fmlookup (rs_repo_paths st1) url of
           None \<Rightarrow> Panic
         | Some repo \<Rightarrow>
             try_bind (pinned_commit w req url repo st1) (\<lambda>((commit, manifest), st2).
               let name = mf_name manifest
               in if fmlookup (rs_chosen st2) name \<noteq> None then Err (DuplicateTopLevel name)
                  else
                    (let st3 = (case req_pin req of PinVersion constraint \<Rightarrow> add_constraint name (TopLevel, constraint) st2 | _ \<Rightarrow> st2)
                     in Ok (record_choice name
                              \<lparr>ce_address = req_address req, ce_commit = commit, ce_version = mf_version manifest,
                               ce_manifest = manifest, ce_top_level_pin = Some (req_pin req)\<rparr> st3)))))"

fun add_requests ::
    "('v :: linorder, 'q, 'f, 'm) package_world \<Rightarrow> 'q resolve_request list \<Rightarrow> ('v, 'q) resolver_state \<Rightarrow>
     ('v, 'q, 'f, 'm, ('v, 'q) resolver_state) resolving" where
  "add_requests w [] st = Ok st"
| "add_requests w (req # reqs) st = try_bind (add_top_level w req st) (add_requests w reqs)"

section \<open>The fixed point\<close>

text \<open>The version of a pinned revision against the constraints of other packages: the first it breaks.\<close>

definition violated :: "('v, 'q, 'f, 'm) package_world \<Rightarrow> 'v \<Rightarrow> ('v source \<times> 'q) list \<Rightarrow> ('v source \<times> 'q) option" where
  "violated w version constraints = find (\<lambda>(source, req). source \<noteq> TopLevel \<and> \<not> w_matches w req version) constraints"

definition recheck_chosen ::
    "('v :: linorder, 'q, 'f, 'm) package_world \<Rightarrow> string \<Rightarrow> ('v, 'q) resolver_state \<Rightarrow>
     ('v, 'q, 'f, 'm, bool \<times> ('v, 'q) resolver_state) resolving" where
  "recheck_chosen w name st =
     (case fmlookup (rs_chosen st) name of
        None \<Rightarrow> Ok (False, st)
      | Some entry \<Rightarrow>
          if (case ce_top_level_pin entry of Some (PinBranch _) \<Rightarrow> True | Some (PinCommit _) \<Rightarrow> True | _ \<Rightarrow> False)
          then (case violated w (ce_version entry) (constraints_on name st) of
                  Some (source, req) \<Rightarrow> Err (PinnedRevisionViolatesConstraint name (ce_version entry) source req)
                | None \<Rightarrow> Ok (False, st))
          else
            (let url = to_git_url (ce_address entry)
             in case fmlookup (rs_repo_paths st) url of
                  None \<Rightarrow> Panic
                | Some repo \<Rightarrow>
                    try_bind (list_tags w repo (ce_address entry)) (\<lambda>candidates.
                    let constraints = (if constraints_on name st = [] then [(TopLevel, w_star w)] else constraints_on name st)
                    in try_bind (pick_best_version w repo url (ce_address entry) candidates constraints st) (\<lambda>(chosen, st1).
                       if ce_version entry \<le> ct_version chosen then Ok (False, st1)
                       else try_bind (read_manifest w url repo (ct_commit chosen) st1) (\<lambda>(manifest, st2).
                         Ok (True, record_choice name
                                     \<lparr>ce_address = ce_address entry, ce_commit = ct_commit chosen, ce_version = mf_version manifest,
                                      ce_manifest = manifest, ce_top_level_pin = ce_top_level_pin entry\<rparr> st2))))))"

definition process_pending ::
    "('v :: linorder, 'q, 'f, 'm) package_world \<Rightarrow> ('v, 'q) pending_edge \<Rightarrow> ('v, 'q) resolver_state \<Rightarrow>
     ('v, 'q, 'f, 'm, ('v, 'q) resolver_state) resolving" where
  "process_pending w edge st =
     try_bind (map_err (\<lambda>e. AddressInDependency (pe_address edge) e (pe_source edge)) (address_parse (pe_address edge))) (\<lambda>address.
     let url = to_git_url address
     in try_bind (ensure_repo w url st) (\<lambda>st1.
        case fmlookup (rs_repo_paths st1) url of
          None \<Rightarrow> Panic
        | Some repo \<Rightarrow>
            try_bind (list_tags w repo address) (\<lambda>candidates.
            try_bind (pick_best_version w repo url address candidates [(pe_source edge, pe_constraint edge)] st1) (\<lambda>(probe, st2).
            try_bind (read_manifest w url repo (ct_commit probe) st2) (\<lambda>(manifest, st3).
            let name = mf_name manifest;
                st4 = add_constraint name (pe_source edge, pe_constraint edge) st3
            in if fmlookup (rs_chosen st4) name \<noteq> None
               then try_bind (recheck_chosen w name st4) (\<lambda>(_, st5). Ok st5)
               else Ok (record_choice name
                          \<lparr>ce_address = address, ce_commit = ct_commit probe, ce_version = mf_version manifest,
                           ce_manifest = manifest, ce_top_level_pin = None\<rparr> st4))))))"

fun recheck_all ::
    "('v :: linorder, 'q, 'f, 'm) package_world \<Rightarrow> string list \<Rightarrow> bool \<Rightarrow> ('v, 'q) resolver_state \<Rightarrow>
     ('v, 'q, 'f, 'm, bool \<times> ('v, 'q) resolver_state) resolving" where
  "recheck_all w [] changed st = Ok (changed, st)"
| "recheck_all w (name # names) changed st =
     try_bind (recheck_chosen w name st) (\<lambda>(lowered, st'). recheck_all w names (changed \<or> lowered) st')"

text \<open>The two loops of \<^verbatim>\<open>iterate_to_fixpoint\<close>: the pending edges one by one, then a recheck of every package.\<close>

lemma try_bind_bind: "try_bind m k = Option.bind m (\<lambda>r. case r of Inl e \<Rightarrow> Some (Inl e) | Inr v \<Rightarrow> k v)"
  by (cases m) (auto split: sum.split)

lemma try_bind_mono [partial_function_mono]:
  assumes "mono_option B" "\<And>y. mono_option (C y)"
  shows "mono_option (\<lambda>f. try_bind (B f) (\<lambda>y. C y f))"
proof -
  have "mono_option (\<lambda>f. Option.bind (B f) (\<lambda>r. case r of Inl e \<Rightarrow> Some (Inl e) | Inr v \<Rightarrow> C v f))"
  proof (rule bind_mono [OF assms(1)])
    show "mono_option (\<lambda>f. case r of Inl e \<Rightarrow> Some (Inl e) | Inr v \<Rightarrow> C v f)" for r
    proof (cases r)
      case (Inl e)
      then show ?thesis by (simp add: monotone_def flat_ord_def)
    next
      case (Inr v)
      then show ?thesis using assms(2) [of v] by simp
    qed
  qed
  then show ?thesis by (simp add: try_bind_bind)
qed

partial_function (option) drain_pending ::
    "('v :: linorder, 'q, 'f, 'm) package_world \<Rightarrow> ('v, 'q) resolver_state \<Rightarrow> ('v, 'q, 'f, 'm, ('v, 'q) resolver_state) resolving" where
  "drain_pending w st =
     (case rs_pending st of
        [] \<Rightarrow> Ok st
      | edge # rest \<Rightarrow> try_bind (process_pending w edge (st\<lparr>rs_pending := rest\<rparr>)) (\<lambda>st'. drain_pending w st'))"

partial_function (option) iterate_to_fixpoint ::
    "('v :: linorder, 'q, 'f, 'm) package_world \<Rightarrow> ('v, 'q) resolver_state \<Rightarrow> ('v, 'q, 'f, 'm, ('v, 'q) resolver_state) resolving" where
  "iterate_to_fixpoint w st =
     try_bind (drain_pending w st) (\<lambda>st1.
     try_bind (recheck_all w (keys_of (rs_chosen st1)) False st1) (\<lambda>(changed, st2).
       if \<not> changed \<and> rs_pending st2 = [] then Ok st2 else iterate_to_fixpoint w st2))"

declare drain_pending.simps [code] iterate_to_fixpoint.simps [code]

section \<open>Conflicts\<close>

text \<open>A later entry of the same URL replaces an earlier one.\<close>

definition url_to_name :: "(string, ('v, 'q) chosen_entry) fmap \<Rightarrow> (string, string) fmap" where
  "url_to_name chosen =
     fold (\<lambda>name m. case fmlookup chosen name of Some entry \<Rightarrow> fmupd (to_git_url (ce_address entry)) name m | None \<Rightarrow> m)
       (keys_of chosen) fmempty"

text \<open>The package a declaration conflicts with, if the declaration is current and its target is chosen.\<close>

definition conflict_with ::
    "('v, 'q, 'f, 'm) package_world \<Rightarrow> (string, ('v, 'q) chosen_entry) fmap \<Rightarrow> ('v, 'q) conflict_decl \<Rightarrow> (string \<times> 'v) option" where
  "conflict_with w chosen decl =
     (case fmlookup chosen (cd_declaring_name decl) of
        None \<Rightarrow> None
      | Some entry \<Rightarrow>
          if ce_version entry \<noteq> cd_declaring_version decl then None
          else (case address_parse (cd_target_address decl) of
                  Inl _ \<Rightarrow> None
                | Inr a \<Rightarrow>
                    (case fmlookup (url_to_name chosen) (to_git_url a) of
                       None \<Rightarrow> None
                     | Some target \<Rightarrow>
                         (case fmlookup chosen target of
                            None \<Rightarrow> None
                          | Some t \<Rightarrow> if w_matches w (cd_target_constraint decl) (ce_version t) then Some (target, ce_version t) else None))))"

fun check_conflicts ::
    "('v, 'q, 'f, 'm) package_world \<Rightarrow> (string, ('v, 'q) chosen_entry) fmap \<Rightarrow> ('v, 'q) conflict_decl list \<Rightarrow> ('v, 'q, 'f, 'm, unit) resolving" where
  "check_conflicts w chosen [] = Ok ()"
| "check_conflicts w chosen (decl # decls) =
     (case conflict_with w chosen decl of
        Some (target, version) \<Rightarrow>
          Err (ManifestConflict (cd_declaring_name decl) (cd_declaring_version decl) target version (cd_target_constraint decl))
      | None \<Rightarrow> check_conflicts w chosen decls)"

section \<open>The plan\<close>

text \<open>The names a manifest's dependencies stand for, among the chosen ones.\<close>

definition dependency_names :: "(string, string) fmap \<Rightarrow> ('v, 'q) package_manifest \<Rightarrow> string fset" where
  "dependency_names names manifest =
     fset_of_list (List.map_filter
       (\<lambda>dep. case address_parse (dep_address dep) of Inl _ \<Rightarrow> None | Inr a \<Rightarrow> fmlookup names (to_git_url a)) (mf_dependencies manifest))"

definition deps_of :: "(string, ('v, 'q) chosen_entry) fmap \<Rightarrow> (string, string fset) fmap" where
  "deps_of chosen = fmmap (\<lambda>entry. dependency_names (url_to_name chosen) (ce_manifest entry)) chosen"

definition dependents_of :: "(string, string fset) fmap \<Rightarrow> string \<Rightarrow> string list" where
  "dependents_of deps y = filter (\<lambda>x. case fmlookup deps x of Some ds \<Rightarrow> y |\<in>| ds | None \<Rightarrow> False) (keys_of deps)"

text \<open>What emitting a node does to those that depend on it: \<open>xs\<close> are its dependents, in order.\<close>

fun settle_dependents :: "string list \<Rightarrow> (string, nat) fmap \<Rightarrow> string list \<Rightarrow> (string, nat) fmap \<times> string list" where
  "settle_dependents [] indegree ready = (indegree, ready)"
| "settle_dependents (x # xs) indegree ready =
     (case fmlookup indegree x of
        None \<Rightarrow> settle_dependents xs indegree ready
      | Some d \<Rightarrow>
          (let d' = d - 1
           in settle_dependents xs (fmupd x d' indegree) (if d' = 0 then List.insert x ready else ready)))"

text \<open>A set that gives its least element first is a sorted list without duplicates.\<close>

partial_function (option) kahn_loop ::
    "(string \<Rightarrow> string list) \<Rightarrow> (string, nat) fmap \<Rightarrow> string list \<Rightarrow> string list \<Rightarrow> string list option" where
  "kahn_loop dependents indegree ready order =
     (case sort ready of
        [] \<Rightarrow> Some order
      | x # rest \<Rightarrow>
          (case settle_dependents (dependents x) indegree rest of
             (indegree', ready') \<Rightarrow> kahn_loop dependents indegree' ready' (order @ [x])))"

declare kahn_loop.simps [code]

definition topological_order :: "(string, string fset) fmap \<Rightarrow> string list option" where
  "topological_order deps =
     (let indegree = fmmap (\<lambda>ds. length (sorted_list_of_fset ds)) deps
      in kahn_loop (dependents_of deps) indegree (filter (\<lambda>n. fmlookup indegree n = Some 0) (keys_of deps)) [])"

definition find_basename_collision :: "string list \<Rightarrow> (string \<times> string list) option" where
  "find_basename_collision names =
     find (\<lambda>(_, ns). 1 < length ns)
       (map (\<lambda>b. (b, filter (\<lambda>n. package_basename n = b) names)) (sort (remdups (map package_basename names))))"

text \<open>\<^verbatim>\<open>entries.remove(&name)\<close>, in the order of the plan.\<close>

fun emit_packages ::
    "string list \<Rightarrow> (string, ('v, 'q) chosen_entry) fmap \<Rightarrow> ('v, 'q) resolved_package list option" where
  "emit_packages [] entries = Some []"
| "emit_packages (name # names) entries = do {
     entry \<leftarrow> fmlookup entries name;
     packages \<leftarrow> emit_packages names (fmdrop name entries);
     Some (\<lparr>rp_name = name, rp_address = ce_address entry, rp_revision = ce_commit entry, rp_version = ce_version entry,
            rp_manifest = ce_manifest entry, rp_top_level_pin = ce_top_level_pin entry\<rparr> # packages)
   }"

definition into_plan :: "('v, 'q) resolver_state \<Rightarrow> ('v, 'q, 'f, 'm, ('v, 'q) resolved_package list) resolving" where
  "into_plan st = do {
     let entries = rs_chosen st;
     order \<leftarrow> topological_order (deps_of entries);
     (if length order \<noteq> length (keys_of entries)
      then Err (DependencyCycle (filter (\<lambda>n. n \<notin> set order) (keys_of entries)))
      else do {
        packages \<leftarrow> emit_packages order entries;
        (case find_basename_collision (map rp_name packages) of
           Some (basename, names) \<Rightarrow> Err (BasenameCollision basename names)
         | None \<Rightarrow> Ok packages)
      })
   }"

section \<open>Resolving\<close>

definition resolve_from ::
    "('v :: linorder, 'q, 'f, 'm) package_world \<Rightarrow> 'q resolve_request list \<Rightarrow> ('v, 'q) resolver_state \<Rightarrow>
     ('v, 'q, 'f, 'm, ('v, 'q) resolved_package list) resolving" where
  "resolve_from w requests st0 =
     try_bind (add_requests w requests st0) (\<lambda>st1.
     try_bind (iterate_to_fixpoint w st1) (\<lambda>st2.
     try_bind (check_conflicts w (rs_chosen st2) (rs_conflicts st2)) (\<lambda>_.
     into_plan st2)))"

definition resolve_requests ::
    "('v :: linorder, 'q, 'f, 'm) package_world \<Rightarrow> 'q resolve_request list \<Rightarrow> ('v, 'q, 'f, 'm, ('v, 'q) resolved_package list) resolving" where
  "resolve_requests w requests = resolve_from w requests resolver_state_new"

end
