(* ===== verification/Resolver_Reading.thy ===== *)
theory Resolver_Reading
  imports Package_Resolver "HOL-Library.Multiset"
begin

text \<open>
  The resolver of \<^verbatim>\<open>src/src/packages/resolver.rs\<close> reads repositories through two caches. Here the caches are shown to be
  invisible: a read through them is the read it stands for, and the version picked is the best one there is.
\<close>

section \<open>Reads through the caches\<close>

definition manifest_at ::
    "('v, 'q, 'f, 'm) package_world \<Rightarrow> string \<Rightarrow> string \<Rightarrow> string \<Rightarrow> ('v, 'q, 'f, 'm, ('v, 'q) package_manifest) resolving" where
  "manifest_at w url repo commit =
     try_bind (map_err (FetchFailed (Url url)) (w_show_blob w repo commit ''pmacs.toml'')) (\<lambda>bytes.
       case utf8_text bytes of
         None \<Rightarrow> Err (ManifestNotUtf8 url commit)
       | Some text \<Rightarrow> map_err (ManifestFailed url commit) (from_toml (w_toml w) text))"

definition caches_ok :: "('v, 'q, 'f, 'm) package_world \<Rightarrow> ('v, 'q) resolver_state \<Rightarrow> bool" where
  "caches_ok w st \<longleftrightarrow>
     (\<forall>url repo. fmlookup (rs_repo_paths st) url = Some repo \<longrightarrow> w_fetch w url = Inr repo) \<and>
     (\<forall>url repo commit m. fmlookup (rs_manifests st) (url, commit) = Some m \<longrightarrow> w_fetch w url = Inr repo \<longrightarrow> manifest_at w url repo commit = Ok m)"

lemma caches_ok_new: "caches_ok w (resolver_state_new\<lparr>rs_prefer_versions := p\<rparr>)"
  by (simp add: caches_ok_def resolver_state_new_def)

lemma caches_ok_cong:
  "rs_repo_paths st' = rs_repo_paths st \<Longrightarrow> rs_manifests st' = rs_manifests st \<Longrightarrow> caches_ok w st' = caches_ok w st"
  by (simp add: caches_ok_def)

lemma manifest_at_not_None [simp]: "manifest_at w url repo commit \<noteq> None"
  by (cases "w_show_blob w repo commit ''pmacs.toml''") (auto simp: manifest_at_def simp del: not_None_eq split: option.split)

lemma outcome_cases:
  assumes "x \<noteq> None"
  obtains (failed) e where "x = Err e" | (passed) a where "x = Ok a"
proof (cases x)
  case (Some r)
  then show ?thesis using that by (cases r) auto
qed (use assms in simp)

lemma ensure_repo_ok:
  assumes "caches_ok w st"
  obtains e where "ensure_repo w url st = Err e"
  | repos repo where "ensure_repo w url st = Ok (st\<lparr>rs_repo_paths := repos\<rparr>)" "fmlookup repos url = Some repo" "w_fetch w url = Inr repo"
      "caches_ok w (st\<lparr>rs_repo_paths := repos\<rparr>)" "rs_repo_paths st \<subseteq>\<^sub>f repos"
proof (cases "fmlookup (rs_repo_paths st) url")
  case (Some repo)
  have "st\<lparr>rs_repo_paths := rs_repo_paths st\<rparr> = st" by simp
  moreover have "w_fetch w url = Inr repo" using assms Some by (simp add: caches_ok_def)
  ultimately show thesis using that(2) [of "rs_repo_paths st" repo] assms Some by (simp add: ensure_repo_def fmsubset.rep_eq)
next
  case None
  show thesis
  proof (cases "w_fetch w url")
    case (Inl e)
    then show thesis using that(1) None by (simp add: ensure_repo_def)
  next
    case (Inr repo)
    have "ensure_repo w url st = Ok (st\<lparr>rs_repo_paths := fmupd url repo (rs_repo_paths st)\<rparr>)"
      using None Inr by (simp add: ensure_repo_def)
    moreover have "caches_ok w (st\<lparr>rs_repo_paths := fmupd url repo (rs_repo_paths st)\<rparr>)"
      using assms Inr by (auto simp: caches_ok_def)
    moreover have "rs_repo_paths st \<subseteq>\<^sub>f fmupd url repo (rs_repo_paths st)"
      using None fmdom'_notI [OF None] by (auto simp: fmsubset.rep_eq map_le_def)
    ultimately show thesis using that(2) Inr by simp
  qed
qed

lemma read_manifest_ok:
  assumes "caches_ok w st" "w_fetch w url = Inr repo"
  obtains e where "manifest_at w url repo commit = Err e" "read_manifest w url repo commit st = Err e"
  | m ms where "manifest_at w url repo commit = Ok m" "read_manifest w url repo commit st = Ok (m, st\<lparr>rs_manifests := ms\<rparr>)"
      "caches_ok w (st\<lparr>rs_manifests := ms\<rparr>)"
proof (cases "fmlookup (rs_manifests st) (url, commit)")
  case (Some m)
  have "manifest_at w url repo commit = Ok m" using assms Some by (simp add: caches_ok_def)
  moreover have "read_manifest w url repo commit st = Ok (m, st\<lparr>rs_manifests := rs_manifests st\<rparr>)"
    using Some by (simp add: read_manifest_def)
  ultimately show thesis using that(2) [of m "rs_manifests st"] assms(1) by simp
next
  case None
  show thesis
  proof (cases rule: outcome_cases [OF manifest_at_not_None [of w url repo commit], case_names failed passed])
    case (failed e)
    have "read_manifest w url repo commit st = Err e"
      using failed None
      by (cases "w_show_blob w repo commit ''pmacs.toml''") (auto simp: read_manifest_def manifest_at_def map_err_def split: option.splits sum.splits)
    then show thesis using that(1) failed by blast
  next
    case (passed m)
    let ?ms = "fmupd (url, commit) m (rs_manifests st)"
    have "read_manifest w url repo commit st = Ok (m, st\<lparr>rs_manifests := ?ms\<rparr>)"
      using passed None
      by (cases "w_show_blob w repo commit ''pmacs.toml''") (auto simp: read_manifest_def manifest_at_def map_err_def split: option.splits sum.splits)
    moreover have "caches_ok w (st\<lparr>rs_manifests := ?ms\<rparr>)"
      using assms passed by (auto simp: caches_ok_def)
    ultimately show thesis using that(2) passed by blast
  qed
qed

section \<open>Candidates\<close>

lemma insert_descending_facts:
  "mset (insert_descending c ds) = add_mset c (mset ds)"
  "sorted_wrt (\<lambda>a b. tc_version b \<le> tc_version a) ds \<Longrightarrow> sorted_wrt (\<lambda>a b. tc_version b \<le> tc_version a) (insert_descending c ds)"
proof -
  show m: "mset (insert_descending c ds) = add_mset c (mset ds)" for ds by (induction ds) auto
  have s: "set (insert_descending c ds) = insert c (set ds)" for ds using arg_cong [OF m, of set_mset] by simp
  show "sorted_wrt (\<lambda>a b. tc_version b \<le> tc_version a) (insert_descending c ds)" if "sorted_wrt (\<lambda>a b. tc_version b \<le> tc_version a) ds"
    using that by (induction ds) (auto simp: s)
qed

lemma sort_descending_facts:
  "set (sort_descending cs) = set cs" "sorted_wrt (\<lambda>a b. tc_version b \<le> tc_version a) (sort_descending cs)"
proof -
  have "mset (sort_descending cs) = mset cs" by (induction cs) (simp_all add: sort_descending_def insert_descending_facts)
  then show "set (sort_descending cs) = set cs" by (metis set_mset_mset)
  show "sorted_wrt (\<lambda>a b. tc_version b \<le> tc_version a) (sort_descending cs)"
    by (induction cs) (simp_all add: sort_descending_def insert_descending_facts(2))
qed

text \<open>The published versions of a repository.\<close>

definition published :: "('v :: linorder, 'q, 'f, 'm) package_world \<Rightarrow> string \<Rightarrow> 'v tag_candidate list" where
  "published w repo = (case w_list_tags w repo of Inl _ \<Rightarrow> [] | Inr raw \<Rightarrow> tag_candidates w raw)"

lemma published_sorted: "sorted_wrt (\<lambda>a b. tc_version b \<le> tc_version a) (published w repo)"
  by (auto simp: published_def tag_candidates_def sort_descending_facts split: sum.split)

lemma list_tags_ok:
  obtains e where "list_tags w repo address = Err e" | "list_tags w repo address = Ok (published w repo)"
  by (cases "w_list_tags w repo") (auto simp: list_tags_def published_def)

section \<open>The version that is picked\<close>

definition compatible :: "('v, 'q, 'f, 'm) package_world \<Rightarrow> string \<Rightarrow> string \<Rightarrow> 'v tag_candidate \<Rightarrow> bool" where
  "compatible w url repo c \<longleftrightarrow>
     (\<exists>m. manifest_at w url repo (tc_tag c) = Ok m \<and> w_matches w (mf_pmacs_required m) (w_running w))"

definition satisfies :: "('v, 'q, 'f, 'm) package_world \<Rightarrow> ('v source \<times> 'q) list \<Rightarrow> 'v \<Rightarrow> bool" where
  "satisfies w constraints v \<longleftrightarrow> (\<forall>(source, req) \<in> set constraints. w_matches w req v)"

text \<open>
  A candidate that may be picked under some constraints; without a preference it is the highest of those.
\<close>

definition picks ::
    "('v :: linorder, 'q, 'f, 'm) package_world \<Rightarrow> string \<Rightarrow> string \<Rightarrow> bool \<Rightarrow> ('v source \<times> 'q) list \<Rightarrow> 'v tag_candidate \<Rightarrow> bool" where
  "picks w url repo fresh constraints c \<longleftrightarrow>
     c \<in> set (published w repo) \<and> satisfies w constraints (tc_version c) \<and> compatible w url repo c \<and>
     (fresh \<longrightarrow> (\<forall>d \<in> set (published w repo). satisfies w constraints (tc_version d) \<longrightarrow> compatible w url repo d \<longrightarrow> tc_version d \<le> tc_version c))"

lemma first_compatible_ok:
  assumes "caches_ok w st" "w_fetch w url = Inr repo"
  shows "(\<exists>e. first_compatible w repo url address constraints cs inc st = Err e) \<or>
    (\<exists>xs c ys ms. cs = xs @ c # ys \<and> first_compatible w repo url address constraints cs inc st = Ok (chosen_tag_of c, st\<lparr>rs_manifests := ms\<rparr>) \<and>
       caches_ok w (st\<lparr>rs_manifests := ms\<rparr>) \<and> compatible w url repo c \<and> (\<forall>d \<in> set xs. \<not> compatible w url repo d))"
  using assms(1)
proof (induction cs arbitrary: st inc)
  case (Cons c cs)
  show ?case
  proof (cases rule: read_manifest_ok [OF Cons.prems assms(2), of "tc_tag c", case_names failed passed])
    case (failed e)
    then show ?thesis by (simp add: commit_for_tag_def)
  next
    case (passed m ms)
    show ?thesis
    proof (cases "w_matches w (mf_pmacs_required m) (w_running w)")
      case True
      have "first_compatible w repo url address constraints (c # cs) inc st = Ok (chosen_tag_of c, st\<lparr>rs_manifests := ms\<rparr>)"
        using passed True by (simp add: commit_for_tag_def)
      moreover have "compatible w url repo c" using passed True by (simp add: compatible_def)
      ultimately show ?thesis using passed(3) by (intro disjI2 exI [where x = "[]"] exI [where x = c] exI [where x = cs] exI [where x = ms]) simp
    next
      case False
      have skip: "\<not> compatible w url repo c" using passed(1) False by (simp add: compatible_def)
      have step: "first_compatible w repo url address constraints (c # cs) inc st =
          first_compatible w repo url address constraints cs (inc @ [(tc_tag c, mf_pmacs_required m)]) (st\<lparr>rs_manifests := ms\<rparr>)"
        using passed False by (simp add: commit_for_tag_def)
      from Cons.IH [OF passed(3), of "inc @ [(tc_tag c, mf_pmacs_required m)]"] show ?thesis unfolding step
      proof (elim disjE exE conjE)
        fix xs c' ys ms'
        assume r: "cs = xs @ c' # ys" "caches_ok w (st\<lparr>rs_manifests := ms, rs_manifests := ms'\<rparr>)" "compatible w url repo c'"
          "first_compatible w repo url address constraints cs (inc @ [(tc_tag c, mf_pmacs_required m)]) (st\<lparr>rs_manifests := ms\<rparr>) =
             Ok (chosen_tag_of c', st\<lparr>rs_manifests := ms, rs_manifests := ms'\<rparr>)" "\<forall>d \<in> set xs. \<not> compatible w url repo d"
        have "c # cs = (c # xs) @ c' # ys" using r(1) by simp
        then show "(\<exists>e. first_compatible w repo url address constraints cs (inc @ [(tc_tag c, mf_pmacs_required m)]) (st\<lparr>rs_manifests := ms\<rparr>) = Err e) \<or>
          (\<exists>xs c' ys ms'. c # cs = xs @ c' # ys \<and>
             first_compatible w repo url address constraints cs (inc @ [(tc_tag c, mf_pmacs_required m)]) (st\<lparr>rs_manifests := ms\<rparr>) =
               Ok (chosen_tag_of c', st\<lparr>rs_manifests := ms'\<rparr>) \<and>
             caches_ok w (st\<lparr>rs_manifests := ms'\<rparr>) \<and> compatible w url repo c' \<and> (\<forall>d \<in> set xs. \<not> compatible w url repo d))"
          using r skip by (intro disjI2 exI [where x = "c # xs"] exI [where x = c'] exI [where x = ys] exI [where x = ms']) simp
      qed blast
    qed
  qed
qed simp

lemma pick_best_version_ok:
  assumes ok: "caches_ok w st" "w_fetch w url = Inr repo"
  obtains e where "pick_best_version w repo url address (published w repo) constraints st = Err e"
  | c ms where "pick_best_version w repo url address (published w repo) constraints st = Ok (chosen_tag_of c, st\<lparr>rs_manifests := ms\<rparr>)"
      "caches_ok w (st\<lparr>rs_manifests := ms\<rparr>)" "picks w url repo (rs_prefer_versions st = fmempty) constraints c"
proof -
  let ?P = "\<lambda>c. list_all (\<lambda>(_, req). w_matches w req (tc_version c)) constraints"
  let ?after = "filter ?P (published w repo)"
  let ?pick = "pick_best_version w repo url address (published w repo) constraints"
  have sat: "?P c \<longleftrightarrow> satisfies w constraints (tc_version c)" for c by (simp add: satisfies_def list_all_iff)
  have sorted: "sorted_wrt (\<lambda>a b. tc_version b \<le> tc_version a) ?after" using published_sorted sorted_wrt_filter by blast
  have walk: "(\<exists>e. first_compatible w repo url address constraints ?after [] st' = Err e) \<or>
      (\<exists>c ms. first_compatible w repo url address constraints ?after [] st' = Ok (chosen_tag_of c, st'\<lparr>rs_manifests := ms\<rparr>) \<and>
        caches_ok w (st'\<lparr>rs_manifests := ms\<rparr>) \<and> picks w url repo fresh constraints c)"
    if "caches_ok w st'" for st' fresh
    using first_compatible_ok [OF that ok(2), of address constraints ?after "[]"]
  proof (elim disjE exE conjE)
    fix xs c ys ms
    assume r: "?after = xs @ c # ys" "first_compatible w repo url address constraints ?after [] st' = Ok (chosen_tag_of c, st'\<lparr>rs_manifests := ms\<rparr>)"
      "caches_ok w (st'\<lparr>rs_manifests := ms\<rparr>)" "compatible w url repo c" "\<forall>d \<in> set xs. \<not> compatible w url repo d"
    have c: "c \<in> set ?after" unfolding r(1) by simp
    have "tc_version d \<le> tc_version c" if d: "d \<in> set (published w repo)" "satisfies w constraints (tc_version d)" "compatible w url repo d" for d
    proof -
      have "d \<in> set (xs @ c # ys)" unfolding r(1) [symmetric] by (simp only: set_filter mem_Collect_eq d(1) sat [of d] d(2))
      then have "d = c \<or> d \<in> set ys" using d(3) r(5) by auto
      then show ?thesis using sorted unfolding r(1) by (auto simp: sorted_wrt_append)
    qed
    then have "picks w url repo fresh constraints c" using c r(4) sat by (auto simp: picks_def)
    then show ?thesis using r(2,3) by blast
  qed blast
  show thesis
  proof (cases "published w repo = [] \<or> ?after = []")
    case True
    then have "\<exists>e. ?pick st = Err e" by (auto simp: pick_best_version_def Let_def)
    then show thesis using that(1) by blast
  next
    case ne: False
    show thesis
    proof (cases "Option.bind (fmlookup (rs_prefer_versions st) url) (\<lambda>hint. find (\<lambda>c. tc_version c = hint) ?after)")
      case None
      then have "?pick st = first_compatible w repo url address constraints ?after [] st" using ne by (simp add: pick_best_version_def Let_def)
      then show thesis using walk [OF ok(1)] that by metis
    next
      case (Some cand)
      then obtain hint where hint: "fmlookup (rs_prefer_versions st) url = Some hint" "find (\<lambda>c. tc_version c = hint) ?after = Some cand"
        by (auto simp: bind_eq_Some_conv)
      have cand: "cand \<in> set ?after" using hint(2) unfolding find_Some_iff by (metis nth_mem)
      have fresh: "rs_prefer_versions st \<noteq> fmempty" using hint(1) by auto
      show thesis
      proof (cases rule: read_manifest_ok [OF ok, of "tc_tag cand", case_names failed passed])
        case (failed e)
        then have "?pick st = Err e" using ne Some by (simp add: pick_best_version_def Let_def commit_for_tag_def)
        then show thesis using that(1) by blast
      next
        case (passed m ms)
        show thesis
        proof (cases "w_matches w (mf_pmacs_required m) (w_running w)")
          case True
          have "?pick st = Ok (chosen_tag_of cand, st\<lparr>rs_manifests := ms\<rparr>)"
            using ne Some passed True by (simp add: pick_best_version_def Let_def commit_for_tag_def)
          moreover have "picks w url repo (rs_prefer_versions st = fmempty) constraints cand"
            using cand sat passed True fresh by (auto simp: picks_def compatible_def)
          ultimately show thesis using that(2) passed(3) by blast
        next
          case False
          then have "?pick st = first_compatible w repo url address constraints ?after [] (st\<lparr>rs_manifests := ms\<rparr>)"
            using ne Some passed by (simp add: pick_best_version_def Let_def commit_for_tag_def)
          moreover have "(st\<lparr>rs_manifests := ms\<rparr>)\<lparr>rs_manifests := ms'\<rparr> = st\<lparr>rs_manifests := ms'\<rparr>" for ms' by simp
          ultimately show thesis using walk [OF passed(3), of "rs_prefer_versions st = fmempty"] that by (elim disjE exE conjE) auto
        qed
      qed
    qed
  qed
qed

end
