(* ===== verification/Resolver_Invariant.thy ===== *)
theory Resolver_Invariant
  imports Resolver_Reading
begin

text \<open>
  What holds of the state of the resolver of \<^verbatim>\<open>src/src/packages/resolver.rs\<close> at every moment, for repositories that keep
  one name and tag the version they declare; every operation keeps it, and neither panics nor runs for ever.
\<close>

section \<open>Outcomes that are not panics\<close>

definition settles :: "('e, 'a) outcome \<Rightarrow> ('a \<Rightarrow> bool) \<Rightarrow> bool" where
  "settles m Q \<longleftrightarrow> (\<exists>e. m = Err e) \<or> (\<exists>v. m = Ok v \<and> Q v)"

lemma settles_simps [simp]:
  "settles (Ok v) Q \<longleftrightarrow> Q v" "settles (Err e) Q" "\<not> settles Panic Q"
  by (auto simp: settles_def)

lemma settles_bind: "settles m P \<Longrightarrow> (\<And>v. P v \<Longrightarrow> settles (k v) Q) \<Longrightarrow> settles (try_bind m k) Q"
  unfolding settles_def by (elim disjE exE conjE) simp_all

lemma settles_weaken: "settles m P \<Longrightarrow> (\<And>v. P v \<Longrightarrow> Q v) \<Longrightarrow> settles m Q"
  by (auto simp: settles_def)

lemma settles_map_err: "settles (map_err f r) (\<lambda>v. r = Inr v)"
  by (cases r) (simp_all add: map_err_def)

lemma settles_returns: "settles m Q \<Longrightarrow> m \<noteq> None"
  by (auto simp: settles_def)

lemma settles_Ok: "settles m Q \<Longrightarrow> m = Ok v \<Longrightarrow> Q v"
  by (auto simp: settles_def)

section \<open>Readings\<close>

text \<open>A step that only fills the caches.\<close>

definition reading ::
    "('v, 'q, 'f, 'm) package_world \<Rightarrow> ('v, 'q) resolver_state \<Rightarrow> ('v, 'q) resolver_state \<Rightarrow> bool" where
  "reading w st st' \<longleftrightarrow>
     caches_ok w st' \<and> rs_repo_paths st \<subseteq>\<^sub>f rs_repo_paths st' \<and> rs_chosen st' = rs_chosen st \<and>
     rs_constraints st' = rs_constraints st \<and> rs_conflicts st' = rs_conflicts st \<and> rs_pending st' = rs_pending st \<and>
     rs_prefer_versions st' = rs_prefer_versions st"

lemma fmsubset_refl' [simp]: "m \<subseteq>\<^sub>f m"
  by (simp add: fmsubset.rep_eq)

lemma fmsubset_lookup: "m \<subseteq>\<^sub>f m' \<Longrightarrow> fmlookup m k = Some v \<Longrightarrow> fmlookup m' k = Some v"
  by (auto simp: fmsubset.rep_eq map_le_def dom_def)

lemma reading_refl: "caches_ok w st \<Longrightarrow> reading w st st"
  by (simp add: reading_def)

lemma reading_trans: "reading w st st' \<Longrightarrow> reading w st' st'' \<Longrightarrow> reading w st st''"
  by (auto simp: reading_def fmsubset.rep_eq intro: map_le_trans)

lemma readingD:
  assumes "reading w st st'"
  shows "caches_ok w st'" "rs_chosen st' = rs_chosen st" "rs_constraints st' = rs_constraints st"
    "rs_conflicts st' = rs_conflicts st" "rs_pending st' = rs_pending st" "rs_prefer_versions st' = rs_prefer_versions st"
    "fmlookup (rs_repo_paths st) url = Some repo \<Longrightarrow> fmlookup (rs_repo_paths st') url = Some repo"
    "constraints_on name st' = constraints_on name st"
  using assms by (auto simp: reading_def constraints_on_def intro: fmsubset_lookup)

lemma settles_ensure_repo:
  assumes "caches_ok w st"
  shows "settles (ensure_repo w url st)
    (\<lambda>st'. reading w st st' \<and> (\<exists>repo. fmlookup (rs_repo_paths st') url = Some repo \<and> w_fetch w url = Inr repo))"
  by (rule ensure_repo_ok [OF assms, of url]) (auto simp: reading_def)

lemma settles_read_manifest:
  assumes "caches_ok w st" "w_fetch w url = Inr repo"
  shows "settles (read_manifest w url repo commit st) (\<lambda>(m, st'). reading w st st' \<and> manifest_at w url repo commit = Ok m)"
  by (rule read_manifest_ok [OF assms, of commit]) (auto simp: reading_def)

lemma settles_list_tags: "settles (list_tags w repo address) (\<lambda>cs. cs = published w repo)"
  by (rule list_tags_ok [of w repo address]) auto

lemma settles_pick_best_version:
  assumes "caches_ok w st" "w_fetch w url = Inr repo"
  shows "settles (pick_best_version w repo url address (published w repo) constraints st)
    (\<lambda>(t, st'). reading w st st' \<and>
       (\<exists>c. t = chosen_tag_of c \<and> picks w url repo (rs_prefer_versions st = fmempty) constraints c))"
  by (rule pick_best_version_ok [OF assms, of address constraints]) (auto simp: reading_def)

section \<open>Repositories that can be relied on\<close>

text \<open>
  \<open>N\<close> gives the name of the package a repository holds, at every revision; the version a tag spells is the one its
  manifest declares.
\<close>

definition honest :: "('v :: linorder, 'q, 'f, 'm) package_world \<Rightarrow> (string \<Rightarrow> string) \<Rightarrow> bool" where
  "honest w N \<longleftrightarrow>
     (\<forall>url repo commit m. w_fetch w url = Inr repo \<longrightarrow> manifest_at w url repo commit = Ok m \<longrightarrow> mf_name m = N url) \<and>
     (\<forall>url repo c m. w_fetch w url = Inr repo \<longrightarrow> c \<in> set (published w repo) \<longrightarrow> manifest_at w url repo (tc_tag c) = Ok m \<longrightarrow>
        mf_version m = tc_version c)"

text \<open>A set of repositories that no manifest's dependency leads out of.\<close>

definition dependency_closed :: "('v, 'q, 'f, 'm) package_world \<Rightarrow> string set \<Rightarrow> bool" where
  "dependency_closed w U \<longleftrightarrow>
     (\<forall>url \<in> U. \<forall>repo commit m. w_fetch w url = Inr repo \<longrightarrow> manifest_at w url repo commit = Ok m \<longrightarrow>
        (\<forall>dep \<in> set (mf_dependencies m). \<forall>a. address_parse (dep_address dep) = Inr a \<longrightarrow> to_git_url a \<in> U))"

lemma dependency_closed_UNIV: "dependency_closed w UNIV"
  by (simp add: dependency_closed_def)

section \<open>The invariant\<close>

abbreviation url_of :: "('v, 'q) chosen_entry \<Rightarrow> string" where
  "url_of entry \<equiv> to_git_url (ce_address entry)"

definition edge_of :: "string \<Rightarrow> ('v, 'q) chosen_entry \<Rightarrow> 'q dependency_spec \<Rightarrow> ('v, 'q) pending_edge" where
  "edge_of name entry dep =
     \<lparr>pe_address = dep_address dep, pe_constraint = dep_version dep, pe_source = DependencyOf name (ce_version entry)\<rparr>"

definition decl_of :: "string \<Rightarrow> ('v, 'q) chosen_entry \<Rightarrow> 'q dependency_spec \<Rightarrow> ('v, 'q) conflict_decl" where
  "decl_of name entry c =
     \<lparr>cd_declaring_name = name, cd_declaring_version = ce_version entry, cd_target_address = dep_address c,
      cd_target_constraint = dep_version c\<rparr>"

definition fixed_pin :: "'q install_pin option \<Rightarrow> bool" where
  "fixed_pin p \<longleftrightarrow> (case p of Some (PinBranch _) \<Rightarrow> True | Some (PinCommit _) \<Rightarrow> True | _ \<Rightarrow> False)"

text \<open>An entry records the manifest its revision has.\<close>

definition entry_ok ::
    "('v :: linorder, 'q, 'f, 'm) package_world \<Rightarrow> string set \<Rightarrow> (string, string) fmap \<Rightarrow> string \<Rightarrow> ('v, 'q) chosen_entry \<Rightarrow> bool" where
  "entry_ok w U repos name entry \<longleftrightarrow>
     (\<exists>repo. fmlookup repos (url_of entry) = Some repo \<and> w_fetch w (url_of entry) = Inr repo \<and>
        manifest_at w (url_of entry) repo (ce_commit entry) = Ok (ce_manifest entry)) \<and>
     url_of entry \<in> U \<and> mf_version (ce_manifest entry) = ce_version entry \<and> mf_name (ce_manifest entry) = name \<and>
     w_matches w (mf_pmacs_required (ce_manifest entry)) (w_running w)"

text \<open>The version of an entry that is not pinned to a revision was the pick under constraints that still stand.\<close>

definition entry_picked ::
    "('v :: linorder, 'q, 'f, 'm) package_world \<Rightarrow> bool \<Rightarrow> ('v source \<times> 'q) list \<Rightarrow> ('v, 'q) chosen_entry \<Rightarrow> bool" where
  "entry_picked w fresh constraints entry \<longleftrightarrow>
     fixed_pin (ce_top_level_pin entry) \<or>
     constraints \<noteq> [] \<and>
     (\<exists>repo cs c. w_fetch w (url_of entry) = Inr repo \<and> set cs \<subseteq> set constraints \<and> picks w (url_of entry) repo fresh cs c \<and>
        tc_version c = ce_version entry)"

text \<open>Each dependency is waiting, or has been recorded against a chosen package.\<close>

definition deps_recorded ::
    "(string \<Rightarrow> string) \<Rightarrow> ('v, 'q) pending_edge set \<Rightarrow> ('v, 'q) resolver_state \<Rightarrow> string \<Rightarrow> ('v, 'q) chosen_entry \<Rightarrow> bool" where
  "deps_recorded N waiting st name entry \<longleftrightarrow>
     (\<forall>dep \<in> set (mf_dependencies (ce_manifest entry)).
        edge_of name entry dep \<in> waiting \<or>
        (\<exists>a. address_parse (dep_address dep) = Inr a \<and> fmlookup (rs_chosen st) (N (to_git_url a)) \<noteq> None \<and>
           (DependencyOf name (ce_version entry), dep_version dep) \<in> set (constraints_on (N (to_git_url a)) st)))"

definition conflicts_recorded :: "('v, 'q) conflict_decl list \<Rightarrow> string \<Rightarrow> ('v, 'q) chosen_entry \<Rightarrow> bool" where
  "conflicts_recorded decls name entry \<longleftrightarrow> (\<forall>c \<in> set (mf_conflicts (ce_manifest entry)). decl_of name entry c \<in> set decls)"

definition edge_inside :: "string set \<Rightarrow> ('v, 'q) pending_edge \<Rightarrow> bool" where
  "edge_inside U edge \<longleftrightarrow>
     (\<forall>a. address_parse (pe_address edge) = Inr a \<longrightarrow> to_git_url a \<in> U) \<and> pe_source edge \<noteq> TopLevel"

text \<open>\<open>E\<close> holds edges that have been taken from the queue and are being processed.\<close>

definition rinv ::
    "('v :: linorder, 'q, 'f, 'm) package_world \<Rightarrow> (string \<Rightarrow> string) \<Rightarrow> string set \<Rightarrow> ('v, 'q) pending_edge set \<Rightarrow>
     ('v, 'q) resolver_state \<Rightarrow> bool" where
  "rinv w N U E st \<longleftrightarrow>
     caches_ok w st \<and> (\<forall>edge \<in> set (rs_pending st) \<union> E. edge_inside U edge) \<and>
     (\<forall>name entry. fmlookup (rs_chosen st) name = Some entry \<longrightarrow>
        entry_ok w U (rs_repo_paths st) name entry \<and>
        entry_picked w (rs_prefer_versions st = fmempty) (constraints_on name st) entry \<and>
        deps_recorded N (set (rs_pending st) \<union> E) st name entry \<and>
        conflicts_recorded (rs_conflicts st) name entry)"

lemma rinv_initial: "rinv w N U {} (resolver_state_new\<lparr>rs_prefer_versions := p\<rparr>)"
  using caches_ok_new [of w p] by (simp add: rinv_def) (simp add: resolver_state_new_def)

lemma rinvD:
  assumes "rinv w N U E st"
  shows "caches_ok w st"
    "edge \<in> set (rs_pending st) \<Longrightarrow> edge_inside U edge"
    "fmlookup (rs_chosen st) name = Some entry \<Longrightarrow> entry_ok w U (rs_repo_paths st) name entry"
    "fmlookup (rs_chosen st) name = Some entry \<Longrightarrow> entry_picked w (rs_prefer_versions st = fmempty) (constraints_on name st) entry"
    "fmlookup (rs_chosen st) name = Some entry \<Longrightarrow> deps_recorded N (set (rs_pending st) \<union> E) st name entry"
    "fmlookup (rs_chosen st) name = Some entry \<Longrightarrow> conflicts_recorded (rs_conflicts st) name entry"
  using assms by (auto simp: rinv_def)

lemma entry_okE:
  assumes "entry_ok w U repos name entry"
  obtains repo where "fmlookup repos (url_of entry) = Some repo" "w_fetch w (url_of entry) = Inr repo"
    "manifest_at w (url_of entry) repo (ce_commit entry) = Ok (ce_manifest entry)" "url_of entry \<in> U"
    "mf_version (ce_manifest entry) = ce_version entry" "mf_name (ce_manifest entry) = name"
    "w_matches w (mf_pmacs_required (ce_manifest entry)) (w_running w)"
  using assms by (auto simp: entry_ok_def)

lemma entry_ok_mono: "entry_ok w U repos name entry \<Longrightarrow> repos \<subseteq>\<^sub>f repos' \<Longrightarrow> entry_ok w U repos' name entry"
  unfolding entry_ok_def by (metis fmsubset_lookup)

lemma entry_picked_mono: "entry_picked w fresh cs entry \<Longrightarrow> set cs \<subseteq> set cs' \<Longrightarrow> entry_picked w fresh cs' entry"
  unfolding entry_picked_def by (metis order_trans set_empty subset_empty)

section \<open>The elementary changes\<close>

lemma record_choice_fields [simp]:
  "rs_chosen (record_choice name entry st) = fmupd name entry (rs_chosen st)"
  "rs_constraints (record_choice name entry st) = rs_constraints st"
  "rs_repo_paths (record_choice name entry st) = rs_repo_paths st"
  "rs_manifests (record_choice name entry st) = rs_manifests st"
  "rs_prefer_versions (record_choice name entry st) = rs_prefer_versions st"
  "rs_pending (record_choice name entry st) = rs_pending st @ map (edge_of name entry) (mf_dependencies (ce_manifest entry))"
  "rs_conflicts (record_choice name entry st) = rs_conflicts st @ map (decl_of name entry) (mf_conflicts (ce_manifest entry))"
  "constraints_on n (record_choice name entry st) = constraints_on n st"
  by (simp_all add: record_choice_def stash_conflicts_def enqueue_dependencies_def edge_of_def [abs_def] decl_of_def [abs_def]
        constraints_on_def)

lemma add_constraint_fields [simp]:
  "rs_chosen (add_constraint name c st) = rs_chosen st"
  "rs_repo_paths (add_constraint name c st) = rs_repo_paths st"
  "rs_manifests (add_constraint name c st) = rs_manifests st"
  "rs_prefer_versions (add_constraint name c st) = rs_prefer_versions st"
  "rs_pending (add_constraint name c st) = rs_pending st"
  "rs_conflicts (add_constraint name c st) = rs_conflicts st"
  "constraints_on n (add_constraint name c st) = (if n = name then constraints_on name st @ [c] else constraints_on n st)"
  by (simp_all add: add_constraint_def constraints_on_def)

lemma caches_ok_changes [simp]:
  "caches_ok w (record_choice name entry st) = caches_ok w st" "caches_ok w (add_constraint name c st) = caches_ok w st"
  by (simp_all add: caches_ok_def)

lemma rinv_reading:
  assumes "rinv w N U E st" "reading w st st'"
  shows "rinv w N U E st'"
  using assms by (auto simp: rinv_def reading_def deps_recorded_def constraints_on_def intro: entry_ok_mono)

lemma rinv_add_constraint:
  assumes "rinv w N U E st"
  shows "rinv w N U E (add_constraint name c st)"
proof -
  have "set (constraints_on n st) \<subseteq> set (constraints_on n (add_constraint name c st))" for n by auto
  then show ?thesis using assms unfolding rinv_def by (fastforce simp: deps_recorded_def intro: entry_picked_mono)
qed

lemma rinv_record_choice:
  assumes inv: "rinv w N U E st" and "dependency_closed w U"
    and e: "entry_ok w U (rs_repo_paths st) name entry"
      "entry_picked w (rs_prefer_versions st = fmempty) (constraints_on name st) entry"
  shows "rinv w N U E (record_choice name entry st)"
proof -
  have "edge_inside U (edge_of name entry dep)" if "dep \<in> set (mf_dependencies (ce_manifest entry))" for dep
    using assms(2) that by (rule_tac entry_okE [OF e(1)]) (auto simp: dependency_closed_def edge_inside_def edge_of_def)
  moreover have "deps_recorded N (set (rs_pending (record_choice name entry st)) \<union> E) (record_choice name entry st) name entry"
    by (simp add: deps_recorded_def)
  moreover have "conflicts_recorded (rs_conflicts (record_choice name entry st)) name entry"
    by (simp add: conflicts_recorded_def)
  moreover have "deps_recorded N (set (rs_pending (record_choice name entry st)) \<union> E) (record_choice name entry st) n e"
    if "deps_recorded N (set (rs_pending st) \<union> E) st n e" for n e
    using that by (fastforce simp: deps_recorded_def)
  moreover have "conflicts_recorded (rs_conflicts (record_choice name entry st)) n e" if "conflicts_recorded (rs_conflicts st) n e" for n e
    using that by (auto simp: conflicts_recorded_def)
  ultimately show ?thesis using inv e unfolding rinv_def by auto
qed

text \<open>An edge that was being processed is done with once its package is chosen and its constraint recorded.\<close>

lemma rinv_edge_done:
  assumes "rinv w N U {edge} st" "address_parse (pe_address edge) = Inr a" "fmlookup (rs_chosen st) (N (to_git_url a)) \<noteq> None"
    "(pe_source edge, pe_constraint edge) \<in> set (constraints_on (N (to_git_url a)) st)"
  shows "rinv w N U {} st"
proof -
  have "deps_recorded N (set (rs_pending st) \<union> {}) st n e" if d: "deps_recorded N (set (rs_pending st) \<union> {edge}) st n e" for n e
    unfolding deps_recorded_def
  proof
    fix dep assume "dep \<in> set (mf_dependencies (ce_manifest e))"
    with d consider "edge_of n e dep = edge" | "edge_of n e dep \<in> set (rs_pending st)"
      | a' where "address_parse (dep_address dep) = Inr a'" "fmlookup (rs_chosen st) (N (to_git_url a')) \<noteq> None"
          "(DependencyOf n (ce_version e), dep_version dep) \<in> set (constraints_on (N (to_git_url a')) st)"
      unfolding deps_recorded_def by blast
    then show "edge_of n e dep \<in> set (rs_pending st) \<union> {} \<or>
        (\<exists>a. address_parse (dep_address dep) = Inr a \<and> fmlookup (rs_chosen st) (N (to_git_url a)) \<noteq> None \<and>
           (DependencyOf n (ce_version e), dep_version dep) \<in> set (constraints_on (N (to_git_url a)) st))"
    proof cases
      case 1
      then show ?thesis using assms(2-4) by (auto simp: edge_of_def)
    qed blast+
  qed
  then show ?thesis using assms(1) unfolding rinv_def by auto
qed

end
