(* ===== verification/Resolver_Operations.thy ===== *)
theory Resolver_Operations
  imports Resolver_Invariant
begin

text \<open>
  The operations of the resolver keep its invariant, and its loops end: each replacement chooses a lower published
  version, and each other turn takes an edge from the queue.
\<close>

section \<open>What never changes\<close>

text \<open>Packages stay chosen, with their address and pin; constraints accumulate.\<close>

definition resolver_extends :: "('v, 'q) resolver_state \<Rightarrow> ('v, 'q) resolver_state \<Rightarrow> bool" where
  "resolver_extends st st' \<longleftrightarrow>
     rs_prefer_versions st' = rs_prefer_versions st \<and>
     (\<forall>n. set (constraints_on n st) \<subseteq> set (constraints_on n st')) \<and>
     (\<forall>n e. fmlookup (rs_chosen st) n = Some e \<longrightarrow>
        (\<exists>e'. fmlookup (rs_chosen st') n = Some e' \<and> ce_address e' = ce_address e \<and> ce_top_level_pin e' = ce_top_level_pin e))"

lemma extends_refl: "resolver_extends st st"
  by (simp add: resolver_extends_def)

lemma extends_trans: "resolver_extends st st' \<Longrightarrow> resolver_extends st' st'' \<Longrightarrow> resolver_extends st st''"
  unfolding resolver_extends_def by (elim conjE, intro conjI) (simp, blast, metis)

lemma extends_reading: "reading w st st' \<Longrightarrow> resolver_extends st st'"
  by (simp add: resolver_extends_def readingD)

lemma extends_add_constraint: "resolver_extends st (add_constraint n c st)"
  by (auto simp: resolver_extends_def)

lemma extends_record_choice:
  assumes "\<And>e. fmlookup (rs_chosen st) n = Some e \<Longrightarrow> ce_address e' = ce_address e \<and> ce_top_level_pin e' = ce_top_level_pin e"
  shows "resolver_extends st (record_choice n e' st)"
  using assms by (auto simp: resolver_extends_def)

text \<open>A request's package is chosen, at the address and under the pin of the request.\<close>

definition request_kept :: "'q resolve_request \<Rightarrow> ('v, 'q) resolver_state \<Rightarrow> bool" where
  "request_kept req st \<longleftrightarrow>
     (\<exists>n e. fmlookup (rs_chosen st) n = Some e \<and> ce_address e = req_address req \<and> ce_top_level_pin e = Some (req_pin req) \<and>
        (\<forall>q. req_pin req = PinVersion q \<longrightarrow> (TopLevel, q) \<in> set (constraints_on n st)))"

lemma request_kept_extends: "request_kept req st \<Longrightarrow> resolver_extends st st' \<Longrightarrow> request_kept req st'"
  unfolding request_kept_def resolver_extends_def by (elim conjE exE) (metis (no_types, lifting) subsetD)

section \<open>How much is left to choose\<close>

definition versions_in :: "('v :: linorder, 'q, 'f, 'm) package_world \<Rightarrow> string set \<Rightarrow> 'v set" where
  "versions_in w U = (\<Union>url \<in> U. case w_fetch w url of Inl _ \<Rightarrow> {} | Inr repo \<Rightarrow> tc_version ` set (published w repo))"

lemma versions_in_finite: "finite U \<Longrightarrow> finite (versions_in w U)"
  by (auto simp: versions_in_def split: sum.split)

lemma versions_inI: "url \<in> U \<Longrightarrow> w_fetch w url = Inr repo \<Longrightarrow> c \<in> set (published w repo) \<Longrightarrow> tc_version c \<in> versions_in w U"
  by (force simp: versions_in_def)

definition left_for :: "'v set \<Rightarrow> ('v :: linorder, 'q) chosen_entry option \<Rightarrow> nat" where
  "left_for V e = (case e of None \<Rightarrow> card V + 1 | Some e \<Rightarrow> card {v \<in> V. v < ce_version e})"

definition choices_left :: "'v set \<Rightarrow> string set \<Rightarrow> (string, ('v :: linorder, 'q) chosen_entry) fmap \<Rightarrow> nat" where
  "choices_left V M chosen = (\<Sum>n \<in> M. left_for V (fmlookup chosen n))"

lemma choices_left_upd:
  assumes "finite V" "finite M" "n \<in> M"
    and "\<And>e. fmlookup chosen n = Some e \<Longrightarrow> ce_version e' < ce_version e \<and> ce_version e' \<in> V"
  shows "choices_left V M (fmupd n e' chosen) < choices_left V M chosen"
proof -
  have "left_for V (Some e') < left_for V (fmlookup chosen n)"
  proof (cases "fmlookup chosen n")
    case None
    have "card {v \<in> V. v < ce_version e'} \<le> card V" using assms(1) by (auto intro: card_mono)
    then show ?thesis using None by (simp add: left_for_def)
  next
    case (Some e)
    have "{v \<in> V. v < ce_version e'} \<subset> {v \<in> V. v < ce_version e}" using assms(4) [OF Some] by auto
    then show ?thesis using Some assms(1) by (simp add: left_for_def psubset_card_mono)
  qed
  moreover have "choices_left V M chosen = left_for V (fmlookup chosen n) + (\<Sum>n \<in> M - {n}. left_for V (fmlookup chosen n))"
    unfolding choices_left_def using assms(2,3) by (simp add: sum.remove)
  moreover have "choices_left V M (fmupd n e' chosen) = left_for V (Some e') + (\<Sum>k \<in> M - {n}. left_for V (fmlookup chosen k))"
    unfolding choices_left_def using assms(2,3) by (simp add: sum.remove [of _ n]) (intro sum.cong, auto)
  ultimately show ?thesis by linarith
qed

abbreviation choices_of ::
    "('v :: linorder, 'q, 'f, 'm) package_world \<Rightarrow> (string \<Rightarrow> string) \<Rightarrow> string set \<Rightarrow> ('v, 'q) resolver_state \<Rightarrow> nat" where
  "choices_of w N U st \<equiv> choices_left (versions_in w U) (N ` U) (rs_chosen st)"

lemma choices_record:
  assumes "finite U" "url \<in> U" "n = N url"
    and "\<And>e. fmlookup (rs_chosen st) n = Some e \<Longrightarrow> ce_version e' < ce_version e \<and> ce_version e' \<in> versions_in w U"
  shows "choices_of w N U (record_choice n e' st) < choices_of w N U st"
  using assms by (simp add: choices_left_upd versions_in_finite)

section \<open>Adding a request\<close>

lemma entry_chosen:
  assumes "honest w N" "w_fetch w url = Inr repo" "url \<in> U" "to_git_url address = url"
    and "manifest_at w url repo commit = Ok m" "w_matches w (mf_pmacs_required m) (w_running w)"
    and "fmlookup repos url = Some repo"
  shows "entry_ok w U repos (N url)
     \<lparr>ce_address = address, ce_commit = commit, ce_version = mf_version m, ce_manifest = m, ce_top_level_pin = pin\<rparr>"
  using assms by (auto simp: entry_ok_def honest_def)

lemma entry_chosen_tag:
  assumes "honest w N" "w_fetch w url = Inr repo" "to_git_url address = url" "manifest_at w url repo (tc_tag c) = Ok m"
    and "picks w url repo fresh cs c" "set cs \<subseteq> set constraints" "constraints \<noteq> []"
  shows "entry_picked w fresh constraints
     \<lparr>ce_address = address, ce_commit = commit, ce_version = mf_version m, ce_manifest = m, ce_top_level_pin = pin\<rparr>"
    "mf_version m = tc_version c" "w_matches w (mf_pmacs_required m) (w_running w)" "mf_name m = N url"
proof -
  show v: "mf_version m = tc_version c" using assms(1,2,4,5) unfolding honest_def picks_def by blast
  show "w_matches w (mf_pmacs_required m) (w_running w)" using assms(4,5) by (auto simp: picks_def compatible_def)
  show "mf_name m = N url" using assms(1,2,4) unfolding honest_def by blast
  show "entry_picked w fresh constraints
     \<lparr>ce_address = address, ce_commit = commit, ce_version = mf_version m, ce_manifest = m, ce_top_level_pin = pin\<rparr>"
    using assms v by (auto simp: entry_picked_def)
qed

definition pinned_ok ::
    "('v :: linorder, 'q, 'f, 'm) package_world \<Rightarrow> 'q resolve_request \<Rightarrow> string \<Rightarrow> string \<Rightarrow> bool \<Rightarrow> string \<Rightarrow> ('v, 'q) package_manifest \<Rightarrow> bool" where
  "pinned_ok w req url repo fresh commit m \<longleftrightarrow>
     manifest_at w url repo commit = Ok m \<and> w_matches w (mf_pmacs_required m) (w_running w) \<and>
     (fixed_pin (Some (req_pin req)) \<or>
      (\<exists>q c. req_pin req = PinVersion q \<and> commit = tc_tag c \<and> picks w url repo fresh [(TopLevel, q)] c))"

lemma settles_pinned_commit:
  fixes st :: "('v :: linorder, 'q) resolver_state"
  assumes ok: "caches_ok w st" and f: "w_fetch w url = Inr repo"
  shows "settles (pinned_commit w req url repo st)
    (\<lambda>((commit, m), st'). reading w st st' \<and> pinned_ok w req url repo (rs_prefer_versions st = fmempty) commit m)"
proof -
  have fixed: "settles (try_bind (map_err (FetchFailed (req_address req)) (w_resolve w repo r)) (\<lambda>commit.
          try_bind (read_manifest w url repo commit st) (\<lambda>(manifest, st1).
          try_bind (check_pinned_pmacs_required w (req_address req) manifest commit kind v) (\<lambda>_.
          Ok ((commit, manifest), st1)))))
       (\<lambda>((commit, m), st'). reading w st st' \<and> pinned_ok w req url repo (rs_prefer_versions st = fmempty) commit m)"
    if "fixed_pin (Some (req_pin req))" for r kind v
    using that by (auto simp: pinned_ok_def check_pinned_pmacs_required_def
          intro!: settles_bind [OF settles_map_err] settles_bind [OF settles_read_manifest [OF ok f]] split: prod.splits)
  show ?thesis
  proof (cases "req_pin req")
    case (PinVersion q)
    have "settles (read_manifest w url repo (ct_commit (chosen_tag_of c)) st1)
        (\<lambda>(m, st2). reading w st st2 \<and> pinned_ok w req url repo (rs_prefer_versions st = fmempty) (tc_tag c) m)"
      if r: "reading w st st1" and p: "picks w url repo (rs_prefer_versions st = fmempty) [(TopLevel, q)] c" for st1 :: "('v, 'q) resolver_state" and c
    proof (rule settles_weaken [OF settles_read_manifest [OF readingD(1) [OF r] f]])
      fix x assume a: "case x of (m, st') \<Rightarrow> reading w st1 st' \<and> manifest_at w url repo (ct_commit (chosen_tag_of c)) = Ok m"
      then show "case x of (m, st2) \<Rightarrow> reading w st st2 \<and> pinned_ok w req url repo (rs_prefer_versions st = fmempty) (tc_tag c) m"
        using reading_trans [OF r] p PinVersion
        by (auto simp: pinned_ok_def chosen_tag_of_def commit_for_tag_def) (auto simp: picks_def compatible_def)
    qed
    then show ?thesis unfolding pinned_commit_def PinVersion
      by (auto intro!: settles_bind [OF settles_list_tags] settles_bind [OF settles_pick_best_version [OF ok f]]
            settles_bind [where P = "\<lambda>(m, st2). reading w st st2 \<and> pinned_ok w req url repo (rs_prefer_versions st = fmempty) (tc_tag _) m"]
            simp: chosen_tag_of_def commit_for_tag_def split: prod.splits)
  next
    case (PinBranch b)
    then show ?thesis using fixed by (simp add: pinned_commit_def fixed_pin_def)
  next
    case (PinCommit c)
    then show ?thesis using fixed by (simp add: pinned_commit_def fixed_pin_def)
  qed (simp add: pinned_commit_def)
qed

lemma settles_add_top_level:
  fixes w :: "('v :: linorder, 'q, 'f, 'm) package_world" and st :: "('v, 'q) resolver_state"
  assumes h: "honest w N" "dependency_closed w U" "rinv w N U {} st" and u: "to_git_url (req_address req) \<in> U"
  shows "settles (add_top_level w req st) (\<lambda>st'. rinv w N U {} st' \<and> resolver_extends st st' \<and> request_kept req st')"
proof -
  let ?url = "to_git_url (req_address req)"
  let ?Q = "\<lambda>st'. rinv w N U {} st' \<and> resolver_extends st st' \<and> request_kept req st'"
  have rest: "?Q (record_choice (mf_name m)
        \<lparr>ce_address = req_address req, ce_commit = commit, ce_version = mf_version m, ce_manifest = m,
         ce_top_level_pin = Some (req_pin req)\<rparr>
        (case req_pin req of PinVersion q \<Rightarrow> add_constraint (mf_name m) (TopLevel, q) st2 | _ \<Rightarrow> st2))"
    if r: "reading w st st2" and repo: "fmlookup (rs_repo_paths st2) ?url = Some repo" "w_fetch w ?url = Inr repo"
      and p: "pinned_ok w req ?url repo (rs_prefer_versions st = fmempty) commit m" and new: "fmlookup (rs_chosen st2) (mf_name m) = None"
    for st2 repo commit and m :: "('v, 'q) package_manifest"
  proof -
    let ?e = "\<lparr>ce_address = req_address req, ce_commit = commit, ce_version = mf_version m, ce_manifest = m,
         ce_top_level_pin = Some (req_pin req)\<rparr>"
    let ?st3 = "case req_pin req of PinVersion q \<Rightarrow> add_constraint (mf_name m) (TopLevel, q) st2 | _ \<Rightarrow> st2"
    have name: "mf_name m = N ?url" using h(1) p repo(2) unfolding honest_def pinned_ok_def by blast
    have inv: "rinv w N U {} ?st3"
      using rinv_reading [OF h(3) r] by (auto intro: rinv_add_constraint split: install_pin.split)
    have same: "rs_chosen ?st3 = rs_chosen st2" "rs_repo_paths ?st3 = rs_repo_paths st2" "rs_prefer_versions ?st3 = rs_prefer_versions st"
      using readingD [OF r] by (simp_all split: install_pin.split)
    have "entry_ok w U (rs_repo_paths st2) (mf_name m) ?e"
      unfolding name using p repo u by (intro entry_chosen [OF h(1) repo(2)]) (auto simp: pinned_ok_def)
    then have ok: "entry_ok w U (rs_repo_paths ?st3) (mf_name m) ?e" unfolding same .
    have "entry_picked w (rs_prefer_versions ?st3 = fmempty) (constraints_on (mf_name m) ?st3) ?e"
    proof (cases "fixed_pin (Some (req_pin req))")
      case True
      then show ?thesis by (simp add: entry_picked_def)
    next
      case False
      then obtain q c where q: "req_pin req = PinVersion q" "commit = tc_tag c" "picks w ?url repo (rs_prefer_versions st = fmempty) [(TopLevel, q)] c"
        using p by (auto simp: pinned_ok_def)
      have "manifest_at w ?url repo (tc_tag c) = Ok m" using p q(2) by (simp add: pinned_ok_def)
      then have "entry_picked w (rs_prefer_versions st = fmempty) (constraints_on (mf_name m) ?st3) ?e"
        by (intro entry_chosen_tag(1) [OF h(1) repo(2) refl _ q(3)]) (simp_all add: q(1))
      then show ?thesis unfolding same .
    qed
    then have "rinv w N U {} (record_choice (mf_name m) ?e ?st3)" by (rule rinv_record_choice [OF inv h(2) ok])
    moreover have "resolver_extends st2 ?st3" by (auto simp: extends_refl extends_add_constraint split: install_pin.split)
    then have "resolver_extends st ?st3" by (rule extends_trans [OF extends_reading [OF r]])
    then have "resolver_extends st (record_choice (mf_name m) ?e ?st3)"
      by (rule extends_trans) (rule extends_record_choice, use new same(1) in simp)
    moreover have "request_kept req (record_choice (mf_name m) ?e ?st3)"
      unfolding request_kept_def by (intro exI [where x = "mf_name m"] exI [where x = ?e]) (auto split: install_pin.split)
    ultimately show ?thesis by blast
  qed
  show ?thesis unfolding add_top_level_def Let_def
  proof (rule settles_bind [OF settles_ensure_repo [OF rinvD(1) [OF h(3)]]], elim conjE exE, goal_cases)
    case (1 st1 repo)
    note r1 = 1(1) and repo = 1(2,3)
    have add: "settles (((\<lambda>((commit, manifest), st2).
               if fmlookup (rs_chosen st2) (mf_name manifest) \<noteq> None then Err (DuplicateTopLevel (mf_name manifest))
               else Ok (record_choice (mf_name manifest)
                              \<lparr>ce_address = req_address req, ce_commit = commit, ce_version = mf_version manifest,
                               ce_manifest = manifest, ce_top_level_pin = Some (req_pin req)\<rparr>
                      (case req_pin req of PinVersion constraint \<Rightarrow> add_constraint (mf_name manifest) (TopLevel, constraint) st2 | _ \<Rightarrow> st2)))
            :: (string \<times> ('v, 'q) package_manifest) \<times> ('v, 'q) resolver_state \<Rightarrow> ('v, 'q, 'f, 'm, ('v, 'q) resolver_state) resolving) x) ?Q"
      if x: "(\<lambda>((commit, m), st'). reading w st1 st' \<and> pinned_ok w req ?url repo (rs_prefer_versions st1 = fmempty) commit m) x" for x
    proof -
      obtain commit m st2 where [simp]: "x = ((commit, m), st2)" by (metis surj_pair)
      have r2: "reading w st1 st2" and p: "pinned_ok w req ?url repo (rs_prefer_versions st = fmempty) commit m"
        using x readingD(6) [OF r1] by auto
      have "?Q (record_choice (mf_name m)
        \<lparr>ce_address = req_address req, ce_commit = commit, ce_version = mf_version m, ce_manifest = m,
         ce_top_level_pin = Some (req_pin req)\<rparr>
        (case req_pin req of PinVersion q \<Rightarrow> add_constraint (mf_name m) (TopLevel, q) st2 | _ \<Rightarrow> st2))"
        if "fmlookup (rs_chosen st2) (mf_name m) = None"
        by (rule rest [OF reading_trans [OF r1 r2] readingD(7) [OF r2 repo(1)] repo(2) p that])
      then show ?thesis by simp
    qed
    show ?case unfolding repo(1) option.case
      by (rule settles_bind [OF settles_pinned_commit [OF readingD(1) [OF r1] repo(2)]]) (rule add)
  qed
qed

lemma settles_add_requests:
  assumes "honest w N" "dependency_closed w U"
  shows "rinv w N U {} st \<Longrightarrow> (\<forall>req \<in> set reqs. to_git_url (req_address req) \<in> U) \<Longrightarrow>
    settles (add_requests w reqs st) (\<lambda>st'. rinv w N U {} st' \<and> resolver_extends st st' \<and> (\<forall>req \<in> set reqs. request_kept req st'))"
proof (induction reqs arbitrary: st)
  case Nil
  then show ?case by (simp add: extends_refl)
next
  case (Cons req reqs)
  have u: "to_git_url (req_address req) \<in> U" "\<forall>req \<in> set reqs. to_git_url (req_address req) \<in> U" using Cons.prems(2) by auto
  show ?case unfolding add_requests.simps
  proof (rule settles_bind [OF settles_add_top_level [OF assms Cons.prems(1) u(1)]], elim conjE)
    fix st1 assume s: "rinv w N U {} st1" "resolver_extends st st1" "request_kept req st1"
    show "settles (add_requests w reqs st1)
        (\<lambda>st'. rinv w N U {} st' \<and> resolver_extends st st' \<and> (\<forall>req \<in> set (req # reqs). request_kept req st'))"
      by (rule settles_weaken [OF Cons.IH [OF s(1) u(2)]])
        (use s in \<open>auto intro: extends_trans request_kept_extends\<close>)
  qed
qed

end
