(* ===== verification/Resolver_Fixpoint.thy ===== *)
theory Resolver_Fixpoint
  imports Resolver_Operations
begin

text \<open>
  \<^verbatim>\<open>recheck_chosen\<close>, \<^verbatim>\<open>process_pending\<close> and \<^verbatim>\<open>iterate_to_fixpoint\<close> of \<^verbatim>\<open>src/src/packages/resolver.rs\<close>: the loops
  return, and when they do no edge waits and, without preferences, every package satisfies every constraint on it.
\<close>

section \<open>Rechecking a package\<close>

definition entry_settled :: "('v, 'q, 'f, 'm) package_world \<Rightarrow> string \<Rightarrow> ('v, 'q) resolver_state \<Rightarrow> bool" where
  "entry_settled w name st \<longleftrightarrow>
     (\<forall>entry. fmlookup (rs_chosen st) name = Some entry \<longrightarrow>
        (\<forall>(src, q) \<in> set (constraints_on name st).
           w_matches w q (ce_version entry) \<or> src = TopLevel \<and> fixed_pin (ce_top_level_pin entry)))"

lemma entry_settled_reading: "reading w st st' \<Longrightarrow> entry_settled w name st' = entry_settled w name st"
  by (simp add: entry_settled_def readingD)

lemma picks_antimono:
  assumes "picks w url repo True cs c0" "picks w url repo fresh constraints c" "set cs \<subseteq> set constraints"
  shows "tc_version c \<le> tc_version c0"
proof -
  have "satisfies w cs (tc_version c)" using assms(2,3) unfolding picks_def satisfies_def by fast
  then show ?thesis using assms(1,2) unfolding picks_def by blast
qed

lemma settled_by_pick:
  assumes e: "fmlookup (rs_chosen st) name = Some entry" "\<not> fixed_pin (ce_top_level_pin entry)"
    and p: "entry_picked w True (constraints_on name st) entry" "w_fetch w (url_of entry) = Inr repo"
      "picks w (url_of entry) repo True (constraints_on name st) c" "ce_version entry \<le> tc_version c"
  shows "entry_settled w name st"
proof -
  obtain cs c0 where c0: "set cs \<subseteq> set (constraints_on name st)" "picks w (url_of entry) repo True cs c0" "tc_version c0 = ce_version entry"
    using p(1,2) e(2) by (auto simp: entry_picked_def)
  have "tc_version c = ce_version entry" using picks_antimono [OF c0(2) p(3) c0(1)] c0(3) p(4) by simp
  then have "satisfies w (constraints_on name st) (ce_version entry)" using p(3) by (auto simp: picks_def)
  then show ?thesis using e(1) by (auto simp: entry_settled_def satisfies_def)
qed

definition recheck_post ::
    "('v :: linorder, 'q, 'f, 'm) package_world \<Rightarrow> (string \<Rightarrow> string) \<Rightarrow> string set \<Rightarrow> ('v, 'q) pending_edge set \<Rightarrow>
     string \<Rightarrow> ('v, 'q) resolver_state \<Rightarrow> bool \<times> ('v, 'q) resolver_state \<Rightarrow> bool" where
  "recheck_post w N U E name st r \<longleftrightarrow>
     rinv w N U E (snd r) \<and> resolver_extends st (snd r) \<and>
     (if fst r then finite U \<longrightarrow> choices_of w N U (snd r) < choices_of w N U st
      else reading w st (snd r) \<and> (rs_prefer_versions st = fmempty \<longrightarrow> entry_settled w name st))"

lemma recheck_post_reading:
  assumes "rinv w N U E st" "reading w st st'" "rs_prefer_versions st = fmempty \<Longrightarrow> entry_settled w name st"
  shows "recheck_post w N U E name st (False, st')"
  using assms rinv_reading [OF assms(1,2)] extends_reading [OF assms(2)] by (simp add: recheck_post_def)

lemma violated_None:
  assumes "violated w v cs = None" "(src, q) \<in> set cs"
  shows "w_matches w q v \<or> src = TopLevel"
  using assms by (auto simp: violated_def find_None_iff)

lemma recheck_replaced:
  assumes h: "honest w N" "dependency_closed w U" "rinv w N U E st" and e: "fmlookup (rs_chosen st) name = Some entry"
    and free: "\<not> fixed_pin (ce_top_level_pin entry)" and f: "w_fetch w (url_of entry) = Inr repo"
    and p: "picks w (url_of entry) repo (rs_prefer_versions st = fmempty) (constraints_on name st) c"
    and r: "reading w st st2" and m: "manifest_at w (url_of entry) repo (tc_tag c) = Ok m" and lower: "tc_version c < ce_version entry"
  shows "recheck_post w N U E name st
    (True, record_choice name
       \<lparr>ce_address = ce_address entry, ce_commit = tc_tag c, ce_version = mf_version m, ce_manifest = m,
        ce_top_level_pin = ce_top_level_pin entry\<rparr> st2)"
proof -
  let ?e = "\<lparr>ce_address = ce_address entry, ce_commit = tc_tag c, ce_version = mf_version m, ce_manifest = m,
        ce_top_level_pin = ce_top_level_pin entry\<rparr>"
  obtain repo' where ok: "fmlookup (rs_repo_paths st) (url_of entry) = Some repo'" "w_fetch w (url_of entry) = Inr repo'"
      "manifest_at w (url_of entry) repo' (ce_commit entry) = Ok (ce_manifest entry)" "url_of entry \<in> U" "mf_name (ce_manifest entry) = name"
    by (rule entry_okE [OF rinvD(3) [OF h(3) e]])
  have name: "name = N (url_of entry)" using h(1) ok(2,3,5) unfolding honest_def by blast
  have repo: "fmlookup (rs_repo_paths st2) (url_of entry) = Some repo" using readingD(7) [OF r ok(1)] ok(2) f by simp
  have ne: "constraints_on name st \<noteq> []" using rinvD(4) [OF h(3) e] free by (simp add: entry_picked_def)
  note tag = entry_chosen_tag [OF h(1) f refl m p order_refl ne]
  have "entry_ok w U (rs_repo_paths st2) name ?e" unfolding name by (rule entry_chosen [OF h(1) f ok(4) refl m tag(3) repo])
  moreover have "entry_picked w (rs_prefer_versions st2 = fmempty) (constraints_on name st2) ?e"
    unfolding readingD(6,8) [OF r] by (rule tag(1))
  ultimately have "rinv w N U E (record_choice name ?e st2)" by (rule rinv_record_choice [OF rinv_reading [OF h(3) r] h(2)])
  moreover have "resolver_extends st (record_choice name ?e st2)"
    by (rule extends_trans [OF extends_reading [OF r] extends_record_choice]) (use readingD(2) [OF r] e in simp)
  moreover have "choices_of w N U (record_choice name ?e st2) < choices_of w N U st" if "finite U"
  proof -
    have "ce_version ?e \<in> versions_in w U" using p tag(2) ok(4) f by (auto simp: picks_def intro: versions_inI)
    then have "choices_of w N U (record_choice name ?e st2) < choices_of w N U st2"
      using that ok(4) name lower tag(2) readingD(2) [OF r] e by (intro choices_record) auto
    then show ?thesis using readingD(2) [OF r] by simp
  qed
  ultimately show ?thesis by (simp add: recheck_post_def)
qed

lemma settles_recheck_chosen:
  assumes h: "honest w N" "dependency_closed w U" "rinv w N U E st"
  shows "settles (recheck_chosen w name st) (recheck_post w N U E name st)"
proof (cases "fmlookup (rs_chosen st) name")
  case None
  then show ?thesis using recheck_post_reading [OF h(3) reading_refl [OF rinvD(1) [OF h(3)]]]
    by (simp add: recheck_chosen_def entry_settled_def)
next
  case (Some entry)
  show ?thesis
  proof (cases "fixed_pin (ce_top_level_pin entry)")
    case True
    have "entry_settled w name st" if "violated w (ce_version entry) (constraints_on name st) = None"
      using violated_None [OF that] Some True by (auto simp: entry_settled_def)
    then show ?thesis using True Some recheck_post_reading [OF h(3) reading_refl [OF rinvD(1) [OF h(3)]]]
      by (auto simp: recheck_chosen_def fixed_pin_def split: option.split)
  next
    case False
    let ?cs = "constraints_on name st"
    note ok = rinvD(1) [OF h(3)] and picked = rinvD(4) [OF h(3) Some]
    obtain repo where repo: "fmlookup (rs_repo_paths st) (url_of entry) = Some repo" and f: "w_fetch w (url_of entry) = Inr repo"
      by (rule entry_okE [OF rinvD(3) [OF h(3) Some]])
    have ne: "?cs \<noteq> []" using picked False by (simp add: entry_picked_def)
    have eq: "recheck_chosen w name st =
        try_bind (list_tags w repo (ce_address entry)) (\<lambda>candidates.
        try_bind (pick_best_version w repo (url_of entry) (ce_address entry) candidates ?cs st) (\<lambda>(chosen, st1).
          if ce_version entry \<le> ct_version chosen then Ok (False, st1)
          else try_bind (read_manifest w (url_of entry) repo (ct_commit chosen) st1) (\<lambda>(manifest, st2).
             Ok (True, record_choice name
                         \<lparr>ce_address = ce_address entry, ce_commit = ct_commit chosen, ce_version = mf_version manifest,
                          ce_manifest = manifest, ce_top_level_pin = ce_top_level_pin entry\<rparr> st2))))"
      using Some False repo ne unfolding recheck_chosen_def by (simp add: Let_def fixed_pin_def)
    show ?thesis unfolding eq
    proof (rule settles_bind [OF settles_list_tags], hypsubst, rule settles_bind [OF settles_pick_best_version [OF ok f]], goal_cases)
      case (1 _ x)
      obtain c st1 where x: "x = (chosen_tag_of c, st1)" and r1: "reading w st st1"
        and p: "picks w (url_of entry) repo (rs_prefer_versions st = fmempty) ?cs c"
        using 1 by (cases x) auto
      have tag: "ct_version (chosen_tag_of c) = tc_version c" "ct_commit (chosen_tag_of c) = tc_tag c"
        by (simp_all add: chosen_tag_of_def commit_for_tag_def)
      show ?case
      proof (cases "ce_version entry \<le> tc_version c")
        case True
        have "entry_settled w name st" if "rs_prefer_versions st = fmempty"
          by (rule settled_by_pick [OF Some False _ f _ True]) (use picked p that in simp_all)
        then show ?thesis using recheck_post_reading [OF h(3) r1] True x tag by simp
      next
        case lower: False
        have "settles (try_bind (read_manifest w (url_of entry) repo (tc_tag c) st1) (\<lambda>(manifest, st2).
             Ok (True, record_choice name
                         \<lparr>ce_address = ce_address entry, ce_commit = tc_tag c, ce_version = mf_version manifest,
                          ce_manifest = manifest, ce_top_level_pin = ce_top_level_pin entry\<rparr> st2))) (recheck_post w N U E name st)"
        proof (rule settles_bind [OF settles_read_manifest [OF readingD(1) [OF r1] f]], goal_cases)
          case (1 y)
          then obtain m st2 where y: "y = (m, st2)" "reading w st1 st2" "manifest_at w (url_of entry) repo (tc_tag c) = Ok m" by (cases y) auto
          show ?case using recheck_replaced [OF h Some False f p reading_trans [OF r1 y(2)] y(3)] lower by (simp add: y(1))
        qed
        then show ?thesis using lower x tag by simp
      qed
    qed
  qed
qed

section \<open>An edge from the queue\<close>

lemma rinv_take:
  assumes "rinv w N U {} st" "rs_pending st = edge # rest"
  shows "rinv w N U {edge} (st\<lparr>rs_pending := rest\<rparr>)"
proof -
  have "constraints_on n (st\<lparr>rs_pending := rest\<rparr>) = constraints_on n st" for n by (simp add: constraints_on_def)
  moreover have "caches_ok w (st\<lparr>rs_pending := rest\<rparr>) = caches_ok w st" by (rule caches_ok_cong) simp_all
  ultimately show ?thesis using assms by (auto simp: rinv_def deps_recorded_def)
qed

definition progress_post ::
    "('v :: linorder, 'q, 'f, 'm) package_world \<Rightarrow> (string \<Rightarrow> string) \<Rightarrow> string set \<Rightarrow> ('v, 'q) resolver_state \<Rightarrow> ('v, 'q) resolver_state \<Rightarrow> bool" where
  "progress_post w N U st st' \<longleftrightarrow>
     rinv w N U {} st' \<and> resolver_extends st st' \<and>
     (choices_of w N U st' = choices_of w N U st \<and> rs_pending st' = rs_pending st \<or>
      (finite U \<longrightarrow> choices_of w N U st' < choices_of w N U st))"

lemma process_known:
  assumes h: "honest w N" "dependency_closed w U" "rinv w N U {edge} st1" and r: "resolver_extends st st1" "rs_chosen st1 = rs_chosen st" "rs_pending st1 = rs_pending st"
    and a: "address_parse (pe_address edge) = Inr a"
    and known: "fmlookup (rs_chosen st1) (N (to_git_url a)) \<noteq> None"
  shows "settles (try_bind (recheck_chosen w (N (to_git_url a)) (add_constraint (N (to_git_url a)) (pe_source edge, pe_constraint edge) st1))
    (\<lambda>(_, st5). Ok st5)) (progress_post w N U st)"
proof -
  let ?n = "N (to_git_url a)"
  let ?st4 = "add_constraint ?n (pe_source edge, pe_constraint edge) st1"
  have inv: "rinv w N U {} ?st4" by (rule rinv_edge_done [OF rinv_add_constraint [OF h(3)] a]) (use known in simp_all)
  have ext: "resolver_extends st ?st4" by (rule extends_trans [OF r(1) extends_add_constraint])
  show ?thesis
  proof (rule settles_bind [OF settles_recheck_chosen [OF h(1,2) inv]], goal_cases)
    case (1 x)
    obtain changed st5 where x: "x = (changed, st5)" by (cases x)
    have p: "rinv w N U {} st5" "resolver_extends ?st4 st5"
        "if changed then finite U \<longrightarrow> choices_of w N U st5 < choices_of w N U ?st4 else reading w ?st4 st5"
      using 1 x by (auto simp: recheck_post_def split: if_splits)
    show ?case
    proof (cases changed)
      case True
      then show ?thesis using p r x extends_trans [OF ext p(2)] by (simp add: progress_post_def)
    next
      case False
      then show ?thesis using p r x extends_trans [OF ext p(2)] readingD(2,5) [of w ?st4 st5] by (simp add: progress_post_def)
    qed
  qed
qed

lemma process_new:
  assumes h: "honest w N" "dependency_closed w U" "rinv w N U {edge} st1" and r: "resolver_extends st st1" "rs_chosen st1 = rs_chosen st"
    and a: "address_parse (pe_address edge) = Inr a" "to_git_url a \<in> U"
    and repo: "fmlookup (rs_repo_paths st1) (to_git_url a) = Some repo" and f: "w_fetch w (to_git_url a) = Inr repo"
    and p: "picks w (to_git_url a) repo (rs_prefer_versions st1 = fmempty) [(pe_source edge, pe_constraint edge)] c"
    and m: "manifest_at w (to_git_url a) repo (tc_tag c) = Ok m"
    and new: "fmlookup (rs_chosen st1) (N (to_git_url a)) = None"
  shows "progress_post w N U st (record_choice (N (to_git_url a))
     \<lparr>ce_address = a, ce_commit = tc_tag c, ce_version = mf_version m, ce_manifest = m, ce_top_level_pin = None\<rparr>
     (add_constraint (N (to_git_url a)) (pe_source edge, pe_constraint edge) st1))"
proof -
  let ?n = "N (to_git_url a)"
  let ?st4 = "add_constraint ?n (pe_source edge, pe_constraint edge) st1"
  let ?e = "\<lparr>ce_address = a, ce_commit = tc_tag c, ce_version = mf_version m, ce_manifest = m, ce_top_level_pin = None\<rparr>"
  note tag = entry_chosen_tag [OF h(1) f refl m p]
  have "entry_ok w U (rs_repo_paths ?st4) ?n ?e"
    by (rule entry_chosen [OF h(1) f a(2) refl m]) (use repo tag(3) [of "[(pe_source edge, pe_constraint edge)]"] in simp_all)
  moreover have "entry_picked w (rs_prefer_versions ?st4 = fmempty) (constraints_on ?n ?st4) ?e"
    unfolding add_constraint_fields(4) by (rule tag(1)) simp_all
  ultimately have "rinv w N U {edge} (record_choice ?n ?e ?st4)" by (rule rinv_record_choice [OF rinv_add_constraint [OF h(3)] h(2)])
  then have inv: "rinv w N U {} (record_choice ?n ?e ?st4)" by (rule rinv_edge_done [OF _ a(1)]) simp_all
  have "resolver_extends st ?st4" by (rule extends_trans [OF r(1) extends_add_constraint])
  then have ext: "resolver_extends st (record_choice ?n ?e ?st4)"
    by (rule extends_trans [OF _ extends_record_choice]) (use new in simp)
  have "choices_of w N U (record_choice ?n ?e ?st4) < choices_of w N U st" if "finite U"
  proof -
    have "choices_of w N U (record_choice ?n ?e ?st4) < choices_of w N U ?st4"
      by (rule choices_record [OF that a(2) refl]) (use new in simp)
    then show ?thesis using r(2) by simp
  qed
  then show ?thesis using inv ext by (simp add: progress_post_def)
qed

lemma settles_process_pending:
  assumes h: "honest w N" "dependency_closed w U" "rinv w N U {} st" and e: "rs_pending st = edge # rest"
  shows "settles (process_pending w edge (st\<lparr>rs_pending := rest\<rparr>)) (progress_post w N U (st\<lparr>rs_pending := rest\<rparr>))"
proof -
  let ?st = "st\<lparr>rs_pending := rest\<rparr>"
  note inv = rinv_take [OF h(3) e]
  have inside: "edge_inside U edge" using rinvD(2) [OF h(3)] e by simp
  show ?thesis unfolding process_pending_def Let_def
  proof (rule settles_bind [OF settles_map_err], goal_cases)
    case (1 a)
    have u: "to_git_url a \<in> U" using inside 1 by (simp add: edge_inside_def)
    show ?case
    proof (rule settles_bind [OF settles_ensure_repo [OF rinvD(1) [OF inv]]], elim conjE exE, goal_cases)
      case (1 st1 repo)
      note r1 = 1(1) and repo = 1(2) and f = 1(3)
      show ?case unfolding repo option.case
      proof (rule settles_bind [OF settles_list_tags], hypsubst, rule settles_bind [OF settles_pick_best_version [OF readingD(1) [OF r1] f]], goal_cases)
        case (1 _ x)
        obtain c st2 where x: "x = (chosen_tag_of c, st2)" and r2: "reading w st1 st2"
          and p: "picks w (to_git_url a) repo (rs_prefer_versions st1 = fmempty) [(pe_source edge, pe_constraint edge)] c"
          using 1 by (cases x) auto
        have tag: "ct_commit (chosen_tag_of c) = tc_tag c" by (simp add: chosen_tag_of_def commit_for_tag_def)
        show ?case unfolding x prod.case tag
        proof (rule settles_bind [OF settles_read_manifest [OF readingD(1) [OF r2] f]], goal_cases)
          case (1 y)
          then obtain m st3 where y: "y = (m, st3)" "reading w st2 st3" and m: "manifest_at w (to_git_url a) repo (tc_tag c) = Ok m"
            by (cases y) auto
          have r: "reading w st1 st3" "reading w ?st st3" using reading_trans [OF r2 y(2)] reading_trans [OF r1] by blast+
          have name: "mf_name m = N (to_git_url a)" using h(1) f m unfolding honest_def by blast
          have p3: "picks w (to_git_url a) repo (rs_prefer_versions st3 = fmempty) [(pe_source edge, pe_constraint edge)] c"
            using p readingD(6) [OF r(1)] by simp
          note parsed = \<open>address_parse (pe_address edge) = Inr a\<close>
          note known = process_known [OF h(1,2) rinv_reading [OF inv r(2)] extends_reading [OF r(2)] readingD(2,5) [OF r(2)] parsed]
            and new = process_new [OF h(1,2) rinv_reading [OF inv r(2)] extends_reading [OF r(2)] readingD(2) [OF r(2)] parsed u
              readingD(7) [OF r(1) repo] f p3 m]
          show ?case unfolding y(1) prod.case name add_constraint_fields(1) using known new by (simp del: not_None_eq)
        qed
      qed
    qed
  qed
qed

end
