(* ===== verification/Resolver_Loops.thy ===== *)
theory Resolver_Loops
  imports Resolver_Fixpoint
begin

text \<open>
  The loops of \<^verbatim>\<open>iterate_to_fixpoint\<close> in \<^verbatim>\<open>src/src/packages/resolver.rs\<close> return: a turn of the inner one takes an edge
  from the queue unless it lowers a choice, and a turn of the outer one that does not return lowers a choice.
\<close>

definition loop_post ::
    "('v :: linorder, 'q, 'f, 'm) package_world \<Rightarrow> (string \<Rightarrow> string) \<Rightarrow> string set \<Rightarrow> ('v, 'q) resolver_state \<Rightarrow> ('v, 'q) resolver_state \<Rightarrow> bool" where
  "loop_post w N U st st' \<longleftrightarrow>
     rinv w N U {} st' \<and> resolver_extends st st' \<and> choices_of w N U st' \<le> choices_of w N U st"

lemma loop_post_trans: "loop_post w N U st st' \<Longrightarrow> loop_post w N U st' st'' \<Longrightarrow> loop_post w N U st st''"
  by (auto simp: loop_post_def intro: extends_trans)

lemma settles_drain_pending:
  assumes h: "honest w N" "dependency_closed w U" "finite U"
  shows "rinv w N U {} st \<Longrightarrow> settles (drain_pending w st) (\<lambda>st'. loop_post w N U st st' \<and> rs_pending st' = [])"
proof (induction st rule: measure_induct_rule [where f = "\<lambda>st. choices_of w N U st", case_names outer])
  case (outer st)
  from outer.prems outer.IH show ?case
  proof (induction "length (rs_pending st)" arbitrary: st)
    case 0
    then show ?case by (subst drain_pending.simps) (simp add: loop_post_def extends_refl)
  next
    case (Suc k)
    then obtain edge rest where e: "rs_pending st = edge # rest" by (cases "rs_pending st") auto
    let ?st = "st\<lparr>rs_pending := rest\<rparr>"
    have ext: "resolver_extends st ?st" by (simp add: resolver_extends_def constraints_on_def)
    have "settles (try_bind (process_pending w edge ?st) (\<lambda>st'. drain_pending w st'))
        (\<lambda>st'. loop_post w N U st st' \<and> rs_pending st' = [])"
    proof (rule settles_bind [OF settles_process_pending [OF h(1,2) Suc.prems(1) e]])
      fix st1 assume p: "progress_post w N U ?st st1"
      then have post: "loop_post w N U st st1"
        using extends_trans [OF ext] h(3) by (auto simp: progress_post_def loop_post_def)
      have inv: "rinv w N U {} st1" using p by (simp add: progress_post_def)
      have "settles (drain_pending w st1) (\<lambda>st'. loop_post w N U st1 st' \<and> rs_pending st' = [])"
      proof (cases "choices_of w N U st1 < choices_of w N U st")
        case True
        then show ?thesis by (rule Suc.prems(2) [OF _ inv])
      next
        case False
        then have same: "choices_of w N U st1 = choices_of w N U st" "rs_pending st1 = rest"
          using p h(3) by (auto simp: progress_post_def)
        show ?thesis
        proof (rule Suc.hyps(1) [OF _ inv])
          show "k = length (rs_pending st1)" using Suc.hyps(2) e same(2) by simp
          show "settles (drain_pending w st') (\<lambda>st''. loop_post w N U st' st'' \<and> rs_pending st'' = [])"
            if "choices_of w N U st' < choices_of w N U st1" "rinv w N U {} st'" for st'
            using Suc.prems(2) that unfolding same(1) by blast
        qed
      qed
      then show "settles (drain_pending w st1) (\<lambda>st'. loop_post w N U st st' \<and> rs_pending st' = [])"
        by (rule settles_weaken) (use loop_post_trans [OF post] in blast)
    qed
    then show ?case by (subst drain_pending.simps) (simp add: e)
  qed
qed

text \<open>A pass over some packages either lowers a choice or finds each of them settled.\<close>

definition pass_post ::
    "('v :: linorder, 'q, 'f, 'm) package_world \<Rightarrow> (string \<Rightarrow> string) \<Rightarrow> string set \<Rightarrow> string list \<Rightarrow> ('v, 'q) resolver_state \<Rightarrow>
     bool \<times> ('v, 'q) resolver_state \<Rightarrow> bool" where
  "pass_post w N U names st r \<longleftrightarrow>
     loop_post w N U st (snd r) \<and>
     (if fst r then choices_of w N U (snd r) < choices_of w N U st
      else reading w st (snd r) \<and> (rs_prefer_versions st = fmempty \<longrightarrow> (\<forall>n \<in> set names. entry_settled w n st)))"

lemma recheck_all_changed:
  "recheck_all w names True st = try_bind (recheck_all w names False st) (\<lambda>(_, st'). Ok (True, st'))"
proof (induction names arbitrary: st)
  case (Cons n names)
  show ?case
  proof (cases "recheck_chosen w n st")
    case (Some r)
    then show ?thesis
    proof (cases r)
      case (Inr v)
      then show ?thesis using Some Cons.IH [of "snd v"]
        by (cases v; cases "fst v"; cases "recheck_all w names False (snd v)") (auto simp: try_bind_def split: sum.splits)
    qed simp
  qed simp
qed simp

lemma settles_recheck_all:
  assumes h: "honest w N" "dependency_closed w U" "finite U"
  shows "rinv w N U {} st \<Longrightarrow> settles (recheck_all w names False st) (pass_post w N U names st)"
proof (induction names arbitrary: st)
  case Nil
  then show ?case by (simp add: pass_post_def loop_post_def extends_refl reading_refl rinvD(1))
next
  case (Cons n names)
  show ?case unfolding recheck_all.simps
  proof (rule settles_bind [OF settles_recheck_chosen [OF h(1,2) Cons.prems]], goal_cases)
    case (1 x)
    obtain changed st1 where x: "x = (changed, st1)" by (cases x)
    have p: "rinv w N U {} st1" "resolver_extends st st1"
        "if changed then choices_of w N U st1 < choices_of w N U st
         else reading w st st1 \<and> (rs_prefer_versions st = fmempty \<longrightarrow> entry_settled w n st)"
      using 1 x h(3) by (auto simp: recheck_post_def split: if_splits)
    have same: "choices_of w N U st1 = choices_of w N U st" if "reading w st st1" using readingD(2) [OF that] by simp
    then have post: "loop_post w N U st st1" using p by (auto simp: loop_post_def split: if_splits)
    note IH = Cons.IH [OF p(1)]
    show ?case
    proof (cases changed)
      case True
      have "settles (recheck_all w names True st1) (pass_post w N U (n # names) st)" unfolding recheck_all_changed
        by (rule settles_bind [OF IH]) (use True p(3) loop_post_trans [OF post] in \<open>auto simp: pass_post_def loop_post_def\<close>)
      then show ?thesis using x True by simp
    next
      case False
      have r: "reading w st st1" "rs_prefer_versions st = fmempty \<Longrightarrow> entry_settled w n st" using p(3) False by auto
      have "settles (recheck_all w names False st1) (pass_post w N U (n # names) st)"
      proof (rule settles_weaken [OF IH])
        fix y assume y: "pass_post w N U names st1 y"
        show "pass_post w N U (n # names) st y"
          using y r(2) loop_post_trans [OF post] reading_trans [OF r(1)] same [OF r(1)] readingD(6) [OF r(1)] entry_settled_reading [OF r(1)]
          by (auto simp: pass_post_def split: if_splits)
      qed
      then show ?thesis using x False by simp
    qed
  qed
qed

definition fixpoint_post ::
    "('v :: linorder, 'q, 'f, 'm) package_world \<Rightarrow> (string \<Rightarrow> string) \<Rightarrow> string set \<Rightarrow> ('v, 'q) resolver_state \<Rightarrow> ('v, 'q) resolver_state \<Rightarrow> bool" where
  "fixpoint_post w N U st st' \<longleftrightarrow>
     rinv w N U {} st' \<and> resolver_extends st st' \<and> rs_pending st' = [] \<and>
     (rs_prefer_versions st = fmempty \<longrightarrow> (\<forall>n. entry_settled w n st'))"

lemma keys_of_set: "set (keys_of m) = fset (fmdom m)"
  by (simp add: keys_of_def)

lemma keys_of_iff: "n \<in> set (keys_of m) \<longleftrightarrow> fmlookup m n \<noteq> None"
  by (simp add: keys_of_set fmlookup_dom_iff)

lemma settles_iterate_to_fixpoint:
  assumes h: "honest w N" "dependency_closed w U" "finite U"
  shows "rinv w N U {} st \<Longrightarrow> settles (iterate_to_fixpoint w st) (fixpoint_post w N U st)"
proof (induction st rule: measure_induct_rule [where f = "\<lambda>st. choices_of w N U st", case_names turn])
  case (turn st)
  show ?case
  proof (subst iterate_to_fixpoint.simps, rule settles_bind [OF settles_drain_pending [OF h turn.prems]], elim conjE, goal_cases)
    case (1 st1)
    note p1 = \<open>loop_post w N U st st1\<close> and e1 = \<open>rs_pending st1 = []\<close>
    have inv1: "rinv w N U {} st1" using p1 by (simp add: loop_post_def)
    show ?case
    proof (rule settles_bind [OF settles_recheck_all [OF h inv1]], goal_cases)
      case (1 x)
      obtain changed st2 where x: "x = (changed, st2)" by (cases x)
      have p2: "loop_post w N U st st2"
        and c: "if changed then choices_of w N U st2 < choices_of w N U st1
           else reading w st1 st2 \<and> (rs_prefer_versions st1 = fmempty \<longrightarrow> (\<forall>n \<in> set (keys_of (rs_chosen st1)). entry_settled w n st1))"
        using 1 x loop_post_trans [OF p1] by (auto simp: pass_post_def split: if_splits)
      show ?case
      proof (cases changed)
        case True
        have less: "choices_of w N U st2 < choices_of w N U st" using True c p1 by (simp add: loop_post_def)
        have inv2: "rinv w N U {} st2" using p2 by (simp add: loop_post_def)
        have ext: "resolver_extends st st2" and same: "rs_prefer_versions st2 = rs_prefer_versions st"
          using p2 by (simp_all add: loop_post_def resolver_extends_def)
        have "settles (iterate_to_fixpoint w st2) (fixpoint_post w N U st)"
          by (rule settles_weaken [OF turn.IH [OF less inv2]]) (use extends_trans [OF ext] same in \<open>simp add: fixpoint_post_def\<close>)
        then show ?thesis using x True by simp
      next
        case False
        have r: "reading w st1 st2" using c False by simp
        have "entry_settled w n st2" if "rs_prefer_versions st = fmempty" for n
        proof -
          have "rs_prefer_versions st1 = fmempty" using p1 that by (simp add: loop_post_def resolver_extends_def)
          then have all: "\<forall>n \<in> set (keys_of (rs_chosen st1)). entry_settled w n st1" using c False by simp
          have "entry_settled w n st1"
          proof (cases "fmlookup (rs_chosen st1) n")
            case None
            then show ?thesis by (simp add: entry_settled_def)
          next
            case (Some e)
            then show ?thesis using all by (simp add: keys_of_iff)
          qed
          then show ?thesis using entry_settled_reading [OF r] by simp
        qed
        then have "fixpoint_post w N U st st2" using p2 readingD(5) [OF r] e1 by (simp add: fixpoint_post_def loop_post_def)
        then show ?thesis using x False readingD(5) [OF r] e1 by simp
      qed
    qed
  qed
qed

end
