(* ===== verification/Topological_Order.thy ===== *)
theory Topological_Order
  imports Prelude "HOL-Library.Finite_Map"
begin

text \<open>
  Kahn's algorithm, as the resolver and the lockfile of \<^verbatim>\<open>src/src/packages\<close> both write it: counts of unmet
  dependencies, a container of the nodes whose count is zero, and a loop that takes a node from the container, emits it and
  lowers the counts of its dependents. The two differ in the container, so the container is an interface.
\<close>

section \<open>Dependency orders\<close>

text \<open>A list in which every node comes after its dependencies.\<close>

definition dependency_order :: "'a set \<Rightarrow> ('a \<Rightarrow> 'a set) \<Rightarrow> 'a list \<Rightarrow> bool" where
  "dependency_order K deps order \<longleftrightarrow>
     distinct order \<and> set order \<subseteq> K \<and> (\<forall>xs z ys. order = xs @ z # ys \<longrightarrow> deps z \<subseteq> set xs)"

definition frontier :: "'a set \<Rightarrow> ('a \<Rightarrow> 'a set) \<Rightarrow> 'a list \<Rightarrow> 'a set" where
  "frontier K deps order = {y \<in> K. y \<notin> set order \<and> deps y \<subseteq> set order}"

definition depends :: "'a set \<Rightarrow> ('a \<Rightarrow> 'a set) \<Rightarrow> ('a \<times> 'a) set" where
  "depends K deps = {(d, y). y \<in> K \<and> d \<in> deps y}"

lemma dependency_order_Nil [simp]: "dependency_order K deps []"
  by (simp add: dependency_order_def)

lemma dependency_order_closed: "dependency_order K deps order \<Longrightarrow> z \<in> set order \<Longrightarrow> deps z \<subseteq> set order"
  unfolding dependency_order_def by (metis Un_iff in_set_conv_decomp set_append subset_iff)

lemma append_one_split:
  assumes "order @ [x] = xs @ z # ys"
  obtains "z = x" "xs = order" | ys' where "order = xs @ z # ys'"
  using assms by (cases ys rule: rev_cases) auto

lemma dependency_order_emit:
  assumes "dependency_order K deps order" "x \<in> frontier K deps order"
  shows "dependency_order K deps (order @ [x])"
  unfolding dependency_order_def
proof (intro conjI allI impI)
  show "deps z \<subseteq> set xs" if "order @ [x] = xs @ z # ys" for xs z ys
    by (rule append_one_split [OF that]) (use assms in \<open>auto simp: dependency_order_def frontier_def\<close>)
qed (use assms in \<open>auto simp: dependency_order_def frontier_def\<close>)

lemma frontier_emit:
  assumes "dependency_order K deps order" "x \<in> frontier K deps order"
  shows "frontier K deps (order @ [x]) =
    frontier K deps order - {x} \<union> {y \<in> K. x \<in> deps y \<and> deps y - set order = {x}}"
proof -
  have "y \<notin> set (order @ [x])" if "x \<in> deps y" for y
    using dependency_order_closed [OF assms(1), of y] assms(2) that by (auto simp: frontier_def)
  moreover have "x \<notin> set order" using assms(2) by (simp add: frontier_def)
  ultimately show ?thesis by (auto simp: frontier_def)
qed

text \<open>When no node is left that could be emitted, every node was, or there is a cycle.\<close>

lemma depends_wf:
  assumes "dependency_order K deps order" "set order = K"
  shows "wf (depends K deps)"
proof (rule wfI_min)
  fix x :: 'a and Q
  assume "x \<in> Q"
  show "\<exists>z \<in> Q. \<forall>y. (y, z) \<in> depends K deps \<longrightarrow> y \<notin> Q"
  proof (cases "\<exists>z \<in> set order. z \<in> Q")
    case True
    then obtain xs z ys where z: "order = xs @ z # ys" "z \<in> Q" "\<forall>y \<in> set xs. y \<notin> Q"
      using split_list_first_prop [OF True] by blast
    then have "deps z \<subseteq> set xs" using assms(1) by (simp add: dependency_order_def)
    then show ?thesis using z(2,3) by (auto simp: depends_def)
  next
    case False
    then show ?thesis using \<open>x \<in> Q\<close> assms(2) by (auto simp: depends_def)
  qed
qed

lemma dependency_order_complete:
  assumes "finite K" "\<And>y. y \<in> K \<Longrightarrow> deps y \<subseteq> K" "dependency_order K deps order" "frontier K deps order = {}"
  shows "set order = K \<longleftrightarrow> acyclic (depends K deps)"
proof
  assume "set order = K"
  then show "acyclic (depends K deps)" using depends_wf [OF assms(3)] wf_acyclic by blast
next
  assume a: "acyclic (depends K deps)"
  have "finite (depends K deps)" by (rule finite_subset [of _ "K \<times> K"]) (use assms(1,2) in \<open>auto simp: depends_def\<close>)
  then have wf: "wf (depends K deps)" using a finite_acyclic_wf by blast
  show "set order = K"
  proof (rule ccontr)
    assume "set order \<noteq> K"
    then obtain y where "y \<in> K - set order" using assms(3) by (auto simp: dependency_order_def)
    then obtain z where z: "z \<in> K - set order" "\<And>d. (d, z) \<in> depends K deps \<Longrightarrow> d \<notin> K - set order"
      by (rule wfE_min [OF wf]) blast
    then have "z \<in> frontier K deps order" using assms(2) [of z] by (auto simp: frontier_def depends_def)
    then show False using assms(4) by simp
  qed
qed

section \<open>Counting unmet dependencies\<close>

definition counts_for :: "'a set \<Rightarrow> ('a \<Rightarrow> 'a set) \<Rightarrow> 'a list \<Rightarrow> ('a, nat) fmap \<Rightarrow> bool" where
  "counts_for K deps order counts \<longleftrightarrow> (\<forall>y. fmlookup counts y = (if y \<in> K then Some (card (deps y - set order)) else None))"

definition lowered :: "'a list \<Rightarrow> ('a, nat) fmap \<Rightarrow> ('a, nat) fmap" where
  "lowered xs counts = fold (\<lambda>x m. case fmlookup m x of Some d \<Rightarrow> fmupd x (d - 1) m | None \<Rightarrow> m) xs counts"

lemma lookup_lowered:
  "distinct xs \<Longrightarrow> fmlookup (lowered xs counts) y = (if y \<in> set xs then map_option (\<lambda>d. d - 1) (fmlookup counts y) else fmlookup counts y)"
proof (induction xs arbitrary: counts)
  case (Cons x xs)
  then show ?case by (cases "fmlookup counts x") (auto simp: lowered_def)
qed (simp add: lowered_def)

lemma counts_for_lowered:
  assumes "finite K" "\<And>y. y \<in> K \<Longrightarrow> deps y \<subseteq> K" "counts_for K deps order counts" "x \<notin> set order"
    and "distinct xs" "set xs = {y \<in> K. x \<in> deps y}"
  shows "counts_for K deps (order @ [x]) (lowered xs counts)"
  unfolding counts_for_def
proof
  fix y
  have "deps y - set (order @ [x]) = deps y - set order - {x}" by auto
  moreover have "finite (deps y)" if "y \<in> K" using assms(1,2) that finite_subset by blast
  ultimately show "fmlookup (lowered xs counts) y = (if y \<in> K then Some (card (deps y - set (order @ [x]))) else None)"
    using assms(3-6) by (auto simp: lookup_lowered counts_for_def card_Diff_singleton_if)
qed

section \<open>The loop over a container of ready nodes\<close>

text \<open>
  \<open>pop\<close> takes a node out of the container; \<open>relax\<close> lowers the counts of some nodes and puts those that reach zero into
  it; \<open>walk\<close> is the loop.
\<close>

locale ready_loop =
  fixes elems :: "'r \<Rightarrow> 'a list"
    and pop :: "'r \<Rightarrow> ('a \<times> 'r) option"
    and relax :: "'a list \<Rightarrow> ('a, nat) fmap \<Rightarrow> 'r \<Rightarrow> ('a, nat) fmap \<times> 'r"
    and walk :: "('a \<Rightarrow> 'a list) \<Rightarrow> ('a, nat) fmap \<Rightarrow> 'r \<Rightarrow> 'a list \<Rightarrow> 'a list option"
  assumes pop_None: "pop r = None \<longleftrightarrow> elems r = []"
    and pop_Some: "pop r = Some (x, r') \<Longrightarrow> distinct (elems r) \<Longrightarrow>
      x \<in> set (elems r) \<and> distinct (elems r') \<and> set (elems r') = set (elems r) - {x}"
    and relax_counts: "distinct xs \<Longrightarrow> fst (relax xs counts r) = lowered xs counts"
    and relax_ready: "distinct xs \<Longrightarrow> distinct (elems r) \<Longrightarrow> set xs \<inter> set (elems r) = {} \<Longrightarrow>
      distinct (elems (snd (relax xs counts r))) \<and>
      set (elems (snd (relax xs counts r))) = set (elems r) \<union> {x \<in> set xs. fmlookup (lowered xs counts) x = Some 0}"
    and walk_unfold: "walk dependents counts r order =
      (case pop r of
         None \<Rightarrow> Some order
       | Some (x, r') \<Rightarrow> walk dependents (fst (relax (dependents x) counts r')) (snd (relax (dependents x) counts r')) (order @ [x]))"
begin

lemma relax_frontier:
  assumes "finite K" "\<And>y. y \<in> K \<Longrightarrow> deps y \<subseteq> K" "dependency_order K deps order" "x \<in> frontier K deps order"
    and xs: "distinct xs" "set xs = {y \<in> K. x \<in> deps y}"
    and c: "counts_for K deps order counts" and r: "distinct (elems r)" "set (elems r) = frontier K deps order - {x}"
  shows "distinct (elems (snd (relax xs counts r)))" "set (elems (snd (relax xs counts r))) = frontier K deps (order @ [x])"
proof -
  have new: "x \<notin> set order" using assms(4) by (simp add: frontier_def)
  have "set xs \<inter> set (elems r) = {}" using xs(2) r(2) new by (auto simp: frontier_def)
  note ready = relax_ready [OF xs(1) r(1) this]
  show "distinct (elems (snd (relax xs counts r)))" using ready by blast
  have "fmlookup (lowered xs counts) y = Some 0 \<longleftrightarrow> deps y - set order = {x}" if y: "y \<in> set xs" for y
  proof -
    have "y \<in> K" "x \<in> deps y" using y xs(2) by auto
    then have fin: "finite (deps y)" using assms(1,2) finite_subset by blast
    have "fmlookup (lowered xs counts) y = Some (card (deps y - set (order @ [x])))"
      using counts_for_lowered [OF assms(1,2) c new xs] \<open>y \<in> K\<close> by (simp add: counts_for_def)
    moreover have "card (deps y - set (order @ [x])) = 0 \<longleftrightarrow> deps y - set (order @ [x]) = {}" using fin by simp
    moreover have "\<dots> \<longleftrightarrow> deps y - set order = {x}" using \<open>x \<in> deps y\<close> new by auto
    ultimately show ?thesis by simp
  qed
  then have "{y \<in> set xs. fmlookup (lowered xs counts) y = Some 0} = {y \<in> K. x \<in> deps y \<and> deps y - set order = {x}}"
    using xs(2) by auto
  then show "set (elems (snd (relax xs counts r))) = frontier K deps (order @ [x])"
    using ready r(2) frontier_emit [OF assms(3,4)] by simp
qed

lemma walk_correct:
  assumes K: "finite K" "\<And>y. y \<in> K \<Longrightarrow> deps y \<subseteq> K" "\<And>x. x \<in> K \<Longrightarrow> distinct (dependents x) \<and> set (dependents x) = {y \<in> K. x \<in> deps y}"
  shows "dependency_order K deps order \<Longrightarrow> counts_for K deps order counts \<Longrightarrow> distinct (elems r) \<Longrightarrow>
    set (elems r) = frontier K deps order \<Longrightarrow>
    \<exists>order'. walk dependents counts r order = Some order' \<and> dependency_order K deps order' \<and> frontier K deps order' = {}"
proof (induction "card (K - set order)" arbitrary: order counts r rule: less_induct)
  case less
  show ?case
  proof (cases "pop r")
    case None
    then have "frontier K deps order = {}" using less.prems(4) pop_None by simp
    moreover have "walk dependents counts r order = Some order" using None by (subst walk_unfold) simp
    ultimately show ?thesis using less.prems(1) by blast
  next
    case (Some p)
    obtain x r' where p: "p = (x, r')" by (cases p)
    note popped = pop_Some [OF Some [unfolded p] less.prems(3)]
    have x: "x \<in> frontier K deps order" "x \<in> K" "x \<notin> set order" using popped less.prems(4) by (auto simp: frontier_def)
    have d: "distinct (dependents x)" "set (dependents x) = {y \<in> K. x \<in> deps y}" using K(3) [OF x(2)] by auto
    have r': "distinct (elems r')" "set (elems r') = frontier K deps order - {x}" using popped less.prems(4) by auto
    have "card (K - set (order @ [x])) < card (K - set order)"
      by (rule psubset_card_mono) (use K(1) x in auto)
    moreover have "counts_for K deps (order @ [x]) (fst (relax (dependents x) counts r'))"
      unfolding relax_counts [OF d(1)] by (rule counts_for_lowered [OF K(1,2) less.prems(2) x(3) d])
    moreover note dependency_order_emit [OF less.prems(1) x(1)] relax_frontier [OF K(1,2) less.prems(1) x(1) d less.prems(2) r']
    ultimately have "\<exists>order'. walk dependents (fst (relax (dependents x) counts r')) (snd (relax (dependents x) counts r')) (order @ [x]) = Some order' \<and>
        dependency_order K deps order' \<and> frontier K deps order' = {}" by (intro less.hyps)
    then show ?thesis using Some p by (subst walk_unfold) simp
  qed
qed

end

end
