(* ===== verification/Resolver_Order.thy ===== *)
theory Resolver_Order
  imports Resolver_Loops Topological_Order
begin

text \<open>
  \<^verbatim>\<open>into_plan\<close> of \<^verbatim>\<open>src/src/packages/resolver.rs\<close>: the topological sort over a \<^verbatim>\<open>BTreeSet\<close> of ready names, and the plan
  built from it.
\<close>

section \<open>The ready set\<close>

lemma settle_dependents_counts: "fst (settle_dependents xs counts ready) = lowered xs counts"
  by (induction xs counts ready rule: settle_dependents.induct) (auto simp: lowered_def Let_def split: option.split)

lemma settle_dependents_ready:
  "distinct xs \<Longrightarrow> distinct ready \<Longrightarrow>
   distinct (snd (settle_dependents xs counts ready)) \<and>
   set (snd (settle_dependents xs counts ready)) = set ready \<union> {x \<in> set xs. fmlookup (lowered xs counts) x = Some 0}"
proof (induction xs arbitrary: counts ready)
  case (Cons x xs)
  show ?case
  proof (cases "fmlookup counts x")
    case None
    have "fmlookup (lowered (x # xs) counts) y = fmlookup (lowered xs counts) y" for y
      using None Cons.prems(1) by (simp add: lowered_def)
    moreover have "fmlookup (lowered xs counts) x = None" using None Cons.prems(1) by (simp add: lookup_lowered)
    ultimately show ?thesis using None Cons.IH [of ready counts] Cons.prems by (auto simp del: not_None_eq)
  next
    case (Some d)
    let ?ready = "if d - 1 = 0 then List.insert x ready else ready"
    have low: "lowered (x # xs) counts = lowered xs (fmupd x (d - 1) counts)" using Some by (simp add: lowered_def)
    have "fmlookup (lowered xs (fmupd x (d - 1) counts)) x = Some (d - 1)" using Cons.prems(1) by (simp add: lookup_lowered)
    moreover have "distinct ?ready" using Cons.prems(2) by simp
    ultimately show ?thesis
      using Some Cons.IH [of ?ready "fmupd x (d - 1) counts"] Cons.prems(1) unfolding low by (auto simp: Let_def)
  qed
qed simp

definition pop_least :: "string list \<Rightarrow> (string \<times> string list) option" where
  "pop_least ready = (case sort ready of [] \<Rightarrow> None | x # rest \<Rightarrow> Some (x, rest))"

lemma sort_eq_Nil: "sort xs = [] \<longleftrightarrow> xs = []"
  by (metis length_0_conv length_sort)

lemma pop_least_None: "pop_least ready = None \<longleftrightarrow> ready = []"
  by (auto simp: pop_least_def sort_eq_Nil split: list.split)

lemma pop_least_Some:
  assumes "pop_least ready = Some (x, rest)" "distinct ready"
  shows "x \<in> set ready \<and> distinct rest \<and> set rest = set ready - {x}"
proof -
  have s: "sort ready = x # rest" using assms(1) by (auto simp: pop_least_def split: list.splits)
  have "distinct (x # rest)" "set (x # rest) = set ready" using assms(2) unfolding s [symmetric] by simp_all
  then show ?thesis by auto
qed

lemma kahn_loop_unfold:
  "kahn_loop dependents counts ready order =
    (case pop_least ready of
       None \<Rightarrow> Some order
     | Some (x, rest) \<Rightarrow>
         kahn_loop dependents (fst (settle_dependents (dependents x) counts rest)) (snd (settle_dependents (dependents x) counts rest)) (order @ [x]))"
  by (subst kahn_loop.simps) (auto simp: pop_least_def split: list.split prod.split)

interpretation kahn: ready_loop "\<lambda>r. r" pop_least settle_dependents kahn_loop
proof
  show "pop_least r = None \<longleftrightarrow> r = []" for r by (rule pop_least_None)
  show "x \<in> set r \<and> distinct r' \<and> set r' = set r - {x}" if "pop_least r = Some (x, r')" "distinct r" for r x r'
    using pop_least_Some [OF that] .
  show "fst (settle_dependents xs counts r) = lowered xs counts" for xs counts r by (rule settle_dependents_counts)
  show "distinct (snd (settle_dependents xs counts r)) \<and>
      set (snd (settle_dependents xs counts r)) = set r \<union> {x \<in> set xs. fmlookup (lowered xs counts) x = Some 0}"
    if "distinct xs" "distinct r" for xs counts r using settle_dependents_ready [OF that] .
  show "kahn_loop dependents counts r order =
      (case pop_least r of None \<Rightarrow> Some order
       | Some (x, r') \<Rightarrow> kahn_loop dependents (fst (settle_dependents (dependents x) counts r')) (snd (settle_dependents (dependents x) counts r')) (order @ [x]))"
    for dependents counts r order by (rule kahn_loop_unfold)
qed

section \<open>The topological order\<close>

definition graph_nodes :: "(string, string fset) fmap \<Rightarrow> string set" where
  "graph_nodes deps = fset (fmdom deps)"

definition graph_deps :: "(string, string fset) fmap \<Rightarrow> string \<Rightarrow> string set" where
  "graph_deps deps y = (case fmlookup deps y of Some ds \<Rightarrow> fset ds | None \<Rightarrow> {})"

lemma graph_nodes_iff: "y \<in> graph_nodes deps \<longleftrightarrow> fmlookup deps y \<noteq> None"
  by (simp add: graph_nodes_def fmlookup_dom_iff)

lemma keys_of_facts: "distinct (keys_of m)" "set (keys_of m) = fset (fmdom m)" "length (keys_of m) = card (fset (fmdom m))"
proof -
  show "distinct (keys_of m)" "set (keys_of m) = fset (fmdom m)" by (simp_all add: keys_of_def sorted_list_of_fset.rep_eq)
  then show "length (keys_of m) = card (fset (fmdom m))" by (metis distinct_card)
qed

lemma length_sorted_list_of_fset: "length (sorted_list_of_fset A) = card (fset A)"
  using distinct_card [of "sorted_list_of_fset A"] by (simp add: sorted_list_of_fset.rep_eq)

lemma dependents_of_facts:
  "distinct (dependents_of deps x)" "set (dependents_of deps x) = {y \<in> graph_nodes deps. x \<in> graph_deps deps y}"
  by (auto simp: dependents_of_def keys_of_facts graph_nodes_def graph_deps_def split: option.splits)

lemma topological_order_correct:
  assumes closed: "\<And>y. y \<in> graph_nodes deps \<Longrightarrow> graph_deps deps y \<subseteq> graph_nodes deps"
  shows "\<exists>order. topological_order deps = Some order \<and> dependency_order (graph_nodes deps) (graph_deps deps) order \<and>
    (length order = length (keys_of deps) \<longleftrightarrow> acyclic (depends (graph_nodes deps) (graph_deps deps)))"
proof -
  let ?K = "graph_nodes deps" and ?D = "graph_deps deps"
  let ?counts = "fmmap (\<lambda>ds. length (sorted_list_of_fset ds)) deps"
  let ?ready = "filter (\<lambda>n. fmlookup ?counts n = Some 0) (keys_of deps)"
  have fin: "finite ?K" by (simp add: graph_nodes_def)
  have "counts_for ?K ?D [] ?counts"
    by (auto simp: counts_for_def graph_nodes_def graph_deps_def length_sorted_list_of_fset fmlookup_dom_iff)
  moreover have "set ?ready = frontier ?K ?D []"
    by (auto simp: keys_of_facts frontier_def graph_nodes_def graph_deps_def length_sorted_list_of_fset fmlookup_dom_iff split: option.splits)
  moreover have "distinct ?ready" by (simp add: keys_of_facts)
  ultimately obtain order where o: "topological_order deps = Some order" "dependency_order ?K ?D order" "frontier ?K ?D order = {}"
    using kahn.walk_correct [where K = ?K and deps = ?D and dependents = "dependents_of deps" and order = "[]" and counts = ?counts and r = ?ready, OF fin closed]
      dependents_of_facts
    by (auto simp: topological_order_def Let_def)
  have "length order = card (set order)" using o(2) by (simp add: dependency_order_def distinct_card)
  moreover have "card (set order) = card ?K \<longleftrightarrow> set order = ?K"
    using o(2) fin card_subset_eq [of ?K "set order"] by (auto simp: dependency_order_def)
  ultimately have "length order = length (keys_of deps) \<longleftrightarrow> set order = ?K" by (simp add: keys_of_facts graph_nodes_def)
  then show ?thesis using o dependency_order_complete [OF fin closed o(2,3)] by blast
qed

section \<open>Names of URLs\<close>

lemma url_to_name_fold:
  assumes "fmlookup (fold (\<lambda>name m. case fmlookup chosen name of Some entry \<Rightarrow> fmupd (url_of entry) name m | None \<Rightarrow> m) ns m0) u = Some n"
  shows "fmlookup m0 u = Some n \<or> (\<exists>e. n \<in> set ns \<and> fmlookup chosen n = Some e \<and> url_of e = u)"
  using assms
proof (induction ns arbitrary: m0)
  case (Cons x ns)
  show ?case
  proof (cases "fmlookup chosen x")
    case None
    then show ?thesis using Cons.IH [of m0] Cons.prems by auto
  next
    case (Some e)
    then show ?thesis using Cons.IH [of "fmupd (url_of e) x m0"] Cons.prems by (auto split: if_splits)
  qed
qed simp

lemma url_to_name_chosen:
  assumes "fmlookup (url_to_name chosen) u = Some n"
  obtains e where "fmlookup chosen n = Some e" "url_of e = u"
  using url_to_name_fold [of chosen "keys_of chosen" fmempty u n] assms by (auto simp: url_to_name_def)

lemma url_to_name_keeps:
  assumes "fmlookup m0 u \<noteq> None"
  shows "fmlookup (fold (\<lambda>name m. case fmlookup chosen name of Some entry \<Rightarrow> fmupd (url_of entry) name m | None \<Rightarrow> m) ns m0) u \<noteq> None"
  using assms by (induction ns arbitrary: m0) (auto split: option.split simp del: not_None_eq)

lemma url_to_name_finds:
  assumes "fmlookup chosen n = Some e"
  shows "fmlookup (url_to_name chosen) (url_of e) \<noteq> None"
proof -
  obtain xs ys where "keys_of chosen = xs @ n # ys" using assms keys_of_iff [of n chosen] by (metis in_set_conv_decomp option.distinct(1))
  then show ?thesis using assms by (simp add: url_to_name_def url_to_name_keeps del: not_None_eq)
qed

lemma deps_of_nodes: "graph_nodes (deps_of chosen) = fset (fmdom chosen)"
  by (simp add: graph_nodes_def deps_of_def)

lemma set_map_filter: "set (List.map_filter f xs) = {y. \<exists>x \<in> set xs. f x = Some y}"
  by (induction xs) (auto split: option.splits)

lemma right_case_Some: "(case s of Inl _ \<Rightarrow> None | Inr a \<Rightarrow> f a) = Some d \<longleftrightarrow> (\<exists>a. s = Inr a \<and> f a = Some d)"
  by (cases s) auto

lemma deps_of_deps:
  assumes "fmlookup chosen n = Some e"
  shows "graph_deps (deps_of chosen) n =
    {d. \<exists>dep \<in> set (mf_dependencies (ce_manifest e)). \<exists>a. address_parse (dep_address dep) = Inr a \<and>
       fmlookup (url_to_name chosen) (to_git_url a) = Some d}"
  using assms
  by (simp add: graph_deps_def deps_of_def dependency_names_def fset_of_list.rep_eq set_map_filter right_case_Some)

lemma deps_of_closed: "y \<in> graph_nodes (deps_of chosen) \<Longrightarrow> graph_deps (deps_of chosen) y \<subseteq> graph_nodes (deps_of chosen)"
  unfolding deps_of_nodes fmlookup_dom_iff
  by (auto simp: deps_of_deps fmlookup_dom_iff) (metis url_to_name_chosen)

section \<open>The plan\<close>

definition package_of :: "string \<Rightarrow> ('v, 'q) chosen_entry \<Rightarrow> ('v, 'q) resolved_package" where
  "package_of name entry =
     \<lparr>rp_name = name, rp_address = ce_address entry, rp_revision = ce_commit entry, rp_version = ce_version entry,
      rp_manifest = ce_manifest entry, rp_top_level_pin = ce_top_level_pin entry\<rparr>"

lemma emit_packages_eq:
  "distinct names \<Longrightarrow> (\<And>n. n \<in> set names \<Longrightarrow> fmlookup entries n \<noteq> None) \<Longrightarrow>
   emit_packages names entries = Some (map (\<lambda>n. package_of n (the (fmlookup entries n))) names)"
proof (induction names arbitrary: entries)
  case (Cons n names)
  obtain e where e: "fmlookup entries n = Some e" using Cons.prems(2) [of n] by auto
  have "emit_packages names (fmdrop n entries) = Some (map (\<lambda>k. package_of k (the (fmlookup (fmdrop n entries) k))) names)"
    by (rule Cons.IH) (use Cons.prems in auto)
  also have "map (\<lambda>k. package_of k (the (fmlookup (fmdrop n entries) k))) names = map (\<lambda>k. package_of k (the (fmlookup entries k))) names"
    using Cons.prems(1) by (intro map_cong) auto
  finally show ?case using e by (simp add: package_of_def)
qed simp

definition plan_of :: "(string, ('v, 'q) chosen_entry) fmap \<Rightarrow> string list \<Rightarrow> ('v, 'q) resolved_package list" where
  "plan_of chosen order = map (\<lambda>n. package_of n (the (fmlookup chosen n))) order"

lemma into_plan_cases:
  fixes st :: "('v, 'q) resolver_state"
  obtains order where
      "topological_order (deps_of (rs_chosen st)) = Some order"
      "dependency_order (graph_nodes (deps_of (rs_chosen st))) (graph_deps (deps_of (rs_chosen st))) order"
      "length order = length (keys_of (rs_chosen st)) \<longleftrightarrow>
         acyclic (depends (graph_nodes (deps_of (rs_chosen st))) (graph_deps (deps_of (rs_chosen st))))"
      "(into_plan st :: ('v, 'q, 'f, 'm, ('v, 'q) resolved_package list) resolving) =
         (if length order \<noteq> length (keys_of (rs_chosen st))
          then Err (DependencyCycle (filter (\<lambda>n. n \<notin> set order) (keys_of (rs_chosen st))))
          else (case find_basename_collision order of
                  Some (basename, names) \<Rightarrow> Err (BasenameCollision basename names)
                | None \<Rightarrow> Ok (plan_of (rs_chosen st) order)))"
proof -
  let ?g = "deps_of (rs_chosen st)"
  obtain order where o: "topological_order ?g = Some order" "dependency_order (graph_nodes ?g) (graph_deps ?g) order"
      "length order = length (keys_of ?g) \<longleftrightarrow> acyclic (depends (graph_nodes ?g) (graph_deps ?g))"
    using topological_order_correct [OF deps_of_closed] by blast
  have keys: "keys_of ?g = keys_of (rs_chosen st)" by (simp add: keys_of_def deps_of_def)
  have "fmlookup (rs_chosen st) n \<noteq> None" if "n \<in> set order" for n
    using that o(2) by (auto simp: dependency_order_def deps_of_nodes fmlookup_dom_iff subset_iff)
  then have "emit_packages order (rs_chosen st) = Some (plan_of (rs_chosen st) order)"
    using o(2) unfolding plan_of_def by (intro emit_packages_eq) (auto simp: dependency_order_def)
  moreover have "map rp_name (plan_of (rs_chosen st) order) = order" by (simp add: plan_of_def package_of_def o_def)
  ultimately show ?thesis using that [OF o(1,2)] o(1,3) unfolding keys by (auto simp: into_plan_def Let_def split: option.splits)
qed

lemma find_basename_collision_None:
  assumes "find_basename_collision names = None" "distinct names"
  shows "distinct (map package_basename names)"
proof -
  have "length (filter (\<lambda>n. package_basename n = package_basename x) names) \<le> 1" if "x \<in> set names" for x
    using assms(1) that unfolding find_basename_collision_def find_None_iff by (auto simp: not_less)
  moreover have "x = y" if "x \<in> set names" "y \<in> set names" "package_basename x = package_basename y"
      "length (filter (\<lambda>n. package_basename n = package_basename x) names) \<le> 1" for x y
  proof -
    have "card {x, y} \<le> length (filter (\<lambda>n. package_basename n = package_basename x) names)"
      by (rule order_trans [OF card_mono card_length]) (use that in auto)
    then show ?thesis using that(4) by (cases "x = y") auto
  qed
  ultimately have "inj_on package_basename (set names)" by (auto intro!: inj_onI)
  then show ?thesis using assms(2) by (simp add: distinct_map)
qed

end
