(* ===== verification/Resolver_Outcome.thy ===== *)
theory Resolver_Outcome
  imports Resolver_Order
begin

text \<open>
  What \<^verbatim>\<open>resolve\<close> of \<^verbatim>\<open>src/src/packages/resolver.rs\<close> hands back: the facts its properties are read off from.
\<close>

section \<open>Conflicts\<close>

lemma check_conflicts_settles: "settles (check_conflicts w chosen decls) (\<lambda>_. \<forall>decl \<in> set decls. conflict_with w chosen decl = None)"
  by (induction decls) (auto split: option.split intro: settles_weaken simp del: not_None_eq)

lemma url_to_name_unique:
  assumes inv: "honest w N" "rinv w N U E st" and e: "fmlookup (rs_chosen st) n = Some e"
  shows "n = N (url_of e)" "fmlookup (url_to_name (rs_chosen st)) (url_of e) = Some n"
proof -
  have name: "n' = N (url_of e')" if "fmlookup (rs_chosen st) n' = Some e'" for n' e'
    by (rule entry_okE [OF rinvD(3) [OF inv(2) that]]) (use inv(1) in \<open>auto simp: honest_def\<close>)
  show "n = N (url_of e)" by (rule name [OF e])
  obtain n' where n': "fmlookup (url_to_name (rs_chosen st)) (url_of e) = Some n'" using url_to_name_finds [OF e] by auto
  then obtain e' where "fmlookup (rs_chosen st) n' = Some e'" "url_of e' = url_of e" by (rule url_to_name_chosen)
  then have "n' = n" using name e by metis
  then show "fmlookup (url_to_name (rs_chosen st)) (url_of e) = Some n" using n' by simp
qed

lemma no_conflict:
  assumes inv: "honest w N" "rinv w N U E st" and none: "\<forall>decl \<in> set (rs_conflicts st). conflict_with w (rs_chosen st) decl = None"
    and p: "fmlookup (rs_chosen st) n = Some e" and q: "fmlookup (rs_chosen st) k = Some t"
    and c: "c \<in> set (mf_conflicts (ce_manifest e))" "address_parse (dep_address c) = Inr a" "url_of t = to_git_url a"
  shows "\<not> w_matches w (dep_version c) (ce_version t)"
proof -
  have "decl_of n e c \<in> set (rs_conflicts st)" using rinvD(6) [OF inv(2) p] c(1) by (simp add: conflicts_recorded_def)
  then have "conflict_with w (rs_chosen st) (decl_of n e c) = None" using none by blast
  then show ?thesis using p q c url_to_name_unique(2) [OF inv q] by (auto simp: conflict_with_def decl_of_def split: if_splits)
qed

section \<open>Dependencies\<close>

lemma dependency_edge:
  assumes inv: "honest w N" "dependency_closed w U" "inj_on N U" "rinv w N U {} st" "rs_pending st = []"
    and settled: "\<And>n. entry_settled w n st"
    and e: "fmlookup (rs_chosen st) n = Some e" and dep: "dep \<in> set (mf_dependencies (ce_manifest e))"
  obtains a k t where "address_parse (dep_address dep) = Inr a" "fmlookup (rs_chosen st) k = Some t" "url_of t = to_git_url a"
    "k \<in> graph_deps (deps_of (rs_chosen st)) n" "w_matches w (dep_version dep) (ce_version t)"
proof -
  obtain a where a: "address_parse (dep_address dep) = Inr a" "fmlookup (rs_chosen st) (N (to_git_url a)) \<noteq> None"
      "(DependencyOf n (ce_version e), dep_version dep) \<in> set (constraints_on (N (to_git_url a)) st)"
    using rinvD(5) [OF inv(4) e] dep inv(5) by (auto simp: deps_recorded_def)
  obtain t where t: "fmlookup (rs_chosen st) (N (to_git_url a)) = Some t" using a(2) by auto
  have "to_git_url a \<in> U"
    by (rule entry_okE [OF rinvD(3) [OF inv(4) e]]) (use inv(2) dep a(1) in \<open>auto simp: dependency_closed_def\<close>)
  moreover have "url_of t \<in> U" by (rule entry_okE [OF rinvD(3) [OF inv(4) t]])
  moreover have "N (to_git_url a) = N (url_of t)" by (rule url_to_name_unique(1) [OF inv(1,4) t])
  ultimately have url: "url_of t = to_git_url a" using inv(3) by (simp add: inj_on_eq_iff)
  have "N (to_git_url a) \<in> graph_deps (deps_of (rs_chosen st)) n"
    using dep a(1) url_to_name_unique(2) [OF inv(1,4) t] unfolding deps_of_deps [OF e] url by blast
  moreover have "w_matches w (dep_version dep) (ce_version t)" using settled [of "N (to_git_url a)"] t a(3) by (auto simp: entry_settled_def)
  ultimately show thesis using that a(1) t url by blast
qed

section \<open>Resolving\<close>

definition resolved ::
    "('v :: linorder, 'q, 'f, 'm) package_world \<Rightarrow> (string \<Rightarrow> string) \<Rightarrow> string set \<Rightarrow> bool \<Rightarrow> 'q resolve_request list \<Rightarrow>
     ('v, 'q) resolver_state \<Rightarrow> string list \<Rightarrow> ('v, 'q) resolved_package list \<Rightarrow> bool" where
  "resolved w N U fresh reqs st order plan \<longleftrightarrow>
     rinv w N U {} st \<and> rs_pending st = [] \<and> (fresh \<longrightarrow> (\<forall>n. entry_settled w n st)) \<and>
     (\<forall>req \<in> set reqs. request_kept req st) \<and>
     (\<forall>decl \<in> set (rs_conflicts st). conflict_with w (rs_chosen st) decl = None) \<and>
     dependency_order (fset (fmdom (rs_chosen st))) (graph_deps (deps_of (rs_chosen st))) order \<and>
     set order = fset (fmdom (rs_chosen st)) \<and> find_basename_collision order = None \<and>
     plan = plan_of (rs_chosen st) order"

lemma into_plan_settles:
  fixes st :: "('v, 'q) resolver_state"
  shows "settles (into_plan st :: ('v, 'q, 'f, 'm, ('v, 'q) resolved_package list) resolving)
    (\<lambda>plan. \<exists>order. dependency_order (fset (fmdom (rs_chosen st))) (graph_deps (deps_of (rs_chosen st))) order \<and>
       set order = fset (fmdom (rs_chosen st)) \<and> find_basename_collision order = None \<and> plan = plan_of (rs_chosen st) order)"
proof (rule into_plan_cases [where st = st and 'f = 'f and 'm = 'm], goal_cases)
  case (1 order)
  have o: "dependency_order (fset (fmdom (rs_chosen st))) (graph_deps (deps_of (rs_chosen st))) order"
    using 1(2) by (simp add: deps_of_nodes)
  have "set order = fset (fmdom (rs_chosen st))" if "length order = length (keys_of (rs_chosen st))"
  proof (rule card_subset_eq)
    show "card (set order) = card (fset (fmdom (rs_chosen st)))"
      using o that by (simp add: dependency_order_def distinct_card keys_of_facts)
  qed (use o in \<open>simp_all add: dependency_order_def\<close>)
  then show ?case using o unfolding 1(4) by (auto split: option.split)
qed

lemma settles_resolve_from:
  assumes h: "honest w N" "dependency_closed w U" "finite U" "\<forall>req \<in> set reqs. to_git_url (req_address req) \<in> U"
  shows "settles (resolve_from w reqs (resolver_state_new\<lparr>rs_prefer_versions := p\<rparr>))
    (\<lambda>plan. \<exists>st order. resolved w N U (p = fmempty) reqs st order plan)"
proof -
  have "rs_prefer_versions (resolver_state_new\<lparr>rs_prefer_versions := p\<rparr>) = p" by simp
  then have same: "rs_prefer_versions st = p" if "resolver_extends (resolver_state_new\<lparr>rs_prefer_versions := p\<rparr>) st" for st
    using that by (simp add: resolver_extends_def)
  show ?thesis unfolding resolve_from_def
  proof (rule settles_bind [OF settles_add_requests [OF h(1,2) rinv_initial h(4)]], elim conjE, goal_cases)
    case (1 st1)
    note same1 = same [OF 1(2)] and kept = 1(3)
    show ?case
    proof (rule settles_bind [OF settles_iterate_to_fixpoint [OF h(1-3) 1(1)]], goal_cases)
      case (1 st2)
      then have f: "rinv w N U {} st2" "resolver_extends st1 st2" "rs_pending st2 = []" "p = fmempty \<longrightarrow> (\<forall>n. entry_settled w n st2)"
        by (simp_all add: fixpoint_post_def same1)
      have kept2: "\<forall>req \<in> set reqs. request_kept req st2" using kept request_kept_extends [OF _ f(2)] by blast
      show ?case
      proof (rule settles_bind [OF check_conflicts_settles], goal_cases)
        case 1
        show ?case by (rule settles_weaken [OF into_plan_settles]) (use 1 f kept2 in \<open>auto simp: resolved_def\<close>)
      qed
    qed
  qed
qed

lemma resolve_as_resolve_from: "resolve_requests w reqs = resolve_from w reqs (resolver_state_new\<lparr>rs_prefer_versions := fmempty\<rparr>)"
  by (simp add: resolve_requests_def resolver_state_new_def)

lemma resolve_ok:
  assumes "honest w N" "dependency_closed w U" "finite U" "\<forall>req \<in> set reqs. to_git_url (req_address req) \<in> U" "resolve_requests w reqs = Ok plan"
  obtains st order where "resolved w N U True reqs st order plan"
  using settles_Ok [OF settles_resolve_from [OF assms(1-4), of fmempty] assms(5) [unfolded resolve_as_resolve_from]] by auto

lemma plan_of_entry:
  assumes "resolved w N U fresh reqs st order plan" "p \<in> set plan"
  obtains n e where "fmlookup (rs_chosen st) n = Some e" "p = package_of n e" "n \<in> set order"
proof -
  obtain n where n: "n \<in> set order" "p = package_of n (the (fmlookup (rs_chosen st) n))" using assms by (auto simp: resolved_def plan_of_def)
  then obtain e where "fmlookup (rs_chosen st) n = Some e" using assms(1) by (auto simp: resolved_def fmlookup_dom_iff)
  then show thesis using that n by simp
qed

lemma plan_of_chosen:
  assumes "resolved w N U fresh reqs st order plan" "fmlookup (rs_chosen st) n = Some e"
  shows "package_of n e \<in> set plan"
proof -
  have "n \<in> set order" using assms by (auto simp: resolved_def fmlookup_dom_iff)
  then have "package_of n (the (fmlookup (rs_chosen st) n)) \<in> set plan" using assms(1) by (simp add: resolved_def plan_of_def)
  then show ?thesis using assms(2) by simp
qed

lemma plan_of_split:
  assumes "resolved w N U fresh reqs st order plan" "plan = xs @ p # ys"
  obtains ns n ms where "order = ns @ n # ms" "xs = plan_of (rs_chosen st) ns" "p = package_of n (the (fmlookup (rs_chosen st) n))"
proof -
  have "map (\<lambda>n. package_of n (the (fmlookup (rs_chosen st) n))) order = xs @ p # ys" using assms by (simp add: resolved_def plan_of_def)
  then show thesis using that by (auto simp: map_eq_append_conv map_eq_Cons_conv plan_of_def)
qed

lemma package_of_fields [simp]:
  "rp_name (package_of n e) = n" "rp_address (package_of n e) = ce_address e" "rp_revision (package_of n e) = ce_commit e"
  "rp_version (package_of n e) = ce_version e" "rp_manifest (package_of n e) = ce_manifest e"
  "rp_top_level_pin (package_of n e) = ce_top_level_pin e"
  by (simp_all add: package_of_def)

lemma plan_dependencies_met:
  assumes "honest w N" "inj_on N U" "dependency_closed w U" "finite U" "\<forall>req \<in> set reqs. to_git_url (req_address req) \<in> U"
    and "resolve_requests w reqs = Ok plan"
  shows "distinct (map rp_name plan) \<and> distinct (map (package_basename \<circ> rp_name) plan) \<and>
    (\<forall>xs p ys. plan = xs @ p # ys \<longrightarrow>
       (\<forall>dep \<in> set (mf_dependencies (rp_manifest p)). \<exists>a. \<exists>q \<in> set xs.
          address_parse (dep_address dep) = Inr a \<and> to_git_url (rp_address q) = to_git_url a \<and> w_matches w (dep_version dep) (rp_version q)))"
proof -
  obtain st order where r: "resolved w N U True reqs st order plan" by (rule resolve_ok [OF assms(1,3-6)])
  have inv: "rinv w N U {} st" "rs_pending st = []" "\<And>n. entry_settled w n st" and names: "map rp_name plan = order"
    and o: "dependency_order (fset (fmdom (rs_chosen st))) (graph_deps (deps_of (rs_chosen st))) order" "set order = fset (fmdom (rs_chosen st))"
    and base: "find_basename_collision order = None"
    using r by (auto simp: resolved_def plan_of_def o_def)
  have distinct: "distinct order" using o(1) by (simp add: dependency_order_def)
  have met: "\<exists>a. \<exists>q \<in> set xs. address_parse (dep_address dep) = Inr a \<and> to_git_url (rp_address q) = to_git_url a \<and>
      w_matches w (dep_version dep) (rp_version q)"
    if split: "plan = xs @ p # ys" and dep: "dep \<in> set (mf_dependencies (rp_manifest p))" for xs p ys dep
  proof -
    obtain ns n ms where n: "order = ns @ n # ms" "xs = plan_of (rs_chosen st) ns" "p = package_of n (the (fmlookup (rs_chosen st) n))"
      by (rule plan_of_split [OF r split])
    have "n \<in> set order" by (simp add: n(1))
    then obtain e where e: "fmlookup (rs_chosen st) n = Some e" by (auto simp: o(2) fmlookup_dom_iff)
    have "dep \<in> set (mf_dependencies (ce_manifest e))" using dep e by (simp add: n(3))
    then obtain a k t where k: "address_parse (dep_address dep) = Inr a" "fmlookup (rs_chosen st) k = Some t" "url_of t = to_git_url a"
        "k \<in> graph_deps (deps_of (rs_chosen st)) n" "w_matches w (dep_version dep) (ce_version t)"
      by (rule dependency_edge [OF assms(1,3,2) inv e])
    have "k \<in> set ns" using o(1) n(1) k(4) unfolding dependency_order_def by blast
    then have "package_of k (the (fmlookup (rs_chosen st) k)) \<in> set xs" by (simp add: n(2) plan_of_def)
    then show ?thesis using k by (intro exI [where x = a] bexI [where x = "package_of k t"]) simp_all
  qed
  have "map (package_basename \<circ> rp_name) plan = map package_basename order" using names by auto
  then show ?thesis using met names distinct find_basename_collision_None [OF base distinct] by auto
qed

lemma plan_manifests:
  assumes "honest w N" "dependency_closed w U" "finite U" "\<forall>req \<in> set reqs. to_git_url (req_address req) \<in> U"
    and "resolve_requests w reqs = Ok plan" "p \<in> set plan"
  shows "\<exists>repo. w_fetch w (to_git_url (rp_address p)) = Inr repo \<and>
      manifest_at w (to_git_url (rp_address p)) repo (rp_revision p) = Ok (rp_manifest p)"
    "rp_name p = mf_name (rp_manifest p)" "rp_version p = mf_version (rp_manifest p)"
    "w_matches w (mf_pmacs_required (rp_manifest p)) (w_running w)" "rp_name p = N (to_git_url (rp_address p))"
proof -
  obtain st order where r: "resolved w N U True reqs st order plan" by (rule resolve_ok [OF assms(1-5)])
  then have inv: "rinv w N U {} st" by (simp add: resolved_def)
  obtain n e where e: "fmlookup (rs_chosen st) n = Some e" "p = package_of n e" by (rule plan_of_entry [OF r assms(6)])
  show "\<exists>repo. w_fetch w (to_git_url (rp_address p)) = Inr repo \<and>
      manifest_at w (to_git_url (rp_address p)) repo (rp_revision p) = Ok (rp_manifest p)"
    "rp_name p = mf_name (rp_manifest p)" "rp_version p = mf_version (rp_manifest p)"
    "w_matches w (mf_pmacs_required (rp_manifest p)) (w_running w)"
    by (rule entry_okE [OF rinvD(3) [OF inv e(1)]], simp add: e(2))+
  show "rp_name p = N (to_git_url (rp_address p))" using url_to_name_unique(1) [OF assms(1) inv e(1)] by (simp add: e(2))
qed

lemma plan_urls_distinct:
  assumes "honest w N" "dependency_closed w U" "finite U" "\<forall>req \<in> set reqs. to_git_url (req_address req) \<in> U"
    and "resolve_requests w reqs = Ok plan" "distinct (map rp_name plan)"
  shows "distinct (map (\<lambda>p. to_git_url (rp_address p)) plan)"
proof -
  have eq: "map rp_name plan = map N (map (\<lambda>p. to_git_url (rp_address p)) plan)" using plan_manifests(5) [OF assms(1-5)] by simp
  have "distinct (map N (map (\<lambda>p. to_git_url (rp_address p)) plan))" using assms(6) unfolding eq .
  then show ?thesis by (simp only: distinct_map)
qed

lemma plan_requests:
  assumes "honest w N" "dependency_closed w U" "finite U" "\<forall>req \<in> set reqs. to_git_url (req_address req) \<in> U"
    and "resolve_requests w reqs = Ok plan" "req \<in> set reqs"
  shows "\<exists>p \<in> set plan. rp_address p = req_address req \<and> rp_top_level_pin p = Some (req_pin req) \<and>
    (\<forall>q. req_pin req = PinVersion q \<longrightarrow> w_matches w q (rp_version p))"
proof -
  obtain st order where r: "resolved w N U True reqs st order plan" by (rule resolve_ok [OF assms(1-5)])
  have settled: "\<And>n. entry_settled w n st" and kept: "\<forall>req \<in> set reqs. request_kept req st" using r by (auto simp: resolved_def)
  obtain n e where e: "fmlookup (rs_chosen st) n = Some e" "ce_address e = req_address req" "ce_top_level_pin e = Some (req_pin req)"
      "\<forall>q. req_pin req = PinVersion q \<longrightarrow> (TopLevel, q) \<in> set (constraints_on n st)"
    using bspec [OF kept assms(6)] unfolding request_kept_def by blast
  have "\<forall>q. req_pin req = PinVersion q \<longrightarrow> w_matches w q (ce_version e)"
    using settled [of n] e by (auto simp: entry_settled_def fixed_pin_def)
  then show ?thesis using e(2,3) by (intro bexI [OF _ plan_of_chosen [OF r e(1)]]) simp
qed

end
