(* ===== verification/Resolver_Properties.thy ===== *)
theory Resolver_Properties
  imports Resolver_Outcome "HOL-Library.Code_Target_Nat"
begin

text \<open>
  The properties of the dependency resolver, \<^verbatim>\<open>src/src/packages/resolver.rs\<close>, and small worlds to apply them to:
  versions are numbers, a requirement is an interval, and a file holds the index of its manifest.
\<close>

section \<open>Small worlds\<close>

type_synonym sample_manifest = "(nat, nat \<times> nat) package_manifest"

definition sample_manifest :: "string \<Rightarrow> nat \<Rightarrow> (string \<times> nat \<times> nat) list \<Rightarrow> (string \<times> nat \<times> nat) list \<Rightarrow> sample_manifest" where
  "sample_manifest name version deps conflicts =
     \<lparr>mf_name = name, mf_version = version, mf_summary = [], mf_pmacs_required = (0, 100),
      mf_dependencies = map (\<lambda>(a, r). \<lparr>dep_address = a, dep_version = r\<rparr>) deps,
      mf_conflicts = map (\<lambda>(a, r). \<lparr>dep_address = a, dep_version = r\<rparr>) conflicts, mf_entry = ''init.lua'', mf_exports = []\<rparr>"

text \<open>A row is a URL, a tag and the manifest at that tag.\<close>

type_synonym sample_row = "string \<times> string \<times> sample_manifest"

definition sample_world :: "sample_row list \<Rightarrow> (nat, nat \<times> nat, unit, unit) package_world" where
  "sample_world rows =
     \<lparr>w_running = 1, w_matches = (\<lambda>(lo, hi) v. lo \<le> v \<and> v \<le> hi), w_star = (0, 1000), w_parse_version = parse_usize,
      w_fetch = (\<lambda>u. if list_ex (\<lambda>(url, _). url = u) rows then Inr u else Inl ()),
      w_list_tags = (\<lambda>r. Inr (map (\<lambda>(_, tag, _). tag) (filter (\<lambda>(url, _). url = r) rows))),
      w_resolve = (\<lambda>_ _. Inl ()),
      w_show_blob = (\<lambda>r c f. case position_of (\<lambda>(url, tag, _). url = r \<and> tag = c) rows of None \<Rightarrow> Inl () | Some i \<Rightarrow> Inr [of_nat i]),
      w_toml = (\<lambda>s. case s of [i] \<Rightarrow> if i < length rows then Inr (snd (snd (rows ! i))) else Inl () | _ \<Rightarrow> Inl ())\<rparr>"

definition sample_request :: "string \<Rightarrow> nat \<Rightarrow> nat \<Rightarrow> (nat \<times> nat) resolve_request" where
  "sample_request url lo hi = \<lparr>req_address = Url url, req_pin = PinVersion (lo, hi)\<rparr>"

text \<open>\<open>a\<close> needs \<open>b\<close>: its first version the first version of \<open>b\<close>, its second the second.\<close>

definition two_packages :: "sample_row list" where
  "two_packages =
     [(''https://a'', ''1'', sample_manifest ''a'' 1 [(''https://b'', 1, 1)] []),
      (''https://a'', ''2'', sample_manifest ''a'' 2 [(''https://b'', 2, 2)] [(''https://b'', 0, 1)]),
      (''https://b'', ''1'', sample_manifest ''b'' 1 [] []),
      (''https://b'', ''2'', sample_manifest ''b'' 2 [] [])]"

definition two_names :: "string \<Rightarrow> string" where
  "two_names url = (if url = ''https://a'' then ''a'' else ''b'')"

abbreviation two_urls :: "string set" where
  "two_urls \<equiv> {''https://a'', ''https://b''}"

definition two_requests :: "(nat \<times> nat) resolve_request list" where
  "two_requests = [sample_request ''https://a'' 1 2, sample_request ''https://b'' 0 9]"

definition two_plan :: "(nat, nat \<times> nat) resolved_package list" where
  "two_plan =
     [\<lparr>rp_name = ''b'', rp_address = Url ''https://b'', rp_revision = ''2'', rp_version = 2,
       rp_manifest = sample_manifest ''b'' 2 [] [], rp_top_level_pin = Some (PinVersion (0, 9))\<rparr>,
      \<lparr>rp_name = ''a'', rp_address = Url ''https://a'', rp_revision = ''2'', rp_version = 2,
       rp_manifest = sample_manifest ''a'' 2 [(''https://b'', 2, 2)] [(''https://b'', 0, 1)], rp_top_level_pin = Some (PinVersion (1, 2))\<rparr>]"

lemma two_resolve: "resolve_requests (sample_world two_packages) two_requests = Ok two_plan"
  by code_simp

lemma two_fetch: "w_fetch (sample_world two_packages) url = Inr repo \<longleftrightarrow> url \<in> two_urls \<and> repo = url"
  by (auto simp: sample_world_def two_packages_def)

lemma two_rows_ok:
  "list_all (\<lambda>(url, tag, m). manifest_at (sample_world two_packages) url url tag = Ok m) two_packages"
  by code_simp

lemma two_manifest:
  assumes "manifest_at (sample_world two_packages) url url commit = Ok m"
  shows "(url, commit, m) \<in> set two_packages"
proof -
  have "position_of (\<lambda>(u, tag, _). u = url \<and> tag = commit) two_packages \<noteq> None"
    using assms by (cases "position_of (\<lambda>(u, tag, _). u = url \<and> tag = commit) two_packages") (auto simp: manifest_at_def sample_world_def map_err_def)
  then obtain m' where m': "(url, commit, m') \<in> set two_packages" by (auto simp: two_packages_def position_of_def split: if_splits)
  then have "manifest_at (sample_world two_packages) url url commit = Ok m'" using two_rows_ok by (auto simp: list_all_iff)
  then show ?thesis using assms m' by simp
qed

lemma two_published:
  "url \<in> two_urls \<Longrightarrow> published (sample_world two_packages) url = [\<lparr>tc_tag = ''2'', tc_version = 2\<rparr>, \<lparr>tc_tag = ''1'', tc_version = 1\<rparr>]"
proof (elim insertE emptyE)
  show "published (sample_world two_packages) url = [\<lparr>tc_tag = ''2'', tc_version = 2\<rparr>, \<lparr>tc_tag = ''1'', tc_version = 1\<rparr>]"
    if "url = ''https://a''" unfolding that by code_simp
  show "published (sample_world two_packages) url = [\<lparr>tc_tag = ''2'', tc_version = 2\<rparr>, \<lparr>tc_tag = ''1'', tc_version = 1\<rparr>]"
    if "url = ''https://b''" unfolding that by code_simp
qed

lemma two_honest: "honest (sample_world two_packages) two_names"
proof -
  have "mf_name m = two_names url" if "manifest_at (sample_world two_packages) url url commit = Ok m" for url commit m
    using two_manifest [OF that] by (auto simp: two_packages_def sample_manifest_def two_names_def)
  moreover have "mf_version m = tc_version c"
    if "url \<in> two_urls" "c \<in> set (published (sample_world two_packages) url)" "manifest_at (sample_world two_packages) url url (tc_tag c) = Ok m"
    for url c m
    using two_manifest [OF that(3)] that(2) unfolding two_published [OF that(1)]
    by (auto simp: two_packages_def sample_manifest_def)
  ultimately show ?thesis unfolding honest_def two_fetch by blast
qed

lemma two_parse: "address_parse ''https://b'' = Inr (Url ''https://b'')"
  by code_simp

lemma two_closed: "dependency_closed (sample_world two_packages) two_urls"
  unfolding dependency_closed_def two_fetch
  using two_manifest by (fastforce simp: two_packages_def sample_manifest_def two_parse to_git_url_def)

lemma two_names_inj: "inj_on two_names two_urls"
  by (simp add: two_names_def)

lemma two_inside: "\<forall>req \<in> set two_requests. to_git_url (req_address req) \<in> two_urls"
  by (simp add: two_requests_def sample_request_def to_git_url_def)

section \<open>Returning\<close>

text \<open>
  C36. Resolving returns. For repositories that keep one name and whose tags spell the version of their manifest, and a
  finite set of repositories closed under dependencies that holds those requested, \<^verbatim>\<open>resolve\<close> neither panics nor loops,
  with or without preferred versions, whatever git, the manifests and the requirements are.
\<close>

theorem resolve_returns:
  assumes "honest w N" "dependency_closed w U" "finite U" "\<forall>req \<in> set reqs. to_git_url (req_address req) \<in> U"
  shows "resolve_from w reqs (resolver_state_new\<lparr>rs_prefer_versions := p\<rparr>) \<noteq> None \<and> resolve_requests w reqs \<noteq> None"
  unfolding resolve_as_resolve_from using settles_returns [OF settles_resolve_from [OF assms]] by blast

theorem resolve_returns_witness:
  "resolve_from (sample_world two_packages) two_requests
     (resolver_state_new\<lparr>rs_prefer_versions := fmap_of_list [(''https://b'', 1)]\<rparr>) \<noteq> None \<and>
   resolve_requests (sample_world two_packages) two_requests \<noteq> None"
  by (rule resolve_returns [OF two_honest two_closed _ two_inside]) simp

section \<open>A plan can be installed\<close>

text \<open>
  C35. A plan from a fresh resolve can be installed in its order: packages have distinct names and distinct base names,
  and every dependency a manifest of the plan declares is a package earlier in the plan, in a version that satisfies the
  requirement. This needs repositories that keep one name at every revision, no two of the same name; tags that spell the
  version their manifest declares; and a finite set of repositories closed under dependencies that holds those requested.
  \<open>shared_name_breaks_plan\<close> and \<open>mislabelled_tag_breaks_plan\<close> below show the first two conditions are needed.
\<close>

theorem resolve_dependencies_met:
  assumes "honest w N" "inj_on N U" "dependency_closed w U" "finite U" "\<forall>req \<in> set reqs. to_git_url (req_address req) \<in> U"
    and "resolve_requests w reqs = Ok plan"
  shows "distinct (map rp_name plan) \<and> distinct (map (package_basename \<circ> rp_name) plan) \<and>
    (\<forall>xs p ys. plan = xs @ p # ys \<longrightarrow>
       (\<forall>dep \<in> set (mf_dependencies (rp_manifest p)). \<exists>a. \<exists>q \<in> set xs.
          address_parse (dep_address dep) = Inr a \<and> to_git_url (rp_address q) = to_git_url a \<and> w_matches w (dep_version dep) (rp_version q)))"
  by (rule plan_dependencies_met [OF assms])

theorem resolve_dependencies_met_witness:
  "\<exists>q \<in> set [hd two_plan]. to_git_url (rp_address q) = ''https://b'' \<and> w_matches (sample_world two_packages) (2, 2) (rp_version q)"
proof -
  have split: "two_plan = [hd two_plan] @ two_plan ! 1 # []" by (simp add: two_plan_def)
  have dep: "\<lparr>dep_address = ''https://b'', dep_version = (2, 2)\<rparr> \<in> set (mf_dependencies (rp_manifest (two_plan ! 1)))"
    by (simp add: two_plan_def sample_manifest_def)
  show ?thesis
    using resolve_dependencies_met [OF two_honest two_names_inj two_closed _ two_inside two_resolve, THEN conjunct2, THEN conjunct2,
        rule_format, OF _ split dep] two_parse
    by (auto simp: to_git_url_def)
qed

text \<open>
  C37. A plan is consistent: each package is the manifest read at its revision, under the name and the version that
  manifest declares and for the running version of the editor; no package meets a conflict another declares for its
  repository, however the conflict spells the address; and every request is in the plan, at its address, under its pin and
  in a version it admits. This needs repositories that keep one name at every revision, tags that spell the version their
  manifest declares, and a finite set of repositories closed under dependencies that holds those requested.
\<close>

theorem resolve_plan_consistent:
  assumes "honest w N" "dependency_closed w U" "finite U" "\<forall>req \<in> set reqs. to_git_url (req_address req) \<in> U"
    and "resolve_requests w reqs = Ok plan"
  shows "(\<forall>p \<in> set plan. \<exists>repo. w_fetch w (to_git_url (rp_address p)) = Inr repo \<and>
       manifest_at w (to_git_url (rp_address p)) repo (rp_revision p) = Ok (rp_manifest p) \<and>
       rp_name p = mf_name (rp_manifest p) \<and> rp_version p = mf_version (rp_manifest p) \<and>
       w_matches w (mf_pmacs_required (rp_manifest p)) (w_running w)) \<and>
    (\<forall>p \<in> set plan. \<forall>q \<in> set plan. \<forall>c \<in> set (mf_conflicts (rp_manifest p)).
       \<forall>a. address_parse (dep_address c) = Inr a \<longrightarrow> to_git_url (rp_address q) = to_git_url a \<longrightarrow>
          \<not> w_matches w (dep_version c) (rp_version q)) \<and>
    (\<forall>req \<in> set reqs. \<exists>p \<in> set plan. rp_address p = req_address req \<and> rp_top_level_pin p = Some (req_pin req) \<and>
       (\<forall>q. req_pin req = PinVersion q \<longrightarrow> w_matches w q (rp_version p)))"
proof (intro conjI ballI allI impI)
  obtain st order where r: "resolved w N U True reqs st order plan" by (rule resolve_ok [OF assms])
  have inv: "rinv w N U {} st" and none: "\<forall>decl \<in> set (rs_conflicts st). conflict_with w (rs_chosen st) decl = None"
    using r by (auto simp: resolved_def)
  show "\<exists>repo. w_fetch w (to_git_url (rp_address p)) = Inr repo \<and>
       manifest_at w (to_git_url (rp_address p)) repo (rp_revision p) = Ok (rp_manifest p) \<and>
       rp_name p = mf_name (rp_manifest p) \<and> rp_version p = mf_version (rp_manifest p) \<and>
       w_matches w (mf_pmacs_required (rp_manifest p)) (w_running w)" if "p \<in> set plan" for p
    using plan_manifests [OF assms that] by simp
  show "\<not> w_matches w (dep_version c) (rp_version q)"
    if pq: "p \<in> set plan" "q \<in> set plan" "c \<in> set (mf_conflicts (rp_manifest p))" "address_parse (dep_address c) = Inr a"
      "to_git_url (rp_address q) = to_git_url a" for p q c a
  proof -
    obtain n e where e: "fmlookup (rs_chosen st) n = Some e" "p = package_of n e" by (rule plan_of_entry [OF r pq(1)])
    obtain k t where t: "fmlookup (rs_chosen st) k = Some t" "q = package_of k t" by (rule plan_of_entry [OF r pq(2)])
    show ?thesis using no_conflict [OF assms(1) inv none e(1) t(1)] pq(3-5) by (simp add: e(2) t(2))
  qed
qed (rule plan_requests [OF assms])

theorem resolve_plan_consistent_witness:
  "\<exists>p \<in> set two_plan. rp_address p = Url ''https://b'' \<and> w_matches (sample_world two_packages) (0, 9) (rp_version p)"
proof -
  have req: "sample_request ''https://b'' 0 9 \<in> set two_requests" by (simp add: two_requests_def)
  have "finite two_urls" by simp
  note plan = resolve_plan_consistent [OF two_honest two_closed this two_inside two_resolve, THEN conjunct2, THEN conjunct2]
  show ?thesis using bspec [OF plan req] unfolding sample_request_def resolve_request.select_convs by blast
qed

section \<open>Plans outside these conditions\<close>

text \<open>
  Two repositories whose manifests declare one name: the plan holds one of them, and the dependency on the other is met by
  no package. A tag whose manifest declares another version: the tag is chosen for the version it spells, and the plan
  holds a package in a version its own request excludes.
\<close>

definition plan_packages :: "('e, (nat, nat \<times> nat) resolved_package list) outcome \<Rightarrow> (string \<times> address \<times> nat) list" where
  "plan_packages result = (case result of Some (Inr plan) \<Rightarrow> map (\<lambda>p. (rp_name p, rp_address p, rp_version p)) plan | _ \<Rightarrow> [])"

lemma shared_name_breaks_plan:
  "plan_packages (resolve_requests
     (sample_world [(''https://a'', ''1'', sample_manifest ''a'' 1 [(''https://b'', 1, 1)] []),
        (''https://b'', ''1'', sample_manifest ''c'' 1 [] []), (''https://c'', ''1'', sample_manifest ''c'' 1 [] [])])
     [sample_request ''https://a'' 0 9, sample_request ''https://c'' 0 9]) =
   [(''a'', Url ''https://a'', 1), (''c'', Url ''https://c'', 1)]"
  by code_simp

lemma mislabelled_tag_breaks_plan:
  "plan_packages (resolve_requests (sample_world [(''https://b'', ''3'', sample_manifest ''b'' 1 [] [])])
     [sample_request ''https://b'' 2 9]) = [(''b'', Url ''https://b'', 1)]"
  by code_simp

section \<open>Cycles\<close>

text \<open>
  C38. Turning a resolved state into a plan never panics, and it reports a dependency cycle exactly when the chosen
  packages have one: when their dependencies, seen through the URLs that are chosen, are not acyclic.
\<close>

theorem plan_cycle_iff:
  fixes st :: "('v, 'q) resolver_state"
  shows "(into_plan st :: ('v, 'q, 'f, 'm, ('v, 'q) resolved_package list) resolving) \<noteq> None \<and>
    ((\<exists>names. (into_plan st :: ('v, 'q, 'f, 'm, ('v, 'q) resolved_package list) resolving) = Err (DependencyCycle names)) =
     (\<not> acyclic {(d, y). \<exists>e. fmlookup (rs_chosen st) y = Some e \<and>
        (\<exists>dep \<in> set (mf_dependencies (ce_manifest e)). \<exists>a. address_parse (dep_address dep) = Inr a \<and>
           fmlookup (url_to_name (rs_chosen st)) (to_git_url a) = Some d)}))"
proof (rule into_plan_cases [where st = st and 'f = 'f and 'm = 'm], goal_cases)
  case (1 order)
  have "depends (graph_nodes (deps_of (rs_chosen st))) (graph_deps (deps_of (rs_chosen st))) =
      {(d, y). \<exists>e. fmlookup (rs_chosen st) y = Some e \<and>
        (\<exists>dep \<in> set (mf_dependencies (ce_manifest e)). \<exists>a. address_parse (dep_address dep) = Inr a \<and>
           fmlookup (url_to_name (rs_chosen st)) (to_git_url a) = Some d)}"
    by (auto simp: depends_def deps_of_nodes fmlookup_dom_iff deps_of_deps) blast
  then show ?case using 1(3) unfolding 1(4) by (auto split: option.split)
qed

section \<open>Where resolving goes wrong\<close>

text \<open>The packages of before without the first version of \<open>a\<close>, and the plan with version 1 of \<open>b\<close> preferred.\<close>

definition preferred_plan :: "(nat, nat \<times> nat) resolved_package list" where
  "preferred_plan =
     [\<lparr>rp_name = ''b'', rp_address = Url ''https://b'', rp_revision = ''1'', rp_version = 1,
       rp_manifest = sample_manifest ''b'' 1 [] [], rp_top_level_pin = Some (PinVersion (0, 9))\<rparr>,
      \<lparr>rp_name = ''a'', rp_address = Url ''https://a'', rp_revision = ''2'', rp_version = 2,
       rp_manifest = sample_manifest ''a'' 2 [(''https://b'', 2, 2)] [], rp_top_level_pin = Some (PinVersion (1, 2))\<rparr>]"

definition two_plain :: "sample_row list" where
  "two_plain =
     [(''https://a'', ''2'', sample_manifest ''a'' 2 [(''https://b'', 2, 2)] []),
      (''https://b'', ''1'', sample_manifest ''b'' 1 [] []),
      (''https://b'', ''2'', sample_manifest ''b'' 2 [] [])]"

text \<open>
  With a preferred version the plan may break a requirement. \<^verbatim>\<open>a\<close> in version 2 needs version 2 of \<^verbatim>\<open>b\<close>; with
  version 1 of \<^verbatim>\<open>b\<close> preferred, as after an update of \<^verbatim>\<open>a\<close> alone, the pick for the constraint of \<^verbatim>\<open>a\<close> is higher than the
  version chosen, which \<^verbatim>\<open>recheck_chosen\<close> takes for no change: the plan holds version 1, though a fresh resolve of the
  same requests succeeds.
\<close>

theorem preference_breaks_requirement:
  "resolve_from (sample_world two_plain) two_requests
     (resolver_state_new\<lparr>rs_prefer_versions := fmap_of_list [(''https://b'', 1)]\<rparr>) = Ok preferred_plan \<and>
   \<not> w_matches (sample_world two_plain) (2, 2) (rp_version (hd preferred_plan)) \<and>
   map rp_version (case resolve_requests (sample_world two_plain) two_requests of Some (Inr plan) \<Rightarrow> plan | _ \<Rightarrow> []) = [2, 2]"
proof (intro conjI)
  show "resolve_from (sample_world two_plain) two_requests
     (resolver_state_new\<lparr>rs_prefer_versions := fmap_of_list [(''https://b'', 1)]\<rparr>) = Ok preferred_plan" by code_simp
  show "\<not> w_matches (sample_world two_plain) (2, 2) (rp_version (hd preferred_plan))" by (simp add: preferred_plan_def sample_world_def)
  show "map rp_version (case resolve_requests (sample_world two_plain) two_requests of Some (Inr plan) \<Rightarrow> plan | _ \<Rightarrow> []) = [2, 2]" by code_simp
qed

text \<open>A repository whose only tag is 2 and whose manifest there declares version 3.\<close>

definition mislabelled :: "sample_row list" where
  "mislabelled = [(''https://c'', ''2'', sample_manifest ''c'' 3 [] [])]"

definition mislabelled_entry :: "(nat, nat \<times> nat) chosen_entry" where
  "mislabelled_entry =
     \<lparr>ce_address = Url ''https://c'', ce_commit = ''2'', ce_version = 3, ce_manifest = sample_manifest ''c'' 3 [] [],
      ce_top_level_pin = Some (PinVersion (0, 9))\<rparr>"

definition mislabelled_state :: "(nat, nat \<times> nat) resolver_state" where
  "mislabelled_state =
     \<lparr>rs_chosen = fmap_of_list [(''c'', mislabelled_entry)], rs_constraints = fmap_of_list [(''c'', [(TopLevel, (0, 9))])],
      rs_conflicts = [], rs_repo_paths = fmap_of_list [(''https://c'', ''https://c'')],
      rs_manifests = fmap_of_list [((''https://c'', ''2''), sample_manifest ''c'' 3 [] [])], rs_pending = [],
      rs_prefer_versions = fmap_of_list []\<rparr>"

lemma mislabelled_added:
  "add_requests (sample_world mislabelled) [sample_request ''https://c'' 0 9] resolver_state_new = Ok mislabelled_state"
  by code_simp

lemma mislabelled_drained: "drain_pending (sample_world mislabelled) mislabelled_state = Ok mislabelled_state"
  by code_simp

lemma mislabelled_again:
  "recheck_all (sample_world mislabelled) (keys_of (rs_chosen mislabelled_state)) False mislabelled_state = Ok (True, mislabelled_state)"
  by code_simp

lemma mislabelled_loops: "iterate_to_fixpoint (sample_world mislabelled) mislabelled_state = None"
proof -
  have "w \<noteq> sample_world mislabelled \<or> st \<noteq> mislabelled_state" if r: "iterate_to_fixpoint w st = Some r" for w st r
  proof (rule iterate_to_fixpoint.raw_induct [where P = "\<lambda>w st _. w \<noteq> sample_world mislabelled \<or> st \<noteq> mislabelled_state", OF _ r])
    fix iterate w st r
    assume IH: "\<And>w st r. iterate w st = Some r \<Longrightarrow> w \<noteq> sample_world mislabelled \<or> st \<noteq> mislabelled_state"
      and turn: "try_bind (drain_pending w st) (\<lambda>st1.
        try_bind (recheck_all w (keys_of (rs_chosen st1)) False st1) (\<lambda>(changed, st2).
          if \<not> changed \<and> rs_pending st2 = [] then Ok st2 else iterate w st2)) = Some r"
    show "w \<noteq> sample_world mislabelled \<or> st \<noteq> mislabelled_state"
    proof (rule ccontr)
      assume "\<not> (w \<noteq> sample_world mislabelled \<or> st \<noteq> mislabelled_state)"
      then have eq: "w = sample_world mislabelled" "st = mislabelled_state" by simp_all
      have "iterate (sample_world mislabelled) mislabelled_state = Some r"
        using turn unfolding eq mislabelled_drained try_bind_simps mislabelled_again prod.case by simp
      then show False using IH by blast
    qed
  qed
  then show ?thesis by (cases "iterate_to_fixpoint (sample_world mislabelled) mislabelled_state") auto
qed

text \<open>
  A tag below the version of its manifest makes resolving run for ever: with one repository whose only tag is 2 and
  whose manifest there declares version 3, the recheck picks the tag, finds it lower than the version chosen, records the
  same choice again and asks for another round.
\<close>

theorem resolve_may_not_return:
  "resolve_requests (sample_world mislabelled) [sample_request ''https://c'' 0 9] = None"
  unfolding resolve_requests_def resolve_from_def mislabelled_added try_bind_simps mislabelled_loops ..

end
