(* ===== verification/Package_Lockfile.thy ===== *)
theory Package_Lockfile
  imports Package_Resolver
begin

text \<open>
  The lockfile, \<^verbatim>\<open>src/src/packages/lockfile.rs\<close>, and the resolving that uses it, \<^verbatim>\<open>Resolver::resolve_with_policy\<close>.
  Strings are the bytes of their text. SHA-256, \<^verbatim>\<open>git archive\<close>, the text form of requirements and the derived TOML form
  of a lockfile lie outside the repository: they are the record \<open>lock_world\<close>.
\<close>

section \<open>Data\<close>

datatype lockfile_pin = LockVersion string | LockBranch string | LockCommit string

record content_hash =
  ch_algorithm :: string
  ch_hex :: string

record 'v lockfile_entry =
  le_name :: string
  le_url :: string
  le_commit :: string
  le_version :: 'v
  le_content_hash :: content_hash
  le_top_level_pin :: "lockfile_pin option"
  le_dependencies :: "string list"

record 'v lockfile =
  lf_schema_version :: "32 word"
  lf_generator :: string
  lf_packages :: "'v lockfile_entry list"

datatype update_policy = Frozen | UpdateAll | UpdateOne string

datatype ('f, 'm, 't) lockfile_error =
  LockNotUtf8
| LockParse 't
| LockSerialize 't
| SchemaVersion "32 word" "32 word"
| MalformedContentHash string string
| InvalidVersionConstraint string string
| LockFetch string 'f
| ContentHashMismatch string string string content_hash content_hash
| LockManifest string string "'m manifest_error"
| LockManifestNotUtf8 string string
| LockDependencyCycle "string list"
| UpdateOneMissing string
| LockBasenameCollision string "string list"

record ('v, 'q, 'f, 'm, 't) lock_world =
  lw_packages :: "('v, 'q, 'f, 'm) package_world"
  lw_archive :: "string \<Rightarrow> string \<Rightarrow> 'f + byte list"
  lw_sha256 :: "byte list \<Rightarrow> byte list"
  lw_show_req :: "'q \<Rightarrow> string"
  lw_parse_req :: "string \<Rightarrow> string + 'q"
  lw_editor_version :: string
  lw_to_toml :: "'v lockfile \<Rightarrow> 't + ustring"
  lw_from_toml :: "ustring \<Rightarrow> 't + 'v lockfile"

type_synonym ('f, 'm, 't, 'a) locking = "(('f, 'm, 't) lockfile_error, 'a) outcome"

definition LOCKFILE_SCHEMA_VERSION :: "32 word" where
  "LOCKFILE_SCHEMA_VERSION = 1"

section \<open>Pins\<close>

definition from_install_pin :: "('v, 'q, 'f, 'm, 't) lock_world \<Rightarrow> 'q install_pin \<Rightarrow> lockfile_pin option" where
  "from_install_pin lw pin =
     (case pin of
        PinVersion req \<Rightarrow> Some (LockVersion (lw_show_req lw req))
      | PinBranch b \<Rightarrow> Some (LockBranch b)
      | PinCommit c \<Rightarrow> Some (LockCommit c)
      | PinLocal _ \<Rightarrow> None)"

definition to_install_pin :: "('v, 'q, 'f, 'm, 't) lock_world \<Rightarrow> lockfile_pin \<Rightarrow> ('f, 'm, 't, 'q install_pin) locking" where
  "to_install_pin lw pin =
     (case pin of
        LockVersion s \<Rightarrow> try_bind (map_err (InvalidVersionConstraint s) (lw_parse_req lw s)) (\<lambda>req. Ok (PinVersion req))
      | LockBranch b \<Rightarrow> Ok (PinBranch b)
      | LockCommit c \<Rightarrow> Ok (PinCommit c))"

section \<open>Content hashes\<close>

definition HEX :: string where
  "HEX = ''0123456789abcdef''"

definition hex_encode :: "byte list \<Rightarrow> string" where
  "hex_encode bs = concat (map (\<lambda>b. [HEX ! unat (drop_bit 4 b), HEX ! unat (take_bit 4 b)]) bs)"

definition sha256_of :: "('v, 'q, 'f, 'm, 't) lock_world \<Rightarrow> byte list \<Rightarrow> content_hash" where
  "sha256_of lw bytes = \<lparr>ch_algorithm = ''sha256'', ch_hex = hex_encode (lw_sha256 lw bytes)\<rparr>"

definition to_wire_string :: "content_hash \<Rightarrow> string" where
  "to_wire_string h = ch_algorithm h @ '':'' @ ch_hex h"

definition is_ascii_hexdigit :: "char \<Rightarrow> bool" where
  "is_ascii_hexdigit c \<longleftrightarrow> c \<in> set ''0123456789abcdefABCDEF''"

definition to_ascii_lowercase :: "char \<Rightarrow> char" where
  "to_ascii_lowercase c = (if is_ascii_uppercase c then char_of (of_char c + (32 :: nat)) else c)"

text \<open>\<^verbatim>\<open>str::split_once\<close>.\<close>

definition split_once :: "char \<Rightarrow> string \<Rightarrow> (string \<times> string) option" where
  "split_once c s = (if c \<in> set s then Some (takeWhile (\<lambda>x. x \<noteq> c) s, tl (dropWhile (\<lambda>x. x \<noteq> c) s)) else None)"

definition content_hash_parse :: "string \<Rightarrow> ('f, 'm, 't) lockfile_error + content_hash" where
  "content_hash_parse s =
     (case split_once (CHR '':'') s of
        None \<Rightarrow> Inl (MalformedContentHash s ''expected `<algorithm>:<hex>`'')
      | Some (algo, hex) \<Rightarrow>
          if algo \<noteq> ''sha256'' then Inl (MalformedContentHash s (''unsupported hash algorithm `'' @ algo @ ''`''))
          else if length hex \<noteq> 64 \<or> \<not> list_all is_ascii_hexdigit hex
          then Inl (MalformedContentHash s ''sha256 hex must be 64 lowercase hex chars'')
          else Inr \<lparr>ch_algorithm = algo, ch_hex = map to_ascii_lowercase hex\<rparr>)"

section \<open>Making a lockfile\<close>

definition plan_url_to_name :: "('v, 'q) resolved_package list \<Rightarrow> (string, string) fmap" where
  "plan_url_to_name plan = fold (\<lambda>rp. fmupd (to_git_url (rp_address rp)) (rp_name rp)) plan fmempty"

definition build_entry ::
    "('v, 'q, 'f, 'm, 't) lock_world \<Rightarrow> (string, string) fmap \<Rightarrow> ('v, 'q) resolved_package \<Rightarrow> ('f, 'm, 't, 'v lockfile_entry) locking" where
  "build_entry lw names rp =
     (let url = to_git_url (rp_address rp); w = lw_packages lw
      in try_bind (map_err (LockFetch url) (w_fetch w url)) (\<lambda>repo.
         try_bind (map_err (LockFetch url) (w_resolve w repo (RefCommit (rp_revision rp)))) (\<lambda>sha.
         try_bind (map_err (LockFetch url) (lw_archive lw repo sha)) (\<lambda>archive.
         Ok \<lparr>le_name = rp_name rp, le_url = url, le_commit = sha, le_version = rp_version rp,
             le_content_hash = sha256_of lw archive,
             le_top_level_pin = Option.bind (rp_top_level_pin rp) (from_install_pin lw),
             le_dependencies = sorted_list_of_fset (dependency_names names (rp_manifest rp))\<rparr>))))"

fun build_entries ::
    "('v, 'q, 'f, 'm, 't) lock_world \<Rightarrow> (string, string) fmap \<Rightarrow> ('v, 'q) resolved_package list \<Rightarrow>
     ('f, 'm, 't, 'v lockfile_entry list) locking" where
  "build_entries lw names [] = Ok []"
| "build_entries lw names (rp # rps) =
     try_bind (build_entry lw names rp) (\<lambda>entry. try_bind (build_entries lw names rps) (\<lambda>entries. Ok (entry # entries)))"

definition from_plan :: "('v, 'q, 'f, 'm, 't) lock_world \<Rightarrow> ('v, 'q) resolved_package list \<Rightarrow> ('f, 'm, 't, 'v lockfile) locking" where
  "from_plan lw plan =
     try_bind (build_entries lw (plan_url_to_name plan) plan) (\<lambda>entries.
       Ok \<lparr>lf_schema_version = LOCKFILE_SCHEMA_VERSION, lf_generator = ''pmacs '' @ lw_editor_version lw,
           lf_packages = sort_key le_name entries\<rparr>)"

definition lock_to_bytes :: "('v, 'q, 'f, 'm, 't) lock_world \<Rightarrow> 'v lockfile \<Rightarrow> ('f, 'm, 't, byte list) locking" where
  "lock_to_bytes lw lock = try_bind (map_err LockSerialize (lw_to_toml lw lock)) (\<lambda>s. Ok (encode_utf8 s))"

definition lock_parse :: "('v, 'q, 'f, 'm, 't) lock_world \<Rightarrow> byte list \<Rightarrow> ('f, 'm, 't, 'v lockfile) locking" where
  "lock_parse lw bytes =
     (case utf8_text bytes of
        None \<Rightarrow> Err LockNotUtf8
      | Some text \<Rightarrow>
          try_bind (map_err LockParse (lw_from_toml lw text)) (\<lambda>lock.
            if lf_schema_version lock \<noteq> LOCKFILE_SCHEMA_VERSION
            then Err (SchemaVersion LOCKFILE_SCHEMA_VERSION (lf_schema_version lock))
            else Ok lock))"

section \<open>Using a lockfile\<close>

definition lock_entry :: "'v lockfile \<Rightarrow> string \<Rightarrow> 'v lockfile_entry option" where
  "lock_entry lock name = find (\<lambda>e. le_name e = name) (lf_packages lock)"

definition entry_by_url :: "'v lockfile \<Rightarrow> string \<Rightarrow> 'v lockfile_entry option" where
  "entry_by_url lock url = find (\<lambda>e. le_url e = url) (lf_packages lock)"

definition verify_entry :: "('v, 'q, 'f, 'm, 't) lock_world \<Rightarrow> 'v lockfile_entry \<Rightarrow> ('f, 'm, 't, unit) locking" where
  "verify_entry lw entry =
     try_bind (map_err (LockFetch (le_url entry)) (w_fetch (lw_packages lw) (le_url entry))) (\<lambda>repo.
     try_bind (map_err (LockFetch (le_url entry)) (lw_archive lw repo (le_commit entry))) (\<lambda>archive.
       let observed = sha256_of lw archive
       in if observed = le_content_hash entry then Ok ()
          else Err (ContentHashMismatch (le_name entry) (le_url entry) (le_commit entry) (le_content_hash entry) observed)))"

subsection \<open>The order of the entries\<close>

definition unmet_counts :: "'v lockfile_entry list \<Rightarrow> (string, nat) fmap" where
  "unmet_counts entries =
     (let names = set (map le_name entries)
      in fold (\<lambda>e. fmupd (le_name e) (length (filter (\<lambda>d. d \<in> names) (le_dependencies e)))) entries fmempty)"

definition entry_dependents :: "'v lockfile_entry list \<Rightarrow> string \<Rightarrow> string list" where
  "entry_dependents entries d =
     (if d \<in> set (map le_name entries)
      then sort (remdups (map le_name (filter (\<lambda>e. d \<in> set (le_dependencies e)) entries))) else [])"

text \<open>The queue takes each batch of ready names in order.\<close>

partial_function (option) queue_loop ::
    "(string \<Rightarrow> string list) \<Rightarrow> (string, nat) fmap \<Rightarrow> string list \<Rightarrow> string list \<Rightarrow> string list option" where
  "queue_loop dependents indegree q order =
     (case q of
        [] \<Rightarrow> Some order
      | x # rest \<Rightarrow>
          (case settle_dependents (dependents x) indegree [] of
             (indegree', ready) \<Rightarrow> queue_loop dependents indegree' (rest @ sort ready) (order @ [x])))"

declare queue_loop.simps [code]

definition topo_sort :: "'v lockfile_entry list \<Rightarrow> ('f, 'm, 't, string list) locking" where
  "topo_sort entries = do {
     let indegree = unmet_counts entries;
     order \<leftarrow> queue_loop (entry_dependents entries) indegree (filter (\<lambda>n. fmlookup indegree n = Some 0) (keys_of indegree)) [];
     (if length order \<noteq> length entries
      then Err (LockDependencyCycle (filter (\<lambda>n. n \<notin> set order) (map le_name entries)))
      else Ok order)
   }"

subsection \<open>The plan of a lockfile\<close>

definition locked_package ::
    "('v, 'q, 'f, 'm, 't) lock_world \<Rightarrow> 'v lockfile_entry \<Rightarrow> ('f, 'm, 't, ('v, 'q) resolved_package) locking" where
  "locked_package lw entry =
     try_bind (verify_entry lw entry) (\<lambda>_.
     try_bind (map_err (LockFetch (le_url entry)) (w_fetch (lw_packages lw) (le_url entry))) (\<lambda>repo.
     try_bind (map_err (LockFetch (le_url entry)) (w_show_blob (lw_packages lw) repo (le_commit entry) ''pmacs.toml'')) (\<lambda>bytes.
     case utf8_text bytes of
       None \<Rightarrow> Err (LockManifestNotUtf8 (le_url entry) (le_commit entry))
     | Some text \<Rightarrow>
         try_bind (map_err (LockManifest (le_url entry) (le_commit entry)) (from_toml (w_toml (lw_packages lw)) text)) (\<lambda>manifest.
         try_bind (case le_top_level_pin entry of None \<Rightarrow> Ok None | Some pin \<Rightarrow> try_bind (to_install_pin lw pin) (\<lambda>p. Ok (Some p))) (\<lambda>pin.
         Ok \<lparr>rp_name = le_name entry, rp_address = Url (le_url entry), rp_revision = le_commit entry,
             rp_version = le_version entry, rp_manifest = manifest, rp_top_level_pin = pin\<rparr>)))))"

fun locked_packages ::
    "('v, 'q, 'f, 'm, 't) lock_world \<Rightarrow> 'v lockfile_entry list \<Rightarrow> ('f, 'm, 't, ('v, 'q) resolved_package list) locking" where
  "locked_packages lw [] = Ok []"
| "locked_packages lw (entry # entries) =
     try_bind (locked_package lw entry) (\<lambda>p. try_bind (locked_packages lw entries) (\<lambda>ps. Ok (p # ps)))"

text \<open>\<^verbatim>\<open>by_name.remove(&name).expect(..)\<close> for each name of the order.\<close>

fun take_by_name :: "string list \<Rightarrow> (string, 'a) fmap \<Rightarrow> 'a list option" where
  "take_by_name [] by_name = Some []"
| "take_by_name (name # names) by_name = do {
     p \<leftarrow> fmlookup by_name name;
     ps \<leftarrow> take_by_name names (fmdrop name by_name);
     Some (p # ps)
   }"

definition to_resolve_plan ::
    "('v, 'q, 'f, 'm, 't) lock_world \<Rightarrow> 'v lockfile \<Rightarrow> ('f, 'm, 't, ('v, 'q) resolved_package list) locking" where
  "to_resolve_plan lw lock =
     (case find_basename_collision (map le_name (lf_packages lock)) of
        Some (basename, names) \<Rightarrow> Err (LockBasenameCollision basename names)
      | None \<Rightarrow>
          try_bind (locked_packages lw (lf_packages lock)) (\<lambda>packages.
          try_bind (topo_sort (lf_packages lock)) (\<lambda>order.
            case take_by_name order (fold (\<lambda>p. fmupd (rp_name p) p) packages fmempty) of
              None \<Rightarrow> Panic
            | Some topo \<Rightarrow> Ok topo)))"

section \<open>Resolving under a policy\<close>

datatype ('v, 'q, 'f, 'm, 't) policy_error =
  Resolving "('v, 'q, 'f, 'm) resolve_error"
| FrozenRequestMissing address
| LockfileRequired
| LockfileFailed "('f, 'm, 't) lockfile_error"

definition with_error :: "('d \<Rightarrow> 'e) \<Rightarrow> ('d, 'a) outcome \<Rightarrow> ('e, 'a) outcome" where
  "with_error f m = (case m of None \<Rightarrow> None | Some r \<Rightarrow> map_err f r)"

definition preferences :: "string \<Rightarrow> 'v lockfile \<Rightarrow> (string, 'v) fmap" where
  "preferences name lock =
     fold (\<lambda>e prefer. if le_name e = name then prefer else fmupd (le_url e) (le_version e) prefer) (lf_packages lock) fmempty"

definition resolve_with_policy ::
    "('v :: linorder, 'q, 'f, 'm, 't) lock_world \<Rightarrow> 'q resolve_request list \<Rightarrow> 'v lockfile option \<Rightarrow> update_policy \<Rightarrow>
     (('v, 'q, 'f, 'm, 't) policy_error, ('v, 'q) resolved_package list) outcome" where
  "resolve_with_policy lw requests lockfile policy =
     (case (policy, lockfile) of
        (UpdateAll, _) \<Rightarrow> with_error Resolving (resolve_requests (lw_packages lw) requests)
      | (Frozen, Some lock) \<Rightarrow>
          (case find (\<lambda>req. entry_by_url lock (to_git_url (req_address req)) = None) requests of
             Some req \<Rightarrow> Err (FrozenRequestMissing (req_address req))
           | None \<Rightarrow> with_error LockfileFailed (to_resolve_plan lw lock))
      | (UpdateOne name, Some lock) \<Rightarrow>
          if lock_entry lock name = None then Err (LockfileFailed (UpdateOneMissing name))
          else with_error Resolving
                 (resolve_from (lw_packages lw) requests (resolver_state_new\<lparr>rs_prefer_versions := preferences name lock\<rparr>))
      | (_, None) \<Rightarrow> Err LockfileRequired)"

end
