(* ===== verification/Lockfile_Order.thy ===== *)
theory Lockfile_Order
  imports Package_Lockfile Resolver_Outcome "HOL-Library.Code_Target_Nat"
begin

text \<open>
  \<^verbatim>\<open>topo_sort\<close> of \<^verbatim>\<open>src/src/packages/lockfile.rs\<close>: the same algorithm as the resolver's over a queue, and content hashes.
\<close>

section \<open>The queue\<close>

definition pop_front :: "string list \<Rightarrow> (string \<times> string list) option" where
  "pop_front q = (case q of [] \<Rightarrow> None | x # rest \<Rightarrow> Some (x, rest))"

definition relax_queue :: "string list \<Rightarrow> (string, nat) fmap \<Rightarrow> string list \<Rightarrow> (string, nat) fmap \<times> string list" where
  "relax_queue xs counts q = (case settle_dependents xs counts [] of (counts', ready) \<Rightarrow> (counts', q @ sort ready))"

lemma relax_queue_parts:
  "fst (relax_queue xs counts q) = fst (settle_dependents xs counts [])"
  "snd (relax_queue xs counts q) = q @ sort (snd (settle_dependents xs counts []))"
  by (simp_all add: relax_queue_def split: prod.split)

interpretation queue: ready_loop "\<lambda>q. q" pop_front relax_queue queue_loop
proof
  show "pop_front q = None \<longleftrightarrow> q = []" for q by (simp add: pop_front_def split: list.split)
  show "x \<in> set q \<and> distinct q' \<and> set q' = set q - {x}" if "pop_front q = Some (x, q')" "distinct q" for q x q'
    using that by (auto simp: pop_front_def split: list.splits)
  show "fst (relax_queue xs counts q) = lowered xs counts" for xs counts q
    by (simp add: relax_queue_parts settle_dependents_counts)
  show "distinct (snd (relax_queue xs counts q)) \<and>
      set (snd (relax_queue xs counts q)) = set q \<union> {x \<in> set xs. fmlookup (lowered xs counts) x = Some 0}"
    if "distinct xs" "distinct q" "set xs \<inter> set q = {}" for xs counts q
    using settle_dependents_ready [OF that(1), of "[]" counts] that(2,3) by (auto simp: relax_queue_parts)
  show "queue_loop dependents counts q order =
      (case pop_front q of None \<Rightarrow> Some order
       | Some (x, q') \<Rightarrow> queue_loop dependents (fst (relax_queue (dependents x) counts q')) (snd (relax_queue (dependents x) counts q')) (order @ [x]))"
    for dependents counts q order
    by (subst queue_loop.simps) (auto simp: pop_front_def relax_queue_def split: list.split prod.split)
qed

section \<open>The graph of the entries\<close>

definition entry_names :: "'v lockfile_entry list \<Rightarrow> string set" where
  "entry_names entries = set (map le_name entries)"

definition entry_deps :: "'v lockfile_entry list \<Rightarrow> string \<Rightarrow> string set" where
  "entry_deps entries y = {d \<in> entry_names entries. \<exists>e \<in> set entries. le_name e = y \<and> d \<in> set (le_dependencies e)}"

lemma fold_fmupd_lookup:
  "distinct (map k xs) \<Longrightarrow> fmlookup (fold (\<lambda>x. fmupd (k x) (v x)) xs m) y = (case find (\<lambda>x. k x = y) xs of Some x \<Rightarrow> Some (v x) | None \<Rightarrow> fmlookup m y)"
proof (induction xs arbitrary: m)
  case (Cons x xs)
  have "\<forall>z \<in> set xs. k z \<noteq> k x" using Cons.prems by (auto simp: image_iff)
  then have "find (\<lambda>z. k z = k x) xs = None" by (simp add: find_None_iff)
  then show ?case using Cons by (auto split: option.split)
qed simp

lemma find_by_key:
  "distinct (map k xs) \<Longrightarrow> x \<in> set xs \<Longrightarrow> find (\<lambda>z. k z = k x) xs = Some x"
  by (induction xs) auto

lemma unmet_counts_lookup:
  assumes "distinct (map le_name entries)" "\<forall>e \<in> set entries. distinct (le_dependencies e)"
  shows "fmlookup (unmet_counts entries) y = (if y \<in> entry_names entries then Some (card (entry_deps entries y)) else None)"
proof (cases "y \<in> entry_names entries")
  case True
  then obtain e where e: "e \<in> set entries" "le_name e = y" by (auto simp: entry_names_def)
  have "entry_deps entries y = set (filter (\<lambda>d. d \<in> entry_names entries) (le_dependencies e))"
    using assms(1) e by (auto simp: entry_deps_def distinct_map inj_on_def)
  moreover have "distinct (filter (\<lambda>d. d \<in> entry_names entries) (le_dependencies e))" using assms(2) e(1) by simp
  ultimately have "card (entry_deps entries y) = length (filter (\<lambda>d. d \<in> entry_names entries) (le_dependencies e))"
    by (simp only: distinct_card)
  then show ?thesis using find_by_key [OF assms(1) e(1)] e(2) True
    by (simp add: unmet_counts_def Let_def fold_fmupd_lookup [OF assms(1)] entry_names_def)
next
  case False
  then have "find (\<lambda>e. le_name e = y) entries = None" by (auto simp: find_None_iff entry_names_def)
  then show ?thesis using False by (simp add: unmet_counts_def Let_def fold_fmupd_lookup [OF assms(1)])
qed

lemma entry_dependents_facts:
  assumes "x \<in> entry_names entries"
  shows "distinct (entry_dependents entries x)"
    "set (entry_dependents entries x) = {y \<in> entry_names entries. x \<in> entry_deps entries y}"
proof -
  show "distinct (entry_dependents entries x)" by (simp add: entry_dependents_def)
  have "y \<in> set (entry_dependents entries x) \<longleftrightarrow> (\<exists>e \<in> set entries. le_name e = y \<and> x \<in> set (le_dependencies e))" for y
    using assms by (auto simp: entry_dependents_def entry_names_def)
  then show "set (entry_dependents entries x) = {y \<in> entry_names entries. x \<in> entry_deps entries y}"
    using assms by (auto simp: entry_names_def entry_deps_def)
qed

lemma topo_sort_correct:
  assumes "distinct (map le_name entries)" "\<forall>e \<in> set entries. distinct (le_dependencies e)"
  shows "\<exists>order. dependency_order (entry_names entries) (entry_deps entries) order \<and>
    (set order = entry_names entries \<longleftrightarrow> acyclic (depends (entry_names entries) (entry_deps entries))) \<and>
    (topo_sort entries :: ('f, 'm, 't, string list) locking) =
      (if set order = entry_names entries then Ok order
       else Err (LockDependencyCycle (filter (\<lambda>n. n \<notin> set order) (map le_name entries))))"
proof -
  let ?K = "entry_names entries" and ?D = "entry_deps entries" and ?counts = "unmet_counts entries"
  let ?ready = "filter (\<lambda>n. fmlookup ?counts n = Some 0) (keys_of ?counts)"
  note lookup = unmet_counts_lookup [OF assms]
  have fin: "finite ?K" by (simp add: entry_names_def)
  have closed: "?D y \<subseteq> ?K" for y by (auto simp: entry_deps_def)
  have "finite (?D y)" for y using closed fin finite_subset by blast
  then have "set ?ready = frontier ?K ?D []" by (auto simp: keys_of_facts fmlookup_dom_iff lookup frontier_def split: if_splits)
  moreover have "counts_for ?K ?D [] ?counts" by (simp add: counts_for_def lookup)
  moreover have "distinct ?ready" by (simp add: keys_of_facts)
  moreover have "distinct (entry_dependents entries x) \<and> set (entry_dependents entries x) = {y \<in> ?K. x \<in> ?D y}" if "x \<in> ?K" for x
    using entry_dependents_facts [OF that] by blast
  ultimately obtain order where o: "queue_loop (entry_dependents entries) ?counts ?ready [] = Some order"
      "dependency_order ?K ?D order" "frontier ?K ?D order = {}"
    using queue.walk_correct [where K = ?K and deps = ?D and dependents = "entry_dependents entries" and order = "[]" and counts = ?counts
        and r = ?ready, OF fin closed] by auto
  have "length order = card (set order)" using o(2) by (simp add: dependency_order_def distinct_card)
  moreover have "length entries = card ?K" using distinct_card [OF assms(1)] by (simp add: entry_names_def)
  moreover have "card (set order) = card ?K \<longleftrightarrow> set order = ?K"
    using o(2) fin card_subset_eq [of ?K "set order"] by (auto simp: dependency_order_def)
  ultimately have "(topo_sort entries :: ('f, 'm, 't, string list) locking) =
      (if set order = ?K then Ok order else Err (LockDependencyCycle (filter (\<lambda>n. n \<notin> set order) (map le_name entries))))"
    using o(1) by (simp add: topo_sort_def Let_def)
  then show ?thesis using o(2) dependency_order_complete [OF fin closed o(2,3)] by blast
qed

section \<open>Content hashes\<close>

lemma HEX_digit: "n < 16 \<Longrightarrow> HEX ! n \<in> set ''0123456789abcdef''"
  unfolding HEX_def by (rule nth_mem) simp

lemma nibbles_less: "unat (drop_bit 4 (b :: byte)) < 16" "unat (take_bit 4 (b :: byte)) < 16"
proof -
  have "unat b < 256" using unsigned_less [of b] by simp
  then show "unat (drop_bit 4 b) < 16" 
    unfolding unsigned_drop_bit_eq by (simp add: drop_bit_eq_div take_bit_eq_mod less_mult_imp_div_less)
  show "unat (take_bit 4 b) < 16" unfolding unsigned_take_bit_eq by (simp add: take_bit_eq_mod)
qed

lemma hex_encode_length: "length (hex_encode bs) = 2 * length bs"
  by (induction bs) (simp_all add: hex_encode_def)

lemma hex_encode_digits: "set (hex_encode bs) \<subseteq> set ''0123456789abcdef''"
proof (induction bs)
  case (Cons b bs)
  note digits = HEX_digit [OF nibbles_less(1) [of b]] HEX_digit [OF nibbles_less(2) [of b]]
  have "hex_encode (b # bs) = HEX ! unat (drop_bit 4 b) # HEX ! unat (take_bit 4 b) # hex_encode bs" by (simp add: hex_encode_def)
  then show ?case using Cons.IH digits by (simp only: list.set(2) insert_subset simp_thms)
qed (simp add: hex_encode_def)

lemma lower_digit: "c \<in> set ''0123456789abcdef'' \<Longrightarrow> is_ascii_hexdigit c \<and> to_ascii_lowercase c = c"
  by (auto simp: is_ascii_hexdigit_def to_ascii_lowercase_def is_ascii_uppercase_def)

lemma lowercase_hexdigits: "list_all (\<lambda>c. to_ascii_lowercase c \<in> set ''0123456789abcdef'') ''0123456789abcdefABCDEF''"
  by code_simp

lemma lowercase_hexdigit: "is_ascii_hexdigit c \<Longrightarrow> to_ascii_lowercase c \<in> set ''0123456789abcdef''"
  using lowercase_hexdigits unfolding is_ascii_hexdigit_def list_all_iff by blast

lemma split_once_first: "c \<notin> set xs \<Longrightarrow> split_once c (xs @ c # ys) = Some (xs, ys)"
proof -
  assume "c \<notin> set xs"
  then have "takeWhile (\<lambda>x. x \<noteq> c) (xs @ c # ys) = xs" "dropWhile (\<lambda>x. x \<noteq> c) (xs @ c # ys) = c # ys"
    by (induction xs) auto
  then show ?thesis by (simp add: split_once_def)
qed

lemma parse_wire:
  assumes "length hex = 64" "set hex \<subseteq> set ''0123456789abcdef''"
  shows "content_hash_parse (to_wire_string \<lparr>ch_algorithm = ''sha256'', ch_hex = hex\<rparr>) = Inr \<lparr>ch_algorithm = ''sha256'', ch_hex = hex\<rparr>"
proof -
  have "split_once (CHR '':'') (''sha256'' @ CHR '':'' # hex) = Some (''sha256'', hex)" by (rule split_once_first) simp
  moreover have "list_all is_ascii_hexdigit hex" "map to_ascii_lowercase hex = hex"
    using assms(2) lower_digit by (auto simp: list_all_iff subset_iff intro: map_idI)
  ultimately show ?thesis using assms(1) by (simp add: content_hash_parse_def to_wire_string_def)
qed

lemma hex_pair_inj:
  assumes "HEX ! unat (drop_bit 4 b) = HEX ! unat (drop_bit 4 c)" "HEX ! unat (take_bit 4 b) = HEX ! unat (take_bit 4 c)"
  shows "b = (c :: byte)"
proof -
  have d: "distinct HEX" "length HEX = 16" by (simp_all add: HEX_def)
  have "unat (drop_bit 4 b) = unat (drop_bit 4 c)" "unat (take_bit 4 b) = unat (take_bit 4 c)"
    using assms nth_eq_iff_index_eq [OF d(1)] nibbles_less [of b] nibbles_less [of c] unfolding d(2) by blast+
  then have "drop_bit 4 b = drop_bit 4 c" "take_bit 4 b = take_bit 4 c" by (simp_all only: word_unat_eq_iff)
  then have "push_bit 4 (drop_bit 4 b) + take_bit 4 b = push_bit 4 (drop_bit 4 c) + take_bit 4 c" by (simp only:)
  then show ?thesis unfolding bits_ident .
qed

lemma hex_encode_inj: "hex_encode bs = hex_encode cs \<longleftrightarrow> bs = cs"
proof (induction bs arbitrary: cs)
  case Nil
  then show ?case by (cases cs) (simp_all add: hex_encode_def)
next
  case (Cons b bs)
  then show ?case by (cases cs) (auto simp: hex_encode_def dest: hex_pair_inj)
qed

end
