(* ===== verification/Lockfile_Roundtrip.thy ===== *)
theory Lockfile_Roundtrip
  imports Lockfile_Order
begin

text \<open>
  A plan, locked and read back: \<^verbatim>\<open>from_plan\<close> and \<^verbatim>\<open>to_resolve_plan\<close> of \<^verbatim>\<open>src/src/packages/lockfile.rs\<close>.
\<close>

section \<open>Plans\<close>

abbreviation plan_url :: "('v, 'q) resolved_package \<Rightarrow> string" where
  "plan_url p \<equiv> to_git_url (rp_address p)"

text \<open>Each package's dependencies are earlier in the plan.\<close>

definition deps_earlier :: "('v, 'q, 'f, 'm) package_world \<Rightarrow> ('v, 'q) resolved_package list \<Rightarrow> bool" where
  "deps_earlier w plan \<longleftrightarrow>
     (\<forall>xs p ys. plan = xs @ p # ys \<longrightarrow>
        (\<forall>dep \<in> set (mf_dependencies (rp_manifest p)). \<exists>a. \<exists>q \<in> set xs.
           address_parse (dep_address dep) = Inr a \<and> plan_url q = to_git_url a \<and> w_matches w (dep_version dep) (rp_version q)))"

definition manifests_read :: "('v, 'q, 'f, 'm) package_world \<Rightarrow> ('v, 'q) resolved_package list \<Rightarrow> bool" where
  "manifests_read w plan \<longleftrightarrow>
     (\<forall>p \<in> set plan. \<exists>repo. w_fetch w (plan_url p) = Inr repo \<and> manifest_at w (plan_url p) repo (rp_revision p) = Ok (rp_manifest p))"

text \<open>
  What is known of git and of the \<^verbatim>\<open>semver\<close> crate: a manifest read at a revision is read alike at the commit the revision
  resolves to (nothing is said of failures), and the text of each requirement the plan is pinned to reads back as that
  requirement.
\<close>

definition lock_laws :: "('v, 'q, 'f, 'm, 't) lock_world \<Rightarrow> ('v, 'q) resolved_package list \<Rightarrow> bool" where
  "lock_laws lw plan \<longleftrightarrow>
     (\<forall>repo rev sha bytes. w_resolve (lw_packages lw) repo (RefCommit rev) = Inr sha \<longrightarrow>
        w_show_blob (lw_packages lw) repo rev ''pmacs.toml'' = Inr bytes \<longrightarrow>
        w_show_blob (lw_packages lw) repo sha ''pmacs.toml'' = Inr bytes) \<and>
     (\<forall>p \<in> set plan. \<forall>req. rp_top_level_pin p = Some (PinVersion req) \<longrightarrow> lw_parse_req lw (lw_show_req lw req) = Inr req)"

text \<open>A package as the lockfile gives it back: by URL, at a commit, without a local pin.\<close>

definition locked_revision :: "('v, 'q, 'f, 'm) package_world \<Rightarrow> ('v, 'q) resolved_package \<Rightarrow> string" where
  "locked_revision w p =
     (case w_fetch w (plan_url p) of
        Inl _ \<Rightarrow> rp_revision p
      | Inr repo \<Rightarrow> (case w_resolve w repo (RefCommit (rp_revision p)) of Inl _ \<Rightarrow> rp_revision p | Inr sha \<Rightarrow> sha))"

definition locked_form :: "('v, 'q, 'f, 'm) package_world \<Rightarrow> ('v, 'q) resolved_package \<Rightarrow> ('v, 'q) resolved_package" where
  "locked_form w p =
     p\<lparr>rp_address := Url (plan_url p), rp_revision := locked_revision w p,
       rp_top_level_pin := (case rp_top_level_pin p of Some (PinLocal _) \<Rightarrow> None | pin \<Rightarrow> pin)\<rparr>"

lemma locked_form_fields [simp]:
  "rp_name (locked_form w p) = rp_name p" "rp_version (locked_form w p) = rp_version p"
  "rp_manifest (locked_form w p) = rp_manifest p" "plan_url (locked_form w p) = plan_url p"
  by (simp_all add: locked_form_def to_git_url_def)

section \<open>Entries\<close>

lemma build_entry_Ok:
  assumes "build_entry lw names p = Ok e"
  obtains repo archive where "w_fetch (lw_packages lw) (plan_url p) = Inr repo"
    "w_resolve (lw_packages lw) repo (RefCommit (rp_revision p)) = Inr (le_commit e)"
    "lw_archive lw repo (le_commit e) = Inr archive" "le_content_hash e = sha256_of lw archive"
    "le_name e = rp_name p" "le_url e = plan_url p" "le_version e = rp_version p"
    "le_top_level_pin e = Option.bind (rp_top_level_pin p) (from_install_pin lw)"
    "le_dependencies e = sorted_list_of_fset (dependency_names names (rp_manifest p))"
  using assms by (auto simp: build_entry_def Let_def try_bind_Ok_iff map_err_Ok_iff)

lemma build_entries_Ok: "build_entries lw names plan = Ok es \<Longrightarrow> list_all2 (\<lambda>p e. build_entry lw names p = Ok e) plan es"
  by (induction plan arbitrary: es) (auto simp: try_bind_Ok_iff)

lemma pin_roundtrip:
  assumes "\<And>req. pin = Some (PinVersion req) \<Longrightarrow> lw_parse_req lw (lw_show_req lw req) = Inr req"
  shows "(case Option.bind pin (from_install_pin lw) of None \<Rightarrow> Ok None | Some p \<Rightarrow> try_bind (to_install_pin lw p) (\<lambda>p. Ok (Some p))) =
    Ok (case pin of Some (PinLocal _) \<Rightarrow> None | pin \<Rightarrow> pin)"
  using assms by (auto simp: from_install_pin_def to_install_pin_def split: option.split install_pin.split)

lemma manifest_at_OkE:
  assumes "manifest_at w url repo commit = Ok m"
  obtains bytes str where "w_show_blob w repo commit ''pmacs.toml'' = Inr bytes" "utf8_text bytes = Some str" "from_toml (w_toml w) str = Inr m"
  using assms by (auto simp: manifest_at_def try_bind_Ok_iff map_err_Ok_iff split: option.splits)

lemma locked_package_built:
  fixes lw :: "('v, 'q, 'f, 'm, 't) lock_world"
  assumes "lock_laws lw plan" "manifests_read (lw_packages lw) plan" "p \<in> set plan" "build_entry lw names p = Ok e"
  shows "locked_package lw e = Ok (locked_form (lw_packages lw) p)"
proof -
  obtain repo archive where b: "w_fetch (lw_packages lw) (plan_url p) = Inr repo"
    "w_resolve (lw_packages lw) repo (RefCommit (rp_revision p)) = Inr (le_commit e)"
    "lw_archive lw repo (le_commit e) = Inr archive" "le_content_hash e = sha256_of lw archive"
    "le_name e = rp_name p" "le_url e = plan_url p" "le_version e = rp_version p"
    "le_top_level_pin e = Option.bind (rp_top_level_pin p) (from_install_pin lw)"
    by (rule build_entry_Ok [OF assms(4)])
  have "manifest_at (lw_packages lw) (plan_url p) repo (rp_revision p) = Ok (rp_manifest p)"
    using assms(2,3) b(1) by (auto simp: manifests_read_def)
  then obtain bytes str where m: "w_show_blob (lw_packages lw) repo (rp_revision p) ''pmacs.toml'' = Inr bytes" "utf8_text bytes = Some str"
      "from_toml (w_toml (lw_packages lw)) str = Inr (rp_manifest p)" by (rule manifest_at_OkE)
  have "w_show_blob (lw_packages lw) repo (le_commit e) ''pmacs.toml'' = Inr bytes" using assms(1) b(2) m(1) unfolding lock_laws_def by blast
  moreover have "(verify_entry lw e :: ('f, 'm, 't, unit) locking) = Ok ()" using b by (simp add: verify_entry_def)
  moreover have "locked_revision (lw_packages lw) p = le_commit e" using b(1,2) by (simp add: locked_revision_def)
  moreover have "lw_parse_req lw (lw_show_req lw req) = Inr req" if "rp_top_level_pin p = Some (PinVersion req)" for req
    using assms(1,3) that by (simp add: lock_laws_def)
  ultimately show ?thesis using b m pin_roundtrip [of "rp_top_level_pin p" lw]
    unfolding locked_package_def locked_form_def by (simp only: b(8) try_bind_simps map_err_simps option.case) (simp add: b)
qed

lemma locked_packages_built:
  "(\<And>e. e \<in> set es \<Longrightarrow> locked_package lw e = Ok (f e)) \<Longrightarrow> locked_packages lw es = Ok (map f es)"
  by (induction es) simp_all

section \<open>The order\<close>

lemma no_basename_collision:
  assumes "distinct (map package_basename names)"
  shows "find_basename_collision names = None"
proof -
  have "length (filter (\<lambda>n. package_basename n = b) names) \<le> 1" for b
    using assms by (induction names) (auto simp: filter_empty_conv, metis imageI)
  then show ?thesis by (auto simp: find_basename_collision_def find_None_iff not_less)
qed

lemma plan_url_to_name_lookup:
  assumes "distinct (map plan_url plan)" "q \<in> set plan"
  shows "fmlookup (plan_url_to_name plan) (plan_url q) = Some (rp_name q)"
  using fold_fmupd_lookup [OF assms(1), of rp_name fmempty "plan_url q"] find_by_key [OF assms]
  by (simp add: plan_url_to_name_def)

lemma list_all2_members:
  assumes "list_all2 P xs ys"
  shows "x \<in> set xs \<Longrightarrow> \<exists>y \<in> set ys. P x y" "y \<in> set ys \<Longrightarrow> \<exists>x \<in> set xs. P x y"
  using assms by (induction rule: list_all2_induct) auto

lemma plan_order:
  assumes "distinct (map rp_name plan)" "distinct (map plan_url plan)" "deps_earlier w plan"
    and built: "list_all2 (\<lambda>p e. build_entry lw (plan_url_to_name plan) p = Ok e) plan es" and perm: "set entries = set es"
  shows "dependency_order (entry_names entries) (entry_deps entries) (map rp_name plan)" "entry_names entries = rp_name ` set plan"
    "\<And>p dep a q. p \<in> set plan \<Longrightarrow> dep \<in> set (mf_dependencies (rp_manifest p)) \<Longrightarrow> address_parse (dep_address dep) = Inr a \<Longrightarrow>
       q \<in> set plan \<Longrightarrow> plan_url q = to_git_url a \<Longrightarrow> rp_name q \<in> entry_deps entries (rp_name p)"
proof -
  have e_of: "\<exists>e \<in> set entries. build_entry lw (plan_url_to_name plan) p = Ok e" if "p \<in> set plan" for p
    using list_all2_members(1) [OF built that] unfolding perm .
  have p_of: "\<exists>p \<in> set plan. build_entry lw (plan_url_to_name plan) p = Ok e" if "e \<in> set entries" for e
    using list_all2_members(2) [OF built] that unfolding perm by blast
  show names: "entry_names entries = rp_name ` set plan"
  proof (intro equalityI subsetI)
    fix n assume "n \<in> entry_names entries"
    then obtain e where "e \<in> set entries" "n = le_name e" by (auto simp: entry_names_def)
    then show "n \<in> rp_name ` set plan" using p_of [of e] by (auto elim!: build_entry_Ok)
  next
    fix n assume "n \<in> rp_name ` set plan"
    then obtain p where "p \<in> set plan" "n = rp_name p" by auto
    then show "n \<in> entry_names entries" using e_of [of p] by (auto simp: entry_names_def image_iff elim!: build_entry_Ok) (metis)
  qed
  have deps: "d \<in> entry_deps entries (rp_name p) \<longleftrightarrow> d \<in> rp_name ` set plan \<and>
      (\<exists>dep \<in> set (mf_dependencies (rp_manifest p)). \<exists>a. address_parse (dep_address dep) = Inr a \<and>
         fmlookup (plan_url_to_name plan) (to_git_url a) = Some d)" if p: "p \<in> set plan" for p d
  proof -
    obtain e where e: "e \<in> set entries" "build_entry lw (plan_url_to_name plan) p = Ok e" using e_of [OF p] by blast
    have unique: "e' = e" if e': "e' \<in> set entries" "le_name e' = rp_name p" for e'
    proof -
      obtain p' where p': "p' \<in> set plan" "build_entry lw (plan_url_to_name plan) p' = Ok e'" using p_of [OF e'(1)] by blast
      have "rp_name p' = rp_name p" using e'(2) by (rule_tac build_entry_Ok [OF p'(2)]) simp
      then have "p' = p" using assms(1) p'(1) p by (auto simp: distinct_map inj_on_def)
      then show "e' = e" using p'(2) e(2) by simp
    qed
    have "le_name e = rp_name p" and "le_dependencies e = sorted_list_of_fset (dependency_names (plan_url_to_name plan) (rp_manifest p))"
      by (rule build_entry_Ok [OF e(2)], assumption)+
    then have "set (le_dependencies e) = fset (dependency_names (plan_url_to_name plan) (rp_manifest p))" "le_name e = rp_name p"
      by (simp_all add: sorted_list_of_fset.rep_eq)
    moreover from this have "(\<exists>e \<in> set entries. le_name e = rp_name p \<and> d \<in> set (le_dependencies e)) \<longleftrightarrow> d \<in> set (le_dependencies e)"
      using e(1) unique by blast
    ultimately have "d \<in> entry_deps entries (rp_name p) \<longleftrightarrow>
        d \<in> rp_name ` set plan \<and> d \<in> fset (dependency_names (plan_url_to_name plan) (rp_manifest p))"
      by (simp add: entry_deps_def names)
    then show ?thesis by (simp add: dependency_names_def fset_of_list.rep_eq set_map_filter right_case_Some)
  qed
  show "rp_name q \<in> entry_deps entries (rp_name p)"
    if "p \<in> set plan" "dep \<in> set (mf_dependencies (rp_manifest p))" "address_parse (dep_address dep) = Inr a" "q \<in> set plan"
      "plan_url q = to_git_url a" for p dep a q
    using plan_url_to_name_lookup [OF assms(2) that(4)] that unfolding deps [OF that(1)] by auto
  show "dependency_order (entry_names entries) (entry_deps entries) (map rp_name plan)"
    unfolding dependency_order_def
  proof (intro conjI allI impI subsetI)
    fix ns n ms d
    assume split: "map rp_name plan = ns @ n # ms" and d: "d \<in> entry_deps entries n"
    obtain xs p ys where p: "plan = xs @ p # ys" "ns = map rp_name xs" "n = rp_name p"
      using split by (auto simp: map_eq_append_conv map_eq_Cons_conv)
    have member: "p \<in> set plan" by (simp add: p(1))
    obtain dep a where dep: "dep \<in> set (mf_dependencies (rp_manifest p))" "address_parse (dep_address dep) = Inr a"
        "fmlookup (plan_url_to_name plan) (to_git_url a) = Some d"
      using d unfolding p(3) deps [OF member] by blast
    obtain q where q: "q \<in> set xs" "plan_url q = to_git_url a"
      using assms(3) p(1) dep(1,2) unfolding deps_earlier_def by (metis sum.inject(2))
    have "fmlookup (plan_url_to_name plan) (plan_url q) = Some (rp_name q)"
      by (rule plan_url_to_name_lookup [OF assms(2)]) (use q(1) p(1) in simp)
    then have "d = rp_name q" using dep(3) q(2) by simp
    then show "d \<in> set ns" using q(1) p(2) by simp
  qed (use assms(1) names in auto)
qed

lemma take_by_name_eq:
  "distinct names \<Longrightarrow> (\<And>n. n \<in> set names \<Longrightarrow> fmlookup m n \<noteq> None) \<Longrightarrow> take_by_name names m = Some (map (\<lambda>n. the (fmlookup m n)) names)"
proof (induction names arbitrary: m)
  case (Cons n names)
  obtain x where x: "fmlookup m n = Some x" using Cons.prems(2) [of n] by auto
  have "take_by_name names (fmdrop n m) = Some (map (\<lambda>k. the (fmlookup (fmdrop n m) k)) names)"
    by (rule Cons.IH) (use Cons.prems in auto)
  also have "map (\<lambda>k. the (fmlookup (fmdrop n m) k)) names = map (\<lambda>k. the (fmlookup m k)) names"
    using Cons.prems(1) by (intro map_cong) auto
  finally show ?case using x by simp
qed simp

section \<open>Locking and reading back\<close>

lemma locked_order_met:
  assumes earlier: "deps_earlier w plan"
    and order: "distinct order" "set order = rp_name ` set plan" "\<And>ns n ms. order = ns @ n # ms \<Longrightarrow> D n \<subseteq> set ns"
    and edge: "\<And>p dep a q. p \<in> set plan \<Longrightarrow> dep \<in> set (mf_dependencies (rp_manifest p)) \<Longrightarrow> address_parse (dep_address dep) = Inr a \<Longrightarrow>
       q \<in> set plan \<Longrightarrow> plan_url q = to_git_url a \<Longrightarrow> rp_name q \<in> D (rp_name p)"
    and g: "\<And>p. p \<in> set plan \<Longrightarrow> g (rp_name p) = locked_form w p"
  shows "deps_earlier w (map g order)"
  unfolding deps_earlier_def
proof (intro allI impI ballI)
  fix xs p' ys dep
  assume split: "map g order = xs @ p' # ys" and dep: "dep \<in> set (mf_dependencies (rp_manifest p'))"
  obtain ns n ms where n: "order = ns @ n # ms" "xs = map g ns" "p' = g n" using split by (auto simp: map_eq_append_conv map_eq_Cons_conv)
  have "n \<in> set order" by (simp add: n(1))
  then obtain p where p: "p \<in> set plan" "n = rp_name p" using order(2) by auto
  have dep': "dep \<in> set (mf_dependencies (rp_manifest p))" using dep g [OF p(1)] p(2) n(3) by simp
  obtain us vs where "plan = us @ p # vs" using p(1) by (metis in_set_conv_decomp)
  then obtain a q where q: "q \<in> set us" "address_parse (dep_address dep) = Inr a" "plan_url q = to_git_url a" "w_matches w (dep_version dep) (rp_version q)"
    using earlier dep' unfolding deps_earlier_def by blast
  have member: "q \<in> set plan" using q(1) \<open>plan = us @ p # vs\<close> by simp
  have "rp_name q \<in> set ns" using edge [OF p(1) dep' q(2) member q(3)] order(3) [OF n(1)] p(2) by blast
  then have "g (rp_name q) \<in> set xs" by (simp add: n(2))
  then have "locked_form w q \<in> set xs" using g [OF member] by simp
  then show "\<exists>a. \<exists>q \<in> set xs. address_parse (dep_address dep) = Inr a \<and> plan_url q = to_git_url a \<and> w_matches w (dep_version dep) (rp_version q)"
    using q(2-4) by (intro exI [where x = a] bexI [where x = "locked_form w q"]) simp_all
qed

lemma lock_roundtrip:
  fixes lw :: "('v, 'q, 'f, 'm, 't) lock_world"
  assumes laws: "lock_laws lw plan" "manifests_read (lw_packages lw) plan"
    and plan: "distinct (map rp_name plan)" "distinct (map plan_url plan)" "distinct (map (package_basename \<circ> rp_name) plan)"
      "deps_earlier (lw_packages lw) plan"
    and lock: "from_plan lw plan = Ok lock"
  shows "\<exists>plan'. (to_resolve_plan lw lock :: ('f, 'm, 't, ('v, 'q) resolved_package list) locking) = Ok plan' \<and>
    set plan' = locked_form (lw_packages lw) ` set plan \<and> distinct (map rp_name plan') \<and> deps_earlier (lw_packages lw) plan'"
proof -
  let ?w = "lw_packages lw" and ?entries = "lf_packages lock"
  obtain es where es: "build_entries lw (plan_url_to_name plan) plan = (Ok es :: ('f, 'm, 't, 'v lockfile_entry list) locking)"
      "?entries = sort_key le_name es"
    using lock by (auto simp: from_plan_def try_bind_Ok_iff)
  note built = build_entries_Ok [OF es(1)]
  have members: "set ?entries = set es" by (simp add: es(2))
  have names_es: "map le_name es = map rp_name plan"
    using built by (induction rule: list_all2_induct) (auto elim: build_entry_Ok)
  have names: "distinct (map le_name ?entries)" "distinct (map package_basename (map le_name ?entries))"
  proof -
    have m: "mset (map le_name ?entries) = mset (map rp_name plan)" by (simp add: es(2) names_es [symmetric])
    show "distinct (map le_name ?entries)" using plan(1) mset_eq_imp_distinct_iff [OF m] by blast
    have "mset (map package_basename (map le_name ?entries)) = mset (map package_basename (map rp_name plan))"
      using m by (metis mset_map)
    then show "distinct (map package_basename (map le_name ?entries))" using plan(3) mset_eq_imp_distinct_iff by fastforce
  qed
  have deps: "\<forall>e \<in> set ?entries. distinct (le_dependencies e)"
  proof
    fix e assume "e \<in> set ?entries"
    then obtain p where "build_entry lw (plan_url_to_name plan) p = (Ok e :: ('f, 'm, 't, 'v lockfile_entry) locking)"
      using list_all2_members(2) [OF built] unfolding members by blast
    then show "distinct (le_dependencies e)" by (rule build_entry_Ok) (simp add: sorted_list_of_fset.rep_eq)
  qed
  define pkg where "pkg e = locked_form ?w (SOME p. p \<in> set plan \<and> build_entry lw (plan_url_to_name plan) p = (Ok e :: ('f, 'm, 't, 'v lockfile_entry) locking))" for e
  have pkg: "locked_package lw e = Ok (pkg e)" "pkg e \<in> locked_form ?w ` set plan" "rp_name (pkg e) = le_name e" if member: "e \<in> set ?entries" for e
  proof -
    obtain p where p: "p \<in> set plan \<and> build_entry lw (plan_url_to_name plan) p = (Ok e :: ('f, 'm, 't, 'v lockfile_entry) locking)"
      using list_all2_members(2) [OF built] member unfolding members by blast
    note q = someI [of "\<lambda>p. p \<in> set plan \<and> build_entry lw (plan_url_to_name plan) p = (Ok e :: ('f, 'm, 't, 'v lockfile_entry) locking)", OF p]
    show "locked_package lw e = Ok (pkg e)" unfolding pkg_def by (rule locked_package_built [OF laws conjunct1 [OF q] conjunct2 [OF q]])
    show "pkg e \<in> locked_form ?w ` set plan" unfolding pkg_def using q by blast
    show "rp_name (pkg e) = le_name e" unfolding pkg_def by (rule build_entry_Ok [OF conjunct2 [OF q]]) simp
  qed
  define by_name where "by_name = fold (\<lambda>p. fmupd (rp_name p) p) (map pkg ?entries) fmempty"
  have pkg_names: "map rp_name (map pkg ?entries) = map le_name ?entries" using pkg(3) by simp
  have found: "fmlookup by_name (rp_name p) = Some (locked_form ?w p)" if p: "p \<in> set plan" for p
  proof -
    have "rp_name p \<in> set (map le_name ?entries)" using names_es p members by (metis image_eqI list.set_map)
    then obtain e where e: "e \<in> set ?entries" "le_name e = rp_name p" by auto
    obtain p' where p': "p' \<in> set plan" "pkg e = locked_form ?w p'" using pkg(2) [OF e(1)] by auto
    have "rp_name p' = rp_name p" using pkg(3) [OF e(1)] e(2) p'(2) by simp
    then have same: "pkg e = locked_form ?w p" using plan(1) p p' by (auto simp: distinct_map inj_on_def)
    have d: "distinct (map rp_name (map pkg ?entries))" unfolding pkg_names by (rule names(1))
    have "find (\<lambda>z. rp_name z = rp_name (pkg e)) (map pkg ?entries) = Some (pkg e)"
      by (rule find_by_key [OF d]) (use e(1) in simp)
    then show ?thesis using fold_fmupd_lookup [OF d, of "\<lambda>p. p" fmempty "rp_name p"] same by (simp add: by_name_def)
  qed
  note order = plan_order [OF plan(1,2,4) built members]
  obtain ord where o: "dependency_order (entry_names ?entries) (entry_deps ?entries) ord"
      "set ord = entry_names ?entries \<longleftrightarrow> acyclic (depends (entry_names ?entries) (entry_deps ?entries))"
      "(topo_sort ?entries :: ('f, 'm, 't, string list) locking) =
         (if set ord = entry_names ?entries then Ok ord else Err (LockDependencyCycle (filter (\<lambda>n. n \<notin> set ord) (map le_name ?entries))))"
    using topo_sort_correct [OF names(1) deps] by blast
  have "acyclic (depends (entry_names ?entries) (entry_deps ?entries))"
    by (rule wf_acyclic [OF depends_wf [OF order(1)]]) (simp add: order(2))
  then have all: "set ord = rp_name ` set plan" and sorted: "(topo_sort ?entries :: ('f, 'm, 't, string list) locking) = Ok ord"
    using o(2,3) order(2) by simp_all
  let ?g = "\<lambda>n. the (fmlookup by_name n)"
  have "fmlookup by_name n \<noteq> None" if "n \<in> set ord" for n using that all found by auto
  then have taken: "take_by_name ord by_name = Some (map ?g ord)"
    using o(1) by (intro take_by_name_eq) (auto simp: dependency_order_def)
  have read: "locked_packages lw ?entries = (Ok (map pkg ?entries) :: ('f, 'm, 't, ('v, 'q) resolved_package list) locking)"
    by (rule locked_packages_built) (rule pkg(1))
  have result: "(to_resolve_plan lw lock :: ('f, 'm, 't, ('v, 'q) resolved_package list) locking) = Ok (map ?g ord)"
    using no_basename_collision [OF names(2)] read sorted taken by (simp add: to_resolve_plan_def by_name_def)
  have "set (map ?g ord) = locked_form ?w ` set plan" using found by (auto simp: all image_image)
  moreover have "\<forall>n \<in> set ord. rp_name (?g n) = n" using found by (auto simp: all)
  then have "map rp_name (map ?g ord) = ord" by (simp add: map_idI)
  moreover have "deps_earlier ?w (map ?g ord)"
  proof (rule locked_order_met [where plan = plan and D = "entry_deps ?entries" and g = ?g and order = ord])
    show "rp_name q \<in> entry_deps ?entries (rp_name p)"
      if "p \<in> set plan" "dep \<in> set (mf_dependencies (rp_manifest p))" "address_parse (dep_address dep) = Inr a" "q \<in> set plan"
        "plan_url q = to_git_url a" for p dep a q
      using order(3) [OF that] .
  qed (use plan(4) o(1) all found in \<open>auto simp: dependency_order_def\<close>)
  ultimately show ?thesis using result o(1) by (metis dependency_order_def)
qed

section \<open>Parts of a lockfile\<close>

lemma from_plan_urls:
  fixes lw :: "('v, 'q, 'f, 'm, 't) lock_world"
  assumes "from_plan lw plan = (Ok lock :: ('f, 'm, 't, 'v lockfile) locking)" "p \<in> set plan"
  shows "\<exists>e \<in> set (lf_packages lock). le_url e = to_git_url (rp_address p)"
proof -
  obtain es where es: "build_entries lw (plan_url_to_name plan) plan = (Ok es :: ('f, 'm, 't, 'v lockfile_entry list) locking)"
      "lf_packages lock = sort_key le_name es"
    using assms(1) by (auto simp: from_plan_def try_bind_Ok_iff)
  obtain e where e: "e \<in> set es" "build_entry lw (plan_url_to_name plan) p = (Ok e :: ('f, 'm, 't, 'v lockfile_entry) locking)"
    using list_all2_members(1) [OF build_entries_Ok [OF es(1)] assms(2)] by blast
  have "le_url e = to_git_url (rp_address p)" by (rule build_entry_Ok [OF e(2)])
  then show ?thesis using e(1) by (auto simp: es(2))
qed

lemma locked_packages_verified: "locked_packages lw es = Ok ps \<Longrightarrow> e \<in> set es \<Longrightarrow> verify_entry lw e = Ok ()"
  by (induction es arbitrary: ps) (auto simp: try_bind_Ok_iff locked_package_def)

lemma with_error_Ok_iff: "with_error f m = Ok v \<longleftrightarrow> m = Ok v"
  by (cases m) (auto simp: with_error_def map_err_Ok_iff)

end
