(* ===== verification/Lockfile_Properties.thy ===== *)
theory Lockfile_Properties
  imports Lockfile_Roundtrip Resolver_Properties
begin

text \<open>
  The properties of the lockfile, \<^verbatim>\<open>src/src/packages/lockfile.rs\<close>: a resolve that is locked and then repeated frozen
  installs the same packages, contents that were changed since are refused, and content hashes survive their text form.
\<close>

section \<open>A small world with a lockfile\<close>

definition unary_req :: "nat \<times> nat \<Rightarrow> string" where
  "unary_req req = replicate (fst req) (CHR ''1'') @ CHR ''-'' # replicate (snd req) (CHR ''1'')"

definition read_unary :: "string \<Rightarrow> string + nat \<times> nat" where
  "read_unary s = (case split_once (CHR ''-'') s of None \<Rightarrow> Inl ''not an interval'' | Some (lo, hi) \<Rightarrow> Inr (length lo, length hi))"

definition pad_digest :: "byte list \<Rightarrow> byte list" where
  "pad_digest bs = take 32 (bs @ replicate 32 0)"

definition commits_as_tags :: "('v, 'q, unit, 'm) package_world \<Rightarrow> ('v, 'q, unit, 'm) package_world" where
  "commits_as_tags w = w\<lparr>w_resolve := \<lambda>_ r. case r of RefCommit c \<Rightarrow> Inr c | _ \<Rightarrow> Inl ()\<rparr>"

definition sample_lock_world :: "byte list \<Rightarrow> (nat, nat \<times> nat, unit, unit, unit) lock_world" where
  "sample_lock_world contents =
     \<lparr>lw_packages = commits_as_tags (sample_world two_packages), lw_archive = (\<lambda>_ _. Inr contents), lw_sha256 = pad_digest,
      lw_show_req = unary_req, lw_parse_req = read_unary, lw_editor_version = ''0.1.0'', lw_to_toml = (\<lambda>_. Inl ()), lw_from_toml = (\<lambda>_. Inl ())\<rparr>"

lemma commits_as_tags_simps [simp]:
  "w_fetch (commits_as_tags w) = w_fetch w" "manifest_at (commits_as_tags w) = manifest_at w" "published (commits_as_tags w) = published w"
proof -
  have same: "w_toml (commits_as_tags w) = w_toml w" "w_show_blob (commits_as_tags w) = w_show_blob w"
    "w_list_tags (commits_as_tags w) = w_list_tags w" "w_parse_version (commits_as_tags w) = w_parse_version w"
    by (simp_all add: commits_as_tags_def)
  show "w_fetch (commits_as_tags w) = w_fetch w" by (simp add: commits_as_tags_def)
  show "manifest_at (commits_as_tags w) = manifest_at w" unfolding manifest_at_def same ..
  show "published (commits_as_tags w) = published w"
    unfolding published_def tag_candidates_def parse_tag_as_version_def same ..
qed

lemma commits_as_tags_ok:
  "honest (commits_as_tags w) N = honest w N" "dependency_closed (commits_as_tags w) U = dependency_closed w U"
  by (simp_all add: honest_def dependency_closed_def)

lemma sample_lock_laws: "lock_laws (sample_lock_world contents) plan"
proof -
  have "read_unary (unary_req req) = Inr req" for req
    using split_once_first [of "CHR ''-''" "replicate (fst req) (CHR ''1'')" "replicate (snd req) (CHR ''1'')"]
    by (simp add: read_unary_def unary_req_def)
  then show ?thesis by (simp add: lock_laws_def sample_lock_world_def commits_as_tags_def)
qed

definition sample_lock_entry :: "string \<Rightarrow> nat \<times> nat \<Rightarrow> string list \<Rightarrow> nat lockfile_entry" where
  "sample_lock_entry name req deps =
     \<lparr>le_name = name, le_url = ''https://'' @ name, le_commit = ''2'', le_version = 2,
      le_content_hash = \<lparr>ch_algorithm = ''sha256'', ch_hex = replicate 64 (CHR ''0'')\<rparr>,
      le_top_level_pin = Some (LockVersion (unary_req req)), le_dependencies = deps\<rparr>"

definition two_lock :: "nat lockfile" where
  "two_lock =
     \<lparr>lf_schema_version = 1, lf_generator = ''pmacs 0.1.0'',
      lf_packages = [sample_lock_entry ''a'' (1, 2) [''b''], sample_lock_entry ''b'' (0, 9) []]\<rparr>"

lemma two_locked:
  "resolve_requests (lw_packages (sample_lock_world [0])) two_requests = Ok two_plan"
  "from_plan (sample_lock_world [0]) two_plan = Ok two_lock"
  by code_simp+

section \<open>Frozen resolving\<close>

text \<open>
  C39. A fresh resolve, locked, and then repeated under the frozen policy, gives the same packages: every package of the
  fresh plan with the same name, version and manifest, at the commit its revision named, in an order in which again each
  dependency is met by an earlier package. As in C35, every repository keeps one name of its own at every revision, a tag
  spells the version its manifest declares, and the requests lie in a finite set of repositories closed under
  dependencies. Git answers in both runs alike: a manifest read at a revision is read at the commit the revision resolves
  to; and the text of each version requirement the plan is pinned to reads back.
\<close>

theorem frozen_reproduces_plan:
  assumes "honest (lw_packages lw) N" "inj_on N U" "dependency_closed (lw_packages lw) U" "finite U"
    and "\<forall>req \<in> set reqs. to_git_url (req_address req) \<in> U" "resolve_requests (lw_packages lw) reqs = Ok plan"
    and "lock_laws lw plan" "from_plan lw plan = Ok lock"
  shows "\<exists>plan'. resolve_with_policy lw reqs (Some lock) Frozen = Ok plan' \<and>
    set plan' = locked_form (lw_packages lw) ` set plan \<and> distinct (map rp_name plan') \<and>
    (\<forall>xs p ys. plan' = xs @ p # ys \<longrightarrow>
       (\<forall>dep \<in> set (mf_dependencies (rp_manifest p)). \<exists>a. \<exists>q \<in> set xs.
          address_parse (dep_address dep) = Inr a \<and> to_git_url (rp_address q) = to_git_url a \<and>
          w_matches (lw_packages lw) (dep_version dep) (rp_version q)))"
proof -
  note met = plan_dependencies_met [OF assms(1-6)]
  note urls = plan_urls_distinct [OF assms(1,3-6) conjunct1 [OF met]]
  have read: "manifests_read (lw_packages lw) plan" using plan_manifests(1) [OF assms(1,3-6)] by (simp add: manifests_read_def)
  have earlier: "deps_earlier (lw_packages lw) plan" using met by (simp add: deps_earlier_def)
  obtain plan' where p: "to_resolve_plan lw lock = Ok plan'" "set plan' = locked_form (lw_packages lw) ` set plan"
      "distinct (map rp_name plan')" "deps_earlier (lw_packages lw) plan'"
    using lock_roundtrip [OF assms(7) read _ urls _ earlier assms(8)] met by blast
  have "find (\<lambda>req. entry_by_url lock (to_git_url (req_address req)) = None) reqs = None"
    unfolding find_None_iff
  proof (intro notI, elim exE conjE)
    fix req assume req: "req \<in> set reqs" "entry_by_url lock (to_git_url (req_address req)) = None"
    obtain p where "p \<in> set plan" "rp_address p = req_address req" using plan_requests [OF assms(1,3-6) req(1)] by blast
    then have "\<exists>e \<in> set (lf_packages lock). le_url e = to_git_url (req_address req)" using from_plan_urls [OF assms(8)] by metis
    then show False using req(2) by (auto simp: entry_by_url_def find_None_iff)
  qed
  then have "resolve_with_policy lw reqs (Some lock) Frozen = Ok plan'" using p(1) by (simp add: resolve_with_policy_def with_error_def)
  then show ?thesis using p(2-4) unfolding deps_earlier_def by blast
qed

theorem frozen_reproduces_plan_witness:
  "\<exists>plan'. resolve_with_policy (sample_lock_world [0]) two_requests (Some two_lock) Frozen = Ok plan' \<and>
     rp_name ` set plan' = {''a'', ''b''}"
proof -
  have w: "honest (lw_packages (sample_lock_world [0])) two_names" "dependency_closed (lw_packages (sample_lock_world [0])) two_urls"
    using two_honest two_closed by (simp_all add: sample_lock_world_def commits_as_tags_ok)
  have "finite two_urls" by simp
  from frozen_reproduces_plan [OF w(1) two_names_inj w(2) this two_inside two_locked(1) sample_lock_laws two_locked(2)]
  obtain plan' where p: "resolve_with_policy (sample_lock_world [0]) two_requests (Some two_lock) Frozen = Ok plan'"
      "set plan' = locked_form (lw_packages (sample_lock_world [0])) ` set two_plan" by blast
  have "rp_name ` set plan' = rp_name ` set two_plan" unfolding p(2) by (simp add: image_image)
  then show ?thesis using p(1) by (auto simp: two_plan_def)
qed

section \<open>Changed contents\<close>

text \<open>
  C40. Contents that were changed are refused. If what git serves at the commit of an entry has another digest than the
  contents the entry was made from, verifying the entry reports the mismatch with both hashes, and the lockfile gives no
  plan, whatever the other entries are.
\<close>

theorem tampered_content_refused:
  assumes "e \<in> set (lf_packages lock)" "le_content_hash e = sha256_of lw recorded"
    and "w_fetch (lw_packages lw') (le_url e) = Inr repo" "lw_archive lw' repo (le_commit e) = Inr served"
    and "lw_sha256 lw' served \<noteq> lw_sha256 lw recorded"
  shows "verify_entry lw' e = Err (ContentHashMismatch (le_name e) (le_url e) (le_commit e) (le_content_hash e) (sha256_of lw' served)) \<and>
    (\<forall>plan. to_resolve_plan lw' lock \<noteq> Ok plan) \<and> (\<forall>reqs plan. resolve_with_policy lw' reqs (Some lock) Frozen \<noteq> Ok plan)"
proof -
  have "sha256_of lw' served \<noteq> le_content_hash e" using assms(2,5) by (simp add: sha256_of_def hex_encode_inj)
  then have bad: "verify_entry lw' e = Err (ContentHashMismatch (le_name e) (le_url e) (le_commit e) (le_content_hash e) (sha256_of lw' served))"
    using assms(3,4) by (simp add: verify_entry_def)
  then have "locked_packages lw' (lf_packages lock) \<noteq> Ok ps" for ps using locked_packages_verified assms(1) by fastforce
  then have none: "to_resolve_plan lw' lock \<noteq> Ok plan" for plan
    by (auto simp: to_resolve_plan_def try_bind_Ok_iff split: option.split)
  then have "resolve_with_policy lw' reqs (Some lock) Frozen \<noteq> Ok plan" for reqs plan
    by (auto simp: resolve_with_policy_def with_error_Ok_iff split: option.split)
  then show ?thesis using bad none by blast
qed

theorem tampered_content_refused_witness:
  "resolve_with_policy (sample_lock_world [1]) two_requests (Some two_lock) Frozen \<noteq> Ok two_plan"
proof -
  let ?e = "sample_lock_entry ''a'' (1, 2) [''b'']"
  have hash: "le_content_hash ?e = sha256_of (sample_lock_world [0]) [0]" by code_simp
  have "?e \<in> set (lf_packages two_lock)" by (simp add: two_lock_def)
  moreover have "w_fetch (lw_packages (sample_lock_world [1])) (le_url ?e) = Inr ''https://a''" by code_simp
  moreover have "lw_archive (sample_lock_world [1]) ''https://a'' (le_commit ?e) = Inr [1]" by (simp add: sample_lock_world_def)
  moreover have "lw_sha256 (sample_lock_world [1]) [1] \<noteq> lw_sha256 (sample_lock_world [0]) [0]" by (simp add: sample_lock_world_def pad_digest_def)
  ultimately show ?thesis using tampered_content_refused [OF _ hash] by blast
qed

section \<open>Content hashes as text\<close>

text \<open>
  A SHA-256 content hash survives its text form, and whatever text is accepted as a content hash is read as one in
  lower case that is written and read back unchanged.
\<close>

theorem content_hash_roundtrip:
  "(length (lw_sha256 lw bytes) = 32 \<longrightarrow> content_hash_parse (to_wire_string (sha256_of lw bytes)) = Inr (sha256_of lw bytes)) \<and>
   (content_hash_parse s = Inr h \<longrightarrow>
      ch_algorithm h = ''sha256'' \<and> length (ch_hex h) = 64 \<and> set (ch_hex h) \<subseteq> set ''0123456789abcdef'' \<and>
      content_hash_parse (to_wire_string h) = Inr h)"
proof (intro conjI impI)
  assume "length (lw_sha256 lw bytes) = 32"
  then show "content_hash_parse (to_wire_string (sha256_of lw bytes)) = Inr (sha256_of lw bytes)"
    unfolding sha256_of_def by (intro parse_wire hex_encode_digits) (simp add: hex_encode_length)
next
  assume "content_hash_parse s = Inr h"
  then obtain hex where h: "h = \<lparr>ch_algorithm = ''sha256'', ch_hex = map to_ascii_lowercase hex\<rparr>" "length hex = 64" "list_all is_ascii_hexdigit hex"
    by (auto simp: content_hash_parse_def split: option.splits if_splits)
  then have facts: "length (ch_hex h) = 64" "set (ch_hex h) \<subseteq> set ''0123456789abcdef''"
    using lowercase_hexdigit by (auto simp: list_all_iff simp del: list.set)
  show "ch_algorithm h = ''sha256''" by (simp add: h(1))
  show "length (ch_hex h) = 64" "set (ch_hex h) \<subseteq> set ''0123456789abcdef''" by (rule facts)+
  show "content_hash_parse (to_wire_string h) = Inr h" using parse_wire [OF facts] by (simp add: h(1))
qed

theorem content_hash_roundtrip_witness:
  "content_hash_parse (to_wire_string (sha256_of (sample_lock_world [0]) [7])) =
     (Inr (sha256_of (sample_lock_world [0]) [7]) :: (unit, unit, unit) lockfile_error + content_hash)"
  by (rule mp [OF conjunct1 [OF content_hash_roundtrip [of "sample_lock_world [0]" "[7]"]]]) (simp add: sample_lock_world_def pad_digest_def)

section \<open>Entries that repeat themselves\<close>

text \<open>A dependency listed twice is counted twice and met once, so it is taken for a cycle.\<close>

lemma duplicate_dependency_is_a_cycle:
  "topo_sort [sample_lock_entry ''a'' (1, 2) [''b'', ''b''], sample_lock_entry ''b'' (0, 9) []] =
     (Err (LockDependencyCycle [''a'']) :: (unit, unit, unit, string list) locking)"
  by code_simp

end
