(* ===== verification/Spec2Isabelle.thy ===== *)
theory Spec2Isabelle
  imports Text_Properties Fold_Properties Key_Properties Window_Layout Terminal_Properties Registry_Properties View_Properties Resolver_Properties Lockfile_Properties
begin

text \<open>
  Verification of parts of pmacs, an Emacs-like editor in Rust. The development models the editor's in-process core, the
  code that decides what the text, the keys, the windows, the terminal and the installed packages are, and leaves out what
  talks to the operating system, the network and the Lua runtime, and what lays text out on the screen.

  \<^bold>\<open>How the parts hang together.\<close>
  A \<^emph>\<open>buffer\<close> owns a \<^emph>\<open>rope\<close>, undo and redo stacks, marks and views; an edit is validated by the views, applied to
  the rope, recorded in the history, shifted through the marks and broadcast to the views. A \<^emph>\<open>fold store\<close> is the state
  of such a view. The \<^emph>\<open>registry\<close> holds the open buffers and names each one that visits a file by the shortest suffix of
  its path that no other one shares. A \<^emph>\<open>key\<close> notation is parsed into chords; \<^emph>\<open>keymaps\<close> are tries of them; the
  \<^emph>\<open>keymap stack\<close> resolves a sequence through the scopes and the dispatcher accumulates chords. The \<^emph>\<open>window\<close> tree
  splits the frame. The \<^emph>\<open>terminal\<close> feeds the bytes of a process through a parser whose events write a grid of cells.
  A \<^emph>\<open>frame\<close> is painted into a grid of cells, coloured by the \<^emph>\<open>theme\<close> at the depth of the frontend, compared with
  the last one and shipped as the spans that changed; style spans of a buffer are views of it, like folds. The
  \<^emph>\<open>package resolver\<close> turns requests into an install plan, which the \<^emph>\<open>lockfile\<close> records and reproduces.

  \<^bold>\<open>Conventions of the model.\<close>
  \<^item> A struct is a record and an enum a datatype, with the names of the source where HOL allows them.
  \<^item> \<open>outcome\<close> (\<open>Prelude\<close>) is the result of a Rust function: \<open>Panic\<close>, \<open>Err e\<close> or \<open>Ok v\<close>. Every index out of range,
    failed \<^verbatim>\<open>expect\<close> or assertion and underflow of the source is a \<open>Panic\<close> or \<open>None\<close> branch, and the properties show that it is not
    reached, or reach it. \<open>Checked\<close> holds the operations on vectors and unsigned integers that may panic.
  \<^item> Bytes are 8-bit words and Unicode text a list of code points; \<^verbatim>\<open>usize\<close> and \<^verbatim>\<open>u64\<close> offsets are natural numbers, as a
    text is far below the address space, while saturating and wrapping arithmetic on counters, fold offsets and terminal
    parameters is written out. File paths, package names and URLs are byte strings.
  \<^item> A \<^verbatim>\<open>BTreeMap\<close> is a finite map visited in key order; a \<^verbatim>\<open>HashMap\<close> is an association list or a mapping, and where the
    order of a hash table could show it is a parameter.
  \<^item> Loops are structural recursion where they can be. \<open>next_free\<close> of the naming rule, the two loops of the resolver and
    the two topological sorts are partial functions whose termination is proved; the rounds of the registry's settling
    carry the source's own limit of 8, and 3 are shown to be enough. No other definition takes fuel.

  \<^bold>\<open>The theories, and the code they model.\<close>
  \<^item> \<open>Prelude\<close>, \<open>Checked\<close>, \<open>Utf8\<close>: machine types, outcomes, lists, checked operations, and UTF-8 as the standard library
    defines it, with lossy decoding.
  \<^item> \<open>Text_Store\<close>, \<open>Rope\<close>: the contract of a byte store (locale \<open>text_store\<close>) and the B-tree of \<^verbatim>\<open>src/src/rope.rs\<close>,
    which is an interpretation of it (\<open>rp\<close>). The invariant is uniform depth, leaf and fan-out bounds and right cached
    lengths; every edit is refined to a splice of the byte list.
  \<^item> \<open>Buffer\<close>, \<open>Buffer_History\<close>, \<open>Text_Properties\<close>: \<^verbatim>\<open>src/src/buffer.rs\<close> in its rope mode and the parts of \<^verbatim>\<open>view.rs\<close>
    it calls. \<open>buf_step\<close> and \<open>buf_reach\<close> are the reachable buffers, by every operation that changes one; the history describes exactly the edits between
    consecutive ropes and refines a zipper.
  \<^item> \<open>Edit_Tracker\<close>, \<open>Fold\<close>, \<open>Fold_View\<close>, \<open>Fold_Properties\<close>: a view that keeps positions into its text (locale
    \<open>edit_tracker\<close>, interpreted as \<open>ft\<close> for folds and as \<open>st\<close> for style spans) and \<^verbatim>\<open>src/src/fold.rs\<close>.
  \<^item> \<open>Key\<close>, \<open>Binding_Store\<close>, \<open>Keymap\<close>, \<open>Keymap_Stack\<close>, \<open>Key_Properties\<close>: \<^verbatim>\<open>src/src/key.rs\<close>, \<^verbatim>\<open>keymap_tree.rs\<close> and
    \<^verbatim>\<open>keymap_stack.rs\<close>. The trie is an interpretation (\<open>km\<close>) of the locale \<open>binding_store\<close>, a prefix-free finite map.
  \<^item> \<open>Window\<close>, \<open>Window_Layout\<close>: the window tree of \<^verbatim>\<open>src/src/window.rs\<close>; viewports tile the frame.
  \<^item> \<open>Ansi_Event\<close>, \<open>Ansi\<close>, \<open>Ansi_Chunks\<close>, \<open>Ansi_Bounds\<close>: the escape-sequence parser \<^verbatim>\<open>src/src/ansi.rs\<close>, its
    independence of how the input is cut into reads and its bounded memory.
  \<^item> \<open>Cell\<close>, \<open>Terminal_Screen\<close>, \<open>Terminal_Safety\<close>, \<open>Terminal_Frame\<close>, \<open>Terminal_Properties\<close>: cells of
    \<^verbatim>\<open>src/pmacs-protocol/src/cell.rs\<close> and the screen \<^verbatim>\<open>src/src/terminal/screen.rs\<close>; its shape invariant, the absence of
    panics for output when no accepted scrolling region ends above the last row, the panics outside that case, and the
    frame that synchronized output holds, which no other event touches.
  \<^item> \<open>Buffer_Names\<close>, \<open>Buffer_Naming\<close>: the naming rule of \<^verbatim>\<open>src/src/buffer_names.rs\<close>, as the reference for the registry.
  \<^item> \<open>Buffer_Registry\<close> and \<open>Registry_Index\<close>, \<open>Registry_Filing\<close>, \<open>Registry_Leaving\<close>, \<open>Registry_Settling\<close>,
    \<open>Registry_Rounds\<close>, \<open>Registry_Operations\<close>, \<open>Registry_Steps\<close>, \<open>Registry_Properties\<close>:
    \<^verbatim>\<open>src/src/buffer_registry.rs\<close> with its incremental index, and its callers in \<^verbatim>\<open>editor_core.rs\<close> that move paths. The
    index is a tally of the paths that are filed, settling names every path by the rule, and after any sequence of
    operations (\<open>reg_reachable\<close>), of which refreshing the names of several buffers moved at once is one, the names are
    those the rule gives to the whole set at once.
  \<^item> \<open>Cell_Grid\<close>, \<open>Overlay\<close>: the grid and the diff of \<^verbatim>\<open>src/src/cell.rs\<close>, and \<^verbatim>\<open>src/src/overlay.rs\<close>: merged styles, painted
    spans and the translator that moves byte spans with the edits of their buffer.
  \<^item> \<open>Theme\<close>, \<open>Color_Depth\<close>, \<open>Render_State\<close>: themes and the user layer of \<^verbatim>\<open>src/src/highlight.rs\<close>,
    \<^verbatim>\<open>src/src/color_depth.rs\<close> and \<^verbatim>\<open>src/src/instance_render.rs\<close>. \<open>render_reach\<close> are the runs of an instance with its
    frontend; the cached map of colours is valid for the epochs of the theme, and the screen is the last frame.
  \<^item> \<open>Display_Width\<close>, \<open>Wire_Grid\<close>, \<open>View_Properties\<close>: \<^verbatim>\<open>src/src/display_width.rs\<close> with \<^verbatim>\<open>columns.rs\<close> of the protocol, the
    validation of \<^verbatim>\<open>wire_grid.rs\<close>, \<^verbatim>\<open>panel.rs\<close> and \<^verbatim>\<open>terminal.rs\<close> of \<^verbatim>\<open>src/pmacs-protocol/src\<close> against a reference
    in which rows are tiled by glyphs, and the properties of this group.
  \<^item> \<open>Package_Manifest\<close>, \<open>Package_Resolver\<close>: \<^verbatim>\<open>src/src/packages/address.rs\<close>, \<^verbatim>\<open>manifest.rs\<close> and \<^verbatim>\<open>resolver.rs\<close>.
    \<open>Resolver_Reading\<close> shows that its caches are invisible and what is picked; \<open>Resolver_Invariant\<close>,
    \<open>Resolver_Operations\<close>, \<open>Resolver_Fixpoint\<close> and \<open>Resolver_Loops\<close> carry the invariant through every step and show the
    loops to end; \<open>Topological_Order\<close> is Kahn's algorithm over a container of ready nodes (locale \<open>ready_loop\<close>),
    interpreted for the resolver's ordered set (\<open>kahn\<close>, in \<open>Resolver_Order\<close>) and the lockfile's queue (\<open>queue\<close>, in
    \<open>Lockfile_Order\<close>); \<open>Resolver_Outcome\<close> and \<open>Resolver_Properties\<close> say what a plan is worth.
  \<^item> \<open>Package_Lockfile\<close>, \<open>Lockfile_Order\<close>, \<open>Lockfile_Roundtrip\<close>, \<open>Lockfile_Properties\<close>:
    \<^verbatim>\<open>src/src/packages/lockfile.rs\<close> and \<^verbatim>\<open>Resolver::resolve_with_policy\<close>; a locked plan is reproduced and changed
    contents are refused.

  \<^bold>\<open>Parameters and hypotheses.\<close>
  What the code calls and the repository does not hold is an argument of the definitions: the views of a buffer
  (\<open>view_ops\<close>), character widths and grapheme boundaries of the Unicode crates, debug forms of key codes, the iteration
  order of hash sets, what paints a frame (any function that writes into the grid), and, in \<open>package_world\<close> and \<open>lock_world\<close>, git, TOML, versions and SHA-256. The hypotheses on them
  are: the view contract of \<open>edit_tracker\<close>; \<open>honest\<close> (a repository keeps one package name, and a tag spells the version
  of its manifest), \<open>dependency_closed\<close> with a finite set (finitely many repositories are reachable), and names that
  tell repositories apart; \<open>lock_laws\<close> (a manifest read at a revision is read at the commit it resolves to, and the text of
  the requirements a plan is pinned to reads back). Without \<open>honest\<close> resolving need not end (\<open>resolve_may_not_return\<close>) and
  a plan may violate a request (\<open>mislabelled_tag_breaks_plan\<close>); without names that tell repositories apart it may lack a
  dependency (\<open>shared_name_breaks_plan\<close>). Fitting text needs the
  space and the ellipsis to be one column wide; the colours of a frame need the authored fallbacks in range, which the
  parser of themes ensures.

  \<^bold>\<open>Findings.\<close>
  Some theorems state what the code does where its comments say otherwise, or where it goes wrong: the modified flag
  after an undo past a save (\<open>undo_after_save_reports_clean\<close>), folding at a head line (\<open>fold_cycle_stuck_on_head_line\<close>),
  text that wraps below the scrolling region (\<open>soft_wrap_panics_below_region\<close>), resizing after a region has scrolled
  (\<open>resize_after_region_panics\<close>), an unterminated control string (\<open>control_string_swallows\<close>), a preferred version that a
  later requirement rules out (\<open>preference_breaks_requirement\<close>), a mislabelled tag (\<open>resolve_may_not_return\<close>,
  \<open>mislabelled_tag_breaks_plan\<close>) and repositories that share a name (\<open>shared_name_breaks_plan\<close>).

  \<^bold>\<open>Not modelled.\<close>
  The buffer mode backed by the CRDT library, tree-sitter parsing and highlighting, the text view and what is laid out
  through it (wrapping, the painting of byte spans), the semantic renderer and the GPU frontend, the daemon and its
  transport, the clients of the language-server and model-context protocols, the Lua bindings, processes and workers,
  autosave and projects, and the fetcher, installer and loader of packages: they are input and output over crates the
  repository does not hold, or glue to them. Of \<^verbatim>\<open>src/src/window.rs\<close> the rendering state is left out, of
  \<^verbatim>\<open>highlight.rs\<close> the built-in table of colours. Search, completion and the configuration registry are ordinary code and
  the natural next parts.
\<close>

end
